(* ===== verification/Click_Prelude.thy ===== *)
theory Click_Prelude
  imports Main "HOL-Library.Word" "HOL-Library.Monad_Syntax"
begin

unbundle bit_operations_syntax

text \<open>
  Shared vocabulary of the development: bytes and machine words, the little-endian
  memory view a user-level Click process on x86 has of a packet, the byte-order
  conversions \<^verbatim>\<open>htons\<close>, \<^verbatim>\<open>ntohs\<close>, \<^verbatim>\<open>htonl\<close>, \<^verbatim>\<open>ntohl\<close>, and the list lemmas that the
  component theories rely on.

  A C++ expression such as \<^verbatim>\<open>((click_ip *) p->data())->ip_p\<close> is an unchecked read at a
  fixed offset. It is modelled by the functions \<open>ld8\<close>, \<open>ld16\<close>, \<open>ld32\<close>, \<open>ld64\<close> on the
  packet's bytes: the result is an option, and \<open>None\<close> means that the program reads
  outside the bytes it owns (undefined behaviour). Writes are \<open>st8\<close>, \<open>st16\<close>, \<open>st32\<close>,
  \<open>st64\<close>, with the same convention. Handlers thread these options, so that a result
  \<open>None\<close> of a handler always stands for undefined behaviour of the C++ code.
\<close>

type_synonym byte = "8 word"
type_synonym u16 = "16 word"
type_synonym u32 = "32 word"
type_synonym u64 = "64 word"
type_synonym bytes = "byte list"

text \<open>An IPv4 address as Click holds it: the 32-bit integer read from the four network-order
  bytes by a little-endian load.\<close>

type_synonym ipaddr = u32

named_theorems mem_simps \<open>rewriting of loads over stores\<close>
named_theorems wrd_simps \<open>values of machine words as natural numbers\<close>

section \<open>Assembling and splitting words\<close>

definition le16 :: "byte \<Rightarrow> byte \<Rightarrow> u16" where
  "le16 b0 b1 = of_nat (unat b0 + 256 * unat b1)"

definition lo8 :: "u16 \<Rightarrow> byte" where
  "lo8 w = of_nat (unat w mod 256)"

definition hi8 :: "u16 \<Rightarrow> byte" where
  "hi8 w = of_nat (unat w div 256)"

definition le32 :: "u16 \<Rightarrow> u16 \<Rightarrow> u32" where
  "le32 h0 h1 = of_nat (unat h0 + 65536 * unat h1)"

definition lo16 :: "u32 \<Rightarrow> u16" where
  "lo16 w = of_nat (unat w mod 65536)"

definition hi16 :: "u32 \<Rightarrow> u16" where
  "hi16 w = of_nat (unat w div 65536)"

definition le64 :: "u32 \<Rightarrow> u32 \<Rightarrow> u64" where
  "le64 w0 w1 = of_nat (unat w0 + 4294967296 * unat w1)"

definition lo32 :: "u64 \<Rightarrow> u32" where
  "lo32 w = of_nat (unat w mod 4294967296)"

definition hi32 :: "u64 \<Rightarrow> u32" where
  "hi32 w = of_nat (unat w div 4294967296)"

section \<open>Byte order\<close>

text \<open>On a little-endian host both directions of a conversion swap the bytes.\<close>

definition htons :: "u16 \<Rightarrow> u16" where
  "htons w = le16 (hi8 w) (lo8 w)"

definition ntohs :: "u16 \<Rightarrow> u16" where
  "ntohs w = le16 (hi8 w) (lo8 w)"

definition htonl :: "u32 \<Rightarrow> u32" where
  "htonl w = le32 (htons (hi16 w)) (htons (lo16 w))"

definition ntohl :: "u32 \<Rightarrow> u32" where
  "ntohl w = le32 (ntohs (hi16 w)) (ntohs (lo16 w))"

section \<open>Memory: loads and stores on a byte list\<close>

definition get8 :: "bytes \<Rightarrow> nat \<Rightarrow> byte" where
  "get8 d i = d ! i"

definition get16 :: "bytes \<Rightarrow> nat \<Rightarrow> u16" where
  "get16 d i = le16 (d ! i) (d ! (i + 1))"

definition get32 :: "bytes \<Rightarrow> nat \<Rightarrow> u32" where
  "get32 d i = le32 (get16 d i) (get16 d (i + 2))"

definition get64 :: "bytes \<Rightarrow> nat \<Rightarrow> u64" where
  "get64 d i = le64 (get32 d i) (get32 d (i + 4))"

definition ld8 :: "bytes \<Rightarrow> nat \<Rightarrow> byte option" where
  "ld8 d i = (if i + 1 \<le> length d then Some (get8 d i) else None)"

definition ld16 :: "bytes \<Rightarrow> nat \<Rightarrow> u16 option" where
  "ld16 d i = (if i + 2 \<le> length d then Some (get16 d i) else None)"

definition ld32 :: "bytes \<Rightarrow> nat \<Rightarrow> u32 option" where
  "ld32 d i = (if i + 4 \<le> length d then Some (get32 d i) else None)"

definition ld64 :: "bytes \<Rightarrow> nat \<Rightarrow> u64 option" where
  "ld64 d i = (if i + 8 \<le> length d then Some (get64 d i) else None)"

definition upd8 :: "nat \<Rightarrow> byte \<Rightarrow> bytes \<Rightarrow> bytes" where
  "upd8 i v d = d[i := v]"

definition upd16 :: "nat \<Rightarrow> u16 \<Rightarrow> bytes \<Rightarrow> bytes" where
  "upd16 i v d = d[i := lo8 v, i + 1 := hi8 v]"

definition upd32 :: "nat \<Rightarrow> u32 \<Rightarrow> bytes \<Rightarrow> bytes" where
  "upd32 i v d = upd16 (i + 2) (hi16 v) (upd16 i (lo16 v) d)"

definition upd64 :: "nat \<Rightarrow> u64 \<Rightarrow> bytes \<Rightarrow> bytes" where
  "upd64 i v d = upd32 (i + 4) (hi32 v) (upd32 i (lo32 v) d)"

definition st8 :: "nat \<Rightarrow> byte \<Rightarrow> bytes \<Rightarrow> bytes option" where
  "st8 i v d = (if i + 1 \<le> length d then Some (upd8 i v d) else None)"

definition st16 :: "nat \<Rightarrow> u16 \<Rightarrow> bytes \<Rightarrow> bytes option" where
  "st16 i v d = (if i + 2 \<le> length d then Some (upd16 i v d) else None)"

definition st32 :: "nat \<Rightarrow> u32 \<Rightarrow> bytes \<Rightarrow> bytes option" where
  "st32 i v d = (if i + 4 \<le> length d then Some (upd32 i v d) else None)"

definition st64 :: "nat \<Rightarrow> u64 \<Rightarrow> bytes \<Rightarrow> bytes option" where
  "st64 i v d = (if i + 8 \<le> length d then Some (upd64 i v d) else None)"

text \<open>\<^verbatim>\<open>memset(p, 0, n)\<close> on a whole data area, and the bytes \<open>[i, i + n)\<close> of one.\<close>

definition zeros :: "nat \<Rightarrow> bytes" where
  "zeros n = replicate n 0"

definition slice :: "nat \<Rightarrow> nat \<Rightarrow> bytes \<Rightarrow> bytes" where
  "slice i n d = take n (drop i d)"

section \<open>Word lemmas\<close>

lemma unat_less_256 [simp]: "unat (b :: byte) < 256"
  using unsigned_less [of b] by simp

lemma unat_less_65536 [simp]: "unat (h :: u16) < 65536"
  using unsigned_less [of h] by simp

lemma unat_less_2_32 [simp]: "unat (w :: u32) < 4294967296"
  using unsigned_less [of w] by simp

lemma unat_less_2_64 [simp]: "unat (w :: u64) < 18446744073709551616"
  using unsigned_less [of w] by simp

lemma unat_bounds_le: "unat (b :: byte) \<le> 255" "unat (h :: u16) \<le> 65535"
  using unat_less_256 [of b] unat_less_65536 [of h] by linarith+

lemma unat_word_of_nat: "n < 2 ^ LENGTH('a) \<Longrightarrow> unat (of_nat n :: 'a::len word) = n"
  by (simp only: unat_of_nat) (simp add: take_bit_nat_eq_self)

lemma unat_add_one: "a < b \<Longrightarrow> unat (a + 1) = unat a + 1" for a :: "'a::len word"
proof -
  assume "a < b"
  then have "unat a < unat b" by (simp add: word_less_nat_alt)
  moreover have "unat b < 2 ^ LENGTH('a)" by (rule unsigned_less)
  ultimately have "unat a + 1 < 2 ^ LENGTH('a)" by linarith
  then show ?thesis by (simp add: unat_word_ariths)
qed

lemma unat_sub_one: "0 < a \<Longrightarrow> unat (a - 1) = unat a - 1" for a :: "'a::len word"
  by (metis One_nat_def less_eq_Suc_le less_imp_diff_less unat_1 unat_sub word_gt_0 word_le_nat_alt
      unat_eq_zero neq0_conv)

lemma unat_le16 [wrd_simps]: "unat (le16 a b) = unat a + 256 * unat b"
proof -
  have "unat a + 256 * unat b < 65536"
    using unat_less_256 [of a] unat_less_256 [of b] by linarith
  then show ?thesis unfolding le16_def by (intro unat_word_of_nat) simp
qed

lemma unat_lo8 [wrd_simps]: "unat (lo8 w) = unat w mod 256"
  by (simp add: lo8_def unat_of_nat)

lemma unat_hi8 [wrd_simps]: "unat (hi8 w) = unat w div 256"
proof -
  have "unat w div 256 < 256"
    using unat_less_65536 [of w] by linarith
  then show ?thesis by (simp add: hi8_def unat_of_nat)
qed

lemma unat_le32 [wrd_simps]: "unat (le32 a b) = unat a + 65536 * unat b"
proof -
  have "unat a + 65536 * unat b < 4294967296"
    using unat_less_65536 [of a] unat_less_65536 [of b] by linarith
  then show ?thesis unfolding le32_def by (intro unat_word_of_nat) simp
qed

lemma unat_lo16 [wrd_simps]: "unat (lo16 w) = unat w mod 65536"
  by (simp add: lo16_def unat_of_nat)

lemma unat_hi16 [wrd_simps]: "unat (hi16 w) = unat w div 65536"
proof -
  have "unat w div 65536 < 65536"
    using unat_less_2_32 [of w] by linarith
  then show ?thesis by (simp add: hi16_def unat_of_nat)
qed

lemma unat_le64 [wrd_simps]: "unat (le64 a b) = unat a + 4294967296 * unat b"
proof -
  have "unat a + 4294967296 * unat b < 18446744073709551616"
    using unat_less_2_32 [of a] unat_less_2_32 [of b] by linarith
  then show ?thesis unfolding le64_def by (intro unat_word_of_nat) simp
qed

lemma unat_lo32 [wrd_simps]: "unat (lo32 w) = unat w mod 4294967296"
  by (simp add: lo32_def unat_of_nat)

lemma unat_hi32 [wrd_simps]: "unat (hi32 w) = unat w div 4294967296"
proof -
  have "unat w div 4294967296 < 4294967296"
    using unat_less_2_64 [of w] by linarith
  then show ?thesis by (simp add: hi32_def unat_of_nat)
qed

lemma le16_split [simp]: "lo8 (le16 a b) = a" "hi8 (le16 a b) = b" "le16 (lo8 w) (hi8 w) = w"
  by (simp_all add: word_unat_eq_iff wrd_simps)

lemma le32_split [simp]: "lo16 (le32 a b) = a" "hi16 (le32 a b) = b" "le32 (lo16 w) (hi16 w) = w"
  by (simp_all add: word_unat_eq_iff wrd_simps)

lemma le64_split [simp]: "lo32 (le64 a b) = a" "hi32 (le64 a b) = b" "le64 (lo32 w) (hi32 w) = w"
  by (simp_all add: word_unat_eq_iff wrd_simps)

lemma le16_inject [simp]: "le16 a b = le16 c d \<longleftrightarrow> a = c \<and> b = d"
  by (metis le16_split(1,2))

lemma le32_inject [simp]: "le32 a b = le32 c d \<longleftrightarrow> a = c \<and> b = d"
  by (metis le32_split(1,2))

lemma le64_inject [simp]: "le64 a b = le64 c d \<longleftrightarrow> a = c \<and> b = d"
  by (metis le64_split(1,2))

section \<open>Byte order lemmas\<close>

text \<open>The conversions are involutions and, on this host, each direction is the same function.\<close>

lemma ntohs_eq_htons: "ntohs = htons"
  by (simp add: fun_eq_iff ntohs_def htons_def)

lemma htons_htons [simp]: "htons (htons w) = w"
  by (simp add: htons_def)

lemma ntohs_htons [simp]: "ntohs (htons w) = w" "htons (ntohs w) = w" "ntohs (ntohs w) = w"
  by (simp_all add: ntohs_eq_htons)

lemma ntohl_htonl [simp]: "ntohl (htonl w) = w" "htonl (ntohl w) = w" "htonl (htonl w) = w"
  by (simp_all add: htonl_def ntohl_def ntohs_eq_htons)

lemma htons_inject [simp]: "htons v = htons w \<longleftrightarrow> v = w"
  by (metis htons_htons)

lemma htonl_inject [simp]: "htonl v = htonl w \<longleftrightarrow> v = w"
  by (metis ntohl_htonl(3))

lemma byteorder_zero [simp]:
  "htons 0 = 0" "ntohs 0 = 0" "htons w = 0 \<longleftrightarrow> w = 0" "ntohs w = 0 \<longleftrightarrow> w = 0"
proof -
  show z: "htons 0 = 0" "ntohs 0 = 0"
    by (simp_all add: htons_def ntohs_def le16_def hi8_def lo8_def)
  show "htons w = 0 \<longleftrightarrow> w = 0" using htons_inject [of w 0] by (simp only: z)
  then show "ntohs w = 0 \<longleftrightarrow> w = 0" by (simp only: ntohs_eq_htons)
qed

lemma unat_htons [wrd_simps]: "unat (htons w) = unat w div 256 + 256 * (unat w mod 256)"
  by (simp add: htons_def wrd_simps)

lemma unat_ntohs [wrd_simps]: "unat (ntohs w) = unat w div 256 + 256 * (unat w mod 256)"
  by (simp add: ntohs_eq_htons unat_htons)

section \<open>Memory lemmas\<close>

lemma length_upd [simp]:
  "length (upd8 i b d) = length d"
  "length (upd16 i h d) = length d"
  "length (upd32 i w d) = length d"
  "length (upd64 i q d) = length d"
  by (simp_all add: upd8_def upd16_def upd32_def upd64_def)

lemma length_zeros [simp]: "length (zeros n) = n"
  by (simp add: zeros_def)

lemma length_slice [simp]: "length (slice i n d) = min n (length d - i)"
  by (simp add: slice_def)

lemma get_zeros [mem_simps]:
  "i + 1 \<le> n \<Longrightarrow> get8 (zeros n) i = 0"
  "i + 2 \<le> n \<Longrightarrow> get16 (zeros n) i = 0"
  "i + 4 \<le> n \<Longrightarrow> get32 (zeros n) i = 0"
  "i + 8 \<le> n \<Longrightarrow> get64 (zeros n) i = 0"
  by (simp_all add: get8_def get16_def get32_def get64_def zeros_def
      le16_def le32_def le64_def)

text \<open>A field reads back what was stored in it.\<close>

lemma get_upd_same [mem_simps]:
  "i + 1 \<le> length d \<Longrightarrow> get8 (upd8 i b d) i = b"
  "i + 2 \<le> length d \<Longrightarrow> get16 (upd16 i h d) i = h"
  "i + 4 \<le> length d \<Longrightarrow> get32 (upd32 i w d) i = w"
  "i + 8 \<le> length d \<Longrightarrow> get64 (upd64 i q d) i = q"
  by (simp_all add: get8_def get16_def get32_def get64_def upd8_def upd16_def upd32_def
      upd64_def nth_list_update)

text \<open>Fields that do not overlap are independent.\<close>

lemma get8_upd_other [mem_simps]:
  "i \<noteq> j \<Longrightarrow> get8 (upd8 i b d) j = get8 d j"
  "j + 1 \<le> i \<or> i + 2 \<le> j \<Longrightarrow> get8 (upd16 i h d) j = get8 d j"
  "j + 1 \<le> i \<or> i + 4 \<le> j \<Longrightarrow> get8 (upd32 i w d) j = get8 d j"
  "j + 1 \<le> i \<or> i + 8 \<le> j \<Longrightarrow> get8 (upd64 i q d) j = get8 d j"
  by (auto simp: get8_def upd8_def upd16_def upd32_def upd64_def)

lemma get16_upd_other [mem_simps]:
  "j + 2 \<le> i \<or> i + 1 \<le> j \<Longrightarrow> get16 (upd8 i b d) j = get16 d j"
  "j + 2 \<le> i \<or> i + 2 \<le> j \<Longrightarrow> get16 (upd16 i h d) j = get16 d j"
  "j + 2 \<le> i \<or> i + 4 \<le> j \<Longrightarrow> get16 (upd32 i w d) j = get16 d j"
  "j + 2 \<le> i \<or> i + 8 \<le> j \<Longrightarrow> get16 (upd64 i q d) j = get16 d j"
  by (auto simp: get16_def upd8_def upd16_def upd32_def upd64_def)

lemma get32_upd_other [mem_simps]:
  "j + 4 \<le> i \<or> i + 1 \<le> j \<Longrightarrow> get32 (upd8 i b d) j = get32 d j"
  "j + 4 \<le> i \<or> i + 2 \<le> j \<Longrightarrow> get32 (upd16 i h d) j = get32 d j"
  "j + 4 \<le> i \<or> i + 4 \<le> j \<Longrightarrow> get32 (upd32 i w d) j = get32 d j"
  "j + 4 \<le> i \<or> i + 8 \<le> j \<Longrightarrow> get32 (upd64 i q d) j = get32 d j"
  by (auto simp: get32_def get16_def upd8_def upd16_def upd32_def upd64_def)

lemma get64_upd_other [mem_simps]:
  "j + 8 \<le> i \<or> i + 1 \<le> j \<Longrightarrow> get64 (upd8 i b d) j = get64 d j"
  "j + 8 \<le> i \<or> i + 2 \<le> j \<Longrightarrow> get64 (upd16 i h d) j = get64 d j"
  "j + 8 \<le> i \<or> i + 4 \<le> j \<Longrightarrow> get64 (upd32 i w d) j = get64 d j"
  "j + 8 \<le> i \<or> i + 8 \<le> j \<Longrightarrow> get64 (upd64 i q d) j = get64 d j"
  by (auto simp: get64_def get32_def get16_def upd8_def upd16_def upd32_def upd64_def)

lemma ld_in_range [mem_simps]:
  "i + 1 \<le> length d \<Longrightarrow> ld8 d i = Some (get8 d i)"
  "i + 2 \<le> length d \<Longrightarrow> ld16 d i = Some (get16 d i)"
  "i + 4 \<le> length d \<Longrightarrow> ld32 d i = Some (get32 d i)"
  "i + 8 \<le> length d \<Longrightarrow> ld64 d i = Some (get64 d i)"
  by (simp_all add: ld8_def ld16_def ld32_def ld64_def)

lemma st_in_range [mem_simps]:
  "i + 1 \<le> length d \<Longrightarrow> st8 i b d = Some (upd8 i b d)"
  "i + 2 \<le> length d \<Longrightarrow> st16 i h d = Some (upd16 i h d)"
  "i + 4 \<le> length d \<Longrightarrow> st32 i w d = Some (upd32 i w d)"
  "i + 8 \<le> length d \<Longrightarrow> st64 i q d = Some (upd64 i q d)"
  by (simp_all add: st8_def st16_def st32_def st64_def)

lemma st_length:
  "st8 i b d = Some e \<Longrightarrow> length e = length d"
  "st16 i h d = Some e \<Longrightarrow> length e = length d"
  "st32 i w d = Some e \<Longrightarrow> length e = length d"
  "st64 i q d = Some e \<Longrightarrow> length e = length d"
  by (auto simp: st8_def st16_def st32_def st64_def split: if_splits)

text \<open>Reads through a slice, and writes outside of one.\<close>

lemma get_slice [mem_simps]:
  "j + 1 \<le> n \<Longrightarrow> i + n \<le> length d \<Longrightarrow> get8 (slice i n d) j = get8 d (i + j)"
  "j + 2 \<le> n \<Longrightarrow> i + n \<le> length d \<Longrightarrow> get16 (slice i n d) j = get16 d (i + j)"
  "j + 4 \<le> n \<Longrightarrow> i + n \<le> length d \<Longrightarrow> get32 (slice i n d) j = get32 d (i + j)"
  by (simp_all add: get8_def get16_def get32_def slice_def add.assoc)

lemma slice_list_update_outside:
  "i + n \<le> k \<or> k < i \<Longrightarrow> slice i n (d[k := v]) = slice i n d"
  by (auto simp: slice_def drop_update_swap take_update_swap list_update_beyond)

lemma slice_upd_outside [mem_simps]:
  "i + n \<le> k \<or> k + 1 \<le> i \<Longrightarrow> slice i n (upd8 k b d) = slice i n d"
  "i + n \<le> k \<or> k + 2 \<le> i \<Longrightarrow> slice i n (upd16 k h d) = slice i n d"
  "i + n \<le> k \<or> k + 4 \<le> i \<Longrightarrow> slice i n (upd32 k w d) = slice i n d"
  "i + n \<le> k \<or> k + 8 \<le> i \<Longrightarrow> slice i n (upd64 k q d) = slice i n d"
  by (auto simp: upd8_def upd16_def upd32_def upd64_def slice_list_update_outside)

lemma drop_upd_before [mem_simps]:
  "k + 1 \<le> i \<Longrightarrow> drop i (upd8 k b d) = drop i d"
  "k + 2 \<le> i \<Longrightarrow> drop i (upd16 k h d) = drop i d"
  "k + 4 \<le> i \<Longrightarrow> drop i (upd32 k w d) = drop i d"
  "k + 8 \<le> i \<Longrightarrow> drop i (upd64 k q d) = drop i d"
  by (simp_all add: upd8_def upd16_def upd32_def upd64_def drop_update_cancel)

lemma drop_zeros [mem_simps]: "drop i (zeros n) = zeros (n - i)"
  by (simp add: zeros_def)

lemma get_append [mem_simps]:
  "get8 (h @ d) (length h + i) = get8 d i"
  "get16 (h @ d) (length h + i) = get16 d i"
  "get32 (h @ d) (length h + i) = get32 d i"
  "get64 (h @ d) (length h + i) = get64 d i"
  by (simp_all only: get8_def get16_def get32_def get64_def add.assoc nth_append_length_plus)

lemma get_front [mem_simps]:
  "i + 1 \<le> length d \<Longrightarrow> get8 (d @ t) i = get8 d i"
  "i + 2 \<le> length d \<Longrightarrow> get16 (d @ t) i = get16 d i"
  "i + 4 \<le> length d \<Longrightarrow> get32 (d @ t) i = get32 d i"
  by (simp_all add: get8_def get16_def get32_def nth_append)

lemma get_append_0 [mem_simps]: "get8 (h @ d) (length h) = get8 d 0"
  by (simp add: get8_def nth_append)

lemma upd_append [mem_simps]:
  "upd8 (length h + i) b (h @ d) = h @ upd8 i b d"
  "upd16 (length h + i) v (h @ d) = h @ upd16 i v d"
  by (simp_all add: upd8_def upd16_def list_update_append add.assoc)

lemma upd32_append [mem_simps]: "upd32 (length h + i) w (h @ d) = h @ upd32 i w d"
  unfolding upd32_def by (simp only: upd_append(2) add.assoc)

lemma upd_front [mem_simps]:
  "i + 1 \<le> length d \<Longrightarrow> upd8 i b (d @ t) = upd8 i b d @ t"
  "i + 2 \<le> length d \<Longrightarrow> upd16 i v (d @ t) = upd16 i v d @ t"
  by (simp_all add: upd8_def upd16_def list_update_append)

lemma upd32_front [mem_simps]: "i + 4 \<le> length d \<Longrightarrow> upd32 i w (d @ t) = upd32 i w d @ t"
  unfolding upd32_def by (simp only: upd_front(2) length_upd)

lemma slice_upd16_inside:
  "i \<le> k \<Longrightarrow> k + 2 \<le> i + n \<Longrightarrow> i + n \<le> length d \<Longrightarrow>
    slice i n (upd16 k h d) = upd16 (k - i) h (slice i n d)"
  by (simp add: slice_def upd16_def drop_update_swap take_update_swap Suc_diff_le)

section \<open>Bits of words in network order\<close>

lemma lo8_ucast: "lo8 w = ucast w" and hi8_ucast: "hi8 w = ucast (drop_bit 8 w)"
proof -
  have "unat (lo8 w) = unat (ucast w :: byte)"
    by (simp only: unat_lo8 unsigned_ucast_eq) (simp add: take_bit_eq_mod)
  then show "lo8 w = ucast w" by (simp only: word_unat_eq_iff)
  have "unat (ucast (drop_bit 8 w) :: byte) = unat (hi8 w)"
    using unat_less_256 [of "hi8 w"]
    by (simp only: unsigned_ucast_eq unsigned_drop_bit_eq unat_hi8)
      (simp add: take_bit_eq_mod drop_bit_eq_div take_bit_nat_eq_self)
  then show "hi8 w = ucast (drop_bit 8 w)" by (simp only: word_unat_eq_iff)
qed

lemma bit_le16: "i < 16 \<Longrightarrow> bit (le16 a b) i \<longleftrightarrow> (if i < 8 then bit a i else bit b (i - 8))"
proof -
  assume "i < 16"
  have "bit (lo8 (le16 a b)) i \<longleftrightarrow> bit (le16 a b) i" if "i < 8"
    unfolding lo8_ucast using that by (simp add: bit_simps)
  moreover have "bit (hi8 (le16 a b)) (i - 8) \<longleftrightarrow> bit (le16 a b) i" if "\<not> i < 8"
  proof -
    have "i - 8 < 8" using \<open>i < 16\<close> by linarith
    then show ?thesis unfolding hi8_ucast using that by (simp add: bit_simps)
  qed
  ultimately show ?thesis by auto
qed

lemma bit_ntohs: "i < 16 \<Longrightarrow> bit (ntohs w) i \<longleftrightarrow> bit w (if i < 8 then i + 8 else i - 8)"
  by (auto simp: ntohs_def bit_le16 lo8_ucast hi8_ucast bit_simps add.commute [of 8])

lemma ntohs_logic: "ntohs (v AND w) = ntohs v AND ntohs w" "ntohs (v OR w) = ntohs v OR ntohs w"
  by (rule bit_word_eqI, simp add: bit_simps bit_ntohs)+

lemma lo16_ucast: "lo16 w = ucast w" and hi16_ucast: "hi16 w = ucast (drop_bit 16 w)"
proof -
  have "unat (lo16 w) = unat (ucast w :: u16)"
    by (simp only: unat_lo16 unsigned_ucast_eq) (simp add: take_bit_eq_mod)
  then show "lo16 w = ucast w" by (simp only: word_unat_eq_iff)
  have "unat (ucast (drop_bit 16 w) :: u16) = unat (hi16 w)"
    using unat_less_65536 [of "hi16 w"]
    by (simp only: unsigned_ucast_eq unsigned_drop_bit_eq unat_hi16)
      (simp add: take_bit_eq_mod drop_bit_eq_div take_bit_nat_eq_self)
  then show "hi16 w = ucast (drop_bit 16 w)" by (simp only: word_unat_eq_iff)
qed

lemma bit_le32: "i < 32 \<Longrightarrow> bit (le32 a b) i \<longleftrightarrow> (if i < 16 then bit a i else bit b (i - 16))"
proof -
  assume "i < 32"
  have "bit (lo16 (le32 a b)) i \<longleftrightarrow> bit (le32 a b) i" if "i < 16"
    unfolding lo16_ucast using that by (simp add: bit_simps)
  moreover have "bit (hi16 (le32 a b)) (i - 16) \<longleftrightarrow> bit (le32 a b) i" if "\<not> i < 16"
  proof -
    have "i - 16 < 16" using \<open>i < 32\<close> by linarith
    then show ?thesis unfolding hi16_ucast using that by (simp add: bit_simps)
  qed
  ultimately show ?thesis by auto
qed

text \<open>The bit of the host-order word that position \<open>i\<close> of the network-order word holds.\<close>

definition swapped_bit :: "nat \<Rightarrow> nat" where
  "swapped_bit i = 24 + i mod 8 - 8 * (i div 8)"

lemma ntohs_htons_fun: "ntohs = htons" by (rule ext) (simp add: ntohs_def htons_def)

lemma bit_htonl: "i < 32 \<Longrightarrow> bit (htonl w) i \<longleftrightarrow> bit w (swapped_bit i)"
proof -
  assume i: "i < 32"
  then consider "i < 8" | "8 \<le> i" "i < 16" | "16 \<le> i" "i < 24" | "24 \<le> i" by linarith
  then show ?thesis
    by cases (use i in \<open>auto simp: htonl_def bit_le32 bit_ntohs ntohs_htons_fun [symmetric] lo16_ucast hi16_ucast
        bit_simps swapped_bit_def mod_if div_if\<close>)
qed

end
