(* ===== verification/Click_Checksum.thy ===== *)
theory Click_Checksum
  imports Click_Prelude
begin

unbundle bit_operations_syntax

text \<open>
  The Internet checksum of Click (\<^verbatim>\<open>lib/in_cksum.c\<close> and the inline functions of
  \<^verbatim>\<open>include/clicknet/ip.h\<close>), in the portable variant that a 64-bit user-level build
  compiles. The routines work on 32-bit accumulators and fold the carries back at the end;
  the lemmas relate them to the reference notion: the one's complement sum of the 16-bit
  words (\<open>wsum\<close> and \<open>ones_fold\<close>).

  The locale \<open>inet_checksum\<close> states what the rest of the program relies on (the value of
  the checksum in terms of the reference sum) and derives from it that a header completed
  with its checksum verifies, and that the incremental update of RFC 1624 is right.
\<close>

section \<open>The program\<close>

text \<open>The loop of \<^verbatim>\<open>click_in_cksum\<close>: sequential 16-bit words, then the odd byte.\<close>

fun cksum_loop :: "u32 \<Rightarrow> bytes \<Rightarrow> u32" where
  "cksum_loop acc (a # b # w) = cksum_loop (acc + ucast (le16 a b)) w"
| "cksum_loop acc [a] = acc + ucast (le16 a 0)"
| "cksum_loop acc [] = acc"

definition click_in_cksum :: "bytes \<Rightarrow> u16" where
  "click_in_cksum addr =
     (let acc = cksum_loop 0 addr;
          acc = (acc AND 0xffff) + drop_bit 16 acc;
          acc = acc + drop_bit 16 acc
      in ucast (NOT acc))"

text \<open>The call \<^verbatim>\<open>click_in_cksum(p + i, n)\<close> on the bytes \<open>d\<close> of a packet.\<close>

definition cksum_at :: "bytes \<Rightarrow> nat \<Rightarrow> nat \<Rightarrow> u16 option" where
  "cksum_at d i n = (if i + n \<le> length d then Some (click_in_cksum (slice i n d)) else None)"

text \<open>The \<^verbatim>\<open>assert\<close> at the start aborts the program: \<open>None\<close>.\<close>

definition click_in_cksum_pseudohdr_raw ::
  "u32 \<Rightarrow> u32 \<Rightarrow> u32 \<Rightarrow> nat \<Rightarrow> nat \<Rightarrow> u16 option" where
  "click_in_cksum_pseudohdr_raw csum src dst proto packet_len =
     (if csum \<le> 0xFFFF then
        (let csum = NOT csum AND 0xFFFF;
             csum = csum + ((src AND 0xffff) + drop_bit 16 src);
             csum = csum + ((dst AND 0xffff) + drop_bit 16 dst);
             csum = csum + (ucast (htons (of_nat packet_len)) + ucast (htons (of_nat proto)));
             csum = (csum AND 0xffff) + drop_bit 16 csum
         in Some (ucast (NOT (csum + drop_bit 16 csum) AND 0xFFFF)))
      else None)"

definition IPOPT_EOL :: byte where "IPOPT_EOL = 0"
definition IPOPT_NOP :: byte where "IPOPT_NOP = 1"
definition IPOPT_LSRR :: byte where "IPOPT_LSRR = 131"
definition IPOPT_SSRR :: byte where "IPOPT_SSRR = 137"

text \<open>The option scan of \<^verbatim>\<open>click_in_cksum_pseudohdr_hard\<close>: the destination that enters the
  pseudoheader. \<open>d\<close> starts at the IP header; \<open>dst\<close> is the header's destination field.\<close>

function final_dst :: "bytes \<Rightarrow> u32 \<Rightarrow> nat \<Rightarrow> nat \<Rightarrow> u32 option" where
  "final_dst d dst opt end_opt =
     (if opt < end_opt then
        do {
          t \<leftarrow> ld8 d opt;
          if t = IPOPT_NOP then final_dst d dst (opt + 1) end_opt
          else if t = IPOPT_EOL then Some dst
          else if opt + 1 \<ge> end_opt then Some dst
          else do {
            l \<leftarrow> ld8 d (opt + 1);
            if unat l < 2 \<or> opt + unat l > end_opt then Some dst
            else if (t = IPOPT_SSRR \<or> t = IPOPT_LSRR) \<and> unat l \<ge> 7
            then ld32 d (opt + unat l - 4)
            else final_dst d dst (opt + unat l) end_opt
          }
        }
      else Some dst)"
  by pat_completeness auto
termination
  by (relation "measure (\<lambda>(d, dst, opt, end_opt). end_opt - opt)") auto

declare final_dst.simps [simp del]

definition ip_hl_of :: "byte \<Rightarrow> nat" where
  "ip_hl_of b = unat b mod 16"

definition ip_v_of :: "byte \<Rightarrow> nat" where
  "ip_v_of b = unat b div 16"

definition click_in_cksum_pseudohdr_hard :: "u32 \<Rightarrow> bytes \<Rightarrow> nat \<Rightarrow> u16 option" where
  "click_in_cksum_pseudohdr_hard csum iph packet_len =
     do {
       vhl \<leftarrow> ld8 iph 0;
       src \<leftarrow> ld32 iph 12;
       dst \<leftarrow> ld32 iph 16;
       p \<leftarrow> ld8 iph 9;
       daddr \<leftarrow> final_dst iph dst 20 (4 * ip_hl_of vhl);
       click_in_cksum_pseudohdr_raw csum src daddr (unat p) packet_len
     }"

definition click_in_cksum_pseudohdr :: "u32 \<Rightarrow> bytes \<Rightarrow> nat \<Rightarrow> u16 option" where
  "click_in_cksum_pseudohdr data_csum iph transport_len =
     do {
       vhl \<leftarrow> ld8 iph 0;
       if ip_hl_of vhl = 5 then
         do {
           src \<leftarrow> ld32 iph 12;
           dst \<leftarrow> ld32 iph 16;
           p \<leftarrow> ld8 iph 9;
           click_in_cksum_pseudohdr_raw data_csum src dst (unat p) transport_len
         }
       else click_in_cksum_pseudohdr_hard data_csum iph transport_len
     }"

definition click_update_in_cksum :: "u16 \<Rightarrow> u16 \<Rightarrow> u16 \<Rightarrow> u16" where
  "click_update_in_cksum csum old_hw new_hw =
     (let acc = (NOT (ucast csum) AND 0xFFFF) + (NOT (ucast old_hw) AND 0xFFFF) + ucast new_hw :: u32;
          acc = (acc AND 0xFFFF) + drop_bit 16 acc
      in ucast (NOT (acc + drop_bit 16 acc)))"

fun click_update_zero_in_cksum_hard :: "u16 \<Rightarrow> bytes \<Rightarrow> u16" where
  "click_update_zero_in_cksum_hard csum [] = NOT 0"
| "click_update_zero_in_cksum_hard csum (x # xs) =
     (if x \<noteq> 0 then csum else click_update_zero_in_cksum_hard csum xs)"

definition click_update_zero_in_cksum :: "u16 \<Rightarrow> bytes \<Rightarrow> u16" where
  "click_update_zero_in_cksum csum x =
     (if csum = 0 then click_update_zero_in_cksum_hard csum x else csum)"

section \<open>The reference: one's complement sums\<close>

fun wsum :: "bytes \<Rightarrow> nat" where
  "wsum (a # b # w) = unat (le16 a b) + wsum w"
| "wsum [a] = unat a"
| "wsum [] = 0"

definition ones_fold :: "nat \<Rightarrow> nat" where
  "ones_fold n = (if n = 0 then 0 else (n - 1) mod 65535 + 1)"

text \<open>The words a pseudoheader adds to the sum.\<close>

definition pseudo_sum :: "u32 \<Rightarrow> u32 \<Rightarrow> nat \<Rightarrow> nat \<Rightarrow> nat" where
  "pseudo_sum src dst proto packet_len =
     unat (lo16 src) + unat (hi16 src) + unat (lo16 dst) + unat (hi16 dst)
     + unat (htons (of_nat packet_len)) + unat (htons (of_nat proto))"

section \<open>Folding the carries\<close>

lemma ones_fold_le: "ones_fold n \<le> 65535"
proof -
  have "(n - 1) mod 65535 < 65535" by simp
  then show ?thesis by (simp add: ones_fold_def del: mod_less_divisor)
qed

lemma ones_fold_eq_0 [simp]: "ones_fold n = 0 \<longleftrightarrow> n = 0"
  by (simp add: ones_fold_def)

lemma ones_fold_pos [simp]: "0 < ones_fold n \<longleftrightarrow> 0 < n"
  by (simp add: ones_fold_def)

lemma ones_fold_0 [simp]: "ones_fold 0 = 0"
  by simp

lemma ones_fold_mod: "ones_fold n mod 65535 = n mod 65535"
proof (cases n)
  case (Suc m)
  have "ones_fold n mod 65535 = Suc (m mod 65535) mod 65535"
    by (simp add: ones_fold_def Suc)
  also have "\<dots> = Suc m mod 65535" by (rule mod_Suc_eq)
  finally show ?thesis by (simp add: Suc)
qed simp

lemma ones_fold_unique:
  assumes "m mod 65535 = n mod 65535" and "m = 0 \<longleftrightarrow> n = 0" and "m \<le> 65535"
  shows "ones_fold n = m"
proof (cases "n = 0")
  case True
  with assms show ?thesis by simp
next
  case False
  have "ones_fold n mod 65535 = m mod 65535"
    by (simp add: ones_fold_mod assms(1))
  moreover have "0 < ones_fold n" "ones_fold n \<le> 65535" "0 < m"
    using False assms ones_fold_le [of n] by auto
  ultimately show ?thesis
    using assms(3) by (metis le_antisym le_neq_implies_less mod_less mod_self neq0_conv)
qed

lemma ones_fold_cong:
  "m mod 65535 = n mod 65535 \<Longrightarrow> (m = 0 \<longleftrightarrow> n = 0) \<Longrightarrow> ones_fold m = ones_fold n"
  by (rule ones_fold_unique [symmetric]) (simp_all add: ones_fold_mod ones_fold_le)

lemma ones_fold_add: "ones_fold (ones_fold m + n) = ones_fold (m + n)"
proof (rule ones_fold_cong)
  show "(ones_fold m + n) mod 65535 = (m + n) mod 65535"
    by (metis mod_add_left_eq ones_fold_mod)
qed simp

text \<open>Adding the complement of a sum always gives the all-ones word.\<close>

lemma ones_fold_complement: "ones_fold (n + (65535 - ones_fold n)) = 65535"
proof (rule ones_fold_unique)
  have "(n + (65535 - ones_fold n)) mod 65535 = (ones_fold n + (65535 - ones_fold n)) mod 65535"
    by (metis mod_add_left_eq ones_fold_mod)
  also have "\<dots> = 65535 mod 65535"
    using ones_fold_le [of n] by simp
  finally show "65535 mod 65535 = (n + (65535 - ones_fold n)) mod 65535" by simp
  show "65535 = (0::nat) \<longleftrightarrow> n + (65535 - ones_fold n) = 0"
    by (cases "n = 0") auto
qed simp

lemma ones_fold_65535: "ones_fold n = 65535 \<longleftrightarrow> n \<noteq> 0 \<and> 65535 dvd n"
proof (cases "n = 0")
  case False
  have "65535 dvd n \<longleftrightarrow> ones_fold n mod 65535 = 0"
    by (simp add: ones_fold_mod dvd_eq_mod_eq_0)
  moreover have "0 < ones_fold n" "ones_fold n \<le> 65535"
    using False ones_fold_le [of n] by auto
  ultimately show ?thesis
    using False by (metis le_neq_implies_less mod_less mod_self neq0_conv)
qed simp

section \<open>The folds of the program compute the reference fold\<close>

lemma unat_and_ffff [wrd_simps]: "unat (x AND 0xffff :: u32) = unat x mod 65536"
proof -
  have "(0xffff :: u32) = mask 16" by (simp add: mask_eq_exp_minus_1)
  then have "unat (x AND 0xffff) = unat (take_bit 16 x)" by (simp only: take_bit_eq_mask)
  then show ?thesis by (simp only: unsigned_take_bit_eq) (simp add: take_bit_eq_mod)
qed

lemma unat_drop_bit_16 [wrd_simps]: "unat (drop_bit 16 x :: u32) = unat x div 65536"
  by (simp only: unsigned_drop_bit_eq) (simp add: drop_bit_eq_div take_bit_nat_eq_self)

lemma unat_not_u16 [wrd_simps]: "unat (NOT y :: u16) = 65535 - unat y"
proof -
  have "NOT y = - 1 - y" by (simp add: not_eq_complement)
  moreover have "unat (- 1 :: u16) = 65535" by (simp add: unsigned_minus_1_eq_mask mask_eq_exp_minus_1)
  ultimately show ?thesis by (simp add: unat_sub)
qed

lemma ucast_not_u32: "(ucast (NOT x :: u32) :: u16) = NOT (ucast x)"
  by (rule bit_word_eqI) (simp add: bit_simps)

lemma unat_ucast_u16 [wrd_simps]: "unat (ucast (x :: u32) :: u16) = unat x mod 65536"
  by (simp add: unsigned_ucast_eq take_bit_eq_mod)

lemma unat_ucast_u32 [wrd_simps]: "unat (ucast (x :: u16) :: u32) = unat x"
  by (simp add: unsigned_ucast_eq take_bit_nat_eq_self less_trans [OF unat_less_65536])

lemma unat_not_ffff [wrd_simps]: "unat (NOT (ucast (x :: u16)) AND 0xFFFF :: u32) = 65535 - unat x"
proof -
  have "(NOT (ucast x) AND 0xFFFF :: u32) = ucast (NOT x)"
  proof -
    have "(NOT (ucast x) AND mask 16 :: u32) = ucast (NOT x)"
      by (rule bit_word_eqI) (auto simp: bit_simps)
    then show ?thesis by (simp add: mask_eq_exp_minus_1)
  qed
  then show ?thesis by (simp add: wrd_simps)
qed

text \<open>Two folding steps are enough for every 32-bit accumulator.\<close>

lemma fold_twice_nat:
  assumes "s < 4294967296"
  defines "t \<equiv> s mod 65536 + s div 65536"
  shows "(t + t div 65536) mod 65536 = ones_fold s" and "t < 131072"
proof -
  have hi: "s div 65536 < 65536" using assms(1) by linarith
  then show t: "t < 131072" by (simp add: t_def)
  have s: "s = t + 65535 * (s div 65536)" by (simp add: t_def)
  have "s mod 65535 = t mod 65535"
    by (subst s) simp
  moreover have "s = 0 \<longleftrightarrow> t = 0" by (auto simp: t_def)
  ultimately have "ones_fold s = ones_fold t" by (rule ones_fold_cong)
  moreover have "t \<le> 131070" using hi by (simp add: t_def)
  then have "ones_fold t = (t + t div 65536) mod 65536"
  proof (cases "t < 65536")
    case True
    then show ?thesis by (intro ones_fold_unique) auto
  next
    case False
    with \<open>t \<le> 131070\<close> have "t div 65536 = 1" "(t + 1) mod 65536 = t - 65535"
      by (auto simp: mod_if)
    moreover have "(t - 65535) mod 65535 = t mod 65535"
      using False by (simp add: le_mod_geq)
    ultimately show ?thesis using False \<open>t \<le> 131070\<close>
      by (intro ones_fold_unique) auto
  qed
  ultimately show "(t + t div 65536) mod 65536 = ones_fold s" by simp
qed

lemma unat_add_u32: "unat (x :: u32) + unat y < 4294967296 \<Longrightarrow> unat (x + y) = unat x + unat y"
  by (simp add: unat_word_ariths)

lemma unat_sum7_u32:
  assumes "unat (a :: u32) < 65536" "unat b < 65536" "unat c < 65536" "unat d < 65536"
    "unat e < 65536" "unat f < 65536" "unat g < 65536"
  shows "unat (a + (b + c) + (d + e) + (f + g))
    = unat a + unat b + unat c + unat d + unat e + unat f + unat g"
  using assms by (simp add: unat_add_u32)

lemma unat_sum3_u32:
  assumes "unat (a :: u32) < 65536" "unat b < 65536" "unat c < 65536"
  shows "unat (a + b + c) = unat a + unat b + unat c"
  using assms by (simp add: unat_add_u32)

lemma fold_twice_u32:
  defines "f \<equiv> \<lambda>s :: u32. (s AND 0xffff) + drop_bit 16 s"
  shows "unat (f s + drop_bit 16 (f s)) mod 65536 = ones_fold (unat s)"
proof -
  let ?t = "unat s mod 65536 + unat s div 65536"
  have lt: "?t < 131072" and eq: "(?t + ?t div 65536) mod 65536 = ones_fold (unat s)"
    using fold_twice_nat [of "unat s"] by simp_all
  have "unat (f s) = ?t"
    using lt by (simp add: f_def unat_add_u32 wrd_simps)
  moreover from this lt have "unat (f s + drop_bit 16 (f s)) = ?t + ?t div 65536"
    by (simp add: unat_add_u32 wrd_simps)
  ultimately show ?thesis using eq by simp
qed

lemma unat_not_fold:
  "unat (ucast (NOT (((s AND 0xffff) + drop_bit 16 s) + drop_bit 16 ((s AND 0xffff) + drop_bit 16 s)) :: u32) :: u16)
    = 65535 - ones_fold (unat (s :: u32))"
  by (simp only: ucast_not_u32 unat_not_u16 unat_ucast_u16 fold_twice_u32)

section \<open>The checksum loop\<close>

lemma wsum_le: "wsum d \<le> 65535 * ((length d + 1) div 2)"
proof (induction d rule: wsum.induct)
  case (1 a b w)
  moreover have "unat (le16 a b) \<le> 65535"
    using unat_less_65536 [of "le16 a b"] by linarith
  ultimately show ?case by simp
next
  case (2 a)
  have "unat a \<le> 65535" using unat_less_256 [of a] by linarith
  then show ?case by simp
qed simp

lemma wsum_less: "length d \<le> 131072 \<Longrightarrow> wsum d < 4294967296"
  using wsum_le [of d] by (simp add: le_less_trans)

lemma cksum_loop_value:
  "unat s + wsum d < 4294967296 \<Longrightarrow> unat (cksum_loop s d) = unat s + wsum d"
proof (induction s d rule: cksum_loop.induct)
  case (1 s a b w)
  then show ?case by (simp add: unat_add_u32 wrd_simps)
next
  case (2 s a)
  then show ?case by (simp add: unat_add_u32 wrd_simps)
qed simp

lemma wsum_append: "even (length c) \<Longrightarrow> wsum (c @ d) = wsum c + wsum d"
  by (induction c rule: wsum.induct) auto

lemma wsum_zeros [simp]: "wsum (zeros n) = 0"
proof (induction n rule: less_induct)
  case (less n)
  consider "n = 0" | "n = 1" | m where "n = Suc (Suc m)"
    by (metis One_nat_def not0_implies_Suc)
  then show ?case
    using less by cases (auto simp: zeros_def wrd_simps)
qed

lemma wsum_upd16:
  "even i \<Longrightarrow> i + 2 \<le> length d \<Longrightarrow>
    wsum (upd16 i v d) + unat (get16 d i) = wsum d + unat v"
proof (induction d arbitrary: i rule: wsum.induct)
  case (1 a b w)
  show ?case
  proof (cases i)
    case 0
    then show ?thesis by (simp add: upd16_def get16_def)
  next
    case (Suc k)
    with "1.prems" obtain j where j: "i = Suc (Suc j)" by (cases k) auto
    with "1.prems" "1.IH" [of j] show ?thesis
      by (simp add: upd16_def get16_def)
  qed
qed auto

section \<open>The interface other components rely on\<close>

locale inet_checksum =
  fixes ck :: "bytes \<Rightarrow> u16"
  assumes ck_value: "length d \<le> 131072 \<Longrightarrow> unat (ck d) = 65535 - ones_fold (wsum d)"
begin

text \<open>A checksum verifies exactly when the one's complement sum is all ones.\<close>

lemma ck_zero_iff:
  "length d \<le> 131072 \<Longrightarrow> ck d = 0 \<longleftrightarrow> wsum d \<noteq> 0 \<and> 65535 dvd wsum d"
  using ones_fold_le [of "wsum d"] ones_fold_65535 [of "wsum d"]
  by (auto simp: word_unat_eq_iff ck_value)

text \<open>A header whose checksum field was zero verifies once the checksum is stored there.\<close>

lemma ck_fill:
  assumes "even i" and "i + 2 \<le> length d" and "length d \<le> 131072" and "get16 d i = 0"
  shows "ck (upd16 i (ck d) d) = 0"
proof -
  have "wsum (upd16 i (ck d) d) = wsum d + (65535 - ones_fold (wsum d))"
    using wsum_upd16 [of i d "ck d"] assms by (simp add: ck_value)
  then have "unat (ck (upd16 i (ck d) d)) = 0"
    using assms by (simp add: ck_value ones_fold_complement)
  then show ?thesis by (simp add: unat_eq_zero)
qed

text \<open>Only the words of the region matter, not zero padding after it.\<close>

lemma ck_zero_padding:
  assumes "even (length d)" and "length d + n \<le> 131072"
  shows "ck (d @ zeros n) = ck d"
  using assms by (simp add: word_unat_eq_iff ck_value wsum_append)

end

theorem click_in_cksum_value:
  "length d \<le> 131072 \<Longrightarrow> unat (click_in_cksum d) = 65535 - ones_fold (wsum d)"
  using wsum_less [of d] cksum_loop_value [of 0 d]
  by (simp add: click_in_cksum_def Let_def unat_not_fold)

interpretation in_cksum: inet_checksum click_in_cksum
  by unfold_locales (rule click_in_cksum_value)

section \<open>Pseudoheaders\<close>

lemma pseudo_sum_less: "pseudo_sum src dst proto len < 393216"
  using unat_less_65536 [of "lo16 src"] unat_less_65536 [of "hi16 src"]
    unat_less_65536 [of "lo16 dst"] unat_less_65536 [of "hi16 dst"]
    unat_less_65536 [of "htons (of_nat len)"] unat_less_65536 [of "htons (of_nat proto)"]
  unfolding pseudo_sum_def by linarith

lemma ucast_and_ffff: "(ucast (x AND 0xFFFF :: u32) :: u16) = ucast x"
  by (simp add: word_unat_eq_iff wrd_simps)

lemma unat_halves:
  "unat (w AND 0xffff :: u32) = unat (lo16 w)" "unat (drop_bit 16 w :: u32) = unat (hi16 w)"
  by (simp_all add: wrd_simps)

lemma pseudohdr_raw_value:
  "\<exists>c. click_in_cksum_pseudohdr_raw (ucast (x :: u16)) src dst proto len = Some c
     \<and> unat c = 65535 - ones_fold ((65535 - unat x) + pseudo_sum src dst proto len)"
proof -
  define P where "P = pseudo_sum src dst proto len"
  define s :: u32 where "s = (NOT (ucast x) AND 0xFFFF) + ((src AND 0xffff) + drop_bit 16 src)
    + ((dst AND 0xffff) + drop_bit 16 dst) + (ucast (htons (of_nat len)) + ucast (htons (of_nat proto)))"
  have s: "unat s = 65535 - unat x + P"
    unfolding s_def P_def pseudo_sum_def
    by (subst unat_sum7_u32) (simp_all only: unat_not_ffff, simp_all add: unat_halves unat_ucast_u32)
  have "unat (ucast x :: u32) \<le> unat (0xFFFF :: u32)"
    by (simp add: wrd_simps unat_bounds_le)
  then have "(ucast x :: u32) \<le> 0xFFFF" by (simp only: word_le_nat_alt)
  then have "click_in_cksum_pseudohdr_raw (ucast x) src dst proto len
    = Some (ucast (NOT (((s AND 0xffff) + drop_bit 16 s) + drop_bit 16 ((s AND 0xffff) + drop_bit 16 s))))"
    by (simp only: click_in_cksum_pseudohdr_raw_def Let_def s_def ucast_and_ffff if_True)
  then show ?thesis by (simp add: unat_not_fold s P_def)
qed

text \<open>Adding a pseudoheader to a checksum gives the checksum of both sums together.\<close>

lemma pseudohdr_raw_in_cksum:
  assumes "length d \<le> 131072"
  obtains c where "click_in_cksum_pseudohdr_raw (ucast (click_in_cksum d)) src dst proto len = Some c"
    and "unat c = 65535 - ones_fold (wsum d + pseudo_sum src dst proto len)"
proof -
  have "65535 - unat (click_in_cksum d) = ones_fold (wsum d)"
    using assms ones_fold_le [of "wsum d"] by (simp add: click_in_cksum_value)
  with pseudohdr_raw_value [of "click_in_cksum d" src dst proto len] that
  show ?thesis by (auto simp: ones_fold_add)
qed

text \<open>The transport checksum of a packet: the value \<open>click_in_cksum_pseudohdr(click_in_cksum(t,
  n), iph, n)\<close> that every sender in the program stores and every receiver compares with 0.\<close>

definition transport_cksum :: "bytes \<Rightarrow> nat \<Rightarrow> nat \<Rightarrow> nat \<Rightarrow> u16 option" where
  "transport_cksum d iph t n =
     do { c \<leftarrow> cksum_at d t n; click_in_cksum_pseudohdr (ucast c) (drop iph d) n }"

lemma get_drop [mem_simps]:
  "i + j + 1 \<le> length d \<Longrightarrow> get8 (drop i d) j = get8 d (i + j)"
  "i + j + 2 \<le> length d \<Longrightarrow> get16 (drop i d) j = get16 d (i + j)"
  "i + j + 4 \<le> length d \<Longrightarrow> get32 (drop i d) j = get32 d (i + j)"
  by (simp_all add: get8_def get16_def get32_def add.assoc)

lemma transport_cksum_value:
  assumes "ip_hl_of (get8 d iph) = 5" and "iph + 20 \<le> t" and "t + n \<le> length d" and "n \<le> 131072"
  obtains c where "transport_cksum d iph t n = Some c"
    and "unat c = 65535 - ones_fold (wsum (slice t n d)
          + pseudo_sum (get32 d (iph + 12)) (get32 d (iph + 16)) (unat (get8 d (iph + 9))) n)"
proof (rule pseudohdr_raw_in_cksum [of "slice t n d" "get32 d (iph + 12)" "get32 d (iph + 16)"
      "unat (get8 d (iph + 9))" n])
  show "length (slice t n d) \<le> 131072" using assms by simp
next
  fix c
  assume c: "click_in_cksum_pseudohdr_raw (ucast (click_in_cksum (slice t n d)))
      (get32 d (iph + 12)) (get32 d (iph + 16)) (unat (get8 d (iph + 9))) n = Some c"
    and "unat c = 65535 - ones_fold (wsum (slice t n d)
          + pseudo_sum (get32 d (iph + 12)) (get32 d (iph + 16)) (unat (get8 d (iph + 9))) n)"
  moreover have "transport_cksum d iph t n = Some c"
    using assms c
    by (simp add: transport_cksum_def cksum_at_def click_in_cksum_pseudohdr_def mem_simps)
  ultimately show ?thesis using that by blast
qed

text \<open>A transport header whose checksum field was zero verifies once the checksum is stored.\<close>

lemma transport_cksum_fill:
  assumes "ip_hl_of (get8 d iph) = 5" and "iph + 20 \<le> t" and "t + n \<le> length d" and "n \<le> 131072"
    and "even k" and "k + 2 \<le> n" and "get16 d (t + k) = 0"
    and "transport_cksum d iph t n = Some c"
  shows "transport_cksum (upd16 (t + k) c d) iph t n = Some 0"
proof -
  let ?e = "upd16 (t + k) c d"
  let ?P = "pseudo_sum (get32 d (iph + 12)) (get32 d (iph + 16)) (unat (get8 d (iph + 9))) n"
  have same: "get8 ?e iph = get8 d iph" "get8 ?e (iph + 9) = get8 d (iph + 9)"
    "get32 ?e (iph + 12) = get32 d (iph + 12)" "get32 ?e (iph + 16) = get32 d (iph + 16)"
    using assms(2) by (simp_all add: mem_simps)
  have c: "unat c = 65535 - ones_fold (wsum (slice t n d) + ?P)"
    using transport_cksum_value [OF assms(1-4)] assms(8) by auto
  have "slice t n ?e = upd16 k c (slice t n d)"
    using slice_upd16_inside [of t "t + k" n d c] assms(3,6) by simp
  moreover have "get16 (slice t n d) k = 0"
    using assms by (simp add: mem_simps)
  ultimately have "wsum (slice t n ?e) = wsum (slice t n d) + unat c"
    using wsum_upd16 [of k "slice t n d" c] assms by simp
  then have w: "wsum (slice t n ?e) + ?P = (wsum (slice t n d) + ?P) + (65535 - ones_fold (wsum (slice t n d) + ?P))"
    using c by simp
  obtain z where z: "transport_cksum ?e iph t n = Some z"
    and "unat z = 65535 - ones_fold (wsum (slice t n ?e) + ?P)"
    using transport_cksum_value [of ?e iph t n] assms same by auto
  then have "unat z = 0" by (simp only: w ones_fold_complement)
  with z show ?thesis by (simp add: unat_eq_zero)
qed

section \<open>Incremental update\<close>

lemma click_update_in_cksum_value:
  "unat (click_update_in_cksum c old new)
    = 65535 - ones_fold ((65535 - unat c) + (65535 - unat old) + unat new)"
proof -
  define s :: u32 where "s = (NOT (ucast c) AND 0xFFFF) + (NOT (ucast old) AND 0xFFFF) + ucast new"
  have "unat s = (65535 - unat c) + (65535 - unat old) + unat new"
    unfolding s_def
    by (subst unat_sum3_u32) (simp_all only: unat_not_ffff, simp_all add: wrd_simps)
  moreover have "click_update_in_cksum c old new
    = ucast (NOT (((s AND 0xffff) + drop_bit 16 s) + drop_bit 16 ((s AND 0xffff) + drop_bit 16 s)))"
    by (simp only: click_update_in_cksum_def Let_def s_def)
  ultimately show ?thesis by (simp add: unat_not_fold)
qed

text \<open>The update of RFC 1624 agrees with recomputing the checksum, unless the new data is all
  zero (the case \<open>click_update_zero_in_cksum\<close> repairs).\<close>

lemma click_update_in_cksum_correct:
  assumes "even i" and "i + 2 \<le> length d" and "length d \<le> 131072" and "wsum (upd16 i new d) \<noteq> 0"
  shows "click_update_in_cksum (click_in_cksum d) (get16 d i) new = click_in_cksum (upd16 i new d)"
proof -
  let ?w = "wsum d" and ?w' = "wsum (upd16 i new d)"
  let ?s = "ones_fold ?w + (65535 - unat (get16 d i)) + unat new"
  have upd: "?w' + unat (get16 d i) = ?w + unat new"
    using assms(1,2) by (rule wsum_upd16)
  have old: "unat (get16 d i) \<le> 65535" using unat_less_65536 [of "get16 d i"] by linarith
  have "?s mod 65535 = (?w + ((65535 - unat (get16 d i)) + unat new)) mod 65535"
    by (metis add.assoc mod_add_left_eq ones_fold_mod)
  also have "?w + ((65535 - unat (get16 d i)) + unat new) = ?w' + 65535"
    using upd old by linarith
  finally have "?s mod 65535 = ?w' mod 65535" by simp
  moreover have "?s \<noteq> 0"
  proof
    assume "?s = 0"
    then have "?w = 0" "unat (get16 d i) \<ge> 65535" by auto
    with upd assms(4) show False using old unat_less_65536 [of new] by linarith
  qed
  ultimately have "ones_fold ?s = ones_fold ?w'"
    using assms(4) by (intro ones_fold_cong) auto
  then show ?thesis
    using assms(3) ones_fold_le [of ?w]
    by (simp add: word_unat_eq_iff click_update_in_cksum_value click_in_cksum_value)
qed

end
