(* ===== verification/Click_Packet.thy ===== *)
theory Click_Packet
  imports Click_Checksum
begin

unbundle bit_operations_syntax

text \<open>
  Click's \<^verbatim>\<open>Packet\<close> and \<^verbatim>\<open>WritablePacket\<close> (\<^verbatim>\<open>include/click/packet.hh\<close>, \<^verbatim>\<open>lib/packet.cc\<close>,
  user-level variant). A packet is a buffer with two cut points, the data pointer and the
  tail pointer; the model keeps the three regions between them as byte lists (\<open>hroom\<close>,
  \<open>pdata\<close>, \<open>troom\<close>), so that \<open>hroom @ pdata @ troom\<close> is the buffer from \<^verbatim>\<open>_head\<close> to
  \<^verbatim>\<open>_end\<close>. Header pointers are offsets from \<^verbatim>\<open>_head\<close> (\<open>None\<close> is the null pointer), and the
  annotation area has one field for each annotation the modelled elements use.

  Memory that the allocator hands out is not initialised. Its contents, and whether the
  allocation succeeds, are the argument \<open>env\<close> of the operations that allocate.
  Lengths are unbounded; the C++ code keeps them in 32-bit integers, which the packets of
  at most 64 kilobytes that reach these elements cannot overflow.
\<close>

section \<open>State\<close>

record env =
  alloc_ok :: bool
  junk :: "nat \<Rightarrow> byte"

datatype packet_type = HOST | BROADCAST | MULTICAST | OTHERHOST | OUTGOING | LOOPBACK | FASTROUTE

record packet =
  hroom :: bytes
  pdata :: bytes
  troom :: bytes
  pshared :: bool
  mac_off :: "int option"
  net_off :: "int option"
  trans_off :: "int option"
  dst_ip_anno :: ipaddr
  paint_anno :: byte
  icmp_paramprob_anno :: byte
  fix_ip_src_anno :: byte
  packet_type_anno :: packet_type

text \<open>
  An element is a record of its member variables; a handler maps the state to the new state
  and the packets it pushes, each with its output port, in the order of the pushes. The timer
  of an element is the delay in milliseconds after which it fires, \<open>None\<close> when it is not
  scheduled.
\<close>

type_synonym emission = "nat \<times> packet"
type_synonym timer = "nat option"

abbreviation headroom :: "packet \<Rightarrow> nat" where
  "headroom p \<equiv> length (hroom p)"

abbreviation tailroom :: "packet \<Rightarrow> nat" where
  "tailroom p \<equiv> length (troom p)"

abbreviation plen :: "packet \<Rightarrow> nat" where
  "plen p \<equiv> length (pdata p)"

definition pbuffer :: "packet \<Rightarrow> bytes" where
  "pbuffer p = hroom p @ pdata p @ troom p"

section \<open>Operations\<close>

definition min_buffer_length :: nat where "min_buffer_length = 64"
definition default_headroom :: nat where "default_headroom = 28"

text \<open>\<^verbatim>\<open>alloc_data\<close>: the three regions of the new buffer.\<close>

definition alloc_data :: "env \<Rightarrow> nat \<Rightarrow> nat \<Rightarrow> nat \<Rightarrow> (bytes \<times> bytes \<times> bytes) option" where
  "alloc_data e head len tail =
     (let n = len + head + tail;
          n = (if n < min_buffer_length then min_buffer_length else n);
          buf = map (junk e) [0..<n]
      in if alloc_ok e
         then Some (take head buf, take len (drop head buf), drop (head + len) buf)
         else None)"

definition pkt_make :: "env \<Rightarrow> nat \<Rightarrow> bytes option \<Rightarrow> nat \<Rightarrow> nat \<Rightarrow> packet option" where
  "pkt_make e head data len tail =
     do {
       (h, d, t) \<leftarrow> alloc_data e head len tail;
       Some \<lparr> hroom = h, pdata = (case data of None \<Rightarrow> d | Some b \<Rightarrow> take len b),
              troom = t, pshared = False, mac_off = None, net_off = None, trans_off = None,
              dst_ip_anno = 0, paint_anno = 0, icmp_paramprob_anno = 0, fix_ip_src_anno = 0,
              packet_type_anno = HOST \<rparr>
     }"

definition shift_header_annotations :: "int \<Rightarrow> packet \<Rightarrow> packet" where
  "shift_header_annotations extra p =
     p\<lparr> mac_off := map_option (\<lambda>k. k + extra) (mac_off p),
        net_off := map_option (\<lambda>k. k + extra) (net_off p),
        trans_off := map_option (\<lambda>k. k + extra) (trans_off p) \<rparr>"

text \<open>\<^verbatim>\<open>expensive_uniqueify(extra_headroom, extra_tailroom, true)\<close> on a packet and its clone
  alike: the buffer is copied into a new one, and the other owners keep the old buffer.
  A failed \<^verbatim>\<open>assert\<close> and a failed allocation both end without a packet.\<close>

definition expensive_uniqueify :: "env \<Rightarrow> int \<Rightarrow> int \<Rightarrow> packet \<Rightarrow> packet option" where
  "expensive_uniqueify e eh et p =
     (if eh \<ge> - int (headroom p) \<and> et \<ge> - int (tailroom p) then
        do {
          (h, d, t) \<leftarrow> alloc_data e (nat (int (headroom p) + eh)) (plen p) (nat (int (tailroom p) + et));
          let old_h = drop (nat (- eh)) (hroom p);
          let old_t = take (nat (int (tailroom p) + et)) (troom p);
          Some (shift_header_annotations eh
            (p\<lparr> hroom := take (nat eh) h @ old_h,
                pdata := pdata p,
                troom := old_t @ drop (length old_t) t,
                pshared := False \<rparr>))
        }
      else None)"

definition pkt_uniqueify :: "env \<Rightarrow> packet \<Rightarrow> packet option" where
  "pkt_uniqueify e p = (if \<not> pshared p then Some p else expensive_uniqueify e 0 0 p)"

text \<open>Moving the data pointer down by \<open>n\<close> bytes, and the tail pointer up.\<close>

definition data_down :: "nat \<Rightarrow> packet \<Rightarrow> packet" where
  "data_down n p =
     p\<lparr> hroom := take (headroom p - n) (hroom p),
        pdata := drop (headroom p - n) (hroom p) @ pdata p \<rparr>"

definition tail_up :: "nat \<Rightarrow> packet \<Rightarrow> packet" where
  "tail_up n p = p\<lparr> pdata := pdata p @ take n (troom p), troom := drop n (troom p) \<rparr>"

definition expensive_push :: "env \<Rightarrow> nat \<Rightarrow> packet \<Rightarrow> packet option" where
  "expensive_push e n p =
     do {
       q \<leftarrow> expensive_uniqueify e (int (4 * ((n + 128) div 4))) 0 p;
       Some (data_down n q)
     }"

definition expensive_put :: "env \<Rightarrow> nat \<Rightarrow> packet \<Rightarrow> packet option" where
  "expensive_put e n p =
     do {
       q \<leftarrow> expensive_uniqueify e 0 (int (n + 128)) p;
       Some (tail_up n q)
     }"

definition pkt_push :: "env \<Rightarrow> nat \<Rightarrow> packet \<Rightarrow> packet option" where
  "pkt_push e n p =
     (if headroom p \<ge> n \<and> \<not> pshared p then Some (data_down n p) else expensive_push e n p)"

definition pkt_nonunique_push :: "env \<Rightarrow> nat \<Rightarrow> packet \<Rightarrow> packet option" where
  "pkt_nonunique_push e n p =
     (if headroom p \<ge> n then Some (data_down n p) else expensive_push e n p)"

text \<open>\<^verbatim>\<open>pull\<close> and \<^verbatim>\<open>take\<close> clamp their argument to the packet's length.\<close>

definition pkt_pull :: "nat \<Rightarrow> packet \<Rightarrow> packet" where
  "pkt_pull n p =
     (let n = (if n > plen p then plen p else n)
      in p\<lparr> hroom := hroom p @ take n (pdata p), pdata := drop n (pdata p) \<rparr>)"

definition pkt_take :: "nat \<Rightarrow> packet \<Rightarrow> packet" where
  "pkt_take n p =
     (let n = (if n > plen p then plen p else n)
      in p\<lparr> pdata := take (plen p - n) (pdata p),
            troom := drop (plen p - n) (pdata p) @ troom p \<rparr>)"

definition pkt_put :: "env \<Rightarrow> nat \<Rightarrow> packet \<Rightarrow> packet option" where
  "pkt_put e n p =
     (if tailroom p \<ge> n \<and> \<not> pshared p then Some (tail_up n p) else expensive_put e n p)"

definition pkt_nonunique_put :: "env \<Rightarrow> nat \<Rightarrow> packet \<Rightarrow> packet option" where
  "pkt_nonunique_put e n p =
     (if tailroom p \<ge> n then Some (tail_up n p) else expensive_put e n p)"

text \<open>\<^verbatim>\<open>clone\<close>: the clone and the original, which now share their data.\<close>

definition pkt_clone :: "env \<Rightarrow> packet \<Rightarrow> (packet \<times> packet) option" where
  "pkt_clone e p =
     (if alloc_ok e then Some (p\<lparr> pshared := True \<rparr>, p\<lparr> pshared := True \<rparr>) else None)"

text \<open>Header pointers; positions are offsets from \<^verbatim>\<open>_head\<close>, and a failed \<^verbatim>\<open>assert\<close> is
  \<open>None\<close>.\<close>

definition set_mac_header :: "int \<Rightarrow> nat \<Rightarrow> packet \<Rightarrow> packet option" where
  "set_mac_header pos len p =
     (if 0 \<le> pos \<and> pos + int len \<le> int (length (pbuffer p))
      then Some (p\<lparr> mac_off := Some pos, net_off := Some (pos + int len) \<rparr>) else None)"

definition set_network_header :: "int \<Rightarrow> nat \<Rightarrow> packet \<Rightarrow> packet option" where
  "set_network_header pos len p =
     (if 0 \<le> pos \<and> pos + int len \<le> int (length (pbuffer p))
      then Some (p\<lparr> net_off := Some pos, trans_off := Some (pos + int len) \<rparr>) else None)"

definition set_ip_header :: "int \<Rightarrow> nat \<Rightarrow> packet \<Rightarrow> packet option" where
  "set_ip_header pos len p = set_network_header pos len p"

definition set_ether_header :: "int \<Rightarrow> packet \<Rightarrow> packet option" where
  "set_ether_header pos p = set_mac_header pos 14 p"

definition clear_mac_header :: "packet \<Rightarrow> packet" where
  "clear_mac_header p = p\<lparr> mac_off := None \<rparr>"

definition clear_network_header :: "packet \<Rightarrow> packet" where
  "clear_network_header p = p\<lparr> net_off := None \<rparr>"

definition clear_transport_header :: "packet \<Rightarrow> packet" where
  "clear_transport_header p = p\<lparr> trans_off := None \<rparr>"

definition push_mac_header :: "env \<Rightarrow> nat \<Rightarrow> packet \<Rightarrow> packet option" where
  "push_mac_header e n p =
     do {
       q \<leftarrow> pkt_push e n p;
       set_mac_header (int (headroom q)) n q
     }"

text \<open>Offsets of the headers from the data pointer (\<^verbatim>\<open>network_header_offset\<close> and its kin), and
  \<^verbatim>\<open>network_header_length\<close>.\<close>

definition network_header_offset :: "packet \<Rightarrow> int option" where
  "network_header_offset p = map_option (\<lambda>k. k - int (headroom p)) (net_off p)"

definition mac_header_offset :: "packet \<Rightarrow> int option" where
  "mac_header_offset p = map_option (\<lambda>k. k - int (headroom p)) (mac_off p)"

definition network_header_length :: "packet \<Rightarrow> int option" where
  "network_header_length p = do { h \<leftarrow> trans_off p; n \<leftarrow> net_off p; Some (h - n) }"

text \<open>\<^verbatim>\<open>copy_annotations\<close>: header pointers are not copied.\<close>

definition copy_annotations :: "packet \<Rightarrow> packet \<Rightarrow> packet" where
  "copy_annotations src p =
     p\<lparr> dst_ip_anno := dst_ip_anno src, paint_anno := paint_anno src,
        icmp_paramprob_anno := icmp_paramprob_anno src, fix_ip_src_anno := fix_ip_src_anno src,
        packet_type_anno := packet_type_anno src \<rparr>"

definition clear_annotations :: "bool \<Rightarrow> packet \<Rightarrow> packet" where
  "clear_annotations all p =
     (let p = p\<lparr> dst_ip_anno := 0, paint_anno := 0, icmp_paramprob_anno := 0, fix_ip_src_anno := 0 \<rparr>
      in if all then p\<lparr> packet_type_anno := HOST, mac_off := None, net_off := None, trans_off := None \<rparr>
         else p)"

section \<open>The header stack\<close>

text \<open>
  What the elements that add and remove headers rely on: \<open>push\<close> puts room in front of the
  data and keeps the data, \<open>pull\<close> removes a prefix.
\<close>

locale header_stack =
  fixes push :: "nat \<Rightarrow> 'p \<Rightarrow> 'p option"
    and pull :: "nat \<Rightarrow> 'p \<Rightarrow> 'p"
    and data :: "'p \<Rightarrow> bytes"
  assumes push_length: "push n p = Some q \<Longrightarrow> length (data q) = n + length (data p)"
    and push_data: "push n p = Some q \<Longrightarrow> drop n (data q) = data p"
    and pull_data: "data (pull n p) = drop n (data p)"
begin

lemma pull_push: "push n p = Some q \<Longrightarrow> data (pull n q) = data p"
  by (simp add: pull_data push_data)

text \<open>Two headers come off as one.\<close>

lemma pull_pull: "data (pull m (pull n p)) = data (pull (n + m) p)"
  by (simp add: pull_data add.commute)

lemma push_push:
  "push n p = Some q \<Longrightarrow> push m q = Some r \<Longrightarrow> data (pull (m + n) r) = data p"
  by (metis add.commute drop_drop pull_data push_data)

lemma push_split:
  assumes "push n p = Some q"
  obtains h where "length h = n" and "data q = h @ data p"
proof -
  have "data q = take n (data q) @ data p"
    using push_data [OF assms] by (metis append_take_drop_id)
  moreover have "length (take n (data q)) = n"
    using push_length [OF assms] by simp
  ultimately show ?thesis using that by blast
qed

end

lemma alloc_data_lengths:
  "alloc_data e h l t = Some (a, b, c) \<Longrightarrow>
    length a = h \<and> length b = l \<and> t \<le> length c \<and> min_buffer_length \<le> h + l + length c"
  by (auto simp: alloc_data_def Let_def min_buffer_length_def split: if_splits)

lemma data_down_simps:
  assumes "n \<le> headroom p"
  shows "headroom (data_down n p) = headroom p - n"
    and "plen (data_down n p) = n + plen p"
    and "drop n (pdata (data_down n p)) = pdata p"
    and "pbuffer (data_down n p) = pbuffer p"
    and "troom (data_down n p) = troom p"
    and "pshared (data_down n p) = pshared p"
  using assms by (simp_all add: data_down_def pbuffer_def)

lemma expensive_uniqueify_result:
  assumes "expensive_uniqueify e eh et p = Some q"
  shows "pdata q = pdata p" and "int (headroom q) = int (headroom p) + eh"
    and "int (tailroom q) \<ge> int (tailroom p) + et" and "\<not> pshared q"
  using assms
  by (auto simp: expensive_uniqueify_def shift_header_annotations_def Let_def
      split: if_splits Option.bind_splits dest!: alloc_data_lengths)

text \<open>\<^verbatim>\<open>expensive_push\<close> leaves at least 125 bytes of headroom for the next header.\<close>

lemma expensive_push_result:
  assumes "expensive_push e n p = Some q"
  shows "plen q = n + plen p" and "drop n (pdata q) = pdata p"
    and "headroom q \<ge> headroom p + 125" and "\<not> pshared q"
proof -
  obtain r where r: "expensive_uniqueify e (int (4 * ((n + 128) div 4))) 0 p = Some r"
    and q: "q = data_down n r"
    using assms by (auto simp: expensive_push_def split: Option.bind_splits)
  have "int (headroom r) = int (headroom p) + int (4 * ((n + 128) div 4))" "pdata r = pdata p"
    "\<not> pshared r"
    using expensive_uniqueify_result [OF r] by auto
  moreover from this have hr: "n + (headroom p + 125) \<le> headroom r" by linarith
  ultimately show "plen q = n + plen p" "drop n (pdata q) = pdata p"
    "headroom q \<ge> headroom p + 125" "\<not> pshared q"
    using data_down_simps [of n r] by (simp_all add: q)
qed

lemma pkt_push_result:
  assumes "pkt_push e n p = Some q"
  shows "plen q = n + plen p" and "drop n (pdata q) = pdata p" and "\<not> pshared q"
  using assms expensive_push_result [of e n p q] data_down_simps [of n p]
  by (auto simp: pkt_push_def split: if_splits)

lemma pkt_pull_data: "pdata (pkt_pull n p) = drop n (pdata p)"
  by (simp add: pkt_pull_def Let_def)

interpretation pkt: header_stack "pkt_push e" pkt_pull pdata for e
  by unfold_locales (simp_all add: pkt_push_result pkt_pull_data)

text \<open>\<^verbatim>\<open>pull\<close> hides bytes, it does not destroy them: pushing the same amount back restores the
  packet.\<close>

lemma pull_then_push:
  assumes "n \<le> plen p" and "\<not> pshared p"
  shows "pkt_push e n (pkt_pull n p) = Some p"
  using assms by (simp add: pkt_push_def pkt_pull_def data_down_def)

lemma take_then_put:
  assumes "n \<le> plen p" and "\<not> pshared p"
  shows "pkt_put e n (pkt_take n p) = Some p"
  using assms by (simp add: pkt_put_def pkt_take_def tail_up_def)

lemma pkt_pull_buffer [simp]: "pbuffer (pkt_pull n p) = pbuffer p"
  by (simp add: pkt_pull_def pbuffer_def Let_def)

lemma pkt_take_buffer [simp]: "pbuffer (pkt_take n p) = pbuffer p"
  by (simp add: pkt_take_def pbuffer_def Let_def)

section \<open>Fresh packets\<close>

lemma pkt_make_Some:
  assumes "alloc_ok e"
  obtains p where "pkt_make e h None n t = Some p" and "headroom p = h" and "plen p = n"
    and "\<not> pshared p" and "dst_ip_anno p = 0"
proof -
  obtain a b c where "alloc_data e h n t = Some (a, b, c)"
    using assms by (simp add: alloc_data_def Let_def)
  with alloc_data_lengths [OF this] that show ?thesis
    by (simp add: pkt_make_def)
qed

lemma pkt_make_None: "\<not> alloc_ok e \<Longrightarrow> pkt_make e h d n t = None"
  by (simp add: pkt_make_def alloc_data_def Let_def)

lemma pkt_make_result:
  assumes "pkt_make e h d n t = Some p" and "d = None \<or> (\<exists>b. d = Some b \<and> length b = n)"
  shows "headroom p = h" and "plen p = n" and "t \<le> tailroom p"
    and "min_buffer_length \<le> length (pbuffer p)" and "d = Some b \<Longrightarrow> pdata p = b" and "\<not> pshared p"
    and "dst_ip_anno p = 0"
  using assms
  by (auto simp: pkt_make_def pbuffer_def split: Option.bind_splits option.splits
      dest!: alloc_data_lengths)

end
