(* ===== verification/MIP_Headers.thy ===== *)
theory MIP_Headers
  imports Click_Packet
begin

unbundle bit_operations_syntax

text \<open>
  Layout of the protocol headers that the Mobile IP elements read and write through casts:
  \<^verbatim>\<open>click_ether\<close>, \<^verbatim>\<open>click_ip\<close>, \<^verbatim>\<open>click_udp\<close>, \<^verbatim>\<open>click_icmp\<close> and the element-specific structures
  \<^verbatim>\<open>advertisement_h\<close>, \<^verbatim>\<open>advertisement_h_e\<close>, \<^verbatim>\<open>solicitation_h\<close>, \<^verbatim>\<open>regreq_h\<close>, \<^verbatim>\<open>regrep_h\<close>, with
  the offsets and sizes of the x86-64 ABI. For each message there is a record with the
  fields of the C++ structure and a function that reads it from a packet; the handlers
  themselves read and write single fields, as the code does.
\<close>

section \<open>Sizes (\<open>sizeof\<close>)\<close>

abbreviation (input) sizeof_click_ether :: nat where "sizeof_click_ether \<equiv> 14"
abbreviation (input) sizeof_click_ip :: nat where "sizeof_click_ip \<equiv> 20"
abbreviation (input) sizeof_click_udp :: nat where "sizeof_click_udp \<equiv> 8"
abbreviation (input) sizeof_click_icmp :: nat where "sizeof_click_icmp \<equiv> 8"
abbreviation (input) sizeof_advertisement_h :: nat where "sizeof_advertisement_h \<equiv> 16"
abbreviation (input) sizeof_advertisement_h_e :: nat where "sizeof_advertisement_h_e \<equiv> 12"

text \<open>\<^verbatim>\<open>solicitation_h\<close> has five bytes of fields and is padded to the alignment of its
  16-bit checksum.\<close>

abbreviation (input) sizeof_solicitation_h :: nat where "sizeof_solicitation_h \<equiv> 6"
abbreviation (input) sizeof_regreq_h :: nat where "sizeof_regreq_h \<equiv> 24"

text \<open>\<^verbatim>\<open>regrep_h\<close> is declared packed: the 64-bit identification is at offset 12.\<close>

abbreviation (input) sizeof_regrep_h :: nat where "sizeof_regrep_h \<equiv> 20"

section \<open>The IPv4 header\<close>

record click_ip =
  ip_v :: nat
  ip_hl :: nat
  ip_tos :: byte
  ip_len :: u16
  ip_id :: u16
  ip_off :: u16
  ip_ttl :: byte
  ip_p :: byte
  ip_sum :: u16
  ip_src :: ipaddr
  ip_dst :: ipaddr

text \<open>Offsets of the fields in the header.\<close>

abbreviation (input) IP_VHL :: nat where "IP_VHL \<equiv> 0"
abbreviation (input) IP_TOS :: nat where "IP_TOS \<equiv> 1"
abbreviation (input) IP_LEN :: nat where "IP_LEN \<equiv> 2"
abbreviation (input) IP_ID :: nat where "IP_ID \<equiv> 4"
abbreviation (input) IP_OFF :: nat where "IP_OFF \<equiv> 6"
abbreviation (input) IP_TTL :: nat where "IP_TTL \<equiv> 8"
abbreviation (input) IP_P :: nat where "IP_P \<equiv> 9"
abbreviation (input) IP_SUM :: nat where "IP_SUM \<equiv> 10"
abbreviation (input) IP_SRC :: nat where "IP_SRC \<equiv> 12"
abbreviation (input) IP_DST :: nat where "IP_DST \<equiv> 16"

definition get_ip :: "bytes \<Rightarrow> nat \<Rightarrow> click_ip" where
  "get_ip d i =
     \<lparr> ip_v = ip_v_of (get8 d i), ip_hl = ip_hl_of (get8 d i), ip_tos = get8 d (i + IP_TOS),
       ip_len = get16 d (i + IP_LEN), ip_id = get16 d (i + IP_ID), ip_off = get16 d (i + IP_OFF),
       ip_ttl = get8 d (i + IP_TTL), ip_p = get8 d (i + IP_P), ip_sum = get16 d (i + IP_SUM),
       ip_src = get32 d (i + IP_SRC), ip_dst = get32 d (i + IP_DST) \<rparr>"

text \<open>Assignments to the two bit fields of the first byte.\<close>

definition st_ip_v :: "nat \<Rightarrow> nat \<Rightarrow> bytes \<Rightarrow> bytes option" where
  "st_ip_v i v d = do { b \<leftarrow> ld8 d i; st8 i (of_nat (16 * (v mod 16) + unat b mod 16)) d }"

definition st_ip_hl :: "nat \<Rightarrow> nat \<Rightarrow> bytes \<Rightarrow> bytes option" where
  "st_ip_hl i v d = do { b \<leftarrow> ld8 d i; st8 i (of_nat (16 * (unat b div 16) + v mod 16)) d }"

text \<open>The Internet checksum over the \<open>n\<close> bytes from \<open>i\<close> verifies; for an IP header without
  options these are 20 bytes.\<close>

definition cksum_ok :: "bytes \<Rightarrow> nat \<Rightarrow> nat \<Rightarrow> bool" where
  "cksum_ok d i n \<longleftrightarrow> i + n \<le> length d \<and> click_in_cksum (slice i n d) = 0"

abbreviation ip_cksum_ok :: "bytes \<Rightarrow> nat \<Rightarrow> bool" where
  "ip_cksum_ok d i \<equiv> cksum_ok d i 20"

section \<open>UDP\<close>

record click_udp =
  uh_sport :: u16
  uh_dport :: u16
  uh_ulen :: u16
  uh_sum :: u16

abbreviation (input) UH_SPORT :: nat where "UH_SPORT \<equiv> 0"
abbreviation (input) UH_DPORT :: nat where "UH_DPORT \<equiv> 2"
abbreviation (input) UH_ULEN :: nat where "UH_ULEN \<equiv> 4"
abbreviation (input) UH_SUM :: nat where "UH_SUM \<equiv> 6"

definition get_udp :: "bytes \<Rightarrow> nat \<Rightarrow> click_udp" where
  "get_udp d i =
     \<lparr> uh_sport = get16 d (i + UH_SPORT), uh_dport = get16 d (i + UH_DPORT),
       uh_ulen = get16 d (i + UH_ULEN), uh_sum = get16 d (i + UH_SUM) \<rparr>"

text \<open>The test every receiver makes: the UDP checksum verifies, or the sender left it out.\<close>

definition udp_cksum_ok :: "bytes \<Rightarrow> nat \<Rightarrow> nat \<Rightarrow> nat \<Rightarrow> bool option" where
  "udp_cksum_ok d iph udph n =
     do {
       c \<leftarrow> transport_cksum d iph udph n;
       if c \<noteq> 0 then do { s \<leftarrow> ld16 d (udph + UH_SUM); Some (ntohs s = 0) } else Some True
     }"

section \<open>Agent discovery\<close>

record advertisement_h =
  ah_type :: byte
  ah_code :: byte
  ah_checksum :: u16
  ah_addresses :: byte
  ah_addr_size :: byte
  ah_lifetime :: u16
  ah_address :: ipaddr
  ah_preferences :: u32

abbreviation (input) AH_TYPE :: nat where "AH_TYPE \<equiv> 0"
abbreviation (input) AH_CODE :: nat where "AH_CODE \<equiv> 1"
abbreviation (input) AH_CKSUM :: nat where "AH_CKSUM \<equiv> 2"
abbreviation (input) AH_ADDRESSES :: nat where "AH_ADDRESSES \<equiv> 4"
abbreviation (input) AH_ADDR_SIZE :: nat where "AH_ADDR_SIZE \<equiv> 5"
abbreviation (input) AH_LIFETIME :: nat where "AH_LIFETIME \<equiv> 6"
abbreviation (input) AH_ADDRESS :: nat where "AH_ADDRESS \<equiv> 8"
abbreviation (input) AH_PREF :: nat where "AH_PREF \<equiv> 12"

definition get_advertisement_h :: "bytes \<Rightarrow> nat \<Rightarrow> advertisement_h" where
  "get_advertisement_h d i =
     \<lparr> ah_type = get8 d (i + AH_TYPE), ah_code = get8 d (i + AH_CODE),
       ah_checksum = get16 d (i + AH_CKSUM), ah_addresses = get8 d (i + AH_ADDRESSES),
       ah_addr_size = get8 d (i + AH_ADDR_SIZE), ah_lifetime = get16 d (i + AH_LIFETIME),
       ah_address = get32 d (i + AH_ADDRESS), ah_preferences = get32 d (i + AH_PREF) \<rparr>"

record advertisement_h_e =
  ahe_type :: byte
  ahe_length :: byte
  ahe_seq_nr :: u16
  ahe_lifetime :: u16
  ahe_flags :: byte
  ahe_reserved :: byte
  ahe_address :: ipaddr

abbreviation (input) AHE_TYPE :: nat where "AHE_TYPE \<equiv> 0"
abbreviation (input) AHE_LENGTH :: nat where "AHE_LENGTH \<equiv> 1"
abbreviation (input) AHE_SEQ :: nat where "AHE_SEQ \<equiv> 2"
abbreviation (input) AHE_LIFETIME :: nat where "AHE_LIFETIME \<equiv> 4"
abbreviation (input) AHE_FLAGS :: nat where "AHE_FLAGS \<equiv> 6"
abbreviation (input) AHE_RESERVED :: nat where "AHE_RESERVED \<equiv> 7"
abbreviation (input) AHE_ADDRESS :: nat where "AHE_ADDRESS \<equiv> 8"

definition get_advertisement_h_e :: "bytes \<Rightarrow> nat \<Rightarrow> advertisement_h_e" where
  "get_advertisement_h_e d i =
     \<lparr> ahe_type = get8 d (i + AHE_TYPE), ahe_length = get8 d (i + AHE_LENGTH),
       ahe_seq_nr = get16 d (i + AHE_SEQ), ahe_lifetime = get16 d (i + AHE_LIFETIME),
       ahe_flags = get8 d (i + AHE_FLAGS), ahe_reserved = get8 d (i + AHE_RESERVED),
       ahe_address = get32 d (i + AHE_ADDRESS) \<rparr>"

record solicitation_h =
  sol_type :: byte
  sol_code :: byte
  sol_checksum :: u16
  sol_addresses :: byte

abbreviation (input) SOL_TYPE :: nat where "SOL_TYPE \<equiv> 0"
abbreviation (input) SOL_CODE :: nat where "SOL_CODE \<equiv> 1"
abbreviation (input) SOL_CKSUM :: nat where "SOL_CKSUM \<equiv> 2"

section \<open>Registration\<close>

record regreq_h =
  rq_type :: byte
  rq_flags :: byte
  rq_lifetime :: u16
  rq_home_address :: ipaddr
  rq_home_agent :: ipaddr
  rq_care_of_address :: ipaddr
  rq_identification :: u64

abbreviation (input) RQ_TYPE :: nat where "RQ_TYPE \<equiv> 0"
abbreviation (input) RQ_FLAGS :: nat where "RQ_FLAGS \<equiv> 1"
abbreviation (input) RQ_LIFETIME :: nat where "RQ_LIFETIME \<equiv> 2"
abbreviation (input) RQ_HOME_ADDRESS :: nat where "RQ_HOME_ADDRESS \<equiv> 4"
abbreviation (input) RQ_HOME_AGENT :: nat where "RQ_HOME_AGENT \<equiv> 8"
abbreviation (input) RQ_COA :: nat where "RQ_COA \<equiv> 12"
abbreviation (input) RQ_ID :: nat where "RQ_ID \<equiv> 16"

definition get_regreq :: "bytes \<Rightarrow> nat \<Rightarrow> regreq_h" where
  "get_regreq d i =
     \<lparr> rq_type = get8 d (i + RQ_TYPE), rq_flags = get8 d (i + RQ_FLAGS),
       rq_lifetime = get16 d (i + RQ_LIFETIME), rq_home_address = get32 d (i + RQ_HOME_ADDRESS),
       rq_home_agent = get32 d (i + RQ_HOME_AGENT), rq_care_of_address = get32 d (i + RQ_COA),
       rq_identification = get64 d (i + RQ_ID) \<rparr>"

record regrep_h =
  rp_type :: byte
  rp_code :: byte
  rp_lifetime :: u16
  rp_home_address :: ipaddr
  rp_home_agent :: ipaddr
  rp_identification :: u64

abbreviation (input) RP_TYPE :: nat where "RP_TYPE \<equiv> 0"
abbreviation (input) RP_CODE :: nat where "RP_CODE \<equiv> 1"
abbreviation (input) RP_LIFETIME :: nat where "RP_LIFETIME \<equiv> 2"
abbreviation (input) RP_HOME_ADDRESS :: nat where "RP_HOME_ADDRESS \<equiv> 4"
abbreviation (input) RP_HOME_AGENT :: nat where "RP_HOME_AGENT \<equiv> 8"
abbreviation (input) RP_ID :: nat where "RP_ID \<equiv> 12"

definition get_regrep :: "bytes \<Rightarrow> nat \<Rightarrow> regrep_h" where
  "get_regrep d i =
     \<lparr> rp_type = get8 d (i + RP_TYPE), rp_code = get8 d (i + RP_CODE),
       rp_lifetime = get16 d (i + RP_LIFETIME), rp_home_address = get32 d (i + RP_HOME_ADDRESS),
       rp_home_agent = get32 d (i + RP_HOME_AGENT), rp_identification = get64 d (i + RP_ID) \<rparr>"

section \<open>Lemmas\<close>

lemma ip_bitfields [mem_simps]:
  "i + 1 \<le> length d \<Longrightarrow>
    st_ip_v i v d = Some (upd8 i (of_nat (16 * (v mod 16) + unat (get8 d i) mod 16)) d)"
  "i + 1 \<le> length d \<Longrightarrow>
    st_ip_hl i v d = Some (upd8 i (of_nat (16 * (unat (get8 d i) div 16) + v mod 16)) d)"
  by (simp_all add: st_ip_v_def st_ip_hl_def mem_simps)

lemma get_ip_0:
  "get_ip d 0 =
     \<lparr> ip_v = ip_v_of (get8 d 0), ip_hl = ip_hl_of (get8 d 0), ip_tos = get8 d IP_TOS,
       ip_len = get16 d IP_LEN, ip_id = get16 d IP_ID, ip_off = get16 d IP_OFF,
       ip_ttl = get8 d IP_TTL, ip_p = get8 d IP_P, ip_sum = get16 d IP_SUM,
       ip_src = get32 d IP_SRC, ip_dst = get32 d IP_DST \<rparr>"
  by (simp only: get_ip_def add_0)

lemma ip_hl_45 [simp]: "ip_hl_of 0x45 = 5" "ip_v_of 0x45 = 4"
  by (simp_all add: ip_hl_of_def ip_v_of_def)

text \<open>The two assignments \<^verbatim>\<open>ip_v = 4; ip_hl = 5\<close> on a zeroed header.\<close>

lemma upd8_upd8 [mem_simps]: "upd8 i b (upd8 i a d) = upd8 i b d"
  by (simp add: upd8_def)

text \<open>A region completed with its checksum verifies, also when the checksum was taken over a
  longer region that is zero behind it.\<close>

lemma cksum_fill:
  assumes "i + n \<le> length d" and "get16 d (i + k) = 0" and "even k" and "k + 2 \<le> n" and "n \<le> 131072"
  shows "cksum_ok (upd16 (i + k) (click_in_cksum (slice i n d)) d) i n"
proof -
  have "slice i n (upd16 (i + k) c d) = upd16 k c (slice i n d)" for c
    using slice_upd16_inside [of i "i + k" n d c] assms by simp
  moreover have "click_in_cksum (upd16 k (click_in_cksum (slice i n d)) (slice i n d)) = 0"
    using assms by (intro in_cksum.ck_fill) (simp_all add: mem_simps)
  ultimately show ?thesis
    using assms(1) by (simp add: cksum_ok_def)
qed

lemma ip_cksum_fill:
  assumes "i + 20 \<le> length d" and "get16 d (i + IP_SUM) = 0"
  shows "ip_cksum_ok (upd16 (i + IP_SUM) (click_in_cksum (slice i 20 d)) d) i"
  using assms by (intro cksum_fill) simp_all

lemma cksum_zero_padding:
  assumes "drop (i + n) d = zeros m" and "even n" and "i + n \<le> length d" and "n + m \<le> 131072"
  shows "click_in_cksum (slice i (n + m) d) = click_in_cksum (slice i n d)"
proof -
  have "slice i (n + m) d = slice i n d @ take m (drop (i + n) d)"
    by (simp add: slice_def take_add add.commute [of n i])
  also have "\<dots> = slice i n d @ zeros m"
    by (simp add: assms(1) zeros_def)
  finally show ?thesis
    using assms by (simp add: in_cksum.ck_zero_padding)
qed

lemma cksum_ok_outside [mem_simps]:
  "i + n \<le> k \<or> k + 1 \<le> i \<Longrightarrow> cksum_ok (upd8 k b d) i n = cksum_ok d i n"
  "i + n \<le> k \<or> k + 2 \<le> i \<Longrightarrow> cksum_ok (upd16 k h d) i n = cksum_ok d i n"
  "i + n \<le> k \<or> k + 4 \<le> i \<Longrightarrow> cksum_ok (upd32 k w d) i n = cksum_ok d i n"
  "i + n \<le> k \<or> k + 8 \<le> i \<Longrightarrow> cksum_ok (upd64 k q d) i n = cksum_ok d i n"
  by (simp_all add: cksum_ok_def mem_simps)

lemma cksum_ok_append [simp]:
  "cksum_ok (h @ d) (length h + i) n = cksum_ok d i n"
  by (simp add: cksum_ok_def slice_def)

lemma cksum_at_in_range [mem_simps]:
  "i + n \<le> length d \<Longrightarrow> cksum_at d i n = Some (click_in_cksum (slice i n d))"
  by (simp add: cksum_at_def)

text \<open>The UDP checksum of a message behind a 20-byte IP header: storing it makes the message
  pass the receivers' test.\<close>

lemma udp_cksum_fill:
  assumes "ip_hl_of (get8 d i) = 5" and "i + 20 + n \<le> length d" and "8 \<le> n" and "n \<le> 131072"
    and "get16 d (i + 26) = 0"
  obtains c where "transport_cksum d i (i + 20) n = Some c"
    and "transport_cksum (upd16 (i + 26) c d) i (i + 20) n = Some 0"
proof -
  obtain c where c: "transport_cksum d i (i + 20) n = Some c"
    using transport_cksum_value [of d i "i + 20" n] assms by auto
  moreover have "transport_cksum (upd16 (i + 20 + 6) c d) i (i + 20) n = Some 0"
    using assms c by (intro transport_cksum_fill) (simp_all add: add.commute)
  ultimately show ?thesis using that by (simp add: add.assoc)
qed

lemma udp_cksum_okI: "transport_cksum d i t n = Some 0 \<Longrightarrow> udp_cksum_ok d i t n = Some True"
  by (simp add: udp_cksum_ok_def)

lemma udp_cksum_ok_defined:
  assumes "ip_hl_of (get8 d i) = 5" and "i + 20 \<le> t" and "t + n \<le> length d" and "8 \<le> n" and "n \<le> 131072"
  obtains ok where "udp_cksum_ok d i t n = Some ok"
proof -
  obtain c where "transport_cksum d i t n = Some c"
    by (rule transport_cksum_value [OF assms(1-3,5)])
  then show ?thesis
    using that assms by (cases "c = 0") (simp_all add: udp_cksum_ok_def mem_simps)
qed

lemma udp_cksum_ok_absent:
  assumes "ip_hl_of (get8 d i) = 5" and "i + 20 \<le> t" and "t + n \<le> length d" and "8 \<le> n" and "n \<le> 131072"
    and "get16 d (t + UH_SUM) = 0"
  shows "udp_cksum_ok d i t n = Some True"
proof -
  obtain c where "transport_cksum d i t n = Some c"
    by (rule transport_cksum_value [OF assms(1-3,5)])
  then show ?thesis
    using assms by (cases "c = 0") (simp_all add: udp_cksum_ok_def mem_simps)
qed

text \<open>Removing a header in front does not change what is behind it.\<close>

lemma transport_cksum_drop:
  "k \<le> length d \<Longrightarrow> transport_cksum (drop k d) i t n = transport_cksum d (k + i) (k + t) n"
  by (simp add: transport_cksum_def cksum_at_def slice_def add.commute [of k] less_diff_conv le_diff_conv2
      add.assoc add.left_commute)

lemma get_headers_drop:
  "k + i + 20 \<le> length d \<Longrightarrow> get_ip (drop k d) i = get_ip d (k + i)"
  "k + i + 8 \<le> length d \<Longrightarrow> get_udp (drop k d) i = get_udp d (k + i)"
  "k + i + 20 \<le> length d \<Longrightarrow> get_regrep (drop k d) i = get_regrep d (k + i)"
  "k + i + 24 \<le> length d \<Longrightarrow> get_regreq (drop k d) i = get_regreq d (k + i)"
  by (simp_all add: get_ip_def get_udp_def get_regrep_def get_regreq_def mem_simps get64_def le64_def add.assoc)

section \<open>Sample inputs\<close>

text \<open>For the witnesses of the component theories: an allocator that succeeds, and packets with
  given data.\<close>

definition env0 :: env where
  "env0 = \<lparr> alloc_ok = True, junk = (\<lambda>_. 0) \<rparr>"

lemma env0_ok [simp]: "alloc_ok env0"
  by (simp add: env0_def)

lemma make_data [simp]:
  "alloc_ok e \<Longrightarrow> length d = n \<Longrightarrow> pdata (the (pkt_make e h (Some d) n t)) = d"
  by (simp add: pkt_make_def alloc_data_def Let_def)

end
