(* ===== verification/Click_IPAddress.thy ===== *)
theory Click_IPAddress
  imports Click_Prelude
begin

unbundle bit_operations_syntax

text \<open>
  Prefixes and prefix masks: the operations of \<^verbatim>\<open>IPAddress\<close> (\<^verbatim>\<open>include/click/ipaddress.hh\<close>,
  \<^verbatim>\<open>lib/ipaddress.cc\<close>) on which the routing tables rest, with \<^verbatim>\<open>ffs_lsb\<close> of \<^verbatim>\<open>lib/integers.cc\<close>.
  Addresses and masks are in network order, as everywhere; the bit order of a mask is therefore
  the one of \<open>swapped_bit\<close>.

  The lemmas order the masks by specificity: the 33 prefix masks form a chain, on which
  \<^verbatim>\<open>mask_as_specific\<close> is the comparison of the prefix lengths, and two prefixes that contain a
  common address are nested.
\<close>

section \<open>The program\<close>

text \<open>\<^verbatim>\<open>hashcode\<close> and \<^verbatim>\<open>is_multicast\<close>.\<close>

definition ip_hashcode :: "ipaddr \<Rightarrow> nat" where
  "ip_hashcode a = unat a"

definition is_multicast :: "ipaddr \<Rightarrow> bool" where
  "is_multicast a \<longleftrightarrow> a AND htonl 0xF0000000 = htonl 0xE0000000"

text \<open>\<^verbatim>\<open>a.matches_prefix(addr, mask)\<close> and \<^verbatim>\<open>a.mask_as_specific(mask)\<close>.\<close>

definition matches_prefix :: "ipaddr \<Rightarrow> ipaddr \<Rightarrow> ipaddr \<Rightarrow> bool" where
  "matches_prefix a addr msk \<longleftrightarrow> (a XOR addr) AND msk = 0"

definition mask_as_specific :: "ipaddr \<Rightarrow> ipaddr \<Rightarrow> bool" where
  "mask_as_specific a msk \<longleftrightarrow> a AND msk = msk"

definition mask_more_specific :: "ipaddr \<Rightarrow> ipaddr \<Rightarrow> bool" where
  "mask_more_specific a msk \<longleftrightarrow> push_bit 1 a AND msk = msk"

text \<open>\<^verbatim>\<open>make_prefix\<close>: the assertion on the length gives \<open>None\<close>.\<close>

definition make_prefix :: "int \<Rightarrow> ipaddr option" where
  "make_prefix n =
     (if 0 \<le> n \<and> n \<le> 32
      then Some (htonl (if n > 0 then push_bit (nat (32 - n)) 0xFFFFFFFF else 0))
      else None)"

text \<open>\<^verbatim>\<open>ffs_lsb\<close>: the 1-based index of the lowest bit that is set.\<close>

definition ffs_bvals :: "nat list" where
  "ffs_bvals = [0, 1, 2, 1, 3, 1, 2, 1, 4, 1, 2, 1, 3, 1, 2, 1]"

definition ffs_lsb :: "u32 \<Rightarrow> nat" where
  "ffs_lsb x =
     (if x = 0 then 0
      else let (add, x) = (if x AND 0xFFFF = 0 then (16, drop_bit 16 x) else (0, x));
               (add, x) = (if x AND 0xFF = 0 then (add + 8, drop_bit 8 x) else (add, x));
               (add, x) = (if x AND 0xF = 0 then (add + 4, drop_bit 4 x) else (add, x))
           in add + ffs_bvals ! unat (x AND 0xF))"

definition mask_to_prefix_len :: "ipaddr \<Rightarrow> int" where
  "mask_to_prefix_len m =
     (let host_addr = ntohl m; prefix = ffs_lsb host_addr
      in if prefix = 0 then 0
         else if host_addr = push_bit (prefix - 1) 0xFFFFFFFF then 33 - int prefix
         else - 1)"

section \<open>Prefix masks\<close>

definition prefix_mask :: "nat \<Rightarrow> ipaddr" where
  "prefix_mask n = htonl (push_bit (32 - n) 0xFFFFFFFF)"

lemma make_prefix_mask: "n \<le> 32 \<Longrightarrow> make_prefix (int n) = Some (prefix_mask n)"
proof (cases "n = 0")
  case True
  have "push_bit 32 (0xFFFFFFFF :: u32) = 0" by simp
  then show ?thesis using True by (simp add: make_prefix_def prefix_mask_def del: push_bit_numeral)
next
  case False
  assume "n \<le> 32"
  moreover from this have "nat (32 - int n) = 32 - n" by linarith
  ultimately show ?thesis using False by (simp add: make_prefix_def prefix_mask_def)
qed

lemma swapped_bit_less: "swapped_bit i < 32" if "i < 32"
  using that by (simp add: swapped_bit_def)

lemma swapped_bit_swapped: "swapped_bit (swapped_bit i) = i" if "i < 32"
proof -
  have q: "i div 8 \<le> 3" using that by linarith
  have "swapped_bit i = 8 * (3 - i div 8) + i mod 8"
    using q by (simp add: swapped_bit_def diff_mult_distrib2)
  then have "swapped_bit i div 8 = 3 - i div 8" "swapped_bit i mod 8 = i mod 8"
    by (simp_all add: div_mult2_eq)
  then show ?thesis using q mult_div_mod_eq [of 8 i] by (simp add: swapped_bit_def [of "swapped_bit i"] diff_mult_distrib2)
qed

lemma bit_prefix_mask: "i < 32 \<Longrightarrow> n \<le> 32 \<Longrightarrow> bit (prefix_mask n) i \<longleftrightarrow> 32 - n \<le> swapped_bit i"
proof -
  assume i: "i < 32" and n: "n \<le> 32"
  have ones: "(0xFFFFFFFF :: u32) = mask 32" by (simp add: mask_eq_exp_minus_1)
  show ?thesis
    using i n swapped_bit_less [OF i] unfolding prefix_mask_def ones
    by (auto simp: bit_htonl bit_simps simp del: ones)
qed

lemma mask_as_specific_iff:
  "m \<le> 32 \<Longrightarrow> n \<le> 32 \<Longrightarrow> mask_as_specific (prefix_mask m) (prefix_mask n) \<longleftrightarrow> n \<le> m"
proof
  assume mn: "m \<le> 32" "n \<le> 32" and "n \<le> m"
  then show "mask_as_specific (prefix_mask m) (prefix_mask n)"
    unfolding mask_as_specific_def by (intro bit_word_eqI) (auto simp: bit_simps bit_prefix_mask)
next
  assume mn: "m \<le> 32" "n \<le> 32" and spec: "mask_as_specific (prefix_mask m) (prefix_mask n)"
  show "n \<le> m"
  proof (rule ccontr)
    assume "\<not> n \<le> m"
    then have i: "31 - m < 32" "32 - n \<le> 31 - m" "\<not> 32 - m \<le> 31 - m" using mn by auto
    note sw = swapped_bit_swapped [OF i(1)]
    have "bit (prefix_mask n) (swapped_bit (31 - m))" "\<not> bit (prefix_mask m) (swapped_bit (31 - m))"
      using mn i swapped_bit_less [OF i(1)] by (simp_all add: bit_prefix_mask sw)
    then show False using spec unfolding mask_as_specific_def by (metis bit_and_iff)
  qed
qed

lemma mask_as_specific_refl [simp]: "mask_as_specific m m" by (simp add: mask_as_specific_def)

lemma mask_as_specific_trans: "mask_as_specific a b \<Longrightarrow> mask_as_specific b c \<Longrightarrow> mask_as_specific a c"
  unfolding mask_as_specific_def by (metis and.assoc)

lemma mask_as_specific_antisym: "mask_as_specific a b \<Longrightarrow> mask_as_specific b a \<Longrightarrow> a = b"
  unfolding mask_as_specific_def by (metis and.commute)

lemma prefix_mask_0 [simp]: "prefix_mask 0 = 0"
  using bit_prefix_mask [of _ 0] swapped_bit_less by (intro bit_word_eqI) fastforce

lemma prefix_mask_32: "prefix_mask 32 = 0xFFFFFFFF"
proof -
  have "(0xFFFFFFFF :: u32) = mask 32" by (simp add: mask_eq_exp_minus_1)
  then show ?thesis unfolding \<open>0xFFFFFFFF = mask 32\<close> by (intro bit_word_eqI) (auto simp: bit_prefix_mask bit_mask_iff)
qed

lemma prefix_mask_inject: "m \<le> 32 \<Longrightarrow> n \<le> 32 \<Longrightarrow> prefix_mask m = prefix_mask n \<longleftrightarrow> m = n"
  using mask_as_specific_iff [of m n] mask_as_specific_iff [of n m] mask_as_specific_refl [of "prefix_mask m"]
  by (auto intro: le_antisym)

section \<open>Prefixes\<close>

lemma xor_zero_iff: "v XOR w = 0 \<longleftrightarrow> v = w" for v w :: u32
proof
  assume "v XOR w = 0"
  then have "v XOR (w XOR w) = w" by (simp only: xor.assoc [symmetric] xor.left_neutral)
  then show "v = w" by simp
qed simp

lemma matches_prefix_iff: "matches_prefix a addr m \<longleftrightarrow> a AND m = addr AND m"
proof -
  have "(a XOR addr) AND m = 0 \<longleftrightarrow> (a AND m) XOR (addr AND m) = 0"
    by (simp only: bit.conj_xor_distrib2)
  then show ?thesis by (simp only: matches_prefix_def xor_zero_iff)
qed

lemma matches_prefix_self [simp]: "matches_prefix a a m" by (simp add: matches_prefix_iff)

text \<open>Two prefixes that contain a common address are nested.\<close>

lemma matches_prefix_nested:
  assumes "matches_prefix a addr1 m1" and "matches_prefix a addr2 m2" and "mask_as_specific m2 m1"
  shows "matches_prefix addr2 addr1 m1"
proof -
  have "m1 = m2 AND m1" using assms(3) by (simp add: mask_as_specific_def)
  then have "addr2 AND m1 = (addr2 AND m2) AND m1" by (simp only: and.assoc flip: \<open>m1 = m2 AND m1\<close>)
  also have "\<dots> = (a AND m2) AND m1" using assms(2) by (simp add: matches_prefix_iff)
  also have "\<dots> = a AND m1" by (simp only: and.assoc flip: \<open>m1 = m2 AND m1\<close>)
  finally show ?thesis using assms(1) by (simp add: matches_prefix_iff)
qed

lemma matches_prefix_trans:
  assumes "matches_prefix a addr2 m2" and "matches_prefix addr2 addr1 m1" and "mask_as_specific m2 m1"
  shows "matches_prefix a addr1 m1"
  using matches_prefix_nested [of addr2 addr1 m1 a m2] assms by (simp add: matches_prefix_iff)

section \<open>Prefix lengths\<close>

lemma ffs_bvals_pos: "x AND 0xF \<noteq> (0 :: u32) \<Longrightarrow> 1 \<le> ffs_bvals ! unat (x AND 0xF)"
  and ffs_bvals_le: "ffs_bvals ! unat (x AND 0xF) \<le> 4"
proof -
  have "unat (x AND 0xF) < 16"
    using word_and_le1 [of x "0xF"] by (simp add: word_le_nat_alt)
  then have "unat (x AND 0xF) \<in> {0, 1, 2, 3, 4, 5, 6, 7, 8, 9, 10, 11, 12, 13, 14, 15}"
    by (simp add: numeral_eq_Suc less_Suc_eq)
  then show "x AND 0xF \<noteq> 0 \<Longrightarrow> 1 \<le> ffs_bvals ! unat (x AND 0xF)" "ffs_bvals ! unat (x AND 0xF) \<le> 4"
    by (auto simp: ffs_bvals_def unat_eq_zero)
qed

lemma and_low_mask: "x AND 0xFFFF = take_bit 16 x" "x AND 0xFF = take_bit 8 x" "x AND 0xF = take_bit 4 x" for x :: u32
  by (simp_all add: take_bit_eq_mask mask_eq_exp_minus_1)

lemma low_bits_zero: "take_bit n x = 0 \<Longrightarrow> drop_bit n x = 0 \<Longrightarrow> x = (0 :: u32)"
  by (metis bits_ident push_bit_of_0 add_0)

text \<open>A word that has a bit set among the lowest 32, 16, 8 bits keeps one among the lowest half
  after the shift.\<close>

lemma half_shift:
  assumes "take_bit (2 * n) x \<noteq> 0" and "take_bit n x = 0"
  shows "take_bit n (drop_bit n x) \<noteq> (0 :: u32)"
proof -
  obtain i where i: "i < 2 * n" "bit x i"
    using assms(1) by (auto simp: bit_eq_iff bit_simps)
  have "\<not> bit (take_bit n x) i" using assms(2) by simp
  then have "n \<le> i" using i(2) by (simp add: bit_simps)
  then have "bit (take_bit n (drop_bit n x)) (i - n)" using i by (simp add: bit_simps)
  then show ?thesis by (metis bit_0_eq bot_apply bot_bool_def)
qed

lemma ffs_lsb_0: "ffs_lsb 0 = 0" by (simp add: ffs_lsb_def)

lemma ffs_lsb_bounds: "x \<noteq> 0 \<Longrightarrow> 1 \<le> ffs_lsb x \<and> ffs_lsb x \<le> 32"
proof -
  assume x: "x \<noteq> 0"
  define y where "y = (if take_bit 16 x = 0 then (16 :: nat, drop_bit 16 x) else (0, x))"
  define z where "z = (if take_bit 8 (snd y) = 0 then (fst y + 8, drop_bit 8 (snd y)) else y)"
  define w where "w = (if take_bit 4 (snd z) = 0 then (fst z + 4, drop_bit 4 (snd z)) else z)"
  have "take_bit (2 * 16) x \<noteq> 0" using x take_bit_word_eq_self [of 32 x] by simp
  then have "take_bit (2 * 8) (snd y) \<noteq> 0" using half_shift [of 16 x] by (simp add: y_def)
  then have "take_bit (2 * 4) (snd z) \<noteq> 0" using half_shift [of 8 "snd y"] by (simp add: z_def)
  then have "take_bit 4 (snd w) \<noteq> 0" using half_shift [of 4 "snd z"] by (simp add: w_def)
  then have "1 \<le> ffs_bvals ! unat (snd w AND 0xF)" using ffs_bvals_pos [of "snd w"] unfolding and_low_mask by simp
  moreover have "fst w \<le> 28" by (simp add: w_def z_def y_def)
  moreover have "ffs_lsb x = fst w + ffs_bvals ! unat (snd w AND 0xF)"
    using x by (simp add: ffs_lsb_def case_prod_beta and_low_mask w_def z_def y_def)
  ultimately show ?thesis using ffs_bvals_le [of "snd w"] by simp
qed

text \<open>\<^verbatim>\<open>mask_to_prefix_len\<close> answers with a length only for prefix masks.\<close>

lemma mask_to_prefix_len_sound:
  assumes "0 \<le> mask_to_prefix_len m"
  shows "mask_to_prefix_len m \<le> 32" "make_prefix (mask_to_prefix_len m) = Some m"
proof -
  have m: "htonl (ntohl m) = m" by (metis ntohl_htonl htonl_inject)
  show "mask_to_prefix_len m \<le> 32"
    using ffs_lsb_bounds [of "ntohl m"] by (auto simp: mask_to_prefix_len_def Let_def)
  show "make_prefix (mask_to_prefix_len m) = Some m"
  proof (cases "ntohl m = 0")
    case True
    then show ?thesis using m by (simp add: mask_to_prefix_len_def ffs_lsb_def make_prefix_def)
  next
    case False
    let ?p = "ffs_lsb (ntohl m)"
    have p: "1 \<le> ?p" "?p \<le> 32" using ffs_lsb_bounds [OF False] by auto
    then have "mask_to_prefix_len m = 33 - int ?p" "ntohl m = push_bit (?p - 1) 0xFFFFFFFF"
      using assms by (simp_all add: mask_to_prefix_len_def Let_def split: if_splits)
    moreover have "nat (32 - (33 - int ?p)) = ?p - 1" using p by linarith
    ultimately show ?thesis using p m by (simp add: make_prefix_def)
  qed
qed

lemma ffs_lsb_ones: "k < 32 \<Longrightarrow> ffs_lsb (push_bit k 0xFFFFFFFF) = k + 1"
proof -
  have "\<forall>k \<in> {0, 1, 2, 3, 4, 5, 6, 7, 8, 9, 10, 11, 12, 13, 14, 15, 16, 17, 18, 19, 20, 21, 22, 23, 24, 25, 26, 27,
      28, 29, 30, 31}. ffs_lsb (push_bit k 0xFFFFFFFF) = k + 1"
    by (simp add: ffs_lsb_def ffs_bvals_def)
  moreover assume "k < 32"
  then have "k \<in> {0, 1, 2, 3, 4, 5, 6, 7, 8, 9, 10, 11, 12, 13, 14, 15, 16, 17, 18, 19, 20, 21, 22, 23, 24, 25, 26, 27,
      28, 29, 30, 31}" by (simp add: numeral_eq_Suc less_Suc_eq)
  ultimately show ?thesis by blast
qed

lemma mask_to_prefix_len_prefix:
  assumes "n \<le> 32"
  shows "mask_to_prefix_len (prefix_mask n) = int n"
proof (cases "n = 0")
  case True
  then show ?thesis by (simp add: mask_to_prefix_len_def ffs_lsb_def ntohl_def hi16_def lo16_def le32_def)
next
  case False
  then have "ffs_lsb (push_bit (32 - n) 0xFFFFFFFF) = 33 - n" using ffs_lsb_ones [of "32 - n"] assms by simp
  then show ?thesis using assms False by (simp add: mask_to_prefix_len_def prefix_mask_def Let_def)
qed

text \<open>\<^verbatim>\<open>make_prefix\<close> and \<^verbatim>\<open>mask_to_prefix_len\<close> are inverse to each other: every length from 0 to 32
  has a mask, from which the length is read back; and a word to which \<^verbatim>\<open>mask_to_prefix_len\<close> gives
  a length, rather than \<^verbatim>\<open>-1\<close>, is the mask of that length.\<close>

theorem prefix_len_roundtrip:
  "(0 \<le> n \<and> n \<le> 32 \<longrightarrow> (\<exists>m. make_prefix n = Some m \<and> mask_to_prefix_len m = n)) \<and>
   (mask_to_prefix_len m \<noteq> - 1 \<longrightarrow> make_prefix (mask_to_prefix_len m) = Some m)"
proof -
  have "mask_to_prefix_len m = - 1 \<or> 0 \<le> mask_to_prefix_len m"
    using ffs_lsb_bounds [of "ntohl m"] by (cases "ntohl m = 0") (auto simp: mask_to_prefix_len_def Let_def ffs_lsb_0)
  moreover have "\<exists>m. make_prefix n = Some m \<and> mask_to_prefix_len m = n" if "0 \<le> n" "n \<le> 32"
    using make_prefix_mask [of "nat n"] mask_to_prefix_len_prefix [of "nat n"] that by simp
  ultimately show ?thesis using mask_to_prefix_len_sound(2) [of m] by blast
qed

theorem prefix_len_roundtrip_witness:
  "\<exists>m. make_prefix 20 = Some m \<and> mask_to_prefix_len m = 20"
  using prefix_len_roundtrip [of 20] by simp

text \<open>\<^verbatim>\<open>mask_more_specific\<close> shifts the network-order word, which on a little-endian host moves bits
  into the wrong byte: the mask of length 20 is not more specific than that of length 18,
  although the comment of the function gives this pair as its example.\<close>

lemma mask_more_specific_little_endian:
  "\<not> mask_more_specific (prefix_mask 20) (prefix_mask 18)"
proof
  assume "mask_more_specific (prefix_mask 20) (prefix_mask 18)"
  then have "bit (push_bit 1 (prefix_mask 20)) 0 = bit (prefix_mask 18) 0 \<or> \<not> bit (prefix_mask 18) 0"
    unfolding mask_more_specific_def by (metis bit_and_iff)
  moreover have "bit (prefix_mask 18) 0" by (simp add: bit_prefix_mask swapped_bit_def)
  moreover have "\<not> bit (push_bit 1 (prefix_mask 20)) 0" unfolding bit_push_bit_iff by simp
  ultimately show False by blast
qed

end
