(* ===== verification/Click_HashMap.thy ===== *)
theory Click_HashMap
  imports Main
begin

text \<open>
  Click's chained hash table \<^verbatim>\<open>HashMap<K, T *>\<close> (\<^verbatim>\<open>include/click/hashmap.hh\<close> and
  \<^verbatim>\<open>hashmap.cc\<close>, the \<^verbatim>\<open>void *\<close> specialisation), which holds the advertisements of the
  mobile node. A bucket is the list of its elements in chain order; the hash function of the
  key type is the parameter \<open>hc\<close>. The result of \<^verbatim>\<open>_arena->alloc()\<close> is the argument \<open>ok\<close> of
  the operations that allocate.

  The locale \<open>lookup_table\<close> is the contract of a map; the table is shown to meet it, and
  the mobile node's proofs use only the contract.
\<close>

section \<open>The program\<close>

record ('k, 'v) hashmap =
  hm_buckets :: "('k \<times> 'v) list list"
  hm_n :: nat
  hm_capacity :: nat

definition MAX_NBUCKETS :: nat where "MAX_NBUCKETS = 32767"
definition DEFAULT_INITIAL_NBUCKETS :: nat where "DEFAULT_INITIAL_NBUCKETS = 127"
definition DEFAULT_RESIZE_THRESHOLD :: nat where "DEFAULT_RESIZE_THRESHOLD = 2"

abbreviation hm_nbuckets :: "('k, 'v) hashmap \<Rightarrow> nat" where
  "hm_nbuckets m \<equiv> length (hm_buckets m)"

definition hm_set_dynamic_resizing :: "bool \<Rightarrow> ('k, 'v) hashmap \<Rightarrow> ('k, 'v) hashmap" where
  "hm_set_dynamic_resizing on m =
     m\<lparr> hm_capacity := (if \<not> on then 0x7FFFFFFF
                       else if hm_nbuckets m \<ge> MAX_NBUCKETS then 0x7FFFFFFE
                       else DEFAULT_RESIZE_THRESHOLD * hm_nbuckets m) \<rparr>"

definition hm_dynamic_resizing :: "('k, 'v) hashmap \<Rightarrow> bool" where
  "hm_dynamic_resizing m \<longleftrightarrow> hm_capacity m < 0x7FFFFFFF"

definition hm_empty :: "('k, 'v) hashmap" where
  "hm_empty = hm_set_dynamic_resizing True
     \<lparr> hm_buckets = replicate DEFAULT_INITIAL_NBUCKETS [], hm_n = 0, hm_capacity = 0 \<rparr>"

definition hm_bucket :: "('k \<Rightarrow> nat) \<Rightarrow> ('k, 'v) hashmap \<Rightarrow> 'k \<Rightarrow> nat" where
  "hm_bucket hc m k = hc k mod hm_nbuckets m"

text \<open>The chain walk of \<^verbatim>\<open>find_pair\<close>.\<close>

fun chain_find :: "('k \<times> 'v) list \<Rightarrow> 'k \<Rightarrow> ('k \<times> 'v) option" where
  "chain_find [] k = None"
| "chain_find (x # xs) k = (if fst x = k then Some x else chain_find xs k)"

definition hm_find_pair :: "('k \<Rightarrow> nat) \<Rightarrow> ('k, 'v) hashmap \<Rightarrow> 'k \<Rightarrow> ('k \<times> 'v) option" where
  "hm_find_pair hc m k = chain_find (hm_buckets m ! hm_bucket hc m k) k"

text \<open>\<^verbatim>\<open>operator[]\<close> and \<^verbatim>\<open>find\<close>: the stored pointer, or the default value, which is null.\<close>

definition hm_find :: "('k \<Rightarrow> nat) \<Rightarrow> ('k, 'v) hashmap \<Rightarrow> 'k \<Rightarrow> 'v option" where
  "hm_find hc m k = map_option snd (hm_find_pair hc m k)"

text \<open>\<^verbatim>\<open>resize0\<close> moves the elements, bucket by bucket and in chain order, to the front of
  their new chains.\<close>

definition hm_relink :: "('k \<Rightarrow> nat) \<Rightarrow> 'k \<times> 'v \<Rightarrow> ('k, 'v) hashmap \<Rightarrow> ('k, 'v) hashmap" where
  "hm_relink hc e m =
     (let b = hm_bucket hc m (fst e)
      in m\<lparr> hm_buckets := (hm_buckets m)[b := e # hm_buckets m ! b] \<rparr>)"

definition hm_resize0 :: "('k \<Rightarrow> nat) \<Rightarrow> nat \<Rightarrow> ('k, 'v) hashmap \<Rightarrow> ('k, 'v) hashmap" where
  "hm_resize0 hc new_nbuckets m =
     (let old_buckets = hm_buckets m;
          m = m\<lparr> hm_buckets := replicate new_nbuckets [] \<rparr>;
          m = (if hm_dynamic_resizing m then hm_set_dynamic_resizing True m else m)
      in fold (\<lambda>chain m. fold (hm_relink hc) chain m) old_buckets m)"

function hm_grow :: "nat \<Rightarrow> nat \<Rightarrow> nat" where
  "hm_grow want n = (if n < want \<and> n < MAX_NBUCKETS then hm_grow want ((n + 1) * 2 - 1) else n)"
  by pat_completeness auto
termination
  by (relation "measure (\<lambda>(want, n). MAX_NBUCKETS - n)") auto

declare hm_grow.simps [simp del]

text \<open>\<^verbatim>\<open>resize\<close>; its assertion is proved below.\<close>

definition hm_resize :: "('k \<Rightarrow> nat) \<Rightarrow> nat \<Rightarrow> ('k, 'v) hashmap \<Rightarrow> ('k, 'v) hashmap" where
  "hm_resize hc want m =
     (let new_nbuckets = hm_grow want 1
      in if hm_nbuckets m \<noteq> new_nbuckets then hm_resize0 hc new_nbuckets m else m)"

fun chain_update :: "'k \<Rightarrow> 'v \<Rightarrow> ('k \<times> 'v) list \<Rightarrow> ('k \<times> 'v) list" where
  "chain_update k v [] = []"
| "chain_update k v (x # xs) = (if fst x = k then (k, v) # xs else x # chain_update k v xs)"

definition hm_new_elt ::
  "('k \<Rightarrow> nat) \<Rightarrow> bool \<Rightarrow> 'k \<Rightarrow> 'v \<Rightarrow> ('k, 'v) hashmap \<Rightarrow> ('k, 'v) hashmap" where
  "hm_new_elt hc ok k v m =
     (let m = (if hm_n m \<ge> hm_capacity m then hm_resize hc (hm_nbuckets m + 1) m else m)
      in if ok then (hm_relink hc (k, v) m)\<lparr> hm_n := hm_n m + 1 \<rparr> else m)"

definition hm_insert ::
  "('k \<Rightarrow> nat) \<Rightarrow> bool \<Rightarrow> 'k \<Rightarrow> 'v \<Rightarrow> ('k, 'v) hashmap \<Rightarrow> bool \<times> ('k, 'v) hashmap" where
  "hm_insert hc ok k v m =
     (let b = hm_bucket hc m k
      in case chain_find (hm_buckets m ! b) k of
           Some _ \<Rightarrow> (False, m\<lparr> hm_buckets := (hm_buckets m)[b := chain_update k v (hm_buckets m ! b)] \<rparr>)
         | None \<Rightarrow> (True, hm_new_elt hc ok k v m))"

fun chain_erase :: "'k \<Rightarrow> ('k \<times> 'v) list \<Rightarrow> ('k \<times> 'v) list" where
  "chain_erase k [] = []"
| "chain_erase k (x # xs) = (if fst x = k then xs else x # chain_erase k xs)"

definition hm_erase ::
  "('k \<Rightarrow> nat) \<Rightarrow> 'k \<Rightarrow> ('k, 'v) hashmap \<Rightarrow> bool \<times> ('k, 'v) hashmap" where
  "hm_erase hc k m =
     (let b = hm_bucket hc m k
      in case chain_find (hm_buckets m ! b) k of
           Some _ \<Rightarrow> (True, m\<lparr> hm_buckets := (hm_buckets m)[b := chain_erase k (hm_buckets m ! b)],
                               hm_n := hm_n m - 1 \<rparr>)
         | None \<Rightarrow> (False, m))"

text \<open>\<^verbatim>\<open>find_pair_force\<close>: the pair, inserted with a default value when absent.\<close>

definition hm_find_pair_force ::
  "('k \<Rightarrow> nat) \<Rightarrow> bool \<Rightarrow> 'k \<Rightarrow> 'v \<Rightarrow> ('k, 'v) hashmap \<Rightarrow> ('k \<times> 'v) option \<times> ('k, 'v) hashmap" where
  "hm_find_pair_force hc ok k v m =
     (case hm_find_pair hc m k of
        Some e \<Rightarrow> (Some e, m)
      | None \<Rightarrow> (if ok then Some (k, v) else None, hm_new_elt hc ok k v m))"

definition hm_clear :: "('k, 'v) hashmap \<Rightarrow> ('k, 'v) hashmap" where
  "hm_clear m = m\<lparr> hm_buckets := replicate (hm_nbuckets m) [], hm_n := 0 \<rparr>"

definition hm_is_empty :: "('k, 'v) hashmap \<Rightarrow> bool" where
  "hm_is_empty m \<longleftrightarrow> hm_n m = 0"

text \<open>Iterators: the position is the bucket number and the rest of the chain; \<open>None\<close> is
  \<^verbatim>\<open>end()\<close>.\<close>

fun next_chain :: "('k \<times> 'v) list list \<Rightarrow> nat \<Rightarrow> (nat \<times> ('k \<times> 'v) list) option" where
  "next_chain [] b = None"
| "next_chain (c # cs) b = (if c \<noteq> [] then Some (b, c) else next_chain cs (b + 1))"

definition hm_begin :: "('k, 'v) hashmap \<Rightarrow> (nat \<times> ('k \<times> 'v) list) option" where
  "hm_begin m = next_chain (hm_buckets m) 0"

definition hm_next :: "('k, 'v) hashmap \<Rightarrow> nat \<times> ('k \<times> 'v) list \<Rightarrow> (nat \<times> ('k \<times> 'v) list) option" where
  "hm_next m it =
     (case it of (b, elt) \<Rightarrow>
        if tl elt \<noteq> [] then Some (b, tl elt)
        else next_chain (drop (b + 1) (hm_buckets m)) (b + 1))"

section \<open>The invariant\<close>

definition chain_ok :: "('k \<Rightarrow> nat) \<Rightarrow> nat \<Rightarrow> nat \<Rightarrow> ('k \<times> 'v) list \<Rightarrow> bool" where
  "chain_ok hc nb b c \<longleftrightarrow> distinct (map fst c) \<and> (\<forall>k \<in> fst ` set c. hc k mod nb = b)"

definition chains_ok :: "('k \<Rightarrow> nat) \<Rightarrow> ('k \<times> 'v) list list \<Rightarrow> bool" where
  "chains_ok hc bs \<longleftrightarrow> (\<forall>b < length bs. chain_ok hc (length bs) b (bs ! b))"

definition hm_inv :: "('k \<Rightarrow> nat) \<Rightarrow> ('k, 'v) hashmap \<Rightarrow> bool" where
  "hm_inv hc m \<longleftrightarrow> 0 < hm_nbuckets m \<and> chains_ok hc (hm_buckets m)
     \<and> hm_n m = length (concat (hm_buckets m))"

section \<open>Chains\<close>

lemma chain_find_None: "chain_find c k = None \<longleftrightarrow> k \<notin> fst ` set c"
  by (induction c) auto

lemma chain_find_Some_in: "chain_find c k = Some e \<Longrightarrow> e \<in> set c \<and> fst e = k"
  by (induction c) (auto split: if_splits)

lemma chain_find_in: "distinct (map fst c) \<Longrightarrow> e \<in> set c \<Longrightarrow> chain_find c (fst e) = Some e"
  by (induction c) (auto simp: image_iff)

lemma chain_find_update:
  "k \<in> fst ` set c \<Longrightarrow> chain_find (chain_update k v c) k = Some (k, v)"
  "k' \<noteq> k \<Longrightarrow> chain_find (chain_update k v c) k' = chain_find c k'"
  by (induction c) auto

lemma map_fst_chain_update [simp]: "map fst (chain_update k v c) = map fst c"
  by (induction c) auto

lemma fst_set_chain_update [simp]: "fst ` set (chain_update k v c) = fst ` set c"
  by (metis image_set map_fst_chain_update)

lemma length_chain_update [simp]: "length (chain_update k v c) = length c"
  by (metis length_map map_fst_chain_update)

lemma chain_find_erase_same: "distinct (map fst c) \<Longrightarrow> chain_find (chain_erase k c) k = None"
  by (induction c) (simp_all add: chain_find_None, blast?)

lemma chain_find_erase_other: "k' \<noteq> k \<Longrightarrow> chain_find (chain_erase k c) k' = chain_find c k'"
  by (induction c) auto

lemma chain_find_erase:
  "distinct (map fst c) \<Longrightarrow>
    chain_find (chain_erase k c) k' = (if k' = k then None else chain_find c k')"
  by (simp add: chain_find_erase_same chain_find_erase_other)

lemma set_chain_erase: "set (chain_erase k c) \<subseteq> set c"
  by (induction c) auto

lemma distinct_chain_erase: "distinct (map fst c) \<Longrightarrow> distinct (map fst (chain_erase k c))"
proof (induction c)
  case (Cons x c)
  moreover have "fst ` set (chain_erase k c) \<subseteq> fst ` set c"
    using set_chain_erase by (rule image_mono)
  ultimately show ?case by auto
qed simp

lemma length_chain_erase: "k \<in> fst ` set c \<Longrightarrow> Suc (length (chain_erase k c)) = length c"
  by (induction c) auto

section \<open>Bucket arrays\<close>

lemma length_concat_update:
  "b < length bs \<Longrightarrow> length (concat (bs[b := c])) + length (bs ! b) = length (concat bs) + length c"
proof (induction bs arbitrary: b)
  case (Cons x bs)
  show ?case
  proof (cases b)
    case (Suc j)
    with Cons.prems Cons.IH [of j] show ?thesis by simp
  qed simp
qed simp

lemma set_concat_relink:
  "b < length bs \<Longrightarrow> set (concat (bs[b := e # bs ! b])) = insert e (set (concat bs))"
proof (induction bs arbitrary: b)
  case (Cons x bs)
  then show ?case by (cases b) auto
qed simp

lemma chains_ok_update:
  "chains_ok hc bs \<Longrightarrow> b < length bs \<Longrightarrow> chain_ok hc (length bs) b c \<Longrightarrow> chains_ok hc (bs[b := c])"
  by (simp add: chains_ok_def nth_list_update)

lemma chains_okD: "chains_ok hc bs \<Longrightarrow> b < length bs \<Longrightarrow> chain_ok hc (length bs) b (bs ! b)"
  by (simp add: chains_ok_def)

lemma distinct_keys_aux:
  "(\<And>i. i < length bs \<Longrightarrow> distinct (map fst (bs ! i)) \<and> (\<forall>k \<in> fst ` set (bs ! i). g k = i + off))
    \<Longrightarrow> distinct (map fst (concat bs)) \<and> (\<forall>k \<in> fst ` set (concat bs). off \<le> g k)"
proof (induction bs arbitrary: off)
  case (Cons c bs)
  have "distinct (map fst (concat bs)) \<and> (\<forall>k \<in> fst ` set (concat bs). Suc off \<le> g k)"
    using Cons.prems [of "Suc _"] by (intro Cons.IH) auto
  moreover have "distinct (map fst c)" "\<forall>k \<in> fst ` set c. g k = off"
    using Cons.prems [of 0] by auto
  ultimately show ?case by (force simp del: set_concat)
qed simp

lemma distinct_keys: "chains_ok hc bs \<Longrightarrow> distinct (map fst (concat bs))"
  using distinct_keys_aux [of bs "\<lambda>k. hc k mod length bs" 0]
  by (simp add: chains_ok_def chain_ok_def)

lemma in_concat_bucket:
  assumes "chains_ok hc bs"
  shows "e \<in> set (concat bs) \<longleftrightarrow> hc (fst e) mod length bs < length bs
    \<and> e \<in> set (bs ! (hc (fst e) mod length bs))"
proof
  assume "e \<in> set (concat bs)"
  then obtain b where "b < length bs" "e \<in> set (bs ! b)"
    by (metis (no_types, lifting) UN_E in_set_conv_nth set_concat)
  moreover from this have "hc (fst e) mod length bs = b"
    using chains_okD [OF assms] by (fastforce simp: chain_ok_def)
  ultimately show "hc (fst e) mod length bs < length bs
    \<and> e \<in> set (bs ! (hc (fst e) mod length bs))" by simp
qed auto

section \<open>Every operation keeps the invariant and meets the contract\<close>

lemma hm_bucket_less: "0 < hm_nbuckets m \<Longrightarrow> hm_bucket hc m k < hm_nbuckets m"
  by (simp add: hm_bucket_def)

lemma hm_find_iff:
  assumes "0 < hm_nbuckets m" and "chains_ok hc (hm_buckets m)"
  shows "hm_find hc m k = Some v \<longleftrightarrow> (k, v) \<in> set (concat (hm_buckets m))"
proof -
  have "distinct (map fst (hm_buckets m ! hm_bucket hc m k))"
    using chains_okD [OF assms(2) hm_bucket_less [OF assms(1)]] by (simp add: chain_ok_def)
  then have "hm_find hc m k = Some v \<longleftrightarrow> (k, v) \<in> set (hm_buckets m ! hm_bucket hc m k)"
    by (auto simp: hm_find_def hm_find_pair_def dest: chain_find_Some_in chain_find_in)
  then show ?thesis
    using in_concat_bucket [OF assms(2), of "(k, v)"] assms(1) by (simp add: hm_bucket_def)
qed

lemma hm_relink_bucket [simp]:
  "hm_nbuckets (hm_relink hc e m) = hm_nbuckets m" "hm_n (hm_relink hc e m) = hm_n m"
  "hm_capacity (hm_relink hc e m) = hm_capacity m"
  by (simp_all add: hm_relink_def Let_def)

lemma hm_relink_chains:
  assumes "0 < hm_nbuckets m" and "chains_ok hc (hm_buckets m)"
    and "fst e \<notin> fst ` set (concat (hm_buckets m))"
  shows "chains_ok hc (hm_buckets (hm_relink hc e m))"
    and "set (concat (hm_buckets (hm_relink hc e m))) = insert e (set (concat (hm_buckets m)))"
    and "length (concat (hm_buckets (hm_relink hc e m))) = Suc (length (concat (hm_buckets m)))"
proof -
  let ?b = "hm_bucket hc m (fst e)"
  have b: "?b < hm_nbuckets m" using assms(1) by (rule hm_bucket_less)
  then have "set (hm_buckets m ! ?b) \<subseteq> set (concat (hm_buckets m))"
    by (auto intro: nth_mem)
  then have "chain_ok hc (hm_nbuckets m) ?b (e # hm_buckets m ! ?b)"
    using chains_okD [OF assms(2) b] assms(3) by (auto simp: chain_ok_def hm_bucket_def)
  then show "chains_ok hc (hm_buckets (hm_relink hc e m))"
    using assms(2) b by (simp add: hm_relink_def Let_def chains_ok_update)
  show "set (concat (hm_buckets (hm_relink hc e m))) = insert e (set (concat (hm_buckets m)))"
    using set_concat_relink [OF b] by (simp add: hm_relink_def Let_def)
  show "length (concat (hm_buckets (hm_relink hc e m))) = Suc (length (concat (hm_buckets m)))"
    using length_concat_update [OF b, of "e # hm_buckets m ! ?b"] by (simp add: hm_relink_def Let_def)
qed

lemma fold_relink:
  assumes "0 < hm_nbuckets m" and "chains_ok hc (hm_buckets m)"
    and "distinct (map fst xs)" and "fst ` set xs \<inter> fst ` set (concat (hm_buckets m)) = {}"
  shows "chains_ok hc (hm_buckets (fold (hm_relink hc) xs m))
    \<and> set (concat (hm_buckets (fold (hm_relink hc) xs m))) = set xs \<union> set (concat (hm_buckets m))
    \<and> length (concat (hm_buckets (fold (hm_relink hc) xs m))) = length xs + length (concat (hm_buckets m))
    \<and> hm_nbuckets (fold (hm_relink hc) xs m) = hm_nbuckets m \<and> hm_n (fold (hm_relink hc) xs m) = hm_n m"
  using assms
proof (induction xs arbitrary: m)
  case (Cons e xs)
  have "fst e \<notin> fst ` set (concat (hm_buckets m))" using Cons.prems(4) by auto
  note r = hm_relink_chains [OF Cons.prems(1,2) this]
  have "fst ` set xs \<inter> fst ` set (concat (hm_buckets (hm_relink hc e m))) = {}"
    using Cons.prems(3,4) unfolding r(2) by auto
  with Cons.prems r(1) have "chains_ok hc (hm_buckets (fold (hm_relink hc) xs (hm_relink hc e m)))
    \<and> set (concat (hm_buckets (fold (hm_relink hc) xs (hm_relink hc e m))))
        = set xs \<union> set (concat (hm_buckets (hm_relink hc e m)))
    \<and> length (concat (hm_buckets (fold (hm_relink hc) xs (hm_relink hc e m))))
        = length xs + length (concat (hm_buckets (hm_relink hc e m)))
    \<and> hm_nbuckets (fold (hm_relink hc) xs (hm_relink hc e m)) = hm_nbuckets (hm_relink hc e m)
    \<and> hm_n (fold (hm_relink hc) xs (hm_relink hc e m)) = hm_n (hm_relink hc e m)"
    by (intro Cons.IH) auto
  then show ?case using r by simp
qed simp

lemma fold_fold_concat: "fold (\<lambda>c. fold f c) cs s = fold f (concat cs) s"
  by (induction cs arbitrary: s) simp_all

text \<open>Rehashing loses nothing.\<close>

lemma hm_resize0_correct:
  assumes "hm_inv hc m" and "0 < nb"
  shows "hm_inv hc (hm_resize0 hc nb m)" and "hm_find hc (hm_resize0 hc nb m) = hm_find hc m"
    and "hm_nbuckets (hm_resize0 hc nb m) = nb"
proof -
  let ?bs = "hm_buckets m"
  define m0 where "m0 = (let m' = m\<lparr> hm_buckets := replicate nb [] \<rparr>
    in if hm_dynamic_resizing m' then hm_set_dynamic_resizing True m' else m')"
  have m0: "hm_buckets m0 = replicate nb []" "hm_n m0 = hm_n m"
    by (simp_all add: m0_def Let_def hm_set_dynamic_resizing_def)
  have r: "hm_resize0 hc nb m = fold (hm_relink hc) (concat ?bs) m0"
    by (simp add: hm_resize0_def m0_def Let_def fold_fold_concat)
  have "chains_ok hc (hm_buckets m0)" by (simp add: m0 chains_ok_def chain_ok_def)
  then have f: "chains_ok hc (hm_buckets (hm_resize0 hc nb m))
    \<and> set (concat (hm_buckets (hm_resize0 hc nb m))) = set (concat ?bs)
    \<and> length (concat (hm_buckets (hm_resize0 hc nb m))) = length (concat ?bs)
    \<and> hm_nbuckets (hm_resize0 hc nb m) = nb \<and> hm_n (hm_resize0 hc nb m) = hm_n m"
    using fold_relink [of m0 hc "concat ?bs"] assms distinct_keys [of hc ?bs]
    unfolding r by (auto simp: m0 hm_inv_def)
  then show "hm_nbuckets (hm_resize0 hc nb m) = nb" by simp
  from f show inv: "hm_inv hc (hm_resize0 hc nb m)"
    using assms by (simp add: hm_inv_def)
  show "hm_find hc (hm_resize0 hc nb m) = hm_find hc m"
  proof
    fix k
    have "hm_find hc (hm_resize0 hc nb m) k = Some v \<longleftrightarrow> hm_find hc m k = Some v" for v
      using f inv assms by (simp only: hm_find_iff hm_inv_def)
    then show "hm_find hc (hm_resize0 hc nb m) k = hm_find hc m k"
      by (metis not_Some_eq)
  qed
qed

text \<open>The sizes tried by \<^verbatim>\<open>resize\<close> are one less than powers of two; the assertion holds.\<close>

lemma hm_grow_bounds:
  "0 < n \<Longrightarrow> n \<le> MAX_NBUCKETS \<Longrightarrow> (\<exists>j. n + 1 = 2 ^ j) \<Longrightarrow>
    0 < hm_grow want n \<and> hm_grow want n \<le> MAX_NBUCKETS \<and> (\<exists>j. hm_grow want n + 1 = 2 ^ j)"
proof (induction want n rule: hm_grow.induct)
  case (1 want n)
  show ?case
  proof (cases "n < want \<and> n < MAX_NBUCKETS")
    case True
    obtain j where j: "n + 1 = 2 ^ j" using "1.prems"(3) by blast
    have "2 ^ j < (2::nat) ^ 15" using True j by (simp add: MAX_NBUCKETS_def)
    then have "j < 15" by (rule power_less_imp_less_exp [rotated]) simp
    then have "(2::nat) ^ Suc j \<le> 2 ^ 15" by (intro power_increasing) auto
    then have "(n + 1) * 2 - 1 \<le> MAX_NBUCKETS" using j by (simp add: MAX_NBUCKETS_def)
    moreover have "(n + 1) * 2 - 1 + 1 = 2 ^ Suc j" using j by simp
    ultimately have "0 < hm_grow want ((n + 1) * 2 - 1) \<and> hm_grow want ((n + 1) * 2 - 1) \<le> MAX_NBUCKETS
      \<and> (\<exists>j. hm_grow want ((n + 1) * 2 - 1) + 1 = 2 ^ j)"
      using True by (intro "1.IH") (auto intro: exI [of _ "Suc j"])
    with True show ?thesis by (simp add: hm_grow.simps [of want n])
  next
    case False
    with "1.prems" show ?thesis by (auto simp: hm_grow.simps [of want n])
  qed
qed

lemma hm_resize_assertion: "0 < hm_grow want 1 \<and> hm_grow want 1 \<le> MAX_NBUCKETS"
proof -
  have "\<exists>j. (1::nat) + 1 = 2 ^ j" by (rule exI [of _ 1]) simp
  then show ?thesis using hm_grow_bounds [of 1 want] by (simp add: MAX_NBUCKETS_def)
qed

lemma hm_resize_correct:
  assumes "hm_inv hc m"
  shows "hm_inv hc (hm_resize hc want m)" and "hm_find hc (hm_resize hc want m) = hm_find hc m"
  using assms hm_resize_assertion [of want] hm_resize0_correct [OF assms]
  by (simp_all add: hm_resize_def Let_def)

section \<open>The contract of a lookup table\<close>

locale lookup_table =
  fixes t_empty :: "'m"
    and t_insert :: "'k \<Rightarrow> 'v \<Rightarrow> 'm \<Rightarrow> 'm"
    and t_erase :: "'k \<Rightarrow> 'm \<Rightarrow> 'm"
    and t_find :: "'m \<Rightarrow> 'k \<Rightarrow> 'v option"
    and t_is_empty :: "'m \<Rightarrow> bool"
    and t_inv :: "'m \<Rightarrow> bool"
  assumes inv_empty: "t_inv t_empty"
    and inv_insert: "t_inv m \<Longrightarrow> t_inv (t_insert k v m)"
    and inv_erase: "t_inv m \<Longrightarrow> t_inv (t_erase k m)"
    and find_empty: "t_find t_empty k = None"
    and find_insert: "t_inv m \<Longrightarrow> t_find (t_insert k v m) = (t_find m)(k \<mapsto> v)"
    and find_erase: "t_inv m \<Longrightarrow> t_find (t_erase k m) = (t_find m)(k := None)"
    and is_empty_iff: "t_inv m \<Longrightarrow> t_is_empty m \<longleftrightarrow> (\<forall>k. t_find m k = None)"
begin

lemma insert_not_empty: "t_inv m \<Longrightarrow> \<not> t_is_empty (t_insert k v m)"
  by (auto simp: is_empty_iff inv_insert find_insert)

lemma replace: "t_inv m \<Longrightarrow> t_find (t_insert k v (t_erase k m)) = (t_find m)(k \<mapsto> v)"
  by (simp add: find_insert find_erase inv_erase)

lemma erase_insert: "t_inv m \<Longrightarrow> t_find (t_erase k (t_insert k v m)) = (t_find m)(k := None)"
  by (simp add: find_insert find_erase inv_insert)

lemma insert_commute:
  "t_inv m \<Longrightarrow> k \<noteq> l \<Longrightarrow>
    t_find (t_insert k v (t_insert l w m)) = t_find (t_insert l w (t_insert k v m))"
  by (simp add: find_insert inv_insert fun_upd_twist)

end

lemma hm_inv_empty: "hm_inv hc hm_empty"
  by (simp add: hm_inv_def hm_empty_def hm_set_dynamic_resizing_def chains_ok_def chain_ok_def
      DEFAULT_INITIAL_NBUCKETS_def)

lemma hm_find_empty: "hm_find hc hm_empty k = None"
  by (simp add: hm_find_def hm_find_pair_def hm_bucket_def hm_empty_def
      hm_set_dynamic_resizing_def DEFAULT_INITIAL_NBUCKETS_def)

lemma hm_find_None_keys:
  assumes "hm_inv hc m" and "hm_find_pair hc m k = None"
  shows "k \<notin> fst ` set (concat (hm_buckets m))"
proof -
  have "hm_find hc m k = None" using assms(2) by (simp add: hm_find_def)
  then show ?thesis
    using hm_find_iff [of m hc k] assms(1) by (force simp: hm_inv_def)
qed

lemma hm_new_elt_correct:
  assumes "hm_inv hc m" and "hm_find hc m k = None"
  shows "hm_inv hc (hm_new_elt hc True k v m)"
    and "hm_find hc (hm_new_elt hc True k v m) = (hm_find hc m)(k \<mapsto> v)"
proof -
  define r where "r = (if hm_n m \<ge> hm_capacity m then hm_resize hc (hm_nbuckets m + 1) m else m)"
  have r: "hm_inv hc r" "hm_find hc r = hm_find hc m"
    using assms(1) by (simp_all add: r_def hm_resize_correct)
  have new: "hm_new_elt hc True k v m = (hm_relink hc (k, v) r)\<lparr> hm_n := hm_n r + 1 \<rparr>"
    by (simp add: hm_new_elt_def r_def Let_def)
  have "hm_find_pair hc r k = None"
    using assms(2) r(2) by (metis hm_find_def map_option_is_None)
  then have fresh: "fst (k, v) \<notin> fst ` set (concat (hm_buckets r))"
    using hm_find_None_keys [OF r(1)] by simp
  note rl = hm_relink_chains [OF _ _ fresh, of hc]
  show inv: "hm_inv hc (hm_new_elt hc True k v m)"
    using r(1) rl unfolding hm_inv_def new by simp
  show "hm_find hc (hm_new_elt hc True k v m) = (hm_find hc m)(k \<mapsto> v)"
  proof
    fix k'
    let ?n = "hm_new_elt hc True k v m"
    have "hm_find hc ?n k' = Some w \<longleftrightarrow> (k', w) = (k, v) \<or> hm_find hc m k' = Some w" for w
      using hm_find_iff [of ?n hc k' w] hm_find_iff [of r hc k' w] inv r rl(2)
      by (simp add: hm_inv_def new del: set_concat)
    then show "hm_find hc ?n k' = ((hm_find hc m)(k \<mapsto> v)) k'"
      using assms(2) by (cases "hm_find hc ?n k'"; cases "hm_find hc m k'") auto
  qed
qed

lemma hm_update_correct:
  fixes m :: "('k, 'v) hashmap" and k :: 'k and v :: 'v
  assumes "hm_inv hc m" and "k \<in> fst ` set (hm_buckets m ! hm_bucket hc m k)"
  defines "m' \<equiv> m\<lparr> hm_buckets := (hm_buckets m)[hm_bucket hc m k :=
              chain_update k v (hm_buckets m ! hm_bucket hc m k)] \<rparr>"
  shows "hm_inv hc m'" and "hm_find hc m' = (hm_find hc m)(k \<mapsto> v)"
proof -
  let ?b = "hm_bucket hc m k"
  have b: "?b < hm_nbuckets m" using assms(1) by (simp add: hm_inv_def hm_bucket_less)
  have ok: "chain_ok hc (hm_nbuckets m) ?b (hm_buckets m ! ?b)"
    using assms(1) b by (simp add: hm_inv_def chains_okD)
  have "chain_ok hc (hm_nbuckets m) ?b (chain_update k v (hm_buckets m ! ?b))"
    using ok by (auto simp only: chain_ok_def map_fst_chain_update fst_set_chain_update)
  then show "hm_inv hc m'"
    using assms(1) b chains_ok_update [OF _ b] length_concat_update [OF b, of "chain_update k v (hm_buckets m ! ?b)"]
    by (simp add: hm_inv_def m'_def)
  show "hm_find hc m' = (hm_find hc m)(k \<mapsto> v)"
  proof
    fix k'
    show "hm_find hc m' k' = ((hm_find hc m)(k \<mapsto> v)) k'"
      using b assms(2)
      by (cases "k' = k") (simp_all add: hm_find_def hm_find_pair_def m'_def hm_bucket_def
          nth_list_update chain_find_update)
  qed
qed

lemma hm_insert_correct:
  assumes "hm_inv hc m"
  shows "hm_inv hc (snd (hm_insert hc True k v m))"
    and "hm_find hc (snd (hm_insert hc True k v m)) = (hm_find hc m)(k \<mapsto> v)"
    and "fst (hm_insert hc True k v m) \<longleftrightarrow> hm_find hc m k = None"
  using hm_update_correct [OF assms, of k v] hm_new_elt_correct [OF assms, of k v]
  by (auto simp: hm_insert_def Let_def hm_find_def hm_find_pair_def
      split: option.splits dest!: chain_find_Some_in)

lemma hm_erase_correct:
  assumes "hm_inv hc m"
  shows "hm_inv hc (snd (hm_erase hc k m))"
    and "hm_find hc (snd (hm_erase hc k m)) = (hm_find hc m)(k := None)"
    and "fst (hm_erase hc k m) \<longleftrightarrow> hm_find hc m k \<noteq> None"
proof -
  let ?b = "hm_bucket hc m k" and ?c = "hm_buckets m ! hm_bucket hc m k"
  have b: "?b < hm_nbuckets m" using assms by (simp add: hm_inv_def hm_bucket_less)
  have ok: "chain_ok hc (hm_nbuckets m) ?b ?c" "distinct (map fst ?c)"
    using assms b chains_okD [of hc "hm_buckets m" ?b] by (simp_all add: hm_inv_def chain_ok_def)
  have ok': "chain_ok hc (hm_nbuckets m) ?b (chain_erase k ?c)"
    using ok distinct_chain_erase set_chain_erase [of k ?c] by (fastforce simp: chain_ok_def)
  show "fst (hm_erase hc k m) \<longleftrightarrow> hm_find hc m k \<noteq> None"
    by (simp add: hm_erase_def Let_def hm_find_def hm_find_pair_def split: option.split)
  show "hm_inv hc (snd (hm_erase hc k m))"
  proof (cases "k \<in> fst ` set ?c")
    case True
    then have "length (concat ((hm_buckets m)[?b := chain_erase k ?c])) = hm_n m - 1"
      using length_concat_update [OF b, of "chain_erase k ?c"] length_chain_erase [OF True] assms
      by (simp add: hm_inv_def)
    with assms ok' b True show ?thesis
      by (auto simp: hm_erase_def Let_def hm_inv_def chains_ok_update split: option.splits)
  next
    case False
    with assms show ?thesis
      by (simp add: hm_erase_def Let_def chain_find_None [symmetric] split: option.splits)
  qed
  show "hm_find hc (snd (hm_erase hc k m)) = (hm_find hc m)(k := None)"
  proof
    fix k'
    show "hm_find hc (snd (hm_erase hc k m)) k' = ((hm_find hc m)(k := None)) k'"
      using b ok(2)
      by (auto simp: hm_erase_def Let_def hm_find_def hm_find_pair_def hm_bucket_def
          nth_list_update chain_find_erase split: option.splits)
  qed
qed

lemma hm_is_empty_iff:
  assumes "hm_inv hc m"
  shows "hm_is_empty m \<longleftrightarrow> (\<forall>k. hm_find hc m k = None)"
proof -
  have "hm_is_empty m \<longleftrightarrow> set (concat (hm_buckets m)) = {}"
    using assms by (simp only: hm_inv_def hm_is_empty_def length_0_conv set_empty)
  also have "\<dots> \<longleftrightarrow> (\<forall>k v. (k, v) \<notin> set (concat (hm_buckets m)))"
    by (metis all_not_in_conv surj_pair)
  also have "\<dots> \<longleftrightarrow> (\<forall>k v. hm_find hc m k \<noteq> Some v)"
    using assms by (simp only: hm_inv_def hm_find_iff)
  finally show ?thesis by simp
qed

interpretation hm: lookup_table hm_empty "\<lambda>k v m. snd (hm_insert hc True k v m)"
  "\<lambda>k m. snd (hm_erase hc k m)" "hm_find hc" hm_is_empty "hm_inv hc" for hc
  by unfold_locales
    (simp_all add: hm_inv_empty hm_insert_correct hm_erase_correct hm_find_empty hm_is_empty_iff)

section \<open>Iteration\<close>

text \<open>The elements an iterator has still to visit.\<close>

definition hm_rest :: "('k, 'v) hashmap \<Rightarrow> (nat \<times> ('k \<times> 'v) list) option \<Rightarrow> ('k \<times> 'v) list" where
  "hm_rest m it = (case it of None \<Rightarrow> [] | Some (b, c) \<Rightarrow> c @ concat (drop (b + 1) (hm_buckets m)))"

lemma next_chain_rest:
  "bs = drop b (hm_buckets m) \<Longrightarrow> hm_rest m (next_chain bs b) = concat bs"
proof (induction bs b rule: next_chain.induct)
  case (2 c cs b)
  have "cs = drop (b + 1) (hm_buckets m)"
    using "2.prems" by (metis Suc_eq_plus1 drop_Suc list.sel(3) tl_drop)
  then show ?case using "2.IH" by (auto simp: hm_rest_def)
qed (simp add: hm_rest_def)

lemma hm_rest_begin: "hm_rest m (hm_begin m) = concat (hm_buckets m)"
  by (simp add: hm_begin_def next_chain_rest)

lemma hm_rest_next: "hm_rest m (Some (b, e # c)) = e # hm_rest m (hm_next m (b, e # c))"
proof (cases c)
  case Nil
  then show ?thesis
    using next_chain_rest [of "drop (b + 1) (hm_buckets m)" "b + 1" m]
    by (simp add: hm_next_def) (simp add: hm_rest_def)
qed (simp add: hm_next_def hm_rest_def)

lemma next_chain_nonempty: "next_chain bs b = Some (b', c) \<Longrightarrow> c \<noteq> []"
  by (induction bs b rule: next_chain.induct) (auto split: if_splits)

text \<open>\<^verbatim>\<open>begin()\<close> is an element of the table, unless the table is empty.\<close>

lemma hm_begin_element:
  assumes "hm_inv hc m" and "\<not> hm_is_empty m"
  obtains b k v c where "hm_begin m = Some (b, (k, v) # c)" and "hm_find hc m k = Some v"
proof -
  have "concat (hm_buckets m) \<noteq> []"
    using assms by (auto simp: hm_inv_def hm_is_empty_def)
  then obtain b c where bc: "hm_begin m = Some (b, c)"
    using hm_rest_begin [of m] by (cases "hm_begin m") (auto simp: hm_rest_def)
  then obtain k v c' where c: "c = (k, v) # c'"
    using next_chain_nonempty unfolding hm_begin_def by (metis list.exhaust surj_pair)
  have "(k, v) \<in> set (concat (hm_buckets m))"
    using hm_rest_begin [of m] bc c by (metis append_Cons hm_rest_def list.set_intros(1) option.case(2) split_conv)
  then have "hm_find hc m k = Some v"
    using assms(1) by (simp only: hm_inv_def hm_find_iff)
  with bc c that show ?thesis by blast
qed

end
