(* ===== verification/Click_Vector.thy ===== *)
theory Click_Vector
  imports Main "HOL-Library.Monad_Syntax"
begin

text \<open>
  Click's growable array \<^verbatim>\<open>Vector<T>\<close> (\<^verbatim>\<open>include/click/vector.hh\<close>, \<^verbatim>\<open>vector.cc\<close>, with the
  element operations of \<^verbatim>\<open>array_memory.hh\<close>), which holds the pending requests, the binding
  lists and the per-agent timers.

  The memory behind a vector is a list of slots: \<open>vec_elems\<close> are the \<^verbatim>\<open>n_\<close> live elements,
  \<open>vec_dead\<close> the slots between \<^verbatim>\<open>n_\<close> and \<^verbatim>\<open>capacity_\<close>, each holding the bits of a destroyed
  element or \<open>None\<close> when it was never written. An element is moved by its copy constructor,
  which is the argument \<open>cp\<close>: it is the identity for plain data, but a copied \<^verbatim>\<open>Timer\<close> is not
  scheduled. The result of \<^verbatim>\<open>CLICK_LALLOC\<close> is the argument \<open>ok\<close>; positions outside the vector
  violate an assertion and give \<open>None\<close>.

  The locale \<open>dynamic_array\<close> is the contract the Mobile IP elements use, with the loop that
  updates some elements and erases the others while it walks through the vector.
\<close>

section \<open>The program\<close>

record 'a vec =
  vec_elems :: "'a list"
  vec_dead :: "'a option list"

definition vec_empty :: "'a vec" where
  "vec_empty = \<lparr> vec_elems = [], vec_dead = [] \<rparr>"

definition vec_size :: "'a vec \<Rightarrow> nat" where
  "vec_size v = length (vec_elems v)"

definition vec_capacity :: "'a vec \<Rightarrow> nat" where
  "vec_capacity v = length (vec_elems v) + length (vec_dead v)"

definition vec_at :: "'a vec \<Rightarrow> nat \<Rightarrow> 'a option" where
  "vec_at v i = (if i < vec_size v then Some (vec_elems v ! i) else None)"

text \<open>\<^verbatim>\<open>v[i] = x\<close>.\<close>

definition vec_set :: "nat \<Rightarrow> 'a \<Rightarrow> 'a vec \<Rightarrow> 'a vec option" where
  "vec_set i x v = (if i < vec_size v then Some (v\<lparr> vec_elems := (vec_elems v)[i := x] \<rparr>) else None)"

definition vec_back :: "'a vec \<Rightarrow> 'a option" where
  "vec_back v = (if vec_size v = 0 then None else vec_at v (vec_size v - 1))"

text \<open>What an unchecked pointer to slot \<open>i\<close> reads: a live element, or the bits that a
  destroyed one left behind.\<close>

definition vec_slot :: "'a vec \<Rightarrow> nat \<Rightarrow> 'a option" where
  "vec_slot v i =
     (if i < vec_capacity v then (map Some (vec_elems v) @ vec_dead v) ! i else None)"

text \<open>\<^verbatim>\<open>reserve_and_push_back\<close> without an element to push: a new area of \<open>want\<close> slots
  (\<open>None\<close> for \<^verbatim>\<open>-1\<close>), into which the elements are moved.\<close>

definition vec_reserve :: "('a \<Rightarrow> 'a) \<Rightarrow> bool \<Rightarrow> nat option \<Rightarrow> 'a vec \<Rightarrow> bool \<times> 'a vec" where
  "vec_reserve cp ok want v =
     (let want = (case want of
                    None \<Rightarrow> if vec_capacity v > 0 then vec_capacity v * 2 else 4
                  | Some n \<Rightarrow> n)
      in if want > vec_capacity v then
           if ok then (True, \<lparr> vec_elems = map cp (vec_elems v),
                               vec_dead = replicate (want - vec_size v) None \<rparr>)
           else (False, v)
         else (True, v))"

definition vec_fill_back :: "('a \<Rightarrow> 'a) \<Rightarrow> 'a \<Rightarrow> 'a vec \<Rightarrow> 'a vec" where
  "vec_fill_back cp x v =
     v\<lparr> vec_elems := vec_elems v @ [cp x], vec_dead := tl (vec_dead v) \<rparr>"

definition vec_push_back :: "('a \<Rightarrow> 'a) \<Rightarrow> bool \<Rightarrow> 'a \<Rightarrow> 'a vec \<Rightarrow> 'a vec" where
  "vec_push_back cp ok x v =
     (if vec_size v < vec_capacity v then vec_fill_back cp x v
      else (case vec_reserve cp ok None v of
              (True, w) \<Rightarrow> vec_fill_back cp x w
            | (False, w) \<Rightarrow> w))"

definition vec_pop_back :: "'a vec \<Rightarrow> 'a vec option" where
  "vec_pop_back v =
     (if vec_size v > 0
      then Some (v\<lparr> vec_elems := butlast (vec_elems v),
                    vec_dead := Some (last (vec_elems v)) # vec_dead v \<rparr>)
      else None)"

definition vec_clear :: "'a vec \<Rightarrow> 'a vec" where
  "vec_clear v = \<lparr> vec_elems = [], vec_dead = map Some (vec_elems v) @ vec_dead v \<rparr>"

text \<open>\<^verbatim>\<open>erase(a, b)\<close>: the elements from \<open>b\<close> on are copied down one by one, and the last
  \<open>b - a\<close> slots, which still hold what they held, are destroyed.\<close>

definition vec_erase_range :: "('a \<Rightarrow> 'a) \<Rightarrow> nat \<Rightarrow> nat \<Rightarrow> 'a vec \<Rightarrow> 'a vec option" where
  "vec_erase_range cp a b v =
     (if a < b then
        if b \<le> vec_size v then
          Some \<lparr> vec_elems = take a (vec_elems v) @ map cp (drop b (vec_elems v)),
                 vec_dead = map Some (drop (vec_size v - (b - a)) (vec_elems v)) @ vec_dead v \<rparr>
        else None
      else Some v)"

text \<open>\<^verbatim>\<open>Vector::erase(it)\<close> does nothing at the end of the vector.\<close>

definition vec_erase :: "('a \<Rightarrow> 'a) \<Rightarrow> nat \<Rightarrow> 'a vec \<Rightarrow> 'a vec option" where
  "vec_erase cp i v = (if i < vec_size v then vec_erase_range cp i (i + 1) v else Some v)"

text \<open>\<^verbatim>\<open>insert(it, x)\<close>: the tail is moved up by one, and \<open>x\<close> is constructed in the gap.\<close>

definition vec_insert :: "('a \<Rightarrow> 'a) \<Rightarrow> bool \<Rightarrow> nat \<Rightarrow> 'a \<Rightarrow> 'a vec \<Rightarrow> 'a vec option" where
  "vec_insert cp ok i x v =
     (if i \<le> vec_size v then
        (case (if vec_size v = vec_capacity v then vec_reserve cp ok None v else (True, v)) of
           (False, w) \<Rightarrow> Some w
         | (True, w) \<Rightarrow>
             Some \<lparr> vec_elems = take i (vec_elems w) @ cp x # map cp (drop i (vec_elems w)),
                    vec_dead = tl (vec_dead w) \<rparr>)
      else None)"

definition vec_resize :: "('a \<Rightarrow> 'a) \<Rightarrow> bool \<Rightarrow> nat \<Rightarrow> 'a \<Rightarrow> 'a vec \<Rightarrow> 'a vec" where
  "vec_resize cp ok n x v =
     (case (if n \<le> vec_capacity v then (True, v) else vec_reserve cp ok (Some n) v) of
        (False, w) \<Rightarrow> w
      | (True, w) \<Rightarrow>
          (let m = vec_size w
           in if n < m then \<lparr> vec_elems = take n (vec_elems w),
                              vec_dead = map Some (drop n (vec_elems w)) @ vec_dead w \<rparr>
              else \<lparr> vec_elems = vec_elems w @ replicate (n - m) (cp x),
                     vec_dead = drop (n - m) (vec_dead w) \<rparr>))"

text \<open>\<^verbatim>\<open>operator=\<close>: \<open>u\<close> becomes a copy of another vector \<open>v\<close>.\<close>

definition vec_assign :: "('a \<Rightarrow> 'a) \<Rightarrow> bool \<Rightarrow> 'a vec \<Rightarrow> 'a vec \<Rightarrow> 'a vec" where
  "vec_assign cp ok v u =
     (case vec_reserve cp ok (Some (vec_size v)) (vec_clear u) of
        (False, w) \<Rightarrow> w
      | (True, w) \<Rightarrow> \<lparr> vec_elems = map cp (vec_elems v), vec_dead = drop (vec_size v) (vec_dead w) \<rparr>)"

text \<open>Search loops over a vector: the first index with a property (a loop that breaks), and the
  last one (a loop that overwrites its result).\<close>

fun index_from :: "('a \<Rightarrow> bool) \<Rightarrow> nat \<Rightarrow> 'a list \<Rightarrow> nat option" where
  "index_from P i [] = None"
| "index_from P i (x # xs) = (if P x then Some i else index_from P (i + 1) xs)"

fun last_index_from :: "('a \<Rightarrow> bool) \<Rightarrow> nat \<Rightarrow> nat option \<Rightarrow> 'a list \<Rightarrow> nat option" where
  "last_index_from P i r [] = r"
| "last_index_from P i r (x # xs) = last_index_from P (i + 1) (if P x then Some i else r) xs"

definition vec_index :: "('a \<Rightarrow> bool) \<Rightarrow> 'a vec \<Rightarrow> nat option" where
  "vec_index P v = index_from P 0 (vec_elems v)"

definition vec_last_index :: "('a \<Rightarrow> bool) \<Rightarrow> 'a vec \<Rightarrow> nat option" where
  "vec_last_index P v = last_index_from P 0 None (vec_elems v)"

text \<open>The loop \<^verbatim>\<open>for (int i = 0; i < v.size();) if (...) { ...; ++i; } else v.erase(v.begin() + i);\<close>
  over plain data. The body is \<open>f\<close>: the updated element, or \<open>None\<close> to erase it.\<close>

function vec_sweep :: "('a \<Rightarrow> 'a option) \<Rightarrow> nat \<Rightarrow> 'a vec \<Rightarrow> 'a vec" where
  "vec_sweep f i v =
     (if i < vec_size v then
        (case f (vec_elems v ! i) of
           Some y \<Rightarrow> vec_sweep f (i + 1) (v\<lparr> vec_elems := (vec_elems v)[i := y] \<rparr>)
         | None \<Rightarrow> vec_sweep f i (the (vec_erase id i v)))
      else v)"
  by pat_completeness auto
termination
  by (relation "measure (\<lambda>(f, i, v). vec_size v - i)")
     (auto simp: vec_size_def vec_erase_def vec_erase_range_def)

declare vec_sweep.simps [simp del]

section \<open>The contract\<close>

locale dynamic_array =
  fixes elems :: "'v \<Rightarrow> 'a list"
    and put :: "nat \<Rightarrow> 'a \<Rightarrow> 'v \<Rightarrow> 'v"
    and append :: "'a \<Rightarrow> 'v \<Rightarrow> 'v"
    and remove :: "nat \<Rightarrow> 'v \<Rightarrow> 'v"
    and sweep :: "('a \<Rightarrow> 'a option) \<Rightarrow> nat \<Rightarrow> 'v \<Rightarrow> 'v"
  assumes elems_put: "i < length (elems v) \<Longrightarrow> elems (put i x v) = (elems v)[i := x]"
    and elems_append: "elems (append x v) = elems v @ [x]"
    and elems_remove: "i < length (elems v) \<Longrightarrow>
      elems (remove i v) = take i (elems v) @ drop (i + 1) (elems v)"
    and sweep_unfold: "sweep f i v =
      (if i < length (elems v) then
         (case f (elems v ! i) of
            Some y \<Rightarrow> sweep f (i + 1) (put i y v)
          | None \<Rightarrow> sweep f i (remove i v))
       else v)"
begin

lemma remove_append: "elems (remove (length (elems v)) (append x v)) = elems v"
  by (simp add: elems_remove elems_append)

lemma length_remove: "i < length (elems v) \<Longrightarrow> Suc (length (elems (remove i v))) = length (elems v)"
  by (simp add: elems_remove)

lemma set_remove: "i < length (elems v) \<Longrightarrow> set (elems (remove i v)) \<subseteq> set (elems v)"
  by (auto simp: elems_remove dest: in_set_takeD in_set_dropD)

text \<open>The loop of the program computes the filtered list, in order, and touches nothing in
  front of its index.\<close>

lemma elems_sweep_from:
  "i \<le> length (elems v) \<Longrightarrow>
    elems (sweep f i v) = take i (elems v) @ List.map_filter f (drop i (elems v))"
proof (induction "length (elems v) - i" arbitrary: i v)
  case 0
  then show ?case by (subst sweep_unfold) simp
next
  case (Suc n)
  then have i: "i < length (elems v)" by simp
  then have d: "drop i (elems v) = elems v ! i # drop (i + 1) (elems v)"
    by (simp add: Cons_nth_drop_Suc)
  show ?case
  proof (cases "f (elems v ! i)")
    case None
    have "elems (sweep f i (remove i v)) =
        take i (elems (remove i v)) @ List.map_filter f (drop i (elems (remove i v)))"
      using Suc(2) i by (intro Suc(1)) (auto simp: elems_remove)
    then show ?thesis
      using i None by (subst sweep_unfold) (simp add: d elems_remove List.map_filter_simps)
  next
    case (Some y)
    have "elems (sweep f (i + 1) (put i y v)) =
        take (i + 1) (elems (put i y v)) @ List.map_filter f (drop (i + 1) (elems (put i y v)))"
      using Suc(2) i by (intro Suc(1)) (auto simp: elems_put)
    then show ?thesis
      using i Some
      by (subst sweep_unfold) (simp add: d elems_put List.map_filter_simps take_Suc_conv_app_nth)
  qed
qed

lemma elems_sweep: "elems (sweep f 0 v) = List.map_filter f (elems v)"
  by (simp add: elems_sweep_from)

end

section \<open>Lemmas\<close>

lemma vec_elems_empty [simp]: "vec_elems vec_empty = []" "vec_size vec_empty = 0"
  by (simp_all add: vec_empty_def vec_size_def)

lemma vec_push_back_elems:
  assumes "ok \<or> vec_size v < vec_capacity v"
  shows "vec_elems (vec_push_back id ok x v) = vec_elems v @ [x]"
  using assms
  by (auto simp: vec_push_back_def vec_fill_back_def vec_reserve_def Let_def split: if_splits)

lemma vec_erase_elems:
  "i < vec_size v \<Longrightarrow>
    \<exists>w. vec_erase cp i v = Some w \<and>
      vec_elems w = take i (vec_elems v) @ map cp (drop (i + 1) (vec_elems v))"
  by (simp add: vec_erase_def vec_erase_range_def)

interpretation vec: dynamic_array vec_elems "\<lambda>i x v. the (vec_set i x v)"
  "vec_push_back id True" "\<lambda>i v. the (vec_erase id i v)" vec_sweep
proof unfold_locales
  show "i < length (vec_elems v) \<Longrightarrow> vec_elems (the (vec_set i x v)) = (vec_elems v)[i := x]"
    for i and x :: 'a and v
    by (simp add: vec_set_def vec_size_def)
  show "vec_elems (vec_push_back id True x v) = vec_elems v @ [x]" for x :: 'a and v
    by (rule vec_push_back_elems) simp
  show "i < length (vec_elems v) \<Longrightarrow> vec_elems (the (vec_erase id i v)) =
      take i (vec_elems v) @ drop (i + 1) (vec_elems v)" for i and v :: "'a vec"
    by (simp add: vec_erase_def vec_erase_range_def vec_size_def)
  show "vec_sweep f i v = (if i < length (vec_elems v) then
         (case f (vec_elems v ! i) of
            Some y \<Rightarrow> vec_sweep f (i + 1) (the (vec_set i y v))
          | None \<Rightarrow> vec_sweep f i (the (vec_erase id i v)))
       else v)" for f i and v :: "'a vec"
    by (subst vec_sweep.simps) (simp add: vec_size_def vec_set_def split: option.split)
qed

text \<open>\<^verbatim>\<open>n_ \<le> capacity_\<close> holds by construction; every operation keeps the slots it has, and a
  growing vector doubles.\<close>

lemma vec_erase_capacity:
  "vec_erase cp i v = Some w \<Longrightarrow> vec_capacity w = vec_capacity v"
  by (auto simp: vec_erase_def vec_erase_range_def vec_capacity_def vec_size_def split: if_splits)

lemma vec_push_back_capacity:
  "vec_capacity (vec_push_back cp ok x v) =
     (if vec_size v < vec_capacity v \<or> \<not> ok then vec_capacity v
      else if vec_capacity v = 0 then 4 else 2 * vec_capacity v)"
  by (auto simp: vec_push_back_def vec_fill_back_def vec_reserve_def Let_def vec_capacity_def
      vec_size_def split: if_splits)

text \<open>After an erasure, a pointer to the erased slot reads the next element, and at the end
  of the vector the bits of the erased one.\<close>

lemma vec_slot_erased:
  assumes "i < vec_size v" and "vec_erase id i v = Some w"
  shows "vec_slot w i =
    Some (if i + 1 < vec_size v then vec_elems v ! (i + 1) else vec_elems v ! i)"
proof -
  have "\<not> Suc i < length (vec_elems v) \<Longrightarrow> length (vec_elems v) - Suc 0 = i"
    using assms(1) by (simp add: vec_size_def)
  then show ?thesis
    using assms
    by (auto simp: vec_erase_def vec_erase_range_def vec_slot_def vec_capacity_def vec_size_def
        nth_append Cons_nth_drop_Suc [symmetric])
qed

lemma index_from_Some:
  "index_from P i xs = Some j \<longleftrightarrow>
    (\<exists>k. j = i + k \<and> k < length xs \<and> P (xs ! k) \<and> (\<forall>l < k. \<not> P (xs ! l)))"
proof (induction P i xs rule: index_from.induct)
  case (2 P i x xs)
  show ?case
  proof (cases "P x")
    case True
    then show ?thesis by (force simp: gr0_conv_Suc)
  next
    case False
    then have "(j = i + k \<and> k < length (x # xs) \<and> P ((x # xs) ! k) \<and> (\<forall>l < k. \<not> P ((x # xs) ! l))) \<longleftrightarrow>
      (\<exists>m. k = Suc m \<and> j = i + 1 + m \<and> m < length xs \<and> P (xs ! m) \<and> (\<forall>l < m. \<not> P (xs ! l)))" for k
      by (cases k) (auto simp: less_Suc_eq_0_disj)
    then show ?thesis using False 2 by simp
  qed
qed simp

lemma index_from_None: "index_from P i xs = None \<longleftrightarrow> (\<forall>x \<in> set xs. \<not> P x)"
  by (induction P i xs rule: index_from.induct) auto

lemma vec_index_Some:
  "vec_index P v = Some j \<longleftrightarrow>
    j < vec_size v \<and> P (vec_elems v ! j) \<and> (\<forall>k < j. \<not> P (vec_elems v ! k))"
  by (simp add: vec_index_def index_from_Some vec_size_def)

lemma vec_index_None: "vec_index P v = None \<longleftrightarrow> (\<forall>x \<in> set (vec_elems v). \<not> P x)"
  by (simp add: vec_index_def index_from_None)

lemma last_index_from_Some:
  "last_index_from P i r xs = Some j \<Longrightarrow>
    r = Some j \<or> i \<le> j \<and> j - i < length xs \<and> P (xs ! (j - i))"
proof (induction P i r xs rule: last_index_from.induct)
  case (2 P i r x xs)
  then consider "(if P x then Some i else r) = Some j"
    | "i + 1 \<le> j" "j - (i + 1) < length xs" "P (xs ! (j - (i + 1)))"
    by auto
  then show ?case
  proof cases
    case 2
    then have "j - i = Suc (j - (i + 1))" by simp
    with 2 show ?thesis by simp
  qed (auto split: if_splits)
qed simp

lemma last_index_from_None:
  "last_index_from P i r xs = None \<longleftrightarrow> r = None \<and> (\<forall>x \<in> set xs. \<not> P x)"
  by (induction P i r xs rule: last_index_from.induct) auto

lemma vec_last_index_Some:
  "vec_last_index P v = Some j \<Longrightarrow> j < vec_size v \<and> P (vec_elems v ! j)"
  using last_index_from_Some [of P 0 None "vec_elems v" j]
  by (simp add: vec_last_index_def vec_size_def)

lemma vec_last_index_None: "vec_last_index P v = None \<longleftrightarrow> (\<forall>x \<in> set (vec_elems v). \<not> P x)"
  by (simp add: vec_last_index_def last_index_from_None)

lemma vec_set_elems:
  "i < vec_size v \<Longrightarrow> \<exists>w. vec_set i x v = Some w \<and> vec_elems w = (vec_elems v)[i := x]"
  by (simp add: vec_set_def)

section \<open>Association lists in a vector\<close>

lemma map_of_snoc: "a \<notin> fst ` set xs \<Longrightarrow> map_of (xs @ [(a, y)]) = (map_of xs)(a \<mapsto> y)"
  by (induction xs) (auto simp: fun_upd_twist)

lemma map_of_update_nth:
  "distinct (map fst xs) \<Longrightarrow> i < length xs \<Longrightarrow> fst (xs ! i) = a \<Longrightarrow>
    map_of (xs[i := (a, y)]) = (map_of xs)(a \<mapsto> y)"
proof (induction xs arbitrary: i)
  case (Cons x xs)
  show ?case
  proof (cases i)
    case (Suc j)
    then have "a \<in> fst ` set xs" using Cons.prems by (auto intro: image_eqI [OF _ nth_mem])
    moreover have "fst x \<notin> fst ` set xs" using Cons.prems(1) by simp
    ultimately have "fst x \<noteq> a" by metis
    then show ?thesis using Suc Cons by (simp add: fun_eq_iff)
  qed (use Cons.prems in \<open>auto simp: fun_eq_iff\<close>)
qed simp

lemma map_of_remove_nth:
  "distinct (map fst xs) \<Longrightarrow> i < length xs \<Longrightarrow> fst (xs ! i) = a \<Longrightarrow>
    map_of (take i xs @ drop (i + 1) xs) = (map_of xs)(a := None)"
proof (induction xs arbitrary: i)
  case (Cons x xs)
  show ?case
  proof (cases i)
    case 0
    then have "map_of xs a = None" using Cons.prems by (auto simp: map_of_eq_None_iff)
    then show ?thesis using 0 Cons.prems by (auto simp: fun_eq_iff)
  next
    case (Suc j)
    then have "a \<in> fst ` set xs" using Cons.prems by (auto intro: image_eqI [OF _ nth_mem])
    moreover have "fst x \<notin> fst ` set xs" using Cons.prems(1) by simp
    ultimately have "fst x \<noteq> a" by metis
    then show ?thesis using Suc Cons.prems Cons.IH [of j] by (simp add: fun_eq_iff)
  qed
qed simp

lemma distinct_remove_nth: "distinct (map fst xs) \<Longrightarrow> distinct (map fst (take i xs @ drop (i + 1) xs))"
proof (induction xs arbitrary: i)
  case (Cons x xs)
  then show ?case by (cases i) (auto dest: in_set_takeD in_set_dropD)
qed simp

end
