(* ===== verification/MIP_MNInfo.thy ===== *)
theory MIP_MNInfo
  imports MIP_Headers Click_IPAddress Click_HashMap Click_Vector
begin

text \<open>
  \<^verbatim>\<open>MNInfo\<close> (\<^verbatim>\<open>mninfo.hh\<close>, \<^verbatim>\<open>mninfo.cc\<close>): the state that the elements of the mobile node share,
  with its two containers, the hash table of stored advertisements, keyed by the address of
  the advertising agent, and the vector of pending registration requests.
\<close>

section \<open>State\<close>

text \<open>\<^verbatim>\<open>struct request\<close>; its \<^verbatim>\<open>int id\<close> is kept as the 32 bits it holds.\<close>

record request =
  req_dest :: ipaddr
  req_coaddress :: ipaddr
  req_id :: u32
  req_lt :: u16
  rem_lt :: u16
  req_port :: u16

record mninfo =
  mn_home_agent :: ipaddr
  mn_home_address :: ipaddr
  mn_gateway :: ipaddr
  mn_connected :: bool
  mn_foreign_agent :: ipaddr
  mn_lifetime :: u16
  mn_advertisements :: "(ipaddr, packet) hashmap"
  mn_pending :: "request vec"

section \<open>Operations\<close>

text \<open>\<^verbatim>\<open>configure\<close> with the addresses that \<^verbatim>\<open>Args\<close> parsed; \<^verbatim>\<open>_lifetime\<close> keeps the bits it was
  allocated with.\<close>

definition mninfo_configure ::
  "u16 \<Rightarrow> (ipaddr \<times> ipaddr \<times> ipaddr) option \<Rightarrow> int \<times> mninfo option" where
  "mninfo_configure uninit conf =
     (case conf of
        None \<Rightarrow> (- 1, None)
      | Some (homeagent, homeaddress, gateway) \<Rightarrow>
          (0, Some \<lparr> mn_home_agent = homeagent, mn_home_address = homeaddress, mn_gateway = gateway,
                     mn_connected = False, mn_foreign_agent = 0, mn_lifetime = uninit,
                     mn_advertisements = hm_empty, mn_pending = vec_empty \<rparr>))"

text \<open>\<^verbatim>\<open>push\<close>: outgoing traffic goes to the foreign agent while the node is registered there.\<close>

definition mninfo_push :: "packet \<Rightarrow> mninfo \<Rightarrow> emission list" where
  "mninfo_push p m =
     [(0, if mn_connected m then p\<lparr> dst_ip_anno := mn_foreign_agent m \<rparr> else p)]"

abbreviation adv_find :: "mninfo \<Rightarrow> ipaddr \<Rightarrow> packet option" where
  "adv_find m \<equiv> hm_find ip_hashcode (mn_advertisements m)"

abbreviation adv_table_inv :: "mninfo \<Rightarrow> bool" where
  "adv_table_inv m \<equiv> hm_inv ip_hashcode (mn_advertisements m)"

text \<open>\<^verbatim>\<open>_advertisements.insert(a, p)\<close> and \<^verbatim>\<open>_advertisements.erase(a)\<close>. A write through the
  stored packet pointer is \<open>adv_write\<close>: the table keeps its shape and the packet's bytes
  change.\<close>

definition adv_insert :: "env \<Rightarrow> ipaddr \<Rightarrow> packet \<Rightarrow> mninfo \<Rightarrow> mninfo" where
  "adv_insert e a p m =
     m\<lparr> mn_advertisements := snd (hm_insert ip_hashcode (alloc_ok e) a p (mn_advertisements m)) \<rparr>"

definition adv_erase :: "ipaddr \<Rightarrow> mninfo \<Rightarrow> mninfo" where
  "adv_erase a m = m\<lparr> mn_advertisements := snd (hm_erase ip_hashcode a (mn_advertisements m)) \<rparr>"

definition adv_write :: "ipaddr \<Rightarrow> bytes \<Rightarrow> mninfo \<Rightarrow> mninfo" where
  "adv_write a d m =
     (let b = hm_bucket ip_hashcode (mn_advertisements m) a;
          bs = hm_buckets (mn_advertisements m)
      in case chain_find (bs ! b) a of
           None \<Rightarrow> m
         | Some (_, p) \<Rightarrow> m\<lparr> mn_advertisements := (mn_advertisements m)
             \<lparr> hm_buckets := bs[b := chain_update a (p\<lparr> pdata := d \<rparr>) (bs ! b)] \<rparr> \<rparr>)"

section \<open>Lemmas\<close>

lemma mninfo_configure_ok:
  "mninfo_configure u (Some (h, a, g)) = (0, Some m) \<Longrightarrow>
    adv_table_inv m \<and> vec_elems (mn_pending m) = [] \<and> \<not> mn_connected m \<and> adv_find m k = None"
  by (auto simp: mninfo_configure_def hm_inv_empty hm_find_empty)

lemma adv_find_insert:
  assumes "adv_table_inv m" and "alloc_ok e"
  shows "adv_find (adv_insert e a p m) = (adv_find m)(a \<mapsto> p)" and "adv_table_inv (adv_insert e a p m)"
  using assms hm.find_insert hm.inv_insert by (auto simp: adv_insert_def)

lemma adv_find_erase:
  assumes "adv_table_inv m"
  shows "adv_find (adv_erase a m) = (adv_find m)(a := None)" and "adv_table_inv (adv_erase a m)"
  using assms hm.find_erase hm.inv_erase by (auto simp: adv_erase_def)

lemma adv_find_pair:
  "hm_find_pair ip_hashcode (mn_advertisements m) a = map_option (Pair a) (adv_find m a)"
  by (cases "hm_find_pair ip_hashcode (mn_advertisements m) a")
    (auto simp: hm_find_def hm_find_pair_def dest: chain_find_Some_in)

text \<open>Writing through a stored pointer is what inserting under an existing key does to the
  table.\<close>

lemma adv_write_insert:
  assumes "adv_find m a = Some p"
  shows "adv_write a d m = adv_insert e a (p\<lparr> pdata := d \<rparr>) m"
proof -
  have "chain_find (hm_buckets (mn_advertisements m) ! hm_bucket ip_hashcode (mn_advertisements m) a) a = Some (a, p)"
    using assms adv_find_pair [of m a] by (simp add: hm_find_pair_def)
  then show ?thesis
    by (simp add: adv_write_def adv_insert_def hm_insert_def Let_def)
qed

lemma adv_find_write:
  assumes "adv_table_inv m" and "adv_find m a = Some p"
  shows "adv_find (adv_write a d m) = (adv_find m)(a \<mapsto> p\<lparr> pdata := d \<rparr>)" and "adv_table_inv (adv_write a d m)"
  using adv_write_insert [OF assms(2), of d "\<lparr> alloc_ok = True, junk = (\<lambda>_. 0) \<rparr>"]
    adv_find_insert [OF assms(1), of "\<lparr> alloc_ok = True, junk = (\<lambda>_. 0) \<rparr>" a "p\<lparr> pdata := d \<rparr>"]
  by simp_all

lemma adv_ops_frame [simp]:
  "(adv_insert e a p m)\<lparr> mn_advertisements := t \<rparr> = m\<lparr> mn_advertisements := t \<rparr>"
  "(adv_erase a m)\<lparr> mn_advertisements := t \<rparr> = m\<lparr> mn_advertisements := t \<rparr>"
  "(adv_write a d m)\<lparr> mn_advertisements := t \<rparr> = m\<lparr> mn_advertisements := t \<rparr>"
  by (simp_all add: adv_insert_def adv_erase_def adv_write_def Let_def split: option.split)

lemma adv_ops_connected [simp]:
  "mn_connected (adv_insert e a p m) = mn_connected m" "mn_connected (adv_erase a m) = mn_connected m"
  "mn_connected (adv_write a d m) = mn_connected m"
  by (simp_all add: adv_insert_def adv_erase_def adv_write_def Let_def split: option.split)

text \<open>The sample of the witnesses: the mobile node of
  \<^verbatim>\<open>scripts/library/definitions.click\<close> (address 192.168.2.1, home agent 192.168.2.254).\<close>

definition sample_mninfo :: mninfo where
  "sample_mninfo = the (snd (mninfo_configure 0 (Some (0xFE02A8C0, 0x0102A8C0, 0xFE02A8C0))))"

lemma sample_mninfo_simps [simp]:
  "mn_home_agent sample_mninfo = 0xFE02A8C0" "mn_home_address sample_mninfo = 0x0102A8C0"
  "mn_gateway sample_mninfo = 0xFE02A8C0" "\<not> mn_connected sample_mninfo"
  "mn_foreign_agent sample_mninfo = 0" "mn_lifetime sample_mninfo = 0"
  "mn_advertisements sample_mninfo = hm_empty" "mn_pending sample_mninfo = vec_empty"
  "hm_is_empty hm_empty"
  by (simp_all add: sample_mninfo_def mninfo_configure_def hm_is_empty_def hm_empty_def
      hm_set_dynamic_resizing_def)

end
