(* ===== verification/MIP_Discovery.thy ===== *)
theory MIP_Discovery
  imports MIP_MNInfo
begin

unbundle bit_operations_syntax

text \<open>
  Agent discovery (\<^verbatim>\<open>elements/local/custom\<close>): \<^verbatim>\<open>Advertisement\<close> sends ICMP router
  advertisements with the mobility agent extension, periodically and in answer to a
  solicitation; \<^verbatim>\<open>Solicitation\<close> makes the mobile node ask for one; \<^verbatim>\<open>CheckSolicitation\<close>
  recognises solicitations in the agents.
\<close>

section \<open>Advertisement\<close>

record advertisement =
  adv_srcIp :: ipaddr
  adv_careOfAddress :: ipaddr
  adv_sequenceNr :: u16
  adv_HA :: bool
  adv_FA :: bool
  adv_busy :: bool
  adv_advertisementLifetime :: u32
  adv_registrationLifetime :: u32
  adv_timer :: timer

text \<open>The arguments that \<^verbatim>\<open>Args(...)\<close> parsed, \<open>None\<close> when \<^verbatim>\<open>complete()\<close> reports an error.\<close>

record advertisement_args =
  arg_SRCIP :: ipaddr
  arg_COADDR :: ipaddr
  arg_HA :: bool
  arg_FA :: bool
  arg_BUSY :: bool
  arg_ALIFETIME :: u32
  arg_RLIFETIME :: u32

definition advertisement_configure :: "advertisement_args option \<Rightarrow> int \<times> advertisement option" where
  "advertisement_configure conf =
     (case conf of
        None \<Rightarrow> (- 1, None)
      | Some a \<Rightarrow>
          (0, Some \<lparr> adv_srcIp = arg_SRCIP a, adv_careOfAddress = arg_COADDR a,
                     adv_sequenceNr = 0, adv_HA = arg_HA a, adv_FA = arg_FA a,
                     adv_busy = arg_BUSY a, adv_advertisementLifetime = arg_ALIFETIME a,
                     adv_registrationLifetime = arg_RLIFETIME a, adv_timer = Some 1000 \<rparr>))"

definition adv_flags :: "advertisement \<Rightarrow> byte" where
  "adv_flags s = of_nat (64 * of_bool (adv_busy s) + 32 * of_bool (adv_HA s) + 16 * of_bool (adv_FA s))"

text \<open>Writing the fields of \<^verbatim>\<open>sendPacket\<close> into the zeroed data area: the IP header with its
  checksum (taken over the whole, so far empty, packet), then the ICMP header, the
  extension, and the ICMP checksum.\<close>

definition adv_fill_ip :: "advertisement \<Rightarrow> ipaddr \<Rightarrow> nat \<Rightarrow> bytes \<Rightarrow> bytes option" where
  "adv_fill_ip s dest packetsize d =
     do {
       d \<leftarrow> st_ip_v 0 4 d;
       d \<leftarrow> st_ip_hl 0 5 d;
       d \<leftarrow> st8 IP_TOS 0 d;
       d \<leftarrow> st16 IP_LEN (htons (of_nat packetsize)) d;
       d \<leftarrow> st16 IP_ID (htons (adv_sequenceNr s)) d;
       d \<leftarrow> st8 IP_TTL 1 d;
       d \<leftarrow> st8 IP_P 1 d;
       d \<leftarrow> st32 IP_SRC (adv_srcIp s) d;
       d \<leftarrow> st32 IP_DST dest d;
       c \<leftarrow> cksum_at d 0 (length d);
       st16 IP_SUM c d
     }"

definition adv_fill_icmp :: "advertisement \<Rightarrow> nat \<Rightarrow> bytes \<Rightarrow> bytes option" where
  "adv_fill_icmp s packetsize d =
     do {
       let advh = sizeof_click_ip;
       d \<leftarrow> st8 (advh + AH_TYPE) 9 d;
       d \<leftarrow> st8 (advh + AH_CODE) 0 d;
       d \<leftarrow> st8 (advh + AH_ADDRESSES) 1 d;
       d \<leftarrow> st8 (advh + AH_ADDR_SIZE) 2 d;
       d \<leftarrow> st16 (advh + AH_LIFETIME) (htons (ucast (adv_advertisementLifetime s))) d;
       d \<leftarrow> st32 (advh + AH_ADDRESS) (adv_srcIp s) d;
       d \<leftarrow> st32 (advh + AH_PREF) 0 d;
       let advhx = advh + sizeof_advertisement_h;
       d \<leftarrow> st8 (advhx + AHE_TYPE) 16 d;
       d \<leftarrow> st8 (advhx + AHE_LENGTH) (6 + 4 * 1) d;
       d \<leftarrow> st16 (advhx + AHE_SEQ) (htons (adv_sequenceNr s)) d;
       d \<leftarrow> st16 (advhx + AHE_LIFETIME) (htons (ucast (adv_registrationLifetime s))) d;
       d \<leftarrow> st32 (advhx + AHE_ADDRESS) (adv_careOfAddress s) d;
       d \<leftarrow> st8 (advhx + AHE_FLAGS) (adv_flags s) d;
       d \<leftarrow> st8 (advhx + AHE_RESERVED) 0 d;
       c \<leftarrow> cksum_at d advh (packetsize - sizeof_click_ip);
       st16 (advh + AH_CKSUM) c d
     }"

definition adv_next_seq :: "u16 \<Rightarrow> u16" where
  "adv_next_seq n = (if n < 0xffff then n + 1 else 256)"

text \<open>\<^verbatim>\<open>sendPacket\<close>. The null pointer of a failed \<^verbatim>\<open>Packet::make\<close> is dereferenced at once.\<close>

definition adv_sendPacket :: "env \<Rightarrow> ipaddr \<Rightarrow> advertisement \<Rightarrow> (advertisement \<times> emission list) option" where
  "adv_sendPacket e destinationIP s =
     do {
       let packetsize = sizeof_click_ip + sizeof_advertisement_h + sizeof_advertisement_h_e;
       let headroom = sizeof_click_ether + 4;
       packet \<leftarrow> pkt_make e headroom None packetsize 0;
       d \<leftarrow> adv_fill_ip s destinationIP packetsize (zeros (plen packet));
       d \<leftarrow> adv_fill_icmp s packetsize d;
       Some (s\<lparr> adv_sequenceNr := adv_next_seq (adv_sequenceNr s) \<rparr>,
             [(0, packet\<lparr> pdata := d, dst_ip_anno := destinationIP \<rparr>)])
     }"

definition adv_push :: "env \<Rightarrow> packet \<Rightarrow> advertisement \<Rightarrow> (advertisement \<times> emission list) option" where
  "adv_push e packet s =
     do {
       let iph = sizeof_click_ether;
       src \<leftarrow> ld32 (pdata packet) (iph + IP_SRC);
       adv_sendPacket e src s
     }"

text \<open>\<^verbatim>\<open>run_timer\<close>: broadcast, then wait one second and up to 99 ms (\<open>r\<close> is the result of
  \<^verbatim>\<open>rand()\<close>).\<close>

definition adv_run_timer :: "env \<Rightarrow> nat \<Rightarrow> advertisement \<Rightarrow> (advertisement \<times> emission list) option" where
  "adv_run_timer e r s =
     do {
       (s, out) \<leftarrow> adv_sendPacket e 0xFFFFFFFF s;
       let interval = 1 * 1000 + r mod 100;
       Some (s\<lparr> adv_timer := Some interval \<rparr>, out)
     }"

section \<open>Solicitation\<close>

record solicitation =
  sol_src_address :: ipaddr
  sol_consequent_messages :: u32
  sol_max_tries :: u32
  sol_timer :: timer

text \<open>\<^verbatim>\<open>configure\<close>: the source address and, when given, \<^verbatim>\<open>MAXRETRIES\<close> (default 5).\<close>

definition solicitation_configure ::
  "(ipaddr \<times> u32 option) option \<Rightarrow> int \<times> solicitation option" where
  "solicitation_configure conf =
     (case conf of
        None \<Rightarrow> (- 1, None)
      | Some (srcip, maxretries) \<Rightarrow>
          (0, Some \<lparr> sol_src_address = srcip, sol_consequent_messages = 0,
                     sol_max_tries = (case maxretries of None \<Rightarrow> 5 | Some n \<Rightarrow> n),
                     sol_timer = Some 1000 \<rparr>))"

definition sol_fill :: "solicitation \<Rightarrow> nat \<Rightarrow> bytes \<Rightarrow> bytes option" where
  "sol_fill s packetsize d =
     do {
       d \<leftarrow> st_ip_v 0 4 d;
       d \<leftarrow> st_ip_hl 0 5 d;
       d \<leftarrow> st8 IP_TOS 0 d;
       d \<leftarrow> st16 IP_LEN (htons (of_nat packetsize)) d;
       d \<leftarrow> st8 IP_TTL 1 d;
       d \<leftarrow> st8 IP_P 1 d;
       d \<leftarrow> st32 IP_SRC (sol_src_address s) d;
       d \<leftarrow> st32 IP_DST 0xffffffff d;
       let ash = sizeof_click_ip;
       d \<leftarrow> st8 (ash + SOL_TYPE) 10 d;
       d \<leftarrow> st8 (ash + SOL_CODE) 0 d;
       c \<leftarrow> cksum_at d 0 sizeof_click_ip;
       d \<leftarrow> st16 IP_SUM c d;
       c \<leftarrow> cksum_at d ash (packetsize - sizeof_click_ip);
       st16 (ash + SOL_CKSUM) c d
     }"

definition sol_run_timer ::
  "env \<Rightarrow> mninfo \<Rightarrow> solicitation \<Rightarrow> (solicitation \<times> emission list) option" where
  "sol_run_timer e m s =
     (if mn_connected m \<or> \<not> hm_is_empty (mn_advertisements m) then
        Some (s\<lparr> sol_consequent_messages := 0, sol_timer := Some 1000 \<rparr>, [])
      else if sol_consequent_messages s \<ge> sol_max_tries s then
        Some (s\<lparr> sol_timer := Some 1000 \<rparr>, [])
      else do {
        let s = s\<lparr> sol_consequent_messages := sol_consequent_messages s + 1 \<rparr>;
        let packetsize = sizeof_click_ip + sizeof_solicitation_h;
        let headroom = sizeof_click_ether + 4;
        packet \<leftarrow> pkt_make e headroom None packetsize 0;
        d \<leftarrow> sol_fill s packetsize (zeros (plen packet));
        Some (s\<lparr> sol_timer := Some 1000 \<rparr>, [(0, packet\<lparr> pdata := d, dst_ip_anno := 0xffffffff \<rparr>)])
      })"

section \<open>CheckSolicitation\<close>

definition checksol_configure :: "unit option \<Rightarrow> int" where
  "checksol_configure conf = (case conf of None \<Rightarrow> - 1 | Some _ \<Rightarrow> 0)"

definition checksol_push :: "packet \<Rightarrow> emission list option" where
  "checksol_push packet =
     do {
       let d = pdata packet;
       let iph = sizeof_click_ether;
       let solh = iph + sizeof_click_ip;
       proto \<leftarrow> ld8 d (iph + IP_P);
       if proto = 1 then do {
         t \<leftarrow> ld8 d (solh + SOL_TYPE);
         if t = 10 then do {
           src \<leftarrow> ld32 d (iph + IP_SRC);
           if src = 0 then Some [] else do {
             c \<leftarrow> cksum_at d solh sizeof_solicitation_h;
             if c \<noteq> 0 then Some [] else do {
               code \<leftarrow> ld8 d (solh + SOL_CODE);
               if code \<noteq> 0 then Some [] else do {
                 len \<leftarrow> ld16 d (iph + IP_LEN);
                 if unat (ntohs len) \<ge> 8 + sizeof_click_ip then Some [] else Some [(0, packet)]
               }
             }
           }
         }
         else Some [(1, packet)]
       }
       else Some [(1, packet)]
     }"

section \<open>The messages on the wire\<close>

text \<open>The header part of an advertisement, before its checksum.\<close>

definition adv_ip_bytes :: "advertisement \<Rightarrow> ipaddr \<Rightarrow> bytes" where
  "adv_ip_bytes s dest =
     upd32 IP_DST dest (upd32 IP_SRC (adv_srcIp s) (upd8 IP_P 1 (upd8 IP_TTL 1
       (upd16 IP_ID (htons (adv_sequenceNr s)) (upd16 IP_LEN (htons 48) (upd8 IP_TOS 0
         (upd8 0 0x45 (zeros 48))))))))"

lemma adv_fill_ip_bytes:
  "adv_fill_ip s dest 48 (zeros 48) =
     Some (upd16 IP_SUM (click_in_cksum (slice 0 20 (adv_ip_bytes s dest))) (adv_ip_bytes s dest))"
proof -
  have "click_in_cksum (slice 0 48 (adv_ip_bytes s dest)) = click_in_cksum (slice 0 20 (adv_ip_bytes s dest))"
    using cksum_zero_padding [of 0 20 "adv_ip_bytes s dest" 28]
    by (simp add: adv_ip_bytes_def mem_simps)
  then show ?thesis
    by (simp add: adv_fill_ip_def mem_simps adv_ip_bytes_def)
qed

text \<open>An IP header in the first 20 bytes is not touched by what follows it.\<close>

lemma adv_fill_icmp_result:
  assumes "length d = 48" and "get16 d 22 = 0"
  obtains f where "adv_fill_icmp s 48 d = Some f" and "length f = 48"
    and "get_ip f 0 = get_ip d 0" and "ip_cksum_ok f 0 = ip_cksum_ok d 0" and "cksum_ok f 20 28"
    and "get_advertisement_h f 20 =
      \<lparr> ah_type = 9, ah_code = 0, ah_checksum = get16 f 22, ah_addresses = 1, ah_addr_size = 2,
        ah_lifetime = htons (ucast (adv_advertisementLifetime s)), ah_address = adv_srcIp s,
        ah_preferences = 0 \<rparr>"
    and "get_advertisement_h_e f 36 =
      \<lparr> ahe_type = 16, ahe_length = 10, ahe_seq_nr = htons (adv_sequenceNr s),
        ahe_lifetime = htons (ucast (adv_registrationLifetime s)), ahe_flags = adv_flags s,
        ahe_reserved = 0, ahe_address = adv_careOfAddress s \<rparr>"
proof -
  obtain g where g: "adv_fill_icmp s 48 d = Some (upd16 22 (click_in_cksum (slice 20 28 g)) g)"
    and len: "length g = 48" and z: "get16 g (20 + 2) = 0"
    and "get_ip g 0 = get_ip d 0" "ip_cksum_ok g 0 = ip_cksum_ok d 0"
    and "get_advertisement_h g 20 =
      \<lparr> ah_type = 9, ah_code = 0, ah_checksum = 0, ah_addresses = 1, ah_addr_size = 2,
        ah_lifetime = htons (ucast (adv_advertisementLifetime s)), ah_address = adv_srcIp s,
        ah_preferences = 0 \<rparr>"
    and "get_advertisement_h_e g 36 =
      \<lparr> ahe_type = 16, ahe_length = 10, ahe_seq_nr = htons (adv_sequenceNr s),
        ahe_lifetime = htons (ucast (adv_registrationLifetime s)), ahe_flags = adv_flags s,
        ahe_reserved = 0, ahe_address = adv_careOfAddress s \<rparr>"
    using assms
    by (simp add: adv_fill_icmp_def mem_simps get_ip_def get_advertisement_h_def
        get_advertisement_h_e_def)
  then show ?thesis
    using cksum_fill [of 20 28 g 2]
    by (intro that [OF g]) (simp_all add: mem_simps get_ip_def get_advertisement_h_def
        get_advertisement_h_e_def)
qed

lemma adv_ip_bytes_fields:
  fixes c :: u16 and s :: advertisement and dest :: ipaddr
  defines "d \<equiv> upd16 IP_SUM c (adv_ip_bytes s dest)"
  shows "length d = 48" and "get16 d 22 = 0"
    and "get_ip d 0 =
      \<lparr> ip_v = 4, ip_hl = 5, ip_tos = 0, ip_len = htons 48, ip_id = htons (adv_sequenceNr s),
        ip_off = 0, ip_ttl = 1, ip_p = 1, ip_sum = c, ip_src = adv_srcIp s, ip_dst = dest \<rparr>"
  by (simp_all add: d_def adv_ip_bytes_def mem_simps get_ip_0)

lemma adv_ip_bytes_cksum:
  "ip_cksum_ok (upd16 IP_SUM (click_in_cksum (slice 0 20 (adv_ip_bytes s dest))) (adv_ip_bytes s dest)) 0"
  using ip_cksum_fill [of 0 "adv_ip_bytes s dest"] by (simp add: adv_ip_bytes_def mem_simps)

text \<open>What \<^verbatim>\<open>sendPacket\<close> puts on the wire.\<close>

definition adv_message_ok :: "advertisement \<Rightarrow> ipaddr \<Rightarrow> bytes \<Rightarrow> bool" where
  "adv_message_ok s dest d \<longleftrightarrow>
     length d = 48 \<and> ip_cksum_ok d 0 \<and> cksum_ok d 20 28 \<and>
     get_ip d 0 =
      \<lparr> ip_v = 4, ip_hl = 5, ip_tos = 0, ip_len = htons 48, ip_id = htons (adv_sequenceNr s),
        ip_off = 0, ip_ttl = 1, ip_p = 1, ip_sum = get16 d IP_SUM, ip_src = adv_srcIp s,
        ip_dst = dest \<rparr> \<and>
     get_advertisement_h d 20 =
      \<lparr> ah_type = 9, ah_code = 0, ah_checksum = get16 d 22, ah_addresses = 1, ah_addr_size = 2,
        ah_lifetime = htons (ucast (adv_advertisementLifetime s)), ah_address = adv_srcIp s,
        ah_preferences = 0 \<rparr> \<and>
     get_advertisement_h_e d 36 =
      \<lparr> ahe_type = 16, ahe_length = 10, ahe_seq_nr = htons (adv_sequenceNr s),
        ahe_lifetime = htons (ucast (adv_registrationLifetime s)), ahe_flags = adv_flags s,
        ahe_reserved = 0, ahe_address = adv_careOfAddress s \<rparr>"

lemma adv_sendPacket_result:
  assumes "alloc_ok e"
  obtains p where "adv_sendPacket e dest s =
      Some (s\<lparr> adv_sequenceNr := adv_next_seq (adv_sequenceNr s) \<rparr>, [(0, p)])"
    and "adv_message_ok s dest (pdata p)" and "headroom p = 18" and "dst_ip_anno p = dest"
    and "\<not> pshared p"
proof -
  let ?d = "upd16 IP_SUM (click_in_cksum (slice 0 20 (adv_ip_bytes s dest))) (adv_ip_bytes s dest)"
  obtain q where q: "pkt_make e 18 None 48 0 = Some q" "headroom q = 18" "plen q = 48" "\<not> pshared q"
    by (rule pkt_make_Some [OF assms])
  obtain f where f: "adv_fill_icmp s 48 ?d = Some f" "length f = 48" "get_ip f 0 = get_ip ?d 0"
    "ip_cksum_ok f 0 = ip_cksum_ok ?d 0" "cksum_ok f 20 28"
    and ah: "get_advertisement_h f 20 =
      \<lparr> ah_type = 9, ah_code = 0, ah_checksum = get16 f 22, ah_addresses = 1, ah_addr_size = 2,
        ah_lifetime = htons (ucast (adv_advertisementLifetime s)), ah_address = adv_srcIp s,
        ah_preferences = 0 \<rparr>"
      "get_advertisement_h_e f 36 =
      \<lparr> ahe_type = 16, ahe_length = 10, ahe_seq_nr = htons (adv_sequenceNr s),
        ahe_lifetime = htons (ucast (adv_registrationLifetime s)), ahe_flags = adv_flags s,
        ahe_reserved = 0, ahe_address = adv_careOfAddress s \<rparr>"
    by (rule adv_fill_icmp_result [OF adv_ip_bytes_fields(1,2), of s "click_in_cksum (slice 0 20 (adv_ip_bytes s dest))" s dest])
  have "ip_sum (get_ip f 0) = get16 f IP_SUM" by (simp add: get_ip_def)
  then have "adv_message_ok s dest f"
    using f ah adv_ip_bytes_cksum [of s dest] by (simp add: adv_message_ok_def adv_ip_bytes_fields)
  moreover have "adv_sendPacket e dest s =
      Some (s\<lparr> adv_sequenceNr := adv_next_seq (adv_sequenceNr s) \<rparr>,
            [(0, q\<lparr> pdata := f, dst_ip_anno := dest \<rparr>)])"
    using q f by (simp add: adv_sendPacket_def adv_fill_ip_bytes)
  ultimately show ?thesis using that q by auto
qed

section \<open>Properties\<close>

text \<open>C15: \<^verbatim>\<open>Advertisement::sendPacket\<close> emits exactly one packet, on port 0, that carries a
  well-formed agent advertisement: the IP header and the ICMP message have verifying
  checksums (although the code takes the first one over the whole packet), and every field
  has the value that the element's configuration prescribes.\<close>

theorem adv_sendPacket_wellformed:
  assumes "alloc_ok e"
  shows "\<exists>p. adv_sendPacket e dest s =
      Some (s\<lparr> adv_sequenceNr := adv_next_seq (adv_sequenceNr s) \<rparr>, [(0, p)]) \<and>
    adv_message_ok s dest (pdata p) \<and> headroom p = 18 \<and> dst_ip_anno p = dest"
  using adv_sendPacket_result [OF assms] by metis

text \<open>Consecutive timer events of the element: the packets sent, oldest first. Each event
  comes with the value of \<^verbatim>\<open>rand()\<close>.\<close>

primrec adv_run :: "env \<Rightarrow> nat list \<Rightarrow> advertisement \<Rightarrow> (advertisement \<times> emission list) option" where
  "adv_run e [] s = Some (s, [])"
| "adv_run e (r # rs) s =
     do { (s, out) \<leftarrow> adv_run_timer e r s; (s, outs) \<leftarrow> adv_run e rs s; Some (s, out @ outs) }"

text \<open>The sequence numbers of RFC 5944, section 2.3.2: after 65535 comes 256.\<close>

definition adv_seq_spec :: "nat \<Rightarrow> nat" where
  "adv_seq_spec n = (if n < 65536 then n else 256 + (n - 65536) mod 65280)"

lemma adv_seq_spec_Suc:
  "adv_seq_spec (n + 1) = (if adv_seq_spec n < 65535 then adv_seq_spec n + 1 else 256)"
proof (cases "n < 65536")
  case True
  then show ?thesis by (auto simp: adv_seq_spec_def)
next
  case False
  then obtain m where "n = 65536 + m" by (metis le_Suc_ex not_less)
  then show ?thesis by (auto simp: adv_seq_spec_def mod_Suc)
qed

lemma adv_next_seq_spec:
  assumes "unat w = adv_seq_spec n"
  shows "unat (adv_next_seq w) = adv_seq_spec (n + 1)"
proof (cases "w < 0xffff")
  case True
  then have "unat w < 65535" by (simp add: word_less_nat_alt)
  then show ?thesis
    using True assms adv_seq_spec_Suc [of n] by (simp add: adv_next_seq_def unat_word_ariths)
next
  case False
  then have "\<not> unat w < 65535" by (simp add: word_less_nat_alt)
  then have "unat w = 65535" using unat_less_65536 [of w] by linarith
  then show ?thesis
    using False assms adv_seq_spec_Suc [of n] by (simp add: adv_next_seq_def)
qed

lemma adv_run_sequence:
  assumes "alloc_ok e"
  shows "unat (adv_sequenceNr s) = adv_seq_spec n \<Longrightarrow>
    \<exists>s' out. adv_run e rs s = Some (s', out) \<and>
      map (\<lambda>(port, p). (port, unat (ntohs (get16 (pdata p) (36 + AHE_SEQ))))) out =
        map (\<lambda>i. (0, adv_seq_spec (n + i))) [0..<length rs]"
proof (induction rs arbitrary: s n)
  case Nil
  then show ?case by simp
next
  case (Cons r rs)
  obtain p where p: "adv_sendPacket e 0xFFFFFFFF s =
      Some (s\<lparr> adv_sequenceNr := adv_next_seq (adv_sequenceNr s) \<rparr>, [(0, p)])"
    and ok: "adv_message_ok s 0xFFFFFFFF (pdata p)"
    by (rule adv_sendPacket_result [OF assms])
  have "ahe_seq_nr (get_advertisement_h_e (pdata p) 36) = htons (adv_sequenceNr s)"
    using ok by (simp add: adv_message_ok_def)
  then have seq: "get16 (pdata p) (36 + AHE_SEQ) = htons (adv_sequenceNr s)"
    by (simp add: get_advertisement_h_e_def)
  let ?s = "s\<lparr> adv_sequenceNr := adv_next_seq (adv_sequenceNr s), adv_timer := Some (1000 + r mod 100) \<rparr>"
  have "unat (adv_sequenceNr ?s) = adv_seq_spec (n + 1)"
    using adv_next_seq_spec [OF Cons.prems] by simp
  then obtain s' out where out: "adv_run e rs ?s = Some (s', out)"
    and m: "map (\<lambda>(port, p). (port, unat (ntohs (get16 (pdata p) (36 + AHE_SEQ))))) out =
      map (\<lambda>i. (0, adv_seq_spec (n + 1 + i))) [0..<length rs]"
    using Cons.IH by blast
  have "adv_run e (r # rs) s = Some (s', (0, p) # out)"
    using out by (simp add: adv_run_timer_def p)
  moreover have "[0..<length (r # rs)] = 0 # map Suc [0..<length rs]"
    by (simp add: map_Suc_upt upt_conv_Cons del: upt_Suc)
  ultimately show ?case
    using m seq Cons.prems by (simp add: comp_def)
qed

text \<open>The periodic advertisements never stop (each timer event succeeds and re-arms the
  timer) and carry the sequence numbers that RFC 5944 demands: 0, 1, up to 65535, then from
  256 on again, so that a mobile node can tell a roll-over from a restart of the agent.\<close>

theorem adv_run_sequence_numbers:
  assumes "alloc_ok e" and "advertisement_configure (Some a) = (0, Some s)"
  shows "\<exists>s' out. adv_run e rs s = Some (s', out) \<and>
    map (\<lambda>(port, p). (port, unat (ntohs (get16 (pdata p) (36 + AHE_SEQ))))) out =
      map (\<lambda>i. (0, adv_seq_spec i)) [0..<length rs]"
proof -
  have "unat (adv_sequenceNr s) = adv_seq_spec 0"
    using assms(2) by (auto simp: advertisement_configure_def adv_seq_spec_def)
  then show ?thesis using adv_run_sequence [OF assms(1), of s 0 rs] by simp
qed

text \<open>The sample agent of the witnesses, the home agent of \<^verbatim>\<open>scripts/library/ha.click\<close>.\<close>

definition sample_args :: advertisement_args where
  "sample_args = \<lparr> arg_SRCIP = 0xFE02A8C0, arg_COADDR = 0x0200A8C0, arg_HA = True, arg_FA = False,
     arg_BUSY = False, arg_ALIFETIME = 27, arg_RLIFETIME = 100 \<rparr>"

definition sample_advertiser :: advertisement where
  "sample_advertiser = the (snd (advertisement_configure (Some sample_args)))"

lemma sample_advertiser_conf: "advertisement_configure (Some sample_args) = (0, Some sample_advertiser)"
  by (simp add: sample_advertiser_def advertisement_configure_def)

theorem adv_sendPacket_wellformed_witness:
  "alloc_ok env0 \<and>
   (\<exists>p. adv_sendPacket env0 0xFFFFFFFF sample_advertiser =
      Some (sample_advertiser\<lparr> adv_sequenceNr := adv_next_seq (adv_sequenceNr sample_advertiser) \<rparr>, [(0, p)]) \<and>
    adv_message_ok sample_advertiser 0xFFFFFFFF (pdata p) \<and> headroom p = 18 \<and> dst_ip_anno p = 0xFFFFFFFF)"
  using adv_sendPacket_wellformed [of env0 "0xFFFFFFFF" sample_advertiser] by simp

theorem adv_run_sequence_numbers_witness:
  "\<exists>s' out. adv_run env0 [5, 7] sample_advertiser = Some (s', out) \<and>
    map (\<lambda>(port, p). (port, unat (ntohs (get16 (pdata p) (36 + AHE_SEQ))))) out =
      [(0, 0), (0, 1)]"
  using adv_run_sequence_numbers [OF env0_ok sample_advertiser_conf, of "[5, 7]"]
  by (simp add: adv_seq_spec_def upt_rec)

subsection \<open>Solicitations\<close>

definition sol_message_ok :: "ipaddr \<Rightarrow> bytes \<Rightarrow> bool" where
  "sol_message_ok src d \<longleftrightarrow>
     length d = 26 \<and> ip_cksum_ok d 0 \<and> cksum_ok d 20 6 \<and>
     get_ip d 0 =
      \<lparr> ip_v = 4, ip_hl = 5, ip_tos = 0, ip_len = htons 26, ip_id = 0, ip_off = 0, ip_ttl = 1,
        ip_p = 1, ip_sum = get16 d IP_SUM, ip_src = src, ip_dst = 0xffffffff \<rparr> \<and>
     get8 d (20 + SOL_TYPE) = 10 \<and> get8 d (20 + SOL_CODE) = 0"

definition sol_bytes :: "ipaddr \<Rightarrow> bytes" where
  "sol_bytes src =
     upd8 21 0 (upd8 20 10 (upd32 IP_DST 0xffffffff (upd32 IP_SRC src (upd8 IP_P 1 (upd8 IP_TTL 1
       (upd16 IP_LEN (htons 26) (upd8 IP_TOS 0 (upd8 0 0x45 (zeros 26)))))))))"

lemma sol_bytes_fields:
  "length (sol_bytes src) = 26" "get16 (sol_bytes src) 10 = 0" "get16 (sol_bytes src) 22 = 0"
  "get8 (sol_bytes src) 20 = 10" "get8 (sol_bytes src) 21 = 0"
  "get_ip (sol_bytes src) 0 = \<lparr> ip_v = 4, ip_hl = 5, ip_tos = 0, ip_len = htons 26, ip_id = 0,
     ip_off = 0, ip_ttl = 1, ip_p = 1, ip_sum = 0, ip_src = src, ip_dst = 0xffffffff \<rparr>"
  by (simp_all add: sol_bytes_def mem_simps get_ip_0)

lemma sol_fill_result:
  obtains f where "sol_fill s 26 (zeros 26) = Some f" and "sol_message_ok (sol_src_address s) f"
proof -
  let ?g = "sol_bytes (sol_src_address s)"
  let ?h = "upd16 10 (click_in_cksum (slice 0 20 ?g)) ?g"
  let ?f = "upd16 22 (click_in_cksum (slice 20 6 ?h)) ?h"
  have "ip_cksum_ok ?f 0" "cksum_ok ?f 20 6"
    using ip_cksum_fill [of 0 ?g] cksum_fill [of 20 6 ?h 2] sol_bytes_fields
    by (simp_all add: mem_simps)
  then have "sol_message_ok (sol_src_address s) ?f"
    using sol_bytes_fields [of "sol_src_address s"] by (simp add: sol_message_ok_def mem_simps get_ip_0)
  moreover have "sol_fill s 26 (zeros 26) = Some ?f"
    by (simp add: sol_fill_def sol_bytes_def mem_simps)
  ultimately show ?thesis by (rule that [rotated])
qed

text \<open>While the node has no agent: each tick sends one more solicitation, up to the limit.\<close>

lemma sol_run_timer_searching:
  assumes "alloc_ok e" and "\<not> mn_connected m" and "hm_is_empty (mn_advertisements m)"
    and "sol_consequent_messages s < sol_max_tries s"
  obtains p where "sol_run_timer e m s =
      Some (s\<lparr> sol_consequent_messages := sol_consequent_messages s + 1, sol_timer := Some 1000 \<rparr>, [(0, p)])"
    and "sol_message_ok (sol_src_address s) (pdata p)"
proof -
  obtain q where q: "pkt_make e 18 None 26 0 = Some q" "plen q = 26"
    by (rule pkt_make_Some [OF assms(1)])
  let ?s = "s\<lparr> sol_consequent_messages := sol_consequent_messages s + 1 \<rparr>"
  obtain f where f: "sol_fill ?s 26 (zeros 26) = Some f" "sol_message_ok (sol_src_address ?s) f"
    by (rule sol_fill_result)
  have "sol_run_timer e m s =
      Some (?s\<lparr> sol_timer := Some 1000 \<rparr>, [(0, q\<lparr> pdata := f, dst_ip_anno := 0xffffffff \<rparr>)])"
    using assms q f by (simp add: sol_run_timer_def linorder_not_le [symmetric])
  then show ?thesis using f(2) that by simp
qed

text \<open>A run of timer events; \<open>ms\<close> is the node's shared state at each of them. The result lists the
  packets of each event.\<close>

primrec sol_run :: "env \<Rightarrow> mninfo list \<Rightarrow> solicitation \<Rightarrow> (solicitation \<times> emission list list) option" where
  "sol_run e [] s = Some (s, [])"
| "sol_run e (m # ms) s =
     do { (s, out) \<leftarrow> sol_run_timer e m s; (s, outs) \<leftarrow> sol_run e ms s; Some (s, out # outs) }"

definition searching :: "mninfo \<Rightarrow> bool" where
  "searching m \<longleftrightarrow> \<not> mn_connected m \<and> hm_is_empty (mn_advertisements m)"

lemma sol_run_snoc:
  "sol_run e ms s = Some (s', outs) \<Longrightarrow> sol_run_timer e m s' = Some (s'', out) \<Longrightarrow>
   sol_run e (ms @ [m]) s = Some (s'', outs @ [out])"
  by (induction ms arbitrary: s outs) (auto simp: bind_eq_Some_conv split: prod.splits)

lemma sol_run_timer_idle:
  "\<not> searching m \<Longrightarrow>
     sol_run_timer e m s = Some (s\<lparr> sol_consequent_messages := 0, sol_timer := Some 1000 \<rparr>, [])"
  "searching m \<Longrightarrow> sol_max_tries s \<le> sol_consequent_messages s \<Longrightarrow>
     sol_run_timer e m s = Some (s\<lparr> sol_timer := Some 1000 \<rparr>, [])"
  by (auto simp: sol_run_timer_def searching_def)

text \<open>What the run of events before has to do with the next one: the counter is the number of
  events without an agent since the last event with one, up to the limit.\<close>

definition sol_state_ok :: "solicitation \<Rightarrow> mninfo list \<Rightarrow> solicitation \<Rightarrow> bool" where
  "sol_state_ok s ms s' \<longleftrightarrow> sol_timer s' = Some 1000 \<and> sol_src_address s' = sol_src_address s \<and>
     sol_max_tries s' = sol_max_tries s \<and>
     unat (sol_consequent_messages s') =
       min (length (takeWhile searching (rev ms))) (unat (sol_max_tries s))"

definition sol_event_ok :: "solicitation \<Rightarrow> mninfo list \<Rightarrow> mninfo \<Rightarrow> emission list \<Rightarrow> bool" where
  "sol_event_ok s ms m out \<longleftrightarrow>
     (if searching m \<and> length (takeWhile searching (rev ms)) < unat (sol_max_tries s)
      then \<exists>p. out = [(0, p)] \<and> sol_message_ok (sol_src_address s) (pdata p)
      else out = [])"

lemma sol_run_timer_step:
  assumes "alloc_ok e" and "sol_state_ok s ms s'"
  obtains s'' out where "sol_run_timer e m s' = Some (s'', out)" and "sol_state_ok s (ms @ [m]) s''"
    and "sol_event_ok s ms m out"
proof (cases "searching m")
  case False
  then show ?thesis
    using assms(2) sol_run_timer_idle(1) [OF False, of e s']
    by (intro that) (auto simp: sol_state_ok_def sol_event_ok_def)
next
  case True
  show ?thesis
  proof (cases "sol_consequent_messages s' < sol_max_tries s'")
    case less: True
    then obtain p where p: "sol_run_timer e m s' =
        Some (s'\<lparr> sol_consequent_messages := sol_consequent_messages s' + 1, sol_timer := Some 1000 \<rparr>, [(0, p)])"
      "sol_message_ok (sol_src_address s') (pdata p)"
      using sol_run_timer_searching [OF assms(1), of m s'] True unfolding searching_def by metis
    have "unat (sol_consequent_messages s' + 1) = unat (sol_consequent_messages s') + 1"
      using less by (rule unat_add_one)
    then show ?thesis
      using p True less assms(2)
      by (intro that [OF p(1)]) (auto simp: sol_state_ok_def sol_event_ok_def word_less_nat_alt)
  next
    case False
    then have "sol_run_timer e m s' = Some (s'\<lparr> sol_timer := Some 1000 \<rparr>, [])"
      using sol_run_timer_idle(2) [OF True] by (simp add: not_less)
    then show ?thesis
      using False True assms(2)
      by (intro that) (assumption, auto simp: sol_state_ok_def sol_event_ok_def word_less_nat_alt)
  qed
qed

lemma sol_run_result:
  assumes "alloc_ok e" and "sol_state_ok s [] s"
  shows "\<exists>s' outs. sol_run e ms s = Some (s', outs) \<and> sol_state_ok s ms s' \<and> length outs = length ms \<and>
    (\<forall>i < length ms. sol_event_ok s (take i ms) (ms ! i) (outs ! i))"
proof (induction ms rule: rev_induct)
  case Nil
  then show ?case using assms(2) by simp
next
  case (snoc m ms)
  then obtain s' outs where ih: "sol_run e ms s = Some (s', outs)" "sol_state_ok s ms s'"
    "length outs = length ms" "\<forall>i < length ms. sol_event_ok s (take i ms) (ms ! i) (outs ! i)"
    by blast
  obtain s'' out where step: "sol_run_timer e m s' = Some (s'', out)" "sol_state_ok s (ms @ [m]) s''"
    "sol_event_ok s ms m out"
    by (rule sol_run_timer_step [OF assms(1) ih(2)])
  then show ?case
    using sol_run_snoc [OF ih(1) step(1)] ih(3,4) by (auto simp: nth_append less_Suc_eq)
qed

text \<open>C39: The timer of a configured \<^verbatim>\<open>Solicitation\<close> element keeps running, one second at a time, over
  any history of the node. Event \<open>i\<close> sends exactly one well-formed solicitation when the node is
  searching (not connected and without a known advertisement) and the run of searching events
  directly before it is shorter than \<^verbatim>\<open>MAXRETRIES\<close>; every other event is silent. So a node that
  stays without an agent sends \<^verbatim>\<open>MAXRETRIES\<close> solicitations, and the count starts again only
  after an event at which it had an agent.\<close>

theorem sol_run_bounded:
  assumes "alloc_ok e" and "solicitation_configure (Some (src, maxretries)) = (0, Some s)"
  shows "\<exists>s' outs. sol_run e ms s = Some (s', outs) \<and> sol_timer s' = Some 1000 \<and>
    length outs = length ms \<and>
    (\<forall>i < length ms.
      if searching (ms ! i) \<and> length (takeWhile searching (rev (take i ms))) <
        (case maxretries of None \<Rightarrow> 5 | Some n \<Rightarrow> unat n)
      then \<exists>p. outs ! i = [(0, p)] \<and> sol_message_ok src (pdata p)
      else outs ! i = [])"
proof -
  have s: "sol_consequent_messages s = 0" "sol_src_address s = src" "sol_timer s = Some 1000"
    "unat (sol_max_tries s) = (case maxretries of None \<Rightarrow> 5 | Some n \<Rightarrow> unat n)"
    using assms(2) by (auto simp: solicitation_configure_def split: option.splits)
  then have "sol_state_ok s [] s" by (simp add: sol_state_ok_def)
  then obtain s' outs where r: "sol_run e ms s = Some (s', outs)" "sol_state_ok s ms s'"
    "length outs = length ms" "\<forall>i < length ms. sol_event_ok s (take i ms) (ms ! i) (outs ! i)"
    using sol_run_result [OF assms(1), of s ms] by blast
  then have "sol_timer s' = Some 1000" by (simp add: sol_state_ok_def)
  with r show ?thesis unfolding sol_event_ok_def s(2,4) by blast
qed

text \<open>Two retries, and the node is connected at the second of five events: the first, third and
  fourth event solicit, the fifth no longer.\<close>

theorem sol_run_bounded_witness:
  "\<exists>s' outs. sol_run env0 [sample_mninfo, sample_mninfo\<lparr> mn_connected := True \<rparr>, sample_mninfo, sample_mninfo, sample_mninfo]
      (the (snd (solicitation_configure (Some (0x0102A8C0, Some 2))))) = Some (s', outs) \<and>
    sol_timer s' = Some 1000 \<and> length outs = 5 \<and>
    (\<exists>p. outs ! 0 = [(0, p)]) \<and> outs ! 1 = [] \<and> (\<exists>p. outs ! 2 = [(0, p)]) \<and>
    (\<exists>p. outs ! 3 = [(0, p)] \<and> sol_message_ok 0x0102A8C0 (pdata p)) \<and> outs ! 4 = []"
proof -
  have "searching sample_mninfo" "\<not> searching (sample_mninfo\<lparr> mn_connected := True \<rparr>)"
    by (simp_all add: searching_def)
  note searches = this
  let ?c = "sample_mninfo\<lparr> mn_connected := True \<rparr>"
  let ?ms = "[sample_mninfo, ?c, sample_mninfo, sample_mninfo, sample_mninfo]"
  let ?s = "the (snd (solicitation_configure (Some (0x0102A8C0, Some 2))))"
  have "solicitation_configure (Some (0x0102A8C0, Some 2)) = (0, Some ?s)"
    by (simp add: solicitation_configure_def)
  from sol_run_bounded [OF env0_ok this, of ?ms] obtain s' outs where
    r: "sol_run env0 ?ms ?s = Some (s', outs)" "sol_timer s' = Some 1000" "length outs = 5"
    and events: "i < 5 \<Longrightarrow>
      if searching (?ms ! i) \<and> length (takeWhile searching (rev (take i ?ms))) < 2
      then \<exists>p. outs ! i = [(0, p)] \<and> sol_message_ok 0x0102A8C0 (pdata p) else outs ! i = []" for i
    by auto
  have "outs ! 1 = [] \<and> outs ! 4 = []" "\<exists>p. outs ! 0 = [(0, p)]" "\<exists>p. outs ! 2 = [(0, p)]"
    "\<exists>p. outs ! 3 = [(0, p)] \<and> sol_message_ok 0x0102A8C0 (pdata p)"
    using events [of 0] events [of 1] events [of 2] events [of 3] events [of 4] searches
    by (auto simp: numeral_eq_Suc)
  with r show ?thesis by blast
qed

text \<open>A solicitation that a mobile node with a non-zero address sends is recognised by the
  agents: behind any Ethernet header, \<^verbatim>\<open>CheckSolicitation\<close> passes it unchanged to the
  advertiser (port 0).\<close>

theorem checksol_accepts_solicitation:
  assumes "alloc_ok e" and "\<not> mn_connected m" and "hm_is_empty (mn_advertisements m)"
    and "sol_consequent_messages s < sol_max_tries s" and "sol_src_address s \<noteq> 0"
  shows "\<exists>s' p. sol_run_timer e m s = Some (s', [(0, p)]) \<and>
    (\<forall>eth q. length eth = 14 \<longrightarrow> pdata q = eth @ pdata p \<longrightarrow> checksol_push q = Some [(0, q)])"
proof -
  obtain s' p where run: "sol_run_timer e m s = Some (s', [(0, p)])"
    and ok: "sol_message_ok (sol_src_address s) (pdata p)"
    using sol_run_timer_searching [OF assms(1-4)] by metis
  have "checksol_push q = Some [(0, q)]" if eth: "length eth = 14" "pdata q = eth @ pdata p" for eth q
  proof -
    have ip: "get8 (pdata p) 9 = 1" "get32 (pdata p) 12 = sol_src_address s" "get16 (pdata p) 2 = htons 26"
      using ok by (simp_all add: sol_message_ok_def get_ip_0)
    have "get8 (pdata q) (14 + 9) = 1" "get32 (pdata q) (14 + 12) = sol_src_address s"
      "get16 (pdata q) (14 + 2) = htons 26" "get8 (pdata q) (14 + 20) = 10" "get8 (pdata q) (14 + 21) = 0"
      "cksum_ok (pdata q) (14 + 20) 6" "plen q = 40"
      using eth ok ip get_append [of eth "pdata p"] cksum_ok_append [of eth "pdata p" 20 6]
      by (simp_all only: sol_message_ok_def) simp_all
    then show ?thesis
      using assms(5) by (simp add: checksol_push_def mem_simps cksum_ok_def)
  qed
  with run show ?thesis by blast
qed

theorem checksol_accepts_solicitation_witness:
  "\<exists>s' p. sol_run_timer env0 sample_mninfo
      \<lparr> sol_src_address = 0x0102A8C0, sol_consequent_messages = 4, sol_max_tries = 5, sol_timer = None \<rparr> =
        Some (s', [(0, p)]) \<and>
    (\<forall>eth q. length eth = 14 \<longrightarrow> pdata q = eth @ pdata p \<longrightarrow> checksol_push q = Some [(0, q)])"
proof (rule checksol_accepts_solicitation [OF env0_ok])
  show "\<not> mn_connected sample_mninfo" "hm_is_empty (mn_advertisements sample_mninfo)"
    by simp_all
qed simp_all

text \<open>\<^verbatim>\<open>CheckSolicitation\<close> silently discards every ICMP solicitation whose IP length is 28 or
  more, that is, every solicitation with the eight-byte ICMP message that RFC 1256 defines;
  only the six-byte messages of the program's own \<^verbatim>\<open>Solicitation\<close> element can pass.\<close>

theorem checksol_discards_rfc1256:
  assumes "40 \<le> plen p" and "get8 (pdata p) (14 + IP_P) = 1" and "get8 (pdata p) (34 + SOL_TYPE) = 10"
    and "28 \<le> unat (ntohs (get16 (pdata p) (14 + IP_LEN)))"
  shows "checksol_push p = Some []"
  using assms by (simp add: checksol_push_def mem_simps Let_def)

definition rfc1256_solicitation :: packet where
  "rfc1256_solicitation = the (pkt_make env0 0 (Some (upd16 36 (htons 0xF5FF) (upd8 34 10
     (upd32 26 0x0102A8C0 (upd8 23 1 (upd16 16 (htons 28) (upd8 14 0x45 (zeros 42)))))))) 42 0)"

theorem checksol_discards_rfc1256_witness:
  "get_ip (pdata rfc1256_solicitation) 14 =
     \<lparr> ip_v = 4, ip_hl = 5, ip_tos = 0, ip_len = htons 28, ip_id = 0, ip_off = 0, ip_ttl = 0, ip_p = 1,
       ip_sum = 0, ip_src = 0x0102A8C0, ip_dst = 0 \<rparr> \<and>
   checksol_push rfc1256_solicitation = Some []"
proof -
  let ?d = "upd16 36 (htons 0xF5FF) (upd8 34 10 (upd32 26 0x0102A8C0 (upd8 23 1
    (upd16 16 (htons 28) (upd8 14 0x45 (zeros 42))))))"
  have d: "pdata rfc1256_solicitation = ?d"
    by (simp add: rfc1256_solicitation_def pkt_make_def alloc_data_def min_buffer_length_def
        Let_def)
  then have "checksol_push rfc1256_solicitation = Some []"
    by (intro checksol_discards_rfc1256) (simp_all add: mem_simps)
  then show ?thesis using d by (simp add: mem_simps get_ip_def)
qed

end
