(* ===== verification/MIP_MobileNode.thy ===== *)
theory MIP_MobileNode
  imports MIP_MNInfo
begin

unbundle bit_operations_syntax

text \<open>
  The registration elements of the mobile node: \<^verbatim>\<open>ProcessAdvertisements\<close> keeps the table of
  agents and asks for a registration, \<^verbatim>\<open>RegReq\<close> sends registration requests, \<^verbatim>\<open>RegNode\<close> handles
  the replies and the lifetime of the registration. All three share the state of \<^verbatim>\<open>MNInfo\<close>.

  The clock is an argument of the handlers that read it: \<open>now\<close> is \<^verbatim>\<open>Timestamp::now()\<close> in
  nanoseconds, \<open>sub1\<close> and \<open>sub2\<close> are the subsecond parts of \<^verbatim>\<open>Timestamp::now()\<close> and
  \<^verbatim>\<open>Timestamp::now_steady()\<close>, and \<open>r\<close> is the result of \<^verbatim>\<open>rand()\<close>.
\<close>

section \<open>ProcessAdvertisements\<close>

text \<open>\<^verbatim>\<open>Pair<IPAddress, Timer>\<close>: a copied timer is not scheduled, and the destructor of the
  original unschedules it.\<close>

type_synonym agent_timer = "ipaddr \<times> timer"

definition agent_timer_copy :: "agent_timer \<Rightarrow> agent_timer" where
  "agent_timer_copy t = (fst t, None)"

record processadv =
  pa_timers :: "agent_timer vec"
  pa_latestRegAttempt :: int

definition pa_configure :: "unit option \<Rightarrow> int \<times> processadv option" where
  "pa_configure conf =
     (case conf of
        None \<Rightarrow> (- 1, None)
      | Some _ \<Rightarrow> (0, Some \<lparr> pa_timers = vec_empty, pa_latestRegAttempt = 0 \<rparr>))"

text \<open>The loop that erases the first timer of an agent.\<close>

definition pa_erase_timer :: "ipaddr \<Rightarrow> agent_timer vec \<Rightarrow> agent_timer vec option" where
  "pa_erase_timer a v =
     (case vec_index (\<lambda>t. fst t = a) v of
        None \<Rightarrow> Some v
      | Some i \<Rightarrow> vec_erase agent_timer_copy i v)"

text \<open>\<^verbatim>\<open>_timers.push_back(...); _timers.back().second.schedule_after_msec(1000)\<close>.\<close>

definition pa_start_timer :: "env \<Rightarrow> ipaddr \<Rightarrow> agent_timer vec \<Rightarrow> agent_timer vec option" where
  "pa_start_timer e a v =
     do {
       let v = vec_push_back agent_timer_copy (alloc_ok e) (a, None) v;
       t \<leftarrow> vec_back v;
       vec_set (vec_size v - 1) (fst t, Some 1000) v
     }"

text \<open>Forgetting the agent's previous advertisement; the result has the sequence number of
  that advertisement, \<^verbatim>\<open>0xffff\<close> when there was none.\<close>

definition pa_forget :: "ipaddr \<Rightarrow> mninfo \<Rightarrow> processadv \<Rightarrow> (u16 \<times> mninfo \<times> processadv) option" where
  "pa_forget a m s =
     (case hm_find_pair ip_hashcode (mn_advertisements m) a of
        None \<Rightarrow> Some (- 1, m, s)
      | Some (key, old) \<Rightarrow>
          do {
            lsn \<leftarrow> ld16 (pdata old) (36 + AHE_SEQ);
            v \<leftarrow> pa_erase_timer key (pa_timers s);
            Some (lsn, adv_erase a m, s\<lparr> pa_timers := v \<rparr>)
          })"

text \<open>Storing a new advertisement, and pushing the packet to the registration (port 1) when
  \<open>attempt\<close> holds. The clone that is stored keeps the data alive for the remaining reads of
  \<^verbatim>\<open>ah\<close>; without memory for it those would read freed data.\<close>

definition pa_store ::
  "env \<Rightarrow> int \<Rightarrow> bool \<Rightarrow> ipaddr \<Rightarrow> packet \<Rightarrow> mninfo \<Rightarrow> processadv \<Rightarrow>
     ((mninfo \<times> processadv) \<times> emission list) option" where
  "pa_store e now attempt a packet m s =
     do {
       ((m, s), out) \<leftarrow>
         (if attempt then do {
            (c, p) \<leftarrow> pkt_clone e packet;
            Some ((adv_insert e a c m, s\<lparr> pa_latestRegAttempt := now \<rparr>), [(1, p)])
          } else Some ((adv_insert e a packet m, s), []));
       v \<leftarrow> pa_start_timer e a (pa_timers s);
       Some ((m, s\<lparr> pa_timers := v \<rparr>), out)
     }"

definition pa_push ::
  "env \<Rightarrow> int \<Rightarrow> packet \<Rightarrow> mninfo \<times> processadv \<Rightarrow> ((mninfo \<times> processadv) \<times> emission list) option" where
  "pa_push e now packet st =
     (case st of (m, s) \<Rightarrow>
      do {
        let d = pdata packet;
        let ah = sizeof_click_ip;
        let ahe = ah + sizeof_advertisement_h;
        proto \<leftarrow> ld8 d IP_P;
        if proto = 1 then do {
          t \<leftarrow> ld8 d (ah + AH_TYPE);
          if t = 9 then do {
            xt \<leftarrow> ld8 d (ahe + AHE_TYPE);
            if xt = 16 then do {
              a \<leftarrow> ld32 d (ah + AH_ADDRESS);
              (lsn, m, s) \<leftarrow> pa_forget a m s;
              flags \<leftarrow> ld8 d (ahe + AHE_FLAGS);
              if \<not> bit flags 6 then
                if \<not> mn_connected m then pa_store e now True a packet m s
                else do {
                  seq_nr \<leftarrow> ld16 d (ahe + AHE_SEQ);
                  pa_store e now (seq_nr \<le> lsn \<and> seq_nr < 256) a packet m s
                }
              else Some ((m, s), [])
            }
            else Some ((m, s), [(0, packet)])
          }
          else Some ((m, s), [(0, packet)])
        }
        else Some ((m, s), [(0, packet)])
      })"

text \<open>\<^verbatim>\<open>run_timer\<close> for the timer in slot \<open>k\<close>, which is not scheduled any more when it fires. The
  part after the table has been updated:\<close>

definition pa_retry ::
  "env \<Rightarrow> int \<Rightarrow> bool \<Rightarrow> mninfo \<Rightarrow> processadv \<Rightarrow> ((mninfo \<times> processadv) \<times> emission list) option" where
  "pa_retry e now agentAvailable m s =
     (if \<not> agentAvailable \<and> \<not> hm_is_empty (mn_advertisements m)
         \<and> pa_latestRegAttempt s + 1000000000 < now
      then (case hm_begin (mn_advertisements m) of
              Some (b, (a, p) # rest) \<Rightarrow>
                do {
                  (c, p) \<leftarrow> pkt_clone e p;
                  Some ((m, s\<lparr> pa_latestRegAttempt := now \<rparr>), [(1, c)])
                }
            | _ \<Rightarrow> None)
      else Some ((m, s), []))"

definition pa_run_timer ::
  "env \<Rightarrow> int \<Rightarrow> nat \<Rightarrow> mninfo \<times> processadv \<Rightarrow> ((mninfo \<times> processadv) \<times> emission list) option" where
  "pa_run_timer e now k st =
     (case st of (m, s) \<Rightarrow>
      do {
        slot \<leftarrow> vec_at (pa_timers s) k;
        v \<leftarrow> vec_set k (fst slot, None) (pa_timers s);
        let s = s\<lparr> pa_timers := v \<rparr>;
        case hm_find_pair ip_hashcode (mn_advertisements m) (fst slot) of
          None \<Rightarrow> Some ((m, s), [])
        | Some (address, packet) \<Rightarrow>
            do {
              let ah = sizeof_click_ip;
              l \<leftarrow> ld16 (pdata packet) (ah + AH_LIFETIME);
              let lifetime = ntohs l;
              if lifetime > 0 then
                do {
                  d \<leftarrow> st16 (ah + AH_LIFETIME) (htons (lifetime - 1)) (pdata packet);
                  v \<leftarrow> vec_set k (fst slot, Some 1000) (pa_timers s);
                  pa_retry e now (mn_connected m) (adv_write address d m) (s\<lparr> pa_timers := v \<rparr>)
                }
              else if hm_find_pair ip_hashcode (mn_advertisements m) address \<noteq> None then Some ((m, s), [])
              else None
            }
      })"

section \<open>RegReq\<close>

record regreq =
  rr_lifetime :: u16
  rr_sequence :: u32
  rr_timer :: timer

definition regreq_configure :: "u16 option \<Rightarrow> int \<times> regreq option" where
  "regreq_configure conf =
     (case conf of
        None \<Rightarrow> (- 1, None)
      | Some lifetime \<Rightarrow> (0, Some \<lparr> rr_lifetime = lifetime, rr_sequence = 0, rr_timer = Some 1000 \<rparr>))"

definition regreq_fill ::
  "mninfo \<Rightarrow> u32 \<Rightarrow> ipaddr \<Rightarrow> u16 \<Rightarrow> ipaddr \<Rightarrow> u16 \<Rightarrow> u64 \<Rightarrow> nat \<Rightarrow> bytes \<Rightarrow> bytes option" where
  "regreq_fill m sequence dest lifetime coaddress port ID p_size d =
     do {
       let ipid = ucast (sequence mod 0xFFFF) + 1;
       d \<leftarrow> st_ip_v 0 4 d;
       d \<leftarrow> st_ip_hl 0 (sizeof_click_ip div 4) d;
       d \<leftarrow> st16 IP_LEN (htons (of_nat p_size)) d;
       d \<leftarrow> st16 IP_ID (htons ipid) d;
       d \<leftarrow> st8 IP_P 17 d;
       d \<leftarrow> st32 IP_SRC (mn_home_address m) d;
       d \<leftarrow> st32 IP_DST dest d;
       d \<leftarrow> st8 IP_TOS 0 d;
       d \<leftarrow> st16 IP_OFF 0 d;
       d \<leftarrow> st8 IP_TTL 64 d;
       c \<leftarrow> cksum_at d 0 sizeof_click_ip;
       d \<leftarrow> st16 IP_SUM c d;
       let udp = sizeof_click_ip;
       d \<leftarrow> st16 (udp + UH_SPORT) (htons port) d;
       d \<leftarrow> st16 (udp + UH_DPORT) (htons 434) d;
       d \<leftarrow> st16 (udp + UH_ULEN) (htons (of_nat (p_size - sizeof_click_ip))) d;
       let rr = udp + sizeof_click_udp;
       d \<leftarrow> st8 (rr + RQ_TYPE) 1 d;
       d \<leftarrow> st8 (rr + RQ_FLAGS) 0 d;
       d \<leftarrow> st16 (rr + RQ_LIFETIME) (htons lifetime) d;
       d \<leftarrow> st32 (rr + RQ_HOME_ADDRESS) (mn_home_address m) d;
       d \<leftarrow> st32 (rr + RQ_HOME_AGENT) (mn_home_agent m) d;
       d \<leftarrow> st32 (rr + RQ_COA) coaddress d;
       d \<leftarrow> st64 (rr + RQ_ID) ID d;
       c \<leftarrow> transport_cksum d 0 udp (p_size - sizeof_click_ip);
       st16 (udp + UH_SUM) c d
     }"

text \<open>\<^verbatim>\<open>make_packet\<close>: the request is entered into the list of pending requests even when there is
  no memory for the packet.\<close>

definition regreq_make_packet ::
  "env \<Rightarrow> u32 \<Rightarrow> u32 \<Rightarrow> nat \<Rightarrow> ipaddr \<Rightarrow> u16 \<Rightarrow> ipaddr \<Rightarrow> regreq \<Rightarrow> mninfo \<Rightarrow>
     (mninfo \<times> packet option) option" where
  "regreq_make_packet e sub1 sub2 r dest lifetime coaddress s m =
     do {
       let ID = le64 sub1 sub2;
       let req = \<lparr> req_dest = dest, req_coaddress = coaddress, req_id = lo32 ID, req_lt = lifetime,
                   rem_lt = lifetime, req_port = of_nat (r mod 65535) \<rparr>;
       let m = m\<lparr> mn_pending := vec_push_back id (alloc_ok e) req (mn_pending m) \<rparr>;
       let headroom = sizeof_click_ether + 4;
       let p_size = sizeof_click_ip + sizeof_click_udp + sizeof_regreq_h;
       case pkt_make e headroom None p_size 0 of
         None \<Rightarrow> Some (m, None)
       | Some q \<Rightarrow>
           do {
             d \<leftarrow> regreq_fill m (rr_sequence s) dest lifetime coaddress (req_port req) ID p_size (zeros p_size);
             Some (m, Some (q\<lparr> pdata := d, dst_ip_anno := dest \<rparr>))
           }
     }"

definition regreq_run_timer :: "regreq \<Rightarrow> mninfo \<Rightarrow> regreq \<times> mninfo" where
  "regreq_run_timer s m =
     (s\<lparr> rr_timer := Some 1000 \<rparr>,
      m\<lparr> mn_pending := vec_sweep
           (\<lambda>q. let lt = ntohs (rem_lt q)
                in if lt > 0 then Some (q\<lparr> rem_lt := htons (lt - 1) \<rparr>) else None) 0 (mn_pending m) \<rparr>)"

definition regreq_push ::
  "env \<Rightarrow> u32 \<Rightarrow> u32 \<Rightarrow> nat \<Rightarrow> regreq \<Rightarrow> packet \<Rightarrow> mninfo \<Rightarrow> (mninfo \<times> emission list) option" where
  "regreq_push e sub1 sub2 r s q m =
     do {
       let d = pdata q;
       let ahx = sizeof_click_ip + sizeof_advertisement_h;
       asrc \<leftarrow> ld32 d IP_SRC;
       axflags \<leftarrow> ld8 d (ahx + AHE_FLAGS);
       let home = bit axflags 5;
       let foreign = bit axflags 4;
       if asrc = mn_gateway m then
         if mn_foreign_agent m \<noteq> mn_gateway m \<and> home then do {
           let m = m\<lparr> mn_foreign_agent := mn_gateway m, mn_lifetime := 0 \<rparr>;
           (m, p) \<leftarrow> regreq_make_packet e sub1 sub2 r asrc 0 (mn_home_address m) s m;
           Some (m, case p of None \<Rightarrow> [] | Some p \<Rightarrow> [(0, p)])
         }
         else Some (m, [])
       else if foreign then do {
         acoaddr \<leftarrow> ld32 d (ahx + AHE_ADDRESS);
         l \<leftarrow> ld16 d (ahx + AHE_LIFETIME);
         (m, p) \<leftarrow> regreq_make_packet e sub1 sub2 r asrc (htons l) acoaddr s m;
         Some (m, case p of None \<Rightarrow> [] | Some p \<Rightarrow> [(0, p)])
       }
       else Some (m, [])
     }"

section \<open>RegNode\<close>

record regnode =
  rn_registrationAlmostOver :: u32
  rn_timer :: timer

definition regnode_configure :: "u32 option \<Rightarrow> int \<times> regnode option" where
  "regnode_configure conf =
     (case conf of
        None \<Rightarrow> (- 1, None)
      | Some n \<Rightarrow> (0, Some \<lparr> rn_registrationAlmostOver = n, rn_timer = None \<rparr>))"

text \<open>The loop that looks for the pending request a reply belongs to, with the reads of the
  packet it makes.\<close>

fun regnode_find :: "bytes \<Rightarrow> nat \<Rightarrow> request list \<Rightarrow> nat option option" where
  "regnode_find d i [] = Some None"
| "regnode_find d i (q # qs) =
     do {
       src \<leftarrow> ld32 d IP_SRC;
       if req_dest q = src then do {
         dport \<leftarrow> ld16 d (sizeof_click_ip + UH_DPORT);
         if req_port q = ntohs dport then Some (Some i) else regnode_find d (i + 1) qs
       }
       else regnode_find d (i + 1) qs
     }"

definition pending_erase :: "nat \<Rightarrow> mninfo \<Rightarrow> mninfo option" where
  "pending_erase i m = do { v \<leftarrow> vec_erase id i (mn_pending m); Some (m\<lparr> mn_pending := v \<rparr>) }"

definition regnode_push :: "packet \<Rightarrow> regnode \<times> mninfo \<Rightarrow> (regnode \<times> mninfo) option" where
  "regnode_push p st =
     (case st of (s, m) \<Rightarrow>
      do {
        let d = pdata p;
        let udph = sizeof_click_ip;
        let reph = udph + sizeof_click_udp;
        found \<leftarrow> regnode_find d 0 (vec_elems (mn_pending m));
        case found of
          None \<Rightarrow> Some (s, m)
        | Some i \<Rightarrow>
            do {
              recentreq \<leftarrow> vec_at (mn_pending m) i;
              ok \<leftarrow> udp_cksum_ok d 0 udph (plen p - sizeof_click_ip);
              if \<not> ok then do { m \<leftarrow> pending_erase i m; Some (s, m) }
              else do {
                identification \<leftarrow> ld64 d (reph + RP_ID);
                if lo32 identification \<noteq> req_id recentreq then Some (s, m)
                else do {
                  code \<leftarrow> ld8 d (reph + RP_CODE);
                  if code = 0 \<or> code = 1 then do {
                    let s = s\<lparr> rn_timer := None \<rparr>;
                    src \<leftarrow> ld32 d IP_SRC;
                    (s, m) \<leftarrow>
                      (if src \<noteq> mn_gateway m then do {
                         l \<leftarrow> ld16 d (reph + RP_LIFETIME);
                         let given_lifetime = ntohs l;
                         let dec_lifetime = req_lt recentreq - given_lifetime;
                         let lifetime = rem_lt recentreq - dec_lifetime;
                         Some (s\<lparr> rn_timer := Some 1000 \<rparr>,
                               m\<lparr> mn_connected := True, mn_foreign_agent := req_dest recentreq,
                                  mn_lifetime := lifetime \<rparr>)
                       }
                       else Some (s, m));
                    m \<leftarrow> pending_erase i m;
                    Some (s, m)
                  }
                  else do { m \<leftarrow> pending_erase i m; Some (s, m) }
                }
              }
            }
      })"

text \<open>\<^verbatim>\<open>run_timer\<close>: \<^verbatim>\<open>output(0).push\<close> runs the element connected there, the requester, before it
  returns; that element is the argument \<open>downstream\<close>.\<close>

definition regnode_run_timer ::
  "env \<Rightarrow> (packet \<Rightarrow> mninfo \<Rightarrow> (mninfo \<times> emission list) option) \<Rightarrow> regnode \<times> mninfo \<Rightarrow>
     ((regnode \<times> mninfo) \<times> emission list) option" where
  "regnode_run_timer e downstream st =
     (case st of (s, m) \<Rightarrow>
      do {
        (m, out) \<leftarrow>
          (if mn_lifetime m > 0 then do {
             let m = m\<lparr> mn_lifetime := mn_lifetime m - 1 \<rparr>;
             (m, out) \<leftarrow>
               (if ucast (mn_lifetime m) = rn_registrationAlmostOver s then
                  (case adv_find m (mn_foreign_agent m) of
                     None \<Rightarrow> Some (m, [])
                   | Some p \<Rightarrow> do { (c, p) \<leftarrow> pkt_clone e p; downstream c m })
                else Some (m, []));
             Some (if mn_lifetime m = 0 then m\<lparr> mn_connected := False \<rparr> else m, out)
           }
           else Some (m, []));
        Some ((s\<lparr> rn_timer := Some 1000 \<rparr>, m), out)
      })"

section \<open>Registration requests\<close>

definition regreq_message_ok ::
  "mninfo \<Rightarrow> ipaddr \<Rightarrow> u16 \<Rightarrow> ipaddr \<Rightarrow> u16 \<Rightarrow> u64 \<Rightarrow> bytes \<Rightarrow> bool" where
  "regreq_message_ok m dest lifetime coaddress port ID d \<longleftrightarrow>
     length d = 52 \<and> ip_cksum_ok d 0 \<and> transport_cksum d 0 20 32 = Some 0 \<and>
     get_ip d 0 =
       \<lparr> ip_v = 4, ip_hl = 5, ip_tos = 0, ip_len = htons 52, ip_id = get16 d IP_ID, ip_off = 0,
         ip_ttl = 64, ip_p = 17, ip_sum = get16 d IP_SUM, ip_src = mn_home_address m, ip_dst = dest \<rparr> \<and>
     get_udp d 20 =
       \<lparr> uh_sport = htons port, uh_dport = htons 434, uh_ulen = htons 32, uh_sum = get16 d 26 \<rparr> \<and>
     get_regreq d 28 =
       \<lparr> rq_type = 1, rq_flags = 0, rq_lifetime = htons lifetime, rq_home_address = mn_home_address m,
         rq_home_agent = mn_home_agent m, rq_care_of_address = coaddress, rq_identification = ID \<rparr>"

text \<open>The bytes in front of the UDP checksum.\<close>

definition regreq_ip_bytes :: "mninfo \<Rightarrow> u32 \<Rightarrow> ipaddr \<Rightarrow> bytes" where
  "regreq_ip_bytes m sequence dest =
     upd8 IP_TTL 64 (upd16 IP_OFF 0 (upd8 IP_TOS 0 (upd32 IP_DST dest (upd32 IP_SRC (mn_home_address m)
       (upd8 IP_P 17 (upd16 IP_ID (htons (ucast (sequence mod 0xFFFF) + 1)) (upd16 IP_LEN (htons 52)
         (upd8 0 0x45 (zeros 52)))))))))"

definition regreq_bytes ::
  "mninfo \<Rightarrow> u32 \<Rightarrow> ipaddr \<Rightarrow> u16 \<Rightarrow> ipaddr \<Rightarrow> u16 \<Rightarrow> u64 \<Rightarrow> bytes" where
  "regreq_bytes m sequence dest lifetime coaddress port ID =
     upd64 44 ID (upd32 40 coaddress (upd32 36 (mn_home_agent m) (upd32 32 (mn_home_address m)
       (upd16 30 (htons lifetime) (upd8 29 0 (upd8 28 1 (upd16 24 (htons 32) (upd16 22 (htons 434)
         (upd16 20 (htons port) (upd16 IP_SUM (click_in_cksum (slice 0 20 (regreq_ip_bytes m sequence dest)))
           (regreq_ip_bytes m sequence dest)))))))))))"

lemma regreq_bytes_fields:
  fixes m :: mninfo and sequence :: u32 and dest :: ipaddr and lifetime port :: u16
    and coaddress :: ipaddr and ID :: u64 and c :: u16
  defines "d \<equiv> upd16 26 c (regreq_bytes m sequence dest lifetime coaddress port ID)"
  shows "length d = 52"
    and "get_ip d 0 =
       \<lparr> ip_v = 4, ip_hl = 5, ip_tos = 0, ip_len = htons 52, ip_id = get16 d IP_ID, ip_off = 0,
         ip_ttl = 64, ip_p = 17, ip_sum = get16 d IP_SUM, ip_src = mn_home_address m, ip_dst = dest \<rparr>"
    and "get_udp d 20 =
       \<lparr> uh_sport = htons port, uh_dport = htons 434, uh_ulen = htons 32, uh_sum = get16 d 26 \<rparr>"
    and "get_regreq d 28 =
       \<lparr> rq_type = 1, rq_flags = 0, rq_lifetime = htons lifetime, rq_home_address = mn_home_address m,
         rq_home_agent = mn_home_agent m, rq_care_of_address = coaddress, rq_identification = ID \<rparr>"
  by (simp_all add: d_def regreq_bytes_def regreq_ip_bytes_def mem_simps get_ip_0 get_udp_def get_regreq_def)

lemma regreq_bytes_cksum:
  "ip_cksum_ok (regreq_bytes m sequence dest lifetime coaddress port ID) 0"
  using ip_cksum_fill [of 0 "regreq_ip_bytes m sequence dest"]
  by (simp add: regreq_bytes_def regreq_ip_bytes_def mem_simps)

lemma regreq_fill_result:
  obtains f where "regreq_fill m sequence dest lifetime coaddress port ID 52 (zeros 52) = Some f"
    and "regreq_message_ok m dest lifetime coaddress port ID f"
proof -
  let ?d = "regreq_bytes m sequence dest lifetime coaddress port ID"
  have "ip_hl_of (get8 ?d 0) = 5" "length ?d = 52" "get16 ?d 26 = 0"
    by (simp_all add: regreq_bytes_def regreq_ip_bytes_def mem_simps)
  then obtain c where c: "transport_cksum ?d 0 20 32 = Some c"
      "transport_cksum (upd16 26 c ?d) 0 20 32 = Some 0"
    using udp_cksum_fill [of ?d 0 32] by auto
  have "regreq_fill m sequence dest lifetime coaddress port ID 52 (zeros 52) = Some (upd16 26 c ?d)"
    using c(1) by (simp add: regreq_fill_def regreq_bytes_def regreq_ip_bytes_def mem_simps Let_def)
  moreover have "regreq_message_ok m dest lifetime coaddress port ID (upd16 26 c ?d)"
    using c(2) regreq_bytes_cksum regreq_bytes_fields
    by (simp add: regreq_message_ok_def mem_simps del: One_nat_def)
  ultimately show ?thesis by (rule that)
qed

definition new_request :: "ipaddr \<Rightarrow> ipaddr \<Rightarrow> u32 \<Rightarrow> u16 \<Rightarrow> nat \<Rightarrow> request" where
  "new_request dest coaddress ident lifetime r =
     \<lparr> req_dest = dest, req_coaddress = coaddress, req_id = ident, req_lt = lifetime,
       rem_lt = lifetime, req_port = of_nat (r mod 65535) \<rparr>"

lemma regreq_make_packet_result:
  assumes "alloc_ok e"
  obtains p where "regreq_make_packet e sub1 sub2 r dest lifetime coaddress s m =
      Some (m\<lparr> mn_pending := vec_push_back id True (new_request dest coaddress sub1 lifetime r) (mn_pending m) \<rparr>, Some p)"
    and "regreq_message_ok m dest lifetime coaddress (of_nat (r mod 65535)) (le64 sub1 sub2) (pdata p)"
    and "dst_ip_anno p = dest" and "headroom p = 18" and "\<not> pshared p"
proof -
  let ?m = "m\<lparr> mn_pending := vec_push_back id True (new_request dest coaddress sub1 lifetime r) (mn_pending m) \<rparr>"
  obtain q where q: "pkt_make e 18 None 52 0 = Some q" "headroom q = 18" "\<not> pshared q"
    by (rule pkt_make_Some [OF assms(1)])
  obtain f where f: "regreq_fill ?m (rr_sequence s) dest lifetime coaddress (of_nat (r mod 65535))
      (le64 sub1 sub2) 52 (zeros 52) = Some f"
    and ok: "regreq_message_ok ?m dest lifetime coaddress (of_nat (r mod 65535)) (le64 sub1 sub2) f"
    by (rule regreq_fill_result)
  have "regreq_make_packet e sub1 sub2 r dest lifetime coaddress s m =
      Some (?m, Some (q\<lparr> pdata := f, dst_ip_anno := dest \<rparr>))"
    using assms q f by (simp add: regreq_make_packet_def Let_def new_request_def)
  then show ?thesis using ok q that by (simp add: regreq_message_ok_def)
qed

text \<open>C14: \<^verbatim>\<open>RegReq::make_packet\<close> produces a well-formed registration request (verifying IP and UDP
  checksums, port 434, the node's home address and home agent, the given care-of address and
  lifetime) and records exactly this request, with the same identification and source port,
  at the end of the pending list.\<close>

theorem regreq_make_packet_wellformed:
  assumes "alloc_ok e"
  shows "\<exists>p m'. regreq_make_packet e sub1 sub2 r dest lifetime coaddress s m = Some (m', Some p) \<and>
    regreq_message_ok m dest lifetime coaddress (of_nat (r mod 65535)) (le64 sub1 sub2) (pdata p) \<and>
    dst_ip_anno p = dest \<and>
    vec_elems (mn_pending m') = vec_elems (mn_pending m) @
      [new_request dest coaddress sub1 lifetime r] \<and>
    m'\<lparr> mn_pending := mn_pending m \<rparr> = m"
proof -
  obtain p where "regreq_make_packet e sub1 sub2 r dest lifetime coaddress s m =
      Some (m\<lparr> mn_pending := vec_push_back id True (new_request dest coaddress sub1 lifetime r)
        (mn_pending m) \<rparr>, Some p)"
    "regreq_message_ok m dest lifetime coaddress (of_nat (r mod 65535)) (le64 sub1 sub2) (pdata p)"
    "dst_ip_anno p = dest"
    by (rule regreq_make_packet_result [OF assms])
  then show ?thesis by (simp add: vec.elems_append)
qed

section \<open>Ageing of the pending requests\<close>

lemma map_filter_compose:
  "List.map_filter g (List.map_filter f xs) = List.map_filter (\<lambda>x. f x \<bind> g) xs"
  by (induction xs) (auto simp: List.map_filter_simps split: option.splits)

lemma map_filter_Some [simp]: "List.map_filter Some xs = xs"
  by (induction xs) (auto simp: List.map_filter_simps)

primrec regreq_ticks :: "nat \<Rightarrow> regreq \<times> mninfo \<Rightarrow> regreq \<times> mninfo" where
  "regreq_ticks 0 st = st"
| "regreq_ticks (Suc n) st = (case regreq_ticks n st of (s, m) \<Rightarrow> regreq_run_timer s m)"

definition age_request :: "nat \<Rightarrow> request \<Rightarrow> request option" where
  "age_request n q =
     (if n \<le> unat (ntohs (rem_lt q)) then Some (q\<lparr> rem_lt := htons (ntohs (rem_lt q) - of_nat n) \<rparr>)
      else None)"

lemma age_request_Suc:
  "age_request n q \<bind> (\<lambda>q. let lt = ntohs (rem_lt q)
     in if lt > 0 then Some (q\<lparr> rem_lt := htons (lt - 1) \<rparr>) else None) = age_request (Suc n) q"
proof (cases "n \<le> unat (ntohs (rem_lt q))")
  case True
  let ?w = "ntohs (rem_lt q)"
  have n: "n < 2 ^ LENGTH(16)" using le_less_trans [OF True unat_less_65536] by simp
  then have "(of_nat n :: u16) \<le> ?w" using True by (simp add: word_le_nat_alt unat_word_of_nat)
  then have "unat (?w - of_nat n) = unat ?w - n"
    using n by (simp add: unat_sub unat_word_of_nat)
  then have "?w - of_nat n > 0 \<longleftrightarrow> n < unat ?w"
    using True by (simp add: word_less_nat_alt)
  then show ?thesis
    using True by (simp add: age_request_def Let_def algebra_simps Suc_le_eq)
qed (simp add: age_request_def)

text \<open>The pending list ages as a whole: after \<open>n\<close> events of \<^verbatim>\<open>RegReq\<close>'s timer, exactly the
  requests whose counter was at least \<open>n\<close> are left, in their order, each counted down by \<open>n\<close>;
  the loop that erases while it iterates skips none and touches nothing else. The counter is
  the field \<^verbatim>\<open>rem_lt\<close> with its bytes swapped.\<close>

theorem regreq_ticks_ages_pending:
  "vec_elems (mn_pending (snd (regreq_ticks n (s, m)))) =
     List.map_filter (age_request n) (vec_elems (mn_pending m)) \<and>
   (snd (regreq_ticks n (s, m)))\<lparr> mn_pending := mn_pending m \<rparr> = m"
proof (induction n)
  case 0
  have "List.map_filter (age_request 0) xs = xs" for xs
    by (induction xs) (auto simp: List.map_filter_simps age_request_def)
  then show ?case by simp
next
  case (Suc n)
  obtain s' m' where n: "regreq_ticks n (s, m) = (s', m')" by fastforce
  have "vec_elems (mn_pending (snd (regreq_ticks (Suc n) (s, m)))) =
      List.map_filter (\<lambda>q. let lt = ntohs (rem_lt q)
        in if lt > 0 then Some (q\<lparr> rem_lt := htons (lt - 1) \<rparr>) else None) (vec_elems (mn_pending m'))"
    by (simp add: n regreq_run_timer_def vec.elems_sweep)
  also have "\<dots> = List.map_filter (age_request (Suc n)) (vec_elems (mn_pending m))"
    using Suc by (simp add: n map_filter_compose age_request_Suc)
  finally show ?case using Suc by (simp add: n regreq_run_timer_def)
qed

section \<open>Replies\<close>

text \<open>The request a reply answers: it comes from the agent the request was sent to, and to the
  port it was sent from.\<close>

definition reply_for :: "bytes \<Rightarrow> request \<Rightarrow> bool" where
  "reply_for d q \<longleftrightarrow> req_dest q = get32 d IP_SRC \<and> req_port q = ntohs (get16 d 22)"

lemma regnode_find_index:
  "24 \<le> length d \<Longrightarrow> regnode_find d i qs = Some (index_from (reply_for d) i qs)"
  by (induction d i qs rule: regnode_find.induct) (simp_all add: mem_simps reply_for_def)

lemma pending_erase_result:
  assumes "i < vec_size (mn_pending m)"
  obtains v where "pending_erase i m = Some (m\<lparr> mn_pending := v \<rparr>)"
    and "vec_elems v = take i (vec_elems (mn_pending m)) @ drop (i + 1) (vec_elems (mn_pending m))"
  using vec_erase_elems [OF assms, of id] by (auto simp: pending_erase_def)

text \<open>The effect of an accepting reply (code 0 or 1) on the shared state, apart from the removal
  of the request.\<close>

definition registered :: "bytes \<Rightarrow> request \<Rightarrow> regnode \<times> mninfo \<Rightarrow> regnode \<times> mninfo" where
  "registered d q st =
     (case st of (s, m) \<Rightarrow>
        if get32 d IP_SRC \<noteq> mn_gateway m
        then (s\<lparr> rn_timer := Some 1000 \<rparr>,
              m\<lparr> mn_connected := True, mn_foreign_agent := req_dest q,
                 mn_lifetime := rem_lt q - (req_lt q - ntohs (get16 d (28 + RP_LIFETIME))) \<rparr>)
        else (s\<lparr> rn_timer := None \<rparr>, m))"

lemma registered_pending [simp]:
  "mn_pending (snd (registered d q (s, m))) = mn_pending m"
  by (simp add: registered_def)

lemma regnode_push_cases:
  assumes "48 \<le> plen p" and "ip_hl_of (get8 (pdata p) 0) = 5" and "plen p \<le> 65535"
  shows "\<exists>ok. udp_cksum_ok (pdata p) 0 20 (plen p - 20) = Some ok \<and>
    (case vec_index (reply_for (pdata p)) (mn_pending m) of
       None \<Rightarrow> regnode_push p (s, m) = Some (s, m)
     | Some i \<Rightarrow>
         let q = vec_elems (mn_pending m) ! i; code = get8 (pdata p) (28 + RP_CODE)
         in if ok \<and> lo32 (get64 (pdata p) (28 + RP_ID)) \<noteq> req_id q
            then regnode_push p (s, m) = Some (s, m)
            else (\<exists>v. vec_elems v = take i (vec_elems (mn_pending m)) @ drop (i + 1) (vec_elems (mn_pending m)) \<and>
              regnode_push p (s, m) =
                Some (if ok \<and> (code = 0 \<or> code = 1)
                      then (fst (registered (pdata p) q (s, m)),
                            (snd (registered (pdata p) q (s, m)))\<lparr> mn_pending := v \<rparr>)
                      else (s, m\<lparr> mn_pending := v \<rparr>))))"
proof -
  obtain ok where ok: "udp_cksum_ok (pdata p) 0 20 (plen p - 20) = Some ok"
    by (rule udp_cksum_ok_defined [OF assms(2), of 20 "plen p - 20"]) (use assms in linarith)+
  show ?thesis
  proof (cases "vec_index (reply_for (pdata p)) (mn_pending m)")
    case None
    then show ?thesis
      using ok assms(1) by (simp add: regnode_push_def regnode_find_index vec_index_def)
  next
    case (Some i)
    then have i: "i < vec_size (mn_pending m)" by (simp add: vec_index_Some)
    obtain v where v: "\<And>m'. mn_pending m' = mn_pending m \<Longrightarrow> pending_erase i m' = Some (m'\<lparr> mn_pending := v \<rparr>)"
      and elems: "vec_elems v = take i (vec_elems (mn_pending m)) @ drop (i + 1) (vec_elems (mn_pending m))"
      using vec_erase_elems [OF i, of id] by (auto simp: pending_erase_def)
    have "regnode_find (pdata p) 0 (vec_elems (mn_pending m)) = Some (Some i)"
      using Some assms(1) by (simp add: regnode_find_index vec_index_def)
    then show ?thesis
      using ok assms(1) i v Some elems
      by (auto simp: regnode_push_def vec_at_def mem_simps Let_def registered_def)
  qed
qed

text \<open>C13: \<^verbatim>\<open>RegNode::push\<close>, on every reply with a 20-byte IP header: without a matching pending
  request nothing changes; a wrong UDP checksum removes the request; a foreign identification
  changes nothing; a denial removes the request; an acceptance removes it and, unless it is the
  gateway that answers, marks the node as registered with the agent the request went to.\<close>

theorem regnode_push_spec:
  assumes "48 \<le> plen p" and "ip_hl_of (get8 (pdata p) 0) = 5" and "plen p \<le> 65535"
  shows "\<exists>ok. udp_cksum_ok (pdata p) 0 20 (plen p - 20) = Some ok \<and>
    (case vec_index (reply_for (pdata p)) (mn_pending m) of
       None \<Rightarrow> regnode_push p (s, m) = Some (s, m)
     | Some i \<Rightarrow>
         let q = vec_elems (mn_pending m) ! i; code = get8 (pdata p) (28 + RP_CODE)
         in if ok \<and> lo32 (get64 (pdata p) (28 + RP_ID)) \<noteq> req_id q
            then regnode_push p (s, m) = Some (s, m)
            else (\<exists>v. vec_elems v = take i (vec_elems (mn_pending m)) @ drop (i + 1) (vec_elems (mn_pending m)) \<and>
              regnode_push p (s, m) =
                Some (if ok \<and> (code = 0 \<or> code = 1)
                      then (fst (registered (pdata p) q (s, m)),
                            (snd (registered (pdata p) q (s, m)))\<lparr> mn_pending := v \<rparr>)
                      else (s, m\<lparr> mn_pending := v \<rparr>))))"
  by (rule regnode_push_cases [OF assms])

section \<open>The requester\<close>

lemma regreq_make_packet_total:
  "\<exists>v p. regreq_make_packet e sub1 sub2 r dest lifetime coaddress s m = Some (m\<lparr> mn_pending := v \<rparr>, p)"
proof (cases "alloc_ok e")
  case True
  then show ?thesis by (metis regreq_make_packet_result)
next
  case False
  then show ?thesis
    by (simp add: regreq_make_packet_def Let_def pkt_make_def alloc_data_def) blast
qed

lemma regreq_make_packet_effect:
  "regreq_make_packet e sub1 sub2 r dest lifetime coaddress s m = Some (m', p) \<Longrightarrow>
    \<exists>v. m' = m\<lparr> mn_pending := v \<rparr>"
  using regreq_make_packet_total [of e sub1 sub2 r dest lifetime coaddress s m] by auto

lemma regreq_push_effect:
  "regreq_push e sub1 sub2 r s q m = Some (m', out) \<Longrightarrow>
    \<exists>v. m' = m\<lparr> mn_pending := v \<rparr> \<or>
        m' = m\<lparr> mn_foreign_agent := mn_gateway m, mn_lifetime := 0, mn_pending := v \<rparr>"
  by (auto simp: regreq_push_def Let_def split: if_splits Option.bind_splits
      dest!: regreq_make_packet_effect intro: exI [of _ "mn_pending m"])

lemma regreq_push_total:
  assumes "48 \<le> plen q"
  shows "\<exists>m' out. regreq_push e sub1 sub2 r s q m = Some (m', out)"
proof (cases "get32 (pdata q) IP_SRC = mn_gateway m")
  case True
  obtain v p where "regreq_make_packet e sub1 sub2 r (mn_gateway m) 0 (mn_home_address m) s
      (m\<lparr> mn_foreign_agent := mn_gateway m, mn_lifetime := 0 \<rparr>) =
      Some (m\<lparr> mn_foreign_agent := mn_gateway m, mn_lifetime := 0 \<rparr>\<lparr> mn_pending := v \<rparr>, p)"
    using regreq_make_packet_total by blast
  then show ?thesis using True assms by (simp add: regreq_push_def mem_simps Let_def)
next
  case False
  obtain v p where "regreq_make_packet e sub1 sub2 r (get32 (pdata q) 12)
      (htons (get16 (pdata q) 40)) (get32 (pdata q) 44) s m = Some (m\<lparr> mn_pending := v \<rparr>, p)"
    using regreq_make_packet_total by blast
  then show ?thesis using False assms by (simp add: regreq_push_def mem_simps Let_def)
qed

text \<open>\<^verbatim>\<open>RegReq::push\<close> on an advertisement of a foreign agent, and of the home agent when the node
  comes home.\<close>

lemma regreq_push_foreign:
  assumes "alloc_ok e" and "48 \<le> plen q" and "get32 (pdata q) IP_SRC = asrc" and "asrc \<noteq> mn_gateway m"
    and "bit (get8 (pdata q) (36 + AHE_FLAGS)) 4"
  defines "coaddr \<equiv> get32 (pdata q) (36 + AHE_ADDRESS)"
  defines "lt \<equiv> ntohs (get16 (pdata q) (36 + AHE_LIFETIME))"
  obtains p where "regreq_push e sub1 sub2 r s q m =
      Some (m\<lparr> mn_pending := vec_push_back id True (new_request asrc coaddr sub1 lt r) (mn_pending m) \<rparr>, [(0, p)])"
    and "regreq_message_ok m asrc lt coaddr (of_nat (r mod 65535)) (le64 sub1 sub2) (pdata p)"
    and "dst_ip_anno p = asrc" and "headroom p = 18" and "\<not> pshared p"
proof -
  obtain p where "regreq_make_packet e sub1 sub2 r asrc lt coaddr s m =
      Some (m\<lparr> mn_pending := vec_push_back id True (new_request asrc coaddr sub1 lt r) (mn_pending m) \<rparr>, Some p)"
    "regreq_message_ok m asrc lt coaddr (of_nat (r mod 65535)) (le64 sub1 sub2) (pdata p)"
    "dst_ip_anno p = asrc" "headroom p = 18" "\<not> pshared p"
    by (rule regreq_make_packet_result [OF assms(1)])
  then show ?thesis
    using assms that by (simp add: regreq_push_def mem_simps Let_def ntohs_eq_htons)
qed

lemma regreq_push_home:
  assumes "alloc_ok e" and "48 \<le> plen q" and "get32 (pdata q) IP_SRC = mn_gateway m"
    and "bit (get8 (pdata q) (36 + AHE_FLAGS)) 5" and "mn_foreign_agent m \<noteq> mn_gateway m"
  obtains p m' where "regreq_push e sub1 sub2 r s q m = Some (m', [(0, p)])"
    and "m' = m\<lparr> mn_foreign_agent := mn_gateway m, mn_lifetime := 0,
      mn_pending := vec_push_back id True (new_request (mn_gateway m) (mn_home_address m) sub1 0 r) (mn_pending m) \<rparr>"
    and "regreq_message_ok m (mn_gateway m) 0 (mn_home_address m) (of_nat (r mod 65535)) (le64 sub1 sub2) (pdata p)"
    and "dst_ip_anno p = mn_gateway m"
proof -
  let ?m = "m\<lparr> mn_foreign_agent := mn_gateway m, mn_lifetime := 0 \<rparr>"
  obtain p where "regreq_make_packet e sub1 sub2 r (mn_gateway m) 0 (mn_home_address m) s ?m =
      Some (?m\<lparr> mn_pending := vec_push_back id True (new_request (mn_gateway m) (mn_home_address m) sub1 0 r)
        (mn_pending ?m) \<rparr>, Some p)"
    "regreq_message_ok ?m (mn_gateway m) 0 (mn_home_address m) (of_nat (r mod 65535)) (le64 sub1 sub2) (pdata p)"
    "dst_ip_anno p = mn_gateway m"
    by (rule regreq_make_packet_result [OF assms(1)])
  then show ?thesis
    using assms that by (simp add: regreq_push_def mem_simps Let_def regreq_message_ok_def)
qed

text \<open>What \<^verbatim>\<open>RegNode\<close>'s timer needs from the element behind it: it always returns on a stored
  advertisement, and it does not touch the advertisements, extend the registration or
  connect the node. The argument \<open>clk\<close> stands for the clock and random values it reads.\<close>

locale requester =
  fixes request :: "'c \<Rightarrow> packet \<Rightarrow> mninfo \<Rightarrow> (mninfo \<times> emission list) option"
  assumes request_total: "48 \<le> plen p \<Longrightarrow> \<exists>m' out. request clk p m = Some (m', out)"
    and request_advertisements: "request clk p m = Some (m', out) \<Longrightarrow> mn_advertisements m' = mn_advertisements m"
    and request_connected: "request clk p m = Some (m', out) \<Longrightarrow> mn_connected m' = mn_connected m"
    and request_lifetime: "request clk p m = Some (m', out) \<Longrightarrow> unat (mn_lifetime m') \<le> unat (mn_lifetime m)"

definition adverts_readable :: "mninfo \<Rightarrow> bool" where
  "adverts_readable m \<longleftrightarrow> (\<forall>a p. adv_find m a = Some p \<longrightarrow> 48 \<le> plen p)"

primrec regnode_ticks ::
  "env \<Rightarrow> ('c \<Rightarrow> packet \<Rightarrow> mninfo \<Rightarrow> (mninfo \<times> emission list) option) \<Rightarrow> 'c list \<Rightarrow> regnode \<times> mninfo \<Rightarrow>
     ((regnode \<times> mninfo) \<times> emission list) option" where
  "regnode_ticks e request [] st = Some (st, [])"
| "regnode_ticks e request (clk # clks) st =
     do {
       (st, out) \<leftarrow> regnode_run_timer e (request clk) st;
       (st, outs) \<leftarrow> regnode_ticks e request clks st;
       Some (st, out @ outs)
     }"

context requester
begin

lemma tick:
  assumes "alloc_ok e" and "adverts_readable m"
  obtains s' m' out where "regnode_run_timer e (request clk) (s, m) = Some ((s', m'), out)"
    and "adverts_readable m'" and "rn_timer s' = Some 1000"
    and "unat (mn_lifetime m') \<le> unat (mn_lifetime m) - 1"
    and "mn_connected m' = (mn_connected m \<and> (mn_lifetime m = 0 \<or> mn_lifetime m' \<noteq> 0))"
proof (cases "mn_lifetime m > 0")
  case False
  then have "mn_lifetime m = 0" by (simp add: word_gt_0)
  then show ?thesis
    using assms that by (simp add: regnode_run_timer_def)
next
  case True
  let ?m = "m\<lparr> mn_lifetime := mn_lifetime m - 1 \<rparr>"
  have lt: "unat (mn_lifetime ?m) = unat (mn_lifetime m) - 1" using True by (simp add: unat_sub_one)
  have "\<exists>m1 out. (if ucast (mn_lifetime ?m) = rn_registrationAlmostOver s then
        (case adv_find ?m (mn_foreign_agent ?m) of None \<Rightarrow> Some (?m, [])
         | Some p \<Rightarrow> do { (c, p) \<leftarrow> pkt_clone e p; request clk c ?m })
      else Some (?m, [])) = Some (m1, out) \<and> mn_advertisements m1 = mn_advertisements m \<and>
      mn_connected m1 = mn_connected m \<and> unat (mn_lifetime m1) \<le> unat (mn_lifetime m) - 1"
  proof (cases "adv_find m (mn_foreign_agent m)")
    case (Some p)
    then have "48 \<le> plen (p\<lparr> pshared := True \<rparr>)" using assms(2) by (auto simp: adverts_readable_def)
    then obtain m1 out where r: "request clk (p\<lparr> pshared := True \<rparr>) ?m = Some (m1, out)"
      using request_total by blast
    show ?thesis
      using r Some assms(1) lt request_advertisements [OF r] request_connected [OF r] request_lifetime [OF r]
      by (simp add: pkt_clone_def)
  qed (use lt in simp)
  then obtain m1 out where m1: "(if ucast (mn_lifetime ?m) = rn_registrationAlmostOver s then
        (case adv_find ?m (mn_foreign_agent ?m) of None \<Rightarrow> Some (?m, [])
         | Some p \<Rightarrow> do { (c, p) \<leftarrow> pkt_clone e p; request clk c ?m })
      else Some (?m, [])) = Some (m1, out)" "mn_advertisements m1 = mn_advertisements m"
      "mn_connected m1 = mn_connected m" "unat (mn_lifetime m1) \<le> unat (mn_lifetime m) - 1"
    by blast
  moreover have "mn_lifetime m \<noteq> 0" using True by auto
  ultimately show ?thesis
    using True assms that [of "s\<lparr> rn_timer := Some 1000 \<rparr>"
        "if mn_lifetime m1 = 0 then m1\<lparr> mn_connected := False \<rparr> else m1" out]
    by (cases "mn_lifetime m1 = 0") (simp_all add: regnode_run_timer_def Let_def adverts_readable_def)
qed

text \<open>The registration runs out: after as many ticks as the lifetime has seconds, at the
  latest, the node is not connected.\<close>

lemma expires:
  assumes "alloc_ok e"
  shows "adverts_readable m \<Longrightarrow> unat (mn_lifetime m) \<le> length clks \<Longrightarrow>
    mn_lifetime m \<noteq> 0 \<or> \<not> mn_connected m \<Longrightarrow>
    \<exists>s' m' out. regnode_ticks e request clks (s, m) = Some ((s', m'), out) \<and>
      \<not> mn_connected m' \<and> mn_lifetime m' = 0"
proof (induction clks arbitrary: s m)
  case Nil
  then show ?case by (simp add: unat_eq_zero)
next
  case (Cons clk clks)
  obtain s1 m1 out1 where t: "regnode_run_timer e (request clk) (s, m) = Some ((s1, m1), out1)"
    and a: "adverts_readable m1" and l: "unat (mn_lifetime m1) \<le> unat (mn_lifetime m) - 1"
    and c: "mn_connected m1 = (mn_connected m \<and> (mn_lifetime m = 0 \<or> mn_lifetime m1 \<noteq> 0))"
    by (rule tick [OF assms Cons.prems(1)])
  have "unat (mn_lifetime m1) \<le> length clks" using l Cons.prems(2) by simp
  moreover have "mn_lifetime m1 \<noteq> 0 \<or> \<not> mn_connected m1" using c Cons.prems(3) by blast
  ultimately obtain s' m' out where "regnode_ticks e request clks (s1, m1) = Some ((s', m'), out)"
    "\<not> mn_connected m'" "mn_lifetime m' = 0"
    using Cons.IH [OF a] by blast
  then show ?case using t by simp
qed

end

text \<open>The program's own requester meets the contract.\<close>

interpretation rq: requester "\<lambda>(sub1, sub2, r). regreq_push e sub1 sub2 r rs" for e rs
  by unfold_locales (auto simp: regreq_push_total dest!: regreq_push_effect)

theorem regreq_make_packet_wellformed_witness:
  "\<exists>p m'. regreq_make_packet env0 7 9 70000 0xFE03A8C0 100 0x0300A8C0
      \<lparr> rr_lifetime = 1800, rr_sequence = 0, rr_timer = None \<rparr> sample_mninfo = Some (m', Some p) \<and>
    regreq_message_ok sample_mninfo 0xFE03A8C0 100 0x0300A8C0 (of_nat (70000 mod 65535)) (le64 7 9) (pdata p) \<and>
    dst_ip_anno p = 0xFE03A8C0 \<and>
    vec_elems (mn_pending m') = vec_elems (mn_pending sample_mninfo) @
      [new_request 0xFE03A8C0 0x0300A8C0 7 100 70000] \<and>
    m'\<lparr> mn_pending := mn_pending sample_mninfo \<rparr> = sample_mninfo"
  by (rule regreq_make_packet_wellformed) simp

text \<open>A registration expires: when \<^verbatim>\<open>RegNode\<close>'s timer has fired as many times as the
  registration has seconds left, with the program's \<^verbatim>\<open>RegReq\<close> behind it, every event has
  returned, the remaining lifetime is 0 and the node is not connected any more.\<close>

theorem regnode_registration_expires:
  assumes "alloc_ok e" and "adverts_readable m" and "0 < mn_lifetime m"
    and "unat (mn_lifetime m) \<le> length clks"
  shows "\<exists>s' m' out. regnode_ticks e (\<lambda>(sub1, sub2, r). regreq_push e sub1 sub2 r rs) clks (s, m) =
      Some ((s', m'), out) \<and> \<not> mn_connected m' \<and> mn_lifetime m' = 0"
  using assms by (intro rq.expires) auto

theorem regnode_registration_expires_witness:
  "\<exists>s' m' out. regnode_ticks env0 (\<lambda>(sub1, sub2, r). regreq_push env0 sub1 sub2 r
        \<lparr> rr_lifetime = 1800, rr_sequence = 0, rr_timer = None \<rparr>) [(1, 2, 3), (4, 5, 6)]
      (\<lparr> rn_registrationAlmostOver = 3, rn_timer = Some 1000 \<rparr>,
       sample_mninfo\<lparr> mn_connected := True, mn_lifetime := 2 \<rparr>) =
      Some ((s', m'), out) \<and> \<not> mn_connected m' \<and> mn_lifetime m' = 0"
  by (rule regnode_registration_expires) (simp_all add: adverts_readable_def hm_find_empty)

text \<open>The registration is renewed in time: when its remaining lifetime comes down to the
  configured threshold and the advertisement of the current foreign agent is still known,
  the timer event of \<^verbatim>\<open>RegNode\<close> sends exactly one registration request, to the source of that
  advertisement and with its care-of address and lifetime.\<close>

theorem regnode_renews_registration:
  assumes "alloc_ok e" and "ucast (mn_lifetime m - 1) = rn_registrationAlmostOver s" and "0 < mn_lifetime m"
    and "adv_find m (mn_foreign_agent m) = Some a" and "48 \<le> plen a"
    and "get32 (pdata a) IP_SRC \<noteq> mn_gateway m" and "bit (get8 (pdata a) (36 + AHE_FLAGS)) 4"
  shows "\<exists>s' m' p. regnode_run_timer e (regreq_push e sub1 sub2 r rs) (s, m) = Some ((s', m'), [(0, p)]) \<and>
    regreq_message_ok m (get32 (pdata a) IP_SRC) (ntohs (get16 (pdata a) (36 + AHE_LIFETIME)))
      (get32 (pdata a) (36 + AHE_ADDRESS)) (of_nat (r mod 65535)) (le64 sub1 sub2) (pdata p) \<and>
    dst_ip_anno p = get32 (pdata a) IP_SRC"
proof -
  let ?m = "m\<lparr> mn_lifetime := mn_lifetime m - 1 \<rparr>" and ?a = "a\<lparr> pshared := True \<rparr>"
  let ?lt = "ntohs (get16 (pdata ?a) (36 + AHE_LIFETIME))" and ?co = "get32 (pdata ?a) (36 + AHE_ADDRESS)"
  obtain p where "regreq_push e sub1 sub2 r rs ?a ?m = Some (?m\<lparr> mn_pending := vec_push_back id True
      (new_request (get32 (pdata a) IP_SRC) ?co sub1 ?lt r) (mn_pending ?m) \<rparr>, [(0, p)])"
    "regreq_message_ok ?m (get32 (pdata a) IP_SRC) ?lt ?co (of_nat (r mod 65535)) (le64 sub1 sub2) (pdata p)"
    "dst_ip_anno p = get32 (pdata a) IP_SRC"
    by (rule regreq_push_foreign [of e ?a "get32 (pdata a) IP_SRC" ?m sub1 sub2 r rs]) (use assms in auto)
  then show ?thesis
    using assms by (simp add: regnode_run_timer_def Let_def pkt_clone_def regreq_message_ok_def)
qed

text \<open>The lifetime that \<^verbatim>\<open>RegNode\<close> derives for an accepted registration is wrong as soon as
  \<^verbatim>\<open>RegReq\<close>'s timer has fired once between request and reply: for a registration asked for and
  granted for 100 seconds the node then believes to be registered for 65379 seconds, because
  the timer converts the byte order of a counter that is kept in host order.\<close>

theorem regnode_lifetime_after_tick:
  assumes "vec_elems (mn_pending m) = [new_request agent co i 100 r]" and "plen p = 48"
    and "ip_hl_of (get8 (pdata p) 0) = 5" and "udp_cksum_ok (pdata p) 0 20 28 = Some True"
    and "get32 (pdata p) IP_SRC = agent" and "agent \<noteq> mn_gateway m"
    and "ntohs (get16 (pdata p) 22) = of_nat (r mod 65535)" and "lo32 (get64 (pdata p) (28 + RP_ID)) = i"
    and "get8 (pdata p) (28 + RP_CODE) = 0" and "ntohs (get16 (pdata p) (28 + RP_LIFETIME)) = 100"
  shows "\<exists>s' m'. regnode_push p (s, snd (regreq_run_timer rs m)) = Some (s', m') \<and>
    mn_connected m' \<and> mn_lifetime m' = 65379"
proof -
  let ?m = "snd (regreq_run_timer rs m)"
  have tick: "htons (ntohs 100 - 1) = (65379 :: u16)"
    by (simp add: htons_def ntohs_def le16_def lo8_def hi8_def)
  have gt: "ntohs 100 > (0 :: u16)" by (simp add: ntohs_def le16_def lo8_def hi8_def)
  have elems: "vec_elems (mn_pending ?m) = [(new_request agent co i 100 r)\<lparr> rem_lt := 65379 \<rparr>]"
    using assms(1) tick gt
    by (simp add: regreq_run_timer_def vec.elems_sweep List.map_filter_simps new_request_def)
  then have i: "vec_index (reply_for (pdata p)) (mn_pending ?m) = Some 0"
    using assms(5,7) by (simp add: vec_index_def reply_for_def new_request_def)
  have "mn_gateway ?m = mn_gateway m" by (simp add: regreq_run_timer_def)
  then show ?thesis
    using regnode_push_cases [of p s ?m] assms i elems
    by (auto simp: registered_def Let_def new_request_def)
qed

text \<open>A reply as in the theorem: to port 5, identification 77, granted for 100 seconds.\<close>

definition sample_reply :: packet where
  "sample_reply = the (pkt_make env0 18 (Some (upd64 40 77 (upd16 30 (htons 100) (upd8 28 3
     (upd16 22 (htons 5) (upd32 12 0xFE03A8C0 (upd8 9 17 (upd8 0 0x45 (zeros 48))))))))) 48 0)"

lemma sample_reply_data:
  "plen sample_reply = 48" "get8 (pdata sample_reply) 0 = 0x45" "get32 (pdata sample_reply) 12 = 0xFE03A8C0"
  "get16 (pdata sample_reply) 22 = htons 5" "get16 (pdata sample_reply) 26 = 0"
  "get8 (pdata sample_reply) 29 = 0" "get16 (pdata sample_reply) 30 = htons 100"
  "get64 (pdata sample_reply) 40 = 77"
  by (simp_all add: sample_reply_def mem_simps)

lemma sample_reply_cksum: "udp_cksum_ok (pdata sample_reply) 0 20 28 = Some True"
  by (rule udp_cksum_ok_absent) (simp_all add: sample_reply_data)

theorem regnode_lifetime_after_tick_witness:
  "\<exists>s' m'. regnode_push sample_reply (\<lparr> rn_registrationAlmostOver = 3, rn_timer = None \<rparr>,
      snd (regreq_run_timer \<lparr> rr_lifetime = 1800, rr_sequence = 0, rr_timer = None \<rparr>
        (sample_mninfo\<lparr> mn_pending := vec_push_back id True (new_request 0xFE03A8C0 0x0300A8C0 77 100 5)
          vec_empty \<rparr>))) = Some (s', m') \<and> mn_connected m' \<and> mn_lifetime m' = 65379"
proof (rule regnode_lifetime_after_tick [of _ "0xFE03A8C0" "0x0300A8C0" 77 5])
  show "lo32 (get64 (pdata sample_reply) (28 + RP_ID)) = 77"
    by (simp add: sample_reply_data lo32_def)
qed (simp_all add: sample_reply_data sample_reply_cksum vec.elems_append)

theorem regnode_push_spec_witness:
  "\<exists>v. vec_elems v = [] \<and>
     regnode_push sample_reply (\<lparr> rn_registrationAlmostOver = 3, rn_timer = None \<rparr>,
        sample_mninfo\<lparr> mn_pending := vec_push_back id True (new_request 0xFE03A8C0 0x0300A8C0 77 100 5) vec_empty \<rparr>) =
     Some (\<lparr> rn_registrationAlmostOver = 3, rn_timer = Some 1000 \<rparr>,
       sample_mninfo\<lparr> mn_connected := True, mn_foreign_agent := 0xFE03A8C0, mn_lifetime := 100, mn_pending := v \<rparr>)"
proof -
  let ?m = "sample_mninfo\<lparr> mn_pending := vec_push_back id True (new_request 0xFE03A8C0 0x0300A8C0 77 100 5) vec_empty \<rparr>"
  have i: "vec_index (reply_for (pdata sample_reply)) (mn_pending ?m) = Some 0"
    by (simp add: vec_index_def vec.elems_append reply_for_def new_request_def sample_reply_data)
  have "lo32 77 = 77" by (simp add: lo32_def)
  then show ?thesis
    using regnode_push_spec [of sample_reply "\<lparr> rn_registrationAlmostOver = 3, rn_timer = None \<rparr>" ?m] i
    by (auto simp: sample_reply_data sample_reply_cksum vec.elems_append registered_def new_request_def Let_def)
qed

end
