(* ===== verification/MIP_AgentTable.thy ===== *)
theory MIP_AgentTable
  imports MIP_MobileNode
begin

unbundle bit_operations_syntax

text \<open>
  The table of agents that \<^verbatim>\<open>ProcessAdvertisements\<close> keeps: its invariant, that every handler
  preserves it, and what becomes of an advertisement. The table (a hash table) and the timers
  (a vector) are two containers that must agree: the proofs use only the contracts
  \<open>lookup_table\<close> and \<open>dynamic_array\<close>.
\<close>

section \<open>The timers\<close>

abbreviation timer_keys :: "processadv \<Rightarrow> ipaddr list" where
  "timer_keys s \<equiv> map fst (vec_elems (pa_timers s))"

lemma fst_agent_timer_copy [simp]: "fst \<circ> agent_timer_copy = fst"
  by (simp add: fun_eq_iff agent_timer_copy_def)

lemma index_remove1:
  "index_from (\<lambda>t. fst t = a) i ts = Some (i + j) \<Longrightarrow>
    map fst (take j ts) @ map fst (drop (j + 1) ts) = remove1 a (map fst ts)"
proof (induction ts arbitrary: i j)
  case (Cons t ts)
  show ?case
  proof (cases "fst t = a")
    case True
    then show ?thesis using Cons.prems by simp
  next
    case False
    then have idx: "index_from (\<lambda>t. fst t = a) (i + 1) ts = Some (i + j)" using Cons.prems by simp
    then obtain l where "j = Suc l" by (auto simp: index_from_Some)
    then show ?thesis using idx False Cons.IH [of "i + 1" l] by simp
  qed
qed simp

lemma pa_erase_timer_result:
  obtains w where "pa_erase_timer a v = Some w"
    and "map fst (vec_elems w) = remove1 a (map fst (vec_elems v))"
proof (cases "vec_index (\<lambda>t. fst t = a) v")
  case None
  then have "a \<notin> set (map fst (vec_elems v))" by (auto simp: vec_index_None)
  then show ?thesis using None that by (simp add: pa_erase_timer_def remove1_idem)
next
  case (Some i)
  then have i: "i < vec_size v" by (simp add: vec_index_Some)
  obtain w where w: "vec_erase agent_timer_copy i v = Some w"
    "vec_elems w = take i (vec_elems v) @ map agent_timer_copy (drop (i + 1) (vec_elems v))"
    using vec_erase_elems [OF i] by blast
  then have "map fst (vec_elems w) = remove1 a (map fst (vec_elems v))"
    using index_remove1 [of a 0 "vec_elems v" i] Some by (simp add: vec_index_def)
  then show ?thesis using w(1) Some that by (simp add: pa_erase_timer_def)
qed

lemma pa_start_timer_result:
  assumes "alloc_ok e"
  obtains w where "pa_start_timer e a v = Some w"
    and "map fst (vec_elems w) = map fst (vec_elems v) @ [a]" and "last (vec_elems w) = (a, Some 1000)"
proof -
  let ?v = "vec_push_back agent_timer_copy True (a, None) v"
  have es: "vec_elems ?v = (if vec_size v < vec_capacity v then vec_elems v
      else map agent_timer_copy (vec_elems v)) @ [(a, None)]"
    by (auto simp: vec_push_back_def vec_fill_back_def vec_reserve_def Let_def agent_timer_copy_def)
  then have "length (vec_elems ?v) = Suc (length (vec_elems v))" by simp
  then show ?thesis
    using assms es
    by (intro that [of "?v\<lparr> vec_elems := butlast (vec_elems ?v) @ [(a, Some 1000)] \<rparr>"])
      (auto simp: pa_start_timer_def vec_back_def vec_at_def vec_set_def vec_size_def nth_append
        list_update_append butlast_append)
qed

section \<open>The invariant\<close>

text \<open>A stored advertisement: an agent advertisement of the agent it is filed under, from an
  agent that is not busy.\<close>

definition advert_ok :: "ipaddr \<Rightarrow> packet \<Rightarrow> bool" where
  "advert_ok a p \<longleftrightarrow>
     48 \<le> plen p \<and> get8 (pdata p) IP_P = 1 \<and> get8 (pdata p) (20 + AH_TYPE) = 9 \<and>
     get8 (pdata p) (36 + AHE_TYPE) = 16 \<and> get32 (pdata p) (20 + AH_ADDRESS) = a \<and>
     \<not> bit (get8 (pdata p) (36 + AHE_FLAGS)) 6"

definition pa_inv :: "mninfo \<times> processadv \<Rightarrow> bool" where
  "pa_inv st \<longleftrightarrow>
     adv_table_inv (fst st) \<and> distinct (timer_keys (snd st)) \<and>
     dom (adv_find (fst st)) = set (timer_keys (snd st)) \<and>
     (\<forall>a p. adv_find (fst st) a = Some p \<longrightarrow> advert_ok a p)"

lemma advert_ok_shared [simp]: "advert_ok a (p\<lparr> pshared := b \<rparr>) = advert_ok a p"
  by (simp add: advert_ok_def)

lemma advert_ok_lifetime: "advert_ok a p \<Longrightarrow> advert_ok a (p\<lparr> pdata := upd16 26 l (pdata p) \<rparr>)"
  by (simp add: advert_ok_def mem_simps)

lemma pa_forget_result:
  assumes "pa_inv (m, s)"
  obtains lsn m' s' where "pa_forget a m s = Some (lsn, m', s')"
    and "lsn = (case adv_find m a of None \<Rightarrow> - 1 | Some p \<Rightarrow> get16 (pdata p) (36 + AHE_SEQ))"
    and "adv_find m' = (adv_find m)(a := None)" and "adv_table_inv m'"
    and "timer_keys s' = remove1 a (timer_keys s)" and "pa_latestRegAttempt s' = pa_latestRegAttempt s"
    and "m'\<lparr> mn_advertisements := mn_advertisements m \<rparr> = m"
proof (cases "adv_find m a")
  case None
  then have "a \<notin> set (timer_keys s)" using assms by (metis domIff fst_conv pa_inv_def snd_conv)
  then show ?thesis
    using None assms that [of "- 1" m s]
    by (simp add: pa_forget_def adv_find_pair pa_inv_def remove1_idem fun_upd_idem)
next
  case (Some p)
  obtain w where w: "pa_erase_timer a (pa_timers s) = Some w" "map fst (vec_elems w) = remove1 a (timer_keys s)"
    by (rule pa_erase_timer_result)
  have "48 \<le> plen p" and inv: "adv_table_inv m" using Some assms by (auto simp: pa_inv_def advert_ok_def)
  then have "pa_forget a m s = Some (get16 (pdata p) 38, adv_erase a m, s\<lparr> pa_timers := w \<rparr>)"
    using Some w by (simp add: pa_forget_def adv_find_pair mem_simps)
  then show ?thesis
    using Some w adv_find_erase [OF inv, of a]
    by (intro that [of "get16 (pdata p) 38" "adv_erase a m" "s\<lparr> pa_timers := w \<rparr>"]) simp_all
qed

lemma pa_store_result:
  assumes "alloc_ok e" and "adv_table_inv m"
  obtains m' s' q where "pa_store e now attempt a packet m s =
      Some ((m', s'), if attempt then [(1, packet\<lparr> pshared := True \<rparr>)] else [])"
    and "adv_find m' = (adv_find m)(a \<mapsto> q)" and "adv_table_inv m'" and "pdata q = pdata packet"
    and "timer_keys s' = timer_keys s @ [a]" and "last (vec_elems (pa_timers s')) = (a, Some 1000)"
    and "pa_latestRegAttempt s' = (if attempt then now else pa_latestRegAttempt s)"
    and "m'\<lparr> mn_advertisements := mn_advertisements m \<rparr> = m"
proof -
  obtain w where "pa_start_timer e a (pa_timers s) = Some w"
    "map fst (vec_elems w) = timer_keys s @ [a]" "last (vec_elems w) = (a, Some 1000)"
    by (rule pa_start_timer_result [OF assms(1)])
  then show ?thesis
    using assms adv_find_insert [OF assms(2,1)]
      that [of "adv_insert e a (packet\<lparr> pshared := True \<rparr>) m"
        "s\<lparr> pa_latestRegAttempt := now, pa_timers := w \<rparr>" "packet\<lparr> pshared := True \<rparr>"]
      that [of "adv_insert e a packet m" "s\<lparr> pa_timers := w \<rparr>" packet]
    by (cases attempt) (simp_all add: pa_store_def pkt_clone_def)
qed

text \<open>The handlers change nothing of the shared state but the table.\<close>

lemma frame_trans:
  "m2\<lparr> mn_advertisements := t1 \<rparr> = m1 \<Longrightarrow> m1\<lparr> mn_advertisements := t \<rparr> = m \<Longrightarrow>
    m2\<lparr> mn_advertisements := t \<rparr> = m"
  by auto

lemma frame_connected: "m1\<lparr> mn_advertisements := t \<rparr> = m \<Longrightarrow> mn_connected m1 = mn_connected m"
  by auto

text \<open>Replacing an agent's entry keeps the two containers in step.\<close>

lemma pa_inv_replace:
  assumes "pa_inv (m, s)" and "adv_table_inv m'" and "adv_find m' = (adv_find m)(a \<mapsto> q)"
    and "timer_keys s' = remove1 a (timer_keys s) @ [a]" and "advert_ok a q"
  shows "pa_inv (m', s')"
  using assms by (auto simp: pa_inv_def set_remove1_eq split: if_splits)

lemma pa_inv_remove:
  assumes "pa_inv (m, s)" and "adv_table_inv m'" and "adv_find m' = (adv_find m)(a := None)"
    and "timer_keys s' = remove1 a (timer_keys s)"
  shows "pa_inv (m', s')"
  using assms by (auto simp: pa_inv_def set_remove1_eq distinct_remove1 split: if_splits)

section \<open>Receiving a packet\<close>

text \<open>When the node asks for a registration: while it is not registered, and when the agent's
  sequence number indicates a restart.\<close>

definition wants_registration :: "mninfo \<Rightarrow> packet \<Rightarrow> bool" where
  "wants_registration m p \<longleftrightarrow>
     \<not> mn_connected m \<or>
     (let seq_nr = get16 (pdata p) (36 + AHE_SEQ);
          lsn = (case adv_find m (get32 (pdata p) (20 + AH_ADDRESS)) of
                   None \<Rightarrow> - 1 | Some old \<Rightarrow> get16 (pdata old) (36 + AHE_SEQ))
      in seq_nr \<le> lsn \<and> seq_nr < 256)"

lemma pa_push_advert:
  assumes "alloc_ok e" and "pa_inv (m, s)" and "advert_ok a packet"
  obtains m' s' q where "pa_push e now packet (m, s) =
      Some ((m', s'), if wants_registration m packet then [(1, packet\<lparr> pshared := True \<rparr>)] else [])"
    and "adv_find m' = (adv_find m)(a \<mapsto> q)" and "pdata q = pdata packet"
    and "timer_keys s' = remove1 a (timer_keys s) @ [a]"
    and "last (vec_elems (pa_timers s')) = (a, Some 1000)" and "pa_inv (m', s')"
    and "m'\<lparr> mn_advertisements := mn_advertisements m \<rparr> = m"
proof -
  obtain lsn m1 s1 where f: "pa_forget a m s = Some (lsn, m1, s1)"
    "lsn = (case adv_find m a of None \<Rightarrow> - 1 | Some p \<Rightarrow> get16 (pdata p) (36 + AHE_SEQ))"
    "adv_find m1 = (adv_find m)(a := None)" "adv_table_inv m1" "timer_keys s1 = remove1 a (timer_keys s)"
    "m1\<lparr> mn_advertisements := mn_advertisements m \<rparr> = m"
    by (rule pa_forget_result [OF assms(2)])
  obtain m2 s2 q where st: "pa_store e now (wants_registration m packet) a packet m1 s1 =
      Some ((m2, s2), if wants_registration m packet then [(1, packet\<lparr> pshared := True \<rparr>)] else [])"
    "adv_find m2 = (adv_find m1)(a \<mapsto> q)" "adv_table_inv m2" "pdata q = pdata packet"
    "timer_keys s2 = timer_keys s1 @ [a]" "last (vec_elems (pa_timers s2)) = (a, Some 1000)"
    "m2\<lparr> mn_advertisements := mn_advertisements m1 \<rparr> = m1"
    by (rule pa_store_result [OF assms(1) f(4)])
  have c: "mn_connected m1 = mn_connected m" by (rule frame_connected [OF f(6)])
  have fld: "48 \<le> plen packet" "get8 (pdata packet) 9 = 1" "get8 (pdata packet) 20 = 9"
    "get8 (pdata packet) 36 = 16" "get32 (pdata packet) 28 = a" "\<not> bit (get8 (pdata packet) 42) 6"
    using assms(3) by (simp_all add: advert_ok_def)
  have "pa_push e now packet (m, s) =
      Some ((m2, s2), if wants_registration m packet then [(1, packet\<lparr> pshared := True \<rparr>)] else [])"
    using fld f(1,2) c st(1)
    by (cases "mn_connected m") (simp_all add: pa_push_def mem_simps Let_def wants_registration_def)
  moreover have "advert_ok a q" using assms(3) st(4) by (simp add: advert_ok_def)
  ultimately show ?thesis
    using st f pa_inv_replace [OF assms(2) st(3), of a q s2] frame_trans [OF st(7) f(6)]
    by (intro that [of m2 s2 q]) simp_all
qed

lemma pa_push_busy:
  assumes "pa_inv (m, s)" and "48 \<le> plen packet" and "get8 (pdata packet) IP_P = 1"
    and "get8 (pdata packet) (20 + AH_TYPE) = 9" and "get8 (pdata packet) (36 + AHE_TYPE) = 16"
    and "bit (get8 (pdata packet) (36 + AHE_FLAGS)) 6"
  obtains m' s' where "pa_push e now packet (m, s) = Some ((m', s'), [])"
    and "adv_find m' = (adv_find m)(get32 (pdata packet) (20 + AH_ADDRESS) := None)"
    and "pa_inv (m', s')" and "m'\<lparr> mn_advertisements := mn_advertisements m \<rparr> = m"
proof -
  let ?a = "get32 (pdata packet) (20 + AH_ADDRESS)"
  obtain lsn m1 s1 where f: "pa_forget ?a m s = Some (lsn, m1, s1)"
    "adv_find m1 = (adv_find m)(?a := None)" "adv_table_inv m1" "timer_keys s1 = remove1 ?a (timer_keys s)"
    "m1\<lparr> mn_advertisements := mn_advertisements m \<rparr> = m"
    by (rule pa_forget_result [OF assms(1)])
  have "pa_push e now packet (m, s) = Some ((m1, s1), [])"
    using assms f(1) by (simp add: pa_push_def mem_simps Let_def)
  then show ?thesis
    using f pa_inv_remove [OF assms(1) f(3,2,4)] by (intro that [of m1 s1]) simp_all
qed

lemma pa_push_other:
  assumes "48 \<le> plen packet"
    and "\<not> (get8 (pdata packet) IP_P = 1 \<and> get8 (pdata packet) (20 + AH_TYPE) = 9 \<and>
            get8 (pdata packet) (36 + AHE_TYPE) = 16)"
  shows "pa_push e now packet (m, s) = Some ((m, s), [(0, packet)])"
  using assms by (auto simp: pa_push_def mem_simps Let_def)

text \<open>C16: \<^verbatim>\<open>ProcessAdvertisements::push\<close> handles every packet of at least 48 bytes without an invalid
  memory access and keeps the agent table consistent: every stored packet is an advertisement
  of the agent it is filed under, that agent is not busy, and there is exactly one timer for
  each stored agent. Nothing but the table changes in the node's shared state.\<close>

theorem pa_push_invariant:
  assumes "alloc_ok e" and "pa_inv (m, s)" and "48 \<le> plen packet"
  shows "\<exists>m' s' out. pa_push e now packet (m, s) = Some ((m', s'), out) \<and> pa_inv (m', s') \<and>
    m'\<lparr> mn_advertisements := mn_advertisements m \<rparr> = m"
proof (cases "get8 (pdata packet) IP_P = 1 \<and> get8 (pdata packet) (20 + AH_TYPE) = 9 \<and>
            get8 (pdata packet) (36 + AHE_TYPE) = 16")
  case False
  then show ?thesis using assms pa_push_other [OF assms(3) False] by auto
next
  case True
  show ?thesis
  proof (cases "bit (get8 (pdata packet) (36 + AHE_FLAGS)) 6")
    case True
    then show ?thesis
      using pa_push_busy [OF assms(2,3), of e now] \<open>get8 (pdata packet) IP_P = 1 \<and> _\<close> by metis
  next
    case False
    then have "advert_ok (get32 (pdata packet) (20 + AH_ADDRESS)) packet"
      using True assms(3) by (simp add: advert_ok_def)
    then show ?thesis using pa_push_advert [OF assms(1,2), of _ packet now] by metis
  qed
qed

text \<open>C17: An advertisement of an agent that is not busy is filed under the router address it
  announces, where it replaces whatever was known of that agent, and only that; the agent's
  lifetime timer starts with one second. The packet goes on to the registration exactly when the
  node is not connected, or when the sequence number, read as the code reads it (in network byte
  order), is below 256 and not above the number of the advertisement that it replaces.\<close>

theorem pa_push_stores_advertisement:
  assumes "alloc_ok e" and "pa_inv (m, s)" and "advert_ok a packet"
  shows "\<exists>m' s' q. pa_push e now packet (m, s) =
      Some ((m', s'), if wants_registration m packet then [(1, packet\<lparr> pshared := True \<rparr>)] else []) \<and>
    adv_find m' = (adv_find m)(a \<mapsto> q) \<and> pdata q = pdata packet \<and>
    last (vec_elems (pa_timers s')) = (a, Some 1000)"
  using pa_push_advert [OF assms, of now] by metis

section \<open>The timers fire\<close>

lemma pa_retry_result:
  assumes "alloc_ok e" and "adv_table_inv m"
  obtains s' out where "pa_retry e now av m s = Some ((m, s'), out)" and "pa_timers s' = pa_timers s"
    and "out = [] \<or> (\<exists>a p. adv_find m a = Some p \<and> out = [(1, p\<lparr> pshared := True \<rparr>)])"
proof (cases "\<not> av \<and> \<not> hm_is_empty (mn_advertisements m) \<and> pa_latestRegAttempt s + 1000000000 < now")
  case True
  then obtain b k v c where "hm_begin (mn_advertisements m) = Some (b, (k, v) # c)" "adv_find m k = Some v"
    using hm_begin_element [OF assms(2)] by blast
  then show ?thesis
    using True assms(1)
    by (intro that [of "s\<lparr> pa_latestRegAttempt := now \<rparr>" "[(1, v\<lparr> pshared := True \<rparr>)]"])
      (auto simp: pa_retry_def pkt_clone_def)
next
  case False
  then show ?thesis by (intro that [of s "[]"]) (auto simp: pa_retry_def)
qed

lemma vec_set_keys:
  assumes "k < vec_size v"
  obtains w where "vec_set k (fst (vec_elems v ! k), t) v = Some w" and "map fst (vec_elems w) = map fst (vec_elems v)"
    and "vec_elems w ! k = (fst (vec_elems v ! k), t)" and "vec_size w = vec_size v"
proof -
  have "map fst ((vec_elems v)[k := (fst (vec_elems v ! k), t)]) = map fst (vec_elems v)"
    using assms by (simp add: map_update vec_size_def list_update_same_conv)
  then show ?thesis
    using assms that by (simp add: vec_set_def vec_size_def)
qed

lemma pa_inv_timers:
  "pa_inv (m, s) \<Longrightarrow> timer_keys s' = timer_keys s \<Longrightarrow> pa_inv (m, s')"
  by (simp add: pa_inv_def)

lemma pa_inv_write:
  assumes "pa_inv (m, s)" and "adv_find m a = Some p"
  shows "pa_inv (adv_write a (upd16 26 l (pdata p)) m, s)"
  using assms adv_find_write [of m a p "upd16 26 l (pdata p)"] advert_ok_lifetime [of a p l]
  by (auto simp: pa_inv_def split: if_splits)

text \<open>The timer of an agent whose advertisement has not expired.\<close>

lemma pa_tick_alive:
  assumes "alloc_ok e" and "pa_inv (m, s)" and "k < vec_size (pa_timers s)"
  defines "a \<equiv> fst (vec_elems (pa_timers s) ! k)"
  assumes "adv_find m a = Some p" and "get16 (pdata p) (20 + AH_LIFETIME) \<noteq> 0"
  obtains s' out where "pa_run_timer e now k (m, s) =
      Some ((adv_write a (upd16 26 (htons (ntohs (get16 (pdata p) 26) - 1)) (pdata p)) m, s'), out)"
    and "timer_keys s' = timer_keys s" and "vec_elems (pa_timers s') ! k = (a, Some 1000)"
    and "pa_inv (adv_write a (upd16 26 (htons (ntohs (get16 (pdata p) 26) - 1)) (pdata p)) m, s')"
    and "out = [] \<or> (\<exists>b q. advert_ok b q \<and> out = [(1, q)])"
proof -
  let ?l = "htons (ntohs (get16 (pdata p) 26) - 1)"
  let ?m = "adv_write a (upd16 26 ?l (pdata p)) m"
  obtain v where v: "vec_set k (a, None) (pa_timers s) = Some v" "map fst (vec_elems v) = timer_keys s"
    "vec_elems v ! k = (a, None)" "vec_size v = vec_size (pa_timers s)"
    using vec_set_keys [OF assms(3), of None] unfolding a_def by blast
  obtain w where w: "vec_set k (a, Some 1000) v = Some w" "map fst (vec_elems w) = timer_keys s"
    "vec_elems w ! k = (a, Some 1000)"
    using vec_set_keys [of k v "Some 1000"] v assms(3) by auto
  have inv: "pa_inv (?m, s)" by (rule pa_inv_write [OF assms(2,5)])
  then have "adv_table_inv ?m" by (simp add: pa_inv_def)
  then obtain s' out where r: "pa_retry e now (mn_connected m) ?m (s\<lparr> pa_timers := w \<rparr>) = Some ((?m, s'), out)"
    "pa_timers s' = w" "out = [] \<or> (\<exists>b q. adv_find ?m b = Some q \<and> out = [(1, q\<lparr> pshared := True \<rparr>)])"
    by (rule pa_retry_result [OF assms(1), where av = "mn_connected m" and now = now and s = "s\<lparr> pa_timers := w \<rparr>"])
      simp
  have p: "48 \<le> plen p" using assms(2,5) by (auto simp: pa_inv_def advert_ok_def)
  have "ntohs (get16 (pdata p) 26) > 0"
    using assms(6) by (simp add: word_gt_0)
  then have run: "pa_run_timer e now k (m, s) = Some ((?m, s'), out)"
    using p v w r(1) assms(3,5)
    by (simp add: pa_run_timer_def vec_at_def a_def adv_find_pair mem_simps Let_def)
  have "out = [] \<or> (\<exists>b q. advert_ok b q \<and> out = [(1, q)])"
    using r(3) inv unfolding pa_inv_def by (metis advert_ok_shared fst_conv)
  then show ?thesis
    using run w r pa_inv_timers [OF inv, of s'] by (intro that [of s' out]) simp_all
qed

text \<open>The timer of an agent whose advertisement has expired: nothing is removed.\<close>

lemma pa_tick_expired:
  assumes "pa_inv (m, s)" and "k < vec_size (pa_timers s)"
  defines "a \<equiv> fst (vec_elems (pa_timers s) ! k)"
  assumes "adv_find m a = Some p" and "get16 (pdata p) (20 + AH_LIFETIME) = 0"
  obtains s' where "pa_run_timer e now k (m, s) = Some ((m, s'), [])"
    and "timer_keys s' = timer_keys s" and "vec_elems (pa_timers s') ! k = (a, None)" and "pa_inv (m, s')"
proof -
  obtain v where v: "vec_set k (a, None) (pa_timers s) = Some v" "map fst (vec_elems v) = timer_keys s"
    "vec_elems v ! k = (a, None)"
    using vec_set_keys [OF assms(2), of None] unfolding a_def by blast
  have p: "48 \<le> plen p" using assms(1,4) by (auto simp: pa_inv_def advert_ok_def)
  have "pa_run_timer e now k (m, s) = Some ((m, s\<lparr> pa_timers := v \<rparr>), [])"
    using p v assms(2,4,5)
    by (simp add: pa_run_timer_def vec_at_def a_def adv_find_pair mem_simps Let_def)
  then show ?thesis
    using v pa_inv_timers [OF assms(1), of "s\<lparr> pa_timers := v \<rparr>"]
    by (intro that [of "s\<lparr> pa_timers := v \<rparr>"]) simp_all
qed

lemma pa_timer_agent:
  assumes "pa_inv (m, s)" and "k < vec_size (pa_timers s)"
  obtains p where "adv_find m (fst (vec_elems (pa_timers s) ! k)) = Some p"
proof -
  have "fst (vec_elems (pa_timers s) ! k) \<in> set (timer_keys s)"
    using assms(2) by (simp add: vec_size_def)
  then have "fst (vec_elems (pa_timers s) ! k) \<in> dom (adv_find m)"
    using assms(1) by (simp add: pa_inv_def)
  then show ?thesis using that by blast
qed

text \<open>\<^verbatim>\<open>ProcessAdvertisements::run_timer\<close> is safe for every timer of the element: it never
  dereferences an unset or null packet pointer, it keeps the agent table consistent, and
  what it sends (if anything) to the registration is an advertisement.\<close>

theorem pa_run_timer_invariant:
  assumes "alloc_ok e" and "pa_inv (m, s)" and "k < vec_size (pa_timers s)"
  shows "\<exists>m' s' out. pa_run_timer e now k (m, s) = Some ((m', s'), out) \<and> pa_inv (m', s') \<and>
    timer_keys s' = timer_keys s \<and> (out = [] \<or> (\<exists>a p. advert_ok a p \<and> out = [(1, p)]))"
proof -
  obtain p where p: "adv_find m (fst (vec_elems (pa_timers s) ! k)) = Some p"
    by (rule pa_timer_agent [OF assms(2,3)])
  show ?thesis
  proof (cases "get16 (pdata p) (20 + AH_LIFETIME) = 0")
    case True
    then show ?thesis using pa_tick_expired [OF assms(2,3) p, of e now] by metis
  next
    case False
    then show ?thesis using pa_tick_alive [OF assms p False, of now] by metis
  qed
qed

text \<open>An expired advertisement is never removed: when the timer of an agent fires and the
  lifetime of its advertisement has reached 0, the table, the connection state and the current
  agent stay as they are, and the timer is not started again, so no later event removes it
  either.\<close>

theorem pa_expired_advertisement_kept:
  assumes "pa_inv (m, s)" and "k < vec_size (pa_timers s)"
    and "adv_find m (fst (vec_elems (pa_timers s) ! k)) = Some p"
    and "get16 (pdata p) (20 + AH_LIFETIME) = 0"
  shows "\<exists>s'. pa_run_timer e now k (m, s) = Some ((m, s'), []) \<and>
    vec_elems (pa_timers s') ! k = (fst (vec_elems (pa_timers s) ! k), None)"
  using pa_tick_expired [OF assms, of e now] by metis

text \<open>A new advertisement of a known agent stops the timers of all agents that were entered
  after it: moving them down in the vector copies them, and a copied timer is not scheduled.
  Their advertisements then never age.\<close>

theorem pa_refresh_stops_timers:
  assumes "alloc_ok e" and "pa_inv (m, s)" and "advert_ok a packet" and "adv_find m a \<noteq> None"
    and "vec_index (\<lambda>t. fst t = a) (pa_timers s) = Some i"
  shows "\<exists>m' s' out. pa_push e now packet (m, s) = Some ((m', s'), out) \<and>
    vec_elems (pa_timers s') =
      take i (vec_elems (pa_timers s)) @
      map (\<lambda>t. (fst t, None)) (drop (i + 1) (vec_elems (pa_timers s))) @ [(a, Some 1000)]"
proof -
  have i: "i < vec_size (pa_timers s)" using assms(5) by (simp add: vec_index_Some)
  have cp: "agent_timer_copy = (\<lambda>t. (fst t, None))" by (simp add: fun_eq_iff agent_timer_copy_def)
  obtain old where old: "adv_find m a = Some old" using assms(4) by blast
  obtain w where w: "vec_erase agent_timer_copy i (pa_timers s) = Some w"
    "vec_elems w = take i (vec_elems (pa_timers s)) @ map agent_timer_copy (drop (i + 1) (vec_elems (pa_timers s)))"
    using vec_erase_elems [OF i] by blast
  have size: "vec_size w < vec_capacity w"
    using w(1) i by (auto simp: vec_erase_def vec_erase_range_def vec_size_def vec_capacity_def split: if_splits)
  have "48 \<le> plen old" using assms(2) old by (auto simp: pa_inv_def advert_ok_def)
  then have f: "pa_forget a m s = Some (get16 (pdata old) 38, adv_erase a m, s\<lparr> pa_timers := w \<rparr>)"
    using old assms(5) w(1) by (simp add: pa_forget_def adv_find_pair mem_simps pa_erase_timer_def)
  have st: "pa_start_timer e a w = Some (w\<lparr> vec_elems := vec_elems w @ [(a, Some 1000)], vec_dead := tl (vec_dead w) \<rparr>)"
    using size by (simp add: pa_start_timer_def vec_push_back_def vec_fill_back_def vec_back_def vec_at_def
        vec_set_def vec_size_def agent_timer_copy_def list_update_append)
  have fld: "48 \<le> plen packet" "get8 (pdata packet) 9 = 1" "get8 (pdata packet) 20 = 9"
    "get8 (pdata packet) 36 = 16" "get32 (pdata packet) 28 = a" "\<not> bit (get8 (pdata packet) 42) 6"
    using assms(3) by (simp_all add: advert_ok_def)
  show ?thesis
    using fld f st w(2) assms(1)
    by (simp add: pa_push_def pa_store_def mem_simps Let_def pkt_clone_def cp)
qed

section \<open>Witnesses\<close>

text \<open>An advertisement of the foreign agent 192.168.3.254 whose lifetime is over, and the node
  before and after it arrives.\<close>

definition sample_advert :: packet where
  "sample_advert = the (pkt_make env0 18 (Some (upd8 42 16 (upd32 44 0x0300A8C0 (upd16 40 (htons 100)
     (upd8 36 16 (upd32 28 0xFE03A8C0 (upd8 20 9 (upd32 12 0xFE03A8C0 (upd8 9 1 (zeros 48)))))))))) 48 0)"

definition sample_pa :: processadv where
  "sample_pa = \<lparr> pa_timers = vec_empty, pa_latestRegAttempt = 0 \<rparr>"

lemma sample_advert_ok:
  "advert_ok 0xFE03A8C0 sample_advert" "get16 (pdata sample_advert) 26 = 0" "plen sample_advert = 48"
  "get32 (pdata sample_advert) 12 = 0xFE03A8C0" "get8 (pdata sample_advert) 42 = 16"
  by (simp_all add: sample_advert_def advert_ok_def mem_simps bit_numeral_rec)

lemma sample_pa_inv: "pa_inv (sample_mninfo, sample_pa)"
  by (simp add: pa_inv_def sample_pa_def hm_inv_empty hm_find_empty dom_def)

lemma sample_after:
  obtains m s p where "pa_inv (m, s)" and "vec_size (pa_timers s) = 1"
    and "fst (vec_elems (pa_timers s) ! 0) = 0xFE03A8C0"
    and "adv_find m 0xFE03A8C0 = Some p" and "pdata p = pdata sample_advert"
    and "m\<lparr> mn_advertisements := hm_empty \<rparr> = sample_mninfo"
proof -
  obtain m s q where "adv_find m = (adv_find sample_mninfo)(0xFE03A8C0 \<mapsto> q)" "pdata q = pdata sample_advert"
    "timer_keys s = remove1 0xFE03A8C0 (timer_keys sample_pa) @ [0xFE03A8C0]" "pa_inv (m, s)"
    "m\<lparr> mn_advertisements := mn_advertisements sample_mninfo \<rparr> = sample_mninfo"
    by (rule pa_push_advert [OF env0_ok sample_pa_inv sample_advert_ok(1)])
  moreover from this obtain t where "vec_elems (pa_timers s) = [t]" "fst t = 0xFE03A8C0"
    by (auto simp: sample_pa_def)
  ultimately show ?thesis using that by (simp add: vec_size_def)
qed

theorem pa_push_invariant_witness:
  "\<exists>m' s' out. pa_push env0 5 sample_advert (sample_mninfo, sample_pa) = Some ((m', s'), out) \<and>
    pa_inv (m', s') \<and> m'\<lparr> mn_advertisements := mn_advertisements sample_mninfo \<rparr> = sample_mninfo"
  by (rule pa_push_invariant) (simp_all add: sample_pa_inv sample_advert_ok)

theorem pa_push_stores_advertisement_witness:
  "\<exists>m' s' q. pa_push env0 5 sample_advert (sample_mninfo, sample_pa) =
      Some ((m', s'), [(1, sample_advert\<lparr> pshared := True \<rparr>)]) \<and>
    adv_find m' = (adv_find sample_mninfo)(0xFE03A8C0 \<mapsto> q) \<and> pdata q = pdata sample_advert \<and>
    last (vec_elems (pa_timers s')) = (0xFE03A8C0, Some 1000)"
proof -
  have "wants_registration sample_mninfo sample_advert" by (simp add: wants_registration_def)
  then show ?thesis
    using pa_push_stores_advertisement [OF env0_ok sample_pa_inv sample_advert_ok(1), of 5] by simp
qed

theorem pa_run_timer_invariant_witness:
  "\<exists>m s. pa_inv (m, s) \<and> vec_size (pa_timers s) = 1 \<and>
    (\<exists>m' s' out. pa_run_timer env0 5 0 (m, s) = Some ((m', s'), out) \<and> pa_inv (m', s') \<and>
      timer_keys s' = timer_keys s \<and> (out = [] \<or> (\<exists>a p. advert_ok a p \<and> out = [(1, p)])))"
proof -
  obtain m s where st: "pa_inv (m, s)" "vec_size (pa_timers s) = 1" by (rule sample_after)
  then have "\<exists>m' s' out. pa_run_timer env0 5 0 (m, s) = Some ((m', s'), out) \<and> pa_inv (m', s') \<and>
      timer_keys s' = timer_keys s \<and> (out = [] \<or> (\<exists>a p. advert_ok a p \<and> out = [(1, p)]))"
    by (intro pa_run_timer_invariant) simp_all
  with st show ?thesis by blast
qed

theorem pa_expired_advertisement_kept_witness:
  "\<exists>m s. adv_find m 0xFE03A8C0 \<noteq> None \<and>
    (\<exists>s'. pa_run_timer env0 5 0 (m, s) = Some ((m, s'), []) \<and>
      vec_elems (pa_timers s') ! 0 = (0xFE03A8C0, None))"
proof -
  obtain m s p where "pa_inv (m, s)" "vec_size (pa_timers s) = 1" "fst (vec_elems (pa_timers s) ! 0) = 0xFE03A8C0"
    "adv_find m 0xFE03A8C0 = Some p" "pdata p = pdata sample_advert"
    by (rule sample_after)
  then have "\<exists>s'. pa_run_timer env0 5 0 (m, s) = Some ((m, s'), []) \<and>
      vec_elems (pa_timers s') ! 0 = (0xFE03A8C0, None)"
    using pa_expired_advertisement_kept [of m s 0 p env0 5] sample_advert_ok(2) by simp
  then show ?thesis using \<open>adv_find m 0xFE03A8C0 = Some p\<close> by auto
qed

theorem pa_refresh_stops_timers_witness:
  "\<exists>m s m' s' out. pa_inv (m, s) \<and> pa_push env0 5 sample_advert (m, s) = Some ((m', s'), out) \<and>
    vec_elems (pa_timers s') = [(0xFE03A8C0, Some 1000)]"
proof -
  obtain m s p where st: "pa_inv (m, s)" "vec_size (pa_timers s) = 1" "fst (vec_elems (pa_timers s) ! 0) = 0xFE03A8C0"
    "adv_find m 0xFE03A8C0 = Some p"
    by (rule sample_after)
  then have "vec_index (\<lambda>t. fst t = 0xFE03A8C0) (pa_timers s) = Some 0"
    by (simp add: vec_index_Some)
  then obtain m' s' out where "pa_push env0 5 sample_advert (m, s) = Some ((m', s'), out)"
    "vec_elems (pa_timers s') = [(0xFE03A8C0, Some 1000)]"
    using pa_refresh_stops_timers [OF env0_ok st(1) sample_advert_ok(1), of 0 5] st
    by (auto simp: vec_size_def)
  with st(1) show ?thesis by blast
qed

text \<open>The witness for the renewal of a registration: two seconds before the threshold.\<close>

theorem regnode_renews_registration_witness:
  "\<exists>m s' m' p. regnode_run_timer env0 (regreq_push env0 7 9 11
        \<lparr> rr_lifetime = 1800, rr_sequence = 0, rr_timer = None \<rparr>)
      (\<lparr> rn_registrationAlmostOver = 3, rn_timer = Some 1000 \<rparr>, m) = Some ((s', m'), [(0, p)]) \<and>
    dst_ip_anno p = 0xFE03A8C0"
proof -
  obtain m s q where st: "pa_inv (m, s)" "adv_find m 0xFE03A8C0 = Some q" "pdata q = pdata sample_advert"
    "m\<lparr> mn_advertisements := hm_empty \<rparr> = sample_mninfo"
    by (rule sample_after)
  let ?m = "m\<lparr> mn_connected := True, mn_foreign_agent := 0xFE03A8C0, mn_lifetime := 4 \<rparr>"
  have "mn_gateway m = 0xFE02A8C0"
    using st(4) by (metis mninfo.select_convs(3) mninfo.surjective mninfo.update_convs(7) sample_mninfo_simps(3))
  then show ?thesis
    using regnode_renews_registration [of env0 ?m "\<lparr> rn_registrationAlmostOver = 3, rn_timer = Some 1000 \<rparr>" q
        7 9 11 "\<lparr> rr_lifetime = 1800, rr_sequence = 0, rr_timer = None \<rparr>"] st sample_advert_ok
    by (auto simp: bit_numeral_rec)
qed

end
