(* ===== verification/MIP_HomeAgent.thy ===== *)
theory MIP_HomeAgent
  imports MIP_Headers Click_Vector
begin

unbundle bit_operations_syntax

text \<open>
  The home agent: \<^verbatim>\<open>HA\<close> holds the mobility bindings and diverts packets for mobile nodes that
  are away, \<^verbatim>\<open>RegRep\<close> answers registration requests and updates the bindings, \<^verbatim>\<open>Encapsulator\<close>
  tunnels packets to the care-of address.
\<close>

section \<open>HA\<close>

record mobile_info =
  mi_address :: ipaddr
  mi_careOfAddress :: ipaddr
  mi_identification :: u64
  mi_remainingLifetime :: byte

record ha =
  ha_address :: ipaddr
  ha_mobility_bindings :: "mobile_info vec"

definition ha_configure :: "ipaddr option \<Rightarrow> int \<times> ha option" where
  "ha_configure conf =
     (case conf of
        None \<Rightarrow> (- 1, None)
      | Some addr \<Rightarrow> (0, Some \<lparr> ha_address = addr, ha_mobility_bindings = vec_empty \<rparr>))"

text \<open>\<^verbatim>\<open>push\<close>: the loop reads the destination once for each binding it looks at.\<close>

fun ha_scan :: "bytes \<Rightarrow> mobile_info list \<Rightarrow> bool option" where
  "ha_scan d [] = Some False"
| "ha_scan d (b # bs) =
     do {
       dst \<leftarrow> ld32 d IP_DST;
       if mi_address b = dst then Some True else ha_scan d bs
     }"

definition ha_push :: "packet \<Rightarrow> ha \<Rightarrow> emission list option" where
  "ha_push packet h =
     do {
       away \<leftarrow> ha_scan (pdata packet) (vec_elems (ha_mobility_bindings h));
       Some [(if away then 1 else 0, packet)]
     }"

section \<open>RegRep\<close>

definition regrep_configure :: "unit option \<Rightarrow> int" where
  "regrep_configure conf = (case conf of None \<Rightarrow> - 1 | Some _ \<Rightarrow> 0)"

text \<open>\<^verbatim>\<open>check_acceptable\<close>; \<open>found\<close> is the result of the loop over the bindings.\<close>

definition check_acceptable :: "bytes \<Rightarrow> ha \<Rightarrow> byte option" where
  "check_acceptable d h =
     do {
       let req = sizeof_click_ip + sizeof_click_udp;
       flags \<leftarrow> ld8 d (req + RQ_FLAGS);
       if bit flags 0 \<or> bit flags 2 then Some 134
       else if bit flags 5 then Some 128
       else do {
         home_address \<leftarrow> ld32 d (req + RQ_HOME_ADDRESS);
         let found = vec_index (\<lambda>b. mi_address b = home_address) (ha_mobility_bindings h) \<noteq> None;
         if bit flags 7 \<and> found then Some 135
         else do {
           home_agent \<leftarrow> ld32 d (req + RQ_HOME_AGENT);
           if home_agent = 0xFFFFFFFF then Some 136 else Some 0
         }
       }
     }"

text \<open>The bindings after an accepted request: removal of all bindings of the node when it asks
  for its home address, a new binding otherwise. The lifetime is stored as the low byte of the
  16-bit field.\<close>

definition update_bindings :: "env \<Rightarrow> bytes \<Rightarrow> ha \<Rightarrow> ha option" where
  "update_bindings e d h =
     do {
       let req = sizeof_click_ip + sizeof_click_udp;
       home_address \<leftarrow> ld32 d (req + RQ_HOME_ADDRESS);
       care_of_address \<leftarrow> ld32 d (req + RQ_COA);
       if home_address = care_of_address then
         Some (h\<lparr> ha_mobility_bindings :=
           vec_sweep (\<lambda>b. if mi_address b = home_address then None else Some b) 0 (ha_mobility_bindings h) \<rparr>)
       else do {
         identification \<leftarrow> ld64 d (req + RQ_ID);
         lifetime \<leftarrow> ld16 d (req + RQ_LIFETIME);
         let mi = \<lparr> mi_address = home_address, mi_careOfAddress = care_of_address,
                    mi_identification = identification, mi_remainingLifetime = ucast lifetime \<rparr>;
         Some (h\<lparr> ha_mobility_bindings := vec_push_back id (alloc_ok e) mi (ha_mobility_bindings h) \<rparr>)
       }
     }"

text \<open>The reply, from the request \<open>rd\<close>.\<close>

definition regrep_fill :: "bytes \<Rightarrow> byte \<Rightarrow> nat \<Rightarrow> bytes \<Rightarrow> bytes option" where
  "regrep_fill rd acceptCode p_size d =
     do {
       let rudp = sizeof_click_ip;
       let req = rudp + sizeof_click_udp;
       d \<leftarrow> st_ip_v 0 4 d;
       d \<leftarrow> st_ip_hl 0 5 d;
       d \<leftarrow> st8 IP_TOS 0 d;
       d \<leftarrow> st16 IP_LEN (htons (of_nat p_size)) d;
       d \<leftarrow> st8 IP_TTL 64 d;
       d \<leftarrow> st8 IP_P 17 d;
       dst \<leftarrow> ld32 rd IP_DST;
       d \<leftarrow> st32 IP_SRC dst d;
       src \<leftarrow> ld32 rd IP_SRC;
       d \<leftarrow> st32 IP_DST src d;
       c \<leftarrow> cksum_at d 0 sizeof_click_ip;
       d \<leftarrow> st16 IP_SUM c d;
       let udp = sizeof_click_ip;
       dport \<leftarrow> ld16 rd (rudp + UH_DPORT);
       d \<leftarrow> st16 (udp + UH_SPORT) dport d;
       sport \<leftarrow> ld16 rd (rudp + UH_SPORT);
       d \<leftarrow> st16 (udp + UH_DPORT) sport d;
       d \<leftarrow> st16 (udp + UH_ULEN) (htons (of_nat (p_size - sizeof_click_ip))) d;
       let rep = udp + sizeof_click_udp;
       d \<leftarrow> st8 (rep + RP_TYPE) 3 d;
       d \<leftarrow> st8 (rep + RP_CODE) acceptCode d;
       lifetime \<leftarrow> ld16 rd (req + RQ_LIFETIME);
       d \<leftarrow> st16 (rep + RP_LIFETIME) lifetime d;
       home_address \<leftarrow> ld32 rd (req + RQ_HOME_ADDRESS);
       d \<leftarrow> st32 (rep + RP_HOME_ADDRESS) home_address d;
       identification \<leftarrow> ld64 rd (req + RQ_ID);
       d \<leftarrow> st64 (rep + RP_ID) identification d;
       home_agent \<leftarrow> ld32 rd (req + RQ_HOME_AGENT);
       d \<leftarrow> st32 (rep + RP_HOME_AGENT) home_agent d;
       c \<leftarrow> transport_cksum d 0 udp (p_size - sizeof_click_ip);
       st16 (udp + UH_SUM) c d
     }"

definition regrep_push :: "env \<Rightarrow> packet \<Rightarrow> ha \<Rightarrow> (ha \<times> emission list) option" where
  "regrep_push e q h =
     do {
       let rd = pdata q;
       let req = sizeof_click_ip + sizeof_click_udp;
       t \<leftarrow> ld8 rd (req + RQ_TYPE);
       if t = 1 then do {
         acceptCode \<leftarrow> check_acceptable rd h;
         h \<leftarrow> (if acceptCode = 0 \<or> acceptCode = 1 then update_bindings e rd h else Some h);
         let headroom = sizeof_click_ether + 4;
         let p_size = sizeof_click_ip + sizeof_click_udp + sizeof_regrep_h;
         case pkt_make e headroom None p_size 0 of
           None \<Rightarrow> Some (h, [])
         | Some p \<Rightarrow>
             do {
               d \<leftarrow> regrep_fill rd acceptCode p_size (zeros (plen p));
               src \<leftarrow> ld32 rd IP_SRC;
               home_address \<leftarrow> ld32 rd (req + RQ_HOME_ADDRESS);
               care_of_address \<leftarrow> ld32 rd (req + RQ_COA);
               Some (h, [(if home_address = care_of_address then 0 else 1,
                          p\<lparr> pdata := d, dst_ip_anno := src \<rparr>)])
             }
       }
       else Some (h, [])
     }"

section \<open>Encapsulator\<close>

record encapsulator =
  enc_srcIp :: ipaddr

definition encapsulator_configure :: "ipaddr option \<Rightarrow> int \<times> encapsulator option" where
  "encapsulator_configure conf =
     (case conf of None \<Rightarrow> (- 1, None) | Some src \<Rightarrow> (0, Some \<lparr> enc_srcIp = src \<rparr>))"

text \<open>\<^verbatim>\<open>get_destination_ip\<close>: the care-of address of the first binding of the node.\<close>

definition get_destination_ip :: "ha \<Rightarrow> ipaddr \<Rightarrow> ipaddr" where
  "get_destination_ip h mobileNodeAddress =
     (case vec_index (\<lambda>b. mi_address b = mobileNodeAddress) (ha_mobility_bindings h) of
        None \<Rightarrow> mobileNodeAddress
      | Some i \<Rightarrow> mi_careOfAddress (vec_elems (ha_mobility_bindings h) ! i))"

definition encap_fill :: "encapsulator \<Rightarrow> ha \<Rightarrow> bytes \<Rightarrow> bytes \<Rightarrow> bytes option" where
  "encap_fill s h inner d =
     do {
       d \<leftarrow> st_ip_v 0 4 d;
       d \<leftarrow> st_ip_hl 0 5 d;
       tos \<leftarrow> ld8 inner IP_TOS;
       d \<leftarrow> st8 IP_TOS tos d;
       len \<leftarrow> ld16 inner IP_LEN;
       d \<leftarrow> st16 IP_LEN (htons (of_nat sizeof_click_ip + ntohs len)) d;
       d \<leftarrow> st8 IP_TTL 200 d;
       d \<leftarrow> st8 IP_P 4 d;
       d \<leftarrow> st32 IP_SRC (enc_srcIp s) d;
       dst \<leftarrow> ld32 inner IP_DST;
       d \<leftarrow> st32 IP_DST (get_destination_ip h dst) d;
       c \<leftarrow> cksum_at d 0 (length d);
       st16 IP_SUM c d
     }"

definition encap_push :: "env \<Rightarrow> packet \<Rightarrow> encapsulator \<Rightarrow> ha \<Rightarrow> emission list option" where
  "encap_push e p s h =
     (let headroom = sizeof_click_ip + sizeof_click_ether + 4
      in case pkt_make e headroom None (plen p) 0 of
           None \<Rightarrow> Some []
         | Some packet \<Rightarrow>
             (case pkt_push e sizeof_click_ip (packet\<lparr> pdata := pdata p \<rparr>) of
                None \<Rightarrow> Some []
              | Some packet \<Rightarrow>
                  do {
                    let d = zeros sizeof_click_ip @ drop sizeof_click_ip (pdata packet);
                    d \<leftarrow> encap_fill s h (pdata p) d;
                    dst \<leftarrow> ld32 d IP_DST;
                    Some [(0, packet\<lparr> pdata := d, dst_ip_anno := dst \<rparr>)]
                  }))"

section \<open>The binding list\<close>

text \<open>The bindings as a list, oldest first, and the care-of address the tunnel uses.\<close>

abbreviation bindings :: "ha \<Rightarrow> mobile_info list" where
  "bindings h \<equiv> vec_elems (ha_mobility_bindings h)"

lemma ha_scan_result:
  "20 \<le> length d \<Longrightarrow> ha_scan d bs = Some (\<exists>b \<in> set bs. mi_address b = get32 d IP_DST)"
  by (induction bs) (auto simp: mem_simps)

lemma get_destination_ip_find:
  "get_destination_ip h a =
     (case find (\<lambda>b. mi_address b = a) (bindings h) of None \<Rightarrow> a | Some b \<Rightarrow> mi_careOfAddress b)"
proof -
  have "find P xs = map_option (\<lambda>i. xs ! (i - k)) (index_from P k xs)" for P and xs :: "mobile_info list" and k
  proof (induction xs arbitrary: k)
    case (Cons x xs)
    show ?case
    proof (cases "P x \<or> index_from P (k + 1) xs = None")
      case True
      then show ?thesis using Cons [of "k + 1"] by auto
    next
      case False
      then obtain j where j: "index_from P (k + 1) xs = Some j" by auto
      then have "j - k = Suc (j - (k + 1))" by (auto simp: index_from_Some)
      then show ?thesis using False j Cons [of "k + 1"] by simp
    qed
  qed simp
  from this [where k = 0] show ?thesis
    by (simp add: get_destination_ip_def vec_index_def split: option.split)
qed

text \<open>A request as \<^verbatim>\<open>RegRep\<close> sees it.\<close>

definition request_of :: "bytes \<Rightarrow> regreq_h" where
  "request_of d = get_regreq d 28"

definition binding_of :: "regreq_h \<Rightarrow> mobile_info" where
  "binding_of r = \<lparr> mi_address = rq_home_address r, mi_careOfAddress = rq_care_of_address r,
     mi_identification = rq_identification r, mi_remainingLifetime = ucast (rq_lifetime r) \<rparr>"

text \<open>What the home agent decides about a request.\<close>

definition accept_code :: "regreq_h \<Rightarrow> mobile_info list \<Rightarrow> byte" where
  "accept_code r bs =
     (if bit (rq_flags r) 0 \<or> bit (rq_flags r) 2 then 134
      else if bit (rq_flags r) 5 then 128
      else if bit (rq_flags r) 7 \<and> (\<exists>b \<in> set bs. mi_address b = rq_home_address r) then 135
      else if rq_home_agent r = 0xFFFFFFFF then 136 else 0)"

definition bindings_after :: "regreq_h \<Rightarrow> mobile_info list \<Rightarrow> mobile_info list" where
  "bindings_after r bs =
     (if accept_code r bs \<noteq> 0 then bs
      else if rq_home_address r = rq_care_of_address r then filter (\<lambda>b. mi_address b \<noteq> rq_home_address r) bs
      else bs @ [binding_of r])"

lemma check_acceptable_code:
  "52 \<le> length d \<Longrightarrow> check_acceptable d h = Some (accept_code (request_of d) (bindings h))"
  by (auto simp: check_acceptable_def accept_code_def request_of_def get_regreq_def mem_simps Let_def
      vec_index_None)

lemma accept_code_not_1: "accept_code r bs \<noteq> 1"
  by (simp add: accept_code_def)

lemma map_filter_filter:
  "List.map_filter (\<lambda>x. if P x then None else Some x) xs = filter (\<lambda>x. \<not> P x) xs"
  by (induction xs) (simp_all add: List.map_filter_simps)

lemma update_bindings_result:
  assumes "52 \<le> length d" and "alloc_ok e" and "accept_code (request_of d) (bindings h) = 0"
  obtains v where "update_bindings e d h = Some (h\<lparr> ha_mobility_bindings := v \<rparr>)"
    and "vec_elems v = bindings_after (request_of d) (bindings h)"
  using assms that
  by (cases "get32 d 32 = get32 d 40")
    (simp_all add: update_bindings_def mem_simps Let_def vec.elems_sweep vec.elems_append
      bindings_after_def request_of_def get_regreq_def binding_of_def map_filter_filter)

section \<open>The reply\<close>

definition regrep_message_ok :: "bytes \<Rightarrow> byte \<Rightarrow> bytes \<Rightarrow> bool" where
  "regrep_message_ok rd code d \<longleftrightarrow>
     length d = 48 \<and> ip_cksum_ok d 0 \<and> transport_cksum d 0 20 28 = Some 0 \<and>
     get_ip d 0 =
       \<lparr> ip_v = 4, ip_hl = 5, ip_tos = 0, ip_len = htons 48, ip_id = 0, ip_off = 0, ip_ttl = 64,
         ip_p = 17, ip_sum = get16 d IP_SUM, ip_src = get32 rd IP_DST, ip_dst = get32 rd IP_SRC \<rparr> \<and>
     get_udp d 20 =
       \<lparr> uh_sport = get16 rd 22, uh_dport = get16 rd 20, uh_ulen = htons 28, uh_sum = get16 d 26 \<rparr> \<and>
     get_regrep d 28 =
       \<lparr> rp_type = 3, rp_code = code, rp_lifetime = rq_lifetime (request_of rd),
         rp_home_address = rq_home_address (request_of rd), rp_home_agent = rq_home_agent (request_of rd),
         rp_identification = rq_identification (request_of rd) \<rparr>"

definition regrep_ip_bytes :: "bytes \<Rightarrow> bytes" where
  "regrep_ip_bytes rd =
     upd32 IP_DST (get32 rd IP_SRC) (upd32 IP_SRC (get32 rd IP_DST) (upd8 IP_P 17 (upd8 IP_TTL 64
       (upd16 IP_LEN (htons 48) (upd8 IP_TOS 0 (upd8 0 0x45 (zeros 48)))))))"

definition regrep_bytes :: "bytes \<Rightarrow> byte \<Rightarrow> bytes" where
  "regrep_bytes rd code =
     upd32 36 (get32 rd 36) (upd64 40 (get64 rd 44) (upd32 32 (get32 rd 32) (upd16 30 (get16 rd 30)
       (upd8 29 code (upd8 28 3 (upd16 24 (htons 28) (upd16 22 (get16 rd 20) (upd16 20 (get16 rd 22)
         (upd16 IP_SUM (click_in_cksum (slice 0 20 (regrep_ip_bytes rd))) (regrep_ip_bytes rd))))))))))"

lemma regrep_bytes_fields:
  fixes rd :: bytes and code :: byte and c :: u16
  defines "d \<equiv> upd16 26 c (regrep_bytes rd code)"
  shows "length d = 48"
    and "get_ip d 0 =
       \<lparr> ip_v = 4, ip_hl = 5, ip_tos = 0, ip_len = htons 48, ip_id = 0, ip_off = 0, ip_ttl = 64,
         ip_p = 17, ip_sum = get16 d IP_SUM, ip_src = get32 rd IP_DST, ip_dst = get32 rd IP_SRC \<rparr>"
    and "get_udp d 20 =
       \<lparr> uh_sport = get16 rd 22, uh_dport = get16 rd 20, uh_ulen = htons 28, uh_sum = get16 d 26 \<rparr>"
    and "get_regrep d 28 =
       \<lparr> rp_type = 3, rp_code = code, rp_lifetime = rq_lifetime (request_of rd),
         rp_home_address = rq_home_address (request_of rd), rp_home_agent = rq_home_agent (request_of rd),
         rp_identification = rq_identification (request_of rd) \<rparr>"
  by (simp_all add: d_def regrep_bytes_def regrep_ip_bytes_def mem_simps get_ip_0 get_udp_def get_regrep_def
      request_of_def get_regreq_def)

lemma regrep_bytes_cksum: "ip_cksum_ok (regrep_bytes rd code) 0"
  using ip_cksum_fill [of 0 "regrep_ip_bytes rd"]
  by (simp add: regrep_bytes_def regrep_ip_bytes_def mem_simps)

lemma regrep_fill_result:
  assumes "52 \<le> length rd"
  obtains f where "regrep_fill rd code 48 (zeros 48) = Some f" and "regrep_message_ok rd code f"
proof -
  let ?d = "regrep_bytes rd code"
  have "ip_hl_of (get8 ?d 0) = 5" "length ?d = 48" "get16 ?d 26 = 0"
    by (simp_all add: regrep_bytes_def regrep_ip_bytes_def mem_simps)
  then obtain c where c: "transport_cksum ?d 0 20 28 = Some c"
      "transport_cksum (upd16 26 c ?d) 0 20 28 = Some 0"
    using udp_cksum_fill [of ?d 0 28] by auto
  have "regrep_fill rd code 48 (zeros 48) = Some (upd16 26 c ?d)"
    using c(1) assms by (simp add: regrep_fill_def regrep_bytes_def regrep_ip_bytes_def mem_simps Let_def)
  moreover have "regrep_message_ok rd code (upd16 26 c ?d)"
    using c(2) regrep_bytes_cksum regrep_bytes_fields
    by (simp add: regrep_message_ok_def mem_simps del: One_nat_def)
  ultimately show ?thesis by (rule that)
qed

lemma regrep_push_result:
  assumes "alloc_ok e" and "52 \<le> plen q" and "rq_type (request_of (pdata q)) = 1"
  obtains v p where "regrep_push e q h =
      Some (h\<lparr> ha_mobility_bindings := v \<rparr>,
            [(if rq_home_address (request_of (pdata q)) = rq_care_of_address (request_of (pdata q)) then 0 else 1, p)])"
    and "vec_elems v = bindings_after (request_of (pdata q)) (bindings h)"
    and "regrep_message_ok (pdata q) (accept_code (request_of (pdata q)) (bindings h)) (pdata p)"
    and "dst_ip_anno p = get32 (pdata q) IP_SRC" and "headroom p = 18" and "\<not> pshared p"
proof -
  let ?r = "request_of (pdata q)"
  let ?code = "accept_code ?r (bindings h)"
  obtain p where p: "pkt_make e 18 None 48 0 = Some p" "headroom p = 18" "plen p = 48" "\<not> pshared p"
    by (rule pkt_make_Some [OF assms(1)])
  obtain f where f: "regrep_fill (pdata q) ?code 48 (zeros 48) = Some f" "regrep_message_ok (pdata q) ?code f"
    by (rule regrep_fill_result [OF assms(2)])
  obtain v where v: "(if ?code = 0 \<or> ?code = 1 then update_bindings e (pdata q) h else Some h) =
      Some (h\<lparr> ha_mobility_bindings := v \<rparr>)" "vec_elems v = bindings_after ?r (bindings h)"
  proof (cases "?code = 0")
    case True
    then show ?thesis using update_bindings_result [OF assms(2,1) True] that by metis
  next
    case False
    then show ?thesis
      using that [of "ha_mobility_bindings h"] accept_code_not_1 by (simp add: bindings_after_def)
  qed
  have t: "get8 (pdata q) 28 = 1" "get32 (pdata q) 32 = rq_home_address ?r" "get32 (pdata q) 40 = rq_care_of_address ?r"
    using assms(3) by (simp_all add: request_of_def get_regreq_def)
  have "regrep_push e q h = Some (h\<lparr> ha_mobility_bindings := v \<rparr>,
      [(if rq_home_address ?r = rq_care_of_address ?r then 0 else 1,
        p\<lparr> pdata := f, dst_ip_anno := get32 (pdata q) IP_SRC \<rparr>)])"
    using assms(2) t p f(1) v(1)
    by (simp add: regrep_push_def Let_def mem_simps check_acceptable_code)
  then show ?thesis
    using p v(2) f(2) by (intro that [of v "p\<lparr> pdata := f, dst_ip_anno := get32 (pdata q) IP_SRC \<rparr>"]) simp_all
qed

text \<open>C10: \<^verbatim>\<open>RegRep::push\<close> implements the home agent's protocol step: a registration request is
  answered by exactly one well-formed reply (verifying IP and UDP checksums, addresses and
  ports exchanged, the identification copied, the decision as code), on the local port for a
  deregistration and on the public port otherwise, and the binding list changes as the
  abstract step \<open>bindings_after\<close> says: an accepted deregistration removes all bindings of the
  node, an accepted registration adds one, a denial changes nothing.\<close>

theorem regrep_push_refines:
  assumes "alloc_ok e" and "52 \<le> plen q" and "rq_type (request_of (pdata q)) = 1"
  shows "\<exists>h' port p. regrep_push e q h = Some (h', [(port, p)]) \<and>
    bindings h' = bindings_after (request_of (pdata q)) (bindings h) \<and>
    regrep_message_ok (pdata q) (accept_code (request_of (pdata q)) (bindings h)) (pdata p) \<and>
    port = (if rq_home_address (request_of (pdata q)) = rq_care_of_address (request_of (pdata q)) then 0 else 1) \<and>
    dst_ip_anno p = get32 (pdata q) IP_SRC"
proof -
  obtain v p where "regrep_push e q h =
      Some (h\<lparr> ha_mobility_bindings := v \<rparr>,
            [(if rq_home_address (request_of (pdata q)) = rq_care_of_address (request_of (pdata q)) then 0 else 1, p)])"
    "vec_elems v = bindings_after (request_of (pdata q)) (bindings h)"
    "regrep_message_ok (pdata q) (accept_code (request_of (pdata q)) (bindings h)) (pdata p)"
    "dst_ip_anno p = get32 (pdata q) IP_SRC"
    by (rule regrep_push_result [OF assms])
  then show ?thesis by simp
qed

text \<open>After an accepted deregistration the home agent does not divert the node's traffic any
  more: \<^verbatim>\<open>HA::push\<close> delivers every packet for it locally (port 0), and the tunnel's destination
  for it is the node itself.\<close>

theorem deregistration_stops_tunnel:
  assumes "alloc_ok e" and "52 \<le> plen q" and "rq_type (request_of (pdata q)) = 1"
    and "accept_code (request_of (pdata q)) (bindings h) = 0"
    and "rq_home_address (request_of (pdata q)) = rq_care_of_address (request_of (pdata q))"
    and "20 \<le> plen p" and "get32 (pdata p) IP_DST = rq_home_address (request_of (pdata q))"
  shows "\<exists>h' out. regrep_push e q h = Some (h', out) \<and> ha_push p h' = Some [(0, p)] \<and>
    get_destination_ip h' (get32 (pdata p) IP_DST) = get32 (pdata p) IP_DST"
proof -
  let ?r = "request_of (pdata q)"
  obtain v p' where r: "regrep_push e q h = Some (h\<lparr> ha_mobility_bindings := v \<rparr>,
      [(if rq_home_address ?r = rq_care_of_address ?r then 0 else 1, p')])"
    and v: "vec_elems v = bindings_after ?r (bindings h)"
    by (rule regrep_push_result [OF assms(1-3)])
  have v': "vec_elems v = filter (\<lambda>b. mi_address b \<noteq> rq_home_address ?r) (bindings h)"
    using v assms(4,5) by (simp add: bindings_after_def)
  have "find (\<lambda>b. mi_address b = rq_home_address ?r) (vec_elems v) = None"
    by (auto simp: v' find_None_iff)
  then show ?thesis
    using r assms(6,7) v' by (auto simp: ha_push_def ha_scan_result get_destination_ip_find)
qed

text \<open>A node that registers from a second care-of address without deregistering first stays
  bound to the first one: the request is accepted, but the packets for the node are still
  tunnelled to the old care-of address.\<close>

theorem reregistration_keeps_old_binding:
  assumes "alloc_ok e" and "52 \<le> plen q" and "rq_type (request_of (pdata q)) = 1"
    and "rq_home_address (request_of (pdata q)) \<noteq> rq_care_of_address (request_of (pdata q))"
    and "find (\<lambda>b. mi_address b = rq_home_address (request_of (pdata q))) (bindings h) = Some b"
  shows "\<exists>h' out. regrep_push e q h = Some (h', out) \<and>
    get_destination_ip h' (rq_home_address (request_of (pdata q))) = mi_careOfAddress b"
proof -
  let ?r = "request_of (pdata q)"
  obtain v p' where r: "regrep_push e q h = Some (h\<lparr> ha_mobility_bindings := v \<rparr>,
      [(if rq_home_address ?r = rq_care_of_address ?r then 0 else 1, p')])"
    and v: "vec_elems v = bindings_after ?r (bindings h)"
    by (rule regrep_push_result [OF assms(1-3)])
  have "find P (xs @ ys) = Some z" if "find P xs = Some z" for P and xs ys :: "mobile_info list" and z
    using that by (induction xs) (auto split: if_splits)
  then have "find (\<lambda>b. mi_address b = rq_home_address ?r) (vec_elems v) = Some b"
    using v assms(4,5) by (auto simp: bindings_after_def)
  then show ?thesis using r by (simp add: get_destination_ip_find)
qed

section \<open>The tunnel\<close>

text \<open>The outer header before its checksum, and the packet \<^verbatim>\<open>Encapsulator::push\<close> emits.\<close>

definition encap_header :: "encapsulator \<Rightarrow> ha \<Rightarrow> bytes \<Rightarrow> bytes" where
  "encap_header s h inner =
     upd32 IP_DST (get_destination_ip h (get32 inner IP_DST)) (upd32 IP_SRC (enc_srcIp s) (upd8 IP_P 4
       (upd8 IP_TTL 200 (upd16 IP_LEN (htons (20 + ntohs (get16 inner IP_LEN)))
         (upd8 IP_TOS (get8 inner IP_TOS) (upd8 0 0x45 (zeros 20)))))))"

lemma encap_header_length [simp]: "length (encap_header s h inner) = 20"
  by (simp add: encap_header_def)

lemma encap_fill_result:
  assumes "20 \<le> length inner"
  shows "encap_fill s h inner (zeros 20 @ inner) =
    Some (upd16 IP_SUM (click_in_cksum (encap_header s h inner @ inner)) (encap_header s h inner) @ inner)"
  using assms
  by (simp add: encap_fill_def encap_header_def mem_simps slice_def)

lemma encap_push_result:
  assumes "alloc_ok e" and "20 \<le> plen p"
  obtains q where "encap_push e p s h = Some [(0, q)]"
    and "pdata q = upd16 IP_SUM (click_in_cksum (encap_header s h (pdata p) @ pdata p))
           (encap_header s h (pdata p)) @ pdata p"
    and "dst_ip_anno q = get_destination_ip h (get32 (pdata p) IP_DST)" and "headroom q = 18"
proof -
  obtain k where k: "pkt_make e 38 None (plen p) 0 = Some k" "headroom k = 38" "plen k = plen p" "\<not> pshared k"
    by (rule pkt_make_Some [OF assms(1)])
  let ?k = "k\<lparr> pdata := pdata p \<rparr>"
  have push: "pkt_push e 20 ?k = Some (data_down 20 ?k)" using k by (simp add: pkt_push_def)
  have d: "drop 20 (pdata (data_down 20 ?k)) = pdata p" "headroom (data_down 20 ?k) = 18"
    using data_down_simps [of 20 ?k] k by simp_all
  let ?d = "upd16 IP_SUM (click_in_cksum (encap_header s h (pdata p) @ pdata p)) (encap_header s h (pdata p)) @ pdata p"
  have dst: "get32 ?d IP_DST = get_destination_ip h (get32 (pdata p) IP_DST)"
    by (simp add: mem_simps encap_header_def)
  have "encap_push e p s h = Some [(0, (data_down 20 ?k)\<lparr> pdata := ?d,
      dst_ip_anno := get_destination_ip h (get32 (pdata p) IP_DST) \<rparr>)]"
    using assms(2) k push d dst encap_fill_result [OF assms(2), of s h]
    by (simp add: encap_push_def Let_def mem_simps)
  then show ?thesis
    using d by (intro that [of "(data_down 20 ?k)\<lparr> pdata := ?d,
      dst_ip_anno := get_destination_ip h (get32 (pdata p) IP_DST) \<rparr>"]) simp_all
qed

lemma dvd_complement:
  fixes a b f n :: nat
  assumes "f mod n = (a + b) mod n" and "f \<le> n"
  shows "n dvd a + (n - f) \<longleftrightarrow> n dvd b"
proof -
  have d: "int n dvd int (a + b) - int f"
    using assms(1) by (metis mod_eq_dvd_iff of_nat_mod)
  have "int (a + (n - f)) = (int (a + b) - int f) + (int n - int b)"
    using assms(2) by (simp add: of_nat_diff)
  then have "int n dvd int (a + (n - f)) \<longleftrightarrow> int n dvd int n - int b"
    using d by (metis dvd_add_right_iff)
  also have "\<dots> \<longleftrightarrow> int n dvd int b"
    by (metis dvd_diff dvd_diff_commute dvd_minus_iff dvd_refl minus_diff_eq diff_diff_eq2 add_diff_cancel_left')
  finally show ?thesis by (simp only: int_dvd_int_iff)
qed

lemma encap_header_cksum:
  assumes "length inner + 20 \<le> 131072"
  shows "ip_cksum_ok (upd16 IP_SUM (click_in_cksum (encap_header s h inner @ inner)) (encap_header s h inner) @ inner) 0
    \<longleftrightarrow> 65535 dvd wsum inner"
proof -
  let ?H = "encap_header s h inner" and ?c = "click_in_cksum (encap_header s h inner @ inner)"
  have c: "unat ?c = 65535 - ones_fold (wsum ?H + wsum inner)"
    using assms by (simp add: click_in_cksum_value wsum_append)
  have z: "get16 ?H IP_SUM = 0" by (simp add: encap_header_def mem_simps)
  have w: "wsum (upd16 IP_SUM ?c ?H) = wsum ?H + (65535 - ones_fold (wsum ?H + wsum inner))"
    using wsum_upd16 [of 10 ?H ?c] z c by simp
  have "get8 ?H 0 = 0x45" by (simp add: encap_header_def mem_simps)
  then obtain x xs where H: "?H = 0x45 # x # xs"
    using encap_header_length [of s h inner] unfolding get8_def
    by (metis One_nat_def Suc_length_conv eval_nat_numeral(2) length_Suc_conv nth_Cons_0 numeral_eq_Suc)
  have nz: "wsum (upd16 IP_SUM ?c ?H) \<noteq> 0" using w by (simp add: H unat_le16)
  have "ip_cksum_ok (upd16 IP_SUM ?c ?H @ inner) 0 \<longleftrightarrow> click_in_cksum (upd16 IP_SUM ?c ?H) = 0"
    by (simp add: cksum_ok_def slice_def)
  also have "\<dots> \<longleftrightarrow> 65535 dvd wsum ?H + (65535 - ones_fold (wsum ?H + wsum inner))"
    using nz w by (simp add: in_cksum.ck_zero_iff)
  also have "\<dots> \<longleftrightarrow> 65535 dvd wsum inner"
    by (rule dvd_complement) (simp_all add: ones_fold_mod ones_fold_le)
  finally show ?thesis .
qed

text \<open>\<^verbatim>\<open>Encapsulator::push\<close> puts exactly one IP-in-IP packet on the wire: behind a 20-byte outer
  header from the agent's public address to the care-of address of the mobile node, the
  original packet is carried unchanged, so that removing the outer header gives it back.\<close>

theorem encap_push_tunnels:
  assumes "alloc_ok e" and "20 \<le> plen p"
  shows "\<exists>q. encap_push e p s h = Some [(0, q)] \<and> pdata (pkt_pull 20 q) = pdata p \<and> plen q = plen p + 20 \<and>
    get_ip (pdata q) 0 =
      \<lparr> ip_v = 4, ip_hl = 5, ip_tos = get8 (pdata p) IP_TOS,
        ip_len = htons (20 + ntohs (get16 (pdata p) IP_LEN)), ip_id = 0, ip_off = 0, ip_ttl = 200,
        ip_p = 4, ip_sum = get16 (pdata q) IP_SUM, ip_src = enc_srcIp s,
        ip_dst = get_destination_ip h (get32 (pdata p) IP_DST) \<rparr> \<and>
    dst_ip_anno q = get_destination_ip h (get32 (pdata p) IP_DST)"
proof -
  obtain q where q: "encap_push e p s h = Some [(0, q)]"
    "pdata q = upd16 IP_SUM (click_in_cksum (encap_header s h (pdata p) @ pdata p))
           (encap_header s h (pdata p)) @ pdata p"
    "dst_ip_anno q = get_destination_ip h (get32 (pdata p) IP_DST)"
    by (rule encap_push_result [OF assms])
  then show ?thesis
    by (simp add: pkt_pull_data get_ip_0 mem_simps) (simp add: encap_header_def mem_simps)
qed

text \<open>The outer header checksum that \<^verbatim>\<open>Encapsulator\<close> stores is taken over the whole packet. It
  verifies at the receiver exactly when the one's complement sum of the inner packet is a
  multiple of 65535. That holds for packets such as ICMP echoes, whose header and message
  checksums both verify, but not in general: a tunnelled UDP or TCP packet usually fails the
  check of its outer header.\<close>

theorem encap_push_checksum:
  assumes "alloc_ok e" and "20 \<le> plen p" and "plen p \<le> 65535"
  shows "\<exists>q. encap_push e p s h = Some [(0, q)] \<and> (ip_cksum_ok (pdata q) 0 \<longleftrightarrow> 65535 dvd wsum (pdata p))"
proof -
  obtain q where q: "encap_push e p s h = Some [(0, q)]"
    "pdata q = upd16 IP_SUM (click_in_cksum (encap_header s h (pdata p) @ pdata p))
           (encap_header s h (pdata p)) @ pdata p"
    by (rule encap_push_result [OF assms(1,2)])
  have "plen p + 20 \<le> 131072" using assms(3) by linarith
  then show ?thesis using q encap_header_cksum [of "pdata p" s h] by simp
qed

section \<open>Witnesses\<close>

text \<open>A request of the node 192.168.2.1 with the care-of address \<open>coa\<close>, a home agent that has a
  binding to 192.168.0.3 for it, and a packet for the node.\<close>

definition sample_request :: "ipaddr \<Rightarrow> packet" where
  "sample_request coa = the (pkt_make env0 18 (Some (upd32 40 coa (upd32 36 0xFE02A8C0 (upd32 32 0x0102A8C0
     (upd16 30 (htons 100) (upd8 28 1 (upd8 9 17 (upd8 0 0x45 (zeros 52))))))))) 52 0)"

definition sample_ha :: ha where
  "sample_ha = \<lparr> ha_address = 0xFE02A8C0, ha_mobility_bindings = vec_push_back id True
     \<lparr> mi_address = 0x0102A8C0, mi_careOfAddress = 0x0300A8C0, mi_identification = 5,
       mi_remainingLifetime = 0 \<rparr> vec_empty \<rparr>"

definition sample_traffic :: packet where
  "sample_traffic = the (pkt_make env0 18 (Some (upd32 16 0x0102A8C0 (upd8 0 0x45 (zeros 28)))) 28 0)"

lemma sample_request_data:
  "plen (sample_request coa) = 52"
  "request_of (pdata (sample_request coa)) =
     \<lparr> rq_type = 1, rq_flags = 0, rq_lifetime = htons 100, rq_home_address = 0x0102A8C0,
       rq_home_agent = 0xFE02A8C0, rq_care_of_address = coa, rq_identification = 0 \<rparr>"
  by (simp_all add: sample_request_def request_of_def get_regreq_def mem_simps)

lemma sample_traffic_data: "plen sample_traffic = 28" "get32 (pdata sample_traffic) 16 = 0x0102A8C0"
  by (simp_all add: sample_traffic_def mem_simps)

theorem regrep_push_refines_witness:
  "\<exists>h' p. regrep_push env0 (sample_request 0x0300A8C0) \<lparr> ha_address = 0xFE02A8C0, ha_mobility_bindings = vec_empty \<rparr> =
      Some (h', [(1, p)]) \<and>
    bindings h' = [\<lparr> mi_address = 0x0102A8C0, mi_careOfAddress = 0x0300A8C0, mi_identification = 0,
      mi_remainingLifetime = ucast (htons 100) \<rparr>] \<and>
    regrep_message_ok (pdata (sample_request 0x0300A8C0)) 0 (pdata p)"
  using regrep_push_refines [of env0 "sample_request 0x0300A8C0" "\<lparr> ha_address = 0xFE02A8C0, ha_mobility_bindings = vec_empty \<rparr>"]
  by (auto simp: sample_request_data bindings_after_def accept_code_def binding_of_def)

theorem deregistration_stops_tunnel_witness:
  "\<exists>h' out. regrep_push env0 (sample_request 0x0102A8C0) sample_ha = Some (h', out) \<and>
    ha_push sample_traffic h' = Some [(0, sample_traffic)] \<and>
    get_destination_ip h' (get32 (pdata sample_traffic) IP_DST) = get32 (pdata sample_traffic) IP_DST"
  by (rule deregistration_stops_tunnel)
    (simp_all add: sample_request_data sample_traffic_data accept_code_def)

theorem reregistration_keeps_old_binding_witness:
  "\<exists>h' out. regrep_push env0 (sample_request 0x0400A8C0) sample_ha = Some (h', out) \<and>
    get_destination_ip h' 0x0102A8C0 = 0x0300A8C0"
  using reregistration_keeps_old_binding [of env0 "sample_request 0x0400A8C0" sample_ha]
  by (simp add: sample_request_data sample_ha_def vec.elems_append)

theorem encap_push_tunnels_witness:
  "\<exists>q. encap_push env0 sample_traffic \<lparr> enc_srcIp = 0x0200A8C0 \<rparr> sample_ha = Some [(0, q)] \<and>
    pdata (pkt_pull 20 q) = pdata sample_traffic \<and> dst_ip_anno q = 0x0300A8C0"
proof -
  have "get_destination_ip sample_ha 0x0102A8C0 = 0x0300A8C0"
    by (simp add: get_destination_ip_find sample_ha_def vec.elems_append)
  then show ?thesis
    using encap_push_tunnels [of env0 sample_traffic "\<lparr> enc_srcIp = 0x0200A8C0 \<rparr>" sample_ha]
    by (auto simp: sample_traffic_data)
qed

theorem encap_push_checksum_witness:
  "\<exists>q. encap_push env0 sample_traffic \<lparr> enc_srcIp = 0x0200A8C0 \<rparr> sample_ha = Some [(0, q)] \<and>
    (ip_cksum_ok (pdata q) 0 \<longleftrightarrow> 65535 dvd wsum (pdata sample_traffic))"
  by (rule encap_push_checksum) (simp_all add: sample_traffic_data)

end
