(* ===== verification/MIP_ForeignAgent.thy ===== *)
theory MIP_ForeignAgent
  imports MIP_Headers Click_Vector
begin

unbundle bit_operations_syntax

text \<open>
  The foreign agent: \<^verbatim>\<open>FA\<close> holds the visitor list (pending requests and registrations), \<^verbatim>\<open>Relay\<close>
  forwards registration requests to the home agent and replies back to the mobile node, and
  \<^verbatim>\<open>CheckEncap\<close> recognises tunnelled packets. Offsets count from the start of the packet data,
  which begins with the Ethernet header (14 bytes) in \<^verbatim>\<open>Relay\<close>.
\<close>

section \<open>State\<close>

record vEntry =
  ve_eth_src :: bytes
  ve_ip_src :: ipaddr
  ve_ip_dst :: ipaddr
  ve_udp_src :: u16
  ve_home_agent :: ipaddr
  ve_id :: u64
  ve_requested_lifetime :: u16
  ve_remaining_lifetime :: u16

record fa =
  fa_address :: ipaddr
  fa_requests :: "vEntry vec"
  fa_registrations :: "(ipaddr \<times> vEntry) vec"

definition fa_configure :: "ipaddr option \<Rightarrow> int \<times> fa option" where
  "fa_configure conf =
     (case conf of
        None \<Rightarrow> (- 1, None)
      | Some addr \<Rightarrow> (0, Some \<lparr> fa_address = addr, fa_requests = vec_empty, fa_registrations = vec_empty \<rparr>))"

record relay =
  rl_privateIP :: ipaddr
  rl_registrationLimit :: int
  rl_timer :: timer

definition relay_configure :: "(ipaddr \<times> int option) option \<Rightarrow> int \<times> relay option" where
  "relay_configure conf =
     (case conf of
        None \<Rightarrow> (- 1, None)
      | Some (privateip, reglimit) \<Rightarrow>
          (0, Some \<lparr> rl_privateIP = privateip,
                     rl_registrationLimit = (case reglimit of None \<Rightarrow> - 1 | Some n \<Rightarrow> n),
                     rl_timer = Some 1000 \<rparr>))"

section \<open>Relay::createRep\<close>

definition createRep_fill ::
  "byte \<Rightarrow> ipaddr \<Rightarrow> ipaddr \<Rightarrow> u16 \<Rightarrow> u64 \<Rightarrow> ipaddr \<Rightarrow> nat \<Rightarrow> bytes \<Rightarrow> bytes option" where
  "createRep_fill code ips ipd udpd ident home_agent psize d =
     do {
       d \<leftarrow> st_ip_v 0 4 d;
       d \<leftarrow> st_ip_hl 0 5 d;
       d \<leftarrow> st8 IP_TOS 0 d;
       d \<leftarrow> st16 IP_LEN (htons (of_nat psize)) d;
       d \<leftarrow> st8 IP_TTL 64 d;
       d \<leftarrow> st8 IP_P 17 d;
       d \<leftarrow> st32 IP_SRC ips d;
       d \<leftarrow> st32 IP_DST ipd d;
       c \<leftarrow> cksum_at d 0 sizeof_click_ip;
       d \<leftarrow> st16 IP_SUM c d;
       let udp = sizeof_click_ip;
       d \<leftarrow> st16 (udp + UH_SPORT) (htons 434) d;
       d \<leftarrow> st16 (udp + UH_DPORT) (htons udpd) d;
       d \<leftarrow> st16 (udp + UH_ULEN) (htons (of_nat (psize - sizeof_click_ip))) d;
       let rep = udp + sizeof_click_udp;
       d \<leftarrow> st8 (rep + RP_TYPE) 3 d;
       d \<leftarrow> st8 (rep + RP_CODE) code d;
       d \<leftarrow> st16 (rep + RP_LIFETIME) 0 d;
       d \<leftarrow> st32 (rep + RP_HOME_ADDRESS) ipd d;
       d \<leftarrow> st64 (rep + RP_ID) ident d;
       d \<leftarrow> st32 (rep + RP_HOME_AGENT) home_agent d;
       c \<leftarrow> transport_cksum d 0 udp (psize - sizeof_click_ip);
       st16 (udp + UH_SUM) c d
     }"

text \<open>The inner option is the null pointer of a failed allocation. Every caller pushes the
  result at once; \<open>push_reply\<close> is that push.\<close>

definition createRep ::
  "env \<Rightarrow> byte \<Rightarrow> ipaddr \<Rightarrow> ipaddr \<Rightarrow> u16 \<Rightarrow> u64 \<Rightarrow> ipaddr \<Rightarrow> packet option option" where
  "createRep e code ips ipd udpd ident home_agent =
     (let headroom = sizeof_click_ether + 4;
          psize = sizeof_click_ip + sizeof_click_udp + sizeof_regrep_h
      in case pkt_make e headroom None psize 0 of
           None \<Rightarrow> Some None
         | Some p \<Rightarrow>
             do {
               d \<leftarrow> createRep_fill code ips ipd udpd ident home_agent psize (zeros (plen p));
               Some (Some (p\<lparr> pdata := d, dst_ip_anno := ipd \<rparr>))
             })"

definition push_reply ::
  "env \<Rightarrow> byte \<Rightarrow> ipaddr \<Rightarrow> ipaddr \<Rightarrow> u16 \<Rightarrow> u64 \<Rightarrow> ipaddr \<Rightarrow> emission option" where
  "push_reply e code ips ipd udpd ident home_agent =
     do {
       pck \<leftarrow> createRep e code ips ipd udpd ident home_agent;
       p \<leftarrow> pck;
       Some (0, p)
     }"

section \<open>Relay::relayReq\<close>

text \<open>The code of a rejection, \<open>None\<close> when the request is relayed; later tests override.\<close>

definition relay_reject :: "relay \<Rightarrow> fa \<Rightarrow> byte \<Rightarrow> byte option" where
  "relay_reject s f flags =
     (let code = (if rl_registrationLimit s > - 1
                     \<and> int (vec_size (fa_registrations f)) \<ge> rl_registrationLimit s
                  then Some 66 else None);
          code = (if bit flags 0 \<or> bit flags 2 then Some 70 else code);
          code = (if bit flags 3 \<or> bit flags 4 then Some 70 else code)
      in code)"

text \<open>\<open>rnd\<close> is the result of \<^verbatim>\<open>rand()\<close>. The pointers \<^verbatim>\<open>iph\<close>, \<^verbatim>\<open>udph\<close>, \<^verbatim>\<open>reqh\<close> keep pointing into the
  original buffer: they see the new header when the packet was not shared, and the old one
  when \<^verbatim>\<open>uniqueify\<close> made a copy.\<close>

definition relayReq ::
  "env \<Rightarrow> nat \<Rightarrow> relay \<Rightarrow> packet \<Rightarrow> fa \<Rightarrow> (fa \<times> emission list) option" where
  "relayReq e rnd s p f =
     do {
       let d = pdata p;
       let iph = sizeof_click_ether;
       let udph = iph + sizeof_click_ip;
       let reqh = udph + sizeof_click_udp;
       let psize = plen p - sizeof_click_ether;
       ok \<leftarrow> udp_cksum_ok d iph udph (psize - sizeof_click_ip);
       if \<not> ok then Some (f, [])
       else do {
         flags \<leftarrow> ld8 d (reqh + RQ_FLAGS);
         src \<leftarrow> ld32 d (iph + IP_SRC);
         dst \<leftarrow> ld32 d (iph + IP_DST);
         sport \<leftarrow> ld16 d (udph + UH_SPORT);
         ident \<leftarrow> ld64 d (reqh + RQ_ID);
         home_agent \<leftarrow> ld32 d (reqh + RQ_HOME_AGENT);
         case relay_reject s f flags of
           Some code \<Rightarrow>
             do {
               o1 \<leftarrow> push_reply e code dst src sport (ucast (ucast ident :: u16)) home_agent;
               Some (f, [o1])
             }
         | None \<Rightarrow>
             do {
               lifetime \<leftarrow> ld16 d (reqh + RQ_LIFETIME);
               let entry = \<lparr> ve_eth_src = slice 6 6 d, ve_ip_src = src, ve_ip_dst = dst,
                             ve_udp_src = ntohs sport, ve_home_agent = home_agent, ve_id = ident,
                             ve_requested_lifetime = ntohs lifetime,
                             ve_remaining_lifetime = ntohs lifetime \<rparr>;
               let f = f\<lparr> fa_requests := vec_push_back id (alloc_ok e) entry (fa_requests f) \<rparr>;
               pck \<leftarrow> pkt_uniqueify e p;
               let rd = pdata pck;
               rd \<leftarrow> st16 (iph + IP_LEN) (htons (of_nat psize)) rd;
               rd \<leftarrow> st8 (iph + IP_TTL) 64 rd;
               rd \<leftarrow> st32 (iph + IP_SRC) (fa_address f) rd;
               rd \<leftarrow> st32 (iph + IP_DST) home_agent rd;
               anno \<leftarrow> ld32 (if pshared p then d else rd) (iph + IP_DST);
               rd \<leftarrow> st16 (udph + UH_SPORT) (htons (of_nat (rnd mod (65535 - 49152) + 49152))) rd;
               dport \<leftarrow> ld16 (if pshared p then d else rd) (udph + UH_DPORT);
               rd \<leftarrow> st16 (udph + UH_DPORT) dport rd;
               rd \<leftarrow> st16 (udph + UH_SUM) (htons 0) rd;
               c \<leftarrow> transport_cksum rd iph udph (psize - sizeof_click_ip);
               rd \<leftarrow> st16 (udph + UH_SUM) c rd;
               Some (f, [(1, pck\<lparr> pdata := rd, dst_ip_anno := anno \<rparr>)])
             }
       }
     }"

section \<open>Relay::relayRep\<close>

text \<open>The update of the registrations for a reply with code 0 or 1.\<close>

definition relay_register ::
  "env \<Rightarrow> ipaddr \<Rightarrow> u16 \<Rightarrow> vEntry \<Rightarrow> fa \<Rightarrow> fa option" where
  "relay_register e home_addr lifetime entry f =
     (if ntohs lifetime \<noteq> 0 then
        let ent = entry\<lparr> ve_remaining_lifetime := lifetime \<rparr>
        in case vec_last_index (\<lambda>r. fst r = home_addr) (fa_registrations f) of
             None \<Rightarrow> Some (f\<lparr> fa_registrations :=
                 vec_push_back id (alloc_ok e) (home_addr, ent) (fa_registrations f) \<rparr>)
           | Some i \<Rightarrow>
               do { v \<leftarrow> vec_set i (home_addr, ent) (fa_registrations f); Some (f\<lparr> fa_registrations := v \<rparr>) }
      else
        let iter = (case vec_last_index (\<lambda>r. fst r = home_addr) (fa_registrations f) of
                      None \<Rightarrow> 0 | Some i \<Rightarrow> i)
        in do { v \<leftarrow> vec_erase id iter (fa_registrations f); Some (f\<lparr> fa_registrations := v \<rparr>) })"

text \<open>\<^verbatim>\<open>entry\<close> still points to its slot when the port is read, after the slot has been erased.\<close>

definition relayRep ::
  "env \<Rightarrow> relay \<Rightarrow> packet \<Rightarrow> fa \<Rightarrow> (fa \<times> emission list) option" where
  "relayRep e s p f =
     do {
       let d = pdata p;
       let iph = sizeof_click_ether;
       let udph = iph + sizeof_click_ip;
       let reph = udph + sizeof_click_udp;
       let psize = plen p - sizeof_click_ether;
       ok \<leftarrow> udp_cksum_ok d iph udph (psize - sizeof_click_ip);
       if \<not> ok then Some (f, [])
       else do {
         home_address \<leftarrow> ld32 d (reph + RP_HOME_ADDRESS);
         case vec_index (\<lambda>q. ve_ip_src q = home_address) (fa_requests f) of
           None \<Rightarrow> Some (f, [])
         | Some iteration \<Rightarrow>
             do {
               code \<leftarrow> ld8 d (reph + RP_CODE);
               lifetime \<leftarrow> ld16 d (reph + RP_LIFETIME);
               f \<leftarrow> (if code = 0 \<or> code = 1
                     then relay_register e home_address lifetime (vec_elems (fa_requests f) ! iteration) f
                     else Some f);
               v \<leftarrow> vec_erase id iteration (fa_requests f);
               let f = f\<lparr> fa_requests := v \<rparr>;
               pck \<leftarrow> pkt_uniqueify e p;
               let rd = pdata pck;
               rd \<leftarrow> st32 (iph + IP_SRC) (rl_privateIP s) rd;
               rd \<leftarrow> st32 (iph + IP_DST) home_address rd;
               sport \<leftarrow> ld16 (if pshared p then d else rd) (udph + UH_SPORT);
               rd \<leftarrow> st16 (udph + UH_SPORT) sport rd;
               entry \<leftarrow> vec_slot v iteration;
               rd \<leftarrow> st16 (udph + UH_DPORT) (htons (ve_udp_src entry)) rd;
               rd \<leftarrow> st16 (udph + UH_SUM) (htons 0) rd;
               c \<leftarrow> transport_cksum rd iph udph (psize - sizeof_click_ip);
               rd \<leftarrow> st16 (udph + UH_SUM) c rd;
               let pck = pkt_pull 14 (pck\<lparr> pdata := rd, dst_ip_anno := home_address \<rparr>);
               if pshared pck then None else Some (f, [(0, pck)])
             }
       }
     }"

section \<open>Relay::push\<close>

text \<open>The loop over the requests when the home agent \<open>ha\<close> is unreachable. It continues with the
  index after an erased request.\<close>

function relay_unreachable ::
  "env \<Rightarrow> byte \<Rightarrow> ipaddr \<Rightarrow> nat \<Rightarrow> vEntry vec \<Rightarrow> (vEntry vec \<times> emission list) option" where
  "relay_unreachable e code ha i v =
     (if i < vec_size v then
        let q = vec_elems v ! i
        in if ve_home_agent q = ha then
             let w = the (vec_erase id i v)
             in do {
                  o1 \<leftarrow> push_reply e code (ve_ip_dst q) (ve_ip_src q) (ve_udp_src q) (ve_id q) ha;
                  (v, out) \<leftarrow> relay_unreachable e code ha (i + 1) w;
                  Some (v, o1 # out)
                }
           else relay_unreachable e code ha (i + 1) v
      else Some (v, []))"
  by pat_completeness auto
termination
  by (relation "measure (\<lambda>(e, code, ha, i, v). vec_size v - i)")
     (auto simp: vec_size_def vec_erase_def vec_erase_range_def)

declare relay_unreachable.simps [simp del]

text \<open>The byte \<^verbatim>\<open>error\<close> that the code computes from the ICMP code and does not use.\<close>

definition relay_error_code :: "byte \<Rightarrow> byte" where
  "relay_error_code code = (if code = 0 then 80 else if code = 1 then 81 else if code = 3 then 82 else 88)"

definition relay_push ::
  "env \<Rightarrow> nat \<Rightarrow> relay \<Rightarrow> packet \<Rightarrow> fa \<Rightarrow> (fa \<times> emission list) option" where
  "relay_push e rnd s p f =
     do {
       let d = pdata p;
       let iph = sizeof_click_ether;
       proto \<leftarrow> ld8 d (iph + IP_P);
       if proto = 1 then do {
         let icmph = iph + sizeof_click_ip;
         let origip = icmph + sizeof_click_icmp;
         t \<leftarrow> ld8 d icmph;
         if t = 3 then do {
           ha \<leftarrow> ld32 d (origip + IP_DST);
           code \<leftarrow> ld8 d (icmph + 1);
           (v, out) \<leftarrow> relay_unreachable e code ha 0 (fa_requests f);
           Some (f\<lparr> fa_requests := v \<rparr>, out)
         }
         else Some (f, [])
       }
       else do {
         let p_size = plen p - sizeof_click_ether;
         if p_size = sizeof_click_ip + sizeof_click_udp + sizeof_regreq_h then relayReq e rnd s p f
         else if p_size = sizeof_click_ip + sizeof_click_udp + sizeof_regrep_h then relayRep e s p f
         else Some (f, [])
       }
     }"

section \<open>Relay::run_timer\<close>

text \<open>The loop over the pending requests; it stops after the first timeout.\<close>

function relay_age_requests ::
  "env \<Rightarrow> nat \<Rightarrow> vEntry vec \<Rightarrow> (vEntry vec \<times> emission list) option" where
  "relay_age_requests e i v =
     (if i < vec_size v then
        let q = vec_elems v ! i; lifetime = ntohs (ve_remaining_lifetime q)
        in if ve_requested_lifetime q > 0 then
             let q = q\<lparr> ve_remaining_lifetime := htons (lifetime - 1) \<rparr>;
                 w = v\<lparr> vec_elems := (vec_elems v)[i := q] \<rparr>
             in if int (unat (ve_requested_lifetime q)) - int (unat (ve_remaining_lifetime q)) > 7 then
                  do {
                    o1 \<leftarrow> push_reply e 78 (ve_ip_dst q) (ve_ip_src q) (ve_udp_src q)
                           (ucast (htonl (ucast (ve_id q)))) (ve_home_agent q);
                    w \<leftarrow> vec_erase id i w;
                    Some (w, [o1])
                  }
                else relay_age_requests e (i + 1) w
           else relay_age_requests e i (the (vec_erase id i v))
      else Some (v, []))"
  by pat_completeness auto
termination
  by (relation "measure (\<lambda>(e, i, v). vec_size v - i)")
     (auto simp: vec_size_def vec_erase_def vec_erase_range_def)

declare relay_age_requests.simps [simp del]

definition relay_age_registrations :: "(ipaddr \<times> vEntry) vec \<Rightarrow> (ipaddr \<times> vEntry) vec" where
  "relay_age_registrations v =
     (let v = vec_sweep (\<lambda>r. if ve_remaining_lifetime (snd r) \<le> 0 then None else Some r) 0 v
      in v\<lparr> vec_elems := map (\<lambda>r. if ve_remaining_lifetime (snd r) > 0
             then (fst r, (snd r)\<lparr> ve_remaining_lifetime := ve_remaining_lifetime (snd r) - 1 \<rparr>)
             else r) (vec_elems v) \<rparr>)"

definition relay_run_timer :: "env \<Rightarrow> relay \<Rightarrow> fa \<Rightarrow> (relay \<times> fa \<times> emission list) option" where
  "relay_run_timer e s f =
     do {
       let f = f\<lparr> fa_registrations := relay_age_registrations (fa_registrations f) \<rparr>;
       (v, out) \<leftarrow> relay_age_requests e 0 (fa_requests f);
       Some (s\<lparr> rl_timer := Some 1000 \<rparr>, f\<lparr> fa_requests := v \<rparr>, out)
     }"

section \<open>CheckEncap\<close>

definition checkencap_configure :: "unit option \<Rightarrow> int" where
  "checkencap_configure conf = (case conf of None \<Rightarrow> - 1 | Some _ \<Rightarrow> 0)"

definition checkencap_push :: "packet \<Rightarrow> emission list option" where
  "checkencap_push packet =
     do {
       proto \<leftarrow> ld8 (pdata packet) IP_P;
       if proto = 4 then Some [(0, packet)] else Some [(1, packet)]
     }"

section \<open>Replies of the foreign agent\<close>

definition fa_reply_ok :: "byte \<Rightarrow> ipaddr \<Rightarrow> ipaddr \<Rightarrow> u16 \<Rightarrow> u64 \<Rightarrow> ipaddr \<Rightarrow> bytes \<Rightarrow> bool" where
  "fa_reply_ok code ips ipd udpd ident home_agent d \<longleftrightarrow>
     length d = 48 \<and> ip_cksum_ok d 0 \<and> transport_cksum d 0 20 28 = Some 0 \<and>
     get_ip d 0 =
       \<lparr> ip_v = 4, ip_hl = 5, ip_tos = 0, ip_len = htons 48, ip_id = 0, ip_off = 0, ip_ttl = 64,
         ip_p = 17, ip_sum = get16 d IP_SUM, ip_src = ips, ip_dst = ipd \<rparr> \<and>
     get_udp d 20 =
       \<lparr> uh_sport = htons 434, uh_dport = htons udpd, uh_ulen = htons 28, uh_sum = get16 d 26 \<rparr> \<and>
     get_regrep d 28 =
       \<lparr> rp_type = 3, rp_code = code, rp_lifetime = 0, rp_home_address = ipd, rp_home_agent = home_agent,
         rp_identification = ident \<rparr>"

definition fa_reply_ip_bytes :: "ipaddr \<Rightarrow> ipaddr \<Rightarrow> bytes" where
  "fa_reply_ip_bytes ips ipd =
     upd32 IP_DST ipd (upd32 IP_SRC ips (upd8 IP_P 17 (upd8 IP_TTL 64 (upd16 IP_LEN (htons 48)
       (upd8 IP_TOS 0 (upd8 0 0x45 (zeros 48)))))))"

definition fa_reply_bytes :: "byte \<Rightarrow> ipaddr \<Rightarrow> ipaddr \<Rightarrow> u16 \<Rightarrow> u64 \<Rightarrow> ipaddr \<Rightarrow> bytes" where
  "fa_reply_bytes code ips ipd udpd ident home_agent =
     upd32 36 home_agent (upd64 40 ident (upd32 32 ipd (upd16 30 0 (upd8 29 code (upd8 28 3
       (upd16 24 (htons 28) (upd16 22 (htons udpd) (upd16 20 (htons 434)
         (upd16 IP_SUM (click_in_cksum (slice 0 20 (fa_reply_ip_bytes ips ipd)))
           (fa_reply_ip_bytes ips ipd))))))))))"

lemma fa_reply_bytes_fields:
  fixes code :: byte and ips ipd home_agent :: ipaddr and udpd :: u16 and ident :: u64 and c :: u16
  defines "d \<equiv> upd16 26 c (fa_reply_bytes code ips ipd udpd ident home_agent)"
  shows "length d = 48"
    and "get_ip d 0 =
       \<lparr> ip_v = 4, ip_hl = 5, ip_tos = 0, ip_len = htons 48, ip_id = 0, ip_off = 0, ip_ttl = 64,
         ip_p = 17, ip_sum = get16 d IP_SUM, ip_src = ips, ip_dst = ipd \<rparr>"
    and "get_udp d 20 =
       \<lparr> uh_sport = htons 434, uh_dport = htons udpd, uh_ulen = htons 28, uh_sum = get16 d 26 \<rparr>"
    and "get_regrep d 28 =
       \<lparr> rp_type = 3, rp_code = code, rp_lifetime = 0, rp_home_address = ipd, rp_home_agent = home_agent,
         rp_identification = ident \<rparr>"
  by (simp_all add: d_def fa_reply_bytes_def fa_reply_ip_bytes_def mem_simps get_ip_0 get_udp_def get_regrep_def)

lemma fa_reply_bytes_cksum: "ip_cksum_ok (fa_reply_bytes code ips ipd udpd ident home_agent) 0"
  using ip_cksum_fill [of 0 "fa_reply_ip_bytes ips ipd"]
  by (simp add: fa_reply_bytes_def fa_reply_ip_bytes_def mem_simps)

lemma createRep_fill_result:
  obtains f where "createRep_fill code ips ipd udpd ident home_agent 48 (zeros 48) = Some f"
    and "fa_reply_ok code ips ipd udpd ident home_agent f"
proof -
  let ?d = "fa_reply_bytes code ips ipd udpd ident home_agent"
  have "ip_hl_of (get8 ?d 0) = 5" "length ?d = 48" "get16 ?d 26 = 0"
    by (simp_all add: fa_reply_bytes_def fa_reply_ip_bytes_def mem_simps)
  then obtain c where c: "transport_cksum ?d 0 20 28 = Some c"
      "transport_cksum (upd16 26 c ?d) 0 20 28 = Some 0"
    using udp_cksum_fill [of ?d 0 28] by auto
  have "createRep_fill code ips ipd udpd ident home_agent 48 (zeros 48) = Some (upd16 26 c ?d)"
    using c(1) by (simp add: createRep_fill_def fa_reply_bytes_def fa_reply_ip_bytes_def mem_simps Let_def)
  moreover have "fa_reply_ok code ips ipd udpd ident home_agent (upd16 26 c ?d)"
    using c(2) fa_reply_bytes_cksum fa_reply_bytes_fields
    by (simp add: fa_reply_ok_def mem_simps del: One_nat_def)
  ultimately show ?thesis by (rule that)
qed

lemma push_reply_result:
  assumes "alloc_ok e"
  obtains p where "push_reply e code ips ipd udpd ident home_agent = Some (0, p)"
    and "fa_reply_ok code ips ipd udpd ident home_agent (pdata p)" and "dst_ip_anno p = ipd"
proof -
  obtain q where q: "pkt_make e 18 None 48 0 = Some q" "plen q = 48"
    by (rule pkt_make_Some [OF assms])
  obtain f where f: "createRep_fill code ips ipd udpd ident home_agent 48 (zeros 48) = Some f"
    "fa_reply_ok code ips ipd udpd ident home_agent f"
    by (rule createRep_fill_result)
  have "push_reply e code ips ipd udpd ident home_agent = Some (0, q\<lparr> pdata := f, dst_ip_anno := ipd \<rparr>)"
    using q f by (simp add: push_reply_def createRep_def)
  then show ?thesis using f(2) that by simp
qed

section \<open>Relaying a request\<close>

text \<open>The request as \<^verbatim>\<open>Relay\<close> sends it on, before its UDP checksum.\<close>

definition relayed_request :: "fa \<Rightarrow> nat \<Rightarrow> bytes \<Rightarrow> bytes" where
  "relayed_request f rnd d =
     upd16 40 0 (upd16 36 (get16 d 36) (upd16 34 (htons (of_nat (rnd mod 16383 + 49152)))
       (upd32 30 (get32 d 50) (upd32 26 (fa_address f) (upd8 22 64 (upd16 16 (htons 52) d))))))"

definition visitor_of :: "bytes \<Rightarrow> vEntry" where
  "visitor_of d =
     \<lparr> ve_eth_src = slice 6 6 d, ve_ip_src = get32 d 26, ve_ip_dst = get32 d 30,
       ve_udp_src = ntohs (get16 d 34), ve_home_agent = get32 d 50, ve_id = get64 d 58,
       ve_requested_lifetime = ntohs (get16 d 44), ve_remaining_lifetime = ntohs (get16 d 44) \<rparr>"

lemma relayReq_forward:
  assumes "alloc_ok e" and "plen p = 66" and "\<not> pshared p" and "ip_hl_of (get8 (pdata p) 14) = 5"
    and "udp_cksum_ok (pdata p) 14 34 32 = Some True"
    and "relay_reject s f (get8 (pdata p) (42 + RQ_FLAGS)) = None"
  obtains c where "relayReq e rnd s p f =
      Some (f\<lparr> fa_requests := vec_push_back id True (visitor_of (pdata p)) (fa_requests f) \<rparr>,
            [(1, p\<lparr> pdata := upd16 40 c (relayed_request f rnd (pdata p)), dst_ip_anno := get32 (pdata p) 50 \<rparr>)])"
    and "transport_cksum (upd16 40 c (relayed_request f rnd (pdata p))) 14 34 32 = Some 0"
proof -
  let ?d = "relayed_request f rnd (pdata p)"
  have "ip_hl_of (get8 ?d 14) = 5" "length ?d = 66" "get16 ?d 40 = 0"
    using assms(2,4) by (simp_all add: relayed_request_def mem_simps)
  then obtain c where c: "transport_cksum ?d 14 34 32 = Some c"
      "transport_cksum (upd16 40 c ?d) 14 34 32 = Some 0"
    using udp_cksum_fill [of ?d 14 32] by auto
  have "relayReq e rnd s p f =
      Some (f\<lparr> fa_requests := vec_push_back id True (visitor_of (pdata p)) (fa_requests f) \<rparr>,
            [(1, p\<lparr> pdata := upd16 40 c ?d, dst_ip_anno := get32 (pdata p) 50 \<rparr>)])"
    using assms c(1)
    by (simp add: relayReq_def Let_def mem_simps pkt_uniqueify_def visitor_of_def relayed_request_def)
  then show ?thesis using c(2) by (rule that)
qed

section \<open>The visitor list\<close>

text \<open>The registrations as a map from home addresses to visitors; the code keeps one entry for
  each address.\<close>

abbreviation registrations :: "fa \<Rightarrow> (ipaddr \<times> vEntry) list" where
  "registrations f \<equiv> vec_elems (fa_registrations f)"

definition visitors_distinct :: "fa \<Rightarrow> bool" where
  "visitors_distinct f \<longleftrightarrow> distinct (map fst (registrations f))"

lemma relay_register_result:
  assumes "alloc_ok e" and "visitors_distinct f"
  obtains g where "relay_register e a lifetime entry f = Some g"
    and "fa_requests g = fa_requests f" and "fa_address g = fa_address f" and "visitors_distinct g"
    and "lifetime \<noteq> 0 \<Longrightarrow> map_of (registrations g) =
      (map_of (registrations f))(a \<mapsto> entry\<lparr> ve_remaining_lifetime := lifetime \<rparr>)"
    and "lifetime = 0 \<Longrightarrow> map_of (registrations f) a \<noteq> None \<Longrightarrow>
      map_of (registrations g) = (map_of (registrations f))(a := None)"
    and "lifetime = 0 \<Longrightarrow> map_of (registrations f) a = None \<Longrightarrow> registrations g = tl (registrations f)"
proof -
  let ?v = "fa_registrations f" and ?ent = "entry\<lparr> ve_remaining_lifetime := lifetime \<rparr>"
  have dist: "distinct (map fst (registrations f))" using assms(2) by (simp add: visitors_distinct_def)
  show ?thesis
  proof (cases "vec_last_index (\<lambda>r. fst r = a) ?v")
    case None
    then have na: "a \<notin> fst ` set (registrations f)" by (auto simp: vec_last_index_None)
    show ?thesis
    proof (cases "lifetime = 0")
      case False
      have "vec_elems (vec_push_back id True (a, ?ent) ?v) = registrations f @ [(a, ?ent)]"
        by (rule vec.elems_append)
      then show ?thesis
        using False None assms(1) na dist map_of_snoc [OF na, of ?ent]
        by (intro that [of "f\<lparr> fa_registrations := vec_push_back id True (a, ?ent) ?v \<rparr>"])
          (simp_all add: relay_register_def visitors_distinct_def)
    next
      case True
      obtain w where w: "vec_erase id 0 ?v = Some w" "vec_elems w = tl (registrations f)"
      proof (cases "0 < vec_size ?v")
        case True
        then show ?thesis using that vec_erase_elems [OF True, of id] by (auto simp: drop_Suc)
      next
        case False
        then show ?thesis using that [of ?v] by (simp add: vec_erase_def vec_size_def)
      qed
      then show ?thesis
        using True None na dist
        by (intro that [of "f\<lparr> fa_registrations := w \<rparr>"])
          (simp_all add: relay_register_def visitors_distinct_def map_tl distinct_tl map_of_eq_None_iff)
    qed
  next
    case (Some i)
    then have i: "i < vec_size ?v" "fst (registrations f ! i) = a" by (auto dest: vec_last_index_Some)
    then have mem: "map_of (registrations f) a \<noteq> None"
      by (auto simp: map_of_eq_None_iff vec_size_def)
    show ?thesis
    proof (cases "lifetime = 0")
      case False
      obtain w where w: "vec_set i (a, ?ent) ?v = Some w" "vec_elems w = (registrations f)[i := (a, ?ent)]"
        using vec_set_elems [OF i(1)] by blast
      have "map fst (vec_elems w) = map fst (registrations f)"
        using w(2) i by (simp add: map_update list_update_same_conv vec_size_def)
      then show ?thesis
        using False Some w i dist map_of_update_nth [OF dist, of i a ?ent]
        by (intro that [of "f\<lparr> fa_registrations := w \<rparr>"])
          (simp_all add: relay_register_def visitors_distinct_def vec_size_def)
    next
      case True
      obtain w where w: "vec_erase id i ?v = Some w" "vec_elems w = take i (registrations f) @ drop (i + 1) (registrations f)"
        using vec_erase_elems [OF i(1), of id] by auto
      then show ?thesis
        using True Some i mem dist map_of_remove_nth [OF dist, of i a] distinct_remove_nth [OF dist, of i]
        by (intro that [of "f\<lparr> fa_registrations := w \<rparr>"])
          (simp_all add: relay_register_def visitors_distinct_def vec_size_def)
    qed
  qed
qed

section \<open>Relaying a reply\<close>

definition relayed_reply :: "relay \<Rightarrow> u16 \<Rightarrow> bytes \<Rightarrow> bytes" where
  "relayed_reply s port d =
     upd16 40 0 (upd16 36 (htons port) (upd16 34 (get16 d 34)
       (upd32 30 (get32 d 46) (upd32 26 (rl_privateIP s) d))))"

lemma length_relayed [simp]:
  "length (relayed_reply s port d) = length d" "length (relayed_request f rnd d) = length d"
  by (simp_all add: relayed_reply_def relayed_request_def)

lemma relayRep_forward:
  assumes "alloc_ok e" and "visitors_distinct f" and "plen p = 62" and "\<not> pshared p"
    and "ip_hl_of (get8 (pdata p) 14) = 5" and "udp_cksum_ok (pdata p) 14 34 28 = Some True"
    and "vec_index (\<lambda>q. ve_ip_src q = get32 (pdata p) (42 + RP_HOME_ADDRESS)) (fa_requests f) = Some i"
  defines "code \<equiv> get8 (pdata p) (42 + RP_CODE)"
  defines "entry \<equiv> vec_elems (fa_requests f) ! i"
  defines "port \<equiv> ve_udp_src (if i + 1 < vec_size (fa_requests f) then vec_elems (fa_requests f) ! (i + 1) else entry)"
  obtains g v c where "relayRep e s p f =
      Some (g\<lparr> fa_requests := v \<rparr>, [(0, pkt_pull 14 (p\<lparr>
        pdata := upd16 40 c (relayed_reply s port (pdata p)), dst_ip_anno := get32 (pdata p) 46 \<rparr>))])"
    and "(if code = 0 \<or> code = 1
          then relay_register e (get32 (pdata p) 46) (get16 (pdata p) 44) entry f else Some f) = Some g"
    and "vec_elems v = take i (vec_elems (fa_requests f)) @ drop (i + 1) (vec_elems (fa_requests f))"
    and "transport_cksum (upd16 40 c (relayed_reply s port (pdata p))) 14 34 28 = Some 0"
proof -
  have i: "i < vec_size (fa_requests f)" using assms(7) by (simp add: vec_index_Some)
  obtain k where k: "relay_register e (get32 (pdata p) 46) (get16 (pdata p) 44) entry f = Some k"
    "fa_requests k = fa_requests f"
    by (rule relay_register_result [OF assms(1,2)])
  then obtain g where g: "(if code = 0 \<or> code = 1
      then relay_register e (get32 (pdata p) 46) (get16 (pdata p) 44) entry f else Some f) = Some g"
    "fa_requests g = fa_requests f"
    by (cases "code = 0 \<or> code = 1") auto
  obtain v where v: "vec_erase id i (fa_requests f) = Some v"
    "vec_elems v = take i (vec_elems (fa_requests f)) @ drop (i + 1) (vec_elems (fa_requests f))"
    using vec_erase_elems [OF i, of id] by auto
  obtain q where slot: "vec_slot v i = Some q" "port = ve_udp_src q"
    using vec_slot_erased [OF i v(1)] unfolding port_def entry_def by blast
  let ?d = "relayed_reply s port (pdata p)"
  have "ip_hl_of (get8 ?d 14) = 5" "length ?d = 62" "get16 ?d 40 = 0"
    using assms(3,5) by (simp_all add: relayed_reply_def mem_simps)
  then obtain c where c: "transport_cksum ?d 14 34 28 = Some c" "transport_cksum (upd16 40 c ?d) 14 34 28 = Some 0"
    using udp_cksum_fill [of ?d 14 28] by auto
  have "relayRep e s p f = Some (g\<lparr> fa_requests := v \<rparr>, [(0, pkt_pull 14 (p\<lparr>
        pdata := upd16 40 c ?d, dst_ip_anno := get32 (pdata p) 46 \<rparr>))])"
    using assms(3,4,6,7) g v(1) slot c(1)
    by (cases "code = 0 \<or> code = 1")
      (auto simp: relayRep_def Let_def mem_simps pkt_uniqueify_def relayed_reply_def code_def entry_def
        pkt_pull_def)
  then show ?thesis using g(1) v(2) c(2) by (rule that)
qed

section \<open>Properties\<close>

text \<open>C11: A registration request that the foreign agent does not reject is relayed to the home
  agent it names: one packet on port 1, from the agent's address and an ephemeral port, with a
  verifying UDP checksum and the registration message unchanged; the request is appended to
  the pending list with the sender's address, port and identification.\<close>

theorem relayReq_relays:
  assumes "alloc_ok e" and "plen p = 66" and "\<not> pshared p" and "ip_hl_of (get8 (pdata p) 14) = 5"
    and "udp_cksum_ok (pdata p) 14 34 32 = Some True"
    and "relay_reject s f (get8 (pdata p) (42 + RQ_FLAGS)) = None"
  shows "\<exists>g q. relayReq e rnd s p f = Some (g, [(1, q)]) \<and>
    vec_elems (fa_requests g) = vec_elems (fa_requests f) @ [visitor_of (pdata p)] \<and>
    transport_cksum (pdata q) 14 34 32 = Some 0 \<and>
    ip_src (get_ip (pdata q) 14) = fa_address f \<and>
    ip_dst (get_ip (pdata q) 14) = rq_home_agent (get_regreq (pdata p) 42) \<and>
    dst_ip_anno q = rq_home_agent (get_regreq (pdata p) 42) \<and>
    uh_dport (get_udp (pdata q) 34) = uh_dport (get_udp (pdata p) 34) \<and>
    49152 \<le> unat (ntohs (uh_sport (get_udp (pdata q) 34))) \<and>
    get_regreq (pdata q) 42 = get_regreq (pdata p) 42"
proof -
  obtain c where c: "relayReq e rnd s p f =
      Some (f\<lparr> fa_requests := vec_push_back id True (visitor_of (pdata p)) (fa_requests f) \<rparr>,
            [(1, p\<lparr> pdata := upd16 40 c (relayed_request f rnd (pdata p)), dst_ip_anno := get32 (pdata p) 50 \<rparr>)])"
    "transport_cksum (upd16 40 c (relayed_request f rnd (pdata p))) 14 34 32 = Some 0"
    by (rule relayReq_forward [OF assms])
  have "unat (of_nat (rnd mod 16383 + 49152) :: u16) = rnd mod 16383 + 49152"
    by (rule unat_word_of_nat) (use mod_less_divisor [of 16383 rnd] in simp)
  then show ?thesis
    using c assms(2)
    by (simp add: vec.elems_append relayed_request_def get_ip_def get_udp_def get_regreq_def mem_simps)
qed

text \<open>The test for an unavailable encapsulation overrides the others; the comment beside it
  announces code 72, the code answers with 70.\<close>

lemma relay_encapsulation_code:
  "bit flags 3 \<or> bit flags 4 \<Longrightarrow> relay_reject s f flags = Some 70"
  by (simp add: relay_reject_def)



text \<open>C12: A reply whose request is the last pending one is relayed back to the mobile node: one IP
  packet on port 0 to the node's home address and the port its request came from, with a
  verifying UDP checksum and the registration message unchanged; the request leaves the
  pending list. A denial leaves the registrations as they are; an acceptance (code 0 or 1) with a
  non-zero lifetime enters the node, replacing an older entry, and one with lifetime 0 removes
  the node's entry, while the other nodes' entries stay. Only when a node without an entry
  deregisters, the first entry of the list is lost.\<close>

theorem relayRep_relays:
  assumes "alloc_ok e" and "visitors_distinct f" and "plen p = 62" and "\<not> pshared p"
    and "ip_hl_of (get8 (pdata p) 14) = 5" and "udp_cksum_ok (pdata p) 14 34 28 = Some True"
    and "vec_index (\<lambda>q. ve_ip_src q = get32 (pdata p) (42 + RP_HOME_ADDRESS)) (fa_requests f) = Some i"
    and "i + 1 = vec_size (fa_requests f)"
  shows "\<exists>g q. relayRep e s p f = Some (g, [(0, q)]) \<and> visitors_distinct g \<and>
    vec_elems (fa_requests g) = butlast (vec_elems (fa_requests f)) \<and>
    map_of (registrations g) =
      (if get8 (pdata p) 43 \<noteq> 0 \<and> get8 (pdata p) 43 \<noteq> 1 then map_of (registrations f)
       else if get16 (pdata p) 44 \<noteq> 0
       then (map_of (registrations f))(get32 (pdata p) 46 \<mapsto>
         (last (vec_elems (fa_requests f)))\<lparr> ve_remaining_lifetime := get16 (pdata p) 44 \<rparr>)
       else if map_of (registrations f) (get32 (pdata p) 46) \<noteq> None
       then (map_of (registrations f))(get32 (pdata p) 46 := None)
       else map_of (tl (registrations f))) \<and>
    plen q = 48 \<and> transport_cksum (pdata q) 0 20 28 = Some 0 \<and>
    ip_dst (get_ip (pdata q) 0) = get32 (pdata p) 46 \<and> ip_src (get_ip (pdata q) 0) = rl_privateIP s \<and>
    dst_ip_anno q = get32 (pdata p) 46 \<and>
    uh_dport (get_udp (pdata q) 20) = htons (ve_udp_src (last (vec_elems (fa_requests f)))) \<and>
    get_regrep (pdata q) 28 = get_regrep (pdata p) 42"
proof -
  let ?e = "vec_elems (fa_requests f) ! i" and ?code = "get8 (pdata p) 43"
    and ?life = "get16 (pdata p) 44" and ?home = "get32 (pdata p) 46"
  have len: "length (vec_elems (fa_requests f)) = Suc i" using assms(8) by (simp add: vec_size_def)
  then have last: "last (vec_elems (fa_requests f)) = ?e"
    by (subst last_conv_nth) auto
  obtain g v c where r: "relayRep e s p f = Some (g\<lparr> fa_requests := v \<rparr>, [(0, pkt_pull 14 (p\<lparr>
        pdata := upd16 40 c (relayed_reply s (ve_udp_src ?e) (pdata p)), dst_ip_anno := ?home \<rparr>))])"
    "(if ?code = 0 \<or> ?code = 1 then relay_register e ?home ?life ?e f else Some f) = Some g"
    "vec_elems v = take i (vec_elems (fa_requests f)) @ drop (i + 1) (vec_elems (fa_requests f))"
    "transport_cksum (upd16 40 c (relayed_reply s (ve_udp_src ?e) (pdata p))) 14 34 28 = Some 0"
    by (rule relayRep_forward [OF assms(1-7), of s]) (use assms(8) in simp)
  obtain k where k: "relay_register e ?home ?life ?e f = Some k" "visitors_distinct k"
    "?life \<noteq> 0 \<Longrightarrow> map_of (registrations k) = (map_of (registrations f))(?home \<mapsto> ?e\<lparr> ve_remaining_lifetime := ?life \<rparr>)"
    "?life = 0 \<Longrightarrow> map_of (registrations f) ?home \<noteq> None \<Longrightarrow>
      map_of (registrations k) = (map_of (registrations f))(?home := None)"
    "?life = 0 \<Longrightarrow> map_of (registrations f) ?home = None \<Longrightarrow> registrations k = tl (registrations f)"
    by (rule relay_register_result [OF assms(1,2), of ?home ?life ?e]) (rule that; simp)
  have g: "visitors_distinct g" "map_of (registrations g) =
      (if ?code \<noteq> 0 \<and> ?code \<noteq> 1 then map_of (registrations f)
       else if ?life \<noteq> 0 then (map_of (registrations f))(?home \<mapsto> ?e\<lparr> ve_remaining_lifetime := ?life \<rparr>)
       else if map_of (registrations f) ?home \<noteq> None then (map_of (registrations f))(?home := None)
       else map_of (tl (registrations f)))"
    using r(2) k assms(2) by (auto split: if_splits)
  have v: "vec_elems v = butlast (vec_elems (fa_requests f))"
    using r(3) len by (simp add: butlast_conv_take)
  let ?q = "pkt_pull 14 (p\<lparr> pdata := upd16 40 c (relayed_reply s (ve_udp_src ?e) (pdata p)), dst_ip_anno := ?home \<rparr>)"
  have "plen ?q = 48" "dst_ip_anno ?q = ?home"
    using assms(3) by (simp_all add: pkt_pull_def)
  moreover have "transport_cksum (pdata ?q) 0 20 28 = Some 0"
    using r(4) assms(3) by (simp add: pkt_pull_data transport_cksum_drop)
  moreover have "ip_dst (get_ip (pdata ?q) 0) = ?home \<and> ip_src (get_ip (pdata ?q) 0) = rl_privateIP s \<and>
    uh_dport (get_udp (pdata ?q) 20) = htons (ve_udp_src ?e) \<and> get_regrep (pdata ?q) 28 = get_regrep (pdata p) 42"
    using assms(3)
    by (simp add: pkt_pull_data get_headers_drop)
      (simp add: relayed_reply_def get_ip_def get_udp_def get_regrep_def mem_simps)
  ultimately show ?thesis
    unfolding last
    by (intro exI [of _ "g\<lparr> fa_requests := v \<rparr>"] exI [of _ ?q])
      (use r(1) g v in \<open>simp add: visitors_distinct_def\<close>)
qed

text \<open>When another request was entered after the one a reply answers, the reply is relayed to
  the wrong port: the code reads the port through a pointer to the erased slot, which by then
  holds the next pending request.\<close>

theorem relayRep_wrong_port:
  assumes "alloc_ok e" and "visitors_distinct f" and "plen p = 62" and "\<not> pshared p"
    and "ip_hl_of (get8 (pdata p) 14) = 5" and "udp_cksum_ok (pdata p) 14 34 28 = Some True"
    and "vec_index (\<lambda>q. ve_ip_src q = get32 (pdata p) (42 + RP_HOME_ADDRESS)) (fa_requests f) = Some i"
    and "i + 1 < vec_size (fa_requests f)"
  shows "\<exists>g q. relayRep e s p f = Some (g, [(0, q)]) \<and>
    uh_dport (get_udp (pdata q) 20) = htons (ve_udp_src (vec_elems (fa_requests f) ! (i + 1)))"
proof -
  let ?port = "ve_udp_src (vec_elems (fa_requests f) ! (i + 1))"
  obtain g v c where "relayRep e s p f = Some (g\<lparr> fa_requests := v \<rparr>, [(0, pkt_pull 14 (p\<lparr>
        pdata := upd16 40 c (relayed_reply s ?port (pdata p)), dst_ip_anno := get32 (pdata p) 46 \<rparr>))])"
    by (rule relayRep_forward [OF assms(1-7), of s]) (use assms(8) in simp)
  then show ?thesis
    using assms(3)
    by (simp add: pkt_pull_data get_headers_drop) (simp add: relayed_reply_def get_udp_def mem_simps)
qed

text \<open>A reply that grants lifetime 0 to a node without a registration deletes the registration
  of another node, the first one of the list.\<close>

theorem relay_deregister_removes_other:
  assumes "alloc_ok e" and "visitors_distinct f" and "map_of (registrations f) a = None"
    and "registrations f = (b, other) # rest"
  shows "\<exists>g. relay_register e a 0 entry f = Some g \<and> registrations g = rest \<and>
    map_of (registrations f) b = Some other \<and> map_of (registrations g) b = None"
proof -
  obtain g where "relay_register e a 0 entry f = Some g" "registrations g = tl (registrations f)"
    using relay_register_result [OF assms(1,2), of a 0 entry] assms(3) by metis
  then show ?thesis
    using assms(2,4) by (auto simp: visitors_distinct_def map_of_eq_None_iff)
qed

text \<open>C37: The timer's pass over the registrations removes exactly those with no lifetime left and
  takes one second off each of the others, keeping their order: the loop that erases while it
  iterates, followed by the loop that decrements, computes this filter.\<close>

theorem relay_age_registrations_spec:
  "vec_elems (relay_age_registrations v) =
     map (\<lambda>(a, q). (a, q\<lparr> ve_remaining_lifetime := ve_remaining_lifetime q - 1 \<rparr>))
       (filter (\<lambda>(a, q). ve_remaining_lifetime q \<noteq> 0) (vec_elems v))"
proof -
  have "map (\<lambda>r. if ve_remaining_lifetime (snd r) > 0
         then (fst r, (snd r)\<lparr> ve_remaining_lifetime := ve_remaining_lifetime (snd r) - 1 \<rparr>) else r)
       (List.map_filter (\<lambda>r. if ve_remaining_lifetime (snd r) \<le> 0 then None else Some r) xs) =
     map (\<lambda>(a, q). (a, q\<lparr> ve_remaining_lifetime := ve_remaining_lifetime q - 1 \<rparr>))
       (filter (\<lambda>(a, q). ve_remaining_lifetime q \<noteq> 0) xs)" for xs :: "(ipaddr \<times> vEntry) list"
    by (induction xs) (auto simp: List.map_filter_simps word_gt_0)
  then show ?thesis by (simp add: relay_age_registrations_def Let_def vec.elems_sweep)
qed

text \<open>When the home agent is reported unreachable and two adjacent pending requests are for
  it, only the first is answered and removed; the loop steps over the second. The answer
  carries the ICMP code itself, not the registration code that the handler derives from it.\<close>

theorem relay_unreachable_skips:
  assumes "alloc_ok e" and "vec_elems v = [q1, q2]" and "ve_home_agent q1 = ha" and "ve_home_agent q2 = ha"
  shows "\<exists>w p. relay_unreachable e code ha 0 v = Some (w, [(0, p)]) \<and> vec_elems w = [q2] \<and>
    rp_code (get_regrep (pdata p) 28) = code"
proof -
  obtain p where p: "push_reply e code (ve_ip_dst q1) (ve_ip_src q1) (ve_udp_src q1) (ve_id q1) ha = Some (0, p)"
    "fa_reply_ok code (ve_ip_dst q1) (ve_ip_src q1) (ve_udp_src q1) (ve_id q1) ha (pdata p)"
    by (rule push_reply_result [OF assms(1)])
  let ?w = "the (vec_erase id 0 v)"
  have w: "vec_elems ?w = [q2]"
    using vec.elems_remove [of 0 v] assms(2) by simp
  then have "relay_unreachable e code ha 1 ?w = Some (?w, [])"
    by (subst relay_unreachable.simps) (simp add: vec_size_def)
  then have "relay_unreachable e code ha 0 v = Some (?w, [(0, p)])"
    using assms(2,3) p(1) by (subst relay_unreachable.simps) (simp add: vec_size_def Let_def)
  then show ?thesis using w p(2) by (simp add: fa_reply_ok_def)
qed

section \<open>The timeout of a pending request\<close>

primrec relay_ticks :: "env \<Rightarrow> nat \<Rightarrow> relay \<times> fa \<Rightarrow> ((relay \<times> fa) \<times> emission list) option" where
  "relay_ticks e 0 st = Some (st, [])"
| "relay_ticks e (Suc n) st =
     do {
       (st, out) \<leftarrow> relay_ticks e n st;
       (s, f, out') \<leftarrow> relay_run_timer e (fst st) (snd st);
       Some ((s, f), out @ out')
     }"

lemma swapped_counter:
  assumes "0 < k" and "k < 2048"
  shows "\<not> (7 < int 100 - int (unat (htons (25600 - of_nat k :: u16))))"
proof -
  have "k < 2 ^ LENGTH(16)" using assms(2) by simp
  then have uk: "unat (of_nat k :: u16) = k" by (rule unat_word_of_nat)
  moreover have "(of_nat k :: u16) \<le> 25600" using assms(2) uk by (simp add: word_le_nat_alt)
  ultimately have x: "unat (25600 - of_nat k :: u16) = 25600 - k" by (simp add: unat_sub)
  let ?x = "25600 - k"
  have "93 \<le> ?x div 256 + 256 * (?x mod 256)"
  proof (cases "?x mod 256 = 0")
    case True
    then have "256 dvd ?x" by (rule mod_0_imp_dvd)
    then obtain d where d: "?x = 256 * d" by (rule dvdE)
    then have "93 \<le> d" using assms(2) by linarith
    then show ?thesis using d by simp
  qed linarith
  then show ?thesis by (simp add: unat_htons x)
qed

lemma relay_age_single:
  assumes "vec_elems v = [q\<lparr> ve_remaining_lifetime := htons (25600 - of_nat n) \<rparr>]"
    and "ve_requested_lifetime q = 100" and "n + 1 < 2048"
  obtains w where "relay_age_requests e 0 v = Some (w, [])"
    and "vec_elems w = [q\<lparr> ve_remaining_lifetime := htons (25600 - of_nat (n + 1)) \<rparr>]"
proof -
  let ?q = "q\<lparr> ve_remaining_lifetime := htons (25600 - of_nat (n + 1)) \<rparr>"
  let ?w = "v\<lparr> vec_elems := [?q] \<rparr>"
  have eq: "25600 - of_nat n - 1 = (25600 - of_nat (n + 1) :: u16)" by simp
  have "relay_age_requests e 1 ?w = Some (?w, [])"
    by (subst relay_age_requests.simps) (simp add: vec_size_def)
  moreover have "unat (100 :: u16) = 100" by simp
  ultimately have "relay_age_requests e 0 v = Some (?w, [])"
    using assms swapped_counter [of "n + 1"] eq
    by (subst relay_age_requests.simps) (simp add: vec_size_def Let_def)
  then show ?thesis by (rule that) simp
qed

text \<open>A request asked for 100 seconds does not time out after the intended 7 seconds: the
  timer converts the byte order of a counter that is kept in host order, and for 2047 timer
  events the request stays pending and no timeout reply is sent.\<close>

theorem relay_timeout_late:
  assumes "vec_elems (fa_requests f) = [q]" and "ve_requested_lifetime q = 100"
    and "ve_remaining_lifetime q = 100" and "n < 2048"
  shows "\<exists>s' f' q'. relay_ticks e n (s, f) = Some ((s', f'), []) \<and> vec_elems (fa_requests f') = [q'] \<and>
    ve_ip_src q' = ve_ip_src q"
proof -
  have "\<exists>s' f'. relay_ticks e n (s, f) = Some ((s', f'), []) \<and>
      vec_elems (fa_requests f') = [q\<lparr> ve_remaining_lifetime := htons (25600 - of_nat n) \<rparr>]"
    using assms(4)
  proof (induction n)
    case 0
    have "htons 25600 = (100 :: u16)" by (simp add: htons_def le16_def lo8_def hi8_def)
    then show ?case using assms(1,3) by simp
  next
    case (Suc n)
    then obtain s' f' where t: "relay_ticks e n (s, f) = Some ((s', f'), [])"
      "vec_elems (fa_requests f') = [q\<lparr> ve_remaining_lifetime := htons (25600 - of_nat n) \<rparr>]"
      by auto
    obtain w where "relay_age_requests e 0 (fa_requests f') = Some (w, [])"
      "vec_elems w = [q\<lparr> ve_remaining_lifetime := htons (25600 - of_nat (n + 1)) \<rparr>]"
      by (rule relay_age_single [OF t(2) assms(2), of e]) (use Suc.prems in simp)
    then show ?case using t(1) by (simp add: relay_run_timer_def Let_def)
  qed
  then show ?thesis by auto
qed

section \<open>Witnesses\<close>

text \<open>A request and a reply in an Ethernet frame, without UDP checksum, and a foreign agent with
  two pending requests and one registration.\<close>

definition sample_frame :: "nat \<Rightarrow> byte \<Rightarrow> packet" where
  "sample_frame n flags = the (pkt_make env0 4 (Some (upd32 50 0xFE02A8C0 (upd32 46 0x0102A8C0
     (upd16 44 (htons 100) (upd8 43 flags (upd8 42 1 (upd16 34 (htons 5) (upd32 30 0xFE03A8C0 (upd32 26 0x0102A8C0
       (upd8 23 17 (upd8 14 0x45 (zeros n)))))))))))) n 0)"

definition sample_visitor :: "ipaddr \<Rightarrow> u16 \<Rightarrow> vEntry" where
  "sample_visitor a port = \<lparr> ve_eth_src = zeros 6, ve_ip_src = a, ve_ip_dst = 0xFE03A8C0, ve_udp_src = port,
     ve_home_agent = 0xFE02A8C0, ve_id = 77, ve_requested_lifetime = 100, ve_remaining_lifetime = 100 \<rparr>"

definition sample_fa :: "vEntry list \<Rightarrow> fa" where
  "sample_fa reqs = \<lparr> fa_address = 0x0300A8C0, fa_requests = \<lparr> vec_elems = reqs, vec_dead = [] \<rparr>,
     fa_registrations = \<lparr> vec_elems = [(0x0902A8C0, sample_visitor 0x0902A8C0 9)], vec_dead = [] \<rparr> \<rparr>"

definition sample_relay :: relay where
  "sample_relay = \<lparr> rl_privateIP = 0xFE03A8C0, rl_registrationLimit = - 1, rl_timer = None \<rparr>"

lemma sample_frame_data:
  assumes "n = 66 \<or> n = 62"
  shows "plen (sample_frame n fl) = n" "\<not> pshared (sample_frame n fl)" "get8 (pdata (sample_frame n fl)) 14 = 0x45"
    "get8 (pdata (sample_frame n fl)) 43 = fl" "get16 (pdata (sample_frame n fl)) 40 = 0"
    "get16 (pdata (sample_frame n fl)) 44 = htons 100" "get32 (pdata (sample_frame n fl)) 46 = 0x0102A8C0"
  using assms
  by (auto simp: sample_frame_def mem_simps) (simp_all add: pkt_make_def alloc_data_def Let_def)

lemma sample_frame_cksum:
  assumes "n = 66 \<or> n = 62"
  shows "udp_cksum_ok (pdata (sample_frame n fl)) 14 34 (n - 34) = Some True"
  using assms by (intro udp_cksum_ok_absent) (auto simp: sample_frame_data)

lemma sample_fa_distinct: "visitors_distinct (sample_fa reqs)"
  by (simp add: visitors_distinct_def sample_fa_def)

lemma sample_fa_visitors [simp]:
  "vec_elems (fa_requests (sample_fa reqs)) = reqs" "vec_size (fa_requests (sample_fa reqs)) = length reqs"
  "registrations (sample_fa reqs) = [(0x0902A8C0, sample_visitor 0x0902A8C0 9)]"
  by (simp_all add: sample_fa_def vec_size_def)

lemma sample_visitor_fields [simp]:
  "ve_ip_src (sample_visitor a port) = a" "ve_udp_src (sample_visitor a port) = port"
  "ve_home_agent (sample_visitor a port) = 0xFE02A8C0" "ve_requested_lifetime (sample_visitor a port) = 100"
  "ve_remaining_lifetime (sample_visitor a port) = 100"
  by (simp_all add: sample_visitor_def)

theorem relayReq_relays_witness:
  "\<exists>g q. relayReq env0 7 sample_relay (sample_frame 66 0) (sample_fa []) = Some (g, [(1, q)]) \<and>
     ip_dst (get_ip (pdata q) 14) = rq_home_agent (get_regreq (pdata (sample_frame 66 0)) 42) \<and>
     length (vec_elems (fa_requests g)) = 1"
proof -
  have "relay_reject sample_relay (sample_fa []) (get8 (pdata (sample_frame 66 0)) (42 + RQ_FLAGS)) = None"
    by (simp add: sample_frame_data relay_reject_def sample_relay_def)
  moreover have "udp_cksum_ok (pdata (sample_frame 66 0)) 14 34 32 = Some True"
    using sample_frame_cksum [of 66 0] by simp
  ultimately have "\<exists>g q. relayReq env0 7 sample_relay (sample_frame 66 0) (sample_fa []) = Some (g, [(1, q)]) \<and>
      vec_elems (fa_requests g) = vec_elems (fa_requests (sample_fa [])) @ [visitor_of (pdata (sample_frame 66 0))] \<and>
      ip_dst (get_ip (pdata q) 14) = rq_home_agent (get_regreq (pdata (sample_frame 66 0)) 42)"
    using relayReq_relays [of env0 "sample_frame 66 0" sample_relay "sample_fa []" 7]
    by (auto simp: sample_frame_data)
  then show ?thesis by fastforce
qed


text \<open>An accepted registration, and a denial, while another node is registered.\<close>

theorem relayRep_relays_witness:
  "(\<exists>g q. relayRep env0 sample_relay (sample_frame 62 0) (sample_fa [sample_visitor 0x0102A8C0 5]) = Some (g, [(0, q)]) \<and>
     map_of (registrations g) 0x0102A8C0 =
       Some ((sample_visitor 0x0102A8C0 5)\<lparr> ve_remaining_lifetime := htons 100 \<rparr>) \<and>
     map_of (registrations g) 0x0902A8C0 = Some (sample_visitor 0x0902A8C0 9)) \<and>
   (\<exists>g q. relayRep env0 sample_relay (sample_frame 62 131) (sample_fa [sample_visitor 0x0102A8C0 5]) = Some (g, [(0, q)]) \<and>
     map_of (registrations g) 0x0102A8C0 = None \<and> vec_elems (fa_requests g) = [])"
proof -
  let ?f = "sample_fa [sample_visitor 0x0102A8C0 5]"
  have "udp_cksum_ok (pdata (sample_frame 62 fl)) 14 34 28 = Some True" for fl
    using sample_frame_cksum [of 62 fl] by simp
  moreover have "vec_index (\<lambda>q. ve_ip_src q = get32 (pdata (sample_frame 62 fl)) (42 + RP_HOME_ADDRESS)) (fa_requests ?f) = Some 0" for fl
    by (simp add: sample_frame_data vec_index_def)
  moreover have "htons 100 \<noteq> (0 :: u16)" by (simp add: htons_def le16_def lo8_def hi8_def)
  ultimately show ?thesis
    using relayRep_relays [of env0 ?f "sample_frame 62 0" 0 sample_relay]
      relayRep_relays [of env0 ?f "sample_frame 62 131" 0 sample_relay]
    by (auto simp: sample_frame_data sample_fa_distinct)
qed

theorem relayRep_wrong_port_witness:
  "\<exists>g q. relayRep env0 sample_relay (sample_frame 62 0)
       (sample_fa [sample_visitor 0x0102A8C0 5, sample_visitor 0x0702A8C0 6]) = Some (g, [(0, q)]) \<and>
     uh_dport (get_udp (pdata q) 20) = htons 6"
proof -
  let ?f = "sample_fa [sample_visitor 0x0102A8C0 5, sample_visitor 0x0702A8C0 6]"
  have "udp_cksum_ok (pdata (sample_frame 62 0)) 14 34 28 = Some True"
    using sample_frame_cksum [of 62 0] by simp
  moreover have "vec_index (\<lambda>q. ve_ip_src q = get32 (pdata (sample_frame 62 0)) (42 + RP_HOME_ADDRESS)) (fa_requests ?f) = Some 0"
    by (simp add: sample_frame_data vec_index_def)
  ultimately show ?thesis
    using relayRep_wrong_port [of env0 ?f "sample_frame 62 0" 0 sample_relay]
    by (auto simp: sample_frame_data sample_fa_distinct)
qed

theorem relay_deregister_removes_other_witness:
  "\<exists>g. relay_register env0 0x0102A8C0 0 (sample_visitor 0x0102A8C0 5) (sample_fa []) = Some g \<and>
     map_of (registrations (sample_fa [])) 0x0902A8C0 = Some (sample_visitor 0x0902A8C0 9) \<and>
     map_of (registrations g) 0x0902A8C0 = None"
  using relay_deregister_removes_other [of env0 "sample_fa []" "0x0102A8C0" "0x0902A8C0"
      "sample_visitor 0x0902A8C0 9" "[]" "sample_visitor 0x0102A8C0 5"]
  by (auto simp: sample_fa_distinct)

theorem relay_unreachable_skips_witness:
  "\<exists>w p. relay_unreachable env0 1 0xFE02A8C0 0
       (fa_requests (sample_fa [sample_visitor 0x0102A8C0 5, sample_visitor 0x0702A8C0 6])) = Some (w, [(0, p)]) \<and>
     vec_elems w = [sample_visitor 0x0702A8C0 6] \<and> rp_code (get_regrep (pdata p) 28) = 1"
  using relay_unreachable_skips [of env0
      "fa_requests (sample_fa [sample_visitor 0x0102A8C0 5, sample_visitor 0x0702A8C0 6])"
      "sample_visitor 0x0102A8C0 5" "sample_visitor 0x0702A8C0 6" "0xFE02A8C0" 1]
  by simp

theorem relay_timeout_late_witness:
  "\<exists>s' f' q'. relay_ticks env0 60 (sample_relay, sample_fa [sample_visitor 0x0102A8C0 5]) = Some ((s', f'), []) \<and>
     vec_elems (fa_requests f') = [q'] \<and> ve_ip_src q' = 0x0102A8C0"
  using relay_timeout_late [of "sample_fa [sample_visitor 0x0102A8C0 5]" "sample_visitor 0x0102A8C0 5" 60
      env0 sample_relay]
  by simp

end
