(* ===== verification/Click_IPRouteTable.thy ===== *)
theory Click_IPRouteTable
  imports Click_IPAddress Click_Packet
begin

text \<open>
  The class \<^verbatim>\<open>IPRouteTable\<close> (\<^verbatim>\<open>elements/ip/iproutetable.hh\<close>, \<^verbatim>\<open>iproutetable.cc\<close>): routes, and what
  every routing element inherits -- \<^verbatim>\<open>configure\<close>, \<^verbatim>\<open>run_command\<close>, the write handlers and the
  transaction of \<^verbatim>\<open>ctrl_handler\<close>. The virtual functions \<^verbatim>\<open>add_route\<close> and \<^verbatim>\<open>remove_route\<close> are
  arguments of these definitions; they return the error code, the route stored through the
  output pointer (\<open>None\<close> when it is not written) and the new state of the table. \<open>None\<close> as a
  whole is a failed assertion.

  Text is parsed by \<^verbatim>\<open>cp_ip_route\<close> with the argument parsers of Click; the model starts from the
  parsed route, \<open>None\<close> when the text is malformed. A control request is the list of its lines.

  The locale \<open>route_table\<close> states the contract that the comment of \<^verbatim>\<open>iproutetable.hh\<close> gives for
  the virtual functions, over the map from prefixes to gateways and ports that a table stands
  for; in it we prove what the commands do and that a failing transaction is rolled back.
\<close>

section \<open>The program\<close>

text \<open>\<^verbatim>\<open>IPRoute\<close>. The port is an \<^verbatim>\<open>int32_t\<close>, which is negative in dead routes and in removal
  requests; \<^verbatim>\<open>extra\<close> only ever holds indices and command codes.\<close>

record iproute =
  rt_addr :: ipaddr
  rt_mask :: ipaddr
  rt_gw :: ipaddr
  rt_port :: int
  rt_extra :: nat

definition rt_real :: "iproute \<Rightarrow> bool" where
  "rt_real r \<longleftrightarrow> rt_port r > - 0x80000000"

definition rt_kill :: "iproute \<Rightarrow> iproute" where
  "rt_kill r = r\<lparr> rt_addr := 0, rt_mask := 0xFFFFFFFF, rt_port := - 0x80000000 \<rparr>"

definition rt_contains :: "iproute \<Rightarrow> ipaddr \<Rightarrow> bool" where
  "rt_contains r a \<longleftrightarrow> matches_prefix a (rt_addr r) (rt_mask r)"

definition rt_contains_route :: "iproute \<Rightarrow> iproute \<Rightarrow> bool" where
  "rt_contains_route s r \<longleftrightarrow>
     matches_prefix (rt_addr r) (rt_addr s) (rt_mask s) \<and> mask_as_specific (rt_mask r) (rt_mask s)"

definition rt_match :: "iproute \<Rightarrow> iproute \<Rightarrow> bool" where
  "rt_match s r \<longleftrightarrow> rt_addr s = rt_addr r \<and> rt_mask s = rt_mask r \<and>
     (rt_port s < 0 \<or> (rt_gw s = rt_gw r \<and> rt_port s = rt_port r))"

text \<open>Error numbers of Linux.\<close>

definition ENOENT :: int where "ENOENT = 2"
definition EEXIST :: int where "EEXIST = 17"
definition EINVAL :: int where "EINVAL = 22"

datatype rt_command = CMD_ADD | CMD_SET | CMD_REMOVE

definition cmd_code :: "rt_command \<Rightarrow> nat" where
  "cmd_code c = (case c of CMD_ADD \<Rightarrow> 0 | CMD_SET \<Rightarrow> 1 | CMD_REMOVE \<Rightarrow> 2)"

type_synonym 't add_op = "iproute \<Rightarrow> bool \<Rightarrow> 't \<Rightarrow> (int \<times> iproute option \<times> 't) option"
type_synonym 't remove_op = "iproute \<Rightarrow> 't \<Rightarrow> (int \<times> iproute option \<times> 't) option"

text \<open>\<^verbatim>\<open>configure\<close>: the routes of the configuration string, in order, with the result and the
  number of routes that were there already.\<close>

fun rt_configure_from ::
  "'t add_op \<Rightarrow> nat \<Rightarrow> int \<Rightarrow> nat \<Rightarrow> iproute option list \<Rightarrow> 't \<Rightarrow> (int \<times> nat \<times> 't) option" where
  "rt_configure_from add nout r eexist [] t = Some (r, eexist, t)"
| "rt_configure_from add nout r eexist (c # cs) t =
     (case c of
        None \<Rightarrow> rt_configure_from add nout (- EINVAL) eexist cs t
      | Some route \<Rightarrow>
          if rt_port route < 0 \<or> rt_port route \<ge> int nout
          then rt_configure_from add nout (- EINVAL) eexist cs t
          else do {
            (r1, _, t) \<leftarrow> add route False t;
            if r1 < 0
            then if r1 = - EEXIST then rt_configure_from add nout r (eexist + 1) cs t
                 else rt_configure_from add nout r1 eexist cs t
            else rt_configure_from add nout r eexist cs t
          })"

definition rt_configure :: "'t add_op \<Rightarrow> nat \<Rightarrow> iproute option list \<Rightarrow> 't \<Rightarrow> (int \<times> nat \<times> 't) option" where
  "rt_configure add nout conf t = rt_configure_from add nout 0 0 conf t"

text \<open>\<^verbatim>\<open>run_command\<close>: the result, the entries appended to the log of a transaction, and the new
  table. \<^verbatim>\<open>ErrorHandler::error\<close> returns \<^verbatim>\<open>-EINVAL\<close>.\<close>

definition run_command ::
  "'t add_op \<Rightarrow> 't remove_op \<Rightarrow> nat \<Rightarrow> rt_command \<Rightarrow> iproute option \<Rightarrow> 't \<Rightarrow> (int \<times> iproute list \<times> 't) option" where
  "run_command add remove nout command parsed t =
     (case parsed of
        None \<Rightarrow> Some (- EINVAL, [], t)
      | Some route \<Rightarrow>
          if rt_port route < (if command = CMD_REMOVE then - 1 else 0) \<or> rt_port route \<ge> int nout
          then Some (- EINVAL, [], t)
          else do {
            (r, old, t) \<leftarrow> (if command = CMD_ADD then add route False t
                           else if command = CMD_SET then add route True t
                           else remove route t);
            let old_port = (case old of None \<Rightarrow> - 1 | Some o1 \<Rightarrow> rt_port o1);
                saved = (if old_port < 0 then route\<lparr> rt_extra := cmd_code CMD_ADD \<rparr>
                         else (the old)\<lparr> rt_extra := cmd_code command \<rparr>)
            in Some (r, if r \<ge> 0 then [saved] else [], t)
          })"

text \<open>The handlers \<^verbatim>\<open>add\<close>, \<^verbatim>\<open>set\<close> and \<^verbatim>\<open>remove\<close>.\<close>

definition add_route_handler ::
  "'t add_op \<Rightarrow> 't remove_op \<Rightarrow> nat \<Rightarrow> bool \<Rightarrow> iproute option \<Rightarrow> 't \<Rightarrow> (int \<times> 't) option" where
  "add_route_handler add remove nout thunk conf t =
     map_option (\<lambda>(r, _, t). (r, t)) (run_command add remove nout (if thunk then CMD_SET else CMD_ADD) conf t)"

definition remove_route_handler ::
  "'t add_op \<Rightarrow> 't remove_op \<Rightarrow> nat \<Rightarrow> iproute option \<Rightarrow> 't \<Rightarrow> (int \<times> 't) option" where
  "remove_route_handler add remove nout conf t =
     map_option (\<lambda>(r, _, t). (r, t)) (run_command add remove nout CMD_REMOVE conf t)"

text \<open>The rollback of \<^verbatim>\<open>ctrl_handler\<close> undoes the logged operations, the last one first.\<close>

fun ctrl_rollback :: "'t add_op \<Rightarrow> 't remove_op \<Rightarrow> iproute list \<Rightarrow> 't \<Rightarrow> 't option" where
  "ctrl_rollback add remove [] t = Some t"
| "ctrl_rollback add remove (rt # log) t = do {
     (_, _, t) \<leftarrow> (if rt_extra rt = cmd_code CMD_REMOVE then add rt False t
                  else if rt_extra rt = cmd_code CMD_ADD then remove rt t
                  else add rt True t);
     ctrl_rollback add remove log t
   }"

text \<open>A line of a control request: blank, an unknown command word, or a command with its
  argument. The loop goes on to the next line only after a command; at a blank line it stays
  where it is. The log is kept with the last entry first.\<close>

datatype ctrl_line = Blank_Line | Bad_Command | Command rt_command "iproute option"

partial_function (option) ctrl_loop ::
  "'t add_op \<Rightarrow> 't remove_op \<Rightarrow> nat \<Rightarrow> iproute list \<Rightarrow> ctrl_line list \<Rightarrow> 't \<Rightarrow> (int \<times> 't) option" where
  "ctrl_loop add remove nout log lines t =
     (case lines of
        [] \<Rightarrow> Some (0, t)
      | Blank_Line # rest \<Rightarrow> ctrl_loop add remove nout log lines t
      | Bad_Command # rest \<Rightarrow> map_option (Pair (- EINVAL)) (ctrl_rollback add remove log t)
      | Command c parsed # rest \<Rightarrow>
          Option.bind (run_command add remove nout c parsed t) (\<lambda>(r, new, t).
            if r < 0 then map_option (Pair r) (ctrl_rollback add remove (new @ log) t)
            else ctrl_loop add remove nout (new @ log) rest t))"

definition ctrl_handler ::
  "'t add_op \<Rightarrow> 't remove_op \<Rightarrow> nat \<Rightarrow> ctrl_line list \<Rightarrow> 't \<Rightarrow> (int \<times> 't) option" where
  "ctrl_handler add remove nout lines t = ctrl_loop add remove nout [] lines t"

text \<open>\<^verbatim>\<open>IPRouteTable::push\<close>, for tables that do not define their own: the lookup gives the port and,
  when the port is not negative, the gateway.\<close>

definition iproutetable_push ::
  "('t \<Rightarrow> ipaddr \<Rightarrow> int \<times> ipaddr) \<Rightarrow> nat \<Rightarrow> packet \<Rightarrow> 't \<Rightarrow> emission list option" where
  "iproutetable_push lookup nout p t =
     (let (port, gw) = lookup t (dst_ip_anno p)
      in if port \<ge> 0
         then if port < int nout
              then Some [(nat port, if gw \<noteq> 0 then p\<lparr> dst_ip_anno := gw \<rparr> else p)]
              else None
         else Some [])"

section \<open>The routes a table stands for\<close>

type_synonym prefix = "ipaddr \<times> ipaddr"
type_synonym routes = "prefix \<rightharpoonup> ipaddr \<times> int"

definition rt_key :: "iproute \<Rightarrow> prefix" where
  "rt_key r = (rt_addr r, rt_mask r)"

definition rt_val :: "iproute \<Rightarrow> ipaddr \<times> int" where
  "rt_val r = (rt_gw r, rt_port r)"

text \<open>Adding and removing a route, as the comment in \<^verbatim>\<open>iproutetable.hh\<close> describes them: the result
  code, the old route and the new routes.\<close>

definition routes_add :: "iproute \<Rightarrow> bool \<Rightarrow> routes \<Rightarrow> int \<times> routes" where
  "routes_add r replace M =
     (if M (rt_key r) \<noteq> None \<and> \<not> replace then (- EEXIST, M) else (0, M(rt_key r \<mapsto> rt_val r)))"

definition routes_remove :: "iproute \<Rightarrow> routes \<Rightarrow> int \<times> routes" where
  "routes_remove r M =
     (case M (rt_key r) of
        None \<Rightarrow> (- ENOENT, M)
      | Some v \<Rightarrow> if rt_port r < 0 \<or> v = rt_val r then (0, M(rt_key r := None)) else (- ENOENT, M))"

text \<open>Longest prefix match: the first of the prefixes of length \<open>n\<close>, \<open>n - 1\<close>, \dots, 0 around the
  address that has a route.\<close>

fun lpm_from :: "routes \<Rightarrow> ipaddr \<Rightarrow> nat \<Rightarrow> (ipaddr \<times> int) option" where
  "lpm_from M a n =
     (case M (and a (prefix_mask n), prefix_mask n) of
        Some v \<Rightarrow> Some v
      | None \<Rightarrow> if n = 0 then None else lpm_from M a (n - 1))"

declare lpm_from.simps [simp del]

definition lpm :: "routes \<Rightarrow> ipaddr \<Rightarrow> (ipaddr \<times> int) option" where
  "lpm M a = lpm_from M a 32"

text \<open>Routes that a configuration or a handler can ask for: \<^verbatim>\<open>cp_ip_route\<close> has masked the address.\<close>

definition wf_prefix :: "prefix \<Rightarrow> bool" where
  "wf_prefix k \<longleftrightarrow> (\<exists>n \<le> 32. snd k = prefix_mask n) \<and> and (fst k) (snd k) = fst k"

definition wf_line :: "ctrl_line \<Rightarrow> bool" where
  "wf_line l \<longleftrightarrow> (case l of Blank_Line \<Rightarrow> False | Bad_Command \<Rightarrow> True
     | Command c parsed \<Rightarrow> (case parsed of None \<Rightarrow> True | Some r \<Rightarrow> wf_prefix (rt_key r)))"

text \<open>The effect of a command, and of undoing a logged one, on the routes.\<close>

definition routes_command :: "rt_command \<Rightarrow> iproute \<Rightarrow> routes \<Rightarrow> routes" where
  "routes_command c r M =
     (case c of CMD_ADD \<Rightarrow> snd (routes_add r False M) | CMD_SET \<Rightarrow> snd (routes_add r True M)
      | CMD_REMOVE \<Rightarrow> snd (routes_remove r M))"

fun routes_lines :: "ctrl_line list \<Rightarrow> routes \<Rightarrow> routes" where
  "routes_lines (Command c (Some r) # ls) M = routes_lines ls (routes_command c r M)"
| "routes_lines ls M = M"

definition routes_undo :: "iproute \<Rightarrow> routes \<Rightarrow> routes" where
  "routes_undo rt M =
     (if rt_extra rt = cmd_code CMD_REMOVE then snd (routes_add rt False M)
      else if rt_extra rt = cmd_code CMD_ADD then snd (routes_remove rt M)
      else snd (routes_add rt True M))"

definition wf_log :: "iproute list \<Rightarrow> bool" where
  "wf_log log \<longleftrightarrow> (\<forall>rt \<in> set log. wf_prefix (rt_key rt) \<and> - 1 \<le> rt_port rt \<and>
     (rt_extra rt = cmd_code CMD_ADD \<or> 0 \<le> rt_port rt))"

lemma rt_extra_simps [simp]:
  "rt_key (r\<lparr> rt_extra := x \<rparr>) = rt_key r" "rt_val (r\<lparr> rt_extra := x \<rparr>) = rt_val r"
  by (simp_all add: rt_key_def rt_val_def)

lemma routes_extra_simps [simp]:
  "routes_add (r\<lparr> rt_extra := x \<rparr>) = routes_add r" "routes_remove (r\<lparr> rt_extra := x \<rparr>) = routes_remove r"
  by (intro ext, simp add: routes_add_def routes_remove_def split: option.split)+

lemma cmd_code_inject [simp]: "cmd_code c = cmd_code d \<longleftrightarrow> c = d"
  by (cases c; cases d) (simp_all add: cmd_code_def)

lemma lpm_from_Some:
  "n \<le> m \<Longrightarrow> M (and a (prefix_mask n), prefix_mask n) = Some v \<Longrightarrow>
    (\<And>k. n < k \<Longrightarrow> k \<le> m \<Longrightarrow> M (and a (prefix_mask k), prefix_mask k) = None) \<Longrightarrow> lpm_from M a m = Some v"
proof (induction m)
  case (Suc m)
  show ?case
  proof (cases "n = Suc m")
    case True
    then show ?thesis using Suc.prems(2) by (simp add: lpm_from.simps [of M a "Suc m"])
  next
    case False
    then have "M (and a (prefix_mask (Suc m)), prefix_mask (Suc m)) = None" "lpm_from M a m = Some v"
      using Suc by auto
    then show ?thesis by (simp add: lpm_from.simps [of M a "Suc m"])
  qed
qed (simp add: lpm_from.simps)

lemma lpm_from_None:
  "(\<And>k. k \<le> m \<Longrightarrow> M (and a (prefix_mask k), prefix_mask k) = None) \<Longrightarrow> lpm_from M a m = None"
  by (induction m) (simp_all add: lpm_from.simps)

section \<open>The contract of a routing table\<close>

text \<open>
  \<open>routes t\<close> are the routes that the table stands for. A removal that finds nothing reports
  \<^verbatim>\<open>-ENOENT\<close> or hands out a dead route, recognisable by its negative port.
\<close>

locale route_table =
  fixes add :: "'t add_op" and remove :: "'t remove_op"
    and inv :: "'t \<Rightarrow> bool" and routes :: "'t \<Rightarrow> routes"
  assumes stored: "inv t \<Longrightarrow> routes t k = Some v \<Longrightarrow> wf_prefix k \<and> 0 \<le> snd v"
    and add_law: "inv t \<Longrightarrow> wf_prefix (rt_key r) \<Longrightarrow> 0 \<le> rt_port r \<Longrightarrow>
      \<exists>old t'. add r replace t = Some (fst (routes_add r replace (routes t)), old, t') \<and> inv t' \<and>
        routes t' = snd (routes_add r replace (routes t)) \<and>
        routes t (rt_key r) = map_option rt_val old \<and> (\<forall>o1. old = Some o1 \<longrightarrow> rt_key o1 = rt_key r)"
    and remove_law: "inv t \<Longrightarrow> wf_prefix (rt_key r) \<Longrightarrow> - 1 \<le> rt_port r \<Longrightarrow>
      \<exists>code old t'. remove r t = Some (code, old, t') \<and> inv t' \<and>
        routes t' = snd (routes_remove r (routes t)) \<and>
        (if fst (routes_remove r (routes t)) = 0
         then code = 0 \<and> (\<exists>o1. old = Some o1 \<and> rt_key o1 = rt_key r \<and> routes t (rt_key r) = Some (rt_val o1))
         else code = - ENOENT \<and> old = None \<or> code = 0 \<and> (\<exists>o1. old = Some o1 \<and> rt_port o1 < 0))"
begin

lemma rollback_routes:
  "inv t \<Longrightarrow> wf_log log \<Longrightarrow>
    \<exists>t'. ctrl_rollback add remove log t = Some t' \<and> inv t' \<and> routes t' = fold routes_undo log (routes t)"
proof (induction log arbitrary: t)
  case (Cons rt log)
  have rt: "wf_prefix (rt_key rt)" "- 1 \<le> rt_port rt" "rt_extra rt = cmd_code CMD_ADD \<or> 0 \<le> rt_port rt"
    and log: "wf_log log"
    using Cons.prems(2) by (auto simp: wf_log_def)
  have "\<exists>c old t'. (if rt_extra rt = cmd_code CMD_REMOVE then add rt False t
      else if rt_extra rt = cmd_code CMD_ADD then remove rt t else add rt True t) = Some (c, old, t') \<and>
      inv t' \<and> routes t' = routes_undo rt (routes t)"
    using rt add_law [OF Cons.prems(1) rt(1)] remove_law [OF Cons.prems(1) rt(1,2)]
    unfolding routes_undo_def by (cases "rt_extra rt = cmd_code CMD_ADD") (auto, blast+)
  then show ?case using Cons.IH log by fastforce
qed simp

text \<open>A command either fails and changes nothing, or does to the routes what it should and logs
  an entry that undoes it.\<close>

definition command_outcome :: "rt_command \<Rightarrow> iproute \<Rightarrow> 't \<Rightarrow> int \<Rightarrow> iproute list \<Rightarrow> 't \<Rightarrow> bool" where
  "command_outcome c r t code new t' \<longleftrightarrow> inv t' \<and>
     (if code < 0 then new = [] \<and> routes t' = routes t
      else wf_log new \<and> routes t' = routes_command c r (routes t) \<and> fold routes_undo new (routes t') = routes t)"

lemma add_command:
  assumes "inv t" and "wf_prefix (rt_key r)" and "0 \<le> rt_port r" and "rt_port r < int nout"
    and "c = CMD_ADD \<or> c = CMD_SET"
  shows "\<exists>code new t'. run_command add remove nout c (Some r) t = Some (code, new, t') \<and> command_outcome c r t code new t'"
proof -
  obtain old t' where a: "add r (c = CMD_SET) t = Some (fst (routes_add r (c = CMD_SET) (routes t)), old, t')" "inv t'"
    "routes t' = snd (routes_add r (c = CMD_SET) (routes t))" "routes t (rt_key r) = map_option rt_val old"
    and k: "\<And>o1. old = Some o1 \<Longrightarrow> rt_key o1 = rt_key r"
    using add_law [OF assms(1-3), of "c = CMD_SET"] by blast
  have pos: "0 \<le> rt_port o1" if "old = Some o1" for o1
    using stored [OF assms(1), of "rt_key r" "rt_val o1"] a(4) that by (simp add: rt_val_def)
  show ?thesis
  proof (cases old)
    case None
    then have "(routes t)(rt_key r := None) = routes t" using a(4) by (simp add: fun_upd_idem)
    then show ?thesis
      using a assms None
      by (auto simp: run_command_def command_outcome_def routes_add_def routes_command_def
          routes_undo_def routes_remove_def wf_log_def rt_val_def intro!: exI [of _ 0])
  next
    case (Some o1)
    have M: "routes t (rt_key r) = Some (rt_val o1)" using a(4) Some by simp
    then have same: "(routes t)(rt_key r \<mapsto> rt_val o1) = routes t" by (simp add: fun_upd_idem)
    show ?thesis
    proof (cases "c = CMD_SET")
      case True
      then have "run_command add remove nout c (Some r) t = Some (0, [o1\<lparr> rt_extra := cmd_code CMD_SET \<rparr>], t')"
        using a(1) assms(3,4) Some pos [OF Some] by (simp add: run_command_def routes_add_def)
      moreover have "command_outcome c r t 0 [o1\<lparr> rt_extra := cmd_code CMD_SET \<rparr>] t'"
        using True a(2,3) assms(2) k [OF Some] pos [OF Some] same
        by (simp add: command_outcome_def wf_log_def routes_command_def routes_undo_def routes_add_def)
      ultimately show ?thesis by blast
    next
      case False
      then have "run_command add remove nout c (Some r) t = Some (- EEXIST, [], t')" "routes t' = routes t"
        using a(1,3) assms(3-5) M by (simp_all add: run_command_def routes_add_def EEXIST_def)
      then show ?thesis using a(2) by (auto simp: command_outcome_def EEXIST_def)
    qed
  qed
qed

lemma remove_command:
  assumes "inv t" and "wf_prefix (rt_key r)" and "- 1 \<le> rt_port r" and "rt_port r < int nout"
  shows "\<exists>code new t'. run_command add remove nout CMD_REMOVE (Some r) t = Some (code, new, t') \<and>
    command_outcome CMD_REMOVE r t code new t'"
proof -
  obtain code old t' where a: "remove r t = Some (code, old, t')" "inv t'"
    "routes t' = snd (routes_remove r (routes t))"
    "if fst (routes_remove r (routes t)) = 0
     then code = 0 \<and> (\<exists>o1. old = Some o1 \<and> rt_key o1 = rt_key r \<and> routes t (rt_key r) = Some (rt_val o1))
     else code = - ENOENT \<and> old = None \<or> code = 0 \<and> (\<exists>o1. old = Some o1 \<and> rt_port o1 < 0)"
    using remove_law [OF assms(1-3)] by blast
  show ?thesis
  proof (cases "fst (routes_remove r (routes t)) = 0")
    case True
    then obtain o1 where o1: "code = 0" "old = Some o1" "rt_key o1 = rt_key r" "routes t (rt_key r) = Some (rt_val o1)"
      using a(4) by auto
    moreover have "0 \<le> rt_port o1" using stored [OF assms(1) o1(4)] by (simp add: rt_val_def)
    ultimately show ?thesis
      using a(1-3) assms True
      by (auto simp: run_command_def command_outcome_def routes_remove_def routes_command_def routes_undo_def
          routes_add_def wf_log_def ENOENT_def split: if_splits option.splits)
  next
    case False
    then have same: "routes t' = routes t" using a(3) by (auto simp: routes_remove_def split: if_splits option.splits)
    show ?thesis
      using a(1,2,4) assms False same
      by (auto simp: run_command_def command_outcome_def routes_command_def routes_undo_def
          wf_log_def ENOENT_def routes_remove_def split: if_splits option.splits)
  qed
qed

lemma command_runs:
  assumes "inv t" and "wf_line (Command c parsed)"
  obtains code new t' where "run_command add remove nout c parsed t = Some (code, new, t')" "code < 0"
      "inv t'" "new = []" "routes t' = routes t"
    | r code new t' where "run_command add remove nout c parsed t = Some (code, new, t')" "\<not> code < 0"
      "inv t'" "wf_log new" "parsed = Some r" "routes t' = routes_command c r (routes t)"
      "fold routes_undo new (routes t') = routes t"
proof (cases parsed)
  case None
  then show ?thesis using that(1) assms(1) by (simp add: run_command_def EINVAL_def)
next
  case (Some r)
  show ?thesis
  proof (cases "rt_port r < (if c = CMD_REMOVE then - 1 else 0) \<or> rt_port r \<ge> int nout")
    case True
    then have "run_command add remove nout c parsed t = Some (- EINVAL, [], t)"
      using Some by (simp only: run_command_def option.case if_True)
    then show ?thesis using that(1) assms(1) by (simp add: EINVAL_def)
  next
    case False
    then obtain code new t' where "run_command add remove nout c parsed t = Some (code, new, t')"
      "command_outcome c r t code new t'"
      using add_command [OF assms(1), of r nout c] remove_command [OF assms(1), of r nout] assms(2) Some
      by (cases c) (auto simp: wf_line_def)
    then show ?thesis using that Some by (cases "code < 0") (auto simp: command_outcome_def)
  qed
qed

lemma ctrl_loop_routes:
  assumes "inv t" and "wf_log log" and "list_all wf_line lines"
  shows "\<exists>code t'. ctrl_loop add remove nout log lines t = Some (code, t') \<and> inv t' \<and>
    routes t' = (if code < 0 then fold routes_undo log (routes t) else routes_lines lines (routes t))"
  using assms
proof (induction lines arbitrary: log t)
  case Nil
  then show ?case by (simp add: ctrl_loop.simps)
next
  case (Cons l ls)
  have undo: "\<exists>t'. ctrl_rollback add remove log t1 = Some t' \<and> inv t' \<and> routes t' = fold routes_undo log (routes t1)"
    if "inv t1" for t1
    using rollback_routes that Cons.prems(2) by blast
  show ?case
  proof (cases l)
    case Blank_Line
    then show ?thesis using Cons.prems(3) by (simp add: wf_line_def)
  next
    case Bad_Command
    then show ?thesis using undo [OF Cons.prems(1)] by (auto simp: ctrl_loop.simps EINVAL_def)
  next
    case (Command c parsed)
    with Cons.prems(3) have "wf_line (Command c parsed)" by simp
    with Cons.prems(1) show ?thesis
    proof (cases rule: command_runs [where nout = nout])
      case (1 code new t1)
      then show ?thesis using undo [of t1] Command by (subst ctrl_loop.simps) auto
    next
      case (2 r code new t1)
      then have "wf_log (new @ log)" using Cons.prems(2) by (auto simp: wf_log_def)
      from Cons.IH [OF 2(3) this] obtain code' t' where
        "ctrl_loop add remove nout (new @ log) ls t1 = Some (code', t')" "inv t'"
        "routes t' = (if code' < 0 then fold routes_undo log (routes t) else routes_lines ls (routes t1))"
        using Cons.prems(3) 2(7) by auto
      then show ?thesis using 2 Command by (subst ctrl_loop.simps) simp
    qed
  qed
qed

text \<open>A control request whose lines are not blank returns; when it fails it has changed nothing.\<close>

lemma ctrl_handler_atomic:
  assumes "inv t" and "list_all wf_line lines"
  shows "\<exists>code t'. ctrl_handler add remove nout lines t = Some (code, t') \<and> inv t' \<and>
    routes t' = (if code < 0 then routes t else routes_lines lines (routes t))"
proof -
  have "wf_log []" by (simp add: wf_log_def)
  from ctrl_loop_routes [OF assms(1) this assms(2), of nout] show ?thesis
    by (simp only: ctrl_handler_def fold_simps(1))
qed

text \<open>\<^verbatim>\<open>configure\<close> with well-formed routes: the first route for a prefix is the one that counts.\<close>

lemma configure_routes:
  assumes "inv t" and "\<forall>r \<in> set rs. wf_prefix (rt_key r) \<and> 0 \<le> rt_port r \<and> rt_port r < int nout"
  shows "\<exists>n t'. rt_configure_from add nout 0 eexist (map Some rs) t = Some (0, n, t') \<and> inv t' \<and>
    routes t' = (\<lambda>k. case routes t k of Some v \<Rightarrow> Some v | None \<Rightarrow> map_option rt_val (find (\<lambda>r. rt_key r = k) rs))"
  using assms
proof (induction rs arbitrary: t eexist)
  case Nil
  then show ?case by (auto simp: fun_eq_iff split: option.split)
next
  case (Cons r rs)
  have r: "wf_prefix (rt_key r)" "0 \<le> rt_port r" "rt_port r < int nout" using Cons.prems(2) by auto
  obtain old t1 where a: "add r False t = Some (fst (routes_add r False (routes t)), old, t1)" "inv t1"
    "routes t1 = snd (routes_add r False (routes t))"
    using add_law [OF Cons.prems(1) r(1,2), of False] by blast
  let ?e = "if routes t (rt_key r) = None then eexist else eexist + 1"
  have "\<forall>r \<in> set rs. wf_prefix (rt_key r) \<and> 0 \<le> rt_port r \<and> rt_port r < int nout" using Cons.prems(2) by simp
  from Cons.IH [OF a(2) this, of ?e] obtain n t' where
    IH: "rt_configure_from add nout 0 ?e (map Some rs) t1 = Some (0, n, t')" "inv t'"
      "routes t' = (\<lambda>k. case routes t1 k of Some v \<Rightarrow> Some v | None \<Rightarrow> map_option rt_val (find (\<lambda>r. rt_key r = k) rs))"
    by (elim exE conjE) (rule that)
  have "rt_configure_from add nout 0 eexist (map Some (r # rs)) t = Some (0, n, t')"
    using a(1) r IH(1) by (auto simp: routes_add_def EEXIST_def split: if_splits)
  moreover have "routes t' = (\<lambda>k. case routes t k of Some v \<Rightarrow> Some v | None \<Rightarrow> map_option rt_val (find (\<lambda>r. rt_key r = k) (r # rs)))"
    using IH(3) a(3) by (auto simp: fun_eq_iff routes_add_def split: option.split)
  ultimately show ?case using IH(2) by blast
qed

end

text \<open>A blank line is never left behind: the handler does not return.\<close>

lemma ctrl_loop_blank:
  "ctrl_loop add remove nout log lines t = Some y \<Longrightarrow> lines = [] \<or> hd lines \<noteq> Blank_Line"
proof (erule ctrl_loop.raw_induct [where P = "\<lambda>_ _ _ _ lines _ _. lines = [] \<or> hd lines \<noteq> Blank_Line", rotated])
  fix loop :: "'t add_op \<Rightarrow> 't remove_op \<Rightarrow> nat \<Rightarrow> iproute list \<Rightarrow> ctrl_line list \<Rightarrow> 't \<Rightarrow> (int \<times> 't) option"
    and add :: "'t add_op" and remove nout log lines t y
  assume IH: "\<And>add remove nout log lines t y. loop add remove nout log lines t = Some y \<Longrightarrow> lines = [] \<or> hd lines \<noteq> Blank_Line"
    and eq: "(case lines of
        [] \<Rightarrow> Some (0, t)
      | Blank_Line # rest \<Rightarrow> loop add remove nout log lines t
      | Bad_Command # rest \<Rightarrow> map_option (Pair (- EINVAL)) (ctrl_rollback add remove log t)
      | Command c parsed # rest \<Rightarrow>
          Option.bind (run_command add remove nout c parsed t) (\<lambda>(r, new, t).
            if r < 0 then map_option (Pair r) (ctrl_rollback add remove (new @ log) t)
            else loop add remove nout (new @ log) rest t)) = Some y"
  show "lines = [] \<or> hd lines \<noteq> Blank_Line"
  proof (cases "lines \<noteq> [] \<and> hd lines = Blank_Line")
    case True
    then have "loop add remove nout log lines t = Some y" using eq by (cases lines) simp_all
    then show ?thesis by (rule IH)
  qed blast
qed

end
