(* ===== verification/Click_LinearIPLookup.thy ===== *)
theory Click_LinearIPLookup
  imports Click_IPRouteTable
begin

unbundle bit_operations_syntax

text \<open>
  \<^verbatim>\<open>LinearIPLookup\<close> (\<^verbatim>\<open>elements/ip/lineariplookup.cc\<close>) and \<^verbatim>\<open>StaticIPLookup\<close>
  (\<^verbatim>\<open>elements/ip/lookupiproute.cc\<close>), the routing tables of the three Mobile IP routers.

  The table is an array of routes in which removed routes stay behind as dead entries and are
  reused. A lookup takes the first entry that contains the address and goes on from the entry's
  \<^verbatim>\<open>next\<close> pointer (the field \<^verbatim>\<open>extra\<close>), which skips entries that cannot be more specific. Two
  cached results speed up \<^verbatim>\<open>push\<close>. The array is a list: \<^verbatim>\<open>push_back\<close> is taken to succeed.

  Shown: every operation keeps the invariant that \<^verbatim>\<open>check\<close> tests; the table refines a map from
  prefixes to next hops; for every address except 0.0.0.0 the lookup is the longest prefix
  match on that map, and so is what \<^verbatim>\<open>push\<close> does, with or without a cache hit. A dead entry has
  the prefix 0.0.0.0/32, which is what goes wrong at address 0.0.0.0.
\<close>

section \<open>The program\<close>

record linearlookup =
  li_t :: "iproute list"
  li_zero :: int
  li_last_addr :: ipaddr
  li_last_entry :: int
  li_last_addr2 :: ipaddr
  li_last_entry2 :: int

text \<open>The constructor leaves the cached entries uninitialized (\<open>e1\<close>, \<open>e2\<close>); the cached addresses are 0.\<close>

definition li_new :: "int \<Rightarrow> int \<Rightarrow> linearlookup" where
  "li_new e1 e2 = \<lparr> li_t = [], li_zero = - 1, li_last_addr = 0, li_last_entry = e1, li_last_addr2 = 0, li_last_entry2 = e2 \<rparr>"

definition li_initialize :: "linearlookup \<Rightarrow> linearlookup" where
  "li_initialize s = s\<lparr> li_last_addr := 0, li_last_addr2 := 0 \<rparr>"

text \<open>The first loop of \<^verbatim>\<open>add_route\<close>: \<open>Inl i\<close> for a route with the same prefix, otherwise \<open>Inr\<close> the
  slot to use, \<open>n\<close> when a new one is needed.\<close>

fun li_find_slot :: "iproute \<Rightarrow> nat \<Rightarrow> nat \<Rightarrow> nat \<Rightarrow> iproute list \<Rightarrow> nat + nat" where
  "li_find_slot r n i found [] = Inr found"
| "li_find_slot r n i found (e # es) =
     (if \<not> rt_real e then li_find_slot r n (i + 1) (if found = n then i else found) es
      else if rt_addr e = rt_addr r \<and> rt_mask e = rt_mask r then Inl i
      else li_find_slot r n (i + 1) found es)"

text \<open>The loop downwards from \<^verbatim>\<open>found - 1\<close> over the next pointers.\<close>

fun li_patch_before :: "iproute \<Rightarrow> nat \<Rightarrow> nat \<Rightarrow> iproute list \<Rightarrow> iproute list" where
  "li_patch_before r found 0 t = t"
| "li_patch_before r found (Suc i) t =
     li_patch_before r found i
       (if rt_contains_route (t ! i) r \<and> rt_extra (t ! i) > found then t[i := (t ! i)\<lparr> rt_extra := found \<rparr>] else t)"

text \<open>The loop upwards from \<^verbatim>\<open>found + 1\<close>: the next pointer of the new entry.\<close>

fun li_next_after :: "iproute \<Rightarrow> nat \<Rightarrow> iproute list \<Rightarrow> nat" where
  "li_next_after r i [] = 0x7FFFFFFF"
| "li_next_after r i (e # es) = (if rt_contains_route r e \<and> rt_real e then i else li_next_after r (i + 1) es)"

definition li_add_route :: "linearlookup add_op" where
  "li_add_route r allow_replace s =
     (let t = li_t s; n = length t
      in case li_find_slot r n 0 n t of
           Inl i \<Rightarrow>
             if \<not> allow_replace then Some (- EEXIST, Some (t ! i), s)
             else Some (0, Some (t ! i), s\<lparr> li_t := t[i := (t ! i)\<lparr> rt_gw := rt_gw r, rt_port := rt_port r \<rparr>] \<rparr>)
         | Inr found \<Rightarrow>
             let t = (if found = n then t @ [r] else t[found := r]);
                 t = t[found := (t ! found)\<lparr> rt_extra := 0x7FFFFFFF \<rparr>];
                 t = li_patch_before r found found t;
                 t = t[found := (t ! found)\<lparr> rt_extra := li_next_after r (found + 1) (drop (found + 1) t) \<rparr>]
             in Some (0, None,
                  s\<lparr> li_t := t,
                     li_zero := if rt_addr r = 0 \<and> rt_mask r = 0xFFFFFFFF then int found else li_zero s,
                     li_last_addr := 0, li_last_addr2 := 0 \<rparr>))"

text \<open>The search of \<^verbatim>\<open>remove_route\<close>.\<close>

fun li_find_match :: "iproute \<Rightarrow> nat \<Rightarrow> iproute list \<Rightarrow> nat option" where
  "li_find_match r i [] = None"
| "li_find_match r i (e # es) = (if rt_match r e then Some i else li_find_match r (i + 1) es)"

definition li_remove_route :: "linearlookup remove_op" where
  "li_remove_route route s =
     (case li_find_match route 0 (li_t s) of
        None \<Rightarrow> Some (- ENOENT, None, s)
      | Some i \<Rightarrow> do {
          let old_route = li_t s ! i;
          let s = s\<lparr> li_t := (li_t s)[i := rt_kill (li_t s ! i)] \<rparr>;
          s \<leftarrow> (if int i = li_zero s then Some (s\<lparr> li_zero := - 1 \<rparr>)
               else if int i < li_zero s
               then let z = nat (li_zero s) in
                 if z \<ge> length (li_t s) then None
                 else do {
                   (r, _, s) \<leftarrow> li_add_route (li_t s ! z) False
                     (s\<lparr> li_t := (li_t s)[z := rt_kill (li_t s ! z)] \<rparr>);
                   if r \<ge> 0 then Some s else None
                 }
               else Some s);
          Some (0, Some old_route, s\<lparr> li_last_addr := 0, li_last_addr2 := 0 \<rparr>)
        })"

text \<open>\<^verbatim>\<open>lookup_entry\<close>: the first entry that contains the address, then the loop from its next
  pointer.\<close>

fun li_first :: "ipaddr \<Rightarrow> nat \<Rightarrow> iproute list \<Rightarrow> nat option" where
  "li_first a i [] = None"
| "li_first a i (e # es) = (if rt_contains e a then Some i else li_first a (i + 1) es)"

function li_best :: "iproute list \<Rightarrow> ipaddr \<Rightarrow> nat \<Rightarrow> nat \<Rightarrow> nat" where
  "li_best t a found j =
     (if j < length t
      then li_best t a
        (if rt_contains (t ! j) a \<and> mask_as_specific (rt_mask (t ! j)) (rt_mask (t ! found)) then j else found) (j + 1)
      else found)"
  by auto
termination by (relation "measure (\<lambda>(t, a, found, j). length t - j)") auto

declare li_best.simps [simp del]

definition li_lookup_entry :: "iproute list \<Rightarrow> ipaddr \<Rightarrow> int" where
  "li_lookup_entry t a =
     (case li_first a 0 t of
        Some i \<Rightarrow> int (li_best t a i (rt_extra (t ! i)))
      | None \<Rightarrow> - 1)"

definition li_lookup_route :: "linearlookup \<Rightarrow> ipaddr \<Rightarrow> int \<times> ipaddr" where
  "li_lookup_route s a =
     (let ei = li_lookup_entry (li_t s) a
      in if ei \<ge> 0 then (rt_port (li_t s ! nat ei), rt_gw (li_t s ! nat ei)) else (- 1, 0))"

text \<open>\<^verbatim>\<open>check\<close>: next pointers, duplicates, caches.\<close>

definition li_check :: "linearlookup \<Rightarrow> bool" where
  "li_check s \<longleftrightarrow>
     (let t = li_t s in
      (\<forall>i < length t. rt_real (t ! i) \<longrightarrow>
        (\<forall>j < length t. i < j \<and> j < rt_extra (t ! i) \<longrightarrow> \<not> (rt_contains_route (t ! i) (t ! j) \<and> rt_real (t ! j)))) \<and>
      (\<forall>i < length t. \<forall>j < length t. i < j \<longrightarrow>
        \<not> (rt_addr (t ! i) = rt_addr (t ! j) \<and> rt_mask (t ! i) = rt_mask (t ! j) \<and> rt_real (t ! i) \<and> rt_real (t ! j))) \<and>
      (li_last_addr s \<noteq> 0 \<longrightarrow> li_lookup_entry t (li_last_addr s) = li_last_entry s) \<and>
      (li_last_addr2 s \<noteq> 0 \<longrightarrow> li_lookup_entry t (li_last_addr2 s) = li_last_entry2 s))"

text \<open>\<^verbatim>\<open>push\<close>: \<^verbatim>\<open>_t[ei]\<close> and \<^verbatim>\<open>output(port)\<close> assert their ranges.\<close>

definition li_deliver :: "nat \<Rightarrow> int \<Rightarrow> packet \<Rightarrow> linearlookup \<Rightarrow> (linearlookup \<times> emission list) option" where
  "li_deliver nout ei p s =
     (if 0 \<le> ei \<and> ei < int (length (li_t s))
      then let e = li_t s ! nat ei;
               p = (if rt_gw e \<noteq> 0 then p\<lparr> dst_ip_anno := rt_gw e \<rparr> else p)
           in if 0 \<le> rt_port e \<and> rt_port e < int nout then Some (s, [(nat (rt_port e), p)]) else None
      else None)"

definition li_push :: "nat \<Rightarrow> packet \<Rightarrow> linearlookup \<Rightarrow> (linearlookup \<times> emission list) option" where
  "li_push nout p s =
     (let a = dst_ip_anno p
      in if a \<noteq> 0 \<and> a = li_last_addr s then li_deliver nout (li_last_entry s) p s
         else if a \<noteq> 0 \<and> a = li_last_addr2 s then li_deliver nout (li_last_entry2 s) p s
         else let ei = li_lookup_entry (li_t s) a
              in if ei \<ge> 0
                 then li_deliver nout ei p
                   (s\<lparr> li_last_addr2 := li_last_addr s, li_last_entry2 := li_last_entry s,
                       li_last_addr := a, li_last_entry := ei \<rparr>)
                 else Some (s, []))"

text \<open>\<^verbatim>\<open>StaticIPLookup\<close> refuses changes once the router is initialized.\<close>

definition static_add_route :: "bool \<Rightarrow> linearlookup add_op" where
  "static_add_route initialized r allow_replace s =
     (if initialized then Some (- EINVAL, None, s) else li_add_route r allow_replace s)"

definition static_remove_route :: "bool \<Rightarrow> linearlookup remove_op" where
  "static_remove_route initialized r s =
     (if initialized then Some (- EINVAL, None, s) else li_remove_route r s)"

section \<open>Invariant and abstraction\<close>

definition li_routes :: "iproute list \<Rightarrow> routes" where
  "li_routes t k = map_option rt_val (find (\<lambda>e. rt_real e \<and> rt_key e = k) t)"

definition li_nexts :: "iproute list \<Rightarrow> bool" where
  "li_nexts t \<longleftrightarrow> (\<forall>i j. i < j \<and> j < length t \<and> rt_real (t ! i) \<and> rt_real (t ! j) \<and>
     rt_contains_route (t ! i) (t ! j) \<longrightarrow> rt_extra (t ! i) \<le> j)"

definition li_distinct :: "iproute list \<Rightarrow> bool" where
  "li_distinct t \<longleftrightarrow> (\<forall>i j. i < j \<and> j < length t \<and> rt_real (t ! i) \<and> rt_real (t ! j) \<longrightarrow> rt_key (t ! i) \<noteq> rt_key (t ! j))"

definition li_entries :: "iproute list \<Rightarrow> bool" where
  "li_entries t \<longleftrightarrow> (\<forall>e \<in> set t. if rt_real e then wf_prefix (rt_key e) \<and> 0 \<le> rt_port e
     else rt_key e = (0, 0xFFFFFFFF) \<and> rt_port e < 0)"

definition li_table_ok :: "iproute list \<Rightarrow> bool" where
  "li_table_ok t \<longleftrightarrow> li_nexts t \<and> li_distinct t \<and> li_entries t"

text \<open>\<^verbatim>\<open>_zero_route\<close> is the index of the route for 0.0.0.0/32, before which no entry is dead.\<close>

definition li_zero_ok :: "iproute list \<Rightarrow> int \<Rightarrow> bool" where
  "li_zero_ok t z \<longleftrightarrow>
     (if z = - 1 then \<forall>e \<in> set t. rt_real e \<longrightarrow> rt_key e \<noteq> (0, 0xFFFFFFFF)
      else 0 \<le> z \<and> z < int (length t) \<and> rt_real (t ! nat z) \<and> rt_key (t ! nat z) = (0, 0xFFFFFFFF) \<and>
        (\<forall>i < nat z. rt_real (t ! i)))"

definition li_cache_ok :: "linearlookup \<Rightarrow> bool" where
  "li_cache_ok s \<longleftrightarrow>
     (li_last_addr s \<noteq> 0 \<longrightarrow> li_lookup_entry (li_t s) (li_last_addr s) = li_last_entry s \<and> li_last_entry s \<noteq> - 1) \<and>
     (li_last_addr2 s \<noteq> 0 \<longrightarrow> li_lookup_entry (li_t s) (li_last_addr2 s) = li_last_entry2 s \<and> li_last_entry2 s \<noteq> - 1)"

definition li_inv :: "linearlookup \<Rightarrow> bool" where
  "li_inv s \<longleftrightarrow> li_table_ok (li_t s) \<and> li_zero_ok (li_t s) (li_zero s) \<and> li_cache_ok s"

section \<open>Lookups\<close>

lemma rt_contains_key: "rt_contains e a \<longleftrightarrow> matches_prefix a (fst (rt_key e)) (snd (rt_key e))"
  by (simp add: rt_contains_def rt_key_def)

lemma and_all_ones: "a AND 0xFFFFFFFF = a" for a :: ipaddr
proof -
  have ones: "(0xFFFFFFFF :: ipaddr) = - 1" by simp
  show ?thesis unfolding ones by simp
qed

lemma dead_contains: "rt_key e = (0, 0xFFFFFFFF) \<Longrightarrow> rt_contains e a \<longleftrightarrow> a = 0"
  by (simp add: rt_contains_key matches_prefix_iff and_all_ones)

lemma li_entries_nth:
  assumes "li_entries t" and "i < length t"
  shows "rt_real (t ! i) \<Longrightarrow> wf_prefix (rt_key (t ! i)) \<and> 0 \<le> rt_port (t ! i)"
    and "\<not> rt_real (t ! i) \<Longrightarrow> rt_key (t ! i) = (0, 0xFFFFFFFF) \<and> rt_port (t ! i) < 0"
  using assms nth_mem [OF assms(2)] unfolding li_entries_def by force+

lemma contains_real: "li_entries t \<Longrightarrow> i < length t \<Longrightarrow> rt_contains (t ! i) a \<Longrightarrow> a \<noteq> 0 \<Longrightarrow> rt_real (t ! i)"
  using li_entries_nth(2) dead_contains by blast

lemma li_routes_iff:
  assumes "li_distinct t"
  shows "li_routes t k = Some v \<longleftrightarrow> (\<exists>i < length t. rt_real (t ! i) \<and> rt_key (t ! i) = k \<and> v = rt_val (t ! i))"
proof -
  have "find (\<lambda>e. rt_real e \<and> rt_key e = k) t = Some (t ! i)" if "i < length t" "rt_real (t ! i)" "rt_key (t ! i) = k" for i
  proof -
    have "\<not> (rt_real (t ! j) \<and> rt_key (t ! j) = k)" if "j < i" for j
      using assms \<open>i < length t\<close> \<open>rt_real (t ! i)\<close> \<open>rt_key (t ! i) = k\<close> that by (auto simp: li_distinct_def)
    then show ?thesis using that by (auto simp: find_Some_iff)
  qed
  then have "\<exists>i < length t. rt_real (t ! i) \<and> rt_key (t ! i) = k \<and> v = rt_val (t ! i) \<Longrightarrow> li_routes t k = Some v"
    by (auto simp: li_routes_def)
  moreover have "li_routes t k = Some v \<Longrightarrow> \<exists>i < length t. rt_real (t ! i) \<and> rt_key (t ! i) = k \<and> v = rt_val (t ! i)"
    by (auto simp: li_routes_def find_Some_iff)
  ultimately show ?thesis by blast
qed

lemma li_routes_None: "li_routes t k = None \<longleftrightarrow> (\<forall>e \<in> set t. rt_real e \<longrightarrow> rt_key e \<noteq> k)"
  by (auto simp: li_routes_def find_None_iff)

text \<open>Two tables that differ in one entry.\<close>

lemma li_routes_change:
  assumes T: "li_distinct T" "f < length T" and t: "li_distinct t"
    and others: "\<And>j. j \<noteq> f \<Longrightarrow> (j < length T \<and> rt_real (T ! j)) = (j < length t \<and> rt_real (t ! j))"
      "\<And>j. j \<noteq> f \<Longrightarrow> j < length t \<Longrightarrow> rt_key (T ! j) = rt_key (t ! j) \<and> rt_val (T ! j) = rt_val (t ! j)"
      "\<And>j. j \<noteq> f \<Longrightarrow> j < length t \<Longrightarrow> rt_real (t ! j) \<Longrightarrow> rt_key (t ! j) \<noteq> k0"
    and here: "f < length t \<Longrightarrow> rt_real (t ! f) \<Longrightarrow> rt_key (t ! f) = k0" "rt_real (T ! f) \<Longrightarrow> rt_key (T ! f) = k0"
  shows "li_routes T = (li_routes t)(k0 := if rt_real (T ! f) then Some (rt_val (T ! f)) else None)"
proof (rule ext)
  fix k
  have other: "(j < length T \<and> rt_real (T ! j) \<and> rt_key (T ! j) = k \<and> v = rt_val (T ! j)) \<longleftrightarrow>
      (j < length t \<and> rt_real (t ! j) \<and> rt_key (t ! j) = k \<and> v = rt_val (t ! j))" if "j \<noteq> f" for j v
    using others [OF that] by auto
  show "li_routes T k = ((li_routes t)(k0 := if rt_real (T ! f) then Some (rt_val (T ! f)) else None)) k"
  proof (cases "k = k0")
    case False
    have "li_routes T k = Some v \<longleftrightarrow> li_routes t k = Some v" for v
      unfolding li_routes_iff [OF T(1)] li_routes_iff [OF t] using other here False by metis
    then have "li_routes T k = li_routes t k" by (cases "li_routes t k"; cases "li_routes T k") auto
    then show ?thesis using False by simp
  next
    case True
    have "li_routes T k = Some v \<longleftrightarrow> rt_real (T ! f) \<and> v = rt_val (T ! f)" for v
      unfolding li_routes_iff [OF T(1)] using True T(2) here(2) others by metis
    then have "li_routes T k = (if rt_real (T ! f) then Some (rt_val (T ! f)) else None)"
      by (cases "li_routes T k"; cases "rt_real (T ! f)") (simp_all add: option.discI, metis option.discI)
    then show ?thesis using True by simp
  qed
qed

lemma li_first_spec:
  "case li_first a i t of
     None \<Rightarrow> \<forall>m < length t. \<not> rt_contains (t ! m) a
   | Some k \<Rightarrow> \<exists>m < length t. k = i + m \<and> rt_contains (t ! m) a \<and> (\<forall>m' < m. \<not> rt_contains (t ! m') a)"
proof (induction t arbitrary: i)
  case (Cons e t)
  show ?case
  proof (cases "rt_contains e a")
    case False
    then show ?thesis
      using Cons [of "i + 1"]
      by (fastforce split: option.splits simp: nth_Cons' less_Suc_eq_0_disj intro: exI [of _ "Suc _"])
  qed (auto intro: exI [of _ 0])
qed simp

text \<open>The second loop, when the masks of the entries that contain the address form a chain.\<close>

lemma li_best_spec:
  assumes "found < length t" and "rt_contains (t ! found) a"
    and chain: "\<And>i j. i < length t \<Longrightarrow> j < length t \<Longrightarrow> rt_contains (t ! i) a \<Longrightarrow> rt_contains (t ! j) a \<Longrightarrow>
      mask_as_specific (rt_mask (t ! i)) (rt_mask (t ! j)) \<or> mask_as_specific (rt_mask (t ! j)) (rt_mask (t ! i))"
  shows "li_best t a found j < length t \<and> rt_contains (t ! li_best t a found j) a \<and>
    mask_as_specific (rt_mask (t ! li_best t a found j)) (rt_mask (t ! found)) \<and>
    (\<forall>m. j \<le> m \<and> m < length t \<and> rt_contains (t ! m) a \<longrightarrow>
      mask_as_specific (rt_mask (t ! li_best t a found j)) (rt_mask (t ! m)))"
  using assms
proof (induction t a found j rule: li_best.induct)
  case (1 t a found j)
  show ?case
  proof (cases "j < length t")
    case False
    then show ?thesis using "1.prems" by (subst (1 2 3 4) li_best.simps) auto
  next
    case True
    define f where "f = (if rt_contains (t ! j) a \<and> mask_as_specific (rt_mask (t ! j)) (rt_mask (t ! found)) then j else found)"
    have eq: "li_best t a found j = li_best t a f (j + 1)" using True by (simp add: li_best.simps [of t a found] f_def)
    have f: "f < length t" "rt_contains (t ! f) a" "mask_as_specific (rt_mask (t ! f)) (rt_mask (t ! found))"
      using True "1.prems"(1,2) by (simp_all add: f_def)
    have fj: "rt_contains (t ! j) a \<Longrightarrow> mask_as_specific (rt_mask (t ! f)) (rt_mask (t ! j))"
      using "1.prems"(3) [OF "1.prems"(1) True "1.prems"(2)] by (auto simp: f_def)
    note IH = "1.IH" [OF True, folded f_def, OF f(1,2) "1.prems"(3)]
    have "mask_as_specific (rt_mask (t ! li_best t a f (j + 1))) (rt_mask (t ! m))"
      if "j \<le> m" "m < length t" "rt_contains (t ! m) a" for m
    proof (cases "m = j")
      case True
      then show ?thesis using IH fj that(3) mask_as_specific_trans by blast
    next
      case False
      then have "j + 1 \<le> m" using that(1) by simp
      then show ?thesis using IH that(2,3) by blast
    qed
    then show ?thesis unfolding eq using IH f(3) mask_as_specific_trans by blast
  qed
qed

lemma contains_chain:
  assumes "li_entries t" and "a \<noteq> 0" and "i < length t" and "j < length t"
    and "rt_contains (t ! i) a" and "rt_contains (t ! j) a"
  shows "mask_as_specific (rt_mask (t ! i)) (rt_mask (t ! j)) \<or> mask_as_specific (rt_mask (t ! j)) (rt_mask (t ! i))"
proof -
  have "\<exists>m \<le> 32. rt_mask (t ! k) = prefix_mask m" if "k < length t" "rt_contains (t ! k) a" for k
    using li_entries_nth(1) [OF assms(1) that(1)] contains_real [OF assms(1) that] assms(2)
    by (simp add: wf_prefix_def rt_key_def)
  then obtain m n where "m \<le> 32" "rt_mask (t ! i) = prefix_mask m" "n \<le> 32" "rt_mask (t ! j) = prefix_mask n"
    using assms(3-6) by metis
  then show ?thesis using mask_as_specific_iff by (metis linear)
qed

text \<open>\<^verbatim>\<open>lookup_entry\<close> finds an entry whose mask is as specific as that of any other entry that
  contains the address.\<close>

lemma li_lookup_entry_best:
  assumes "li_table_ok t" and "a \<noteq> 0"
  shows "if \<exists>m < length t. rt_contains (t ! m) a
    then \<exists>b < length t. li_lookup_entry t a = int b \<and> rt_contains (t ! b) a \<and> rt_real (t ! b) \<and>
      (\<forall>m < length t. rt_contains (t ! m) a \<longrightarrow> mask_as_specific (rt_mask (t ! b)) (rt_mask (t ! m)))
    else li_lookup_entry t a = - 1"
proof (cases "li_first a 0 t")
  case None
  then show ?thesis using li_first_spec [where a = a and i = 0 and t = t] by (auto simp: li_lookup_entry_def)
next
  case (Some i)
  have ok: "li_nexts t" "li_entries t" using assms(1) by (simp_all add: li_table_ok_def)
  have i: "i < length t" "rt_contains (t ! i) a" "\<And>m. m < i \<Longrightarrow> \<not> rt_contains (t ! m) a"
    using li_first_spec [where a = a and i = 0 and t = t] Some by auto
  define b where "b = li_best t a i (rt_extra (t ! i))"
  have b: "b < length t" "rt_contains (t ! b) a" "mask_as_specific (rt_mask (t ! b)) (rt_mask (t ! i))"
    and best: "\<And>m. rt_extra (t ! i) \<le> m \<Longrightarrow> m < length t \<Longrightarrow> rt_contains (t ! m) a \<Longrightarrow>
      mask_as_specific (rt_mask (t ! b)) (rt_mask (t ! m))"
    using li_best_spec [OF i(1,2) contains_chain [OF ok(2) assms(2)]] by (auto simp: b_def)
  have "mask_as_specific (rt_mask (t ! b)) (rt_mask (t ! m))" if m: "m < length t" "rt_contains (t ! m) a" for m
  proof (cases "mask_as_specific (rt_mask (t ! m)) (rt_mask (t ! i)) \<and> m \<noteq> i")
    case True
    then have "i < m" using i(3) [of m] m(2) by force
    moreover have "rt_contains_route (t ! i) (t ! m)"
      using matches_prefix_nested [of a "rt_addr (t ! i)" "rt_mask (t ! i)" "rt_addr (t ! m)" "rt_mask (t ! m)"] i(2) m(2) True
      by (simp add: rt_contains_route_def rt_contains_def)
    ultimately have "rt_extra (t ! i) \<le> m"
      using ok(1) m contains_real [OF ok(2) i(1,2) assms(2)] contains_real [OF ok(2) m assms(2)]
      by (auto simp: li_nexts_def)
    then show ?thesis using best m by blast
  next
    case False
    then have "mask_as_specific (rt_mask (t ! i)) (rt_mask (t ! m))"
      using contains_chain [OF ok(2) assms(2) i(1) m(1) i(2) m(2)] by auto
    then show ?thesis using b(3) mask_as_specific_trans by blast
  qed
  moreover have "li_lookup_entry t a = int b" using Some by (simp add: li_lookup_entry_def b_def)
  ultimately show ?thesis using b(1,2) contains_real [OF ok(2) b(1,2) assms(2)] i(1,2) by auto
qed

lemma contains_wf:
  "wf_prefix (rt_key e) \<Longrightarrow> rt_contains e a \<longleftrightarrow> rt_key e = (and a (rt_mask e), rt_mask e)"
  by (auto simp: wf_prefix_def rt_contains_def matches_prefix_iff rt_key_def)

lemma li_routes_covering:
  assumes "li_table_ok t" and "li_routes t (and a (prefix_mask k), prefix_mask k) = Some v"
  obtains m where "m < length t" "rt_contains (t ! m) a" "rt_mask (t ! m) = prefix_mask k"
proof -
  obtain m where m: "m < length t" "rt_real (t ! m)" "rt_key (t ! m) = (and a (prefix_mask k), prefix_mask k)"
    using assms li_routes_iff [of t] by (auto simp: li_table_ok_def)
  moreover have "wf_prefix (rt_key (t ! m))" using assms(1) li_entries_nth(1) m(1,2) by (auto simp: li_table_ok_def)
  ultimately show ?thesis using that [of m] contains_wf [of "t ! m" a] by (auto simp: rt_key_def)
qed

lemma li_lookup_lpm:
  assumes "li_table_ok t" and "a \<noteq> 0"
  shows "if li_lookup_entry t a = - 1 then lpm (li_routes t) a = None
    else \<exists>b < length t. li_lookup_entry t a = int b \<and> rt_real (t ! b) \<and> lpm (li_routes t) a = Some (rt_val (t ! b))"
proof (cases "\<exists>m < length t. rt_contains (t ! m) a")
  case False
  then have "li_routes t (and a (prefix_mask k), prefix_mask k) = None" for k
    using li_routes_covering [OF assms(1), of a k] by (metis not_Some_eq)
  then show ?thesis using False li_lookup_entry_best [OF assms] by (simp add: lpm_def lpm_from_None)
next
  case True
  then obtain b where b: "b < length t" "li_lookup_entry t a = int b" "rt_contains (t ! b) a" "rt_real (t ! b)"
    and best: "\<And>m. m < length t \<Longrightarrow> rt_contains (t ! m) a \<Longrightarrow> mask_as_specific (rt_mask (t ! b)) (rt_mask (t ! m))"
    using li_lookup_entry_best [OF assms] by auto
  have wf: "wf_prefix (rt_key (t ! b))" using assms(1) li_entries_nth(1) b(1,4) by (auto simp: li_table_ok_def)
  then obtain n where n: "n \<le> 32" "rt_mask (t ! b) = prefix_mask n" by (auto simp: wf_prefix_def rt_key_def)
  have "li_routes t (and a (prefix_mask n), prefix_mask n) = Some (rt_val (t ! b))"
    using li_routes_iff [of t] assms(1) b contains_wf [OF wf, of a] n(2) by (auto simp: li_table_ok_def)
  moreover have "li_routes t (and a (prefix_mask k), prefix_mask k) = None" if "n < k" "k \<le> 32" for k
  proof (rule ccontr)
    assume "\<not> ?thesis"
    then obtain m where "m < length t" "rt_contains (t ! m) a" "rt_mask (t ! m) = prefix_mask k"
      using li_routes_covering [OF assms(1), of a k] by (metis not_None_eq)
    then show False using best [of m] mask_as_specific_iff [of n k] n that by simp
  qed
  ultimately have "lpm (li_routes t) a = Some (rt_val (t ! b))" using n(1) by (simp add: lpm_def lpm_from_Some)
  then show ?thesis using b by auto
qed

section \<open>Changing the table\<close>

lemma li_find_slot_spec:
  "found \<le> i \<or> found = n \<Longrightarrow> i + length t = n \<Longrightarrow>
   case li_find_slot r n i found t of
     Inl k \<Rightarrow> \<exists>m < length t. k = i + m \<and> rt_real (t ! m) \<and> rt_key (t ! m) = rt_key r
   | Inr f \<Rightarrow> (\<forall>e \<in> set t. rt_real e \<longrightarrow> rt_key e \<noteq> rt_key r) \<and>
       (if found < n then f = found
        else (f = n \<and> (\<forall>e \<in> set t. rt_real e)) \<or>
          (\<exists>m < length t. f = i + m \<and> \<not> rt_real (t ! m) \<and> (\<forall>m' < m. rt_real (t ! m'))))"
proof (induction t arbitrary: i found)
  case (Cons e t)
  have k: "rt_addr e = rt_addr r \<and> rt_mask e = rt_mask r \<longleftrightarrow> rt_key e = rt_key r" by (auto simp: rt_key_def)
  show ?case
  proof (cases "rt_real e")
    case False
    have "(if found = n then i else found) < n" using Cons.prems by auto
    then show ?thesis
      using Cons.IH [of "if found = n then i else found" "i + 1"] Cons.prems False
      by (fastforce simp: nth_Cons' split: sum.splits if_splits)
  next
    case True
    then show ?thesis
      using Cons.IH [of found "i + 1"] Cons.prems
      by (cases "rt_key e = rt_key r") (fastforce simp: k nth_Cons' less_Suc_eq_0_disj split: sum.splits if_splits)+
  qed
qed auto

lemma li_find_slot_cases:
  obtains i where "li_find_slot r (length t) 0 (length t) t = Inl i" "i < length t" "rt_real (t ! i)" "rt_key (t ! i) = rt_key r"
  | f where "li_find_slot r (length t) 0 (length t) t = Inr f" "\<And>e. e \<in> set t \<Longrightarrow> rt_real e \<Longrightarrow> rt_key e \<noteq> rt_key r"
      "f \<le> length t" "\<And>i. i < f \<Longrightarrow> rt_real (t ! i)" "f < length t \<Longrightarrow> \<not> rt_real (t ! f)"
proof (cases "li_find_slot r (length t) 0 (length t) t")
  case (Inl i)
  then show ?thesis using that(1) li_find_slot_spec [of "length t" 0 "length t" t r] by auto
next
  case (Inr f)
  then show ?thesis
    using that(2) li_find_slot_spec [of "length t" 0 "length t" t r] by (fastforce simp: in_set_conv_nth)
qed

text \<open>The table after an insertion: the loops only lower next pointers.\<close>

definition li_place :: "iproute \<Rightarrow> nat \<Rightarrow> iproute list \<Rightarrow> iproute list" where
  "li_place r found t =
     (let t = (if found = length t then t @ [r] else t[found := r]);
          t = t[found := (t ! found)\<lparr> rt_extra := 0x7FFFFFFF \<rparr>];
          t = li_patch_before r found found t
      in t[found := (t ! found)\<lparr> rt_extra := li_next_after r (found + 1) (drop (found + 1) t) \<rparr>])"

lemma li_patch_before_nth:
  "k \<le> length t \<Longrightarrow> length (li_patch_before r found k t) = length t \<and>
   (\<forall>i < length t. li_patch_before r found k t ! i =
     (if i < k \<and> rt_contains_route (t ! i) r \<and> rt_extra (t ! i) > found then (t ! i)\<lparr> rt_extra := found \<rparr> else t ! i))"
proof (induction k arbitrary: t)
  case (Suc k)
  let ?t = "if rt_contains_route (t ! k) r \<and> rt_extra (t ! k) > found then t[k := (t ! k)\<lparr> rt_extra := found \<rparr>] else t"
  have "length ?t = length t" "k \<le> length ?t" using Suc.prems by simp_all
  with Suc.IH [of ?t] show ?case using Suc.prems by (auto simp: nth_list_update less_Suc_eq)
qed simp

lemma li_next_after_le:
  "m < length es \<Longrightarrow> rt_contains_route r (es ! m) \<Longrightarrow> rt_real (es ! m) \<Longrightarrow> li_next_after r i es \<le> i + m"
proof (induction es arbitrary: i m)
  case (Cons e es)
  then show ?case using Cons.IH [of "m - 1" "i + 1"] by (cases m) auto
qed simp

lemma li_place_nth:
  assumes "f \<le> length t"
  shows "length (li_place r f t) = max (length t) (f + 1)"
    and "\<exists>x. li_place r f t ! f = r\<lparr> rt_extra := x \<rparr> \<and>
      (\<forall>j. f < j \<and> j < length t \<and> rt_contains_route r (t ! j) \<and> rt_real (t ! j) \<longrightarrow> x \<le> j)"
    and "i < length t \<Longrightarrow> i \<noteq> f \<Longrightarrow> \<exists>x. li_place r f t ! i = (t ! i)\<lparr> rt_extra := x \<rparr> \<and> x \<le> rt_extra (t ! i) \<and>
      (i < f \<and> rt_contains_route (t ! i) r \<longrightarrow> x \<le> f)"
proof -
  define t1 where "t1 = (if f = length t then t @ [r] else t[f := r])"
  define t2 where "t2 = t1[f := (t1 ! f)\<lparr> rt_extra := 0x7FFFFFFF \<rparr>]"
  define t3 where "t3 = li_patch_before r f f t2"
  have t4: "li_place r f t = t3[f := (t3 ! f)\<lparr> rt_extra := li_next_after r (f + 1) (drop (f + 1) t3) \<rparr>]"
    by (simp add: li_place_def Let_def t1_def t2_def t3_def)
  have len: "length t1 = max (length t) (f + 1)" "length t2 = length t1" using assms by (simp_all add: t1_def t2_def)
  have p: "length t3 = length t2" "\<And>i. i < length t2 \<Longrightarrow> t3 ! i =
     (if i < f \<and> rt_contains_route (t2 ! i) r \<and> rt_extra (t2 ! i) > f then (t2 ! i)\<lparr> rt_extra := f \<rparr> else t2 ! i)"
    using li_patch_before_nth [of f t2 r f] len by (auto simp: t3_def)
  show "length (li_place r f t) = max (length t) (f + 1)" using t4 len p(1) by simp
  have f: "f < length t2" using len by simp
  have old: "t2 ! i = t ! i" if "i < length t" "i \<noteq> f" for i
    using that by (simp add: t2_def t1_def nth_append)
  have later: "drop (f + 1) t3 = drop (f + 1) t"
  proof (rule nth_equalityI)
    show "length (drop (f + 1) t3) = length (drop (f + 1) t)" using assms len p(1) by simp
    show "drop (f + 1) t3 ! i = drop (f + 1) t ! i" if "i < length (drop (f + 1) t3)" for i
      using that p len old [of "f + 1 + i"] assms by simp
  qed
  show "\<exists>x. li_place r f t ! f = r\<lparr> rt_extra := x \<rparr> \<and>
      (\<forall>j. f < j \<and> j < length t \<and> rt_contains_route r (t ! j) \<and> rt_real (t ! j) \<longrightarrow> x \<le> j)"
  proof (intro exI conjI allI impI)
    have "t3 ! f = r\<lparr> rt_extra := 0x7FFFFFFF \<rparr>" using p(2) [OF f] assms by (simp add: t2_def t1_def nth_append)
    then show "li_place r f t ! f = r\<lparr> rt_extra := li_next_after r (f + 1) (drop (f + 1) t) \<rparr>"
      unfolding t4 later using f p(1) by simp
    show "li_next_after r (f + 1) (drop (f + 1) t) \<le> j"
      if "f < j \<and> j < length t \<and> rt_contains_route r (t ! j) \<and> rt_real (t ! j)" for j
      using li_next_after_le [of "j - (f + 1)" "drop (f + 1) t" r "f + 1"] that by (simp add: diff_less_mono)
  qed
  assume i: "i < length t" "i \<noteq> f"
  have "li_place r f t ! i = t3 ! i" using i by (simp add: t4)
  then show "\<exists>x. li_place r f t ! i = (t ! i)\<lparr> rt_extra := x \<rparr> \<and> x \<le> rt_extra (t ! i) \<and>
      (i < f \<and> rt_contains_route (t ! i) r \<longrightarrow> x \<le> f)"
    using p(2) [of i] i len old [OF i]
    by (auto intro: exI [of _ f] exI [of _ "rt_extra (t ! i)"] split: if_splits)
qed

lemma rt_real_extra [simp]: "rt_real (e\<lparr> rt_extra := x \<rparr>) = rt_real e" by (simp add: rt_real_def)

lemma rt_contains_route_extra [simp]:
  "rt_contains_route (e\<lparr> rt_extra := x \<rparr>) r = rt_contains_route e r"
  "rt_contains_route e (r\<lparr> rt_extra := x \<rparr>) = rt_contains_route e r"
  by (simp_all add: rt_contains_route_def)

lemma li_place_entry:
  assumes "f \<le> length t" and "i < length (li_place r f t)"
  shows "i \<noteq> f \<Longrightarrow> i < length t" "rt_key (li_place r f t ! i) = rt_key (if i = f then r else t ! i)"
    "rt_val (li_place r f t ! i) = rt_val (if i = f then r else t ! i)"
    "rt_real (li_place r f t ! i) = rt_real (if i = f then r else t ! i)"
    "rt_port (li_place r f t ! i) = rt_port (if i = f then r else t ! i)"
proof -
  show len: "i \<noteq> f \<Longrightarrow> i < length t" using assms li_place_nth(1) [OF assms(1), of r] by auto
  obtain x where x: "li_place r f t ! i = (if i = f then r else t ! i)\<lparr> rt_extra := x \<rparr>"
    using li_place_nth(2) [OF assms(1), of r] li_place_nth(3) [OF assms(1) len, of r] by (cases "i = f") auto
  then show "rt_key (li_place r f t ! i) = rt_key (if i = f then r else t ! i)"
    "rt_val (li_place r f t ! i) = rt_val (if i = f then r else t ! i)"
    "rt_real (li_place r f t ! i) = rt_real (if i = f then r else t ! i)"
    "rt_port (li_place r f t ! i) = rt_port (if i = f then r else t ! i)"
    by (simp_all add: x)
qed

lemma li_place_nexts:
  assumes "li_nexts t" and "f \<le> length t"
  shows "li_nexts (li_place r f t)"
  unfolding li_nexts_def
proof (intro allI impI)
  let ?T = "li_place r f t"
  fix i j assume ij: "i < j \<and> j < length ?T \<and> rt_real (?T ! i) \<and> rt_real (?T ! j) \<and> rt_contains_route (?T ! i) (?T ! j)"
  then have l: "i \<noteq> f \<Longrightarrow> i < length t" "j \<noteq> f \<Longrightarrow> j < length t"
    using li_place_entry(1) [OF assms(2)] less_trans by blast+
  obtain x where x: "?T ! f = r\<lparr> rt_extra := x \<rparr>"
    "\<And>j. f < j \<Longrightarrow> j < length t \<Longrightarrow> rt_contains_route r (t ! j) \<Longrightarrow> rt_real (t ! j) \<Longrightarrow> x \<le> j"
    using li_place_nth(2) [OF assms(2), of r] by auto
  note old = li_place_nth(3) [OF assms(2), where r = r]
  consider "i = f" | "i \<noteq> f" "j = f" | "i \<noteq> f" "j \<noteq> f" by blast
  then show "rt_extra (?T ! i) \<le> j"
  proof cases
    case 1
    then show ?thesis using x ij old [OF l(2)] l(2) by auto
  next
    case 2
    then show ?thesis using x(1) ij old [OF l(1)] by auto
  next
    case 3
    then have "rt_extra (t ! i) \<le> j"
      using assms(1) ij old [OF l(1)] old [OF l(2)] l(2) by (auto simp: li_nexts_def)
    then show ?thesis using old [OF l(1)] 3 by auto
  qed
qed

lemma li_place_ok:
  assumes ok: "li_table_ok t" and f: "f \<le> length t" "f < length t \<Longrightarrow> \<not> rt_real (t ! f)"
    and new: "\<And>e. e \<in> set t \<Longrightarrow> rt_real e \<Longrightarrow> rt_key e \<noteq> rt_key r"
    and r: "wf_prefix (rt_key r)" "0 \<le> rt_port r"
  shows "li_table_ok (li_place r f t)" "li_routes (li_place r f t) = (li_routes t)(rt_key r \<mapsto> rt_val r)"
proof -
  let ?T = "li_place r f t"
  note at = li_place_entry [OF f(1)]
  have real: "rt_real r" using r(2) by (simp add: rt_real_def)
  have t: "li_distinct t" "li_entries t" "li_nexts t" using ok by (simp_all add: li_table_ok_def)
  have new': "rt_key (t ! i) \<noteq> rt_key r" if "i < length t" "rt_real (t ! i)" for i using new that by simp
  have D: "li_distinct ?T"
    unfolding li_distinct_def
  proof (intro allI impI)
    fix i j assume ij: "i < j \<and> j < length ?T \<and> rt_real (?T ! i) \<and> rt_real (?T ! j)"
    then have l: "i < length ?T" "j < length ?T" by auto
    show "rt_key (?T ! i) \<noteq> rt_key (?T ! j)"
      using ij at [OF l(1)] at [OF l(2)] new' [of i] new' [of j] t(1)
      by (cases "i = f"; cases "j = f") (auto simp: li_distinct_def)
  qed
  have "li_entries ?T"
    unfolding li_entries_def
  proof
    fix e assume "e \<in> set ?T"
    then obtain i where i: "i < length ?T" "e = ?T ! i" by (auto simp: in_set_conv_nth)
    show "if rt_real e then wf_prefix (rt_key e) \<and> 0 \<le> rt_port e else rt_key e = (0, 0xFFFFFFFF) \<and> rt_port e < 0"
      using i(2) at [OF i(1)] r real li_entries_nth [OF t(2), of i] by (cases "i = f") auto
  qed
  then show "li_table_ok ?T" using D li_place_nexts [OF t(3) f(1)] by (simp add: li_table_ok_def)
  have len: "length ?T = max (length t) (f + 1)" by (rule li_place_nth(1) [OF f(1)])
  then have "f < length ?T" by simp
  note here = at [OF this]
  have "li_routes ?T = (li_routes t)(rt_key r := if rt_real (?T ! f) then Some (rt_val (?T ! f)) else None)"
  proof (rule li_routes_change [OF D \<open>f < length ?T\<close> t(1)])
    show "(j < length ?T \<and> rt_real (?T ! j)) = (j < length t \<and> rt_real (t ! j))" if "j \<noteq> f" for j
      using at [of j r] len that by auto
    show "rt_key (?T ! j) = rt_key (t ! j) \<and> rt_val (?T ! j) = rt_val (t ! j)" if "j \<noteq> f" "j < length t" for j
      using at [of j r] len that by simp
  qed (use new' f(2) here in auto)
  then show "li_routes ?T = (li_routes t)(rt_key r \<mapsto> rt_val r)" using here real by simp
qed

lemma li_zero_prefix: "wf_prefix (0, 0xFFFFFFFF)"
  by (auto simp: wf_prefix_def prefix_mask_32 [symmetric])

lemma li_add_route_eq:
  "li_add_route r replace s =
     (case li_find_slot r (length (li_t s)) 0 (length (li_t s)) (li_t s) of
        Inl i \<Rightarrow>
          if \<not> replace then Some (- EEXIST, Some (li_t s ! i), s)
          else Some (0, Some (li_t s ! i), s\<lparr> li_t := (li_t s)[i := (li_t s ! i)\<lparr> rt_gw := rt_gw r, rt_port := rt_port r \<rparr>] \<rparr>)
      | Inr f \<Rightarrow> Some (0, None, s\<lparr> li_t := li_place r f (li_t s),
          li_zero := if rt_key r = (0, 0xFFFFFFFF) then int f else li_zero s, li_last_addr := 0, li_last_addr2 := 0 \<rparr>))"
  by (simp add: li_add_route_def Let_def li_place_def rt_key_def split: sum.splits)

text \<open>Inserting a prefix that the table does not have. Of \<^verbatim>\<open>_zero_route\<close> only what the caller knows is
  needed: \<^verbatim>\<open>remove_route\<close> calls \<^verbatim>\<open>add_route\<close> while it is stale.\<close>

lemma li_add_new:
  assumes "li_table_ok (li_t s)" and "wf_prefix (rt_key r)" and "0 \<le> rt_port r"
    and new: "li_routes (li_t s) (rt_key r) = None"
    and zero: "rt_key r = (0, 0xFFFFFFFF) \<or> li_zero_ok (li_t s) (li_zero s)"
  shows "\<exists>s'. li_add_route r replace s = Some (0, None, s') \<and> li_inv s' \<and>
    li_routes (li_t s') = (li_routes (li_t s))(rt_key r \<mapsto> rt_val r)"
proof -
  let ?t = "li_t s"
  have fresh: "\<And>e. e \<in> set ?t \<Longrightarrow> rt_real e \<Longrightarrow> rt_key e \<noteq> rt_key r" using new by (auto simp: li_routes_None)
  show ?thesis
  proof (cases rule: li_find_slot_cases [of r ?t])
    case (1 i)
    then show ?thesis using fresh by auto
  next
    case (2 f)
    define s' where "s' = s\<lparr> li_t := li_place r f ?t,
          li_zero := if rt_key r = (0, 0xFFFFFFFF) then int f else li_zero s, li_last_addr := 0, li_last_addr2 := 0 \<rparr>"
    note ok = li_place_ok [OF assms(1) 2(3,5) fresh assms(2,3)]
    note at = li_place_entry [OF 2(3)] and len = li_place_nth(1) [OF 2(3), of r]
    have real: "rt_real r" using assms(3) by (simp add: rt_real_def)
    have "li_zero_ok (li_place r f ?t) (li_zero s')"
    proof (cases "rt_key r = (0, 0xFFFFFFFF)")
      case True
      then show ?thesis using at [of f r] at [of _ r] 2(4) real len by (auto simp: li_zero_ok_def s'_def)
    next
      case False
      note z = zero [unfolded li_zero_ok_def]
      show ?thesis
      proof (cases "li_zero s = - 1")
        case True
        then have "rt_real (li_place r f ?t ! i) \<longrightarrow> rt_key (li_place r f ?t ! i) \<noteq> (0, 0xFFFFFFFF)"
          if "i < length (li_place r f ?t)" for i
          using at [OF that] False z by auto
        then show ?thesis using True False by (auto simp: li_zero_ok_def s'_def in_set_conv_nth)
      next
        case nz: False
        then have n: "0 \<le> li_zero s" "nat (li_zero s) < length ?t" "rt_real (?t ! nat (li_zero s))"
          "rt_key (?t ! nat (li_zero s)) = (0, 0xFFFFFFFF)" "\<And>i. i < nat (li_zero s) \<Longrightarrow> rt_real (?t ! i)"
          using z False by auto
        then have "nat (li_zero s) < f" using 2(3,5) by (metis le_neq_implies_less not_less_iff_gr_or_eq)
        then show ?thesis using n at [of _ r] len False nz by (auto simp: li_zero_ok_def s'_def)
      qed
    qed
    then have "li_inv s'" using ok(1) by (simp add: li_inv_def s'_def li_cache_ok_def)
    moreover have "li_add_route r replace s = Some (0, None, s')" by (simp add: li_add_route_eq 2(1) s'_def)
    ultimately show ?thesis using ok(2) by (simp add: s'_def)
  qed
qed

text \<open>Replacing gateway and port of an entry does not change what lookups find.\<close>

lemma li_first_cong:
  "length t = length t' \<Longrightarrow> (\<And>i. i < length t \<Longrightarrow> rt_contains (t ! i) a = rt_contains (t' ! i) a) \<Longrightarrow>
    li_first a n t = li_first a n t'"
proof (induction t t' arbitrary: n rule: list_induct2)
  case (Cons x xs y ys)
  have "rt_contains x a = rt_contains y a" using Cons.prems [of 0] by simp
  moreover have "li_first a (n + 1) xs = li_first a (n + 1) ys" using Cons.IH Cons.prems [of "Suc _"] by simp
  ultimately show ?case by simp
qed simp

lemma li_best_cong:
  "length t = length t' \<Longrightarrow> found < length t \<Longrightarrow>
    (\<And>i. i < length t \<Longrightarrow> rt_contains (t ! i) a = rt_contains (t' ! i) a \<and> rt_mask (t ! i) = rt_mask (t' ! i)) \<Longrightarrow>
    li_best t a found j = li_best t' a found j"
proof (induction t a found j rule: li_best.induct)
  case (1 t a found j)
  show ?case
  proof (cases "j < length t")
    case True
    let ?f = "if rt_contains (t ! j) a \<and> mask_as_specific (rt_mask (t ! j)) (rt_mask (t ! found)) then j else found"
    have "?f < length t" using True "1.prems"(2) by simp
    from "1.IH" [OF True "1.prems"(1) this "1.prems"(3)] show ?thesis
      using True "1.prems" by (simp add: li_best.simps [of t a found] li_best.simps [of t' a found] split del: if_split)
  next
    case False
    then show ?thesis using "1.prems"(1) by (simp add: li_best.simps)
  qed
qed

lemma li_lookup_entry_cong:
  assumes "length t = length t'"
    and "\<And>i. i < length t \<Longrightarrow> rt_key (t ! i) = rt_key (t' ! i) \<and> rt_extra (t ! i) = rt_extra (t' ! i)"
  shows "li_lookup_entry t a = li_lookup_entry t' a"
proof -
  have c: "rt_contains (t ! i) a = rt_contains (t' ! i) a \<and> rt_mask (t ! i) = rt_mask (t' ! i)" if "i < length t" for i
    using assms(2) [OF that] by (simp add: rt_contains_def rt_key_def)
  have first: "li_first a 0 t = li_first a 0 t'" using li_first_cong [OF assms(1)] c by blast
  show ?thesis
  proof (cases "li_first a 0 t")
    case (Some i)
    then have "i < length t" using li_first_spec [where a = a and i = 0 and t = t] by auto
    then show ?thesis
      using Some first li_best_cong [OF assms(1) _ c, of i] assms(2) by (simp add: li_lookup_entry_def)
  qed (simp add: li_lookup_entry_def first)
qed

lemma li_add_existing:
  assumes "li_inv s" and "0 \<le> rt_port r" and "i < length (li_t s)" and "rt_real (li_t s ! i)" and "rt_key (li_t s ! i) = rt_key r"
  defines "s' \<equiv> s\<lparr> li_t := (li_t s)[i := (li_t s ! i)\<lparr> rt_gw := rt_gw r, rt_port := rt_port r \<rparr>] \<rparr>"
  shows "li_inv s'" "li_routes (li_t s') = (li_routes (li_t s))(rt_key r \<mapsto> rt_val r)"
proof -
  let ?t = "li_t s" and ?T = "li_t s'"
  have len: "length ?T = length ?t" by (simp add: s'_def)
  have at: "rt_key (?T ! j) = rt_key (?t ! j)" "rt_extra (?T ! j) = rt_extra (?t ! j)"
    "rt_val (?T ! j) = rt_val (if j = i then r else ?t ! j)" "rt_real (?T ! j) = rt_real (?t ! j)"
    "rt_port (?T ! j) = rt_port (if j = i then r else ?t ! j)" if "j < length ?t" for j
    using that assms(2-5) by (auto simp: s'_def nth_list_update rt_key_def rt_val_def rt_real_def)
  have ok: "li_distinct ?t" "li_entries ?t" "li_nexts ?t" "li_zero_ok ?t (li_zero s)" "li_cache_ok s"
    using assms(1) by (simp_all add: li_inv_def li_table_ok_def)
  have D: "li_distinct ?T" using ok(1) at(1,4) len by (auto simp: li_distinct_def)
  have c: "rt_contains_route (?T ! j) (?T ! k) = rt_contains_route (?t ! j) (?t ! k)" if "j < length ?t" "k < length ?t" for j k
    using at(1) [OF that(1)] at(1) [OF that(2)] by (simp add: rt_contains_route_def rt_key_def)
  have N: "li_nexts ?T" using ok(3) at(2,4) c len by (auto simp: li_nexts_def)
  have E: "li_entries ?T"
    unfolding li_entries_def
  proof
    fix e assume "e \<in> set ?T"
    then obtain j where j: "j < length ?t" "e = ?T ! j" using len by (auto simp: in_set_conv_nth)
    show "if rt_real e then wf_prefix (rt_key e) \<and> 0 \<le> rt_port e else rt_key e = (0, 0xFFFFFFFF) \<and> rt_port e < 0"
      using j(2) at [OF j(1)] li_entries_nth [OF ok(2) j(1)] assms(2,4) by (cases "j = i") auto
  qed
  have "li_zero_ok ?T (li_zero s)"
    using ok(4) at(1,4) len by (auto simp: li_zero_ok_def all_set_conv_all_nth)
  moreover have "li_lookup_entry ?T a = li_lookup_entry ?t a" for a
    using li_lookup_entry_cong [of ?T ?t a] len at(1,2) by simp
  ultimately show "li_inv s'"
    using D N E ok(5) by (simp add: li_inv_def li_table_ok_def li_cache_ok_def s'_def)
  have other: "rt_key (?t ! j) \<noteq> rt_key r" if "j \<noteq> i" "j < length ?t" "rt_real (?t ! j)" for j
    using ok(1) assms(3-5) that unfolding li_distinct_def by (metis linorder_neqE_nat)
  have "li_routes ?T = (li_routes ?t)(rt_key r := if rt_real (?T ! i) then Some (rt_val (?T ! i)) else None)"
    by (rule li_routes_change [OF D _ ok(1)]) (use at other assms(3,5) len in auto)
  then show "li_routes ?T = (li_routes ?t)(rt_key r \<mapsto> rt_val r)" using at [OF assms(3)] assms(4) by simp
qed

lemma rt_kill_simps [simp]:
  "rt_key (rt_kill e) = (0, 0xFFFFFFFF)" "\<not> rt_real (rt_kill e)" "rt_port (rt_kill e) = - 0x80000000"
  by (simp_all add: rt_kill_def rt_key_def rt_real_def)

lemma li_kill_ok:
  assumes "li_table_ok t" and "i < length t"
  shows "li_table_ok (t[i := rt_kill (t ! i)])"
    "li_routes (t[i := rt_kill (t ! i)]) = (if rt_real (t ! i) then (li_routes t)(rt_key (t ! i) := None) else li_routes t)"
proof -
  let ?T = "t[i := rt_kill (t ! i)]"
  have t: "li_distinct t" "li_entries t" "li_nexts t" using assms(1) by (simp_all add: li_table_ok_def)
  have real: "rt_real (?T ! j) \<longleftrightarrow> j \<noteq> i \<and> rt_real (t ! j)" "j \<noteq> i \<Longrightarrow> ?T ! j = t ! j" if "j < length t" for j
    using that by (cases "j = i"; simp)+
  have D: "li_distinct ?T" using t(1) real by (fastforce simp: li_distinct_def)
  moreover have "li_nexts ?T" using t(3) real by (fastforce simp: li_nexts_def)
  moreover have "li_entries ?T"
    unfolding li_entries_def
  proof
    fix e assume "e \<in> set ?T"
    then show "if rt_real e then wf_prefix (rt_key e) \<and> 0 \<le> rt_port e else rt_key e = (0, 0xFFFFFFFF) \<and> rt_port e < 0"
      using t(2) set_update_subset_insert [of t i "rt_kill (t ! i)"] by (auto simp: li_entries_def)
  qed
  ultimately show "li_table_ok ?T" by (simp add: li_table_ok_def)
  have "li_routes ?T = li_routes t" if "\<not> rt_real (t ! i)"
  proof (rule ext)
    fix k
    have "li_routes ?T k = Some v \<longleftrightarrow> li_routes t k = Some v" for v
      unfolding li_routes_iff [OF D] li_routes_iff [OF t(1)] using real that by (metis length_list_update)
    then show "li_routes ?T k = li_routes t k" by (cases "li_routes t k"; cases "li_routes ?T k") auto
  qed
  moreover have "li_routes ?T = (li_routes t)(rt_key (t ! i) := if rt_real (?T ! i) then Some (rt_val (?T ! i)) else None)"
    if r: "rt_real (t ! i)"
  proof (rule li_routes_change [OF D _ t(1)])
    show "rt_key (t ! j) \<noteq> rt_key (t ! i)" if "j \<noteq> i" "j < length t" "rt_real (t ! j)" for j
      using t(1) assms(2) r that unfolding li_distinct_def by (metis linorder_neqE_nat)
  qed (use assms(2) real in auto)
  ultimately show "li_routes ?T = (if rt_real (t ! i) then (li_routes t)(rt_key (t ! i) := None) else li_routes t)"
    using assms(2) by simp
qed

lemma li_find_match_spec:
  "case li_find_match r n t of
     None \<Rightarrow> \<forall>e \<in> set t. \<not> rt_match r e
   | Some k \<Rightarrow> \<exists>m < length t. k = n + m \<and> rt_match r (t ! m) \<and> (\<forall>m' < m. \<not> rt_match r (t ! m'))"
proof (induction t arbitrary: n)
  case (Cons e t)
  show ?case
  proof (cases "rt_match r e")
    case False
    then show ?thesis
      using Cons [of "n + 1"]
      by (fastforce split: option.splits simp: nth_Cons' less_Suc_eq_0_disj intro: exI [of _ "Suc _"])
  qed (auto intro: exI [of _ 0])
qed simp

lemma rt_match_iff: "rt_match r e \<longleftrightarrow> rt_key e = rt_key r \<and> (rt_port r < 0 \<or> rt_val e = rt_val r)"
  by (auto simp: rt_match_def rt_key_def rt_val_def)

text \<open>A dead entry is only taken for a route 0.0.0.0/32 when the table has none.\<close>

lemma li_match_dead:
  assumes "li_inv s" and "i < length (li_t s)" and "rt_match r (li_t s ! i)" and "\<And>j. j < i \<Longrightarrow> \<not> rt_match r (li_t s ! j)"
    and "\<not> rt_real (li_t s ! i)" and "- 1 \<le> rt_port r"
  shows "rt_key r = (0, 0xFFFFFFFF)" "rt_port r < 0" "li_zero s = - 1" "li_routes (li_t s) (rt_key r) = None"
proof -
  have ok: "li_entries (li_t s)" "li_zero_ok (li_t s) (li_zero s)" using assms(1) by (simp_all add: li_inv_def li_table_ok_def)
  have dead: "rt_key (li_t s ! i) = (0, 0xFFFFFFFF)" "rt_port (li_t s ! i) < 0"
    using li_entries_nth(2) [OF ok(1) assms(2,5)] by simp_all
  show k: "rt_key r = (0, 0xFFFFFFFF)" and p: "rt_port r < 0"
    using assms(3) dead by (auto simp: rt_match_iff rt_val_def)
  show z: "li_zero s = - 1"
  proof (rule ccontr)
    assume "li_zero s \<noteq> - 1"
    then have z: "rt_key (li_t s ! nat (li_zero s)) = (0, 0xFFFFFFFF)" "\<And>j. j < nat (li_zero s) \<Longrightarrow> rt_real (li_t s ! j)"
      "rt_real (li_t s ! nat (li_zero s))"
      using ok(2) by (auto simp: li_zero_ok_def)
    then have "nat (li_zero s) < i" using assms(5) by (metis linorder_neqE_nat)
    then show False using assms(4) [of "nat (li_zero s)"] z(1) k p by (simp add: rt_match_iff)
  qed
  show "li_routes (li_t s) (rt_key r) = None" using ok(2) z k by (auto simp: li_zero_ok_def li_routes_None)
qed

lemma li_zero_ok_kill:
  assumes "li_zero_ok t z" and "li_distinct t" and "i < length t" and "int i > z"
  shows "li_zero_ok (t[i := rt_kill (t ! i)]) z"
proof (cases "z = - 1")
  case True
  then show ?thesis
    using assms(1) set_update_subset_insert [of t i "rt_kill (t ! i)"] by (auto simp: li_zero_ok_def)
next
  case False
  then have "nat z \<noteq> i" using assms by (auto simp: li_zero_ok_def)
  then show ?thesis using False assms by (auto simp: li_zero_ok_def)
qed

lemma li_zero_ok_killed:
  assumes "li_zero_ok t (int i)" and "li_distinct t"
  shows "li_zero_ok (t[i := rt_kill (t ! i)]) (- 1)"
proof -
  have z: "i < length t" "rt_real (t ! i)" "rt_key (t ! i) = (0, 0xFFFFFFFF)" using assms(1) by (auto simp: li_zero_ok_def)
  have "rt_key (t[i := rt_kill (t ! i)] ! j) \<noteq> (0, 0xFFFFFFFF)" if "j < length t" "rt_real (t[i := rt_kill (t ! i)] ! j)" for j
    using that z assms(2) unfolding li_distinct_def
    by (cases "j = i") (simp_all, metis linorder_neqE_nat)
  then show ?thesis by (auto simp: li_zero_ok_def in_set_conv_nth)
qed

text \<open>Removing a route that precedes the one for 0.0.0.0/32 moves the latter to a free slot.\<close>

lemma li_move_zero:
  assumes "li_inv s" and "i < length (li_t s)" and "rt_real (li_t s ! i)" and "int i < li_zero s"
  defines "t \<equiv> (li_t s)[i := rt_kill (li_t s ! i)]" and "z \<equiv> nat (li_zero s)"
  shows "z < length t \<and> (\<exists>s'. li_add_route (t ! z) False (s\<lparr> li_t := t[z := rt_kill (t ! z)] \<rparr>) = Some (0, None, s') \<and>
    li_inv s' \<and> li_routes (li_t s') = (li_routes (li_t s))(rt_key (li_t s ! i) := None))"
proof -
  have ok: "li_table_ok (li_t s)" "li_zero_ok (li_t s) (li_zero s)" "li_distinct (li_t s)" "li_entries (li_t s)"
    using assms(1) by (simp_all add: li_inv_def li_table_ok_def)
  have z: "z < length (li_t s)" "z \<noteq> i" "rt_real (li_t s ! z)" "rt_key (li_t s ! z) = (0, 0xFFFFFFFF)"
    using ok(2) assms(4) by (auto simp: li_zero_ok_def z_def)
  have tz: "t ! z = li_t s ! z" "length t = length (li_t s)" using z(2) by (simp_all add: t_def)
  note t = li_kill_ok [OF ok(1) assms(2), folded t_def]
  have zt: "z < length t" "rt_real (t ! z)" "rt_key (t ! z) = (0, 0xFFFFFFFF)" using z tz by simp_all
  note t2 = li_kill_ok [OF t(1) zt(1)]
  have ne: "rt_key (li_t s ! i) \<noteq> (0, 0xFFFFFFFF)"
    using ok(3) z assms(2-4) unfolding li_distinct_def by (metis linorder_neqE_nat)
  have val: "li_routes (li_t s) (0, 0xFFFFFFFF) = Some (rt_val (t ! z))"
    using li_routes_iff [OF ok(3)] z tz by auto
  have port: "0 \<le> rt_port (t ! z)" using li_entries_nth(1) [OF ok(4) z(1,3)] tz by simp
  let ?s = "s\<lparr> li_t := t[z := rt_kill (t ! z)] \<rparr>"
  have none: "li_routes (li_t ?s) (rt_key (t ! z)) = None" using t2(2) zt(2) by simp
  obtain s' where s': "li_add_route (t ! z) False ?s = Some (0, None, s')" "li_inv s'"
    "li_routes (li_t s') = (li_routes (li_t ?s))(rt_key (t ! z) \<mapsto> rt_val (t ! z))"
    using li_add_new [of ?s "t ! z" False] t2(1) zt(3) port none li_zero_prefix by auto
  have "li_routes (li_t s') = (li_routes (li_t s))(rt_key (li_t s ! i) := None)"
    using s'(3) t2(2) t(2) zt(2,3) assms(3) ne val by (auto simp: fun_eq_iff)
  then show ?thesis using s' zt(1) by blast
qed

lemma li_remove_missing:
  assumes "li_inv s" and "li_find_match r 0 (li_t s) = None"
  shows "routes_remove r (li_routes (li_t s)) = (- ENOENT, li_routes (li_t s))"
proof (cases "li_routes (li_t s) (rt_key r)")
  case (Some v)
  then obtain j where j: "j < length (li_t s)" "rt_key (li_t s ! j) = rt_key r" "v = rt_val (li_t s ! j)"
    using li_routes_iff [of "li_t s"] assms(1) by (auto simp: li_inv_def li_table_ok_def)
  then have "\<not> rt_match r (li_t s ! j)"
    using li_find_match_spec [where r = r and n = 0 and t = "li_t s"] assms(2) by simp
  then show ?thesis using j Some by (auto simp: routes_remove_def rt_match_iff)
qed (simp add: routes_remove_def)

lemma li_inv_clear:
  "li_table_ok (li_t s) \<Longrightarrow> li_zero_ok (li_t s) (li_zero s) \<Longrightarrow> li_inv (s\<lparr> li_last_addr := 0, li_last_addr2 := 0 \<rparr>)"
  by (simp add: li_inv_def li_cache_ok_def)

lemma li_remove_real:
  assumes "li_inv s" and i: "li_find_match r 0 (li_t s) = Some i" "i < length (li_t s)" "rt_real (li_t s ! i)"
  shows "\<exists>s'. li_remove_route r s = Some (0, Some (li_t s ! i), s') \<and> li_inv s' \<and>
    li_routes (li_t s') = (li_routes (li_t s))(rt_key (li_t s ! i) := None)"
proof -
  let ?t = "(li_t s)[i := rt_kill (li_t s ! i)]"
  have ok: "li_table_ok (li_t s)" "li_zero_ok (li_t s) (li_zero s)" "li_distinct (li_t s)"
    using assms(1) by (simp_all add: li_inv_def li_table_ok_def)
  note kill = li_kill_ok [OF ok(1) i(2)]
  show ?thesis
  proof (cases "int i < li_zero s")
    case lt: True
    obtain s1 where "nat (li_zero s) < length ?t" "li_inv s1"
      "li_add_route (?t ! nat (li_zero s)) False (s\<lparr> li_t := ?t[nat (li_zero s) := rt_kill (?t ! nat (li_zero s))] \<rparr>) = Some (0, None, s1)"
      "li_routes (li_t s1) = (li_routes (li_t s))(rt_key (li_t s ! i) := None)"
      using li_move_zero [OF assms(1) i(2,3) lt] by auto
    then show ?thesis
      using i(1) lt by (simp add: li_remove_route_def Let_def li_inv_def li_cache_ok_def)
  next
    case ge: False
    then show ?thesis
      using i(1,3) kill li_inv_clear li_zero_ok_killed [of "li_t s" i] li_zero_ok_kill [OF ok(2,3) i(2)] ok(2,3)
      by (auto simp: li_remove_route_def Let_def)
  qed
qed

lemma li_remove_dead:
  assumes "li_inv s" and i: "li_find_match r 0 (li_t s) = Some i" "i < length (li_t s)" "\<not> rt_real (li_t s ! i)"
    and z: "li_zero s = - 1"
  shows "\<exists>s'. li_remove_route r s = Some (0, Some (li_t s ! i), s') \<and> li_inv s' \<and> li_routes (li_t s') = li_routes (li_t s)"
proof -
  let ?t = "(li_t s)[i := rt_kill (li_t s ! i)]"
  have ok: "li_table_ok (li_t s)" "li_zero_ok (li_t s) (li_zero s)" "li_distinct (li_t s)"
    using assms(1) by (simp_all add: li_inv_def li_table_ok_def)
  note kill = li_kill_ok [OF ok(1) i(2)]
  have "li_remove_route r s = Some (0, Some (li_t s ! i), s\<lparr> li_t := ?t, li_last_addr := 0, li_last_addr2 := 0 \<rparr>)"
    using i(1) z by (simp add: li_remove_route_def Let_def)
  moreover have "li_inv (s\<lparr> li_t := ?t, li_last_addr := 0, li_last_addr2 := 0 \<rparr>)"
    using li_inv_clear [of "s\<lparr> li_t := ?t \<rparr>"] kill(1) li_zero_ok_kill [OF ok(2,3) i(2)] z by simp
  ultimately show ?thesis using kill(2) i(3) by simp
qed

lemma li_remove_route_spec:
  assumes "li_inv s" and "wf_prefix (rt_key r)" and "- 1 \<le> rt_port r"
  shows "\<exists>code old s'. li_remove_route r s = Some (code, old, s') \<and> li_inv s' \<and>
    li_routes (li_t s') = snd (routes_remove r (li_routes (li_t s))) \<and>
    (if fst (routes_remove r (li_routes (li_t s))) = 0
     then code = 0 \<and> (\<exists>o1. old = Some o1 \<and> rt_key o1 = rt_key r \<and> li_routes (li_t s) (rt_key r) = Some (rt_val o1))
     else code = - ENOENT \<and> old = None \<or> code = 0 \<and> (\<exists>o1. old = Some o1 \<and> rt_port o1 < 0))"
proof (cases "li_find_match r 0 (li_t s)")
  case None
  then show ?thesis
    using li_remove_missing [OF assms(1) None] assms(1) by (simp add: li_remove_route_def ENOENT_def)
next
  case (Some i)
  have i: "i < length (li_t s)" "rt_match r (li_t s ! i)" "\<And>j. j < i \<Longrightarrow> \<not> rt_match r (li_t s ! j)"
    using li_find_match_spec [where r = r and n = 0 and t = "li_t s"] Some by auto
  have ok: "li_entries (li_t s)" "li_distinct (li_t s)" using assms(1) by (simp_all add: li_inv_def li_table_ok_def)
  show ?thesis
  proof (cases "rt_real (li_t s ! i)")
    case False
    note d = li_match_dead [OF assms(1) i False assms(3)]
    have "routes_remove r (li_routes (li_t s)) = (- ENOENT, li_routes (li_t s))" using d(4) by (simp add: routes_remove_def)
    then show ?thesis
      using li_remove_dead [OF assms(1) Some i(1) False d(3)] li_entries_nth(2) [OF ok(1) i(1) False]
      by (auto simp: ENOENT_def)
  next
    case True
    have M: "li_routes (li_t s) (rt_key r) = Some (rt_val (li_t s ! i))"
      using li_routes_iff [OF ok(2)] i(1,2) True by (auto simp: rt_match_iff)
    then have "routes_remove r (li_routes (li_t s)) = (0, (li_routes (li_t s))(rt_key (li_t s ! i) := None))"
      using i(2) by (auto simp: routes_remove_def rt_match_iff)
    then show ?thesis using li_remove_real [OF assms(1) Some i(1) True] M i(2) by (auto simp: rt_match_iff)
  qed
qed

lemma li_add_route_spec:
  assumes "li_inv s" and "wf_prefix (rt_key r)" and "0 \<le> rt_port r"
  shows "\<exists>old s'. li_add_route r replace s = Some (fst (routes_add r replace (li_routes (li_t s))), old, s') \<and> li_inv s' \<and>
    li_routes (li_t s') = snd (routes_add r replace (li_routes (li_t s))) \<and>
    li_routes (li_t s) (rt_key r) = map_option rt_val old \<and> (\<forall>o1. old = Some o1 \<longrightarrow> rt_key o1 = rt_key r)"
proof (cases rule: li_find_slot_cases [of r "li_t s"])
  case (1 i)
  have "li_distinct (li_t s)" using assms(1) by (simp add: li_inv_def li_table_ok_def)
  then have M: "li_routes (li_t s) (rt_key r) = Some (rt_val (li_t s ! i))" using 1 li_routes_iff by blast
  show ?thesis
    using 1 M assms(1) li_add_existing [OF assms(1,3) 1(2-4)]
    by (cases replace) (simp_all add: li_add_route_eq routes_add_def)
next
  case (2 f)
  then have "li_routes (li_t s) (rt_key r) = None" by (auto simp: li_routes_None)
  with li_add_new [OF _ assms(2,3) this, of replace] assms(1) show ?thesis
    by (auto simp: li_inv_def routes_add_def)
qed

interpretation linear: route_table li_add_route li_remove_route li_inv "\<lambda>s. li_routes (li_t s)"
proof
  show "wf_prefix k \<and> 0 \<le> snd v" if "li_inv s" "li_routes (li_t s) k = Some v" for s k v
  proof -
    have ok: "li_distinct (li_t s)" "li_entries (li_t s)" using that(1) by (simp_all add: li_inv_def li_table_ok_def)
    then show ?thesis
      using that(2) li_entries_nth(1) [OF ok(2)] by (auto simp: li_routes_iff [OF ok(1)] rt_val_def)
  qed
qed (use li_add_route_spec li_remove_route_spec in simp_all)

section \<open>Properties\<close>

lemma li_inv_check: "li_inv s \<Longrightarrow> li_check s"
  by (auto simp: li_inv_def li_table_ok_def li_nexts_def li_distinct_def li_cache_ok_def li_check_def Let_def rt_key_def
      dest: leD)

lemma li_inv_new: "li_inv (li_new e1 e2)" "li_routes (li_t (li_new e1 e2)) = Map.empty"
  by (simp_all add: li_new_def li_inv_def li_table_ok_def li_nexts_def li_distinct_def li_entries_def li_zero_ok_def
      li_cache_ok_def li_routes_def fun_eq_iff)

lemma li_inv_initialize: "li_inv s \<Longrightarrow> li_inv (li_initialize s)"
  by (simp add: li_initialize_def li_inv_clear li_inv_def [of s])

text \<open>C28: \<^verbatim>\<open>LinearIPLookup::push\<close> forwards by longest prefix match: for a packet whose destination
  annotation is not 0.0.0.0, whether the route comes from one of the two caches or from the
  search along the next pointers, the packet leaves on the port, and with the gateway, of the
  longest prefix that contains the address; it is dropped when there is none. The table is
  unchanged and the caches stay coherent.\<close>

theorem li_push_lpm:
  assumes "li_inv s" and "dst_ip_anno p \<noteq> 0"
  shows "case lpm (li_routes (li_t s)) (dst_ip_anno p) of
      None \<Rightarrow> li_push nout p s = Some (s, [])
    | Some (gw, port) \<Rightarrow>
        if port < int nout
        then \<exists>s'. li_push nout p s = Some (s', [(nat port, if gw \<noteq> 0 then p\<lparr> dst_ip_anno := gw \<rparr> else p)]) \<and>
          li_inv s' \<and> li_t s' = li_t s
        else li_push nout p s = None"
proof -
  let ?a = "dst_ip_anno p" and ?ei = "li_lookup_entry (li_t s) (dst_ip_anno p)"
  have ok: "li_table_ok (li_t s)" "li_cache_ok s" using assms(1) by (simp_all add: li_inv_def)
  note L = li_lookup_lpm [OF ok(1) assms(2)]
  show ?thesis
  proof (cases "?ei = - 1")
    case True
    then have "?a \<noteq> li_last_addr s" "?a \<noteq> li_last_addr2 s" using ok(2) assms(2) by (auto simp: li_cache_ok_def)
    then show ?thesis using True L by (simp add: li_push_def)
  next
    case False
    then obtain b where b: "b < length (li_t s)" "?ei = int b" "rt_real (li_t s ! b)"
      "lpm (li_routes (li_t s)) ?a = Some (rt_val (li_t s ! b))" using L by auto
    define s' where "s' = (if ?a = li_last_addr s \<or> ?a = li_last_addr2 s then s
      else s\<lparr> li_last_addr2 := li_last_addr s, li_last_entry2 := li_last_entry s, li_last_addr := ?a, li_last_entry := int b \<rparr>)"
    have push: "li_push nout p s = li_deliver nout (int b) p s'"
      using b(2) ok(2) assms(2) by (auto simp: li_push_def s'_def li_cache_ok_def Let_def)
    have t: "li_t s' = li_t s" "li_inv s'"
      using assms(1) b(2) by (auto simp: s'_def li_inv_def li_cache_ok_def)
    have "0 \<le> rt_port (li_t s ! b)" using ok(1) li_entries_nth(1) [OF _ b(1,3)] by (simp add: li_table_ok_def)
    then show ?thesis using push t b by (auto simp: li_deliver_def rt_val_def Let_def)
  qed
qed

lemma li_remove_exact:
  assumes "li_inv s" and "wf_prefix (rt_key r)" and "- 1 \<le> rt_port r" and "0 \<le> rt_port r \<or> rt_key r \<noteq> (0, 0xFFFFFFFF)"
  shows "\<exists>old s'. li_remove_route r s = Some (fst (routes_remove r (li_routes (li_t s))), old, s') \<and> li_inv s' \<and>
    li_routes (li_t s') = snd (routes_remove r (li_routes (li_t s)))"
proof (cases "fst (routes_remove r (li_routes (li_t s))) = 0")
  case True
  then show ?thesis using li_remove_route_spec [OF assms(1-3)] by auto
next
  case False
  have "li_find_match r 0 (li_t s) = None"
  proof (rule ccontr)
    assume "li_find_match r 0 (li_t s) \<noteq> None"
    then obtain i where i: "i < length (li_t s)" "rt_match r (li_t s ! i)" "\<And>j. j < i \<Longrightarrow> \<not> rt_match r (li_t s ! j)"
      using li_find_match_spec [where r = r and n = 0 and t = "li_t s"] by auto
    then have "rt_real (li_t s ! i)" using li_match_dead(1,2) [OF assms(1) i _ assms(3)] assms(4) by fastforce
    then have "li_routes (li_t s) (rt_key r) = Some (rt_val (li_t s ! i))"
      using li_routes_iff [of "li_t s"] i(1,2) assms(1) by (auto simp: rt_match_iff li_inv_def li_table_ok_def)
    then show False using False i(2) by (auto simp: routes_remove_def rt_match_iff split: if_splits)
  qed
  then show ?thesis using li_remove_missing [OF assms(1)] assms(1) by (simp add: li_remove_route_def)
qed

text \<open>C29: \<^verbatim>\<open>LinearIPLookup\<close> implements a map from prefixes to next hops: adding a route reports
  \<^verbatim>\<open>-EEXIST\<close> and changes nothing when the prefix is taken and must not be replaced, and otherwise
  enters exactly this route, handing out the old one; a removal takes out exactly the matching
  route, or reports \<^verbatim>\<open>-ENOENT\<close> and changes nothing (for 0.0.0.0/32 the request has to name the
  port). Every result passes the element's own \<^verbatim>\<open>check\<close>: the next pointers are right, no prefix
  occurs twice, and the caches are coherent.\<close>

theorem li_refines_routes:
  assumes "li_inv s" and "wf_prefix (rt_key r)" and "- 1 \<le> rt_port r"
  shows "(0 \<le> rt_port r \<longrightarrow> (\<exists>code old s'. li_add_route r replace s = Some (code, old, s') \<and> li_inv s' \<and> li_check s' \<and>
      (code, li_routes (li_t s')) = routes_add r replace (li_routes (li_t s)) \<and>
      map_option rt_val old = li_routes (li_t s) (rt_key r))) \<and>
    (0 \<le> rt_port r \<or> rt_key r \<noteq> (0, 0xFFFFFFFF) \<longrightarrow>
      (\<exists>code old s'. li_remove_route r s = Some (code, old, s') \<and> li_inv s' \<and> li_check s' \<and>
        (code, li_routes (li_t s')) = routes_remove r (li_routes (li_t s))))"
proof (intro conjI impI)
  assume "0 \<le> rt_port r"
  then show "\<exists>code old s'. li_add_route r replace s = Some (code, old, s') \<and> li_inv s' \<and> li_check s' \<and>
      (code, li_routes (li_t s')) = routes_add r replace (li_routes (li_t s)) \<and>
      map_option rt_val old = li_routes (li_t s) (rt_key r)"
    using li_add_route_spec [OF assms(1,2), of replace] li_inv_check by (metis prod.collapse)
next
  assume "0 \<le> rt_port r \<or> rt_key r \<noteq> (0, 0xFFFFFFFF)"
  then show "\<exists>code old s'. li_remove_route r s = Some (code, old, s') \<and> li_inv s' \<and> li_check s' \<and>
        (code, li_routes (li_t s')) = routes_remove r (li_routes (li_t s))"
    using li_remove_exact [OF assms] li_inv_check by (metis prod.collapse)
qed

text \<open>C30: The \<^verbatim>\<open>ctrl\<close> handler of a \<^verbatim>\<open>LinearIPLookup\<close> is a transaction: a request without blank lines
  returns; when it succeeds every command has taken effect, in order, and when it fails at
  any line the commands before it have been undone and the table stands for the same routes
  as before.\<close>

theorem li_ctrl_transaction:
  assumes "li_inv s" and "list_all wf_line lines"
  shows "\<exists>code s'. ctrl_handler li_add_route li_remove_route nout lines s = Some (code, s') \<and> li_inv s' \<and>
    li_routes (li_t s') = (if code < 0 then li_routes (li_t s) else routes_lines lines (li_routes (li_t s)))"
  by (rule linear.ctrl_handler_atomic [OF assms])

text \<open>A control request that begins with a blank line is never answered: the loop of
  \<^verbatim>\<open>ctrl_handler\<close> continues without moving to the next line.\<close>

theorem ctrl_handler_blank_line:
  "ctrl_handler li_add_route li_remove_route nout (Blank_Line # rest) s = None"
  using ctrl_loop_blank [of li_add_route li_remove_route nout "[]" "Blank_Line # rest" s]
  by (cases "ctrl_loop li_add_route li_remove_route nout [] (Blank_Line # rest) s") (auto simp: ctrl_handler_def)

text \<open>After \<^verbatim>\<open>configure\<close> with well-formed routes, the next hop of an address is the longest prefix
  match among them, where of several routes for the same prefix the first one counts.\<close>

theorem li_configure_routes:
  assumes "\<forall>r \<in> set rs. wf_prefix (rt_key r) \<and> 0 \<le> rt_port r \<and> rt_port r < int nout"
  shows "\<exists>n s. rt_configure li_add_route nout (map Some rs) (li_new e1 e2) = Some (0, n, s) \<and> li_inv s \<and>
    li_routes (li_t s) = (\<lambda>k. map_option rt_val (find (\<lambda>r. rt_key r = k) rs))"
  using linear.configure_routes [OF li_inv_new(1) assms, of 0 e1 e2] by (simp add: rt_configure_def li_inv_new(2))

lemma contains_default [simp]: "rt_key d = (0, 0) \<Longrightarrow> rt_contains_route d r" "rt_key d = (0, 0) \<Longrightarrow> rt_contains d a"
  by (simp_all add: rt_contains_route_def rt_contains_def rt_key_def matches_prefix_iff mask_as_specific_def)

lemma lpm_default:
  assumes "M (0, 0) = Some v" and "\<And>k. k \<noteq> (0, 0) \<Longrightarrow> M k = None"
  shows "lpm M a = Some v"
proof -
  have "prefix_mask k \<noteq> 0" if "0 < k" "k \<le> 32" for k
    using prefix_mask_inject [of k 0] that by simp
  then show ?thesis using lpm_from_Some [of 0 32 M a v] assms by (auto simp: lpm_def)
qed

text \<open>A table with a default route from which another route has been removed cannot forward a
  packet to 0.0.0.0: the dead entry has the prefix 0.0.0.0/32 and is taken as the most specific
  route, and \<^verbatim>\<open>output(-2147483648)\<close> fails its assertion, although the longest prefix match is the
  default route.\<close>

theorem li_push_zero_after_removal:
  assumes "rt_key d = (0, 0)" and "0 \<le> rt_port d" and "rt_key r \<noteq> (0, 0)" and "0 \<le> rt_port r" and "dst_ip_anno p = 0"
  shows "\<exists>s1 s2 s3. li_add_route d False (li_new e1 e2) = Some (0, None, s1) \<and> li_add_route r False s1 = Some (0, None, s2) \<and>
    li_remove_route r s2 = Some (0, Some (r\<lparr> rt_extra := 0x7FFFFFFF \<rparr>), s3) \<and>
    lpm (li_routes (li_t s3)) 0 = Some (rt_val d) \<and> li_push nout p s3 = None"
proof -
  have real: "rt_real d" "rt_real r" using assms by (simp_all add: rt_real_def)
  have ne: "\<not> (rt_addr d = rt_addr r \<and> rt_mask d = rt_mask r)" using assms(1,3) by (auto simp: rt_key_def)
  define s1 where "s1 = (li_new e1 e2)\<lparr> li_t := [d\<lparr> rt_extra := 0x7FFFFFFF \<rparr>] \<rparr>"
  define s2 where "s2 = s1\<lparr> li_t := [d\<lparr> rt_extra := 1 \<rparr>, r\<lparr> rt_extra := 0x7FFFFFFF \<rparr>],
    li_zero := if rt_key r = (0, 0xFFFFFFFF) then 1 else - 1 \<rparr>"
  define s3 where "s3 = s2\<lparr> li_t := [d\<lparr> rt_extra := 1 \<rparr>, rt_kill (r\<lparr> rt_extra := 0x7FFFFFFF \<rparr>)], li_zero := - 1 \<rparr>"
  have "li_add_route d False (li_new e1 e2) = Some (0, None, s1)"
    using assms(1) by (simp add: li_add_route_eq li_new_def s1_def li_place_def)
  moreover have "li_add_route r False s1 = Some (0, None, s2)"
    using real ne assms(1) by (simp add: li_add_route_eq s1_def s2_def li_new_def li_place_def)
  moreover have "li_remove_route r s2 = Some (0, Some (r\<lparr> rt_extra := 0x7FFFFFFF \<rparr>), s3)"
    using real ne assms(4) by (auto simp: li_remove_route_def s1_def s2_def s3_def li_new_def rt_match_def)
  moreover have "lpm (li_routes (li_t s3)) 0 = Some (rt_val d)"
    using assms(1) real by (intro lpm_default) (auto simp: s3_def li_routes_def)
  moreover have "li_lookup_entry (li_t s3) 0 = 1"
    using assms(1) dead_contains [of "rt_kill (r\<lparr> rt_extra := 0x7FFFFFFF \<rparr>)" 0]
    by (simp add: s3_def li_lookup_entry_def li_best.simps rt_contains_def rt_key_def rt_kill_def matches_prefix_iff mask_as_specific_def)
  then have "li_push nout p s3 = None"
    using assms(5) by (simp add: li_push_def li_deliver_def) (simp add: s3_def rt_kill_def)
  ultimately show ?thesis by blast
qed

section \<open>Witnesses\<close>

definition sample_route :: "ipaddr \<Rightarrow> nat \<Rightarrow> ipaddr \<Rightarrow> int \<Rightarrow> iproute" where
  "sample_route a n g port = \<lparr> rt_addr = a, rt_mask = prefix_mask n, rt_gw = g, rt_port = port, rt_extra = 0 \<rparr>"

lemma sample_route_wf: "n \<le> 32 \<Longrightarrow> and a (prefix_mask n) = a \<Longrightarrow> wf_prefix (rt_key (sample_route a n g port))"
  by (auto simp: wf_prefix_def rt_key_def sample_route_def)

lemma sample_route_simps [simp]:
  "rt_port (sample_route a n g port) = port" "rt_key (sample_route a n g port) = (a, prefix_mask n)"
  by (simp_all add: sample_route_def rt_key_def)

definition sample_packet :: "ipaddr \<Rightarrow> packet" where
  "sample_packet a = \<lparr> hroom = [], pdata = [], troom = [], pshared = False, mac_off = None, net_off = None, trans_off = None,
     dst_ip_anno = a, paint_anno = 0, icmp_paramprob_anno = 0, fix_ip_src_anno = 0, packet_type_anno = HOST \<rparr>"

lemma sample_packet_dst [simp]: "dst_ip_anno (sample_packet a) = a" by (simp add: sample_packet_def)

text \<open>A default route to gateway 7 on port 1, and 10.0.0.0/8 on port 0.\<close>

definition sample_table :: linearlookup where
  "sample_table = (li_new 0 0)\<lparr> li_t := [(sample_route 0 0 7 1)\<lparr> rt_extra := 1 \<rparr>,
     (sample_route 0xA 8 0 0)\<lparr> rt_extra := 0x7FFFFFFF \<rparr>] \<rparr>"

lemma prefix_mask_8: "prefix_mask 8 = 0xFF"
proof -
  have low: "24 \<le> swapped_bit n \<longleftrightarrow> n < 8" for n
  proof -
    have "n mod 8 < 8" by simp
    then have "24 \<le> swapped_bit n \<longleftrightarrow> n div 8 = 0" unfolding swapped_bit_def by linarith
    then show ?thesis by (simp add: div_eq_0_iff)
  qed
  have "(0xFF :: ipaddr) = mask 8" by (simp add: mask_eq_exp_minus_1)
  then show ?thesis
    unfolding \<open>0xFF = mask 8\<close>
    by (intro bit_word_eqI) (auto simp: bit_prefix_mask bit_mask_iff low)
qed

lemma sample_table_inv: "li_inv sample_table"
proof -
  have r: "wf_prefix (0, prefix_mask 0)" "wf_prefix (0xA, prefix_mask 8)"
    using sample_route_wf [of 0 0] sample_route_wf [of 8 "0xA"] by (simp_all add: prefix_mask_8)
  have real: "rt_real (sample_route a n g port)" if "0 \<le> port" for a n g port using that by (simp add: rt_real_def)
  have "li_t sample_table = [(sample_route 0 0 7 1)\<lparr> rt_extra := 1 \<rparr>, (sample_route 0xA 8 0 0)\<lparr> rt_extra := 0x7FFFFFFF \<rparr>]"
    "li_zero sample_table = - 1" "li_last_addr sample_table = 0" "li_last_addr2 sample_table = 0"
    by (simp_all add: sample_table_def li_new_def)
  then show ?thesis
    using r real
    by (auto simp: li_inv_def li_table_ok_def li_nexts_def li_distinct_def li_entries_def li_zero_ok_def li_cache_ok_def
        less_Suc_eq prefix_mask_8)
qed

lemma sample_table_routes:
  "li_routes (li_t sample_table) = [(0, 0) \<mapsto> (7, 1), (0xA, prefix_mask 8) \<mapsto> (0, 0)]"
proof
  fix k :: prefix
  show "li_routes (li_t sample_table) k = [(0, 0) \<mapsto> (7, 1), (0xA, prefix_mask 8) \<mapsto> (0, 0)] k"
    by (simp add: sample_table_def li_new_def li_routes_def rt_real_def prefix_mask_8)
      (auto simp: sample_route_def rt_val_def)
qed

theorem li_push_lpm_witness:
  "\<exists>s'. li_push 2 (sample_packet 0x0500000A) sample_table = Some (s', [(0, sample_packet 0x0500000A)]) \<and> li_inv s'"
proof -
  have "lpm [(0, 0) \<mapsto> (7, 1), (0xA, prefix_mask 8) \<mapsto> (0, 0)] 0x0500000A = Some (0, 0)"
    unfolding lpm_def
  proof (rule lpm_from_Some [of 8])
    show "[(0, 0) \<mapsto> (7, 1), (0xA, prefix_mask 8) \<mapsto> (0, 0)] (and 0x0500000A (prefix_mask k), prefix_mask k) = None"
      if "8 < k" "k \<le> 32" for k
      using that prefix_mask_inject [of k 8] prefix_mask_inject [of k 0] by simp
  qed (simp_all add: prefix_mask_8)
  then show ?thesis
    using li_push_lpm [OF sample_table_inv, of "sample_packet 0x0500000A" 2] by (auto simp: sample_table_routes)
qed

theorem li_refines_routes_witness:
  "\<exists>old s'. li_remove_route (sample_route 0xA 8 0 (- 1)) sample_table = Some (0, old, s') \<and> li_check s' \<and>
    li_routes (li_t s') = [(0, 0) \<mapsto> (7, 1)]"
proof -
  have "routes_remove (sample_route 0xA 8 0 (- 1)) [(0, 0) \<mapsto> (7, 1), (0xA, prefix_mask 8) \<mapsto> (0, 0)] = (0, [(0, 0) \<mapsto> (7, 1)])"
    by (auto simp: routes_remove_def prefix_mask_8 fun_eq_iff)
  then show ?thesis
    using li_refines_routes [OF sample_table_inv, of "sample_route 0xA 8 0 (- 1)"] sample_route_wf [of 8 "0xA" 0 "- 1"]
    by (auto simp: sample_table_routes prefix_mask_8)
qed

theorem li_ctrl_transaction_witness:
  "\<exists>code s'. ctrl_handler li_add_route li_remove_route 2
      [Command CMD_REMOVE (Some (sample_route 0xA 8 0 (- 1))), Bad_Command] sample_table = Some (code, s') \<and> li_inv s'"
  using li_ctrl_transaction [OF sample_table_inv, of "[Command CMD_REMOVE (Some (sample_route 0xA 8 0 (- 1))), Bad_Command]" 2]
    sample_route_wf [of 8 "0xA" 0 "- 1"]
  by (auto simp: wf_line_def prefix_mask_8)

theorem li_configure_routes_witness:
  "\<exists>n s. rt_configure li_add_route 2 (map Some [sample_route 0xA 8 0 0, sample_route 0xA 8 0 1]) (li_new 0 0) = Some (0, n, s) \<and>
    li_routes (li_t s) (0xA, prefix_mask 8) = Some (0, 0)"
  using li_configure_routes [of "[sample_route 0xA 8 0 0, sample_route 0xA 8 0 1]" 2 0 0]
    sample_route_wf [of 8 "0xA"]
  by (auto simp: prefix_mask_8 rt_val_def rt_key_def sample_route_def)

theorem li_push_zero_after_removal_witness:
  "\<exists>s3. lpm (li_routes (li_t s3)) 0 = Some (rt_val (sample_route 0 0 7 1)) \<and> li_push 2 (sample_packet 0) s3 = None"
  using li_push_zero_after_removal [of "sample_route 0 0 7 1" "sample_route 0xA 8 0 0" "sample_packet 0" 0 0 2]
  by (auto simp: prefix_mask_8)

end
