(* ===== verification/Click_HashContainer.thy ===== *)
theory Click_HashContainer
  imports Click_HashMap
begin

text \<open>
  Click's intrusive hash table \<^verbatim>\<open>HashContainer\<close> (\<^verbatim>\<open>include/click/hashcontainer.hh\<close>), which holds the
  entries of the ARP table. The elements are objects that the user of the table owns; here the
  table holds, for each element, its key and its contents, so that a write to an element through a
  pointer is a \<^verbatim>\<open>set\<close> of the element that is already there. A bucket is the list of its elements in
  chain order, and \<open>hc\<close> is the hash function. \<^verbatim>\<open>libdivide_u32_do\<close> divides by the number of
  buckets. A null or failed allocation of the bucket array gives \<open>None\<close>.

  The table meets the contract \<open>lookup_table\<close>, the second one to do so.
\<close>

section \<open>The program\<close>

record ('k, 'v) hashcontainer =
  hcn_buckets :: "('k \<times> 'v) list list"
  hcn_size :: nat
  hcn_first :: nat

abbreviation hcn_nbuckets :: "('k, 'v) hashcontainer \<Rightarrow> nat" where
  "hcn_nbuckets c \<equiv> length (hcn_buckets c)"

definition initial_bucket_count :: nat where "initial_bucket_count = 63"
definition max_bucket_count :: nat where "max_bucket_count = 2 ^ 32 - 1"

definition hcn_empty :: "('k, 'v) hashcontainer" where
  "hcn_empty = \<lparr> hcn_buckets = replicate initial_bucket_count [], hcn_size = 0,
                 hcn_first = initial_bucket_count \<rparr>"

definition hcn_bucket :: "('k \<Rightarrow> nat) \<Rightarrow> ('k, 'v) hashcontainer \<Rightarrow> 'k \<Rightarrow> nat" where
  "hcn_bucket hc c k = hc k mod hcn_nbuckets c"

definition hcn_find :: "('k \<Rightarrow> nat) \<Rightarrow> ('k, 'v) hashcontainer \<Rightarrow> 'k \<Rightarrow> 'v option" where
  "hcn_find hc c k = map_option snd (chain_find (hcn_buckets c ! hcn_bucket hc c k) k)"

text \<open>\<^verbatim>\<open>set(find(k), element)\<close>: in the place of the old element, or in front of the chain.\<close>

definition hcn_set :: "('k \<Rightarrow> nat) \<Rightarrow> 'k \<Rightarrow> 'v \<Rightarrow> ('k, 'v) hashcontainer \<Rightarrow> ('k, 'v) hashcontainer" where
  "hcn_set hc k v c =
     (let b = hcn_bucket hc c k; chain = hcn_buckets c ! b
      in case chain_find chain k of
           Some _ \<Rightarrow> c\<lparr> hcn_buckets := (hcn_buckets c)[b := chain_update k v chain] \<rparr>
         | None \<Rightarrow> c\<lparr> hcn_buckets := (hcn_buckets c)[b := (k, v) # chain],
                      hcn_size := hcn_size c + 1,
                      hcn_first := (if chain = [] then 0 else hcn_first c) \<rparr>)"

text \<open>\<^verbatim>\<open>erase(key)\<close>.\<close>

definition hcn_erase :: "('k \<Rightarrow> nat) \<Rightarrow> 'k \<Rightarrow> ('k, 'v) hashcontainer \<Rightarrow> ('k, 'v) hashcontainer" where
  "hcn_erase hc k c =
     (let b = hcn_bucket hc c k; chain = hcn_buckets c ! b
      in case chain_find chain k of
           Some _ \<Rightarrow> c\<lparr> hcn_buckets := (hcn_buckets c)[b := chain_erase k chain],
                        hcn_size := hcn_size c - 1 \<rparr>
         | None \<Rightarrow> c)"

definition hcn_clear :: "('k, 'v) hashcontainer \<Rightarrow> ('k, 'v) hashcontainer" where
  "hcn_clear c = c\<lparr> hcn_buckets := replicate (hcn_nbuckets c) [], hcn_size := 0 \<rparr>"

text \<open>\<^verbatim>\<open>rehash\<close> moves the elements, bucket by bucket and in chain order, to the front of their new
  chains.\<close>

function hcn_grow :: "nat \<Rightarrow> nat \<Rightarrow> nat" where
  "hcn_grow want n =
     (if n < want \<and> n < max_bucket_count then hcn_grow want ((n + 1) * 2 - 1) else n)"
  by pat_completeness auto
termination
  by (relation "measure (\<lambda>(want, n). want - n)") auto

declare hcn_grow.simps [simp del]

definition hcn_link :: "('k \<Rightarrow> nat) \<Rightarrow> 'k \<times> 'v \<Rightarrow> ('k, 'v) hashcontainer \<Rightarrow> ('k, 'v) hashcontainer" where
  "hcn_link hc e c =
     (let b = hcn_bucket hc c (fst e)
      in c\<lparr> hcn_buckets := (hcn_buckets c)[b := e # hcn_buckets c ! b] \<rparr>)"

definition hcn_rehash ::
  "('k \<Rightarrow> nat) \<Rightarrow> bool \<Rightarrow> nat \<Rightarrow> ('k, 'v) hashcontainer \<Rightarrow> ('k, 'v) hashcontainer option" where
  "hcn_rehash hc ok n c =
     (let new_nbuckets = hcn_grow n 1
      in if hcn_nbuckets c = new_nbuckets then Some c
         else if \<not> ok then None
         else Some (fold (\<lambda>chain. fold (hcn_link hc) chain) (hcn_buckets c)
                     (c\<lparr> hcn_buckets := replicate new_nbuckets [], hcn_first := 0 \<rparr>)))"

text \<open>\<^verbatim>\<open>2 * nbuckets\<close> is computed in 32 bits.\<close>

definition hcn_unbalanced :: "('k, 'v) hashcontainer \<Rightarrow> bool" where
  "hcn_unbalanced c \<longleftrightarrow>
     hcn_size c > (2 * hcn_nbuckets c) mod 2 ^ 32 \<and> hcn_nbuckets c < max_bucket_count"

definition hcn_balance :: "('k \<Rightarrow> nat) \<Rightarrow> bool \<Rightarrow> ('k, 'v) hashcontainer \<Rightarrow> ('k, 'v) hashcontainer option" where
  "hcn_balance hc ok c =
     (if hcn_unbalanced c then hcn_rehash hc ok (hcn_nbuckets c + 1) c else Some c)"

text \<open>Iteration from \<^verbatim>\<open>begin()\<close> by \<^verbatim>\<open>++\<close>: the iterator starts at the bucket in \<^verbatim>\<open>first_bucket\<close> and
  visits the chains from there on.\<close>

definition hcn_begin :: "('k, 'v) hashcontainer \<Rightarrow> (nat \<times> ('k \<times> 'v) list) option" where
  "hcn_begin c = next_chain (drop (hcn_first c) (hcn_buckets c)) (hcn_first c)"

definition hcn_next :: "('k, 'v) hashcontainer \<Rightarrow> nat \<times> ('k \<times> 'v) list \<Rightarrow> (nat \<times> ('k \<times> 'v) list) option" where
  "hcn_next c it =
     (case it of (b, elt) \<Rightarrow>
        if tl elt \<noteq> [] then Some (b, tl elt)
        else next_chain (drop (b + 1) (hcn_buckets c)) (b + 1))"

definition hcn_elements :: "('k, 'v) hashcontainer \<Rightarrow> ('k \<times> 'v) list" where
  "hcn_elements c = concat (drop (hcn_first c) (hcn_buckets c))"

section \<open>The contract\<close>

text \<open>The buckets and the size of the table are those of a \<^verbatim>\<open>HashMap\<close>, whose lemmas apply.\<close>

definition hcn_map :: "('k, 'v) hashcontainer \<Rightarrow> ('k, 'v) hashmap" where
  "hcn_map c = \<lparr> hm_buckets = hcn_buckets c, hm_n = hcn_size c, hm_capacity = 0x7FFFFFFF \<rparr>"

lemma hcn_map_simps [simp]:
  "hm_buckets (hcn_map c) = hcn_buckets c" "hm_n (hcn_map c) = hcn_size c"
  "hm_bucket hc (hcn_map c) k = hcn_bucket hc c k"
  by (simp_all add: hcn_map_def hm_bucket_def hcn_bucket_def)

definition hcn_inv :: "('k \<Rightarrow> nat) \<Rightarrow> ('k, 'v) hashcontainer \<Rightarrow> bool" where
  "hcn_inv hc c \<longleftrightarrow> hm_inv hc (hcn_map c) \<and> hcn_first c \<le> hcn_nbuckets c \<and>
     (\<forall>b < hcn_first c. hcn_buckets c ! b = [])"

lemma hcn_find_map: "hcn_find hc c = hm_find hc (hcn_map c)"
  by (simp add: fun_eq_iff hcn_find_def hm_find_def hm_find_pair_def)

lemma hcn_bucket_less: "hcn_inv hc c \<Longrightarrow> hcn_bucket hc c k < hcn_nbuckets c"
  by (simp add: hcn_inv_def hm_inv_def hcn_bucket_def)

lemma hcn_link_map: "hcn_map (hcn_link hc e c) = hm_relink hc e (hcn_map c)"
  by (simp add: hcn_link_def hm_relink_def hcn_map_def Let_def hcn_bucket_def hm_bucket_def)

lemma hcn_inv_empty: "hcn_inv hc hcn_empty"
  by (simp add: hcn_inv_def hcn_empty_def hcn_map_def hm_inv_def chains_ok_def chain_ok_def initial_bucket_count_def)

lemma hcn_find_empty: "hcn_find hc hcn_empty k = None"
  by (simp add: hcn_find_def hcn_empty_def hcn_bucket_def initial_bucket_count_def)

lemma hcn_set_new:
  assumes "hcn_inv hc c" and "hcn_find hc c k = None"
  shows "hcn_inv hc (hcn_set hc k v c)" and "hcn_find hc (hcn_set hc k v c) = (hcn_find hc c)(k \<mapsto> v)"
proof -
  let ?b = "hcn_bucket hc c k"
  have m: "hm_inv hc (hcn_map c)" "hm_find hc (hcn_map c) k = None"
    using assms by (simp_all add: hcn_inv_def hcn_find_map)
  define m' where "m' = (hcn_map c)\<lparr> hm_capacity := hcn_size c + 1 \<rparr>"
  have m': "hm_inv hc m'" "hm_find hc m' = hm_find hc (hcn_map c)"
    using m(1) by (simp_all add: m'_def hm_inv_def fun_eq_iff hm_find_def hm_find_pair_def hm_bucket_def)
  have new: "chain_find (hcn_buckets c ! ?b) k = None"
    using assms(2) by (simp add: hcn_find_def)
  have eq: "(hcn_map (hcn_set hc k v c))\<lparr> hm_capacity := hcn_size c + 1 \<rparr> = hm_new_elt hc True k v m'"
    using new by (simp add: hcn_set_def hm_new_elt_def Let_def m'_def hcn_map_def hm_relink_def hm_bucket_def hcn_bucket_def)
  have b: "?b < hcn_nbuckets c" using assms(1) by (rule hcn_bucket_less)
  have first: "hcn_first (hcn_set hc k v c) \<le> hcn_nbuckets c"
    "\<forall>i < hcn_first (hcn_set hc k v c). hcn_buckets (hcn_set hc k v c) ! i = []"
    using assms(1) new b by (auto simp: hcn_set_def Let_def hcn_inv_def nth_list_update)
  have "hm_inv hc (hm_new_elt hc True k v m')" "hm_find hc (hm_new_elt hc True k v m') = (hm_find hc m')(k \<mapsto> v)"
    using hm_new_elt_correct [OF m'(1)] m(2) by (simp_all add: m'(2))
  then show "hcn_inv hc (hcn_set hc k v c)" "hcn_find hc (hcn_set hc k v c) = (hcn_find hc c)(k \<mapsto> v)"
    using first new unfolding eq [symmetric]
    by (simp_all add: hcn_inv_def hm_inv_def hcn_find_map m' fun_eq_iff hm_find_def hm_find_pair_def hm_bucket_def)
       (simp_all add: hcn_set_def Let_def)
qed

lemma hcn_set_old:
  assumes "hcn_inv hc c" and "hcn_find hc c k \<noteq> None"
  shows "hcn_inv hc (hcn_set hc k v c)" and "hcn_find hc (hcn_set hc k v c) = (hcn_find hc c)(k \<mapsto> v)"
proof -
  let ?b = "hcn_bucket hc c k"
  obtain x where x: "chain_find (hcn_buckets c ! ?b) k = Some x"
    using assms(2) by (auto simp: hcn_find_def)
  then have k: "k \<in> fst ` set (hm_buckets (hcn_map c) ! hm_bucket hc (hcn_map c) k)"
    by (auto dest!: chain_find_Some_in)
  have eq: "hcn_map (hcn_set hc k v c) = (hcn_map c)\<lparr> hm_buckets := (hcn_buckets c)[?b := chain_update k v (hcn_buckets c ! ?b)] \<rparr>"
    using x by (simp add: hcn_set_def Let_def hcn_map_def)
  have m: "hm_inv hc (hcn_map c)" using assms(1) by (simp add: hcn_inv_def)
  have "hcn_buckets c ! i = [] \<Longrightarrow> hcn_buckets (hcn_set hc k v c) ! i = []" for i
    using x by (cases "i = ?b") (simp_all add: hcn_set_def Let_def)
  then have first: "\<forall>i < hcn_first c. hcn_buckets (hcn_set hc k v c) ! i = []"
    "hcn_first (hcn_set hc k v c) = hcn_first c" "hcn_nbuckets (hcn_set hc k v c) = hcn_nbuckets c"
    using assms(1) x by (simp_all add: hcn_inv_def hcn_set_def Let_def)
  show "hcn_inv hc (hcn_set hc k v c)"
    using hm_update_correct(1) [OF m k, of v] first assms(1) by (simp add: hcn_inv_def eq)
  show "hcn_find hc (hcn_set hc k v c) = (hcn_find hc c)(k \<mapsto> v)"
    using hm_update_correct(2) [OF m k, of v] by (simp add: hcn_find_map eq)
qed

lemma hcn_set_correct:
  assumes "hcn_inv hc c"
  shows "hcn_inv hc (hcn_set hc k v c)" and "hcn_find hc (hcn_set hc k v c) = (hcn_find hc c)(k \<mapsto> v)"
  using hcn_set_new [OF assms, of k v] hcn_set_old [OF assms, of k v] by blast+

lemma hcn_erase_correct:
  assumes "hcn_inv hc c"
  shows "hcn_inv hc (hcn_erase hc k c)" and "hcn_find hc (hcn_erase hc k c) = (hcn_find hc c)(k := None)"
proof -
  let ?b = "hcn_bucket hc c k"
  have eq: "hcn_map (hcn_erase hc k c) = snd (hm_erase hc k (hcn_map c))"
    by (simp add: hcn_erase_def hm_erase_def Let_def hcn_map_def hm_bucket_def hcn_bucket_def split: option.split)
  have m: "hm_inv hc (hcn_map c)" using assms by (simp add: hcn_inv_def)
  have "hcn_buckets c ! i = [] \<Longrightarrow> hcn_buckets (hcn_erase hc k c) ! i = []" for i
    by (cases "i = ?b") (simp_all add: hcn_erase_def Let_def split: option.split)
  then have "\<forall>i < hcn_first c. hcn_buckets (hcn_erase hc k c) ! i = []"
    "hcn_first (hcn_erase hc k c) = hcn_first c" "hcn_nbuckets (hcn_erase hc k c) = hcn_nbuckets c"
    using assms by (simp_all add: hcn_inv_def hcn_erase_def Let_def split: option.split)
  then show "hcn_inv hc (hcn_erase hc k c)"
    using hm_erase_correct(1) [OF m, of k] assms by (simp add: hcn_inv_def eq)
  show "hcn_find hc (hcn_erase hc k c) = (hcn_find hc c)(k := None)"
    using hm_erase_correct(2) [OF m, of k] by (simp add: hcn_find_map eq)
qed

definition hcn_is_empty :: "('k, 'v) hashcontainer \<Rightarrow> bool" where
  "hcn_is_empty c \<longleftrightarrow> hcn_size c = 0"

lemma hcn_is_empty_iff: "hcn_inv hc c \<Longrightarrow> hcn_is_empty c \<longleftrightarrow> (\<forall>k. hcn_find hc c k = None)"
  using hm_is_empty_iff [of hc "hcn_map c"] by (simp add: hcn_inv_def hcn_is_empty_def hm_is_empty_def hcn_find_map)

interpretation hcn: lookup_table hcn_empty "hcn_set hc" "hcn_erase hc" "hcn_find hc" hcn_is_empty "hcn_inv hc" for hc
  by unfold_locales
    (simp_all add: hcn_inv_empty hcn_set_correct hcn_erase_correct hcn_find_empty hcn_is_empty_iff)

section \<open>Rehashing and iteration\<close>

lemma hcn_grow_pos: "0 < n \<Longrightarrow> 0 < hcn_grow want n"
proof (induction want n rule: hcn_grow.induct)
  case (1 want n)
  then show ?case by (simp add: hcn_grow.simps [of want n])
qed

lemma fold_hcn_link: "hcn_map (fold (hcn_link hc) xs c) = fold (hm_relink hc) xs (hcn_map c) \<and>
    hcn_first (fold (hcn_link hc) xs c) = hcn_first c \<and> hcn_size (fold (hcn_link hc) xs c) = hcn_size c"
proof (induction xs arbitrary: c)
  case (Cons e xs)
  have "hcn_first (hcn_link hc e c) = hcn_first c" "hcn_size (hcn_link hc e c) = hcn_size c"
    by (simp_all add: hcn_link_def Let_def)
  then show ?case using Cons.IH [of "hcn_link hc e c"] by (simp add: hcn_link_map)
qed simp

lemma hcn_rehash_correct:
  assumes "hcn_inv hc c"
  obtains c' where "hcn_rehash hc True n c = Some c'" "hcn_inv hc c'" "hcn_find hc c' = hcn_find hc c"
    "hcn_size c' = hcn_size c"
proof (cases "hcn_nbuckets c = hcn_grow n 1")
  case True
  then show ?thesis using that [of c] assms by (simp add: hcn_rehash_def Let_def)
next
  case False
  let ?nb = "hcn_grow n 1"
  define c' where "c' = fold (hcn_link hc) (concat (hcn_buckets c)) (c\<lparr> hcn_buckets := replicate ?nb [], hcn_first := 0 \<rparr>)"
  have r: "hcn_rehash hc True n c = Some c'"
    using False by (simp add: hcn_rehash_def Let_def c'_def fold_fold_concat)
  have m: "hm_inv hc (hcn_map c)" using assms by (simp add: hcn_inv_def)
  have "hcn_map (c\<lparr> hcn_buckets := replicate ?nb [], hcn_first := 0 \<rparr>) = (hcn_map c)\<lparr> hm_buckets := replicate ?nb [] \<rparr>"
    by (simp add: hcn_map_def)
  moreover have "\<not> hm_dynamic_resizing ((hcn_map c)\<lparr> hm_buckets := replicate ?nb [] \<rparr>)"
    by (simp add: hm_dynamic_resizing_def hcn_map_def)
  ultimately have "hcn_map c' = hm_resize0 hc ?nb (hcn_map c)" "hcn_first c' = 0" "hcn_size c' = hcn_size c"
    by (simp_all add: c'_def fold_hcn_link hm_resize0_def Let_def fold_fold_concat)
  then show ?thesis
    using that [OF r] hm_resize0_correct [OF m, of ?nb] hcn_grow_pos [of 1 n]
    by (simp add: hcn_inv_def hcn_find_map)
qed

lemma hcn_balance_correct:
  assumes "hcn_inv hc c"
  obtains c' where "hcn_balance hc True c = Some c'" "hcn_inv hc c'" "hcn_find hc c' = hcn_find hc c"
    "hcn_size c' = hcn_size c"
proof (cases "hcn_unbalanced c")
  case True
  obtain c' where "hcn_rehash hc True (hcn_nbuckets c + 1) c = Some c'" "hcn_inv hc c'" "hcn_find hc c' = hcn_find hc c"
    "hcn_size c' = hcn_size c"
    by (rule hcn_rehash_correct [OF assms])
  with True show ?thesis using that [of c'] by (simp add: hcn_balance_def)
next
  case False
  then show ?thesis using that [of c] assms by (simp add: hcn_balance_def)
qed

lemma hcn_elements_all: "hcn_inv hc c \<Longrightarrow> hcn_elements c = concat (hcn_buckets c)"
proof -
  assume inv: "hcn_inv hc c"
  have "take (hcn_first c) (hcn_buckets c) = replicate (hcn_first c) []"
    using inv by (intro nth_equalityI) (simp_all add: hcn_inv_def)
  then have "concat (take (hcn_first c) (hcn_buckets c)) = []" by simp
  then show ?thesis
    unfolding hcn_elements_def by (metis append_Nil append_take_drop_id concat_append)
qed

lemma hcn_elements_find:
  assumes "hcn_inv hc c"
  shows "(k, v) \<in> set (hcn_elements c) \<longleftrightarrow> hcn_find hc c k = Some v" and "distinct (map fst (hcn_elements c))"
proof -
  have m: "0 < hm_nbuckets (hcn_map c)" "chains_ok hc (hm_buckets (hcn_map c))"
    using assms by (simp_all add: hcn_inv_def hm_inv_def)
  show "(k, v) \<in> set (hcn_elements c) \<longleftrightarrow> hcn_find hc c k = Some v"
    using hm_find_iff [OF m, of k v] by (simp only: hcn_elements_all [OF assms] hcn_find_map hcn_map_simps)
  show "distinct (map fst (hcn_elements c))"
    using distinct_keys [OF m(2)] by (simp only: hcn_elements_all [OF assms] hcn_map_simps)
qed

text \<open>The iterator visits the elements in this order.\<close>

lemma hcn_iterate:
  "hm_rest (hcn_map c) (hcn_begin c) = hcn_elements c"
  "hm_rest (hcn_map c) (Some (b, e # r)) = e # hm_rest (hcn_map c) (hcn_next c (b, e # r))"
proof -
  show "hm_rest (hcn_map c) (hcn_begin c) = hcn_elements c"
    unfolding hcn_begin_def hcn_elements_def by (rule next_chain_rest) simp
  have "hcn_next c = hm_next (hcn_map c)" by (simp add: fun_eq_iff hcn_next_def hm_next_def)
  then show "hm_rest (hcn_map c) (Some (b, e # r)) = e # hm_rest (hcn_map c) (hcn_next c (b, e # r))"
    by (simp add: hm_rest_next)
qed

end
