(* ===== verification/Click_ARPTable.thy ===== *)
theory Click_ARPTable
  imports Click_HashContainer Click_IPAddress MIP_Headers
begin

unbundle bit_operations_syntax

text \<open>
  \<^verbatim>\<open>ARPTable\<close> (\<^verbatim>\<open>elements/ethernet/arptable.hh\<close>, \<^verbatim>\<open>arptable.cc\<close>): the mapping from IP addresses to
  Ethernet addresses, with the packets that wait for an address to become known.

  An entry is named by its IP address. The hash table holds the entries, and the age list, an
  intrusive list through the same objects, is the list of their names, oldest first. The packets
  that wait in an entry are linked through their \<^verbatim>\<open>next\<close> annotation; here they are a list. A pointer to
  an entry that has been deleted finds nothing in the table, and its use gives \<open>None\<close>. Time is
  counted in jiffies, milliseconds in 32 bits that wrap around; a handler reads the clock once. The locks
  of the multithreaded router are not modelled.
\<close>

section \<open>Entries\<close>

text \<open>User-level Click counts \<^verbatim>\<open>CLICK_HZ\<close> = 1000 jiffies per second.\<close>

definition click_jiffies_less :: "u32 \<Rightarrow> u32 \<Rightarrow> bool" where
  "click_jiffies_less a b \<longleftrightarrow> sint (a - b) < 0"

definition CLICK_HZ :: u32 where "CLICK_HZ = 1000"

text \<open>\<^verbatim>\<open>EtherAddress\<close>: six bytes, kept as three 16-bit words in the C++ code.\<close>

type_synonym etheraddr = bytes

definition ether_broadcast :: etheraddr where "ether_broadcast = replicate 6 0xFF"

definition ether_is_broadcast :: "etheraddr \<Rightarrow> bool" where
  "ether_is_broadcast a \<longleftrightarrow> unat (get16 a 0) + unat (get16 a 2) + unat (get16 a 4) = 0x2FFFD"

definition ether_is_group :: "etheraddr \<Rightarrow> bool" where
  "ether_is_group a \<longleftrightarrow> get8 a 0 AND 1 \<noteq> 0"

record arpentry =
  ae_eth :: etheraddr
  ae_known :: bool
  ae_polls :: byte
  ae_live_at :: u32
  ae_polled_at :: u32
  ae_queue :: "packet list"
  ae_count :: u32

definition arp_expired :: "u32 \<Rightarrow> u32 \<Rightarrow> arpentry \<Rightarrow> bool" where
  "arp_expired now timeout ae \<longleftrightarrow> click_jiffies_less (ae_live_at ae + timeout) now \<and> timeout \<noteq> 0"

definition arp_known :: "u32 \<Rightarrow> u32 \<Rightarrow> arpentry \<Rightarrow> bool" where
  "arp_known now timeout ae \<longleftrightarrow> ae_known ae \<and> \<not> arp_expired now timeout ae"

definition arp_allow_poll :: "u32 \<Rightarrow> arpentry \<Rightarrow> bool" where
  "arp_allow_poll now ae \<longleftrightarrow>
     \<not> click_jiffies_less now (ae_polled_at ae + (if ae_polls ae \<ge> 10 then CLICK_HZ * 2 else CLICK_HZ div 10))"

definition arp_mark_poll :: "u32 \<Rightarrow> arpentry \<Rightarrow> arpentry" where
  "arp_mark_poll now ae =
     ae\<lparr> ae_polled_at := now, ae_polls := (if ae_polls ae < 255 then ae_polls ae + 1 else ae_polls ae) \<rparr>"

text \<open>The constructor, and the two assignments that follow it in \<^verbatim>\<open>ensure\<close>.\<close>

definition arp_new_entry :: "u32 \<Rightarrow> arpentry" where
  "arp_new_entry now =
     \<lparr> ae_eth = ether_broadcast, ae_known = False, ae_polls = 0, ae_live_at = now,
       ae_polled_at = now - CLICK_HZ, ae_queue = [], ae_count = 0 \<rparr>"

section \<open>The table\<close>

record arptable =
  at_table :: "(ipaddr, arpentry) hashcontainer"
  at_age :: "ipaddr list"
  at_entry_count :: u32
  at_packet_count :: u32
  at_entry_capacity :: u32
  at_packet_capacity :: u32
  at_entry_packet_capacity :: u32
  at_capacity_slim_factor :: u32
  at_timeout :: u32
  at_drops :: u32
  at_expire_timer :: timer

definition at_get :: "arptable \<Rightarrow> ipaddr \<Rightarrow> arpentry option" where
  "at_get t ip = hcn_find ip_hashcode (at_table t) ip"

definition at_put :: "ipaddr \<Rightarrow> arpentry \<Rightarrow> arptable \<Rightarrow> arptable" where
  "at_put ip ae t = t\<lparr> at_table := hcn_set ip_hashcode ip ae (at_table t) \<rparr>"

text \<open>The constructor; \<^verbatim>\<open>_timeout_j\<close> is not initialised by it (\<open>tj\<close>).\<close>

definition arptable_new :: "u32 \<Rightarrow> arptable" where
  "arptable_new tj =
     \<lparr> at_table = hcn_empty, at_age = [], at_entry_count = 0, at_packet_count = 0, at_entry_capacity = 0,
       at_packet_capacity = 2048, at_entry_packet_capacity = 0, at_capacity_slim_factor = 2,
       at_timeout = tj, at_drops = 0, at_expire_timer = None \<rparr>"

text \<open>\<^verbatim>\<open>set_timeout\<close>; a time value is a number of milliseconds, and its seconds are converted to 32 bits.\<close>

definition at_set_timeout :: "nat \<Rightarrow> arptable \<Rightarrow> arptable" where
  "at_set_timeout ms t =
     t\<lparr> at_timeout := (if (of_nat (ms div 1000) :: u32) \<ge> 0xFFFFFFFF div CLICK_HZ then 0 else of_nat ms) \<rparr>"

text \<open>\<^verbatim>\<open>configure\<close>: the optional arguments \<^verbatim>\<open>CAPACITY\<close>, \<^verbatim>\<open>ENTRY_CAPACITY\<close>, \<^verbatim>\<open>ENTRY_PACKET_CAPACITY\<close>,
  \<^verbatim>\<open>CAPACITY_SLIM_FACTOR\<close> and \<^verbatim>\<open>TIMEOUT\<close>, as parsed.\<close>

record arptable_args =
  arg_CAPACITY :: "u32 option"
  arg_ENTRY_CAPACITY :: "u32 option"
  arg_ENTRY_PACKET_CAPACITY :: "u32 option"
  arg_CAPACITY_SLIM_FACTOR :: "u32 option"
  arg_TIMEOUT :: "nat option"

definition arptable_configure :: "arptable_args option \<Rightarrow> arptable \<Rightarrow> int \<times> arptable" where
  "arptable_configure conf t =
     (case conf of
        None \<Rightarrow> (- 1, t)
      | Some a \<Rightarrow>
          let opt = (\<lambda>d x. case x of None \<Rightarrow> d | Some v \<Rightarrow> v);
              t = t\<lparr> at_packet_capacity := opt (at_packet_capacity t) (arg_CAPACITY a),
                    at_entry_capacity := opt (at_entry_capacity t) (arg_ENTRY_CAPACITY a),
                    at_entry_packet_capacity := opt (at_entry_packet_capacity t) (arg_ENTRY_PACKET_CAPACITY a),
                    at_capacity_slim_factor := opt (at_capacity_slim_factor t) (arg_CAPACITY_SLIM_FACTOR a) \<rparr>
          in if at_capacity_slim_factor t = 0 then (- 22, t)
             else let t = at_set_timeout (case arg_TIMEOUT a of None \<Rightarrow> 300000 | Some ms \<Rightarrow> ms) t
                  in (0, if at_timeout t \<noteq> 0
                         then t\<lparr> at_expire_timer := Some (unat (at_timeout t div CLICK_HZ) * 1000) \<rparr>
                         else t))"

text \<open>\<^verbatim>\<open>slim\<close>, first loop: entries are deleted from the front of the age list.\<close>

fun slim_entries :: "u32 \<Rightarrow> ipaddr list \<Rightarrow> arptable \<Rightarrow> arptable option" where
  "slim_entries now [] t = Some (t\<lparr> at_age := [] \<rparr>)"
| "slim_entries now (ip # rest) t =
     do {
       ae \<leftarrow> at_get t ip;
       if arp_expired now (at_timeout t) ae
          \<or> at_entry_capacity t \<noteq> 0 \<and> at_entry_count t > at_entry_capacity t
       then slim_entries now rest
         (t\<lparr> at_table := hcn_erase ip_hashcode ip (at_table t), at_age := rest,
             at_packet_count := at_packet_count t - of_nat (length (ae_queue ae)),
             at_drops := at_drops t + of_nat (length (ae_queue ae)),
             at_entry_count := at_entry_count t - 1 \<rparr>)
       else Some (t\<lparr> at_age := ip # rest \<rparr>)
     }"

text \<open>Second loop: packets are deleted from the heads of the queues. \<open>slim_queue\<close> is the inner loop,
  with the counters of the table, of the entry and of the drops.\<close>

fun slim_queue :: "u32 \<Rightarrow> packet list \<Rightarrow> u32 \<times> u32 \<times> u32 \<Rightarrow> packet list \<times> u32 \<times> u32 \<times> u32" where
  "slim_queue cap [] s = ([], s)"
| "slim_queue cap (p # q) (n, m, d) =
     (if n > cap then slim_queue cap q (n - 1, m - 1, d + 1) else (p # q, n, m, d))"

fun slim_packets :: "u32 \<Rightarrow> ipaddr list \<Rightarrow> arptable \<Rightarrow> arptable option" where
  "slim_packets cap [] t = (if at_packet_count t > cap then None else Some t)"
| "slim_packets cap (ip # rest) t =
     (if at_packet_count t > cap then
        do {
          ae \<leftarrow> at_get t ip;
          let (q, n, m, d) = slim_queue cap (ae_queue ae) (at_packet_count t, ae_count ae, at_drops t);
          slim_packets cap rest
            ((at_put ip (ae\<lparr> ae_queue := q, ae_count := m \<rparr>) t)\<lparr> at_packet_count := n, at_drops := d \<rparr>)
        }
      else Some t)"

definition at_slim_capacity :: "arptable \<Rightarrow> u32" where
  "at_slim_capacity t =
     (let c = at_packet_capacity t - at_packet_capacity t div at_capacity_slim_factor t
      in if c = 0 then 1 else c)"

definition arp_slim :: "u32 \<Rightarrow> arptable \<Rightarrow> arptable option" where
  "arp_slim now t =
     do {
       t \<leftarrow> slim_entries now (at_age t) t;
       if at_packet_capacity t \<noteq> 0 \<and> at_packet_count t > at_packet_capacity t then
         if at_capacity_slim_factor t = 0 then None
         else slim_packets (at_slim_capacity t) (at_age t) t
       else Some t
     }"

definition arptable_run_timer :: "u32 \<Rightarrow> arptable \<Rightarrow> arptable option" where
  "arptable_run_timer now t =
     do {
       t \<leftarrow> arp_slim now t;
       Some (if at_timeout t \<noteq> 0
             then t\<lparr> at_expire_timer := Some (unat (at_timeout t div CLICK_HZ + 1) * 1000) \<rparr> else t)
     }"

text \<open>\<^verbatim>\<open>ensure\<close>: whether there is an entry now.\<close>

definition arp_ensure :: "env \<Rightarrow> ipaddr \<Rightarrow> u32 \<Rightarrow> arptable \<Rightarrow> (bool \<times> arptable) option" where
  "arp_ensure e ip now t =
     (case at_get t ip of
        Some ae \<Rightarrow> Some (True, t)
      | None \<Rightarrow>
          if \<not> alloc_ok e then Some (False, t)
          else do {
            let t = t\<lparr> at_entry_count := at_entry_count t + 1 \<rparr>;
            t \<leftarrow> (if at_entry_capacity t \<noteq> 0 \<and> at_entry_count t > at_entry_capacity t
                 then arp_slim now t else Some t);
            let t = at_put ip (arp_new_entry now) t;
            Some (True, t\<lparr> at_age := at_age t @ [ip] \<rparr>)
          })"

definition ENOMEM :: int where "ENOMEM = 12"
definition EAGAIN :: int where "EAGAIN = 11"

definition at_balance :: "env \<Rightarrow> arptable \<Rightarrow> arptable option" where
  "at_balance e t =
     do { c \<leftarrow> hcn_balance ip_hashcode (alloc_ok e) (at_table t); Some (t\<lparr> at_table := c \<rparr>) }"

text \<open>\<^verbatim>\<open>insert\<close>: the result, and the packets that were waiting when the caller asks for them.\<close>

definition arp_insert ::
  "env \<Rightarrow> u32 \<Rightarrow> ipaddr \<Rightarrow> etheraddr \<Rightarrow> bool \<Rightarrow> arptable \<Rightarrow> (int \<times> packet list \<times> arptable) option" where
  "arp_insert e now ip eth want_head t =
     do {
       (ok, t) \<leftarrow> arp_ensure e ip now t;
       if \<not> ok then Some (- ENOMEM, [], t)
       else do {
         ae \<leftarrow> at_get t ip;
         let ae = ae\<lparr> ae_eth := eth, ae_known := \<not> ether_is_broadcast eth, ae_live_at := now,
                      ae_polls := 0, ae_polled_at := now - CLICK_HZ \<rparr>;
         let t = (if last (at_age t) \<noteq> ip then t\<lparr> at_age := remove1 ip (at_age t) @ [ip] \<rparr> else t);
         let head = (if want_head then ae_queue ae else []);
         let t = (if want_head then t\<lparr> at_packet_count := at_packet_count t - ae_count ae \<rparr> else t);
         let ae = (if want_head then ae\<lparr> ae_queue := [], ae_count := 0 \<rparr> else ae);
         t \<leftarrow> at_balance e (at_put ip ae t);
         Some (0, head, t)
       }
     }"

text \<open>The walk of \<^verbatim>\<open>append_query\<close> over the entries behind the refreshed one: how many of them are older.\<close>

fun age_skip :: "arptable \<Rightarrow> u32 \<Rightarrow> ipaddr list \<Rightarrow> nat option" where
  "age_skip t live [] = Some 0"
| "age_skip t live (x # xs) =
     do {
       ae \<leftarrow> at_get t x;
       if click_jiffies_less (ae_live_at ae) live then map_option Suc (age_skip t live xs) else Some 0
     }"

definition arp_refresh :: "u32 \<Rightarrow> ipaddr \<Rightarrow> arpentry \<Rightarrow> arptable \<Rightarrow> (arpentry \<times> arptable) option" where
  "arp_refresh now ip ae t =
     (let live_min = now - at_timeout t
      in if at_timeout t \<noteq> 0 \<and> click_jiffies_less (ae_live_at ae) live_min then
           do {
             let ae = ae\<lparr> ae_live_at := live_min \<rparr>;
             let before = takeWhile (\<lambda>x. x \<noteq> ip) (at_age t);
             let after = tl (dropWhile (\<lambda>x. x \<noteq> ip) (at_age t));
             n \<leftarrow> age_skip t live_min after;
             Some (ae, at_put ip ae (t\<lparr> at_age := before @ take n after @ ip # drop n after \<rparr>))
           }
         else Some (ae, t))"

text \<open>\<^verbatim>\<open>append_query\<close>; \<open>arp_enqueue\<close> is its part from the test of the entry's own limit on.\<close>

definition arp_enqueue ::
  "env \<Rightarrow> u32 \<Rightarrow> ipaddr \<Rightarrow> packet \<Rightarrow> arpentry \<Rightarrow> arptable \<Rightarrow> (int \<times> arptable) option" where
  "arp_enqueue e now ip p ae t =
     (if at_entry_packet_capacity t \<noteq> 0 \<and> ae_count ae \<ge> at_entry_packet_capacity t
      then Some (- ENOMEM, t\<lparr> at_drops := at_drops t + 1 \<rparr>)
      else do {
        let t = t\<lparr> at_packet_count := at_packet_count t + 1 \<rparr>;
        t \<leftarrow> (if at_packet_capacity t \<noteq> 0 \<and> at_packet_count t > at_packet_capacity t
             then arp_slim now t else Some t);
        ae \<leftarrow> at_get t ip;
        let ae = ae\<lparr> ae_queue := ae_queue ae @ [p], ae_count := ae_count ae + 1 \<rparr>;
        let poll = arp_allow_poll now ae;
        let ae = (if poll then arp_mark_poll now ae else ae);
        t \<leftarrow> at_balance e (at_put ip ae t);
        Some (if poll then 1 else 0, t)
      })"

definition arp_append_query ::
  "env \<Rightarrow> u32 \<Rightarrow> ipaddr \<Rightarrow> packet \<Rightarrow> arptable \<Rightarrow> (int \<times> arptable) option" where
  "arp_append_query e now ip p t =
     do {
       (ok, t) \<leftarrow> arp_ensure e ip now t;
       if \<not> ok then Some (- ENOMEM, t)
       else do {
         ae \<leftarrow> at_get t ip;
         if arp_known now (at_timeout t) ae then Some (- EAGAIN, t)
         else do {
           (ae, t) \<leftarrow> arp_refresh now ip ae t;
           arp_enqueue e now ip p ae t
         }
       }
     }"

text \<open>\<^verbatim>\<open>lookup\<close>: the result, the address that was written to \<^verbatim>\<open>*eth\<close>, if any, and the table, in which
  a poll may have been recorded.\<close>

definition arp_lookup ::
  "u32 \<Rightarrow> ipaddr \<Rightarrow> u32 \<Rightarrow> arptable \<Rightarrow> int \<times> etheraddr option \<times> arptable" where
  "arp_lookup now ip poll_timeout t =
     (case at_get t ip of
        None \<Rightarrow> (- 1, None, t)
      | Some ae \<Rightarrow>
          if arp_known now (at_timeout t) ae then
            if poll_timeout \<noteq> 0 \<and> \<not> click_jiffies_less now (ae_live_at ae + poll_timeout) \<and> arp_allow_poll now ae
            then (1, Some (ae_eth ae), at_put ip (arp_mark_poll now ae) t)
            else (0, Some (ae_eth ae), t)
          else (- 1, None, t))"

text \<open>The second \<^verbatim>\<open>lookup\<close>, which never polls.\<close>

definition arp_lookup_eth :: "u32 \<Rightarrow> ipaddr \<Rightarrow> arptable \<Rightarrow> etheraddr" where
  "arp_lookup_eth now ip t =
     (case arp_lookup now ip 0 t of (r, eth, _) \<Rightarrow> if r \<ge> 0 then the eth else ether_broadcast)"

definition arp_reverse_lookup :: "etheraddr \<Rightarrow> arptable \<Rightarrow> ipaddr" where
  "arp_reverse_lookup eth t =
     (case find (\<lambda>(ip, ae). ae_eth ae = eth) (hcn_elements (at_table t)) of
        None \<Rightarrow> 0 | Some (ip, ae) \<Rightarrow> ip)"

text \<open>\<^verbatim>\<open>clear\<close>: the entries are erased in the order of the iterator.\<close>

definition arp_clear :: "arptable \<Rightarrow> arptable" where
  "arp_clear t =
     (let t = fold (\<lambda>(ip, ae) t. t\<lparr> at_table := hcn_erase ip_hashcode ip (at_table t),
                                    at_drops := at_drops t + of_nat (length (ae_queue ae)) \<rparr>)
                (hcn_elements (at_table t)) t
      in t\<lparr> at_entry_count := 0, at_packet_count := 0, at_age := [] \<rparr>)"

text \<open>\<^verbatim>\<open>take_state\<close> from another table: both tables afterwards.\<close>

definition arp_take_state :: "arptable \<Rightarrow> arptable \<Rightarrow> arptable \<times> arptable" where
  "arp_take_state arpt t =
     (if hcn_size (at_table t) > 0 then (t, arpt)
      else (t\<lparr> at_table := at_table arpt, at_age := at_age arpt, at_entry_count := at_entry_count arpt,
               at_packet_count := at_packet_count arpt, at_drops := at_drops arpt \<rparr>,
            arpt\<lparr> at_table := at_table t, at_age := at_age t, at_entry_count := 0, at_packet_count := 0 \<rparr>))"

text \<open>The write handlers with the parsed arguments.\<close>

datatype arp_handler = H_INSERT "(ipaddr \<times> etheraddr) option" | H_DELETE "ipaddr option" | H_CLEAR

fun arptable_write_handler :: "env \<Rightarrow> u32 \<Rightarrow> arp_handler \<Rightarrow> arptable \<Rightarrow> (int \<times> arptable) option" where
  "arptable_write_handler e now (H_INSERT (Some (ip, eth))) t =
     map_option (\<lambda>(r, ps, t). (0, t)) (arp_insert e now ip eth False t)"
| "arptable_write_handler e now (H_INSERT None) t = Some (- 1, t)"
| "arptable_write_handler e now (H_DELETE (Some ip)) t =
     map_option (\<lambda>(r, ps, t). (0, t)) (arp_insert e now ip ether_broadcast False t)"
| "arptable_write_handler e now (H_DELETE None) t = Some (- 1, t)"
| "arptable_write_handler e now H_CLEAR t = Some (0, arp_clear t)"


section \<open>Consistency\<close>

text \<open>The packets waiting in the entries of \<open>f\<close>.\<close>

definition waiting :: "(ipaddr \<Rightarrow> arpentry option) \<Rightarrow> nat" where
  "waiting f = (\<Sum>ip\<in>dom f. length (ae_queue (the (f ip))))"

definition entry_ok :: "arpentry \<Rightarrow> bool" where
  "entry_ok ae \<longleftrightarrow> unat (ae_count ae) = length (ae_queue ae) \<and> length (ae_eth ae) = 6 \<and>
     (ae_known ae \<longrightarrow> \<not> ether_is_broadcast (ae_eth ae))"

text \<open>The hash table and the age list hold the same entries, and the counters are right, up to \<open>i\<close>
  entries and \<open>j\<close> packets that have been counted but not yet been added.\<close>

definition arp_inv_off :: "nat \<Rightarrow> nat \<Rightarrow> arptable \<Rightarrow> bool" where
  "arp_inv_off i j t \<longleftrightarrow>
     hcn_inv ip_hashcode (at_table t) \<and> distinct (at_age t) \<and> set (at_age t) = dom (at_get t) \<and>
     unat (at_entry_count t) = length (at_age t) + i \<and> unat (at_packet_count t) = waiting (at_get t) + j \<and>
     at_capacity_slim_factor t \<noteq> 0 \<and> (\<forall>ip ae. at_get t ip = Some ae \<longrightarrow> entry_ok ae)"

abbreviation arp_inv :: "arptable \<Rightarrow> bool" where "arp_inv \<equiv> arp_inv_off 0 0"

text \<open>The configured limits hold.\<close>

definition arp_caps :: "arptable \<Rightarrow> bool" where
  "arp_caps t \<longleftrightarrow>
     (at_entry_capacity t \<noteq> 0 \<longrightarrow> at_entry_count t \<le> at_entry_capacity t) \<and>
     (at_packet_capacity t \<noteq> 0 \<longrightarrow> at_packet_count t \<le> at_packet_capacity t) \<and>
     (\<forall>ip ae. at_get t ip = Some ae \<and> at_entry_packet_capacity t \<noteq> 0 \<longrightarrow> ae_count ae \<le> at_entry_packet_capacity t)"

definition same_config :: "arptable \<Rightarrow> arptable \<Rightarrow> bool" where
  "same_config t t' \<longleftrightarrow>
     at_entry_capacity t' = at_entry_capacity t \<and> at_packet_capacity t' = at_packet_capacity t \<and>
     at_entry_packet_capacity t' = at_entry_packet_capacity t \<and>
     at_capacity_slim_factor t' = at_capacity_slim_factor t \<and> at_timeout t' = at_timeout t"

lemma same_config_refl [simp]: "same_config t t"
  by (simp add: same_config_def)

lemma same_config_trans: "same_config t u \<Longrightarrow> same_config u v \<Longrightarrow> same_config t v"
  by (simp add: same_config_def)

lemma at_get_fields [simp]:
  "at_get (t\<lparr> at_age := a \<rparr>) = at_get t" "at_get (t\<lparr> at_entry_count := n \<rparr>) = at_get t"
  "at_get (t\<lparr> at_packet_count := n \<rparr>) = at_get t" "at_get (t\<lparr> at_drops := n \<rparr>) = at_get t"
  "at_get (t\<lparr> at_expire_timer := x \<rparr>) = at_get t" "at_get (t\<lparr> at_entry_capacity := n \<rparr>) = at_get t"
  "at_get (t\<lparr> at_packet_capacity := n \<rparr>) = at_get t"
  by (simp_all add: fun_eq_iff at_get_def)

lemma at_put_fields [simp]:
  "at_age (at_put ip ae t) = at_age t" "at_entry_count (at_put ip ae t) = at_entry_count t"
  "at_packet_count (at_put ip ae t) = at_packet_count t" "at_drops (at_put ip ae t) = at_drops t"
  "at_capacity_slim_factor (at_put ip ae t) = at_capacity_slim_factor t" "at_timeout (at_put ip ae t) = at_timeout t"
  "at_entry_capacity (at_put ip ae t) = at_entry_capacity t" "at_packet_capacity (at_put ip ae t) = at_packet_capacity t"
  "at_entry_packet_capacity (at_put ip ae t) = at_entry_packet_capacity t"
  by (simp_all add: at_put_def)

lemma at_put_packet_count: "at_put ip ae (t\<lparr> at_packet_count := n \<rparr>) = (at_put ip ae t)\<lparr> at_packet_count := n \<rparr>"
  by (simp add: at_put_def)

lemma at_get_put:
  "hcn_inv ip_hashcode (at_table t) \<Longrightarrow> at_get (at_put ip ae t) = (at_get t)(ip \<mapsto> ae)"
  "hcn_inv ip_hashcode (at_table t) \<Longrightarrow> hcn_inv ip_hashcode (at_table (at_put ip ae t))"
  using hcn.find_insert [of ip_hashcode "at_table t" ip ae] hcn.inv_insert [of ip_hashcode "at_table t" ip ae]
  by (simp_all add: at_put_def at_get_def fun_eq_iff)

lemma at_get_erase:
  "hcn_inv ip_hashcode (at_table t) \<Longrightarrow>
    at_get (t\<lparr> at_table := hcn_erase ip_hashcode ip (at_table t) \<rparr>) = (at_get t)(ip := None)"
  using hcn.find_erase [of ip_hashcode "at_table t" ip] by (simp add: at_get_def fun_eq_iff)

lemma waiting_upd:
  assumes "finite (dom f)"
  shows "waiting (f(ip \<mapsto> ae)) = waiting (f(ip := None)) + length (ae_queue ae)"
proof -
  have "waiting (f(ip \<mapsto> ae)) = (\<Sum>x\<in>insert ip (dom f - {ip}). length (ae_queue (the ((f(ip \<mapsto> ae)) x))))"
    unfolding waiting_def by (rule sum.cong) auto
  also have "\<dots> = length (ae_queue ae) + (\<Sum>x\<in>dom f - {ip}. length (ae_queue (the ((f(ip \<mapsto> ae)) x))))"
    using assms by (subst sum.insert) simp_all
  also have "(\<Sum>x\<in>dom f - {ip}. length (ae_queue (the ((f(ip \<mapsto> ae)) x)))) = waiting (f(ip := None))"
    unfolding waiting_def by (rule sum.cong) auto
  finally show ?thesis by (simp only: add.commute)
qed

lemma waiting_remove:
  "finite (dom f) \<Longrightarrow> f ip = Some ae \<Longrightarrow> waiting f = waiting (f(ip := None)) + length (ae_queue ae)"
  using waiting_upd [of f ip ae] by (simp add: fun_upd_idem)

lemma waiting_0: "finite (dom f) \<Longrightarrow> waiting f = 0 \<longleftrightarrow> (\<forall>ip ae. f ip = Some ae \<longrightarrow> ae_queue ae = [])"
  by (force simp: waiting_def dom_def)

lemma arp_inv_finite: "arp_inv_off i j t \<Longrightarrow> finite (dom (at_get t))"
  unfolding arp_inv_off_def by (metis List.finite_set)

lemma unat_minus_1: "(0 :: u32) < n \<Longrightarrow> unat (n - 1) = unat n - 1"
  by (metis unat_minus_one word_not_simps(1))

lemma unat_minus_of_nat:
  assumes "k \<le> unat (n :: u32)"
  shows "unat (n - of_nat k) = unat n - k"
proof -
  have k: "unat (of_nat k :: u32) = k"
    using le_less_trans [OF assms unat_less_2_32] by (intro unat_word_of_nat) simp
  then have "of_nat k \<le> n" using assms by (simp add: word_le_nat_alt)
  then show ?thesis using k by (simp add: unat_sub)
qed

lemma arp_inv_off_drops [simp]: "arp_inv_off i j (t\<lparr> at_drops := d \<rparr>) = arp_inv_off i j t"
  by (simp add: arp_inv_off_def)

text \<open>Changing one entry.\<close>

lemma arp_inv_update:
  assumes "arp_inv_off i j t" and "at_get t ip = Some ae" and "entry_ok ae'"
    and "unat n + length (ae_queue ae) + j = unat (at_packet_count t) + length (ae_queue ae') + j'"
  shows "arp_inv_off i j' ((at_put ip ae' t)\<lparr> at_packet_count := n \<rparr>)"
proof -
  have c: "hcn_inv ip_hashcode (at_table t)" using assms(1) by (simp add: arp_inv_off_def)
  have fin: "finite (dom (at_get t))" using assms(1) by (rule arp_inv_finite)
  have "waiting ((at_get t)(ip \<mapsto> ae')) + length (ae_queue ae) = waiting (at_get t) + length (ae_queue ae')"
    using waiting_upd [OF fin, of ip ae'] waiting_remove [OF fin assms(2)] by simp
  then have "unat n = waiting ((at_get t)(ip \<mapsto> ae')) + j'"
    using assms(1,4) by (simp add: arp_inv_off_def)
  moreover have "dom ((at_get t)(ip \<mapsto> ae')) = dom (at_get t)" using assms(2) by auto
  ultimately show ?thesis
    using assms(1,3) by (simp add: arp_inv_off_def at_get_put [OF c])
qed

lemma arp_inv_put:
  assumes "arp_inv_off i j t" and "at_get t ip = Some ae" and "entry_ok ae'" and "ae_queue ae' = ae_queue ae"
  shows "arp_inv_off i j (at_put ip ae' t)"
  using arp_inv_update [OF assms(1-3), of "at_packet_count t" j] assms(4) by (simp add: arp_inv_off_def)

text \<open>The inner loop removes as many packets as necessary, or all.\<close>

lemma slim_queue_result:
  "slim_queue cap q (n, m, d) =
     (let k = min (length q) (unat n - unat cap)
      in (drop k q, n - of_nat k, m - of_nat k, d + of_nat k))"
proof (induction q arbitrary: n m d)
  case (Cons p q)
  show ?case
  proof (cases "n > cap")
    case True
    then have "unat n = Suc (unat (n - 1))" "unat (n - 1) \<ge> unat cap"
      using unat_minus_1 [of n] by (auto simp: word_less_nat_alt)
    then have "min (length (p # q)) (unat n - unat cap) = Suc (min (length q) (unat (n - 1) - unat cap))"
      by simp
    then show ?thesis using True Cons.IH [of "n - 1" "m - 1" "d + 1"] by (simp add: Let_def algebra_simps)
  next
    case False
    then show ?thesis by (simp add: word_less_nat_alt Let_def)
  qed
qed (simp add: Let_def)

section \<open>Slimming\<close>

definition over_capacity :: "arptable \<Rightarrow> bool" where
  "over_capacity t \<longleftrightarrow> at_entry_capacity t \<noteq> 0 \<and> at_entry_count t > at_entry_capacity t"

text \<open>One round of the first loop.\<close>

lemma slim_entries_round:
  assumes "arp_inv_off i j t" and "at_age t = ip # rest" and "at_get t ip = Some ae"
  defines "u \<equiv> t\<lparr> at_table := hcn_erase ip_hashcode ip (at_table t), at_age := rest,
             at_packet_count := at_packet_count t - of_nat (length (ae_queue ae)),
             at_drops := at_drops t + of_nat (length (ae_queue ae)), at_entry_count := at_entry_count t - 1 \<rparr>"
  shows "arp_inv_off i j u" and "at_get u = (at_get t)(ip := None)"
    and "unat (at_entry_count u) = unat (at_entry_count t) - 1"
proof -
  have c: "hcn_inv ip_hashcode (at_table t)" using assms(1) by (simp add: arp_inv_off_def)
  show get: "at_get u = (at_get t)(ip := None)"
    using at_get_erase [OF c] by (simp add: u_def at_get_def fun_eq_iff)
  have w: "waiting (at_get t) = waiting (at_get u) + length (ae_queue ae)"
    unfolding get by (rule waiting_remove [OF arp_inv_finite [OF assms(1)] assms(3)])
  have n: "unat (at_entry_count t) = length (ip # rest) + i" and p: "unat (at_packet_count t) = waiting (at_get t) + j"
    using assms(1,2) by (simp_all add: arp_inv_off_def)
  then have "0 < at_entry_count t" by (simp add: word_less_nat_alt)
  then show cnt: "unat (at_entry_count u) = unat (at_entry_count t) - 1"
    by (simp add: u_def unat_minus_1)
  have "unat (at_packet_count u) = waiting (at_get u) + j"
    using p w by (simp add: u_def unat_minus_of_nat)
  moreover have "hcn_inv ip_hashcode (at_table u)" using hcn.inv_erase [OF c] by (simp add: u_def)
  ultimately show "arp_inv_off i j u"
    using assms(1,2) cnt n unfolding arp_inv_off_def get by (auto simp: u_def)
qed


text \<open>The first loop: what remains is a suffix of the age list, the limit on the entries holds, the
  oldest remaining entry is not expired, and unless there were too many entries only expired ones
  were deleted.\<close>

definition expired_in :: "u32 \<Rightarrow> arptable \<Rightarrow> ipaddr \<Rightarrow> bool" where
  "expired_in now t ip \<longleftrightarrow> (\<exists>ae. at_get t ip = Some ae \<and> arp_expired now (at_timeout t) ae)"

definition entries_slimmed :: "u32 \<Rightarrow> arptable \<Rightarrow> arptable \<Rightarrow> bool" where
  "entries_slimmed now t t' \<longleftrightarrow>
     same_config t t' \<and> at_get t' = at_get t |` set (at_age t') \<and> \<not> over_capacity t' \<and>
     (at_age t' \<noteq> [] \<longrightarrow> \<not> expired_in now t (hd (at_age t'))) \<and>
     (\<exists>n. at_age t' = drop n (at_age t) \<and>
       (\<not> over_capacity t \<longrightarrow> (\<forall>ip \<in> set (take n (at_age t)). expired_in now t ip)))"

lemma entries_slimmed_refl:
  assumes "arp_inv_off i j t" and "\<not> over_capacity t" and "at_age t \<noteq> [] \<longrightarrow> \<not> expired_in now t (hd (at_age t))"
  shows "entries_slimmed now t t"
proof -
  have "at_get t |` set (at_age t) = at_get t"
    using assms(1) by (auto simp: arp_inv_off_def restrict_map_def fun_eq_iff domIff)
  moreover have "at_age t = drop 0 (at_age t) \<and> (\<forall>ip \<in> set (take 0 (at_age t)). expired_in now t ip)" by simp
  ultimately show ?thesis using assms(2,3) unfolding entries_slimmed_def by (metis same_config_refl)
qed

lemma entries_slimmed_step:
  assumes "entries_slimmed now u t'" and "same_config t u" and "at_age t = ip # at_age u" and "ip \<notin> set (at_age u)"
    and "at_get u = (at_get t)(ip := None)" and "\<not> over_capacity t \<Longrightarrow> \<not> over_capacity u \<and> expired_in now t ip"
  shows "entries_slimmed now t t'"
proof -
  obtain n where n: "at_age t' = drop n (at_age u)"
    "\<not> over_capacity u \<Longrightarrow> \<forall>ip \<in> set (take n (at_age u)). expired_in now u ip"
    using assms(1) unfolding entries_slimmed_def by blast
  have out: "ip \<notin> set (at_age t')" using n(1) assms(4) in_set_dropD [of ip n "at_age u"] by metis
  have ex: "expired_in now u x \<longleftrightarrow> expired_in now t x" if "x \<noteq> ip" for x
    using that assms(2) by (simp add: expired_in_def assms(5) same_config_def)
  have "at_get u |` set (at_age t') = at_get t |` set (at_age t')"
    using out by (auto simp: assms(5) restrict_map_def fun_eq_iff)
  moreover have "at_age t' \<noteq> [] \<Longrightarrow> hd (at_age t') \<noteq> ip" using out by (metis list.set_sel(1))
  moreover have "at_age t' = drop (Suc n) (at_age t)" using n(1) assms(3) by simp
  moreover have "\<forall>x \<in> set (take (Suc n) (at_age t)). expired_in now t x" if "\<not> over_capacity t"
  proof -
    have "expired_in now t x" if "x \<in> set (take n (at_age u))" for x
      using n(2) assms(6) \<open>\<not> over_capacity t\<close> that ex [of x] assms(4) in_set_takeD [of x n "at_age u"] by metis
    then show ?thesis using assms(3,6) that by simp
  qed
  ultimately show ?thesis
    using assms(1) same_config_trans [OF assms(2)] ex unfolding entries_slimmed_def by metis
qed

lemma slim_entries_result:
  assumes "arp_inv_off i j t" and "i \<le> 1" and "at_age t = age"
  shows "\<exists>t'. slim_entries now age t = Some t' \<and> arp_inv_off i j t' \<and> entries_slimmed now t t'"
  using assms
proof (induction age arbitrary: t)
  case Nil
  have "unat (at_entry_count t) \<le> 1" using Nil.prems by (simp add: arp_inv_off_def)
  then have "\<not> over_capacity t"
    using unat_gt_0 [of "at_entry_capacity t"] unfolding over_capacity_def word_less_nat_alt by linarith
  then have "entries_slimmed now t t" using Nil.prems by (intro entries_slimmed_refl) simp_all
  moreover have "t\<lparr> at_age := [] \<rparr> = t" using Nil.prems(3) by simp
  ultimately show ?case using Nil.prems(1) by simp
next
  case (Cons ip rest)
  have dom: "set (ip # rest) = dom (at_get t)" and ni: "ip \<notin> set rest"
    using Cons.prems(1,3) by (simp_all add: arp_inv_off_def)
  then obtain ae where ae: "at_get t ip = Some ae" by (metis domD list.set_intros(1))
  have same: "t\<lparr> at_age := ip # rest \<rparr> = t" using Cons.prems(3) by simp
  show ?case
  proof (cases "arp_expired now (at_timeout t) ae \<or> over_capacity t")
    case False
    then have "entries_slimmed now t t"
      using Cons.prems ae by (intro entries_slimmed_refl) (simp_all add: expired_in_def)
    moreover have "slim_entries now (ip # rest) t = Some t" using False ae same by (auto simp: over_capacity_def)
    ultimately show ?thesis using Cons.prems(1) by blast
  next
    case True
    define u where "u = t\<lparr> at_table := hcn_erase ip_hashcode ip (at_table t), at_age := rest,
             at_packet_count := at_packet_count t - of_nat (length (ae_queue ae)),
             at_drops := at_drops t + of_nat (length (ae_queue ae)), at_entry_count := at_entry_count t - 1 \<rparr>"
    note r = slim_entries_round [OF Cons.prems(1,3) ae, folded u_def]
    have u: "same_config t u" "at_age u = rest" "at_age t = ip # at_age u"
      using Cons.prems(3) by (simp_all add: u_def same_config_def)
    obtain t' where t': "slim_entries now rest u = Some t'" "arp_inv_off i j t'" "entries_slimmed now u t'"
      using Cons.IH [OF r(1) Cons.prems(2) u(2)] by blast
    have "over_capacity u \<Longrightarrow> over_capacity t"
      using r(3) by (auto simp: over_capacity_def u_def word_less_nat_alt)
    then have "entries_slimmed now t t'"
      using True ae ni u(2) by (intro entries_slimmed_step [OF t'(3) u(1) u(3) _ r(2)]) (auto simp: expired_in_def)
    moreover have "slim_entries now (ip # rest) t = slim_entries now rest u"
      using True ae by (auto simp: u_def over_capacity_def)
    ultimately show ?thesis using t'(1,2) by simp
  qed
qed


text \<open>The second loop never runs off the age list: by then no packets are left.\<close>

definition slimmed :: "arpentry \<Rightarrow> arpentry \<Rightarrow> bool" where
  "slimmed ae ae' \<longleftrightarrow> (\<exists>k \<le> length (ae_queue ae).
     ae' = ae\<lparr> ae_queue := drop k (ae_queue ae), ae_count := ae_count ae - of_nat k \<rparr>)"

definition packets_slimmed :: "arptable \<Rightarrow> arptable \<Rightarrow> bool" where
  "packets_slimmed t t' \<longleftrightarrow>
     same_config t t' \<and> at_age t' = at_age t \<and> at_entry_count t' = at_entry_count t \<and>
     (\<forall>ip. rel_option slimmed (at_get t ip) (at_get t' ip))"

lemma slimmed_refl: "slimmed ae ae"
  unfolding slimmed_def by (rule exI [of _ 0]) simp

lemma slimmed_trans:
  assumes "slimmed a b" and "slimmed b c"
  shows "slimmed a c"
proof -
  obtain k l where k: "k \<le> length (ae_queue a)" "b = a\<lparr> ae_queue := drop k (ae_queue a), ae_count := ae_count a - of_nat k \<rparr>"
    and l: "l \<le> length (ae_queue b)" "c = b\<lparr> ae_queue := drop l (ae_queue b), ae_count := ae_count b - of_nat l \<rparr>"
    using assms unfolding slimmed_def by blast
  then have "c = a\<lparr> ae_queue := drop (k + l) (ae_queue a), ae_count := ae_count a - of_nat (k + l) \<rparr>"
    by (simp add: add.commute diff_diff_eq)
  moreover have "k + l \<le> length (ae_queue a)" using k l by simp
  ultimately show ?thesis unfolding slimmed_def by blast
qed

lemma slimmed_ok: "slimmed ae ae' \<Longrightarrow> entry_ok ae \<Longrightarrow> entry_ok ae' \<and> ae_count ae' \<le> ae_count ae"
  by (auto simp: slimmed_def entry_ok_def unat_minus_of_nat word_le_nat_alt)

lemma packets_slimmedD:
  assumes "packets_slimmed t t'" and "at_get t' ip = Some ae'"
  shows "\<exists>ae. at_get t ip = Some ae \<and> slimmed ae ae'"
proof -
  have "rel_option slimmed (at_get t ip) (Some ae')" using assms by (metis packets_slimmed_def)
  then show ?thesis by (simp add: option_rel_Some2)
qed

lemma packets_slimmed_refl: "packets_slimmed t t"
  by (simp add: packets_slimmed_def option.rel_refl slimmed_refl)

lemma packets_slimmed_trans: "packets_slimmed t u \<Longrightarrow> packets_slimmed u v \<Longrightarrow> packets_slimmed t v"
proof -
  assume tu: "packets_slimmed t u" and uv: "packets_slimmed u v"
  have "rel_option slimmed (at_get t ip) (at_get v ip)" for ip
  proof -
    have "rel_option slimmed (at_get t ip) (at_get u ip)" "rel_option slimmed (at_get u ip) (at_get v ip)"
      using tu uv by (simp_all add: packets_slimmed_def)
    then show ?thesis
      by (cases "at_get t ip"; cases "at_get u ip"; cases "at_get v ip") (auto dest: slimmed_trans)
  qed
  then show ?thesis using tu uv by (auto simp: packets_slimmed_def dest: same_config_trans)
qed

lemma slim_packets_result:
  assumes "arp_inv_off i j t" and "j \<le> 1" and "cap \<noteq> 0" and "distinct age" and "set age \<subseteq> dom (at_get t)"
    and "\<forall>ip ae. at_get t ip = Some ae \<and> ip \<notin> set age \<longrightarrow> ae_queue ae = []"
  shows "\<exists>t'. slim_packets cap age t = Some t' \<and> arp_inv_off i j t' \<and> packets_slimmed t t' \<and> at_packet_count t' \<le> cap"
  using assms
proof (induction age arbitrary: t)
  case Nil
  have "waiting (at_get t) = 0" using Nil.prems(6) arp_inv_finite [OF Nil.prems(1)] by (simp add: waiting_0)
  then have "unat (at_packet_count t) \<le> 1" using Nil.prems(1,2) by (simp add: arp_inv_off_def)
  then have "at_packet_count t \<le> cap"
    using unat_gt_0 [of cap] Nil.prems(3) unfolding word_le_nat_alt by linarith
  then show ?case using Nil.prems(1) by (simp add: packets_slimmed_refl)
next
  case (Cons ip rest)
  show ?case
  proof (cases "at_packet_count t > cap")
    case False
    then show ?thesis using Cons.prems(1) by (simp add: packets_slimmed_refl)
  next
    case True
    obtain ae where ae: "at_get t ip = Some ae" using Cons.prems(5) by auto
    define k where "k = min (length (ae_queue ae)) (unat (at_packet_count t) - unat cap)"
    define ae' where "ae' = ae\<lparr> ae_queue := drop k (ae_queue ae), ae_count := ae_count ae - of_nat k \<rparr>"
    define u where "u = (at_put ip ae' t)\<lparr> at_packet_count := at_packet_count t - of_nat k, at_drops := at_drops t + of_nat k \<rparr>"
    have c: "hcn_inv ip_hashcode (at_table t)" using Cons.prems(1) by (simp add: arp_inv_off_def)
    have get: "at_get u = (at_get t)(ip \<mapsto> ae')" by (simp add: u_def at_get_put [OF c])
    have kq: "k \<le> length (ae_queue ae)" "k \<le> unat (at_packet_count t)" by (simp_all add: k_def)
    have sl: "slimmed ae ae'" using kq(1) unfolding slimmed_def ae'_def by blast
    have "entry_ok ae'" using slimmed_ok [OF sl] Cons.prems(1) ae by (simp add: arp_inv_off_def)
    then have inv: "arp_inv_off i j u"
      unfolding u_def arp_inv_off_drops
      by (rule arp_inv_update [OF Cons.prems(1) ae]) (use kq in \<open>simp add: ae'_def unat_minus_of_nat\<close>)
    have step: "slim_packets cap (ip # rest) t = slim_packets cap rest u"
      using True ae by (simp add: slim_queue_result Let_def u_def ae'_def k_def)
    have pu: "packets_slimmed t u"
      using ae sl by (auto simp: packets_slimmed_def same_config_def u_def at_get_put [OF c] option.rel_refl slimmed_refl)
    show ?thesis
    proof (cases "k < length (ae_queue ae)")
      case True
      then have "unat (at_packet_count u) = unat cap"
        using kq \<open>cap < at_packet_count t\<close> by (simp add: u_def unat_minus_of_nat k_def word_less_nat_alt)
      then have "slim_packets cap rest u = Some u" "at_packet_count u \<le> cap"
        by (cases rest; simp add: word_less_nat_alt word_le_nat_alt)+
      then show ?thesis using step inv pu by simp
    next
      case False
      then have "ae_queue ae' = []" by (simp add: ae'_def)
      then have "\<forall>x e. at_get u x = Some e \<and> x \<notin> set rest \<longrightarrow> ae_queue e = []"
        using Cons.prems(6) by (auto simp: get)
      then have "\<exists>t'. slim_packets cap rest u = Some t' \<and> arp_inv_off i j t' \<and> packets_slimmed u t' \<and> at_packet_count t' \<le> cap"
        using Cons.prems(2-5) by (intro Cons.IH [OF inv]) (auto simp: get)
      then show ?thesis using step packets_slimmed_trans [OF pu] by auto
    qed
  qed
qed


lemma at_slim_capacity_bounds:
  assumes "at_packet_capacity t \<noteq> 0"
  shows "at_slim_capacity t \<noteq> 0" and "at_slim_capacity t \<le> at_packet_capacity t"
proof -
  let ?p = "at_packet_capacity t" and ?f = "at_capacity_slim_factor t"
  have "unat (?p div ?f) \<le> unat ?p" by (simp add: unat_div_distrib)
  then have "?p - ?p div ?f \<le> ?p" by (simp add: word_le_nat_alt unat_sub)
  moreover have "(1 :: u32) \<le> ?p" using assms unat_gt_0 [of ?p] by (simp add: word_le_nat_alt Suc_le_eq)
  ultimately show "at_slim_capacity t \<noteq> 0" "at_slim_capacity t \<le> ?p"
    by (simp_all add: at_slim_capacity_def Let_def)
qed

lemma arp_slim_result:
  assumes "arp_inv_off i j t" and "i \<le> 1" and "j \<le> 1"
  shows "\<exists>u t'. arp_slim now t = Some t' \<and> arp_inv_off i j t' \<and> entries_slimmed now t u \<and> packets_slimmed u t' \<and>
    (at_packet_capacity t \<noteq> 0 \<longrightarrow> at_packet_count t' \<le> at_packet_capacity t)"
proof -
  obtain u where u: "slim_entries now (at_age t) t = Some u" "arp_inv_off i j u" "entries_slimmed now t u"
    using slim_entries_result [OF assms(1,2) refl] by blast
  then have cfg: "at_packet_capacity u = at_packet_capacity t" "at_capacity_slim_factor u \<noteq> 0"
    by (simp_all add: entries_slimmed_def same_config_def arp_inv_off_def)
  show ?thesis
  proof (cases "at_packet_capacity t \<noteq> 0 \<and> at_packet_count u > at_packet_capacity t")
    case True
    have dom: "distinct (at_age u)" "set (at_age u) = dom (at_get u)" using u(2) by (simp_all add: arp_inv_off_def)
    have cap: "at_slim_capacity u \<noteq> 0" "at_slim_capacity u \<le> at_packet_capacity t"
      using at_slim_capacity_bounds [of u] True cfg(1) by simp_all
    obtain t' where t': "slim_packets (at_slim_capacity u) (at_age u) u = Some t'" "arp_inv_off i j t'"
      "packets_slimmed u t'" "at_packet_count t' \<le> at_slim_capacity u"
      using slim_packets_result [OF u(2) assms(3) cap(1) dom(1)] dom(2) by auto
    moreover have "arp_slim now t = Some t'" using u(1) True cfg t'(1) by (simp add: arp_slim_def)
    ultimately show ?thesis using u(3) order_trans [OF t'(4) cap(2)] by blast
  next
    case False
    then have "arp_slim now t = Some u" using u(1) cfg by (auto simp: arp_slim_def)
    then show ?thesis using False u packets_slimmed_refl by auto
  qed
qed

section \<open>The operations\<close>

lemma arp_inv_age:
  assumes "arp_inv_off i j t" and "distinct a" and "set a = set (at_age t)"
  shows "arp_inv_off i j (t\<lparr> at_age := a \<rparr>)"
proof -
  have "length a = length (at_age t)"
    using assms by (metis arp_inv_off_def distinct_card)
  then show ?thesis using assms by (simp add: arp_inv_off_def)
qed

lemma entry_ok_new: "entry_ok (arp_new_entry now)"
  by (simp add: entry_ok_def arp_new_entry_def ether_broadcast_def)

lemma arp_inv_add:
  assumes "arp_inv_off (Suc i) j t" and "at_get t ip = None"
  shows "arp_inv_off i j ((at_put ip (arp_new_entry now) t)\<lparr> at_age := at_age t @ [ip] \<rparr>)"
proof -
  have c: "hcn_inv ip_hashcode (at_table t)" using assms(1) by (simp add: arp_inv_off_def)
  have "(at_get t)(ip := None) = at_get t" using assms(2) by (simp add: fun_upd_idem)
  then have "waiting ((at_get t)(ip \<mapsto> arp_new_entry now)) = waiting (at_get t)"
    using waiting_upd [OF arp_inv_finite [OF assms(1)], of ip "arp_new_entry now"] by (simp add: arp_new_entry_def)
  moreover have "ip \<notin> set (at_age t)" using assms by (simp add: arp_inv_off_def domIff)
  ultimately show ?thesis
    using assms(1) by (simp add: arp_inv_off_def at_get_put [OF c] entry_ok_new)
qed

lemma waiting_mono:
  assumes "finite (dom f)" and "\<And>ip ae'. f' ip = Some ae' \<Longrightarrow> \<exists>ae. f ip = Some ae \<and> length (ae_queue ae') \<le> length (ae_queue ae)"
  shows "waiting f' \<le> waiting f"
proof -
  have dom: "dom f' \<subseteq> dom f" using assms(2) by blast
  have "waiting f' \<le> (\<Sum>ip\<in>dom f'. length (ae_queue (the (f ip))))"
    unfolding waiting_def using assms(2) by (intro sum_mono) fastforce
  also have "\<dots> \<le> waiting f" unfolding waiting_def by (rule sum_mono2 [OF assms(1) dom]) simp
  finally show ?thesis .
qed

lemma slim_entry:
  assumes "entries_slimmed now t u" and "packets_slimmed u t'" and "at_get t' ip = Some ae'"
  shows "ip \<in> set (at_age t') \<and> (\<exists>ae. at_get t ip = Some ae \<and> slimmed ae ae')"
proof -
  obtain ae where ae: "at_get u ip = Some ae" "slimmed ae ae'" using packets_slimmedD [OF assms(2,3)] by blast
  have "at_get u = at_get t |` set (at_age u)" "at_age t' = at_age u"
    using assms(1,2) unfolding entries_slimmed_def packets_slimmed_def by blast+
  with ae show ?thesis by (simp add: restrict_map_def split: if_splits)
qed

lemma slim_packet_count:
  assumes "entries_slimmed now t u" and "packets_slimmed u t'" and "arp_inv_off i j t" and "arp_inv_off i' j t'"
  shows "unat (at_packet_count t') \<le> unat (at_packet_count t)"
proof -
  have "waiting (at_get t') \<le> waiting (at_get t)"
    using slim_entry [OF assms(1,2)] by (intro waiting_mono arp_inv_finite [OF assms(3)]) (fastforce simp: slimmed_def)
  then show ?thesis using assms(3,4) by (simp add: arp_inv_off_def)
qed

text \<open>What \<open>slim\<close> keeps of the limits.\<close>

lemma slim_caps:
  assumes "arp_caps (t\<lparr> at_entry_count := n, at_packet_count := m \<rparr>)" and "entries_slimmed now t u" and "packets_slimmed u t'"
    and "at_packet_capacity t \<noteq> 0 \<longrightarrow> at_packet_count t' \<le> at_packet_capacity t" and "arp_inv_off i j t"
  shows "arp_caps t'" and "same_config t t'" and "\<not> over_capacity t'"
proof -
  show cfg: "same_config t t'"
    using assms(2,3) unfolding entries_slimmed_def packets_slimmed_def by (blast intro: same_config_trans)
  have "\<not> over_capacity u" "same_config u t'" "at_entry_count t' = at_entry_count u"
    using assms(2,3) unfolding entries_slimmed_def packets_slimmed_def by blast+
  then show over: "\<not> over_capacity t'" by (simp add: over_capacity_def same_config_def)
  have "ae_count ae' \<le> at_entry_packet_capacity t'" if get: "at_get t' ip = Some ae'" and "at_entry_packet_capacity t' \<noteq> 0" for ip ae'
  proof -
    obtain ae where ae: "at_get t ip = Some ae" "slimmed ae ae'"
      using slim_entry [OF assms(2,3) get] by blast
    moreover from this have "entry_ok ae" using assms(5) by (simp add: arp_inv_off_def)
    ultimately have "ae_count ae' \<le> ae_count ae" "ae_count ae \<le> at_entry_packet_capacity t"
      using slimmed_ok [OF ae(2)] assms(1) cfg that(2) by (auto simp: arp_caps_def same_config_def)
    then show ?thesis using cfg by (simp add: same_config_def)
  qed
  then show "arp_caps t'"
    using assms(4) over cfg by (auto simp: arp_caps_def over_capacity_def same_config_def not_less)
qed


text \<open>\<^verbatim>\<open>ensure\<close> finds or adds the entry; there must be room to count one more.\<close>

definition arp_room :: "arptable \<Rightarrow> bool" where
  "arp_room t \<longleftrightarrow> unat (at_entry_count t) < 2 ^ 32 - 1 \<and> unat (at_packet_count t) < 2 ^ 32 - 1"

lemma unat_u32_Suc: "unat (n :: u32) < 2 ^ 32 - 1 \<Longrightarrow> unat (n + 1) = Suc (unat n)"
  by (simp add: unat_word_ariths)

lemma arp_caps_new:
  assumes "arp_caps t" and "\<not> over_capacity t" and "hcn_inv ip_hashcode (at_table t)"
  shows "arp_caps ((at_put ip (arp_new_entry now) t)\<lparr> at_age := a \<rparr>)"
  using assms(1) by (auto simp: arp_caps_def at_get_put [OF assms(3)] arp_new_entry_def)

lemma arp_ensure_result:
  assumes "arp_inv t" and "arp_caps t" and "arp_room t" and "alloc_ok e"
  shows "\<exists>t' ae. arp_ensure e ip now t = Some (True, t') \<and> arp_inv t' \<and> arp_caps t' \<and> same_config t t' \<and>
    at_packet_count t' \<le> at_packet_count t \<and>
    at_get t' ip = Some ae \<and> ae = (case at_get t ip of None \<Rightarrow> arp_new_entry now | Some old \<Rightarrow> old)"
proof (cases "at_get t ip")
  case None
  define u where "u = t\<lparr> at_entry_count := at_entry_count t + 1 \<rparr>"
  have u: "arp_inv_off 1 0 u" "arp_caps (u\<lparr> at_entry_count := at_entry_count t, at_packet_count := at_packet_count t \<rparr>)"
    "same_config t u" "at_packet_count u = at_packet_count t"
    using assms(1-3) by (auto simp: u_def arp_inv_off_def arp_room_def unat_u32_Suc arp_caps_def same_config_def)
  have "\<exists>v. (if over_capacity u then arp_slim now u else Some u) = Some v \<and> arp_inv_off 1 0 v \<and> arp_caps v \<and>
      same_config u v \<and> \<not> over_capacity v \<and> at_get v ip = None \<and> at_packet_count v \<le> at_packet_count t"
  proof (cases "over_capacity u")
    case True
    obtain w v where v: "arp_slim now u = Some v" "arp_inv_off 1 0 v" "entries_slimmed now u w" "packets_slimmed w v"
      "at_packet_capacity u \<noteq> 0 \<longrightarrow> at_packet_count v \<le> at_packet_capacity u"
      using arp_slim_result [OF u(1), of now] by auto
    have "at_get v ip = None"
    proof (rule ccontr)
      assume "at_get v ip \<noteq> None"
      then have "at_get u ip \<noteq> None" using slim_entry [OF v(3,4), of ip] by auto
      then show False using None by (simp add: u_def)
    qed
    moreover have "at_packet_count v \<le> at_packet_count t"
      using slim_packet_count [OF v(3,4) u(1) v(2)] u(4) by (simp add: word_le_nat_alt)
    ultimately show ?thesis using True v(1,2) slim_caps [OF u(2) v(3-5) u(1)] by simp
  next
    case False
    then show ?thesis using u None assms(2,3) by (auto simp: arp_caps_def u_def over_capacity_def arp_room_def)
  qed
  then obtain v where v: "(if over_capacity u then arp_slim now u else Some u) = Some v" "arp_inv_off 1 0 v" "arp_caps v"
      "same_config u v" "\<not> over_capacity v" "at_get v ip = None" "at_packet_count v \<le> at_packet_count t" by blast
  have c: "hcn_inv ip_hashcode (at_table v)" using v(2) by (simp add: arp_inv_off_def)
  let ?t = "(at_put ip (arp_new_entry now) v)\<lparr> at_age := at_age v @ [ip] \<rparr>"
  have "arp_ensure e ip now t = Some (True, ?t)"
    using None assms(4) v(1) by (auto simp: arp_ensure_def Let_def u_def over_capacity_def split: if_splits)
  moreover have "arp_inv ?t" using arp_inv_add [of 0 0 v ip now] v(2,6) by simp
  moreover have "same_config t ?t" using u(3) v(4) by (simp add: same_config_def)
  ultimately show ?thesis
    using None arp_caps_new [OF v(3,5) c] v(7) by (simp add: at_get_put [OF c])
next
  case (Some old)
  then show ?thesis using assms by (simp add: arp_ensure_def arp_room_def)
qed


lemma at_balance_result:
  assumes "arp_inv_off i j t" and "alloc_ok e"
  shows "\<exists>t'. at_balance e t = Some t' \<and> arp_inv_off i j t' \<and> same_config t t' \<and> at_get t' = at_get t \<and>
    at_age t' = at_age t \<and> at_entry_count t' = at_entry_count t \<and> at_packet_count t' = at_packet_count t \<and>
    at_drops t' = at_drops t"
proof -
  have c: "hcn_inv ip_hashcode (at_table t)" using assms(1) by (simp add: arp_inv_off_def)
  obtain c' where c': "hcn_balance ip_hashcode True (at_table t) = Some c'" "hcn_inv ip_hashcode c'"
    "hcn_find ip_hashcode c' = hcn_find ip_hashcode (at_table t)"
    by (rule hcn_balance_correct [OF c])
  have get: "at_get (t\<lparr> at_table := c' \<rparr>) = at_get t" by (simp add: fun_eq_iff at_get_def c'(3))
  then have "arp_inv_off i j (t\<lparr> at_table := c' \<rparr>)" using assms(1) c'(2) by (simp add: arp_inv_off_def)
  then show ?thesis using c'(1) get assms(2) by (simp add: at_balance_def same_config_def)
qed

text \<open>\<^verbatim>\<open>insert\<close>: the address is known from now on, and the packets that waited for it, if the
  caller wants them, come out in the order in which they arrived.\<close>

lemma arp_insert_result:
  assumes "arp_inv t" and "arp_caps t" and "arp_room t" and "alloc_ok e" and "length eth = 6"
  shows "\<exists>t'. arp_insert e now ip eth w t =
      Some (0, if w then (case at_get t ip of None \<Rightarrow> [] | Some ae \<Rightarrow> ae_queue ae) else [], t') \<and>
    arp_inv t' \<and> arp_caps t' \<and> same_config t t' \<and>
    at_get t' ip = Some \<lparr> ae_eth = eth, ae_known = (\<not> ether_is_broadcast eth), ae_polls = 0, ae_live_at = now,
      ae_polled_at = now - CLICK_HZ,
      ae_queue = (case at_get t ip of None \<Rightarrow> [] | Some ae \<Rightarrow> if w then [] else ae_queue ae),
      ae_count = (case at_get t ip of None \<Rightarrow> 0 | Some ae \<Rightarrow> if w then 0 else ae_count ae) \<rparr>"
proof -
  obtain u ae where u: "arp_ensure e ip now t = Some (True, u)" "arp_inv u" "arp_caps u" "same_config t u"
    "at_get u ip = Some ae" "ae = (case at_get t ip of None \<Rightarrow> arp_new_entry now | Some old \<Rightarrow> old)"
    using arp_ensure_result [OF assms(1-4), of ip now] by blast
  define a where "a = (if last (at_age u) \<noteq> ip then remove1 ip (at_age u) @ [ip] else at_age u)"
  have "ip \<in> set (at_age u)" "distinct (at_age u)" using u(2,5) by (auto simp: arp_inv_off_def)
  then have a: "distinct a" "set a = set (at_age u)" by (auto simp: a_def)
  define ae' where "ae' = ae\<lparr> ae_eth := eth, ae_known := \<not> ether_is_broadcast eth, ae_live_at := now, ae_polls := 0,
      ae_polled_at := now - CLICK_HZ, ae_queue := (if w then [] else ae_queue ae), ae_count := (if w then 0 else ae_count ae) \<rparr>"
  define n where "n = (if w then at_packet_count u - ae_count ae else at_packet_count u)"
  have ok: "entry_ok ae" using u(2,5) by (simp add: arp_inv_off_def)
  then have ok': "entry_ok ae'" using assms(5) by (simp add: ae'_def entry_ok_def)
  have le: "unat (ae_count ae) \<le> unat (at_packet_count u)"
    using waiting_remove [OF arp_inv_finite [OF u(2)] u(5)] u(2) ok by (simp add: arp_inv_off_def entry_ok_def)
  then have sub: "unat (at_packet_count u - ae_count ae) = unat (at_packet_count u) - unat (ae_count ae)"
    by (simp add: unat_sub word_le_nat_alt)
  have age: "arp_inv (u\<lparr> at_age := a \<rparr>)" "at_get (u\<lparr> at_age := a \<rparr>) ip = Some ae"
    using arp_inv_age [OF u(2) a] u(5) by simp_all
  have inv: "arp_inv ((at_put ip ae' (u\<lparr> at_age := a \<rparr>))\<lparr> at_packet_count := n \<rparr>)"
    by (rule arp_inv_update [OF age ok']) (use ok le sub in \<open>simp add: ae'_def n_def entry_ok_def\<close>)
  obtain t' where t': "at_balance e ((at_put ip ae' (u\<lparr> at_age := a \<rparr>))\<lparr> at_packet_count := n \<rparr>) = Some t'" "arp_inv t'"
    "same_config ((at_put ip ae' (u\<lparr> at_age := a \<rparr>))\<lparr> at_packet_count := n \<rparr>) t'"
    "at_get t' = at_get ((at_put ip ae' (u\<lparr> at_age := a \<rparr>))\<lparr> at_packet_count := n \<rparr>)"
    "at_entry_count t' = at_entry_count u" "at_packet_count t' = n"
    using at_balance_result [OF inv assms(4)] by auto
  have c: "hcn_inv ip_hashcode (at_table (u\<lparr> at_age := a \<rparr>))" using age(1) by (simp add: arp_inv_off_def)
  have get: "at_get t' = (at_get u)(ip \<mapsto> ae')" using t'(4) by (simp add: at_get_put [OF c])
  have "n \<le> at_packet_count u" using sub by (simp add: n_def word_le_nat_alt)
  then have "arp_caps t'"
    using u(3,5) t'(3,5,6) by (auto simp: arp_caps_def get same_config_def ae'_def split: if_splits)
  moreover have "same_config t t'" using u(4) t'(3) by (simp add: same_config_def)
  moreover have "arp_insert e now ip eth w t = Some (0, if w then ae_queue ae else [], t')"
    using u(1,5) t'(1) by (auto simp: arp_insert_def Let_def a_def ae'_def n_def simp flip: at_put_packet_count)
  ultimately show ?thesis
    using t'(2) u(6) by (auto simp: get ae'_def arp_new_entry_def split: option.splits)
qed


lemma age_skip_total: "set xs \<subseteq> dom (at_get t) \<Longrightarrow> \<exists>n. age_skip t live xs = Some n"
  by (induction xs) auto

lemma split_at: "x \<in> set xs \<Longrightarrow> xs = takeWhile (\<lambda>y. y \<noteq> x) xs @ x # tl (dropWhile (\<lambda>y. y \<noteq> x) xs)"
  by (induction xs) auto

lemma move_back:
  assumes "distinct (b @ x # a)"
  shows "distinct (b @ take n a @ x # drop n a)" and "set (b @ take n a @ x # drop n a) = set (b @ x # a)"
proof -
  obtain t d where "take n a = t" "drop n a = d" and a: "a = t @ d" by (metis append_take_drop_id)
  then show "distinct (b @ take n a @ x # drop n a)" "set (b @ take n a @ x # drop n a) = set (b @ x # a)"
    using assms by auto
qed

text \<open>An entry that is waited for is kept from expiring.\<close>

lemma arp_refresh_result:
  assumes "arp_inv t" and "at_get t ip = Some ae"
  shows "\<exists>l t'. arp_refresh now ip ae t = Some (ae\<lparr> ae_live_at := l \<rparr>, t') \<and> arp_inv t' \<and> same_config t t' \<and>
    at_get t' = (at_get t)(ip \<mapsto> ae\<lparr> ae_live_at := l \<rparr>) \<and> at_entry_count t' = at_entry_count t \<and>
    at_packet_count t' = at_packet_count t \<and> \<not> arp_expired now (at_timeout t) (ae\<lparr> ae_live_at := l \<rparr>)"
proof (cases "at_timeout t \<noteq> 0 \<and> click_jiffies_less (ae_live_at ae) (now - at_timeout t)")
  case True
  let ?before = "takeWhile (\<lambda>x. x \<noteq> ip) (at_age t)" and ?after = "tl (dropWhile (\<lambda>x. x \<noteq> ip) (at_age t))"
  have ip: "ip \<in> set (at_age t)" and d: "distinct (at_age t)" "set (at_age t) = dom (at_get t)"
    using assms by (auto simp: arp_inv_off_def)
  have split: "at_age t = ?before @ ip # ?after"
    by (rule split_at [OF ip])
  then have "set ?after \<subseteq> dom (at_get t)" using d(2) by (metis set_append set_subset_Cons sup.coboundedI2)
  then obtain n where n: "age_skip t (now - at_timeout t) ?after = Some n" using age_skip_total by blast
  let ?a = "?before @ take n ?after @ ip # drop n ?after"
  let ?ae = "ae\<lparr> ae_live_at := now - at_timeout t \<rparr>"
  have a: "distinct ?a" "set ?a = set (at_age t)"
    using move_back [of ?before ip ?after n] d(1) split by simp_all
  have inv: "arp_inv (t\<lparr> at_age := ?a \<rparr>)" "at_get (t\<lparr> at_age := ?a \<rparr>) ip = Some ae"
    using arp_inv_age [OF assms(1) a] assms(2) by simp_all
  have c: "hcn_inv ip_hashcode (at_table (t\<lparr> at_age := ?a \<rparr>))" using inv(1) by (simp add: arp_inv_off_def)
  have "entry_ok ae" using assms by (simp add: arp_inv_off_def)
  then have "arp_inv (at_put ip ?ae (t\<lparr> at_age := ?a \<rparr>))"
    by (intro arp_inv_put [OF inv]) (simp_all add: entry_ok_def)
  moreover have "arp_refresh now ip ae t = Some (?ae, at_put ip ?ae (t\<lparr> at_age := ?a \<rparr>))"
    using True n by (simp add: arp_refresh_def Let_def)
  moreover have "\<not> arp_expired now (at_timeout t) ?ae" by (simp add: arp_expired_def click_jiffies_less_def)
  ultimately show ?thesis
    by (intro exI [of _ "now - at_timeout t"] exI [of _ "at_put ip ?ae (t\<lparr> at_age := ?a \<rparr>)"])
       (simp add: at_get_put [OF c] same_config_def)
next
  case False
  then have "\<not> arp_expired now (at_timeout t) ae"
    by (auto simp: arp_expired_def click_jiffies_less_def algebra_simps)
  then show ?thesis
    using assms False by (intro exI [of _ "ae_live_at ae"] exI [of _ t]) (auto simp: arp_refresh_def Let_def fun_upd_idem)
qed

lemma slim_survives:
  assumes "entries_slimmed now t u" and "packets_slimmed u t'" and "\<not> over_capacity t"
    and "ip \<in> set (at_age t)" and "at_get t ip = Some ae" and "\<not> arp_expired now (at_timeout t) ae"
  shows "\<exists>ae'. at_get t' ip = Some ae' \<and> slimmed ae ae'"
proof -
  obtain n where n: "at_age u = drop n (at_age t)" "\<forall>ip \<in> set (take n (at_age t)). expired_in now t ip"
    using assms(1,3) unfolding entries_slimmed_def by blast
  have "ip \<notin> set (take n (at_age t))" using n(2) assms(5,6) by (auto simp: expired_in_def)
  moreover have "set (at_age t) = set (take n (at_age t)) \<union> set (drop n (at_age t))"
    by (metis append_take_drop_id set_append)
  ultimately have "ip \<in> set (at_age u)" using assms(4) n(1) by auto
  moreover have "at_get u = at_get t |` set (at_age u)" using assms(1) by (simp add: entries_slimmed_def)
  ultimately have "at_get u ip = Some ae" using assms(5) by (simp add: restrict_map_def)
  then have "rel_option slimmed (Some ae) (at_get t' ip)" using assms(2) by (metis packets_slimmed_def)
  then show ?thesis by (simp add: option_rel_Some1)
qed


text \<open>The end of \<^verbatim>\<open>append_query\<close>: the packet has been counted, and the entry is there.\<close>

lemma arp_append_end:
  fixes p :: packet and now :: u32
  assumes "arp_inv_off 0 1 v" and "at_get v ip = Some ae" and "alloc_ok e" and "arp_caps v"
    and "at_entry_packet_capacity v \<noteq> 0 \<longrightarrow> ae_count ae < at_entry_packet_capacity v"
  defines "ae1 \<equiv> ae\<lparr> ae_queue := ae_queue ae @ [p], ae_count := ae_count ae + 1 \<rparr>"
  defines "ae2 \<equiv> if arp_allow_poll now ae1 then arp_mark_poll now ae1 else ae1"
  shows "\<exists>t'. at_balance e (at_put ip ae2 v) = Some t' \<and> arp_inv t' \<and> arp_caps t' \<and> same_config v t' \<and>
    at_get t' = (at_get v)(ip \<mapsto> ae2)"
proof -
  have c: "hcn_inv ip_hashcode (at_table v)" and ok: "entry_ok ae" using assms(1,2) by (simp_all add: arp_inv_off_def)
  have "Suc (unat (ae_count ae)) \<le> unat (at_packet_count v)"
    using waiting_remove [OF arp_inv_finite [OF assms(1)] assms(2)] assms(1) ok
    by (simp add: arp_inv_off_def entry_ok_def)
  moreover have "unat (at_packet_count v) < 2 ^ 32" by simp
  ultimately have "unat (ae_count ae) < 2 ^ 32 - 1" by linarith
  then have cnt: "unat (ae_count ae + 1) = Suc (unat (ae_count ae))" by (rule unat_u32_Suc)
  have q: "ae_queue ae2 = ae_queue ae @ [p]" "ae_count ae2 = ae_count ae + 1"
    by (simp_all add: ae2_def ae1_def arp_mark_poll_def)
  have "entry_ok ae2" using ok cnt by (simp add: ae2_def ae1_def arp_mark_poll_def entry_ok_def)
  then have "arp_inv ((at_put ip ae2 v)\<lparr> at_packet_count := at_packet_count v \<rparr>)"
    by (rule arp_inv_update [OF assms(1,2)]) (simp add: q)
  then have "arp_inv (at_put ip ae2 v)" by (simp add: arp_inv_off_def)
  then obtain t' where t': "at_balance e (at_put ip ae2 v) = Some t'" "arp_inv t'" "same_config (at_put ip ae2 v) t'"
    "at_get t' = at_get (at_put ip ae2 v)" "at_entry_count t' = at_entry_count v" "at_packet_count t' = at_packet_count v"
    using at_balance_result [OF _ assms(3)] by (metis at_put_fields(2,3))
  have get: "at_get t' = (at_get v)(ip \<mapsto> ae2)" using t'(4) by (simp add: at_get_put [OF c])
  have "at_entry_packet_capacity v \<noteq> 0 \<Longrightarrow> ae_count ae2 \<le> at_entry_packet_capacity v"
    using assms(5) cnt q(2) by (simp add: word_le_nat_alt word_less_nat_alt)
  then have "arp_caps t'"
    using assms(4) t'(3,5,6) by (auto simp: arp_caps_def get same_config_def split: if_splits)
  then show ?thesis using t' get by (simp add: same_config_def)
qed


text \<open>The packets that wait for an address, and whether the address is known.\<close>

definition queued :: "arptable \<Rightarrow> ipaddr \<Rightarrow> packet list" where
  "queued t ip = (case at_get t ip of None \<Rightarrow> [] | Some ae \<Rightarrow> ae_queue ae)"

definition known_in :: "u32 \<Rightarrow> arptable \<Rightarrow> ipaddr \<Rightarrow> bool" where
  "known_in now t ip \<longleftrightarrow> (\<exists>ae. at_get t ip = Some ae \<and> arp_known now (at_timeout t) ae)"

text \<open>Whether a query may go out: the last one was sent at least a tenth of a second ago, or two seconds after ten
  queries without an answer.\<close>

definition poll_due :: "u32 \<Rightarrow> arptable \<Rightarrow> ipaddr \<Rightarrow> bool" where
  "poll_due now t ip = (case at_get t ip of None \<Rightarrow> True | Some ae \<Rightarrow> arp_allow_poll now ae)"

text \<open>When the last query for an address was sent.\<close>

definition last_query :: "arptable \<Rightarrow> ipaddr \<Rightarrow> u32 option" where
  "last_query t ip = map_option ae_polled_at (at_get t ip)"

lemma arp_allow_poll_cong:
  "ae_polled_at ae = ae_polled_at ae' \<Longrightarrow> ae_polls ae = ae_polls ae' \<Longrightarrow> arp_allow_poll now ae = arp_allow_poll now ae'"
  by (simp add: arp_allow_poll_def)

lemma arp_allow_poll_new: "arp_allow_poll now (arp_new_entry now)"
  by (simp add: arp_allow_poll_def arp_new_entry_def click_jiffies_less_def CLICK_HZ_def)

lemma arp_new_unknown: "\<not> arp_known now timeout (arp_new_entry now')"
  by (simp add: arp_known_def arp_new_entry_def)

text \<open>The part of \<^verbatim>\<open>append_query\<close> behind the test of the entry's own limit.\<close>

lemma arp_append_counted:
  assumes "arp_inv u" and "arp_caps u" and "unat (at_packet_count u) < 2 ^ 32 - 1" and "alloc_ok e"
    and "at_get u ip = Some ae" and "\<not> arp_expired now (at_timeout u) ae"
    and "at_entry_packet_capacity u \<noteq> 0 \<longrightarrow> ae_count ae < at_entry_packet_capacity u"
  shows "\<exists>v ae' k. (if at_packet_capacity u \<noteq> 0 \<and> at_packet_count u + 1 > at_packet_capacity u
       then arp_slim now (u\<lparr> at_packet_count := at_packet_count u + 1 \<rparr>)
       else Some (u\<lparr> at_packet_count := at_packet_count u + 1 \<rparr>)) = Some v \<and> arp_inv_off 0 1 v \<and> arp_caps v \<and>
    same_config u v \<and> at_get v ip = Some ae' \<and> ae_queue ae' = drop k (ae_queue ae) \<and> ae_count ae' \<le> ae_count ae \<and>
    ae_polled_at ae' = ae_polled_at ae \<and> ae_polls ae' = ae_polls ae \<and>
    (at_packet_capacity u = 0 \<or> at_packet_count u < at_packet_capacity u \<longrightarrow> k = 0)"
proof -
  define u' where "u' = u\<lparr> at_packet_count := at_packet_count u + 1 \<rparr>"
  have cnt: "unat (at_packet_count u + 1) = Suc (unat (at_packet_count u))" using assms(3) by (rule unat_u32_Suc)
  have u': "arp_inv_off 0 1 u'" "same_config u u'" "at_get u' = at_get u" "at_age u' = at_age u"
    using assms(1) cnt by (simp_all add: u'_def arp_inv_off_def same_config_def)
  have pcap: "arp_caps (u'\<lparr> at_entry_count := at_entry_count u, at_packet_count := at_packet_count u \<rparr>)"
    using assms(2) by (auto simp: u'_def arp_caps_def)
  show ?thesis
  proof (cases "at_packet_capacity u \<noteq> 0 \<and> at_packet_count u + 1 > at_packet_capacity u")
    case True
    obtain w v where v: "arp_slim now u' = Some v" "arp_inv_off 0 1 v" "entries_slimmed now u' w" "packets_slimmed w v"
      "at_packet_capacity u' \<noteq> 0 \<longrightarrow> at_packet_count v \<le> at_packet_capacity u'"
      using arp_slim_result [OF u'(1), of now] by auto
    have "\<not> over_capacity u'" using assms(2) by (auto simp: over_capacity_def u'_def arp_caps_def)
    moreover have "ip \<in> set (at_age u')" using assms(1,5) u'(4) by (auto simp: arp_inv_off_def)
    ultimately obtain ae' where ae': "at_get v ip = Some ae'" "slimmed ae ae'"
      using slim_survives [OF v(3,4)] assms(5,6) u'(2,3) by (auto simp: same_config_def)
    have "entry_ok ae" using assms(1,5) by (simp add: arp_inv_off_def)
    then have "ae_count ae' \<le> ae_count ae" using slimmed_ok [OF ae'(2)] by simp
    moreover obtain k where "ae_queue ae' = drop k (ae_queue ae)" "ae_polled_at ae' = ae_polled_at ae" "ae_polls ae' = ae_polls ae"
      using ae'(2) by (auto simp: slimmed_def)
    moreover have "\<not> at_packet_count u < at_packet_capacity u"
      using True cnt by (simp add: word_less_nat_alt)
    ultimately show ?thesis
      using True v(1,2) ae'(1) slim_caps [OF pcap v(3-5) u'(1)] same_config_trans [OF u'(2)]
      unfolding u'_def [symmetric] by auto
  next
    case False
    then have "arp_caps u'" using assms(2) by (auto simp: arp_caps_def u'_def not_less)
    then show ?thesis
      using False u' assms(5) unfolding u'_def [symmetric] by (intro exI [of _ u'] exI [of _ ae] exI [of _ 0]) auto
  qed
qed


text \<open>Every way \<^verbatim>\<open>append_query\<close> can end, with memory available.\<close>

definition append_outcome :: "u32 \<Rightarrow> ipaddr \<Rightarrow> packet \<Rightarrow> arptable \<Rightarrow> int \<Rightarrow> arptable \<Rightarrow> bool" where
  "append_outcome now ip p t r t' \<longleftrightarrow>
     (if known_in now t ip then r = - EAGAIN \<and> t' = t
      else if at_entry_packet_capacity t \<noteq> 0 \<and> unat (at_entry_packet_capacity t) \<le> length (queued t ip)
      then r = - ENOMEM \<and> queued t' ip = queued t ip \<and> last_query t' ip = last_query t ip
      else r = (if poll_due now t ip then 1 else 0) \<and>
        last_query t' ip = (if poll_due now t ip then Some now else last_query t ip) \<and> (\<exists>k. queued t' ip = drop k (queued t ip) @ [p] \<and>
             (at_packet_capacity t = 0 \<or> at_packet_count t < at_packet_capacity t \<longrightarrow> k = 0)))"

lemma arp_append_known:
  assumes "known_in now t ip"
  shows "arp_append_query e now ip p t = Some (- EAGAIN, t)"
proof -
  obtain ae where "at_get t ip = Some ae" "arp_known now (at_timeout t) ae" using assms by (auto simp: known_in_def)
  then show ?thesis by (simp add: arp_append_query_def arp_ensure_def)
qed

lemma unat_ge_iff_queue: "entry_ok ae \<Longrightarrow> ae_count ae \<ge> c \<longleftrightarrow> unat c \<le> length (ae_queue ae)"
  by (simp add: entry_ok_def word_le_nat_alt)

text \<open>The entry is there, is not expired any more, and has its packets.\<close>

lemma arp_append_prepared:
  assumes "arp_inv t" and "arp_caps t" and "arp_room t" and "alloc_ok e" and "\<not> known_in now t ip"
  shows "\<exists>s old ae u. arp_ensure e ip now t = Some (True, s) \<and> at_get s ip = Some old \<and>
    \<not> arp_known now (at_timeout s) old \<and> arp_refresh now ip old s = Some (ae, u) \<and>
    arp_inv u \<and> arp_caps u \<and> same_config t u \<and> at_packet_count u \<le> at_packet_count t \<and> at_get u ip = Some ae \<and>
    entry_ok ae \<and> ae_queue ae = queued t ip \<and> \<not> arp_expired now (at_timeout u) ae \<and>
    arp_allow_poll now ae = poll_due now t ip \<and> (at_get t ip = None \<or> last_query t ip = Some (ae_polled_at ae))"
proof -
  obtain s old where s: "arp_ensure e ip now t = Some (True, s)" "arp_inv s" "arp_caps s" "same_config t s"
    "at_packet_count s \<le> at_packet_count t"
    "at_get s ip = Some old" "old = (case at_get t ip of None \<Rightarrow> arp_new_entry now | Some old \<Rightarrow> old)"
    using arp_ensure_result [OF assms(1-4), of ip now] by blast
  have nk: "\<not> arp_known now (at_timeout s) old"
    using assms(5) s(4,7) arp_new_unknown by (auto simp: known_in_def same_config_def split: option.splits)
  obtain l u where u: "arp_refresh now ip old s = Some (old\<lparr> ae_live_at := l \<rparr>, u)" "arp_inv u" "same_config s u"
    "at_get u = (at_get s)(ip \<mapsto> old\<lparr> ae_live_at := l \<rparr>)" "at_entry_count u = at_entry_count s"
    "at_packet_count u = at_packet_count s" "\<not> arp_expired now (at_timeout s) (old\<lparr> ae_live_at := l \<rparr>)"
    using arp_refresh_result [OF s(2,6), of now] by blast
  let ?ae = "old\<lparr> ae_live_at := l \<rparr>"
  have "arp_caps u" using s(3,6) u(3-6) by (auto simp: arp_caps_def same_config_def split: if_splits)
  moreover have "same_config t u" by (rule same_config_trans [OF s(4) u(3)])
  moreover have "at_get u ip = Some ?ae" by (simp add: u(4))
  moreover have "entry_ok ?ae" using s(2,6) by (simp add: arp_inv_off_def entry_ok_def)
  moreover have "ae_queue ?ae = queued t ip" using s(7) by (simp add: queued_def arp_new_entry_def split: option.split)
  moreover have "\<not> arp_expired now (at_timeout u) ?ae" using u(3,7) by (simp add: same_config_def)
  moreover have "arp_allow_poll now ?ae = poll_due now t ip"
    using s(7) arp_allow_poll_new arp_allow_poll_cong [of ?ae old now] by (simp add: poll_due_def split: option.splits)
  moreover have "at_get t ip = None \<or> last_query t ip = Some (ae_polled_at ?ae)"
    using s(7) by (auto simp: last_query_def split: option.splits)
  ultimately show ?thesis
    using s(1,5,6) nk u(1,2,6) by (intro exI [of _ s] exI [of _ old] exI [of _ ?ae] exI [of _ u] conjI) simp_all
qed

lemma poll_due_entry: "\<not> poll_due now t ip \<Longrightarrow> at_get t ip \<noteq> None" "queued t ip \<noteq> [] \<Longrightarrow> at_get t ip \<noteq> None"
  by (auto simp: poll_due_def queued_def split: option.splits)

lemma arp_append_query_result:
  assumes "arp_inv t" and "arp_caps t" and "arp_room t" and "alloc_ok e"
  shows "\<exists>r t'. arp_append_query e now ip p t = Some (r, t') \<and> arp_inv t' \<and> arp_caps t' \<and> same_config t t' \<and>
    append_outcome now ip p t r t'"
proof (cases "known_in now t ip")
  case True
  then show ?thesis using assms arp_append_known by (simp add: append_outcome_def)
next
  case unknown: False
  obtain s old ae u where s: "arp_ensure e ip now t = Some (True, s)" "at_get s ip = Some old"
    "\<not> arp_known now (at_timeout s) old" "arp_refresh now ip old s = Some (ae, u)"
    and u: "arp_inv u" "arp_caps u" "same_config t u" "at_packet_count u \<le> at_packet_count t" "at_get u ip = Some ae"
      "entry_ok ae" "ae_queue ae = queued t ip" "\<not> arp_expired now (at_timeout u) ae" "arp_allow_poll now ae = poll_due now t ip"
      "at_get t ip = None \<or> last_query t ip = Some (ae_polled_at ae)"
    using arp_append_prepared [OF assms unknown] by blast
  have cap: "at_entry_packet_capacity u = at_entry_packet_capacity t" "at_packet_capacity u = at_packet_capacity t"
    using u(3) by (simp_all add: same_config_def)
  show ?thesis
  proof (cases "at_entry_packet_capacity t \<noteq> 0 \<and> unat (at_entry_packet_capacity t) \<le> length (queued t ip)")
    case True
    let ?u = "u\<lparr> at_drops := at_drops u + 1 \<rparr>"
    have "arp_append_query e now ip p t = Some (- ENOMEM, ?u)"
      using s True u(6,7) cap by (simp add: arp_append_query_def arp_enqueue_def unat_ge_iff_queue)
    moreover have "queued ?u ip = queued t ip" using u(5) by (subst queued_def) (simp add: u(7))
    moreover have "arp_caps ?u" using u(2) by (auto simp: arp_caps_def)
    moreover have "arp_inv ?u" "same_config t ?u" using u(1,3) by (simp_all add: same_config_def)
    moreover have "0 < length (queued t ip)"
      using True unat_gt_0 [of "at_entry_packet_capacity t"] by linarith
    then have "last_query ?u ip = last_query t ip"
      using u(5,10) poll_due_entry(2) [of t ip] by (auto simp: last_query_def [of ?u])
    ultimately show ?thesis
      using unknown True unfolding append_outcome_def by (intro exI [of _ "- ENOMEM"] exI [of _ ?u] conjI) simp_all
  next
    case False
    then have lt: "at_entry_packet_capacity u \<noteq> 0 \<longrightarrow> ae_count ae < at_entry_packet_capacity u"
      using u(6,7) cap(1) by (auto simp: not_le [symmetric] unat_ge_iff_queue)
    have room: "unat (at_packet_count u) < 2 ^ 32 - 1"
      using u(4) assms(3) by (simp add: arp_room_def word_le_nat_alt)
    obtain v ae' k where v: "(if at_packet_capacity u \<noteq> 0 \<and> at_packet_count u + 1 > at_packet_capacity u
        then arp_slim now (u\<lparr> at_packet_count := at_packet_count u + 1 \<rparr>)
        else Some (u\<lparr> at_packet_count := at_packet_count u + 1 \<rparr>)) = Some v" "arp_inv_off 0 1 v" "arp_caps v" "same_config u v"
      "at_get v ip = Some ae'" "ae_queue ae' = drop k (ae_queue ae)" "ae_count ae' \<le> ae_count ae"
      "ae_polled_at ae' = ae_polled_at ae" "ae_polls ae' = ae_polls ae" "at_packet_capacity u = 0 \<or> at_packet_count u < at_packet_capacity u \<longrightarrow> k = 0"
      using arp_append_counted [OF u(1,2) room assms(4) u(5,8) lt] by blast
    define ae1 where "ae1 = ae'\<lparr> ae_queue := ae_queue ae' @ [p], ae_count := ae_count ae' + 1 \<rparr>"
    define ae2 where "ae2 = (if arp_allow_poll now ae1 then arp_mark_poll now ae1 else ae1)"
    have "at_entry_packet_capacity v \<noteq> 0 \<longrightarrow> ae_count ae' < at_entry_packet_capacity v"
      using lt v(4,7) by (auto simp: same_config_def)
    then obtain t' where t': "at_balance e (at_put ip ae2 v) = Some t'" "arp_inv t'" "arp_caps t'" "same_config v t'"
      "at_get t' = (at_get v)(ip \<mapsto> ae2)"
      using arp_append_end [OF v(2,5) assms(4) v(3)] unfolding ae1_def ae2_def by blast
    have "arp_append_query e now ip p t = Some (if arp_allow_poll now ae1 then 1 else 0, t')"
      using s v(1,5) t'(1) lt [unfolded not_le [symmetric]]
      by (cases "at_entry_packet_capacity u = 0"; cases "arp_allow_poll now ae1")
         (simp_all add: arp_append_query_def arp_enqueue_def Let_def ae2_def flip: ae1_def)
    moreover have "same_config t t'" using u(3) v(4) t'(4) by (blast intro: same_config_trans)
    moreover have "queued t' ip = drop k (queued t ip) @ [p]"
      using t'(5) v(6) u(7) by (simp add: queued_def [of t'] ae2_def ae1_def arp_mark_poll_def)
    moreover have "at_packet_capacity t = 0 \<or> at_packet_count t < at_packet_capacity t \<longrightarrow> k = 0"
      using v(10) u(4) cap(2) by auto
    moreover have poll: "arp_allow_poll now ae1 = poll_due now t ip"
      using u(9) v(8,9) arp_allow_poll_cong [of ae1 ae now] by (simp add: ae1_def)
    moreover have "last_query t' ip = (if poll_due now t ip then Some now else last_query t ip)"
      using t'(5) poll u(10) v(8) poll_due_entry(1) [of now t ip]
      by (auto simp: last_query_def [of t'] ae2_def ae1_def arp_mark_poll_def)
    ultimately show ?thesis
      using unknown False t'(2,3) unfolding append_outcome_def
      by (intro exI [of _ "if arp_allow_poll now ae1 then 1 else 0"] exI [of _ t'] conjI) auto
  qed
qed

text \<open>A packet for an address that has an entry adds no entry, and at most one packet.\<close>

definition no_larger :: "arptable \<Rightarrow> arptable \<Rightarrow> bool" where
  "no_larger t t' \<longleftrightarrow> at_entry_count t' \<le> at_entry_count t \<and> unat (at_packet_count t') \<le> Suc (unat (at_packet_count t))"

lemma arp_slim_smaller:
  assumes "arp_inv_off 0 1 t" and "arp_slim now t = Some t'"
  shows "at_entry_count t' \<le> at_entry_count t" and "at_packet_capacity t \<noteq> 0 \<Longrightarrow> at_packet_count t' \<le> at_packet_capacity t"
proof -
  obtain u where u: "arp_inv_off 0 1 t'" "entries_slimmed now t u" "packets_slimmed u t'"
    "at_packet_capacity t \<noteq> 0 \<longrightarrow> at_packet_count t' \<le> at_packet_capacity t"
    using arp_slim_result [OF assms(1), of now] assms(2) by auto
  then have "length (at_age t') \<le> length (at_age t)" by (auto simp: entries_slimmed_def packets_slimmed_def)
  then show "at_entry_count t' \<le> at_entry_count t" using assms(1) u(1) by (simp add: arp_inv_off_def word_le_nat_alt)
  show "at_packet_capacity t \<noteq> 0 \<Longrightarrow> at_packet_count t' \<le> at_packet_capacity t" using u(4) by simp
qed

lemma at_balance_counts:
  "at_balance e t = Some t' \<Longrightarrow> at_entry_count t' = at_entry_count t \<and> at_packet_count t' = at_packet_count t"
  by (auto simp: at_balance_def split: Option.bind_splits)

lemma arp_append_smaller:
  assumes "arp_inv t" and "arp_room t" and "at_get t ip = Some old" and "arp_append_query e now ip p t = Some (r, t')"
  shows "no_larger t t'"
proof (cases "arp_known now (at_timeout t) old")
  case True
  then show ?thesis using assms(3,4) by (simp add: arp_append_query_def arp_ensure_def no_larger_def)
next
  case False
  obtain l u where u: "arp_refresh now ip old t = Some (old\<lparr> ae_live_at := l \<rparr>, u)" "arp_inv u"
    "at_entry_count u = at_entry_count t" "at_packet_count u = at_packet_count t"
    using arp_refresh_result [OF assms(1,3), of now] by blast
  then have enq: "arp_enqueue e now ip p (old\<lparr> ae_live_at := l \<rparr>) u = Some (r, t')"
    using assms(3,4) False by (simp add: arp_append_query_def arp_ensure_def)
  let ?w = "u\<lparr> at_packet_count := at_packet_count u + 1 \<rparr>"
  have cnt: "unat (at_packet_count u + 1) = Suc (unat (at_packet_count t))"
    using assms(2) u(4) by (simp add: arp_room_def unat_u32_Suc)
  then have w: "arp_inv_off 0 1 ?w" using u(2,4) by (simp add: arp_inv_off_def)
  have "no_larger t v" if "(if at_packet_capacity ?w \<noteq> 0 \<and> at_packet_count ?w > at_packet_capacity ?w
      then arp_slim now ?w else Some ?w) = Some v" for v
    using that arp_slim_smaller [OF w, of now v] u(3,4) cnt
    by (auto simp: no_larger_def word_le_nat_alt word_less_nat_alt split: if_splits)
  then show ?thesis
    using enq u(3,4) at_balance_counts
    by (fastforce simp: arp_enqueue_def Let_def no_larger_def at_put_def split: Option.bind_splits if_splits)
qed

lemma arp_lookup_inv:
  assumes "arp_inv t" and "arp_caps t"
  shows "arp_inv (snd (snd (arp_lookup now ip poll t)))" and "arp_caps (snd (snd (arp_lookup now ip poll t)))"
    and "same_config t (snd (snd (arp_lookup now ip poll t)))"
    and "at_packet_count (snd (snd (arp_lookup now ip poll t))) = at_packet_count t"
    and "at_entry_count (snd (snd (arp_lookup now ip poll t))) = at_entry_count t"
    and "queued (snd (snd (arp_lookup now ip poll t))) = queued t"
proof -
  have c: "hcn_inv ip_hashcode (at_table t)" using assms(1) by (simp add: arp_inv_off_def)
  have *: "arp_inv (at_put ip (arp_mark_poll now ae) t) \<and> arp_caps (at_put ip (arp_mark_poll now ae) t) \<and>
      same_config t (at_put ip (arp_mark_poll now ae) t) \<and> queued (at_put ip (arp_mark_poll now ae) t) = queued t"
    if ae: "at_get t ip = Some ae" for ae
  proof -
    have "entry_ok (arp_mark_poll now ae)" using assms(1) ae by (simp add: arp_inv_off_def arp_mark_poll_def entry_ok_def)
    then have "arp_inv (at_put ip (arp_mark_poll now ae) t)"
      by (rule arp_inv_put [OF assms(1) ae]) (simp add: arp_mark_poll_def)
    moreover have "arp_caps (at_put ip (arp_mark_poll now ae) t)"
      using assms(2) ae by (auto simp: arp_caps_def at_get_put [OF c] arp_mark_poll_def)
    ultimately show ?thesis
      using ae by (simp add: same_config_def fun_eq_iff queued_def at_get_put [OF c] arp_mark_poll_def)
  qed
  show "arp_inv (snd (snd (arp_lookup now ip poll t)))" "arp_caps (snd (snd (arp_lookup now ip poll t)))"
    "same_config t (snd (snd (arp_lookup now ip poll t)))"
    "at_packet_count (snd (snd (arp_lookup now ip poll t))) = at_packet_count t"
    "at_entry_count (snd (snd (arp_lookup now ip poll t))) = at_entry_count t"
    "queued (snd (snd (arp_lookup now ip poll t))) = queued t"
    using assms * by (auto simp: arp_lookup_def split: option.split)
qed

lemma arp_lookup_known:
  assumes "at_get t ip = Some ae"
  shows "arp_known now (at_timeout t) ae \<Longrightarrow> fst (arp_lookup now ip poll t) \<in> {0, 1} \<and>
      fst (snd (arp_lookup now ip poll t)) = Some (ae_eth ae)"
    and "\<not> arp_known now (at_timeout t) ae \<Longrightarrow> arp_lookup now ip poll t = (- 1, None, t)"
  using assms by (auto simp: arp_lookup_def)

lemma arptable_run_timer_inv:
  assumes "arp_inv t" and "arp_caps t"
  shows "\<exists>t'. arptable_run_timer now t = Some t' \<and> arp_inv t' \<and> arp_caps t' \<and> same_config t t' \<and>
    (at_age t' \<noteq> [] \<longrightarrow> \<not> expired_in now t (hd (at_age t')))"
proof -
  obtain u v where v: "arp_slim now t = Some v" "arp_inv v" "entries_slimmed now t u" "packets_slimmed u v"
    "at_packet_capacity t \<noteq> 0 \<longrightarrow> at_packet_count v \<le> at_packet_capacity t"
    using arp_slim_result [OF assms(1), of now] by auto
  have "arp_caps (t\<lparr> at_entry_count := at_entry_count t, at_packet_count := at_packet_count t \<rparr>)" using assms(2) by simp
  then have c: "arp_caps v" "same_config t v" using slim_caps [OF _ v(3-5) assms(1)] by blast+
  have "at_age v = at_age u" using v(4) by (simp add: packets_slimmed_def)
  then have h: "at_age v \<noteq> [] \<longrightarrow> \<not> expired_in now t (hd (at_age v))" using v(3) by (simp add: entries_slimmed_def)
  have "arp_inv (v\<lparr> at_expire_timer := x \<rparr>)" "arp_caps (v\<lparr> at_expire_timer := x \<rparr>)" "same_config t (v\<lparr> at_expire_timer := x \<rparr>)" for x
    using v(2) c by (auto simp: arp_inv_off_def arp_caps_def same_config_def)
  then show ?thesis using v(1,2) c h by (simp add: arptable_run_timer_def)
qed

text \<open>\<^verbatim>\<open>clear\<close> leaves an empty table.\<close>

lemma arp_clear_empty:
  assumes "arp_inv t"
  shows "at_get (arp_clear t) = Map.empty" and "arp_inv (arp_clear t)" and "arp_caps (arp_clear t)"
    and "same_config t (arp_clear t)"
proof -
  define step where "step = (\<lambda>(ip, ae :: arpentry) (t :: arptable). t\<lparr> at_table := hcn_erase ip_hashcode ip (at_table t),
                                    at_drops := at_drops t + of_nat (length (ae_queue ae)) \<rparr>)"
  have fold: "hcn_inv ip_hashcode (at_table (fold step xs u)) \<and> same_config u (fold step xs u) \<and>
      (\<forall>ip. at_get (fold step xs u) ip = (if ip \<in> fst ` set xs then None else at_get u ip))"
    if "hcn_inv ip_hashcode (at_table u)" for xs u
    using that
  proof (induction xs arbitrary: u)
    case (Cons x xs)
    have s: "hcn_inv ip_hashcode (at_table (step x u))" "at_get (step x u) = (at_get u)(fst x := None)" "same_config u (step x u)"
      using Cons.prems hcn.inv_erase [OF Cons.prems, of "fst x"] at_get_erase [OF Cons.prems, of "fst x"]
      by (simp_all add: step_def split_beta same_config_def fun_eq_iff at_get_def)
    show ?case using Cons.IH [OF s(1)] s(2,3) by (auto dest: same_config_trans)
  qed simp
  have c: "hcn_inv ip_hashcode (at_table t)" using assms by (simp add: arp_inv_off_def)
  let ?u = "fold step (hcn_elements (at_table t)) t"
  have all: "at_get t ip = None" if "ip \<notin> fst ` set (hcn_elements (at_table t))" for ip
    using that hcn_elements_find(1) [OF c, of ip] by (metis at_get_def fst_conv image_eqI not_None_eq)
  then have get: "at_get ?u = Map.empty" using fold [OF c] by (auto simp: fun_eq_iff)
  have eq: "arp_clear t = ?u\<lparr> at_entry_count := 0, at_packet_count := 0, at_age := [] \<rparr>"
    by (simp add: arp_clear_def step_def Let_def)
  show "at_get (arp_clear t) = Map.empty" "arp_inv (arp_clear t)" "arp_caps (arp_clear t)" "same_config t (arp_clear t)"
    using fold [OF c, of "hcn_elements (at_table t)"] get assms
    by (simp_all add: eq arp_inv_off_def waiting_def arp_caps_def same_config_def)
qed


section \<open>Reachable tables\<close>

text \<open>A call that finds no memory for a new entry changes nothing, and any other call that
  succeeds without memory does what it does with memory.\<close>

lemma arp_ensure_mem:
  "arp_ensure e ip now t = Some (ok, t') \<Longrightarrow>
    \<not> ok \<and> t' = t \<or> ok \<and> arp_ensure (e\<lparr> alloc_ok := True \<rparr>) ip now t = Some (True, t')"
  by (auto simp: arp_ensure_def Let_def split: option.splits if_splits Option.bind_splits)

lemma at_balance_mem: "at_balance e t = Some t' \<Longrightarrow> at_balance (e\<lparr> alloc_ok := True \<rparr>) t = Some t'"
  by (auto simp: at_balance_def hcn_balance_def hcn_rehash_def Let_def split: if_splits Option.bind_splits)

lemma bind_weaken:
  "Option.bind m f = Some x \<Longrightarrow> (\<And>y. f y = Some x \<Longrightarrow> g y = Some x) \<Longrightarrow> Option.bind m g = Some x"
  by (cases m) simp_all

lemma at_balance_bind_mem:
  "Option.bind (at_balance e t) f = Some x \<Longrightarrow> Option.bind (at_balance (e\<lparr> alloc_ok := True \<rparr>) t) f = Some x"
  using at_balance_mem [of e t] by (cases "at_balance e t") simp_all

lemma arp_insert_mem:
  assumes "arp_insert e now ip eth w t = Some x"
  shows "x = (- ENOMEM, [], t) \<or> arp_insert (e\<lparr> alloc_ok := True \<rparr>) now ip eth w t = Some x"
proof -
  obtain ok u where u: "arp_ensure e ip now t = Some (ok, u)"
    using assms by (auto simp: arp_insert_def split: Option.bind_splits)
  show ?thesis
  proof (cases ok)
    case True
    then have e: "arp_ensure (e\<lparr> alloc_ok := True \<rparr>) ip now t = Some (True, u)" using arp_ensure_mem [OF u] by simp
    from True have "ok = True" by simp
    from assms show ?thesis
      unfolding arp_insert_def u e \<open>ok = True\<close> Option.bind.bind_lunit split_conv Let_def not_True_eq_False if_False
      by (intro disjI2) (elim bind_weaken at_balance_bind_mem)
  next
    case False
    then show ?thesis using arp_ensure_mem [OF u] assms u by (simp add: arp_insert_def)
  qed
qed

lemma arp_enqueue_mem:
  assumes "arp_enqueue e now ip p ae t = Some x"
  shows "arp_enqueue (e\<lparr> alloc_ok := True \<rparr>) now ip p ae t = Some x"
proof (cases "at_entry_packet_capacity t \<noteq> 0 \<and> ae_count ae \<ge> at_entry_packet_capacity t")
  case True
  from assms show ?thesis unfolding arp_enqueue_def if_P [OF True] .
next
  case False
  from assms show ?thesis
    unfolding arp_enqueue_def Let_def if_not_P [OF False] by (elim bind_weaken at_balance_bind_mem)
qed

lemma arp_append_mem:
  assumes "arp_append_query e now ip p t = Some x"
  shows "x = (- ENOMEM, t) \<or> arp_append_query (e\<lparr> alloc_ok := True \<rparr>) now ip p t = Some x"
proof -
  obtain ok u where u: "arp_ensure e ip now t = Some (ok, u)"
    using assms by (auto simp: arp_append_query_def split: Option.bind_splits)
  show ?thesis
  proof (cases ok)
    case True
    then have "arp_ensure (e\<lparr> alloc_ok := True \<rparr>) ip now t = Some (True, u)" using arp_ensure_mem [OF u] by simp
    moreover have "Option.bind (at_get u ip) (\<lambda>ae. if arp_known now (at_timeout u) ae then Some (- EAGAIN, u)
        else Option.bind (arp_refresh now ip ae u) (\<lambda>(ae, t). arp_enqueue e now ip p ae t)) = Some x"
      using assms u True by (simp add: arp_append_query_def)
    then have "Option.bind (at_get u ip) (\<lambda>ae. if arp_known now (at_timeout u) ae then Some (- EAGAIN, u)
        else Option.bind (arp_refresh now ip ae u) (\<lambda>(ae, t). arp_enqueue (e\<lparr> alloc_ok := True \<rparr>) now ip p ae t)) = Some x"
      by (rule bind_weaken) (auto split: if_splits elim!: bind_weaken dest: arp_enqueue_mem)
    ultimately show ?thesis by (simp add: arp_append_query_def)
  next
    case False
    then show ?thesis using arp_ensure_mem [OF u] assms u by (simp add: arp_append_query_def)
  qed
qed

text \<open>What the router does with a table: the querier's calls, the handlers and the timer, in any order.\<close>

inductive arp_step :: "arptable \<Rightarrow> arptable \<Rightarrow> bool" where
  insert: "arp_room t \<Longrightarrow> length eth = 6 \<Longrightarrow> arp_insert e now ip eth w t = Some (r, ps, t') \<Longrightarrow> arp_step t t'"
| append: "arp_room t \<Longrightarrow> arp_append_query e now ip p t = Some (r, t') \<Longrightarrow> arp_step t t'"
| lookup: "arp_lookup now ip poll t = (r, eth, t') \<Longrightarrow> arp_step t t'"
| timer: "arptable_run_timer now t = Some t' \<Longrightarrow> arp_step t t'"
| clear: "arp_step t (arp_clear t)"

lemma arp_step_inv:
  assumes "arp_step t t'" and "arp_inv t \<and> arp_caps t"
  shows "arp_inv t' \<and> arp_caps t'"
  using assms
proof (cases rule: arp_step.cases)
  case (insert eth e now ip w r ps)
  have "arp_insert (e\<lparr> alloc_ok := True \<rparr>) now ip eth w t = Some (r, ps, t') \<Longrightarrow> ?thesis"
    using arp_insert_result [of t "e\<lparr> alloc_ok := True \<rparr>" eth now ip w] insert(1,2) assms(2) by auto
  then show ?thesis using arp_insert_mem [OF insert(3)] assms(2) by auto
next
  case (append e now ip p r)
  have "arp_append_query (e\<lparr> alloc_ok := True \<rparr>) now ip p t = Some (r, t') \<Longrightarrow> ?thesis"
    using arp_append_query_result [of t "e\<lparr> alloc_ok := True \<rparr>" now ip p] append(1) assms(2) by auto
  then show ?thesis using arp_append_mem [OF append(2)] assms(2) by auto
next
  case (lookup now ip poll r eth)
  then show ?thesis using arp_lookup_inv [of t now ip poll] assms(2) by simp
next
  case (timer now)
  then show ?thesis using arptable_run_timer_inv [of t now] assms(2) by auto
next
  case clear
  then show ?thesis using arp_clear_empty assms(2) by simp
qed

lemma arptable_configure_inv:
  assumes "arptable_configure conf (arptable_new tj) = (0, t)"
  shows "arp_inv t \<and> arp_caps t"
proof -
  have t: "at_table t = hcn_empty" "at_age t = []" "at_entry_count t = 0" "at_packet_count t = 0"
    "at_capacity_slim_factor t \<noteq> 0"
    using assms
    by (cases conf; auto simp: arptable_configure_def arptable_new_def at_set_timeout_def Let_def split: if_splits)+
  then have "at_get t = Map.empty" by (simp add: fun_eq_iff at_get_def hcn_find_empty)
  then show ?thesis using t by (simp add: arp_inv_off_def arp_caps_def waiting_def hcn_inv_empty)
qed

lemma arp_reachable_inv:
  assumes "arp_step\<^sup>*\<^sup>* t t'" and "arp_inv t \<and> arp_caps t"
  shows "arp_inv t' \<and> arp_caps t'"
  using assms by (induction rule: rtranclp_induct) (auto dest: arp_step_inv)


section \<open>Theorems\<close>

text \<open>C25: In every state that an \<^verbatim>\<open>ARPTable\<close> reaches after a successful configuration, by any sequence of
  insertions, queries, lookups, timer events and \<^verbatim>\<open>clear\<close> calls, with or without memory, at any times: the hash
  table and the age list hold the same entries, every counter is right, an address that is marked known is not
  the broadcast address, and the configured limits on entries and packets are kept. (Up to
  $2^{32} - 2$ entries and packets, so that the counters do not wrap around.)\<close>

theorem arp_reachable_consistent:
  assumes "arptable_configure conf (arptable_new tj) = (0, t0)" and "arp_step\<^sup>*\<^sup>* t0 t"
  shows "arp_inv t \<and> arp_caps t"
  by (rule arp_reachable_inv [OF assms(2) arptable_configure_inv [OF assms(1)]])

text \<open>With memory available, \<^verbatim>\<open>append_query\<close> always returns, never following a pointer to a deleted entry
  or running off the age list, and keeps the table consistent and within its limits. When the address
  is known it reports \<^verbatim>\<open>-EAGAIN\<close> and changes nothing; when the entry's own limit is reached it reports
  \<^verbatim>\<open>-ENOMEM\<close> and keeps the packets that wait; otherwise the packet becomes the last one that waits
  for the address, and packets in front of it are lost only when the table was full. It asks for a query exactly when
  the last one is long enough ago, and then, and only then, notes the time.\<close>

theorem arp_append_query_spec:
  assumes "arp_inv t" and "arp_caps t" and "arp_room t" and "alloc_ok e"
  shows "\<exists>r t'. arp_append_query e now ip p t = Some (r, t') \<and> arp_inv t' \<and> arp_caps t' \<and> same_config t t' \<and>
    (if known_in now t ip then r = - EAGAIN \<and> t' = t
     else if at_entry_packet_capacity t \<noteq> 0 \<and> unat (at_entry_packet_capacity t) \<le> length (queued t ip)
     then r = - ENOMEM \<and> queued t' ip = queued t ip \<and> last_query t' ip = last_query t ip
     else r = (if poll_due now t ip then 1 else 0) \<and>
       last_query t' ip = (if poll_due now t ip then Some now else last_query t ip) \<and> (\<exists>k. queued t' ip = drop k (queued t ip) @ [p] \<and>
            (at_packet_capacity t = 0 \<or> at_packet_count t < at_packet_capacity t \<longrightarrow> k = 0)))"
  using arp_append_query_result [OF assms, of now ip p] unfolding append_outcome_def .

text \<open>An address that \<^verbatim>\<open>insert\<close> has entered is found by \<^verbatim>\<open>lookup\<close> until the timeout has passed and not
  afterwards, whatever the entry was before, and the packets that were waiting for it are handed over in the
  order of their arrival.\<close>

theorem arp_insert_lookup:
  assumes "arp_inv t" and "arp_caps t" and "arp_room t" and "alloc_ok e" and "length eth = 6" and "\<not> ether_is_broadcast eth"
  shows "\<exists>t'. arp_insert e now ip eth True t = Some (0, queued t ip, t') \<and> queued t' ip = [] \<and>
    (let found = arp_lookup later ip poll t'
     in if at_timeout t \<noteq> 0 \<and> click_jiffies_less (now + at_timeout t) later
        then fst found = - 1 \<and> fst (snd found) = None
        else fst found \<in> {0, 1} \<and> fst (snd found) = Some eth)"
proof -
  obtain t' ae where t': "arp_insert e now ip eth True t = Some (0, queued t ip, t')" "same_config t t'"
    "at_get t' ip = Some ae" "ae_eth ae = eth" "ae_known ae" "ae_live_at ae = now" "ae_queue ae = []"
    using arp_insert_result [OF assms(1-5), of now ip True] assms(6)
    by (auto simp: queued_def split: option.splits)
  have "arp_known later (at_timeout t') ae \<longleftrightarrow> \<not> (at_timeout t \<noteq> 0 \<and> click_jiffies_less (now + at_timeout t) later)"
    using t'(2,5,6) by (auto simp: arp_known_def arp_expired_def same_config_def)
  then show ?thesis
    using t'(1,3,4,7) arp_lookup_known [OF t'(3), of later poll] by (auto simp: Let_def queued_def)
qed

text \<open>When the limit on the entries has been lowered while the router runs (\<^verbatim>\<open>live_reconfigure\<close> of the querier calls
  \<^verbatim>\<open>set_entry_capacity\<close>, which removes nothing), a query for the oldest entry that makes the table drop packets deletes
  this very entry and then writes to it: the call has no result.\<close>

theorem arp_append_use_after_free:
  assumes "arp_inv t" and "over_capacity t" and "at_age t \<noteq> []" and "\<not> known_in now t (hd (at_age t))" and "at_timeout t = 0"
    and "at_entry_packet_capacity t = 0" and "at_packet_capacity t \<noteq> 0" and "at_packet_count t = at_packet_capacity t"
    and "unat (at_packet_count t) < 2 ^ 32 - 1"
  shows "arp_append_query e now (hd (at_age t)) p t = None"
proof -
  let ?ip = "hd (at_age t)" and ?u = "t\<lparr> at_packet_count := at_packet_count t + 1 \<rparr>"
  have age: "?ip \<in> dom (at_get t)" "distinct (at_age t)"
    using hd_in_set [OF assms(3)] assms(1) unfolding arp_inv_off_def by simp_all
  then obtain ae where ae: "at_get t ?ip = Some ae" by blast
  have u: "arp_inv_off 0 1 ?u" using assms(1,9) unat_u32_Suc [OF assms(9)] by (simp add: arp_inv_off_def)
  obtain w v where v: "arp_slim now ?u = Some v" "arp_inv_off 0 1 v" "entries_slimmed now ?u w" "packets_slimmed w v"
    using arp_slim_result [OF u, of now] by auto
  obtain n where n: "at_age w = drop n (at_age t)" and ow: "\<not> over_capacity w" and cw: "same_config ?u w"
    using v(3) by (auto simp: entries_slimmed_def)
  have vw: "at_age v = at_age w" "at_entry_count v = at_entry_count w" using v(4) by (simp_all add: packets_slimmed_def)
  have "n \<noteq> 0"
  proof
    assume "n = 0"
    then have "at_entry_count w = at_entry_count t"
      using v(2) assms(1) n vw by (simp add: arp_inv_off_def word_unat_eq_iff)
    then show False using ow assms(2) cw by (simp add: over_capacity_def same_config_def)
  qed
  then have "?ip \<notin> set (at_age v)"
    using age(2) n vw(1) by (cases "at_age t"; cases n) (auto dest: in_set_dropD)
  then have "at_get v ?ip = None" using v(2) by (auto simp: arp_inv_off_def)
  moreover have "at_packet_count t + 1 > at_packet_capacity t"
    using assms(8) unat_u32_Suc [OF assms(9)] by (simp add: word_less_nat_alt)
  ultimately show ?thesis
    using ae assms(4-7) v(1)
    by (simp add: arp_append_query_def arp_ensure_def arp_refresh_def arp_enqueue_def known_in_def)
qed


section \<open>Witnesses\<close>

definition sample_arptable :: arptable where
  "sample_arptable = snd (arptable_configure (Some \<lparr> arg_CAPACITY = Some 1, arg_ENTRY_CAPACITY = Some 2,
     arg_ENTRY_PACKET_CAPACITY = None, arg_CAPACITY_SLIM_FACTOR = None, arg_TIMEOUT = Some 60000 \<rparr>) (arptable_new 0))"

definition sample_waiting :: packet where
  "sample_waiting = the (pkt_make env0 0 (Some [1, 2, 3]) 3 0)"

lemma sample_arptable_fields:
  "arptable_configure (Some \<lparr> arg_CAPACITY = Some 1, arg_ENTRY_CAPACITY = Some 2,
     arg_ENTRY_PACKET_CAPACITY = None, arg_CAPACITY_SLIM_FACTOR = None, arg_TIMEOUT = Some 60000 \<rparr>) (arptable_new 0) = (0, sample_arptable)"
  "at_get sample_arptable = Map.empty" "at_timeout sample_arptable = 60000" "at_packet_capacity sample_arptable = 1"
  "at_entry_packet_capacity sample_arptable = 0" "at_packet_count sample_arptable = 0" "at_entry_count sample_arptable = 0"
  by (simp_all add: sample_arptable_def arptable_configure_def arptable_new_def at_set_timeout_def Let_def CLICK_HZ_def
      fun_eq_iff at_get_def hcn_find_empty)

lemma sample_arptable_ok: "arp_inv sample_arptable" "arp_caps sample_arptable" "arp_room sample_arptable"
  using arptable_configure_inv [OF sample_arptable_fields(1)] by (simp_all add: arp_room_def sample_arptable_fields)

lemma sample_queued: "queued sample_arptable ip = []" "\<not> known_in now sample_arptable ip"
  by (simp_all add: queued_def known_in_def sample_arptable_fields)

theorem arp_reachable_consistent_witness:
  "\<exists>t. arp_step\<^sup>*\<^sup>* sample_arptable t \<and> at_get t 5 \<noteq> None \<and> arp_inv t \<and> arp_caps t"
proof -
  let ?e = env0
  obtain t where t: "arp_insert ?e 0 5 [2, 0, 0, 0, 0, 1] False sample_arptable = Some (0, [], t)" "at_get t 5 \<noteq> None"
    using arp_insert_result [OF sample_arptable_ok, of ?e "[2, 0, 0, 0, 0, 1]" 0 5 False] by auto
  have "arp_step sample_arptable t" by (rule arp_step.insert [OF sample_arptable_ok(3) _ t(1)]) simp
  then have s: "arp_step\<^sup>*\<^sup>* sample_arptable t" by (rule r_into_rtranclp)
  show ?thesis using arp_reachable_consistent [OF sample_arptable_fields(1) s] s t(2) by blast
qed

theorem arp_append_query_spec_witness:
  "arp_inv sample_arptable \<and> arp_caps sample_arptable \<and> arp_room sample_arptable \<and>
   (\<exists>r t'. arp_append_query env0 7 5 sample_waiting sample_arptable = Some (r, t') \<and>
      r = 1 \<and> queued t' 5 = [sample_waiting])"
  using arp_append_query_spec [OF sample_arptable_ok, of "env0" 7 5 sample_waiting]
    sample_arptable_ok by (auto simp: sample_queued sample_arptable_fields poll_due_def)

theorem arp_insert_lookup_witness:
  "\<exists>t'. arp_insert env0 7 5 [2, 0, 0, 0, 0, 1] True sample_arptable = Some (0, [], t') \<and>
     fst (snd (arp_lookup 60007 5 0 t')) = Some [2, 0, 0, 0, 0, 1]"
proof -
  have "\<not> ether_is_broadcast [2, 0, 0, 0, 0, 1]"
    by (simp add: ether_is_broadcast_def get16_def le16_def)
  then show ?thesis
    using arp_insert_lookup [OF sample_arptable_ok, of "env0" "[2, 0, 0, 0, 0, 1]" 7 5 60007 0]
    by (auto simp: sample_queued sample_arptable_fields Let_def click_jiffies_less_def)
qed

text \<open>Two entries where one is allowed, with a packet waiting for the older one.\<close>

definition sample_overfull :: arptable where
  "sample_overfull = (at_put 2 (arp_new_entry 0)
     (at_put 1 ((arp_new_entry 0)\<lparr> ae_queue := [sample_waiting], ae_count := 1 \<rparr>) (arptable_new 0)))
     \<lparr> at_age := [1, 2], at_entry_count := 2, at_packet_count := 1, at_entry_capacity := 1, at_packet_capacity := 1 \<rparr>"

theorem arp_append_use_after_free_witness:
  "over_capacity sample_overfull \<and> arp_append_query env0 5 1 sample_waiting sample_overfull = None"
proof -
  have c: "hcn_inv ip_hashcode (at_table (arptable_new 0))" by (simp add: arptable_new_def hcn_inv_empty)
  let ?ae = "(arp_new_entry 0)\<lparr> ae_queue := [sample_waiting], ae_count := 1 \<rparr>"
  have e: "at_get (arptable_new 0) = Map.empty" by (simp add: fun_eq_iff at_get_def arptable_new_def hcn_find_empty)
  have get: "at_get sample_overfull = [1 \<mapsto> ?ae, 2 \<mapsto> arp_new_entry 0]"
    and inv: "hcn_inv ip_hashcode (at_table sample_overfull)"
    by (simp_all add: sample_overfull_def at_get_put c e)
  have "waiting (at_get sample_overfull) = 1"
    by (simp add: get waiting_def arp_new_entry_def)
  moreover have "at_age sample_overfull = [1, 2]" "at_entry_count sample_overfull = 2" "at_packet_count sample_overfull = 1"
    "at_capacity_slim_factor sample_overfull = 2" by (simp_all add: sample_overfull_def arptable_new_def)
  moreover have "entry_ok ?ae" by (simp add: entry_ok_def arp_new_entry_def ether_broadcast_def)
  ultimately have "arp_inv sample_overfull"
    using inv by (auto simp: arp_inv_off_def get entry_ok_new split: if_splits)
  moreover have o: "over_capacity sample_overfull" by (simp add: over_capacity_def sample_overfull_def)
  moreover have age: "hd (at_age sample_overfull) = 1" by (simp add: sample_overfull_def)
  moreover have "\<not> known_in 5 sample_overfull (hd (at_age sample_overfull))"
    unfolding known_in_def get age by (simp add: arp_known_def arp_new_entry_def)
  ultimately show ?thesis
    using arp_append_use_after_free [of sample_overfull 5 "env0" sample_waiting]
    by (simp add: sample_overfull_def arptable_new_def)
qed

end
