(* ===== verification/Click_IPElements.thy ===== *)
theory Click_IPElements
  imports MIP_Headers Click_IPAddress
begin

unbundle bit_operations_syntax

text \<open>
  The stock Click elements that the agents and the mobile node put on their IP paths
  (\<^verbatim>\<open>src/click/scripts/library\<close>): \<^verbatim>\<open>Strip\<close>, \<^verbatim>\<open>Unstrip\<close>, \<^verbatim>\<open>StripIPHeader\<close>, \<^verbatim>\<open>MarkIPHeader\<close>,
  \<^verbatim>\<open>HostEtherFilter\<close>, \<^verbatim>\<open>Paint\<close>, \<^verbatim>\<open>PaintTee\<close>, \<^verbatim>\<open>Tee\<close>, \<^verbatim>\<open>DropBroadcasts\<close>, \<^verbatim>\<open>CheckIPHeader\<close>,
  \<^verbatim>\<open>SetIPChecksum\<close>, \<^verbatim>\<open>FixIPSrc\<close> and \<^verbatim>\<open>DecIPTTL\<close>.

  \<^verbatim>\<open>simple_action\<close> returns a packet, which the framework pushes to output 0, or a null pointer.
  The model returns the emissions of the whole step, those on output 1 included. Messages to
  the log are not modelled.
\<close>

section \<open>Access through the header pointers\<close>

text \<open>The network header pointer may point anywhere into the buffer, into the headroom too.
  Reads and writes through it are reads and writes of the buffer.\<close>

definition set_buffer :: "bytes \<Rightarrow> packet \<Rightarrow> packet" where
  "set_buffer b p =
     p\<lparr> hroom := take (headroom p) b, pdata := take (plen p) (drop (headroom p) b),
        troom := drop (headroom p + plen p) b \<rparr>"

definition on_buffer :: "(bytes \<Rightarrow> bytes option) \<Rightarrow> packet \<Rightarrow> packet option" where
  "on_buffer f p = do { b \<leftarrow> f (pbuffer p); Some (set_buffer b p) }"

text \<open>\<^verbatim>\<open>memcpy\<close> from and into a buffer.\<close>

definition ld_range :: "bytes \<Rightarrow> nat \<Rightarrow> nat \<Rightarrow> bytes option" where
  "ld_range d i n = (if i + n \<le> length d then Some (slice i n d) else None)"

definition st_range :: "nat \<Rightarrow> bytes \<Rightarrow> bytes \<Rightarrow> bytes option" where
  "st_range i v d = (if i + length v \<le> length d then Some (take i d @ v @ drop (i + length v) d) else None)"

definition network_pos :: "packet \<Rightarrow> nat option" where
  "network_pos p = do { k \<leftarrow> net_off p; if 0 \<le> k then Some (nat k) else None }"

definition network_length :: "packet \<Rightarrow> int option" where
  "network_length p = do { k \<leftarrow> net_off p; Some (int (headroom p + plen p) - k) }"

definition transport_header_offset :: "packet \<Rightarrow> int option" where
  "transport_header_offset p = map_option (\<lambda>k. k - int (headroom p)) (trans_off p)"

definition checked_output_push :: "nat \<Rightarrow> nat \<Rightarrow> packet \<Rightarrow> emission list" where
  "checked_output_push noutputs port p = (if port < noutputs then [(port, p)] else [])"

section \<open>Strip, Unstrip, StripIPHeader, MarkIPHeader\<close>

definition strip_action :: "nat \<Rightarrow> packet \<Rightarrow> emission list" where
  "strip_action nbytes p = [(0, pkt_pull nbytes p)]"

text \<open>A failed allocation returns a null pointer: the packet is lost.\<close>

definition unstrip_action :: "env \<Rightarrow> nat \<Rightarrow> packet \<Rightarrow> emission list" where
  "unstrip_action e nbytes p = (case pkt_push e nbytes p of None \<Rightarrow> [] | Some q \<Rightarrow> [(0, q)])"

text \<open>\<^verbatim>\<open>pull\<close> takes an unsigned argument: a negative offset is larger than any packet.\<close>

definition stripipheader_action :: "packet \<Rightarrow> emission list option" where
  "stripipheader_action p =
     do {
       k \<leftarrow> transport_header_offset p;
       Some [(0, pkt_pull (if 0 \<le> k then nat k else plen p) p)]
     }"

definition markipheader_action :: "int \<Rightarrow> packet \<Rightarrow> emission list option" where
  "markipheader_action offset p =
     do {
       let ip = int (headroom p) + offset;
       vhl \<leftarrow> (if 0 \<le> ip then ld8 (pbuffer p) (nat ip) else None);
       p \<leftarrow> set_ip_header ip (4 * ip_hl_of vhl) p;
       Some [(0, p)]
     }"

section \<open>HostEtherFilter\<close>

record hostetherfilter =
  hef_addr :: bytes
  hef_offset :: nat
  hef_drop_own :: bool
  hef_drop_other :: bool

definition hostetherfilter_configure ::
  "(bytes \<times> bool option \<times> bool option \<times> nat option) option \<Rightarrow> int \<times> hostetherfilter option" where
  "hostetherfilter_configure conf =
     (case conf of
        None \<Rightarrow> (- 1, None)
      | Some (addr, drop_own, drop_other, offset) \<Rightarrow>
          (0, Some \<lparr> hef_addr = addr, hef_offset = (case offset of None \<Rightarrow> 0 | Some k \<Rightarrow> k),
                     hef_drop_own = (case drop_own of None \<Rightarrow> False | Some b \<Rightarrow> b),
                     hef_drop_other = (case drop_other of None \<Rightarrow> True | Some b \<Rightarrow> b) \<rparr>))"

definition hostetherfilter_action ::
  "nat \<Rightarrow> hostetherfilter \<Rightarrow> packet \<Rightarrow> emission list option" where
  "hostetherfilter_action noutputs s p =
     do {
       let e = headroom p + hef_offset s;
       d0 \<leftarrow> ld16 (pbuffer p) e;
       d1 \<leftarrow> ld16 (pbuffer p) (e + 2);
       d2 \<leftarrow> ld16 (pbuffer p) (e + 4);
       let dhost = slice e 6 (pbuffer p);
       own \<leftarrow> (if hef_drop_own s
              then do { _ \<leftarrow> ld16 (pbuffer p) (e + 10); Some (slice (e + 6) 6 (pbuffer p) = hef_addr s) }
              else Some False);
       if own then Some (checked_output_push noutputs 1 p)
       else if dhost = hef_addr s then Some [(0, p\<lparr> packet_type_anno := HOST \<rparr>)]
       else if d0 = 0xFFFF \<and> d1 = 0xFFFF \<and> d2 = 0xFFFF then
         Some [(0, p\<lparr> packet_type_anno := BROADCAST \<rparr>)]
       else if bit (get8 dhost 0) 0 then Some [(0, p\<lparr> packet_type_anno := MULTICAST \<rparr>)]
       else do {
         let p = p\<lparr> packet_type_anno := OTHERHOST \<rparr>;
         if hef_drop_other s then Some (checked_output_push noutputs 1 p) else Some [(0, p)]
       }
     }"

section \<open>Paint, PaintTee, Tee\<close>

text \<open>With the default annotation, \<^verbatim>\<open>PAINT_ANNO_OFFSET\<close>.\<close>

definition paint_action :: "byte \<Rightarrow> packet \<Rightarrow> emission list" where
  "paint_action color p = [(0, p\<lparr> paint_anno := color \<rparr>)]"

text \<open>The clone is pushed without a test for a null pointer.\<close>

definition painttee_action :: "env \<Rightarrow> byte \<Rightarrow> packet \<Rightarrow> emission list option" where
  "painttee_action e color p =
     (if paint_anno p = color then do { (q, p) \<leftarrow> pkt_clone e p; Some [(1, q), (0, p)] }
      else Some [(0, p)])"

definition tee_push :: "env \<Rightarrow> nat \<Rightarrow> packet \<Rightarrow> emission list" where
  "tee_push e n p =
     (case pkt_clone e p of
        None \<Rightarrow> [(n - 1, p)]
      | Some (q, p') \<Rightarrow> map (\<lambda>i. (i, q)) [0..<n - 1] @ [(n - 1, if n = 1 then p else p')])"

section \<open>DropBroadcasts\<close>

definition dropbroadcasts_action :: "nat \<Rightarrow> u32 \<Rightarrow> packet \<Rightarrow> u32 \<times> emission list" where
  "dropbroadcasts_action noutputs drops p =
     (if packet_type_anno p = BROADCAST \<or> packet_type_anno p = MULTICAST
      then (drops + 1, if noutputs = 2 then [(1, p)] else [])
      else (drops, [(0, p)]))"

section \<open>CheckIPHeader\<close>

datatype cip_reason = MINISCULE_PACKET | BAD_VERSION | BAD_HLEN | BAD_IP_LEN | BAD_CHECKSUM | BAD_SADDR

record checkipheader =
  cip_offset :: nat
  cip_checksum :: bool
  cip_bad_src :: "ipaddr list"
  cip_good_dst :: "ipaddr list"
  cip_drops :: u32
  cip_reason_drops :: "(cip_reason \<Rightarrow> u32) option"

definition cip_drop :: "nat \<Rightarrow> cip_reason \<Rightarrow> packet \<Rightarrow> checkipheader \<Rightarrow> checkipheader \<times> emission list" where
  "cip_drop noutputs reason p s =
     (s\<lparr> cip_drops := cip_drops s + 1,
         cip_reason_drops := map_option (\<lambda>f. f(reason := f reason + 1)) (cip_reason_drops s) \<rparr>,
      if noutputs = 2 then [(1, p)] else [])"

definition checkipheader_action ::
  "nat \<Rightarrow> packet \<Rightarrow> checkipheader \<Rightarrow> (checkipheader \<times> emission list) option" where
  "checkipheader_action noutputs p s =
     (let ip = headroom p + cip_offset s;
          len_p = int (plen p) - int (cip_offset s)
      in if len_p < int sizeof_click_ip then Some (cip_drop noutputs MINISCULE_PACKET p s)
         else do {
           vhl \<leftarrow> ld8 (pbuffer p) ip;
           if ip_v_of vhl \<noteq> 4 then Some (cip_drop noutputs BAD_VERSION p s)
           else do {
             let hlen = 4 * ip_hl_of vhl;
             if hlen < sizeof_click_ip then Some (cip_drop noutputs BAD_HLEN p s)
             else do {
               l \<leftarrow> ld16 (pbuffer p) (ip + IP_LEN);
               let len = unat (ntohs l);
               if int len > len_p \<or> len < hlen then Some (cip_drop noutputs BAD_IP_LEN p s)
               else do {
                 val \<leftarrow> (if cip_checksum s then cksum_at (pbuffer p) ip hlen else Some 0);
                 if val \<noteq> 0 then Some (cip_drop noutputs BAD_CHECKSUM p s)
                 else do {
                   src \<leftarrow> ld32 (pbuffer p) (ip + IP_SRC);
                   dst \<leftarrow> ld32 (pbuffer p) (ip + IP_DST);
                   if src \<in> set (cip_bad_src s) \<and> dst \<notin> set (cip_good_dst s)
                   then Some (cip_drop noutputs BAD_SADDR p s)
                   else do {
                     q \<leftarrow> set_ip_header (int ip) hlen p;
                     let q = (if len_p > int len then pkt_take (nat len_p - len) q else q);
                     Some (s, [(0, q\<lparr> dst_ip_anno := dst \<rparr>)])
                   }
                 }
               }
             }
           }
         })"

section \<open>SetIPChecksum\<close>

text \<open>The length is the difference of two pointers in an unsigned variable.\<close>

definition setipchecksum_action ::
  "env \<Rightarrow> u32 \<Rightarrow> packet \<Rightarrow> (u32 \<times> emission list) option" where
  "setipchecksum_action e drops p_in =
     (case pkt_uniqueify e p_in of
        None \<Rightarrow> Some (drops, [])
      | Some p \<Rightarrow>
          do {
            nh \<leftarrow> (if net_off p \<noteq> None then network_pos p else Some (headroom p));
            let len_p = unat (of_int (int (headroom p + plen p) - int nh) :: u32);
            hlen \<leftarrow> (if len_p \<ge> sizeof_click_ip then map_option (\<lambda>b. 4 * ip_hl_of b) (ld8 (pbuffer p) nh)
                     else Some 0);
            if hlen \<ge> sizeof_click_ip \<and> hlen \<le> len_p then do {
              p \<leftarrow> on_buffer (\<lambda>b. do {
                     b \<leftarrow> st16 (nh + IP_SUM) 0 b;
                     c \<leftarrow> cksum_at b nh hlen;
                     st16 (nh + IP_SUM) c b
                   }) p;
              Some (drops, [(0, p)])
            }
            else Some (drops + 1, [])
          })"

section \<open>FixIPSrc\<close>

definition fixipsrc_fix_it :: "env \<Rightarrow> ipaddr \<Rightarrow> packet \<Rightarrow> packet option" where
  "fixipsrc_fix_it e my_ip p_in =
     do {
       p \<leftarrow> pkt_uniqueify e p_in;
       let p = p\<lparr> fix_ip_src_anno := 0 \<rparr>;
       ip \<leftarrow> network_pos p;
       on_buffer (\<lambda>b. do {
         b \<leftarrow> st32 (ip + IP_SRC) my_ip b;
         vhl \<leftarrow> ld8 b ip;
         b \<leftarrow> st16 (ip + IP_SUM) 0 b;
         c \<leftarrow> cksum_at b ip (4 * ip_hl_of vhl);
         st16 (ip + IP_SUM) c b
       }) p
     }"

definition fixipsrc_action :: "env \<Rightarrow> ipaddr \<Rightarrow> packet \<Rightarrow> emission list option" where
  "fixipsrc_action e my_ip p =
     (if fix_ip_src_anno p \<noteq> 0 \<and> net_off p \<noteq> None
      then do { q \<leftarrow> fixipsrc_fix_it e my_ip p; Some [(0, q)] }
      else Some [(0, p)])"

section \<open>DecIPTTL\<close>

record decipttl =
  dt_drops :: u32
  dt_active :: bool
  dt_multicast :: bool

definition decipttl_configure :: "(bool option \<times> bool option) option \<Rightarrow> int \<times> decipttl option" where
  "decipttl_configure conf =
     (case conf of
        None \<Rightarrow> (- 1, None)
      | Some (active, multicast) \<Rightarrow>
          (0, Some \<lparr> dt_drops = 0, dt_active = (case active of None \<Rightarrow> True | Some b \<Rightarrow> b),
                     dt_multicast = (case multicast of None \<Rightarrow> True | Some b \<Rightarrow> b) \<rparr>))"

text \<open>The incremental update of the checksum for a time-to-live that is one less
  (RFC 1141, RFC 1624).\<close>

definition dec_ttl_cksum :: "u16 \<Rightarrow> u16" where
  "dec_ttl_cksum c =
     (let sum = ucast (NOT (ntohs c)) + 0xFEFF :: u64
      in NOT (htons (ucast (sum + drop_bit 16 sum))))"

definition decipttl_action ::
  "env \<Rightarrow> nat \<Rightarrow> packet \<Rightarrow> decipttl \<Rightarrow> (decipttl \<times> emission list) option" where
  "decipttl_action e noutputs p s =
     do {
       ip \<leftarrow> network_pos p;
       if \<not> dt_active s then Some (s, [(0, p)])
       else do {
         skip \<leftarrow> (if dt_multicast s then Some False
                 else map_option is_multicast (ld32 (pbuffer p) (ip + IP_DST)));
         if skip then Some (s, [(0, p)])
         else do {
           ttl \<leftarrow> ld8 (pbuffer p) (ip + IP_TTL);
           if ttl \<le> 1 then Some (s\<lparr> dt_drops := dt_drops s + 1 \<rparr>, checked_output_push noutputs 1 p)
           else case pkt_uniqueify e p of
             None \<Rightarrow> Some (s, [])
           | Some q \<Rightarrow>
               do {
                 ip \<leftarrow> network_pos q;
                 q \<leftarrow> on_buffer (\<lambda>b. do {
                        b \<leftarrow> st8 (ip + IP_TTL) (ttl - 1) b;
                        c \<leftarrow> ld16 b (ip + IP_SUM);
                        st16 (ip + IP_SUM) (dec_ttl_cksum c) b
                      }) q;
                 Some (s, [(0, q)])
               }
         }
       }
     }"

section \<open>Lemmas: headers at the data pointer\<close>

lemma set_buffer_data:
  "length d = plen p \<Longrightarrow> set_buffer (hroom p @ d @ troom p) p = p\<lparr> pdata := d \<rparr>"
  by (simp add: set_buffer_def)

lemma on_buffer_data:
  assumes "f (pbuffer p) = Some (hroom p @ d @ troom p)" and "length d = plen p"
  shows "on_buffer f p = Some (p\<lparr> pdata := d \<rparr>)"
  using assms by (simp add: on_buffer_def set_buffer_data)

text \<open>Writing behind the data pointer.\<close>

lemma on_buffer_st_range:
  assumes "i + length v \<le> plen p"
  shows "on_buffer (st_range (headroom p + i) v) p = Some (p\<lparr> pdata := take i (pdata p) @ v @ drop (i + length v) (pdata p) \<rparr>)"
  using assms by (intro on_buffer_data) (simp_all add: st_range_def pbuffer_def)

lemma slice_append [mem_simps]:
  "slice (length h) n (h @ d) = slice 0 n d" "slice (length h + i) n (h @ d) = slice i n d"
  "i + n \<le> length d \<Longrightarrow> slice i n (d @ t) = slice i n d"
  by (simp_all add: slice_def)

lemma pkt_uniqueify_ok:
  assumes "alloc_ok e"
  obtains t where "pkt_uniqueify e p = Some (p\<lparr> troom := t, pshared := False \<rparr>)"
proof (cases "pshared p")
  case False
  then have "p\<lparr> troom := troom p, pshared := False \<rparr> = p" by (cases p) simp
  then show ?thesis using that [of "troom p"] False by (simp add: pkt_uniqueify_def)
next
  case True
  obtain a b c where "alloc_data e (headroom p) (plen p) (tailroom p) = Some (a, b, c)"
    using assms by (simp add: alloc_data_def Let_def)
  then show ?thesis
    using True that [of "troom p @ drop (tailroom p) c"]
    by (simp add: pkt_uniqueify_def expensive_uniqueify_def shift_header_annotations_def option.map_ident Let_def)
qed

text \<open>A packet that starts with a valid IP header, marked, of exactly the length the header says.\<close>

definition ip_hlen :: "bytes \<Rightarrow> nat" where
  "ip_hlen d = 4 * ip_hl_of (get8 d 0)"

definition ip_header_ok :: "bytes \<Rightarrow> bool" where
  "ip_header_ok d \<longleftrightarrow>
     20 \<le> length d \<and> ip_v_of (get8 d 0) = 4 \<and> 20 \<le> ip_hlen d \<and> ip_hlen d \<le> unat (ntohs (get16 d IP_LEN)) \<and>
     unat (ntohs (get16 d IP_LEN)) \<le> length d \<and> cksum_ok d 0 (ip_hlen d)"

definition ip_valid :: "packet \<Rightarrow> bool" where
  "ip_valid p \<longleftrightarrow>
     net_off p = Some (int (headroom p)) \<and> trans_off p = Some (int (headroom p + ip_hlen (pdata p))) \<and>
     ip_header_ok (pdata p) \<and> unat (ntohs (get16 (pdata p) IP_LEN)) = plen p"

lemma ip_hlen_bounds: "ip_hlen d \<le> 60" "even (ip_hlen d)"
proof -
  have "unat (get8 d 0) mod 16 < 16" by simp
  then have "4 * (unat (get8 d 0) mod 16) \<le> 60" by linarith
  then show "ip_hlen d \<le> 60" by (simp only: ip_hlen_def ip_hl_of_def)
qed (simp add: ip_hlen_def)

lemma network_pos_valid: "ip_valid p \<Longrightarrow> network_pos p = Some (headroom p)"
  by (simp add: ip_valid_def network_pos_def)

lemma ip_valid_frame [simp]:
  "ip_valid (p\<lparr> troom := t \<rparr>) = ip_valid p" "ip_valid (p\<lparr> pshared := b \<rparr>) = ip_valid p"
  "ip_valid (p\<lparr> paint_anno := c \<rparr>) = ip_valid p" "ip_valid (p\<lparr> packet_type_anno := y \<rparr>) = ip_valid p"
  "ip_valid (p\<lparr> dst_ip_anno := a \<rparr>) = ip_valid p" "ip_valid (p\<lparr> fix_ip_src_anno := c \<rparr>) = ip_valid p"
  by (simp_all add: ip_valid_def)

text \<open>Replacing the header by another valid one of the same length keeps the packet valid.\<close>

lemma ip_valid_data:
  assumes "ip_valid p" and "length d = plen p" and "get8 d 0 = get8 (pdata p) 0"
    and "get16 d IP_LEN = get16 (pdata p) IP_LEN" and "cksum_ok d 0 (ip_hlen (pdata p))"
  shows "ip_valid (p\<lparr> pdata := d \<rparr>)"
  using assms by (simp add: ip_valid_def ip_header_ok_def ip_hlen_def)

section \<open>The incremental checksum of DecIPTTL\<close>

lemma unat_htons_mod: "unat (htons w) mod 65535 = (256 * unat w) mod 65535"
proof -
  have "256 * unat w = unat (htons w) + 65535 * (unat w div 256)"
    using div_mult_mod_eq [of "unat w" 256] unfolding unat_htons by linarith
  then show ?thesis by (metis mod_mult_self2)
qed

lemma ntohs_not: "ntohs (NOT w) = NOT (ntohs w)"
proof -
  define a b where "a = unat w div 256" and "b = unat w mod 256"
  have w: "unat w = 256 * a + b" by (simp add: a_def b_def)
  have ab: "a < 256" "b < 256"
    using unat_less_65536 [of w] by (simp_all add: a_def b_def less_mult_imp_div_less)
  have "65535 - unat w = 256 * (255 - a) + (255 - b)" using w ab by simp
  moreover have "(256 * (255 - a) + (255 - b)) div 256 = 255 - a" "(256 * (255 - a) + (255 - b)) mod 256 = 255 - b"
    by simp_all
  ultimately have "unat (ntohs (NOT w)) = (255 - a) + 256 * (255 - b)"
    by (simp only: unat_ntohs unat_not_u16)
  also have "\<dots> = 65535 - (a + 256 * b)" using ab by simp
  also have "\<dots> = unat (NOT (ntohs w))" by (simp add: unat_ntohs unat_not_u16 a_def b_def)
  finally show ?thesis by (simp add: word_unat_eq_iff)
qed

text \<open>In the host's byte order the new checksum is one more than the old one, modulo
  \<open>2 ^ 16 - 1\<close>.\<close>

lemma dec_ttl_cksum_value: "unat (dec_ttl_cksum c) mod 65535 = (unat c + 1) mod 65535"
proof -
  define x where "x = unat (NOT (ntohs c))"
  define sum where "sum = (ucast (NOT (ntohs c)) + 0xFEFF :: u64)"
  have x: "x < 65536" by (simp add: x_def)
  have "unat (ucast (NOT (ntohs c)) :: u64) = x"
    unfolding x_def unsigned_ucast_eq
    by (rule take_bit_nat_eq_self, rule less_trans [OF unat_less_65536]) simp
  then have s: "unat sum = x + 65279" using x by (simp add: sum_def unat_word_ariths)
  have sh: "unat (drop_bit 16 sum) = (x + 65279) div 65536"
    by (simp only: unsigned_drop_bit_eq) (use s x in \<open>simp add: drop_bit_eq_div take_bit_nat_eq_self\<close>)
  define y :: u16 where "y = ucast (sum + drop_bit 16 sum)"
  have "unat (sum + drop_bit 16 sum) = x + 65279 + (x + 65279) div 65536"
    using s sh x by (simp add: unat_word_ariths)
  then have y: "unat y = (x + 65279 + (x + 65279) div 65536) mod 65536"
    by (simp add: y_def unsigned_ucast_eq take_bit_eq_mod)
  have "unat y mod 65535 = (x + 65279) mod 65535"
  proof (cases "x + 65279 < 65536")
    case False
    then have q: "(x + 65279) div 65536 = 1" using x by (simp add: div_nat_eqI)
    obtain k where k: "x + 65279 = 65536 + k" using False by (metis le_add_diff_inverse not_less)
    then have "x + 65279 + (x + 65279) div 65536 = (k + 1) + 65536" unfolding q by linarith
    then have "unat y = ((k + 1) + 65536) mod 65536" by (simp only: y)
    also have "\<dots> = k + 1" using k x unfolding mod_add_self2 by simp
    finally have "unat y = k + 1" .
    moreover have "x + 65279 = (k + 1) + 65535" using k by linarith
    ultimately show ?thesis by (simp only: mod_add_self2)
  qed (simp add: y)
  then have "unat (htons y) mod 65535 = (256 * (x + 65279)) mod 65535"
    by (metis mod_mult_right_eq unat_htons_mod)
  moreover have "htons (NOT (ntohs c)) = NOT c" by (metis ntohs_not ntohs_htons(2))
  then have "(256 * x) mod 65535 = (65535 - unat c) mod 65535"
    using unat_htons_mod [of "NOT (ntohs c)"] by (simp add: x_def unat_not_u16)
  moreover have "dec_ttl_cksum c = NOT (htons y)"
    by (simp add: dec_ttl_cksum_def Let_def y_def sum_def)
  then have v: "unat (dec_ttl_cksum c) = 65535 - unat (htons y)" by (simp add: unat_not_u16)
  ultimately have "unat (htons y) mod 65535 = (65535 - unat c + 256 * 65279) mod 65535"
    by (simp only: distrib_left) (metis mod_add_left_eq)
  then have "int 65535 dvd int (unat (htons y)) - int (65535 - unat c + 256 * 65279)"
    by (metis mod_eq_dvd_iff zmod_int)
  then obtain k where k: "int (unat (htons y)) - int (65535 - unat c + 256 * 65279) = int 65535 * k"
    by (rule dvdE)
  have "int (unat (dec_ttl_cksum c)) - int (unat c + 1) = int 65535 * (- 255 - k)"
    using k unat_bounds_le(2) [of c] unat_bounds_le(2) [of "htons y"] unfolding v by (simp add: of_nat_diff)
  then have "int (unat (dec_ttl_cksum c)) mod int 65535 = int (unat c + 1) mod int 65535"
    unfolding mod_eq_dvd_iff by (rule dvdI)
  then show ?thesis by (metis of_nat_eq_iff zmod_int)
qed

lemma upd8_upd16: "i + 2 \<le> length d \<Longrightarrow> upd8 i b d = upd16 i (le16 b (get8 d (i + 1))) d"
  by (simp add: upd8_def upd16_def get8_def) (metis list_update_id list_update_swap n_not_Suc_n)

lemma wsum_pos: "0 < length d \<Longrightarrow> get8 d 0 \<noteq> 0 \<Longrightarrow> wsum d \<noteq> 0"
  by (cases d rule: wsum.cases) (simp_all add: get8_def unat_le16 unat_eq_zero)

lemma dec_ttl_keeps_cksum:
  assumes "20 \<le> length h" and "even (length h)" and "length h \<le> 60" and "get8 h 0 \<noteq> 0" and "1 < get8 h IP_TTL"
    and "click_in_cksum h = 0"
  shows "click_in_cksum (upd16 IP_SUM (dec_ttl_cksum (get16 h IP_SUM)) (upd8 IP_TTL (get8 h IP_TTL - 1) h)) = 0"
proof -
  let ?t = "get8 h IP_TTL" and ?c = "get16 h IP_SUM"
  let ?v = "le16 (?t - 1) (get8 h 9)"
  let ?g = "upd16 8 ?v h"
  let ?k = "upd16 10 (dec_ttl_cksum ?c) ?g"
  have t: "unat (?t - 1) + 1 = unat ?t"
    using assms(5) unat_sub_one [of ?t] by (simp add: word_less_nat_alt)
  have "get16 h 8 = le16 ?t (get8 h 9)" by (simp add: get16_def get8_def)
  then have hw: "unat (get16 h 8) = unat ?v + 1" using t by (simp add: unat_le16)
  have "wsum ?g + unat (get16 h 8) = wsum h + unat ?v"
    using assms(1) by (intro wsum_upd16) simp_all
  moreover have "wsum ?k + unat (get16 ?g 10) = wsum ?g + unat (dec_ttl_cksum ?c)"
    using assms(1) by (intro wsum_upd16) simp_all
  then have "wsum ?k + unat ?c = wsum ?g + unat (dec_ttl_cksum ?c)" by (simp add: mem_simps)
  ultimately have sum: "wsum ?k + (unat ?c + 1) = wsum h + unat (dec_ttl_cksum ?c)"
    using hw by linarith
  have "65535 dvd wsum h" using assms(3,6) in_cksum.ck_zero_iff [of h] by simp
  moreover have "int (wsum ?k) = int (wsum h) + (int (unat (dec_ttl_cksum ?c)) - int (unat ?c + 1))"
    using sum by linarith
  moreover have "int 65535 dvd int (unat (dec_ttl_cksum ?c)) - int (unat ?c + 1)"
    using dec_ttl_cksum_value [of ?c] by (metis mod_eq_dvd_iff zmod_int)
  ultimately have "int 65535 dvd int (wsum ?k)" by (metis dvd_add int_dvd_int_iff)
  then have "65535 dvd wsum ?k" by (simp only: int_dvd_int_iff)
  moreover have "0 < length h" using assms(1) by linarith
  then have "wsum ?k \<noteq> 0"
    using assms(4) by (intro wsum_pos) (simp_all add: mem_simps)
  ultimately have "click_in_cksum ?k = 0"
    using assms(3) in_cksum.ck_zero_iff [of ?k] by simp
  then show ?thesis using assms(1) upd8_upd16 [of 8 h "?t - 1"] by simp
qed

section \<open>The elements on a valid packet\<close>

lemma ip_valid_facts:
  assumes "ip_valid p"
  defines "d \<equiv> pdata p"
  shows "20 \<le> length d" "20 \<le> ip_hlen d" "ip_hlen d \<le> length d" "ip_v_of (get8 d 0) = 4" "get8 d 0 \<noteq> 0"
    "cksum_ok d 0 (ip_hlen d)" "click_in_cksum (slice 0 (ip_hlen d) d) = 0"
  using assms by (auto simp: ip_valid_def ip_header_ok_def cksum_ok_def ip_v_of_def)

definition dec_ttl_bytes :: "bytes \<Rightarrow> bytes" where
  "dec_ttl_bytes d = upd16 IP_SUM (dec_ttl_cksum (get16 d IP_SUM)) (upd8 IP_TTL (get8 d IP_TTL - 1) d)"

lemma slice_upd8_inside:
  "i \<le> k \<Longrightarrow> k + 1 \<le> i + n \<Longrightarrow> i + n \<le> length d \<Longrightarrow>
    slice i n (upd8 k b d) = upd8 (k - i) b (slice i n d)"
  by (simp add: slice_def upd8_def drop_update_swap take_update_swap Suc_diff_le)

lemma ip_valid_dec_ttl:
  assumes "ip_valid p" and "1 < get8 (pdata p) IP_TTL"
  shows "ip_valid (p\<lparr> pdata := dec_ttl_bytes (pdata p) \<rparr>)"
proof -
  note v = ip_valid_facts [OF assms(1)]
  let ?d = "pdata p" and ?n = "ip_hlen (pdata p)"
  let ?h = "slice 0 ?n ?d"
  have h: "length ?h = ?n" "get8 ?h 0 = get8 ?d 0" "get8 ?h 8 = get8 ?d 8" "get16 ?h 10 = get16 ?d 10"
    using v by (simp_all add: mem_simps)
  have "slice 0 ?n (dec_ttl_bytes ?d) = upd16 10 (dec_ttl_cksum (get16 ?h 10)) (upd8 8 (get8 ?h 8 - 1) ?h)"
    using v h by (simp add: dec_ttl_bytes_def slice_upd16_inside slice_upd8_inside)
  moreover have "click_in_cksum (upd16 10 (dec_ttl_cksum (get16 ?h 10)) (upd8 8 (get8 ?h 8 - 1) ?h)) = 0"
    using v h ip_hlen_bounds [of ?d] assms(2) by (intro dec_ttl_keeps_cksum) simp_all
  ultimately have "cksum_ok (dec_ttl_bytes ?d) 0 ?n"
    using v by (simp add: cksum_ok_def dec_ttl_bytes_def)
  then show ?thesis
    using assms(1) by (intro ip_valid_data) (simp_all add: dec_ttl_bytes_def mem_simps)
qed

lemma pkt_uniqueify_valid:
  assumes "pkt_uniqueify e p = Some r" and "ip_valid p"
  shows "ip_valid r" and "pdata r = pdata p"
proof -
  have "alloc_ok e \<or> \<not> pshared p"
    using assms(1)
    by (auto simp: pkt_uniqueify_def expensive_uniqueify_def alloc_data_def Let_def split: if_splits)
  then have "\<exists>t. r = p\<lparr> troom := t, pshared := False \<rparr> \<or> r = p"
    using assms(1) pkt_uniqueify_ok [of e p] by (auto simp: pkt_uniqueify_def split: if_splits)
  then show "ip_valid r" "pdata r = pdata p" using assms(2) by auto
qed

lemma decipttl_action_valid:
  assumes "ip_valid p" and "dt_active s" and "dt_multicast s"
  shows "decipttl_action e n p s =
    Some (if get8 (pdata p) IP_TTL \<le> 1 then (s\<lparr> dt_drops := dt_drops s + 1 \<rparr>, checked_output_push n 1 p)
          else (s, case pkt_uniqueify e p of None \<Rightarrow> [] | Some q \<Rightarrow> [(0, q\<lparr> pdata := dec_ttl_bytes (pdata q) \<rparr>)]))"
proof -
  note v = ip_valid_facts [OF assms(1)]
  have ld: "ld8 (pbuffer p) (headroom p + IP_TTL) = Some (get8 (pdata p) 8)"
    using v(1) by (simp add: pbuffer_def mem_simps)
  show ?thesis
  proof (cases "pkt_uniqueify e p")
    case None
    then show ?thesis
      using assms(2,3) ld network_pos_valid [OF assms(1)] by (simp add: decipttl_action_def)
  next
    case (Some q)
    then have q: "ip_valid q" "pdata q = pdata p" using assms(1) by (rule pkt_uniqueify_valid)+
    have "on_buffer (\<lambda>b. do {
        b \<leftarrow> st8 (headroom q + IP_TTL) (get8 (pdata p) 8 - 1) b;
        c \<leftarrow> ld16 b (headroom q + IP_SUM);
        st16 (headroom q + IP_SUM) (dec_ttl_cksum c) b
      }) q = Some (q\<lparr> pdata := dec_ttl_bytes (pdata q) \<rparr>)"
      using v(1) q(2) by (intro on_buffer_data) (simp_all add: pbuffer_def dec_ttl_bytes_def mem_simps)
    then show ?thesis
      using Some assms(2,3) ld network_pos_valid [OF assms(1)] network_pos_valid [OF q(1)]
      by (simp add: decipttl_action_def)
  qed
qed

text \<open>C33: \<^verbatim>\<open>DecIPTTL\<close> on a packet with a valid IP header: a packet whose time-to-live is at most 1
  is counted and goes to output 1, or is dropped when there is none; any other packet leaves
  on output 0 with the time-to-live decremented and again a valid header. In particular the
  checksum, which the code only adjusts, is the checksum of the new header; no other field
  and no byte of the payload changes.\<close>

theorem decipttl_action_spec:
  assumes "alloc_ok e" and "ip_valid p" and "dt_active s" and "dt_multicast s"
  shows "if get8 (pdata p) IP_TTL \<le> 1
    then decipttl_action e n p s = Some (s\<lparr> dt_drops := dt_drops s + 1 \<rparr>, checked_output_push n 1 p)
    else \<exists>q. decipttl_action e n p s = Some (s, [(0, q)]) \<and> ip_valid q \<and>
      get_ip (pdata q) 0 = (get_ip (pdata p) 0)\<lparr> ip_ttl := ip_ttl (get_ip (pdata p) 0) - 1,
        ip_sum := ip_sum (get_ip (pdata q) 0) \<rparr> \<and>
      drop 20 (pdata q) = drop 20 (pdata p)"
proof (cases "get8 (pdata p) IP_TTL \<le> 1")
  case False
  obtain t where t: "pkt_uniqueify e p = Some (p\<lparr> troom := t, pshared := False \<rparr>)"
    by (rule pkt_uniqueify_ok [OF assms(1)])
  have "ip_valid (p\<lparr> troom := t, pshared := False, pdata := dec_ttl_bytes (pdata p) \<rparr>)"
    using ip_valid_dec_ttl [of "p\<lparr> troom := t, pshared := False \<rparr>"] assms(2) False by simp
  then show ?thesis
    using False t decipttl_action_valid [OF assms(2-4), of e n] ip_valid_facts(1) [OF assms(2)]
    by (simp add: dec_ttl_bytes_def get_ip_0 mem_simps)
qed (use decipttl_action_valid [OF assms(2-4), of e n] in simp)

section \<open>CheckIPHeader\<close>

definition src_acceptable :: "checkipheader \<Rightarrow> bytes \<Rightarrow> bool" where
  "src_acceptable s d \<longleftrightarrow> get32 d IP_SRC \<notin> set (cip_bad_src s) \<or> get32 d IP_DST \<in> set (cip_good_dst s)"

text \<open>The reason for which a packet is dropped, as a function of its bytes.\<close>

definition cip_verdict :: "checkipheader \<Rightarrow> bytes \<Rightarrow> cip_reason option" where
  "cip_verdict s d =
     (if length d < 20 then Some MINISCULE_PACKET
      else if ip_v_of (get8 d 0) \<noteq> 4 then Some BAD_VERSION
      else if ip_hlen d < 20 then Some BAD_HLEN
      else if unat (ntohs (get16 d IP_LEN)) > length d \<or> unat (ntohs (get16 d IP_LEN)) < ip_hlen d then Some BAD_IP_LEN
      else if click_in_cksum (slice 0 (ip_hlen d) d) \<noteq> 0 then Some BAD_CHECKSUM
      else if \<not> src_acceptable s d then Some BAD_SADDR else None)"

lemma cip_verdict_None: "cip_verdict s d = None \<longleftrightarrow> ip_header_ok d \<and> src_acceptable s d"
  by (auto simp: cip_verdict_def ip_header_ok_def cksum_ok_def not_less)

definition cip_accept :: "packet \<Rightarrow> packet" where
  "cip_accept p =
     (let d = pdata p; len = unat (ntohs (get16 d IP_LEN));
          q = p\<lparr> net_off := Some (int (headroom p)), trans_off := Some (int (headroom p + ip_hlen d)) \<rparr>
      in (if plen p > len then pkt_take (plen p - len) q else q)\<lparr> dst_ip_anno := get32 d IP_DST \<rparr>)"

lemma checkipheader_action_verdict:
  assumes "cip_offset s = 0" and "cip_checksum s"
  shows "checkipheader_action n p s =
    (case cip_verdict s (pdata p) of Some r \<Rightarrow> Some (cip_drop n r p s) | None \<Rightarrow> Some (s, [(0, cip_accept p)]))"
proof (cases "20 \<le> plen p")
  case True
  let ?d = "pdata p" and ?len = "unat (ntohs (get16 (pdata p) IP_LEN))"
  have ld: "ld8 (pbuffer p) (headroom p) = Some (get8 ?d 0)"
      "ld16 (pbuffer p) (headroom p + IP_LEN) = Some (get16 ?d IP_LEN)"
      "ld32 (pbuffer p) (headroom p + IP_SRC) = Some (get32 ?d IP_SRC)"
      "ld32 (pbuffer p) (headroom p + IP_DST) = Some (get32 ?d IP_DST)"
    using True by (simp_all add: pbuffer_def mem_simps del: add_2_eq_Suc')
  have ck: "ip_hlen ?d \<le> ?len \<Longrightarrow> ?len \<le> plen p \<Longrightarrow>
      cksum_at (pbuffer p) (headroom p) (ip_hlen ?d) = Some (click_in_cksum (slice 0 (ip_hlen ?d) ?d))"
    by (simp add: pbuffer_def mem_simps)
  have mark: "ip_hlen ?d \<le> ?len \<Longrightarrow> ?len \<le> plen p \<Longrightarrow> set_ip_header (int (headroom p)) (ip_hlen ?d) p =
      Some (p\<lparr> net_off := Some (int (headroom p)), trans_off := Some (int (headroom p + ip_hlen ?d)) \<rparr>)"
    by (simp add: set_ip_header_def set_network_header_def pbuffer_def)
  have "uint (ntohs (get16 ?d IP_LEN)) < int (plen p) \<longleftrightarrow> ?len < plen p"
    using of_nat_less_iff [of ?len "plen p", where 'a = int] by simp
  then show ?thesis
    using True ld ck mark assms
    by (simp add: checkipheader_action_def cip_verdict_def cip_accept_def src_acceptable_def Let_def
        ip_hlen_def [symmetric] nat_diff_distrib)
qed (use assms in \<open>simp add: checkipheader_action_def cip_verdict_def\<close>)

lemma cip_accept_anno: "dst_ip_anno (cip_accept p) = get32 (pdata p) IP_DST"
  by (simp add: cip_accept_def Let_def)

lemma cip_accept_valid:
  assumes "ip_header_ok (pdata p)"
  shows "ip_valid (cip_accept p)" and "pdata (cip_accept p) = take (unat (ntohs (get16 (pdata p) IP_LEN))) (pdata p)"
proof -
  let ?d = "pdata p" and ?len = "unat (ntohs (get16 (pdata p) IP_LEN))"
  have len: "20 \<le> ?len" "?len \<le> plen p" "ip_hlen ?d \<le> ?len" using assms by (auto simp: ip_header_ok_def)
  show data: "pdata (cip_accept p) = take ?len ?d"
    using len by (auto simp: cip_accept_def pkt_take_def Let_def)
  have get: "get8 (take ?len ?d) 0 = get8 ?d 0" "get16 (take ?len ?d) IP_LEN = get16 ?d IP_LEN"
    using len by (simp_all add: get8_def get16_def)
  then have hl: "ip_hlen (take ?len ?d) = ip_hlen ?d" by (simp add: ip_hlen_def)
  have "slice 0 (ip_hlen ?d) (take ?len ?d) = slice 0 (ip_hlen ?d) ?d"
    using len by (simp add: slice_def min_absorb1)
  then have "ip_header_ok (take ?len ?d)"
    using assms len by (simp add: ip_header_ok_def hl get cksum_ok_def)
  moreover have "hroom (cip_accept p) = hroom p" "net_off (cip_accept p) = Some (int (headroom p))"
    "trans_off (cip_accept p) = Some (int (headroom p + ip_hlen ?d))"
    by (auto simp: cip_accept_def pkt_take_def Let_def)
  ultimately show "ip_valid (cip_accept p)"
    using len by (simp add: ip_valid_def data hl get)
qed

text \<open>C34: \<^verbatim>\<open>CheckIPHeader\<close> without offset lets exactly the packets with a correct IP header and an
  acceptable source pass: version 4, header and total length consistent with the packet, and
  a verifying checksum. Such a packet leaves on output 0 cut to the length in its header,
  with the header marked and the destination annotation set; every other packet is counted
  under its reason and dropped, or goes to output 1.\<close>

theorem checkipheader_action_spec:
  assumes "cip_offset s = 0" and "cip_checksum s"
  shows "if ip_header_ok (pdata p) \<and> src_acceptable s (pdata p)
    then \<exists>q. checkipheader_action n p s = Some (s, [(0, q)]) \<and> ip_valid q \<and>
      pdata q = take (unat (ntohs (get16 (pdata p) IP_LEN))) (pdata p) \<and>
      dst_ip_anno q = ip_dst (get_ip (pdata p) 0)
    else \<exists>r. cip_verdict s (pdata p) = Some r \<and> checkipheader_action n p s = Some (cip_drop n r p s)"
proof (cases "cip_verdict s (pdata p)")
  case None
  then show ?thesis
    using checkipheader_action_verdict [OF assms, of n p] cip_accept_valid [of p] cip_verdict_None [of s "pdata p"]
    by (simp add: get_ip_0 cip_accept_anno)
next
  case (Some r)
  then have "\<not> (ip_header_ok (pdata p) \<and> src_acceptable s (pdata p))"
    using cip_verdict_None [of s "pdata p"] by simp
  then show ?thesis
    using checkipheader_action_verdict [OF assms, of n p] Some by auto
qed

section \<open>Stages of the forwarding path\<close>

text \<open>
  The contract of an element on the forwarding path: what it passes on to the next element is
  a packet with a valid IP header if it was given one; a stage, moreover, does not fail on
  such a packet. Both compose.
\<close>

fun collect :: "('a \<Rightarrow> 'b list option) \<Rightarrow> 'a list \<Rightarrow> 'b list option" where
  "collect f [] = Some []"
| "collect f (x # xs) = do { a \<leftarrow> f x; b \<leftarrow> collect f xs; Some (a @ b) }"

definition main_outputs :: "emission list \<Rightarrow> packet list" where
  "main_outputs out = map snd (filter (\<lambda>x. fst x = 0) out)"

text \<open>Connecting output 0 of one element to the input of another.\<close>

definition stage_then ::
  "(env \<Rightarrow> packet \<Rightarrow> emission list option) \<Rightarrow> (env \<Rightarrow> packet \<Rightarrow> emission list option) \<Rightarrow>
   env \<Rightarrow> packet \<Rightarrow> emission list option" where
  "stage_then f g e p = do { out \<leftarrow> f e p; collect (g e) (main_outputs out) }"

lemma collect_defined: "(\<And>x. x \<in> set xs \<Longrightarrow> f x \<noteq> None) \<Longrightarrow> collect f xs \<noteq> None"
proof (induction xs)
  case (Cons x xs)
  then obtain a b where "f x = Some a" "collect f xs = Some b" by fastforce
  then show ?case by simp
qed simp

lemma collect_member:
  "collect f xs = Some ys \<Longrightarrow> y \<in> set ys \<Longrightarrow> \<exists>x \<in> set xs. \<exists>zs. f x = Some zs \<and> y \<in> set zs"
proof (induction xs arbitrary: ys)
  case (Cons x xs)
  then obtain a b where "f x = Some a" "collect f xs = Some b" "y \<in> set a \<union> set b"
    by (auto split: Option.bind_splits)
  then show ?case using Cons.IH by auto
qed simp

lemma main_outputs_iff: "q \<in> set (main_outputs out) \<longleftrightarrow> (0, q) \<in> set out"
  by (force simp: main_outputs_def)

locale ip_keeper =
  fixes act :: "env \<Rightarrow> packet \<Rightarrow> emission list option"
  assumes stage_valid: "ip_valid p \<Longrightarrow> act e p = Some out \<Longrightarrow> (0, q) \<in> set out \<Longrightarrow> ip_valid q"
begin

lemma main_outputs_valid:
  "ip_valid p \<Longrightarrow> act e p = Some out \<Longrightarrow> q \<in> set (main_outputs out) \<Longrightarrow> ip_valid q"
  by (simp add: main_outputs_iff stage_valid)

end

locale ip_stage = ip_keeper +
  assumes stage_defined: "alloc_ok e \<Longrightarrow> ip_valid p \<Longrightarrow> act e p \<noteq> None"
begin

lemma stage_result:
  assumes "alloc_ok e" and "ip_valid p"
  obtains out where "act e p = Some out" and "\<forall>q \<in> set (main_outputs out). ip_valid q"
  using stage_defined [OF assms] main_outputs_valid [OF assms(2)] that by auto

end

locale ip_keeper_pair = first: ip_keeper f + second: ip_keeper g
  for f g :: "env \<Rightarrow> packet \<Rightarrow> emission list option"

sublocale ip_keeper_pair \<subseteq> seq: ip_keeper "stage_then f g"
proof
  fix e p out q
  assume p: "ip_valid p" and out: "stage_then f g e p = Some out" and q: "(0, q) \<in> set out"
  obtain o1 where o1: "f e p = Some o1" "collect (g e) (main_outputs o1) = Some out"
    using out by (auto simp: stage_then_def split: Option.bind_splits)
  obtain x o2 where x: "x \<in> set (main_outputs o1)" "g e x = Some o2" "(0, q) \<in> set o2"
    using collect_member [OF o1(2) q] by auto
  show "ip_valid q"
    using first.main_outputs_valid [OF p o1(1) x(1)] x(2,3) by (rule second.stage_valid)
qed

locale ip_stage_pair = first: ip_stage f + second: ip_stage g
  for f g :: "env \<Rightarrow> packet \<Rightarrow> emission list option"

sublocale ip_stage_pair \<subseteq> ip_keeper_pair f g ..

sublocale ip_stage_pair \<subseteq> seq: ip_stage "stage_then f g"
proof
  fix e :: env and p
  assume e: "alloc_ok e" and p: "ip_valid p"
  obtain out where "f e p = Some out" "\<forall>q \<in> set (main_outputs out). ip_valid q"
    by (rule first.stage_result [OF e p])
  then show "stage_then f g e p \<noteq> None"
    using second.stage_defined [OF e] collect_defined [of "main_outputs out" "g e"]
    by (simp add: stage_then_def)
qed

lemma ip_valid_refill:
  assumes "ip_valid p" and "length d = plen p" and "get8 d 0 = get8 (pdata p) 0"
    and "get16 d IP_LEN = get16 (pdata p) IP_LEN" and "get16 d IP_SUM = 0"
  shows "ip_valid (p\<lparr> pdata := upd16 IP_SUM (click_in_cksum (slice 0 (ip_hlen (pdata p)) d)) d \<rparr>)"
proof -
  note v = ip_valid_facts [OF assms(1)]
  have "cksum_ok (upd16 (0 + IP_SUM) (click_in_cksum (slice 0 (ip_hlen (pdata p)) d)) d) 0 (ip_hlen (pdata p))"
    using v assms(2,5) ip_hlen_bounds [of "pdata p"] by (intro cksum_fill) simp_all
  then show ?thesis
    using assms by (intro ip_valid_data) (simp_all add: mem_simps)
qed

definition fix_src_bytes :: "ipaddr \<Rightarrow> bytes \<Rightarrow> bytes" where
  "fix_src_bytes a d =
     (let d' = upd16 IP_SUM 0 (upd32 IP_SRC a d) in upd16 IP_SUM (click_in_cksum (slice 0 (ip_hlen d) d')) d')"

lemma ip_valid_fix_src: "ip_valid p \<Longrightarrow> ip_valid (p\<lparr> pdata := fix_src_bytes a (pdata p) \<rparr>)"
  using ip_valid_refill [of p "upd16 IP_SUM 0 (upd32 IP_SRC a (pdata p))"] ip_valid_facts(1) [of p]
  by (simp add: fix_src_bytes_def Let_def mem_simps)

lemma fixipsrc_fix_it_result:
  assumes "pkt_uniqueify e p = Some r" and "ip_valid r"
  shows "fixipsrc_fix_it e a p = Some (r\<lparr> fix_ip_src_anno := 0, pdata := fix_src_bytes a (pdata r) \<rparr>)"
proof -
  let ?q = "r\<lparr> fix_ip_src_anno := 0 \<rparr>"
  note v = ip_valid_facts [OF assms(2)]
  have "on_buffer (\<lambda>b. do {
         b \<leftarrow> st32 (headroom r + IP_SRC) a b;
         vhl \<leftarrow> ld8 b (headroom r);
         b \<leftarrow> st16 (headroom r + IP_SUM) 0 b;
         c \<leftarrow> cksum_at b (headroom r) (4 * ip_hl_of vhl);
         st16 (headroom r + IP_SUM) c b
       }) ?q = Some (?q\<lparr> pdata := fix_src_bytes a (pdata r) \<rparr>)"
    using v by (intro on_buffer_data)
      (simp_all add: pbuffer_def fix_src_bytes_def Let_def mem_simps ip_hlen_def)
  then show ?thesis
    using assms network_pos_valid [of ?q] by (simp add: fixipsrc_fix_it_def)
qed

lemma fixipsrc_action_valid:
  assumes "ip_valid p"
  shows "fixipsrc_action e a p =
    (if fix_ip_src_anno p \<noteq> 0
     then map_option (\<lambda>r. [(0, r\<lparr> fix_ip_src_anno := 0, pdata := fix_src_bytes a (pdata r) \<rparr>)]) (pkt_uniqueify e p)
     else Some [(0, p)])"
proof -
  have net: "net_off p \<noteq> None" using assms by (simp add: ip_valid_def)
  show ?thesis
  proof (cases "pkt_uniqueify e p")
    case None
    then show ?thesis by (simp add: fixipsrc_action_def fixipsrc_fix_it_def net)
  next
    case (Some r)
    then have "ip_valid r" using assms by (rule pkt_uniqueify_valid)
    then show ?thesis
      using fixipsrc_fix_it_result [OF Some, of a] Some net by (simp add: fixipsrc_action_def)
  qed
qed

interpretation fixipsrc: ip_stage "\<lambda>e. fixipsrc_action e a" for a
proof
  fix e :: env and p
  assume "alloc_ok e" and p: "ip_valid p"
  then show "fixipsrc_action e a p \<noteq> None"
    using pkt_uniqueify_ok [of e p] by (auto simp: fixipsrc_action_valid [OF p])
next
  fix e p out q
  assume p: "ip_valid p" and "fixipsrc_action e a p = Some out" "(0, q) \<in> set out"
  then consider "q = p" | r where "pkt_uniqueify e p = Some r"
    "q = r\<lparr> fix_ip_src_anno := 0, pdata := fix_src_bytes a (pdata r) \<rparr>"
    by (auto simp: fixipsrc_action_valid split: if_splits)
  then show "ip_valid q"
  proof cases
    case (2 r)
    then have "ip_valid (r\<lparr> fix_ip_src_anno := 0 \<rparr>)" using p pkt_uniqueify_valid by simp
    then show ?thesis using ip_valid_fix_src [of "r\<lparr> fix_ip_src_anno := 0 \<rparr>" a] 2(2) by simp
  qed (use p in simp)
qed

text \<open>\<^verbatim>\<open>DecIPTTL\<close> with its default arguments, whatever its counter says.\<close>

interpretation decipttl: ip_stage "\<lambda>e p. map_option snd (decipttl_action e n p
    \<lparr> dt_drops = c, dt_active = True, dt_multicast = True \<rparr>)" for n c
proof
  fix e p out q
  assume p: "ip_valid p" and "(0, q) \<in> set out"
    and "map_option snd (decipttl_action e n p \<lparr> dt_drops = c, dt_active = True, dt_multicast = True \<rparr>) = Some out"
  then obtain r where r: "pkt_uniqueify e p = Some r" "q = r\<lparr> pdata := dec_ttl_bytes (pdata r) \<rparr>"
    and "1 < get8 (pdata p) IP_TTL"
    by (auto simp: decipttl_action_valid checked_output_push_def split: if_splits option.splits)
  then show "ip_valid q"
    using pkt_uniqueify_valid [OF r(1) p] ip_valid_dec_ttl [of r] by simp
qed (simp add: decipttl_action_valid)

interpretation paint: ip_stage "\<lambda>e p. Some (paint_action c p)" for c
  by unfold_locales (auto simp: paint_action_def)

interpretation painttee: ip_stage "\<lambda>e. painttee_action e c" for c
  by unfold_locales (auto simp: painttee_action_def pkt_clone_def split: if_splits)

interpretation dropbroadcasts: ip_stage "\<lambda>e p. Some (snd (dropbroadcasts_action n c p))" for n c
  by unfold_locales (auto simp: dropbroadcasts_action_def split: if_splits)

section \<open>Witnesses\<close>

text \<open>A 60-byte packet with the given first byte (version and header length) and time-to-live, its
  options all end-of-list.\<close>

definition sample_ip_bytes :: "byte \<Rightarrow> byte \<Rightarrow> bytes" where
  "sample_ip_bytes vhl ttl = upd8 IP_TTL ttl (upd16 IP_LEN (htons 60) (upd8 0 vhl (zeros 60)))"

definition sample_ip_data :: "byte \<Rightarrow> byte \<Rightarrow> bytes" where
  "sample_ip_data vhl ttl =
     upd16 IP_SUM (click_in_cksum (slice 0 (ip_hlen (sample_ip_bytes vhl ttl)) (sample_ip_bytes vhl ttl)))
       (sample_ip_bytes vhl ttl)"

definition sample_ip :: "byte \<Rightarrow> byte \<Rightarrow> packet" where
  "sample_ip vhl ttl =
     (the (pkt_make env0 0 (Some (sample_ip_data vhl ttl)) 60 0))
       \<lparr> net_off := Some 0, trans_off := Some (int (4 * ip_hl_of vhl)) \<rparr>"

lemma sample_ip_bytes_fields:
  "length (sample_ip_bytes vhl ttl) = 60" "get8 (sample_ip_bytes vhl ttl) 0 = vhl"
  "get16 (sample_ip_bytes vhl ttl) IP_LEN = htons 60" "get8 (sample_ip_bytes vhl ttl) IP_TTL = ttl"
  "get16 (sample_ip_bytes vhl ttl) IP_SUM = 0" "ip_hlen (sample_ip_bytes vhl ttl) = 4 * ip_hl_of vhl"
  by (simp_all add: sample_ip_bytes_def mem_simps ip_hlen_def)

lemma sample_ip_fields [simp]:
  "pdata (sample_ip vhl ttl) = sample_ip_data vhl ttl" "headroom (sample_ip vhl ttl) = 0"
  "tailroom (sample_ip vhl ttl) = 4" "\<not> pshared (sample_ip vhl ttl)"
  "length (sample_ip_data vhl ttl) = 60" "get8 (sample_ip_data vhl ttl) 0 = vhl"
  "get8 (sample_ip_data vhl ttl) IP_TTL = ttl" "get16 (sample_ip_data vhl ttl) IP_LEN = htons 60"
  by (simp_all add: sample_ip_def sample_ip_data_def sample_ip_bytes_fields mem_simps)
    (simp_all add: pkt_make_def alloc_data_def Let_def env0_def min_buffer_length_def)

lemma sample_ip_ok:
  assumes "vhl = 0x45 \<or> vhl = 0x46"
  shows "ip_header_ok (sample_ip_data vhl ttl)" and "ip_valid (sample_ip vhl ttl)"
proof -
  let ?n = "4 * ip_hl_of vhl"
  have n: "20 \<le> ?n" "?n \<le> 60" "ip_v_of vhl = 4" using assms by (auto simp: ip_hl_of_def ip_v_of_def)
  have "cksum_ok (upd16 (0 + IP_SUM) (click_in_cksum (slice 0 ?n (sample_ip_bytes vhl ttl))) (sample_ip_bytes vhl ttl)) 0 ?n"
    using n by (intro cksum_fill) (simp_all add: sample_ip_bytes_fields)
  then have "cksum_ok (sample_ip_data vhl ttl) 0 ?n"
    by (simp add: sample_ip_data_def sample_ip_bytes_fields)
  moreover have "unat (ntohs (htons 60)) = 60" by simp
  ultimately show ok: "ip_header_ok (sample_ip_data vhl ttl)"
    using n by (simp add: ip_header_ok_def ip_hlen_def)
  have "net_off (sample_ip vhl ttl) = Some 0" "trans_off (sample_ip vhl ttl) = Some (int ?n)"
    by (simp_all add: sample_ip_def)
  then show "ip_valid (sample_ip vhl ttl)" using ok by (simp add: ip_valid_def ip_hlen_def)
qed

theorem decipttl_action_spec_witness:
  "\<exists>q. decipttl_action env0 2 (sample_ip 0x45 64) \<lparr> dt_drops = 0, dt_active = True, dt_multicast = True \<rparr> =
      Some (\<lparr> dt_drops = 0, dt_active = True, dt_multicast = True \<rparr>, [(0, q)]) \<and>
    ip_valid q \<and> ip_ttl (get_ip (pdata q) 0) = 63"
  using decipttl_action_spec [of env0 "sample_ip 0x45 64"
      "\<lparr> dt_drops = 0, dt_active = True, dt_multicast = True \<rparr>" 2] sample_ip_ok(2) [of "0x45" 64]
  by (auto simp: get_ip_0 word_le_nat_alt)

theorem checkipheader_action_spec_witness:
  "\<exists>q. checkipheader_action 1 (sample_ip 0x46 9)
      \<lparr> cip_offset = 0, cip_checksum = True, cip_bad_src = [], cip_good_dst = [], cip_drops = 0, cip_reason_drops = None \<rparr> =
      Some (\<lparr> cip_offset = 0, cip_checksum = True, cip_bad_src = [], cip_good_dst = [], cip_drops = 0,
               cip_reason_drops = None \<rparr>, [(0, q)]) \<and> ip_valid q"
  using checkipheader_action_spec [of "\<lparr> cip_offset = 0, cip_checksum = True, cip_bad_src = [],
      cip_good_dst = [], cip_drops = 0, cip_reason_drops = None \<rparr>" "sample_ip 0x46 9" 1] sample_ip_ok(1) [of "0x46" 9]
  by (auto simp: src_acceptable_def)

end
