(* ===== verification/Click_ARPMessage.thy ===== *)
theory Click_ARPMessage
  imports Click_ARPTable Click_IPElements
begin

unbundle bit_operations_syntax

text \<open>
  Ethernet and ARP headers (\<^verbatim>\<open>include/clicknet/ether.h\<close>) and the frames that \<^verbatim>\<open>ARPQuerier\<close> and
  \<^verbatim>\<open>ARPResponder\<close> build: every one of their 42 bytes is written.
\<close>

section \<open>Headers\<close>

definition ETHERTYPE_IP :: u16 where "ETHERTYPE_IP = 0x0800"
definition ETHERTYPE_ARP :: u16 where "ETHERTYPE_ARP = 0x0806"
definition ARPHRD_ETHER :: u16 where "ARPHRD_ETHER = 1"
definition ARPOP_REQUEST :: u16 where "ARPOP_REQUEST = 1"
definition ARPOP_REPLY :: u16 where "ARPOP_REPLY = 2"

record click_ether =
  ether_dhost :: etheraddr
  ether_shost :: etheraddr
  ether_type :: u16

record click_ether_arp =
  ar_hrd :: u16
  ar_pro :: u16
  ar_hln :: byte
  ar_pln :: byte
  ar_op :: u16
  arp_sha :: etheraddr
  arp_spa :: ipaddr
  arp_tha :: etheraddr
  arp_tpa :: ipaddr

definition get_ether :: "bytes \<Rightarrow> click_ether" where
  "get_ether d = \<lparr> ether_dhost = slice 0 6 d, ether_shost = slice 6 6 d, ether_type = get16 d 12 \<rparr>"

definition get_ether_arp :: "bytes \<Rightarrow> click_ether_arp" where
  "get_ether_arp d =
     \<lparr> ar_hrd = get16 d 14, ar_pro = get16 d 16, ar_hln = get8 d 18, ar_pln = get8 d 19, ar_op = get16 d 20,
       arp_sha = slice 22 6 d, arp_spa = get32 d 28, arp_tha = slice 32 6 d, arp_tpa = get32 d 38 \<rparr>"

abbreviation (input) sizeof_click_ether_arp :: nat where "sizeof_click_ether_arp \<equiv> 28"

text \<open>The bytes of a word in memory.\<close>

definition bytes16 :: "u16 \<Rightarrow> bytes" where "bytes16 w = [lo8 w, hi8 w]"
definition bytes32 :: "u32 \<Rightarrow> bytes" where "bytes32 w = bytes16 (lo16 w) @ bytes16 (hi16 w)"

text \<open>A frame with an Ethernet and an ARP header.\<close>

definition arp_frame ::
  "etheraddr \<Rightarrow> etheraddr \<Rightarrow> u16 \<Rightarrow> etheraddr \<Rightarrow> ipaddr \<Rightarrow> etheraddr \<Rightarrow> ipaddr \<Rightarrow> bytes" where
  "arp_frame dhost shost op sha spa tha tpa =
     dhost @ shost @ bytes16 (htons ETHERTYPE_ARP) @
     bytes16 (htons ARPHRD_ETHER) @ bytes16 (htons ETHERTYPE_IP) @ [6, 4] @ bytes16 (htons op) @
     sha @ bytes32 spa @ tha @ bytes32 tpa"

text \<open>The position of the Ethernet header in the buffer.\<close>

definition mac_pos :: "packet \<Rightarrow> nat option" where
  "mac_pos p = do { k \<leftarrow> mac_off p; if 0 \<le> k then Some (nat k) else None }"

section \<open>Lemmas\<close>

lemma length_bytes [simp]: "length (bytes16 w) = 2" "length (bytes32 v) = 4"
  by (simp_all add: bytes16_def bytes32_def)

lemma length_six:
  assumes "length (xs :: 'a list) = 6"
  obtains a b c d e f where "xs = [a, b, c, d, e, f]"
  using assms by (auto simp: length_Suc_conv eval_nat_numeral)

lemma le_split: "le16 (lo8 w) (hi8 w) = w" "le32 (lo16 v) (hi16 v) = v"
  by (simp_all add: word_unat_eq_iff wrd_simps)

lemma arp_frame_fields:
  assumes "length dhost = 6" and "length shost = 6" and "length sha = 6" and "length tha = 6"
  shows "length (arp_frame dhost shost op sha spa tha tpa) = 42"
    and "get_ether (arp_frame dhost shost op sha spa tha tpa) =
      \<lparr> ether_dhost = dhost, ether_shost = shost, ether_type = htons ETHERTYPE_ARP \<rparr>"
    and "get_ether_arp (arp_frame dhost shost op sha spa tha tpa) =
      \<lparr> ar_hrd = htons ARPHRD_ETHER, ar_pro = htons ETHERTYPE_IP, ar_hln = 6, ar_pln = 4, ar_op = htons op,
        arp_sha = sha, arp_spa = spa, arp_tha = tha, arp_tpa = tpa \<rparr>"
proof -
  obtain a0 a1 a2 a3 a4 a5 where a: "dhost = [a0, a1, a2, a3, a4, a5]" by (rule length_six [OF assms(1)])
  obtain b0 b1 b2 b3 b4 b5 where b: "shost = [b0, b1, b2, b3, b4, b5]" by (rule length_six [OF assms(2)])
  obtain c0 c1 c2 c3 c4 c5 where c: "sha = [c0, c1, c2, c3, c4, c5]" by (rule length_six [OF assms(3)])
  obtain d0 d1 d2 d3 d4 d5 where d: "tha = [d0, d1, d2, d3, d4, d5]" by (rule length_six [OF assms(4)])
  show "length (arp_frame dhost shost op sha spa tha tpa) = 42"
    using assms by (simp add: arp_frame_def)
  show "get_ether (arp_frame dhost shost op sha spa tha tpa) =
      \<lparr> ether_dhost = dhost, ether_shost = shost, ether_type = htons ETHERTYPE_ARP \<rparr>"
    by (simp add: a b get_ether_def arp_frame_def slice_def get16_def bytes16_def le_split)
  show "get_ether_arp (arp_frame dhost shost op sha spa tha tpa) =
      \<lparr> ar_hrd = htons ARPHRD_ETHER, ar_pro = htons ETHERTYPE_IP, ar_hln = 6, ar_pln = 4, ar_op = htons op,
        arp_sha = sha, arp_spa = spa, arp_tha = tha, arp_tpa = tpa \<rparr>"
    by (simp add: a b c d get_ether_arp_def arp_frame_def slice_def get8_def get16_def get32_def bytes16_def bytes32_def le_split)
qed

lemma push_mac_header_result:
  assumes "push_mac_header e n p = Some q"
  shows "plen q = n + plen p" and "drop n (pdata q) = pdata p" and "\<not> pshared q" and "mac_off q = Some (int (headroom q))"
    and "dst_ip_anno q = dst_ip_anno p"
proof -
  obtain r where r: "pkt_push e n p = Some r" and q: "q = r\<lparr> mac_off := Some (int (headroom r)), net_off := Some (int (headroom r) + int n) \<rparr>"
    using assms by (auto simp: push_mac_header_def set_mac_header_def split: Option.bind_splits if_splits)
  have "dst_ip_anno r = dst_ip_anno p"
    using r by (auto simp: pkt_push_def data_down_def expensive_push_def expensive_uniqueify_def shift_header_annotations_def Let_def
        split: if_splits Option.bind_splits)
  then show "plen q = n + plen p" "drop n (pdata q) = pdata p" "\<not> pshared q" "mac_off q = Some (int (headroom q))"
    "dst_ip_anno q = dst_ip_anno p"
    using pkt_push_result [OF r] by (simp_all add: q)
qed

lemma push_mac_header_some:
  assumes "alloc_ok e"
  obtains q where "push_mac_header e n p = Some q"
proof -
  obtain r where r: "pkt_push e n p = Some r"
    using assms by (cases "pkt_push e n p")
      (auto simp: pkt_push_def expensive_push_def expensive_uniqueify_def alloc_data_def Let_def split: if_splits)
  then have "n \<le> plen r" using pkt_push_result(1) by simp
  then show ?thesis using that r by (simp add: push_mac_header_def set_mac_header_def pbuffer_def)
qed

end
