(* ===== verification/Click_ARPQuerier.thy ===== *)
theory Click_ARPQuerier
  imports Click_ARPMessage
begin

unbundle bit_operations_syntax

text \<open>
  \<^verbatim>\<open>ARPQuerier\<close> (\<^verbatim>\<open>elements/ethernet/arpquerier.cc\<close>) puts an Ethernet header in front of IP packets. It
  looks the next hop up in an \<^verbatim>\<open>ARPTable\<close>; while the address is not known, the packet waits in the
  table and a query goes out, and the reply releases the packets that wait.

  The state of the element is a record and the table it uses. Input 0 is for IP packets, input 1 for
  ARP replies; queries leave on the last output. \<open>now\<close> is the time, the same for all the calls of a
  handler. The time stamp and VLAN annotations of queries are not modelled.
\<close>

section \<open>The program\<close>

record arpquerier =
  aq_my_en :: etheraddr
  aq_my_ip :: ipaddr
  aq_my_bcast_ip :: ipaddr
  aq_poll_timeout :: u32
  aq_broadcast_poll :: bool
  aq_arp_queries :: u32
  aq_drops :: u32
  aq_arp_responses :: u32
  aq_my_arpt :: bool
  aq_zero_warned :: bool

text \<open>The arguments, as parsed: the address with its mask, and the optional ones.\<close>

record arpquerier_args =
  arg_IP :: ipaddr
  arg_MASK :: ipaddr
  arg_ETH :: etheraddr
  arg_BROADCAST :: "ipaddr option"
  arg_POLL_TIMEOUT :: "nat option"
  arg_BROADCAST_POLL :: "bool option"
  arg_TABLE_ARGS :: arptable_args

definition aq_bcast_ip :: "arpquerier_args \<Rightarrow> ipaddr" where
  "aq_bcast_ip a =
     (case arg_BROADCAST a of
        Some b \<Rightarrow> b
      | None \<Rightarrow> let b = arg_IP a OR NOT (arg_MASK a) in if b = arg_IP a then 0xFFFFFFFF else b)"

definition aq_poll_jiffies :: "nat \<Rightarrow> u32" where
  "aq_poll_jiffies ms = (if (of_nat (ms div 1000) :: u32) \<ge> 0xFFFFFFFF div CLICK_HZ then 0 else of_nat ms)"

text \<open>\<^verbatim>\<open>configure\<close> and \<^verbatim>\<open>initialize\<close>, with a table of its own or a given one; the result of the
  table's \<^verbatim>\<open>configure\<close> is not looked at. \<open>tj\<close> is the uninitialised timeout of a new table.\<close>

definition arpquerier_configure ::
  "arpquerier_args option \<Rightarrow> arptable option \<Rightarrow> u32 \<Rightarrow> int \<times> (arpquerier \<times> arptable) option" where
  "arpquerier_configure conf shared tj =
     (case conf of
        None \<Rightarrow> (- 1, None)
      | Some a \<Rightarrow>
          (0, Some (\<lparr> aq_my_en = arg_ETH a, aq_my_ip = arg_IP a, aq_my_bcast_ip = aq_bcast_ip a,
                      aq_poll_timeout = aq_poll_jiffies (case arg_POLL_TIMEOUT a of None \<Rightarrow> 60000 | Some ms \<Rightarrow> ms),
                      aq_broadcast_poll = (case arg_BROADCAST_POLL a of None \<Rightarrow> False | Some b \<Rightarrow> b),
                      aq_arp_queries = 0, aq_drops = 0, aq_arp_responses = 0,
                      aq_my_arpt = (shared = None), aq_zero_warned = False \<rparr>,
                    case shared of
                      Some t \<Rightarrow> t
                    | None \<Rightarrow> snd (arptable_configure (Some (arg_TABLE_ARGS a)) (arptable_new tj)))))"

definition aq_live_reconfigure ::
  "arpquerier_args option \<Rightarrow> arpquerier \<times> arptable \<Rightarrow> int \<times> arpquerier \<times> arptable" where
  "aq_live_reconfigure conf st =
     (case (conf, st) of
        (None, s, t) \<Rightarrow> (- 1, s, t)
      | (Some a, s, t) \<Rightarrow>
          let targs = arg_TABLE_ARGS a; opt = (\<lambda>(d :: u32) x. case x of None \<Rightarrow> d | Some v \<Rightarrow> v)
          in if arg_CAPACITY_SLIM_FACTOR targs = Some 0 then (- 22, s, t)
             else
               let t = (if (arg_IP a \<noteq> aq_my_ip s \<or> arg_ETH a \<noteq> aq_my_en s) \<and> aq_my_arpt s then arp_clear t else t);
                   t = (if aq_my_arpt s
                        then t\<lparr> at_packet_capacity := opt (at_packet_capacity t) (arg_CAPACITY targs),
                               at_entry_capacity := opt (at_entry_capacity t) (arg_ENTRY_CAPACITY targs),
                               at_entry_packet_capacity := opt (at_entry_packet_capacity t) (arg_ENTRY_PACKET_CAPACITY targs),
                               at_capacity_slim_factor := opt (at_capacity_slim_factor t) (arg_CAPACITY_SLIM_FACTOR targs) \<rparr>
                        else t);
                   t = (case arg_TIMEOUT targs of Some ms \<Rightarrow> if aq_my_arpt s then at_set_timeout ms t else t | None \<Rightarrow> t);
                   s = s\<lparr> aq_my_ip := arg_IP a, aq_my_en := arg_ETH a, aq_my_bcast_ip := aq_bcast_ip a,
                          aq_broadcast_poll := (case arg_BROADCAST_POLL a of None \<Rightarrow> aq_broadcast_poll s | Some b \<Rightarrow> b),
                          aq_poll_timeout :=
                            aq_poll_jiffies (case arg_POLL_TIMEOUT a of None \<Rightarrow> unat (aq_poll_timeout s) | Some ms \<Rightarrow> ms) \<rparr>
               in (0, s, t))"

definition aq_take_state :: "arpquerier \<times> arptable \<Rightarrow> arpquerier \<times> arptable \<Rightarrow> arpquerier \<times> arptable" where
  "aq_take_state old st =
     (case (old, st) of
        ((q, arpt), (s, t)) \<Rightarrow>
          if aq_my_ip s \<noteq> aq_my_ip q \<or> aq_my_en s \<noteq> aq_my_en q \<or> aq_my_bcast_ip s \<noteq> aq_my_bcast_ip q then (s, t)
          else (s\<lparr> aq_arp_queries := aq_arp_queries q, aq_drops := aq_drops q, aq_arp_responses := aq_arp_responses q \<rparr>,
                if aq_my_arpt s \<and> aq_my_arpt q then fst (arp_take_state arpt t) else t))"

text \<open>\<^verbatim>\<open>send_query_for\<close>.\<close>

definition aq_send_query ::
  "env \<Rightarrow> nat \<Rightarrow> packet \<Rightarrow> bool \<Rightarrow> arpquerier \<Rightarrow> (arpquerier \<times> emission list) option" where
  "aq_send_query e nout p ether_dhost_valid s =
     (case pkt_make e (default_headroom - sizeof_click_ether) None (sizeof_click_ether + sizeof_click_ether_arp) 0 of
        None \<Rightarrow> Some (s, [])
      | Some q \<Rightarrow>
          do {
            q \<leftarrow> set_ether_header (int (headroom q)) q;
            dhost \<leftarrow> (if ether_dhost_valid \<and> \<not> aq_broadcast_poll s
                     then do { k \<leftarrow> mac_pos p;
                               if k + 6 \<le> length (pbuffer p) then Some (slice k 6 (pbuffer p)) else None }
                     else Some ether_broadcast);
            let d = arp_frame dhost (aq_my_en s) ARPOP_REQUEST (aq_my_en s) (aq_my_ip s) (zeros 6) (dst_ip_anno p);
            Some (s\<lparr> aq_arp_queries := aq_arp_queries s + 1 \<rparr>, [(nout - 1, q\<lparr> pdata := d \<rparr>)])
          })"

text \<open>The end of \<^verbatim>\<open>handle_ip\<close>: the packet leaves with our address as its source.\<close>

definition aq_emit :: "packet \<Rightarrow> arpquerier \<Rightarrow> emission option" where
  "aq_emit q s =
     do { k \<leftarrow> mac_pos q; q \<leftarrow> on_buffer (st_range (k + 6) (aq_my_en s)) q; Some (0, q) }"

definition aq_set_dhost :: "etheraddr \<Rightarrow> packet \<Rightarrow> packet option" where
  "aq_set_dhost eth q = do { k \<leftarrow> mac_pos q; on_buffer (st_range k eth) q }"

definition multicast_eth :: "ipaddr \<Rightarrow> etheraddr" where
  "multicast_eth dst_ip =
     (let addr = ntohl dst_ip
      in [0x01, 0x00, 0x5E, ucast (drop_bit 16 addr) AND 0x7F, ucast (drop_bit 8 addr), ucast addr])"

text \<open>\<^verbatim>\<open>handle_ip\<close> from the label \<^verbatim>\<open>retry_read_lock\<close> on. The jump back to it makes it a loop.\<close>

partial_function (option) aq_resolve ::
  "env \<Rightarrow> u32 \<Rightarrow> nat \<Rightarrow> packet \<Rightarrow> arpquerier \<Rightarrow> arptable \<Rightarrow> ((arpquerier \<times> arptable) \<times> emission list) option" where
  "aq_resolve e now nout q s t =
     (let dst_ip = dst_ip_anno q; (r, eth, t) = arp_lookup now dst_ip (aq_poll_timeout s) t
      in if r \<ge> 0 then
           do {
             q \<leftarrow> aq_set_dhost (the eth) q;
             if ether_is_broadcast (the eth) then None
             else do {
               (s, out) \<leftarrow> (if r > 0 then aq_send_query e nout q True s else Some (s, []));
               o1 \<leftarrow> aq_emit q s;
               Some ((s, t), out @ [o1])
             }
           }
         else if dst_ip = 0xFFFFFFFF \<or> dst_ip = aq_my_bcast_ip s then
           do { q \<leftarrow> aq_set_dhost ether_broadcast q; o1 \<leftarrow> aq_emit q s; Some ((s, t), [o1]) }
         else if is_multicast dst_ip then
           do { q \<leftarrow> aq_set_dhost (multicast_eth dst_ip) q; o1 \<leftarrow> aq_emit q s; Some ((s, t), [o1]) }
         else if dst_ip = 0 then
           Some ((s\<lparr> aq_zero_warned := True, aq_drops := aq_drops s + 1 \<rparr>, t), [])
         else
           do {
             (r, t) \<leftarrow> arp_append_query e now dst_ip q t;
             if r = - EAGAIN then aq_resolve e now nout q s t
             else if r > 0 then do { (s, out) \<leftarrow> aq_send_query e nout q False s; Some ((s, t), out) }
             else Some ((s, t), [])
           })"

definition aq_handle_ip ::
  "env \<Rightarrow> u32 \<Rightarrow> nat \<Rightarrow> packet \<Rightarrow> bool \<Rightarrow> arpquerier \<times> arptable \<Rightarrow> ((arpquerier \<times> arptable) \<times> emission list) option" where
  "aq_handle_ip e now nout p response st =
     (case st of (s, t) \<Rightarrow>
        if aq_my_ip s = 0 then Some ((s\<lparr> aq_drops := aq_drops s + 1 \<rparr>, t), [])
        else if response then if pshared p then None else aq_resolve e now nout p s t
        else
          (case push_mac_header e sizeof_click_ether p of
             None \<Rightarrow> Some ((s\<lparr> aq_drops := aq_drops s + 1 \<rparr>, t), [])
           | Some q \<Rightarrow>
               do {
                 k \<leftarrow> mac_pos q;
                 q \<leftarrow> on_buffer (st_range (k + 12) (bytes16 (htons ETHERTYPE_IP))) q;
                 aq_resolve e now nout q s t
               }))"

text \<open>The loop over the packets that waited.\<close>

fun aq_send_all ::
  "env \<Rightarrow> u32 \<Rightarrow> nat \<Rightarrow> packet list \<Rightarrow> arpquerier \<times> arptable \<Rightarrow> ((arpquerier \<times> arptable) \<times> emission list) option" where
  "aq_send_all e now nout [] st = Some (st, [])"
| "aq_send_all e now nout (p # ps) st =
     do {
       (st, out) \<leftarrow> aq_handle_ip e now nout p True st;
       (st, out') \<leftarrow> aq_send_all e now nout ps st;
       Some (st, out @ out')
     }"

text \<open>\<^verbatim>\<open>handle_response\<close>. Without memory for the entry \<^verbatim>\<open>insert\<close> leaves the pointer to the waiting packets
  uninitialised, and the loop follows it.\<close>

definition aq_handle_response ::
  "env \<Rightarrow> u32 \<Rightarrow> nat \<Rightarrow> packet \<Rightarrow> arpquerier \<times> arptable \<Rightarrow> ((arpquerier \<times> arptable) \<times> emission list) option" where
  "aq_handle_response e now nout p st =
     (if plen p < sizeof_click_ether + sizeof_click_ether_arp then Some (st, [])
      else case st of (s, t) \<Rightarrow>
        let s = s\<lparr> aq_arp_responses := aq_arp_responses s + 1 \<rparr>;
            ethh = get_ether (pdata p); arph = get_ether_arp (pdata p);
            ipa = arp_spa arph; ena = arp_sha arph
        in if ntohs (ether_type ethh) = ETHERTYPE_ARP \<and> ntohs (ar_hrd arph) = ARPHRD_ETHER
              \<and> ntohs (ar_pro arph) = ETHERTYPE_IP \<and> ntohs (ar_op arph) = ARPOP_REPLY \<and> \<not> ether_is_group ena
           then do {
             (r, cached, t) \<leftarrow> arp_insert e now ipa ena True t;
             if r < 0 then None else aq_send_all e now nout cached (s, t)
           }
           else Some ((s, t), []))"

definition aq_push ::
  "env \<Rightarrow> u32 \<Rightarrow> nat \<Rightarrow> nat \<Rightarrow> packet \<Rightarrow> arpquerier \<times> arptable \<Rightarrow> ((arpquerier \<times> arptable) \<times> emission list) option" where
  "aq_push e now nout port p st =
     (if port = 0 then aq_handle_ip e now nout p False st else aq_handle_response e now nout p st)"

definition aq_write_handler ::
  "env \<Rightarrow> u32 \<Rightarrow> arp_handler \<Rightarrow> arpquerier \<times> arptable \<Rightarrow> (int \<times> arpquerier \<times> arptable) option" where
  "aq_write_handler e now h st =
     (case st of (s, t) \<Rightarrow>
        if h = H_CLEAR
        then Some (0, s\<lparr> aq_arp_queries := 0, aq_drops := 0, aq_arp_responses := 0 \<rparr>, arp_clear t)
        else map_option (\<lambda>(r, t). (r, s, t)) (arptable_write_handler e now h t))"

section \<open>The packets that wait\<close>

text \<open>No operation of the table puts a packet into another queue or changes it: a property of the
  waiting packets that holds of a packet when it is appended holds as long as it waits.\<close>

definition queues_in :: "(ipaddr \<Rightarrow> packet \<Rightarrow> bool) \<Rightarrow> arptable \<Rightarrow> bool" where
  "queues_in Q t \<longleftrightarrow> hcn_inv ip_hashcode (at_table t) \<and>
     (\<forall>ip ae. at_get t ip = Some ae \<longrightarrow> (\<forall>p\<in>set (ae_queue ae). Q ip p))"

lemma queues_inD: "queues_in Q t \<Longrightarrow> at_get t ip = Some ae \<Longrightarrow> p \<in> set (ae_queue ae) \<Longrightarrow> Q ip p"
  by (auto simp: queues_in_def)

lemma queues_in_fields [simp]:
  "queues_in Q (t\<lparr> at_age := a \<rparr>) = queues_in Q t" "queues_in Q (t\<lparr> at_entry_count := n \<rparr>) = queues_in Q t"
  "queues_in Q (t\<lparr> at_packet_count := n \<rparr>) = queues_in Q t" "queues_in Q (t\<lparr> at_drops := n \<rparr>) = queues_in Q t"
  "queues_in Q (t\<lparr> at_expire_timer := x \<rparr>) = queues_in Q t"
  by (simp_all add: queues_in_def)

lemma queues_in_put:
  assumes "queues_in Q t" and "\<And>p. p \<in> set (ae_queue ae) \<Longrightarrow> Q ip p"
  shows "queues_in Q (at_put ip ae t)"
  using assms at_get_put [of t] by (auto simp: queues_in_def split: if_splits)

lemma queues_in_erase:
  assumes "queues_in Q t"
  shows "queues_in Q (t\<lparr> at_table := hcn_erase ip_hashcode ip (at_table t) \<rparr>)"
  using assms at_get_erase [of t ip] hcn.inv_erase [of ip_hashcode "at_table t" ip] by (auto simp: queues_in_def split: if_splits)

lemma slim_entries_queues: "slim_entries now age t = Some t' \<Longrightarrow> queues_in Q t \<Longrightarrow> queues_in Q t'"
proof (induction now age t rule: slim_entries.induct)
  case (2 now ip rest t)
  then show ?case
    using queues_in_erase [OF "2.prems"(2), of ip]
    by (auto simp: queues_in_def at_get_def fun_eq_iff split: Option.bind_splits if_splits)
qed auto

lemma slim_queue_subset: "set (fst (slim_queue cap q s)) \<subseteq> set q"
  by (induction cap q s rule: slim_queue.induct) auto

lemma slim_packets_queues: "slim_packets cap age t = Some t' \<Longrightarrow> queues_in Q t \<Longrightarrow> queues_in Q t'"
proof (induction cap age t rule: slim_packets.induct)
  case (2 cap ip rest t)
  show ?case
  proof (cases "at_packet_count t > cap")
    case True
    then obtain ae q n m d where ae: "at_get t ip = Some ae"
      and q: "slim_queue cap (ae_queue ae) (at_packet_count t, ae_count ae, at_drops t) = (q, n, m, d)"
      using "2.prems"(1) by (auto split: Option.bind_splits prod.splits)
    have "queues_in Q (at_put ip (ae\<lparr> ae_queue := q, ae_count := m \<rparr>) t)"
      using slim_queue_subset [of cap "ae_queue ae" "(at_packet_count t, ae_count ae, at_drops t)"] q "2.prems"(2) ae
      by (intro queues_in_put) (auto dest: queues_inD)
    then show ?thesis using "2.IH" [OF True ae q [symmetric] refl refl refl] "2.prems"(1) True ae q by simp
  qed (use 2 in simp)
qed (auto split: if_splits)

lemma arp_slim_queues: "arp_slim now t = Some t' \<Longrightarrow> queues_in Q t \<Longrightarrow> queues_in Q t'"
  by (auto simp: arp_slim_def split: Option.bind_splits if_splits dest: slim_entries_queues slim_packets_queues)

lemma at_balance_queues:
  assumes "at_balance e t = Some t'" and "queues_in Q t"
  shows "queues_in Q t'"
proof -
  obtain c where c: "hcn_balance ip_hashcode True (at_table t) = Some c" "t' = t\<lparr> at_table := c \<rparr>"
    using at_balance_mem [OF assms(1)] by (auto simp: at_balance_def split: Option.bind_splits)
  have "hcn_inv ip_hashcode (at_table t)" using assms(2) by (simp add: queues_in_def)
  then obtain c' where "hcn_balance ip_hashcode True (at_table t) = Some c'" "hcn_inv ip_hashcode c'"
    "hcn_find ip_hashcode c' = hcn_find ip_hashcode (at_table t)" by (rule hcn_balance_correct)
  then show ?thesis using c assms(2) by (auto simp: queues_in_def at_get_def)
qed

lemma arp_ensure_queues:
  assumes "arp_ensure e ip now t = Some (ok, t')" and "queues_in Q t"
  shows "queues_in Q t'"
proof (cases "at_get t ip")
  case None
  have new: "queues_in Q (at_put ip (arp_new_entry now) v)" if "queues_in Q v" for v
    by (rule queues_in_put [OF that]) (simp add: arp_new_entry_def)
  show ?thesis
    using assms None new
    by (auto simp: arp_ensure_def Let_def split: Option.bind_splits if_splits dest!: arp_slim_queues [where Q = Q])
qed (use assms in \<open>auto simp: arp_ensure_def\<close>)

lemma arp_insert_queues:
  assumes "arp_insert e now ip eth w t = Some (r, ps, t')" and "queues_in Q t"
  shows "queues_in Q t' \<and> (\<forall>p\<in>set ps. Q ip p)"
proof -
  obtain ok u where u: "arp_ensure e ip now t = Some (ok, u)" using assms(1) by (auto simp: arp_insert_def split: Option.bind_splits)
  have q: "queues_in Q u" by (rule arp_ensure_queues [OF u assms(2)])
  show ?thesis
  proof (cases ok)
    case True
    then obtain ae where ae: "at_get u ip = Some ae" using assms(1) u by (auto simp: arp_insert_def split: Option.bind_splits)
    have ps: "ps = (if w then ae_queue ae else [])"
      and ae': "\<exists>ae' v. at_balance e (at_put ip ae' v) = Some t' \<and> set (ae_queue ae') \<subseteq> set (ae_queue ae) \<and> queues_in Q v"
      using assms(1) u True ae q
      by (cases w; cases "last (at_age u) = ip"; force simp: arp_insert_def Let_def split: Option.bind_splits)+
    then show ?thesis
      using ae queues_inD [OF q ae] by (auto elim!: at_balance_queues intro!: queues_in_put)
  qed (use assms(1) u q in \<open>auto simp: arp_insert_def\<close>)
qed

lemma arp_refresh_queues:
  assumes "arp_refresh now ip ae t = Some (ae', t')" and "at_get t ip = Some ae" and "queues_in Q t"
  shows "queues_in Q t'"
  using assms
  by (auto simp: arp_refresh_def Let_def split: Option.bind_splits if_splits intro!: queues_in_put dest: queues_inD)

lemma arp_enqueue_queues:
  assumes "arp_enqueue e now ip p ae t = Some (r, t')" and "queues_in Q t" and "Q ip p"
  shows "queues_in Q t'"
proof -
  have put: "queues_in Q (at_put ip (ae'\<lparr> ae_queue := ae_queue ae' @ [p], ae_count := c \<rparr>) u)"
    "queues_in Q (at_put ip (arp_mark_poll now (ae'\<lparr> ae_queue := ae_queue ae' @ [p], ae_count := c \<rparr>)) u)"
    if "queues_in Q u" "at_get u ip = Some ae'" for u ae' c
    using that assms(3) by (auto intro!: queues_in_put simp: arp_mark_poll_def dest: queues_inD)
  show ?thesis
    using assms(1,2)
    by (auto simp: arp_enqueue_def Let_def split: Option.bind_splits if_splits
        dest!: arp_slim_queues [where Q = Q] elim!: at_balance_queues [where Q = Q] intro: put)
qed

lemma arp_append_queues:
  assumes "arp_append_query e now ip p t = Some (r, t')" and "queues_in Q t" and "Q ip p"
  shows "queues_in Q t'"
  using assms
  by (auto simp: arp_append_query_def split: Option.bind_splits if_splits
      dest!: arp_ensure_queues [where Q = Q] arp_refresh_queues [where Q = Q] elim!: arp_enqueue_queues [where Q = Q])

lemma arp_lookup_queues: "queues_in Q t \<Longrightarrow> queues_in Q (snd (snd (arp_lookup now ip poll t)))"
  by (auto simp: arp_lookup_def arp_mark_poll_def split: option.split intro!: queues_in_put dest: queues_inD)

lemma arptable_run_timer_queues: "arptable_run_timer now t = Some t' \<Longrightarrow> queues_in Q t \<Longrightarrow> queues_in Q t'"
  by (auto simp: arptable_run_timer_def split: Option.bind_splits if_splits dest: arp_slim_queues)

section \<open>Frames\<close>

text \<open>A packet with room for the addresses: the Ethernet header is in front of its data, with the type
  filled in.\<close>

definition framed :: "bytes \<Rightarrow> packet \<Rightarrow> bool" where
  "framed d q \<longleftrightarrow> mac_off q = Some (int (headroom q)) \<and> \<not> pshared q \<and> plen q = 14 + length d \<and>
     drop 12 (pdata q) = bytes16 (htons ETHERTYPE_IP) @ d"

abbreviation ip_frame :: "etheraddr \<Rightarrow> etheraddr \<Rightarrow> bytes \<Rightarrow> bytes" where
  "ip_frame dhost shost d \<equiv> dhost @ shost @ bytes16 (htons ETHERTYPE_IP) @ d"

lemma mac_pos_head: "mac_off q = Some (int (headroom q)) \<Longrightarrow> mac_pos q = Some (headroom q)"
  by (simp add: mac_pos_def)

lemma aq_set_dhost_framed:
  assumes "framed d q" and "length eth = 6"
  shows "aq_set_dhost eth q = Some (q\<lparr> pdata := eth @ drop 6 (pdata q) \<rparr>)"
    and "framed d (q\<lparr> pdata := eth @ drop 6 (pdata q) \<rparr>)"
  using assms on_buffer_st_range [of 0 eth q] by (simp_all add: framed_def aq_set_dhost_def mac_pos_head)

lemma aq_emit_framed:
  assumes "framed d q" and "length (aq_my_en s) = 6" and "take 6 (pdata q) = eth"
  shows "aq_emit q s = Some (0, q\<lparr> pdata := ip_frame eth (aq_my_en s) d \<rparr>)"
  using assms on_buffer_st_range [of 6 "aq_my_en s" q] by (simp add: framed_def aq_emit_def mac_pos_head)

lemma aq_send_framed:
  assumes "framed d q" and "length (aq_my_en s) = 6" and "length eth = 6"
  shows "aq_emit (q\<lparr> pdata := eth @ drop 6 (pdata q) \<rparr>) s = Some (0, q\<lparr> pdata := ip_frame eth (aq_my_en s) d \<rparr>)"
  using aq_emit_framed [OF aq_set_dhost_framed(2) [OF assms(1,3)] assms(2), of eth] assms(3) by simp

lemma aq_emit_counter [simp]: "aq_emit q (s\<lparr> aq_arp_queries := n \<rparr>) = aq_emit q s"
  by (simp add: aq_emit_def)

text \<open>The query: a broadcast, or, as a poll of a known address, sent to this address.\<close>

definition query_for :: "arpquerier \<Rightarrow> etheraddr \<Rightarrow> ipaddr \<Rightarrow> bytes" where
  "query_for s dhost ip = arp_frame dhost (aq_my_en s) ARPOP_REQUEST (aq_my_en s) (aq_my_ip s) (zeros 6) ip"

lemma aq_send_query_result:
  assumes "alloc_ok e" and "valid \<Longrightarrow> framed d p"
  shows "\<exists>q. aq_send_query e nout p valid s = Some (s\<lparr> aq_arp_queries := aq_arp_queries s + 1 \<rparr>, [(nout - 1, q)]) \<and>
    pdata q = query_for s (if valid \<and> \<not> aq_broadcast_poll s then take 6 (pdata p) else ether_broadcast) (dst_ip_anno p)"
proof -
  obtain r where r: "pkt_make e (default_headroom - 14) None 42 0 = Some r" "headroom r = default_headroom - 14" "plen r = 42"
    using pkt_make_Some [OF assms(1)] by metis
  then obtain r' where r': "set_ether_header (int (headroom r)) r = Some r'"
    by (simp add: set_ether_header_def set_mac_header_def pbuffer_def)
  have "mac_pos p = Some (headroom p)" "headroom p + 6 \<le> length (pbuffer p)"
    "slice (headroom p) 6 (pbuffer p) = take 6 (pdata p)" if "valid"
    using assms(2) [OF that] by (simp_all add: framed_def mac_pos_head pbuffer_def slice_def)
  then show ?thesis using r r' by (cases valid) (simp_all add: aq_send_query_def query_for_def Let_def)
qed

section \<open>Resolution\<close>

text \<open>The address a packet goes to, if it can be sent at once.\<close>

definition next_hop :: "u32 \<Rightarrow> arpquerier \<Rightarrow> arptable \<Rightarrow> ipaddr \<Rightarrow> etheraddr option" where
  "next_hop now s t ip =
     (if known_in now t ip then map_option ae_eth (at_get t ip)
      else if ip = 0xFFFFFFFF \<or> ip = aq_my_bcast_ip s then Some ether_broadcast
      else if is_multicast ip then Some (multicast_eth ip) else None)"

lemma length_multicast_eth [simp]: "length (multicast_eth ip) = 6" "length ether_broadcast = 6"
  by (simp_all add: multicast_eth_def ether_broadcast_def Let_def)

lemma arp_lookup_unknown: "\<not> known_in now t ip \<Longrightarrow> arp_lookup now ip poll t = (- 1, None, t)"
  by (auto simp: known_in_def arp_lookup_def split: option.split)

lemma arp_lookup_hit:
  assumes "known_in now t ip" and "arp_inv t"
  obtains ae r t' where "at_get t ip = Some ae" "arp_lookup now ip poll t = (r, Some (ae_eth ae), t')" "r = 0 \<or> r = 1"
    "length (ae_eth ae) = 6" "\<not> ether_is_broadcast (ae_eth ae)"
proof -
  obtain ae where ae: "at_get t ip = Some ae" "arp_known now (at_timeout t) ae" using assms(1) by (auto simp: known_in_def)
  then have "entry_ok ae" using assms(2) by (simp add: arp_inv_off_def)
  then show ?thesis
    using that [OF ae(1), of "fst (arp_lookup now ip poll t)" "snd (snd (arp_lookup now ip poll t))"] ae
      arp_lookup_known(1) [OF ae(1), of now poll]
    by (cases "arp_lookup now ip poll t") (auto simp: entry_ok_def arp_known_def)
qed

text \<open>A packet whose next hop is settled leaves at once, behind a poll if one is due.\<close>

lemma aq_resolve_send:
  assumes "framed d q" and "arp_inv t" and "length (aq_my_en s) = 6" and "alloc_ok e"
    and "next_hop now s t (dst_ip_anno q) = Some eth"
  shows "\<exists>s' t' polls. aq_resolve e now nout q s t = Some ((s', t'), polls @ [(0, q\<lparr> pdata := ip_frame eth (aq_my_en s) d \<rparr>)]) \<and>
    t' = snd (snd (arp_lookup now (dst_ip_anno q) (aq_poll_timeout s) t)) \<and>
    s' = s\<lparr> aq_arp_queries := aq_arp_queries s + of_nat (length polls) \<rparr> \<and>
    (if fst (arp_lookup now (dst_ip_anno q) (aq_poll_timeout s) t) = 1
     then \<exists>x. polls = [(nout - 1, x)] \<and>
       pdata x = query_for s (if aq_broadcast_poll s then ether_broadcast else eth) (dst_ip_anno q)
     else polls = [])"
proof (cases "known_in now t (dst_ip_anno q)")
  case True
  then obtain ae r t' where ae: "at_get t (dst_ip_anno q) = Some ae"
    and l: "arp_lookup now (dst_ip_anno q) (aq_poll_timeout s) t = (r, Some (ae_eth ae), t')" "r = 0 \<or> r = 1"
      "length (ae_eth ae) = 6" "\<not> ether_is_broadcast (ae_eth ae)"
    by (rule arp_lookup_hit [OF _ assms(2), where poll = "aq_poll_timeout s"])
  have eth: "ae_eth ae = eth" using assms(5) True ae by (simp add: next_hop_def)
  note d = aq_set_dhost_framed [OF assms(1) l(3)] aq_send_framed [OF assms(1,3) l(3)]
  show ?thesis
  proof (cases "r = 1")
    case True
    obtain x where "aq_send_query e nout (q\<lparr> pdata := ae_eth ae @ drop 6 (pdata q) \<rparr>) True s =
        Some (s\<lparr> aq_arp_queries := aq_arp_queries s + 1 \<rparr>, [(nout - 1, x)])"
      "pdata x = query_for s (if aq_broadcast_poll s then ether_broadcast else ae_eth ae) (dst_ip_anno q)"
      using aq_send_query_result [OF assms(4), of True d "q\<lparr> pdata := ae_eth ae @ drop 6 (pdata q) \<rparr>" nout s] d(2) l(3) by auto
    then show ?thesis
      using True l d eth
      by (intro exI [of _ "s\<lparr> aq_arp_queries := aq_arp_queries s + 1 \<rparr>"] exI [of _ t'] exI [of _ "[(nout - 1, x)]"])
         (subst aq_resolve.simps, auto)
  next
    case False
    then show ?thesis
      using l d eth by (intro exI [of _ s] exI [of _ t'] exI [of _ "[]"]) (subst aq_resolve.simps, auto)
  qed
next
  case False
  then have "arp_lookup now (dst_ip_anno q) (aq_poll_timeout s) t = (- 1, None, t)" by (rule arp_lookup_unknown)
  moreover have "length eth = 6" using assms(5) False by (auto simp: next_hop_def split: if_splits)
  ultimately show ?thesis
    using assms(5) False aq_set_dhost_framed [OF assms(1)] aq_send_framed [OF assms(1,3)]
    by (intro exI [of _ s] exI [of _ t] exI [of _ "[]"]) (subst aq_resolve.simps, auto simp: next_hop_def split: if_splits)
qed

text \<open>Otherwise it waits, and the loop ends in its first round: an address that \<^verbatim>\<open>lookup\<close> does not find
  cannot make \<^verbatim>\<open>append_query\<close> answer \<^verbatim>\<open>-EAGAIN\<close>.\<close>

lemma append_not_again: "append_outcome now ip p t r t' \<Longrightarrow> \<not> known_in now t ip \<Longrightarrow> r \<noteq> - EAGAIN"
  by (auto simp: append_outcome_def ENOMEM_def EAGAIN_def split: if_splits)

lemma aq_resolve_wait:
  assumes "arp_inv t" and "arp_caps t" and "arp_room t" and "alloc_ok e"
    and "next_hop now s t (dst_ip_anno q) = None" and "dst_ip_anno q \<noteq> 0"
  shows "\<exists>r t' out. aq_resolve e now nout q s t =
      Some ((s\<lparr> aq_arp_queries := aq_arp_queries s + of_nat (length out) \<rparr>, t'), out) \<and>
    arp_append_query e now (dst_ip_anno q) q t = Some (r, t') \<and> arp_inv t' \<and> arp_caps t' \<and> same_config t t' \<and>
    append_outcome now (dst_ip_anno q) q t r t' \<and>
    (if r = 1 then \<exists>x. out = [(nout - 1, x)] \<and> pdata x = query_for s ether_broadcast (dst_ip_anno q) else out = [])"
proof -
  have nk: "\<not> known_in now t (dst_ip_anno q)" using assms(5) by (auto simp: next_hop_def known_in_def split: if_splits)
  obtain r t' where t': "arp_append_query e now (dst_ip_anno q) q t = Some (r, t')" "arp_inv t'" "arp_caps t'" "same_config t t'"
    "append_outcome now (dst_ip_anno q) q t r t'"
    using arp_append_query_result [OF assms(1-4)] by blast
  have r: "r \<noteq> - EAGAIN" by (rule append_not_again [OF t'(5) nk])
  have "r = 1 \<or> r \<le> 0" using t'(5) nk by (auto simp: append_outcome_def ENOMEM_def split: if_splits)
  moreover obtain x where x: "aq_send_query e nout q False s = Some (s\<lparr> aq_arp_queries := aq_arp_queries s + 1 \<rparr>, [(nout - 1, x)])"
    "pdata x = query_for s ether_broadcast (dst_ip_anno q)"
    using aq_send_query_result [OF assms(4), of False "[]" q nout s] by auto
  moreover have "aq_resolve e now nout q s t =
      (if r > 0 then Some ((s\<lparr> aq_arp_queries := aq_arp_queries s + 1 \<rparr>, t'), [(nout - 1, x)]) else Some ((s, t'), []))"
    using assms(5,6) nk r t'(1) x(1)
    by (subst aq_resolve.simps) (auto simp: arp_lookup_unknown next_hop_def split: if_splits)
  ultimately show ?thesis
    using t' by (intro exI [of _ r] exI [of _ t'] exI [of _ "if r = 1 then [(nout - 1, x)] else []"]) auto
qed

section \<open>The invariant\<close>

definition waits_for :: "ipaddr \<Rightarrow> packet \<Rightarrow> bool" where
  "waits_for ip q \<longleftrightarrow> dst_ip_anno q = ip \<and> (\<exists>d. framed d q)"

definition aq_inv :: "arpquerier \<Rightarrow> arptable \<Rightarrow> bool" where
  "aq_inv s t \<longleftrightarrow> arp_inv t \<and> arp_caps t \<and> queues_in waits_for t \<and> length (aq_my_en s) = 6"

lemma aq_inv_counters [simp]:
  "aq_inv (s\<lparr> aq_arp_queries := n \<rparr>) t = aq_inv s t" "aq_inv (s\<lparr> aq_drops := n \<rparr>) t = aq_inv s t"
  "aq_inv (s\<lparr> aq_arp_responses := n \<rparr>) t = aq_inv s t" "aq_inv (s\<lparr> aq_zero_warned := b \<rparr>) t = aq_inv s t"
  by (simp_all add: aq_inv_def)

text \<open>Limits on the times: beyond them the comparison of jiffies takes the future for the past.\<close>

definition aq_times :: "arpquerier \<Rightarrow> arptable \<Rightarrow> bool" where
  "aq_times s t \<longleftrightarrow> unat (at_timeout t) < 2 ^ 31 \<and> unat (aq_poll_timeout s) < 2 ^ 31"

lemma aq_times_counters [simp]:
  "aq_times (s\<lparr> aq_arp_queries := n \<rparr>) t = aq_times s t" "aq_times (s\<lparr> aq_drops := n \<rparr>) t = aq_times s t"
  "aq_times (s\<lparr> aq_arp_responses := n \<rparr>) t = aq_times s t" "aq_times (s\<lparr> aq_zero_warned := b \<rparr>) t = aq_times s t"
  by (simp_all add: aq_times_def)

lemma same_config_times: "same_config t t' \<Longrightarrow> aq_times s t \<Longrightarrow> aq_times s t'"
  by (simp add: aq_times_def same_config_def)

text \<open>The packet as it is when \<^verbatim>\<open>handle_ip\<close> has made room for the header.\<close>

lemma aq_frame_result:
  assumes "push_mac_header e 14 p = Some r"
  shows "\<exists>q. Option.bind (mac_pos r) (\<lambda>k. on_buffer (st_range (k + 12) (bytes16 (htons ETHERTYPE_IP))) r) = Some q \<and>
    framed (pdata p) q \<and> dst_ip_anno q = dst_ip_anno p"
proof -
  note r = push_mac_header_result [OF assms]
  have "on_buffer (st_range (headroom r + 12) (bytes16 (htons ETHERTYPE_IP))) r =
      Some (r\<lparr> pdata := take 12 (pdata r) @ bytes16 (htons ETHERTYPE_IP) @ pdata p \<rparr>)"
    using on_buffer_st_range [of 12 "bytes16 (htons ETHERTYPE_IP)" r] r(1,2) by simp
  then show ?thesis using r by (simp add: mac_pos_head framed_def)
qed

definition ip_outcome ::
  "u32 \<Rightarrow> nat \<Rightarrow> packet \<Rightarrow> arpquerier \<Rightarrow> arptable \<Rightarrow> arpquerier \<Rightarrow> arptable \<Rightarrow> emission list \<Rightarrow> bool" where
  "ip_outcome now nout p s t s' t' out \<longleftrightarrow>
     (if aq_my_ip s = 0 then s' = s\<lparr> aq_drops := aq_drops s + 1 \<rparr> \<and> t' = t \<and> out = []
      else case next_hop now s t (dst_ip_anno p) of
        Some eth \<Rightarrow> \<exists>polls q. out = polls @ [(0, q)] \<and> pdata q = ip_frame eth (aq_my_en s) (pdata p) \<and> queued t' = queued t \<and>
          aq_arp_queries s' = aq_arp_queries s + of_nat (length polls) \<and>
          (polls = [] \<or> (\<exists>x. polls = [(nout - 1, x)] \<and>
             pdata x = query_for s (if aq_broadcast_poll s then ether_broadcast else eth) (dst_ip_anno p)))
      | None \<Rightarrow>
          if dst_ip_anno p = 0 then aq_drops s' = aq_drops s + 1 \<and> t' = t \<and> out = []
          else \<exists>q r. framed (pdata p) q \<and> append_outcome now (dst_ip_anno p) q t r t' \<and>
            aq_arp_queries s' = aq_arp_queries s + of_nat (length out) \<and>
            (if r = 1 then \<exists>x. out = [(nout - 1, x)] \<and> pdata x = query_for s ether_broadcast (dst_ip_anno p) else out = []))"

text \<open>A query is counted, is sent only when it is due, and its time is noted; without a query the time of the last
  one stays. A packet for an address with an entry does not make the table larger than by itself.\<close>

definition query_counted :: "u32 \<Rightarrow> ipaddr \<Rightarrow> arpquerier \<Rightarrow> arptable \<Rightarrow> arpquerier \<Rightarrow> arptable \<Rightarrow> bool" where
  "query_counted now ip s t s' t' \<longleftrightarrow> (at_get t ip \<noteq> None \<longrightarrow> no_larger t t') \<and>
     (aq_arp_queries s' = aq_arp_queries s \<and> (poll_due now t ip \<or> last_query t' ip = last_query t ip) \<or>
      aq_arp_queries s' = aq_arp_queries s + 1 \<and> poll_due now t ip \<and> last_query t' ip = Some now)"

lemma no_larger_refl [simp]: "no_larger t t"
  by (simp add: no_larger_def)

lemma arp_lookup_poll:
  assumes "fst (arp_lookup now ip poll t) = 1" and "hcn_inv ip_hashcode (at_table t)"
  shows "poll_due now t ip" and "last_query (snd (snd (arp_lookup now ip poll t))) ip = Some now"
  using assms
  by (auto simp: arp_lookup_def poll_due_def last_query_def arp_mark_poll_def at_get_put split: option.splits if_splits)

lemma arp_lookup_silent: "fst (arp_lookup now ip poll t) \<noteq> 1 \<Longrightarrow> snd (snd (arp_lookup now ip poll t)) = t"
  by (auto simp: arp_lookup_def split: option.splits)

definition same_querier :: "arpquerier \<Rightarrow> arpquerier \<Rightarrow> bool" where
  "same_querier s s' \<longleftrightarrow> aq_my_en s' = aq_my_en s \<and> aq_my_ip s' = aq_my_ip s \<and> aq_my_bcast_ip s' = aq_my_bcast_ip s \<and>
     aq_poll_timeout s' = aq_poll_timeout s \<and> aq_broadcast_poll s' = aq_broadcast_poll s"

lemma same_querier_counters [simp]:
  "same_querier s s" "same_querier s (s\<lparr> aq_arp_queries := n \<rparr>)" "same_querier s (s\<lparr> aq_drops := n \<rparr>)"
  "same_querier s (s\<lparr> aq_zero_warned := b, aq_drops := n \<rparr>)"
  by (simp_all add: same_querier_def)

lemma aq_handle_ip_result:
  assumes "aq_inv s t" and "arp_room t" and "alloc_ok e"
  shows "\<exists>s' t' out. aq_handle_ip e now nout p False (s, t) = Some ((s', t'), out) \<and> aq_inv s' t' \<and>
    same_config t t' \<and> same_querier s s' \<and> (aq_times s t \<longrightarrow> aq_times s' t') \<and> query_counted now (dst_ip_anno p) s t s' t' \<and> ip_outcome now nout p s t s' t' out"
proof (cases "aq_my_ip s = 0")
  case True
  then show ?thesis using assms(1) by (simp add: aq_handle_ip_def ip_outcome_def query_counted_def)
next
  case ip: False
  have inv: "arp_inv t" "arp_caps t" "queues_in waits_for t" "length (aq_my_en s) = 6" using assms(1) by (simp_all add: aq_inv_def)
  obtain r where r: "push_mac_header e 14 p = Some r" by (rule push_mac_header_some [OF assms(3)])
  obtain q where q: "Option.bind (mac_pos r) (\<lambda>k. on_buffer (st_range (k + 12) (bytes16 (htons ETHERTYPE_IP))) r) = Some q"
    "framed (pdata p) q" "dst_ip_anno q = dst_ip_anno p"
    using aq_frame_result [OF r] by blast
  have step: "aq_handle_ip e now nout p False (s, t) = aq_resolve e now nout q s t"
    using ip r q(1) by (auto simp: aq_handle_ip_def split: Option.bind_splits)
  show ?thesis
  proof (cases "next_hop now s t (dst_ip_anno p)")
    case (Some eth)
    let ?l = "arp_lookup now (dst_ip_anno q) (aq_poll_timeout s) t"
    obtain polls where p: "aq_resolve e now nout q s t =
        Some ((s\<lparr> aq_arp_queries := aq_arp_queries s + of_nat (length polls) \<rparr>, snd (snd ?l)),
          polls @ [(0, q\<lparr> pdata := ip_frame eth (aq_my_en s) (pdata p) \<rparr>)])"
      "if fst ?l = 1 then \<exists>x. polls = [(nout - 1, x)] \<and>
         pdata x = query_for s (if aq_broadcast_poll s then ether_broadcast else eth) (dst_ip_anno q) else polls = []"
      using aq_resolve_send [OF q(2) inv(1,4) assms(3), of now eth nout] Some q(3) by auto
    have "aq_inv s (snd (snd ?l))" "queued (snd (snd ?l)) = queued t" "aq_times s t \<longrightarrow> aq_times s (snd (snd ?l))"
      "same_config t (snd (snd ?l))"
      using inv arp_lookup_inv [OF inv(1,2)] arp_lookup_queues [OF inv(3)] same_config_times [OF arp_lookup_inv(3) [OF inv(1,2)]] by (simp_all add: aq_inv_def)
    moreover have "query_counted now (dst_ip_anno p) s t (s\<lparr> aq_arp_queries := aq_arp_queries s + of_nat (length polls) \<rparr>) (snd (snd ?l))"
      using p(2) arp_lookup_poll [of now "dst_ip_anno q" "aq_poll_timeout s" t] inv(1) q(3)
        arp_lookup_silent [of now "dst_ip_anno q" "aq_poll_timeout s" t] arp_lookup_inv(4,5) [OF inv(1,2), of now "dst_ip_anno q" "aq_poll_timeout s"]
      by (cases "fst ?l = 1") (auto simp: query_counted_def arp_inv_off_def no_larger_def)
    ultimately show ?thesis
      using p Some ip q(3) step by (auto simp: ip_outcome_def split: if_splits)
  next
    case None
    show ?thesis
    proof (cases "dst_ip_anno p = 0")
      case True
      then have "aq_resolve e now nout q s t = Some ((s\<lparr> aq_zero_warned := True, aq_drops := aq_drops s + 1 \<rparr>, t), [])"
        using None q(3) arp_lookup_unknown [of now t 0]
        by (subst aq_resolve.simps) (auto simp: next_hop_def known_in_def split: if_splits)
      then show ?thesis using assms(1) None True ip step by (simp add: ip_outcome_def query_counted_def)
    next
      case False
      obtain r t' out where t': "aq_resolve e now nout q s t =
          Some ((s\<lparr> aq_arp_queries := aq_arp_queries s + of_nat (length out) \<rparr>, t'), out)"
        "arp_append_query e now (dst_ip_anno q) q t = Some (r, t')" "arp_inv t'" "arp_caps t'"
        "same_config t t'" "append_outcome now (dst_ip_anno q) q t r t'"
        "if r = 1 then \<exists>x. out = [(nout - 1, x)] \<and> pdata x = query_for s ether_broadcast (dst_ip_anno q) else out = []"
        using aq_resolve_wait [OF inv(1,2) assms(2,3), of now s q nout] None False q(3) by auto
      have "queues_in waits_for t'"
        by (rule arp_append_queues [OF t'(2) inv(3)]) (use q(2) in \<open>auto simp: waits_for_def\<close>)
      then have "aq_inv (s\<lparr> aq_arp_queries := aq_arp_queries s + of_nat (length out) \<rparr>) t'"
        using t'(3,4) inv(4) by (simp add: aq_inv_def)
      moreover have "ip_outcome now nout p s t (s\<lparr> aq_arp_queries := aq_arp_queries s + of_nat (length out) \<rparr>) t' out"
        using t'(6,7) None False ip q(2,3) unfolding ip_outcome_def
        by simp (intro exI [of _ q] conjI exI [of _ r], simp_all split: if_splits)
      moreover have "query_counted now (dst_ip_anno p) s t (s\<lparr> aq_arp_queries := aq_arp_queries s + of_nat (length out) \<rparr>) t'"
        using t'(2,6,7) None q(3) arp_append_smaller [OF inv(1) assms(2)]
        by (auto simp: query_counted_def append_outcome_def ENOMEM_def EAGAIN_def split: if_splits)
      ultimately show ?thesis unfolding step t'(1) using t'(5) same_config_times [OF t'(5)] by fastforce
    qed
  qed
qed

section \<open>Replies\<close>

lemma click_jiffies_less_unat: "click_jiffies_less a b \<longleftrightarrow> 2 ^ 31 \<le> unat (a - b)"
proof -
  have "unat (a - b) div 2 ^ 31 < 2" by (rule less_mult_imp_div_less) simp
  then have "odd (unat (a - b) div 2 ^ 31) \<longleftrightarrow> 2 ^ 31 \<le> unat (a - b)"
    by (metis One_nat_def div_greater_zero_iff even_zero less_2_cases neq0_conv odd_one zero_less_numeral zero_less_power)
  moreover have "uint (a - b) div 2 ^ 31 = int (unat (a - b) div 2 ^ 31)" by (simp add: zdiv_int)
  ultimately show ?thesis
    unfolding click_jiffies_less_def sint_uint signed_take_bit_negative_iff bit_iff_odd by simp
qed

lemma jiffies_now:
  assumes "unat (d :: u32) < 2 ^ 31"
  shows "\<not> click_jiffies_less (now + d) now" and "d \<noteq> 0 \<Longrightarrow> click_jiffies_less now (now + d)"
proof -
  show "\<not> click_jiffies_less (now + d) now" using assms by (simp add: click_jiffies_less_unat)
  show "click_jiffies_less now (now + d)" if "d \<noteq> 0"
    using assms that unat_gt_0 [of d] unat_sub_if' [of 0 d] by (simp add: click_jiffies_less_unat)
qed

text \<open>A packet that waited, as it leaves.\<close>

definition released :: "etheraddr \<Rightarrow> arpquerier \<Rightarrow> packet \<Rightarrow> packet" where
  "released eth s q = q\<lparr> pdata := eth @ aq_my_en s @ drop 12 (pdata q) \<rparr>"

text \<open>An entry that has just been confirmed is neither expired nor due for a poll.\<close>

lemma arp_lookup_fresh:
  assumes "aq_times s t" and "at_get t ip = Some ae" and "ae_known ae" and "ae_live_at ae = now"
  shows "arp_lookup now ip (aq_poll_timeout s) t = (0, Some (ae_eth ae), t)" and "known_in now t ip"
  using assms jiffies_now [of "at_timeout t"] jiffies_now [of "aq_poll_timeout s"]
  by (auto simp: aq_times_def arp_lookup_def arp_known_def arp_expired_def known_in_def)

lemma aq_release:
  assumes "waits_for ip q" and "aq_inv s t" and "aq_times s t" and "at_get t ip = Some ae" and "ae_known ae" and "ae_live_at ae = now"
    and "aq_my_ip s \<noteq> 0" and "alloc_ok e"
  shows "aq_handle_ip e now nout q True (s, t) = Some ((s, t), [(0, released (ae_eth ae) s q)])"
proof -
  obtain d where q: "framed d q" "dst_ip_anno q = ip" using assms(1) by (auto simp: waits_for_def)
  note fresh = arp_lookup_fresh [OF assms(3-6)]
  have "next_hop now s t (dst_ip_anno q) = Some (ae_eth ae)" using fresh(2) assms(4) q(2) by (simp add: next_hop_def)
  then have "aq_resolve e now nout q s t = Some ((s, t), [(0, q\<lparr> pdata := ip_frame (ae_eth ae) (aq_my_en s) d \<rparr>)])"
    using aq_resolve_send [OF q(1) _ _ assms(8), of t s now] assms(2) fresh(1) q(2) by (auto simp: aq_inv_def)
  then show ?thesis using assms(7) q(1) by (simp add: aq_handle_ip_def released_def framed_def)
qed

lemma aq_send_all_release:
  assumes "\<forall>q\<in>set qs. waits_for ip q" and "aq_inv s t" and "aq_times s t" and "at_get t ip = Some ae" and "ae_known ae"
    and "ae_live_at ae = now" and "aq_my_ip s \<noteq> 0" and "alloc_ok e"
  shows "aq_send_all e now nout qs (s, t) = Some ((s, t), map (\<lambda>q. (0, released (ae_eth ae) s q)) qs)"
  using assms(1)
proof (induction qs)
  case (Cons q qs)
  then show ?case using aq_release [OF _ assms(2-8), of q nout] by simp
qed simp

lemma aq_send_all_unconfigured:
  "aq_my_ip s = 0 \<Longrightarrow> aq_send_all e now nout qs (s, t) = Some ((s\<lparr> aq_drops := aq_drops s + of_nat (length qs) \<rparr>, t), [])"
  by (induction qs arbitrary: s) (simp_all add: aq_handle_ip_def add.assoc)

text \<open>A group address has its lowest bit set, so no other address is the broadcast address.\<close>

lemma not_group_not_broadcast:
  assumes "\<not> ether_is_group a"
  shows "\<not> ether_is_broadcast a"
proof
  assume b: "ether_is_broadcast a"
  have "unat (get16 a 0) \<le> 0xFFFF" "unat (get16 a 2) \<le> 0xFFFF" "unat (get16 a 4) \<le> 0xFFFF"
    using unat_bounds_le(2) by simp_all
  then have "unat (get16 a 0) = 0xFFFF" using b unfolding ether_is_broadcast_def by linarith
  then have "get16 a 0 = 0xFFFF" by (simp add: word_unat_eq_iff)
  then have "get8 a 0 = 0xFF" using unat_bounds_le(1) [of "a ! 0"] unat_bounds_le(1) [of "a ! 1"]
    by (simp add: get16_def get8_def word_unat_eq_iff wrd_simps) presburger
  then show False using assms by (simp add: ether_is_group_def)
qed

definition is_reply :: "bytes \<Rightarrow> bool" where
  "is_reply d \<longleftrightarrow> ntohs (ether_type (get_ether d)) = ETHERTYPE_ARP \<and> ntohs (ar_hrd (get_ether_arp d)) = ARPHRD_ETHER
     \<and> ntohs (ar_pro (get_ether_arp d)) = ETHERTYPE_IP \<and> ntohs (ar_op (get_ether_arp d)) = ARPOP_REPLY
     \<and> \<not> ether_is_group (arp_sha (get_ether_arp d))"

definition reply_outcome ::
  "packet \<Rightarrow> arpquerier \<Rightarrow> arptable \<Rightarrow> arpquerier \<Rightarrow> arptable \<Rightarrow> emission list \<Rightarrow> bool" where
  "reply_outcome p s t s' t' out \<longleftrightarrow>
     (if plen p < 42 then s' = s \<and> t' = t \<and> out = []
      else aq_arp_responses s' = aq_arp_responses s + 1 \<and>
        (if \<not> is_reply (pdata p) then t' = t \<and> out = []
         else let ip = arp_spa (get_ether_arp (pdata p)); eth = arp_sha (get_ether_arp (pdata p))
              in queued t' ip = [] \<and>
                 out = (if aq_my_ip s = 0 then [] else map (\<lambda>q. (0, released eth s q)) (queued t ip))))"

lemma aq_handle_response_result:
  assumes "aq_inv s t" and "arp_room t" and "alloc_ok e" and "aq_times s t"
  shows "\<exists>s' t' out. aq_handle_response e now nout p (s, t) = Some ((s', t'), out) \<and> aq_inv s' t' \<and> aq_times s' t' \<and>
    reply_outcome p s t s' t' out \<and>
    (42 \<le> plen p \<and> is_reply (pdata p) \<longrightarrow> (\<exists>ae. at_get t' (arp_spa (get_ether_arp (pdata p))) = Some ae \<and> ae_known ae \<and>
       ae_eth ae = arp_sha (get_ether_arp (pdata p)) \<and> ae_live_at ae = now))"
proof (cases "42 \<le> plen p \<and> is_reply (pdata p)")
  case False
  then show ?thesis
    using assms by (auto simp: aq_handle_response_def reply_outcome_def is_reply_def aq_times_def)
next
  case True
  let ?ip = "arp_spa (get_ether_arp (pdata p))" and ?eth = "arp_sha (get_ether_arp (pdata p))"
  let ?s = "s\<lparr> aq_arp_responses := aq_arp_responses s + 1 \<rparr>"
  have eth: "length ?eth = 6" "\<not> ether_is_broadcast ?eth"
    using True not_group_not_broadcast by (auto simp: get_ether_arp_def slice_def is_reply_def)
  have inv: "arp_inv t" "arp_caps t" "queues_in waits_for t" using assms(1) by (simp_all add: aq_inv_def)
  obtain t' ae where t': "arp_insert e now ?ip ?eth True t = Some (0, queued t ?ip, t')" "arp_inv t'" "arp_caps t'"
    "same_config t t'" "at_get t' ?ip = Some ae" "ae_eth ae = ?eth" "ae_known ae" "ae_live_at ae = now" "ae_queue ae = []"
    using arp_insert_result [OF inv(1,2) assms(2,3) eth(1), of now ?ip True] eth(2) by (auto simp: queued_def split: option.splits)
  have q: "queues_in waits_for t'" "\<forall>q\<in>set (queued t ?ip). waits_for ?ip q" using arp_insert_queues [OF t'(1) inv(3)] by simp_all
  have inv': "aq_inv ?s t'" "aq_times ?s t'"
    using assms(1,4) t'(2-4) q(1) by (simp_all add: aq_inv_def aq_times_def same_config_def)
  have queue: "queued t' ?ip = []" using t'(5,9) by (simp add: queued_def)
  have step: "aq_handle_response e now nout p (s, t) = aq_send_all e now nout (queued t ?ip) (?s, t')"
    using True t'(1) by (simp add: aq_handle_response_def is_reply_def Let_def)
  show ?thesis
  proof (cases "aq_my_ip s = 0")
    case unconf: True
    then have "aq_send_all e now nout (queued t ?ip) (?s, t') = Some ((?s\<lparr> aq_drops := aq_drops s + of_nat (length (queued t ?ip)) \<rparr>, t'), [])"
      using aq_send_all_unconfigured [of ?s] by simp
    then show ?thesis
      using step True unconf inv' queue t'(5-8) by (auto simp: reply_outcome_def Let_def aq_times_def)
  next
    case False
    then have "aq_send_all e now nout (queued t ?ip) (?s, t') = Some ((?s, t'), map (\<lambda>q. (0, released ?eth ?s q)) (queued t ?ip))"
      using aq_send_all_release [OF q(2) inv' t'(5,7,8) _ assms(3), of nout] t'(6) by simp
    then show ?thesis
      using step True False inv' queue t'(5-8) by (auto simp: reply_outcome_def Let_def released_def)
  qed
qed

text \<open>Within a tenth of a second after a query, no other is due.\<close>

lemma poll_not_due:
  assumes "unat (later - now) < 100" and "ae_polled_at ae = now"
  shows "\<not> arp_allow_poll later ae"
proof -
  have d: "unat (later - now - c) = unat (later - now) + 2 ^ 32 - unat c" if "100 \<le> unat c" for c :: u32
    using assms(1) that unat_sub_if' [of "later - now" c] by simp
  then show ?thesis
    using d [of 100] d [of 2000] assms(2)
    by (simp add: arp_allow_poll_def click_jiffies_less_unat CLICK_HZ_def flip: diff_diff_eq)
qed

section \<open>A querier at work\<close>

text \<open>Arguments that \<^verbatim>\<open>configure\<close> handles as intended: the slim factor is not 0, and the times are below
  $2^{31}$ milliseconds.\<close>

definition sane_args :: "arpquerier_args \<Rightarrow> bool" where
  "sane_args a \<longleftrightarrow> length (arg_ETH a) = 6 \<and> arg_CAPACITY_SLIM_FACTOR (arg_TABLE_ARGS a) \<noteq> Some 0 \<and>
     (\<forall>ms. arg_TIMEOUT (arg_TABLE_ARGS a) = Some ms \<or> arg_POLL_TIMEOUT a = Some ms \<longrightarrow> ms < 2 ^ 31)"

lemma jiffies_bound: "ms < 2 ^ 31 \<Longrightarrow> unat (of_nat ms :: u32) < 2 ^ 31"
  using unat_word_of_nat [of ms, where 'a = 32] by simp

lemma aq_poll_jiffies_bound: "ms < 2 ^ 31 \<Longrightarrow> unat (aq_poll_jiffies ms) < 2 ^ 31"
  using jiffies_bound [of ms] by (simp add: aq_poll_jiffies_def)

lemma arptable_configure_ok:
  assumes "arg_CAPACITY_SLIM_FACTOR a \<noteq> Some 0" and "\<forall>ms. arg_TIMEOUT a = Some ms \<longrightarrow> ms < 2 ^ 31"
  shows "\<exists>t. arptable_configure (Some a) (arptable_new tj) = (0, t) \<and> unat (at_timeout t) < 2 ^ 31 \<and> at_table t = hcn_empty"
proof -
  have "(case arg_TIMEOUT a of None \<Rightarrow> 300000 | Some ms \<Rightarrow> ms) < 2 ^ 31" using assms(2) by (cases "arg_TIMEOUT a") auto
  then show ?thesis
    using assms(1) jiffies_bound
    by (cases "arg_CAPACITY_SLIM_FACTOR a") (auto simp: arptable_configure_def arptable_new_def at_set_timeout_def Let_def)
qed

lemma arpquerier_configure_inv:
  assumes "sane_args a"
  shows "\<exists>s t. arpquerier_configure (Some a) None tj = (0, Some (s, t)) \<and> aq_inv s t \<and> aq_times s t \<and> aq_my_arpt s"
proof -
  obtain t where t: "arptable_configure (Some (arg_TABLE_ARGS a)) (arptable_new tj) = (0, t)" "unat (at_timeout t) < 2 ^ 31"
    "at_table t = hcn_empty"
    using arptable_configure_ok [of "arg_TABLE_ARGS a" tj] assms by (auto simp: sane_args_def)
  have "(case arg_POLL_TIMEOUT a of None \<Rightarrow> 60000 | Some ms \<Rightarrow> ms) < 2 ^ 31"
    using assms by (cases "arg_POLL_TIMEOUT a") (auto simp: sane_args_def)
  from aq_poll_jiffies_bound [OF this] show ?thesis
    using t arptable_configure_inv [OF t(1)] assms
    by (simp add: arpquerier_configure_def aq_inv_def aq_times_def sane_args_def queues_in_def hcn_inv_empty at_get_def hcn_find_empty)
qed

text \<open>What can happen to a running querier: packets on either input, at any time, the timer of its table, and
  the write handlers.\<close>

inductive aq_step :: "arpquerier \<times> arptable \<Rightarrow> arpquerier \<times> arptable \<Rightarrow> bool" where
  push: "arp_room t \<Longrightarrow> alloc_ok e \<Longrightarrow> aq_push e now nout port p (s, t) = Some (st', out) \<Longrightarrow> aq_step (s, t) st'"
| timer: "arptable_run_timer now t = Some t' \<Longrightarrow> aq_step (s, t) (s, t')"
| handler: "arp_room t \<Longrightarrow> alloc_ok e \<Longrightarrow> \<forall>ip eth. h = H_INSERT (Some (ip, eth)) \<longrightarrow> length eth = 6 \<Longrightarrow>
    aq_write_handler e now h (s, t) = Some (r, st') \<Longrightarrow> aq_step (s, t) st'"
| ipaddr: "aq_step (s, t) (s\<lparr> aq_my_ip := ip \<rparr>, t)"
| broadcast: "aq_step (s, t) (s\<lparr> aq_my_bcast_ip := ip \<rparr>, t)"

text \<open>Emptying the table, and the other handlers.\<close>

lemma arp_clear_queues:
  assumes "arp_inv t"
  shows "queues_in Q (arp_clear t)"
proof -
  have "at_get (arp_clear t) = Map.empty" "hcn_inv ip_hashcode (at_table (arp_clear t))"
    using arp_clear_empty [OF assms] by (simp_all add: arp_inv_off_def)
  then show ?thesis by (simp add: queues_in_def)
qed

lemma aq_write_handler_inv:
  assumes "aq_inv s t" and "aq_times s t" and "arp_room t" and "alloc_ok e"
    and "\<forall>ip eth. h = H_INSERT (Some (ip, eth)) \<longrightarrow> length eth = 6"
  shows "\<exists>r s' t'. aq_write_handler e now h (s, t) = Some (r, s', t') \<and> aq_inv s' t' \<and> aq_times s' t'"
proof -
  have inv: "arp_inv t" "arp_caps t" "queues_in waits_for t" "length (aq_my_en s) = 6" using assms(1) by (simp_all add: aq_inv_def)
  have insert: "\<exists>r ps t'. arp_insert e now ip eth False t = Some (r, ps, t') \<and> aq_inv s t' \<and> aq_times s t'" if eth: "length eth = 6" for ip eth
  proof -
    obtain t' ps where t': "arp_insert e now ip eth False t = Some (0, ps, t')" "arp_inv t'" "arp_caps t'" "same_config t t'"
      using arp_insert_result [OF inv(1,2) assms(3,4) eth, of now ip False] by blast
    have "queues_in waits_for t'" using arp_insert_queues [OF t'(1) inv(3)] by simp
    then show ?thesis using t' inv(4) same_config_times [OF t'(4) assms(2)] by (auto simp: aq_inv_def)
  qed
  have clear: "aq_inv s (arp_clear t)" "aq_times s (arp_clear t)"
    using arp_clear_empty [OF inv(1)] arp_clear_queues [OF inv(1)] inv(4) same_config_times [OF _ assms(2)] by (simp_all add: aq_inv_def)
  show ?thesis
  proof (cases h)
    case (H_INSERT x)
    then show ?thesis
    proof (cases x)
      case (Some y)
      then obtain ip eth where y: "h = H_INSERT (Some (ip, eth))" using H_INSERT by (cases y) simp
      then show ?thesis using insert [of eth ip] assms(5) by (force simp: aq_write_handler_def)
    qed (use assms(1,2) in \<open>simp add: aq_write_handler_def\<close>)
  next
    case (H_DELETE x)
    then show ?thesis using insert [of ether_broadcast] assms(1,2) by (cases x) (force simp: aq_write_handler_def)+
  next
    case H_CLEAR
    then show ?thesis using clear by (simp add: aq_write_handler_def aq_times_def)
  qed
qed

lemma aq_push_inv:
  assumes "aq_inv s t" and "aq_times s t" and "arp_room t" and "alloc_ok e"
  shows "\<exists>s' t' out. aq_push e now nout port p (s, t) = Some ((s', t'), out) \<and> aq_inv s' t' \<and> aq_times s' t'"
proof (cases "port = 0")
  case True
  then show ?thesis using aq_handle_ip_result [OF assms(1,3,4), of now nout p] assms(2) by (auto simp: aq_push_def)
next
  case False
  then show ?thesis using aq_handle_response_result [OF assms(1,3,4,2), of now nout p] by (auto simp: aq_push_def)
qed

lemma aq_step_inv:
  assumes "aq_step st st'" and "aq_inv (fst st) (snd st) \<and> aq_times (fst st) (snd st)"
  shows "aq_inv (fst st') (snd st') \<and> aq_times (fst st') (snd st')"
  using assms
proof (cases rule: aq_step.cases)
  case (push t e now nout port p s out)
  then show ?thesis using aq_push_inv [of s t e now nout port p] assms(2) by auto
next
  case (timer now t t' s)
  have inv: "arp_inv t" "arp_caps t" "queues_in waits_for t" using timer assms(2) by (simp_all add: aq_inv_def)
  have "arp_inv t'" "arp_caps t'" "same_config t t'" using arptable_run_timer_inv [OF inv(1,2), of now] timer(3) by auto
  moreover have "queues_in waits_for t'" by (rule arptable_run_timer_queues [OF timer(3) inv(3)])
  ultimately show ?thesis using timer assms(2) same_config_times by (auto simp: aq_inv_def)
next
  case (handler t e h now s r)
  then show ?thesis using aq_write_handler_inv [of s t e h now] assms(2) by auto
qed (use assms(2) in \<open>auto simp: aq_inv_def aq_times_def\<close>)

lemma aq_reachable_inv:
  assumes "aq_step\<^sup>*\<^sup>* st st'" and "aq_inv (fst st) (snd st) \<and> aq_times (fst st) (snd st)"
  shows "aq_inv (fst st') (snd st') \<and> aq_times (fst st') (snd st')"
  using assms by (induction rule: rtranclp_induct) (auto dest: aq_step_inv)

section \<open>Theorems\<close>

text \<open>C23: An IP packet on input 0 of \<^verbatim>\<open>ARPQuerier\<close>, with memory available: the handler returns on every branch and keeps the
  invariant. A packet whose next hop is known, a broadcast or a multicast address leaves on output 0 in a frame with
  the right addresses and its data unchanged, behind at most one query that polls the known address; a packet for
  0.0.0.0, or one that arrives while the element has no address, is dropped and counted; any other packet waits in
  the table as \<^verbatim>\<open>append_query\<close> specifies, and nothing but at most one broadcast query leaves.\<close>

theorem aq_push_ip:
  assumes "aq_inv s t" and "arp_room t" and "alloc_ok e"
  shows "\<exists>s' t' out. aq_push e now nout 0 p (s, t) = Some ((s', t'), out) \<and> aq_inv s' t' \<and>
    (if aq_my_ip s = 0 then s' = s\<lparr> aq_drops := aq_drops s + 1 \<rparr> \<and> t' = t \<and> out = []
     else case next_hop now s t (dst_ip_anno p) of
       Some eth \<Rightarrow> \<exists>polls q. out = polls @ [(0, q)] \<and> pdata q = ip_frame eth (aq_my_en s) (pdata p) \<and> queued t' = queued t \<and>
          aq_arp_queries s' = aq_arp_queries s + of_nat (length polls) \<and>
         (polls = [] \<or> (\<exists>x. polls = [(nout - 1, x)] \<and>
            pdata x = query_for s (if aq_broadcast_poll s then ether_broadcast else eth) (dst_ip_anno p)))
     | None \<Rightarrow>
         if dst_ip_anno p = 0 then aq_drops s' = aq_drops s + 1 \<and> t' = t \<and> out = []
         else \<exists>q r. framed (pdata p) q \<and> append_outcome now (dst_ip_anno p) q t r t' \<and>
            aq_arp_queries s' = aq_arp_queries s + of_nat (length out) \<and>
           (if r = 1 then \<exists>x. out = [(nout - 1, x)] \<and> pdata x = query_for s ether_broadcast (dst_ip_anno p) else out = []))"
proof -
  have "aq_push e now nout 0 p (s, t) = aq_handle_ip e now nout p False (s, t)" by (simp add: aq_push_def)
  then show ?thesis
    using aq_handle_ip_result [OF assms, of now nout p] unfolding ip_outcome_def by (elim ex_forward) simp
qed

text \<open>C24: An ARP reply on input 1 makes the sender's address known and releases every packet that was waiting for
  it, in the order of their arrival, each in a frame from our address to the sender's; none is left waiting. Anything
  shorter than an ARP message is ignored, and a message that is not a reply, or whose sender is a group address, is
  only counted.\<close>

theorem aq_push_reply:
  assumes "aq_inv s t" and "arp_room t" and "alloc_ok e" and "aq_times s t" and "port \<noteq> 0"
  shows "\<exists>s' t' out. aq_push e now nout port p (s, t) = Some ((s', t'), out) \<and> aq_inv s' t' \<and>
    (if plen p < 42 then s' = s \<and> t' = t \<and> out = []
     else aq_arp_responses s' = aq_arp_responses s + 1 \<and>
       (if \<not> is_reply (pdata p) then t' = t \<and> out = []
        else let ip = arp_spa (get_ether_arp (pdata p)); eth = arp_sha (get_ether_arp (pdata p))
             in queued t' ip = [] \<and> known_in now t' ip \<and> map_option ae_eth (at_get t' ip) = Some eth \<and>
                out = (if aq_my_ip s = 0 then [] else map (\<lambda>q. (0, released eth s q)) (queued t ip))))"
proof -
  obtain s' t' out where r: "aq_handle_response e now nout p (s, t) = Some ((s', t'), out)" "aq_inv s' t'" "aq_times s' t'"
    "reply_outcome p s t s' t' out"
    "42 \<le> plen p \<and> is_reply (pdata p) \<longrightarrow> (\<exists>ae. at_get t' (arp_spa (get_ether_arp (pdata p))) = Some ae \<and> ae_known ae \<and>
       ae_eth ae = arp_sha (get_ether_arp (pdata p)) \<and> ae_live_at ae = now)"
    using aq_handle_response_result [OF assms(1-4), of now nout p] by blast
  then have "42 \<le> plen p \<and> is_reply (pdata p) \<longrightarrow> known_in now t' (arp_spa (get_ether_arp (pdata p))) \<and>
      map_option ae_eth (at_get t' (arp_spa (get_ether_arp (pdata p)))) = Some (arp_sha (get_ether_arp (pdata p)))"
    using arp_lookup_fresh(2) [OF r(3)] by auto
  then show ?thesis
    using r(1,2,4) assms(5) unfolding reply_outcome_def
    by (intro exI [of _ s'] exI [of _ t'] exI [of _ out]) (auto simp: aq_push_def Let_def)
qed

text \<open>C4: From a successful configuration with a table of its own on, whatever packets arrive on either input, whenever
  the timer fires, whatever the write handlers do, in any order and at any times: as long as there is memory, no
  packet makes the querier fail an assertion, follow a pointer to a deleted entry or loop forever, and the table and
  the packets that wait in it stay consistent.\<close>

theorem aq_reachable_safe:
  assumes "sane_args a" and "arpquerier_configure (Some a) None tj = (r, Some st0)" and "aq_step\<^sup>*\<^sup>* st0 (s, t)"
    and "arp_room t" and "alloc_ok e"
  shows "aq_inv s t \<and> aq_push e now nout port p (s, t) \<noteq> None"
proof -
  have "aq_inv (fst st0) (snd st0) \<and> aq_times (fst st0) (snd st0)"
    using arpquerier_configure_inv [OF assms(1), of tj] assms(2) by auto
  then have inv: "aq_inv s t" "aq_times s t" using aq_reachable_inv [OF assms(3)] by simp_all
  then show ?thesis using aq_push_inv [OF inv assms(4,5), of now nout port p] by auto
qed

text \<open>IP packets that arrive one after the other, each with its time.\<close>

primrec aq_ip_run ::
  "nat \<Rightarrow> (env \<times> u32 \<times> packet) list \<Rightarrow> arpquerier \<times> arptable \<Rightarrow> ((arpquerier \<times> arptable) \<times> emission list) option" where
  "aq_ip_run nout [] st = Some (st, [])"
| "aq_ip_run nout (x # xs) st =
     (case x of (e, now, p) \<Rightarrow>
        do { (st, out) \<leftarrow> aq_push e now nout 0 p st; (st, outs) \<leftarrow> aq_ip_run nout xs st; Some (st, out @ outs) })"

text \<open>What leaves is data: a frame with one of the packets.\<close>

definition carries_one_of :: "etheraddr \<Rightarrow> (env \<times> u32 \<times> packet) list \<Rightarrow> emission \<Rightarrow> bool" where
  "carries_one_of my_en xs x \<longleftrightarrow>
     fst x = 0 \<and> (\<exists>(_, _, p) \<in> set xs. \<exists>eth. pdata (snd x) = ip_frame eth my_en (pdata p))"

lemma carries_one_of_mono: "list_all (carries_one_of en xs) out \<Longrightarrow> list_all (carries_one_of en (x # xs)) out"
  by (auto simp: list_all_iff carries_one_of_def)

lemma ip_outcome_no_query:
  assumes "ip_outcome now nout p s t s' t' out" and "aq_arp_queries s' = aq_arp_queries s"
  shows "list_all (carries_one_of (aq_my_en s) ((e, now, p) # xs)) out"
proof (cases "next_hop now s t (dst_ip_anno p)")
  case None
  then show ?thesis using assms by (auto simp: ip_outcome_def split: if_splits)
next
  case (Some eth)
  show ?thesis
  proof (cases "aq_my_ip s = 0")
    case False
    then obtain polls q where q: "out = polls @ [(0, q)]" "pdata q = ip_frame eth (aq_my_en s) (pdata p)"
      "aq_arp_queries s' = aq_arp_queries s + of_nat (length polls)" "length polls \<le> 1"
      using assms(1) Some by (auto simp: ip_outcome_def)
    then have "polls = []" using assms(2) by (cases polls) auto
    with q(1,2) show ?thesis by (auto simp: carries_one_of_def)
  qed (use assms in \<open>simp add: ip_outcome_def\<close>)
qed

lemma aq_ip_run_silent:
  assumes "aq_inv s t" and "last_query t ip = Some now" and "unat (at_entry_count t) < 2 ^ 32 - 1"
    and "unat (at_packet_count t) + length xs < 2 ^ 32"
    and "list_all (\<lambda>(e, later, p). alloc_ok e \<and> dst_ip_anno p = ip \<and> unat (later - now) < 100) xs"
  shows "\<exists>s' t' outs. aq_ip_run nout xs (s, t) = Some ((s', t'), outs) \<and> aq_arp_queries s' = aq_arp_queries s \<and>
    list_all (carries_one_of (aq_my_en s) xs) outs"
  using assms
proof (induction xs arbitrary: s t)
  case Nil
  then show ?case by simp
next
  case (Cons x xs)
  obtain e later p where x: "x = (e, later, p)" "alloc_ok e" "dst_ip_anno p = ip" "unat (later - now) < 100"
    using Cons.prems(5) by (cases x) auto
  obtain ae where ae: "at_get t ip = Some ae" "ae_polled_at ae = now" using Cons.prems(2) by (auto simp: last_query_def)
  then have due: "\<not> poll_due later t ip" using poll_not_due [OF x(4)] by (simp add: poll_due_def)
  have "arp_room t" using Cons.prems(3,4) by (simp add: arp_room_def)
  then obtain s1 t1 out where p: "aq_push e later nout 0 p (s, t) = Some ((s1, t1), out)" "aq_inv s1 t1" "same_querier s s1"
    "query_counted later ip s t s1 t1" "ip_outcome later nout p s t s1 t1 out"
    using aq_handle_ip_result [OF Cons.prems(1) _ x(2), of later nout p] x(3) by (auto simp: aq_push_def)
  then have q: "aq_arp_queries s1 = aq_arp_queries s" "last_query t1 ip = Some now" "no_larger t t1"
    using due ae Cons.prems(2) by (auto simp: query_counted_def)
  have "unat (at_entry_count t1) < 2 ^ 32 - 1" "unat (at_packet_count t1) + length xs < 2 ^ 32"
    using q(3) Cons.prems(3,4) by (auto simp: no_larger_def word_le_nat_alt)
  moreover have "list_all (\<lambda>(e, later, p). alloc_ok e \<and> dst_ip_anno p = ip \<and> unat (later - now) < 100) xs"
    using Cons.prems(5) by simp
  ultimately obtain s' t' outs where r: "aq_ip_run nout xs (s1, t1) = Some ((s', t'), outs)"
    "aq_arp_queries s' = aq_arp_queries s1" "list_all (carries_one_of (aq_my_en s1) xs) outs"
    using Cons.IH [OF p(2) q(2)] by blast
  have "list_all (carries_one_of (aq_my_en s) (x # xs)) (out @ outs)"
    using r(3) p(3) ip_outcome_no_query [OF p(5) q(1)] carries_one_of_mono [of "aq_my_en s" xs] by (simp add: x(1) same_querier_def)
  then show ?case using p(1) q(1) r(1,2) by (simp add: x(1))
qed

text \<open>C35: Queries are rate limited: when a packet made the querier send a query for an address, any number of packets for the same
  address that follow it, and arrive less than 100 milliseconds after it, send no further query: everything that leaves is a
  frame with one of these packets. (While they are the only packets; packets for other addresses can push the entry out of a
  full table, and with it the time of the query. The table has room in its 32-bit counters, as in C4.)\<close>

theorem aq_query_rate:
  assumes "aq_inv s t" and "arp_room t" and "alloc_ok e" and "aq_push e now nout 0 p (s, t) = Some ((s', t'), out)"
    and "aq_arp_queries s' \<noteq> aq_arp_queries s" and "unat (at_entry_count t') < 2 ^ 32 - 1"
    and "unat (at_packet_count t') + length xs < 2 ^ 32"
    and "\<forall>(e', later, p') \<in> set xs. alloc_ok e' \<and> dst_ip_anno p' = dst_ip_anno p \<and> unat (later - now) < 100"
  shows "\<exists>s'' t'' outs. aq_ip_run nout xs (s', t') = Some ((s'', t''), outs) \<and> aq_arp_queries s'' = aq_arp_queries s' \<and>
    (\<forall>(port, q) \<in> set outs. port = 0 \<and> (\<exists>(_, _, p') \<in> set xs. \<exists>eth. pdata q = ip_frame eth (aq_my_en s') (pdata p')))"
proof -
  have q: "query_counted now (dst_ip_anno p) s t s' t'" and inv: "aq_inv s' t'"
    using aq_handle_ip_result [OF assms(1-3), of now nout p] assms(4) by (auto simp: aq_push_def)
  then have "last_query t' (dst_ip_anno p) = Some now" using assms(5) by (simp add: query_counted_def)
  then obtain s'' t'' outs where "aq_ip_run nout xs (s', t') = Some ((s'', t''), outs)" "aq_arp_queries s'' = aq_arp_queries s'"
    "list_all (carries_one_of (aq_my_en s') xs) outs"
    using aq_ip_run_silent [OF inv _ assms(6,7), of "dst_ip_anno p" now nout] assms(8) unfolding list_all_iff by blast
  then show ?thesis
    by (intro exI [of _ s''] exI [of _ t''] exI [of _ outs]) (simp add: list_all_iff carries_one_of_def case_prod_beta)
qed

text \<open>\<^verbatim>\<open>configure\<close> does not look at the result of the table's own \<^verbatim>\<open>configure\<close>: with \<^verbatim>\<open>CAPACITY_SLIM_FACTOR 0\<close>
  the element is accepted, and \<^verbatim>\<open>slim\<close> divides by 0 as soon as more packets wait than the capacity allows.\<close>

lemma aq_zero_slim_factor:
  assumes "arg_CAPACITY_SLIM_FACTOR (arg_TABLE_ARGS a) = Some 0"
  shows "\<exists>s t. arpquerier_configure (Some a) None tj = (0, Some (s, t)) \<and> at_capacity_slim_factor t = 0"
    and "slim_entries now (at_age t) t = Some u \<Longrightarrow> at_capacity_slim_factor u = 0 \<Longrightarrow> at_packet_capacity u \<noteq> 0 \<Longrightarrow>
      at_packet_count u > at_packet_capacity u \<Longrightarrow> arp_slim now t = None"
  using assms by (simp_all add: arpquerier_configure_def arptable_configure_def Let_def arp_slim_def)

section \<open>Witnesses\<close>

definition sample_args :: arpquerier_args where
  "sample_args = \<lparr> arg_IP = 0x0100A8C0, arg_MASK = 0x00FFFFFF, arg_ETH = [2, 0, 0, 0, 0, 1], arg_BROADCAST = None,
     arg_POLL_TIMEOUT = None, arg_BROADCAST_POLL = None,
     arg_TABLE_ARGS = \<lparr> arg_CAPACITY = None, arg_ENTRY_CAPACITY = Some 100, arg_ENTRY_PACKET_CAPACITY = None,
       arg_CAPACITY_SLIM_FACTOR = None, arg_TIMEOUT = None \<rparr> \<rparr>"

definition sample_querier :: "arpquerier \<times> arptable" where
  "sample_querier = the (snd (arpquerier_configure (Some sample_args) None 0))"

definition sample_ip_packet :: packet where
  "sample_ip_packet = (the (pkt_make env0 28 (Some [0x45, 0, 0, 20]) 4 0))\<lparr> dst_ip_anno := 0x0200A8C0 \<rparr>"

lemma sample_args_sane: "sane_args sample_args"
  by (simp add: sane_args_def sample_args_def)

lemma sample_querier_ok:
  "arpquerier_configure (Some sample_args) None 0 = (0, Some sample_querier)"
  "aq_inv (fst sample_querier) (snd sample_querier)" "aq_times (fst sample_querier) (snd sample_querier)"
  using arpquerier_configure_inv [OF sample_args_sane, of 0] by (auto simp: sample_querier_def)

lemma sample_querier_fields:
  "at_get (snd sample_querier) = Map.empty" "arp_room (snd sample_querier)" "aq_my_ip (fst sample_querier) = 0x0100A8C0"
  "aq_my_bcast_ip (fst sample_querier) = 0xFF00A8C0" "at_packet_capacity (snd sample_querier) = 2048"
  "at_packet_count (snd sample_querier) = 0" "at_entry_packet_capacity (snd sample_querier) = 0"
  "at_entry_capacity (snd sample_querier) = 100"
  by (simp_all add: sample_querier_def sample_args_def arpquerier_configure_def arptable_configure_def arptable_new_def
      at_set_timeout_def Let_def fun_eq_iff at_get_def hcn_find_empty arp_room_def aq_bcast_ip_def CLICK_HZ_def)

lemma sample_ip_packet_fields:
  "dst_ip_anno sample_ip_packet = 0x0200A8C0" "pdata sample_ip_packet = [0x45, 0, 0, 20]"
  by (simp_all add: sample_ip_packet_def pkt_make_def alloc_data_def env0_def Let_def)

lemma sample_next_hop: "next_hop now (fst sample_querier) (snd sample_querier) 0x0200A8C0 = None"
proof -
  have "\<not> is_multicast 0x0200A8C0"
    by (simp add: is_multicast_def htonl_def htons_def le32_def le16_def hi16_def lo16_def hi8_def lo8_def)
  then show ?thesis by (simp add: next_hop_def known_in_def sample_querier_fields)
qed

text \<open>The first packet for an address waits.\<close>

theorem aq_push_ip_witness:
  "\<exists>s' t' out q. aq_push env0 7 2 0 sample_ip_packet sample_querier = Some ((s', t'), out) \<and>
     queued t' 0x0200A8C0 = [q] \<and> framed [0x45, 0, 0, 20] q"
proof -
  have "\<not> known_in 7 (snd sample_querier) 0x0200A8C0" "queued (snd sample_querier) 0x0200A8C0 = []"
    by (simp_all add: known_in_def queued_def sample_querier_fields)
  then show ?thesis
    using aq_push_ip [OF sample_querier_ok(2) sample_querier_fields(2), of env0 7 2 sample_ip_packet]
    by (auto simp: sample_ip_packet_fields sample_next_hop sample_querier_fields append_outcome_def)
qed

theorem aq_push_reply_witness:
  "\<exists>st'. aq_push env0 7 2 1 (sample_waiting\<lparr> pdata := arp_frame [2, 0, 0, 0, 0, 1] [2, 0, 0, 0, 0, 9] ARPOP_REPLY
     [2, 0, 0, 0, 0, 9] 5 [2, 0, 0, 0, 0, 1] 0x0100A8C0 \<rparr>) sample_querier = Some (st', []) \<and> known_in 7 (snd st') 5"
proof -
  let ?p = "sample_waiting\<lparr> pdata := arp_frame [2, 0, 0, 0, 0, 1] [2, 0, 0, 0, 0, 9] ARPOP_REPLY
     [2, 0, 0, 0, 0, 9] 5 [2, 0, 0, 0, 0, 1] 0x0100A8C0 \<rparr>"
  have f: "is_reply (pdata ?p)" "plen ?p = 42" "arp_spa (get_ether_arp (pdata ?p)) = 5"
    by (simp_all add: is_reply_def arp_frame_fields ether_is_group_def get8_def)
  have "queued (snd sample_querier) 5 = []" by (simp add: queued_def sample_querier_fields)
  then show ?thesis
    using aq_push_reply [OF sample_querier_ok(2) sample_querier_fields(2) _ sample_querier_ok(3), of env0 1 7 2 ?p] f
    by (auto simp: Let_def)
qed

text \<open>Two packets for the same new address, 50 milliseconds apart: one query.\<close>

text \<open>Two more packets, 50 and 99 milliseconds after the query.\<close>

theorem aq_query_rate_witness:
  "\<exists>s' t' out s'' t'' outs. aq_push env0 7 2 0 sample_ip_packet sample_querier = Some ((s', t'), out) \<and>
     aq_arp_queries s' = aq_arp_queries (fst sample_querier) + 1 \<and>
     aq_ip_run 2 [(env0, 57, sample_ip_packet), (env0, 106, sample_ip_packet)] (s', t') = Some ((s'', t''), outs) \<and>
     aq_arp_queries s'' = aq_arp_queries s'"
proof -
  note fresh = sample_querier_ok(2) sample_querier_fields(2)
  have q: "queued (snd sample_querier) 0x0200A8C0 = []" "\<not> known_in 7 (snd sample_querier) 0x0200A8C0"
    "poll_due 7 (snd sample_querier) 0x0200A8C0"
    by (simp_all add: known_in_def queued_def sample_querier_fields poll_due_def)
  obtain s' t' out where p: "aq_handle_ip env0 7 2 sample_ip_packet False sample_querier = Some ((s', t'), out)" "aq_inv s' t'"
    "same_config (snd sample_querier) t'"
    "ip_outcome 7 2 sample_ip_packet (fst sample_querier) (snd sample_querier) s' t' out"
    using aq_handle_ip_result [OF fresh, of env0 7 2 sample_ip_packet] by auto
  have n: "aq_arp_queries s' = aq_arp_queries (fst sample_querier) + 1"
    using p(4) q by (auto simp: ip_outcome_def sample_querier_fields sample_ip_packet_fields sample_next_hop append_outcome_def)
  have "at_entry_count t' \<le> 100" "at_packet_count t' \<le> 2048"
    using p(2,3) by (auto simp: aq_inv_def arp_caps_def same_config_def sample_querier_fields)
  then have room: "unat (at_entry_count t') < 2 ^ 32 - 1" "unat (at_packet_count t') + 2 < 2 ^ 32" by (simp_all add: word_le_nat_alt)
  have push: "aq_push env0 7 2 0 sample_ip_packet (fst sample_querier, snd sample_querier) = Some ((s', t'), out)"
    using p(1) by (simp add: aq_push_def)
  have ne: "aq_arp_queries s' \<noteq> aq_arp_queries (fst sample_querier)" using n by simp
  show ?thesis
    using aq_query_rate [OF fresh _ push ne room(1), of "[(env0, 57, sample_ip_packet), (env0, 106, sample_ip_packet)]"] push n room(2)
    by (simp del: aq_ip_run.simps) blast
qed

theorem aq_reachable_safe_witness:
  "\<exists>s t. aq_step sample_querier (s, t) \<and> aq_my_ip s = 7 \<and> aq_push env0 3 2 0 sample_ip_packet (s, t) \<noteq> None"
proof -
  let ?s = "(fst sample_querier)\<lparr> aq_my_ip := 7 \<rparr>" and ?t = "snd sample_querier"
  have st: "aq_step sample_querier (?s, ?t)" using aq_step.ipaddr [of "fst sample_querier" ?t 7] by simp
  then have "aq_step\<^sup>*\<^sup>* sample_querier (?s, ?t)" by (rule r_into_rtranclp)
  then show ?thesis
    using st aq_reachable_safe [OF sample_args_sane sample_querier_ok(1) _ sample_querier_fields(2), of ?s env0 3 2 0 sample_ip_packet]
    by (intro exI [of _ ?s] exI [of _ ?t]) simp
qed

end
