(* ===== verification/Click_Qsort.thy ===== *)
theory Click_Qsort
  imports Click_Prelude "HOL-Library.Multiset"
begin

text \<open>
  \<^verbatim>\<open>click_qsort\<close> (\<^verbatim>\<open>lib/glue.cc\<close>), the quicksort of Bentley and McIlroy with an explicit stack. The array is a
  list, a pointer into it is an index, and the comparison function, with its \<^verbatim>\<open>thunk\<close>, is the argument
  \<open>cmp\<close>. Reading or writing outside the array, moving a pointer in front of it and a failed assertion give
  \<open>None\<close>. The size of the elements and the way in which they are swapped (\<^verbatim>\<open>swaptype\<close>) play no part: the pivot is
  the first element of the range, or a copy of it, while the range is partitioned.
\<close>

section \<open>The program\<close>

definition cq_at :: "'a list \<Rightarrow> nat \<Rightarrow> 'a option" where
  "cq_at xs i = (if i < length xs then Some (xs ! i) else None)"

definition cq_swap :: "nat \<Rightarrow> nat \<Rightarrow> 'a list \<Rightarrow> 'a list option" where
  "cq_swap i j xs = (if i < length xs \<and> j < length xs then Some (xs[i := xs ! j, j := xs ! i]) else None)"

fun cq_swapfunc :: "nat \<Rightarrow> nat \<Rightarrow> nat \<Rightarrow> 'a list \<Rightarrow> 'a list option" where
  "cq_swapfunc a b 0 xs = Some xs"
| "cq_swapfunc a b (Suc n) xs = do { xs \<leftarrow> cq_swap a b xs; cq_swapfunc (a + 1) (b + 1) n xs }"

definition cq_med3 :: "('a \<Rightarrow> 'a \<Rightarrow> int) \<Rightarrow> 'a list \<Rightarrow> nat \<Rightarrow> nat \<Rightarrow> nat \<Rightarrow> nat option" where
  "cq_med3 cmp xs a b c =
     do {
       xa \<leftarrow> cq_at xs a; xb \<leftarrow> cq_at xs b; xc \<leftarrow> cq_at xs c;
       let ab = cmp xa xb;
       let bc = cmp xb xc;
       Some (if ab < 0 then (if bc < 0 then b else if cmp xa xc < 0 then c else a)
             else (if bc > 0 then b else if cmp xa xc > 0 then c else a))
     }"

text \<open>Insertion sort: \<open>cq_sink\<close> is the inner loop.\<close>

fun cq_sink :: "('a \<Rightarrow> 'a \<Rightarrow> int) \<Rightarrow> nat \<Rightarrow> nat \<Rightarrow> 'a list \<Rightarrow> 'a list option" where
  "cq_sink cmp a pj xs =
     (if pj > a then
        do {
          x \<leftarrow> cq_at xs (pj - 1); y \<leftarrow> cq_at xs pj;
          if cmp x y > 0 then do { xs \<leftarrow> cq_swap pj (pj - 1) xs; cq_sink cmp a (pj - 1) xs } else Some xs
        }
      else Some xs)"

declare cq_sink.simps [simp del]

function cq_insertion :: "('a \<Rightarrow> 'a \<Rightarrow> int) \<Rightarrow> nat \<Rightarrow> nat \<Rightarrow> nat \<Rightarrow> 'a list \<Rightarrow> 'a list option" where
  "cq_insertion cmp a pi stop xs =
     (if pi < stop then do { xs \<leftarrow> cq_sink cmp a pi xs; cq_insertion cmp a (pi + 1) stop xs } else Some xs)"
  by pat_completeness auto
termination by (relation "measure (\<lambda>(cmp, a, pi, stop, xs). stop - pi)") auto

declare cq_insertion.simps [simp del]

text \<open>The choice of the pivot: the middle, the median of three, or the median of three medians.\<close>

definition cq_pivot :: "('a \<Rightarrow> 'a \<Rightarrow> int) \<Rightarrow> nat \<Rightarrow> nat \<Rightarrow> 'a list \<Rightarrow> nat option" where
  "cq_pivot cmp a n xs =
     (let pm = a + n div 2
      in if n > 7 then
           let p1 = a; p2 = a + (n - 1)
           in if n > 40 then
                let offset = n div 8
                in do {
                     p1 \<leftarrow> cq_med3 cmp xs p1 (p1 + offset) (p1 + 2 * offset);
                     pm \<leftarrow> cq_med3 cmp xs (pm - offset) pm (pm + offset);
                     p2 \<leftarrow> cq_med3 cmp xs (p2 - 2 * offset) (p2 - offset) p2;
                     cq_med3 cmp xs p1 pm p2
                   }
              else cq_med3 cmp xs p1 pm p2
         else Some pm)"

text \<open>The partition: the two inner loops, and the loop around them.\<close>

function cq_left ::
  "('a \<Rightarrow> 'a \<Rightarrow> int) \<Rightarrow> 'a \<Rightarrow> nat \<Rightarrow> nat \<Rightarrow> nat \<Rightarrow> 'a list \<Rightarrow> (nat \<times> nat \<times> 'a list) option" where
  "cq_left cmp pivot pa pb pc xs =
     (if pb \<le> pc then
        do {
          x \<leftarrow> cq_at xs pb;
          let r = cmp x pivot;
          if r < 0 then cq_left cmp pivot pa (pb + 1) pc xs
          else if r = 0 then do { xs \<leftarrow> cq_swap pa pb xs; cq_left cmp pivot (pa + 1) (pb + 1) pc xs }
          else Some (pa, pb, xs)
        }
      else Some (pa, pb, xs))"
  by pat_completeness auto
termination by (relation "measure (\<lambda>(cmp, pivot, pa, pb, pc, xs). Suc pc - pb)") auto

function cq_right ::
  "('a \<Rightarrow> 'a \<Rightarrow> int) \<Rightarrow> 'a \<Rightarrow> nat \<Rightarrow> nat \<Rightarrow> nat \<Rightarrow> 'a list \<Rightarrow> (nat \<times> nat \<times> 'a list) option" where
  "cq_right cmp pivot pb pc pd xs =
     (if pc \<ge> pb then
        do {
          x \<leftarrow> cq_at xs pc;
          let r = cmp x pivot;
          if r > 0 then (if pc = 0 then None else cq_right cmp pivot pb (pc - 1) pd xs)
          else if r = 0 then
            do { xs \<leftarrow> cq_swap pc pd xs; if pc = 0 \<or> pd = 0 then None else cq_right cmp pivot pb (pc - 1) (pd - 1) xs }
          else Some (pc, pd, xs)
        }
      else Some (pc, pd, xs))"
  by pat_completeness auto
termination by (relation "measure (\<lambda>(cmp, pivot, pb, pc, pd, xs). Suc pc - pb)") auto

declare cq_left.simps [simp del] cq_right.simps [simp del]

partial_function (option) cq_partition ::
  "('a \<Rightarrow> 'a \<Rightarrow> int) \<Rightarrow> 'a \<Rightarrow> nat \<Rightarrow> nat \<Rightarrow> nat \<Rightarrow> nat \<Rightarrow> 'a list \<Rightarrow> (nat \<times> nat \<times> nat \<times> nat \<times> 'a list) option" where
  "cq_partition cmp pivot pa pb pc pd xs =
     do {
       (pa, pb, xs) \<leftarrow> cq_left cmp pivot pa pb pc xs;
       (pc, pd, xs) \<leftarrow> cq_right cmp pivot pb pc pd xs;
       if pb > pc then Some (pa, pb, pc, pd, xs)
       else do {
         xs \<leftarrow> cq_swap pb pc xs;
         if pc = 0 then None else cq_partition cmp pivot pa (pb + 1) (pc - 1) pd xs
       }
     }"

text \<open>The work on a range of at least seven elements, from the choice of the pivot up to the last exchange: how
  many elements are smaller and how many greater than the pivot.\<close>

definition cq_split :: "('a \<Rightarrow> 'a \<Rightarrow> int) \<Rightarrow> nat \<Rightarrow> nat \<Rightarrow> 'a list \<Rightarrow> (nat \<times> nat \<times> 'a list) option" where
  "cq_split cmp a n xs =
     do {
       pm \<leftarrow> cq_pivot cmp a n xs;
       xs \<leftarrow> cq_swap a pm xs;
       pivot \<leftarrow> cq_at xs a;
       (pa, pb, pc, pd, xs) \<leftarrow> cq_partition cmp pivot (a + 1) (a + 1) (a + (n - 1)) (a + (n - 1)) xs;
       let pn = a + n;
       let s = (if pa - a < pb - pa then pa - a else pb - pa);
       xs \<leftarrow> cq_swapfunc a (pb - s) s xs;
       let s = (if pd - pc < pn - pd - 1 then pd - pc else pn - pd - 1);
       xs \<leftarrow> cq_swapfunc pb (pn - s) s xs;
       Some (pb - pa, pd - pc, xs)
     }"

definition CQ_STACKSIZ :: nat where "CQ_STACKSIZ = (8 * 8 + 1) * 2"

text \<open>The main loop; the stack is a list of ranges, its top first.\<close>

partial_function (option) cq_loop ::
  "('a \<Rightarrow> 'a \<Rightarrow> int) \<Rightarrow> (nat \<times> nat) list \<Rightarrow> 'a list \<Rightarrow> 'a list option" where
  "cq_loop cmp stack xs =
     (case stack of
        [] \<Rightarrow> Some xs
      | (lo, hi) # rest \<Rightarrow>
          let n = hi - lo
          in if n < 7 then do { xs \<leftarrow> cq_insertion cmp lo (lo + 1) (lo + n) xs; cq_loop cmp rest xs }
             else do {
               (l, g, xs) \<leftarrow> cq_split cmp lo n xs;
               if l = 0 \<and> g = 0 then cq_loop cmp rest xs
               else if \<not> 2 * length rest + 4 < CQ_STACKSIZ then None
               else let big = (if g > l then (hi - g, hi) else (lo, lo + l));
                        small = (if g > l then (lo, lo + l) else (hi - g, hi))
                    in cq_loop cmp (if fst small \<noteq> snd small then small # big # rest else big # rest) xs
             })"

definition click_qsort :: "('a \<Rightarrow> 'a \<Rightarrow> int) \<Rightarrow> 'a list \<Rightarrow> 'a list option" where
  "click_qsort cmp xs = cq_loop cmp [(0, length xs)] xs"

section \<open>Rearranging a range\<close>

definition perm_in :: "nat \<Rightarrow> nat \<Rightarrow> 'a list \<Rightarrow> 'a list \<Rightarrow> bool" where
  "perm_in lo hi xs ys \<longleftrightarrow> mset ys = mset xs \<and> (\<forall>i < length xs. i < lo \<or> hi \<le> i \<longrightarrow> ys ! i = xs ! i)"

lemma perm_in_refl [simp]: "perm_in lo hi xs xs"
  by (simp add: perm_in_def)

lemma perm_in_length: "perm_in lo hi xs ys \<Longrightarrow> length ys = length xs"
  unfolding perm_in_def by (metis size_mset)

lemma perm_in_set: "perm_in lo hi xs ys \<Longrightarrow> set ys = set xs"
  unfolding perm_in_def by (metis set_mset_mset)

lemma perm_in_trans: "perm_in lo hi xs ys \<Longrightarrow> perm_in lo hi ys zs \<Longrightarrow> perm_in lo hi xs zs"
  using perm_in_length [of lo hi xs ys] by (simp add: perm_in_def)

lemma perm_in_mono: "perm_in lo hi xs ys \<Longrightarrow> lo' \<le> lo \<Longrightarrow> hi \<le> hi' \<Longrightarrow> perm_in lo' hi' xs ys"
  by (auto simp: perm_in_def)

lemma cq_swap_perm:
  assumes "lo \<le> i" and "lo \<le> j" and "i < hi" and "j < hi" and "hi \<le> length xs"
  shows "cq_swap i j xs = Some (xs[i := xs ! j, j := xs ! i])" and "perm_in lo hi xs (xs[i := xs ! j, j := xs ! i])"
  using assms mset_swap [of j xs i] by (auto simp: cq_swap_def perm_in_def nth_list_update)

text \<open>Every element of the range comes from the range.\<close>

lemma perm_in_from:
  assumes "perm_in lo hi xs ys" and "lo \<le> i" and "i < hi" and "hi \<le> length xs"
  obtains j where "lo \<le> j" and "j < hi" and "ys ! i = xs ! j"
proof -
  have len: "length ys = length xs" by (rule perm_in_length [OF assms(1)])
  have "take lo ys = take lo xs" "drop hi ys = drop hi xs"
    using assms len by (auto simp: perm_in_def intro!: nth_equalityI)
  moreover have split: "zs = take lo zs @ drop lo (take hi zs) @ drop hi zs" for zs :: "'a list"
    using assms(2,3) by (metis append_take_drop_id append_assoc less_imp_le_nat min.absorb1 order_trans take_take)
  have "mset ys = mset xs" using assms(1) by (simp add: perm_in_def)
  ultimately have "mset (drop lo (take hi ys)) = mset (drop lo (take hi xs))"
    by (metis (no_types) split add_left_cancel add_right_cancel mset_append)
  then have "set (drop lo (take hi ys)) = set (drop lo (take hi xs))" by (metis set_mset_mset)
  moreover have "ys ! i \<in> set (drop lo (take hi ys))"
    using assms len by (auto simp: in_set_conv_nth intro!: exI [of _ "i - lo"])
  ultimately obtain k where "k < length (drop lo (take hi xs))" "ys ! i = drop lo (take hi xs) ! k"
    by (metis in_set_conv_nth)
  then show ?thesis using that [of "lo + k"] assms by simp
qed

section \<open>Order\<close>

text \<open>What a comparison function should be: a linear preorder on the elements.\<close>

definition weak_order :: "('a \<Rightarrow> 'a \<Rightarrow> int) \<Rightarrow> 'a set \<Rightarrow> bool" where
  "weak_order cmp S \<longleftrightarrow> (\<forall>x\<in>S. \<forall>y\<in>S. cmp x y \<le> 0 \<longleftrightarrow> cmp y x \<ge> 0) \<and>
     (\<forall>x\<in>S. \<forall>y\<in>S. \<forall>z\<in>S. cmp x y \<le> 0 \<and> cmp y z \<le> 0 \<longrightarrow> cmp x z \<le> 0)"

lemma weak_orderD:
  assumes "weak_order cmp S" and "x \<in> S" and "y \<in> S"
  shows "cmp x y > 0 \<Longrightarrow> cmp y x \<le> 0" and "cmp x y \<ge> 0 \<Longrightarrow> cmp y x \<le> 0"
  using assms unfolding weak_order_def by (metis less_imp_le linorder_not_less)+

lemma weak_order_trans:
  "weak_order cmp S \<Longrightarrow> x \<in> S \<Longrightarrow> y \<in> S \<Longrightarrow> z \<in> S \<Longrightarrow> cmp x y \<le> 0 \<Longrightarrow> cmp y z \<le> 0 \<Longrightarrow> cmp x z \<le> 0"
  unfolding weak_order_def by blast

definition ordered_in :: "('a \<Rightarrow> 'a \<Rightarrow> int) \<Rightarrow> nat \<Rightarrow> nat \<Rightarrow> 'a list \<Rightarrow> bool" where
  "ordered_in cmp lo hi xs \<longleftrightarrow> (\<forall>i j. lo \<le> i \<and> i < j \<and> j < hi \<longrightarrow> cmp (xs ! i) (xs ! j) \<le> 0)"

section \<open>Insertion sort\<close>

text \<open>Sinking the element at \<open>pj\<close>, when all other pairs are in order.\<close>

definition ordered_but :: "('a \<Rightarrow> 'a \<Rightarrow> int) \<Rightarrow> nat \<Rightarrow> nat \<Rightarrow> nat \<Rightarrow> 'a list \<Rightarrow> bool" where
  "ordered_but cmp lo hi k xs \<longleftrightarrow> (\<forall>i j. lo \<le> i \<and> i < j \<and> j < hi \<and> j \<noteq> k \<longrightarrow> cmp (xs ! i) (xs ! j) \<le> 0)"

lemma ordered_but_done:
  assumes "weak_order cmp (set xs)" and "ordered_but cmp a hi k xs" and "hi \<le> length xs"
    and "k > a \<Longrightarrow> cmp (xs ! (k - 1)) (xs ! k) \<le> 0"
  shows "ordered_in cmp a hi xs"
  unfolding ordered_in_def
proof (intro allI impI)
  fix i j assume ij: "a \<le> i \<and> i < j \<and> j < hi"
  show "cmp (xs ! i) (xs ! j) \<le> 0"
  proof (cases "j = k")
    case True
    then have k: "cmp (xs ! (k - 1)) (xs ! k) \<le> 0" using assms(4) ij by simp
    show ?thesis
    proof (cases "i = k - 1")
      case False
      then have "i < k - 1" "k - 1 < hi" "k - 1 \<noteq> k" using ij True by linarith+
      then have "cmp (xs ! i) (xs ! (k - 1)) \<le> 0" using assms(2) ij by (simp add: ordered_but_def)
      from weak_order_trans [OF assms(1) nth_mem nth_mem nth_mem this k] show ?thesis using ij True assms(3) by (simp add: less_imp_diff_less)
    qed (use k True in simp)
  qed (use assms(2) ij in \<open>simp add: ordered_but_def\<close>)
qed

lemma ordered_but_swap:
  assumes "weak_order cmp (set xs)" and "ordered_but cmp a hi k xs" and "k < hi" and "hi \<le> length xs" and "a < k"
    and "cmp (xs ! (k - 1)) (xs ! k) > 0"
  shows "ordered_but cmp a hi (k - 1) (xs[k := xs ! (k - 1), k - 1 := xs ! k])"
  unfolding ordered_but_def
proof (intro allI impI)
  let ?ys = "xs[k := xs ! (k - 1), k - 1 := xs ! k]"
  fix i j assume ij: "a \<le> i \<and> i < j \<and> j < hi \<and> j \<noteq> k - 1"
  have rev: "cmp (xs ! k) (xs ! (k - 1)) \<le> 0" using weak_orderD(1) [OF assms(1) _ _ assms(6)] assms(3-5) by simp
  have ord: "cmp (xs ! i) (xs ! j) \<le> 0" if "a \<le> i" "i < j" "j < hi" "j \<noteq> k" for i j
    using assms(2) that by (simp add: ordered_but_def)
  consider "j = k" "i = k - 1" | "j = k" "i < k - 1" | "j \<noteq> k" "i = k - 1" | "j \<noteq> k" "i = k" | "j \<noteq> k" "i \<noteq> k" "i \<noteq> k - 1"
    using ij by linarith
  then show "cmp (?ys ! i) (?ys ! j) \<le> 0"
    by cases (use ij assms(3-5) rev ord [of i "k - 1"] ord [of k j] ord [of "k - 1" j] ord [of i j] in auto)
qed

lemma cq_sink_result:
  assumes "a \<le> pj" and "pj < hi" and "hi \<le> length xs"
  shows "\<exists>ys. cq_sink cmp a pj xs = Some ys \<and> perm_in a hi xs ys \<and>
    (weak_order cmp (set xs) \<and> ordered_but cmp a hi pj xs \<longrightarrow> ordered_in cmp a hi ys)"
  using assms
proof (induction pj arbitrary: xs)
  case 0
  then show ?case using ordered_but_done [of cmp xs a hi 0] by (subst cq_sink.simps) simp
next
  case (Suc k)
  show ?case
  proof (cases "a < Suc k \<and> cmp (xs ! k) (xs ! Suc k) > 0")
    case True
    let ?ys = "xs[Suc k := xs ! k, k := xs ! Suc k]"
    have s: "cq_swap (Suc k) k xs = Some ?ys" "perm_in a hi xs ?ys"
      using cq_swap_perm [of a "Suc k" k hi xs] True Suc.prems by simp_all
    obtain zs where zs: "cq_sink cmp a k ?ys = Some zs" "perm_in a hi ?ys zs"
      "weak_order cmp (set ?ys) \<and> ordered_but cmp a hi k ?ys \<longrightarrow> ordered_in cmp a hi zs"
      using Suc.IH [of ?ys] True Suc.prems by auto
    have "ordered_but cmp a hi k ?ys" if "weak_order cmp (set xs)" "ordered_but cmp a hi (Suc k) xs"
      using ordered_but_swap [OF that] True Suc.prems by simp
    then have "weak_order cmp (set xs) \<and> ordered_but cmp a hi (Suc k) xs \<longrightarrow> ordered_in cmp a hi zs"
      using zs(3) perm_in_set [OF s(2)] by simp
    moreover have "cq_sink cmp a (Suc k) xs = Some zs"
      using True Suc.prems s(1) zs(1) by (subst cq_sink.simps) (simp add: cq_at_def)
    ultimately show ?thesis using perm_in_trans [OF s(2) zs(2)] by blast
  next
    case False
    then have "cq_sink cmp a (Suc k) xs = Some xs" using Suc.prems by (subst cq_sink.simps) (auto simp: cq_at_def)
    then show ?thesis using ordered_but_done [of cmp xs a hi "Suc k"] False Suc.prems by (auto simp: not_less)
  qed
qed

lemma cq_insertion_result:
  assumes "a < pi" and "stop \<le> length xs"
  shows "\<exists>ys. cq_insertion cmp a pi stop xs = Some ys \<and> perm_in a stop xs ys \<and>
    (weak_order cmp (set xs) \<and> ordered_in cmp a pi xs \<longrightarrow> ordered_in cmp a stop ys)"
  using assms
proof (induction cmp a pi stop xs rule: cq_insertion.induct)
  case (1 cmp a pi stop xs)
  show ?case
  proof (cases "pi < stop")
    case True
    obtain ys where ys: "cq_sink cmp a pi xs = Some ys" "perm_in a (pi + 1) xs ys"
      "weak_order cmp (set xs) \<and> ordered_but cmp a (pi + 1) pi xs \<longrightarrow> ordered_in cmp a (pi + 1) ys"
      using cq_sink_result [of a pi "pi + 1" xs cmp] "1.prems" True by auto
    have p: "perm_in a stop xs ys" using perm_in_mono [OF ys(2)] True by simp
    obtain zs where zs: "cq_insertion cmp a (pi + 1) stop ys = Some zs" "perm_in a stop ys zs"
      "weak_order cmp (set ys) \<and> ordered_in cmp a (pi + 1) ys \<longrightarrow> ordered_in cmp a stop zs"
      using "1.IH" [OF True ys(1)] "1.prems" perm_in_length [OF p] by auto
    have "ordered_in cmp a pi xs \<longrightarrow> ordered_but cmp a (pi + 1) pi xs" by (auto simp: ordered_in_def ordered_but_def)
    moreover have "cq_insertion cmp a pi stop xs = Some zs"
      using True ys(1) zs(1) by (subst cq_insertion.simps) simp
    ultimately show ?thesis using zs(3) ys(3) perm_in_set [OF p] perm_in_trans [OF p zs(2)] by auto
  next
    case False
    then have "cq_insertion cmp a pi stop xs = Some xs" by (subst cq_insertion.simps) simp
    then show ?thesis using False by (auto simp: ordered_in_def)
  qed
qed

section \<open>The partition\<close>

text \<open>Between the bounds of the range: elements that compare equal to the pivot at both ends, smaller and greater
  ones next to them, and in the middle those not looked at yet. Nothing is assumed of the comparison
  function.\<close>

definition part_inv ::
  "('a \<Rightarrow> 'a \<Rightarrow> int) \<Rightarrow> 'a \<Rightarrow> nat \<Rightarrow> nat \<Rightarrow> nat \<Rightarrow> nat \<Rightarrow> nat \<Rightarrow> nat \<Rightarrow> 'a list \<Rightarrow> bool" where
  "part_inv cmp v lo hi pa pb pc pd xs \<longleftrightarrow>
     lo < pa \<and> pa \<le> pb \<and> pb \<le> Suc pc \<and> pc \<le> pd \<and> pd < hi \<and> hi \<le> length xs \<and> xs ! lo = v \<and>
     (\<forall>i. lo < i \<and> i < pa \<longrightarrow> cmp (xs ! i) v = 0) \<and> (\<forall>i. pa \<le> i \<and> i < pb \<longrightarrow> cmp (xs ! i) v < 0) \<and>
     (\<forall>i. pc < i \<and> i \<le> pd \<longrightarrow> cmp (xs ! i) v > 0) \<and> (\<forall>i. pd < i \<and> i < hi \<longrightarrow> cmp (xs ! i) v = 0)"

lemma cq_left_result:
  assumes "part_inv cmp v lo hi pa pb pc pd xs"
  shows "\<exists>pa' pb' ys. cq_left cmp v pa pb pc xs = Some (pa', pb', ys) \<and> part_inv cmp v lo hi pa' pb' pc pd ys \<and>
    perm_in lo hi xs ys \<and> pb \<le> pb' \<and> (pb' \<le> pc \<longrightarrow> cmp (ys ! pb') v > 0)"
  using assms
proof (induction cmp v pa pb pc xs rule: cq_left.induct)
  case (1 cmp v pa pb pc xs)
  show ?case
  proof (cases "pb \<le> pc")
    case True
    have at: "cq_at xs pb = Some (xs ! pb)" using True "1.prems" by (simp add: cq_at_def part_inv_def)
    consider "cmp (xs ! pb) v < 0" | "cmp (xs ! pb) v = 0" | "cmp (xs ! pb) v > 0" by linarith
    then show ?thesis
    proof cases
      case lt: 1
      have "part_inv cmp v lo hi pa (pb + 1) pc pd xs"
        using "1.prems" True lt by (auto simp: part_inv_def less_Suc_eq)
      from "1.IH"(1) [OF True at refl lt this] show ?thesis
        using True at lt by (subst cq_left.simps) auto
    next
      case eq: 2
      let ?ys = "xs[pa := xs ! pb, pb := xs ! pa]"
      have s: "cq_swap pa pb xs = Some ?ys" "perm_in lo hi xs ?ys"
        using cq_swap_perm [of lo pa pb hi xs] True "1.prems" by (simp_all add: part_inv_def)
      have "part_inv cmp v lo hi (pa + 1) (pb + 1) pc pd ?ys"
        using "1.prems" True eq by (auto simp: part_inv_def less_Suc_eq nth_list_update)
      from "1.IH"(2) [OF True at refl _ eq s(1) this] obtain pa' pb' zs
        where "cq_left cmp v (pa + 1) (pb + 1) pc ?ys = Some (pa', pb', zs)" "part_inv cmp v lo hi pa' pb' pc pd zs"
          "perm_in lo hi ?ys zs" "pb + 1 \<le> pb'" "pb' \<le> pc \<longrightarrow> cmp (zs ! pb') v > 0"
        using eq by auto
      moreover from this have "cq_left cmp v pa pb pc xs = Some (pa', pb', zs)"
        using True at eq s(1) by (subst cq_left.simps) simp
      ultimately show ?thesis using perm_in_trans [OF s(2)] by auto
    next
      case gt: 3
      then have "cq_left cmp v pa pb pc xs = Some (pa, pb, xs)" using True at by (subst cq_left.simps) simp
      then show ?thesis using gt "1.prems" by simp
    qed
  next
    case False
    then have "cq_left cmp v pa pb pc xs = Some (pa, pb, xs)" by (subst cq_left.simps) simp
    then show ?thesis using False "1.prems" by simp
  qed
qed

lemma cq_right_result:
  assumes "part_inv cmp v lo hi pa pb pc pd xs"
  shows "\<exists>pc' pd' ys. cq_right cmp v pb pc pd xs = Some (pc', pd', ys) \<and> part_inv cmp v lo hi pa pb pc' pd' ys \<and>
    perm_in lo hi xs ys \<and> pc' \<le> pc \<and> (\<forall>i\<le>pc'. ys ! i = xs ! i) \<and> (pb \<le> pc' \<longrightarrow> cmp (ys ! pc') v < 0)"
  using assms
proof (induction cmp v pb pc pd xs rule: cq_right.induct)
  case (1 cmp v pb pc pd xs)
  show ?case
  proof (cases "pb \<le> pc")
    case True
    have at: "cq_at xs pc = Some (xs ! pc)" using True "1.prems" by (simp add: cq_at_def part_inv_def)
    have nz: "pc \<noteq> 0" "pd \<noteq> 0" using True "1.prems" by (auto simp: part_inv_def)
    have below: "i < pc \<or> i = pc \<or> pc < i" for i by linarith
    consider "cmp (xs ! pc) v > 0" | "cmp (xs ! pc) v = 0" | "cmp (xs ! pc) v < 0" by linarith
    then show ?thesis
    proof cases
      case gt: 1
      have "cmp (xs ! i) v > 0" if "pc - 1 < i" "i \<le> pd" for i
        using "1.prems" gt that by (cases "i = pc") (auto simp: part_inv_def)
      then have "part_inv cmp v lo hi pa pb (pc - 1) pd xs"
        using "1.prems" True nz by (auto simp: part_inv_def)
      from "1.IH"(1) [OF True at refl gt nz(1) this] show ?thesis
        using True at gt nz by (subst cq_right.simps) auto
    next
      case eq: 2
      let ?ys = "xs[pc := xs ! pd, pd := xs ! pc]"
      have s: "cq_swap pc pd xs = Some ?ys" "perm_in lo hi xs ?ys"
        using cq_swap_perm [of lo pc pd hi xs] True "1.prems" by (simp_all add: part_inv_def)
      have b: "lo < pa" "pa \<le> pb" "pc \<le> pd" "pd < hi" "hi \<le> length xs" using "1.prems" by (simp_all add: part_inv_def)
      have "cmp (?ys ! i) v > 0" if "pc - 1 < i" "i \<le> pd - 1" for i
      proof -
        have "i = pc \<or> pc < i" "i < pd" using that nz by linarith+
        then show ?thesis using "1.prems" b by (auto simp: part_inv_def nth_list_update)
      qed
      moreover have "cmp (?ys ! i) v = 0" if "pd - 1 < i" "i < hi" for i
        using "1.prems" that b nz eq by (cases "i = pd") (auto simp: part_inv_def nth_list_update)
      ultimately have "part_inv cmp v lo hi pa pb (pc - 1) (pd - 1) ?ys"
        using "1.prems" True nz by (auto simp: part_inv_def nth_list_update)
      from "1.IH"(2) [OF True at refl _ eq s(1) _ this] obtain pc' pd' zs
        where "cq_right cmp v pb (pc - 1) (pd - 1) ?ys = Some (pc', pd', zs)" "part_inv cmp v lo hi pa pb pc' pd' zs"
          "perm_in lo hi ?ys zs" "pc' \<le> pc - 1" "\<forall>i\<le>pc'. zs ! i = ?ys ! i" "pb \<le> pc' \<longrightarrow> cmp (zs ! pc') v < 0"
        using eq nz by auto
      moreover from this have "cq_right cmp v pb pc pd xs = Some (pc', pd', zs)"
        using True at eq nz s(1) by (subst cq_right.simps) simp
      moreover from this calculation(4,5) have "\<forall>i\<le>pc'. zs ! i = xs ! i" using b nz by auto
      ultimately show ?thesis using perm_in_trans [OF s(2)] by auto
    next
      case lt: 3
      then have "cq_right cmp v pb pc pd xs = Some (pc, pd, xs)" using True at by (subst cq_right.simps) simp
      then show ?thesis using lt "1.prems" by simp
    qed
  next
    case False
    then have "cq_right cmp v pb pc pd xs = Some (pc, pd, xs)" by (subst cq_right.simps) simp
    then show ?thesis using False "1.prems" by simp
  qed
qed

text \<open>The loop returns, with nothing left in the middle.\<close>

lemma cq_partition_result:
  assumes "part_inv cmp v lo hi pa pb pc pd xs"
  shows "\<exists>pa' pb' pc' pd' ys. cq_partition cmp v pa pb pc pd xs = Some (pa', pb', pc', pd', ys) \<and>
    part_inv cmp v lo hi pa' pb' pc' pd' ys \<and> pb' = Suc pc' \<and> perm_in lo hi xs ys"
  using assms
proof (induction "Suc pc - pb" arbitrary: pa pb pc pd xs rule: less_induct)
  case less
  obtain pa1 pb1 xs1 where l: "cq_left cmp v pa pb pc xs = Some (pa1, pb1, xs1)" "part_inv cmp v lo hi pa1 pb1 pc pd xs1"
    "perm_in lo hi xs xs1" "pb \<le> pb1" "pb1 \<le> pc \<longrightarrow> cmp (xs1 ! pb1) v > 0"
    using cq_left_result [OF less.prems] by blast
  obtain pc1 pd1 xs2 where r: "cq_right cmp v pb1 pc pd xs1 = Some (pc1, pd1, xs2)" "part_inv cmp v lo hi pa1 pb1 pc1 pd1 xs2"
    "perm_in lo hi xs1 xs2" "pc1 \<le> pc" "\<forall>i\<le>pc1. xs2 ! i = xs1 ! i" "pb1 \<le> pc1 \<longrightarrow> cmp (xs2 ! pc1) v < 0"
    using cq_right_result [OF l(2)] by blast
  have p: "perm_in lo hi xs xs2" by (rule perm_in_trans [OF l(3) r(3)])
  show ?case
  proof (cases "pb1 > pc1")
    case True
    then have "pb1 = Suc pc1" using r(2) by (simp add: part_inv_def)
    moreover have "cq_partition cmp v pa pb pc pd xs = Some (pa1, pb1, pc1, pd1, xs2)"
      using l(1) r(1) True by (subst cq_partition.simps) simp
    ultimately show ?thesis using r(2) p by auto
  next
    case False
    let ?ys = "xs2[pb1 := xs2 ! pc1, pc1 := xs2 ! pb1]"
    have b: "lo < pa1" "pa1 \<le> pb1" "pc1 \<le> pd1" "pd1 < hi" "hi \<le> length xs2" using r(2) by (simp_all add: part_inv_def)
    have gt: "cmp (xs2 ! pb1) v > 0" and lt: "cmp (xs2 ! pc1) v < 0" using False l(5) r(4-6) by auto
    then have ne: "pb1 < pc1" using False by (cases "pb1 = pc1") auto
    have s: "cq_swap pb1 pc1 xs2 = Some ?ys" "perm_in lo hi xs2 ?ys"
      using cq_swap_perm [of lo pb1 pc1 hi xs2] False b by simp_all
    have "cmp (?ys ! i) v < 0" if "pa1 \<le> i" "i < Suc pb1" for i
      using r(2) lt that ne b by (cases "i = pb1") (auto simp: part_inv_def nth_list_update)
    moreover have "cmp (?ys ! i) v > 0" if "pc1 - 1 < i" "i \<le> pd1" for i
      using r(2) gt that ne b by (cases "i = pc1") (auto simp: part_inv_def nth_list_update)
    ultimately have inv: "part_inv cmp v lo hi pa1 (Suc pb1) (pc1 - 1) pd1 ?ys"
      using r(2) ne by (auto simp: part_inv_def nth_list_update)
    have "Suc (pc1 - 1) - Suc pb1 < Suc pc - pb" using ne l(4) r(4) by linarith
    from less.hyps [OF this inv] obtain pa' pb' pc' pd' zs where
      z: "cq_partition cmp v pa1 (Suc pb1) (pc1 - 1) pd1 ?ys = Some (pa', pb', pc', pd', zs)"
      "part_inv cmp v lo hi pa' pb' pc' pd' zs" "pb' = Suc pc'" "perm_in lo hi ?ys zs" by blast
    have "cq_partition cmp v pa pb pc pd xs = Some (pa', pb', pc', pd', zs)"
      using l(1) r(1) False ne s(1) z(1) by (subst cq_partition.simps) simp
    then show ?thesis using z(2,3) perm_in_trans [OF p perm_in_trans [OF s(2) z(4)]] by blast
  qed
qed

section \<open>One range\<close>

lemma cq_swapfunc_result:
  assumes "i + s \<le> j" and "j + s \<le> length xs"
  shows "\<exists>ys. cq_swapfunc i j s xs = Some ys \<and> mset ys = mset xs \<and>
    (\<forall>k < s. ys ! (i + k) = xs ! (j + k) \<and> ys ! (j + k) = xs ! (i + k)) \<and>
    (\<forall>k < length xs. (k < i \<or> i + s \<le> k) \<and> (k < j \<or> j + s \<le> k) \<longrightarrow> ys ! k = xs ! k)"
  using assms
proof (induction s arbitrary: i j xs)
  case (Suc s)
  let ?xs = "xs[i := xs ! j, j := xs ! i]"
  have p: "cq_swap i j xs = Some ?xs" "mset ?xs = mset xs"
    using cq_swap_perm [of 0 i j "length xs" xs] Suc.prems by (simp_all add: perm_in_def)
  obtain ys where ys: "cq_swapfunc (i + 1) (j + 1) s ?xs = Some ys" "mset ys = mset ?xs"
    "\<forall>k < s. ys ! (i + 1 + k) = ?xs ! (j + 1 + k) \<and> ys ! (j + 1 + k) = ?xs ! (i + 1 + k)"
    "\<forall>k < length xs. (k < i + 1 \<or> i + 1 + s \<le> k) \<and> (k < j + 1 \<or> j + 1 + s \<le> k) \<longrightarrow> ys ! k = ?xs ! k"
    using Suc.IH [of "i + 1" "j + 1" ?xs] Suc.prems by auto
  have "ys ! (i + k) = xs ! (j + k) \<and> ys ! (j + k) = xs ! (i + k)" if "k < Suc s" for k
    using that ys(3,4) Suc.prems by (cases k) (auto simp: nth_list_update)
  moreover have "ys ! k = xs ! k" if "k < length xs" "k < i \<or> i + Suc s \<le> k" "k < j \<or> j + Suc s \<le> k" for k
    using that ys(4) Suc.prems by (auto simp: nth_list_update)
  ultimately show ?case using p ys(1,2) by simp
qed simp

text \<open>Two neighbouring blocks change places.\<close>

lemma cq_exchange:
  assumes "i \<le> m" and "m \<le> k" and "k \<le> length xs"
  defines "s \<equiv> if m - i < k - m then m - i else k - m"
  shows "\<exists>ys. cq_swapfunc i (k - s) s xs = Some ys \<and> perm_in i k xs ys \<and>
    (\<forall>p. i \<le> p \<and> p < i + (k - m) \<longrightarrow> (\<exists>q. m \<le> q \<and> q < k \<and> ys ! p = xs ! q)) \<and>
    (\<forall>p. i + (k - m) \<le> p \<and> p < k \<longrightarrow> (\<exists>q. i \<le> q \<and> q < m \<and> ys ! p = xs ! q))"
proof -
  have s: "s \<le> m - i" "s \<le> k - m" "s = m - i \<or> s = k - m" by (auto simp: s_def)
  have len: "i + s \<le> k - s" "k - s + s \<le> length xs" using s(1,2) assms(1-3) by linarith+
  obtain ys where ys: "cq_swapfunc i (k - s) s xs = Some ys" "mset ys = mset xs"
    "\<And>n. n < s \<Longrightarrow> ys ! (i + n) = xs ! (k - s + n) \<and> ys ! (k - s + n) = xs ! (i + n)"
    "\<And>n. n < length xs \<Longrightarrow> n < i \<or> i + s \<le> n \<Longrightarrow> n < k - s \<or> k - s + s \<le> n \<Longrightarrow> ys ! n = xs ! n"
    using cq_swapfunc_result [OF len] by blast
  have first: "ys ! p = xs ! (k - s + (p - i))" if "i \<le> p" "p < i + s" for p using ys(3) [of "p - i"] that by simp
  have final: "ys ! p = xs ! (i + (p - (k - s)))" if "k - s \<le> p" "p < k" for p using ys(3) [of "p - (k - s)"] that by simp
  have rest: "ys ! p = xs ! p" if "i + s \<le> p" "p < k - s" for p using ys(4) [of p] that s assms(3) by simp
  have "\<exists>q. m \<le> q \<and> q < k \<and> ys ! p = xs ! q" if "i \<le> p" "p < i + (k - m)" for p
  proof (cases "p < i + s")
    case True
    then show ?thesis using first [of p] that s assms(1,2) by (intro exI [of _ "k - s + (p - i)"]) auto
  next
    case False
    then show ?thesis using rest [of p] that s assms(1,2) by (intro exI [of _ p]) auto
  qed
  moreover have "\<exists>q. i \<le> q \<and> q < m \<and> ys ! p = xs ! q" if "i + (k - m) \<le> p" "p < k" for p
  proof (cases "p < k - s")
    case True
    then show ?thesis using rest [of p] that s assms(1,2) by (intro exI [of _ p]) auto
  next
    case False
    then show ?thesis using final [of p] that s assms(1,2) by (intro exI [of _ "i + (p - (k - s))"]) auto
  qed
  moreover have "perm_in i k xs ys" using ys(2,4) s assms(1-3) by (auto simp: perm_in_def)
  ultimately show ?thesis using ys(1) by blast
qed

lemma cq_med3_result:
  assumes "a < length xs" and "b < length xs" and "c < length xs"
  shows "\<exists>m \<in> {a, b, c}. cq_med3 cmp xs a b c = Some m"
  using assms by (simp add: cq_med3_def cq_at_def Let_def)

lemma cq_pivot_result:
  assumes "7 \<le> n" and "a + n \<le> length xs"
  shows "\<exists>m. cq_pivot cmp a n xs = Some m \<and> a \<le> m \<and> m < a + n"
proof -
  have mid: "n div 2 < n" using assms(1) by simp
  show ?thesis
  proof (cases "n > 40")
    case True
    let ?o = "n div 8" and ?m = "a + n div 2" and ?l = "a + (n - 1)"
    have off: "8 * ?o \<le> n" "?o \<le> n div 2" "n div 2 + ?o < n" using True by linarith+
    obtain p1 where p1: "cq_med3 cmp xs a (a + ?o) (a + 2 * ?o) = Some p1" "p1 \<in> {a, a + ?o, a + 2 * ?o}"
      using cq_med3_result [of a xs "a + ?o" "a + 2 * ?o" cmp] off(1) True assms by auto
    obtain pm where pm: "cq_med3 cmp xs (?m - ?o) ?m (?m + ?o) = Some pm" "pm \<in> {?m - ?o, ?m, ?m + ?o}"
      using cq_med3_result [of "?m - ?o" xs ?m "?m + ?o" cmp] off mid assms by (auto simp: less_imp_diff_less)
    have last: "?l - 2 * ?o < length xs" "?l - ?o < length xs" "?l < length xs" using assms by linarith+
    obtain p2 where p2: "cq_med3 cmp xs (?l - 2 * ?o) (?l - ?o) ?l = Some p2" "p2 \<in> {?l - 2 * ?o, ?l - ?o, ?l}"
      using cq_med3_result [OF last, of cmp] by auto
    have r1: "a \<le> p1" "p1 < a + n" using p1(2) off(1) True by auto
    have "a \<le> ?m - ?o" "?m - ?o < a + n" "?m < a + n" "?m + ?o < a + n" using off mid by linarith+
    then have r2: "a \<le> pm" "pm < a + n" using pm(2) by auto
    have "a \<le> ?l - 2 * ?o" "a \<le> ?l - ?o" "?l < a + n" "?l - ?o \<le> ?l" "?l - 2 * ?o \<le> ?l" using off(1) True by linarith+
    then have r3: "a \<le> p2" "p2 < a + n" using p2(2) by (blast intro: order.strict_trans1 order.trans le_add1)+
    note r = r1 r2 r3
    obtain m where "cq_med3 cmp xs p1 pm p2 = Some m" "m \<in> {p1, pm, p2}"
      using cq_med3_result [of p1 xs pm p2 cmp] r assms by auto
    moreover from this have "cq_pivot cmp a n xs = Some m" using True p1(1) pm(1) p2(1) by (simp add: cq_pivot_def Let_def)
    ultimately show ?thesis using r by auto
  next
    case False
    have "a < length xs" "a + n div 2 < length xs" "a + (n - 1) < length xs" using mid assms by auto
    from cq_med3_result [OF this, of cmp] show ?thesis
      using False mid assms(1) by (auto simp: cq_pivot_def Let_def)
  qed
qed

text \<open>The range after the exchange of its ends: smaller elements, then those equal to the pivot, then greater ones.\<close>

definition split_at_pivot :: "('a \<Rightarrow> 'a \<Rightarrow> int) \<Rightarrow> 'a \<Rightarrow> nat \<Rightarrow> nat \<Rightarrow> nat \<Rightarrow> nat \<Rightarrow> 'a list \<Rightarrow> bool" where
  "split_at_pivot cmp v lo hi l g xs \<longleftrightarrow>
     (\<forall>i. lo \<le> i \<and> i < lo + l \<longrightarrow> cmp (xs ! i) v < 0) \<and>
     (\<forall>i. lo + l \<le> i \<and> i < hi - g \<longrightarrow> cmp (xs ! i) v = 0 \<or> xs ! i = v) \<and>
     (\<forall>i. hi - g \<le> i \<and> i < hi \<longrightarrow> cmp (xs ! i) v > 0)"

lemma cq_split_result:
  assumes "7 \<le> n" and "a + n \<le> length xs"
  shows "\<exists>v l g ys. cq_split cmp a n xs = Some (l, g, ys) \<and> l + g < n \<and> perm_in a (a + n) xs ys \<and> v \<in> set xs \<and>
    split_at_pivot cmp v a (a + n) l g ys"
proof -
  obtain pm where pm: "cq_pivot cmp a n xs = Some pm" "a \<le> pm" "pm < a + n" using cq_pivot_result [OF assms] by blast
  let ?xs = "xs[a := xs ! pm, pm := xs ! a]" and ?hi = "a + n"
  have s: "cq_swap a pm xs = Some ?xs" "perm_in a ?hi xs ?xs"
    using cq_swap_perm [of a a pm ?hi xs] pm assms by simp_all
  let ?v = "?xs ! a"
  have "part_inv cmp ?v a ?hi (a + 1) (a + 1) (a + (n - 1)) (a + (n - 1)) ?xs"
    using assms by (auto simp: part_inv_def)
  from cq_partition_result [OF this] obtain pa pb pc pd zs where z: "cq_partition cmp ?v (a + 1) (a + 1) (a + (n - 1)) (a + (n - 1)) ?xs = Some (pa, pb, pc, pd, zs)"
    "part_inv cmp ?v a ?hi pa pb pc pd zs" "pb = Suc pc" "perm_in a ?hi ?xs zs"
    by (elim exE conjE)
  have b: "a < pa" "pa \<le> pb" "pb \<le> Suc pd" "pd < ?hi" "?hi \<le> length zs" "zs ! a = ?v"
    using z(2,3) by (simp_all add: part_inv_def)
  let ?s = "if pa - a < pb - pa then pa - a else pb - pa"
  obtain ys where y: "cq_swapfunc a (pb - ?s) ?s zs = Some ys" "perm_in a pb zs ys"
    "\<And>p. a \<le> p \<and> p < a + (pb - pa) \<Longrightarrow> \<exists>q. pa \<le> q \<and> q < pb \<and> ys ! p = zs ! q"
    "\<And>p. a + (pb - pa) \<le> p \<and> p < pb \<Longrightarrow> \<exists>q. a \<le> q \<and> q < pa \<and> ys ! p = zs ! q"
    using cq_exchange [of a pa pb zs] b by auto
  let ?t = "if pd - pc < ?hi - pd - 1 then pd - pc else ?hi - pd - 1"
  have ly: "length ys = length zs" by (rule perm_in_length [OF y(2)])
  have e: "Suc pd - pb = pd - pc" "?hi - Suc pd = ?hi - pd - 1" using z(3) by simp_all
  obtain ws where w: "cq_swapfunc pb (?hi - ?t) ?t ys = Some ws" "perm_in pb ?hi ys ws"
    "\<And>p. pb \<le> p \<and> p < pb + (?hi - pd - 1) \<Longrightarrow> \<exists>q. Suc pd \<le> q \<and> q < ?hi \<and> ws ! p = ys ! q"
    "\<And>p. pb + (?hi - pd - 1) \<le> p \<and> p < ?hi \<Longrightarrow> \<exists>q. pb \<le> q \<and> q < Suc pd \<and> ws ! p = ys ! q"
    using cq_exchange [of pb "Suc pd" ?hi ys, unfolded e] b ly by auto
  have run: "cq_split cmp a n xs = Some (pb - pa, pd - pc, ws)"
    using pm(1) s(1) z(1) y(1) w(1) assms by (simp add: cq_split_def cq_at_def Let_def)
  have p: "perm_in a ?hi zs ws"
    by (rule perm_in_trans [OF perm_in_mono [OF y(2)] perm_in_mono [OF w(2)]]) (use b in auto)
  have low: "ws ! k = ys ! k" if "k < pb" for k using w(2) that ly b by (simp add: perm_in_def)
  have high: "ys ! k = zs ! k" if "pb \<le> k" "k < ?hi" for k using y(2) that b by (simp add: perm_in_def)
  have "cmp (ws ! i) ?v < 0" if "a \<le> i" "i < a + (pb - pa)" for i
    using y(3) [of i] that low [of i] z(2) b(2) by (auto simp: part_inv_def)
  moreover have "cmp (ws ! i) ?v = 0 \<or> ws ! i = ?v" if i: "a + (pb - pa) \<le> i" "i < ?hi - (pd - pc)" for i
  proof (cases "i < pb")
    case True
    then obtain q where "a \<le> q" "q < pa" "ws ! i = zs ! q" using y(4) [of i] i low [of i] by auto
    then show ?thesis using z(2) b(6) by (cases "q = a") (auto simp: part_inv_def)
  next
    case False
    then have "pb \<le> i" "i < pb + (?hi - pd - 1)" using i z(3) b by linarith+
    then obtain q where "Suc pd \<le> q" "q < ?hi" "ws ! i = ys ! q" using w(3) [of i] by blast
    then show ?thesis using z(2) high [of q] b by (auto simp: part_inv_def)
  qed
  moreover have "cmp (ws ! i) ?v > 0" if i: "?hi - (pd - pc) \<le> i" "i < ?hi" for i
  proof -
    have "pb + (?hi - pd - 1) \<le> i" using i z(3) b by linarith
    then obtain q where "pb \<le> q" "q < Suc pd" "ws ! i = ys ! q" using w(4) [of i] i by blast
    then show ?thesis using z(2,3) high [of q] b by (auto simp: part_inv_def)
  qed
  ultimately have "split_at_pivot cmp ?v a ?hi (pb - pa) (pd - pc) ws" unfolding split_at_pivot_def by blast
  moreover have "?v \<in> set xs" using pm assms by (cases "pm = a") simp_all
  moreover have "pb - pa + (pd - pc) < n" using b z(3) by linarith
  ultimately show ?thesis
    using run perm_in_trans [OF s(2) perm_in_trans [OF z(4) p]] by blast
qed

section \<open>The main loop\<close>

text \<open>The stack holds disjoint ranges of the array; a range with \<open>k\<close> ranges below it has at most
  \<open>n / 2 ^ k\<close> elements, since the smaller half always lies on top.\<close>

definition stack_ok :: "nat \<Rightarrow> (nat \<times> nat) list \<Rightarrow> bool" where
  "stack_ok len stack \<longleftrightarrow> (\<forall>(lo, hi) \<in> set stack. lo \<le> hi \<and> hi \<le> len) \<and>
     sorted_wrt (\<lambda>(lo, hi) (lo', hi'). hi \<le> lo' \<or> hi' \<le> lo) stack"

fun stack_depth_ok :: "nat \<Rightarrow> (nat \<times> nat) list \<Rightarrow> bool" where
  "stack_depth_ok n [] = True"
| "stack_depth_ok n ((lo, hi) # rest) = ((hi - lo) * 2 ^ length rest \<le> n \<and> stack_depth_ok n rest)"

definition stack_size :: "(nat \<times> nat) list \<Rightarrow> nat" where
  "stack_size stack = (\<Sum>(lo, hi)\<leftarrow>stack. 2 * (hi - lo) + 1)"

text \<open>Every pair of elements is in order, unless both belong to one range on the stack.\<close>

definition ordered_upto :: "('a \<Rightarrow> 'a \<Rightarrow> int) \<Rightarrow> (nat \<times> nat) list \<Rightarrow> 'a list \<Rightarrow> bool" where
  "ordered_upto cmp stack xs \<longleftrightarrow> (\<forall>i j. i < j \<and> j < length xs \<longrightarrow>
     cmp (xs ! i) (xs ! j) \<le> 0 \<or> (\<exists>(lo, hi) \<in> set stack. lo \<le> i \<and> j < hi))"

lemma ordered_upto_step:
  assumes "ordered_upto cmp ((lo, hi) # rest) xs" and "stack_ok (length xs) ((lo, hi) # rest)" and "perm_in lo hi xs ys"
    and "\<And>i j. lo \<le> i \<Longrightarrow> i < j \<Longrightarrow> j < hi \<Longrightarrow> cmp (ys ! i) (ys ! j) \<le> 0 \<or> (\<exists>(lo, hi) \<in> set new. lo \<le> i \<and> j < hi)"
  shows "ordered_upto cmp (new @ rest) ys"
  unfolding ordered_upto_def
proof (intro allI impI)
  fix i j assume ij: "i < j \<and> j < length ys"
  have len: "length ys = length xs" "lo \<le> hi" "hi \<le> length xs"
    using perm_in_length [OF assms(3)] assms(2) by (simp_all add: stack_ok_def)
  have xs: "cmp (xs ! k) (xs ! m) \<le> 0 \<or> (\<exists>(lo, hi) \<in> set rest. lo \<le> k \<and> m < hi)"
    if "k < m" "m < length xs" "\<not> (lo \<le> k \<and> m < hi)" for k m
    using assms(1) that by (auto simp: ordered_upto_def)
  have apart: "\<not> (l \<le> k \<and> k < h)" if "(l, h) \<in> set rest" "lo \<le> k" "k < hi" for l h k
    using assms(2) that by (auto simp: stack_ok_def)
  consider "lo \<le> i" "j < hi" | "i < lo" "lo \<le> j" "j < hi" | "lo \<le> i" "i < hi" "hi \<le> j"
    | "i < lo \<or> hi \<le> i" "j < lo \<or> hi \<le> j" by linarith
  then show "cmp (ys ! i) (ys ! j) \<le> 0 \<or> (\<exists>(lo, hi) \<in> set (new @ rest). lo \<le> i \<and> j < hi)"
  proof cases
    case 1
    then show ?thesis using assms(4) [of i j] ij by auto
  next
    case 2
    obtain k where k: "lo \<le> k" "k < hi" "ys ! j = xs ! k" by (rule perm_in_from [OF assms(3) 2(2,3) len(3)])
    then have "cmp (xs ! i) (xs ! k) \<le> 0" using xs [of i k] apart [of _ _ k] 2 len by fastforce
    moreover have "ys ! i = xs ! i" using assms(3) 2 ij len by (simp add: perm_in_def)
    ultimately show ?thesis using k by simp
  next
    case 3
    obtain k where k: "lo \<le> k" "k < hi" "ys ! i = xs ! k" by (rule perm_in_from [OF assms(3) 3(1,2) len(3)])
    then have "cmp (xs ! k) (xs ! j) \<le> 0" using xs [of k j] apart [of _ _ k] 3 ij len by fastforce
    moreover have "ys ! j = xs ! j" using assms(3) 3 ij len by (simp add: perm_in_def)
    ultimately show ?thesis using k by simp
  next
    case 4
    then have "ys ! i = xs ! i" "ys ! j = xs ! j" using assms(3) ij len by (auto simp: perm_in_def)
    moreover have "\<not> (lo \<le> i \<and> j < hi)" using 4 ij by auto
    ultimately show ?thesis using xs [of i j] ij len by auto
  qed
qed

text \<open>The pairs of a range that has been split.\<close>

lemma split_at_pivot_ordered:
  assumes "weak_order cmp (set ys)" and "v \<in> set ys" and "split_at_pivot cmp v lo hi l g ys" and "hi \<le> length ys"
    and "lo \<le> i" and "i < j" and "j < hi"
  shows "cmp (ys ! i) (ys ! j) \<le> 0 \<or> j < lo + l \<or> hi - g \<le> i"
proof (rule ccontr)
  assume c: "\<not> ?thesis"
  have self: "cmp v v \<le> 0" using assms(1,2) unfolding weak_order_def by (metis linorder_linear)
  have mem: "ys ! i \<in> set ys" "ys ! j \<in> set ys" using assms(4,6,7) by simp_all
  have "i < hi - g" "lo + l \<le> j" using c by simp_all
  then have "cmp (ys ! i) v \<le> 0"
    using assms(3,5) self unfolding split_at_pivot_def by (metis order.strict_iff_not order_refl linorder_not_le less_imp_le)
  moreover have "cmp (ys ! j) v \<ge> 0 \<or> ys ! j = v"
    using assms(3,7) \<open>lo + l \<le> j\<close> unfolding split_at_pivot_def by (metis less_imp_le linorder_not_le order_refl)
  then have "cmp v (ys ! j) \<le> 0" using weak_orderD(2) [OF assms(1) mem(2) assms(2)] self by auto
  ultimately have "cmp (ys ! i) (ys ! j) \<le> 0" by (rule weak_order_trans [OF assms(1) mem(1) assms(2) mem(2)])
  then show False using c by simp
qed

text \<open>What is pushed for a range that has been split.\<close>

lemma stack_push_ok:
  assumes "stack_ok len ((lo, hi) # rest)" and "l + g < hi - lo" and "7 \<le> hi - lo"
    and "stack_depth_ok n ((lo, hi) # rest)"
  defines "big \<equiv> if g > l then (hi - g, hi) else (lo, lo + l)" and "small \<equiv> if g > l then (lo, lo + l) else (hi - g, hi)"
  shows "stack_ok len (small # big # rest)" and "stack_ok len (big # rest)"
    and "stack_depth_ok n (small # big # rest)" and "stack_depth_ok n (big # rest)"
    and "stack_size (small # big # rest) < stack_size ((lo, hi) # rest)" and "stack_size (big # rest) < stack_size ((lo, hi) # rest)"
proof -
  have b: "lo \<le> lo + l" "lo + l \<le> hi - g" "hi - g \<le> hi" "hi - (hi - g) = g" using assms(2) by auto
  show "stack_ok len (small # big # rest)" "stack_ok len (big # rest)"
    using assms(1) b by (auto simp: stack_ok_def big_def small_def)
  have m: "m * 2 ^ length rest \<le> n" if "m \<le> hi - lo" for m
    by (rule order.trans [OF mult_le_mono1 [OF that]]) (use assms(4) in simp)
  have "l * 2 ^ length rest \<le> n" "g * 2 ^ length rest \<le> n" using m assms(2) by simp_all
  moreover have "min l g * 2 ^ Suc (length rest) \<le> n" using m [of "min l g * 2"] assms(2) by (simp add: min_def mult.assoc)
  ultimately show "stack_depth_ok n (small # big # rest)" "stack_depth_ok n (big # rest)"
    using assms(4) b(4) by (auto simp: big_def small_def min_def split: if_splits)
  show "stack_size (small # big # rest) < stack_size ((lo, hi) # rest)" "stack_size (big # rest) < stack_size ((lo, hi) # rest)"
    using assms(2) b by (auto simp: stack_size_def big_def small_def)
qed

lemma stack_room:
  assumes "stack_depth_ok n ((lo, hi) # rest)" and "7 \<le> hi - lo" and "n < 2 ^ 64"
  shows "2 * length rest + 4 < CQ_STACKSIZ"
proof (rule ccontr)
  assume "\<not> ?thesis"
  then have "(62 :: nat) \<le> length rest" by (simp add: CQ_STACKSIZ_def)
  then have "(2 :: nat) ^ 62 \<le> 2 ^ length rest" by (rule power_increasing) simp
  then have "7 * 2 ^ 62 \<le> (hi - lo) * 2 ^ length rest" using assms(2) by (intro mult_le_mono)
  then show False using assms(1,3) by simp
qed

lemma cq_loop_result:
  assumes "stack_ok (length xs) stack" and "stack_depth_ok n stack" and "n < 2 ^ 64"
  shows "\<exists>ys. cq_loop cmp stack xs = Some ys \<and> mset ys = mset xs \<and>
    (weak_order cmp (set xs) \<and> ordered_upto cmp stack xs \<longrightarrow> ordered_upto cmp [] ys)"
  using assms(1,2)
proof (induction "stack_size stack" arbitrary: stack xs rule: less_induct)
  case less
  show ?case
  proof (cases stack)
    case Nil
    then show ?thesis by (subst cq_loop.simps) simp
  next
    case (Cons r rest)
    then obtain lo hi where st: "stack = (lo, hi) # rest" by (cases r) simp
    have b: "lo \<le> hi" "hi \<le> length xs" using less.prems(1) st by (simp_all add: stack_ok_def)
    show ?thesis
    proof (cases "hi - lo < 7")
      case True
      obtain ys where ys: "cq_insertion cmp lo (lo + 1) hi xs = Some ys" "perm_in lo hi xs ys"
        "weak_order cmp (set xs) \<and> ordered_in cmp lo (lo + 1) xs \<longrightarrow> ordered_in cmp lo hi ys"
        using cq_insertion_result [of lo "lo + 1" hi xs cmp] b by auto
      have "stack_ok (length ys) rest" "stack_depth_ok n rest" "stack_size rest < stack_size stack"
        using less.prems st perm_in_length [OF ys(2)] by (auto simp: stack_ok_def stack_size_def)
      then obtain zs where zs: "cq_loop cmp rest ys = Some zs" "mset zs = mset ys"
        "weak_order cmp (set ys) \<and> ordered_upto cmp rest ys \<longrightarrow> ordered_upto cmp [] zs"
        using less.hyps by blast
      have "ordered_upto cmp rest ys" if "weak_order cmp (set xs)" "ordered_upto cmp stack xs"
        using ordered_upto_step [OF that(2) [unfolded st] less.prems(1) [unfolded st] ys(2), of "[]"] ys(3) that(1)
        by (auto simp: ordered_in_def)
      moreover have "cq_loop cmp stack xs = Some zs"
        using True ys(1) zs(1) b by (subst cq_loop.simps) (simp add: st Let_def)
      ultimately show ?thesis using zs(2,3) ys(2) perm_in_set [OF ys(2)] by (auto simp: perm_in_def)
    next
      case False
      let ?n = "hi - lo"
      obtain v l g ys where s: "cq_split cmp lo ?n xs = Some (l, g, ys)" "l + g < ?n" "perm_in lo (lo + ?n) xs ys"
        "v \<in> set xs" "split_at_pivot cmp v lo (lo + ?n) l g ys"
        using cq_split_result [of ?n lo xs cmp] False b by auto
      have hi: "lo + ?n = hi" using b by simp
      define big where "big = (if g > l then (hi - g, hi) else (lo, lo + l))"
      define small where "small = (if g > l then (lo, lo + l) else (hi - g, hi))"
      define new where "new = (if l = 0 \<and> g = 0 then [] else if fst small \<noteq> snd small then [small, big] else [big])"
      have p: "perm_in lo hi xs ys" "length ys = length xs" "set ys = set xs"
        using s(3) perm_in_length [OF s(3)] perm_in_set [OF s(3)] hi by simp_all
      have ok: "7 \<le> ?n" using False by simp
      note push = stack_push_ok [OF less.prems(1) [unfolded st] s(2) ok less.prems(2) [unfolded st],
          folded big_def small_def]
      have nok: "stack_ok (length ys) (new @ rest)" "stack_depth_ok n (new @ rest)" "stack_size (new @ rest) < stack_size stack"
        using push less.prems st p(2) by (auto simp: new_def stack_ok_def stack_size_def)
      then obtain zs where zs: "cq_loop cmp (new @ rest) ys = Some zs" "mset zs = mset ys"
        "weak_order cmp (set ys) \<and> ordered_upto cmp (new @ rest) ys \<longrightarrow> ordered_upto cmp [] zs"
        using less.hyps by blast
      have cover: "\<exists>(a, b) \<in> set new. a \<le> i \<and> j < b"
        if "lo \<le> i" "i < j" "j < hi" "j < lo + l \<or> hi - g \<le> i" for i j
        using that s(2) by (auto simp: new_def big_def small_def)
      have "ordered_upto cmp (new @ rest) ys" if w: "weak_order cmp (set xs)" and o: "ordered_upto cmp stack xs"
      proof (rule ordered_upto_step [OF o [unfolded st] less.prems(1) [unfolded st] p(1)])
        fix i j assume ij: "lo \<le> i" "i < j" "j < hi"
        show "cmp (ys ! i) (ys ! j) \<le> 0 \<or> (\<exists>(a, b) \<in> set new. a \<le> i \<and> j < b)"
          using split_at_pivot_ordered [of cmp ys v lo hi l g i j] w s(4,5) p b(2) hi ij cover by auto
      qed
      moreover have "cq_loop cmp stack xs = cq_loop cmp (new @ rest) ys"
        using False s(1) stack_room [OF less.prems(2) [unfolded st] ok assms(3)]
        by (subst cq_loop.simps) (simp add: st Let_def new_def big_def small_def)
      ultimately show ?thesis using zs p by (auto simp: perm_in_def)
    qed
  qed
qed

section \<open>Theorems\<close>

text \<open>A sorting routine, for its clients.\<close>

locale sorter =
  fixes sort_with :: "('a \<Rightarrow> 'a \<Rightarrow> int) \<Rightarrow> 'a list \<Rightarrow> 'a list option"
  assumes sort_total: "length xs < 2 ^ 64 \<Longrightarrow> sort_with cmp xs \<noteq> None"
    and sort_perm: "length xs < 2 ^ 64 \<Longrightarrow> sort_with cmp xs = Some ys \<Longrightarrow> mset ys = mset xs"
    and sort_sorted: "length xs < 2 ^ 64 \<Longrightarrow> weak_order cmp (set xs) \<Longrightarrow> sort_with cmp xs = Some ys \<Longrightarrow>
      sorted_wrt (\<lambda>x y. cmp x y \<le> 0) ys"
begin

lemma sort_obtains:
  assumes "length xs < 2 ^ 64"
  obtains ys where "sort_with cmp xs = Some ys" and "mset ys = mset xs" and "set ys = set xs" and "length ys = length xs"
proof -
  obtain ys where ys: "sort_with cmp xs = Some ys" using sort_total [OF assms, of cmp] by auto
  have "mset ys = mset xs" by (rule sort_perm [OF assms ys])
  then show ?thesis using that ys by (metis set_mset_mset size_mset)
qed

lemma sort_distinct: "length xs < 2 ^ 64 \<Longrightarrow> sort_with cmp xs = Some ys \<Longrightarrow> distinct ys = distinct xs"
  using sort_perm by (metis mset_eq_imp_distinct_iff)

end

lemma click_qsort_result:
  assumes "length xs < 2 ^ 64"
  shows "\<exists>ys. click_qsort cmp xs = Some ys \<and> mset ys = mset xs \<and>
    (weak_order cmp (set xs) \<longrightarrow> sorted_wrt (\<lambda>x y. cmp x y \<le> 0) ys)"
proof -
  have "stack_ok (length xs) [(0, length xs)]" "stack_depth_ok (length xs) [(0, length xs)]"
    by (simp_all add: stack_ok_def)
  from cq_loop_result [OF this assms, of cmp] obtain ys
    where ys: "cq_loop cmp [(0, length xs)] xs = Some ys" "mset ys = mset xs"
      "weak_order cmp (set xs) \<and> ordered_upto cmp [(0, length xs)] xs \<longrightarrow> ordered_upto cmp [] ys" by blast
  moreover have "ordered_upto cmp [(0, length xs)] xs" by (auto simp: ordered_upto_def)
  moreover have "ordered_upto cmp [] ys \<Longrightarrow> sorted_wrt (\<lambda>x y. cmp x y \<le> 0) ys"
    by (simp add: ordered_upto_def sorted_wrt_iff_nth_less)
  ultimately show ?thesis by (auto simp: click_qsort_def)
qed

text \<open>A short array whose neighbours are in order is left as it is, whatever the other comparisons would say.\<close>

lemma cq_insertion_same:
  assumes "\<And>i. a \<le> i \<Longrightarrow> Suc i < stop \<Longrightarrow> cmp (xs ! i) (xs ! Suc i) \<le> 0" and "a < pi" and "stop \<le> length xs"
  shows "cq_insertion cmp a pi stop xs = Some xs"
  using assms(2)
proof (induction "stop - pi" arbitrary: pi)
  case 0
  then show ?case by (subst cq_insertion.simps) simp
next
  case (Suc k)
  have b: "a \<le> pi - 1" "pi < stop" "pi < length xs" "pi - 1 < length xs" using Suc.prems Suc.hyps(2) assms(3) by linarith+
  then have "\<not> cmp (xs ! (pi - 1)) (xs ! pi) > 0" using assms(1) [of "pi - 1"] Suc.prems by simp
  then have "cq_sink cmp a pi xs = Some xs" using b by (subst cq_sink.simps) (simp add: cq_at_def)
  then show ?case using Suc by (subst cq_insertion.simps) simp
qed

lemma click_qsort_same:
  assumes "length xs < 7" and "\<And>i. Suc i < length xs \<Longrightarrow> cmp (xs ! i) (xs ! Suc i) \<le> 0"
  shows "click_qsort cmp xs = Some xs"
  using assms cq_insertion_same [of 0 "length xs" cmp xs 1]
  by (simp add: click_qsort_def cq_loop.simps)

interpretation cqsort: sorter click_qsort
proof
  fix xs :: "'a list" and cmp ys
  assume xs: "length xs < 2 ^ 64"
  show "click_qsort cmp xs \<noteq> None" using click_qsort_result [OF xs, of cmp] by auto
  show "mset ys = mset xs" if "click_qsort cmp xs = Some ys" using click_qsort_result [OF xs, of cmp] that by auto
  show "sorted_wrt (\<lambda>x y. cmp x y \<le> 0) ys" if "weak_order cmp (set xs)" "click_qsort cmp xs = Some ys"
    using click_qsort_result [OF xs, of cmp] that by auto
qed

text \<open>C26: \<^verbatim>\<open>click_qsort\<close> with any comparison function, even one that is no order, returns after finitely many steps: it
  never reads or writes outside the array, its stack of 130 words is always large enough, and the array then holds
  the same elements.\<close>

theorem click_qsort_terminates:
  assumes "length xs < 2 ^ 64"
  shows "\<exists>ys. click_qsort cmp xs = Some ys \<and> mset ys = mset xs"
  using click_qsort_result [OF assms, of cmp] by blast

text \<open>C27: With a comparison function that is a linear preorder on the elements, the result is sorted.\<close>

theorem click_qsort_sorts:
  assumes "length xs < 2 ^ 64" and "weak_order cmp (set xs)"
  shows "\<exists>ys. click_qsort cmp xs = Some ys \<and> mset ys = mset xs \<and> sorted_wrt (\<lambda>x y. cmp x y \<le> 0) ys"
  using click_qsort_result [OF assms(1), of cmp] assms(2) by blast

theorem click_qsort_terminates_witness:
  "\<exists>ys. click_qsort (\<lambda>x y. 1) [3, 1, 2 :: nat] = Some ys \<and> mset ys = {#1, 2, 3#}"
  using click_qsort_terminates [of "[3, 1, 2 :: nat]" "\<lambda>x y. 1"] by (simp add: add_mset_commute)

theorem click_qsort_sorts_witness:
  "\<exists>ys. click_qsort (-) [3, 1, 2 :: int] = Some ys \<and> sorted ys"
proof -
  have "weak_order (-) (set [3, 1, 2 :: int])" by (auto simp: weak_order_def)
  then show ?thesis using click_qsort_sorts [of "[3, 1, 2 :: int]" "(-)"] by auto
qed

end
