(* ===== verification/Click_ARPResponder.thy ===== *)
theory Click_ARPResponder
  imports Click_ARPQuerier Click_Qsort
begin

unbundle bit_operations_syntax

text \<open>
  \<^verbatim>\<open>ARPResponder\<close> (\<^verbatim>\<open>elements/ethernet/arpresponder.cc\<close>) answers ARP requests for the addresses it is configured
  with, and the exchange between a querier and a responder.

  A word of the configuration is given by what the two argument parsers make of it: an address with its mask, an
  Ethernet address, both or neither. The device and VLAN annotations of replies are not modelled.
\<close>

section \<open>The program\<close>

record arp_entry =
  ent_dst :: ipaddr
  ent_mask :: ipaddr
  ent_ena :: etheraddr

type_synonym arp_word = "(ipaddr \<times> ipaddr) option \<times> etheraddr option"

text \<open>The first loop of \<^verbatim>\<open>add\<close> over the words, with the Ethernet address found so far; \<open>None\<close> is an error.\<close>

fun ar_words :: "arp_word list \<Rightarrow> arp_entry list \<Rightarrow> etheraddr option \<Rightarrow> (arp_entry list \<times> etheraddr option) option" where
  "ar_words [] v ena = Some (v, ena)"
| "ar_words ((Some (addr, m), _) # ws) v ena =
     ar_words ws (v @ [\<lparr> ent_dst = addr AND m, ent_mask = m, ent_ena = zeros 6 \<rparr>]) ena"
| "ar_words ((None, Some e) # ws) v ena = (if ena \<noteq> None then None else ar_words ws v (Some e))"
| "ar_words ((None, None) # ws) v ena = None"

definition ar_add :: "arp_entry list \<Rightarrow> arp_word list \<Rightarrow> int \<times> arp_entry list" where
  "ar_add v ws =
     (case ar_words ws v None of
        None \<Rightarrow> (- 22, v)
      | Some (v', ena) \<Rightarrow>
          let ena = (case ena of Some e \<Rightarrow> Some e
                     | None \<Rightarrow> (case filter (\<lambda>w. snd w \<noteq> None) ws of [] \<Rightarrow> None | w # _ \<Rightarrow> snd w))
          in if length v' = length v then (- 22, v')
             else case ena of
               None \<Rightarrow> (- 22, take (length v) v')
             | Some e \<Rightarrow> (0, take (length v) v' @ map (\<lambda>x. x\<lparr> ent_ena := e \<rparr>) (drop (length v) v')))"

definition entry_compare :: "arp_entry list \<Rightarrow> nat \<Rightarrow> nat \<Rightarrow> int" where
  "entry_compare entries a b =
     (let ea = entries ! a; eb = entries ! b
      in if ent_dst ea = ent_dst eb \<and> ent_mask ea = ent_mask eb then int b - int a
         else if ent_dst ea AND ent_mask eb = ent_dst eb then - 1
         else if ent_dst eb AND ent_mask ea = ent_dst ea then 1
         else int a - int b)"

fun ar_unique :: "arp_entry list \<Rightarrow> arp_entry list \<Rightarrow> arp_entry list" where
  "ar_unique nv [] = nv"
| "ar_unique nv (e # es) =
     (if nv = [] \<or> ent_dst (last nv) \<noteq> ent_dst e \<or> ent_mask (last nv) \<noteq> ent_mask e
      then ar_unique (nv @ [e]) es else ar_unique nv es)"

definition ar_normalize :: "arp_entry list \<Rightarrow> arp_entry list option" where
  "ar_normalize v =
     do {
       permute \<leftarrow> click_qsort (entry_compare v) [0..<length v];
       Some (ar_unique [] (map (\<lambda>i. v ! i) permute))
     }"

text \<open>\<^verbatim>\<open>configure\<close>: the arguments are added one by one, and an error in one of them fails it.\<close>

fun ar_add_all :: "arp_word list list \<Rightarrow> arp_entry list \<Rightarrow> nat \<Rightarrow> arp_entry list \<times> nat" where
  "ar_add_all [] v errors = (v, errors)"
| "ar_add_all (ws # conf) v errors =
     (case ar_add v ws of (r, v) \<Rightarrow> ar_add_all conf v (if r < 0 then errors + 1 else errors))"

definition arpresponder_configure :: "arp_word list list \<Rightarrow> arp_entry list \<Rightarrow> (int \<times> arp_entry list) option" where
  "arpresponder_configure conf old =
     (case ar_add_all conf [] 0 of
        (v, errors) \<Rightarrow> if errors = 0 then map_option (\<lambda>v. (0, v)) (ar_normalize v) else Some (- 1, old))"

definition ar_lookup :: "arp_entry list \<Rightarrow> ipaddr \<Rightarrow> etheraddr option" where
  "ar_lookup v addr = map_option ent_ena (find (\<lambda>e. addr AND ent_mask e = ent_dst e) v)"

definition ar_make_response ::
  "env \<Rightarrow> etheraddr \<Rightarrow> ipaddr \<Rightarrow> etheraddr \<Rightarrow> ipaddr \<Rightarrow> packet option option" where
  "ar_make_response e target_eth target_ip src_eth src_ip =
     (case pkt_make e default_headroom None (sizeof_click_ether + sizeof_click_ether_arp) 0 of
        None \<Rightarrow> Some None
      | Some q \<Rightarrow>
          do {
            q \<leftarrow> set_ether_header (int (headroom q)) q;
            Some (Some (q\<lparr> pdata := arp_frame target_eth src_eth ARPOP_REPLY src_eth src_ip target_eth target_ip \<rparr>))
          })"

text \<open>\<^verbatim>\<open>simple_action\<close>: the reply leaves on output 0; the packet itself leaves on output 1, if there is one.\<close>

definition ar_simple_action :: "env \<Rightarrow> nat \<Rightarrow> arp_entry list \<Rightarrow> packet \<Rightarrow> emission list option" where
  "ar_simple_action e nout v p =
     (let eh = get_ether (pdata p); ea = get_ether_arp (pdata p);
          pass = (if nout > 1 then [(1, p)] else [])
      in if plen p \<ge> sizeof_click_ether + sizeof_click_ether_arp \<and> ether_type eh = htons ETHERTYPE_ARP
            \<and> ar_hrd ea = htons ARPHRD_ETHER \<and> ar_pro ea = htons ETHERTYPE_IP \<and> ar_op ea = htons ARPOP_REQUEST
         then case ar_lookup v (arp_tpa ea) of
                None \<Rightarrow> Some pass
              | Some ena \<Rightarrow>
                  do {
                    q \<leftarrow> ar_make_response e (arp_sha ea) (arp_spa ea) ena (arp_tpa ea);
                    Some (case q of None \<Rightarrow> pass | Some q \<Rightarrow> [(0, q)])
                  }
         else Some pass)"

text \<open>The write handlers.\<close>

definition ar_add_handler :: "arp_word list \<Rightarrow> arp_entry list \<Rightarrow> (int \<times> arp_entry list) option" where
  "ar_add_handler ws v =
     (case ar_add v ws of
        (r, v') \<Rightarrow> if r \<ge> 0 then map_option (\<lambda>v'. (0, v')) (ar_normalize v') else Some (- 1, v))"

fun ar_erase :: "ipaddr \<Rightarrow> ipaddr \<Rightarrow> arp_entry list \<Rightarrow> arp_entry list option" where
  "ar_erase addr m [] = None"
| "ar_erase addr m (e # es) =
     (if ent_dst e = addr \<and> ent_mask e = m then Some es else map_option ((#) e) (ar_erase addr m es))"

definition ar_remove_handler :: "(ipaddr \<times> ipaddr) option \<Rightarrow> arp_entry list \<Rightarrow> int \<times> arp_entry list" where
  "ar_remove_handler arg v =
     (case arg of
        None \<Rightarrow> (- 22, v)
      | Some (addr, m) \<Rightarrow> (case ar_erase (addr AND m) m v of None \<Rightarrow> (- 22, v) | Some v' \<Rightarrow> (0, v')))"

section \<open>The table\<close>

abbreviation ent_key :: "arp_entry \<Rightarrow> ipaddr \<times> ipaddr" where
  "ent_key e \<equiv> (ent_dst e, ent_mask e)"

abbreviation ent_matches :: "ipaddr \<Rightarrow> arp_entry \<Rightarrow> bool" where
  "ent_matches addr e \<equiv> addr AND ent_mask e = ent_dst e"

lemma ar_unique_result: "set (ar_unique nv es) \<subseteq> set nv \<union> set es \<and> ent_key ` set (ar_unique nv es) = ent_key ` (set nv \<union> set es)"
proof (induction nv es rule: ar_unique.induct)
  case (2 nv e es)
  show ?case
  proof (cases "nv = [] \<or> ent_dst (last nv) \<noteq> ent_dst e \<or> ent_mask (last nv) \<noteq> ent_mask e")
    case True
    then show ?thesis using 2 by auto
  next
    case False
    then have "ent_key e \<in> ent_key ` set nv" using imageI [OF last_in_set, of nv ent_key] by simp
    then show ?thesis using 2 False by auto
  qed
qed simp

lemma find_append: "find P (xs @ ys) = (case find P xs of None \<Rightarrow> find P ys | Some x \<Rightarrow> Some x)"
  by (induction xs) simp_all

text \<open>Merging does not change which entry is the first to contain an address.\<close>

lemma find_ar_unique:
  "find (ent_matches addr) (ar_unique nv es) = find (ent_matches addr) (nv @ es)"
proof (induction nv es rule: ar_unique.induct)
  case (2 nv e es)
  show ?case
  proof (cases "nv = [] \<or> ent_dst (last nv) \<noteq> ent_dst e \<or> ent_mask (last nv) \<noteq> ent_mask e")
    case True
    then show ?thesis using 2 by simp
  next
    case False
    have "\<not> ent_matches addr (last nv)" if "find (ent_matches addr) nv = None"
      using that False last_in_set [of nv] unfolding find_None_iff by blast
    then have "\<not> ent_matches addr e" if "find (ent_matches addr) nv = None"
      using that False by simp
    then show ?thesis using 2(2) False by (cases "find (ent_matches addr) nv") (simp_all add: find_append)
  qed
qed simp

text \<open>Whatever the order is, sorting loses no prefix, and every answer is a configured one.\<close>

lemma ar_normalize_result:
  assumes "length v < 2 ^ 64"
  shows "\<exists>nv ns. ar_normalize v = Some nv \<and> set nv \<subseteq> set v \<and> ent_key ` set nv = ent_key ` set v \<and>
    set ns = {..<length v} \<and> (\<forall>addr. ar_lookup nv addr = ar_lookup (map (\<lambda>i. v ! i) ns) addr) \<and>
    (weak_order (entry_compare v) {..<length v} \<longrightarrow> sorted_wrt (\<lambda>i j. entry_compare v i j \<le> 0) ns)"
proof -
  have len: "length [0..<length v] < 2 ^ 64" using assms by simp
  then obtain ns where q: "click_qsort (entry_compare v) [0..<length v] = Some ns" "set ns = set [0..<length v]"
    using cqsort.sort_obtains [of "[0..<length v]" "entry_compare v"] by metis
  have "sorted_wrt (\<lambda>i j. entry_compare v i j \<le> 0) ns" if "weak_order (entry_compare v) {..<length v}"
    using cqsort.sort_sorted [OF len _ q(1)] that by (simp add: atLeast0LessThan)
  moreover have "set (map (\<lambda>i. v ! i) ns) = set v" using q(2) by (auto simp: in_set_conv_nth)
  ultimately show ?thesis
    using q ar_unique_result [of "[]" "map (\<lambda>i. v ! i) ns"]
    by (intro exI [of _ "ar_unique [] (map (\<lambda>i. v ! i) ns)"] exI [of _ ns])
      (simp add: ar_normalize_def ar_lookup_def find_ar_unique atLeast0LessThan)
qed

text \<open>The first entry of a list that contains an address, by its position in the configuration.\<close>

lemma ar_lookup_first:
  assumes "ar_lookup (map (\<lambda>i. v ! i) ns) addr = Some ena"
  obtains k xs ys where "ns = xs @ k # ys" and "ent_matches addr (v ! k)" and "ent_ena (v ! k) = ena"
    and "\<forall>j\<in>set xs. \<not> ent_matches addr (v ! j)"
  using assms
proof (induction ns arbitrary: thesis)
  case (Cons n ns)
  show ?case
  proof (cases "ent_matches addr (v ! n)")
    case True
    then show ?thesis using Cons.prems(2) by (intro Cons.prems(1) [of "[]" n ns]) (auto simp: ar_lookup_def)
  next
    case False
    then have "ar_lookup (map (\<lambda>i. v ! i) ns) addr = Some ena" using Cons.prems(2) by (simp add: ar_lookup_def)
    then obtain k xs ys where "ns = xs @ k # ys" "ent_matches addr (v ! k)" "ent_ena (v ! k) = ena" "\<forall>j\<in>set xs. \<not> ent_matches addr (v ! j)"
      using Cons.IH by blast
    then show ?thesis using False by (intro Cons.prems(1) [of "n # xs" k ys]) simp_all
  qed
qed (simp add: ar_lookup_def)

text \<open>Of two prefixes that contain the same address, the comparison prefers the longer one, and of two equal ones the later.\<close>

lemma entry_compare_prefers:
  assumes "ent_matches addr (v ! j)" and "ent_matches addr (v ! k)" and "weak_order (entry_compare v) {..<length v}"
    and "j < length v" and "k < length v" and "entry_compare v k j \<le> 0"
    and "\<exists>n\<le>32. ent_mask (v ! j) = prefix_mask n" and "\<exists>n\<le>32. ent_mask (v ! k) = prefix_mask n"
  shows "mask_as_specific (ent_mask (v ! k)) (ent_mask (v ! j))" and "ent_key (v ! j) = ent_key (v ! k) \<Longrightarrow> j \<le> k"
proof -
  show "j \<le> k" if "ent_key (v ! j) = ent_key (v ! k)"
    using assms(6) that by (simp add: entry_compare_def)
  show "mask_as_specific (ent_mask (v ! k)) (ent_mask (v ! j))"
  proof (rule ccontr)
    assume less: "\<not> mask_as_specific (ent_mask (v ! k)) (ent_mask (v ! j))"
    then have spec: "mask_as_specific (ent_mask (v ! j)) (ent_mask (v ! k))"
      using assms(7,8) by (auto simp: mask_as_specific_iff)
    have "ent_dst (v ! j) AND ent_mask (v ! k) = addr AND (ent_mask (v ! j) AND ent_mask (v ! k))"
      unfolding assms(1) [symmetric] by (rule and.assoc)
    then have "ent_dst (v ! j) AND ent_mask (v ! k) = ent_dst (v ! k)"
      using spec assms(2) by (simp add: mask_as_specific_def)
    moreover have "ent_mask (v ! j) \<noteq> ent_mask (v ! k)" using less by auto
    ultimately have "entry_compare v j k = - 1" by (simp add: entry_compare_def Let_def)
    moreover have "entry_compare v k j \<le> 0 \<longleftrightarrow> entry_compare v j k \<ge> 0"
      using assms(3-5) unfolding weak_order_def by blast
    ultimately show False using assms(6) by linarith
  qed
qed

lemma ar_lookup_cases:
  "case ar_lookup v addr of None \<Rightarrow> \<forall>e\<in>set v. \<not> ent_matches addr e
     | Some ena \<Rightarrow> \<exists>e\<in>set v. ent_matches addr e \<and> ent_ena e = ena"
proof (cases "find (ent_matches addr) v")
  case None
  then show ?thesis by (simp add: ar_lookup_def) (simp add: find_None_iff)
next
  case (Some e)
  then have "e \<in> set v" "ent_matches addr e" by (auto simp: find_Some_iff)
  then show ?thesis using Some by (auto simp: ar_lookup_def)
qed

lemma ar_make_response_result:
  assumes "alloc_ok e"
  shows "\<exists>q. ar_make_response e te ti se si = Some (Some q) \<and> pdata q = arp_frame te se ARPOP_REPLY se si te ti"
proof -
  obtain r where r: "pkt_make e default_headroom None 42 0 = Some r" "headroom r = default_headroom" "plen r = 42"
    using pkt_make_Some [OF assms] by metis
  then obtain r' where r': "set_ether_header (int (headroom r)) r = Some r'"
    by (simp add: set_ether_header_def set_mac_header_def pbuffer_def)
  then show ?thesis using r by (simp add: ar_make_response_def)
qed

definition is_request :: "bytes \<Rightarrow> bool" where
  "is_request d \<longleftrightarrow> length d \<ge> 42 \<and> ether_type (get_ether d) = htons ETHERTYPE_ARP \<and> ar_hrd (get_ether_arp d) = htons ARPHRD_ETHER
     \<and> ar_pro (get_ether_arp d) = htons ETHERTYPE_IP \<and> ar_op (get_ether_arp d) = htons ARPOP_REQUEST"

lemma ar_simple_action_result:
  assumes "alloc_ok e"
  shows "\<exists>out. ar_simple_action e nout v p = Some out \<and>
    (case (if is_request (pdata p) then ar_lookup v (arp_tpa (get_ether_arp (pdata p))) else None) of
       None \<Rightarrow> out = (if nout > 1 then [(1, p)] else [])
     | Some ena \<Rightarrow> \<exists>q. out = [(0, q)] \<and>
         pdata q = arp_frame (arp_sha (get_ether_arp (pdata p))) ena ARPOP_REPLY ena (arp_tpa (get_ether_arp (pdata p)))
           (arp_sha (get_ether_arp (pdata p))) (arp_spa (get_ether_arp (pdata p))))"
proof (cases "is_request (pdata p)")
  case True
  show ?thesis
  proof (cases "ar_lookup v (arp_tpa (get_ether_arp (pdata p)))")
    case (Some ena)
    then show ?thesis
      using True ar_make_response_result [OF assms, of "arp_sha (get_ether_arp (pdata p))" "arp_spa (get_ether_arp (pdata p))" ena
          "arp_tpa (get_ether_arp (pdata p))"]
      by (auto simp: ar_simple_action_def is_request_def Let_def)
  qed (use True in \<open>auto simp: ar_simple_action_def is_request_def Let_def\<close>)
next
  case False
  then show ?thesis by (auto simp: ar_simple_action_def is_request_def Let_def)
qed

section \<open>A query and its reply\<close>

lemma query_is_request:
  assumes "length (aq_my_en s) = 6" and "length dhost = 6"
  shows "is_request (query_for s dhost ip)" and "arp_tpa (get_ether_arp (query_for s dhost ip)) = ip"
    and "arp_sha (get_ether_arp (query_for s dhost ip)) = aq_my_en s"
    and "arp_spa (get_ether_arp (query_for s dhost ip)) = aq_my_ip s"
  using assms by (simp_all add: query_for_def is_request_def arp_frame_fields)

lemma reply_is_reply:
  assumes "length te = 6" and "length se = 6" and "\<not> ether_is_group se"
  shows "is_reply (arp_frame te se ARPOP_REPLY se si te ti)" and "length (arp_frame te se ARPOP_REPLY se si te ti) = 42"
    and "arp_spa (get_ether_arp (arp_frame te se ARPOP_REPLY se si te ti)) = si"
    and "arp_sha (get_ether_arp (arp_frame te se ARPOP_REPLY se si te ti)) = se"
  using assms by (simp_all add: is_reply_def arp_frame_fields)

text \<open>Limits on the table that keep its counters from wrapping around.\<close>

definition arp_bounded :: "arptable \<Rightarrow> bool" where
  "arp_bounded t \<longleftrightarrow> at_entry_capacity t \<noteq> 0 \<and> unat (at_entry_capacity t) < 2 ^ 32 - 1 \<and>
     at_packet_capacity t \<noteq> 0 \<and> unat (at_packet_capacity t) < 2 ^ 32 - 1"

lemma arp_bounded_room: "arp_bounded t \<Longrightarrow> same_config t t' \<Longrightarrow> arp_caps t' \<Longrightarrow> arp_room t'"
  by (auto simp: arp_bounded_def same_config_def arp_caps_def arp_room_def word_le_nat_alt)

section \<open>Theorems\<close>

text \<open>C36: The table of \<^verbatim>\<open>ARPResponder\<close> after sorting and merging: it always comes about (the sort ends, although the
  comparison of entries need not be an order), has exactly the configured prefixes, and finds an address exactly when one of
  them contains it. Where the comparison is an order of the configured entries and the masks are prefix masks, the answer is the
  one of the longest prefix that contains the address, and of the entry configured last when the prefix was configured
  several times; in general it is the answer of some entry that contains the address.\<close>

theorem ar_normalize_lookup:
  assumes "length v < 2 ^ 64"
  shows "\<exists>nv. ar_normalize v = Some nv \<and> set nv \<subseteq> set v \<and>
    (\<lambda>e. (ent_dst e, ent_mask e)) ` set nv = (\<lambda>e. (ent_dst e, ent_mask e)) ` set v \<and>
    (case ar_lookup nv addr of
       None \<Rightarrow> \<forall>e\<in>set v. addr AND ent_mask e \<noteq> ent_dst e
     | Some ena \<Rightarrow> \<exists>k<length v. addr AND ent_mask (v ! k) = ent_dst (v ! k) \<and> ent_ena (v ! k) = ena \<and>
         (weak_order (entry_compare v) {..<length v} \<and> (\<forall>e\<in>set v. \<exists>n\<le>32. ent_mask e = prefix_mask n) \<longrightarrow>
          (\<forall>j<length v. addr AND ent_mask (v ! j) = ent_dst (v ! j) \<longrightarrow>
            mask_as_specific (ent_mask (v ! k)) (ent_mask (v ! j)) \<and>
            ((ent_dst (v ! j), ent_mask (v ! j)) = (ent_dst (v ! k), ent_mask (v ! k)) \<longrightarrow> j \<le> k))))"
proof -
  obtain nv ns where nv: "ar_normalize v = Some nv" "set nv \<subseteq> set v" "ent_key ` set nv = ent_key ` set v"
    and ns: "set ns = {..<length v}" "ar_lookup nv addr = ar_lookup (map (\<lambda>i. v ! i) ns) addr"
      "weak_order (entry_compare v) {..<length v} \<Longrightarrow> sorted_wrt (\<lambda>i j. entry_compare v i j \<le> 0) ns"
    using ar_normalize_result [OF assms] by blast
  show ?thesis
  proof (cases "ar_lookup nv addr")
    case None
    then have "\<forall>e\<in>set v. \<not> ent_matches addr e"
      using ns(1,2) ar_lookup_cases [of "map (\<lambda>i. v ! i) ns" addr] by (auto simp: in_set_conv_nth)
    then show ?thesis using nv None by simp
  next
    case (Some ena)
    then obtain k xs ys where k: "ns = xs @ k # ys" "ent_matches addr (v ! k)" "ent_ena (v ! k) = ena"
      "\<forall>j\<in>set xs. \<not> ent_matches addr (v ! j)"
      using ns(2) ar_lookup_first by metis
    have kv: "k < length v" using k(1) ns(1) by auto
    have "mask_as_specific (ent_mask (v ! k)) (ent_mask (v ! j)) \<and> (ent_key (v ! j) = ent_key (v ! k) \<longrightarrow> j \<le> k)"
      if w: "weak_order (entry_compare v) {..<length v}" and m: "\<forall>e\<in>set v. \<exists>n\<le>32. ent_mask e = prefix_mask n"
        and j: "j < length v" "ent_matches addr (v ! j)" for j
    proof -
      have "j \<in> set (k # ys)" using j k(1,4) ns(1) by auto
      then have "entry_compare v k j \<le> 0" using ns(3) [OF w] k(1) by (auto simp: sorted_wrt_append entry_compare_def)
      then show ?thesis using entry_compare_prefers [OF j(2) k(2) w j(1) kv] m j(1) kv by simp
    qed
    then show ?thesis using nv Some k(2,3) kv by (intro exI [of _ nv] conjI) (simp_all, blast)
  qed
qed

text \<open>\<^verbatim>\<open>simple_action\<close>: an ARP request for an address in the table is answered on output 0 with the reply that
  names this address and its Ethernet address and goes back to the sender; everything else leaves unchanged on
  output 1, if it is connected.\<close>

theorem ar_simple_action_spec:
  assumes "alloc_ok e"
  shows "\<exists>out. ar_simple_action e nout v p = Some out \<and>
    (case (if is_request (pdata p) then ar_lookup v (arp_tpa (get_ether_arp (pdata p))) else None) of
       None \<Rightarrow> out = (if nout > 1 then [(1, p)] else [])
     | Some ena \<Rightarrow> \<exists>q. out = [(0, q)] \<and>
         pdata q = arp_frame (arp_sha (get_ether_arp (pdata p))) ena ARPOP_REPLY ena (arp_tpa (get_ether_arp (pdata p)))
           (arp_sha (get_ether_arp (pdata p))) (arp_spa (get_ether_arp (pdata p))))"
  by (rule ar_simple_action_result [OF assms])

text \<open>C3: The whole exchange: a packet for an address that the querier has not heard of makes it send a query; the responder
  that has the address answers it; and the answer, whenever it arrives, releases the packet in a frame to the responder's
  Ethernet address, with its data unchanged.\<close>

theorem arp_exchange:
  assumes "aq_inv s t" and "aq_times s t" and "arp_bounded t" and "aq_my_ip s \<noteq> 0" and "at_get t (dst_ip_anno p) = None"
    and "next_hop now s t (dst_ip_anno p) = None" and "dst_ip_anno p \<noteq> 0" and "at_entry_packet_capacity t = 0"
    and "ar_lookup v (dst_ip_anno p) = Some ena" and "length ena = 6" and "\<not> ether_is_group ena"
    and "alloc_ok e1" and "alloc_ok e2" and "alloc_ok e3"
  shows "\<exists>st1 query reply st2 f.
    aq_push e1 now nout 0 p (s, t) = Some (st1, [(nout - 1, query)]) \<and>
    ar_simple_action e2 nout' v query = Some [(0, reply)] \<and>
    aq_push e3 later nout 1 reply st1 = Some (st2, [(0, f)]) \<and>
    pdata f = ip_frame ena (aq_my_en s) (pdata p)"
proof -
  let ?ip = "dst_ip_anno p"
  have en: "length (aq_my_en s) = 6" "arp_caps t" using assms(1) by (simp_all add: aq_inv_def)
  have room: "arp_room t" by (rule arp_bounded_room [OF assms(3) _ en(2)]) simp
  obtain s1 t1 out where h: "aq_handle_ip e1 now nout p False (s, t) = Some ((s1, t1), out)" "aq_inv s1 t1" "same_config t t1"
    "same_querier s s1" "aq_times s t \<longrightarrow> aq_times s1 t1" "ip_outcome now nout p s t s1 t1 out"
    using aq_handle_ip_result [OF assms(1) room assms(12), of now nout p] by blast
  have k: "\<not> known_in now t ?ip" "poll_due now t ?ip" "queued t ?ip = []"
    using assms(5) by (simp_all add: known_in_def poll_due_def queued_def)
  obtain q query where q: "framed (pdata p) q" "queued t1 ?ip = [q]" "out = [(nout - 1, query)]"
    "pdata query = query_for s ether_broadcast ?ip"
    using h(6) k assms(4,6-8) by (auto simp: ip_outcome_def append_outcome_def)
  have r: "is_request (pdata query)" "arp_tpa (get_ether_arp (pdata query)) = ?ip" "arp_sha (get_ether_arp (pdata query)) = aq_my_en s"
    using query_is_request [OF en(1), of ether_broadcast ?ip] q(4) by simp_all
  obtain reply where a: "ar_simple_action e2 nout' v query = Some [(0, reply)]"
    "pdata reply = arp_frame (aq_my_en s) ena ARPOP_REPLY ena ?ip (aq_my_en s) (arp_spa (get_ether_arp (pdata query)))"
    using ar_simple_action_result [OF assms(13), of nout' v query] r assms(9) by auto
  note re = reply_is_reply [OF en(1) assms(10,11), of ?ip "arp_spa (get_ether_arp (pdata query))", folded a(2)]
  have room1: "arp_room t1" using arp_bounded_room [OF assms(3) h(3)] h(2) by (simp add: aq_inv_def)
  have t1: "aq_times s1 t1" using h(5) assms(2) by simp
  obtain s2 t2 out2 where b: "aq_handle_response e3 later nout reply (s1, t1) = Some ((s2, t2), out2)" "reply_outcome reply s1 t1 s2 t2 out2"
    using aq_handle_response_result [OF h(2) room1 assms(14) t1, of later nout reply] by blast
  have "out2 = [(0, released ena s1 q)]"
    using b(2) re q(2) h(4) assms(4) by (simp add: reply_outcome_def same_querier_def)
  moreover have "pdata (released ena s1 q) = ip_frame ena (aq_my_en s) (pdata p)"
    using q(1) h(4) by (simp add: released_def framed_def same_querier_def)
  ultimately show ?thesis
    using h(1) q(3) a(1) b(1) by (auto simp: aq_push_def)
qed

text \<open>The comment at the comparison of entries says \<open>keep later match\<close>, but a new entry for a prefix replaces the old one only
  when they end up next to each other. After \<^verbatim>\<open>add\<close> for the first of two unrelated entries the handler reports success,
  and the responder goes on giving the old answer.\<close>

theorem ar_add_ignored:
  assumes "ent_dst a AND ent_mask a = ent_dst a" and "ent_dst a AND ent_mask b \<noteq> ent_dst b" and "ent_dst b AND ent_mask a \<noteq> ent_dst a"
  shows "\<exists>v. ar_add_handler [(Some (ent_dst a, ent_mask a), None), (None, Some ena)] [a, b] = Some (0, v) \<and>
    ar_lookup v (ent_dst a) = Some (ent_ena a)"
proof -
  let ?c = "\<lparr> ent_dst = ent_dst a, ent_mask = ent_mask a, ent_ena = ena \<rparr>"
  let ?v = "[a, b, ?c]"
  have add: "ar_add [a, b] [(Some (ent_dst a, ent_mask a), None), (None, Some ena)] = (0, ?v)"
    using assms(1) by (simp add: ar_add_def)
  have "click_qsort (entry_compare ?v) [0, 1, 2] = Some [0, 1, 2]"
  proof (rule click_qsort_same)
    fix i assume "Suc i < length [0 :: nat, 1, 2]"
    then have "i = 0 \<or> i = 1" by auto
    then show "entry_compare ?v ([0, 1, 2] ! i) ([0, 1, 2] ! Suc i) \<le> 0"
      using assms by (auto simp: entry_compare_def Let_def)
  qed simp
  moreover have "[0..<length ?v] = [0, 1, 2]" by (simp add: upt_rec)
  ultimately have "ar_normalize ?v = Some (ar_unique [] (map (\<lambda>i. ?v ! i) [0, 1, 2]))"
    unfolding ar_normalize_def by (simp only: Option.bind.simps)
  then show ?thesis using add assms by (auto simp: ar_add_handler_def ar_lookup_def)
qed

text \<open>The comparison of entries is not transitive. With 10.0.0.0/8, 192.168.0.0/16 and 10.1.0.0/16 each entry is in order with the
  next, so the sort leaves them as they are, and the prefix of 8 bits answers for an address in the longer one.\<close>

lemma ar_normalize_same:
  assumes "length v < 7" and "\<And>i. Suc i < length v \<Longrightarrow> entry_compare v i (Suc i) \<le> 0"
  shows "ar_normalize v = Some (ar_unique [] v)"
  using assms click_qsort_same [of "[0..<length v]" "entry_compare v"] by (simp add: ar_normalize_def map_nth)

lemma ar_longer_prefix_hidden:
  "\<exists>nv. ar_normalize [\<lparr> ent_dst = 0x0A, ent_mask = 0xFF, ent_ena = [1] \<rparr>, \<lparr> ent_dst = 0xA8C0, ent_mask = 0xFFFF, ent_ena = [2] \<rparr>,
      \<lparr> ent_dst = 0x010A, ent_mask = 0xFFFF, ent_ena = [3] \<rparr>] = Some nv \<and> ar_lookup nv 0x0500010A = Some [1]"
  by (subst ar_normalize_same) (auto simp: less_Suc_eq entry_compare_def ar_lookup_def)

text \<open>A shorter prefix hides a longer one with the same address when it is configured first.\<close>

lemma ar_same_address_hidden:
  "\<exists>nv. ar_normalize [\<lparr> ent_dst = 0x0A, ent_mask = 0xFF, ent_ena = [1] \<rparr>, \<lparr> ent_dst = 0x0A, ent_mask = 0xFFFF, ent_ena = [2] \<rparr>] = Some nv \<and>
     ar_lookup nv 0x0500000A = Some [1]"
  by (subst ar_normalize_same) (auto simp: less_Suc_eq entry_compare_def ar_lookup_def)

section \<open>Witnesses\<close>

text \<open>10.0.0.0/8, twice 10.1.0.0/16 and 192.168.0.0/16: the last entry for 10.1.0.0/16 answers for 10.1.0.5.\<close>

definition nested_entries :: "arp_entry list" where
  "nested_entries =
     [\<lparr> ent_dst = 0x0A, ent_mask = 0xFF, ent_ena = [2, 0, 0, 0, 0, 1] \<rparr>, \<lparr> ent_dst = 0x010A, ent_mask = 0xFFFF, ent_ena = [2, 0, 0, 0, 0, 2] \<rparr>,
      \<lparr> ent_dst = 0x010A, ent_mask = 0xFFFF, ent_ena = [2, 0, 0, 0, 0, 3] \<rparr>, \<lparr> ent_dst = 0xA8C0, ent_mask = 0xFFFF, ent_ena = [2, 0, 0, 0, 0, 4] \<rparr>]"

lemma nested_entries_order: "weak_order (entry_compare nested_entries) {..<length nested_entries}"
proof -
  have "{..<length nested_entries} = set [0, 1, 2, 3]" by (auto simp: nested_entries_def)
  then show ?thesis by (simp add: weak_order_def nested_entries_def entry_compare_def)
qed

lemma nested_entries_masks: "\<forall>e\<in>set nested_entries. \<exists>n\<le>32. ent_mask e = prefix_mask n"
proof -
  have "prefix_mask 8 = 0xFF" "prefix_mask 16 = 0xFFFF"
    by (simp_all add: prefix_mask_def htonl_def htons_def le32_def le16_def hi16_def lo16_def hi8_def lo8_def)
  then have "\<exists>n\<le>32. 0xFF = prefix_mask n" "\<exists>n\<le>32. 0xFFFF = prefix_mask n"
    by (metis numeral_le_iff semiring_norm(68,69,71,72))+
  then show ?thesis by (simp add: nested_entries_def)
qed

theorem ar_normalize_lookup_witness:
  "\<exists>nv. ar_normalize nested_entries = Some nv \<and> ar_lookup nv 0x0500010A = Some [2, 0, 0, 0, 0, 3]"
proof -
  have e: "length nested_entries = 4" "0x0500010A AND ent_mask (nested_entries ! 2) = ent_dst (nested_entries ! 2)"
    "ent_ena (nested_entries ! 2) = [2, 0, 0, 0, 0, 3]"
    by (simp_all add: nested_entries_def)
  have two: "k = 2" if "k < 4" and "mask_as_specific (ent_mask (nested_entries ! k)) (ent_mask (nested_entries ! 2))"
    and "0x0500010A AND ent_mask (nested_entries ! k) = ent_dst (nested_entries ! k)"
    and "ent_key (nested_entries ! 2) = ent_key (nested_entries ! k) \<longrightarrow> 2 \<le> k" for k
  proof -
    have "k = 0 \<or> k = 1 \<or> k = 2 \<or> k = 3" using \<open>k < 4\<close> by linarith
    then show ?thesis using that(2-4) by (elim disjE) (auto simp: nested_entries_def mask_as_specific_def)
  qed
  obtain nv where nv: "ar_normalize nested_entries = Some nv"
    and l: "case ar_lookup nv 0x0500010A of
       None \<Rightarrow> \<forall>e\<in>set nested_entries. 0x0500010A AND ent_mask e \<noteq> ent_dst e
     | Some ena \<Rightarrow> \<exists>k<4. 0x0500010A AND ent_mask (nested_entries ! k) = ent_dst (nested_entries ! k) \<and> ent_ena (nested_entries ! k) = ena \<and>
         (\<forall>j<4. 0x0500010A AND ent_mask (nested_entries ! j) = ent_dst (nested_entries ! j) \<longrightarrow>
            mask_as_specific (ent_mask (nested_entries ! k)) (ent_mask (nested_entries ! j)) \<and>
            (ent_key (nested_entries ! j) = ent_key (nested_entries ! k) \<longrightarrow> j \<le> k))"
    using ar_normalize_lookup [of nested_entries "0x0500010A"]
    unfolding e(1) eqTrueI [OF nested_entries_order [unfolded e(1)]] eqTrueI [OF nested_entries_masks] simp_thms by auto
  show ?thesis
  proof (cases "ar_lookup nv 0x0500010A")
    case None
    then show ?thesis using l e(1,2) nth_mem [of 2 nested_entries] by simp
  next
    case (Some ena)
    then obtain k where k: "k < 4" "0x0500010A AND ent_mask (nested_entries ! k) = ent_dst (nested_entries ! k)"
      "ent_ena (nested_entries ! k) = ena"
      and best: "\<forall>j<4. 0x0500010A AND ent_mask (nested_entries ! j) = ent_dst (nested_entries ! j) \<longrightarrow>
        mask_as_specific (ent_mask (nested_entries ! k)) (ent_mask (nested_entries ! j)) \<and>
        (ent_key (nested_entries ! j) = ent_key (nested_entries ! k) \<longrightarrow> j \<le> k)"
      using l by auto
    have "k = 2" by (rule two [OF k(1) _ k(2)]) (use best [rule_format, of 2] e(2) in simp_all)
    then show ?thesis using nv Some e(3) k(3) by simp
  qed
qed

definition sample_table :: "arp_entry list" where
  "sample_table = [\<lparr> ent_dst = 0x0200A8C0, ent_mask = 0xFFFFFFFF, ent_ena = [2, 0, 0, 0, 0, 9] \<rparr>]"

lemma sample_table_lookup: "ar_lookup sample_table 0x0200A8C0 = Some [2, 0, 0, 0, 0, 9]"
  by (simp add: sample_table_def ar_lookup_def)

theorem ar_simple_action_spec_witness:
  "alloc_ok env0 \<and> ar_simple_action env0 2 sample_table sample_ip_packet = Some [(1, sample_ip_packet)]"
proof -
  have "\<not> is_request (pdata sample_ip_packet)" by (simp add: is_request_def sample_ip_packet_fields)
  then show ?thesis using ar_simple_action_spec [of env0 2 sample_table sample_ip_packet] by simp
qed

theorem arp_exchange_witness:
  "\<exists>st1 query reply st2 f.
    aq_push env0 7 2 0 sample_ip_packet sample_querier = Some (st1, [(1, query)]) \<and>
    ar_simple_action env0 2 sample_table query = Some [(0, reply)] \<and>
    aq_push env0 9 2 1 reply st1 = Some (st2, [(0, f)]) \<and>
    pdata f = [2, 0, 0, 0, 0, 9, 2, 0, 0, 0, 0, 1, 8, 0, 0x45, 0, 0, 20]"
proof -
  have g: "\<not> ether_is_group [2, 0, 0, 0, 0, 9]" by (simp add: ether_is_group_def get8_def)
  have b: "arp_bounded (snd sample_querier)" by (simp add: arp_bounded_def sample_querier_fields)
  have en: "aq_my_en (fst sample_querier) = [2, 0, 0, 0, 0, 1]"
    by (simp add: sample_querier_def sample_args_def arpquerier_configure_def)
  have t: "bytes16 (htons ETHERTYPE_IP) = [8, 0]"
    by (simp add: bytes16_def ETHERTYPE_IP_def htons_def le16_def hi8_def lo8_def)
  show ?thesis
    using arp_exchange [OF sample_querier_ok(2,3) b, of sample_ip_packet 7 sample_table "[2, 0, 0, 0, 0, 9]" env0 env0 env0 2 2 9]
      sample_table_lookup sample_next_hop g
    by (simp add: sample_querier_fields sample_ip_packet_fields en t)
qed

theorem ar_add_ignored_witness:
  "\<exists>v. ar_add_handler [(Some (1, 0xFFFFFFFF), None), (None, Some [2, 0, 0, 0, 0, 3])]
     [\<lparr> ent_dst = 1, ent_mask = 0xFFFFFFFF, ent_ena = [2, 0, 0, 0, 0, 1] \<rparr>, \<lparr> ent_dst = 2, ent_mask = 0xFFFFFFFF, ent_ena = [2, 0, 0, 0, 0, 2] \<rparr>]
     = Some (0, v) \<and> ar_lookup v 1 = Some [2, 0, 0, 0, 0, 1]"
  using ar_add_ignored [of "\<lparr> ent_dst = 1, ent_mask = 0xFFFFFFFF, ent_ena = [2, 0, 0, 0, 0, 1] \<rparr>"
      "\<lparr> ent_dst = 2, ent_mask = 0xFFFFFFFF, ent_ena = [2, 0, 0, 0, 0, 2] \<rparr>" "[2, 0, 0, 0, 0, 3]"] by simp

end
