(* ===== verification/Click_IPGWOptions.thy ===== *)
theory Click_IPGWOptions
  imports Click_IPElements
begin

unbundle bit_operations_syntax

text \<open>
  \<^verbatim>\<open>IPGWOptions\<close>: the record-route and timestamp options of packets that are forwarded
  (\<^verbatim>\<open>src/click/elements/ip/ipgwoptions.cc\<close>). The header begins at position \<open>pos\<close> of the packet's
  buffer \<open>b\<close>. The argument \<open>ms\<close> stands for the time of day in network byte order, which the
  code takes from the clock.
\<close>

section \<open>Operations\<close>

definition IPOPT_RR :: byte where "IPOPT_RR = 7"
definition IPOPT_TS :: byte where "IPOPT_TS = 68"

record ipgwoptions =
  gw_preferred_addr :: ipaddr
  gw_my_addrs :: "ipaddr list"
  gw_drops :: u32

definition ipgwoptions_configure ::
  "(ipaddr \<times> ipaddr list option) option \<Rightarrow> int \<times> ipgwoptions option" where
  "ipgwoptions_configure conf =
     (case conf of
        None \<Rightarrow> (- 1, None)
      | Some (myaddr, otheraddrs) \<Rightarrow>
          (0, Some \<lparr> gw_preferred_addr = myaddr,
                     gw_my_addrs = (case otheraddrs of None \<Rightarrow> [] | Some as \<Rightarrow> as) @ [myaddr],
                     gw_drops = 0 \<rparr>))"

text \<open>The result of processing one option at \<open>o1\<close> (a position in the buffer): the new buffer, or
  the offset of the offending byte from the start of the option.\<close>

definition gw_record_route :: "ipgwoptions \<Rightarrow> nat \<Rightarrow> nat \<Rightarrow> bytes \<Rightarrow> (nat + bytes) option" where
  "gw_record_route s o1 xlen b =
     do {
       ptr \<leftarrow> ld8 b (o1 + 2);
       let p = int (unat ptr) - 1;
       if p \<ge> 3 \<and> p + 4 \<le> int xlen then do {
         b \<leftarrow> st32 (o1 + nat p) (gw_preferred_addr s) b;
         b \<leftarrow> st8 (o1 + 2) (ptr + 4) b;
         Some (Inr b)
       }
       else if p \<noteq> int xlen then Some (Inl 2)
       else Some (Inr b)
     }"

definition gw_timestamp :: "ipgwoptions \<Rightarrow> u32 \<Rightarrow> nat \<Rightarrow> nat \<Rightarrow> bytes \<Rightarrow> (nat + bytes) option" where
  "gw_timestamp s ms o1 xlen b =
     do {
       ptr \<leftarrow> ld8 b (o1 + 2);
       fl \<leftarrow> ld8 b (o1 + 3);
       let p = int (unat ptr) - 1;
       let oflw = unat fl div 16;
       let flg = unat fl mod 16;
       if p < 4 then Some (Inl 2)
       else if flg = 0 \<and> p + 4 \<le> int xlen then do {
         b \<leftarrow> st32 (o1 + nat p) ms b;
         b \<leftarrow> st8 (o1 + 2) (ptr + 4) b;
         Some (Inr b)
       }
       else if flg = 1 \<and> p + 8 \<le> int xlen then do {
         b \<leftarrow> st32 (o1 + nat p) (gw_preferred_addr s) b;
         b \<leftarrow> st32 (o1 + nat p + 4) ms b;
         b \<leftarrow> st8 (o1 + 2) (ptr + 8) b;
         Some (Inr b)
       }
       else if flg = 0 \<or> flg = 1 then
         (if oflw < 15 then do {
            b \<leftarrow> st8 (o1 + 3) (of_nat ((oflw + 1) * 16 + flg)) b;
            Some (Inr b)
          }
          else Some (Inl 3))
       else if flg = 3 \<and> p + 8 \<le> int xlen then do {
         addr \<leftarrow> ld32 b (o1 + nat p);
         if addr \<in> set (gw_my_addrs s) then do {
           b \<leftarrow> st32 (o1 + nat p + 4) ms b;
           b \<leftarrow> st8 (o1 + 2) (ptr + 8) b;
           Some (Inr b)
         }
         else Some (Inr b)
       }
       else Some (Inl 3)
     }"

text \<open>The loop over the options. \<open>wp\<close> says whether the packet has been made writable, \<open>can\<close>
  whether that succeeds; \<open>Gw_Lost\<close> is the early return when it does not.\<close>

datatype gw_outcome = Gw_Done bool bytes | Gw_Error nat bool bytes | Gw_Lost

function gw_loop ::
  "ipgwoptions \<Rightarrow> u32 \<Rightarrow> bool \<Rightarrow> nat \<Rightarrow> nat \<Rightarrow> nat \<Rightarrow> bool \<Rightarrow> bytes \<Rightarrow> gw_outcome option" where
  "gw_loop s ms can pos hlen oi wp b =
     (if oi < hlen then
        do {
          ty \<leftarrow> ld8 b (pos + oi);
          if ty = IPOPT_NOP then gw_loop s ms can pos hlen (oi + 1) wp b
          else if ty = IPOPT_EOL then Some (Gw_Done wp b)
          else do {
            x \<leftarrow> ld8 b (pos + oi + 1);
            let xlen = unat x;
            if xlen < 2 \<or> oi + xlen > hlen then Some (Gw_Error (oi + 1) wp b)
            else if ty \<noteq> IPOPT_RR \<and> ty \<noteq> IPOPT_TS then gw_loop s ms can pos hlen (oi + xlen) wp b
            else if \<not> wp \<and> \<not> can then Some Gw_Lost
            else do {
              r \<leftarrow> (if ty = IPOPT_RR then gw_record_route s (pos + oi) xlen b
                   else gw_timestamp s ms (pos + oi) xlen b);
              case r of
                Inl k \<Rightarrow> Some (Gw_Error (oi + k) True b)
              | Inr b \<Rightarrow> gw_loop s ms can pos hlen (oi + xlen) True b
            }
          }
        }
      else Some (Gw_Done wp b))"
  by pat_completeness auto
termination
  by (relation "measure (\<lambda>(s, ms, can, pos, hlen, oi, wp, b). hlen - oi)") auto

declare gw_loop.simps [simp del]

text \<open>After \<^verbatim>\<open>uniqueify\<close> the code goes on using the old packet \<^verbatim>\<open>p\<close>, for the checksum and for the
  error annotation. When the packet was not shared it is the same object; when it was shared,
  \<^verbatim>\<open>p\<close> may be gone, and the model gives no result.\<close>

definition handle_options ::
  "env \<Rightarrow> u32 \<Rightarrow> nat \<Rightarrow> packet \<Rightarrow> ipgwoptions \<Rightarrow> (ipgwoptions \<times> emission list) option" where
  "handle_options e ms noutputs p s =
     do {
       pos \<leftarrow> network_pos p;
       hl \<leftarrow> network_header_length p;
       let hlen = nat hl;
       r \<leftarrow> gw_loop s ms (pkt_uniqueify e p \<noteq> None) pos hlen sizeof_click_ip False (pbuffer p);
       case r of
         Gw_Lost \<Rightarrow> Some (s, [])
       | Gw_Error oi wp b \<Rightarrow>
           if wp \<and> pshared p then None
           else Some (s\<lparr> gw_drops := gw_drops s + 1 \<rparr>,
                      checked_output_push noutputs 1 ((set_buffer b p)\<lparr> icmp_paramprob_anno := of_nat oi \<rparr>))
       | Gw_Done wp b \<Rightarrow>
           if \<not> wp then Some (s, [(0, p)])
           else if pshared p then None
           else do {
             q \<leftarrow> on_buffer (\<lambda>b. do {
                    b \<leftarrow> st16 (pos + IP_SUM) 0 b;
                    c \<leftarrow> cksum_at b pos hlen;
                    st16 (pos + IP_SUM) c b
                  }) (set_buffer b p);
             Some (s, [(0, q)])
           }
     }"

definition ipgwoptions_action ::
  "env \<Rightarrow> u32 \<Rightarrow> nat \<Rightarrow> packet \<Rightarrow> ipgwoptions \<Rightarrow> (ipgwoptions \<times> emission list) option" where
  "ipgwoptions_action e ms noutputs p s =
     do {
       pos \<leftarrow> network_pos p;
       vhl \<leftarrow> ld8 (pbuffer p) pos;
       if 4 * ip_hl_of vhl \<le> sizeof_click_ip then Some (s, [(0, p)])
       else handle_options e ms noutputs p s
     }"

section \<open>What the loop leaves alone\<close>

text \<open>\<open>b'\<close> differs from \<open>b\<close> only inside \<open>[i, j)\<close>.\<close>

definition same_outside :: "nat \<Rightarrow> nat \<Rightarrow> bytes \<Rightarrow> bytes \<Rightarrow> bool" where
  "same_outside i j b b' \<longleftrightarrow>
     length b' = length b \<and> (\<forall>k < length b. k < i \<or> j \<le> k \<longrightarrow> b' ! k = b ! k)"

lemma same_outside_refl [simp]: "same_outside i j b b"
  by (simp add: same_outside_def)

lemma same_outside_trans: "same_outside i j a b \<Longrightarrow> same_outside i j b c \<Longrightarrow> same_outside i j a c"
  by (simp add: same_outside_def)

lemma same_outside_upd:
  "i \<le> k \<Longrightarrow> k + 1 \<le> j \<Longrightarrow> same_outside i j b (upd8 k v b)"
  "i \<le> k \<Longrightarrow> k + 4 \<le> j \<Longrightarrow> same_outside i j b (upd32 k w b)"
  by (auto simp: same_outside_def upd8_def upd16_def upd32_def nth_list_update)

lemma same_outside_length: "same_outside i j b b' \<Longrightarrow> length b' = length b"
  by (simp add: same_outside_def)

lemma gw_record_route_frame:
  assumes "gw_record_route s o1 xlen b = Some (Inr b')" and "2 \<le> xlen"
  shows "same_outside o1 (o1 + xlen + 2) b b'"
  using assms
  by (auto simp: gw_record_route_def Let_def st32_def st8_def ld8_def split: if_splits
      intro!: same_outside_trans [OF same_outside_upd(2) same_outside_upd(1)])

lemma gw_timestamp_frame:
  assumes "gw_timestamp s ms o1 xlen b = Some (Inr b')" and "2 \<le> xlen"
  shows "same_outside o1 (o1 + xlen + 2) b b'"
  using assms
  by (auto simp: gw_timestamp_def Let_def st32_def st8_def ld8_def ld32_def split: if_splits
      intro!: same_outside_upd same_outside_trans [OF same_outside_upd(2) same_outside_upd(1)]
        same_outside_trans [OF same_outside_trans [OF same_outside_upd(2) same_outside_upd(2)] same_outside_upd(1)])

lemma gw_option_defined:
  assumes "2 \<le> xlen" and "o1 + xlen + 2 \<le> length b"
  shows "\<exists>r. gw_record_route s o1 xlen b = Some r" and "\<exists>r. gw_timestamp s ms o1 xlen b = Some r"
  using assms by (auto simp: gw_record_route_def gw_timestamp_def Let_def mem_simps)

lemma same_outside_mono: "same_outside i j b b' \<Longrightarrow> i' \<le> i \<Longrightarrow> j \<le> j' \<Longrightarrow> same_outside i' j' b b'"
  by (auto simp: same_outside_def)

definition gw_safe :: "nat \<Rightarrow> nat \<Rightarrow> bytes \<Rightarrow> gw_outcome \<Rightarrow> bool" where
  "gw_safe i j b r \<longleftrightarrow>
     (case r of Gw_Done wp b' \<Rightarrow> same_outside i j b b' \<and> (\<not> wp \<longrightarrow> b' = b)
      | Gw_Error k wp b' \<Rightarrow> same_outside i j b b' | Gw_Lost \<Rightarrow> True)"

lemma gw_safe_trans:
  "same_outside i j b b' \<Longrightarrow> gw_safe i j b' r \<Longrightarrow> (\<And>c. r \<noteq> Gw_Done False c) \<Longrightarrow> gw_safe i j b r"
  by (cases r) (auto simp: gw_safe_def elim: same_outside_trans)

text \<open>One iteration, for an option with a plausible length.\<close>

definition gw_option ::
  "ipgwoptions \<Rightarrow> u32 \<Rightarrow> byte \<Rightarrow> nat \<Rightarrow> nat \<Rightarrow> bytes \<Rightarrow> (nat + bytes) option" where
  "gw_option s ms ty o1 xlen b =
     (if ty = IPOPT_RR then gw_record_route s o1 xlen b else gw_timestamp s ms o1 xlen b)"

lemma gw_option_frame: "gw_option s ms ty o1 xlen b = Some (Inr b') \<Longrightarrow> 2 \<le> xlen \<Longrightarrow> same_outside o1 (o1 + xlen + 2) b b'"
  by (metis gw_option_def gw_record_route_frame gw_timestamp_frame)

lemma gw_loop_cases:
  fixes b :: bytes and pos oi :: nat
  defines "ty \<equiv> get8 b (pos + oi)" and "x \<equiv> unat (get8 b (pos + oi + 1))"
  assumes "oi < hlen"
  obtains (undef1) "length b < pos + oi + 1" "gw_loop s ms can pos hlen oi wp b = None"
    | (undef2) "length b < pos + oi + 2" "gw_loop s ms can pos hlen oi wp b = None"
    | (skip) k where "0 < k" "gw_loop s ms can pos hlen oi wp b = gw_loop s ms can pos hlen (oi + k) wp b"
    | (stop) "gw_loop s ms can pos hlen oi wp b = Some (Gw_Done wp b)"
    | (bad) "gw_loop s ms can pos hlen oi wp b = Some (Gw_Error (oi + 1) wp b)"
    | (lost) "\<not> can" "gw_loop s ms can pos hlen oi wp b = Some Gw_Lost"
    | (option) "2 \<le> x" "oi + x \<le> hlen" "gw_loop s ms can pos hlen oi wp b =
        do { r \<leftarrow> gw_option s ms ty (pos + oi) x b;
             case r of Inl k \<Rightarrow> Some (Gw_Error (oi + k) True b) | Inr b \<Rightarrow> gw_loop s ms can pos hlen (oi + x) True b }"
proof -
  note step = gw_loop.simps [of s ms can pos hlen oi wp b]
  consider "length b < pos + oi + 1" | "pos + oi + 1 \<le> length b" "ty = IPOPT_NOP"
    | "pos + oi + 1 \<le> length b" "ty = IPOPT_EOL" "ty \<noteq> IPOPT_NOP"
    | "pos + oi + 1 \<le> length b" "length b < pos + oi + 2" "ty \<noteq> IPOPT_EOL" "ty \<noteq> IPOPT_NOP"
    | "pos + oi + 2 \<le> length b" "ty \<noteq> IPOPT_EOL" "ty \<noteq> IPOPT_NOP"
    by linarith
  then show ?thesis
  proof cases
    case 1
    then show ?thesis using assms(3) by (intro undef1) (simp_all add: step ld8_def)
  next
    case 2
    then show ?thesis using assms(3) by (intro skip [of 1]) (simp_all add: step ld8_def ty_def)
  next
    case 3
    then show ?thesis using assms(3) by (intro stop) (simp_all add: step ld8_def ty_def)
  next
    case 4
    then show ?thesis using assms(3) by (intro undef2) (simp_all add: step ld8_def ty_def)
  next
    case 5
    then have ld: "ld8 b (pos + oi) = Some ty" "ld8 b (pos + oi + 1) = Some (get8 b (pos + oi + 1))"
      by (simp_all add: ld8_def ty_def)
    consider "x < 2 \<or> oi + x > hlen" | "2 \<le> x" "oi + x \<le> hlen" "ty \<noteq> IPOPT_RR \<and> ty \<noteq> IPOPT_TS"
      | "2 \<le> x" "oi + x \<le> hlen" "\<not> (ty \<noteq> IPOPT_RR \<and> ty \<noteq> IPOPT_TS)" "\<not> wp \<and> \<not> can"
      | "2 \<le> x" "oi + x \<le> hlen" "\<not> (ty \<noteq> IPOPT_RR \<and> ty \<noteq> IPOPT_TS)" "\<not> (\<not> wp \<and> \<not> can)"
      by linarith
    then show ?thesis
    proof cases
      case 1
      then show ?thesis
        using 5(2,3) ld assms(3) unfolding x_def by (intro bad) (simp only: step if_True bind.simps Let_def if_False)
    next
      case 2
      then show ?thesis
        using 5(2,3) ld assms(3) unfolding x_def
        by (intro skip [of "unat (get8 b (pos + oi + 1))"]) (simp_all add: step Let_def)
    next
      case 3
      then show ?thesis
        using 5(2,3) ld assms(3) unfolding x_def by (intro lost, simp) (subst step, auto simp: Let_def)
    next
      case 4
      then show ?thesis
        using 5(2,3) ld assms(3) unfolding x_def
        by (intro option) (auto simp: step Let_def gw_option_def x_def)
    qed
  qed
qed

lemma gw_loop_safe:
  assumes "gw_loop s ms can pos hlen oi wp b = Some r" and "20 \<le> oi"
  shows "gw_safe (pos + 20) (pos + hlen + 2) b r \<and> (wp \<longrightarrow> (\<forall>c. r \<noteq> Gw_Done False c))"
  using assms
proof (induction "hlen - oi" arbitrary: oi wp b rule: less_induct)
  case less
  show ?case
  proof (cases "oi < hlen")
    case False
    then show ?thesis using less.prems(1) by (auto simp: gw_loop.simps gw_safe_def)
  next
    case True
    then show ?thesis
    proof (cases rule: gw_loop_cases [where s = s and ms = ms and can = can and pos = pos and wp = wp and b = b])
      case (skip k)
      then show ?thesis using less.hyps [of "oi + k" wp b] less.prems True by simp
    next
      case option
      let ?x = "unat (get8 b (pos + oi + 1))"
      from option(3) less.prems(1) consider
          k where "r = Gw_Error (oi + k) True b"
        | b' where "gw_option s ms (get8 b (pos + oi)) (pos + oi) ?x b = Some (Inr b')"
            "gw_loop s ms can pos hlen (oi + ?x) True b' = Some r"
        by (auto split: Option.bind_splits sum.splits)
      then show ?thesis
      proof cases
        case (2 b')
        have "same_outside (pos + 20) (pos + hlen + 2) b b'"
          using gw_option_frame [OF 2(1) option(1)] less.prems(2) option(2) by (auto elim: same_outside_mono)
        moreover have "gw_safe (pos + 20) (pos + hlen + 2) b' r \<and> (\<forall>c. r \<noteq> Gw_Done False c)"
          using less.hyps [OF _ 2(2)] less.prems(2) option(1) True by simp
        ultimately show ?thesis using gw_safe_trans by blast
      qed (simp add: gw_safe_def)
    qed (use less.prems in \<open>auto simp: gw_safe_def\<close>)
  qed
qed

lemma gw_loop_defined:
  assumes "pos + hlen + 2 \<le> length b"
  shows "\<exists>r. gw_loop s ms True pos hlen oi wp b = Some r \<and> r \<noteq> Gw_Lost"
  using assms
proof (induction "hlen - oi" arbitrary: oi wp b rule: less_induct)
  case less
  show ?case
  proof (cases "oi < hlen")
    case False
    then show ?thesis by (simp add: gw_loop.simps)
  next
    case True
    then show ?thesis
    proof (cases rule: gw_loop_cases [where s = s and ms = ms and can = True and pos = pos and wp = wp and b = b])
      case (skip k)
      then show ?thesis using less.hyps [of "oi + k" b wp] less.prems True by simp
    next
      case option
      let ?x = "unat (get8 b (pos + oi + 1))"
      have "\<exists>r. gw_option s ms (get8 b (pos + oi)) (pos + oi) ?x b = Some r"
        using gw_option_defined [OF option(1), of "pos + oi" b] option(2) less.prems by (simp add: gw_option_def)
      then obtain r where r: "gw_option s ms (get8 b (pos + oi)) (pos + oi) ?x b = Some r" ..
      show ?thesis
      proof (cases r)
        case (Inl k)
        then show ?thesis unfolding option(3) using r by simp
      next
        case (Inr b')
        then have "length b' = length b"
          using gw_option_frame [OF _ option(1)] r same_outside_length by blast
        then have "\<exists>r. gw_loop s ms True pos hlen (oi + ?x) True b' = Some r \<and> r \<noteq> Gw_Lost"
          using less.hyps [of "oi + ?x" b' True] less.prems option(1) True by simp
        then show ?thesis unfolding option(3) using r Inr by simp
      qed
    qed (use less.prems True in auto)
  qed
qed

section \<open>The options as a list\<close>

text \<open>What the documents ask of one option, as a list of bytes: a record-route option with room for an address gets the router's
  address at its pointer, which moves on by 4; a full one is left alone; a pointer anywhere else is an error at the third byte. A
  timestamp option gets the time, with the router's address when it asks for it (flag 1), or with the time behind one of the
  router's own addresses that was written in advance (flag 3); when it is full, the number of routers that could not
  register is increased up to 15. Errors are counted from the start of the option.\<close>

definition rr_option :: "ipaddr \<Rightarrow> bytes \<Rightarrow> nat + bytes" where
  "rr_option a opt =
     (let ptr = unat (get8 opt 2)
      in if 4 \<le> ptr \<and> ptr + 3 \<le> length opt then Inr (upd8 2 (get8 opt 2 + 4) (upd32 (ptr - 1) a opt))
         else if ptr = length opt + 1 then Inr opt
         else Inl 2)"

definition ts_option :: "ipaddr \<Rightarrow> ipaddr set \<Rightarrow> u32 \<Rightarrow> bytes \<Rightarrow> nat + bytes" where
  "ts_option a own time opt =
     (let ptr = unat (get8 opt 2); flag = unat (get8 opt 3) mod 16;
          full = (if unat (get8 opt 3) < 240 then Inr (upd8 3 (get8 opt 3 + 16) opt) else Inl 3)
      in if ptr < 5 then Inl 2
         else if flag = 0
         then (if ptr + 3 \<le> length opt then Inr (upd8 2 (get8 opt 2 + 4) (upd32 (ptr - 1) time opt)) else full)
         else if flag = 1
         then (if ptr + 7 \<le> length opt
               then Inr (upd8 2 (get8 opt 2 + 8) (upd32 (ptr + 3) time (upd32 (ptr - 1) a opt))) else full)
         else if flag = 3 \<and> ptr + 7 \<le> length opt
         then Inr (if get32 opt (ptr - 1) \<in> own then upd8 2 (get8 opt 2 + 8) (upd32 (ptr + 3) time opt) else opt)
         else Inl 3)"

text \<open>All options of a header from its \<open>n\<close>th byte on: the new options, or the offset of the offending byte from the start
  of the header and the options as they are by then. \<open>None\<close> when a record-route or timestamp option is met that is too short
  for its own pointer and flags.\<close>

function gw_options :: "ipgwoptions \<Rightarrow> u32 \<Rightarrow> nat \<Rightarrow> bytes \<Rightarrow> (nat \<times> bytes + bytes) option" where
  "gw_options s time n opts =
     (case opts of
        [] \<Rightarrow> Some (Inr [])
      | ty # rest \<Rightarrow>
          if ty = 1 then map_option (map_sum (apsnd ((@) [ty])) ((@) [ty])) (gw_options s time (n + 1) rest)
          else if ty = 0 then Some (Inr opts)
          else if rest = [] \<or> unat (hd rest) < 2 \<or> unat (hd rest) > length opts then Some (Inl (n + 1, opts))
          else let x = unat (hd rest); opt = take x opts;
                   r = (if ty = 7 then if x < 3 then None else Some (rr_option (gw_preferred_addr s) opt)
                        else if ty = 68 then if x < 4 then None
                          else Some (ts_option (gw_preferred_addr s) (set (gw_my_addrs s)) time opt)
                        else Some (Inr opt))
               in case r of
                    None \<Rightarrow> None
                  | Some (Inl k) \<Rightarrow> Some (Inl (n + k, opts))
                  | Some (Inr opt') \<Rightarrow>
                      map_option (map_sum (apsnd ((@) opt')) ((@) opt')) (gw_options s time (n + x) (drop x opts)))"
  by pat_completeness auto
termination
  by (relation "measure (\<lambda>(s, time, n, opts). length opts)") auto

declare gw_options.simps [simp del]

lemma option_access:
  assumes "length c = n"
  shows "k + 1 \<le> n \<Longrightarrow> ld8 (A @ c @ B) (length A + k) = Some (get8 c k)"
    and "k + 4 \<le> n \<Longrightarrow> ld32 (A @ c @ B) (length A + k) = Some (get32 c k)"
    and "k + 1 \<le> n \<Longrightarrow> st8 (length A + k) v (A @ c @ B) = Some (A @ upd8 k v c @ B)"
    and "k + 4 \<le> n \<Longrightarrow> st32 (length A + k) w (A @ c @ B) = Some (A @ upd32 k w c @ B)"
  using assms get_append(1,3) [of A "c @ B" k] upd_append(1) [of A k v "c @ B"] upd32_append [of A k w "c @ B"]
  by (simp_all add: ld8_def ld32_def st8_def st32_def mem_simps)

lemma pointer_conditions:
  fixes ptr :: byte and n :: nat
  shows "(int (unat ptr) - 1 \<ge> 3 \<and> int (unat ptr) - 1 + 4 \<le> int n) = (4 \<le> unat ptr \<and> unat ptr + 3 \<le> n)"
    and "(int (unat ptr) - 1 \<noteq> int n) = (unat ptr \<noteq> n + 1)" and "(int (unat ptr) - 1 < 4) = (unat ptr < 5)"
    and "(int (unat ptr) - 1 + 4 \<le> int n) = (unat ptr + 3 \<le> n)" and "(int (unat ptr) - 1 + 8 \<le> int n) = (unat ptr + 7 \<le> n)"
    and "nat (int (unat ptr) - 1) = unat ptr - 1"
  by linarith+

lemma gw_record_route_option:
  assumes "3 \<le> length opt"
  shows "gw_record_route s (length A) (length opt) (A @ opt @ B) =
    Some (map_sum id (\<lambda>opt. A @ opt @ B) (rr_option (gw_preferred_addr s) opt))"
proof -
  let ?ptr = "unat (get8 opt 2)"
  have ld: "ld8 (A @ opt @ B) (length A + 2) = Some (get8 opt 2)" using assms by (intro option_access(1) [OF refl]) simp
  show ?thesis
  proof (cases "4 \<le> ?ptr \<and> ?ptr + 3 \<le> length opt")
    case True
    have "st32 (length A + (?ptr - 1)) w (A @ opt @ B) = Some (A @ upd32 (?ptr - 1) w opt @ B)" for w
      by (rule option_access(4) [OF refl]) (use True in linarith)
    moreover have "st8 (length A + 2) v (A @ upd32 (?ptr - 1) w opt @ B) = Some (A @ upd8 2 v (upd32 (?ptr - 1) w opt) @ B)" for v w
      using assms by (intro option_access(3) [of _ "length opt"]) simp_all
    ultimately show ?thesis
      using True unfolding gw_record_route_def rr_option_def ld bind.simps Let_def pointer_conditions(1,2,6) by simp
  next
    case False
    then show ?thesis
      unfolding gw_record_route_def rr_option_def ld bind.simps Let_def pointer_conditions(1,2,6) by (cases "?ptr = length opt + 1") (simp_all only: if_False if_True simp_thms map_sum.simps id_apply)
  qed
qed

lemma gw_timestamp_option:
  assumes "4 \<le> length opt"
  shows "gw_timestamp s ms (length A) (length opt) (A @ opt @ B) =
    Some (map_sum id (\<lambda>opt. A @ opt @ B) (ts_option (gw_preferred_addr s) (set (gw_my_addrs s)) ms opt))"
proof -
  let ?ptr = "unat (get8 opt 2)" and ?fl = "unat (get8 opt 3)"
  define i j k where ijk: "i = length A + (?ptr - 1)" "j = length A + 2" "k = length A + 3"
  have ld: "ld8 (A @ opt @ B) j = Some (get8 opt 2)" "ld8 (A @ opt @ B) k = Some (get8 opt 3)"
    using assms unfolding ijk by (auto intro!: option_access(1) [OF refl] simp del: add_2_eq_Suc')
  have st8: "st8 j v (A @ c @ B) = Some (A @ upd8 2 v c @ B)" "st8 k v (A @ c @ B) = Some (A @ upd8 3 v c @ B)"
    if "length c = length opt" for c v
    using assms that unfolding ijk by (auto intro!: option_access(3) simp del: add_2_eq_Suc')
  have at: "st32 i w (A @ opt @ B) = Some (A @ upd32 (?ptr - 1) w opt @ B)" "ld32 (A @ opt @ B) i = Some (get32 opt (?ptr - 1))"
    if "5 \<le> ?ptr" "?ptr + 3 \<le> length opt" for w
    unfolding ijk by (rule option_access(4) [OF refl], use that in linarith, rule option_access(2) [OF refl], use that in linarith)
  have behind: "st32 (i + 4) w (A @ c @ B) = Some (A @ upd32 (?ptr + 3) w c @ B)"
    if "5 \<le> ?ptr" "?ptr + 7 \<le> length opt" "length c = length opt" for c w
  proof -
    have pos: "i + 4 = length A + (?ptr + 3)" using that(1) unfolding ijk by linarith
    show ?thesis unfolding pos by (rule option_access(4) [OF that(3)]) (use that(2) in linarith)
  qed
  have "(?fl div 16 + 1) * 16 + ?fl mod 16 = ?fl + 16" by simp
  then have of: "(of_nat ((?fl div 16 + 1) * 16 + ?fl mod 16) :: byte) = get8 opt 3 + 16" by simp
  have lt: "(?fl div 16 < 15) = (?fl < 240)" by (simp add: div_less_iff_less_mult)
  note unf = gw_timestamp_def ijk(2,3) [symmetric] ld bind.simps Let_def pointer_conditions(3-6) of lt ijk(1) [symmetric] ts_option_def
  consider "?ptr < 5" | "5 \<le> ?ptr" "?ptr + 7 \<le> length opt" "?ptr + 3 \<le> length opt"
    | "5 \<le> ?ptr" "length opt < ?ptr + 7" "?ptr + 3 \<le> length opt" | "5 \<le> ?ptr" "length opt < ?ptr + 3" "length opt < ?ptr + 7" by linarith
  then show ?thesis
  proof cases
    case 2
    then show ?thesis using behind [OF 2(1,2)] unfolding unf by (simp add: at st8)
  qed (simp_all add: at st8, simp_all only: unf, simp_all add: at st8)
qed

text \<open>The loop over the buffer computes this list, in place.\<close>

definition loop_result :: "bool \<Rightarrow> bytes \<Rightarrow> bytes \<Rightarrow> bytes \<Rightarrow> nat \<times> bytes + bytes \<Rightarrow> gw_outcome \<Rightarrow> bool" where
  "loop_result wp A opts B r g \<longleftrightarrow>
     (case r of
        Inr opts' \<Rightarrow> length opts' = length opts \<and> (\<exists>wp'. g = Gw_Done wp' (A @ opts' @ B) \<and> (wp' \<or> \<not> wp \<and> opts' = opts))
      | Inl (k, opts') \<Rightarrow> length opts' = length opts \<and> (\<exists>wp'. g = Gw_Error k wp' (A @ opts' @ B)))"

lemma loop_result_prepend:
  assumes "loop_result wp' (A @ opt') rest B r g" and "length opt' = length opt" and "wp' \<or> \<not> wp \<and> opt' = opt"
  shows "loop_result wp A (opt @ rest) B (map_sum (apsnd ((@) opt')) ((@) opt') r) g"
  using assms by (cases r) (auto simp: loop_result_def)

lemma rr_ts_length:
  "rr_option a opt = Inr opt' \<Longrightarrow> length opt' = length opt" "ts_option a own time opt = Inr opt' \<Longrightarrow> length opt' = length opt"
  by (auto simp: rr_option_def ts_option_def Let_def split: if_splits)

lemma gw_options_step:
  assumes "opts = ty # rest" and "ty \<noteq> 1" and "ty \<noteq> 0" and "rest \<noteq> []" and "2 \<le> x" and "x \<le> length opts" and "unat (hd rest) = x"
    and "gw_options s ms n opts = Some r"
  obtains (other) r' where "ty \<noteq> 7" "ty \<noteq> 68" "gw_options s ms (n + x) (drop x opts) = Some r'"
      "r = map_sum (apsnd ((@) (take x opts))) ((@) (take x opts)) r'"
    | (error) k where "gw_option s ms ty (length A) x (A @ opts @ B) = Some (Inl k)" "r = Inl (n + k, opts)" "ty = 7 \<or> ty = 68"
    | (processed) opt' r' where "gw_option s ms ty (length A) x (A @ opts @ B) = Some (Inr (A @ opt' @ drop x opts @ B))"
      "length opt' = x" "gw_options s ms (n + x) (drop x opts) = Some r'"
      "r = map_sum (apsnd ((@) opt')) ((@) opt') r'" "ty = 7 \<or> ty = 68"
proof -
  let ?opt = "take x opts"
  have len: "length ?opt = x" and split: "A @ opts @ B = A @ ?opt @ drop x opts @ B" using assms(6) by (simp, simp flip: append_assoc)
  note unf = assms(8) [unfolded gw_options.simps [of s ms n opts], unfolded assms(1) list.case, folded assms(1)]
  have finish: thesis
    if g: "gw_option s ms ty (length A) x (A @ opts @ B) = Some (map_sum id (\<lambda>opt. A @ opt @ drop x opts @ B) res)"
      and r: "(case res of Inl k \<Rightarrow> Some (Inl (n + k, opts))
          | Inr opt' \<Rightarrow> map_option (map_sum (apsnd ((@) opt')) ((@) opt')) (gw_options s ms (n + x) (drop x opts))) = Some r"
      and l: "\<And>opt'. res = Inr opt' \<Longrightarrow> length opt' = x" and ty: "ty = 7 \<or> ty = 68" for res
  proof (cases res)
    case (Inl k)
    then show ?thesis using g r ty by (intro error [of k]) simp_all
  next
    case (Inr opt')
    then obtain r' where "gw_options s ms (n + x) (drop x opts) = Some r'" "r = map_sum (apsnd ((@) opt')) ((@) opt') r'"
      using r by auto
    then show ?thesis using g l ty Inr by (intro processed [of opt' r']) simp_all
  qed
  consider "ty \<noteq> 7" "ty \<noteq> 68" | "ty = 7" "3 \<le> x" | "ty = 68" "4 \<le> x" | "ty = 7" "x < 3" | "ty = 68" "x < 4" by linarith
  then show ?thesis
  proof cases
    case 1
    then obtain r' where "gw_options s ms (n + x) (drop x opts) = Some r'"
      "r = map_sum (apsnd ((@) (take x opts))) ((@) (take x opts)) r'"
      using unf assms(1-7) by (auto simp: Let_def)
    then show ?thesis using 1 by (intro other)
  next
    case 2
    show ?thesis
    proof (rule finish)
      show "gw_option s ms ty (length A) x (A @ opts @ B) =
          Some (map_sum id (\<lambda>opt. A @ opt @ drop x opts @ B) (rr_option (gw_preferred_addr s) ?opt))"
        using gw_record_route_option [of ?opt s A "drop x opts @ B"] 2 len unfolding split by (simp add: gw_option_def IPOPT_RR_def)
      show "(case rr_option (gw_preferred_addr s) ?opt of Inl k \<Rightarrow> Some (Inl (n + k, opts))
          | Inr opt' \<Rightarrow> map_option (map_sum (apsnd ((@) opt')) ((@) opt')) (gw_options s ms (n + x) (drop x opts))) = Some r"
        using unf assms(2-7) 2 by (simp add: Let_def split: sum.splits)
    qed (use 2 len rr_ts_length(1) in \<open>force simp: min_def\<close>)+
  next
    case 3
    show ?thesis
    proof (rule finish)
      show "gw_option s ms ty (length A) x (A @ opts @ B) =
          Some (map_sum id (\<lambda>opt. A @ opt @ drop x opts @ B) (ts_option (gw_preferred_addr s) (set (gw_my_addrs s)) ms ?opt))"
        using gw_timestamp_option [of ?opt s ms A "drop x opts @ B"] 3 len unfolding split by (simp add: gw_option_def IPOPT_RR_def)
      show "(case ts_option (gw_preferred_addr s) (set (gw_my_addrs s)) ms ?opt of Inl k \<Rightarrow> Some (Inl (n + k, opts))
          | Inr opt' \<Rightarrow> map_option (map_sum (apsnd ((@) opt')) ((@) opt')) (gw_options s ms (n + x) (drop x opts))) = Some r"
        using unf assms(2-7) 3 by (simp add: Let_def split: sum.splits)
    qed (use 3 len rr_ts_length(2) in \<open>force simp: min_def\<close>)+
  qed (use unf assms(2-7) in \<open>simp_all add: Let_def\<close>)
qed

lemma gw_loop_options:
  assumes "gw_options s ms oi opts = Some r" and "length A = pos + oi" and "hlen = oi + length opts" and "B \<noteq> []"
  shows "\<exists>g. gw_loop s ms True pos hlen oi wp (A @ opts @ B) = Some g \<and> loop_result wp A opts B r g"
  using assms(1-3)
proof (induction "length opts" arbitrary: oi opts r A wp rule: less_induct)
  case less
  show ?case
  proof (cases opts)
    case Nil
    then show ?thesis using less.prems by (auto simp: gw_options.simps gw_loop.simps [of _ _ _ _ oi oi] loop_result_def)
  next
    case (Cons ty rest)
    let ?b = "A @ opts @ B" and ?y = "hd (rest @ B)"
    note step = gw_loop.simps [of s ms True pos hlen oi wp ?b]
    have oi: "oi < hlen" using less.prems(3) Cons by simp
    have ld: "ld8 ?b (pos + oi) = Some ty" "ld8 ?b (pos + oi + 1) = Some ?y"
      using less.prems(2) Cons assms(4) by (auto simp: ld8_def get8_def nth_append hd_conv_nth Suc_le_eq)
    have next_opt: "\<exists>g. gw_loop s ms True pos hlen (oi + x) wp' (A @ opt' @ drop x opts @ B) = Some g \<and>
        loop_result wp A opts B (map_sum (apsnd ((@) opt')) ((@) opt') r') g"
      if x: "0 < x" "x \<le> length opts" "length opt' = x" "wp' \<or> \<not> wp \<and> opt' = take x opts"
        and r': "gw_options s ms (oi + x) (drop x opts) = Some r'" for x opt' wp' r'
    proof -
      have "length (drop x opts) < length opts" using x(1,2) by simp
      then obtain g where "gw_loop s ms True pos hlen (oi + x) wp' ((A @ opt') @ drop x opts @ B) = Some g"
        "loop_result wp' (A @ opt') (drop x opts) B r' g"
        using less.hyps [OF _ r', of "A @ opt'" wp'] less.prems(2,3) x(2,3) by auto
      then show ?thesis using loop_result_prepend [of wp' A opt' "drop x opts" B r' g "take x opts" wp] x by auto
    qed
    consider (nop) "ty = 1" | (eol) "ty = 0" | (opt) "ty \<noteq> 1" "ty \<noteq> 0" by blast
    then show ?thesis
    proof cases
      case nop
      then obtain r' where r': "gw_options s ms (oi + 1) rest = Some r'" "r = map_sum (apsnd ((@) [ty])) ((@) [ty]) r'"
        using less.prems(1) Cons by (subst (asm) gw_options.simps) auto
      have "gw_loop s ms True pos hlen oi wp ?b = gw_loop s ms True pos hlen (oi + 1) wp ?b"
        using nop oi ld by (subst step) (simp add: IPOPT_NOP_def)
      then show ?thesis using next_opt [of 1 "[ty]" wp r'] r' Cons by simp
    next
      case eol
      have "gw_loop s ms True pos hlen oi wp ?b = Some (Gw_Done wp ?b)"
        using eol oi ld by (subst step) (simp add: IPOPT_NOP_def IPOPT_EOL_def)
      moreover have "r = Inr opts" using less.prems(1) Cons eol by (subst (asm) gw_options.simps) simp
      ultimately show ?thesis by (simp add: loop_result_def)
    next
      case opt
      show ?thesis
      proof (cases "rest = [] \<or> unat (hd rest) < 2 \<or> unat (hd rest) > length opts")
        case True
        then have "unat ?y < 2 \<or> oi + unat ?y > hlen" using less.prems(3) Cons by (cases "rest = []") auto
        then have "gw_loop s ms True pos hlen oi wp ?b = Some (Gw_Error (oi + 1) wp ?b)"
          using opt oi ld by (subst step) (simp add: IPOPT_NOP_def IPOPT_EOL_def)
        moreover have "r = Inl (oi + 1, opts)" using less.prems(1) Cons opt True by (subst (asm) gw_options.simps) auto
        ultimately show ?thesis by (auto simp: loop_result_def)
      next
        case False
        define x where "x = unat (hd rest)"
        have x: "2 \<le> x" "x \<le> length opts" "rest \<noteq> []" "unat ?y = x" "oi + x \<le> hlen"
          using False less.prems(3) by (auto simp: x_def)
        have loop: "gw_loop s ms True pos hlen oi wp ?b =
          (if ty \<noteq> 7 \<and> ty \<noteq> 68 then gw_loop s ms True pos hlen (oi + x) wp ?b
           else do { r \<leftarrow> gw_option s ms ty (length A) x ?b;
             case r of Inl k \<Rightarrow> Some (Gw_Error (oi + k) True ?b) | Inr b \<Rightarrow> gw_loop s ms True pos hlen (oi + x) True b })"
          using opt oi ld x less.prems(2)
          by (subst step) (simp add: IPOPT_NOP_def IPOPT_EOL_def IPOPT_RR_def IPOPT_TS_def gw_option_def Let_def)
        show ?thesis
        proof (cases rule: gw_options_step [OF Cons opt x(3,1,2) x_def [symmetric] less.prems(1), where A = A and B = B])
          case (1 r')
          then show ?thesis
            using loop next_opt [of x "take x opts" wp r'] x by (simp flip: append_assoc)
        next
          case (2 k)
          then show ?thesis using loop by (auto simp: loop_result_def)
        next
          case (3 opt' r')
          then show ?thesis using loop next_opt [of x opt' True r'] x by auto
        qed
      qed
    qed
  qed
qed

section \<open>The element on a valid packet\<close>

lemma set_buffer_same [simp]: "set_buffer (pbuffer p) p = p"
  by (simp add: set_buffer_def pbuffer_def)

lemma set_buffer_frame:
  assumes "same_outside (headroom p + 20) (headroom p + n) (pbuffer p) b" and "20 \<le> plen p"
  obtains d t where "set_buffer b p = p\<lparr> pdata := d, troom := t \<rparr>" and "length d = plen p"
    and "get_ip d 0 = get_ip (pdata p) 0" and "get8 d 0 = get8 (pdata p) 0" and "drop n d = drop n (pdata p)"
proof -
  let ?h = "headroom p"
  let ?d = "take (plen p) (drop ?h b)"
  have len: "length b = length (pbuffer p)" using assms(1) by (rule same_outside_length)
  then have ld: "length ?d = plen p" by (simp add: pbuffer_def)
  have eq: "b ! k = pbuffer p ! k" if "k < length (pbuffer p)" "k < ?h + 20 \<or> ?h + n \<le> k" for k
    using assms(1) that unfolding same_outside_def by blast
  have "take ?h b = hroom p"
    by (rule nth_equalityI) (simp_all add: len pbuffer_def eq nth_append)
  then have "set_buffer b p = p\<lparr> pdata := ?d, troom := drop (?h + plen p) b \<rparr>"
    by (simp add: set_buffer_def)
  moreover have d: "?d ! k = pdata p ! k" if "k < plen p" "k < 20 \<or> n \<le> k" for k
  proof -
    have "?d ! k = b ! (?h + k)" using that(1) len by (simp add: pbuffer_def)
    also have "\<dots> = pbuffer p ! (?h + k)" using that by (intro eq) (auto simp: pbuffer_def)
    also have "\<dots> = pdata p ! k" using that(1) by (simp add: pbuffer_def nth_append)
    finally show ?thesis .
  qed
  moreover have "drop n ?d = drop n (pdata p)"
  proof (rule nth_equalityI)
    fix k assume "k < length (drop n ?d)"
    then show "drop n ?d ! k = drop n (pdata p) ! k"
      using ld d [of "n + k"] by (simp del: nth_take nth_drop add: nth_drop [of n ?d] nth_drop [of n "pdata p"])
  qed (use ld in simp)
  moreover have "\<forall>k < 20. ?d ! k = pdata p ! k" using d assms(2) by auto
  then have "get_ip ?d 0 = get_ip (pdata p) 0" "get8 ?d 0 = get8 (pdata p) 0"
    by (simp_all del: nth_take nth_drop add: get_ip_0 get8_def get16_def get32_def)
  ultimately show ?thesis using that ld by blast
qed

lemma ipgwoptions_valid_positions:
  assumes "ip_valid p"
  shows "network_pos p = Some (headroom p)" "network_header_length p = Some (int (ip_hlen (pdata p)))"
    "ld8 (pbuffer p) (headroom p) = Some (get8 (pdata p) 0)"
  using assms ip_valid_facts(1) [OF assms] network_pos_valid [OF assms]
  by (simp_all add: ip_valid_def network_header_length_def pbuffer_def mem_simps)

text \<open>The header rewritten by the loop, completed with its checksum.\<close>

lemma gw_checksum:
  fixes t :: bytes
  assumes "ip_valid p" and "length d = plen p" and "get_ip d 0 = get_ip (pdata p) 0" and "get8 d 0 = get8 (pdata p) 0"
  obtains c where "on_buffer (\<lambda>b. do {
        b \<leftarrow> st16 (headroom p + IP_SUM) 0 b;
        c \<leftarrow> cksum_at b (headroom p) (ip_hlen (pdata p));
        st16 (headroom p + IP_SUM) c b
      }) (p\<lparr> pdata := d, troom := t \<rparr>) = Some (p\<lparr> pdata := upd16 IP_SUM c d, troom := t \<rparr>)"
    and "ip_valid (p\<lparr> pdata := upd16 IP_SUM c d, troom := t \<rparr>)"
proof -
  note v = ip_valid_facts [OF assms(1)]
  let ?q = "p\<lparr> pdata := d, troom := t \<rparr>" and ?d = "upd16 IP_SUM 0 d"
  let ?c = "click_in_cksum (slice 0 (ip_hlen (pdata p)) ?d)"
  have twice: "upd16 IP_SUM c ?d = upd16 IP_SUM c d" for c
    by (simp add: upd16_def list_update_swap [of 11 10])
  have "on_buffer (\<lambda>b. do {
        b \<leftarrow> st16 (headroom p + IP_SUM) 0 b;
        c \<leftarrow> cksum_at b (headroom p) (ip_hlen (pdata p));
        st16 (headroom p + IP_SUM) c b
      }) ?q = Some (?q\<lparr> pdata := upd16 IP_SUM ?c ?d \<rparr>)"
    using v(1,3) assms(2) by (intro on_buffer_data) (simp_all add: pbuffer_def mem_simps)
  moreover have "get16 d IP_LEN = get16 (pdata p) IP_LEN"
    using arg_cong [OF assms(3), of ip_len] by (simp add: get_ip_0)
  then have "ip_valid (p\<lparr> pdata := upd16 IP_SUM ?c ?d \<rparr>)"
    using ip_valid_refill [of p ?d] assms v(1) by (simp add: mem_simps)
  ultimately show ?thesis using that [of ?c] by (simp add: twice)
qed

text \<open>The two ways the loop over the options ends on a packet that is not shared.\<close>

lemma handle_options_done:
  assumes "ip_valid p" and "\<not> pshared p"
    and "gw_loop s ms True (headroom p) (ip_hlen (pdata p)) 20 False (pbuffer p) = Some (Gw_Done wp b)"
    and "same_outside (headroom p + 20) (headroom p + (ip_hlen (pdata p) + 2)) (pbuffer p) b"
  shows "\<exists>q. handle_options e ms n p s = Some (s, [(0, q)]) \<and> ip_valid q \<and> plen q = plen p \<and>
      get_ip (pdata q) 0 = (get_ip (pdata p) 0)\<lparr> ip_sum := ip_sum (get_ip (pdata q) 0) \<rparr> \<and>
      drop (ip_hlen (pdata p) + 2) (pdata q) = drop (ip_hlen (pdata p) + 2) (pdata p)"
proof -
  let ?n = "ip_hlen (pdata p)"
  note v = ip_valid_facts [OF assms(1)] and pos = ipgwoptions_valid_positions [OF assms(1)]
  have can: "pkt_uniqueify e p \<noteq> None" using assms(2) by (simp add: pkt_uniqueify_def)
  show ?thesis
  proof (cases wp)
    case False
    then show ?thesis using can pos assms(1,3) by (intro exI [of _ p]) (simp add: handle_options_def)
  next
    case True
    obtain d t where d: "set_buffer b p = p\<lparr> pdata := d, troom := t \<rparr>" "length d = plen p"
      "get_ip d 0 = get_ip (pdata p) 0" "get8 d 0 = get8 (pdata p) 0"
      "drop (?n + 2) d = drop (?n + 2) (pdata p)"
      by (rule set_buffer_frame [OF assms(4) v(1)])
    obtain c where c: "on_buffer (\<lambda>b. do {
          b \<leftarrow> st16 (headroom p + IP_SUM) 0 b;
          c \<leftarrow> cksum_at b (headroom p) (ip_hlen (pdata p));
          st16 (headroom p + IP_SUM) c b
        }) (p\<lparr> pdata := d, troom := t \<rparr>) = Some (p\<lparr> pdata := upd16 IP_SUM c d, troom := t \<rparr>)"
      "ip_valid (p\<lparr> pdata := upd16 IP_SUM c d, troom := t \<rparr>)"
      by (rule gw_checksum [OF assms(1) d(2-4), of t])
    have "handle_options e ms n p s = Some (s, [(0, p\<lparr> pdata := upd16 IP_SUM c d, troom := t \<rparr>)])"
      using can True pos assms(2,3) d(1) c(1) by (simp add: handle_options_def)
    moreover have "drop (?n + 2) (upd16 IP_SUM c d) = drop (?n + 2) d" using v(2) by (simp add: mem_simps)
    moreover have "get_ip (upd16 IP_SUM c d) 0 = (get_ip d 0)\<lparr> ip_sum := c \<rparr>"
      using d(2) v(1) by (simp add: get_ip_0 mem_simps)
    ultimately show ?thesis
      using c(2) d by (intro exI [of _ "p\<lparr> pdata := upd16 IP_SUM c d, troom := t \<rparr>"]) simp
  qed
qed

lemma handle_options_error:
  assumes "ip_valid p" and "\<not> pshared p"
    and "gw_loop s ms True (headroom p) (ip_hlen (pdata p)) 20 False (pbuffer p) = Some (Gw_Error k wp b)"
    and "same_outside (headroom p + 20) (headroom p + (ip_hlen (pdata p) + 2)) (pbuffer p) b"
  shows "\<exists>q. handle_options e ms n p s = Some (s\<lparr> gw_drops := gw_drops s + 1 \<rparr>, checked_output_push n 1 q) \<and>
      plen q = plen p \<and> get_ip (pdata q) 0 = get_ip (pdata p) 0"
proof -
  have can: "pkt_uniqueify e p \<noteq> None" using assms(2) by (simp add: pkt_uniqueify_def)
  obtain d t where "set_buffer b p = p\<lparr> pdata := d, troom := t \<rparr>" "length d = plen p"
      "get_ip d 0 = get_ip (pdata p) 0"
    by (rule set_buffer_frame [OF assms(4) ip_valid_facts(1) [OF assms(1)]])
  then show ?thesis
    using can assms(2,3) ipgwoptions_valid_positions [OF assms(1)]
    by (intro exI [of _ "p\<lparr> pdata := d, troom := t, icmp_paramprob_anno := of_nat k \<rparr>"])
      (simp add: handle_options_def)
qed

text \<open>Whatever the options are, a packet that is not shared and has two more bytes behind the header is handled without
  an access out of bounds, and either leaves on output 0 with a valid header, its checksum recomputed and every fixed
  header field and everything from two bytes behind the header on unchanged, or is counted and leaves on output 1.\<close>

lemma ipgwoptions_action_safe:
  assumes "ip_valid p" and "\<not> pshared p" and "ip_hlen (pdata p) + 2 \<le> plen p + tailroom p"
  shows "(\<exists>q. ipgwoptions_action e ms n p s = Some (s, [(0, q)]) \<and> ip_valid q \<and> plen q = plen p \<and>
      get_ip (pdata q) 0 = (get_ip (pdata p) 0)\<lparr> ip_sum := ip_sum (get_ip (pdata q) 0) \<rparr> \<and>
      drop (ip_hlen (pdata p) + 2) (pdata q) = drop (ip_hlen (pdata p) + 2) (pdata p)) \<or>
    (\<exists>q. ipgwoptions_action e ms n p s = Some (s\<lparr> gw_drops := gw_drops s + 1 \<rparr>, checked_output_push n 1 q) \<and>
      plen q = plen p \<and> get_ip (pdata q) 0 = get_ip (pdata p) 0)"
proof (cases "ip_hlen (pdata p) \<le> 20")
  case True
  then show ?thesis
    using ipgwoptions_valid_positions [OF assms(1)] assms(1)
    by (intro disjI1 exI [of _ p]) (simp add: ipgwoptions_action_def ip_hlen_def)
next
  case False
  let ?h = "headroom p" and ?n = "ip_hlen (pdata p)"
  have act: "ipgwoptions_action e ms n p s = handle_options e ms n p s"
    using False ipgwoptions_valid_positions [OF assms(1)] by (simp add: ipgwoptions_action_def ip_hlen_def)
  have "?h + ?n + 2 \<le> length (pbuffer p)" using assms(3) by (simp add: pbuffer_def)
  then obtain r where r: "gw_loop s ms True ?h ?n 20 False (pbuffer p) = Some r"
    "gw_safe (?h + 20) (?h + ?n + 2) (pbuffer p) r" "r \<noteq> Gw_Lost"
    using gw_loop_defined [of ?h ?n "pbuffer p" s ms 20 False] gw_loop_safe by blast
  have frame: "same_outside (?h + 20) (?h + (?n + 2)) (pbuffer p) b"
    if "r = Gw_Done wp b \<or> r = Gw_Error k wp b" for k wp b
    using r(2) that by (auto simp: gw_safe_def add.assoc)
  show ?thesis
  proof (cases r)
    case (Gw_Done wp b)
    then have "same_outside (?h + 20) (?h + (?n + 2)) (pbuffer p) b" using frame by simp
    then show ?thesis
      unfolding act by (intro disjI1 handle_options_done [OF assms(1,2) r(1) [unfolded Gw_Done]])
  next
    case (Gw_Error k wp b)
    then have "same_outside (?h + 20) (?h + (?n + 2)) (pbuffer p) b" using frame by simp
    then show ?thesis
      unfolding act by (intro disjI2 handle_options_error [OF assms(1,2) r(1) [unfolded Gw_Error]])
  qed (use r(3) in simp)
qed

text \<open>A packet with its options replaced.\<close>

definition with_options :: "bytes \<Rightarrow> packet \<Rightarrow> packet" where
  "with_options opts p = p\<lparr> pdata := take 20 (pdata p) @ opts @ drop (ip_hlen (pdata p)) (pdata p) \<rparr>"

abbreviation options_of :: "bytes \<Rightarrow> bytes" where
  "options_of d \<equiv> take (ip_hlen d - 20) (drop 20 d)"

lemma options_split:
  assumes "ip_valid p"
  shows "take 20 (pdata p) @ options_of (pdata p) @ drop (ip_hlen (pdata p)) (pdata p) = pdata p"
  using ip_valid_facts(2) [OF assms] append_take_drop_id [of "ip_hlen (pdata p) - 20" "drop 20 (pdata p)"] by simp

lemma with_options_facts:
  assumes "ip_valid p" and "length opts = length (options_of (pdata p))"
  shows "set_buffer ((hroom p @ take 20 (pdata p)) @ opts @ drop (ip_hlen (pdata p)) (pdata p) @ troom p) p = with_options opts p"
    and "plen (with_options opts p) = plen p" and "get_ip (pdata (with_options opts p)) 0 = get_ip (pdata p) 0"
    and "get8 (pdata (with_options opts p)) 0 = get8 (pdata p) 0" and "with_options (options_of (pdata p)) p = p"
    and "with_options opts p = p\<lparr> pdata := pdata (with_options opts p), troom := troom p \<rparr>"
proof -
  note v = ip_valid_facts [OF assms(1)]
  have len: "length opts = ip_hlen (pdata p) - 20" using assms(2) v by simp
  show "plen (with_options opts p) = plen p" using v len by (simp add: with_options_def)
  show "set_buffer ((hroom p @ take 20 (pdata p)) @ opts @ drop (ip_hlen (pdata p)) (pdata p) @ troom p) p = with_options opts p"
    using v len by (simp add: set_buffer_def with_options_def)
  have front: "get8 (take 20 d @ c) 0 = get8 d 0" "get_ip (take 20 d @ c) 0 = get_ip d 0" if "20 \<le> length d" for c d :: bytes
    using that by (simp_all add: get_ip_0 get8_def get16_def get32_def nth_append)
  show "get_ip (pdata (with_options opts p)) 0 = get_ip (pdata p) 0" "get8 (pdata (with_options opts p)) 0 = get8 (pdata p) 0"
    using front v(1) by (simp_all add: with_options_def)
  show "with_options (options_of (pdata p)) p = p" by (simp add: with_options_def options_split [OF assms(1)])
  show "with_options opts p = p\<lparr> pdata := pdata (with_options opts p), troom := troom p \<rparr>" by (simp add: with_options_def)
qed

lemma upd16_same: "k + 2 \<le> length d \<Longrightarrow> upd16 k (get16 d k) d = d"
  by (simp add: upd16_def get16_def get8_def)

lemma handle_options_list:
  assumes "ip_valid p" and "\<not> pshared p" and "ip_hlen (pdata p) + 2 \<le> plen p + tailroom p"
    and "gw_options s ms 20 (options_of (pdata p)) = Some r"
  shows "case r of
      Inr opts \<Rightarrow> \<exists>c. handle_options e ms n p s =
          Some (s, [(0, (with_options opts p)\<lparr> pdata := upd16 IP_SUM c (pdata (with_options opts p)) \<rparr>)]) \<and>
        ip_valid ((with_options opts p)\<lparr> pdata := upd16 IP_SUM c (pdata (with_options opts p)) \<rparr>)
    | Inl (k, opts) \<Rightarrow> handle_options e ms n p s =
        Some (s\<lparr> gw_drops := gw_drops s + 1 \<rparr>, checked_output_push n 1 ((with_options opts p)\<lparr> icmp_paramprob_anno := of_nat k \<rparr>))"
proof -
  let ?d = "pdata p" and ?n = "ip_hlen (pdata p)"
  let ?A = "hroom p @ take 20 ?d" and ?B = "drop ?n ?d @ troom p"
  note v = ip_valid_facts [OF assms(1)] and pos = ipgwoptions_valid_positions [OF assms(1)]
  have can: "pkt_uniqueify e p \<noteq> None" using assms(2) by (simp add: pkt_uniqueify_def)
  have buf: "pbuffer p = ?A @ options_of ?d @ ?B"
    using options_split [OF assms(1)] by (metis pbuffer_def append_assoc)
  have "length ?A = headroom p + 20" "?n = 20 + length (options_of ?d)" "?B \<noteq> []" using v assms(3) by auto
  then obtain g where g: "gw_loop s ms True (headroom p) ?n 20 False (pbuffer p) = Some g"
    "loop_result False ?A (options_of ?d) ?B r g"
    using gw_loop_options [OF assms(4)] unfolding buf by blast
  show ?thesis
  proof (cases r)
    case (Inl x)
    obtain k opts where x: "x = (k, opts)" by (cases x)
    obtain wp where "g = Gw_Error k wp (?A @ opts @ ?B)" "length opts = length (options_of ?d)"
      using g(2) Inl x by (auto simp: loop_result_def)
    then show ?thesis
      using g(1) can pos assms(2) with_options_facts(1) [OF assms(1), of opts] Inl x by (simp add: handle_options_def)
  next
    case (Inr opts)
    obtain wp where wp: "g = Gw_Done wp (?A @ opts @ ?B)" "length opts = length (options_of ?d)" "wp \<or> opts = options_of ?d"
      using g(2) Inr by (auto simp: loop_result_def)
    note w = with_options_facts [OF assms(1) wp(2)]
    show ?thesis
    proof (cases wp)
      case False
      then have "with_options opts p = p" using wp(3) w(5) by simp
      moreover have "upd16 IP_SUM (get16 ?d IP_SUM) ?d = ?d" using v(1) by (intro upd16_same) simp
      moreover have "handle_options e ms n p s = Some (s, [(0, p)])" using False g(1) can pos wp(1) by (simp add: handle_options_def)
      ultimately show ?thesis using assms(1) Inr by (simp, intro exI [of _ "get16 ?d IP_SUM"]) simp
    next
      case True
      let ?w = "pdata (with_options opts p)"
      obtain c where c: "on_buffer (\<lambda>b. do {
            b \<leftarrow> st16 (headroom p + IP_SUM) 0 b;
            c \<leftarrow> cksum_at b (headroom p) ?n;
            st16 (headroom p + IP_SUM) c b
          }) (p\<lparr> pdata := ?w, troom := troom p \<rparr>) = Some (p\<lparr> pdata := upd16 IP_SUM c ?w, troom := troom p \<rparr>)"
        "ip_valid (p\<lparr> pdata := upd16 IP_SUM c ?w, troom := troom p \<rparr>)"
        by (rule gw_checksum [OF assms(1) w(2-4), of "troom p"])
      have eq: "(with_options opts p)\<lparr> pdata := upd16 IP_SUM c ?w \<rparr> = p\<lparr> pdata := upd16 IP_SUM c ?w, troom := troom p \<rparr>"
        by (simp add: with_options_def)
      have "handle_options e ms n p s = Some (s, [(0, p\<lparr> pdata := upd16 IP_SUM c ?w, troom := troom p \<rparr>)])"
        using True g(1) can pos assms(2) wp(1) c(1) unfolding w(6) [symmetric] by (simp add: handle_options_def w(1) del: append_assoc)
      then show ?thesis using c(2) Inr unfolding eq [symmetric] by auto
    qed
  qed
qed

text \<open>C32: \<^verbatim>\<open>IPGWOptions\<close> on a packet with a valid IP header that is not shared and has two more bytes behind the header computes the
  list function \<open>gw_options\<close> on the options, and nothing else of the packet changes: it leaves on output 0 with the new options,
  a recomputed checksum and a valid header, or it is counted and leaves on output 1 with the offset of the offending byte
  from the start of the header in its annotation. Only for options with a record-route or timestamp option that is too short for its own
  pointer and flags less is said: the element stays within the two bytes behind the header.\<close>

theorem ipgwoptions_action_spec:
  assumes "ip_valid p" and "\<not> pshared p" and "ip_hlen (pdata p) + 2 \<le> plen p + tailroom p"
  shows "case gw_options s ms 20 (options_of (pdata p)) of
      Some (Inr opts) \<Rightarrow> \<exists>c. ipgwoptions_action e ms n p s =
          Some (s, [(0, (with_options opts p)\<lparr> pdata := upd16 IP_SUM c (pdata (with_options opts p)) \<rparr>)]) \<and>
        ip_valid ((with_options opts p)\<lparr> pdata := upd16 IP_SUM c (pdata (with_options opts p)) \<rparr>)
    | Some (Inl (k, opts)) \<Rightarrow> ipgwoptions_action e ms n p s =
        Some (s\<lparr> gw_drops := gw_drops s + 1 \<rparr>, checked_output_push n 1 ((with_options opts p)\<lparr> icmp_paramprob_anno := of_nat k \<rparr>))
    | None \<Rightarrow>
        (\<exists>q. ipgwoptions_action e ms n p s = Some (s, [(0, q)]) \<and> ip_valid q \<and> plen q = plen p \<and>
          get_ip (pdata q) 0 = (get_ip (pdata p) 0)\<lparr> ip_sum := ip_sum (get_ip (pdata q) 0) \<rparr> \<and>
          drop (ip_hlen (pdata p) + 2) (pdata q) = drop (ip_hlen (pdata p) + 2) (pdata p)) \<or>
        (\<exists>q. ipgwoptions_action e ms n p s = Some (s\<lparr> gw_drops := gw_drops s + 1 \<rparr>, checked_output_push n 1 q) \<and>
          plen q = plen p \<and> get_ip (pdata q) 0 = get_ip (pdata p) 0)"
proof (cases "gw_options s ms 20 (options_of (pdata p))")
  case None
  then show ?thesis using ipgwoptions_action_safe [OF assms, of e ms n s] by simp
next
  case (Some r)
  note pos = ipgwoptions_valid_positions [OF assms(1)]
  show ?thesis
  proof (cases "ip_hlen (pdata p) \<le> 20")
    case True
    then have "r = Inr []" using Some by (simp add: gw_options.simps)
    moreover have "with_options [] p = p" using with_options_facts(5) [OF assms(1)] True by simp
    moreover have "upd16 IP_SUM (get16 (pdata p) IP_SUM) (pdata p) = pdata p"
      using ip_valid_facts(1) [OF assms(1)] by (intro upd16_same) simp
    moreover have "ipgwoptions_action e ms n p s = Some (s, [(0, p)])"
      using True pos by (simp add: ipgwoptions_action_def ip_hlen_def)
    ultimately show ?thesis using Some assms(1) by (simp, intro exI [of _ "get16 (pdata p) IP_SUM"]) simp
  next
    case False
    then have "ipgwoptions_action e ms n p s = handle_options e ms n p s"
      using pos by (simp add: ipgwoptions_action_def ip_hlen_def)
    then show ?thesis using handle_options_list [OF assms Some, of e n] Some by (auto split: sum.splits)
  qed
qed

text \<open>Whatever the packet's buffer looks like, what the element passes on is valid.\<close>

lemma ipgwoptions_keeps_valid:
  assumes "ip_valid p" and "ipgwoptions_action e ms n p s = Some (s', out)" and "(0, q) \<in> set out"
  shows "ip_valid q"
proof (cases "ip_hlen (pdata p) \<le> 20")
  case True
  then show ?thesis
    using assms ipgwoptions_valid_positions [OF assms(1)] by (auto simp: ipgwoptions_action_def ip_hlen_def)
next
  case False
  let ?h = "headroom p" and ?n = "ip_hlen (pdata p)"
  note pos = ipgwoptions_valid_positions [OF assms(1)]
  have "handle_options e ms n p s = Some (s', out)"
    using False assms(2) pos by (simp add: ipgwoptions_action_def ip_hlen_def)
  then obtain wp b where b: "gw_loop s ms (pkt_uniqueify e p \<noteq> None) ?h ?n 20 False (pbuffer p) = Some (Gw_Done wp b)"
    and out: "(if \<not> wp then Some (s, [(0, p)]) else if pshared p then None
        else do { q \<leftarrow> on_buffer (\<lambda>b. do {
                    b \<leftarrow> st16 (?h + IP_SUM) 0 b; c \<leftarrow> cksum_at b ?h ?n; st16 (?h + IP_SUM) c b }) (set_buffer b p);
                  Some (s, [(0, q)]) }) = Some (s', out)"
    using assms(3) pos
    by (auto simp: handle_options_def checked_output_push_def Let_def split: Option.bind_splits gw_outcome.splits if_splits)
  have "same_outside (?h + 20) (?h + (?n + 2)) (pbuffer p) b"
    using gw_loop_safe [OF b] by (simp add: gw_safe_def add.assoc)
  then obtain d t where d: "set_buffer b p = p\<lparr> pdata := d, troom := t \<rparr>" "length d = plen p"
      "get_ip d 0 = get_ip (pdata p) 0" "get8 d 0 = get8 (pdata p) 0"
    by (rule set_buffer_frame [OF _ ip_valid_facts(1) [OF assms(1)]])
  show ?thesis
  proof (cases wp)
    case True
    obtain c where "on_buffer (\<lambda>b. do {
          b \<leftarrow> st16 (?h + IP_SUM) 0 b; c \<leftarrow> cksum_at b ?h ?n; st16 (?h + IP_SUM) c b
        }) (p\<lparr> pdata := d, troom := t \<rparr>) = Some (p\<lparr> pdata := upd16 IP_SUM c d, troom := t \<rparr>)"
      "ip_valid (p\<lparr> pdata := upd16 IP_SUM c d, troom := t \<rparr>)"
      by (rule gw_checksum [OF assms(1) d(2-4), of t])
    then show ?thesis using True out assms(3) d(1) by (auto split: if_splits)
  qed (use out assms(1,3) in auto)
qed

interpretation ipgwoptions: ip_keeper "\<lambda>e p. map_option snd (ipgwoptions_action e ms n p s)" for ms n s
  by unfold_locales (auto dest: ipgwoptions_keeps_valid)

section \<open>A timestamp option that is too short\<close>

text \<open>A timestamp option of length 2 or 3 whose pointer lies behind it is not rejected: the
  element takes the byte three behind the start of the option for the overflow counter and
  increments it, although this byte belongs to the next option or, at the end of the header,
  to the payload.\<close>

theorem gw_timestamp_overrun:
  assumes "xlen = 2 \<or> xlen = 3" and "o1 + 4 \<le> length b" and "5 \<le> unat (get8 b (o1 + 2))"
    and "unat (get8 b (o1 + 3)) mod 16 = 0" and "unat (get8 b (o1 + 3)) < 240"
  shows "\<exists>b'. gw_timestamp s ms o1 xlen b = Some (Inr b') \<and> o1 + xlen \<le> o1 + 3 \<and>
    unat (get8 b' (o1 + 3)) = unat (get8 b (o1 + 3)) + 16"
proof -
  let ?f = "unat (get8 b (o1 + 3))"
  have "?f div 16 < 15" using assms(5) by (simp add: less_mult_imp_div_less)
  moreover have f: "(?f div 16 + 1) * 16 = ?f + 16" using assms(4) by (metis add_mult_distrib mult_1 div_mult_mod_eq add_0_right mult.commute)
  moreover have "unat (of_nat (?f + 16) :: byte) = ?f + 16"
    using assms(5) by (intro unat_word_of_nat) simp
  moreover have "int 5 \<le> int (unat (get8 b (o1 + 2)))" using assms(3) by (simp only: of_nat_le_iff)
  ultimately show ?thesis
    using assms(1,2,4) by (auto simp: gw_timestamp_def Let_def mem_simps add.commute [of 16])
qed

section \<open>Witnesses\<close>

text \<open>A packet with a record-route option with one free slot: the router's address 10.0.0.254 is entered.\<close>

definition rr_bytes :: bytes where
  "rr_bytes = [0x47, 0, 0, 28, 0, 0, 0, 0, 9, 17, 0, 0, 10, 0, 0, 1, 10, 0, 0, 2, 7, 7, 4, 0, 0, 0, 0, 0]"

definition rr_packet :: packet where
  "rr_packet = \<lparr> hroom = [], pdata = upd16 10 (click_in_cksum (slice 0 28 rr_bytes)) rr_bytes, troom = replicate 4 0, pshared = False,
     mac_off = None, net_off = Some 0, trans_off = Some 28, dst_ip_anno = 0, paint_anno = 0, icmp_paramprob_anno = 0, fix_ip_src_anno = 0,
     packet_type_anno = HOST \<rparr>"

lemma rr_bytes_fields:
  "length rr_bytes = 28" "get8 rr_bytes 0 = 0x47" "get16 rr_bytes 10 = 0" "get16 rr_bytes 2 = htons 28"
  by (simp_all add: rr_bytes_def get8_def get16_def htons_def le16_def hi8_def lo8_def)

lemma rr_packet_facts:
  "pdata rr_packet = upd16 10 (click_in_cksum (slice 0 28 rr_bytes)) rr_bytes" "tailroom rr_packet = 4" "headroom rr_packet = 0"
  "\<not> pshared rr_packet" "ip_hlen (pdata rr_packet) = 28" "plen rr_packet = 28" "net_off rr_packet = Some 0" "trans_off rr_packet = Some 28"
  by (simp_all add: rr_packet_def rr_bytes_fields ip_hlen_def ip_hl_of_def mem_simps)

lemma rr_packet_valid: "ip_valid rr_packet"
proof -
  have "cksum_ok (pdata rr_packet) 0 28"
    using cksum_fill [of 0 28 rr_bytes 10] by (simp add: rr_packet_facts(1) rr_bytes_fields)
  moreover have "ip_v_of (get8 (pdata rr_packet) 0) = 4" "get16 (pdata rr_packet) 2 = htons 28"
    by (simp_all add: rr_packet_facts(1) rr_bytes_fields ip_v_of_def mem_simps)
  ultimately show ?thesis
    using rr_packet_facts(2-) by (simp add: ip_valid_def ip_header_ok_def)
qed

lemma rr_packet_options:
  "gw_options \<lparr> gw_preferred_addr = 0xFE00000A, gw_my_addrs = [0xFE00000A], gw_drops = 0 \<rparr> 5 20 (options_of (pdata rr_packet)) =
     Some (Inr [7, 7, 8, 10, 0, 0, 0xFE, 0])"
proof -
  have "options_of (pdata rr_packet) = [7, 7, 4, 0, 0, 0, 0, 0]"
    unfolding rr_packet_facts(5) unfolding rr_packet_facts(1) by (simp add: rr_bytes_def upd16_def)
  moreover have "rr_option 0xFE00000A [7, 7, 4, 0, 0, 0, 0] = Inr [7, 7, 8, 10, 0, 0, 0xFE]"
    by (simp add: rr_option_def get8_def upd8_def upd32_def upd16_def lo16_def hi16_def lo8_def hi8_def)
  ultimately show ?thesis by (simp add: gw_options.simps [of _ _ 20] gw_options.simps [of _ _ 27])
qed

theorem ipgwoptions_action_spec_witness:
  "ip_valid rr_packet \<and> (\<exists>c. ipgwoptions_action env0 5 2 rr_packet \<lparr> gw_preferred_addr = 0xFE00000A, gw_my_addrs = [0xFE00000A], gw_drops = 0 \<rparr> =
     Some (\<lparr> gw_preferred_addr = 0xFE00000A, gw_my_addrs = [0xFE00000A], gw_drops = 0 \<rparr>,
       [(0, (with_options [7, 7, 8, 10, 0, 0, 0xFE, 0] rr_packet)
          \<lparr> pdata := upd16 IP_SUM c (pdata (with_options [7, 7, 8, 10, 0, 0, 0xFE, 0] rr_packet)) \<rparr>)]))"
  using ipgwoptions_action_spec [OF rr_packet_valid rr_packet_facts(4),
      where s = "\<lparr> gw_preferred_addr = 0xFE00000A, gw_my_addrs = [0xFE00000A], gw_drops = 0 \<rparr>" and ms = 5 and e = env0 and n = 2]
    rr_packet_valid
  unfolding rr_packet_options by (auto simp: rr_packet_facts(2,5,6))

text \<open>The header ends with a timestamp option of length 2; the two bytes behind it are payload.\<close>

theorem gw_timestamp_overrun_witness:
  "\<exists>b'. gw_timestamp \<lparr> gw_preferred_addr = 1, gw_my_addrs = [1], gw_drops = 0 \<rparr> 5 22 2
      (zeros 22 @ [68, 2, 9, 0x20]) = Some (Inr b') \<and> unat (get8 b' 25) = 0x30"
  using gw_timestamp_overrun [of 2 22 "zeros 22 @ [68, 2, 9, 0x20]"
      "\<lparr> gw_preferred_addr = 1, gw_my_addrs = [1], gw_drops = 0 \<rparr>" 5]
  by (auto simp: get8_def nth_append)

end
