(* ===== verification/Click_IPFragmenter.thy ===== *)
theory Click_IPFragmenter
  imports Click_IPElements
begin

unbundle bit_operations_syntax

text \<open>
  \<^verbatim>\<open>IPFragmenter\<close> (\<^verbatim>\<open>src/click/elements/ip/ipfragmenter.cc\<close>): packets longer than the MTU are cut
  into IP fragments. The main theorem is that the fragments are valid packets no longer than
  the MTU which tile the payload: a receiver that puts the fragments at the offsets in their
  headers obtains the original packet.
\<close>

section \<open>Operations\<close>

abbreviation (input) IP_DF :: u16 where "IP_DF \<equiv> 0x4000"
abbreviation (input) IP_MF :: u16 where "IP_MF \<equiv> 0x2000"

record ipfragmenter =
  fr_mtu :: u32
  fr_honor_df :: bool
  fr_headroom :: nat
  fr_drops :: u32
  fr_fragments :: u32

definition ipfragmenter_configure ::
  "(u32 \<times> bool option \<times> nat option) option \<Rightarrow> int \<times> ipfragmenter option" where
  "ipfragmenter_configure conf =
     (case conf of
        None \<Rightarrow> (- 1, None)
      | Some (mtu, honor_df, hroom_arg) \<Rightarrow>
          if mtu < 8 then (- 1, None)
          else (0, Some \<lparr> fr_mtu = mtu, fr_honor_df = (case honor_df of None \<Rightarrow> True | Some b \<Rightarrow> b),
                          fr_headroom = (case hroom_arg of None \<Rightarrow> default_headroom | Some n \<Rightarrow> n),
                          fr_drops = 0, fr_fragments = 0 \<rparr>))"

text \<open>The options of the header that go into every fragment: \<open>opts\<close> are the bytes between the
  fixed header and the payload. The result is padded to a multiple of four.\<close>

function optcopy_options :: "bytes \<Rightarrow> bytes" where
  "optcopy_options opts =
     (case opts of
        [] \<Rightarrow> []
      | t # r \<Rightarrow>
          if t = IPOPT_NOP then optcopy_options r
          else if t = IPOPT_EOL \<or> r = [] \<or> unat (hd r) < 2 \<or> unat (hd r) > length opts then []
          else (if t AND 0x80 \<noteq> 0 then take (unat (hd r)) opts else [])
               @ optcopy_options (drop (unat (hd r)) opts))"
  by pat_completeness auto
termination
  by (relation "measure length") auto

declare optcopy_options.simps [simp del]

definition optcopy :: "bytes \<Rightarrow> bytes" where
  "optcopy opts =
     (let out = optcopy_options opts in out @ replicate ((4 - length out mod 4) mod 4) IPOPT_EOL)"

text \<open>\<^verbatim>\<open>(_mtu - hlen) & ~7\<close>, computed in unsigned arithmetic and stored in an \<^verbatim>\<open>int\<close>.\<close>

definition frag_dlen :: "u32 \<Rightarrow> nat \<Rightarrow> int" where
  "frag_dlen mtu hlen = sint ((mtu - of_nat hlen) AND NOT 7)"

text \<open>The header of the first fragment, written into the packet itself, and whether the packet
  was a fragment with more to follow. \<open>rnd\<close> is the result of \<^verbatim>\<open>click_random()\<close>.\<close>

definition frag_first :: "u16 \<Rightarrow> nat \<Rightarrow> nat \<Rightarrow> int \<Rightarrow> bytes \<Rightarrow> (bytes \<times> bool) option" where
  "frag_first rnd pos hlen first_dlen b =
     do {
       f \<leftarrow> ld16 b (pos + IP_OFF);
       b \<leftarrow> (if f AND htons IP_DF \<noteq> 0 then do {
              b \<leftarrow> st16 (pos + IP_ID) rnd b;
              st16 (pos + IP_OFF) (f AND NOT (htons IP_DF)) b
            }
            else Some b);
       f \<leftarrow> ld16 b (pos + IP_OFF);
       b \<leftarrow> st16 (pos + IP_LEN) (htons (of_int (int hlen + first_dlen))) b;
       b \<leftarrow> st16 (pos + IP_OFF) (f OR htons IP_MF) b;
       b \<leftarrow> st16 (pos + IP_SUM) 0 b;
       c \<leftarrow> cksum_at b pos hlen;
       b \<leftarrow> st16 (pos + IP_SUM) c b;
       Some (b, f AND htons IP_MF \<noteq> 0)
     }"

text \<open>The bytes of a later fragment: the fixed header of the first fragment (at \<open>pos\<close> in the
  buffer \<open>b\<close>), the copied options and \<open>out_dlen\<close> bytes of the payload from \<open>off\<close> on.\<close>

definition load_range :: "bytes \<Rightarrow> nat \<Rightarrow> nat \<Rightarrow> bytes option" where
  "load_range b i n = (if i + n \<le> length b then Some (slice i n b) else None)"

definition frag_rest :: "nat \<Rightarrow> nat \<Rightarrow> nat \<Rightarrow> bytes \<Rightarrow> nat \<Rightarrow> nat \<Rightarrow> bool \<Rightarrow> bytes option" where
  "frag_rest pos hlen tpos b off out_dlen last_fragment =
     do {
       h \<leftarrow> load_range b pos sizeof_click_ip;
       opts \<leftarrow> map_option optcopy (load_range b (pos + sizeof_click_ip) (hlen - sizeof_click_ip));
       pl \<leftarrow> load_range b (tpos + off) out_dlen;
       f \<leftarrow> ld16 b (pos + IP_OFF);
       let out_hlen = sizeof_click_ip + length opts;
       let d = h @ opts @ pl;
       d \<leftarrow> st_ip_hl 0 (out_hlen div 4) d;
       d \<leftarrow> st16 IP_OFF (htons (ntohs f + of_nat (off div 8))) d;
       d \<leftarrow> (if last_fragment then do { g \<leftarrow> ld16 d IP_OFF; st16 IP_OFF (g AND NOT (htons IP_MF)) d }
            else Some d);
       d \<leftarrow> st16 IP_LEN (htons (of_nat (out_hlen + out_dlen))) d;
       d \<leftarrow> st16 IP_SUM 0 d;
       c \<leftarrow> cksum_at d 0 out_hlen;
       st16 IP_SUM c d
     }"

text \<open>The loop over the remaining fragments. When no progress is made the C++ loop does not end;
  the result is then \<open>None\<close>, and the theorems below show that this does not happen.\<close>

function frag_loop ::
  "env \<Rightarrow> ipfragmenter \<Rightarrow> packet \<Rightarrow> nat \<Rightarrow> nat \<Rightarrow> nat \<Rightarrow> int \<Rightarrow> bool \<Rightarrow> nat \<Rightarrow> emission list option" where
  "frag_loop e s p pos hlen tpos in_dlen had_mf off =
     (if int off < in_dlen then
        let out_hlen = sizeof_click_ip + length (optcopy (slice (pos + sizeof_click_ip) (hlen - sizeof_click_ip) (pbuffer p)));
            out_dlen = frag_dlen (fr_mtu s) out_hlen;
            out_dlen = (if out_dlen + int off > in_dlen then in_dlen - int off else out_dlen)
        in if out_dlen \<le> 0 then None
           else do {
             out \<leftarrow> (case pkt_make e (fr_headroom s) None (out_hlen + nat out_dlen) 0 of
                      None \<Rightarrow> Some []
                    | Some q \<Rightarrow>
                        do {
                          q \<leftarrow> set_network_header (int (headroom q)) out_hlen q;
                          d \<leftarrow> frag_rest pos hlen tpos (pbuffer p) off (nat out_dlen)
                                 (out_dlen + int off \<ge> in_dlen \<and> \<not> had_mf);
                          Some [(0, copy_annotations p (q\<lparr> pdata := d \<rparr>))]
                        });
             rest \<leftarrow> frag_loop e s p pos hlen tpos in_dlen had_mf (off + nat out_dlen);
             Some (out @ rest)
           }
      else Some [])"
  by pat_completeness auto
termination
  by (relation "measure (\<lambda>(e, s, p, pos, hlen, tpos, in_dlen, had_mf, off). nat (in_dlen - int off))")
     (auto simp: Let_def split: if_splits)

declare frag_loop.simps [simp del]

definition ip_fragment ::
  "env \<Rightarrow> u16 \<Rightarrow> nat \<Rightarrow> packet \<Rightarrow> ipfragmenter \<Rightarrow> (ipfragmenter \<times> emission list) option" where
  "ip_fragment e rnd noutputs p_in s =
     do {
       pos \<leftarrow> network_pos p_in;
       vhl \<leftarrow> ld8 (pbuffer p_in) pos;
       let hlen = 4 * ip_hl_of vhl;
       let first_dlen = frag_dlen (fr_mtu s) hlen;
       len \<leftarrow> ld16 (pbuffer p_in) (pos + IP_LEN);
       let in_dlen = int (unat (ntohs len)) - int hlen;
       f \<leftarrow> ld16 (pbuffer p_in) (pos + IP_OFF);
       if (f AND htons IP_DF \<noteq> 0 \<and> fr_honor_df s) \<or> first_dlen < 8
       then Some (s\<lparr> fr_drops := fr_drops s + 1 \<rparr>, checked_output_push noutputs 1 p_in)
       else case pkt_uniqueify e p_in of
         None \<Rightarrow> Some (s, [])
       | Some p \<Rightarrow>
           do {
             pos \<leftarrow> network_pos p;
             (b, had_mf) \<leftarrow> frag_first rnd pos hlen first_dlen (pbuffer p);
             (first, p) \<leftarrow> pkt_clone e (set_buffer b p);
             let surplus = int (headroom p + plen p) - int pos - int hlen - first_dlen;
             let first = pkt_take (unat (of_int surplus :: u32)) first;
             tpos \<leftarrow> trans_off p;
             rest \<leftarrow> frag_loop e s p pos hlen (nat tpos) in_dlen had_mf (nat first_dlen);
             Some (s\<lparr> fr_fragments := fr_fragments s + 1 + of_nat (length rest) \<rparr>, (0, first) # rest)
           }
     }"

definition ipfragmenter_push ::
  "env \<Rightarrow> u16 \<Rightarrow> nat \<Rightarrow> packet \<Rightarrow> ipfragmenter \<Rightarrow> (ipfragmenter \<times> emission list) option" where
  "ipfragmenter_push e rnd noutputs p s =
     do {
       n \<leftarrow> network_length p;
       if n \<le> sint (fr_mtu s) then Some (s, [(0, p)]) else ip_fragment e rnd noutputs p s
     }"

section \<open>Options\<close>

lemma optcopy_options_length: "length (optcopy_options opts) \<le> length opts"
proof (induction opts rule: measure_induct_rule [where f = length])
  case (less opts)
  note step = optcopy_options.simps [of opts]
  show ?case
  proof (cases opts)
    case (Cons t r)
    let ?n = "unat (hd r)"
    consider "t = IPOPT_NOP" | "t \<noteq> IPOPT_NOP" "t = IPOPT_EOL \<or> r = [] \<or> ?n < 2 \<or> ?n > length opts"
      | "t \<noteq> IPOPT_NOP" "\<not> (t = IPOPT_EOL \<or> r = [] \<or> ?n < 2 \<or> ?n > length opts)"
      by blast
    then show ?thesis
    proof cases
      case 1
      then have "optcopy_options opts = optcopy_options r" using Cons by (subst step) simp
      then show ?thesis using less [of r] Cons by simp
    next
      case 2
      then have "optcopy_options opts = []" using Cons by (subst step) auto
      then show ?thesis by simp
    next
      case 3
      then have "length (optcopy_options (drop ?n opts)) \<le> length opts - ?n" "?n \<le> length opts"
        using less [of "drop ?n opts"] Cons by auto
      moreover have "optcopy_options opts = (if t AND 0x80 \<noteq> 0 then take ?n opts else []) @ optcopy_options (drop ?n opts)"
        using 3 Cons by (subst step) simp
      ultimately show ?thesis by auto
    qed
  next
    case Nil
    then show ?thesis by (subst step) simp
  qed
qed

lemma optcopy_length:
  assumes "4 dvd length opts"
  shows "length (optcopy opts) \<le> length opts" and "4 dvd length (optcopy opts)"
proof -
  define n q r where "n = length (optcopy_options opts)" and "q = n div 4" and "r = n mod 4"
  have n: "n = 4 * q + r" "r < 4" by (simp_all add: q_def r_def)
  obtain k where k: "length opts = 4 * k" using assms by (rule dvdE)
  have le: "n \<le> length opts" by (simp add: n_def optcopy_options_length)
  have len: "length (optcopy opts) = 4 * q + (r + (4 - r) mod 4)"
    using n by (simp add: optcopy_def Let_def n_def r_def)
  have "r + (4 - r) mod 4 = (if r = 0 then 0 else 4)" using n(2) by simp
  then have len: "length (optcopy opts) = 4 * (if r = 0 then q else q + 1)" using len by simp
  then show "length (optcopy opts) \<le> length opts" using n k le by (auto split: if_splits)
  show "4 dvd length (optcopy opts)" using len by simp
qed

section \<open>Lengths\<close>

lemma unat_and_not_7: "unat (x AND NOT 7 :: u32) = unat x div 8 * 8"
proof -
  have "(7 :: u32) = mask 3" by (simp add: mask_eq_exp_minus_1)
  then have low: "unat (x AND 7) = unat x mod 8"
    by (simp only: take_bit_eq_mask [symmetric] unsigned_take_bit_eq) (simp add: take_bit_eq_mod)
  have "(x AND NOT 7) AND (x AND 7) = 0" by (rule bit_word_eqI) (auto simp: bit_simps)
  then have "(x AND NOT 7) + (x AND 7) = (x AND NOT 7) OR (x AND 7)" by (rule disjunctive_add_eq_or)
  also have "\<dots> = x" by (rule bit_word_eqI) (auto simp: bit_simps)
  finally have "x AND NOT 7 = x - (x AND 7)" by (simp add: algebra_simps)
  moreover have "x AND 7 \<le> x" by (simp add: word_le_nat_alt low)
  ultimately have "unat (x AND NOT 7) = unat x - unat x mod 8" by (simp add: unat_sub low)
  then show ?thesis by (simp add: minus_mod_eq_div_mult)
qed

lemma sint_small: "unat (x :: u32) < 2147483648 \<Longrightarrow> sint x = int (unat x)"
proof -
  assume "unat x < 2147483648"
  then have "unat x < 2 ^ 31" by simp
  then have "int (unat x) < 2 ^ 31" by (metis of_nat_less_iff of_nat_power of_nat_numeral)
  then have "uint x < 2 ^ 31" by (simp only: of_nat_unat)
  moreover have "- (2 ^ 31) \<le> uint x" by (rule order_trans [OF _ uint_ge_0]) simp
  ultimately have "signed_take_bit 31 (uint x) = uint x" by (intro signed_take_bit_int_eq_self)
  then show ?thesis by (simp add: sint_uint)
qed

lemma frag_dlen_value:
  assumes "hlen \<le> unat mtu" and "unat mtu < 2147483648"
  shows "frag_dlen mtu hlen = int ((unat mtu - hlen) div 8 * 8)"
proof -
  have "unat (of_nat hlen :: u32) = hlen" using assms by (intro unat_word_of_nat) simp
  then have "unat (mtu - of_nat hlen) = unat mtu - hlen"
    using assms(1) by (simp add: unat_sub word_le_nat_alt)
  then have u: "unat ((mtu - of_nat hlen) AND NOT 7) = (unat mtu - hlen) div 8 * 8" by (simp only: unat_and_not_7)
  moreover have "(unat mtu - hlen) div 8 * 8 < 2147483648"
    using assms(2) div_times_less_eq_dividend [of "unat mtu - hlen" 8] by linarith
  ultimately show ?thesis unfolding frag_dlen_def by (simp only: sint_small)
qed

section \<open>The fragment field\<close>

lemma and_htons_test: "f AND htons (2 ^ n) \<noteq> 0 \<longleftrightarrow> bit (ntohs f) n"
proof -
  have "f AND htons (2 ^ n) = 0 \<longleftrightarrow> ntohs (f AND htons (2 ^ n)) = 0" by simp
  also have "\<dots> \<longleftrightarrow> \<not> bit (ntohs f) n"
    by (simp only: ntohs_logic ntohs_htons) (rule and_exp_eq_0_iff_not_bit)
  finally show ?thesis by simp
qed

lemma frag_masks: "(IP_DF :: u16) = 2 ^ 14" "(IP_MF :: u16) = 2 ^ 13" by simp_all

definition frag_offset :: "u16 \<Rightarrow> nat" where
  "frag_offset f = 8 * (unat (ntohs f) mod 8192)"

definition more_fragments :: "u16 \<Rightarrow> bool" where
  "more_fragments f \<longleftrightarrow> bit (ntohs f) 13"

definition dont_fragment :: "u16 \<Rightarrow> bool" where
  "dont_fragment f \<longleftrightarrow> bit (ntohs f) 14"

lemma frag_tests: "f AND htons IP_DF \<noteq> 0 \<longleftrightarrow> dont_fragment f" "f AND htons IP_MF \<noteq> 0 \<longleftrightarrow> more_fragments f"
  unfolding frag_masks and_htons_test by (simp_all add: dont_fragment_def more_fragments_def)

lemma take_bit_13: "unat (w :: u16) mod 8192 = unat (take_bit 13 w)"
  by (simp only: unsigned_take_bit_eq) (simp add: take_bit_eq_mod)

lemma take_bit_flag:
  "n \<le> m \<Longrightarrow> take_bit n (w AND NOT (2 ^ m)) = take_bit n w" "n \<le> m \<Longrightarrow> take_bit n (w OR 2 ^ m) = take_bit n w"
  for w :: u16
  by (rule bit_word_eqI, auto simp: bit_simps)+

lemma frag_clear_df:
  "frag_offset (f AND NOT (htons IP_DF)) = frag_offset f"
  "more_fragments (f AND NOT (htons IP_DF)) = more_fragments f"
proof -
  have "take_bit 13 (ntohs f AND NOT (2 ^ 14)) = take_bit 13 (ntohs f)" by (rule take_bit_flag) simp
  then show "frag_offset (f AND NOT (htons IP_DF)) = frag_offset f"
    unfolding frag_masks by (simp add: frag_offset_def ntohs_logic ntohs_not take_bit_13)
  show "more_fragments (f AND NOT (htons IP_DF)) = more_fragments f"
    unfolding frag_masks by (simp add: more_fragments_def ntohs_logic ntohs_not bit_simps)
qed

lemma frag_set_mf:
  "frag_offset (f OR htons IP_MF) = frag_offset f" "more_fragments (f OR htons IP_MF)"
proof -
  have "take_bit 13 (ntohs f OR 2 ^ 13) = take_bit 13 (ntohs f)" by (rule take_bit_flag) simp
  then show "frag_offset (f OR htons IP_MF) = frag_offset f"
    unfolding frag_masks by (simp add: frag_offset_def ntohs_logic take_bit_13)
  show "more_fragments (f OR htons IP_MF)"
    unfolding frag_masks by (simp add: more_fragments_def ntohs_logic bit_simps)
qed

lemma frag_clear_mf:
  "frag_offset (f AND NOT (htons IP_MF)) = frag_offset f" "\<not> more_fragments (f AND NOT (htons IP_MF))"
proof -
  have "take_bit 13 (ntohs f AND NOT (2 ^ 13)) = take_bit 13 (ntohs f)" by (rule take_bit_flag) simp
  then show "frag_offset (f AND NOT (htons IP_MF)) = frag_offset f"
    unfolding frag_masks by (simp add: frag_offset_def ntohs_logic ntohs_not take_bit_13)
  show "\<not> more_fragments (f AND NOT (htons IP_MF))"
    unfolding frag_masks by (simp add: more_fragments_def ntohs_logic ntohs_not bit_simps)
qed

text \<open>Adding to the offset as a 16-bit number, as long as the sum fits into its 13 bits.\<close>

lemma frag_advance:
  assumes "frag_offset f + 8 * k < 65536"
  shows "frag_offset (htons (ntohs f + of_nat k)) = frag_offset f + 8 * k"
    and "more_fragments (htons (ntohs f + of_nat k)) = more_fragments f"
proof -
  define q r where "q = unat (ntohs f) div 8192" and "r = unat (ntohs f) mod 8192"
  have u: "unat (ntohs f) = 8192 * q + r" by (simp add: q_def r_def)
  have k: "r + k < 8192" using assms by (simp add: frag_offset_def r_def)
  have q: "q < 8" using unat_less_65536 [of "ntohs f"] by (simp add: q_def less_mult_imp_div_less)
  have "unat (of_nat k :: u16) = k" using k by (intro unat_word_of_nat) simp
  then have s: "unat (ntohs f + of_nat k) = 8192 * q + (r + k)"
    using u k q by (simp add: unat_word_ariths)
  then have m: "unat (ntohs f + of_nat k) mod 8192 = r + k" "unat (ntohs f + of_nat k) div 8192 = q"
    using k by simp_all
  then show "frag_offset (htons (ntohs f + of_nat k)) = frag_offset f + 8 * k"
    by (simp add: frag_offset_def r_def)
  have b: "bit w 13 \<longleftrightarrow> odd (unat w div 8192)" for w :: u16
  proof -
    have "bit w 13 \<longleftrightarrow> bit (unat w) 13" by (simp add: bit_unsigned_iff)
    then show ?thesis by (simp add: bit_iff_odd)
  qed
  show "more_fragments (htons (ntohs f + of_nat k)) = more_fragments f"
    by (simp add: more_fragments_def b m q_def)
qed

section \<open>The first fragment\<close>

definition first_bytes :: "u16 \<Rightarrow> nat \<Rightarrow> bytes \<Rightarrow> bytes" where
  "first_bytes rnd F d =
     (let f = get16 d IP_OFF;
          d1 = (if dont_fragment f then upd16 IP_OFF (f AND NOT (htons IP_DF)) (upd16 IP_ID rnd d) else d);
          d2 = upd16 IP_SUM 0 (upd16 IP_OFF (get16 d1 IP_OFF OR htons IP_MF)
                 (upd16 IP_LEN (htons (of_nat (ip_hlen d + F))) d1))
      in upd16 IP_SUM (click_in_cksum (slice 0 (ip_hlen d) d2)) d2)"

text \<open>What every fragment inherits from the packet.\<close>

definition same_datagram :: "bytes \<Rightarrow> bytes \<Rightarrow> bool" where
  "same_datagram d d' \<longleftrightarrow> ip_tos (get_ip d' 0) = ip_tos (get_ip d 0) \<and> ip_ttl (get_ip d' 0) = ip_ttl (get_ip d 0) \<and>
     ip_p (get_ip d' 0) = ip_p (get_ip d 0) \<and> ip_src (get_ip d' 0) = ip_src (get_ip d 0) \<and>
     ip_dst (get_ip d' 0) = ip_dst (get_ip d 0) \<and>
     (\<not> dont_fragment (ip_off (get_ip d 0)) \<longrightarrow> ip_id (get_ip d' 0) = ip_id (get_ip d 0))"

lemma first_bytes_fields:
  fixes rnd :: u16 and F :: nat
  assumes "20 \<le> length d" and "20 \<le> ip_hlen d" and "ip_hlen d \<le> length d"
  defines "x \<equiv> first_bytes rnd F d"
  shows "length x = length d" "get8 x 0 = get8 d 0" "get16 x IP_LEN = htons (of_nat (ip_hlen d + F))"
    "frag_offset (get16 x IP_OFF) = frag_offset (get16 d IP_OFF)" "more_fragments (get16 x IP_OFF)"
    "drop 20 x = drop 20 d" "same_datagram d x" "cksum_ok x 0 (ip_hlen d)"
proof -
  define f where "f = get16 d IP_OFF"
  define d1 where "d1 = (if dont_fragment f then upd16 IP_OFF (f AND NOT (htons IP_DF)) (upd16 IP_ID rnd d) else d)"
  define d2 where "d2 = upd16 IP_SUM 0 (upd16 IP_OFF (get16 d1 IP_OFF OR htons IP_MF)
                 (upd16 IP_LEN (htons (of_nat (ip_hlen d + F))) d1))"
  have x: "x = upd16 IP_SUM (click_in_cksum (slice 0 (ip_hlen d) d2)) d2"
    by (simp add: x_def first_bytes_def Let_def d2_def d1_def f_def)
  have d1: "length d1 = length d" "get8 d1 0 = get8 d 0" "frag_offset (get16 d1 IP_OFF) = frag_offset f"
    "drop 20 d1 = drop 20 d" "same_datagram d d1"
    using assms(1) by (simp_all add: d1_def f_def same_datagram_def get_ip_0 mem_simps frag_clear_df)
  then have len: "length d2 = length d" by (simp add: d2_def)
  show "length x = length d" "get8 x 0 = get8 d 0" "get16 x IP_LEN = htons (of_nat (ip_hlen d + F))"
    "frag_offset (get16 x IP_OFF) = frag_offset (get16 d IP_OFF)" "more_fragments (get16 x IP_OFF)"
    "drop 20 x = drop 20 d" "same_datagram d x"
    using d1 assms(1) by (simp_all add: x d2_def mem_simps frag_set_mf f_def same_datagram_def get_ip_0)
  have "cksum_ok (upd16 (0 + IP_SUM) (click_in_cksum (slice 0 (ip_hlen d) d2)) d2) 0 (ip_hlen d)"
    using assms(2,3) len ip_hlen_bounds [of d] d1(1)
    by (intro cksum_fill) (simp_all add: d2_def mem_simps)
  then show "cksum_ok x 0 (ip_hlen d)" by (simp add: x)
qed

lemma frag_first_result:
  assumes "ip_valid p"
  defines "d \<equiv> pdata p"
  shows "frag_first rnd (headroom p) (ip_hlen d) (int F) (pbuffer p) =
    Some (hroom p @ first_bytes rnd F d @ troom p, more_fragments (get16 d IP_OFF))"
proof -
  note v = ip_valid_facts [OF assms(1), folded d_def]
  have of: "(of_int (int (ip_hlen d) + int F) :: u16) = of_nat (ip_hlen d + F)" by simp
  show ?thesis
  proof (cases "dont_fragment (get16 d IP_OFF)")
    case True
    then show ?thesis
      using v(1,3) unfolding frag_first_def frag_tests
      by (simp add: pbuffer_def d_def [symmetric] of first_bytes_def Let_def mem_simps frag_tests frag_clear_df
        del: add_2_eq_Suc')
  next
    case False
    then show ?thesis
      using v(1,3) unfolding frag_first_def frag_tests
      by (simp add: pbuffer_def d_def [symmetric] of first_bytes_def Let_def mem_simps frag_tests
        del: add_2_eq_Suc')
  qed
qed

section \<open>The other fragments\<close>

definition out_options :: "bytes \<Rightarrow> bytes" where
  "out_options d = optcopy (slice 20 (ip_hlen d - 20) d)"

definition rest_bytes :: "bytes \<Rightarrow> nat \<Rightarrow> nat \<Rightarrow> bool \<Rightarrow> bytes" where
  "rest_bytes d off dl last_fragment =
     (let hl = 20 + length (out_options d);
          d0 = slice 0 20 d @ out_options d @ slice (ip_hlen d + off) dl d;
          d1 = upd8 0 (of_nat (16 * (unat (get8 d 0) div 16) + hl div 4 mod 16)) d0;
          d2 = upd16 IP_OFF (htons (ntohs (get16 d IP_OFF) + of_nat (off div 8))) d1;
          d3 = (if last_fragment then upd16 IP_OFF (get16 d2 IP_OFF AND NOT (htons IP_MF)) d2 else d2);
          d4 = upd16 IP_SUM 0 (upd16 IP_LEN (htons (of_nat (hl + dl))) d3)
      in upd16 IP_SUM (click_in_cksum (slice 0 hl d4)) d4)"

lemma out_options_length:
  assumes "20 \<le> ip_hlen d" and "ip_hlen d \<le> length d"
  shows "20 + length (out_options d) \<le> ip_hlen d" and "4 dvd 20 + length (out_options d)"
proof -
  have "length (slice 20 (ip_hlen d - 20) d) = ip_hlen d - 20" using assms by simp
  moreover have "4 dvd ip_hlen d - 20" using assms(1) by (simp add: ip_hlen_def dvd_diff_nat)
  ultimately have "4 dvd length (slice 20 (ip_hlen d - 20) d)" by simp
  from optcopy_length [OF this] assms show "20 + length (out_options d) \<le> ip_hlen d" "4 dvd 20 + length (out_options d)"
    by (simp_all add: out_options_def)
qed

lemma rest_bytes_fields:
  fixes last_fragment :: bool and off dl :: nat and d :: bytes
  assumes "20 \<le> ip_hlen d" and "ip_hlen d + off + dl \<le> length d" and "8 dvd off"
    and "frag_offset (get16 d IP_OFF) + off < 65536" and "ip_v_of (get8 d 0) = 4"
  defines "x \<equiv> rest_bytes d off dl last_fragment" and "hl \<equiv> 20 + length (out_options d)"
  shows "length x = hl + dl" "ip_v_of (get8 x 0) = 4" "ip_hlen x = hl" "get16 x IP_LEN = htons (of_nat (hl + dl))"
    "frag_offset (get16 x IP_OFF) = frag_offset (get16 d IP_OFF) + off"
    "more_fragments (get16 x IP_OFF) \<longleftrightarrow> more_fragments (get16 d IP_OFF) \<and> \<not> last_fragment"
    "drop hl x = slice (ip_hlen d + off) dl d" "cksum_ok x 0 hl"
    "same_datagram c d \<Longrightarrow> same_datagram c x"
proof -
  let ?b = "of_nat (16 * (unat (get8 d 0) div 16) + hl div 4 mod 16) :: byte"
  define d0 where "d0 = slice 0 20 d @ out_options d @ slice (ip_hlen d + off) dl d"
  define g where "g = htons (ntohs (get16 d IP_OFF) + of_nat (off div 8))"
  define d1 where "d1 = upd16 IP_OFF g (upd8 0 ?b d0)"
  define d2 where "d2 = (if last_fragment then upd16 IP_OFF (g AND NOT (htons IP_MF)) d1 else d1)"
  define d3 where "d3 = upd16 IP_SUM 0 (upd16 IP_LEN (htons (of_nat (hl + dl))) d2)"
  have hl: "hl \<le> ip_hlen d" "4 dvd hl" "20 \<le> hl" "hl \<le> 60"
    using out_options_length [OF assms(1)] assms(2) ip_hlen_bounds(1) [of d] by (simp_all add: hl_def)
  have ld: "20 \<le> length d" using assms(1,2) by linarith
  have len0: "length d0 = hl + dl" using assms(1,2) ld by (simp add: d0_def hl_def)
  have len: "length d1 = hl + dl" "length d2 = hl + dl" "length d3 = hl + dl"
    using len0 by (simp_all add: d1_def d2_def d3_def)
  have x: "x = upd16 IP_SUM (click_in_cksum (slice 0 hl d3)) d3"
    using hl len0 by (simp add: x_def rest_bytes_def Let_def d3_def d2_def d1_def d0_def g_def hl_def mem_simps)
  show "length x = hl + dl" by (simp add: x len)
  have "unat (get8 d 0) div 16 = 4" using assms(5) by (simp add: ip_v_of_def)
  moreover obtain k where k: "hl = 4 * k" using hl(2) by (rule dvdE)
  moreover have "k < 16" using k hl(4) by linarith
  ultimately have "?b = of_nat (64 + k)" by simp
  moreover have "unat (of_nat (64 + k) :: byte) = 64 + k" using \<open>k < 16\<close> by (intro unat_word_of_nat) simp
  moreover have "64 + k = k + 4 * 16" by simp
  then have "(64 + k) mod 16 = k" using \<open>k < 16\<close> by (simp only: mod_mult_self1 mod_less)
  ultimately have b: "ip_v_of ?b = 4" "4 * ip_hl_of ?b = hl"
    using \<open>k < 16\<close> k by (simp_all add: ip_v_of_def ip_hl_of_def)
  have "get8 x 0 = ?b" using len0 hl(3) by (simp add: x d3_def d2_def d1_def mem_simps)
  then show "ip_v_of (get8 x 0) = 4" "ip_hlen x = hl" using b by (simp_all add: ip_hlen_def)
  show "get16 x IP_LEN = htons (of_nat (hl + dl))" using len hl(3) by (simp add: x d3_def mem_simps)
  obtain j where j: "off = 8 * j" using assms(3) by (rule dvdE)
  have off: "get16 x IP_OFF = (if last_fragment then g AND NOT (htons IP_MF) else g)"
    using len hl(3) by (simp add: x d3_def d2_def d1_def mem_simps len0)
  have "frag_offset g = frag_offset (get16 d IP_OFF) + off" "more_fragments g = more_fragments (get16 d IP_OFF)"
    using frag_advance [of "get16 d IP_OFF" j] assms(4) j by (simp_all add: g_def)
  then show "frag_offset (get16 x IP_OFF) = frag_offset (get16 d IP_OFF) + off"
    "more_fragments (get16 x IP_OFF) \<longleftrightarrow> more_fragments (get16 d IP_OFF) \<and> \<not> last_fragment"
    using off by (simp_all add: frag_clear_mf)
  have "drop hl d0 = slice (ip_hlen d + off) dl d" using ld by (simp add: d0_def hl_def)
  then show "drop hl x = slice (ip_hlen d + off) dl d"
    using hl(3) by (simp add: x d3_def d2_def d1_def mem_simps)
  have "cksum_ok (upd16 (0 + IP_SUM) (click_in_cksum (slice 0 hl d3)) d3) 0 hl"
    using hl len by (intro cksum_fill) (simp_all add: d3_def mem_simps)
  then show "cksum_ok x 0 hl" by (simp add: x)
  have front: "get8 d0 i = get8 d i" if "i < 20" for i
    using that ld by (simp add: d0_def get8_def slice_def nth_append)
  have front16: "get16 d0 i = get16 d i" "get32 d0 i = get32 d i" if "i + 4 \<le> 20" for i
    using that ld by (simp_all add: d0_def get16_def get32_def slice_def nth_append)
  assume "same_datagram c d"
  then show "same_datagram c x"
    using front front16 len0 hl(3) by (simp add: same_datagram_def get_ip_0 x d3_def d2_def d1_def mem_simps)
qed

lemma frag_rest_result:
  assumes "hroom p @ d @ troom p = b" and "20 \<le> ip_hlen d" and "ip_hlen d + off + dl \<le> length d"
  shows "frag_rest (headroom p) (ip_hlen d) (headroom p + ip_hlen d) b off dl l = Some (rest_bytes d off dl l)"
proof -
  have ld: "20 \<le> length d" using assms(2,3) by linarith
  have slice: "load_range b (headroom p) 20 = Some (slice 0 20 d)"
      "load_range b (headroom p + 20) (ip_hlen d - 20) = Some (slice 20 (ip_hlen d - 20) d)"
      "load_range b (headroom p + ip_hlen d + off) dl = Some (slice (ip_hlen d + off) dl d)"
      "ld16 b (headroom p + IP_OFF) = Some (get16 d IP_OFF)"
    using assms ld unfolding assms(1) [symmetric] load_range_def by (simp_all add: mem_simps add.assoc)
  let ?d0 = "slice 0 20 d @ out_options d @ slice (ip_hlen d + off) dl d"
  have d0: "length ?d0 = 20 + length (out_options d) + dl" "get8 ?d0 0 = get8 d 0"
    using assms(2,3) ld by (simp_all add: get8_def slice_def nth_append)
  then show ?thesis
    unfolding frag_rest_def slice by (simp add: out_options_def [symmetric] Let_def rest_bytes_def mem_simps)
qed

section \<open>Tiling\<close>

text \<open>The fragments seen by the receiver: offset, more-fragments flag and payload. They tile the
  payload \<open>pl\<close> from offset \<open>k\<close> on: each continues where the previous one ends, all but the last
  are non-empty, have a length divisible by 8 and the flag set, and the last carries the flag
  \<open>mf\<close> of the original packet.\<close>

definition frag_view :: "packet \<Rightarrow> nat \<times> bool \<times> bytes" where
  "frag_view q = (let d = pdata q in
     (frag_offset (ip_off (get_ip d 0)), more_fragments (ip_off (get_ip d 0)), drop (ip_hlen d) d))"

fun tiles :: "nat \<Rightarrow> bool \<Rightarrow> bytes \<Rightarrow> (nat \<times> bool \<times> bytes) list \<Rightarrow> bool" where
  "tiles k mf pl [] \<longleftrightarrow> False"
| "tiles k mf pl ((i, m, d) # vs) \<longleftrightarrow>
     i = k \<and>
     (if vs = [] then m = mf \<and> d = pl
      else m \<and> d \<noteq> [] \<and> 8 dvd length d \<and> take (length d) pl = d \<and> tiles (k + length d) mf (drop (length d) pl) vs)"

lemma tiles_concat: "tiles k mf pl vs \<Longrightarrow> concat (map (\<lambda>v. snd (snd v)) vs) = pl"
proof (induction k mf pl vs rule: tiles.induct)
  case (2 k mf pl i m d vs)
  then show ?case by (cases "vs = []") (auto, metis append_take_drop_id)
qed simp

text \<open>A packet made by the loop.\<close>

lemma copy_annotations_data [simp]: "pdata (copy_annotations p q) = pdata q"
  by (simp add: copy_annotations_def)

lemma frag_packet_valid:
  assumes "pkt_make e h None (length x) 0 = Some q" and "set_network_header (int (headroom q)) (ip_hlen x) q = Some r"
    and "20 \<le> ip_hlen x" and "ip_hlen x \<le> length x" and "length x < 65536" and "ip_v_of (get8 x 0) = 4"
    and "get16 x IP_LEN = htons (of_nat (length x))" and "cksum_ok x 0 (ip_hlen x)"
  shows "ip_valid (copy_annotations p (r\<lparr> pdata := x \<rparr>))"
proof -
  have "unat (of_nat (length x) :: u16) = length x" using assms(5) by (intro unat_word_of_nat) simp
  moreover have "r = q\<lparr> net_off := Some (int (headroom q)), trans_off := Some (int (headroom q + ip_hlen x)) \<rparr>"
    using assms(2) by (simp add: set_network_header_def split: if_splits)
  ultimately show ?thesis
    using assms by (simp add: ip_valid_def copy_annotations_def ip_header_ok_def)
qed

text \<open>The packet whose payload is being cut, after its header became that of the first fragment.\<close>

definition frag_source :: "bytes \<Rightarrow> bytes \<Rightarrow> bool" where
  "frag_source c d \<longleftrightarrow>
     20 \<le> ip_hlen d \<and> ip_hlen d \<le> length d \<and> length d < 65536 \<and> ip_v_of (get8 d 0) = 4 \<and>
     more_fragments (get16 d IP_OFF) \<and> same_datagram c d \<and>
     frag_offset (get16 d IP_OFF) + (length d - ip_hlen d) \<le> 65536"

lemma frag_loop_fragment:
  fixes e :: env and p :: packet and l :: bool
  assumes "alloc_ok e" and "frag_source c (pdata p)" and "0 < dl" and "ip_hlen (pdata p) + off + dl \<le> plen p" and "8 dvd off"
  defines "d \<equiv> pdata p" and "hl \<equiv> 20 + length (out_options (pdata p))"
  obtains q where "(case pkt_make e (fr_headroom s) None (hl + dl) 0 of
        None \<Rightarrow> Some []
      | Some q \<Rightarrow> do {
          q \<leftarrow> set_network_header (int (headroom q)) hl q;
          d \<leftarrow> frag_rest (headroom p) (ip_hlen d) (headroom p + ip_hlen d) (pbuffer p) off dl l;
          Some [(0, copy_annotations p (q\<lparr> pdata := d \<rparr>))]
        }) = Some [(0 :: nat, q)]"
    and "ip_valid q" and "plen q = hl + dl" and "same_datagram c (pdata q)"
    and "frag_view q = (frag_offset (get16 d IP_OFF) + off, \<not> l, slice (ip_hlen d + off) dl d)"
proof -
  have src: "20 \<le> ip_hlen d" "ip_hlen d \<le> length d" "length d < 65536" "ip_v_of (get8 d 0) = 4"
    "more_fragments (get16 d IP_OFF)" "same_datagram c d"
    "frag_offset (get16 d IP_OFF) + (length d - ip_hlen d) \<le> 65536"
    using assms(2) unfolding frag_source_def d_def by blast+
  have len: "ip_hlen d + off + dl \<le> length d" using assms(4) by (simp add: d_def)
  have "frag_offset (get16 d IP_OFF) + off < 65536" using src(7) len assms(3) by linarith
  note x = rest_bytes_fields [OF src(1) len assms(5) this src(4), where last_fragment = l, folded hl_def [folded d_def]]
  let ?x = "rest_bytes d off dl l"
  have hl: "hl \<le> ip_hlen d" "20 \<le> hl"
    using out_options_length(1) [OF src(1,2)] by (simp_all add: hl_def d_def)
  have fr: "frag_rest (headroom p) (ip_hlen d) (headroom p + ip_hlen d) (pbuffer p) off dl l = Some ?x"
    by (rule frag_rest_result [OF _ src(1) len]) (simp add: pbuffer_def d_def)
  obtain q where q: "pkt_make e (fr_headroom s) None (hl + dl) 0 = Some q" "headroom q = fr_headroom s" "plen q = hl + dl"
    by (rule pkt_make_Some [OF assms(1)])
  let ?r = "q\<lparr> net_off := Some (int (headroom q)), trans_off := Some (int (headroom q + hl)) \<rparr>"
  have r: "set_network_header (int (headroom q)) hl q = Some ?r"
    using q(3) by (simp add: set_network_header_def pbuffer_def)
  let ?q = "copy_annotations p (?r\<lparr> pdata := ?x \<rparr>)"
  have "ip_valid ?q"
    using q(1) r x hl src(3) len by (intro frag_packet_valid) simp_all
  moreover have "frag_view ?q = (frag_offset (get16 d IP_OFF) + off, \<not> l, slice (ip_hlen d + off) dl d)"
    using x src(5) by (simp add: frag_view_def get_ip_0 Let_def)
  moreover have "same_datagram c ?x" by (rule x(9) [OF src(6)])
  ultimately show ?thesis
    using q(1) r fr x(1) by (intro that [of ?q]) simp_all
qed

lemma frag_loop_tiles:
  fixes e :: env and p :: packet and s :: ipfragmenter
  assumes "alloc_ok e" and "frag_source c (pdata p)"
    and "ip_hlen (pdata p) + 8 \<le> unat (fr_mtu s)" and "unat (fr_mtu s) < 2147483648"
  defines "d \<equiv> pdata p" and "n \<equiv> ip_hlen (pdata p)"
  shows "off \<le> length d - n \<Longrightarrow> 8 dvd off \<or> off = length d - n \<Longrightarrow>
    \<exists>qs. frag_loop e s p (headroom p) n (headroom p + n) (int (length d - n)) mf off = Some (map (Pair 0) qs) \<and>
      (\<forall>q \<in> set qs. ip_valid q \<and> plen q \<le> unat (fr_mtu s) \<and> same_datagram c (pdata q)) \<and>
      (if off < length d - n then tiles (frag_offset (get16 d IP_OFF) + off) mf (drop (n + off) d) (map frag_view qs)
       else qs = [])"
proof (induction "length d - n - off" arbitrary: off rule: less_induct)
  case less
  let ?P = "length d - n" and ?m = "unat (fr_mtu s)"
  define hl where "hl = 20 + length (out_options d)"
  define G where "G = (?m - hl) div 8 * 8"
  note step = frag_loop.simps [of e s p "headroom p" n "headroom p + n" "int ?P" mf off]
  show ?case
  proof (cases "off < ?P")
    case False
    then show ?thesis by (subst step) simp
  next
    case True
    then have dvd: "8 dvd off" using less.prems(2) by simp
    have src: "20 \<le> n" "n \<le> length d" using assms(2) by (simp_all add: frag_source_def d_def n_def)
    have hl: "hl \<le> n" using out_options_length(1) [of d] src by (simp add: hl_def n_def d_def)
    have opts: "optcopy (slice (headroom p + 20) (n - 20) (pbuffer p)) = out_options d"
      using src by (simp add: out_options_def pbuffer_def d_def n_def mem_simps)
    have dlen: "frag_dlen (fr_mtu s) hl = int G"
      unfolding G_def using assms(3,4) hl by (intro frag_dlen_value) (simp_all add: n_def)
    have "8 \<le> ?m - hl" using assms(3) hl by (simp add: n_def)
    then have G: "8 \<le> G" "8 dvd G" "hl + G \<le> ?m"
      using div_times_less_eq_dividend [of "?m - hl" 8] div_le_mono [of 8 "?m - hl" 8] by (simp_all add: G_def)
    define dl where "dl = (if off + G > ?P then ?P - off else G)"
    have dl: "0 < dl" "off + dl \<le> ?P" "dl \<le> G" using True G(1) by (auto simp: dl_def)
    let ?l = "off + dl \<ge> ?P \<and> \<not> mf"
    have le: "ip_hlen (pdata p) + off + dl \<le> plen p" using dl(2) src True by (simp add: n_def d_def)
    obtain q where q: "(case pkt_make e (fr_headroom s) None (hl + dl) 0 of
          None \<Rightarrow> Some []
        | Some q \<Rightarrow> do {
            q \<leftarrow> set_network_header (int (headroom q)) hl q;
            d \<leftarrow> frag_rest (headroom p) n (headroom p + n) (pbuffer p) off dl ?l;
            Some [(0, copy_annotations p (q\<lparr> pdata := d \<rparr>))]
          }) = Some [(0 :: nat, q)]"
      "ip_valid q" "plen q = hl + dl" "same_datagram c (pdata q)"
      "frag_view q = (frag_offset (get16 d IP_OFF) + off, \<not> ?l, slice (n + off) dl d)"
      by (rule frag_loop_fragment [OF assms(1,2) dl(1) le dvd, where s = s and l = ?l, folded d_def, folded hl_def n_def [folded d_def]])
    have next_off: "off + dl \<le> ?P" "8 dvd off + dl \<or> off + dl = ?P"
      using dl dvd G(2) by (auto simp: dl_def)
    have "?P - (off + dl) < ?P - off" using True dl(1) by linarith
    then obtain qs where qs: "frag_loop e s p (headroom p) n (headroom p + n) (int ?P) mf (off + dl) = Some (map (Pair 0) qs)"
      "\<forall>q \<in> set qs. ip_valid q \<and> plen q \<le> ?m \<and> same_datagram c (pdata q)"
      "if off + dl < ?P then tiles (frag_offset (get16 d IP_OFF) + (off + dl)) mf (drop (n + (off + dl)) d) (map frag_view qs)
       else qs = []"
      using less.hyps [OF _ next_off] by blast
    have eq: "frag_loop e s p (headroom p) n (headroom p + n) (int ?P) mf off = Some (map (Pair 0) (q # qs))"
    proof -
      have "(if int G + int off > int ?P then int ?P - int off else int G) = int dl"
        using True by (auto simp: dl_def)
      moreover have "int dl + int off \<ge> int ?P \<longleftrightarrow> off + dl \<ge> ?P" by linarith
      ultimately show ?thesis
        using True dl(1) q(1) qs(1)
        by (subst step) (simp only: opts Let_def hl_def [symmetric] dlen of_nat_less_iff if_True nat_int of_nat_le_0_iff
            not_gr0 [symmetric] not_not if_False bind.simps append.simps list.map prod.case not_True_eq_False)
    qed
    have slice: "slice (n + off) dl d = take dl (drop (n + off) d)" "length (slice (n + off) dl d) = dl"
      using dl(2) True by (simp_all add: slice_def)
    have "tiles (frag_offset (get16 d IP_OFF) + off) mf (drop (n + off) d) (map frag_view (q # qs))"
    proof (cases "off + dl < ?P")
      case True
      then have "dl = G" "qs \<noteq> []" using qs(3) by (auto simp: dl_def split: if_splits)
      moreover have comm: "G + (n + off) = n + (off + G)" by simp
      moreover have "\<not> length d \<le> n + off" using True by auto
      ultimately show ?thesis
        using True qs(3) q(5) slice dl(1) G(2) by (simp add: add.assoc comm)
    next
      case False
      then show ?thesis using qs(3) q(5) slice dl(2) True by (simp add: slice_def)
    qed
    moreover have "plen q \<le> ?m" using q(3) dl(3) G(3) by linarith
    ultimately show ?thesis using eq q(2,4) qs(2) True by (intro exI [of _ "q # qs"]) simp
  qed
qed

section \<open>The element\<close>

lemma ip_fragment_first:
  assumes "alloc_ok e" and "ip_valid p"
    and "ip_hlen (pdata p) + 8 \<le> unat (fr_mtu s)" and "unat (fr_mtu s) < 2147483648" and "unat (fr_mtu s) < plen p"
    and "dont_fragment (get16 (pdata p) IP_OFF) \<Longrightarrow> \<not> fr_honor_df s"
  defines "d \<equiv> pdata p" and "n \<equiv> ip_hlen (pdata p)"
  defines "F \<equiv> (unat (fr_mtu s) - n) div 8 * 8"
  obtains t where "ip_fragment e rnd k p s =
      do {
        let q = p\<lparr> troom := t, pdata := first_bytes rnd F d, pshared := True \<rparr>;
        rest \<leftarrow> frag_loop e s q (headroom p) n (headroom p + n) (int (length d - n))
               (more_fragments (get16 d IP_OFF)) F;
        Some (s\<lparr> fr_fragments := fr_fragments s + 1 + of_nat (length rest) \<rparr>,
          (0, pkt_take (length d - n - F) q) # rest)
      }"
proof -
  note v = ip_valid_facts [OF assms(2), folded d_def]
  have len: "unat (ntohs (get16 d IP_LEN)) = length d" and n: "n = ip_hlen d" "n \<le> length d"
    using assms(2) v by (simp_all add: ip_valid_def d_def n_def)
  have F: "8 \<le> F" "n + F \<le> unat (fr_mtu s)"
    using assms(3) div_times_less_eq_dividend [of "unat (fr_mtu s) - n" 8] div_le_mono [of 8 "unat (fr_mtu s) - n" 8]
    by (simp_all add: F_def n_def)
  have dlen: "frag_dlen (fr_mtu s) n = int F"
    unfolding F_def using assms(3,4) by (intro frag_dlen_value) (simp_all add: n_def)
  obtain t where t: "pkt_uniqueify e p = Some (p\<lparr> troom := t, pshared := False \<rparr>)"
    by (rule pkt_uniqueify_ok [OF assms(1)])
  let ?r = "p\<lparr> troom := t, pshared := False \<rparr>"
  have r: "ip_valid ?r" "pdata ?r = d" "headroom ?r = headroom p" "hroom ?r = hroom p" "troom ?r = t"
    using assms(2) by (simp_all add: d_def)
  have ff: "frag_first rnd (headroom p) n (int F) (pbuffer ?r) =
      Some (hroom p @ first_bytes rnd F d @ t, more_fragments (get16 d IP_OFF))"
    using frag_first_result [OF r(1), of rnd F] r by (simp add: n(1))
  let ?x = "first_bytes rnd F d"
  have lx: "length ?x = length d"
    using first_bytes_fields(1) [of d rnd F] v n by simp
  have sb: "set_buffer (hroom p @ ?x @ t) ?r = ?r\<lparr> pdata := ?x \<rparr>"
    using set_buffer_data [of ?x ?r] lx by (simp add: d_def)
  have ld: "ld8 (pbuffer p) (headroom p) = Some (get8 d 0)"
      "ld16 (pbuffer p) (headroom p + IP_LEN) = Some (get16 d IP_LEN)"
      "ld16 (pbuffer p) (headroom p + IP_OFF) = Some (get16 d IP_OFF)"
    using v(1) by (simp_all add: pbuffer_def d_def mem_simps del: add_2_eq_Suc')
  have small: "length d < 65536" using len unat_less_65536 [of "ntohs (get16 d IP_LEN)"] by linarith
  have sur: "unat (of_int (int (headroom p + length d) - int (headroom p) - int n - int F) :: u32) = length d - n - F"
  proof -
    have "int (headroom p + length d) - int (headroom p) - int n - int F = int (length d - n - F)"
      using F(2) assms(5) by (simp add: d_def of_nat_diff)
    then show ?thesis using small by (simp only: of_int_of_nat_eq) (intro unat_word_of_nat, simp)
  qed
  have nofrag: "\<not> ((get16 d IP_OFF AND htons IP_DF \<noteq> 0 \<and> fr_honor_df s) \<or> int F < 8)"
    using assms(6) F(1) unfolding frag_tests by (auto simp: d_def)
  have tr: "trans_off p = Some (int (headroom p + n))" using assms(2) by (simp add: ip_valid_def n_def)
  have "int (unat (ntohs (get16 d IP_LEN))) - int n = int (length d - n)"
    unfolding len using n(2) by (simp add: of_nat_diff)
  then have "ip_fragment e rnd k p s =
      do {
        let q = p\<lparr> troom := t, pdata := first_bytes rnd F d, pshared := True \<rparr>;
        rest \<leftarrow> frag_loop e s q (headroom p) n (headroom p + n) (int (length d - n))
               (more_fragments (get16 d IP_OFF)) F;
        Some (s\<lparr> fr_fragments := fr_fragments s + 1 + of_nat (length rest) \<rparr>,
          (0, pkt_take (length d - n - F) q) # rest)
      }"
    using t ff sb ld nofrag tr sur lx dlen network_pos_valid [OF assms(2)] network_pos_valid [OF r(1)] assms(1)
    unfolding ip_fragment_def
    by (auto simp: pkt_clone_def Let_def ip_hlen_def [symmetric] n(1) [symmetric] d_def [symmetric] nat_int_add)
  then show ?thesis by (rule that)
qed

text \<open>The first fragment is the packet itself with the new header, cut after \<open>F\<close> bytes of payload.\<close>

lemma first_fragment:
  fixes p :: packet and rnd :: u16 and F :: nat and t :: bytes
  defines "d \<equiv> pdata p" and "n \<equiv> ip_hlen (pdata p)"
  defines "q \<equiv> pkt_take (plen p - n - F) (p\<lparr> troom := t, pdata := first_bytes rnd F d, pshared := True \<rparr>)"
  assumes "ip_valid p" and "0 < F" and "n + F < plen p"
  shows "ip_valid q" and "plen q = n + F" and "same_datagram d (pdata q)"
    and "frag_view q = (frag_offset (get16 d IP_OFF), True, take F (drop n d))"
proof -
  note v = ip_valid_facts [OF assms(4), folded d_def n_def]
  let ?x = "first_bytes rnd F d"
  note x = first_bytes_fields [of d rnd F, OF v(1) v(2,3) [unfolded n_def, folded d_def]]
  have n: "n = ip_hlen d" by (simp add: n_def d_def)
  have len: "length d < 65536"
    using assms(4) unat_less_65536 [of "ntohs (get16 d IP_LEN)"] by (simp add: ip_valid_def d_def)
  have q: "pdata q = take (n + F) ?x" using assms(6) x(1) by (auto simp: q_def d_def pkt_take_def Let_def)
  then show pl: "plen q = n + F" using assms(6) x(1) by (simp add: d_def)
  have get: "get8 (pdata q) 0 = get8 d 0" "get16 (pdata q) IP_LEN = htons (of_nat (n + F))"
      "get16 (pdata q) IP_OFF = get16 ?x IP_OFF" "ip_hlen (pdata q) = n"
    using x(2,3) v(2) assms(5) unfolding q by (simp_all add: get8_def get16_def ip_hlen_def n)
  show "same_datagram d (pdata q)"
    using x(7) v(2) assms(5) unfolding q by (simp add: same_datagram_def get_ip_0 get8_def get16_def get32_def)
  have "unat (of_nat (n + F) :: u16) = n + F" using assms(6) len by (intro unat_word_of_nat) (simp add: d_def)
  moreover have "slice 0 n (pdata q) = slice 0 n ?x" unfolding q by (simp add: slice_def min_absorb1)
  ultimately have "ip_header_ok (pdata q)" "unat (ntohs (get16 (pdata q) IP_LEN)) = n + F"
    using pl get v(2,4) x(8) by (simp_all add: ip_header_ok_def cksum_ok_def n)
  moreover have "net_off q = net_off p" "trans_off q = trans_off p" "hroom q = hroom p"
    by (simp_all add: q_def pkt_take_def Let_def)
  ultimately show "ip_valid q" using assms(4) pl get by (simp add: ip_valid_def n_def)
  have "drop n ?x = drop (n - 20) (drop 20 ?x)" using v(2) by simp
  also have "\<dots> = drop n d" using v(2) unfolding x(6) by simp
  finally have "drop n ?x = drop n d" .
  then show "frag_view q = (frag_offset (get16 d IP_OFF), True, take F (drop n d))"
    using get x(4,5) unfolding frag_view_def Let_def by (simp add: get_ip_0) (simp add: q drop_take)
qed

lemma ipfragmenter_push_fragments:
  assumes "alloc_ok e" and "ip_valid p"
    and "ip_hlen (pdata p) + 8 \<le> unat (fr_mtu s)" and "unat (fr_mtu s) < 2147483648" and "unat (fr_mtu s) < plen p"
    and "\<not> (dont_fragment (get16 (pdata p) IP_OFF) \<and> fr_honor_df s)"
    and "frag_offset (get16 (pdata p) IP_OFF) + (plen p - ip_hlen (pdata p)) \<le> 65536"
  shows "\<exists>s' qs. ipfragmenter_push e rnd k p s = Some (s', map (Pair 0) qs) \<and>
    (\<forall>q \<in> set qs. ip_valid q \<and> plen q \<le> unat (fr_mtu s) \<and> same_datagram (pdata p) (pdata q)) \<and>
    tiles (frag_offset (get16 (pdata p) IP_OFF)) (more_fragments (get16 (pdata p) IP_OFF))
      (drop (ip_hlen (pdata p)) (pdata p)) (map frag_view qs) \<and>
    concat (map (\<lambda>q. drop (ip_hlen (pdata q)) (pdata q)) qs) = drop (ip_hlen (pdata p)) (pdata p)"
proof -
  define d n F where "d = pdata p" and "n = ip_hlen d" and "F = (unat (fr_mtu s) - n) div 8 * 8"
  note v = ip_valid_facts [OF assms(2), folded d_def n_def]
  let ?x = "first_bytes rnd F d" and ?mf = "more_fragments (get16 d IP_OFF)" and ?k = "frag_offset (get16 d IP_OFF)"
  note x = first_bytes_fields [of d rnd F, OF v(1) v(2,3) [unfolded n_def]]
  have hx: "ip_hlen ?x = n" using x(2) by (simp add: ip_hlen_def n_def)
  have small: "length d < 65536"
    using assms(2) unat_less_65536 [of "ntohs (get16 d IP_LEN)"] by (simp add: ip_valid_def d_def)
  have F: "8 \<le> F" "n + F \<le> unat (fr_mtu s)" "8 dvd F" "F < length d - n"
    using assms(3,5) div_times_less_eq_dividend [of "unat (fr_mtu s) - n" 8] div_le_mono [of 8 "unat (fr_mtu s) - n" 8]
    by (simp_all add: F_def n_def d_def)
  obtain t where frag: "ip_fragment e rnd k p s =
      do {
        let q = p\<lparr> troom := t, pdata := ?x, pshared := True \<rparr>;
        rest \<leftarrow> frag_loop e s q (headroom p) n (headroom p + n) (int (length d - n)) ?mf F;
        Some (s\<lparr> fr_fragments := fr_fragments s + 1 + of_nat (length rest) \<rparr>, (0, pkt_take (length d - n - F) q) # rest)
      }"
    by (rule ip_fragment_first [OF assms(1-5), of rnd k, folded d_def, folded n_def, folded F_def])
      (use assms(6) in \<open>auto simp: d_def\<close>)
  let ?q = "p\<lparr> troom := t, pdata := ?x, pshared := True \<rparr>"
  let ?f = "pkt_take (length d - n - F) ?q"
  have src: "frag_source d (pdata ?q)"
    using x v small assms(7) hx by (simp add: frag_source_def d_def n_def)
  obtain qs where qs: "frag_loop e s ?q (headroom p) n (headroom p + n) (int (length d - n)) ?mf F = Some (map (Pair 0) qs)"
    "\<forall>q \<in> set qs. ip_valid q \<and> plen q \<le> unat (fr_mtu s) \<and> same_datagram d (pdata q)"
    "tiles (?k + F) ?mf (drop (n + F) ?x) (map frag_view qs)"
    using frag_loop_tiles [OF assms(1) src, of s F ?mf] assms(3,4) F x(1,4) hx by (auto simp: n_def d_def)
  have f: "ip_valid ?f" "plen ?f = n + F" "same_datagram d (pdata ?f)" "frag_view ?f = (?k, True, take F (drop n d))"
    using first_fragment [OF assms(2), where F = F and t = t and rnd = rnd] F(1,4) by (simp_all add: n_def d_def)
  have "length (take F (drop n d)) = F" "take F (drop n d) \<noteq> []" "qs \<noteq> []"
    using F(1,4) qs(3) by auto
  moreover have "drop (n + F) ?x = drop F (drop n d)"
    using arg_cong [OF x(6), of "drop (n - 20 + F)"] v(2) by (simp add: add.commute)
  ultimately have ti: "tiles ?k ?mf (drop n d) (map frag_view (?f # qs))"
    using qs(3) F(3) f(4) by simp
  have cat: "concat (map (\<lambda>q. drop (ip_hlen (pdata q)) (pdata q)) (?f # qs)) = drop n d"
    using tiles_concat [OF ti] by (simp add: frag_view_def Let_def comp_def)
  have "network_length p = Some (int (length d))" "sint (fr_mtu s) = int (unat (fr_mtu s))"
    using assms(2,4) by (simp_all add: network_length_def ip_valid_def d_def sint_small)
  moreover have "\<not> int (plen p) \<le> int (unat (fr_mtu s))" using assms(5) by linarith
  ultimately have "ipfragmenter_push e rnd k p s = ip_fragment e rnd k p s"
    unfolding ipfragmenter_push_def d_def by (simp only: bind.simps if_False)
  then have "ipfragmenter_push e rnd k p s =
      Some (s\<lparr> fr_fragments := fr_fragments s + 1 + of_nat (length qs) \<rparr>, map (Pair 0) (?f # qs))"
    using frag qs(1) by simp
  then show ?thesis
    using cat qs(2) f(1-3) F(2) ti by (intro exI [of _ "?f # qs"] exI conjI) (simp_all add: n_def d_def)
qed

text \<open>C31: \<^verbatim>\<open>IPFragmenter\<close> on a packet with a valid IP header that is longer than the MTU and may be
  fragmented: the element terminates and emits fragments on output 0 only, each a packet with
  a valid header of its own, no longer than the MTU and with the addresses, protocol,
  time-to-live and (unless the don't-fragment flag was overridden) the identification of the
  original. The fragments tile the payload of the original at the offsets their headers
  state, and only the last one lacks the more-fragments flag, if the original lacked it; so
  putting the payloads together gives back the original payload.\<close>

theorem ipfragmenter_push_tiles:
  assumes "alloc_ok e" and "ip_valid p"
    and "ip_hlen (pdata p) + 8 \<le> unat (fr_mtu s)" and "unat (fr_mtu s) < 2147483648" and "unat (fr_mtu s) < plen p"
    and "\<not> (dont_fragment (get16 (pdata p) IP_OFF) \<and> fr_honor_df s)"
    and "frag_offset (get16 (pdata p) IP_OFF) + (plen p - ip_hlen (pdata p)) \<le> 65536"
  shows "\<exists>s' qs. ipfragmenter_push e rnd k p s = Some (s', map (Pair 0) qs) \<and>
    (\<forall>q \<in> set qs. ip_valid q \<and> plen q \<le> unat (fr_mtu s) \<and> same_datagram (pdata p) (pdata q)) \<and>
    tiles (frag_offset (get16 (pdata p) IP_OFF)) (more_fragments (get16 (pdata p) IP_OFF))
      (drop (ip_hlen (pdata p)) (pdata p)) (map frag_view qs) \<and>
    concat (map (\<lambda>q. drop (ip_hlen (pdata q)) (pdata q)) qs) = drop (ip_hlen (pdata p)) (pdata p)"
  by (rule ipfragmenter_push_fragments [OF assms])

section \<open>Witness\<close>

text \<open>A 60-byte packet and an MTU of 40: three fragments.\<close>

theorem ipfragmenter_push_tiles_witness:
  "\<exists>s' qs. ipfragmenter_push env0 0 2 (sample_ip 0x45 9)
      \<lparr> fr_mtu = 40, fr_honor_df = True, fr_headroom = 28, fr_drops = 0, fr_fragments = 0 \<rparr> = Some (s', map (Pair 0) qs) \<and>
    (\<forall>q \<in> set qs. ip_valid q \<and> plen q \<le> 40) \<and>
    concat (map (\<lambda>q. drop (ip_hlen (pdata q)) (pdata q)) qs) = drop 20 (sample_ip_data 0x45 9)"
proof -
  have off: "get16 (sample_ip_data 0x45 9) IP_OFF = 0"
    by (simp add: sample_ip_data_def sample_ip_bytes_def mem_simps)
  have "ip_hlen (sample_ip_data 0x45 9) = 20" by (simp add: ip_hlen_def)
  moreover have "\<not> dont_fragment 0" "frag_offset 0 = 0" by (simp_all add: dont_fragment_def frag_offset_def)
  ultimately show ?thesis
    using ipfragmenter_push_tiles [of env0 "sample_ip 0x45 9"
        "\<lparr> fr_mtu = 40, fr_honor_df = True, fr_headroom = 28, fr_drops = 0, fr_fragments = 0 \<rparr>" 0 2]
      sample_ip_ok(2) [of "0x45" 9] off
    by simp blast
qed

end
