(* ===== verification/Click_Forwarding.thy ===== *)
theory Click_Forwarding
  imports Click_IPGWOptions Click_IPFragmenter
begin

text \<open>
  The forwarding path of the routers: between the routing table and the ARP querier of an
  interface, \<^verbatim>\<open>ha.click\<close> and \<^verbatim>\<open>fa.click\<close> chain
  \<^verbatim>\<open>DropBroadcasts -> PaintTee -> IPGWOptions -> FixIPSrc -> DecIPTTL -> IPFragmenter(1500)\<close>. The
  path is composed with \<open>stage_then\<close>, which follows the main outputs; the second outputs, which
  lead to \<^verbatim>\<open>ICMPError\<close> elements, leave the path.

  The elements meet the locales \<open>ip_keeper\<close> and \<open>ip_stage\<close>, which are closed under composition,
  so that only valid IP packets come out of the path; for a packet without IP options we show
  in addition that the path delivers it: with its time-to-live decremented, in fragments that
  fit the link when it is too long.
\<close>

section \<open>The program\<close>

text \<open>One outgoing interface: its paint color, its address, and the elements with a state.\<close>

record forward_port =
  fp_color :: byte
  fp_addr :: ipaddr
  fp_broadcasts :: u32
  fp_gw :: ipgwoptions
  fp_ttl_drops :: u32
  fp_frag :: ipfragmenter

definition fp_ttl :: "forward_port \<Rightarrow> decipttl" where
  "fp_ttl f = \<lparr> dt_drops = fp_ttl_drops f, dt_active = True, dt_multicast = True \<rparr>"

text \<open>The path up to the fragmenter, and the whole path. \<open>ms\<close> is the time of day that a timestamp option
  records, \<open>rnd\<close> the random identifier for a packet whose DF bit is ignored.\<close>

definition forward_path :: "forward_port \<Rightarrow> u32 \<Rightarrow> env \<Rightarrow> packet \<Rightarrow> emission list option" where
  "forward_path f ms =
     stage_then (\<lambda>e p. Some (snd (dropbroadcasts_action 1 (fp_broadcasts f) p)))
       (stage_then (\<lambda>e. painttee_action e (fp_color f))
         (stage_then (\<lambda>e p. map_option snd (ipgwoptions_action e ms 2 p (fp_gw f)))
           (stage_then (\<lambda>e. fixipsrc_action e (fp_addr f))
             (\<lambda>e p. map_option snd (decipttl_action e 2 p (fp_ttl f))))))"

definition forward :: "forward_port \<Rightarrow> u32 \<Rightarrow> u16 \<Rightarrow> env \<Rightarrow> packet \<Rightarrow> emission list option" where
  "forward f ms rnd =
     stage_then (forward_path f ms) (\<lambda>e p. map_option snd (ipfragmenter_push e rnd 2 p (fp_frag f)))"

section \<open>The contracts composed\<close>

interpretation fix_ttl: ip_stage_pair "\<lambda>e. fixipsrc_action e (fp_addr f)"
  "\<lambda>e p. map_option snd (decipttl_action e 2 p (fp_ttl f))" for f
  unfolding fp_ttl_def ..

interpretation options_fix_ttl: ip_keeper_pair "\<lambda>e p. map_option snd (ipgwoptions_action e ms 2 p (fp_gw f))"
  "stage_then (\<lambda>e. fixipsrc_action e (fp_addr f)) (\<lambda>e p. map_option snd (decipttl_action e 2 p (fp_ttl f)))" for f ms
  ..

interpretation tee_options: ip_keeper_pair "\<lambda>e. painttee_action e (fp_color f)"
  "stage_then (\<lambda>e p. map_option snd (ipgwoptions_action e ms 2 p (fp_gw f)))
    (stage_then (\<lambda>e. fixipsrc_action e (fp_addr f)) (\<lambda>e p. map_option snd (decipttl_action e 2 p (fp_ttl f))))" for f ms
  ..

interpretation forwarding: ip_keeper_pair "\<lambda>e p. Some (snd (dropbroadcasts_action 1 (fp_broadcasts f) p))"
  "stage_then (\<lambda>e. painttee_action e (fp_color f))
    (stage_then (\<lambda>e p. map_option snd (ipgwoptions_action e ms 2 p (fp_gw f)))
      (stage_then (\<lambda>e. fixipsrc_action e (fp_addr f)) (\<lambda>e p. map_option snd (decipttl_action e 2 p (fp_ttl f)))))" for f ms
  ..

text \<open>Whatever IP packet enters the forwarding path of an interface, with any options, paint or
  annotations: if the elements leave a packet for the fragmenter, its IP header is valid, with
  a verifying checksum and the length of the packet.\<close>

theorem forward_path_valid:
  assumes "ip_valid p" and "forward_path f ms e p = Some out" and "(0, q) \<in> set out"
  shows "ip_valid q"
  using assms unfolding forward_path_def by (rule forwarding.seq.stage_valid)

section \<open>Delivery of packets without options\<close>

lemma stage_then_single: "f e p = Some [(0, q)] \<Longrightarrow> stage_then f g e p = map_option id (g e q)"
  by (cases "g e q") (simp_all add: stage_then_def main_outputs_def)

lemma painttee_main:
  assumes "alloc_ok e"
  obtains out sh where "painttee_action e c p = Some out" "main_outputs out = [p\<lparr> pshared := sh \<rparr>]"
proof (cases "paint_anno p = c")
  case True
  then show ?thesis using that [of _ True] assms by (simp add: painttee_action_def pkt_clone_def main_outputs_def)
next
  case False
  have "p\<lparr> pshared := pshared p \<rparr> = p" by simp
  then show ?thesis using that [of _ "pshared p"] False by (simp add: painttee_action_def main_outputs_def)
qed

lemma forward_path_plain:
  assumes e: "alloc_ok e" and p: "ip_valid p" "ip_hlen (pdata p) = 20" "packet_type_anno p \<notin> {BROADCAST, MULTICAST}"
    "fix_ip_src_anno p = 0" "\<not> get8 (pdata p) IP_TTL \<le> 1"
  obtains t where "forward_path f ms e p = Some [(0, p\<lparr> pshared := False, troom := t, pdata := dec_ttl_bytes (pdata p) \<rparr>)]"
proof -
  obtain out sh where tee: "painttee_action e (fp_color f) p = Some out" "main_outputs out = [p\<lparr> pshared := sh \<rparr>]"
    by (rule painttee_main [OF e])
  let ?p = "p\<lparr> pshared := sh \<rparr>"
  have v: "ip_valid ?p" using p(1) by simp
  have gw: "ipgwoptions_action e ms 2 ?p (fp_gw f) = Some (fp_gw f, [(0, ?p)])"
    using ipgwoptions_valid_positions [OF v] p(2) by (simp add: ipgwoptions_action_def ip_hlen_def)
  have fx: "fixipsrc_action e (fp_addr f) ?p = Some [(0, ?p)]"
    using p(4) by (simp add: fixipsrc_action_valid [OF v])
  obtain t where t: "pkt_uniqueify e ?p = Some (?p\<lparr> troom := t, pshared := False \<rparr>)" by (rule pkt_uniqueify_ok [OF e])
  have ttl: "decipttl_action e 2 ?p (fp_ttl f) =
      Some (fp_ttl f, [(0, p\<lparr> pshared := False, troom := t, pdata := dec_ttl_bytes (pdata p) \<rparr>)])"
    using p(5) t by (simp add: decipttl_action_valid [OF v] fp_ttl_def)
  have "forward_path f ms e p = Some [(0, p\<lparr> pshared := False, troom := t, pdata := dec_ttl_bytes (pdata p) \<rparr>)]"
    using p(3) tee gw fx ttl
    by (simp add: forward_path_def stage_then_def dropbroadcasts_action_def main_outputs_def [of "[_]"])
  then show ?thesis by (rule that)
qed

text \<open>C18: The forwarding path delivers: a packet without IP options that is not a link-level broadcast and
  whose time-to-live is above one leaves on the main output as valid IP packets of at most
  1500 bytes with the time-to-live decremented and the same addresses and protocol, whose payloads
  put together are the payload of the packet -- provided it fits the MTU, or may be fragmented
  and its fragment offsets fit the field.\<close>

theorem forward_delivers:
  assumes "alloc_ok e" and "ip_valid p" and "ip_hlen (pdata p) = 20" and "packet_type_anno p \<notin> {BROADCAST, MULTICAST}"
    and "fix_ip_src_anno p = 0" and "1 < ip_ttl (get_ip (pdata p) 0)" and "fr_mtu (fp_frag f) = 1500"
    and "plen p \<le> 1500 \<or> \<not> (dont_fragment (get16 (pdata p) IP_OFF) \<and> fr_honor_df (fp_frag f)) \<and>
      frag_offset (get16 (pdata p) IP_OFF) + (plen p - 20) \<le> 65536"
  shows "\<exists>qs. forward f ms rnd e p = Some (map (Pair 0) qs) \<and>
    (\<forall>q \<in> set qs. ip_valid q \<and> plen q \<le> 1500 \<and> ip_ttl (get_ip (pdata q) 0) = ip_ttl (get_ip (pdata p) 0) - 1 \<and>
      ip_src (get_ip (pdata q) 0) = ip_src (get_ip (pdata p) 0) \<and> ip_dst (get_ip (pdata q) 0) = ip_dst (get_ip (pdata p) 0) \<and>
      ip_p (get_ip (pdata q) 0) = ip_p (get_ip (pdata p) 0)) \<and>
    concat (map (\<lambda>q. drop (ip_hlen (pdata q)) (pdata q)) qs) = drop 20 (pdata p)"
proof -
  have ttl: "\<not> get8 (pdata p) IP_TTL \<le> 1" using assms(6) by (simp add: get_ip_0)
  obtain t where t: "forward_path f ms e p = Some [(0, p\<lparr> pshared := False, troom := t, pdata := dec_ttl_bytes (pdata p) \<rparr>)]"
    by (rule forward_path_plain [OF assms(1-5) ttl])
  let ?q = "p\<lparr> pshared := False, troom := t, pdata := dec_ttl_bytes (pdata p) \<rparr>"
  have v: "ip_valid ?q" using ip_valid_dec_ttl [of "p\<lparr> pshared := False, troom := t \<rparr>"] assms(2) ttl by simp
  have len: "20 \<le> length (pdata p)" using ip_valid_facts(1) [OF assms(2)] by simp
  have fields: "ip_ttl (get_ip (pdata ?q) 0) = ip_ttl (get_ip (pdata p) 0) - 1" "ip_src (get_ip (pdata ?q) 0) = ip_src (get_ip (pdata p) 0)"
    "ip_dst (get_ip (pdata ?q) 0) = ip_dst (get_ip (pdata p) 0)" "ip_p (get_ip (pdata ?q) 0) = ip_p (get_ip (pdata p) 0)"
    "get16 (pdata ?q) IP_OFF = get16 (pdata p) IP_OFF" "ip_hlen (pdata ?q) = 20" "plen ?q = plen p" "drop 20 (pdata ?q) = drop 20 (pdata p)"
    using len assms(3) by (simp_all add: dec_ttl_bytes_def get_ip_0 ip_hlen_def mem_simps)
  have fwd: "forward f ms rnd e p = map_option snd (ipfragmenter_push e rnd 2 ?q (fp_frag f))"
    using t by (simp add: forward_def stage_then_single option.map_id)
  show ?thesis
  proof (cases "plen p \<le> 1500")
    case True
    have "network_length ?q = Some (int (plen p))" using v fields(7) by (simp add: network_length_def ip_valid_def)
    then have "ipfragmenter_push e rnd 2 ?q (fp_frag f) = Some (fp_frag f, [(0, ?q)])"
      using True assms(7) by (simp add: ipfragmenter_push_def)
    then show ?thesis using True v fields fwd by (intro exI [of _ "[?q]"]) simp
  next
    case False
    then obtain s' qs where "ipfragmenter_push e rnd 2 ?q (fp_frag f) = Some (s', map (Pair 0) qs)"
      "\<forall>q \<in> set qs. ip_valid q \<and> plen q \<le> unat (fr_mtu (fp_frag f)) \<and> same_datagram (pdata ?q) (pdata q)"
      "concat (map (\<lambda>q. drop (ip_hlen (pdata q)) (pdata q)) qs) = drop (ip_hlen (pdata ?q)) (pdata ?q)"
      using ipfragmenter_push_fragments [OF assms(1) v, of "fp_frag f" rnd 2] assms(7,8) fields(5-7) by auto
    then show ?thesis
      using fwd fields assms(7) by (intro exI [of _ qs]) (auto simp: same_datagram_def)
  qed
qed

section \<open>Witnesses\<close>

definition sample_port :: forward_port where
  "sample_port = \<lparr> fp_color = 1, fp_addr = 5, fp_broadcasts = 0,
     fp_gw = \<lparr> gw_preferred_addr = 5, gw_my_addrs = [5], gw_drops = 0 \<rparr>, fp_ttl_drops = 0,
     fp_frag = \<lparr> fr_mtu = 1500, fr_honor_df = True, fr_headroom = 28, fr_drops = 0, fr_fragments = 0 \<rparr> \<rparr>"

lemma sample_ip_plain:
  "ip_hlen (pdata (sample_ip 0x45 64)) = 20" "ip_ttl (get_ip (pdata (sample_ip 0x45 64)) 0) = 64"
  "packet_type_anno (sample_ip 0x45 64) = HOST" "fix_ip_src_anno (sample_ip 0x45 64) = 0"
  by (simp_all add: ip_hlen_def get_ip_0) (simp_all add: sample_ip_def pkt_make_def alloc_data_def env0_def Let_def)

theorem forward_delivers_witness:
  "\<exists>qs. forward sample_port 0 0 env0 (sample_ip 0x45 64) = Some (map (Pair 0) qs) \<and>
    (\<forall>q \<in> set qs. ip_valid q \<and> ip_ttl (get_ip (pdata q) 0) = 63)"
  using forward_delivers [of env0 "sample_ip 0x45 64" sample_port 0 0] sample_ip_ok(2) [of "0x45" 64] sample_ip_plain
  by (auto simp: sample_port_def)

theorem forward_path_valid_witness:
  "\<exists>q. forward_path sample_port 0 env0 (sample_ip 0x45 64) = Some [(0, q)] \<and> ip_valid q"
proof -
  note v = sample_ip_ok(2) [of "0x45" 64, simplified]
  have ttl: "\<not> get8 (pdata (sample_ip 0x45 64)) IP_TTL \<le> 1"
    using sample_ip_plain(2) by (simp add: get_ip_0 word_le_nat_alt)
  obtain q where q: "forward_path sample_port 0 env0 (sample_ip 0x45 64) = Some [(0, q)]"
    by (rule forward_path_plain [OF env0_ok v sample_ip_plain(1) _ sample_ip_plain(4) ttl, of sample_port 0])
      (use sample_ip_plain(3) in simp_all)
  then show ?thesis using forward_path_valid [OF v q] by simp
qed

end
