(* ===== verification/Click_ICMPError.thy ===== *)
theory Click_ICMPError
  imports Click_Forwarding
begin

unbundle bit_operations_syntax

text \<open>
  \<^verbatim>\<open>ICMPError\<close> (\<^verbatim>\<open>src/click/elements/icmp/icmperror.cc\<close>): the error messages that the routers send
  for the packets that leave the forwarding path by a side output. The main theorems say when the element stays silent, that
  its messages are valid, quote the packet they complain about and go back to its sender over the
  reversed source route, and that a message never causes another one.

  The reads of the IP options are not limited to the header: they are modelled as reads of the packet's
  buffer, from the position \<open>ip\<close> of the header.
\<close>

section \<open>Configuration\<close>

definition IP_PROTO_ICMP :: byte where "IP_PROTO_ICMP = 1"
definition IP_OFFMASK :: u16 where "IP_OFFMASK = 0x1FFF"

definition ICMP_UNREACH :: int where "ICMP_UNREACH = 3"
definition ICMP_UNREACH_NEEDFRAG :: int where "ICMP_UNREACH_NEEDFRAG = 4"
definition ICMP_SOURCEQUENCH :: int where "ICMP_SOURCEQUENCH = 4"
definition ICMP_REDIRECT :: int where "ICMP_REDIRECT = 5"
definition ICMP_TIMXCEED :: int where "ICMP_TIMXCEED = 11"
definition ICMP_PARAMPROB :: int where "ICMP_PARAMPROB = 12"
definition ICMP_PARAMPROB_ERRATPTR :: int where "ICMP_PARAMPROB_ERRATPTR = 0"

record icmperror =
  ie_src_ip :: ipaddr
  ie_type :: int
  ie_code :: int
  ie_bad_addrs :: "ipaddr list"
  ie_mtu :: u32
  ie_pmtu :: u32
  ie_use_fix_anno :: bool

text \<open>The arguments after parsing; the optional ones are missing when they were not given.\<close>

record icmperror_args =
  ia_src :: ipaddr
  ia_type :: int
  ia_code :: "string option"
  ia_bad_addrs :: "ipaddr list option"
  ia_mtu :: "u32 option"
  ia_pmtu :: "u32 option"
  ia_set_fix_anno :: "bool option"

definition ie_is_error_type :: "int \<Rightarrow> bool" where
  "ie_is_error_type type \<longleftrightarrow>
     type = ICMP_UNREACH \<or> type = ICMP_SOURCEQUENCH \<or> type = ICMP_REDIRECT \<or> type = ICMP_TIMXCEED \<or>
     type = ICMP_PARAMPROB"

text \<open>\<open>query_int\<close> stands for the database of names for integers, asked for the name of a code of the
  given type.\<close>

definition icmperror_configure ::
  "(int \<Rightarrow> string \<Rightarrow> int option) \<Rightarrow> icmperror_args option \<Rightarrow> icmperror \<Rightarrow> int \<times> icmperror" where
  "icmperror_configure query_int conf s =
     (case conf of
        None \<Rightarrow> (- 1, s)
      | Some a \<Rightarrow>
          if ia_type a < 0 \<or> ia_type a > 255 then (- 22, s)
          else if \<not> ie_is_error_type (ia_type a) then (- 22, s)
          else case query_int (ia_type a) (case ia_code a of None \<Rightarrow> ''0'' | Some c \<Rightarrow> c) of
            None \<Rightarrow> (- 22, s)
          | Some code \<Rightarrow>
              if code < 0 \<or> code > 255 then (- 22, s)
              else (0, \<lparr> ie_src_ip = ia_src a, ie_type = ia_type a, ie_code = code,
                         ie_bad_addrs = (case ia_bad_addrs a of None \<Rightarrow> [] | Some as \<Rightarrow> as),
                         ie_mtu = (case ia_mtu a of None \<Rightarrow> 576 | Some m \<Rightarrow> m),
                         ie_pmtu = (case ia_pmtu a of None \<Rightarrow> 0 | Some m \<Rightarrow> m),
                         ie_use_fix_anno = (case ia_set_fix_anno a of None \<Rightarrow> True | Some b \<Rightarrow> b) \<rparr>))"

text \<open>The write handlers.\<close>

datatype ie_handler = IE_SRC ipaddr | IE_MTU u32 | IE_PMTU u32

fun ie_write_handler :: "ie_handler \<Rightarrow> icmperror \<Rightarrow> icmperror" where
  "ie_write_handler (IE_SRC a) s = s\<lparr> ie_src_ip := a \<rparr>"
| "ie_write_handler (IE_MTU m) s = s\<lparr> ie_mtu := m \<rparr>"
| "ie_write_handler (IE_PMTU m) s = s\<lparr> ie_pmtu := m \<rparr>"

section \<open>When to stay silent\<close>

definition ie_unicast :: "icmperror \<Rightarrow> ipaddr \<Rightarrow> bool" where
  "ie_unicast s a =
     (let ha = ntohl a
      in if ha = 0xffffffff then False
         else if ha AND 0xf0000000 = 0xe0000000 then False
         else if a \<in> set (ie_bad_addrs s) then False
         else True)"

definition ie_valid_source :: "icmperror \<Rightarrow> ipaddr \<Rightarrow> bool" where
  "ie_valid_source s a =
     (let ha = ntohl a; net = drop_bit 24 ha AND 0xff
      in if \<not> ie_unicast s a then False
         else if net = 0 then False
         else if net = 127 then False
         else if net AND 0xf0 = 0xf0 then False
         else True)"

text \<open>The scan for a source route option, from offset \<open>oi\<close> of a header of \<open>hlen\<close> bytes: the offset of the
  option, if there is one. \<open>oa\<close> is the buffer from the header on.\<close>

function ie_source_route :: "bytes \<Rightarrow> nat \<Rightarrow> nat \<Rightarrow> nat option option" where
  "ie_source_route oa hlen oi =
     (if oi < hlen then
        do {
          type \<leftarrow> ld8 oa oi;
          if type = IPOPT_NOP then ie_source_route oa hlen (oi + 1)
          else if type = IPOPT_EOL then Some None
          else do {
            xlen \<leftarrow> map_option unat (ld8 oa (oi + 1));
            if xlen < 2 \<or> oi + xlen > hlen then Some None
            else do {
              found \<leftarrow> (if type = IPOPT_LSRR \<or> type = IPOPT_SSRR then
                          do {
                            ptr \<leftarrow> map_option unat (ld8 oa (oi + 2));
                            Some (ptr \<ge> 4 \<and> ptr mod 4 = 0 \<and> ptr \<le> xlen + 1)
                          }
                        else Some False);
              if found then Some (Some oi) else ie_source_route oa hlen (oi + xlen)
            }
          }
        }
      else Some None)"
  by pat_completeness auto
termination by (relation "measure (\<lambda>(oa, hlen, oi). hlen - oi)") auto

declare ie_source_route.simps [simp del]

definition ie_valid_source_route :: "bytes \<Rightarrow> nat \<Rightarrow> nat option option" where
  "ie_valid_source_route b ip =
     do {
       vhl \<leftarrow> ld8 b ip;
       ie_source_route (drop ip b) (4 * ip_hl_of vhl) sizeof_click_ip
     }"

text \<open>The tests of RFC 1812 4.3.2.7. The type of an ICMP message is read through the pointer to the
  transport header.\<close>

definition ie_silent :: "icmperror \<Rightarrow> nat \<Rightarrow> packet \<Rightarrow> bool option" where
  "ie_silent s ip p =
     do {
       let b = pbuffer p;
       vhl \<leftarrow> ld8 b ip;
       let hlen = 4 * ip_hl_of vhl;
       proto \<leftarrow> ld8 b (ip + IP_P);
       about_error \<leftarrow> (if proto = IP_PROTO_ICMP then
                         if hlen + 4 > plen p then Some True
                         else do {
                           k \<leftarrow> trans_off p;
                           if k < 0 then None
                           else map_option (\<lambda>t. ie_is_error_type (int (unat t))) (ld8 b (nat k))
                         }
                       else Some False);
       if about_error then Some True
       else do {
         dst \<leftarrow> ld32 b (ip + IP_DST);
         if \<not> ie_unicast s dst then Some True
         else if packet_type_anno p = BROADCAST \<or> packet_type_anno p = MULTICAST then Some True
         else do {
           src \<leftarrow> ld32 b (ip + IP_SRC);
           if \<not> ie_valid_source s src then Some True
           else do {
             off \<leftarrow> ld16 b (ip + IP_OFF);
             Some (off AND htons IP_OFFMASK \<noteq> 0)
           }
         }
       }
     }"

text \<open>The decision about the source route, when there is one: no message at all, a message that ignores it,
  or a message that takes it back.\<close>

definition ie_route_choice :: "icmperror \<Rightarrow> packet \<Rightarrow> bytes \<Rightarrow> nat option \<Rightarrow> nat option option option" where
  "ie_route_choice s p oa source_route =
     (case source_route of
        None \<Rightarrow> Some (Some None)
      | Some sr \<Rightarrow>
          if ie_type s = ICMP_REDIRECT then Some None
          else do {
            let pointer = unat (icmp_paramprob_anno p);
            ignore \<leftarrow> (if ie_type s = ICMP_PARAMPROB \<and> ie_code s = ICMP_PARAMPROB_ERRATPTR \<and> sr \<le> pointer
                      then map_option (\<lambda>l. pointer < sr + unat l) (ld8 oa (sr + 1)) else Some False);
            Some (Some (if ignore then None else Some sr))
          })"

section \<open>The message\<close>

text \<open>The fixed part of the IP header, at position \<open>nip\<close> of the buffer of the new packet.\<close>

definition ie_fill_ip :: "icmperror \<Rightarrow> u32 \<Rightarrow> ipaddr \<Rightarrow> nat \<Rightarrow> bytes \<Rightarrow> bytes option" where
  "ie_fill_ip s ident src nip b =
     do {
       b \<leftarrow> st_ip_v nip 4 b;
       b \<leftarrow> st8 (nip + IP_TOS) 0 b;
       b \<leftarrow> st16 (nip + IP_ID) (htons (ucast ident)) b;
       b \<leftarrow> st16 (nip + IP_OFF) 0 b;
       b \<leftarrow> st8 (nip + IP_TTL) 200 b;
       b \<leftarrow> st8 (nip + IP_P) IP_PROTO_ICMP b;
       b \<leftarrow> st16 (nip + IP_SUM) 0 b;
       b \<leftarrow> st32 (nip + IP_SRC) (ie_src_ip s) b;
       st32 (nip + IP_DST) src b
     }"

text \<open>The addresses of the route in reverse: \<open>oo\<close> is the offset of the next one from the start of the option
  at \<open>sr\<close>, \<open>k\<close> the position it goes to.\<close>

function ie_copy_route :: "bytes \<Rightarrow> nat \<Rightarrow> int \<Rightarrow> nat \<Rightarrow> bytes \<Rightarrow> bytes option" where
  "ie_copy_route oa sr oo k b =
     (if oo \<ge> 3 then
        do {
          hop \<leftarrow> ld_range oa (sr + nat oo) 4;
          b \<leftarrow> st_range k hop b;
          ie_copy_route oa sr (oo - 4) (k + 4) b
        }
      else Some b)"
  by pat_completeness auto
termination by (relation "measure (\<lambda>(oa, sr, oo, k, b). nat oo)") auto

declare ie_copy_route.simps [simp del]

text \<open>The options, and the header length that goes with them.\<close>

definition ie_fill_options :: "bytes \<Rightarrow> nat option \<Rightarrow> nat \<Rightarrow> bytes \<Rightarrow> (nat \<times> bytes) option" where
  "ie_fill_options oa source_route nip b =
     (case source_route of
        None \<Rightarrow> do { b \<leftarrow> st_ip_hl nip (sizeof_click_ip div 4) b; Some (sizeof_click_ip div 4, b) }
      | Some sr \<Rightarrow>
          do {
            let k = nip + sizeof_click_ip;
            ptr \<leftarrow> map_option unat (ld8 oa (sr + 2));
            let olen = ptr - 1;
            type \<leftarrow> ld8 oa sr;
            b \<leftarrow> st8 k type b;
            b \<leftarrow> st8 (k + 1) (of_nat olen) b;
            b \<leftarrow> st8 (k + 2) 4 b;
            b \<leftarrow> st8 (k + olen) IPOPT_EOL b;
            b \<leftarrow> ie_copy_route oa sr (int ptr - 5) (k + 3) b;
            let hl = (sizeof_click_ip + olen + 3) div 4;
            b \<leftarrow> st_ip_hl nip hl b;
            Some (hl, b)
          })"

text \<open>The ICMP header at position \<open>icp\<close>. The pointer, the gateway and the MTU of the next hop share the word behind the
  checksum.\<close>

definition ie_fill_icmp :: "icmperror \<Rightarrow> packet \<Rightarrow> nat \<Rightarrow> bytes \<Rightarrow> bytes option" where
  "ie_fill_icmp s p icp b =
     do {
       b \<leftarrow> st8 icp (word_of_int (ie_type s)) b;
       b \<leftarrow> st8 (icp + 1) (word_of_int (ie_code s)) b;
       b \<leftarrow> st16 (icp + 2) 0 b;
       b \<leftarrow> st32 (icp + 4) 0 b;
       b \<leftarrow> (if ie_type s = ICMP_PARAMPROB \<and> ie_code s = ICMP_PARAMPROB_ERRATPTR
            then st8 (icp + 4) (icmp_paramprob_anno p) b else Some b);
       b \<leftarrow> (if ie_type s = ICMP_REDIRECT then st32 (icp + 4) (dst_ip_anno p) b else Some b);
       if ie_type s = ICMP_UNREACH \<and> ie_code s = ICMP_UNREACH_NEEDFRAG
       then st16 (icp + 6) (htons (ucast (ie_pmtu s))) b else Some b
     }"

text \<open>The quotation of the packet \<open>p\<close>. The difference of two pointers is kept in an unsigned integer: when the message has
  no room for its headers it is a huge number, and \<^verbatim>\<open>memcpy\<close> runs out of both buffers.\<close>

definition ie_quote :: "packet \<Rightarrow> nat \<Rightarrow> packet \<Rightarrow> packet option" where
  "ie_quote p icp q =
     do {
       ip \<leftarrow> network_pos p;
       nlen \<leftarrow> network_length p;
       let xlen = (of_nat (headroom q + plen q) - of_nat (icp + sizeof_click_icmp) :: u32);
       let (q, xlen) = (if sint xlen > nlen then (pkt_take (unat (xlen - word_of_int nlen)) q, word_of_int nlen) else (q, xlen));
       v \<leftarrow> ld_range (pbuffer p) ip (unat xlen);
       on_buffer (\<lambda>b. do {
         b \<leftarrow> st_range (icp + sizeof_click_icmp) v b;
         c \<leftarrow> cksum_at b icp (sizeof_click_icmp + unat xlen);
         st16 (icp + 2) c b
       }) q
     }"

text \<open>The rest of the IP header, and the annotations.\<close>

definition ie_finish :: "icmperror \<Rightarrow> nat \<Rightarrow> nat \<Rightarrow> packet \<Rightarrow> packet option" where
  "ie_finish s nip hl q =
     do {
       n \<leftarrow> network_length q;
       q \<leftarrow> on_buffer (\<lambda>b. do {
         b \<leftarrow> st16 (nip + IP_LEN) (htons (word_of_int n)) b;
         c \<leftarrow> cksum_at b nip (4 * hl);
         st16 (nip + IP_SUM) c b
       }) q;
       dst \<leftarrow> ld32 (pbuffer q) (nip + IP_DST);
       let q = q\<lparr> dst_ip_anno := dst \<rparr>;
       Some (if ie_use_fix_anno s then q\<lparr> fix_ip_src_anno := 1 \<rparr> else q)
     }"

definition ie_build :: "icmperror \<Rightarrow> u32 \<Rightarrow> nat \<Rightarrow> packet \<Rightarrow> nat option \<Rightarrow> packet \<Rightarrow> packet option" where
  "ie_build s ident ip p source_route q =
     do {
       let nip = headroom q;
       src \<leftarrow> ld32 (pbuffer p) (ip + IP_SRC);
       b \<leftarrow> ie_fill_ip s ident src nip (pbuffer q);
       (hl, b) \<leftarrow> ie_fill_options (drop ip (pbuffer p)) source_route nip b;
       q \<leftarrow> set_ip_header (int nip) (4 * hl) (set_buffer b q);
       q \<leftarrow> on_buffer (ie_fill_icmp s p (nip + 4 * hl)) q;
       q \<leftarrow> ie_quote p (nip + 4 * hl) q;
       ie_finish s nip hl q
     }"

text \<open>The element. \<open>ident\<close> is the counter of the messages, which all elements of the process share; a failed allocation and
  a packet without a network header end without a message.\<close>

definition icmperror_action :: "env \<Rightarrow> packet \<Rightarrow> u32 \<Rightarrow> icmperror \<Rightarrow> (u32 \<times> emission list) option" where
  "icmperror_action e p ident s =
     (if net_off p = None then Some (ident, [])
      else do {
        ip \<leftarrow> network_pos p;
        silent \<leftarrow> ie_silent s ip p;
        if silent then Some (ident, [])
        else do {
          sr \<leftarrow> ie_valid_source_route (pbuffer p) ip;
          choice \<leftarrow> ie_route_choice s p (drop ip (pbuffer p)) sr;
          case choice of
            None \<Rightarrow> Some (ident, [])
          | Some source_route \<Rightarrow>
              (case pkt_make e default_headroom None (unat (ie_mtu s)) 0 of
                 None \<Rightarrow> Some (ident, [])
               | Some q \<Rightarrow> do { q \<leftarrow> ie_build s ident ip p source_route q; Some (ident + 1, [(0, q)]) })
        }
      })"

section \<open>Lemmas: the decision\<close>

text \<open>When no message is sent, in terms of the fields of the packet.\<close>

definition ie_refuses :: "icmperror \<Rightarrow> packet \<Rightarrow> bool" where
  "ie_refuses s p \<longleftrightarrow>
     (let d = pdata p; ip = get_ip d 0; icmp = ip_hlen d in
      (ip_p ip = IP_PROTO_ICMP \<and> (plen p < icmp + 4 \<or> ie_is_error_type (int (unat (get8 d icmp))))) \<or>
      \<not> ie_unicast s (ip_dst ip) \<or> packet_type_anno p \<in> {BROADCAST, MULTICAST} \<or>
      \<not> ie_valid_source s (ip_src ip) \<or> unat (ntohs (ip_off ip)) mod 8192 \<noteq> 0)"

lemma first_fragment_test: "f AND htons IP_OFFMASK \<noteq> 0 \<longleftrightarrow> unat (ntohs f) mod 8192 \<noteq> 0"
proof -
  have m: "IP_OFFMASK = Bit_Operations.mask 13" by (simp add: IP_OFFMASK_def mask_eq_exp_minus_1)
  have "f AND htons IP_OFFMASK = 0 \<longleftrightarrow> ntohs (f AND htons IP_OFFMASK) = 0" by simp
  also have "\<dots> \<longleftrightarrow> take_bit 13 (ntohs f) = 0"
    by (simp add: ntohs_logic m take_bit_eq_mask)
  also have "unat (take_bit 13 (ntohs f)) = take_bit 13 (unat (ntohs f))" by (rule unsigned_take_bit_eq)
  then have "unat (take_bit 13 (ntohs f)) = unat (ntohs f) mod 8192" by (simp only: take_bit_nat_def) simp
  then have "take_bit 13 (ntohs f) = 0 \<longleftrightarrow> unat (ntohs f) mod 8192 = 0"
    by (metis unat_eq_zero)
  finally show ?thesis by simp
qed

lemma ie_silent_valid:
  assumes "ip_valid p"
  shows "ie_silent s (headroom p) p = Some (ie_refuses s p)"
proof -
  note v = ip_valid_facts [OF assms]
  have b: "ld8 (pbuffer p) (headroom p) = Some (get8 (pdata p) 0)"
    "ld8 (pbuffer p) (headroom p + IP_P) = Some (get8 (pdata p) IP_P)"
    "ld32 (pbuffer p) (headroom p + IP_DST) = Some (get32 (pdata p) IP_DST)"
    "ld32 (pbuffer p) (headroom p + IP_SRC) = Some (get32 (pdata p) IP_SRC)"
    "ld16 (pbuffer p) (headroom p + IP_OFF) = Some (get16 (pdata p) IP_OFF)"
    using v(1) by (simp_all add: pbuffer_def mem_simps)
  have t: "trans_off p = Some (int (headroom p + ip_hlen (pdata p)))" using assms by (simp add: ip_valid_def)
  have i: "ld8 (pbuffer p) (headroom p + ip_hlen (pdata p)) = Some (get8 (pdata p) (ip_hlen (pdata p)))"
    if "ip_hlen (pdata p) + 4 \<le> plen p"
    using that by (simp add: pbuffer_def mem_simps)
  show ?thesis
    using i unfolding ie_silent_def
    by (auto simp: Let_def b t ie_refuses_def ip_hlen_def [symmetric] get_ip_0 first_fragment_test nat_int_add)
qed

text \<open>A source route option that is taken back.\<close>

definition route_option :: "bytes \<Rightarrow> nat \<Rightarrow> nat \<Rightarrow> bool" where
  "route_option d hlen sr \<longleftrightarrow>
     (get8 d sr = IPOPT_LSRR \<or> get8 d sr = IPOPT_SSRR) \<and>
     4 \<le> unat (get8 d (sr + 2)) \<and> 4 dvd unat (get8 d (sr + 2)) \<and>
     unat (get8 d (sr + 2)) \<le> unat (get8 d (sr + 1)) + 1 \<and> 2 \<le> unat (get8 d (sr + 1)) \<and> sr + unat (get8 d (sr + 1)) \<le> hlen"

definition route_ok :: "bytes \<Rightarrow> nat \<Rightarrow> nat option \<Rightarrow> bool" where
  "route_ok d hlen source_route \<longleftrightarrow>
     (case source_route of None \<Rightarrow> True
      | Some sr \<Rightarrow> route_option d hlen sr \<and> hlen < length d \<and> 20 \<le> sr \<and> hlen \<le> 60)"

text \<open>The scan ends, reads at most one byte behind the header, and finds only such options.\<close>

lemma ie_source_route_result:
  assumes "hlen < length oa"
  obtains r where "ie_source_route oa hlen oi = Some r"
    and "\<And>sr. r = Some sr \<Longrightarrow> oi \<le> sr \<and> route_option oa hlen sr"
  using assms
proof (induction oa hlen oi arbitrary: thesis rule: ie_source_route.induct)
  case (1 oa hlen oi)
  note len = \<open>hlen < length oa\<close>
  show ?case
  proof (cases "oi < hlen")
    case False
    then show ?thesis using "1.prems"(1) [of None] by (simp add: ie_source_route.simps)
  next
    case True
    let ?t = "get8 oa oi" and ?l = "get8 oa (oi + 1)" and ?ptr = "get8 oa (oi + 2)"
    have ld: "ld8 oa oi = Some ?t" "ld8 oa (oi + 1) = Some ?l" using True len by (simp_all add: mem_simps)
    have un: "ie_source_route oa hlen oi =
      (if ?t = IPOPT_NOP then ie_source_route oa hlen (oi + 1) else if ?t = IPOPT_EOL then Some None
       else if unat ?l < 2 \<or> oi + unat ?l > hlen then Some None
       else if (?t = IPOPT_LSRR \<or> ?t = IPOPT_SSRR) \<and> unat ?ptr \<ge> 4 \<and> unat ?ptr mod 4 = 0 \<and> unat ?ptr \<le> unat ?l + 1
       then Some (Some oi) else ie_source_route oa hlen (oi + unat ?l))"
    proof -
      have "ld8 oa (oi + 2) = Some ?ptr" if "\<not> (unat ?l < 2 \<or> oi + unat ?l > hlen)"
        using that len by (simp add: mem_simps)
      then show ?thesis
        using True ld by (subst ie_source_route.simps) simp
    qed
    consider (nop) "?t = IPOPT_NOP" | (eol) "?t \<noteq> IPOPT_NOP" "?t = IPOPT_EOL"
      | (bad) "?t \<noteq> IPOPT_NOP" "?t \<noteq> IPOPT_EOL" "unat ?l < 2 \<or> oi + unat ?l > hlen"
      | (found) "?t \<noteq> IPOPT_NOP" "?t \<noteq> IPOPT_EOL" "\<not> (unat ?l < 2 \<or> oi + unat ?l > hlen)"
          "(?t = IPOPT_LSRR \<or> ?t = IPOPT_SSRR) \<and> unat ?ptr \<ge> 4 \<and> unat ?ptr mod 4 = 0 \<and> unat ?ptr \<le> unat ?l + 1"
      | (other) "?t \<noteq> IPOPT_NOP" "?t \<noteq> IPOPT_EOL" "\<not> (unat ?l < 2 \<or> oi + unat ?l > hlen)"
          "\<not> ((?t = IPOPT_LSRR \<or> ?t = IPOPT_SSRR) \<and> unat ?ptr \<ge> 4 \<and> unat ?ptr mod 4 = 0 \<and> unat ?ptr \<le> unat ?l + 1)"
      by blast
    then show ?thesis
    proof cases
      case nop
      show ?thesis
        by (rule "1.IH"(1) [OF True ld(1) nop _ len]) (use nop un "1.prems"(1) in \<open>auto dest: Suc_leD\<close>)
    next
      case other
      have f: "(if ?t = IPOPT_LSRR \<or> ?t = IPOPT_SSRR
          then map_option unat (ld8 oa (oi + 2)) \<bind> (\<lambda>ptr. Some (ptr \<ge> 4 \<and> ptr mod 4 = 0 \<and> ptr \<le> unat ?l + 1)) else Some False) = Some False"
        using other len by (auto simp: mem_simps)
      have eq: "ie_source_route oa hlen oi = ie_source_route oa hlen (oi + unat ?l)" using other un by auto
      have l: "map_option unat (ld8 oa (oi + 1)) = Some (unat ?l)" using ld by simp
      show ?thesis
      proof (rule "1.IH"(2) [OF True ld(1) other(1,2) l other(3) f _ _ len])
        fix r assume a: "ie_source_route oa hlen (oi + unat ?l) = Some r"
          and b: "\<And>sr. r = Some sr \<Longrightarrow> oi + unat ?l \<le> sr \<and> route_option oa hlen sr"
        have "r = Some sr \<Longrightarrow> oi \<le> sr \<and> route_option oa hlen sr" for sr using b [of sr] by simp
        then show thesis using "1.prems"(1) [of r] a eq by simp
      qed simp
    next
      case found
      then show ?thesis using "1.prems"(1) [of "Some oi"] un by (simp add: route_option_def dvd_eq_mod_eq_0)
    qed (use un "1.prems"(1) [of None] in auto)
  qed
qed

section \<open>Lemmas: the message\<close>

text \<open>The addresses of a source route at \<open>sr\<close>, and the options of the message.\<close>

definition route_hops :: "bytes \<Rightarrow> nat \<Rightarrow> nat \<Rightarrow> bytes list" where
  "route_hops d sr n = map (\<lambda>j. slice (sr + 3 + 4 * j) 4 d) [0..<n]"

definition ie_options :: "bytes \<Rightarrow> nat option \<Rightarrow> bytes" where
  "ie_options oa source_route =
     (case source_route of
        None \<Rightarrow> []
      | Some sr \<Rightarrow>
          let ptr = unat (get8 oa (sr + 2))
          in [get8 oa sr, of_nat (ptr - 1), 4] @ concat (rev (route_hops oa sr (ptr div 4 - 1))) @ [IPOPT_EOL])"

lemma length_route_hops:
  assumes "sr + 3 + 4 * n \<le> length d"
  shows "length (concat (rev (route_hops d sr n))) = 4 * n"
  using assms by (induction n) (simp_all add: route_hops_def)

lemma ie_copy_route_result:
  assumes "sr + 3 + 4 * n \<le> length oa" and "k + 4 * n \<le> length b"
  shows "ie_copy_route oa sr (4 * int n - 1) k b =
    Some (take k b @ concat (rev (route_hops oa sr n)) @ drop (k + 4 * n) b)"
  using assms
proof (induction n arbitrary: k b)
  case 0
  then show ?case by (simp add: ie_copy_route.simps route_hops_def)
next
  case (Suc m)
  let ?hop = "slice (sr + 3 + 4 * m) 4 oa"
  let ?b = "take k b @ ?hop @ drop (k + 4) b"
  have pos: "sr + nat (4 * int (Suc m) - 1) = sr + 3 + 4 * m" by (simp add: nat_diff_distrib)
  have hop: "ld_range oa (sr + 3 + 4 * m) 4 = Some ?hop" and len: "length ?hop = 4"
    using Suc.prems(1) by (simp_all add: ld_range_def)
  have st: "st_range k ?hop b = Some ?b" using Suc.prems(2) len by (simp add: st_range_def)
  have "ie_copy_route oa sr (4 * int (Suc m) - 1) k b = ie_copy_route oa sr (4 * int m - 1) (k + 4) ?b"
    by (subst ie_copy_route.simps) (use pos hop st in \<open>simp add: add.assoc\<close>)
  also have "\<dots> = Some (take (k + 4) ?b @ concat (rev (route_hops oa sr m)) @ drop (k + 4 + 4 * m) ?b)"
    using Suc.prems len by (intro Suc.IH) simp_all
  also have "take (k + 4) ?b = take k b @ ?hop" using Suc.prems(2) len by simp
  also have "drop (k + 4 + 4 * m) ?b = drop (k + 4 * Suc m) b" using Suc.prems(2) len by (simp add: ac_simps)
  finally show ?case by (simp add: route_hops_def)
qed

definition ie_ip_bytes :: "icmperror \<Rightarrow> u32 \<Rightarrow> ipaddr \<Rightarrow> bytes \<Rightarrow> bytes" where
  "ie_ip_bytes s ident src d =
     upd32 IP_DST src (upd32 IP_SRC (ie_src_ip s) (upd16 IP_SUM 0 (upd8 IP_P IP_PROTO_ICMP (upd8 IP_TTL 200
       (upd16 IP_OFF 0 (upd16 IP_ID (htons (ucast ident)) (upd8 IP_TOS 0
         (upd8 0 (of_nat (64 + unat (get8 d 0) mod 16)) d))))))))"

lemma upd_append_start [mem_simps]:
  "upd8 (length h) b (h @ d) = h @ upd8 0 b d" "upd8 (Suc (length h)) b (h @ d) = h @ upd8 1 b d"
  "upd16 (Suc (Suc (length h))) v (h @ d) = h @ upd16 2 v d"
  using upd_append(2) [of h 2 v d] by (simp_all add: upd8_def list_update_append)

lemma ie_fill_ip_result:
  "20 \<le> length d \<Longrightarrow> ie_fill_ip s ident src (length h) (h @ d) = Some (h @ ie_ip_bytes s ident src d)"
  by (simp add: ie_fill_ip_def ie_ip_bytes_def mem_simps)

lemma store_option_head:
  assumes "k + 4 \<le> length b" and "k + 3 \<le> j" and "j < length b"
  shows "take (k + 3) (upd8 j e (upd8 (k + 2) z (upd8 (k + 1) y (upd8 k x b)))) = take k b @ [x, y, z]"
    and "drop j (upd8 j e (upd8 (k + 2) z (upd8 (k + 1) y (upd8 k x b)))) = e # drop (Suc j) b"
proof -
  let ?c = "upd8 j e (upd8 (k + 2) z (upd8 (k + 1) y (upd8 k x b)))"
  have "take (k + 3) ?c = take k ?c @ [?c ! k, ?c ! (k + 1), ?c ! (k + 2)]"
    using assms(1) by (simp add: take_Suc_conv_app_nth eval_nat_numeral)
  then show "take (k + 3) ?c = take k b @ [x, y, z]"
    using assms by (simp add: upd8_def nth_list_update)
  show "drop j ?c = e # drop (Suc j) b"
    using assms by (simp add: upd8_def Cons_nth_drop_Suc [symmetric])
qed

text \<open>The header after the options were written, with its length.\<close>

lemma ie_fill_options_result:
  assumes "route_ok oa hlen source_route"
    and "64 \<le> length d"
  defines "m \<equiv> 20 + length (ie_options oa source_route)"
  shows "ie_fill_options oa source_route (length h) (h @ d) =
      Some (m div 4, h @ upd8 0 (of_nat (16 * (unat (get8 d 0) div 16) + m div 4)) (take 20 d @ ie_options oa source_route @ drop m d)) \<and>
    4 dvd m \<and> m \<le> 60"
proof (cases source_route)
  case None
  then have m: "ie_options oa source_route = []" "m = 20" by (simp_all add: m_def ie_options_def)
  have "ie_fill_options oa source_route (length h) (h @ d) =
      Some (m div 4, h @ upd8 0 (of_nat (16 * (unat (get8 d 0) div 16) + m div 4)) (take 20 d @ ie_options oa source_route @ drop m d))"
    using assms(2) None m by (simp add: ie_fill_options_def mem_simps)
  then show ?thesis using m by simp
next
  case (Some sr)
  define ptr n where "ptr = unat (get8 oa (sr + 2))" and "n = ptr div 4 - 1"
  let ?l = "unat (get8 oa (sr + 1))" and ?rev = "concat (rev (route_hops oa sr n))"
  have r: "4 \<le> ptr" "4 dvd ptr" "ptr \<le> ?l + 1" "sr + ?l \<le> hlen" "hlen < length oa" "20 \<le> sr" "hlen \<le> 60"
    using assms(1) by (simp_all add: Some route_ok_def route_option_def ptr_def)
  have p: "ptr = 4 * n + 4"
    using r(1,2) unfolding n_def by (elim dvdE) simp
  have rl: "length ?rev = 4 * n" using r p by (intro length_route_hops) linarith
  have opts: "ie_options oa source_route = [get8 oa sr, of_nat (ptr - 1), 4] @ ?rev @ [IPOPT_EOL]"
    by (simp add: Some ie_options_def Let_def ptr_def n_def)
  have m: "m = 24 + 4 * n" using rl by (simp add: m_def opts)
  have "4 * n + 4 \<le> 41" using r p by linarith
  then have "n \<le> 9" by presburger
  then have bound: "m \<le> 60" using m by simp
  define k where "k = length h + 20"
  let ?b = "h @ d"
  define c where "c = upd8 (k + (ptr - 1)) IPOPT_EOL (upd8 (k + 2) 4 (upd8 (k + 1) (of_nat (ptr - 1)) (upd8 k (get8 oa sr) ?b)))"
  have len: "k + 4 \<le> length ?b" "k + 3 \<le> k + (ptr - 1)" "k + (ptr - 1) < length ?b"
    using assms(2) r p m bound by (simp_all add: k_def)
  have c: "take (k + 3) c = take k ?b @ [get8 oa sr, of_nat (ptr - 1), 4]"
    "drop (k + (ptr - 1)) c = IPOPT_EOL # drop (Suc (k + (ptr - 1))) ?b"
    unfolding c_def by (rule store_option_head [OF len])+
  have cl: "length c = length ?b" by (simp add: c_def)
  have "ie_copy_route oa sr (4 * int n - 1) (k + 3) c = Some (take (k + 3) c @ ?rev @ drop (k + 3 + 4 * n) c)"
    using r p len cl by (intro ie_copy_route_result) simp_all
  also have "k + 3 + 4 * n = k + (ptr - 1)" using p by simp
  also have "take (k + 3) c @ ?rev @ drop (k + (ptr - 1)) c = h @ take 20 d @ ie_options oa source_route @ drop m d"
    unfolding c using p by (simp add: opts k_def m)
  finally have copy: "ie_copy_route oa sr (int ptr - 5) (k + 3) c = Some (h @ take 20 d @ ie_options oa source_route @ drop m d)"
    using p by simp
  have g: "get8 (take 20 d @ ie_options oa source_route @ drop m d) 0 = get8 d 0"
    using assms(2) by (simp add: get8_def nth_append)
  have ld: "ld8 oa sr = Some (get8 oa sr)" "map_option unat (ld8 oa (sr + 2)) = Some ptr"
    using r p by (simp_all add: ld8_def ptr_def)
  have st: "st8 k (get8 oa sr) ?b \<bind> (\<lambda>b. st8 (k + 1) (of_nat (ptr - 1)) b \<bind> (\<lambda>b. st8 (k + 2) 4 b \<bind>
      (\<lambda>b. st8 (k + (ptr - 1)) IPOPT_EOL b \<bind> f))) = f c" for f :: "bytes \<Rightarrow> 'z option"
    using len by (simp add: c_def st8_def)
  have hl: "(sizeof_click_ip + (ptr - 1) + 3) div 4 = m div 4" using p m by simp
  have fin: "st_ip_hl (length h) (m div 4) (h @ take 20 d @ ie_options oa source_route @ drop m d) =
      Some (h @ upd8 0 (of_nat (16 * (unat (get8 d 0) div 16) + m div 4)) (take 20 d @ ie_options oa source_route @ drop m d))"
    using bound assms(2) g by (simp add: mem_simps)
  have "ie_fill_options oa source_route (length h) (h @ d) =
      Some (m div 4, h @ upd8 0 (of_nat (16 * (unat (get8 d 0) div 16) + m div 4)) (take 20 d @ ie_options oa source_route @ drop m d))"
    unfolding Some ie_fill_options_def option.case Let_def k_def [symmetric] ld Option.bind.bind_lunit st copy hl
    using fin Some by simp
  then show ?thesis using bound by (simp add: m)
qed

text \<open>A packet whose buffer from the data pointer on is \<open>d\<close>, with \<open>n\<close> bytes of data.\<close>

definition cut :: "nat \<Rightarrow> bytes \<Rightarrow> packet \<Rightarrow> packet" where
  "cut n d q = q\<lparr> pdata := take n d, troom := drop n d \<rparr>"

lemma cut_simps [simp]:
  "hroom (cut n d q) = hroom q" "pdata (cut n d q) = take n d" "troom (cut n d q) = drop n d" "net_off (cut n d q) = net_off q"
  "trans_off (cut n d q) = trans_off q" "pbuffer (cut n d q) = hroom q @ d" "dst_ip_anno (cut n d q) = dst_ip_anno q"
  by (simp_all add: cut_def pbuffer_def)

lemma cut_self: "cut (plen q) (pdata q @ troom q) q = q"
  by (simp add: cut_def)

lemma set_buffer_cut:
  assumes "n \<le> length d" and "length d' = length d"
  shows "set_buffer (hroom q @ d') (cut n d q) = cut n d' q"
  using assms by (simp add: set_buffer_def cut_def min_def)

lemma on_buffer_cut:
  assumes "f (hroom q @ d) = Some (hroom q @ d')" and "n \<le> length d" and "length d' = length d"
  shows "on_buffer f (cut n d q) = Some (cut n d' q)"
  using assms set_buffer_cut [OF assms(2,3), of q] by (simp add: on_buffer_def)

lemma take_cut: "m \<le> n \<Longrightarrow> n \<le> length d \<Longrightarrow> pkt_take (n - m) (cut n d q) = cut m d q"
  using append_take_drop_id [of "n - m" "drop m d"] by (simp add: pkt_take_def Let_def cut_def min_def drop_take)

lemma get_take [mem_simps]:
  "i + 1 \<le> n \<Longrightarrow> get8 (take n d) i = get8 d i" "i + 2 \<le> n \<Longrightarrow> get16 (take n d) i = get16 d i"
  "i + 4 \<le> n \<Longrightarrow> get32 (take n d) i = get32 d i"
  by (simp_all add: get8_def get16_def get32_def)

text \<open>The word behind the checksum of the ICMP header.\<close>

definition ie_particulars :: "icmperror \<Rightarrow> packet \<Rightarrow> u32" where
  "ie_particulars s p =
     (if ie_type s = ICMP_PARAMPROB \<and> ie_code s = ICMP_PARAMPROB_ERRATPTR then le32 (le16 (icmp_paramprob_anno p) 0) 0
      else if ie_type s = ICMP_REDIRECT then dst_ip_anno p
      else if ie_type s = ICMP_UNREACH \<and> ie_code s = ICMP_UNREACH_NEEDFRAG then le32 0 (htons (ucast (ie_pmtu s)))
      else 0)"

lemmas icmp_consts = ICMP_UNREACH_def ICMP_UNREACH_NEEDFRAG_def ICMP_SOURCEQUENCH_def ICMP_REDIRECT_def ICMP_TIMXCEED_def
  ICMP_PARAMPROB_def ICMP_PARAMPROB_ERRATPTR_def

lemma get32_halves: "get32 d i = le32 (get16 d i) (get16 d (i + 2))" "get16 d j = le16 (get8 d j) (get8 d (j + 1))"
  by (simp_all add: get32_def get16_def get8_def)

lemma get_upd32_halves:
  assumes "i + 4 \<le> length d"
  shows "get16 (upd32 i w d) i = lo16 w" "get16 (upd32 i w d) (i + 2) = hi16 w"
  using assms by (simp_all add: upd32_def mem_simps)

lemma ie_fill_icmp_result:
  assumes "8 \<le> length t"
  obtains t' where "ie_fill_icmp s p (length h) (h @ t) = Some (h @ t')" and "length t' = length t"
    and "get8 t' 0 = word_of_int (ie_type s)" and "get8 t' 1 = word_of_int (ie_code s)" and "get16 t' 2 = 0"
    and "get32 t' 4 = ie_particulars s p"
proof -
  define t1 where "t1 = upd32 4 0 (upd16 2 0 (upd8 1 (word_of_int (ie_code s)) (upd8 0 (word_of_int (ie_type s)) t)))"
  define t2 where "t2 = (if ie_type s = ICMP_PARAMPROB \<and> ie_code s = ICMP_PARAMPROB_ERRATPTR then upd8 4 (icmp_paramprob_anno p) t1
    else if ie_type s = ICMP_REDIRECT then upd32 4 (dst_ip_anno p) t1
    else if ie_type s = ICMP_UNREACH \<and> ie_code s = ICMP_UNREACH_NEEDFRAG then upd16 6 (htons (ucast (ie_pmtu s))) t1 else t1)"
  have l: "length t1 = length t" "length t2 = length t" by (simp_all add: t1_def t2_def)
  have f: "get8 t1 0 = word_of_int (ie_type s)" "get8 t1 1 = word_of_int (ie_code s)" "get16 t1 2 = 0" "get32 t1 4 = 0"
    "get16 t1 4 = 0" "get16 t1 6 = 0"
    using assms get_upd32_halves [of 4 "upd16 2 0 (upd8 1 (word_of_int (ie_code s)) (upd8 0 (word_of_int (ie_type s)) t))" 0]
    by (simp_all add: t1_def mem_simps lo16_def hi16_def)
  have "get8 t1 5 = 0"
    using assms by (simp add: t1_def upd32_def get8_def upd16_def lo16_def hi16_def hi8_def)
  then have "get32 (upd8 4 a t1) 4 = le32 (le16 a 0) 0" "get32 (upd16 6 v t1) 4 = le32 0 v" "get32 (upd32 4 x t1) 4 = x" for a v x
    using assms f l by (simp_all add: mem_simps get32_halves(1) [of "upd8 4 a t1"] get32_halves(1) [of "upd16 6 v t1"]
        get32_halves(2) [of "upd8 4 a t1" 4])
  then have w: "get32 t2 4 = ie_particulars s p"
    using f(4) by (auto simp: t2_def ie_particulars_def icmp_consts)
  have "ie_fill_icmp s p (length h) (h @ t) = Some (h @ t2)"
    using assms l by (auto simp: ie_fill_icmp_def t2_def t1_def icmp_consts mem_simps)
  moreover have "get8 t2 0 = word_of_int (ie_type s)" "get8 t2 1 = word_of_int (ie_code s)" "get16 t2 2 = 0"
    using f by (simp_all add: t2_def mem_simps)
  ultimately show ?thesis using that l(2) w by blast
qed

text \<open>The room for the quotation, computed on unsigned integers, and the shortened message.\<close>

lemma ie_room:
  assumes "m \<le> n" and "n < 65536" and "k < 65536" and "n \<le> length d"
    and w_def: "w = (of_nat (h + n) - of_nat (h + m) :: u32)" and x_def: "x = min (n - m) k"
  shows "unat (if sint w > int k then word_of_int (int k) else w) = x"
    and "(if sint w > int k then pkt_take (unat (w - word_of_int (int k))) (cut n d q) else cut n d q) = cut (m + x) d q"
proof -
  have "w = of_nat (n - m)" using assms(1) by (simp add: w_def of_nat_diff)
  then have wu: "unat w = n - m" using assms(2) by (simp add: unat_word_of_nat)
  then have ws: "sint w = int (n - m)" using assms(2) by (simp add: sint_small)
  show "unat (if sint w > int k then word_of_int (int k) else w) = x"
    using wu ws assms(3) by (auto simp: x_def unat_word_of_nat)
  show "(if sint w > int k then pkt_take (unat (w - word_of_int (int k))) (cut n d q) else cut n d q) = cut (m + x) d q"
  proof (cases "sint w > int k")
    case True
    then have "k \<le> unat w" using wu ws by linarith
    then have "unat (w - word_of_int (int k)) = unat w - k"
      using assms(3) by (simp add: unat_sub word_le_nat_alt unat_word_of_nat)
    moreover have "unat w - k = n - (m + x)" using wu True ws by (simp add: x_def)
    ultimately show ?thesis using True take_cut [of "m + x" n d q] assms(1,4) by (simp add: x_def)
  next
    case False
    then have "x = n - m" using ws by (simp add: x_def)
    then show ?thesis using False assms(1) by simp
  qed
qed

text \<open>The quotation: as much of the packet as there is room for, under a checksum that verifies.\<close>

lemma ie_quote_result:
  assumes "ip_valid p" and "length g + 8 \<le> n" and "n < 65536" and "n \<le> length g + length t" and "get16 t 2 = 0"
  defines "x \<equiv> min (n - (length g + 8)) (plen p)"
  defines "j \<equiv> take 8 t @ take x (pdata p)"
  shows "ie_quote p (headroom q + length g) (cut n (g @ t) q) =
      Some (cut (length g + (8 + x)) (g @ upd16 2 (click_in_cksum j) j @ drop (8 + x) t) q)"
    and "length j = 8 + x" and "cksum_ok (upd16 2 (click_in_cksum j) j) 0 (8 + x)"
proof -
  have t8: "8 \<le> length t" using assms(2,4) by linarith
  have x: "x \<le> plen p" "length g + (8 + x) \<le> n" using assms(2) by (simp_all add: x_def)
  show jl: "length j = 8 + x" using t8 x(1) by (simp add: j_def)
  have "get16 j 2 = 0" using assms(5) t8 by (simp add: j_def mem_simps)
  moreover have "8 + x \<le> 131072" using x assms(3) by linarith
  ultimately have "cksum_ok (upd16 (0 + 2) (click_in_cksum (slice 0 (8 + x) j)) j) 0 (8 + x)"
    using jl by (intro cksum_fill) (simp_all add: numeral_2_eq_2)
  then show ok: "cksum_ok (upd16 2 (click_in_cksum j) j) 0 (8 + x)" using jl by (simp add: slice_def numeral_2_eq_2)
  have plen: "plen p < 65536" using assms(1) unat_less_65536 [of "ntohs (get16 (pdata p) IP_LEN)"] by (simp add: ip_valid_def)
  have v: "ld_range (pbuffer p) (headroom p) x = Some (take x (pdata p))"
    using x(1) by (simp add: ld_range_def pbuffer_def slice_def)
  have st: "on_buffer (\<lambda>b. st_range (headroom q + length g + 8) (take x (pdata p)) b \<bind>
        (\<lambda>b. cksum_at b (headroom q + length g) (8 + x) \<bind> (\<lambda>c. st16 (headroom q + length g + 2) c b))) (cut (length g + (8 + x)) (g @ t) q) =
      Some (cut (length g + (8 + x)) (g @ upd16 2 (click_in_cksum j) j @ drop (8 + x) t) q)"
  proof (rule on_buffer_cut)
    let ?h = "hroom q @ g"
    have "st_range (length ?h + 8) (take x (pdata p)) (?h @ t) = Some (?h @ j @ drop (8 + x) t)"
      using t8 x assms(4) by (simp add: st_range_def j_def add.commute)
    moreover have "cksum_at (?h @ j @ drop (8 + x) t) (length ?h) (8 + x) = Some (click_in_cksum j)"
      using jl by (simp add: cksum_at_def slice_def)
    moreover have "st16 (length ?h + 2) c (?h @ j @ drop (8 + x) t) = Some (?h @ upd16 2 c j @ drop (8 + x) t)" for c
      using jl upd_append(2) [of ?h 2 c "j @ drop (8 + x) t"] by (simp add: st16_def mem_simps)
    ultimately show "st_range (headroom q + length g + 8) (take x (pdata p)) (hroom q @ g @ t) \<bind>
        (\<lambda>b. cksum_at b (headroom q + length g) (8 + x) \<bind> (\<lambda>c. st16 (headroom q + length g + 2) c b)) =
        Some (hroom q @ g @ upd16 2 (click_in_cksum j) j @ drop (8 + x) t)"
      by simp
  qed (use jl x assms(4) in simp_all)
  have "network_pos p = Some (headroom p)" "network_length p = Some (int (plen p))"
    using assms(1) by (simp_all add: ip_valid_def network_pos_def network_length_def)
  moreover have "plen (cut n (g @ t) q) = n" using assms(4) by simp
  moreover have "length g + 8 + x = length g + (8 + x)" "n \<le> length (g @ t)" using assms(4) by simp_all
  note room = ie_room(1) [OF assms(2,3) plen this(2) refl refl, where h = "headroom q", folded x_def]
    ie_room(2) [OF assms(2,3) plen this(2) refl refl, where h = "headroom q" and q = q, folded x_def]
  ultimately show "ie_quote p (headroom q + length g) (cut n (g @ t) q) =
      Some (cut (length g + (8 + x)) (g @ upd16 2 (click_in_cksum j) j @ drop (8 + x) t) q)"
    using v st room unfolding ie_quote_def Let_def by (simp del: cut_simps(2) add: add.assoc split: if_splits)
qed

text \<open>The IP header is completed in front of everything else.\<close>

lemma ie_finish_result:
  assumes "net_off q = Some (int (headroom q))" and "length g = 4 * hl" and "20 \<le> length g" and "length g \<le> 60"
    and "get16 g IP_SUM = 0" and n_def: "n = length g + length j" and f_def: "f = upd16 IP_LEN (htons (of_nat n)) g"
  shows "ie_finish s (headroom q) hl (cut n (g @ j @ r) q) =
      Some ((cut n (upd16 IP_SUM (click_in_cksum f) f @ j @ r) q)
        \<lparr> dst_ip_anno := get32 g IP_DST, fix_ip_src_anno := (if ie_use_fix_anno s then 1 else fix_ip_src_anno q) \<rparr>)"
    and "cksum_ok (upd16 IP_SUM (click_in_cksum f) f) 0 (length g)"
proof -
  let ?d = "g @ j @ r" and ?g = "upd16 IP_SUM (click_in_cksum f) f"
  have fl: "length f = length g" "get16 f IP_SUM = 0" using assms(3,5) by (simp_all add: f_def mem_simps)
  then have "cksum_ok (upd16 (0 + IP_SUM) (click_in_cksum (slice 0 (length g) f)) f) 0 (length g)"
    using assms(3,4) by (intro cksum_fill) simp_all
  then show "cksum_ok ?g 0 (length g)" using fl(1) by (simp add: slice_def)
  have "network_length (cut n ?d q) = Some (int n)"
    using assms(1) by (simp add: network_length_def n_def)
  moreover have "on_buffer (\<lambda>b. st16 (headroom q + IP_LEN) (htons (word_of_int (int n))) b \<bind>
      (\<lambda>b. cksum_at b (headroom q) (4 * hl) \<bind> (\<lambda>c. st16 (headroom q + IP_SUM) c b))) (cut n ?d q) = Some (cut n (?g @ j @ r) q)"
  proof (rule on_buffer_cut)
    have "st16 (headroom q + IP_LEN) (htons (word_of_int (int n))) (hroom q @ ?d) = Some (hroom q @ f @ j @ r)"
      using assms(3) by (simp add: st16_def f_def mem_simps)
    moreover have "cksum_at (hroom q @ f @ j @ r) (headroom q) (4 * hl) = Some (click_in_cksum f)"
      using fl(1) assms(2) by (simp add: cksum_at_def slice_def)
    moreover have "st16 (headroom q + IP_SUM) c (hroom q @ f @ j @ r) = Some (hroom q @ upd16 IP_SUM c f @ j @ r)" for c
      using fl(1) assms(3) by (simp add: st16_def mem_simps)
    ultimately show "st16 (headroom q + IP_LEN) (htons (word_of_int (int n))) (hroom q @ ?d) \<bind>
      (\<lambda>b. cksum_at b (headroom q) (4 * hl) \<bind> (\<lambda>c. st16 (headroom q + IP_SUM) c b)) = Some (hroom q @ ?g @ j @ r)"
      by simp
  qed (simp_all add: n_def fl(1))
  moreover have "ld32 (hroom q @ ?g @ j @ r) (headroom q + IP_DST) = Some (get32 g IP_DST)"
    using assms(3) fl(1) by (simp add: ld32_def mem_simps f_def)
  moreover have "(cut n e q)\<lparr> dst_ip_anno := a, fix_ip_src_anno := fix_ip_src_anno q \<rparr> = (cut n e q)\<lparr> dst_ip_anno := a \<rparr>" for e a
    by (cases q) (simp add: cut_def)
  ultimately show "ie_finish s (headroom q) hl (cut n ?d q) =
      Some ((cut n (?g @ j @ r) q)
        \<lparr> dst_ip_anno := get32 g IP_DST, fix_ip_src_anno := (if ie_use_fix_anno s then 1 else fix_ip_src_anno q) \<rparr>)"
    by (simp add: ie_finish_def Let_def)
qed

lemma ie_ip_bytes_start:
  assumes "20 \<le> length d"
  shows "length (ie_ip_bytes s ident src d) = length d" and "unat (get8 (ie_ip_bytes s ident src d) 0) div 16 = 4"
proof -
  have "get8 (ie_ip_bytes s ident src d) 0 = of_nat (64 + unat (get8 d 0) mod 16)"
    using assms by (simp add: ie_ip_bytes_def mem_simps del: of_nat_add)
  moreover have "unat (of_nat (64 + unat (get8 d 0) mod 16) :: byte) = 64 + unat (get8 d 0) mod 16"
    by (rule unat_word_of_nat) (use mod_less_divisor [of 16 "unat (get8 d 0)"] in simp)
  ultimately show "unat (get8 (ie_ip_bytes s ident src d) 0) div 16 = 4"
    using mod_less_divisor [of 16 "unat (get8 d 0)"] by simp
qed (simp add: ie_ip_bytes_def)

text \<open>The header before its length and its checksum are known.\<close>

definition ie_header :: "icmperror \<Rightarrow> u32 \<Rightarrow> ipaddr \<Rightarrow> bytes \<Rightarrow> bytes \<Rightarrow> bytes" where
  "ie_header s ident src opts d =
     upd8 0 (of_nat (64 + (20 + length opts) div 4)) (take 20 (ie_ip_bytes s ident src d) @ opts)"

lemma ie_header_fields:
  assumes "20 \<le> length d" and "length opts \<le> 40" and "4 dvd length opts" and g_def: "g = ie_header s ident src opts d"
  shows "length g = 20 + length opts" and "ip_hl_of (get8 g 0) = 5 + length opts div 4" and "ip_v_of (get8 g 0) = 4"
    and "get16 g IP_ID = htons (ucast ident)" and "get16 g IP_OFF = 0" and "get8 g IP_TTL = 200" and "get8 g IP_P = IP_PROTO_ICMP"
    and "get16 g IP_SUM = 0" and "get32 g IP_SRC = ie_src_ip s" and "get32 g IP_DST = src" and "drop 20 g = opts"
proof -
  obtain k where k: "length opts = 4 * k" "k \<le> 10" using assms(2,3) by (auto elim!: dvdE)
  have "get8 g 0 = of_nat (64 + (5 + k))" by (simp add: g_def ie_header_def mem_simps assms(1) ie_ip_bytes_def k)
  moreover have "unat (of_nat (64 + (5 + k)) :: byte) = 64 + (5 + k)" by (rule unat_word_of_nat) (use k(2) in simp)
  ultimately have "unat (get8 g 0) = 64 + (5 + k)" by simp
  then show "ip_hl_of (get8 g 0) = 5 + length opts div 4" "ip_v_of (get8 g 0) = 4"
    using k mod_mult_self1 [of "5 + k" 4 16] by (simp_all add: ip_hl_of_def ip_v_of_def)
qed (use assms(1) in \<open>simp_all add: g_def ie_header_def ie_ip_bytes_def mem_simps\<close>)

text \<open>What a message is: a valid IP packet from the element's address to the sender of \<open>p\<close>, over the reversed source
  route; an ICMP header of the configured type and code under a verifying checksum; and a quotation
  of \<open>p\<close> that fills the MTU or is complete.\<close>

definition ie_message :: "icmperror \<Rightarrow> u32 \<Rightarrow> packet \<Rightarrow> nat option \<Rightarrow> packet \<Rightarrow> bool" where
  "ie_message s ident p source_route q \<longleftrightarrow>
     (let d = pdata q; ip = get_ip d 0; m = ip_hlen d; src = ip_src (get_ip (pdata p) 0) in
      ip_valid q \<and> plen q = min (unat (ie_mtu s)) (m + 8 + plen p) \<and>
      slice 20 (m - 20) d = ie_options (pdata p @ troom p) source_route \<and>
      ip_src ip = ie_src_ip s \<and> ip_dst ip = src \<and> ip_p ip = IP_PROTO_ICMP \<and> ip_ttl ip = 200 \<and> ip_off ip = 0 \<and>
      ip_id ip = htons (ucast ident) \<and>
      m + 8 \<le> plen q \<and> get8 d m = word_of_int (ie_type s) \<and> get8 d (m + 1) = word_of_int (ie_code s) \<and>
      get32 d (m + 4) = ie_particulars s p \<and> cksum_ok d m (plen q - m) \<and>
      drop (m + 8) d = take (plen q - (m + 8)) (pdata p) \<and>
      dst_ip_anno q = src \<and> fix_ip_src_anno q = (if ie_use_fix_anno s then 1 else 0))"

lemma ie_messageI:
  assumes d: "pdata q = g @ j" and g: "length g = m" "ip_hlen g = m" "20 \<le> m" "m \<le> 60" "ip_v_of (get8 g 0) = 4"
    and h: "get16 g IP_LEN = htons (of_nat (plen q))" "plen q < 65536" "cksum_ok g 0 m"
    and i: "get16 g IP_ID = htons (ucast ident)" "get16 g IP_OFF = 0" "get8 g IP_TTL = 200" "get8 g IP_P = IP_PROTO_ICMP"
      "get32 g IP_SRC = ie_src_ip s" "get32 g IP_DST = get32 (pdata p) IP_SRC" "drop 20 g = ie_options (pdata p @ troom p) source_route"
    and j: "get8 j 0 = word_of_int (ie_type s)" "get8 j 1 = word_of_int (ie_code s)" "get32 j 4 = ie_particulars s p"
      "cksum_ok j 0 (length j)" "8 \<le> length j" "drop 8 j = take (length j - 8) (pdata p)"
    and l: "plen q = min (unat (ie_mtu s)) (m + 8 + plen p)"
    and a: "net_off q = Some (int (headroom q))" "trans_off q = Some (int (headroom q + m))"
      "dst_ip_anno q = get32 (pdata p) IP_SRC" "fix_ip_src_anno q = (if ie_use_fix_anno s then 1 else 0)"
  shows "ie_message s ident p source_route q"
proof -
  have hd: "get8 (pdata q) k = get8 g k" if "k + 1 \<le> 20" for k using that g by (simp add: d mem_simps)
  have hw: "get16 (pdata q) k = get16 g k" if "k + 2 \<le> 20" for k using that g by (simp add: d mem_simps)
  have hq: "get32 (pdata q) k = get32 g k" if "k + 4 \<le> 20" for k using that g by (simp add: d mem_simps)
  have m: "ip_hlen (pdata q) = m" using g(2) hd [of 0] by (simp add: ip_hlen_def)
  have n: "plen q = m + length j" using d g(1) by simp
  have "cksum_ok (pdata q) 0 m" using h(3) g(1) by (simp add: d cksum_ok_def slice_def)
  moreover have "unat (ntohs (get16 (pdata q) IP_LEN)) = plen q"
    using h(1,2) hw [of IP_LEN] by (simp add: unat_word_of_nat)
  ultimately have valid: "ip_valid q"
    using g hd [of 0] a(1,2) m n unfolding ip_valid_def ip_header_ok_def by simp
  have "get8 (pdata q) m = get8 j 0" "get8 (pdata q) (m + 1) = get8 j 1" "get32 (pdata q) (m + 4) = get32 j 4"
    using g(1) by (simp_all add: d get8_def get32_def get16_def nth_append add.assoc)
  moreover have "cksum_ok (pdata q) m (plen q - m)"
    using j(4) g(1) n cksum_ok_append [of g j 0 "length j"] by (simp add: d)
  moreover have "drop (m + 8) (pdata q) = take (plen q - (m + 8)) (pdata p)"
    using j(6) g(1) n by (simp add: d)
  moreover have "slice 20 (m - 20) (pdata q) = ie_options (pdata p @ troom p) source_route"
    unfolding i(7) [symmetric] using g(1,3) by (simp add: d slice_def)
  ultimately show ?thesis
    using valid m n i j l a hd hw hq unfolding ie_message_def Let_def by (simp add: get_ip_0)
qed

text \<open>The buffer after the two header writers, and the packet with its header pointers.\<close>

lemma ie_fill_headers:
  assumes "route_ok oa hlen source_route"
    and "64 \<le> length d" and opts_def: "opts = ie_options oa source_route" and g_def: "g = ie_header s ident src opts d"
  shows "ie_fill_ip s ident src (length h) (h @ d) \<bind> ie_fill_options oa source_route (length h) =
      Some (5 + length opts div 4, h @ g @ drop (length g) (ie_ip_bytes s ident src d))"
    and "length g = 20 + length opts" and "4 dvd length opts" and "length opts \<le> 40"
proof -
  let ?i = "ie_ip_bytes s ident src d"
  have l: "20 \<le> length d" "length ?i = length d" "unat (get8 ?i 0) div 16 = 4"
    using assms(2) ie_ip_bytes_start [of d] by simp_all
  have o: "ie_fill_options oa source_route (length h) (h @ ?i) =
      Some ((20 + length opts) div 4, h @ upd8 0 (of_nat (16 * (unat (get8 ?i 0) div 16) + (20 + length opts) div 4))
        (take 20 ?i @ opts @ drop (20 + length opts) ?i)) \<and> 4 dvd 20 + length opts \<and> 20 + length opts \<le> 60"
    unfolding opts_def by (rule ie_fill_options_result [OF assms(1)]) (use assms(2) l in simp_all)
  then show "4 dvd length opts" "length opts \<le> 40" by (simp_all add: dvd_add_right_iff)
  show gl: "length g = 20 + length opts" using l by (simp add: g_def ie_header_def)
  have "upd8 0 (of_nat (16 * (unat (get8 ?i 0) div 16) + (20 + length opts) div 4)) (take 20 ?i @ opts @ drop (20 + length opts) ?i) =
      g @ drop (length g) ?i"
    unfolding gl unfolding g_def ie_header_def l(3) using l upd_front(1) [of 0 "take 20 ?i @ opts"] by simp
  moreover have "(20 + length opts) div 4 = 5 + length opts div 4" by simp
  ultimately show "ie_fill_ip s ident src (length h) (h @ d) \<bind> ie_fill_options oa source_route (length h) =
      Some (5 + length opts div 4, h @ g @ drop (length g) ?i)"
    using o ie_fill_ip_result [OF l(1), of s ident src h] by simp
qed

lemma ie_build_result:
  assumes "ip_valid p" and "pkt_make e default_headroom None (unat (ie_mtu s)) 0 = Some q0"
    and "68 \<le> unat (ie_mtu s)" and "unat (ie_mtu s) < 65536"
    and "route_ok (pdata p @ troom p) hlen source_route"
  obtains q where "ie_build s ident (headroom p) p source_route q0 = Some q" and "ie_message s ident p source_route q"
proof -
  let ?oa = "pdata p @ troom p" and ?h = "hroom q0" and ?n = "unat (ie_mtu s)" and ?src = "get32 (pdata p) IP_SRC"
  define d where "d = pdata q0 @ troom q0"
  define opts where "opts = ie_options ?oa source_route"
  define g t where "g = ie_header s ident ?src opts d" and "t = drop (length g) (ie_ip_bytes s ident ?src d)"
  define q1 where "q1 = q0\<lparr> net_off := Some (int (headroom q0)), trans_off := Some (int (headroom q0 + length g)) \<rparr>"
  have q0: "plen q0 = ?n" "fix_ip_src_anno q0 = 0"
    using assms(2) by (auto simp: pkt_make_def split: Option.bind_splits dest!: alloc_data_lengths)
  then have dl: "?n \<le> length d" "64 \<le> length d" "20 \<le> length d" using assms(3) by (simp_all add: d_def)
  have pl: "20 \<le> plen p" using assms(1) by (rule ip_valid_facts)
  have b0: "pbuffer q0 = ?h @ d" "cut ?n d q0 = q0" using cut_self [of q0] by (simp_all add: pbuffer_def d_def q0)
  note hd = ie_fill_headers [OF assms(5) dl(2) opts_def g_def]
  note gf = ie_header_fields [OF dl(3) hd(4,3), where g = g, OF g_def]
  have gl: "length g = 4 * (5 + length opts div 4)" "length g \<le> 60" "20 \<le> length g"
    using hd(2-4) by auto
  have il: "length (ie_ip_bytes s ident ?src d) = length d" by (rule ie_ip_bytes_start [OF dl(3)])
  have tl: "length (g @ t) = length d" using dl il gl(2) by (simp add: t_def)
  have "set_buffer (?h @ g @ t) q0 = cut ?n (g @ t) q0"
    using set_buffer_cut [of ?n d "g @ t" q0] dl(1) tl b0(2) by simp
  then have ip: "set_ip_header (int (headroom q0)) (length g) (set_buffer (?h @ g @ t) q0) = Some (cut ?n (g @ t) q1)"
    by (simp add: set_ip_header_def set_network_header_def q1_def) (simp add: cut_def)
  have "length g + length t = length d" using tl by simp
  then have t8: "8 \<le> length t" using dl(1) assms(3) gl(2) by linarith
  obtain t' where t': "ie_fill_icmp s p (length (?h @ g)) ((?h @ g) @ t) = Some ((?h @ g) @ t')" "length t' = length t"
    "get8 t' 0 = word_of_int (ie_type s)" "get8 t' 1 = word_of_int (ie_code s)" "get16 t' 2 = 0" "get32 t' 4 = ie_particulars s p"
    by (rule ie_fill_icmp_result [OF t8])
  have icmp: "on_buffer (ie_fill_icmp s p (headroom q0 + length g)) (cut ?n (g @ t) q1) = Some (cut ?n (g @ t') q1)"
    by (rule on_buffer_cut) (use t' tl dl in \<open>simp_all add: q1_def\<close>)
  define x j where "x = min (?n - (length g + 8)) (plen p)" and "j = take 8 t' @ take x (pdata p)"
  define j' where "j' = upd16 2 (click_in_cksum j) j"
  have room: "length g + 8 \<le> ?n" "?n \<le> length g + length t'" using gl assms(3) t'(2) tl dl(1) by simp_all
  note quote = ie_quote_result [OF assms(1) room(1) assms(4) room(2) t'(5), folded x_def, folded j_def, folded j'_def]
  let ?f = "upd16 IP_LEN (htons (of_nat (length g + length j'))) g"
  let ?g = "upd16 IP_SUM (click_in_cksum ?f) ?f"
  have jl: "length j' = 8 + x" using quote(2) by (simp add: j'_def)
  have nq: "net_off q1 = Some (int (headroom q1))" "headroom q1 = headroom q0" by (simp_all add: q1_def)
  note fin = ie_finish_result(1) [OF nq(1) gl(1,3,2) gf(8) refl refl, where s = s and j = j' and r = "drop (8 + x) t'"]
    ie_finish_result(2) [OF nq(1) gl(1,3,2) gf(8) refl refl, where j = j']
  define q where "q = (cut (length g + length j') (?g @ j' @ drop (8 + x) t') q1)
    \<lparr> dst_ip_anno := get32 g IP_DST, fix_ip_src_anno := (if ie_use_fix_anno s then 1 else fix_ip_src_anno q1) \<rparr>"
  show ?thesis
  proof (rule that)
    have "ld32 (pbuffer p) (headroom p + IP_SRC) = Some ?src" "drop (headroom p) (pbuffer p) = ?oa"
      using pl by (simp_all add: pbuffer_def mem_simps)
    moreover have "ie_finish s (headroom q0) (5 + length opts div 4)
        (cut (length g + (8 + x)) (g @ j' @ drop (8 + x) t') q1) = Some q"
      using fin(1) nq(2) by (simp add: q_def jl)
    moreover have "ie_quote p (headroom q0 + length g) (cut ?n (g @ t') q1) = Some (cut (length g + (8 + x)) (g @ j' @ drop (8 + x) t') q1)"
      using quote(1) [of q1] nq(2) by simp
    ultimately show "ie_build s ident (headroom p) p source_route q0 = Some q"
      using hd(1) [of ?h, folded t_def] ip icmp gl(1) unfolding ie_build_def Let_def b0(1)
      by (cases "ie_fill_ip s ident ?src (headroom q0) (?h @ d)") simp_all
    show "ie_message s ident p source_route q"
    proof (rule ie_messageI)
      show "pdata q = ?g @ j'" by (simp add: q_def)
      show "ip_hlen ?g = length g" using gf(2) gl by (simp add: ip_hlen_def mem_simps)
      show "ip_v_of (get8 ?g 0) = 4" using gf(3) by (simp add: mem_simps)
      show "get16 ?g IP_LEN = htons (of_nat (plen q))" using gl(3) by (simp add: q_def mem_simps)
      show "plen q < 65536" using jl x_def room(1) assms(4) by (simp add: q_def)
      show "plen q = min (unat (ie_mtu s)) (length g + 8 + plen p)" using jl room(1) by (simp add: q_def x_def)
      show "drop 20 ?g = ie_options ?oa source_route" using gf(11) by (simp add: mem_simps opts_def)
      show "get8 j' 0 = word_of_int (ie_type s)" "get8 j' 1 = word_of_int (ie_code s)" "get32 j' 4 = ie_particulars s p"
        using t' t8 by (simp_all add: j'_def j_def mem_simps)
      show "drop 8 j' = take (length j' - 8) (pdata p)" using jl quote(2) t'(2) by (simp add: j'_def j_def mem_simps)
    qed (use gl gf jl fin(2) quote(3) q0 in \<open>simp_all add: q_def q1_def mem_simps\<close>)
  qed
qed

section \<open>The element\<close>

text \<open>A parameter problem whose pointer lies in the source route option at \<open>sr\<close>.\<close>

definition ie_blames_route :: "icmperror \<Rightarrow> packet \<Rightarrow> nat \<Rightarrow> bool" where
  "ie_blames_route s p sr \<longleftrightarrow>
     ie_type s = ICMP_PARAMPROB \<and> ie_code s = ICMP_PARAMPROB_ERRATPTR \<and> sr \<le> unat (icmp_paramprob_anno p) \<and>
     unat (icmp_paramprob_anno p) < sr + unat (get8 (pdata p @ troom p) (sr + 1))"

definition ie_answers_route :: "icmperror \<Rightarrow> packet \<Rightarrow> nat option \<Rightarrow> nat option" where
  "ie_answers_route s p source_route =
     (case source_route of None \<Rightarrow> None | Some sr \<Rightarrow> if ie_blames_route s p sr then None else Some sr)"

lemma ie_valid_source_route_result:
  assumes "ip_valid p" and "ip_hlen (pdata p) < plen p + tailroom p"
  obtains r where "ie_valid_source_route (pbuffer p) (headroom p) = Some r"
    and "route_ok (pdata p @ troom p) (ip_hlen (pdata p)) r"
proof -
  let ?oa = "pdata p @ troom p" and ?m = "ip_hlen (pdata p)"
  have l: "?m < length ?oa" using assms(2) by simp
  obtain r where r: "ie_source_route ?oa ?m 20 = Some r" "\<And>sr. r = Some sr \<Longrightarrow> 20 \<le> sr \<and> route_option ?oa ?m sr"
    using ie_source_route_result [OF l, of 20] by blast
  have "ld8 (pbuffer p) (headroom p) = Some (get8 (pdata p) 0)" "drop (headroom p) (pbuffer p) = ?oa"
    using ip_valid_facts(1) [OF assms(1)] by (auto simp: pbuffer_def ld8_def get8_def nth_append)
  then have "ie_valid_source_route (pbuffer p) (headroom p) = Some r"
    using r(1) by (simp add: ie_valid_source_route_def ip_hlen_def)
  moreover have "route_ok ?oa ?m r"
    using r(2) l ip_hlen_bounds(1) [of "pdata p"] by (simp add: route_ok_def split: option.splits)
  ultimately show ?thesis by (rule that)
qed

lemma ie_route_choice_result:
  assumes "route_ok (pdata p @ troom p) hlen r"
  shows "ie_route_choice s p (pdata p @ troom p) r =
    Some (if r \<noteq> None \<and> ie_type s = ICMP_REDIRECT then None else Some (ie_answers_route s p r))"
proof (cases r)
  case (Some sr)
  then have "sr + 1 < length (pdata p @ troom p)" using assms by (simp add: route_ok_def route_option_def)
  then have "ld8 (pdata p @ troom p) (sr + 1) = Some (get8 (pdata p @ troom p) (sr + 1))" by (simp add: ld8_def)
  then show ?thesis
    by (simp add: Some ie_route_choice_def Let_def ie_answers_route_def ie_blames_route_def)
qed (simp add: ie_route_choice_def ie_answers_route_def)

lemma icmperror_action_result:
  assumes "ip_valid p" and "alloc_ok e" and "68 \<le> unat (ie_mtu s)" and "unat (ie_mtu s) < 65536"
    and "ip_hlen (pdata p) < plen p + tailroom p" and "ie_valid_source_route (pbuffer p) (headroom p) = Some r"
  shows "if ie_refuses s p \<or> (r \<noteq> None \<and> ie_type s = ICMP_REDIRECT)
    then icmperror_action e p ident s = Some (ident, [])
    else \<exists>q. icmperror_action e p ident s = Some (ident + 1, [(0, q)]) \<and> ie_message s ident p (ie_answers_route s p r) q"
proof -
  let ?oa = "pdata p @ troom p" and ?m = "ip_hlen (pdata p)"
  have rok: "route_ok ?oa ?m r"
    using ie_valid_source_route_result [OF assms(1,5)] assms(6) by (metis option.inject)
  then have ans: "route_ok ?oa ?m (ie_answers_route s p r)"
    by (auto simp: ie_answers_route_def route_ok_def split: option.splits)
  have d: "drop (headroom p) (pbuffer p) = ?oa" by (simp add: pbuffer_def)
  have n: "network_pos p = Some (headroom p)" "net_off p \<noteq> None"
    using assms(1) by (simp_all add: network_pos_valid ip_valid_def)
  note facts = n ie_silent_valid [OF assms(1)] assms(6) ie_route_choice_result [OF rok]
  show ?thesis
  proof (cases "ie_refuses s p \<or> (r \<noteq> None \<and> ie_type s = ICMP_REDIRECT)")
    case True
    then show ?thesis using facts by (auto simp: icmperror_action_def d)
  next
    case False
    obtain q0 where q0: "pkt_make e default_headroom None (unat (ie_mtu s)) 0 = Some q0"
      using pkt_make_Some [OF assms(2)] by metis
    obtain q where "ie_build s ident (headroom p) p (ie_answers_route s p r) q0 = Some q"
      "ie_message s ident p (ie_answers_route s p r) q"
      by (rule ie_build_result [OF assms(1) q0 assms(3,4) ans])
    then show ?thesis using False facts q0 by (auto simp: icmperror_action_def d)
  qed
qed

section \<open>Properties\<close>

text \<open>What a configuration guarantees.\<close>

definition ie_configured :: "icmperror \<Rightarrow> bool" where
  "ie_configured s \<longleftrightarrow> ie_is_error_type (ie_type s) \<and> 0 \<le> ie_code s \<and> ie_code s \<le> 255"

text \<open>C38: The fields of an \<^verbatim>\<open>ICMPError\<close> have the values their use relies on: a configuration that is accepted gives an error
  type and a code that fits its byte, with the documented defaults for what was left out (576 bytes for the MTU); one that is rejected changes nothing;
  and the write handlers, which change the source address and the two MTUs, keep type and code.\<close>

theorem icmperror_configure_typed:
  "case icmperror_configure query_int conf s of (r, t) \<Rightarrow>
     (r < 0 \<longrightarrow> t = s) \<and>
     (r \<ge> 0 \<longrightarrow> ie_configured t \<and>
        (\<exists>a. conf = Some a \<and> ie_type t = ia_type a \<and> ie_src_ip t = ia_src a \<and> (ia_mtu a = None \<longrightarrow> ie_mtu t = 576) \<and>
             (\<forall>m. ia_mtu a = Some m \<longrightarrow> ie_mtu t = m))) \<and>
     (ie_configured s \<longrightarrow> ie_configured (ie_write_handler h s) \<and> ie_type (ie_write_handler h s) = ie_type s \<and>
        ie_code (ie_write_handler h s) = ie_code s)"
  by (cases h) (auto simp: icmperror_configure_def ie_configured_def split: option.splits)

lemma ie_type_byte: "ie_is_error_type k \<Longrightarrow> int (unat (word_of_int k :: byte)) = k"
  by (auto simp: ie_is_error_type_def icmp_consts)

section \<open>The packets that get no answer\<close>

text \<open>RFC 1812, 4.3.2.7, on the bytes of the packet: an ICMP error, or an ICMP message too short to tell; a packet to the limited
  broadcast address, to a multicast address (224 to 239) or to one of the configured addresses; a link-level broadcast or
  multicast; a packet that does not come from a single host (first byte 0, 127, or 224 and more, or a configured address); and a
  fragment other than the first.\<close>

definition rfc1812_silent :: "ipaddr set \<Rightarrow> packet \<Rightarrow> bool" where
  "rfc1812_silent bad p \<longleftrightarrow>
     (let d = pdata p; hlen = ip_hlen d; dst = unat (get8 d 16); src = unat (get8 d 12) in
      get8 d 9 = 1 \<and> (plen p < hlen + 4 \<or> get8 d hlen \<in> {3, 4, 5, 11, 12}) \<or>
      get32 d 16 = 0xffffffff \<or> 224 \<le> dst \<and> dst < 240 \<or> get32 d 16 \<in> bad \<or>
      packet_type_anno p \<in> {BROADCAST, MULTICAST} \<or>
      src = 0 \<or> src = 127 \<or> 224 \<le> src \<or> get32 d 12 \<in> bad \<or>
      unat (ntohs (get16 d 6)) mod 8192 \<noteq> 0)"

lemma top_bits:
  fixes w :: u32
  shows "w AND 0xf0000000 = 0xe0000000 \<longleftrightarrow> drop_bit 28 w = 0xe"
proof -
  have m: "(0xf0000000 :: u32) = NOT (mask 28)" by (simp add: mask_eq_exp_minus_1)
  have p: "w AND 0xf0000000 = push_bit 28 (drop_bit 28 w)"
    unfolding m by (rule bit_word_eqI) (auto simp: bit_simps)
  have "drop_bit 28 (push_bit 28 (drop_bit 28 w)) = drop_bit 28 w"
    by (rule bit_word_eqI) (auto simp: bit_simps dest: bit_imp_le_length)
  moreover have "drop_bit 28 (0xe0000000 :: u32) = 0xe" "push_bit 28 (0xe :: u32) = 0xe0000000" by simp_all
  ultimately show ?thesis using p by metis
qed

lemma ntohl_first: "drop_bit 24 (ntohl (get32 d i)) = ucast (get8 d i)"
proof (rule bit_word_eqI)
  fix n assume "n < LENGTH(32)"
  show "bit (drop_bit 24 (ntohl (get32 d i))) n \<longleftrightarrow> bit (ucast (get8 d i) :: u32) n"
  proof (cases "n < 8")
    case True
    then show ?thesis
      by (simp add: ntohl_def get32_def get16_def get8_def bit_drop_bit_eq bit_le32 bit_ntohs bit_le16 bit_ucast_iff)
  next
    case False
    then show ?thesis using bit_imp_le_length [of "ntohl (get32 d i)" "24 + n"] bit_imp_le_length [of "get8 d i" n]
      by (auto simp: bit_simps)
  qed
qed

lemma unat_ucast_byte: "unat (ucast b :: u32) = unat b" for b :: byte
proof -
  have "unat b < 256" using unsigned_less [of b] by simp
  then have "unat b < 2 ^ 32" by (rule less_trans) simp
  from take_bit_nat_eq_self [OF this] show ?thesis by (simp add: unsigned_ucast_eq)
qed

lemma ucast_byte:
  fixes b :: byte
  shows "(ucast b :: u32) AND 0xff = ucast b" and "(ucast b :: u32) = 0 \<longleftrightarrow> unat b = 0" and "(ucast b :: u32) = 127 \<longleftrightarrow> unat b = 127"
    and "(ucast b :: u32) AND 0xf0 = 0xf0 \<longleftrightarrow> 240 \<le> unat b"
    and "drop_bit 4 (ucast b :: u32) = 0xe \<longleftrightarrow> 224 \<le> unat b \<and> unat b < 240"
proof -
  let ?w = "ucast b :: u32"
  have w: "unat ?w = unat b" by (rule unat_ucast_byte)
  have lt: "unat b < 256" using unsigned_less [of b] by simp
  have m: "(0xff :: u32) = mask 8" "(0xf0 :: u32) = mask 8 AND NOT (mask 4)" by (simp_all add: mask_eq_exp_minus_1)
  show "?w AND 0xff = ?w"
    unfolding m(1) by (rule bit_word_eqI) (auto simp: bit_simps dest: bit_imp_le_length)
  show "?w = 0 \<longleftrightarrow> unat b = 0" "?w = 127 \<longleftrightarrow> unat b = 127" by (simp_all add: word_unat_eq_iff w)
  have d: "unat (drop_bit 4 ?w) = unat b div 16" by (simp add: unat_drop_bit_eq drop_bit_nat_def w)
  show "drop_bit 4 ?w = 0xe \<longleftrightarrow> 224 \<le> unat b \<and> unat b < 240"
    unfolding word_unat_eq_iff d by (simp, linarith)
  have p: "?w AND 0xf0 = push_bit 4 (drop_bit 4 ?w)"
    unfolding m(2) by (rule bit_word_eqI) (auto simp: bit_simps dest: bit_imp_le_length)
  have "drop_bit 4 (push_bit 4 (drop_bit 4 ?w)) = drop_bit 4 ?w"
    by (rule bit_word_eqI) (auto simp: bit_simps dest: bit_imp_le_length)
  moreover have "drop_bit 4 (0xf0 :: u32) = 0xf" "push_bit 4 (0xf :: u32) = 0xf0" by simp_all
  ultimately have "?w AND 0xf0 = 0xf0 \<longleftrightarrow> drop_bit 4 ?w = 0xf" using p by metis
  also have "\<dots> \<longleftrightarrow> 240 \<le> unat b" unfolding word_unat_eq_iff d using lt by (simp, linarith)
  finally show "?w AND 0xf0 = 0xf0 \<longleftrightarrow> 240 \<le> unat b" .
qed

lemma ntohl_ones: "ntohl a = 0xffffffff \<longleftrightarrow> a = 0xffffffff"
proof -
  have "ntohl a = 0xffffffff \<longleftrightarrow> a = htonl 0xffffffff" by (metis ntohl_htonl(1,2))
  then show ?thesis by (simp add: htonl_def htons_def le32_def le16_def hi16_def lo16_def hi8_def lo8_def)
qed

lemma address_classes:
  "ie_unicast s (get32 d i) \<longleftrightarrow>
     get32 d i \<noteq> 0xffffffff \<and> \<not> (224 \<le> unat (get8 d i) \<and> unat (get8 d i) < 240) \<and> get32 d i \<notin> set (ie_bad_addrs s)"
  "ie_valid_source s (get32 d i) \<longleftrightarrow> unat (get8 d i) \<noteq> 0 \<and> unat (get8 d i) \<noteq> 127 \<and> unat (get8 d i) < 224 \<and> get32 d i \<notin> set (ie_bad_addrs s)"
proof -
  let ?a = "get32 d i" and ?b = "get8 d i"
  have "drop_bit 28 (ntohl ?a) = drop_bit 4 (drop_bit 24 (ntohl ?a))" by simp
  then have mc: "ntohl ?a AND 0xf0000000 = 0xe0000000 \<longleftrightarrow> 224 \<le> unat ?b \<and> unat ?b < 240"
    unfolding top_bits by (simp add: ntohl_first ucast_byte del: drop_bit_drop_bit)
  show u: "ie_unicast s ?a \<longleftrightarrow> ?a \<noteq> 0xffffffff \<and> \<not> (224 \<le> unat ?b \<and> unat ?b < 240) \<and> ?a \<notin> set (ie_bad_addrs s)"
    unfolding ie_unicast_def Let_def mc ntohl_ones by auto
  have "unat ?b = 255" if "?a = 0xffffffff"
  proof -
    have "(ucast ?b :: u32) = drop_bit 24 (ntohl 0xffffffff)" using ntohl_first [of d i] that by simp
    also have "\<dots> = 255" using ntohl_ones [of "0xffffffff"] by simp
    finally have "unat (ucast ?b :: u32) = 255" by simp
    then show ?thesis by (simp only: unat_ucast_byte)
  qed
  then show "ie_valid_source s ?a \<longleftrightarrow> unat ?b \<noteq> 0 \<and> unat ?b \<noteq> 127 \<and> unat ?b < 224 \<and> ?a \<notin> set (ie_bad_addrs s)"
    unfolding ie_valid_source_def Let_def u ntohl_first ucast_byte by auto
qed

lemma error_type_byte: "ie_is_error_type (int (unat b)) \<longleftrightarrow> b \<in> {3, 4, 5, 11, 12}" for b :: byte
  by (simp add: ie_is_error_type_def icmp_consts word_uint_eq_iff)

lemma ie_refuses_rfc1812: "ie_refuses s p \<longleftrightarrow> rfc1812_silent (set (ie_bad_addrs s)) p"
  unfolding ie_refuses_def rfc1812_silent_def Let_def IP_PROTO_ICMP_def error_type_byte
  by (simp only: get_ip_0 click_ip.simps address_classes) auto

text \<open>The first source route option of a list of options that starts at offset \<open>n\<close> of a header.\<close>

function route_at :: "nat \<Rightarrow> bytes \<Rightarrow> nat option" where
  "route_at n opts =
     (case opts of
        [] \<Rightarrow> None
      | ty # rest \<Rightarrow>
          if ty = 1 then route_at (n + 1) rest
          else if ty = 0 \<or> rest = [] \<or> unat (hd rest) < 2 \<or> unat (hd rest) > length opts then None
          else let x = unat (hd rest); ptr = unat (opts ! 2)
               in if (ty = 131 \<or> ty = 137) \<and> 3 \<le> x \<and> 4 \<le> ptr \<and> 4 dvd ptr \<and> ptr \<le> x + 1 then Some n
                  else route_at (n + x) (drop x opts))"
  by pat_completeness auto
termination
  by (relation "measure (\<lambda>(n, opts). length opts)") auto

declare route_at.simps [simp del]

lemma route_at_option:
  assumes "opts = ty # rest" and "ty \<noteq> 1" and "ty \<noteq> 0" and "rest \<noteq> []" and "hd rest = l" and "2 \<le> unat l" and "unat l \<le> length opts"
  shows "route_at n opts =
    (if (ty = 131 \<or> ty = 137) \<and> 3 \<le> unat l \<and> 4 \<le> unat (opts ! 2) \<and> 4 dvd unat (opts ! 2) \<and> unat (opts ! 2) \<le> unat l + 1
     then Some n else route_at (n + unat l) (drop (unat l) opts))"
  using assms(2-7) unfolding route_at.simps [of n opts] unfolding assms(1) by (simp add: Let_def)

lemma ie_source_route_list:
  assumes "hlen < length oa"
  shows "ie_source_route oa hlen oi = Some (route_at oi (take (hlen - oi) (drop oi oa)))"
proof (induction "hlen - oi" arbitrary: oi rule: less_induct)
  case less
  note len = assms
  let ?o = "take (hlen - oi) (drop oi oa)"
  show ?case
  proof (cases "oi < hlen")
    case False
    then show ?thesis by (simp add: ie_source_route.simps route_at.simps)
  next
    case True
    let ?t = "get8 oa oi" and ?l = "get8 oa (oi + 1)" and ?ptr = "get8 oa (oi + 2)"
    have ld: "ld8 oa oi = Some ?t" "ld8 oa (oi + 1) = Some ?l" using True len by (simp_all add: mem_simps)
    have "drop oi oa = ?t # drop (Suc oi) oa" "hlen - oi = Suc (hlen - Suc oi)"
      using True len Cons_nth_drop_Suc [of oi oa] by (simp_all add: get8_def)
    then have o: "?o = ?t # take (hlen - Suc oi) (drop (Suc oi) oa)" "length ?o = hlen - oi"
      using True len by (simp, simp)
    have rest: "take (hlen - Suc oi) (drop (Suc oi) oa) = [] \<longleftrightarrow> hlen = Suc oi"
      "hlen \<noteq> Suc oi \<Longrightarrow> hd (take (hlen - Suc oi) (drop (Suc oi) oa)) = ?l"
      using True len by (auto simp: hd_drop_conv_nth get8_def)
    have dr: "drop k ?o = take (hlen - (oi + k)) (drop (oi + k) oa)" for k
      by (simp add: drop_take add.commute)
    have end1: "unat ?l < 2 \<or> oi + unat ?l > hlen" if "hlen = Suc oi" using that by linarith
    consider "?t = 1" | "?t = 0" | "?t \<noteq> 1" "?t \<noteq> 0" "unat ?l < 2 \<or> oi + unat ?l > hlen"
      | "?t \<noteq> 1" "?t \<noteq> 0" "\<not> (unat ?l < 2 \<or> oi + unat ?l > hlen)" by blast
    then show ?thesis
    proof cases
      case 1
      then show ?thesis
        using True ld less.hyps [of "oi + 1"] o dr [of 1] by (subst ie_source_route.simps, subst route_at.simps) (simp add: IPOPT_NOP_def)
    next
      case 2
      then show ?thesis
        using True ld o by (subst ie_source_route.simps, subst route_at.simps) (simp add: IPOPT_NOP_def IPOPT_EOL_def)
    next
      case 3
      then show ?thesis
        using True ld o rest end1 by (subst ie_source_route.simps, subst route_at.simps) (auto simp: IPOPT_NOP_def IPOPT_EOL_def)
    next
      case 4
      have ptr: "ld8 oa (oi + 2) = Some ?ptr" "3 \<le> unat ?l \<Longrightarrow> ?o ! 2 = ?ptr"
        using 4(3) len by (simp_all add: ld8_def get8_def)
      have nn: "hlen \<noteq> Suc oi" using 4(3) by linarith
      have "ie_source_route oa hlen oi =
        (if (?t = IPOPT_LSRR \<or> ?t = IPOPT_SSRR) \<and> unat ?ptr \<ge> 4 \<and> unat ?ptr mod 4 = 0 \<and> unat ?ptr \<le> unat ?l + 1
         then Some (Some oi) else ie_source_route oa hlen (oi + unat ?l))"
        using True ld ptr(1) 4 by (subst ie_source_route.simps) (simp add: IPOPT_NOP_def IPOPT_EOL_def)
      moreover have "route_at oi ?o =
        (if (?t = IPOPT_LSRR \<or> ?t = IPOPT_SSRR) \<and> unat ?ptr \<ge> 4 \<and> unat ?ptr mod 4 = 0 \<and> unat ?ptr \<le> unat ?l + 1
         then Some oi else route_at (oi + unat ?l) (drop (unat ?l) ?o))"
      proof -
        have "route_at oi ?o =
          (if (?t = 131 \<or> ?t = 137) \<and> 3 \<le> unat ?l \<and> 4 \<le> unat (?o ! 2) \<and> 4 dvd unat (?o ! 2) \<and> unat (?o ! 2) \<le> unat ?l + 1
           then Some oi else route_at (oi + unat ?l) (drop (unat ?l) ?o))"
          by (rule route_at_option [OF o(1) 4(1,2) _ rest(2) [OF nn]]) (use rest(1) nn 4(3) o(2) in \<open>auto simp: not_less\<close>)
        then show ?thesis using ptr(2) by (cases "3 \<le> unat ?l") (auto simp: IPOPT_LSRR_def IPOPT_SSRR_def dvd_eq_mod_eq_0)
      qed
      moreover have "ie_source_route oa hlen (oi + unat ?l) = Some (route_at (oi + unat ?l) (take (hlen - (oi + unat ?l)) (drop (oi + unat ?l) oa)))"
        by (rule less.hyps) (use 4(3) True in linarith)
      ultimately show ?thesis unfolding dr by (simp only: if_distrib [of Some] simp_thms)
    qed
  qed
qed

lemma ie_valid_source_route_list:
  assumes "ip_valid p" and "ip_hlen (pdata p) < plen p + tailroom p"
  shows "ie_valid_source_route (pbuffer p) (headroom p) = Some (route_at 20 (options_of (pdata p)))"
proof -
  let ?oa = "pdata p @ troom p"
  note v = ip_valid_facts [OF assms(1)]
  have "ld8 (pbuffer p) (headroom p) = Some (get8 (pdata p) 0)" "drop (headroom p) (pbuffer p) = ?oa"
    using v(1) by (auto simp: pbuffer_def ld8_def get8_def nth_append)
  moreover have "take (ip_hlen (pdata p) - 20) (drop 20 ?oa) = options_of (pdata p)" using v by simp
  moreover have "ie_source_route ?oa (ip_hlen (pdata p)) 20 = Some (route_at 20 (take (ip_hlen (pdata p) - 20) (drop 20 ?oa)))"
    by (rule ie_source_route_list) (use assms(2) in simp)
  ultimately show ?thesis
    by (simp only: ie_valid_source_route_def bind.simps ip_hlen_def [symmetric])
qed

lemma icmperror_action_rfc1812:
  assumes "ip_valid p" and "alloc_ok e" and "68 \<le> unat (ie_mtu s)" and "unat (ie_mtu s) < 65536"
    and "ip_hlen (pdata p) < plen p + tailroom p"
  defines "r \<equiv> route_at 20 (options_of (pdata p))"
  shows "if rfc1812_silent (set (ie_bad_addrs s)) p \<or> (r \<noteq> None \<and> ie_type s = 5)
    then icmperror_action e p ident s = Some (ident, [])
    else \<exists>q. icmperror_action e p ident s = Some (ident + 1, [(0, q)]) \<and> ie_message s ident p (ie_answers_route s p r) q"
  using icmperror_action_result [OF assms(1-5) ie_valid_source_route_list [OF assms(1,5)], of ident]
  unfolding ie_refuses_rfc1812 r_def ICMP_REDIRECT_def .

text \<open>The first fragment of several (offset 0, more fragments to come).\<close>

definition first_fragment :: "bytes \<Rightarrow> bool" where
  "first_fragment d \<longleftrightarrow> bit (ntohs (get16 d 6)) 13 \<and> unat (ntohs (get16 d 6)) mod 8192 = 0"

text \<open>The documentation of the element says that fragments are never answered; the first fragment of a packet is.\<close>

lemma icmperror_answers_first_fragment:
  assumes "ip_valid p" and "alloc_ok e" and "68 \<le> unat (ie_mtu s)" and "unat (ie_mtu s) < 65536"
    and "ip_hlen (pdata p) < plen p + tailroom p" and "\<not> rfc1812_silent (set (ie_bad_addrs s)) p" and "first_fragment (pdata p)"
    and "ie_type s \<noteq> 5"
  shows "\<exists>q. icmperror_action e p ident s = Some (ident + 1, [(0, q)])"
  using icmperror_action_rfc1812 [OF assms(1-5), of ident] assms(6,8) by auto

text \<open>C19: \<^verbatim>\<open>ICMPError\<close> on a packet with a valid IP header that is not the first of several fragments, when memory is available, the
  MTU lies between 68 and 65535 and the header is not the very end of the buffer: it stays silent exactly for the packets of
  RFC 1812 (\<open>rfc1812_silent\<close>) and, when it sends redirects, for packets with a source route option. For every other packet it sends one
  message: a valid IP packet back to the sender of no more than the MTU, with a verifying ICMP checksum, that quotes
  the packet from its header on and carries its source route reversed, and it advances the identification.\<close>

theorem icmperror_action_spec:
  assumes "ip_valid p" and "alloc_ok e" and "68 \<le> unat (ie_mtu s)" and "unat (ie_mtu s) < 65536"
    and "ip_hlen (pdata p) < plen p + tailroom p" and "\<not> first_fragment (pdata p)"
  shows "if rfc1812_silent (set (ie_bad_addrs s)) p \<or> (route_at 20 (options_of (pdata p)) \<noteq> None \<and> ie_type s = 5)
    then icmperror_action e p ident s = Some (ident, [])
    else \<exists>q. icmperror_action e p ident s = Some (ident + 1, [(0, q)]) \<and>
      ie_message s ident p (ie_answers_route s p (route_at 20 (options_of (pdata p)))) q"
  by (rule icmperror_action_rfc1812 [OF assms(1-5)])

text \<open>A message is refused by every \<^verbatim>\<open>ICMPError\<close>.\<close>

lemma ie_message_refused:
  assumes "ie_message s ident p r q" and "ie_configured s"
  shows "ip_valid q" and "ie_refuses t q"
proof -
  have m: "ip_valid q" "ip_p (get_ip (pdata q) 0) = IP_PROTO_ICMP"
    "get8 (pdata q) (ip_hlen (pdata q)) = word_of_int (ie_type s)"
    using assms(1) unfolding ie_message_def Let_def by simp_all
  show "ip_valid q" by (rule m(1))
  show "ie_refuses t q"
    using m ie_type_byte [of "ie_type s"] assms(2) by (simp add: ie_refuses_def Let_def ie_configured_def)
qed

lemma icmperror_action_refuses:
  assumes "ip_valid q" and "ie_refuses t q"
  shows "icmperror_action e q ident t = Some (ident, [])"
  using assms ie_silent_valid [OF assms(1), of t]
  by (simp add: icmperror_action_def network_pos_valid)

lemma icmperror_emission_message:
  assumes "ip_valid p" and "alloc_ok e" and "68 \<le> unat (ie_mtu s)" and "unat (ie_mtu s) < 65536"
    and "ip_hlen (pdata p) < plen p + tailroom p" and "icmperror_action e p ident s = Some (ident', [(k, q)])"
  obtains r where "ie_valid_source_route (pbuffer p) (headroom p) = Some r"
    and "ie_message s ident p (ie_answers_route s p r) q" and "k = 0" and "ident' = ident + 1"
proof -
  obtain r where r: "ie_valid_source_route (pbuffer p) (headroom p) = Some r"
    by (rule ie_valid_source_route_result [OF assms(1,5)])
  then show ?thesis using icmperror_action_result [OF assms(1-5) r, of ident] assms(6) that by (auto split: if_splits)
qed

text \<open>C20: Errors do not cause errors: when an \<^verbatim>\<open>ICMPError\<close> has sent a message about a packet with a valid header, no
  \<^verbatim>\<open>ICMPError\<close>, however configured and whether or not memory is available, sends one about that message, not even when the message
  comes back.\<close>

theorem icmperror_no_error_about_error:
  assumes "ip_valid p" and "alloc_ok e" and "68 \<le> unat (ie_mtu s)" and "unat (ie_mtu s) < 65536"
    and "ip_hlen (pdata p) < plen p + tailroom p" and "ie_configured s"
    and "icmperror_action e p ident s = Some (ident', [(k, q)])"
  shows "icmperror_action e' q ident'' t = Some (ident'', [])"
proof -
  obtain r where "ie_message s ident p (ie_answers_route s p r) q"
    by (rule icmperror_emission_message [OF assms(1-5,7)])
  then show ?thesis using ie_message_refused [OF _ assms(6)] by (blast intro: icmperror_action_refuses)
qed

text \<open>The addresses in the options of a message.\<close>

lemma route_hops_append:
  assumes "length hops = 4 * n" and "\<And>h. h \<in> set hs \<Longrightarrow> length h = 4" and "hops = concat hs" and "length hs = n"
    and "length d0 = k + 3"
  shows "route_hops (d0 @ hops @ d1) k n = hs"
proof (rule nth_equalityI)
  show "length (route_hops (d0 @ hops @ d1) k n) = length hs" using assms(4) by (simp add: route_hops_def)
  have c: "take 4 (drop (4 * j) (concat hs)) = hs ! j" if "j < length hs" for j
    using that assms(2)
  proof (induction hs arbitrary: j)
    case (Cons h hs)
    then show ?case by (cases j) (simp_all add: add.commute [of 4] drop_append)
  qed simp
  fix j assume "j < length (route_hops (d0 @ hops @ d1) k n)"
  then have j: "j < n" by (simp add: route_hops_def)
  then have "4 * j + 4 \<le> length hops" using assms(1) by simp
  then have "slice (k + 3 + 4 * j) 4 (d0 @ hops @ d1) = take 4 (drop (4 * j) hops)"
    using assms(5) by (simp add: slice_def)
  then show "route_hops (d0 @ hops @ d1) k n ! j = hs ! j"
    using j c [of j] assms(3,4) by (simp add: route_hops_def)
qed

lemma slice_ie_options:
  assumes "ie_message s ident p (Some sr) q" and "route_ok (pdata p @ troom p) hlen (Some sr)"
  defines "ptr \<equiv> unat (get8 (pdata p @ troom p) (sr + 2))"
  shows "get8 (pdata q) 20 = get8 (pdata p @ troom p) sr" and "get8 (pdata q) 22 = 4"
    and "unat (get8 (pdata q) 21) = ptr - 1"
    and "route_hops (pdata q) 20 (ptr div 4 - 1) = rev (route_hops (pdata p @ troom p) sr (ptr div 4 - 1))"
proof -
  let ?oa = "pdata p @ troom p" and ?d = "pdata q" and ?n = "ptr div 4 - 1"
  define hs where "hs = rev (route_hops ?oa sr ?n)"
  have r: "4 \<le> ptr" "4 dvd ptr" "ptr \<le> unat (get8 ?oa (sr + 1)) + 1" "sr + unat (get8 ?oa (sr + 1)) \<le> hlen" "hlen < length ?oa"
    using assms(2) by (simp_all add: route_ok_def route_option_def ptr_def)
  have p: "ptr = 4 * ?n + 4" using r(1,2) by (elim dvdE) simp
  have hl: "length (concat hs) = 4 * ?n" unfolding hs_def using r p by (intro length_route_hops) linarith
  have "slice 20 (ip_hlen ?d - 20) ?d = ie_options ?oa (Some sr)"
    using assms(1) unfolding ie_message_def Let_def by simp
  then have s: "slice 20 (ip_hlen ?d - 20) ?d = [get8 ?oa sr, of_nat (ptr - 1), 4] @ concat hs @ [IPOPT_EOL]"
    by (simp add: ie_options_def Let_def ptr_def hs_def)
  define z where "z = drop (ip_hlen ?d - 20) (drop 20 ?d)"
  have "ip_valid q" using assms(1) unfolding ie_message_def Let_def by simp
  then have t: "length (take 20 ?d) = 20" using ip_valid_facts(1) by fastforce
  have "?d = take 20 ?d @ slice 20 (ip_hlen ?d - 20) ?d @ z" by (simp only: slice_def z_def append_take_drop_id)
  then have d: "?d = (take 20 ?d @ [get8 ?oa sr, of_nat (ptr - 1), 4]) @ concat hs @ (IPOPT_EOL # z)" unfolding s by simp
  have n: "?d ! 20 = get8 ?oa sr" "?d ! 21 = of_nat (ptr - 1)" "?d ! 22 = 4"
    by (subst d, use t in \<open>simp add: nth_append\<close>)+
  then show "get8 ?d 20 = get8 ?oa sr" "get8 ?d 22 = 4" by (simp_all add: get8_def)
  have "unat (of_nat (ptr - 1) :: byte) = ptr - 1"
    by (rule unat_word_of_nat) (use unat_less_256 [of "get8 ?oa (sr + 2)"] in \<open>simp add: ptr_def less_imp_diff_less\<close>)
  then show "unat (get8 ?d 21) = ptr - 1" using n by (simp add: get8_def)
  have "length h = 4" if "h \<in> set hs" for h
    using that r p by (auto simp: hs_def route_hops_def)
  then show "route_hops ?d 20 ?n = rev (route_hops ?oa sr ?n)"
    unfolding hs_def [symmetric] using hl t
    by (subst d, intro route_hops_append) (auto simp: hs_def route_hops_def)
qed

text \<open>C21: The way back: a message about a packet whose source route has been followed up to the pointer \<open>ptr\<close> carries a source route option
  of the same kind that starts at its first address and lists the addresses already visited in reverse order, unless the message is
  a parameter problem about the route itself.\<close>

theorem icmperror_reverses_route:
  assumes "ip_valid p" and "alloc_ok e" and "68 \<le> unat (ie_mtu s)" and "unat (ie_mtu s) < 65536"
    and "ip_hlen (pdata p) < plen p + tailroom p"
    and "ie_valid_source_route (pbuffer p) (headroom p) = Some (Some sr)" and "\<not> ie_blames_route s p sr"
    and "icmperror_action e p ident s = Some (ident', [(k, q)])" and "ptr = unat (get8 (pdata p @ troom p) (sr + 2))"
  shows "get8 (pdata q) 20 = get8 (pdata p @ troom p) sr \<and> unat (get8 (pdata q) 21) = ptr - 1 \<and> get8 (pdata q) 22 = 4 \<and>
    route_hops (pdata q) 20 (ptr div 4 - 1) = rev (route_hops (pdata p @ troom p) sr (ptr div 4 - 1))"
proof -
  obtain r where r: "ie_valid_source_route (pbuffer p) (headroom p) = Some r" "ie_message s ident p (ie_answers_route s p r) q"
    by (rule icmperror_emission_message [OF assms(1-5,8)])
  then have m: "ie_message s ident p (Some sr) q" using assms(6,7) by (auto simp: ie_answers_route_def)
  obtain r' where "ie_valid_source_route (pbuffer p) (headroom p) = Some r'" "route_ok (pdata p @ troom p) (ip_hlen (pdata p)) r'"
    by (rule ie_valid_source_route_result [OF assms(1,5)])
  then have "route_ok (pdata p @ troom p) (ip_hlen (pdata p)) (Some sr)" using assms(6) by simp
  from slice_ie_options [OF m this] show ?thesis by (simp add: assms(9))
qed

text \<open>A packet that runs out of hops on the forwarding path: \<^verbatim>\<open>DecIPTTL\<close> counts it and sends it to its second output, and the
  \<^verbatim>\<open>ICMPError\<close> there (\<^verbatim>\<open>timeexceeded\<close> in the scripts) tells its sender, unless the packet is one nobody is told about.\<close>

theorem ttl_exceeded_reported:
  assumes "ip_valid p" and "get8 (pdata p) IP_TTL \<le> 1" and "dt_active t" and "dt_multicast t" and "alloc_ok e"
    and "ie_type s = ICMP_TIMXCEED" and "68 \<le> unat (ie_mtu s)" and "unat (ie_mtu s) < 65536"
    and "ip_hlen (pdata p) < plen p + tailroom p"
  shows "\<exists>out. decipttl_action e 2 p t = Some (t\<lparr> dt_drops := dt_drops t + 1 \<rparr>, [(1, out)]) \<and>
    (if ie_refuses s p then icmperror_action e out ident s = Some (ident, [])
     else \<exists>q. icmperror_action e out ident s = Some (ident + 1, [(0, q)]) \<and> ip_valid q \<and>
       ip_dst (get_ip (pdata q) 0) = ip_src (get_ip (pdata p) 0) \<and> get8 (pdata q) (ip_hlen (pdata q)) = 11 \<and>
       drop (ip_hlen (pdata q) + 8) (pdata q) = take (plen q - (ip_hlen (pdata q) + 8)) (pdata p))"
proof -
  have "decipttl_action e 2 p t = Some (t\<lparr> dt_drops := dt_drops t + 1 \<rparr>, [(1, p)])"
    using decipttl_action_valid [OF assms(1,3,4)] assms(2) by (simp add: checked_output_push_def)
  moreover obtain r where r: "ie_valid_source_route (pbuffer p) (headroom p) = Some r"
    by (rule ie_valid_source_route_result [OF assms(1,9)])
  have "ie_type s \<noteq> ICMP_REDIRECT" "word_of_int (ie_type s) = (11 :: byte)" using assms(6) by (simp_all add: icmp_consts)
  then have "if ie_refuses s p then icmperror_action e p ident s = Some (ident, [])
     else \<exists>q. icmperror_action e p ident s = Some (ident + 1, [(0, q)]) \<and> ip_valid q \<and>
       ip_dst (get_ip (pdata q) 0) = ip_src (get_ip (pdata p) 0) \<and> get8 (pdata q) (ip_hlen (pdata q)) = 11 \<and>
       drop (ip_hlen (pdata q) + 8) (pdata q) = take (plen q - (ip_hlen (pdata q) + 8)) (pdata p)"
    using icmperror_action_result [OF assms(1,5,7-9) r, of ident]
    by (auto simp: ie_message_def Let_def split: if_splits)
  ultimately show ?thesis by blast
qed

section \<open>Sample input\<close>

text \<open>A packet from 10.0.0.1 to 10.0.0.2 with time-to-live 1 that has followed the source route 10.0.0.3, 10.0.0.4 to its end.\<close>

definition sample_routed :: packet where
  "sample_routed =
     (the (pkt_make env0 0 (Some
       [0x48, 0, 0, 40, 0, 0, 0, 0, 1, 17, 12, 164, 10, 0, 0, 1, 10, 0, 0, 2,
        131, 11, 12, 10, 0, 0, 3, 10, 0, 0, 4, 0, 1, 2, 3, 4, 5, 6, 7, 8]) 40 0))\<lparr> net_off := Some 0, trans_off := Some 32 \<rparr>"

definition sample_icmperror :: "int \<Rightarrow> icmperror" where
  "sample_icmperror type =
     \<lparr> ie_src_ip = 0x0500000a, ie_type = type, ie_code = 0, ie_bad_addrs = [], ie_mtu = 576, ie_pmtu = 0, ie_use_fix_anno = True \<rparr>"

lemma sample_routed_data [simp]:
  "hroom sample_routed = []"
  "pdata sample_routed = [0x48, 0, 0, 40, 0, 0, 0, 0, 1, 17, 12, 164, 10, 0, 0, 1, 10, 0, 0, 2,
     131, 11, 12, 10, 0, 0, 3, 10, 0, 0, 4, 0, 1, 2, 3, 4, 5, 6, 7, 8]"
  "troom sample_routed = replicate 24 0" "net_off sample_routed = Some 0" "trans_off sample_routed = Some 32"
  "packet_type_anno sample_routed = HOST"
  by code_simp+

lemma sample_routed_valid: "ip_valid sample_routed"
proof -
  have "click_in_cksum (slice 0 32 (pdata sample_routed)) = 0"
    by (subst in_cksum.ck_zero_iff) (simp_all add: slice_def unat_le16)
  then show ?thesis
    by (simp add: ip_valid_def ip_header_ok_def ip_hlen_def get8_def get16_def ip_hl_of_def ip_v_of_def cksum_ok_def unat_ntohs unat_le16)
qed

lemma sample_routed_route: "ie_valid_source_route (pbuffer sample_routed) 0 = Some (Some 20)"
  by (simp add: ie_valid_source_route_def pbuffer_def ld8_def get8_def ip_hl_of_def ie_source_route.simps
      IPOPT_NOP_def IPOPT_EOL_def IPOPT_LSRR_def)

lemma sample_routed_accepted: "\<not> ie_refuses (sample_icmperror 11) sample_routed"
  by (simp add: ie_refuses_def Let_def get_ip_0 get8_def get16_def get32_def le16_def le32_def IP_PROTO_ICMP_def ie_valid_source_def
      ie_unicast_def ntohl_def ntohs_def hi8_def lo8_def hi16_def lo16_def sample_icmperror_def)

lemma sample_icmperror_ok:
  "ie_configured (sample_icmperror 11)" "68 \<le> unat (ie_mtu (sample_icmperror k))" "unat (ie_mtu (sample_icmperror k)) < 65536"
  "ip_hlen (pdata sample_routed) < plen sample_routed + tailroom sample_routed" "\<not> ie_blames_route (sample_icmperror 11) sample_routed 20"
  "ie_type (sample_icmperror 11) = ICMP_TIMXCEED"
  by (simp_all add: sample_icmperror_def ie_configured_def ie_is_error_type_def ie_blames_route_def icmp_consts ip_hlen_def ip_hl_of_def get8_def)

lemmas sample_icmperror_facts = sample_routed_valid env0_ok sample_icmperror_ok(2-4)

lemma sample_message:
  obtains q where "icmperror_action env0 sample_routed 7 (sample_icmperror 11) = Some (8, [(0, q)])"
    and "ie_message (sample_icmperror 11) 7 sample_routed (Some 20) q"
  using icmperror_action_result [OF sample_icmperror_facts, of "Some 20" 11 7] sample_routed_route sample_routed_accepted sample_icmperror_ok
  by (auto simp: ie_answers_route_def icmp_consts)

theorem icmperror_configure_typed_witness:
  "case icmperror_configure (\<lambda>t c. if c = ''0'' then Some 0 else None)
      (Some \<lparr> ia_src = 0x0500000a, ia_type = 11, ia_code = None, ia_bad_addrs = None, ia_mtu = None, ia_pmtu = None,
        ia_set_fix_anno = None \<rparr>) (sample_icmperror 3) of (r, t) \<Rightarrow>
     r = 0 \<and> ie_configured t \<and> ie_type t = 11 \<and> ie_mtu t = 576"
  using icmperror_configure_typed [where query_int = "\<lambda>t c. if c = ''0'' then Some 0 else None" and
      conf = "Some \<lparr> ia_src = 0x0500000a, ia_type = 11, ia_code = None, ia_bad_addrs = None, ia_mtu = None, ia_pmtu = None,
        ia_set_fix_anno = None \<rparr>" and s = "sample_icmperror 3" and h = "IE_MTU 9"]
  by (auto simp: icmperror_configure_def ie_is_error_type_def icmp_consts)

theorem icmperror_action_spec_witness:
  "\<exists>q. icmperror_action env0 sample_routed 7 (sample_icmperror 11) = Some (8, [(0, q)]) \<and>
     ie_message (sample_icmperror 11) 7 sample_routed (Some 20) q"
proof -
  have r: "route_at 20 (options_of (pdata sample_routed)) = Some 20"
    using ie_valid_source_route_list [OF sample_icmperror_facts(1,5)] sample_routed_route by simp
  have f: "\<not> first_fragment (pdata sample_routed)"
    by (simp add: first_fragment_def get16_def ntohs_def le16_def hi8_def lo8_def)
  show ?thesis
    using icmperror_action_spec [OF sample_icmperror_facts f, of 11 7] r sample_routed_accepted [unfolded ie_refuses_rfc1812] sample_icmperror_ok
    by (auto simp: ie_answers_route_def icmp_consts)
qed

theorem icmperror_no_error_about_error_witness:
  "\<exists>q. icmperror_action env0 sample_routed 7 (sample_icmperror 11) = Some (8, [(0, q)]) \<and>
     icmperror_action env0 q 8 (sample_icmperror 3) = Some (8, [])"
proof -
  obtain q where q: "icmperror_action env0 sample_routed 7 (sample_icmperror 11) = Some (8, [(0, q)])" by (rule sample_message)
  then show ?thesis
    using icmperror_no_error_about_error [OF sample_icmperror_facts sample_icmperror_ok(1) q] by blast
qed

theorem icmperror_reverses_route_witness:
  "\<exists>q. icmperror_action env0 sample_routed 7 (sample_icmperror 11) = Some (8, [(0, q)]) \<and>
     route_hops (pdata q) 20 2 = [[10, 0, 0, 4], [10, 0, 0, 3]]"
proof -
  obtain q where q: "icmperror_action env0 sample_routed 7 (sample_icmperror 11) = Some (8, [(0, q)])" by (rule sample_message)
  have hops: "rev (route_hops (pdata sample_routed @ troom sample_routed) 20 2) = [[10, 0, 0, 4], [10, 0, 0, 3]]"
    by (simp add: route_hops_def slice_def upt_rec)
  have "ie_valid_source_route (pbuffer sample_routed) (headroom sample_routed) = Some (Some 20)"
    using sample_routed_route by simp
  from icmperror_reverses_route [OF sample_icmperror_facts this sample_icmperror_ok(5) q refl]
  have "route_hops (pdata q) 20 2 = rev (route_hops (pdata sample_routed @ troom sample_routed) 20 2)" by (simp add: get8_def)
  then show ?thesis using q hops by auto
qed

theorem ttl_exceeded_reported_witness:
  "\<exists>out q. decipttl_action env0 2 sample_routed \<lparr> dt_drops = 0, dt_active = True, dt_multicast = True \<rparr> =
      Some (\<lparr> dt_drops = 1, dt_active = True, dt_multicast = True \<rparr>, [(1, out)]) \<and>
    icmperror_action env0 out 7 (sample_icmperror 11) = Some (8, [(0, q)]) \<and> get8 (pdata q) (ip_hlen (pdata q)) = 11"
  using ttl_exceeded_reported [OF sample_routed_valid _ _ _ env0_ok sample_icmperror_ok(6,2-4),
      of "\<lparr> dt_drops = 0, dt_active = True, dt_multicast = True \<rparr>" 7] sample_routed_accepted
  by (auto simp: get8_def)

end
