(* ===== verification/Click_ICMPPing.thy ===== *)
theory Click_ICMPPing
  imports Click_ICMPError
begin

unbundle bit_operations_syntax

text \<open>
  \<^verbatim>\<open>ICMPPingResponder\<close> (\<^verbatim>\<open>src/click/elements/icmp/icmppingresponder.cc\<close>), with which the mobile node answers
  echo requests. The reply is the request, changed in place; its checksums are updated incrementally. The
  theorem is that they verify, for every request whose checksums did, also in the corner where the reply is all zero.
\<close>

section \<open>The element\<close>

definition ICMP_ECHO :: byte where "ICMP_ECHO = 8"
definition ICMP_ECHOREPLY :: byte where "ICMP_ECHOREPLY = 0"

definition transport_length :: "packet \<Rightarrow> int option" where
  "transport_length p = do { k \<leftarrow> trans_off p; Some (int (headroom p + plen p) - k) }"

definition ping_is_request :: "packet \<Rightarrow> bool option" where
  "ping_is_request p =
     do {
       n \<leftarrow> transport_length p;
       if n < 8 then Some False
       else do {
         ip \<leftarrow> network_pos p;
         proto \<leftarrow> ld8 (pbuffer p) (ip + IP_P);
         if proto \<noteq> IP_PROTO_ICMP then Some False
         else do {
           t \<leftarrow> trans_off p;
           if t < 0 then None else map_option (\<lambda>ty. ty = ICMP_ECHO) (ld8 (pbuffer p) (nat t))
         }
       }
     }"

text \<open>The IP header at \<open>iph\<close>: the addresses are exchanged, fragment field and time-to-live are set.\<close>

definition ping_turn_ip :: "nat \<Rightarrow> bytes \<Rightarrow> bytes option" where
  "ping_turn_ip iph b =
     do {
       tmp_addr \<leftarrow> ld32 b (iph + IP_DST);
       src \<leftarrow> ld32 b (iph + IP_SRC);
       b \<leftarrow> st32 (iph + IP_DST) src b;
       b \<leftarrow> st32 (iph + IP_SRC) tmp_addr b;
       c \<leftarrow> ld16 b (iph + IP_SUM);
       off \<leftarrow> ld16 b (iph + IP_OFF);
       b \<leftarrow> st16 (iph + IP_SUM) (click_update_in_cksum c off 0) b;
       b \<leftarrow> st16 (iph + IP_OFF) 0 b;
       old_hw \<leftarrow> ld16 b (iph + IP_TTL);
       b \<leftarrow> st8 (iph + IP_TTL) 255 b;
       new_hw \<leftarrow> ld16 b (iph + IP_TTL);
       c \<leftarrow> ld16 b (iph + IP_SUM);
       st16 (iph + IP_SUM) (click_update_in_cksum c old_hw new_hw) b
     }"

text \<open>The ICMP message of \<open>n\<close> bytes at \<open>icmph\<close>.\<close>

definition ping_turn_icmp :: "nat \<Rightarrow> nat \<Rightarrow> bytes \<Rightarrow> bytes option" where
  "ping_turn_icmp icmph n b =
     do {
       old_hw \<leftarrow> ld16 b icmph;
       b \<leftarrow> st8 icmph ICMP_ECHOREPLY b;
       b \<leftarrow> st8 (icmph + 1) 0 b;
       new_hw \<leftarrow> ld16 b icmph;
       c \<leftarrow> ld16 b (icmph + 2);
       b \<leftarrow> st16 (icmph + 2) (click_update_in_cksum c old_hw new_hw) b;
       c \<leftarrow> ld16 b (icmph + 2);
       x \<leftarrow> ld_range b icmph n;
       st16 (icmph + 2) (click_update_zero_in_cksum c x) b
     }"

definition pingresponder_action :: "env \<Rightarrow> nat \<Rightarrow> packet \<Rightarrow> emission list option" where
  "pingresponder_action e noutputs p_in =
     do {
       request \<leftarrow> ping_is_request p_in;
       if \<not> request then Some (if noutputs = 2 then [(1, p_in)] else [])
       else case pkt_uniqueify e p_in of
         None \<Rightarrow> Some []
       | Some q \<Rightarrow>
           do {
             iph \<leftarrow> network_pos q;
             q \<leftarrow> on_buffer (ping_turn_ip iph) q;
             dst \<leftarrow> ld32 (pbuffer q) (iph + IP_DST);
             let q = q\<lparr> dst_ip_anno := dst, paint_anno := 0 \<rparr>;
             t \<leftarrow> trans_off q;
             n \<leftarrow> transport_length q;
             q \<leftarrow> on_buffer (ping_turn_icmp (nat t) (nat n)) q;
             Some [(0, q)]
           }
     }"

section \<open>Incremental checksums\<close>

text \<open>Replacing a word and adjusting the checksum by the difference keeps the one's complement sum.\<close>

lemma click_update_in_cksum_mod:
  "int (unat (click_update_in_cksum c old new)) mod 65535 = (int (unat c) + int (unat old) - int (unat new)) mod 65535"
proof -
  let ?s = "(65535 - unat c) + (65535 - unat old) + unat new"
  have "int (ones_fold ?s) mod 65535 = int ?s mod 65535"
    using arg_cong [OF ones_fold_mod [of ?s], of int] by (simp only: zmod_int of_nat_numeral)
  then have "(65535 - int (ones_fold ?s)) mod 65535 = (65535 - int ?s) mod 65535" by (rule mod_diff_cong [OF refl])
  moreover have "int (unat (click_update_in_cksum c old new)) = 65535 - int (ones_fold ?s)"
    using ones_fold_le [of ?s] unfolding click_update_in_cksum_value by linarith
  moreover have "int ?s = 131070 - int (unat c) - int (unat old) + int (unat new)"
    using unat_bounds_le(2) [of c] unat_bounds_le(2) [of old] by linarith
  ultimately have "int (unat (click_update_in_cksum c old new)) mod 65535 =
      (65535 - (131070 - int (unat c) - int (unat old) + int (unat new))) mod 65535"
    by (simp only:)
  also have "65535 - (131070 - int (unat c) - int (unat old) + int (unat new)) =
      (int (unat c) + int (unat old) - int (unat new)) + (- 1) * 65535" by simp
  finally show ?thesis by (simp only: mod_mult_self1)
qed

lemma cksum_word_replaced:
  assumes "even k" and "even s" and "k + 2 \<le> length h" and "s + 2 \<le> length h" and "k \<noteq> s" and "65535 dvd wsum h"
    and h'_def: "h' = upd16 k new (upd16 s (click_update_in_cksum (get16 h s) (get16 h k) new) h)"
  shows "65535 dvd wsum h'"
proof -
  let ?c = "get16 h s" and ?o = "get16 h k"
  let ?c' = "click_update_in_cksum ?c ?o new"
  have sep: "k + 2 \<le> s \<or> s + 2 \<le> k" using assms(1,2,5) by presburger
  have "wsum (upd16 s ?c' h) + unat ?c = wsum h + unat ?c'" using assms(2,4) by (rule wsum_upd16)
  moreover have "get16 (upd16 s ?c' h) k = ?o" using sep by (auto simp: mem_simps)
  then have "wsum h' + unat ?o = wsum (upd16 s ?c' h) + unat new"
    unfolding h'_def using assms(1,3) wsum_upd16 [of k "upd16 s ?c' h" new] by simp
  ultimately have "int (wsum h') = int (wsum h) + (int (unat ?c') - (int (unat ?c) + int (unat ?o) - int (unat new)))"
    by linarith
  moreover have "int 65535 dvd int (unat ?c') - (int (unat ?c) + int (unat ?o) - int (unat new))"
    using click_update_in_cksum_mod [of ?c ?o new] by (simp add: mod_eq_dvd_iff)
  moreover have "int 65535 dvd int (wsum h)" using assms(6) by (simp only: int_dvd_int_iff)
  ultimately have "int 65535 dvd int (wsum h')" by (metis dvd_add)
  then show ?thesis by (simp only: int_dvd_int_iff)
qed

lemma upd16_swap: "k + 2 \<le> s \<or> s + 2 \<le> k \<Longrightarrow> upd16 s b (upd16 k a h) = upd16 k a (upd16 s b h)"
  by (auto simp: upd16_def list_update_swap [of k s] list_update_swap [of "Suc k" s] list_update_swap [of k "Suc s"]
      list_update_swap [of "Suc k" "Suc s"])

lemma wsum_upd32:
  assumes "even i" and "i + 4 \<le> length d"
  shows "wsum (upd32 i w d) + (unat (lo16 (get32 d i)) + unat (hi16 (get32 d i))) = wsum d + (unat (lo16 w) + unat (hi16 w))"
proof -
  have "wsum (upd16 i (lo16 w) d) + unat (get16 d i) = wsum d + unat (lo16 w)" using assms by (intro wsum_upd16) simp_all
  moreover have "wsum (upd32 i w d) + unat (get16 (upd16 i (lo16 w) d) (i + 2)) = wsum (upd16 i (lo16 w) d) + unat (hi16 w)"
    unfolding upd32_def using assms by (intro wsum_upd16) simp_all
  moreover have "get16 (upd16 i (lo16 w) d) (i + 2) = get16 d (i + 2)" by (simp add: mem_simps)
  ultimately show ?thesis by (simp add: get32_def)
qed

text \<open>Exchanging the two addresses.\<close>

lemma wsum_swap_addrs:
  assumes "20 \<le> length h"
  shows "wsum (upd32 IP_SRC (get32 h IP_DST) (upd32 IP_DST (get32 h IP_SRC) h)) = wsum h"
  using wsum_upd32 [of IP_DST h "get32 h IP_SRC"] wsum_upd32 [of IP_SRC "upd32 IP_DST (get32 h IP_SRC) h" "get32 h IP_DST"] assms
  by (simp add: mem_simps)

definition ping_ip_bytes :: "bytes \<Rightarrow> bytes" where
  "ping_ip_bytes h =
     (let h1 = upd32 IP_SRC (get32 h IP_DST) (upd32 IP_DST (get32 h IP_SRC) h);
          h2 = upd16 IP_OFF 0 (upd16 IP_SUM (click_update_in_cksum (get16 h1 IP_SUM) (get16 h1 IP_OFF) 0) h1);
          new = le16 255 (get8 h2 IP_P)
      in upd16 IP_TTL new (upd16 IP_SUM (click_update_in_cksum (get16 h2 IP_SUM) (get16 h2 IP_TTL) new) h2))"

lemma ping_turn_ip_result:
  assumes "20 \<le> length h"
  shows "ping_turn_ip (length a) (a @ h @ b) = Some (a @ ping_ip_bytes h @ b)"
  using assms by (simp add: ping_turn_ip_def ping_ip_bytes_def Let_def mem_simps upd8_upd16 [of IP_TTL] upd16_swap [of IP_TTL IP_SUM])

lemma ping_ip_bytes_result:
  assumes "20 \<le> length h" and "length h \<le> 60" and "get8 h 0 \<noteq> 0" and "click_in_cksum h = 0"
  shows "click_in_cksum (ping_ip_bytes h) = 0" and "length (ping_ip_bytes h) = length h"
    and "get8 (ping_ip_bytes h) 0 = get8 h 0" and "get16 (ping_ip_bytes h) IP_LEN = get16 h IP_LEN"
    and "get_ip (ping_ip_bytes h) 0 = (get_ip h 0)\<lparr> ip_off := 0, ip_ttl := 255, ip_src := get32 h IP_DST, ip_dst := get32 h IP_SRC,
      ip_sum := get16 (ping_ip_bytes h) IP_SUM \<rparr>"
    and "drop 20 (ping_ip_bytes h) = drop 20 h"
proof -
  define h1 where "h1 = upd32 IP_SRC (get32 h IP_DST) (upd32 IP_DST (get32 h IP_SRC) h)"
  define h2 where "h2 = upd16 IP_OFF 0 (upd16 IP_SUM (click_update_in_cksum (get16 h1 IP_SUM) (get16 h1 IP_OFF) 0) h1)"
  define new where "new = le16 255 (get8 h2 IP_P)"
  define h3 where "h3 = upd16 IP_TTL new (upd16 IP_SUM (click_update_in_cksum (get16 h2 IP_SUM) (get16 h2 IP_TTL) new) h2)"
  have r: "ping_ip_bytes h = h3" by (simp add: ping_ip_bytes_def Let_def h1_def h2_def new_def h3_def)
  have l: "length h1 = length h" "length h2 = length h" "length h3 = length h" by (simp_all add: h1_def h2_def h3_def)
  then show "length (ping_ip_bytes h) = length h" using r by simp
  have "65535 dvd wsum h" using assms(2,4) in_cksum.ck_zero_iff [of h] by simp
  then have "65535 dvd wsum h1" using wsum_swap_addrs [OF assms(1)] by (simp add: h1_def)
  then have "65535 dvd wsum h2" by (intro cksum_word_replaced [OF _ _ _ _ _ _ h2_def]) (use l assms(1) in simp_all)
  then have "65535 dvd wsum h3" by (intro cksum_word_replaced [OF _ _ _ _ _ _ h3_def]) (use l assms(1) in simp_all)
  moreover have g0: "get8 h3 0 = get8 h 0" by (simp add: h1_def h2_def h3_def mem_simps)
  then have "wsum h3 \<noteq> 0" using l assms(1,3) by (intro wsum_pos) auto
  ultimately have "click_in_cksum h3 = 0" using l assms(2) in_cksum.ck_zero_iff [of h3] by simp
  then show "click_in_cksum (ping_ip_bytes h) = 0" using r by simp
  show "get8 (ping_ip_bytes h) 0 = get8 h 0" using g0 r by simp
  show "get16 (ping_ip_bytes h) IP_LEN = get16 h IP_LEN" unfolding r by (simp add: h1_def h2_def h3_def mem_simps)
  have "get8 h3 IP_TTL = 255" "get8 h3 IP_P = get8 h2 IP_P"
    using l assms(1) by (simp_all add: h3_def new_def get8_def upd16_def)
  then show "get_ip (ping_ip_bytes h) 0 = (get_ip h 0)\<lparr> ip_off := 0, ip_ttl := 255, ip_src := get32 h IP_DST, ip_dst := get32 h IP_SRC,
      ip_sum := get16 (ping_ip_bytes h) IP_SUM \<rparr>"
    unfolding r get_ip_0 using assms(1) by (simp add: h1_def h2_def h3_def mem_simps)
  show "drop 20 (ping_ip_bytes h) = drop 20 h" unfolding r by (simp add: h1_def h2_def h3_def mem_simps)
qed

text \<open>The message behind it.\<close>

definition ping_icmp_bytes :: "bytes \<Rightarrow> bytes" where
  "ping_icmp_bytes j =
     (let j1 = upd16 0 0 (upd16 2 (click_update_in_cksum (get16 j 2) (get16 j 0) 0) j)
      in upd16 2 (click_update_zero_in_cksum (get16 j1 2) j1) j1)"

lemma length_ping_icmp_bytes: "length (ping_icmp_bytes j) = length j"
  by (simp add: ping_icmp_bytes_def Let_def)

lemma get16_append_start [mem_simps]:
  "get16 (h @ d) (length h) = get16 d 0" "get16 (h @ d) (Suc (Suc (length h))) = get16 d 2"
  using get_append(2) [of h d 0] get_append(2) [of h d 2] by simp_all

lemma ping_turn_icmp_result:
  assumes "8 \<le> length j"
  shows "ping_turn_icmp (length a) (length j) (a @ j @ b) = Some (a @ ping_icmp_bytes j @ b)"
proof -
  have z: "upd8 1 0 (upd8 0 0 d) = upd16 0 0 d" for d by (simp add: upd8_def upd16_def lo8_def hi8_def)
  have "ld_range (a @ d @ b) (length a) (length j) = Some d" if "length d = length j" for d
    using that by (simp add: ld_range_def slice_def)
  then show ?thesis
    using assms z by (simp add: ping_turn_icmp_def ping_icmp_bytes_def Let_def ICMP_ECHOREPLY_def mem_simps upd16_swap [of 0 2])
qed

lemma update_zero_hard: "click_update_zero_in_cksum_hard c x = (if \<forall>b \<in> set x. b = 0 then NOT 0 else c)"
  by (induction x) auto

lemma wsum_eq_0: "wsum d = 0 \<longleftrightarrow> (\<forall>b \<in> set d. b = 0)"
  by (induction d rule: wsum.induct) (auto simp: unat_le16 unat_eq_zero)

lemma ping_icmp_bytes_result:
  assumes "8 \<le> length j" and "length j \<le> 131072" and "click_in_cksum j = 0"
  shows "click_in_cksum (ping_icmp_bytes j) = 0" and "length (ping_icmp_bytes j) = length j" and "get16 (ping_icmp_bytes j) 0 = 0"
    and "drop 4 (ping_icmp_bytes j) = drop 4 j"
proof -
  define j1 where "j1 = upd16 0 0 (upd16 2 (click_update_in_cksum (get16 j 2) (get16 j 0) 0) j)"
  define c where "c = click_update_zero_in_cksum (get16 j1 2) j1"
  have r: "ping_icmp_bytes j = upd16 2 c j1" by (simp add: ping_icmp_bytes_def Let_def j1_def c_def)
  have l: "length j1 = length j" by (simp add: j1_def)
  show "length (ping_icmp_bytes j) = length j" "get16 (ping_icmp_bytes j) 0 = 0" "drop 4 (ping_icmp_bytes j) = drop 4 j"
    unfolding r using assms(1) l by (simp_all add: j1_def mem_simps)
  have "65535 dvd wsum j" using assms in_cksum.ck_zero_iff [of j] by simp
  then have d1: "65535 dvd wsum j1" by (intro cksum_word_replaced [OF _ _ _ _ _ _ j1_def]) (use assms(1) in simp_all)
  have "wsum (upd16 2 c j1) \<noteq> 0 \<and> 65535 dvd wsum (upd16 2 c j1)"
  proof (cases "wsum j1 = 0")
    case False
    then have "c = get16 j1 2" by (auto simp: c_def click_update_zero_in_cksum_def update_zero_hard wsum_eq_0)
    then have "upd16 2 c j1 = j1" by (simp add: upd16_def get16_def)
    then show ?thesis using False d1 by simp
  next
    case True
    then have z: "\<forall>b \<in> set j1. b = 0" by (simp add: wsum_eq_0)
    then have "j1 ! 2 = 0" "j1 ! 3 = 0" using assms(1) l by simp_all
    then have g: "get16 j1 2 = 0" by (simp add: get16_def le16_def)
    then have "c = NOT 0" using z by (simp add: c_def click_update_zero_in_cksum_def update_zero_hard)
    then have "unat c = 65535" using unat_not_u16 [of 0] by (simp only: unat_0 diff_zero)
    then show ?thesis using wsum_upd16 [of 2 j1 c] assms(1) l True g by simp
  qed
  then show "click_in_cksum (ping_icmp_bytes j) = 0"
    unfolding r using in_cksum.ck_zero_iff [of "upd16 2 c j1"] assms(2) l by simp
qed

section \<open>The reply\<close>

lemma ping_is_request_valid:
  assumes "ip_valid p"
  shows "ping_is_request p = Some (ip_hlen (pdata p) + 8 \<le> plen p \<and> get8 (pdata p) IP_P = IP_PROTO_ICMP \<and>
    get8 (pdata p) (ip_hlen (pdata p)) = ICMP_ECHO)"
proof -
  note v = ip_valid_facts [OF assms]
  have t: "trans_off p = Some (int (headroom p + ip_hlen (pdata p)))" using assms by (simp add: ip_valid_def)
  have "ld8 (pbuffer p) (headroom p + IP_P) = Some (get8 (pdata p) IP_P)" using v(1) by (simp add: pbuffer_def mem_simps)
  moreover have "ld8 (pbuffer p) (headroom p + ip_hlen (pdata p)) = Some (get8 (pdata p) (ip_hlen (pdata p)))"
    if "ip_hlen (pdata p) + 8 \<le> plen p" using that by (simp add: pbuffer_def mem_simps)
  ultimately show ?thesis
    by (auto simp: ping_is_request_def transport_length_def t network_pos_valid [OF assms] nat_int_add)
qed

text \<open>The packet as the IP header and what is behind it.\<close>

lemma ip_valid_split:
  assumes "ip_valid p"
  obtains h j where "pdata p = h @ j" and "length h = ip_hlen (pdata p)" and "click_in_cksum h = 0"
    and "20 \<le> length h" and "length h \<le> 60" and "get8 h 0 \<noteq> 0"
proof
  note v = ip_valid_facts [OF assms]
  let ?m = "ip_hlen (pdata p)"
  show "pdata p = take ?m (pdata p) @ drop ?m (pdata p)" by simp
  show l: "length (take ?m (pdata p)) = ?m" using v by simp
  show "click_in_cksum (take ?m (pdata p)) = 0" using v(7) by (simp add: slice_def)
  show "20 \<le> length (take ?m (pdata p))" "length (take ?m (pdata p)) \<le> 60" unfolding l using v ip_hlen_bounds by simp_all
  show "get8 (take ?m (pdata p)) 0 \<noteq> 0" using v by (simp add: mem_simps)
qed

text \<open>The data of the reply.\<close>

definition ping_reply :: "packet \<Rightarrow> bytes" where
  "ping_reply p = ping_ip_bytes (take (ip_hlen (pdata p)) (pdata p)) @ ping_icmp_bytes (drop (ip_hlen (pdata p)) (pdata p))"

lemma ping_reply_split:
  assumes "pdata p = h @ j" and "length h = ip_hlen (pdata p)"
  shows "ping_reply p = ping_ip_bytes h @ ping_icmp_bytes j"
  unfolding ping_reply_def assms(2) [symmetric] by (simp add: assms(1))

lemma pingresponder_action_valid:
  assumes "ip_valid p" and "ip_hlen (pdata p) + 8 \<le> plen p" and "get8 (pdata p) IP_P = IP_PROTO_ICMP"
    and "get8 (pdata p) (ip_hlen (pdata p)) = ICMP_ECHO" and "alloc_ok e"
  obtains t where "pingresponder_action e n p =
    Some [(0, p\<lparr> pdata := ping_reply p, troom := t, pshared := False, dst_ip_anno := get32 (pdata p) IP_SRC, paint_anno := 0 \<rparr>)]"
proof -
  obtain h j where d: "pdata p = h @ j" "length h = ip_hlen (pdata p)" "click_in_cksum h = 0"
    "20 \<le> length h" "length h \<le> 60" "get8 h 0 \<noteq> 0"
    by (rule ip_valid_split [OF assms(1)])
  have j: "8 \<le> length j" using assms(2) d(1,2) by simp
  obtain t where u: "pkt_uniqueify e p = Some (p\<lparr> troom := t, pshared := False \<rparr>)"
    by (rule pkt_uniqueify_ok [OF assms(5)])
  let ?q = "p\<lparr> troom := t, pshared := False \<rparr>"
  note hb = ping_ip_bytes_result [OF d(4-6,3)]
  let ?q1 = "?q\<lparr> pdata := ping_ip_bytes h @ j \<rparr>"
  have np: "network_pos ?q = Some (headroom p)" and tr: "trans_off p = Some (int (headroom p + length h))"
    using assms(1) d(2) by (simp_all add: ip_valid_def network_pos_def)
  have "on_buffer (ping_turn_ip (headroom p)) ?q = Some ?q1"
    using ping_turn_ip_result [OF d(4), of "hroom p" "j @ t"] hb(2) d(1) by (intro on_buffer_data) (simp_all add: pbuffer_def)
  moreover have "get32 (ping_ip_bytes h) IP_DST = get32 h IP_SRC"
    using arg_cong [OF hb(5), of ip_dst] by (simp add: get_ip_0)
  then have "ld32 (pbuffer ?q1) (headroom p + IP_DST) = Some (get32 (pdata p) IP_SRC)"
    using d(1,4) hb(2) by (simp add: pbuffer_def mem_simps)
  moreover have "on_buffer (ping_turn_icmp (nat (int (headroom p + length h))) (length j))
      (?q1\<lparr> dst_ip_anno := get32 (pdata p) IP_SRC, paint_anno := 0 \<rparr>) =
      Some (?q1\<lparr> dst_ip_anno := get32 (pdata p) IP_SRC, paint_anno := 0, pdata := ping_ip_bytes h @ ping_icmp_bytes j \<rparr>)"
    using ping_turn_icmp_result [OF j, of "hroom p @ ping_ip_bytes h" t] hb(2) length_ping_icmp_bytes [of j] d(1)
    by (intro on_buffer_data) (simp_all add: pbuffer_def nat_int_add)
  moreover have "transport_length (?q1\<lparr> dst_ip_anno := get32 (pdata p) IP_SRC, paint_anno := 0 \<rparr>) = Some (int (length j))"
    using tr hb(2) by (simp add: transport_length_def)
  moreover have "ping_reply p = ping_ip_bytes h @ ping_icmp_bytes j" by (rule ping_reply_split [OF d(1,2)])
  moreover have "ping_is_request p = Some True" using ping_is_request_valid [OF assms(1)] assms(2-4) by simp
  ultimately have "pingresponder_action e n p =
    Some [(0, p\<lparr> pdata := ping_reply p, troom := t, pshared := False, dst_ip_anno := get32 (pdata p) IP_SRC, paint_anno := 0 \<rparr>)]"
    using u np tr by (simp add: pingresponder_action_def Let_def)
  then show ?thesis by (rule that)
qed

lemma ping_reply_valid:
  assumes "ip_valid p" and "q = p\<lparr> pdata := ping_reply p, troom := t, pshared := b, dst_ip_anno := a, paint_anno := c \<rparr>"
  shows "ip_valid q" and "plen q = plen p" and "ip_hlen (pdata q) = ip_hlen (pdata p)"
    and "pdata q = ping_ip_bytes (take (ip_hlen (pdata p)) (pdata p)) @ ping_icmp_bytes (drop (ip_hlen (pdata p)) (pdata p))"
    and "get_ip (pdata q) 0 = (get_ip (pdata p) 0)\<lparr> ip_off := 0, ip_ttl := 255, ip_src := ip_dst (get_ip (pdata p) 0),
      ip_dst := ip_src (get_ip (pdata p) 0), ip_sum := get16 (pdata q) IP_SUM \<rparr>"
    and "slice 20 (ip_hlen (pdata p) - 20) (pdata q) = slice 20 (ip_hlen (pdata p) - 20) (pdata p)"
proof -
  obtain h j where d: "pdata p = h @ j" "length h = ip_hlen (pdata p)" "click_in_cksum h = 0"
    "20 \<le> length h" "length h \<le> 60" "get8 h 0 \<noteq> 0"
    by (rule ip_valid_split [OF assms(1)])
  note hb = ping_ip_bytes_result [OF d(4-6,3)]
  have r: "ping_reply p = ping_ip_bytes h @ ping_icmp_bytes j" by (rule ping_reply_split [OF d(1,2)])
  show "pdata q = ping_ip_bytes (take (ip_hlen (pdata p)) (pdata p)) @ ping_icmp_bytes (drop (ip_hlen (pdata p)) (pdata p))"
    by (simp add: assms(2) ping_reply_def)
  have l: "length (ping_reply p) = plen p" using d(1) hb(2) by (simp add: r length_ping_icmp_bytes)
  have f: "get8 (ping_reply p) 0 = get8 (pdata p) 0" "get16 (ping_reply p) IP_LEN = get16 (pdata p) IP_LEN"
    using hb(2-4) d(1,4) by (simp_all add: r mem_simps)
  have "cksum_ok (ping_reply p) 0 (ip_hlen (pdata p))"
    using hb(1,2) d(2) by (simp add: cksum_ok_def r slice_def)
  then have "ip_valid (p\<lparr> pdata := ping_reply p \<rparr>)" using ip_valid_data [OF assms(1) l f] by simp
  then show "ip_valid q" by (simp add: assms(2) ip_valid_def)
  show "plen q = plen p" "ip_hlen (pdata q) = ip_hlen (pdata p)" using l f by (simp_all add: assms(2) ip_hlen_def)
  have "get_ip (ping_reply p) 0 = get_ip (ping_ip_bytes h) 0" "get_ip (pdata p) 0 = get_ip h 0" "get16 (ping_reply p) IP_SUM = get16 (ping_ip_bytes h) IP_SUM"
    using hb(2) d(1,4) by (simp_all add: r get_ip_0 mem_simps)
  then show "get_ip (pdata q) 0 = (get_ip (pdata p) 0)\<lparr> ip_off := 0, ip_ttl := 255, ip_src := ip_dst (get_ip (pdata p) 0),
      ip_dst := ip_src (get_ip (pdata p) 0), ip_sum := get16 (pdata q) IP_SUM \<rparr>"
    using hb(5) by (simp add: assms(2) get_ip_0)
  show "slice 20 (ip_hlen (pdata p) - 20) (pdata q) = slice 20 (ip_hlen (pdata p) - 20) (pdata p)"
    unfolding d(2) [symmetric] using hb(2,6) d(1,4) by (simp add: assms(2) r slice_def)
qed

text \<open>C22: \<^verbatim>\<open>ICMPPingResponder\<close> answers an echo request with a valid IP header and a verifying ICMP checksum: the reply is
  again a valid packet of the same length, with the addresses exchanged, the same options and time-to-live 255, and is not marked as a
  fragment; it is an echo reply with the same identifier, sequence number and data, and its checksum, which was only adjusted, verifies.\<close>

theorem pingresponder_replies:
  assumes "ip_valid p" and "ip_hlen (pdata p) + 8 \<le> plen p" and "ip_p (get_ip (pdata p) 0) = IP_PROTO_ICMP"
    and "get8 (pdata p) (ip_hlen (pdata p)) = ICMP_ECHO" and "cksum_ok (pdata p) (ip_hlen (pdata p)) (plen p - ip_hlen (pdata p))"
    and "alloc_ok e"
  shows "\<exists>q. pingresponder_action e n p = Some [(0, q)] \<and> ip_valid q \<and> plen q = plen p \<and> ip_hlen (pdata q) = ip_hlen (pdata p) \<and>
    get_ip (pdata q) 0 = (get_ip (pdata p) 0)\<lparr> ip_off := 0, ip_ttl := 255, ip_src := ip_dst (get_ip (pdata p) 0),
      ip_dst := ip_src (get_ip (pdata p) 0), ip_sum := get16 (pdata q) IP_SUM \<rparr> \<and>
    slice 20 (ip_hlen (pdata p) - 20) (pdata q) = slice 20 (ip_hlen (pdata p) - 20) (pdata p) \<and>
    get16 (pdata q) (ip_hlen (pdata p)) = 0 \<and> cksum_ok (pdata q) (ip_hlen (pdata p)) (plen p - ip_hlen (pdata p)) \<and>
    drop (ip_hlen (pdata p) + 4) (pdata q) = drop (ip_hlen (pdata p) + 4) (pdata p) \<and>
    dst_ip_anno q = ip_src (get_ip (pdata p) 0) \<and> paint_anno q = 0"
proof -
  let ?m = "ip_hlen (pdata p)"
  let ?j = "drop ?m (pdata p)"
  have "get8 (pdata p) IP_P = IP_PROTO_ICMP" using assms(3) by (simp add: get_ip_0)
  then obtain t where act: "pingresponder_action e n p =
    Some [(0, p\<lparr> pdata := ping_reply p, troom := t, pshared := False, dst_ip_anno := get32 (pdata p) IP_SRC, paint_anno := 0 \<rparr>)]"
    by (rule pingresponder_action_valid [OF assms(1,2) _ assms(4,6)])
  define q where "q = p\<lparr> pdata := ping_reply p, troom := t, pshared := False, dst_ip_anno := get32 (pdata p) IP_SRC, paint_anno := 0 \<rparr>"
  note v = ping_reply_valid [OF assms(1) q_def]
  have j: "8 \<le> length ?j" "length ?j \<le> 131072" "click_in_cksum ?j = 0"
    using assms(1,2,5) unat_less_65536 [of "ntohs (get16 (pdata p) IP_LEN)"]
    by (simp_all add: ip_valid_def cksum_ok_def slice_def)
  note jb = ping_icmp_bytes_result [OF j]
  define h' where "h' = ping_ip_bytes (take ?m (pdata p))"
  have h': "pdata q = h' @ ping_icmp_bytes ?j" using v(4) by (simp only: h'_def)
  then have "length h' + length ?j = plen p" using v(2) jb(2) by (metis length_append)
  then have hl: "length h' = ?m" using assms(2) by simp
  have "get16 (pdata q) ?m = 0" "drop (?m + 4) (pdata q) = drop (?m + 4) (pdata p)"
    using h' hl jb(3,4) get16_append_start(1) [of h' "ping_icmp_bytes ?j"] by (simp_all add: add.commute)
  moreover have "cksum_ok (pdata q) ?m (plen p - ?m)"
    using h' hl jb(1,2) cksum_ok_append [of h' "ping_icmp_bytes ?j" 0 "plen p - ?m"] by (simp add: cksum_ok_def slice_def)
  moreover have "dst_ip_anno q = ip_src (get_ip (pdata p) 0)" "paint_anno q = 0" by (simp_all add: q_def get_ip_0)
  ultimately show ?thesis using act [folded q_def] v(1-3,5,6) by blast
qed

text \<open>Everything else goes out unchanged by the second output, if there is one.\<close>

lemma pingresponder_passes:
  assumes "ip_valid p" and "plen p < ip_hlen (pdata p) + 8 \<or> ip_p (get_ip (pdata p) 0) \<noteq> IP_PROTO_ICMP \<or>
    get8 (pdata p) (ip_hlen (pdata p)) \<noteq> ICMP_ECHO"
  shows "pingresponder_action e n p = Some (if n = 2 then [(1, p)] else [])"
  using assms(2) ping_is_request_valid [OF assms(1)] by (auto simp: pingresponder_action_def get_ip_0)

section \<open>Sample input\<close>

text \<open>An echo request whose reply is all zero.\<close>

definition sample_ping :: packet where
  "sample_ping =
     (the (pkt_make env0 0 (Some
       [0x45, 0, 0, 28, 0, 0, 0x40, 0, 9, 1, 0x5d, 0xdf, 10, 0, 0, 1, 10, 0, 0, 2, 8, 0, 0xf7, 0xff, 0, 0, 0, 0]) 28 0))
       \<lparr> net_off := Some 0, trans_off := Some 20 \<rparr>"

lemma sample_ping_data [simp]:
  "hroom sample_ping = []" "net_off sample_ping = Some 0" "trans_off sample_ping = Some 20"
  "pdata sample_ping = [0x45, 0, 0, 28, 0, 0, 0x40, 0, 9, 1, 0x5d, 0xdf, 10, 0, 0, 1, 10, 0, 0, 2, 8, 0, 0xf7, 0xff, 0, 0, 0, 0]"
  by code_simp+

lemma sample_ping_ok:
  "ip_valid sample_ping" "cksum_ok (pdata sample_ping) 20 8" "ip_hlen (pdata sample_ping) = 20"
proof -
  have "click_in_cksum (slice 0 20 (pdata sample_ping)) = 0" "click_in_cksum (slice 20 8 (pdata sample_ping)) = 0"
    by (subst in_cksum.ck_zero_iff, simp_all add: slice_def unat_le16)+
  then show "ip_valid sample_ping" "cksum_ok (pdata sample_ping) 20 8" "ip_hlen (pdata sample_ping) = 20"
    by (simp_all add: ip_valid_def ip_header_ok_def ip_hlen_def get8_def get16_def ip_hl_of_def ip_v_of_def cksum_ok_def unat_ntohs unat_le16)
qed

theorem pingresponder_replies_witness:
  "\<exists>q. pingresponder_action env0 2 sample_ping = Some [(0, q)] \<and> ip_valid q \<and> get16 (pdata q) 20 = 0 \<and> cksum_ok (pdata q) 20 8"
proof -
  have "ip_p (get_ip (pdata sample_ping) 0) = IP_PROTO_ICMP" "get8 (pdata sample_ping) (ip_hlen (pdata sample_ping)) = ICMP_ECHO"
    "ip_hlen (pdata sample_ping) + 8 \<le> plen sample_ping"
    unfolding sample_ping_ok(3) by (simp_all add: get_ip_0 get8_def IP_PROTO_ICMP_def ICMP_ECHO_def)
  moreover have n: "plen sample_ping - 20 = 8" by simp
  have "cksum_ok (pdata sample_ping) (ip_hlen (pdata sample_ping)) (plen sample_ping - ip_hlen (pdata sample_ping))"
    unfolding sample_ping_ok(3) n by (rule sample_ping_ok(2))
  ultimately show ?thesis
    using pingresponder_replies [OF sample_ping_ok(1) _ _ _ _ env0_ok, of 2] unfolding sample_ping_ok(3) n by blast
qed

end
