(* ===== verification/Click_Classification.thy ===== *)
theory Click_Classification
  imports Click_IPElements Click_Qsort
begin

unbundle bit_operations_syntax

text \<open>
  The decision programs of the classifiers (\<^verbatim>\<open>src/click/elements/standard/classification.{hh,cc}\<close>): the instruction, the
  construction of programs out of subtrees, the optimisations and the interpreter.

  An instruction compares four bytes of the packet, under a mask, with a value and jumps. A positive jump is the index
  of an instruction, the others are outputs, negated; \<open>j_failure\<close> and \<open>j_success\<close> stand for outputs that are not known yet. A
  packet that is too short for the test goes the way \<open>in_short_output\<close> says. Programs are compiled
  with jumps to later instructions only; the theorems assume this (\<open>cl_forward\<close>), and the operations index the instructions
  within their bounds then.
\<close>

section \<open>Instructions\<close>

definition j_never :: int where "j_never = - 2147483647"
definition j_failure :: int where "j_failure = - 2147483646"
definition j_success :: int where "j_success = - 2147483645"

datatype combiner = C_and | C_or | C_ternary

record insn =
  in_offset :: u16
  in_short_output :: bool
  in_mask :: u32
  in_value :: u32
  in_no :: int
  in_yes :: int

definition in_j :: "bool \<Rightarrow> insn \<Rightarrow> int" where
  "in_j k i = (if k then in_yes i else in_no i)"

definition in_set_j :: "bool \<Rightarrow> int \<Rightarrow> insn \<Rightarrow> insn" where
  "in_set_j k dst i = (if k then i\<lparr> in_yes := dst \<rparr> else i\<lparr> in_no := dst \<rparr>)"

definition Insn :: "int \<Rightarrow> u32 \<Rightarrow> u32 \<Rightarrow> insn" where
  "Insn off value m =
     \<lparr> in_offset = word_of_int off, in_short_output = False, in_mask = m, in_value = value AND m, in_no = j_failure, in_yes = j_success \<rparr>"

text \<open>The bytes of a word in memory: \<^verbatim>\<open>mask.c[k]\<close>.\<close>

definition uchar :: "u32 \<Rightarrow> nat \<Rightarrow> byte" where
  "uchar w k = ucast (drop_bit (8 * k) w)"

definition set_uchar :: "nat \<Rightarrow> byte \<Rightarrow> u32 \<Rightarrow> u32" where
  "set_uchar k b w = (w AND NOT (push_bit (8 * k) 0xff)) OR push_bit (8 * k) (ucast b)"

definition required_length :: "insn \<Rightarrow> nat" where
  "required_length i =
     (if in_mask i = 0 then 0
      else if uchar (in_mask i) 3 \<noteq> 0 then unat (in_offset i) + 4
      else if uchar (in_mask i) 2 \<noteq> 0 then unat (in_offset i) + 3
      else if uchar (in_mask i) 1 \<noteq> 0 then unat (in_offset i) + 2
      else unat (in_offset i) + 1)"

definition hard_implies_short_ok :: "insn \<Rightarrow> bool \<Rightarrow> insn \<Rightarrow> bool \<Rightarrow> nat \<Rightarrow> bool" where
  "hard_implies_short_ok i direction x next_direction known_length =
     (if in_short_output i \<noteq> direction then True
      else let r = required_length i
           in r \<le> known_length \<or> (r \<le> required_length x \<and> next_direction = in_short_output x))"

definition implies_short_ok :: "insn \<Rightarrow> bool \<Rightarrow> insn \<Rightarrow> bool \<Rightarrow> nat \<Rightarrow> bool" where
  "implies_short_ok i direction x next_direction known_length =
     (if in_short_output i \<noteq> direction \<or> unat (in_offset i) + 4 \<le> known_length then True
      else hard_implies_short_ok i direction x next_direction known_length)"

definition in_implies :: "insn \<Rightarrow> insn \<Rightarrow> nat \<Rightarrow> bool" where
  "in_implies i x known_length =
     (if in_mask x = 0 then True
      else if in_offset x \<noteq> in_offset i \<or> \<not> implies_short_ok i True x True known_length then False
      else let both_mask = in_mask i AND in_mask x
           in both_mask = in_mask x \<and> in_value i AND both_mask = in_value x)"

definition in_not_implies :: "insn \<Rightarrow> insn \<Rightarrow> nat \<Rightarrow> bool" where
  "in_not_implies i x known_length =
     (if in_mask x = 0 then True
      else if in_offset x \<noteq> in_offset i \<or> \<not> implies_short_ok i False x True known_length then False
      else in_mask i AND (in_mask i - 1) = 0 \<and> in_mask i = in_mask x \<and> in_value i \<noteq> in_value x)"

definition in_implies_not :: "insn \<Rightarrow> insn \<Rightarrow> nat \<Rightarrow> bool" where
  "in_implies_not i x known_length =
     (if in_mask x = 0 \<or> in_offset x \<noteq> in_offset i \<or> \<not> implies_short_ok i True x False known_length then False
      else let both_mask = in_mask i AND in_mask x
           in both_mask = in_mask x \<and> in_value i AND both_mask \<noteq> in_value x)"

definition in_not_implies_not :: "insn \<Rightarrow> insn \<Rightarrow> nat \<Rightarrow> bool" where
  "in_not_implies_not i x known_length =
     (if in_mask i = 0 then True
      else if in_offset x \<noteq> in_offset i \<or> \<not> implies_short_ok i False x False known_length then False
      else let both_mask = in_mask i AND in_mask x
           in both_mask = in_mask i \<and> in_value i = in_value x AND both_mask)"

definition in_compatible :: "insn \<Rightarrow> insn \<Rightarrow> bool \<Rightarrow> bool" where
  "in_compatible i x consider_short =
     (if in_mask i = 0 \<or> in_mask x = 0 then True
      else if in_offset x \<noteq> in_offset i \<or>
        (consider_short \<and> in_short_output x \<noteq> in_short_output i \<and> required_length i < required_length x) then False
      else let both_mask = in_mask i AND in_mask x in in_value i AND both_mask = in_value x AND both_mask)"

definition generalizable_or_pair :: "insn \<Rightarrow> insn \<Rightarrow> bool" where
  "generalizable_or_pair i x =
     (let value_diff = in_value i XOR in_value x
      in if in_offset i \<noteq> 0 \<and> in_offset x = in_offset i \<and> in_mask i \<noteq> 0 \<and> in_mask x = in_mask i \<and>
            (in_short_output i \<or> \<not> in_short_output x) \<and> in_yes i = in_yes x \<and> value_diff AND (value_diff - 1) = 0
         then required_length (Insn (uint (in_offset i)) (in_value i AND NOT value_diff) (in_mask i AND NOT value_diff)) = required_length i
         else False)"

definition in_flippable :: "insn \<Rightarrow> bool" where
  "in_flippable i = (if in_mask i = 0 then False else in_mask i AND (in_mask i - 1) = 0)"

definition in_flip :: "insn \<Rightarrow> insn" where
  "in_flip i =
     i\<lparr> in_value := in_value i XOR in_mask i, in_no := in_yes i, in_yes := in_no i, in_short_output := \<not> in_short_output i \<rparr>"

definition in_offset_by :: "int \<Rightarrow> insn \<Rightarrow> insn" where
  "in_offset_by off i =
     i\<lparr> in_no := (if in_no i > 0 then in_no i + off else in_no i), in_yes := (if in_yes i > 0 then in_yes i + off else in_yes i) \<rparr>"

section \<open>Building programs\<close>

record program =
  pg_insn :: "insn list"
  pg_output_everything :: int
  pg_safe_length :: u32
  pg_align_offset :: nat

definition pg_new :: "nat \<Rightarrow> program" where
  "pg_new align_offset =
     \<lparr> pg_insn = [], pg_output_everything = - j_never, pg_safe_length = - 1, pg_align_offset = align_offset \<rparr>"

text \<open>The vector \<open>tree\<close> that is kept beside the program: its first element is the current level, the others belong to the instructions and
  mark the first instruction of a subtree with its level.\<close>

definition init_subtree :: "program \<Rightarrow> int list" where
  "init_subtree p = 0 # replicate (length (pg_insn p)) (- 1)"

definition start_subtree :: "int list \<Rightarrow> int list" where
  "start_subtree tree = tree[0 := tree ! 0 + 1]"

definition add_insn :: "int \<Rightarrow> u32 \<Rightarrow> u32 \<Rightarrow> int list \<times> program \<Rightarrow> int list \<times> program" where
  "add_insn off value m = (\<lambda>(tree, p).
     (tree @ [tree ! 0], p\<lparr> pg_insn := pg_insn p @ [Insn off value m], pg_output_everything := - 1 \<rparr>))"

definition redirect :: "int \<Rightarrow> int \<Rightarrow> insn \<Rightarrow> insn" where
  "redirect success failure i =
     (let f = (\<lambda>j. if j = j_success then success else if j = j_failure then failure else j)
      in i\<lparr> in_no := f (in_no i), in_yes := f (in_yes i) \<rparr>)"

definition redirect_subtree :: "nat \<Rightarrow> nat \<Rightarrow> int \<Rightarrow> int \<Rightarrow> insn list \<Rightarrow> insn list" where
  "redirect_subtree first nxt success failure is =
     take first is @ map (redirect success failure) (take (nxt - first) (drop first is)) @ drop nxt is"

text \<open>The position of the parent subtree, and the subtrees behind it at the current level.\<close>

fun parent_subtree :: "int list \<Rightarrow> int \<Rightarrow> nat \<Rightarrow> nat" where
  "parent_subtree tree level 0 = 0"
| "parent_subtree tree level (Suc ptr) =
     (if tree ! Suc ptr < 0 \<or> tree ! Suc ptr \<ge> level then parent_subtree tree level ptr else Suc ptr)"

definition child_subtrees :: "int list \<Rightarrow> int \<Rightarrow> nat \<Rightarrow> nat list" where
  "child_subtrees tree level n =
     map (\<lambda>ptr. ptr - 1) (filter (\<lambda>ptr. tree ! ptr = level) [parent_subtree tree level n + 1..<n + 1])"

fun combine_subtrees :: "combiner \<Rightarrow> int \<Rightarrow> int \<Rightarrow> nat list \<Rightarrow> insn list \<Rightarrow> insn list" where
  "combine_subtrees c success failure [] is = is"
| "combine_subtrees c success failure [s] is = redirect_subtree s (length is) success failure is"
| "combine_subtrees C_and success failure (s # t # ts) is =
     combine_subtrees C_and success failure (t # ts) (redirect_subtree s t (int t) failure is)"
| "combine_subtrees C_or success failure (s # t # ts) is =
     combine_subtrees C_or success failure (t # ts) (redirect_subtree s t success (int t) is)"
| "combine_subtrees C_ternary success failure [s, t] is =
     combine_subtrees C_ternary success failure [t] (redirect_subtree s t (int t) failure is)"
| "combine_subtrees C_ternary success failure (s # t # u # us) is =
     combine_subtrees C_ternary success failure (u # us)
       (redirect_subtree t u success failure (redirect_subtree s t (int t) (int u) is))"

definition finish_subtree :: "combiner \<Rightarrow> int \<Rightarrow> int \<Rightarrow> int list \<times> program \<Rightarrow> int list \<times> program" where
  "finish_subtree c success failure = (\<lambda>(tree, p).
     let level = tree ! 0;
         n = length (pg_insn p);
         subtrees = child_subtrees tree level n;
         tree = (case subtrees of
                   [] \<Rightarrow> tree
                 | s # _ \<Rightarrow> take (s + 1) tree @ [level - 1] @ replicate (n - (s + 1)) (- 1));
         p = p\<lparr> pg_insn := combine_subtrees c success failure subtrees (pg_insn p) \<rparr>
     in (tree[0 := tree ! 0 - 1], p))"

fun last_subtree :: "int list \<Rightarrow> int \<Rightarrow> nat \<Rightarrow> nat option" where
  "last_subtree tree level 0 = None"
| "last_subtree tree level (Suc n) = (if tree ! Suc n = level then Some n else last_subtree tree level n)"

definition in_negate :: "bool \<Rightarrow> insn \<Rightarrow> insn" where
  "in_negate flip_short i =
     (let i = redirect j_failure j_success i
      in if flip_short then i\<lparr> in_short_output := \<not> in_short_output i \<rparr> else i)"

definition negate_subtree :: "bool \<Rightarrow> int list \<times> program \<Rightarrow> int list \<times> program" where
  "negate_subtree flip_short = (\<lambda>(tree, p).
     case last_subtree tree (tree ! 0) (length (pg_insn p)) of
       None \<Rightarrow> (tree, p)
     | Some first \<Rightarrow>
         (tree, p\<lparr> pg_insn := take first (pg_insn p) @ map (in_negate flip_short) (drop first (pg_insn p)) \<rparr>))"

definition set_failure :: "int \<Rightarrow> program \<Rightarrow> program option" where
  "set_failure failure p =
     do {
       oe \<leftarrow> (if pg_output_everything p = - j_failure then if failure \<le> 0 then Some (- failure) else None
             else Some (pg_output_everything p));
       Some (p\<lparr> pg_output_everything := oe,
         pg_insn := map (\<lambda>i. i\<lparr> in_no := (if in_no i = j_failure then failure else in_no i),
           in_yes := (if in_yes i = j_failure then failure else in_yes i) \<rparr>) (pg_insn p) \<rparr>)
     }"

definition add_or_program :: "program \<Rightarrow> program \<Rightarrow> program option" where
  "add_or_program next_program p =
     (if pg_output_everything p < 0 \<or> pg_output_everything p = - j_failure then
        do {
          let failure = - pg_output_everything next_program;
          let failure = (if failure > 0 then int (length (pg_insn p)) else failure);
          p \<leftarrow> set_failure failure p;
          Some (p\<lparr> pg_insn := pg_insn p @ map (in_offset_by (int (length (pg_insn p)))) (pg_insn next_program) \<rparr>)
        }
      else Some p)"

section \<open>Optimisation: special cases\<close>

text \<open>\<^verbatim>\<open>remove_unused_states\<close>. The first loop, from the last instruction to the first: \<open>dest\<close> maps an
  instruction to the first interesting one on its way, or to an output.\<close>

definition skip_uninteresting :: "int list \<Rightarrow> insn \<Rightarrow> insn" where
  "skip_uninteresting dest i =
     i\<lparr> in_no := (if in_no i > 0 then dest ! nat (in_no i) else in_no i),
        in_yes := (if in_yes i > 0 then dest ! nat (in_yes i) else in_yes i) \<rparr>"

definition in_interesting :: "insn \<Rightarrow> bool" where
  "in_interesting i \<longleftrightarrow> in_yes i \<noteq> in_no i \<and> in_mask i \<noteq> 0"

fun remove_uninteresting :: "nat \<Rightarrow> insn list \<times> int list \<Rightarrow> insn list \<times> int list" where
  "remove_uninteresting 0 x = x"
| "remove_uninteresting (Suc i) (is, dest) =
     (let x = skip_uninteresting dest (is ! i);
          d = (if in_interesting x then int i else if in_yes x \<le> 0 then in_yes x else dest ! nat (in_yes x))
      in remove_uninteresting i (is[i := x], dest[i := d]))"

text \<open>The second loop: the new positions of the instructions that can be reached.\<close>

definition mark_jump :: "int \<Rightarrow> int list \<Rightarrow> int list" where
  "mark_jump j dest = (if j > 0 then dest[nat j := 0] else dest)"

fun number_reachable :: "insn list \<Rightarrow> nat \<Rightarrow> int \<times> int list \<Rightarrow> int \<times> int list" where
  "number_reachable [] i x = x"
| "number_reachable (x # xs) i (new_insn_index, dest) =
     (if dest ! i \<ge> 0
      then number_reachable xs (Suc i) (new_insn_index + 1, mark_jump (in_yes x) (mark_jump (in_no x) (dest[i := new_insn_index])))
      else number_reachable xs (Suc i) (new_insn_index, dest))"

text \<open>The third: the instructions move up.\<close>

fun move_reachable :: "int list \<Rightarrow> nat \<Rightarrow> nat \<Rightarrow> insn list \<Rightarrow> insn list" where
  "move_reachable dest 0 i is = is"
| "move_reachable dest (Suc n) i is =
     (if dest ! i \<ge> 0
      then move_reachable dest n (Suc i) (is[nat (dest ! i) := skip_uninteresting dest (is ! i)])
      else move_reachable dest n (Suc i) is)"

definition remove_unused_states :: "program \<Rightarrow> program" where
  "remove_unused_states p =
     (if pg_insn p = [] then p
      else
        let n = length (pg_insn p);
            (is, dest) = remove_uninteresting n (pg_insn p, replicate n (- 1));
            (is, oe) = (if dest ! 0 > 0 then (is[0 := is ! nat (dest ! 0)], - 1)
                        else if dest ! 0 < 0 then (is, - (dest ! 0))
                        else if in_yes (is ! 0) = 0 \<and> (in_no (is ! 0) = 0 \<or> in_mask (is ! 0) = 0) then (is, 0)
                        else (is, - 1));
            dest = (replicate n (- 1))[0 := (if oe < 0 then 0 else - 1)];
            (new_insn_index, dest) = number_reachable is 0 (0, dest);
            is = move_reachable dest n 0 is
        in p\<lparr> pg_insn := take (nat new_insn_index) is, pg_output_everything := oe \<rparr>)"

text \<open>\<^verbatim>\<open>combine_compatible_states\<close>: the loop goes down from the last instruction and repeats an instruction after a
  change. \<open>i\<close> is one more than the index of the loop.\<close>

definition generalize_pair :: "insn \<Rightarrow> insn \<Rightarrow> insn" where
  "generalize_pair x no_in =
     (let the_bit = in_value x XOR in_value no_in
      in x\<lparr> in_value := in_value x AND NOT the_bit, in_mask := in_mask x AND NOT the_bit, in_no := in_no no_in \<rparr>)"

definition combine_pair :: "insn \<Rightarrow> insn \<Rightarrow> insn" where
  "combine_pair x yes_in =
     (let x' = x\<lparr> in_yes := in_yes yes_in \<rparr>;
          x' = (if in_mask x' = 0 then x'\<lparr> in_offset := in_offset yes_in \<rparr> else x')
      in x'\<lparr> in_value := (in_value x' AND in_mask x') OR (in_value yes_in AND in_mask yes_in), in_mask := in_mask x' OR in_mask yes_in \<rparr>)"

partial_function (option) combine_loop :: "nat \<Rightarrow> insn list \<Rightarrow> insn list option" where
  "combine_loop i is =
     (if i = 0 then Some is
      else
        let k = i - 1;
            x = is ! k;
            no_in = is ! nat (in_no x);
            flips = in_no x > 0 \<and> in_compatible no_in x False \<and> in_flippable x
        in if in_no x > 0 \<and> \<not> flips \<and> generalizable_or_pair x no_in
           then combine_loop i (is[k := generalize_pair x no_in])
           else
             let x = (if flips then in_flip x else x);
                 is = is[k := x]
             in if in_yes x \<le> 0 then combine_loop (i - 1) is
                else
                  let y = nat (in_yes x);
                      is = (if in_no x = in_yes (is ! y) \<and> in_flippable (is ! y) then is[y := in_flip (is ! y)] else is);
                      yes_in = is ! y
                  in if in_no x = in_no yes_in \<and> in_compatible yes_in x True
                     then combine_loop i (is[k := combine_pair x yes_in])
                     else combine_loop (i - 1) is)"

declare combine_loop.simps [code]

definition combine_compatible_states :: "program \<Rightarrow> program option" where
  "combine_compatible_states p =
     do { is \<leftarrow> combine_loop (length (pg_insn p)) (pg_insn p); Some (p\<lparr> pg_insn := is \<rparr>) }"

section \<open>Optimisation: the order of tests\<close>

definition note_inbranch :: "nat \<Rightarrow> int \<Rightarrow> int list \<Rightarrow> int list" where
  "note_inbranch i j inb = (if j > 0 then inb[nat j := (if inb ! nat j \<ge> 0 then 0 else int i)] else inb)"

fun count_inbranches_from :: "nat \<Rightarrow> insn list \<Rightarrow> int list \<Rightarrow> int list" where
  "count_inbranches_from i [] inb = inb"
| "count_inbranches_from i (x # xs) inb =
     count_inbranches_from (Suc i) xs (note_inbranch i (in_yes x) (note_inbranch i (in_no x) inb))"

definition count_inbranches :: "insn list \<Rightarrow> int list" where
  "count_inbranches is = count_inbranches_from 0 is (replicate (length is) (- 1))"

text \<open>The map of offsets is a vector of pairs. A binary search that leaves the left half returns its argument unchanged.\<close>

function hard_map_offset :: "int \<Rightarrow> (int \<times> int) list \<Rightarrow> int" where
  "hard_map_offset off m =
     (if m = [] then off
      else let i = length m div 2; (a, b) = m ! i
           in if a = off then b
              else if a < off then hard_map_offset off (drop (i + 1) m)
              else hard_map_offset off [])"
  by pat_completeness auto
termination by (relation "measure (\<lambda>(off, m). length m)") auto

declare hard_map_offset.simps [simp del]

definition map_offset :: "int \<Rightarrow> (int \<times> int) list \<Rightarrow> int" where
  "map_offset off m = (if m = [] \<or> off < fst (hd m) \<or> off > fst (last m) then off else hard_map_offset off m)"

definition out_of_order :: "(int \<times> int) list \<Rightarrow> insn \<Rightarrow> insn \<Rightarrow> bool" where
  "out_of_order m e1 e2 \<longleftrightarrow>
     (let o1 = map_offset (uint (in_offset e1)) m; o2 = map_offset (uint (in_offset e2)) m
      in o1 > o2 \<or>
         (o1 = o2 \<and>
           (ntohl (in_mask e1) > ntohl (in_mask e2) \<or> (in_mask e1 = in_mask e2 \<and> ntohl (in_value e1) > ntohl (in_value e2)))))"

definition may_swap :: "(int \<times> int) list \<Rightarrow> int \<Rightarrow> int list \<Rightarrow> bool \<Rightarrow> nat \<Rightarrow> insn list \<Rightarrow> bool" where
  "may_swap m last_offset inbranch k i is \<longleftrightarrow>
     (let e1 = is ! i; j = in_j k e1
      in if j \<le> 0 \<or> uint (in_offset e1) \<ge> last_offset \<or> inbranch ! nat j \<le> 0 then False
         else let e2 = is ! nat j in in_j (\<not> k) e1 = in_j (\<not> k) e2 \<and> out_of_order m e1 e2)"

definition swap_tests :: "bool \<Rightarrow> nat \<Rightarrow> insn list \<Rightarrow> insn list" where
  "swap_tests k i is =
     (let e1 = is ! i; j = in_j k e1; e2 = is ! nat j
      in is[nat j := in_set_j k (in_j k e2) e1, i := in_set_j k j e2])"

partial_function (option) bubble_loop ::
  "(int \<times> int) list \<Rightarrow> int \<Rightarrow> int list \<Rightarrow> nat \<Rightarrow> insn list \<Rightarrow> insn list option" where
  "bubble_loop m last_offset inbranch i is =
     (if i < length is then
        let back_to = nat (if inbranch ! i > 0 then inbranch ! i else int i)
        in if may_swap m last_offset inbranch False i is then bubble_loop m last_offset inbranch back_to (swap_tests False i is)
           else if may_swap m last_offset inbranch True i is then bubble_loop m last_offset inbranch back_to (swap_tests True i is)
           else bubble_loop m last_offset inbranch (i + 1) is
      else Some is)"

declare bubble_loop.simps [code]

definition bubble_sort_and_exprs :: "(int \<times> int) list \<Rightarrow> int \<Rightarrow> program \<Rightarrow> program option" where
  "bubble_sort_and_exprs m last_offset p =
     do { is \<leftarrow> bubble_loop m last_offset (count_inbranches (pg_insn p)) 0 (pg_insn p); Some (p\<lparr> pg_insn := is \<rparr>) }"

section \<open>Running programs\<close>

text \<open>The word at offset \<open>off\<close> from \<^verbatim>\<open>data() - _align_offset\<close>; the read may end behind the data of the packet.\<close>

definition cl_load :: "packet \<Rightarrow> nat \<Rightarrow> nat \<Rightarrow> u32 option" where
  "cl_load p align off =
     (let k = int (headroom p + off) - int align in if k < 0 then None else ld32 (pbuffer p) (nat k))"

text \<open>The loop of \<^verbatim>\<open>Program::match\<close>, which does not look at the length of the packet, and the one that does.\<close>

partial_function (option) match_loop :: "packet \<Rightarrow> nat \<Rightarrow> insn list \<Rightarrow> nat \<Rightarrow> int option" where
  "match_loop p align is pos =
     (if pos < length is then
        do {
          data \<leftarrow> cl_load p align (unat (in_offset (is ! pos)));
          let j = in_j (data AND in_mask (is ! pos) = in_value (is ! pos)) (is ! pos);
          if j > 0 then match_loop p align is (nat j) else Some (- j)
        }
      else None)"

definition cl_length_ok :: "insn \<Rightarrow> nat \<Rightarrow> bool" where
  "cl_length_ok i packet_length =
     (let off = unat (in_offset i)
      in if \<not> off + 4 > packet_length then True
         else if off < packet_length then
           let available = packet_length - off
           in \<not> (uchar (in_mask i) 3 \<noteq> 0 \<or> (uchar (in_mask i) 2 \<noteq> 0 \<and> available \<le> 2) \<or> (uchar (in_mask i) 1 \<noteq> 0 \<and> available = 1))
         else False)"

partial_function (option) length_checked_loop :: "packet \<Rightarrow> nat \<Rightarrow> insn list \<Rightarrow> nat \<Rightarrow> int option" where
  "length_checked_loop p align is pos =
     (if pos < length is then
        do {
          b \<leftarrow> (if cl_length_ok (is ! pos) (plen p + align)
               then do {
                 data \<leftarrow> cl_load p align (unat (in_offset (is ! pos)));
                 Some (data AND in_mask (is ! pos) = in_value (is ! pos))
               }
               else Some (in_short_output (is ! pos)));
          let j = in_j b (is ! pos);
          if j > 0 then length_checked_loop p align is (nat j) else Some (- j)
        }
      else None)"

declare match_loop.simps [code] length_checked_loop.simps [code]

definition length_checked_match :: "program \<Rightarrow> packet \<Rightarrow> int option" where
  "length_checked_match g p = length_checked_loop p (pg_align_offset g) (pg_insn g) 0"

definition pg_match :: "program \<Rightarrow> packet \<Rightarrow> int option" where
  "pg_match g p =
     (if pg_output_everything g \<ge> 0 then Some (pg_output_everything g)
      else if plen p < unat (pg_safe_length g) then length_checked_match g p
      else match_loop p (pg_align_offset g) (pg_insn g) 0)"

end
