(* ===== verification/Click_Dominators.thy ===== *)
theory Click_Dominators
  imports Click_Classification
begin

unbundle bit_operations_syntax

text \<open>
  The dominator optimisation of the classifiers (class \<^verbatim>\<open>DominatorOptimizer\<close> of
  \<^verbatim>\<open>src/click/elements/standard/classification.cc\<close>) and \<^verbatim>\<open>Program::optimize\<close>, which calls it.

  For every instruction it keeps up to four lists of branches such that each path to the instruction contains one of the lists,
  and moves a branch over tests that all lists decide. A branch is a number, twice the instruction
  plus 1 for \<^verbatim>\<open>yes\<close>. The lists lie behind each other in \<open>do_dom\<close>; the predecessors of an instruction are chained through
  arrays indexed by branches. A failed assertion is \<open>None\<close>.
\<close>

declare cq_partition.simps [code] cq_loop.simps [code]

section \<open>State\<close>

record domopt =
  do_insn :: "insn list"
  do_known_length :: "int list"
  do_insn_id :: "nat list"
  do_dom :: "nat list"
  do_dom_start :: "nat list"
  do_domlist_start :: "nat list"
  do_pred_first :: "int list"
  do_pred_next :: "int list"
  do_pred_prev :: "int list"

definition MAX_DOMLIST :: nat where "MAX_DOMLIST = 4"

definition brno :: "nat \<Rightarrow> bool \<Rightarrow> nat" where "brno state br = 2 * state + of_bool br"
definition stateno :: "nat \<Rightarrow> nat" where "stateno br = br div 2"
definition br_yes :: "nat \<Rightarrow> bool" where "br_yes br = odd br"

text \<open>\<^verbatim>\<open>Insn::compare\<close> is \<^verbatim>\<open>memcmp\<close> on the first 12 bytes: offset, padding, short output, mask and value.\<close>

definition in_bytes :: "insn \<Rightarrow> bytes" where
  "in_bytes i =
     [lo8 (in_offset i), hi8 (in_offset i), 0, of_bool (in_short_output i)] @
     map (uchar (in_mask i)) [0, 1, 2, 3] @ map (uchar (in_value i)) [0, 1, 2, 3]"

fun memcmp :: "bytes \<Rightarrow> bytes \<Rightarrow> int" where
  "memcmp (a # as) (b # bs) = (if a < b then - 1 else if a > b then 1 else memcmp as bs)"
| "memcmp as bs = 0"

definition insn_permute_compare :: "insn list \<Rightarrow> nat \<Rightarrow> nat \<Rightarrow> int" where
  "insn_permute_compare is a b =
     (let cmp = memcmp (in_bytes (is ! a)) (in_bytes (is ! b)) in if cmp \<noteq> 0 then cmp else int a - int b)"

definition lower_known :: "int \<Rightarrow> int \<Rightarrow> int list \<Rightarrow> int list" where
  "lower_known j len kl = (if j > 0 \<and> len < kl ! nat j then kl[nat j := len] else kl)"

fun known_lengths :: "nat \<Rightarrow> insn list \<Rightarrow> int list \<Rightarrow> int list" where
  "known_lengths i [] kl = kl"
| "known_lengths i (x # xs) kl =
     (let tested_length = max (int (required_length x)) (kl ! i);
          so = in_short_output x;
          kl = lower_known (in_j (\<not> so) x) tested_length kl
      in known_lengths (Suc i) xs (lower_known (in_j so x) (kl ! i) kl))"

fun assign_ids :: "insn list \<Rightarrow> nat option \<Rightarrow> nat list \<Rightarrow> nat list \<Rightarrow> nat list" where
  "assign_ids is previous [] ids = ids"
| "assign_ids is previous (a # as) ids =
     assign_ids is (Some a) as
       (ids[a := (case previous of
                    Some b \<Rightarrow> if memcmp (in_bytes (is ! a)) (in_bytes (is ! b)) = 0 then ids ! b else a
                  | None \<Rightarrow> a)])"

definition dominator_optimizer :: "insn list \<Rightarrow> domopt option" where
  "dominator_optimizer is =
     do {
       let n = length is;
       permute \<leftarrow> click_qsort (insn_permute_compare is) [0..<n];
       Some \<lparr> do_insn = is,
              do_known_length = known_lengths 0 is ((replicate n 0x7FFFFFFF)[0 := 0]),
              do_insn_id = assign_ids is None permute (replicate n 0),
              do_dom = [], do_dom_start = [0], do_domlist_start = [0],
              do_pred_first = [], do_pred_next = [], do_pred_prev = [] \<rparr>
     }"

section \<open>Predecessors\<close>

definition link_branch :: "nat \<Rightarrow> bool \<Rightarrow> insn \<Rightarrow> domopt \<Rightarrow> domopt" where
  "link_branch i k x s =
     (let nexts = in_j k x; br = brno i k
      in if nexts > 0
         then let first = do_pred_first s ! nat nexts;
                  s = s\<lparr> do_pred_next := (do_pred_next s)[br := first] \<rparr>;
                  s = (if first \<ge> 0 then s\<lparr> do_pred_prev := (do_pred_prev s)[nat first := int br] \<rparr> else s)
              in s\<lparr> do_pred_first := (do_pred_first s)[nat nexts := int br] \<rparr>
         else s)"

fun link_branches :: "nat \<Rightarrow> insn list \<Rightarrow> domopt \<Rightarrow> domopt" where
  "link_branches i [] s = s"
| "link_branches i (x # xs) s = link_branches (Suc i) xs (link_branch i True x (link_branch i False x s))"

definition init_predecessors :: "domopt \<Rightarrow> domopt" where
  "init_predecessors s =
     (if do_pred_first s = [] then
        let n = length (do_insn s)
        in link_branches 0 (do_insn s)
             (s\<lparr> do_pred_first := replicate n (- 1), do_pred_next := replicate (2 * n) (- 1), do_pred_prev := replicate (2 * n) (- 1) \<rparr>)
      else s)"

partial_function (option) chain_from :: "int list \<Rightarrow> int \<Rightarrow> nat list option" where
  "chain_from pred_next br =
     (if br \<ge> 0 then do { v \<leftarrow> chain_from pred_next (pred_next ! nat br); Some (nat br # v) } else Some [])"

text \<open>Where a branch is inserted into a chain: the last element in front of it and the first behind it.\<close>

partial_function (option) chain_position :: "int list \<Rightarrow> nat \<Rightarrow> int \<Rightarrow> int \<Rightarrow> (int \<times> int) option" where
  "chain_position pred_next br prev cur =
     (if cur \<ge> 0 \<and> cur < int br then chain_position pred_next br cur (pred_next ! nat cur) else Some (prev, cur))"

declare chain_from.simps [code] chain_position.simps [code]

definition set_branch :: "nat \<Rightarrow> bool \<Rightarrow> int \<Rightarrow> domopt \<Rightarrow> domopt option" where
  "set_branch from_state branch to_state s =
     do {
       let x = do_insn s ! from_state;
       let br = brno from_state branch;
       let s = (if in_j branch x > 0 then
                  let prev = do_pred_prev s ! br; nxt = do_pred_next s ! br;
                      s = (if prev \<ge> 0 then s\<lparr> do_pred_next := (do_pred_next s)[nat prev := nxt] \<rparr>
                           else s\<lparr> do_pred_first := (do_pred_first s)[nat (in_j branch x) := nxt] \<rparr>)
                  in if nxt \<ge> 0 then s\<lparr> do_pred_prev := (do_pred_prev s)[nat nxt := prev] \<rparr> else s
                else s);
       s \<leftarrow> (if to_state > 0 then
               do {
                 (prev, cur) \<leftarrow> chain_position (do_pred_next s) br (- 1) (do_pred_first s ! nat to_state);
                 let s = s\<lparr> do_pred_prev := (do_pred_prev s)[br := prev], do_pred_next := (do_pred_next s)[br := cur] \<rparr>;
                 let s = (if prev < 0 then s\<lparr> do_pred_first := (do_pred_first s)[nat to_state := int br] \<rparr>
                          else s\<lparr> do_pred_next := (do_pred_next s)[nat prev := int br] \<rparr>);
                 Some (if cur \<ge> 0 then s\<lparr> do_pred_prev := (do_pred_prev s)[nat cur := int br] \<rparr> else s)
               }
             else Some s);
       Some (s\<lparr> do_insn := (do_insn s)[from_state := in_set_j branch to_state x] \<rparr>)
     }"

section \<open>Dominators\<close>

definition br_implies :: "domopt \<Rightarrow> nat \<Rightarrow> nat \<Rightarrow> bool" where
  "br_implies s br state =
     (let from_state = stateno br; kl = nat (do_known_length s ! from_state); x = do_insn s ! from_state; y = do_insn s ! state
      in if br_yes br then in_implies x y kl else in_not_implies x y kl)"

definition br_implies_not :: "domopt \<Rightarrow> nat \<Rightarrow> nat \<Rightarrow> bool" where
  "br_implies_not s br state =
     (let from_state = stateno br; kl = nat (do_known_length s ! from_state); x = do_insn s ! from_state; y = do_insn s ! state
      in if br_yes br then in_implies_not x y kl else in_not_implies_not x y kl)"

text \<open>\<^verbatim>\<open>intersect_lists\<close>: the lists are the ranges of \<open>v\<close> between \<open>pos\<close> and \<open>stop\<close>.\<close>

partial_function (option) advance_to :: "'a::linorder list \<Rightarrow> nat \<Rightarrow> 'a \<Rightarrow> nat \<Rightarrow> nat option" where
  "advance_to v stop x pos = (if pos < stop \<and> v ! pos < x then advance_to v stop x (pos + 1) else Some pos)"

partial_function (option) intersect_loop ::
  "int list \<Rightarrow> nat list \<Rightarrow> nat list \<Rightarrow> int \<Rightarrow> nat \<Rightarrow> nat \<Rightarrow> int list \<Rightarrow> int list option" where
  "intersect_loop v stop pos x p k out =
     (if k < length stop then
        do {
          q \<leftarrow> advance_to v (stop ! p) x (pos ! p);
          if q \<ge> stop ! p then Some out
          else intersect_loop v stop (pos[p := q]) (if v ! q > x then v ! q else x) (if p + 1 = length stop then 0 else p + 1)
                 (if v ! q > x then 1 else k + 1) out
        }
      else intersect_loop v stop pos (x + 1) 0 0 (out @ [x]))"

declare advance_to.simps [code] intersect_loop.simps [code]

definition intersect_lists :: "int list \<Rightarrow> nat list \<Rightarrow> nat list \<Rightarrow> int list option" where
  "intersect_lists v start stop =
     (case (start, stop) of
        ([], _) \<Rightarrow> Some []
      | ([a], b # _) \<Rightarrow> Some (take (b - a) (drop a v))
      | _ \<Rightarrow> intersect_loop v stop start (- 1) 0 0 [])"

text \<open>\<^verbatim>\<open>calculate_dom\<close>. The lists of the predecessors are ranges (\<open>pdom\<close>, \<open>pdom_end\<close>) of \<open>do_dom\<close>; their last element is set to the
  branch that leads here. \<open>(a ^ b) <= 1\<close> is that two branches belong to the same instruction.
  Reading the branch in front of an empty list at the start of the vector (\<open>stop = 0\<close>) fails the bounds check of the vector.\<close>

definition same_state :: "nat \<Rightarrow> nat \<Rightarrow> bool" where "same_state a b \<longleftrightarrow> stateno a = stateno b"

type_synonym domlists = "nat list \<times> nat list \<times> nat list"

definition collect_list :: "domopt \<Rightarrow> nat \<Rightarrow> nat \<Rightarrow> nat \<Rightarrow> domlists \<Rightarrow> domlists option" where
  "collect_list t s pred_brid j = (\<lambda>(doms, pdom, pdom_end).
     let pos1 = do_dom_start t ! j; pos2 = do_dom_start t ! (j + 1)
     in if list_ex (\<lambda>k. same_state (doms ! k) pred_brid \<and> doms ! k \<noteq> pred_brid) [pos1..<pos2 - 1]
        then Some (doms, pdom, pdom_end)
        else if stateno (doms ! (pos2 - 1)) \<noteq> do_insn_id t ! s then None
        else Some (doms[pos2 - 1 := pred_brid], pdom @ [pos1], pdom_end @ [pos2]))"

fun collect_lists :: "domopt \<Rightarrow> nat \<Rightarrow> nat \<Rightarrow> nat list \<Rightarrow> domlists \<Rightarrow> domlists option" where
  "collect_lists t s pred_brid [] x = Some x"
| "collect_lists t s pred_brid (j # js) x = do { x \<leftarrow> collect_list t s pred_brid j x; collect_lists t s pred_brid js x }"

definition collect_pred :: "domopt \<Rightarrow> nat list \<Rightarrow> nat \<Rightarrow> domlists \<Rightarrow> domlists option" where
  "collect_pred t predecessors i = (\<lambda>(doms, pdom, pdom_end).
     let pred_br = predecessors ! i; s = stateno pred_br; ident = do_insn_id t ! s
     in if i > 0 \<and> stateno (predecessors ! (i - 1)) = s then
          if pdom \<noteq> [] \<and> (i = length predecessors - 1 \<or> stateno (predecessors ! (i + 1)) \<noteq> ident) \<and>
             last pdom_end > last pdom \<and> stateno (doms ! (last pdom_end - 1)) = ident
          then Some (doms, pdom, butlast pdom_end @ [last pdom_end - 1]) else None
        else collect_lists t s (brno ident (br_yes pred_br)) [do_domlist_start t ! s..<do_domlist_start t ! (s + 1)]
               (doms, pdom, pdom_end))"

fun collect_preds :: "domopt \<Rightarrow> nat list \<Rightarrow> nat list \<Rightarrow> domlists \<Rightarrow> domlists option" where
  "collect_preds t predecessors [] x = Some x"
| "collect_preds t predecessors (i # is) x = do { x \<leftarrow> collect_pred t predecessors i x; collect_preds t predecessors is x }"

text \<open>The lists are copied behind the others, and it is noted whether all of them decide the test of this state.\<close>

definition extend_list :: "nat list \<Rightarrow> nat \<Rightarrow> nat \<Rightarrow> nat list" where
  "extend_list doms start endpos =
     map (\<lambda>i. doms ! i) (filter (\<lambda>i. \<not> (i < endpos \<and> same_state (doms ! i) (doms ! endpos))) [start..<endpos + 1])"

fun extend_lists ::
  "(nat \<times> nat) list \<Rightarrow> nat \<times> int \<times> nat list \<times> nat list \<Rightarrow> (nat \<times> int \<times> nat list \<times> nat list) option" where
  "extend_lists [] x = Some x"
| "extend_lists ((start, stop) # ps) (mybr, num_mybr, doms, dom_start) =
     (if stop = 0 then None
      else
        let copied = extend_list doms start (stop - 1);
            decided = filter (\<lambda>b. same_state b mybr) copied;
            (mybr, num_mybr) = (if num_mybr \<ge> 0 \<and> decided \<noteq> [] \<and> (num_mybr = 0 \<or> mybr = last decided)
                                then (last decided, num_mybr + 1) else (mybr, - 1));
            doms = doms @ copied @ [mybr]
        in extend_lists ps (mybr, num_mybr, doms, dom_start @ [length doms]))"

fun set_branches :: "nat list \<Rightarrow> int \<Rightarrow> domopt \<Rightarrow> domopt option" where
  "set_branches [] to_state s = Some s"
| "set_branches (br # brs) to_state s =
     do { s \<leftarrow> set_branch (stateno br) (br_yes br) to_state s; set_branches brs to_state s }"

definition calculate_dom :: "nat \<Rightarrow> domopt \<Rightarrow> domopt option" where
  "calculate_dom state s =
     (if length (do_domlist_start s) \<noteq> state + 1 \<or> length (do_dom_start s) - 1 \<noteq> last (do_domlist_start s) \<or>
         length (do_dom s) \<noteq> last (do_dom_start s) then None
      else do {
        let s = init_predecessors s;
        predecessors \<leftarrow> chain_from (do_pred_next s) (do_pred_first s ! state);
        (doms, pdom, pdom_end) \<leftarrow> collect_preds s predecessors [0..<length predecessors] (do_dom s, [], []);
        let s = s\<lparr> do_dom := doms \<rparr>;
        let dom_start_oldsize = length (do_dom_start s);
        let ident = do_insn_id s ! state;
        (s, pdom) \<leftarrow>
          (if length pdom > MAX_DOMLIST then
             do {
               common \<leftarrow> intersect_lists (map int doms) pdom pdom_end;
               let doms = doms @ map nat common @ [brno ident False];
               Some (s\<lparr> do_dom := doms, do_dom_start := do_dom_start s @ [length doms] \<rparr>, pdom)
             }
           else if pdom \<noteq> [] then
             do {
               (mybr, num_mybr, doms, dom_start) \<leftarrow> extend_lists (zip pdom pdom_end) (brno ident False, 0, doms, do_dom_start s);
               let s = s\<lparr> do_dom := doms, do_dom_start := dom_start \<rparr>;
               if num_mybr > 0 then do { s \<leftarrow> set_branches predecessors (in_j (br_yes mybr) (do_insn s ! state)) s; Some (s, []) }
               else Some (s, pdom)
             }
           else Some (s, pdom));
        s \<leftarrow>
          (if pdom = [] then
             let s = s\<lparr> do_dom := take (do_dom_start s ! (dom_start_oldsize - 1)) (do_dom s),
                        do_dom_start := take dom_start_oldsize (do_dom_start s) \<rparr>
             in if state > 0 then do { s \<leftarrow> set_branch state False j_never s; set_branch state True j_never s }
                else let doms = do_dom s @ [brno state False]
                     in Some (s\<lparr> do_dom := doms, do_dom_start := do_dom_start s @ [length doms] \<rparr>)
           else Some s);
        Some (s\<lparr> do_domlist_start := do_domlist_start s @ [length (do_dom_start s) - 1] \<rparr>)
      })"

section \<open>Moving branches\<close>

text \<open>\<^verbatim>\<open>dom_shift_branch\<close>: \<open>facts\<close> is the list of branches, the last one first. The result is the way of the branch.\<close>

partial_function (option) shift_loop :: "domopt \<Rightarrow> nat list \<Rightarrow> int \<Rightarrow> int list option" where
  "shift_loop s facts to_state =
     (if to_state > 0 then
        case find (\<lambda>b. br_implies s b (nat to_state) \<or> br_implies_not s b (nat to_state)) facts of
          None \<Rightarrow> Some [to_state]
        | Some b \<Rightarrow>
            do {
              way \<leftarrow> shift_loop s facts (in_j (br_implies s b (nat to_state)) (do_insn s ! nat to_state));
              Some (to_state # way)
            }
      else Some [to_state])"

declare shift_loop.simps [code]

definition dom_shift_branch :: "nat \<Rightarrow> int \<Rightarrow> nat \<Rightarrow> nat \<Rightarrow> domopt \<Rightarrow> (int list \<times> domopt) option" where
  "dom_shift_branch br to_state doms dom_end s =
     (let br = brno (do_insn_id s ! stateno br) (br_yes br)
      in if dom_end > doms \<and> stateno (do_dom s ! (dom_end - 1)) = stateno br
         then let s = s\<lparr> do_dom := (do_dom s)[dom_end - 1 := br] \<rparr>
              in do {
                   way \<leftarrow> shift_loop s (rev (take (dom_end - doms) (drop doms (do_dom s)))) to_state;
                   Some (way, s)
                 }
         else None)"

fun shift_all :: "nat \<Rightarrow> int \<Rightarrow> nat list \<Rightarrow> domopt \<Rightarrow> (int list list \<times> domopt) option" where
  "shift_all br to_state [] s = Some ([], s)"
| "shift_all br to_state (d # ds) s =
     do {
       (way, s) \<leftarrow> dom_shift_branch br to_state (do_dom_start s ! d) (do_dom_start s ! (d + 1)) s;
       (ways, s) \<leftarrow> shift_all br to_state ds s;
       Some (way # ways, s)
     }"

text \<open>The ways lie behind each other in one vector.\<close>

fun starts_from :: "nat \<Rightarrow> int list list \<Rightarrow> nat list" where
  "starts_from k [] = []"
| "starts_from k (w # ws) = k # starts_from (k + length w) ws"

definition last_common_state_in_lists :: "int list list \<Rightarrow> int option" where
  "last_common_state_in_lists ways =
     (if last (hd ways) \<le> 0 \<and> list_all (\<lambda>w. last w = last (hd ways)) ways then Some (last (hd ways))
      else do {
        let start = starts_from 0 ways;
        common \<leftarrow> intersect_lists (concat ways) start (map2 (+) start (map length ways));
        if common = [] then None else Some (last common)
      })"

definition shift_branch :: "nat \<Rightarrow> bool \<Rightarrow> domopt \<Rightarrow> domopt option" where
  "shift_branch state branch s =
     do {
       let nexts = in_j branch (do_insn s ! state);
       let lo = do_domlist_start s ! state;
       let hi = do_domlist_start s ! (state + 1);
       (new_nexts, s) \<leftarrow>
         (if lo = hi \<or> nexts \<le> 0 then Some (nexts, s)
          else do {
            (ways, s) \<leftarrow> shift_all (brno state branch) nexts [lo..<hi] s;
            if lo + 1 = hi then Some (last (hd ways), s)
            else do { c \<leftarrow> last_common_state_in_lists ways; Some (c, s) }
          });
       if new_nexts \<noteq> nexts then set_branch state branch new_nexts s else Some s
     }"

definition dominator_run :: "nat \<Rightarrow> domopt \<Rightarrow> domopt option" where
  "dominator_run state s =
     do { s \<leftarrow> calculate_dom state s; s \<leftarrow> shift_branch state True s; shift_branch state False s }"

fun dominator_runs :: "nat list \<Rightarrow> domopt \<Rightarrow> domopt option" where
  "dominator_runs [] s = Some s"
| "dominator_runs (i # is) s = do { s \<leftarrow> dominator_run i s; dominator_runs is s }"

definition pg_dominators :: "program \<Rightarrow> program option" where
  "pg_dominators g =
     do {
       s \<leftarrow> dominator_optimizer (pg_insn g);
       s \<leftarrow> dominator_runs [0..<length (pg_insn g)] s;
       Some (g\<lparr> pg_insn := do_insn s \<rparr>)
     }"

definition pg_finish :: "program \<Rightarrow> program" where
  "pg_finish g =
     (let g = (if pg_insn g = [] \<and> pg_output_everything g < 0 then g\<lparr> pg_output_everything := - j_never \<rparr>
               else if pg_output_everything g \<ge> 0 then g\<lparr> pg_insn := [] \<rparr> else g);
          safe = fold (\<lambda>i n. if required_length i > n then required_length i else n) (pg_insn g) 0
      in g\<lparr> pg_safe_length := of_nat safe - of_nat (pg_align_offset g) \<rparr>)"

definition pg_optimize :: "(int \<times> int) list \<Rightarrow> int \<Rightarrow> program \<Rightarrow> program option" where
  "pg_optimize m last_offset g =
     do {
       g \<leftarrow> bubble_sort_and_exprs m last_offset g;
       g \<leftarrow> pg_dominators g;
       g \<leftarrow> combine_compatible_states g;
       Some (pg_finish (remove_unused_states g))
     }"

end
