(* ===== verification/Click_ClassRun.thy ===== *)
theory Click_ClassRun
  imports Click_Classification
begin

unbundle bit_operations_syntax

text \<open>
  What the decision programs of \<open>Click_Classification\<close> mean. An instruction is a test on the bytes of the packet (\<open>byte_test\<close>)
  and two jumps; \<open>cl_run\<close> follows the jumps for any way of deciding the tests. The two interpreters
  of the code compute this run (\<open>pg_match_run\<close>), and the four implications between tests the optimisers use are sound for
  every packet that is known to have the stated length.
\<close>

section \<open>Tests on bytes\<close>

text \<open>Byte \<open>k\<close> behind \<^verbatim>\<open>data() - _align_offset\<close>, and the word at \<open>off\<close>; bytes outside the packet count as 0.\<close>

definition cl_byte :: "bytes \<Rightarrow> nat \<Rightarrow> nat \<Rightarrow> byte" where
  "cl_byte bs align k = (if align \<le> k \<and> k - align < length bs then bs ! (k - align) else 0)"

definition cl_word :: "bytes \<Rightarrow> nat \<Rightarrow> nat \<Rightarrow> u32" where
  "cl_word bs align off =
     le32 (le16 (cl_byte bs align off) (cl_byte bs align (off + 1))) (le16 (cl_byte bs align (off + 2)) (cl_byte bs align (off + 3)))"

definition byte_test :: "bytes \<Rightarrow> nat \<Rightarrow> insn \<Rightarrow> bool" where
  "byte_test bs align i \<longleftrightarrow>
     in_mask i = 0 \<or>
     (if required_length i \<le> length bs + align then cl_word bs align (unat (in_offset i)) AND in_mask i = in_value i
      else in_short_output i)"

text \<open>Values lie within their masks, and masks do not reach in front of the packet.\<close>

definition in_normal :: "nat \<Rightarrow> insn \<Rightarrow> bool" where
  "in_normal align i \<longleftrightarrow>
     in_value i AND in_mask i = in_value i \<and>
     (\<forall>k<4. uchar (in_mask i) k \<noteq> 0 \<longrightarrow> align \<le> unat (in_offset i) + k)"

section \<open>Runs\<close>

function cl_run :: "(insn \<Rightarrow> bool) \<Rightarrow> insn list \<Rightarrow> nat \<Rightarrow> int option" where
  "cl_run t is pos =
     (if pos < length is then
        let j = in_j (t (is ! pos)) (is ! pos)
        in if j \<le> 0 then Some j else if pos < nat j then cl_run t is (nat j) else None
      else None)"
  by pat_completeness auto
termination by (relation "measure (\<lambda>(t, is, pos). length is - pos)") auto

declare cl_run.simps [simp del]

definition cl_goto :: "(insn \<Rightarrow> bool) \<Rightarrow> insn list \<Rightarrow> int \<Rightarrow> int option" where
  "cl_goto t is j = (if j > 0 then cl_run t is (nat j) else Some j)"

text \<open>Jumps lead to later instructions of the program.\<close>

definition jump_ok :: "nat \<Rightarrow> nat \<Rightarrow> int \<Rightarrow> bool" where
  "jump_ok n i j \<longleftrightarrow> j \<le> 0 \<or> (int i < j \<and> j < int n)"

definition cl_forward :: "insn list \<Rightarrow> bool" where
  "cl_forward is \<longleftrightarrow> (\<forall>i<length is. jump_ok (length is) i (in_no (is ! i)) \<and> jump_ok (length is) i (in_yes (is ! i)))"

definition cl_wellformed :: "nat \<Rightarrow> insn list \<Rightarrow> bool" where
  "cl_wellformed align is \<longleftrightarrow> cl_forward is \<and> (\<forall>i\<in>set is. in_normal align i \<and> in_mask i \<noteq> 0)"

text \<open>A program that is ready to run, and its run.\<close>

definition pg_ok :: "program \<Rightarrow> bool" where
  "pg_ok g \<longleftrightarrow>
     pg_output_everything g \<ge> 0 \<or>
     (pg_insn g \<noteq> [] \<and> cl_wellformed (pg_align_offset g) (pg_insn g) \<and>
      (\<forall>i\<in>set (pg_insn g). required_length i \<le> unat (pg_safe_length g) + pg_align_offset g))"

definition pg_run :: "(insn \<Rightarrow> bool) \<Rightarrow> program \<Rightarrow> int option" where
  "pg_run t g = (if pg_output_everything g \<ge> 0 then Some (- pg_output_everything g) else cl_run t (pg_insn g) 0)"

text \<open>A way of deciding tests looks at the test of an instruction, not at its jumps, and accepts everything when nothing is compared.\<close>

locale cl_decision =
  fixes decide :: "insn \<Rightarrow> bool"
  assumes decide_jumps: "decide (i\<lparr> in_no := a, in_yes := b \<rparr>) = decide i"
    and decide_all: "in_mask i = 0 \<Longrightarrow> decide i"
begin

lemma decide_no [simp]: "decide (i\<lparr> in_no := a \<rparr>) = decide i"
  using decide_jumps [where i = i and a = a and b = "in_yes i"] by simp

lemma decide_yes [simp]: "decide (i\<lparr> in_yes := a \<rparr>) = decide i"
  using decide_jumps [where i = i and a = "in_no i" and b = a] by simp

lemma decide_set_j [simp]: "decide (in_set_j k a i) = decide i"
  by (simp add: in_set_j_def)

end

interpretation bt: cl_decision "byte_test bs align"
  by unfold_locales (simp_all add: byte_test_def required_length_def)

section \<open>Following jumps\<close>

lemma in_j_set_j [simp]: "in_j k (in_set_j k a i) = a" "in_j (\<not> k) (in_set_j k a i) = in_j (\<not> k) i"
  by (simp_all add: in_j_def in_set_j_def)

lemma in_j_bool: "in_j True i = in_yes i" "in_j False i = in_no i"
  by (simp_all add: in_j_def)

lemma forwardD: "cl_forward is \<Longrightarrow> i < length is \<Longrightarrow> jump_ok (length is) i (in_j k (is ! i))"
  by (cases k) (auto simp: cl_forward_def in_j_def)

lemma forwardI: "(\<And>i k. i < length is \<Longrightarrow> jump_ok (length is) i (in_j k (is ! i))) \<Longrightarrow> cl_forward is"
  unfolding cl_forward_def using in_j_bool by metis

lemma forward_update:
  assumes "cl_forward is" and "\<And>k. i < length is \<Longrightarrow> jump_ok (length is) i (in_j k x)"
  shows "cl_forward (is[i := x])"
  using assms by (cases "i < length is") (auto intro!: forwardI simp: nth_list_update dest: forwardD)

lemma run_step:
  assumes "cl_forward is" and "pos < length is"
  shows "cl_run t is pos = cl_goto t is (in_j (t (is ! pos)) (is ! pos))"
  using forwardD [OF assms, of "t (is ! pos)"] assms(2)
  by (auto simp: cl_run.simps [of t "is" pos] cl_goto_def jump_ok_def Let_def)

lemma run_beyond: "\<not> pos < length is \<Longrightarrow> cl_run t is pos = None"
  by (simp add: cl_run.simps)

lemma run_total: "cl_forward is \<Longrightarrow> pos < length is \<Longrightarrow> \<exists>j \<le> 0. cl_run t is pos = Some j"
proof (induction "length is - pos" arbitrary: pos rule: less_induct)
  case less
  let ?j = "in_j (t (is ! pos)) (is ! pos)"
  have ok: "jump_ok (length is) pos ?j" by (rule forwardD [OF less.prems])
  show ?case
  proof (cases "?j > 0")
    case True
    then have "length is - nat ?j < length is - pos" "nat ?j < length is" using ok by (auto simp: jump_ok_def)
    then show ?thesis using less True by (simp add: run_step cl_goto_def)
  qed (use less.prems in \<open>simp add: run_step cl_goto_def\<close>)
qed

text \<open>Programs that agree from a position on, or that take equivalent steps, have the same runs.\<close>

lemma run_cong:
  assumes "length is' = length is" and "\<And>i. pos \<le> i \<Longrightarrow> i < length is \<Longrightarrow> is' ! i = is ! i"
  shows "cl_run t is' pos = cl_run t is pos"
  using assms(2)
proof (induction "length is - pos" arbitrary: pos rule: less_induct)
  case less
  let ?j = "in_j (t (is ! pos)) (is ! pos)"
  have "cl_run t is' (nat ?j) = cl_run t is (nat ?j)" if "pos < length is" "pos < nat ?j"
    using less that by (intro less.hyps) auto
  then show ?case
    using less.prems [of pos] assms(1) by (simp add: cl_run.simps [of t _ pos] Let_def)
qed

lemma run_steps:
  assumes "cl_forward is" and "cl_forward is'" and len: "length is' = length is"
    and step: "\<And>i. i < length is \<Longrightarrow>
      cl_goto t is (in_j (t' (is' ! i)) (is' ! i)) = cl_goto t is (in_j (t (is ! i)) (is ! i))"
  shows "cl_run t' is' pos = cl_run t is pos"
proof (induction "length is - pos" arbitrary: pos rule: less_induct)
  case less
  show ?case
  proof (cases "pos < length is")
    case True
    let ?j = "in_j (t' (is' ! pos)) (is' ! pos)"
    have ok: "jump_ok (length is) pos ?j" using forwardD [OF assms(2), of pos] True len by simp
    then have "cl_goto t' is' ?j = cl_goto t is ?j"
      using less.hyps [of "nat ?j"] True by (auto simp: cl_goto_def jump_ok_def)
    then show ?thesis using step [OF True] True assms(1,2) len by (simp add: run_step)
  qed (simp add: run_beyond len)
qed

lemma run_update:
  assumes "cl_forward is" and "cl_forward (is[i := x])"
    and "i < length is \<Longrightarrow> cl_goto t is (in_j (t x) x) = cl_goto t is (in_j (t (is ! i)) (is ! i))"
  shows "cl_run t (is[i := x]) pos = cl_run t is pos"
  using assms by (cases "i < length is") (auto intro!: run_steps simp: nth_list_update)

section \<open>Bytes of words\<close>

lemma bit_uchar: "r < 8 \<Longrightarrow> bit (uchar w k) r \<longleftrightarrow> bit w (8 * k + r)"
  by (simp add: uchar_def bit_ucast_iff bit_drop_bit_eq)

lemma uchar_0 [simp]: "uchar 0 k = 0"
  by (simp add: uchar_def)

lemma bit_word_uchar: "bit w n \<longleftrightarrow> bit (uchar w (n div 8)) (n mod 8)" for w :: u32
  by (simp add: bit_uchar)

lemma and_uchar_cong:
  assumes "\<And>k. k < 4 \<Longrightarrow> uchar m k \<noteq> 0 \<Longrightarrow> uchar a k = uchar b k"
  shows "a AND m = b AND m"
proof (rule bit_word_eqI)
  fix n assume "n < LENGTH(32)"
  then have "n div 8 < 4" by simp
  show "bit (a AND m) n = bit (b AND m) n"
  proof (cases "uchar m (n div 8) = 0")
    case True
    then show ?thesis by (simp add: bit_and_iff bit_word_uchar [of m n])
  next
    case False
    then show ?thesis using assms [OF \<open>n div 8 < 4\<close>]
      by (simp add: bit_and_iff bit_word_uchar [of a n] bit_word_uchar [of b n])
  qed
qed

lemma uchar_le32:
  "uchar (le32 (le16 a b) (le16 c d)) 0 = a" "uchar (le32 (le16 a b) (le16 c d)) (Suc 0) = b"
  "uchar (le32 (le16 a b) (le16 c d)) 2 = c" "uchar (le32 (le16 a b) (le16 c d)) 3 = d"
  by (rule bit_word_eqI; simp add: bit_uchar bit_le32 bit_le16)+

lemma less_4_cases: "k < 4 \<Longrightarrow> k = 0 \<or> k = Suc 0 \<or> k = 2 \<or> k = 3" for k :: nat
  by linarith

lemma uchar_cl_word: "k < 4 \<Longrightarrow> uchar (cl_word bs align off) k = cl_byte bs align (off + k)"
  using less_4_cases [of k] by (auto simp: cl_word_def uchar_le32)

lemma uchar_get32: "k < 4 \<Longrightarrow> uchar (get32 d i) k = get8 d (i + k)"
  using less_4_cases [of k] by (auto simp: get32_def get16_def get8_def uchar_le32 [unfolded numeral_2_eq_2 numeral_3_eq_3]
      numeral_2_eq_2 numeral_3_eq_3)

text \<open>The length an instruction requires is the end of the bytes it compares.\<close>

lemma required_length_covers:
  assumes "k < 4" and "uchar (in_mask i) k \<noteq> 0"
  shows "unat (in_offset i) + k < required_length i"
proof -
  have "in_mask i \<noteq> 0" using assms(2) by auto
  then show ?thesis using less_4_cases [OF assms(1)] assms(2) by (auto simp: required_length_def)
qed

lemma required_length_bounds:
  "in_mask i \<noteq> 0 \<Longrightarrow> unat (in_offset i) < required_length i" "required_length i \<le> unat (in_offset i) + 4"
  by (auto simp: required_length_def)

lemma length_ok_required: "in_mask i \<noteq> 0 \<Longrightarrow> cl_length_ok i n \<longleftrightarrow> required_length i \<le> n"
  by (auto simp: cl_length_ok_def required_length_def Let_def)

section \<open>The interpreters\<close>

lemma cl_load_word:
  assumes "align \<le> headroom p" and "off + 4 \<le> plen p + align + tailroom p"
  shows "\<exists>w. cl_load p align off = Some w \<and>
    (\<forall>k<4. align \<le> off + k \<longrightarrow> off + k < plen p + align \<longrightarrow> uchar w k = cl_byte (pdata p) align (off + k))"
proof -
  let ?i = "headroom p + off - align"
  have "nat (int (headroom p + off) - int align) = ?i" by linarith
  then have "cl_load p align off = Some (get32 (pbuffer p) ?i)"
    using assms by (simp add: cl_load_def ld32_def pbuffer_def del: of_nat_add)
  moreover have "uchar (get32 (pbuffer p) ?i) k = cl_byte (pdata p) align (off + k)"
    if "k < 4" "align \<le> off + k" "off + k < plen p + align" for k
    using that assms(1) by (auto simp: uchar_get32 get8_def cl_byte_def pbuffer_def nth_append)
  ultimately show ?thesis by blast
qed

text \<open>Reading four bytes behind a shorter packet does not change a test of bytes of the packet.\<close>

lemma cl_load_test:
  assumes "align \<le> headroom p" and "3 \<le> tailroom p" and "in_normal align i" and "in_mask i \<noteq> 0"
    and len: "required_length i \<le> plen p + align"
  shows "\<exists>w. cl_load p align (unat (in_offset i)) = Some w \<and> (w AND in_mask i = in_value i \<longleftrightarrow> byte_test (pdata p) align i)"
proof -
  let ?off = "unat (in_offset i)"
  have "?off + 4 \<le> plen p + align + tailroom p" using required_length_bounds(1) [OF assms(4)] assms(2) len by linarith
  from cl_load_word [OF assms(1) this] obtain w where w: "cl_load p align ?off = Some w"
    and bytes: "\<And>k. k < 4 \<Longrightarrow> align \<le> ?off + k \<Longrightarrow> ?off + k < plen p + align \<Longrightarrow> uchar w k = cl_byte (pdata p) align (?off + k)"
    by blast
  have "w AND in_mask i = cl_word (pdata p) align ?off AND in_mask i"
  proof (rule and_uchar_cong)
    fix k :: nat assume k: "k < 4" "uchar (in_mask i) k \<noteq> 0"
    then have "?off + k < plen p + align" "align \<le> ?off + k"
      using required_length_covers [OF k] len assms(3) by (auto simp: in_normal_def)
    then show "uchar w k = uchar (cl_word (pdata p) align ?off) k" using k by (simp add: bytes uchar_cl_word)
  qed
  then show ?thesis using w len assms(4) by (simp add: byte_test_def)
qed

lemma length_checked_loop_run:
  assumes "cl_wellformed align is" and room: "align \<le> headroom p" "3 \<le> tailroom p" and "pos < length is"
  shows "length_checked_loop p align is pos = map_option uminus (cl_run (byte_test (pdata p) align) is pos)"
  using assms(4)
proof (induction "length is - pos" arbitrary: pos rule: less_induct)
  case less
  let ?i = "is ! pos" and ?t = "byte_test (pdata p) align"
  have i: "in_normal align ?i" "in_mask ?i \<noteq> 0" and fw: "cl_forward is"
    using assms(1) less.prems by (auto simp: cl_wellformed_def)
  have test: "(if cl_length_ok ?i (plen p + align)
      then do { data \<leftarrow> cl_load p align (unat (in_offset ?i)); Some (data AND in_mask ?i = in_value ?i) }
      else Some (in_short_output ?i)) = Some (?t ?i)"
    using cl_load_test [OF room i] i(2) by (auto simp: length_ok_required byte_test_def)
  let ?j = "in_j (?t ?i) ?i"
  have "length_checked_loop p align is (nat ?j) = map_option uminus (cl_run ?t is (nat ?j))" if "?j > 0"
    using forwardD [OF fw less.prems, of "?t ?i"] that less.hyps [of "nat ?j"] by (auto simp: jump_ok_def)
  then show ?case
    using less.prems fw by (simp add: length_checked_loop.simps [of p align "is" pos] test run_step cl_goto_def)
qed

lemma match_loop_run:
  assumes "cl_wellformed align is" and room: "align \<le> headroom p" "3 \<le> tailroom p" and "pos < length is"
    and long: "\<forall>i\<in>set is. required_length i \<le> plen p + align"
  shows "match_loop p align is pos = map_option uminus (cl_run (byte_test (pdata p) align) is pos)"
  using assms(4)
proof (induction "length is - pos" arbitrary: pos rule: less_induct)
  case less
  let ?i = "is ! pos" and ?t = "byte_test (pdata p) align"
  have i: "in_normal align ?i" "in_mask ?i \<noteq> 0" and fw: "cl_forward is" and "required_length ?i \<le> plen p + align"
    using assms(1) less.prems long by (auto simp: cl_wellformed_def)
  then obtain w where w: "cl_load p align (unat (in_offset ?i)) = Some w" "(w AND in_mask ?i = in_value ?i) = ?t ?i"
    using cl_load_test [OF room i] by blast
  let ?j = "in_j (?t ?i) ?i"
  have "match_loop p align is (nat ?j) = map_option uminus (cl_run ?t is (nat ?j))" if "?j > 0"
    using forwardD [OF fw less.prems, of "?t ?i"] that less.hyps [of "nat ?j"] by (auto simp: jump_ok_def)
  then show ?case
    using less.prems fw w by (simp add: match_loop.simps [of p align "is" pos] run_step cl_goto_def Let_def)
qed

text \<open>For a program that is ready to run and a packet with at least three bytes of tail room, \<open>Program::match\<close> returns the output
  that following the tests on the bytes of the packet leads to: it ends, a read behind a short packet does not influence the result,
  and the fast loop and the one that checks lengths agree.\<close>

lemma pg_match_run:
  assumes "pg_ok g" and "pg_align_offset g \<le> headroom p" and "3 \<le> tailroom p"
  shows "pg_match g p = map_option uminus (pg_run (byte_test (pdata p) (pg_align_offset g)) g)"
proof (cases "pg_output_everything g \<ge> 0")
  case False
  then have wf: "cl_wellformed (pg_align_offset g) (pg_insn g)" and 0: "0 < length (pg_insn g)"
    and safe: "\<forall>i\<in>set (pg_insn g). required_length i \<le> unat (pg_safe_length g) + pg_align_offset g"
    using assms(1) by (auto simp: pg_ok_def)
  have "\<forall>i\<in>set (pg_insn g). required_length i \<le> plen p + pg_align_offset g" if "\<not> plen p < unat (pg_safe_length g)"
    using safe that by fastforce
  then show ?thesis
    using False length_checked_loop_run [OF wf assms(2,3) 0] match_loop_run [OF wf assms(2,3) 0]
    by (simp add: pg_match_def pg_run_def length_checked_match_def)
qed (simp add: pg_match_def pg_run_def)

section \<open>Implications between tests\<close>

text \<open>A mask with \<open>m AND (m - 1) = 0\<close> has at most one bit.\<close>

lemma single_bit_nat: "n AND (n - 1) = 0 \<Longrightarrow> n = 0 \<or> (\<exists>k. n = 2 ^ k)" for n :: nat
proof (induction n rule: less_induct)
  case (less n)
  show ?case
  proof (cases "even n \<and> n > 0")
    case True
    then obtain k where k: "n = 2 * Suc k" by (metis dvdE nat_0_less_mult_iff not0_implies_Suc less_irrefl)
    then have n1: "n - 1 = 2 * k + 1" by simp
    have "Suc k AND (Suc k - 1) = 0" using less.prems unfolding n1 unfolding k by (simp add: and_nat_rec [of "Suc (Suc (2 * k))"])
    then obtain j where "Suc k = 2 ^ j" using less.IH [of "Suc k"] k by auto
    then have "n = 2 ^ Suc j" using k by simp
    then show ?thesis by blast
  next
    case False
    then consider "n = 0" | k where "n = Suc (2 * k)" by (auto elim!: oddE)
    then have "n = 0 \<or> n = 2 ^ 0" using less.prems by cases (auto simp: and_nat_rec [of "Suc _"])
    then show ?thesis by blast
  qed
qed

lemma single_bit_word:
  fixes m v :: "'a::len word"
  assumes "m AND (m - 1) = 0" and "v AND m = v"
  shows "v = 0 \<or> v = m"
proof (cases "m = 0")
  case False
  then have "unat m AND (unat m - 1) = 0"
    using arg_cong [OF assms(1), of unat] by (simp add: unsigned_and_eq unat_sub_one word_gt_0)
  then obtain k where "unat m = 2 ^ k" using single_bit_nat [of "unat m"] False by (auto simp: unat_eq_0)
  then have "of_nat (unat m) = (2 ^ k :: 'a word)" by simp
  then have m: "m = 2 ^ k" unfolding word_of_nat_eq_iff by simp
  have "bit v n \<longrightarrow> n = k" for n using assms(2) by (metis m bit_and_iff bit_exp_iff)
  moreover have "bit m n \<longleftrightarrow> n = k" for n using False unfolding m by (auto simp: bit_exp_iff possible_bit_def)
  ultimately show ?thesis by (metis bit_0_eq bot_apply bot_bool_def bit_eq_iff)
qed (use assms in simp)

lemma uchar_and: "uchar (a AND b) k = uchar a k AND uchar b k"
  by (simp add: uchar_def unsigned_and_eq drop_bit_and)

lemma and_subset_uchar: "m AND m' = m' \<Longrightarrow> uchar m' k \<noteq> 0 \<Longrightarrow> uchar m k \<noteq> 0"
  using uchar_and [of m m' k] by auto

lemma required_length_mono:
  assumes "in_offset x = in_offset i" and "in_mask i AND in_mask x = in_mask x"
  shows "required_length x \<le> required_length i"
proof (cases "in_mask x = 0")
  case False
  then have "in_mask i \<noteq> 0" using assms(2) by auto
  then show ?thesis
    using False assms(1) and_subset_uchar [OF assms(2), of 3] and_subset_uchar [OF assms(2), of 2] and_subset_uchar [OF assms(2), of 1]
    by (auto simp: required_length_def)
qed (simp add: required_length_def)

text \<open>What \<open>implies_short_ok\<close> gives for a packet that is too short for the first test.\<close>

lemma implies_short_okD:
  assumes "implies_short_ok i d x d' kl" and "kl \<le> n" and "n < required_length i" and "in_short_output i = d"
  shows "n < required_length x" and "in_short_output x = d'"
  using assms required_length_bounds(2) [of i] by (auto simp: implies_short_ok_def hard_implies_short_ok_def Let_def split: if_splits)

lemmas implication_defs = in_implies_def in_not_implies_def in_implies_not_def in_not_implies_not_def

lemma implies_sound:
  assumes "in_implies i x kl" and "kl \<le> length bs + align" and t: "byte_test bs align i"
  shows "byte_test bs align x"
proof (cases "in_mask x = 0")
  case False
  then have off: "in_offset x = in_offset i" and ok: "implies_short_ok i True x True kl"
    and m: "in_mask i AND in_mask x = in_mask x" and v: "in_value i AND in_mask x = in_value x"
    using assms(1) by (auto simp: in_implies_def Let_def split: if_splits)
  have i: "in_mask i \<noteq> 0" using False m by auto
  show ?thesis
  proof (cases "required_length i \<le> length bs + align")
    case True
    then have w: "cl_word bs align (unat (in_offset i)) AND in_mask i = in_value i" using t i by (simp add: byte_test_def)
    have "cl_word bs align (unat (in_offset i)) AND in_mask x = in_value x"
      unfolding v [symmetric] w [symmetric] and.assoc m ..
    then show ?thesis using True required_length_mono [OF off m] off by (simp add: byte_test_def)
  next
    case short: False
    then show ?thesis using t i implies_short_okD [OF ok assms(2)] by (simp add: byte_test_def)
  qed
qed (simp add: byte_test_def)

lemma not_implies_sound:
  assumes "in_not_implies i x kl" and "kl \<le> length bs + align" and "in_normal align i" and "in_normal align x"
    and t: "\<not> byte_test bs align i"
  shows "byte_test bs align x"
proof (cases "in_mask x = 0")
  case False
  then have off: "in_offset x = in_offset i" and ok: "implies_short_ok i False x True kl"
    and m: "in_mask i AND (in_mask i - 1) = 0" "in_mask i = in_mask x" and v: "in_value i \<noteq> in_value x"
    using assms(1) by (auto simp: in_not_implies_def split: if_splits)
  let ?w = "cl_word bs align (unat (in_offset i)) AND in_mask i"
  have two: "w = 0 \<or> w = in_mask i" if "w AND in_mask i = w" for w using single_bit_word [OF m(1) that] .
  have "?w = 0 \<or> ?w = in_mask i" by (rule two) (simp add: and.assoc)
  moreover have "in_value i = 0 \<or> in_value i = in_mask i" "in_value x = 0 \<or> in_value x = in_mask i"
    using assms(3,4) m(2) two [of "in_value i"] two [of "in_value x"] by (auto simp: in_normal_def)
  ultimately have "?w \<noteq> in_value i \<Longrightarrow> ?w = in_value x" using v by metis
  moreover have "required_length x = required_length i" using off m(2) by (simp add: required_length_def)
  ultimately show ?thesis
    using t off m(2) implies_short_okD [OF ok assms(2)] by (auto simp: byte_test_def split: if_splits)
qed (simp add: byte_test_def)

lemma implies_not_sound:
  assumes "in_implies_not i x kl" and "kl \<le> length bs + align" and t: "byte_test bs align i"
  shows "\<not> byte_test bs align x"
proof -
  have x: "in_mask x \<noteq> 0" and off: "in_offset x = in_offset i" and ok: "implies_short_ok i True x False kl"
    and m: "in_mask i AND in_mask x = in_mask x" and v: "in_value i AND in_mask x \<noteq> in_value x"
    using assms(1) by (auto simp: in_implies_not_def Let_def split: if_splits)
  have i: "in_mask i \<noteq> 0" using x m by auto
  show ?thesis
  proof (cases "required_length i \<le> length bs + align")
    case True
    then have w: "cl_word bs align (unat (in_offset i)) AND in_mask i = in_value i" using t i by (simp add: byte_test_def)
    have "cl_word bs align (unat (in_offset i)) AND in_mask x \<noteq> in_value x"
      using v unfolding w [symmetric] and.assoc m .
    then show ?thesis using True required_length_mono [OF off m] off x by (simp add: byte_test_def)
  next
    case short: False
    then show ?thesis using t i x implies_short_okD [OF ok assms(2)] by (simp add: byte_test_def)
  qed
qed

lemma not_implies_not_sound:
  assumes "in_not_implies_not i x kl" and "kl \<le> length bs + align" and "\<not> in_short_output x" and t: "\<not> byte_test bs align i"
  shows "\<not> byte_test bs align x"
proof -
  have i: "in_mask i \<noteq> 0" using t by (auto simp: byte_test_def)
  then have off: "in_offset i = in_offset x"
    and m: "in_mask x AND in_mask i = in_mask i" and v: "in_value i = in_value x AND in_mask i"
    using assms(1) by (auto simp: in_not_implies_not_def Let_def and.commute split: if_splits)
  have x: "in_mask x \<noteq> 0" using i m by auto
  show ?thesis
  proof (cases "required_length x \<le> length bs + align")
    case True
    then have "required_length i \<le> length bs + align" using required_length_mono [OF off m] by simp
    then have "cl_word bs align (unat (in_offset x)) AND in_mask i \<noteq> in_value i" using t i off by (simp add: byte_test_def)
    then have "cl_word bs align (unat (in_offset x)) AND in_mask x \<noteq> in_value x"
      unfolding v by (metis and.assoc m)
    then show ?thesis using True x by (simp add: byte_test_def)
  qed (use x assms(3) in \<open>simp add: byte_test_def\<close>)
qed

end
