(* ===== verification/Click_ClassOpt.thy ===== *)
theory Click_ClassOpt
  imports Click_ClassRun
begin

unbundle bit_operations_syntax

text \<open>
  The optimisations of \<open>Click_Classification\<close> do not change what a program does. Sorting the tests of a conjunction
  and removing states keep the run for every way of deciding tests; combining tests keeps it for packets that are
  long enough for every test. The loops that go back (\<open>bubble_loop\<close>, \<open>combine_loop\<close>) end.
\<close>

section \<open>Auxiliary definitions\<close>

text \<open>Two instructions with the same test; programs with the same jumps and tests.\<close>

definition same_test :: "insn \<Rightarrow> insn \<Rightarrow> bool" where
  "same_test x y \<longleftrightarrow>
     in_offset x = in_offset y \<and> in_mask x = in_mask y \<and> in_value x = in_value y \<and> in_short_output x = in_short_output y"

definition same_program :: "insn list \<Rightarrow> insn list \<Rightarrow> bool" where
  "same_program is0 is \<longleftrightarrow>
     length is = length is0 \<and> (\<forall>k a. in_j k (is ! a) = in_j k (is0 ! a)) \<and> (\<forall>x\<in>set is. \<exists>y\<in>set is0. same_test x y)"

text \<open>The jumps of a program in the order the code looks at them.\<close>

fun jump_list :: "nat \<Rightarrow> insn list \<Rightarrow> (nat \<times> int) list" where
  "jump_list i [] = []"
| "jump_list i (x # xs) = (i, in_no x) # (i, in_yes x) # jump_list (Suc i) xs"

text \<open>The number of tests that belong in front of a test, and a sum that gets smaller with every swap.\<close>

definition test_rank :: "(int \<times> int) list \<Rightarrow> insn list \<Rightarrow> insn \<Rightarrow> nat" where
  "test_rank m is x = length (filter (out_of_order m x) is)"

definition sort_weight :: "(int \<times> int) list \<Rightarrow> insn list \<Rightarrow> insn list \<Rightarrow> nat" where
  "sort_weight m is0 is = (\<Sum>a<length is. test_rank m is0 (is ! a) * (length is - a))"

text \<open>A test without lengths, on a function that gives the word at an offset.\<close>

definition word_test :: "(u16 \<Rightarrow> u32) \<Rightarrow> insn \<Rightarrow> bool" where
  "word_test w i \<longleftrightarrow> in_mask i = 0 \<or> w (in_offset i) AND in_mask i = in_value i"

text \<open>What is left of the way to the outputs.\<close>

definition jump_left :: "nat \<Rightarrow> int \<Rightarrow> nat" where
  "jump_left n j = (if j > 0 then n - nat j else 0)"

definition combine_weight :: "insn list \<Rightarrow> nat" where
  "combine_weight is = (\<Sum>x\<leftarrow>is. jump_left (length is) (in_no x) + jump_left (length is) (in_yes x))"

text \<open>The invariant of the loop that combines tests, and what it keeps.\<close>

definition combine_inv :: "nat \<Rightarrow> nat \<Rightarrow> insn list \<Rightarrow> bool" where
  "combine_inv align n is \<longleftrightarrow> cl_forward is \<and> (\<forall>x\<in>set is. in_normal align x \<and> required_length x \<le> n)"

definition combined :: "nat \<Rightarrow> nat \<Rightarrow> insn list \<Rightarrow> insn list \<Rightarrow> bool" where
  "combined align n is is' \<longleftrightarrow>
     length is' = length is \<and> combine_inv align n is' \<and> (\<forall>w pos. cl_run (word_test w) is' pos = cl_run (word_test w) is pos)"

section \<open>Two instructions with the same test\<close>

lemma same_test_refl [simp]: "same_test x x"
  by (simp add: same_test_def)

lemma same_test_set_j [simp]: "same_test (in_set_j k a x) y \<longleftrightarrow> same_test x y"
  by (simp add: same_test_def in_set_j_def)

lemma same_test_jumps: "same_test x y \<Longrightarrow> y\<lparr> in_no := in_no x, in_yes := in_yes x \<rparr> = x"
  by (simp add: same_test_def)

section \<open>Sorting tests\<close>

text \<open>The vector \<open>inbranch\<close> counts jumps: its entry is positive for a single jump to an instruction.\<close>

lemma count_inbranches_fold:
  "count_inbranches_from i is inb = fold (\<lambda>(i, j). note_inbranch i j) (jump_list i is) inb"
  by (induction "is" arbitrary: i inb) simp_all

lemma jump_list_nth: "a < length is \<Longrightarrow> jump_list i is ! (2 * a + of_bool k) = (i + a, in_j k (is ! a))"
proof (induction "is" arbitrary: a i)
  case (Cons x xs)
  show ?case using Cons by (cases a; cases k) (auto simp: in_j_def)
qed simp

lemma length_jump_list [simp]: "length (jump_list i is) = 2 * length is"
  by (induction "is" arbitrary: i) simp_all

lemma note_inbranches:
  assumes "j < length inb" and "inb ! j = - 1" and "0 < j"
  shows "fold (\<lambda>(i, j). note_inbranch i j) es inb ! j =
    (case filter (\<lambda>(i, t). t = int j) es of [] \<Rightarrow> - 1 | [(i, t)] \<Rightarrow> int i | _ \<Rightarrow> 0)
    \<and> length (fold (\<lambda>(i, j). note_inbranch i j) es inb) = length inb"
proof (induction es rule: rev_induct)
  case (snoc e es)
  obtain i t where e: "e = (i, t)" by (cases e)
  show ?case
  proof (cases "t = int j")
    case True
    then show ?thesis using snoc assms e by (auto simp: note_inbranch_def split: list.splits)
  next
    case False
    then show ?thesis using snoc assms e by (auto simp: note_inbranch_def nth_list_update split: list.splits)
  qed
qed (use assms in simp)

lemma filter_two: "a < b \<Longrightarrow> b < length xs \<Longrightarrow> P (xs ! a) \<Longrightarrow> P (xs ! b) \<Longrightarrow> \<exists>x y zs. filter P xs = x # y # zs"
proof -
  assume ab: "a < b" "b < length xs" "P (xs ! a)" "P (xs ! b)"
  then have "xs ! a \<in> set (take b xs)" "xs ! b \<in> set (drop b xs)"
    by (auto simp: in_set_conv_nth intro: exI [of _ a] exI [of _ 0])
  then have "filter P (take b xs) \<noteq> []" "filter P (drop b xs) \<noteq> []"
    using ab by (auto simp: filter_empty_conv)
  then obtain x us y vs where "filter P (take b xs) = x # us" "filter P (drop b xs) = y # vs"
    by (meson list.exhaust)
  then have "filter P (take b xs @ drop b xs) = x # us @ y # vs" by (simp only: filter_append append_Cons)
  then have "filter P xs = x # us @ y # vs" by simp
  then show ?thesis by (cases us) auto
qed

text \<open>A positive entry is the only jump to its instruction.\<close>

lemma inbranch_unique:
  assumes "cl_forward is" and inb: "count_inbranches is ! nat t > 0" and t: "t > 0"
    and a: "a < length is" "in_j k (is ! a) = t" and b: "b < length is" "in_j k' (is ! b) = t"
  shows "a = b \<and> k = k'"
proof (rule ccontr)
  assume ne: "\<not> (a = b \<and> k = k')"
  let ?n = "\<lambda>a k. 2 * a + of_bool k :: nat" and ?P = "\<lambda>(i, s). s = t"
  have at: "?P (jump_list 0 is ! ?n a k)" "?P (jump_list 0 is ! ?n b k')" using a b by (auto simp: jump_list_nth)
  have less: "?n a k < length (jump_list 0 is)" "?n b k' < length (jump_list 0 is)" using a b by auto
  have "?n a k \<noteq> ?n b k'" using ne by (cases k; cases k'; simp; presburger)
  then have "\<exists>x y zs. filter ?P (jump_list 0 is) = x # y # zs"
    using filter_two [OF _ less(2) at] filter_two [OF _ less(1) at(2,1)] by (meson linorder_neqE_nat)
  moreover have "nat t < length is" using forwardD [OF assms(1) a(1), of k] a(2) t by (auto simp: jump_ok_def)
  ultimately show False
    using note_inbranches [of "nat t" "replicate (length is) (- 1)" "jump_list 0 is"] inb t
    by (auto simp: count_inbranches_def count_inbranches_fold split: list.splits)
qed

text \<open>Swapping two tests leaves all jumps as they are.\<close>

lemma may_swapD:
  assumes "may_swap m lo inb k i is" and "cl_forward is" and "i < length is"
  obtains j where "in_j k (is ! i) = int j" and "i < j" and "j < length is" and "inb ! j > 0"
    and "in_j (\<not> k) (is ! j) = in_j (\<not> k) (is ! i)" and "out_of_order m (is ! i) (is ! j)"
    and "swap_tests k i is = is[j := in_set_j k (in_j k (is ! j)) (is ! i), i := in_set_j k (int j) (is ! j)]"
proof -
  let ?j = "in_j k (is ! i)"
  have "?j > 0" using assms(1) by (auto simp: may_swap_def Let_def split: if_splits)
  then show ?thesis
    using that [of "nat ?j"] assms(1) forwardD [OF assms(2,3), of k]
    by (auto simp: may_swap_def swap_tests_def jump_ok_def Let_def split: if_splits)
qed

lemma in_j_cases: "in_j k x = in_j k y \<Longrightarrow> in_j (\<not> k) x = in_j (\<not> k) y \<Longrightarrow> in_j k' x = in_j k' y"
  by (cases k; cases k') simp_all

lemma swap_tests_jumps:
  assumes "may_swap m lo inb k i is" and "cl_forward is" and "i < length is"
  shows "in_j k' (swap_tests k i is ! a) = in_j k' (is ! a)" and "length (swap_tests k i is) = length is"
proof -
  obtain j where j: "in_j k (is ! i) = int j" "i < j" "j < length is"
    "in_j (\<not> k) (is ! j) = in_j (\<not> k) (is ! i)"
    "swap_tests k i is = is[j := in_set_j k (in_j k (is ! j)) (is ! i), i := in_set_j k (int j) (is ! j)]"
    using may_swapD [OF assms] by metis
  show "in_j k' (swap_tests k i is ! a) = in_j k' (is ! a)"
  proof (cases "a = i \<or> a = j")
    case True
    then have "in_j k (swap_tests k i is ! a) = in_j k (is ! a)" "in_j (\<not> k) (swap_tests k i is ! a) = in_j (\<not> k) (is ! a)"
      using j(1-4) assms(3) unfolding j(5) by (elim disjE; simp)+
    then show ?thesis by (rule in_j_cases)
  qed (simp add: j(5))
  show "length (swap_tests k i is) = length is" by (simp add: j(5))
qed

lemma forward_jumps:
  assumes "cl_forward is" and "length is' = length is" and "\<And>k a. in_j k (is' ! a) = in_j k (is ! a)"
  shows "cl_forward is'"
  using assms by (auto intro!: forwardI dest: forwardD)

context cl_decision
begin

lemma decide_same: "same_test x y \<Longrightarrow> decide x = decide y"
  using decide_jumps [where i = y and a = "in_no x" and b = "in_yes x"] by (simp add: same_test_jumps)

lemma swap_tests_run:
  assumes ms: "may_swap m lo inb k i is" and fw: "cl_forward is" and i: "i < length is"
    and only: "\<And>a k'. a < length is \<Longrightarrow> in_j k' (is ! a) = in_j k (is ! i) \<Longrightarrow> a = i"
    and pos: "int pos \<noteq> in_j k (is ! i)"
  shows "cl_run decide (swap_tests k i is) pos = cl_run decide is pos"
proof -
  let ?is = "swap_tests k i is"
  obtain j where j: "in_j k (is ! i) = int j" "i < j" "j < length is" "in_j (\<not> k) (is ! j) = in_j (\<not> k) (is ! i)"
    and sw: "?is = is[j := in_set_j k (in_j k (is ! j)) (is ! i), i := in_set_j k (int j) (is ! j)]"
    using may_swapD [OF ms fw i] by metis
  note jumps = swap_tests_jumps [OF ms fw i]
  have fw': "cl_forward ?is" by (rule forward_jumps [OF fw jumps(2,1)])
  have beyond: "cl_goto decide ?is (in_j k' (is ! j)) = cl_goto decide is (in_j k' (is ! j))" for k'
  proof -
    have "cl_run decide ?is q = cl_run decide is q" if "j < q" for q
      using that j(2) jumps(2) by (intro run_cong) (auto simp: sw)
    then show ?thesis using forwardD [OF fw j(3), of k'] by (auto simp: cl_goto_def jump_ok_def)
  qed
  have at: "decide (?is ! i) = decide (is ! j)" "decide (?is ! j) = decide (is ! i)" using j i by (auto simp: sw)
  have at_i: "cl_run decide ?is i = cl_run decide is i"
  proof -
    have other: "in_j b (is ! i) = in_j b (is ! j)" if "b \<noteq> k" for b using that j(4) by (cases b; cases k) auto
    have r: "cl_run decide xs j = cl_goto decide xs (in_j (decide (xs ! j)) (xs ! j))"
      "cl_run decide xs i = cl_goto decide xs (in_j (decide (xs ! i)) (xs ! i))"
      if "xs = is \<or> xs = ?is" for xs
      using that run_step [of xs] fw fw' i j(3) jumps(2) by auto
    have "cl_goto decide xs (int j) = cl_run decide xs j" for xs using j(2) by (simp add: cl_goto_def)
    then show ?thesis
      using j(1) beyond other
      by (cases "decide (is ! i) = k"; cases "decide (is ! j) = k") (simp_all add: r jumps(1) at)
  qed
  show ?thesis using pos
  proof (induction "length is - pos" arbitrary: pos rule: less_induct)
    case less
    show ?case
    proof (cases "pos < length is \<and> pos \<noteq> i")
      case True
      let ?t = "in_j (decide (is ! pos)) (is ! pos)"
      have "?t \<noteq> in_j k (is ! i)" using only [of pos "decide (is ! pos)"] True by auto
      then have "cl_goto decide ?is ?t = cl_goto decide is ?t"
        using less.hyps [of "nat ?t"] forwardD [OF fw, of pos "decide (is ! pos)"] True by (auto simp: cl_goto_def jump_ok_def)
      moreover have "?is ! pos = is ! pos" using less.prems True j by (auto simp: sw)
      ultimately show ?thesis using True fw fw' jumps(2) by (simp add: run_step)
    qed (use at_i jumps(2) in \<open>auto simp: run_beyond\<close>)
  qed
qed

end

text \<open>Every swap makes progress: with the number of tests that belong in front of a test as its rank, the sum of the ranks,
  weighted with the distances to the end, gets smaller.\<close>

lemma out_of_order_irrefl: "\<not> out_of_order m x x"
  by (simp add: out_of_order_def Let_def)

lemma out_of_order_trans: "out_of_order m x y \<Longrightarrow> out_of_order m y z \<Longrightarrow> out_of_order m x z"
  unfolding out_of_order_def Let_def by (elim disjE conjE) auto

lemma out_of_order_same: "same_test x x' \<Longrightarrow> same_test y y' \<Longrightarrow> out_of_order m x y \<longleftrightarrow> out_of_order m x' y'"
  by (simp add: same_test_def out_of_order_def)

lemma test_rank_same: "same_test x y \<Longrightarrow> test_rank m is x = test_rank m is y"
  unfolding test_rank_def using out_of_order_same [of x y _ _ m] by (metis (no_types, lifting) same_test_refl filter_cong)

lemma test_rank_less:
  assumes "out_of_order m x y" and "y' \<in> set is" and "same_test y y'"
  shows "test_rank m is y < test_rank m is x"
proof -
  have "out_of_order m x y'" "\<not> out_of_order m y y'"
    using assms(1,3) out_of_order_same [OF same_test_refl assms(3)] out_of_order_irrefl by auto
  then have "y' \<in> set (filter (out_of_order m x) is)" "y' \<notin> set (filter (out_of_order m y) is)" using assms(2) by auto
  moreover have "filter (out_of_order m y) is = filter (out_of_order m y) (filter (out_of_order m x) is)"
    using out_of_order_trans [OF assms(1)] by (auto intro: filter_cong)
  ultimately show ?thesis
    unfolding test_rank_def by (metis (no_types, lifting) filter_True length_filter_less mem_Collect_eq set_filter)
qed

lemma rearrange_less:
  fixes a b u v :: nat
  assumes "b < a" and "v < u"
  shows "b * u + a * v < a * u + b * v"
proof -
  obtain d e where "a = b + Suc d" "u = v + Suc e" using assms less_imp_Suc_add by (metis add_Suc_right)
  then show ?thesis by (simp add: algebra_simps)
qed

lemma swap_tests_weight:
  assumes "may_swap m lo inb k i is" and "cl_forward is" and i: "i < length is" and "same_program is0 is"
  shows "sort_weight m is0 (swap_tests k i is) < sort_weight m is0 is"
proof -
  let ?is = "swap_tests k i is" and ?n = "length is" and ?r = "test_rank m is0"
  obtain j where j: "i < j" "j < ?n" and ooo: "out_of_order m (is ! i) (is ! j)"
    and sw: "?is = is[j := in_set_j k (in_j k (is ! j)) (is ! i), i := in_set_j k (int j) (is ! j)]"
    using may_swapD [OF assms(1-3)] by metis
  have r: "?r (?is ! i) = ?r (is ! j)" "?r (?is ! j) = ?r (is ! i)" "\<And>a. a \<notin> {i, j} \<Longrightarrow> ?is ! a = is ! a"
    using i j by (auto simp: sw intro!: test_rank_same)
  have "?r (is ! j) < ?r (is ! i)"
    using assms(4) test_rank_less [OF ooo, of _ is0] j(2) unfolding same_program_def by (meson nth_mem)
  then have two: "?r (is ! j) * (?n - i) + ?r (is ! i) * (?n - j) < ?r (is ! i) * (?n - i) + ?r (is ! j) * (?n - j)"
    using i j by (intro rearrange_less) auto
  have split: "(\<Sum>a<?n. f a) = (\<Sum>a\<in>{..<?n} - {i, j}. f a) + (f i + f j)" for f :: "nat \<Rightarrow> nat"
    using i j sum.subset_diff [of "{i, j}" "{..<?n}" f] by auto
  have "(\<Sum>a\<in>{..<?n} - {i, j}. ?r (?is ! a) * (?n - a)) = (\<Sum>a\<in>{..<?n} - {i, j}. ?r (is ! a) * (?n - a))"
    by (rule sum.cong) (simp_all add: r(3))
  then show ?thesis
    using two by (simp add: sort_weight_def swap_tests_jumps(2) [OF assms(1-3)] split r(1,2))
qed

lemma same_program_swap:
  assumes "may_swap m lo inb k i is" and "cl_forward is" and "i < length is" and "same_program is0 is"
  shows "same_program is0 (swap_tests k i is)"
proof -
  obtain j where j: "i < j" "j < length is"
    and sw: "swap_tests k i is = is[j := in_set_j k (in_j k (is ! j)) (is ! i), i := in_set_j k (int j) (is ! j)]"
    using may_swapD [OF assms(1-3)] by metis
  have "\<exists>y\<in>set is. same_test x y" if "x \<in> set (swap_tests k i is)" for x
  proof -
    have "x \<in> set is \<or> x = in_set_j k (in_j k (is ! j)) (is ! i) \<or> x = in_set_j k (int j) (is ! j)"
      using that set_update_subset_insert [of "is[j := in_set_j k (in_j k (is ! j)) (is ! i)]" i "in_set_j k (int j) (is ! j)"]
        set_update_subset_insert [of "is" j "in_set_j k (in_j k (is ! j)) (is ! i)"] unfolding sw by blast
    then show ?thesis using j assms(3) by (auto intro: bexI [of _ "is ! i"] bexI [of _ "is ! j"] bexI [of _ x])
  qed
  moreover have "same_test x z" if "same_test x y" "same_test y z" for x y z using that by (simp add: same_test_def)
  ultimately show ?thesis
    using assms(4) swap_tests_jumps [OF assms(1-3)] unfolding same_program_def by (metis (no_types, lifting))
qed

lemma same_program_refl: "same_program is is"
  unfolding same_program_def using same_test_refl by blast

lemma same_program_forward: "same_program is0 is \<Longrightarrow> cl_forward is0 \<Longrightarrow> cl_forward is"
  unfolding same_program_def using forward_jumps by blast

context cl_decision
begin

lemma bubble_loop_result:
  assumes fw: "cl_forward is0" and "same_program is0 is"
  shows "\<exists>is'. bubble_loop m lo (count_inbranches is0) i is = Some is' \<and> same_program is0 is' \<and>
    cl_run decide is' 0 = cl_run decide is 0"
  using assms(2)
proof (induction "sort_weight m is0 is" arbitrary: i "is" rule: less_induct)
  case outer: less
  show ?case using outer.prems
  proof (induction "length is - i" arbitrary: i rule: less_induct)
    case less
    note fw' = same_program_forward [OF less.prems fw]
    let ?inb = "count_inbranches is0" and ?loop = "bubble_loop m lo (count_inbranches is0)"
    have len: "length is = length is0" and jumps: "\<And>k a. in_j k (is ! a) = in_j k (is0 ! a)"
      using less.prems by (auto simp: same_program_def)
    have swap: "\<exists>is'. ?loop b (swap_tests k i is) = Some is' \<and> same_program is0 is' \<and> cl_run decide is' 0 = cl_run decide is 0"
      if ms: "may_swap m lo ?inb k i is" and i: "i < length is" for k b
    proof -
      obtain j where j: "in_j k (is ! i) = int j" "i < j" "?inb ! j > 0" using may_swapD [OF ms fw' i] by metis
      have only: "a = i" if "a < length is" "in_j k' (is ! a) = in_j k (is ! i)" for a k'
        using inbranch_unique [OF fw, of "int j" a k' i k] that i j by (simp add: len jumps)
      have "cl_run decide (swap_tests k i is) 0 = cl_run decide is 0"
        by (rule swap_tests_run [OF ms fw' i only]) (use j in auto)
      then show ?thesis
        using outer.hyps [OF swap_tests_weight [OF ms fw' i less.prems] same_program_swap [OF ms fw' i less.prems], of b]
        by simp
    qed
    show ?case
    proof (cases "i < length is")
      case True
      then have "\<exists>is'. ?loop (i + 1) is = Some is' \<and> same_program is0 is' \<and> cl_run decide is' 0 = cl_run decide is 0"
        using less by simp
      then show ?thesis
        using True swap by (simp add: bubble_loop.simps [of m lo ?inb i "is"] Let_def)
    qed (use less.prems in \<open>simp add: bubble_loop.simps\<close>)
  qed
qed

end

text \<open>Sorting the tests of conjunctions ends, moves tests without touching a jump, and the sorted program decides every packet like the one
  it was made from, whatever the map of offsets is.\<close>

lemma bubble_sort_result:
  assumes "cl_forward (pg_insn g)"
  shows "\<exists>g'. bubble_sort_and_exprs m lo g = Some g' \<and> same_program (pg_insn g) (pg_insn g') \<and>
    (\<forall>bs. pg_run (byte_test bs align) g' = pg_run (byte_test bs align) g)"
proof -
  let ?loop = "bubble_loop m lo (count_inbranches (pg_insn g)) 0 (pg_insn g)"
  obtain "is" where l: "?loop = Some is" "same_program (pg_insn g) is"
    using bt.bubble_loop_result [OF assms same_program_refl] by blast
  have "cl_run (byte_test bs align) is 0 = cl_run (byte_test bs align) (pg_insn g) 0" for bs
    using bt.bubble_loop_result [OF assms same_program_refl, of m lo 0 bs align] l(1) by auto
  then show ?thesis using l by (simp add: bubble_sort_and_exprs_def pg_run_def)
qed

section \<open>Combining tests\<close>

text \<open>Tests on words, for packets that are long enough for all of them.\<close>

interpretation wt: cl_decision "word_test w"
  by unfold_locales (simp_all add: word_test_def)

lemma uchar_eq_0: "(\<And>k. k < 4 \<Longrightarrow> uchar m k = 0) \<Longrightarrow> m = 0"
  using and_uchar_cong [of m m 0] by simp

lemma required_length_le_iff:
  "required_length i \<le> n \<longleftrightarrow> (\<forall>k<4. uchar (in_mask i) k \<noteq> 0 \<longrightarrow> unat (in_offset i) + k < n)"
proof
  assume "required_length i \<le> n"
  then show "\<forall>k<4. uchar (in_mask i) k \<noteq> 0 \<longrightarrow> unat (in_offset i) + k < n"
    using required_length_covers [of _ i] by (meson less_le_trans)
next
  assume r: "\<forall>k<4. uchar (in_mask i) k \<noteq> 0 \<longrightarrow> unat (in_offset i) + k < n"
  show "required_length i \<le> n"
  proof (cases "in_mask i = 0")
    case False
    then obtain k where k: "k < 4" "uchar (in_mask i) k \<noteq> 0" using uchar_eq_0 by blast
    have "uchar (in_mask i) j \<noteq> 0 \<Longrightarrow> unat (in_offset i) + j < n" if "j < 4" for j using r that by blast
    from this [of 0] this [of 1] this [of 2] this [of 3] show ?thesis
      using False k less_4_cases [OF k(1)] by (auto simp: required_length_def)
  qed (simp add: required_length_def)
qed

lemma byte_test_long: "required_length i \<le> length bs + align \<Longrightarrow> byte_test bs align i = word_test (\<lambda>off. cl_word bs align (unat off)) i"
  by (simp add: byte_test_def word_test_def)

lemma flip_step:
  assumes "in_flippable x" and "in_value x AND in_mask x = in_value x"
  shows "in_j (word_test w (in_flip x)) (in_flip x) = in_j (word_test w x) x"
proof -
  let ?m = "in_mask x" and ?v = "in_value x" and ?w = "w (in_offset x)"
  have m: "?m AND (?m - 1) = 0" "?m \<noteq> 0" using assms(1) by (auto simp: in_flippable_def split: if_splits)
  have "?w AND ?m = 0 \<or> ?w AND ?m = ?m" by (rule single_bit_word [OF m(1)]) (simp add: and.assoc)
  moreover have "?v = 0 \<or> ?v = ?m" by (rule single_bit_word [OF m(1) assms(2)])
  ultimately have "(?w AND ?m = ?v XOR ?m) = (?w AND ?m \<noteq> ?v)" using m(2) by auto
  then show ?thesis using m(2) by (simp add: word_test_def in_flip_def in_j_def)
qed

lemma flip_flippable: "in_flippable x \<Longrightarrow> in_normal align x \<Longrightarrow> in_normal align (in_flip x)"
  by (simp add: in_normal_def in_flip_def bit.conj_xor_distrib2)

lemma and_or_split:
  fixes w m m' v v' :: "'a::len word"
  assumes "v AND m = v" and "v' AND m' = v'" and "v' AND (m' AND m) = v AND (m' AND m)"
  shows "w AND (m OR m') = v OR v' \<longleftrightarrow> w AND m = v \<and> w AND m' = v'"
proof -
  have "bit v n \<Longrightarrow> bit m n" "bit v' n \<Longrightarrow> bit m' n" "bit m n \<Longrightarrow> bit m' n \<Longrightarrow> bit v n = bit v' n" for n
    using arg_cong [OF assms(1), of "\<lambda>x. bit x n"] arg_cong [OF assms(2), of "\<lambda>x. bit x n"] arg_cong [OF assms(3), of "\<lambda>x. bit x n"]
    by (auto simp: bit_and_iff)
  then show ?thesis unfolding bit_eq_iff by (simp add: bit_and_iff bit_or_iff) blast
qed

text \<open>Two tests that differ in one bit and lead to the same instruction become one test without that bit.\<close>

lemma generalize_word:
  fixes w m v v' :: "'a::len word"
  assumes "v AND m = v" and "v' AND m = v'" and "(v XOR v') AND ((v XOR v') - 1) = 0"
  shows "w AND (m AND NOT (v XOR v')) = v AND NOT (v XOR v') \<longleftrightarrow> w AND m = v \<or> w AND m = v'"
proof
  let ?b = "v XOR v'" and ?u = "(w AND m) XOR v"
  assume eq: "w AND (m AND NOT ?b) = v AND NOT ?b"
  have "?u AND ?b = ?u"
  proof (rule bit_word_eqI)
    fix n assume "n < LENGTH('a)"
    then show "bit (?u AND ?b) n = bit ?u n"
      using arg_cong [OF eq, of "\<lambda>x. bit x n"] by (auto simp: bit_and_iff bit_xor_iff bit_not_iff)
  qed
  then have "?u = 0 \<or> ?u = ?b" by (rule single_bit_word [OF assms(3)])
  moreover have "w AND m = ?u XOR v" by (simp add: xor.assoc)
  moreover have "?b XOR v = v'" by (simp add: xor.commute xor.left_commute)
  ultimately show "w AND m = v \<or> w AND m = v'" by auto
next
  assume "w AND m = v \<or> w AND m = v'"
  then show "w AND (m AND NOT (v XOR v')) = v AND NOT (v XOR v')"
  proof
    assume "w AND m = v"
    then show ?thesis by (metis and.assoc)
  next
    assume eq: "w AND m = v'"
    show ?thesis
    proof (rule bit_word_eqI)
      fix n assume "n < LENGTH('a)"
      then show "bit (w AND (m AND NOT (v XOR v'))) n = bit (v AND NOT (v XOR v')) n"
        using arg_cong [OF eq, of "\<lambda>x. bit x n"] by (auto simp: bit_and_iff bit_xor_iff bit_not_iff)
    qed
  qed
qed

lemma generalizableD:
  assumes "generalizable_or_pair x y"
  shows "in_offset y = in_offset x" and "in_mask y = in_mask x" and "in_mask x \<noteq> 0" and "in_yes y = in_yes x"
    and "(in_value x XOR in_value y) AND ((in_value x XOR in_value y) - 1) = 0"
    and "required_length (generalize_pair x y) = required_length x"
  using assms unfolding generalizable_or_pair_def Let_def
  by (auto simp: generalize_pair_def Let_def Insn_def required_length_def split: if_splits)

lemma generalize_normal:
  assumes "generalizable_or_pair x y" and "in_normal align x"
  shows "in_normal align (generalize_pair x y)"
proof -
  let ?b = "in_value x XOR in_value y"
  have "(in_value x AND NOT ?b) AND (in_mask x AND NOT ?b) = (in_value x AND in_mask x) AND NOT ?b"
    by (simp add: ac_simps)
  then show ?thesis using assms(2) by (auto simp: in_normal_def generalize_pair_def uchar_and Let_def)
qed

lemma generalize_test:
  assumes "generalizable_or_pair x y" and "in_normal align x" and "in_normal align y"
  shows "word_test w (generalize_pair x y) \<longleftrightarrow> word_test w x \<or> word_test w y"
proof -
  note g = generalizableD [OF assms(1)]
  have "in_mask (generalize_pair x y) \<noteq> 0" using g(3,6) by (auto simp: required_length_def split: if_splits)
  then show ?thesis
    using generalize_word [OF _ _ g(5), of "in_mask x" "w (in_offset x)"] assms(2,3) g(1-3)
    by (auto simp: word_test_def in_normal_def generalize_pair_def Let_def)
qed

text \<open>A test and the test behind its \<open>yes\<close> branch that fail to the same place become one test.\<close>

lemma compatibleD:
  assumes "in_compatible y x b" and "in_mask y \<noteq> 0" and "in_mask x \<noteq> 0"
  shows "in_offset y = in_offset x" and "in_value y AND (in_mask y AND in_mask x) = in_value x AND (in_mask y AND in_mask x)"
  using assms by (auto simp: in_compatible_def Let_def split: if_splits)

lemma combine_test:
  assumes "in_compatible y x True" and "in_normal align x" and "in_normal align y"
  shows "word_test w (combine_pair x y) \<longleftrightarrow> word_test w x \<and> word_test w y"
proof (cases "in_mask x = 0 \<or> in_mask y = 0")
  case True
  then show ?thesis using assms(2,3) by (auto simp: word_test_def combine_pair_def in_normal_def Let_def)
next
  case False
  then show ?thesis
    using assms(2,3) compatibleD [OF assms(1)] and_or_split [of "in_value x" "in_mask x" "in_value y" "in_mask y" "w (in_offset x)"]
    by (simp add: word_test_def combine_pair_def in_normal_def Let_def or_eq_0_iff)
qed

lemma uchar_or: "uchar (a OR b) k = uchar a k OR uchar b k"
  by (simp add: uchar_def unsigned_or_eq drop_bit_or)

lemma combine_bytes:
  assumes "in_compatible y x True" and "uchar (in_mask (combine_pair x y)) k \<noteq> 0"
  shows "(uchar (in_mask x) k \<noteq> 0 \<and> in_offset (combine_pair x y) = in_offset x) \<or>
    (uchar (in_mask y) k \<noteq> 0 \<and> in_offset (combine_pair x y) = in_offset y)"
  using assms(2) compatibleD(1) [OF assms(1)]
  by (cases "in_mask x = 0"; cases "in_mask y = 0") (auto simp: combine_pair_def uchar_or Let_def)

lemma combine_normal:
  assumes "in_compatible y x True" and "in_normal align x" and "in_normal align y"
  shows "in_normal align (combine_pair x y)"
proof -
  have "((in_value x AND in_mask x) OR (in_value y AND in_mask y)) AND (in_mask x OR in_mask y) =
    (in_value x AND in_mask x) OR (in_value y AND in_mask y)"
    by (rule bit_word_eqI) (auto simp: bit_and_iff bit_or_iff)
  then have "in_value (combine_pair x y) AND in_mask (combine_pair x y) = in_value (combine_pair x y)"
    by (simp add: combine_pair_def Let_def)
  moreover have "align \<le> unat (in_offset (combine_pair x y)) + k" if "k < 4" "uchar (in_mask (combine_pair x y)) k \<noteq> 0" for k
    using combine_bytes [OF assms(1) that(2)] assms(2,3) that(1) by (auto simp: in_normal_def)
  ultimately show ?thesis by (simp add: in_normal_def)
qed

lemma combine_required:
  assumes "in_compatible y x True" and "required_length x \<le> n" and "required_length y \<le> n"
  shows "required_length (combine_pair x y) \<le> n"
  using combine_bytes [OF assms(1)] assms(2,3) unfolding required_length_le_iff by (metis (no_types, lifting))

text \<open>The loop. Each step replaces an instruction by one that leads to the same place.\<close>

lemma combined_refl: "combine_inv align n is \<Longrightarrow> combined align n is is"
  by (simp add: combined_def)

lemma combined_trans: "combined align n a b \<Longrightarrow> combined align n b c \<Longrightarrow> combined align n a c"
  by (simp add: combined_def)

lemma combine_update:
  assumes inv: "combine_inv align n is" and k: "k < length is"
    and x: "in_normal align x" "required_length x \<le> n" "\<And>b. jump_ok (length is) k (in_j b x)"
    and same: "\<And>w. cl_goto (word_test w) is (in_j (word_test w x) x) = cl_goto (word_test w) is (in_j (word_test w (is ! k)) (is ! k))"
  shows "combined align n is (is[k := x])"
proof -
  have fw: "cl_forward is" "cl_forward (is[k := x])"
    using inv x(3) by (auto simp: combine_inv_def intro: forward_update)
  have "\<forall>y\<in>set (is[k := x]). in_normal align y \<and> required_length y \<le> n"
    using inv x(1,2) set_update_subset_insert [of "is" k x] by (auto simp: combine_inv_def)
  then show ?thesis using fw run_update [OF fw same] by (simp add: combined_def combine_inv_def)
qed

lemma combine_invD:
  assumes "combine_inv align n is" and "k < length is"
  shows "cl_forward is" and "in_normal align (is ! k)" and "required_length (is ! k) \<le> n"
  using assms by (auto simp: combine_inv_def)

lemma in_j_flip: "in_j b (in_flip x) = in_j (\<not> b) x"
  by (simp add: in_j_def in_flip_def)

lemma required_length_flip: "required_length (in_flip x) = required_length x"
  by (simp add: required_length_def in_flip_def)

lemma jump_ok_earlier: "jump_ok n j t \<Longrightarrow> i \<le> j \<Longrightarrow> jump_ok n i t"
  by (auto simp: jump_ok_def)

lemma flip_combined:
  assumes "combine_inv align n is" and "k < length is" and "in_flippable (is ! k)"
  shows "combined align n is (is[k := in_flip (is ! k)])"
proof (rule combine_update [OF assms(1,2)])
  note i = combine_invD [OF assms(1,2)]
  show "in_normal align (in_flip (is ! k))" by (rule flip_flippable [OF assms(3) i(2)])
  show "required_length (in_flip (is ! k)) \<le> n" using i(3) by (simp add: required_length_flip)
  show "jump_ok (length is) k (in_j b (in_flip (is ! k)))" for b using forwardD [OF i(1) assms(2)] by (simp add: in_j_flip)
qed (use combine_invD(2) [OF assms(1,2)] in \<open>simp add: flip_step [OF assms(3)] in_normal_def\<close>)

lemma generalize_combined:
  assumes "combine_inv align n is" and "k < length is" and "in_no (is ! k) > 0"
    and g: "generalizable_or_pair (is ! k) (is ! nat (in_no (is ! k)))"
    and x_def: "x = generalize_pair (is ! k) (is ! nat (in_no (is ! k)))"
  shows "combined align n is (is[k := x])"
    and "jump_left (length is) (in_no x) < jump_left (length is) (in_no (is ! k))" and "in_yes x = in_yes (is ! k)"
proof -
  let ?j = "nat (in_no (is ! k))"
  note i = combine_invD [OF assms(1,2)]
  have j: "k < ?j" "?j < length is" using forwardD [OF i(1) assms(2), of False] assms(3) by (auto simp: jump_ok_def in_j_def)
  note ij = combine_invD [OF assms(1) j(2)] and gd = generalizableD [OF g]
  have no: "in_no x = in_no (is ! ?j)" and yes: "in_yes x = in_yes (is ! k)" by (simp_all add: x_def generalize_pair_def Let_def)
  have okj: "jump_ok (length is) ?j (in_j b (is ! ?j))" for b by (rule forwardD [OF i(1) j(2)])
  show "in_yes x = in_yes (is ! k)" by (rule yes)
  show "jump_left (length is) (in_no x) < jump_left (length is) (in_no (is ! k))"
    using okj [of False] j assms(3) by (auto simp: no jump_left_def jump_ok_def in_j_def)
  have goto: "cl_goto t is (in_no (is ! k)) = cl_goto t is (in_j (t (is ! ?j)) (is ! ?j))" for t
    using run_step [OF i(1) j(2), of t] assms(3) by (simp add: cl_goto_def)
  show "combined align n is (is[k := x])"
  proof (rule combine_update [OF assms(1,2)])
    show "in_normal align x" unfolding x_def by (rule generalize_normal [OF g i(2)])
    show "required_length x \<le> n" using gd(6) i(3) by (simp add: x_def)
    show "jump_ok (length is) k (in_j b x)" for b
      using jump_ok_earlier [OF okj [of False], of k] forwardD [OF i(1) assms(2), of True] j no yes by (cases b) (auto simp: in_j_def)
    show "cl_goto (word_test w) is (in_j (word_test w x) x) =
        cl_goto (word_test w) is (in_j (word_test w (is ! k)) (is ! k))" for w
      using gd(4) no yes goto [of "word_test w"] generalize_test [OF g i(2) ij(2), of w, folded x_def] by (auto simp: in_j_def)
  qed
qed

lemma combine_combined:
  assumes "combine_inv align n is" and "k < length is" and "in_yes (is ! k) > 0"
    and c: "in_no (is ! k) = in_no (is ! nat (in_yes (is ! k)))" "in_compatible (is ! nat (in_yes (is ! k))) (is ! k) True"
    and x_def: "x = combine_pair (is ! k) (is ! nat (in_yes (is ! k)))"
  shows "combined align n is (is[k := x])"
    and "jump_left (length is) (in_yes x) < jump_left (length is) (in_yes (is ! k))" and "in_no x = in_no (is ! k)"
proof -
  let ?j = "nat (in_yes (is ! k))"
  note i = combine_invD [OF assms(1,2)]
  have j: "k < ?j" "?j < length is" using forwardD [OF i(1) assms(2), of True] assms(3) by (auto simp: jump_ok_def in_j_def)
  note ij = combine_invD [OF assms(1) j(2)]
  have yes: "in_yes x = in_yes (is ! ?j)" and no: "in_no x = in_no (is ! k)" by (simp_all add: x_def combine_pair_def Let_def)
  have okj: "jump_ok (length is) ?j (in_j b (is ! ?j))" for b by (rule forwardD [OF i(1) j(2)])
  show "in_no x = in_no (is ! k)" by (rule no)
  show "jump_left (length is) (in_yes x) < jump_left (length is) (in_yes (is ! k))"
    using okj [of True] j assms(3) by (auto simp: yes jump_left_def jump_ok_def in_j_def)
  have goto: "cl_goto t is (in_yes (is ! k)) = cl_goto t is (in_j (t (is ! ?j)) (is ! ?j))" for t
    using run_step [OF i(1) j(2), of t] assms(3) by (simp add: cl_goto_def)
  show "combined align n is (is[k := x])"
  proof (rule combine_update [OF assms(1,2)])
    show "in_normal align x" unfolding x_def by (rule combine_normal [OF c(2) i(2) ij(2)])
    show "required_length x \<le> n" unfolding x_def by (rule combine_required [OF c(2) i(3) ij(3)])
    show "jump_ok (length is) k (in_j b x)" for b
      using jump_ok_earlier [OF okj [of True], of k] forwardD [OF i(1) assms(2), of False] j no yes by (cases b) (auto simp: in_j_def)
    show "cl_goto (word_test w) is (in_j (word_test w x) x) =
        cl_goto (word_test w) is (in_j (word_test w (is ! k)) (is ! k))" for w
      using c(1) no yes goto [of "word_test w"] combine_test [OF c(2) i(2) ij(2), of w, folded x_def] by (auto simp: in_j_def)
  qed
qed

text \<open>The loop ends: a step that repeats an instruction shortens the way to the outputs.\<close>

lemma combine_weight_update:
  assumes "k < length is"
  shows "combine_weight (is[k := x]) + (jump_left (length is) (in_no (is ! k)) + jump_left (length is) (in_yes (is ! k))) =
    combine_weight is + (jump_left (length is) (in_no x) + jump_left (length is) (in_yes x))"
proof -
  let ?f = "\<lambda>x. jump_left (length is) (in_no x) + jump_left (length is) (in_yes x)"
  have "?f (is ! k) \<le> sum_list (map ?f is)" using assms by (intro member_le_sum_list) auto
  then show ?thesis using assms by (simp add: combine_weight_def map_update sum_list_update)
qed

lemma combine_weight_flip: "k < length is \<Longrightarrow> combine_weight (is[k := in_flip (is ! k)]) = combine_weight is"
  using combine_weight_update [of k "is" "in_flip (is ! k)"] by (simp add: in_flip_def)

lemma combine_loop_result:
  "combine_inv align n is \<Longrightarrow> i \<le> length is \<Longrightarrow> \<exists>is'. combine_loop i is = Some is' \<and> combined align n is is'"
proof (induction "combine_weight is * Suc (length is) + i" arbitrary: i "is" rule: less_induct)
  case less
  note inv = less.prems(1) and le = less.prems(2)
  have IH: "\<exists>is'. combine_loop i' is1 = Some is' \<and> combined align n is is'"
    if dec: "combine_weight is1 < combine_weight is \<or> (combine_weight is1 = combine_weight is \<and> i' < i)"
      and c: "combined align n is is1" and i': "i' \<le> length is" for i' is1
  proof -
    have inv1: "combine_inv align n is1" and len: "length is1 = length is" using c by (auto simp: combined_def)
    have "combine_weight is1 * Suc (length is) + Suc (length is) \<le> combine_weight is * Suc (length is)"
      if "combine_weight is1 < combine_weight is" using mult_le_mono1 [of "Suc (combine_weight is1)" "combine_weight is" "Suc (length is)"] that by simp
    then have "combine_weight is1 * Suc (length is1) + i' < combine_weight is * Suc (length is) + i"
      using dec i' unfolding len by (elim disjE) simp_all
    from less.hyps [OF this inv1] show ?thesis using i' len combined_trans [OF c] by auto
  qed
  show ?case
  proof (cases i)
    case 0
    then show ?thesis using inv by (simp add: combine_loop.simps combined_refl)
  next
    case (Suc k)
    then have k: "k < length is" using le by simp
    let ?x = "is ! k"
    let ?no = "is ! nat (in_no ?x)"
    let ?flips = "in_no ?x > 0 \<and> in_compatible ?no ?x False \<and> in_flippable ?x"
    show ?thesis
    proof (cases "in_no ?x > 0 \<and> \<not> ?flips \<and> generalizable_or_pair ?x ?no")
      case True
      then have eq: "combine_loop i is = combine_loop i (is[k := generalize_pair ?x ?no])"
        using Suc by (subst combine_loop.simps) (simp add: Let_def)
      note g = generalize_combined [OF inv k _ _ refl]
      show ?thesis unfolding eq using True le combine_weight_update [OF k, of "generalize_pair ?x ?no"] g
        by (intro IH) auto
    next
      case noflip: False
      define x1 where "x1 = (if ?flips then in_flip ?x else ?x)"
      define is1 where "is1 = is[k := x1]"
      have x1: "is1 ! k = x1" using k by (simp add: is1_def)
      have c1: "combined align n is is1" and w1: "combine_weight is1 = combine_weight is"
        using flip_combined [OF inv k] combined_refl [OF inv] combine_weight_flip [OF k] by (auto simp: is1_def x1_def)
      then have inv1: "combine_inv align n is1" and k1: "k < length is1" and len1: "length is1 = length is"
        using k by (auto simp: combined_def)
      let ?y = "nat (in_yes (is1 ! k))"
      define is2 where "is2 = (if in_yes (is1 ! k) > 0 \<and> in_no (is1 ! k) = in_yes (is1 ! ?y) \<and> in_flippable (is1 ! ?y)
        then is1[?y := in_flip (is1 ! ?y)] else is1)"
      have y: "k < ?y" "?y < length is1" if "in_yes (is1 ! k) > 0"
        using forwardD [OF combine_invD(1) [OF inv1 k1] k1, of True] that by (auto simp: jump_ok_def in_j_def)
      have c2: "combined align n is1 is2" and w2: "combine_weight is2 = combine_weight is" and at_k: "is2 ! k = is1 ! k"
        using y flip_combined [OF inv1 y(2)] combined_refl [OF inv1] combine_weight_flip [OF y(2)] w1 by (auto simp: is2_def)
      then have inv2: "combine_inv align n is2" and k2: "k < length is2" and len2: "length is2 = length is"
        using k1 len1 by (auto simp: combined_def)
      have eq: "combine_loop i is =
        (if in_yes (is2 ! k) > 0 \<and> in_no (is2 ! k) = in_no (is2 ! ?y) \<and> in_compatible (is2 ! ?y) (is2 ! k) True
         then combine_loop i (is2[k := combine_pair (is2 ! k) (is2 ! ?y)]) else combine_loop k is2)"
      proof -
        let ?T = "if in_no x1 = in_yes (is1 ! nat (in_yes x1)) \<and> in_flippable (is1 ! nat (in_yes x1))
          then is1[nat (in_yes x1) := in_flip (is1 ! nat (in_yes x1))] else is1"
        have "combine_loop i is =
          (if in_yes x1 \<le> 0 then combine_loop k is1
           else let is = ?T; yes_in = is ! nat (in_yes x1)
                in if in_no x1 = in_no yes_in \<and> in_compatible yes_in x1 True
                   then combine_loop i (is[k := combine_pair x1 yes_in]) else combine_loop k is)"
          unfolding Suc by (subst combine_loop.simps) (simp only: Let_def noflip if_False x1_def is1_def diff_Suc_1 nat.simps)
        then have l: "combine_loop i is = (if in_yes x1 \<le> 0 then combine_loop k is1
           else if in_no x1 = in_no (?T ! nat (in_yes x1)) \<and> in_compatible (?T ! nat (in_yes x1)) x1 True
                then combine_loop i (?T[k := combine_pair x1 (?T ! nat (in_yes x1))]) else combine_loop k ?T)"
          by (simp only: Let_def)
        show ?thesis
        proof (cases "in_yes x1 > 0")
          case True
          then have "\<not> in_yes x1 \<le> 0" and is2: "is2 = ?T" by (simp, simp only: is2_def x1 simp_thms)
          then show ?thesis unfolding at_k x1 l unfolding is2 by (simp only: True simp_thms if_True if_False)
        next
          case False
          then show ?thesis unfolding at_k x1 l by (simp add: is2_def x1)
        qed
      qed
      note c = combine_combined [OF inv2 k2 _ _ _ refl, folded at_k]
      show ?thesis unfolding eq
        using le k combine_weight_update [OF k2, of "combine_pair (is2 ! k) (is2 ! ?y)"] w2 len2 Suc
          c combined_trans [OF c1 c2] combined_trans [OF combined_trans [OF c1 c2]]
        by (auto simp: at_k intro!: IH)
    qed
  qed
qed

text \<open>Combining tests ends, keeps programs well formed and the bytes they look at, and decides every packet that has all those bytes like
  the program before.\<close>

lemma combine_compatible_result:
  assumes "combine_inv (pg_align_offset g) n (pg_insn g)"
  shows "\<exists>g'. combine_compatible_states g = Some g' \<and> combine_inv (pg_align_offset g) n (pg_insn g') \<and>
    length (pg_insn g') = length (pg_insn g) \<and>
    (\<forall>bs. n \<le> length bs + pg_align_offset g \<longrightarrow>
      pg_run (byte_test bs (pg_align_offset g)) g' = pg_run (byte_test bs (pg_align_offset g)) g)"
proof -
  let ?a = "pg_align_offset g"
  obtain "is" where l: "combine_loop (length (pg_insn g)) (pg_insn g) = Some is" "combined ?a n (pg_insn g) is"
    using combine_loop_result [OF assms order_refl] by blast
  have "cl_run (byte_test bs ?a) xs 0 = cl_run (word_test (\<lambda>off. cl_word bs ?a (unat off))) xs 0"
    if "combine_inv ?a n xs" "n \<le> length bs + ?a" for bs xs
    using that by (intro run_steps) (auto simp: combine_inv_def byte_test_long dest!: nth_mem)
  then show ?thesis
    using l assms by (auto simp: combine_compatible_states_def pg_run_def combined_def)
qed

end
