(* ===== verification/Click_ClassUnused.thy ===== *)
theory Click_ClassUnused
  imports Click_ClassOpt
begin

text \<open>
  \<^verbatim>\<open>Program::remove_unused_states\<close> keeps the run of a program for every way of deciding tests, and what it
  leaves is ready to run: either a single output or instructions that all compare something and can be reached.
\<close>

section \<open>Auxiliary definitions\<close>

text \<open>The state of the first loop after the instructions from \<open>i\<close> on.\<close>

definition skipped :: "insn list \<Rightarrow> nat \<Rightarrow> insn list \<Rightarrow> int list \<Rightarrow> bool" where
  "skipped is i is' dest \<longleftrightarrow>
     length is' = length is \<and> length dest = length is \<and> (\<forall>a<i. is' ! a = is ! a) \<and>
     (\<forall>a. i \<le> a \<longrightarrow> a < length is \<longrightarrow>
        same_test (is' ! a) (is ! a) \<and>
        dest ! a = (if in_interesting (is' ! a) then int a else in_yes (is' ! a)) \<and>
        (\<forall>b. in_j b (is' ! a) > 0 \<longrightarrow>
           int a < in_j b (is' ! a) \<and> in_j b (is' ! a) < int (length is) \<and> in_interesting (is' ! nat (in_j b (is' ! a)))))"

text \<open>The jumps lead where the original ones lead, and an uninteresting instruction leads where its \<open>yes\<close> branch leads.\<close>

definition skip_run :: "(insn \<Rightarrow> bool) \<Rightarrow> insn list \<Rightarrow> nat \<Rightarrow> insn list \<Rightarrow> bool" where
  "skip_run t is i is' \<longleftrightarrow>
     (\<forall>a. i \<le> a \<longrightarrow> a < length is \<longrightarrow>
        (\<forall>b. cl_goto t is (in_j b (is' ! a)) = cl_goto t is (in_j b (is ! a))) \<and>
        (\<not> in_interesting (is' ! a) \<longrightarrow> cl_goto t is (in_yes (is' ! a)) = cl_run t is a))"

text \<open>The number of instructions in front of \<open>a\<close> that are kept, and what the second loop has found when it is at \<open>i\<close>.\<close>

definition kept :: "int list \<Rightarrow> nat \<Rightarrow> nat" where
  "kept dest a = length (filter (\<lambda>b. dest ! b \<ge> 0) [0..<a])"

definition numbered :: "insn list \<Rightarrow> nat \<Rightarrow> int list \<Rightarrow> bool" where
  "numbered is i dest \<longleftrightarrow>
     length dest = length is \<and> dest ! 0 = 0 \<and>
     (\<forall>a<i. dest ! a \<ge> 0 \<longrightarrow>
        dest ! a = int (kept dest a) \<and> (\<forall>b. in_j b (is ! a) > 0 \<longrightarrow> dest ! nat (in_j b (is ! a)) \<ge> 0)) \<and>
     (\<forall>a. i \<le> a \<longrightarrow> a < length is \<longrightarrow> dest ! a \<in> {- 1, 0}) \<and>
     (\<forall>a<length is. dest ! a \<ge> 0 \<longrightarrow> a = 0 \<or> (\<exists>c b. c < length is \<and> in_j b (is ! c) = int a))"

definition renumbered :: "insn list \<Rightarrow> int list \<Rightarrow> insn list \<Rightarrow> bool" where
  "renumbered is dest r \<longleftrightarrow>
     cl_forward is \<and> numbered is (length is) dest \<and> r = take (kept dest (length is)) (move_reachable dest (length is) 0 is)"

text \<open>The treatment of the first instruction: what the program starts with, and the single output, or \<open>- 1\<close>.\<close>

definition unused_start :: "insn list \<Rightarrow> int list \<Rightarrow> insn list \<times> int" where
  "unused_start is dest =
     (if dest ! 0 > 0 then (is[0 := is ! nat (dest ! 0)], - 1)
      else if dest ! 0 < 0 then (is, - (dest ! 0))
      else if in_yes (is ! 0) = 0 \<and> (in_no (is ! 0) = 0 \<or> in_mask (is ! 0) = 0) then (is, 0)
      else (is, - 1))"

section \<open>Skipping uninteresting instructions\<close>

lemma in_j_skip: "in_j b (skip_uninteresting dest x) = (if in_j b x > 0 then dest ! nat (in_j b x) else in_j b x)"
  by (simp add: in_j_def skip_uninteresting_def)

lemma same_test_skip [simp]: "same_test (skip_uninteresting dest x) x"
  by (simp add: same_test_def skip_uninteresting_def)

lemma skipped_step:
  assumes s: "skipped is (Suc i) is' dest" and fw: "cl_forward is" and i: "i < length is"
    and x: "x = skip_uninteresting dest (is' ! i)"
    and d: "d = (if in_interesting x then int i else if in_yes x \<le> 0 then in_yes x else dest ! nat (in_yes x))"
  shows "skipped is i (is'[i := x]) (dest[i := d])"
proof -
  have at: "is' ! i = is ! i" and len: "length is' = length is" "length dest = length is" using s by (auto simp: skipped_def)
  have later: "same_test (is' ! a) (is ! a)" "dest ! a = (if in_interesting (is' ! a) then int a else in_yes (is' ! a))"
    "in_j b (is' ! a) > 0 \<Longrightarrow> int a < in_j b (is' ! a) \<and> in_j b (is' ! a) < int (length is) \<and> in_interesting (is' ! nat (in_j b (is' ! a)))"
    if "Suc i \<le> a" "a < length is" for a b using s that unfolding skipped_def by blast+
  have jx: "int i < in_j b x \<and> in_j b x < int (length is) \<and> in_interesting (is' ! nat (in_j b x))" if "in_j b x > 0" for b
  proof -
    let ?j = "nat (in_j b (is ! i))"
    have pos: "in_j b (is ! i) > 0" using that by (auto simp: x in_j_skip at split: if_splits)
    then have j: "Suc i \<le> ?j" "?j < length is" using forwardD [OF fw i, of b] by (auto simp: jump_ok_def)
    have jd: "in_j b x = dest ! ?j" using pos by (simp add: x in_j_skip at)
    show ?thesis
    proof (cases "in_interesting (is' ! ?j)")
      case True
      then show ?thesis using pos j jd later(2) [OF j] by auto
    next
      case False
      then have "in_j b x = in_j True (is' ! ?j)" using jd later(2) [OF j] by (simp add: in_j_def)
      then show ?thesis using later(3) [OF j, of True] that j pos by auto
    qed
  qed
  have "in_yes x > 0 \<Longrightarrow> dest ! nat (in_yes x) = in_yes x"
    using jx [of True] later(2) [of "nat (in_yes x)"] by (auto simp: in_j_def)
  then have "d = (if in_interesting x then int i else in_yes x)" by (simp add: d)
  then have dx: "dest[i := d] ! i = (if in_interesting x then int i else in_yes x)" using i len by simp
  have sx: "same_test x (is ! i)" by (simp add: x at)
  show ?thesis
    unfolding skipped_def
  proof (intro conjI allI impI)
    fix a assume a: "i \<le> a" "a < length is"
    have other: "(is'[i := x]) ! c = is' ! c" "(dest[i := d]) ! c = dest ! c" if "i < c" for c using that by simp_all
    show "same_test (is'[i := x] ! a) (is ! a)" using a sx i len later(1) [of a] by (cases "a = i") auto
    show "dest[i := d] ! a = (if in_interesting (is'[i := x] ! a) then int a else in_yes (is'[i := x] ! a))"
      using a dx i len later(2) [of a] other [of a] by (cases "a = i") auto
    fix b assume j: "in_j b (is'[i := x] ! a) > 0"
    have "int a < in_j b (is'[i := x] ! a) \<and> in_j b (is'[i := x] ! a) < int (length is) \<and> in_interesting (is' ! nat (in_j b (is'[i := x] ! a)))"
      using a j i len jx [of b] later(3) [of a b] other(1) [of a] by (cases "a = i") auto
    then show "int a < in_j b (is'[i := x] ! a)" "in_j b (is'[i := x] ! a) < int (length is)"
      "in_interesting (is'[i := x] ! nat (in_j b (is'[i := x] ! a)))"
      using a(1) other(1) [of "nat (in_j b (is'[i := x] ! a))"] by auto
  qed (use s len in \<open>auto simp: skipped_def\<close>)
qed

context cl_decision
begin

lemma skip_run_step:
  assumes s: "skipped is (Suc i) is' dest" and r: "skip_run decide is (Suc i) is'" and fw: "cl_forward is" and i: "i < length is"
    and x: "x = skip_uninteresting dest (is' ! i)"
  shows "skip_run decide is i (is'[i := x])"
proof -
  have at: "is' ! i = is ! i" and len: "length is' = length is" using s by (auto simp: skipped_def)
  have goto: "cl_goto decide is (in_j b x) = cl_goto decide is (in_j b (is ! i))" for b
  proof (cases "in_j b (is ! i) > 0")
    case True
    let ?j = "nat (in_j b (is ! i))"
    have j: "Suc i \<le> ?j" "?j < length is" using forwardD [OF fw i, of b] True by (auto simp: jump_ok_def)
    have "dest ! ?j = (if in_interesting (is' ! ?j) then int ?j else in_yes (is' ! ?j))"
      "\<not> in_interesting (is' ! ?j) \<Longrightarrow> cl_goto decide is (in_yes (is' ! ?j)) = cl_run decide is ?j"
      using s r j by (auto simp: skipped_def skip_run_def)
    then show ?thesis using True by (auto simp: x in_j_skip at cl_goto_def)
  qed (simp add: x in_j_skip at)
  have "decide (is ! i) = decide x" unfolding x at by (rule decide_same [symmetric]) simp
  then have "cl_goto decide is (in_yes x) = cl_run decide is i" if "\<not> in_interesting x"
    using that goto [of "decide x"] decide_all [of x] run_step [OF fw i, of decide] by (auto simp: in_interesting_def in_j_def)
  then show ?thesis using r i len goto by (auto simp: skip_run_def nth_list_update not_less_eq_eq)
qed

lemma remove_uninteresting_result:
  assumes "skipped is i is' dest" and "skip_run decide is i is'" and "cl_forward is" and "i \<le> length is"
  shows "\<exists>is'' dest'. remove_uninteresting i (is', dest) = (is'', dest') \<and> skipped is 0 is'' dest' \<and> skip_run decide is 0 is''"
  using assms
proof (induction i arbitrary: is' dest)
  case (Suc i)
  then have i: "i < length is" by simp
  let ?x = "skip_uninteresting dest (is' ! i)"
  show ?case
    using Suc.IH [OF skipped_step [OF Suc.prems(1,3) i refl refl] skip_run_step [OF Suc.prems(1,2,3) i refl] Suc.prems(3)] i
    by (simp add: Let_def)
qed simp

lemma skipped_forward:
  assumes "skipped is 0 is' dest"
  shows "cl_forward is'"
proof (rule forwardI)
  fix i k assume "i < length is'"
  then show "jump_ok (length is') i (in_j k (is' ! i))" using assms unfolding skipped_def jump_ok_def
    by (metis le0 not_le_imp_less)
qed

lemma skipped_run:
  assumes "skipped is 0 is' dest" and "skip_run decide is 0 is'" and "cl_forward is"
  shows "cl_run decide is' pos = cl_run decide is pos"
proof (rule run_steps [OF assms(3) skipped_forward [OF assms(1)]])
  show "length is' = length is" using assms(1) by (simp add: skipped_def)
  fix i assume i: "i < length is"
  then have "decide (is' ! i) = decide (is ! i)" by (intro decide_same) (use assms(1) in \<open>simp add: skipped_def\<close>)
  then show "cl_goto decide is (in_j (decide (is' ! i)) (is' ! i)) = cl_goto decide is (in_j (decide (is ! i)) (is ! i))"
    using assms(2) i by (simp add: skip_run_def)
qed

end

section \<open>Numbering the instructions that are kept\<close>

lemma kept_Suc: "kept dest (Suc a) = kept dest a + of_bool (dest ! a \<ge> 0)"
  by (simp add: kept_def)

lemma kept_0 [simp]: "kept dest 0 = 0"
  by (simp add: kept_def)

lemma kept_cong: "(\<And>b. b < a \<Longrightarrow> (dest ! b \<ge> 0) = (dest' ! b \<ge> 0)) \<Longrightarrow> kept dest a = kept dest' a"
  unfolding kept_def by (intro arg_cong [of _ _ length] filter_cong) auto

lemma kept_mono: "a \<le> b \<Longrightarrow> kept dest a \<le> kept dest b"
  by (induction b rule: dec_induct) (simp_all add: kept_Suc)

lemma kept_le: "kept dest a \<le> a"
  by (induction a) (simp_all add: kept_Suc)

lemma kept_less: "a < b \<Longrightarrow> dest ! a \<ge> 0 \<Longrightarrow> kept dest a < kept dest b"
  using kept_mono [of "Suc a" b dest] by (simp add: kept_Suc)

lemma kept_surj: "p < kept dest n \<Longrightarrow> \<exists>a<n. dest ! a \<ge> 0 \<and> kept dest a = p"
proof (induction n)
  case (Suc n)
  show ?case
  proof (cases "p < kept dest n")
    case True
    then show ?thesis using Suc.IH by (meson less_SucI)
  next
    case False
    then have "dest ! n \<ge> 0 \<and> kept dest n = p" using Suc.prems by (cases "dest ! n \<ge> 0") (auto simp: kept_Suc)
    then show ?thesis by blast
  qed
qed simp

lemma mark_jump_nth:
  "(mark_jump j dest) ! a = (if j > 0 \<and> a = nat j \<and> a < length dest then 0 else dest ! a)"
  by (cases "nat j < length dest") (auto simp: mark_jump_def nth_list_update list_update_beyond)

lemma length_mark_jump [simp]: "length (mark_jump j dest) = length dest"
  by (simp add: mark_jump_def)

lemma number_reachable_step:
  assumes n: "numbered is i dest" and fw: "cl_forward is" and i: "i < length is" and d: "dest ! i \<ge> 0"
    and d': "dest' = mark_jump (in_yes (is ! i)) (mark_jump (in_no (is ! i)) (dest[i := int (kept dest i)]))"
  shows "numbered is (Suc i) dest'" and "kept dest' (Suc i) = Suc (kept dest i)"
proof -
  have len: "length dest = length is" using n by (simp add: numbered_def)
  have ok: "jump_ok (length is) i (in_yes (is ! i))" "jump_ok (length is) i (in_no (is ! i))"
    using forwardD [OF fw i, of True] forwardD [OF fw i, of False] by (simp_all add: in_j_def)
  have old: "dest' ! a = dest ! a" if "a < i" for a
    using that ok by (auto simp: d' mark_jump_nth jump_ok_def)
  have at: "dest' ! i = int (kept dest i)" using ok i len by (auto simp: d' mark_jump_nth jump_ok_def)
  have new: "dest' ! a = (if int a = in_yes (is ! i) \<or> int a = in_no (is ! i) then 0 else dest ! a)" if "i < a" "a < length is" for a
    using that ok len by (auto simp: d' mark_jump_nth)
  have k: "kept dest' a = kept dest a" if "a \<le> i" for a using that old by (intro kept_cong) auto
  have le: "dest ! a \<ge> 0 \<Longrightarrow> dest' ! a \<ge> 0" if "a < length is" for a
    using that old [of a] at new [of a] by (cases a i rule: linorder_cases) auto
  show "kept dest' (Suc i) = Suc (kept dest i)" by (simp add: kept_Suc k at)
  show "numbered is (Suc i) dest'"
    unfolding numbered_def
  proof (intro conjI allI impI)
    show "length dest' = length is" by (simp add: d' len)
    show "dest' ! 0 = 0" using n old [of 0] at by (cases "i = 0") (auto simp: numbered_def)
    fix a assume a: "a < Suc i" "dest' ! a \<ge> 0"
    show "dest' ! a = int (kept dest' a)" using n a old [of a] at k [of a] by (cases "a = i") (auto simp: numbered_def)
    fix b assume j: "in_j b (is ! a) > 0"
    let ?j = "nat (in_j b (is ! a))"
    have jl: "?j < length is" "a < ?j" using forwardD [OF fw, of a b] a i j by (auto simp: jump_ok_def)
    show "dest' ! ?j \<ge> 0"
    proof (cases "a = i")
      case True
      then show ?thesis using new [OF _ jl(1)] jl(2) j by (cases b) (auto simp: in_j_def)
    next
      case False
      then have "dest ! ?j \<ge> 0" using n a j old [of a] by (auto simp: numbered_def)
      then show ?thesis by (rule le [OF jl(1)])
    qed
  next
    fix a assume "Suc i \<le> a" "a < length is"
    then show "dest' ! a \<in> {- 1, 0}" using n new [of a] by (auto simp: numbered_def)
  next
    fix a assume a: "a < length is" "dest' ! a \<ge> 0"
    have jumps: "\<exists>c b. c < length is \<and> in_j b (is ! c) = int a" if "int a = in_yes (is ! i) \<or> int a = in_no (is ! i)"
      using that i in_j_bool [of "is ! i"] by metis
    show "a = 0 \<or> (\<exists>c b. c < length is \<and> in_j b (is ! c) = int a)"
    proof (cases "dest ! a \<ge> 0")
      case True
      then show ?thesis using n a(1) by (auto simp: numbered_def)
    next
      case False
      then show ?thesis using a old [of a] new [of a] d jumps by (cases a i rule: linorder_cases) (auto split: if_splits)
    qed
  qed
qed

lemma number_reachable_result:
  assumes "numbered is i dest" and "cl_forward is" and "i \<le> length is"
  shows "\<exists>dest'. number_reachable (drop i is) i (int (kept dest i), dest) = (int (kept dest' (length is)), dest') \<and>
    numbered is (length is) dest'"
  using assms
proof (induction "length is - i" arbitrary: i dest)
  case 0
  then show ?case by simp
next
  case (Suc m)
  then have i: "i < length is" by simp
  then have drop: "drop i is = is ! i # drop (Suc i) is" by (simp add: Cons_nth_drop_Suc)
  show ?case
  proof (cases "dest ! i \<ge> 0")
    case True
    note s = number_reachable_step [OF Suc.prems(1,2) i True refl]
    show ?thesis using Suc.hyps(1) [OF _ s(1) Suc.prems(2)] Suc.hyps(2) i True s(2) by (simp add: drop add.commute)
  next
    case False
    then have "numbered is (Suc i) dest" using Suc.prems(1) by (auto simp: numbered_def less_Suc_eq)
    then show ?thesis using Suc.hyps(1) [of "Suc i" dest] Suc.hyps(2) Suc.prems(2) i False by (simp add: drop kept_Suc)
  qed
qed

section \<open>Moving the instructions that are kept\<close>

lemma move_reachable_nth:
  assumes "\<And>a. a < length is \<Longrightarrow> dest ! a \<ge> 0 \<Longrightarrow> dest ! a = int (kept dest a)" and "i + m = length is"
  shows "length (move_reachable dest m i is) = length is"
    and "p < kept dest i \<Longrightarrow> move_reachable dest m i is ! p = is ! p"
    and "i \<le> a \<Longrightarrow> a < length is \<Longrightarrow> dest ! a \<ge> 0 \<Longrightarrow>
      move_reachable dest m i is ! kept dest a = skip_uninteresting dest (is ! a)"
proof -
  have "length (move_reachable dest m i is) = length is \<and>
    (\<forall>p < kept dest i. move_reachable dest m i is ! p = is ! p) \<and>
    (\<forall>a. i \<le> a \<longrightarrow> a < length is \<longrightarrow> dest ! a \<ge> 0 \<longrightarrow>
      move_reachable dest m i is ! kept dest a = skip_uninteresting dest (is ! a))" (is "?P m i is")
    using assms
  proof (induction m arbitrary: i "is")
    case (Suc m)
    then have i: "i < length is" by simp
    show ?case
    proof (cases "dest ! i \<ge> 0")
      case True
      let ?is = "is[kept dest i := skip_uninteresting dest (is ! i)]"
      have d: "nat (dest ! i) = kept dest i" using Suc.prems(1) [OF i True] by simp
      have IH: "?P m (Suc i) ?is" using Suc.IH [of ?is "Suc i"] Suc.prems by simp
      have k: "kept dest i < length is" "kept dest (Suc i) = Suc (kept dest i)" using kept_le [of dest i] i True by (auto simp: kept_Suc)
      have at: "?is ! a = is ! a" if "i < a" for a using that kept_le [of dest i] by simp
      have "move_reachable dest m (Suc i) ?is ! kept dest a = skip_uninteresting dest (is ! a)"
        if "i \<le> a" "a < length is" "dest ! a \<ge> 0" for a
        using IH that k at [of a] by (cases "a = i") auto
      then show ?thesis using IH True d k by auto
    next
      case False
      have IH: "?P m (Suc i) is" using Suc.IH [of "is" "Suc i"] Suc.prems by simp
      have "move_reachable dest m (Suc i) is ! kept dest a = skip_uninteresting dest (is ! a)"
        if "i \<le> a" "a < length is" "dest ! a \<ge> 0" for a
        using IH that False by (cases "a = i") auto
      then show ?thesis using IH False by (auto simp: kept_Suc)
    qed
  qed simp
  then show "length (move_reachable dest m i is) = length is"
    and "p < kept dest i \<Longrightarrow> move_reachable dest m i is ! p = is ! p"
    and "i \<le> a \<Longrightarrow> a < length is \<Longrightarrow> dest ! a \<ge> 0 \<Longrightarrow>
      move_reachable dest m i is ! kept dest a = skip_uninteresting dest (is ! a)"
    by blast+
qed

lemma number_reachable_none:
  assumes "\<And>a. i \<le> a \<Longrightarrow> a < i + length xs \<Longrightarrow> dest ! a < 0"
  shows "number_reachable xs i (k, dest) = (k, dest)"
  using assms
proof (induction xs arbitrary: i)
  case (Cons x xs)
  from Cons.prems [of i] have "dest ! i < 0" by simp
  moreover have "number_reachable xs (Suc i) (k, dest) = (k, dest)" by (rule Cons.IH) (simp add: Cons.prems)
  ultimately show ?case by simp
qed simp

lemma renumberedD:
  assumes "renumbered is dest r"
  shows "cl_forward is" and "a < length is \<Longrightarrow> dest ! a \<ge> 0 \<Longrightarrow> dest ! a = int (kept dest a)"
    and "a < length is \<Longrightarrow> dest ! a \<ge> 0 \<Longrightarrow> in_j b (is ! a) > 0 \<Longrightarrow> dest ! nat (in_j b (is ! a)) \<ge> 0"
  using assms by (auto simp: renumbered_def numbered_def)

lemma renumbered_nth:
  assumes "renumbered is dest r"
  shows "length r = kept dest (length is)"
    and "a < length is \<Longrightarrow> dest ! a \<ge> 0 \<Longrightarrow> r ! kept dest a = skip_uninteresting dest (is ! a)"
proof -
  have r: "r = take (kept dest (length is)) (move_reachable dest (length is) 0 is)" using assms by (simp add: renumbered_def)
  note m = move_reachable_nth [OF renumberedD(2) [OF assms], where i = 0 and m = "length is"]
  show "length r = kept dest (length is)" using m(1) kept_le [of dest "length is"] by (simp add: r)
  show "r ! kept dest a = skip_uninteresting dest (is ! a)" if "a < length is" "dest ! a \<ge> 0"
    using that m(3) kept_less [of a "length is" dest] by (simp add: r)
qed

lemma renumbered_jump:
  assumes R: "renumbered is dest r" and a: "a < length is" "dest ! a \<ge> 0"
  shows "in_j b (r ! kept dest a) =
    (if in_j b (is ! a) > 0 then int (kept dest (nat (in_j b (is ! a)))) else in_j b (is ! a))"
    and "in_j b (is ! a) > 0 \<Longrightarrow> kept dest a < kept dest (nat (in_j b (is ! a))) \<and> kept dest (nat (in_j b (is ! a))) < length r"
proof -
  have j: "a < nat (in_j b (is ! a))" "nat (in_j b (is ! a)) < length is" if "in_j b (is ! a) > 0"
    using forwardD [OF renumberedD(1) [OF R] a(1), of b] that by (auto simp: jump_ok_def)
  show "in_j b (r ! kept dest a) =
    (if in_j b (is ! a) > 0 then int (kept dest (nat (in_j b (is ! a)))) else in_j b (is ! a))"
    using j renumberedD(2) [OF R] renumberedD(3) [OF R a] by (simp add: renumbered_nth(2) [OF R a] in_j_skip)
  show "kept dest a < kept dest (nat (in_j b (is ! a))) \<and> kept dest (nat (in_j b (is ! a))) < length r" if "in_j b (is ! a) > 0"
    using kept_less [OF j(1) a(2)] kept_less [OF j(2) renumberedD(3) [OF R a that]] that
    by (simp add: renumbered_nth(1) [OF R])
qed

lemma renumbered_all:
  assumes "renumbered is dest r" and "p < length r"
  obtains a where "a < length is" and "dest ! a \<ge> 0" and "kept dest a = p"
  using assms kept_surj [of p dest "length is"] by (auto simp: renumbered_nth(1) [OF assms(1)])

lemma renumbered_forward:
  assumes "renumbered is dest r"
  shows "cl_forward r"
proof (rule forwardI)
  fix p k assume "p < length r"
  then obtain a where a: "a < length is" "dest ! a \<ge> 0" "kept dest a = p" by (rule renumbered_all [OF assms])
  show "jump_ok (length r) p (in_j k (r ! p))"
    using renumbered_jump [OF assms a(1,2), of k] a(3) by (auto simp: jump_ok_def)
qed

lemma renumbered_interesting:
  assumes R: "renumbered is dest r" and a: "a < length is" "dest ! a \<ge> 0" and int: "in_interesting (is ! a)"
  shows "in_interesting (r ! kept dest a)"
proof -
  let ?k = "\<lambda>b. nat (in_j b (is ! a))"
  have less: "?k b < length is" "dest ! ?k b \<ge> 0" "kept dest (?k b) > 0" if "in_j b (is ! a) > 0" for b
    using forwardD [OF renumberedD(1) [OF R] a(1), of b] renumberedD(3) [OF R a that] renumbered_jump(2) [OF R a that] that
    by (auto simp: jump_ok_def)
  have inj: "kept dest x \<noteq> kept dest y" if "x \<noteq> y" "dest ! x \<ge> 0" "dest ! y \<ge> 0" for x y
    using that kept_less [of x y dest] kept_less [of y x dest] by (metis less_irrefl linorder_neqE_nat)
  have "in_j True (r ! kept dest a) \<noteq> in_j False (r ! kept dest a)"
    using int less [of True] less [of False] inj [of "?k True" "?k False"]
    by (auto simp: renumbered_jump(1) [OF R a] in_interesting_def in_j_bool eq_nat_nat_iff)
  moreover have "in_mask (r ! kept dest a) = in_mask (is ! a)"
    by (simp add: renumbered_nth(2) [OF R a] skip_uninteresting_def)
  ultimately show ?thesis using int by (simp add: in_interesting_def in_j_bool)
qed

context cl_decision
begin

lemma renumbered_run:
  assumes R: "renumbered is dest r" and "a < length is" and "dest ! a \<ge> 0"
  shows "cl_run decide r (kept dest a) = cl_run decide is a"
  using assms(2,3)
proof (induction "length is - a" arbitrary: a rule: less_induct)
  case less
  note fw = renumberedD(1) [OF R]
  let ?p = "kept dest a"
  have p: "?p < length r" unfolding renumbered_nth(1) [OF R] by (rule kept_less [OF less.prems])
  have t: "decide (r ! ?p) = decide (is ! a)" by (rule decide_same) (simp add: renumbered_nth(2) [OF R less.prems])
  let ?j = "in_j (decide (is ! a)) (is ! a)"
  have "cl_run decide r (kept dest (nat ?j)) = cl_run decide is (nat ?j)" if "?j > 0"
    using less.hyps [of "nat ?j"] forwardD [OF fw less.prems(1), of "decide (is ! a)"] renumberedD(3) [OF R less.prems that] that
    by (auto simp: jump_ok_def)
  moreover have "kept dest (nat ?j) > 0" if "?j > 0"
    using renumbered_jump(2) [OF R less.prems that] by simp
  ultimately show ?case
    using less.prems
    by (auto simp: run_step [OF renumbered_forward [OF R] p] run_step [OF fw less.prems(1)] t renumbered_jump(1) [OF R] cl_goto_def)
qed

end

section \<open>The whole pass\<close>

lemma numbered_start: "is \<noteq> [] \<Longrightarrow> numbered is 0 ((replicate (length is) (- 1))[0 := 0])"
  by (auto simp: numbered_def nth_list_update)

lemma renumber_result:
  assumes "cl_forward is" and "is \<noteq> []"
  shows "\<exists>dest. number_reachable is 0 (0, (replicate (length is) (- 1))[0 := 0]) = (int (kept dest (length is)), dest) \<and>
    renumbered is dest (take (kept dest (length is)) (move_reachable dest (length is) 0 is)) \<and> dest ! 0 = 0"
  using number_reachable_result [OF numbered_start [OF assms(2)] assms(1)] assms(1)
  by (auto simp: renumbered_def numbered_def)

text \<open>The first instruction.\<close>

lemma unused_start_output:
  assumes "skipped is 0 is' dest" and "is \<noteq> []"
  shows "snd (unused_start is' dest) \<ge> 0 \<longleftrightarrow> \<not> in_interesting (is' ! 0) \<and> in_yes (is' ! 0) \<le> 0"
    and "snd (unused_start is' dest) \<ge> 0 \<Longrightarrow> snd (unused_start is' dest) = - in_yes (is' ! 0)"
    and "\<not> snd (unused_start is' dest) \<ge> 0 \<Longrightarrow> snd (unused_start is' dest) = - 1"
proof -
  have d: "dest ! 0 = (if in_interesting (is' ! 0) then 0 else in_yes (is' ! 0))"
    using assms by (auto simp: skipped_def)
  show "snd (unused_start is' dest) \<ge> 0 \<longleftrightarrow> \<not> in_interesting (is' ! 0) \<and> in_yes (is' ! 0) \<le> 0"
    "snd (unused_start is' dest) \<ge> 0 \<Longrightarrow> snd (unused_start is' dest) = - in_yes (is' ! 0)"
    "\<not> snd (unused_start is' dest) \<ge> 0 \<Longrightarrow> snd (unused_start is' dest) = - 1"
    by (auto simp: unused_start_def d in_interesting_def split: if_splits)
qed

lemma skippedD:
  assumes "skipped is 0 is' dest" and "a < length is"
  shows "length is' = length is" and "same_test (is' ! a) (is ! a)"
    and "dest ! a = (if in_interesting (is' ! a) then int a else in_yes (is' ! a))"
    and "in_j b (is' ! a) > 0 \<Longrightarrow>
      int a < in_j b (is' ! a) \<and> in_j b (is' ! a) < int (length is) \<and> in_interesting (is' ! nat (in_j b (is' ! a)))"
  using assms by (simp_all add: skipped_def)

lemma unused_start_program:
  assumes s: "skipped is 0 is' dest" and "is \<noteq> []" and oe: "\<not> snd (unused_start is' dest) \<ge> 0"
    and is2: "is2 = fst (unused_start is' dest)"
  shows "length is2 = length is" and "cl_forward is2" and "in_interesting (is2 ! 0)"
    and "a < length is2 \<Longrightarrow> in_j b (is2 ! a) > 0 \<Longrightarrow> in_interesting (is2 ! nat (in_j b (is2 ! a)))"
    and "\<forall>x\<in>set is2. \<exists>y\<in>set is. same_test x y"
proof -
  have 0: "0 < length is" using assms(2) by simp
  note d = skippedD [OF s 0]
  have len: "length is' = length is" by (rule d(1))
  define e where "e = (if dest ! 0 > 0 then nat (dest ! 0) else 0)"
  have e: "e < length is" "in_interesting (is' ! e)"
    using d(3) d(4) [of True] oe unused_start_output(1) [OF s assms(2)] 0 by (auto simp: e_def in_j_def split: if_splits)
  have up: "is2 = is'[0 := is' ! e]"
    using oe unfolding is2 unused_start_def by (auto simp: e_def split: if_splits)
  then show l2: "length is2 = length is" using len by simp
  have at: "is2 ! a = (if a = 0 then is' ! e else is' ! a)" for a using up 0 len by (cases a) auto
  then show "in_interesting (is2 ! 0)" using e by simp
  have jump: "int a < in_j b (is2 ! a) \<and> in_j b (is2 ! a) < int (length is) \<and> in_interesting (is2 ! nat (in_j b (is2 ! a)))"
    if "a < length is" "in_j b (is2 ! a) > 0" for a b
    using that skippedD(4) [OF s, of a b] skippedD(4) [OF s e(1), of b] by (auto simp: at split: if_splits)
  show "cl_forward is2"
  proof (rule forwardI)
    fix i k assume "i < length is2"
    then show "jump_ok (length is2) i (in_j k (is2 ! i))" using jump [of i k] l2 by (auto simp: jump_ok_def)
  qed
  show "in_interesting (is2 ! nat (in_j b (is2 ! a)))" if "a < length is2" "in_j b (is2 ! a) > 0"
    using jump that l2 by simp
  show "\<forall>x\<in>set is2. \<exists>y\<in>set is. same_test x y"
  proof
    fix x assume "x \<in> set is2"
    then obtain a where "a < length is" "x = is2 ! a" using l2 by (auto simp: in_set_conv_nth)
    then have "\<exists>c<length is. x = is' ! c" using e(1) by (auto simp: at)
    then show "\<exists>y\<in>set is. same_test x y" using skippedD(2) [OF s] by (auto intro: bexI [OF _ nth_mem])
  qed
qed

context cl_decision
begin

lemma unused_start_run:
  assumes s: "skipped is 0 is' dest" and r: "skip_run decide is 0 is'" and fw: "cl_forward is" and ne: "is \<noteq> []"
  shows "snd (unused_start is' dest) \<ge> 0 \<Longrightarrow> cl_run decide is 0 = Some (- snd (unused_start is' dest))"
    and "\<not> snd (unused_start is' dest) \<ge> 0 \<Longrightarrow> cl_run decide (fst (unused_start is' dest)) 0 = cl_run decide is 0"
proof -
  have 0: "0 < length is" using ne by simp
  have yes: "\<not> in_interesting (is' ! 0) \<Longrightarrow> cl_goto decide is (in_yes (is' ! 0)) = cl_run decide is 0"
    using r 0 by (simp add: skip_run_def)
  note out = unused_start_output [OF s ne]
  show "snd (unused_start is' dest) \<ge> 0 \<Longrightarrow> cl_run decide is 0 = Some (- snd (unused_start is' dest))"
    using out(1,2) yes by (auto simp: cl_goto_def)
  assume oe: "\<not> snd (unused_start is' dest) \<ge> 0"
  note same = skipped_run [OF s r fw] and d = skippedD [OF s 0] and fw' = skipped_forward [OF s]
  show "cl_run decide (fst (unused_start is' dest)) 0 = cl_run decide is 0"
  proof (cases "dest ! 0 > 0")
    case False
    then have "fst (unused_start is' dest) = is'" by (auto simp: unused_start_def)
    then show ?thesis by (simp add: same)
  next
    case True
    let ?e = "nat (dest ! 0)" and ?is = "is'[0 := is' ! nat (dest ! 0)]"
    have eq: "fst (unused_start is' dest) = ?is" using True by (simp add: unused_start_def)
    have y: "in_yes (is' ! 0) = dest ! 0" "\<not> in_interesting (is' ! 0)" "?e < length is'"
      using True d(1,3) d(4) [of True] by (auto simp: in_j_def split: if_splits)
    have fw2: "cl_forward ?is" using unused_start_program(2) [OF s ne oe refl] by (simp add: eq)
    have "cl_run decide ?is q = cl_run decide is' q" if "0 < q" for q using that by (intro run_cong) auto
    then have "cl_run decide ?is 0 = cl_run decide is' ?e"
      using d(1) 0 y(3) by (auto simp: run_step [OF fw2] run_step [OF fw'] cl_goto_def)
    also have "\<dots> = cl_run decide is 0" using yes [OF y(2)] True y(1) by (simp add: same cl_goto_def)
    finally show ?thesis by (simp add: eq)
  qed
qed

end

lemma remove_unused_states_unfold:
  assumes "pg_insn g \<noteq> []" and "remove_uninteresting (length (pg_insn g)) (pg_insn g, replicate (length (pg_insn g)) (- 1)) = (is', dest)"
    and "length is' = length (pg_insn g)"
  shows "snd (unused_start is' dest) \<ge> 0 \<Longrightarrow>
      remove_unused_states g = g\<lparr> pg_insn := [], pg_output_everything := snd (unused_start is' dest) \<rparr>"
    and "number_reachable (fst (unused_start is' dest)) 0 (0, (replicate (length (pg_insn g)) (- 1))[0 := 0]) = (int k, dest') \<Longrightarrow>
      snd (unused_start is' dest) = - 1 \<Longrightarrow>
      remove_unused_states g =
        g\<lparr> pg_insn := take k (move_reachable dest' (length (pg_insn g)) 0 (fst (unused_start is' dest))), pg_output_everything := - 1 \<rparr>"
proof -
  let ?n = "length (pg_insn g)"
  obtain is2 oe where u: "unused_start is' dest = (is2, oe)" by fastforce
  have eq: "remove_unused_states g =
    (case number_reachable is2 0 (0, (replicate ?n (- 1))[0 := (if oe < 0 then 0 else - 1)]) of
       (new, dest'') \<Rightarrow> g\<lparr> pg_insn := take (nat new) (move_reachable dest'' ?n 0 is2), pg_output_everything := oe \<rparr>)"
    using assms(1) u unfolding remove_unused_states_def unused_start_def [symmetric]
    by (simp add: assms(2) Let_def unused_start_def [symmetric])
  have "length is2 = ?n" using u assms(3) by (auto simp: unused_start_def split: if_splits)
  then have "number_reachable is2 0 (0, replicate ?n (- 1)) = (0, replicate ?n (- 1))" by (intro number_reachable_none) simp
  moreover have "(replicate ?n (- 1))[0 := - 1] = replicate ?n (- 1 :: int)" by (cases ?n) auto
  ultimately show "snd (unused_start is' dest) \<ge> 0 \<Longrightarrow>
      remove_unused_states g = g\<lparr> pg_insn := [], pg_output_everything := snd (unused_start is' dest) \<rparr>"
    unfolding eq u by simp
  show "number_reachable (fst (unused_start is' dest)) 0 (0, (replicate ?n (- 1))[0 := 0]) = (int k, dest') \<Longrightarrow>
      snd (unused_start is' dest) = - 1 \<Longrightarrow>
      remove_unused_states g =
        g\<lparr> pg_insn := take k (move_reachable dest' ?n 0 (fst (unused_start is' dest))), pg_output_everything := - 1 \<rparr>"
    unfolding eq u by simp
qed

lemma skipped_start: "skipped is (length is) is (replicate (length is) (- 1))" "skip_run t is (length is) is"
  by (simp_all add: skipped_def skip_run_def)

lemma remove_uninteresting_start:
  assumes "cl_forward is"
  obtains is' dest where "remove_uninteresting (length is) (is, replicate (length is) (- 1)) = (is', dest)"
    and "skipped is 0 is' dest" and "\<And>bs align. skip_run (byte_test bs align) is 0 is'"
proof -
  have "\<exists>is' dest. remove_uninteresting (length is) (is, replicate (length is) (- 1)) = (is', dest) \<and>
    skipped is 0 is' dest \<and> skip_run (byte_test bs align) is 0 is'" for bs align
    by (rule bt.remove_uninteresting_result [OF skipped_start assms]) simp
  then show ?thesis using that by (metis prod.inject)
qed

text \<open>Removing states leaves either one output for every packet, or a program in which every instruction compares something, has
  two different successors and jumps forward, with tests of the original program; every packet is decided as before.\<close>

lemma remove_unused_result:
  assumes fw: "cl_forward (pg_insn g)" and ne: "pg_insn g \<noteq> []" and g': "g' = remove_unused_states g"
  shows "pg_run (byte_test bs align) g' = cl_run (byte_test bs align) (pg_insn g) 0 \<and>
    pg_align_offset g' = pg_align_offset g \<and>
    (pg_output_everything g' \<ge> 0 \<and> pg_insn g' = [] \<or>
     pg_output_everything g' = - 1 \<and> pg_insn g' \<noteq> [] \<and> cl_forward (pg_insn g') \<and>
     (\<forall>x\<in>set (pg_insn g'). in_interesting x \<and> (\<exists>y\<in>set (pg_insn g). same_test x y)))"
proof -
  obtain is' dest where ru: "remove_uninteresting (length (pg_insn g)) (pg_insn g, replicate (length (pg_insn g)) (- 1)) = (is', dest)"
    and s: "skipped (pg_insn g) 0 is' dest" and r: "\<And>bs align. skip_run (byte_test bs align) (pg_insn g) 0 is'"
    by (rule remove_uninteresting_start [OF fw]) blast
  note unf = remove_unused_states_unfold [OF ne ru]
  have len: "length is' = length (pg_insn g)" using s by (simp add: skipped_def)
  note run = bt.unused_start_run [OF s r fw ne]
  show ?thesis
  proof (cases "snd (unused_start is' dest) \<ge> 0")
    case True
    then show ?thesis using run(1) [OF True] unf(1) [OF len True] by (simp add: g' pg_run_def)
  next
    case False
    define is2 where "is2 = fst (unused_start is' dest)"
    note p = unused_start_program [OF s ne False is2_def]
    have ne2: "is2 \<noteq> []" using p(1) ne by auto
    obtain dest' where num: "number_reachable is2 0 (0, (replicate (length is2) (- 1))[0 := 0]) = (int (kept dest' (length is2)), dest')"
      and R: "renumbered is2 dest' (take (kept dest' (length is2)) (move_reachable dest' (length is2) 0 is2))" and d0: "dest' ! 0 = 0"
      using renumber_result [OF p(2) ne2] by blast
    define q where "q = take (kept dest' (length is2)) (move_reachable dest' (length is2) 0 is2)"
    have gq: "g' = g\<lparr> pg_insn := q, pg_output_everything := - 1 \<rparr>"
      using unf(2) [OF len, of "kept dest' (length is2)" dest'] num unused_start_output(3) [OF s ne False]
      by (simp add: g' q_def is2_def p(1) [unfolded is2_def])
    note R' = R [folded q_def]
    have run0: "cl_run (byte_test bs align) q 0 = cl_run (byte_test bs align) (pg_insn g) 0"
      using bt.renumbered_run [OF R', of 0] d0 ne2 run(2) [OF False] by (simp add: is2_def)
    have int: "in_interesting (is2 ! a)" if "a < length is2" "dest' ! a \<ge> 0" for a
    proof -
      have start: "a = 0 \<or> (\<exists>c b. c < length is2 \<and> in_j b (is2 ! c) = int a)" using R' that by (auto simp: renumbered_def numbered_def)
      show ?thesis
      proof (cases "a = 0")
        case False
        then obtain c b where "c < length is2" "in_j b (is2 ! c) = int a"
          using start by blast
        then show ?thesis using p(4) [of c b] False by simp
      qed (simp add: p(3))
    qed
    have all: "in_interesting x \<and> (\<exists>y\<in>set (pg_insn g). same_test x y)" if x: "x \<in> set q" for x
    proof -
      obtain b where b: "b < length q" "x = q ! b" using x by (auto simp: in_set_conv_nth)
      obtain a where a: "a < length is2" "dest' ! a \<ge> 0" "x = q ! kept dest' a"
        by (rule renumbered_all [OF R' b(1)]) (use b(2) in auto)
      have "same_test x (is2 ! a)" by (simp add: a(3) renumbered_nth(2) [OF R' a(1,2)])
      then have "\<exists>y\<in>set (pg_insn g). same_test x y" using p(5) nth_mem [OF a(1)] by (auto simp: same_test_def)
      then show ?thesis using renumbered_interesting [OF R' a(1,2) int [OF a(1,2)]] a(3) by simp
    qed
    have "q \<noteq> []" using renumbered_nth(1) [OF R'] kept_less [of 0 "length is2" dest'] d0 ne2 by auto
    then show ?thesis using run0 all renumbered_forward [OF R'] by (simp add: gq pg_run_def)
  qed
qed

end
