(* ===== verification/Click_Classifier.thy ===== *)
theory Click_Classifier
  imports Click_Dominators Click_ClassUnused
begin

unbundle bit_operations_syntax

text \<open>
  The element \<open>Classifier\<close> (\<^verbatim>\<open>src/click/elements/standard/classifier.cc\<close>): patterns are parsed into clauses, the clauses become a decision
  program, which is optimised, and packets go to the output the program returns.

  A clause that cannot be parsed ends its pattern. Adding to the program does not depend on what is parsed later, so that the clauses of a
  pattern are collected first. \<open>None\<close> stands for an overflow of the offset, a read behind the end of a pattern or a failed assertion
  of the optimiser.
\<close>

section \<open>Clauses\<close>

definition isspace :: "char \<Rightarrow> bool" where
  "isspace c \<longleftrightarrow> (let n = of_char c :: nat in n = 32 \<or> (9 \<le> n \<and> n \<le> 13))"

definition isdigit :: "char \<Rightarrow> bool" where
  "isdigit c \<longleftrightarrow> (let n = of_char c :: nat in 48 \<le> n \<and> n \<le> 57)"

definition isxdigit :: "char \<Rightarrow> bool" where
  "isxdigit c \<longleftrightarrow> isdigit c \<or> (let n = of_char c :: nat in (65 \<le> n \<and> n \<le> 70) \<or> (97 \<le> n \<and> n \<le> 102))"

definition is_hex :: "char \<Rightarrow> bool" where
  "is_hex c \<longleftrightarrow> isxdigit c \<or> c = CHR ''?''"

text \<open>The loops \<^verbatim>\<open>while (i < len && ...) i++\<close>.\<close>

definition scan :: "(char \<Rightarrow> bool) \<Rightarrow> string \<Rightarrow> nat \<Rightarrow> nat" where
  "scan P s i = i + length (takeWhile P (drop i s))"

fun read_offset :: "string \<Rightarrow> int \<Rightarrow> int option" where
  "read_offset [] off = Some off"
| "read_offset (c # cs) off =
     (let off = off * 10 + (int (of_char c) - 48) in if off \<le> 0x7FFFFFFF then read_offset cs off else None)"

definition update_value_mask :: "char \<Rightarrow> nat \<Rightarrow> int \<times> int \<Rightarrow> int \<times> int" where
  "update_value_mask c shift = (\<lambda>(value, m).
     let n = int (of_char c);
         (v, k) = (if c = CHR ''?'' then (0, 0)
                   else if 48 \<le> n \<and> n \<le> 57 then (n - 48, 15)
                   else if 65 \<le> n \<and> n \<le> 70 then (n - 65 + 10, 15)
                   else if 97 \<le> n \<and> n \<le> 102 then (n - 97 + 10, 15)
                   else (0, 15))
     in (value OR push_bit shift v, m OR push_bit shift k))"

definition read_byte :: "string \<Rightarrow> nat \<Rightarrow> (int \<times> int) option" where
  "read_byte s i =
     (if i + 1 < length s then Some (update_value_mask (s ! (i + 1)) 0 (update_value_mask (s ! i) 4 (0, 0))) else None)"

text \<open>The bytes of a clause with their masks, between \<open>value_pos\<close> and \<open>value_end\<close>.\<close>

function read_bytes :: "string \<Rightarrow> nat \<Rightarrow> nat \<Rightarrow> nat option \<Rightarrow> (byte \<times> byte) list option" where
  "read_bytes s value_pos value_end mask_pos =
     (if value_pos < value_end then
        do {
          (v, m) \<leftarrow> read_byte s value_pos;
          m \<leftarrow> (case mask_pos of
                 None \<Rightarrow> Some m
               | Some k \<Rightarrow> do { (mv, mm) \<leftarrow> read_byte s k; Some (m AND mv AND mm) });
          rest \<leftarrow> read_bytes s (value_pos + 2) value_end (map_option (\<lambda>k. k + 2) mask_pos);
          Some ((word_of_int (v AND m), word_of_int m) # rest)
        }
      else Some [])"
  by pat_completeness auto
termination by (relation "measure (\<lambda>(s, value_pos, value_end, mask_pos). value_end - value_pos)") auto

declare read_bytes.simps [simp del]

record clause =
  c_negated :: bool
  c_offset :: int
  c_bytes :: "(byte \<times> byte) list"

text \<open>The lengths of value and mask are checked, and both are cut, with an error, when they do not fit. The result is the ends of
  the two and the number of errors.\<close>

definition check_lengths :: "nat \<Rightarrow> nat \<Rightarrow> (nat \<times> nat) option \<Rightarrow> nat \<times> nat" where
  "check_lengths value_pos value_end mk =
     (let vlen = int value_end - int value_pos;
          mlen = (case mk of None \<Rightarrow> 0 | Some (a, b) \<Rightarrow> int b - int a);
          (vlen, mlen, e) = (if vlen < 2 then (0, 0, 1 :: nat) else (vlen, mlen, 0));
          (vlen, mlen, e) = (if vlen mod 2 \<noteq> 0 then (vlen - 1, mlen - 1, e + 1) else (vlen, mlen, e));
          (vlen, e) = (if mk \<noteq> None \<and> mlen \<noteq> vlen then (if mlen > vlen then vlen else mlen, e + 1) else (vlen, e))
      in (nat (int value_pos + vlen), e))"

text \<open>One clause at \<open>i\<close>, which is in the string and not a space. \<open>Inl ()\<close> is an error that ends the pattern; otherwise the clause, the
  number of errors and the position behind it.\<close>

definition parse_clause :: "string \<Rightarrow> nat \<Rightarrow> (unit + clause \<times> nat \<times> nat) option" where
  "parse_clause s i =
     (let negated = (s ! i = CHR ''!'');
          i = (if negated then scan isspace s (i + 1) else i)
      in if i \<ge> length s \<or> \<not> isdigit (s ! i) then Some (Inl ())
         else do {
           let j = scan isdigit s i;
           off \<leftarrow> read_offset (take (j - i) (drop i s)) 0;
           if j \<ge> length s \<or> s ! j \<noteq> CHR ''/'' then Some (Inl ())
           else do {
             let value_pos = j + 1;
             let value_end = scan is_hex s value_pos;
             let mk = (if value_end < length s \<and> s ! value_end = CHR ''%''
                       then Some (value_end + 1, scan is_hex s (value_end + 1)) else None);
             let i = (case mk of None \<Rightarrow> value_end | Some (a, b) \<Rightarrow> b);
             let (stop, e) = check_lengths value_pos value_end mk;
             bs \<leftarrow> read_bytes s value_pos stop (map_option fst mk);
             Some (Inr (\<lparr> c_negated = negated, c_offset = off, c_bytes = bs \<rparr>, e, i))
           }
         })"

lemma scan_ge: "i \<le> scan P s i"
  by (simp add: scan_def)

lemma parse_clause_progress:
  assumes "parse_clause s i = Some (Inr (c, e, k))"
  shows "i < k"
proof -
  define i' where "i' = (if s ! i = CHR ''!'' then scan isspace s (i + 1) else i)"
  define j where "j = scan isdigit s i'"
  have "i \<le> i'" using scan_ge [of "i + 1" isspace s] by (simp add: i'_def)
  moreover have "i' \<le> j" unfolding j_def by (rule scan_ge)
  moreover have "k = scan is_hex s (j + 1) \<or> k = scan is_hex s (scan is_hex s (j + 1) + 1)"
    using assms unfolding parse_clause_def Let_def i'_def [symmetric]
    by (auto simp: j_def [symmetric] split: if_splits Option.bind_splits prod.splits)
  ultimately show ?thesis
    using scan_ge [of "j + 1" is_hex s] scan_ge [of "scan is_hex s (j + 1) + 1" is_hex s] by linarith
qed

lemma parse_pattern_progress:
  assumes "parse_clause s (scan isspace s i) = Some (Inr (c, e, k))" and "\<not> length s \<le> scan isspace s i"
  shows "length s - k < length s - i"
  using parse_clause_progress [OF assms(1)] scan_ge [of i isspace s] assms(2) by linarith

function parse_pattern :: "string \<Rightarrow> nat \<Rightarrow> (nat \<times> clause list) option" where
  "parse_pattern s i =
     (if scan isspace s i \<ge> length s then Some (0, [])
      else case parse_clause s (scan isspace s i) of
          None \<Rightarrow> None
        | Some (Inl _) \<Rightarrow> Some (1, [])
        | Some (Inr (c, e, i)) \<Rightarrow> do { (e', cs) \<leftarrow> parse_pattern s i; Some (e + e', c # cs) })"
  by pat_completeness auto
termination by (relation "measure (\<lambda>(s, i). length s - i)") (auto intro: parse_pattern_progress)

declare parse_pattern.simps [simp del]

definition parse_slot :: "string \<Rightarrow> (nat \<times> clause list) option" where
  "parse_slot s = (if s = ''-'' then Some (0, []) else parse_pattern s 0)"

section \<open>Building the program\<close>

type_synonym build = "int list \<times> program"

definition set_back :: "nat \<Rightarrow> byte \<Rightarrow> byte \<Rightarrow> build \<Rightarrow> build" where
  "set_back k v m = (\<lambda>(tree, p).
     let x = last (pg_insn p);
         x = x\<lparr> in_mask := set_uchar k m (in_mask x), in_value := set_uchar k v (in_value x) \<rparr>
     in (tree, p\<lparr> pg_insn := butlast (pg_insn p) @ [x] \<rparr>))"

fun add_bytes :: "bool \<Rightarrow> int \<Rightarrow> (byte \<times> byte) list \<Rightarrow> build \<Rightarrow> build" where
  "add_bytes first off [] st = st"
| "add_bytes first off ((v, m) # bs) st =
     (let st = (if first \<or> off mod 4 = 0 then add_insn (off div 4 * 4) 0 0 st else st)
      in add_bytes False (off + 1) bs (set_back (nat (off mod 4)) v m st))"

definition add_clause :: "clause \<Rightarrow> build \<Rightarrow> build option" where
  "add_clause c = (\<lambda>(tree, p).
     do {
       let off = c_offset c + int (pg_align_offset p);
       if off + int (length (c_bytes c)) > 0x7FFFFFFF then None
       else do {
         let st = add_bytes True off (c_bytes c) (start_subtree tree, p);
         let st = finish_subtree C_and j_success j_failure st;
         Some (if c_negated c then negate_subtree False st else st)
       }
     })"

fun add_clauses :: "clause list \<Rightarrow> build \<Rightarrow> build option" where
  "add_clauses [] st = Some st"
| "add_clauses (c # cs) st = do { st \<leftarrow> add_clause c st; add_clauses cs st }"

definition slot_empty :: "clause list \<Rightarrow> bool" where
  "slot_empty cs \<longleftrightarrow> (\<forall>c\<in>set cs. c_bytes c = [])"

definition add_slot :: "nat \<Rightarrow> clause list \<Rightarrow> build \<Rightarrow> build option" where
  "add_slot slot cs = (\<lambda>(tree, p).
     do {
       st \<leftarrow> add_clauses cs (start_subtree tree, p);
       let st = (if slot_empty cs then add_insn 0 0 0 st else st);
       Some (finish_subtree C_and (- int slot) j_failure st)
     })"

fun add_slots :: "nat \<Rightarrow> clause list list \<Rightarrow> build \<Rightarrow> build option" where
  "add_slots slot [] st = Some st"
| "add_slots slot (cs # css) st = do { st \<leftarrow> add_slot slot cs st; add_slots (slot + 1) css st }"

definition build_program :: "clause list list \<Rightarrow> program \<Rightarrow> program option" where
  "build_program slots prog =
     do {
       st \<leftarrow> add_slots 0 slots (start_subtree (init_subtree prog), prog);
       Some (snd (finish_subtree C_or j_never j_never st))
     }"

section \<open>The element\<close>

fun parse_slots :: "string list \<Rightarrow> (nat \<times> clause list list) option" where
  "parse_slots [] = Some (0, [])"
| "parse_slots (s # ss) = do { (e, cs) \<leftarrow> parse_slot s; (e', css) \<leftarrow> parse_slots ss; Some (e + e', cs # css) }"

definition parse_program :: "program \<Rightarrow> string list \<Rightarrow> (nat \<times> program) option" where
  "parse_program prog conf =
     do {
       (e, slots) \<leftarrow> parse_slots conf;
       p \<leftarrow> build_program slots prog;
       p \<leftarrow> pg_optimize [] 0x7FFFFFFF p;
       Some (e, p)
     }"

text \<open>The answer of \<^verbatim>\<open>AlignmentInfo::query\<close> is a chunk and an offset, or none.\<close>

definition empty_program :: "(int \<times> int) option \<Rightarrow> program" where
  "empty_program alignment =
     pg_new (case alignment of Some (c, k) \<Rightarrow> if c \<ge> 4 then nat ((4 - k mod 4) mod 4) else 0 | None \<Rightarrow> 0)"

definition warn_unused_outputs :: "nat \<Rightarrow> program \<Rightarrow> nat list" where
  "warn_unused_outputs noutputs p =
     (let used = (if pg_output_everything p \<ge> 0 \<and> pg_output_everything p < int noutputs then [pg_output_everything p]
                  else map uminus (filter (\<lambda>j. j \<le> 0) (concat (map (\<lambda>x. [in_no x, in_yes x]) (pg_insn p)))))
      in filter (\<lambda>k. int k \<notin> set used) [0..<noutputs])"

text \<open>\<open>configure\<close>: an error, or the program and the outputs that get no packets.\<close>

definition classifier_configure :: "(int \<times> int) option \<Rightarrow> nat \<Rightarrow> string list \<Rightarrow> (int + program \<times> nat list) option" where
  "classifier_configure alignment noutputs conf =
     (if length conf \<noteq> noutputs then Some (Inl (- 22))
      else do {
        (e, p) \<leftarrow> parse_program (empty_program alignment) conf;
        Some (if e = 0 then Inr (p, warn_unused_outputs noutputs p) else Inl (- 1))
      })"

definition classifier_push :: "nat \<Rightarrow> program \<Rightarrow> packet \<Rightarrow> emission list option" where
  "classifier_push noutputs prog p =
     do { port \<leftarrow> pg_match prog p; Some (if port < 0 then [] else checked_output_push noutputs (nat port) p) }"

end
