(* ===== verification/Click_ClassBuild.thy ===== *)
theory Click_ClassBuild
  imports Click_Classifier
begin

unbundle bit_operations_syntax

text \<open>
  The programs \<open>Click_Classifier\<close> builds decide packets as the patterns say. A subtree is a block of instructions that is left
  only through \<open>j_success\<close>, \<open>j_failure\<close> or an output; combining subtrees with \<open>and\<close> or \<open>or\<close> combines what
  their blocks return, and the vector \<open>tree\<close> gives the starts of the blocks.
\<close>

section \<open>Auxiliary definitions\<close>

text \<open>The instructions from \<open>a\<close> to \<open>b\<close> jump forward within the block, or leave it through an output.\<close>

definition closed :: "nat \<Rightarrow> nat \<Rightarrow> insn list \<Rightarrow> bool" where
  "closed a b is \<longleftrightarrow> b \<le> length is \<and> (\<forall>i k. a \<le> i \<longrightarrow> i < b \<longrightarrow> jump_ok b i (in_j k (is ! i)))"

fun blocks :: "nat list \<Rightarrow> insn list \<Rightarrow> bool" where
  "blocks [] is \<longleftrightarrow> True"
| "blocks [s] is \<longleftrightarrow> s < length is \<and> closed s (length is) is"
| "blocks (s # t # ts) is \<longleftrightarrow> s < t \<and> closed s t is \<and> blocks (t # ts) is"

text \<open>What a jump becomes when a subtree is redirected, and the results of the combinations.\<close>

definition exit_to :: "int \<Rightarrow> int \<Rightarrow> int \<Rightarrow> int" where
  "exit_to success failure j = (if j = j_success then success else if j = j_failure then failure else j)"

fun and_value :: "int \<Rightarrow> int \<Rightarrow> int list \<Rightarrow> int" where
  "and_value success failure [] = success"
| "and_value success failure (v # vs) =
     (if v = j_success then and_value success failure vs else exit_to success failure v)"

fun or_value :: "int \<Rightarrow> int \<Rightarrow> int list \<Rightarrow> int" where
  "or_value success failure [] = failure"
| "or_value success failure (v # vs) =
     (if v = j_failure then or_value success failure vs else exit_to success failure v)"

definition combined_value :: "combiner \<Rightarrow> int \<Rightarrow> int \<Rightarrow> int list \<Rightarrow> int" where
  "combined_value c = (if c = C_and then and_value else or_value)"

text \<open>The starts of the subtrees of a level.\<close>

definition starts :: "int \<Rightarrow> nat \<Rightarrow> int list \<Rightarrow> nat list" where
  "starts level off marks = map (\<lambda>k. off + k) (filter (\<lambda>k. marks ! k = level) [0..<length marks])"

text \<open>A program under construction at \<open>level\<close>: behind \<open>marks\<close>, which belong to the levels below and to the instructions \<open>pre\<close>, lie
  subtrees that return the values \<open>vs\<close>.\<close>

definition sub_state :: "(insn \<Rightarrow> bool) \<Rightarrow> int \<Rightarrow> int list \<Rightarrow> insn list \<Rightarrow> int list \<Rightarrow> build \<Rightarrow> bool" where
  "sub_state t level marks pre vs = (\<lambda>(tree, p). \<exists>bs.
     tree = level # marks @ bs \<and> (\<forall>x\<in>set bs. x = level \<or> x < 0) \<and> (bs \<noteq> [] \<longrightarrow> bs ! 0 = level) \<and>
     length marks = length pre \<and> length (pg_insn p) = length marks + length bs \<and> take (length marks) (pg_insn p) = pre \<and>
     blocks (starts level (length marks) bs) (pg_insn p) \<and>
     map (cl_run t (pg_insn p)) (starts level (length marks) bs) = map Some vs)"

text \<open>An instruction as it is added, and the bytes of a clause on the words of a packet.\<close>

definition leaf :: "insn \<Rightarrow> bool" where
  "leaf x \<longleftrightarrow> in_no x = j_failure \<and> in_yes x = j_success \<and> \<not> in_short_output x"

definition bytes_at :: "bytes \<Rightarrow> nat \<Rightarrow> nat \<Rightarrow> (byte \<times> byte) list \<Rightarrow> bool" where
  "bytes_at d align off bs \<longleftrightarrow>
     (\<forall>k<length bs. snd (bs ! k) \<noteq> 0 \<longrightarrow>
        off + k < length d + align \<and> cl_byte d align (off + k) AND snd (bs ! k) = fst (bs ! k))"

text \<open>The meaning of patterns: the bytes of a clause are compared where the mask is not 0, and the packet goes to the first pattern all of
  whose clauses match.\<close>

definition bytes_match :: "bytes \<Rightarrow> nat \<Rightarrow> (byte \<times> byte) list \<Rightarrow> bool" where
  "bytes_match d off bs \<longleftrightarrow>
     (\<forall>k<length bs. snd (bs ! k) \<noteq> 0 \<longrightarrow> off + k < length d \<and> d ! (off + k) AND snd (bs ! k) = fst (bs ! k))"

definition clause_matches :: "bytes \<Rightarrow> clause \<Rightarrow> bool" where
  "clause_matches d c \<longleftrightarrow> c_negated c \<noteq> bytes_match d (nat (c_offset c)) (c_bytes c)"

fun first_match :: "bytes \<Rightarrow> nat \<Rightarrow> clause list list \<Rightarrow> int" where
  "first_match d slot [] = j_never"
| "first_match d slot (cs # css) = (if \<forall>c\<in>set cs. clause_matches d c then - int slot else first_match d (slot + 1) css)"

definition clause_ok :: "nat \<Rightarrow> nat \<Rightarrow> clause \<Rightarrow> bool" where
  "clause_ok align n c \<longleftrightarrow>
     c_bytes c \<noteq> [] \<and> 0 \<le> c_offset c \<and> c_offset c + int align + int (length (c_bytes c)) \<le> int n \<and> n \<le> 65536 \<and>
     (\<forall>(v, m)\<in>set (c_bytes c). v AND m = v)"

definition tests_ok :: "nat \<Rightarrow> program \<Rightarrow> bool" where
  "tests_ok n p \<longleftrightarrow> (\<forall>x\<in>set (pg_insn p). in_normal (pg_align_offset p) x \<and> \<not> in_short_output x \<and> required_length x \<le> n)"

text \<open>The value of the subtree of a pattern.\<close>

fun slot_values :: "bytes \<Rightarrow> nat \<Rightarrow> clause list list \<Rightarrow> int list" where
  "slot_values d slot [] = []"
| "slot_values d slot (cs # css) =
     (if \<forall>c\<in>set cs. clause_matches d c then - int slot else j_failure) # slot_values d (slot + 1) css"

definition clause_parsed :: "clause \<Rightarrow> bool" where
  "clause_parsed c \<longleftrightarrow> c_bytes c \<noteq> [] \<and> 0 \<le> c_offset c \<and> list_all (\<lambda>(v, m). v AND m = v) (c_bytes c)"

section \<open>Blocks\<close>

lemma j_tokens [simp]: "j_success < 0" "j_failure < 0" "j_never < 0" "j_success \<noteq> j_failure" "j_failure \<noteq> j_success"
  "j_never \<noteq> j_failure" "j_never \<noteq> j_success" "j_failure \<noteq> j_never" "j_success \<noteq> j_never"
  by (simp_all add: j_success_def j_failure_def j_never_def)

lemma closedD: "closed a b is \<Longrightarrow> a \<le> i \<Longrightarrow> i < b \<Longrightarrow> jump_ok b i (in_j k (is ! i))"
  by (simp add: closed_def)

lemma closed_cong:
  assumes "closed a b is" and "b \<le> length is'" and "\<And>i. a \<le> i \<Longrightarrow> i < b \<Longrightarrow> is' ! i = is ! i"
  shows "closed a b is'"
  using assms by (simp add: closed_def)

lemma run_closed_cong:
  assumes "closed a b is" and "b \<le> length is'" and "\<And>i. a \<le> i \<Longrightarrow> i < b \<Longrightarrow> is' ! i = is ! i" and "a \<le> pos" and "pos < b"
  shows "cl_run t is' pos = cl_run t is pos"
  using assms(4,5)
proof (induction "b - pos" arbitrary: pos rule: less_induct)
  case less
  have "b \<le> length is" using assms(1) by (simp add: closed_def)
  moreover have "cl_run t is' (nat (in_j k (is ! pos))) = cl_run t is (nat (in_j k (is ! pos)))" if "in_j k (is ! pos) > 0" for k
    using less closedD [OF assms(1) less.prems, of k] that by (auto simp: jump_ok_def)
  ultimately show ?case
    using less.prems assms(2,3) by (auto simp: cl_run.simps [of t _ pos] Let_def)
qed

lemma in_j_redirect: "in_j k (redirect success failure x) = exit_to success failure (in_j k x)"
  by (simp add: in_j_def redirect_def exit_to_def Let_def)

lemma same_test_redirect [simp]: "same_test (redirect success failure x) x"
  by (simp add: same_test_def redirect_def Let_def)

lemma redirect_subtree_nth:
  assumes "first \<le> nxt" and "nxt \<le> length is"
  shows "length (redirect_subtree first nxt success failure is) = length is"
    and "i < length is \<Longrightarrow> redirect_subtree first nxt success failure is ! i =
      (if first \<le> i \<and> i < nxt then redirect success failure (is ! i) else is ! i)"
  using assms by (auto simp: redirect_subtree_def nth_append min_def)

context cl_decision
begin

lemma run_redirect:
  assumes c: "closed a b is" and "b \<le> length is'" and same: "\<And>i. a \<le> i \<Longrightarrow> i < b \<Longrightarrow> is' ! i = redirect S F (is ! i)"
    and ok: "S \<le> 0 \<or> int b \<le> S" "F \<le> 0 \<or> int b \<le> F" and "a \<le> pos" and "pos < b"
  shows "\<exists>j \<le> 0. cl_run decide is pos = Some j \<and> cl_run decide is' pos = cl_goto decide is' (exit_to S F j)"
  using assms(6,7)
proof (induction "b - pos" arbitrary: pos rule: less_induct)
  case less
  let ?t = "decide (is ! pos)"
  have len: "b \<le> length is" using c by (simp add: closed_def)
  have t: "decide (is' ! pos) = ?t" using same [OF less.prems] by (intro decide_same) simp
  let ?j = "in_j ?t (is ! pos)"
  have j': "in_j ?t (is' ! pos) = exit_to S F ?j" using same [OF less.prems] by (simp add: in_j_redirect)
  have jok: "jump_ok b pos ?j" by (rule closedD [OF c less.prems])
  show ?case
  proof (cases "?j > 0")
    case True
    then have "?j \<noteq> j_success" "?j \<noteq> j_failure" using j_tokens(1,2) by linarith+
    then have e: "exit_to S F ?j = ?j" by (simp add: exit_to_def)
    have "\<exists>j \<le> 0. cl_run decide is (nat ?j) = Some j \<and> cl_run decide is' (nat ?j) = cl_goto decide is' (exit_to S F j)"
      using less True jok by (auto simp: jump_ok_def)
    then show ?thesis
      using True jok less.prems len assms(2) by (auto simp: cl_run.simps [of decide _ pos] t j' e jump_ok_def Let_def)
  next
    case False
    have "exit_to S F ?j \<le> 0 \<or> int pos < exit_to S F ?j"
      using ok less.prems False by (auto simp: exit_to_def)
    then show ?thesis
      using False less.prems len assms(2) by (auto simp: cl_run.simps [of decide _ pos] t j' cl_goto_def Let_def)
  qed
qed

end

section \<open>Combining blocks\<close>

lemma blocks_head: "blocks (s # ss) is \<Longrightarrow> s < length is"
  by (induction ss arbitrary: s) (simp, metis blocks.simps(3) less_trans)

lemma blocks_cong:
  "blocks (s # ss) is \<Longrightarrow> length is \<le> length is' \<Longrightarrow> (\<And>i. s \<le> i \<Longrightarrow> i < length is \<Longrightarrow> is' ! i = is ! i) \<Longrightarrow> length is' = length is \<Longrightarrow>
    blocks (s # ss) is' \<and> map (cl_run t is') (s # ss) = map (cl_run t is) (s # ss)"
proof (induction ss arbitrary: s)
  case Nil
  then show ?case using run_closed_cong [of s "length is" "is" is' s t] closed_cong [of s "length is" "is" is'] by auto
next
  case (Cons u us)
  then have "s < u" "closed s u is" "blocks (u # us) is" by auto
  moreover have "u < length is" by (rule blocks_head) fact
  ultimately show ?case
    using Cons.IH [of u] Cons.prems run_closed_cong [of s u "is" is' s t] closed_cong [of s u "is" is'] by auto
qed

lemma combined_value_step:
  "c = C_and \<or> c = C_or \<Longrightarrow> combined_value c S F (v # vs) =
    (if v = (if c = C_and then j_success else j_failure) then combined_value c S F vs else exit_to S F v)"
  by (auto simp: combined_value_def)

lemma exit_to_le: "S \<le> 0 \<Longrightarrow> F \<le> 0 \<Longrightarrow> j \<le> 0 \<Longrightarrow> exit_to S F j \<le> 0"
  by (simp add: exit_to_def)

lemma exit_to_pos: "j > 0 \<Longrightarrow> exit_to S F j = j"
  by (auto simp: exit_to_def j_success_def j_failure_def)

lemma closed_redirect:
  assumes "closed a b is" and "b \<le> n" and "n \<le> length is'" and "\<And>i. a \<le> i \<Longrightarrow> i < b \<Longrightarrow> is' ! i = redirect S F (is ! i)"
    and "S \<le> 0 \<or> (int b \<le> S \<and> S < int n)" and "F \<le> 0 \<or> (int b \<le> F \<and> F < int n)" and "a \<le> i" and "i < b"
  shows "jump_ok n i (in_j k (is' ! i))"
proof (cases "in_j k (is ! i) > 0")
  case True
  then show ?thesis using closedD [OF assms(1,7,8), of k] assms(2,4,7,8) by (auto simp: in_j_redirect exit_to_pos jump_ok_def)
next
  case False
  then show ?thesis using assms(4-8) by (auto simp: in_j_redirect exit_to_def jump_ok_def)
qed

context cl_decision
begin

lemma combine_subtrees_result:
  assumes "blocks ss is" and "ss \<noteq> []" and SF: "S \<le> 0" "F \<le> 0" and c: "c = C_and \<or> c = C_or"
    and "map (cl_run decide is) ss = map Some vs" and "is' = combine_subtrees c S F ss is"
  shows "length is' = length is \<and> (\<forall>i<hd ss. is' ! i = is ! i) \<and> (\<forall>i<length is. same_test (is' ! i) (is ! i)) \<and>
    closed (hd ss) (length is) is' \<and> cl_run decide is' (hd ss) = Some (combined_value c S F vs)"
  using assms(1,2,6,7)
proof (induction ss arbitrary: "is" is' vs)
  case (Cons s ss)
  obtain v vs' where vs: "vs = v # vs'" "cl_run decide is s = Some v" "map (cl_run decide is) ss = map Some vs'"
    using Cons.prems(3) by (cases vs) auto
  have sn: "s < length is" by (rule blocks_head [OF Cons.prems(1)])
  show ?case
  proof (cases ss)
    case Nil
    then have cl: "closed s (length is) is" and is': "is' = redirect_subtree s (length is) S F is" and vs0: "vs' = []"
      using Cons.prems vs by auto
    have nth: "length is' = length is" "\<And>i. i < length is \<Longrightarrow> is' ! i = (if s \<le> i then redirect S F (is ! i) else is ! i)"
      using redirect_subtree_nth [of s "length is" "is"] sn by (auto simp: is')
    have at: "is' ! i = redirect S F (is ! i)" if "s \<le> i" "i < length is" for i using nth(2) that by simp
    have run: "cl_run decide is' s = Some (exit_to S F v)"
      using run_redirect [OF cl, of is' S F s] at SF sn nth(1) vs(2) exit_to_le [OF SF, of v] by (auto simp: cl_goto_def)
    have "closed s (length is) is'"
      using closed_redirect [OF cl order_refl, of is' S F] at SF nth(1) sn by (auto simp: closed_def)
    then show ?thesis using run nth sn c vs(1) vs0 SF
      by (auto simp: Nil combined_value_step [OF c] combined_value_def exit_to_def)
  next
    case (Cons u us)
    define S1 F1 where "S1 = (if c = C_and then int u else S)" and "F1 = (if c = C_and then F else int u)"
    have b: "s < u" "closed s u is" "blocks (u # us) is" using Cons.prems(1) Cons by auto
    have un: "u < length is" by (rule blocks_head [OF b(3)])
    define is1 where "is1 = redirect_subtree s u S1 F1 is"
    have nth: "length is1 = length is" "\<And>i. i < length is \<Longrightarrow> is1 ! i = (if s \<le> i \<and> i < u then redirect S1 F1 (is ! i) else is ! i)"
      using redirect_subtree_nth [of s u "is"] b(1) un by (auto simp: is1_def)
    have is': "is' = combine_subtrees c S F (u # us) is1"
      using Cons.prems(4) Cons c by (auto simp: is1_def S1_def F1_def)
    have b1: "blocks (u # us) is1 \<and> map (cl_run decide is1) (u # us) = map (cl_run decide is) (u # us)"
      by (rule blocks_cong [OF b(3)]) (use nth in auto)
    have m1: "map (cl_run decide is1) ss = map Some vs'" using b1 vs(3) unfolding Cons by argo
    have IH: "length is' = length is1 \<and> (\<forall>i<u. is' ! i = is1 ! i) \<and> (\<forall>i<length is1. same_test (is' ! i) (is1 ! i)) \<and>
      closed u (length is1) is' \<and> cl_run decide is' u = Some (combined_value c S F vs')"
      using Cons.IH [OF _ _ m1 is' [folded Cons]] b1 unfolding Cons by simp
    have at: "is' ! i = redirect S1 F1 (is ! i)" if "s \<le> i" "i < u" for i using IH nth(2) [of i] that un by simp
    have SF1: "S1 \<le> 0 \<or> (int u \<le> S1 \<and> S1 < int (length is))" "F1 \<le> 0 \<or> (int u \<le> F1 \<and> F1 < int (length is))"
      using SF un by (auto simp: S1_def F1_def)
    then have SF1': "S1 \<le> 0 \<or> int u \<le> S1" "F1 \<le> 0 \<or> int u \<le> F1" by auto
    have ul: "u \<le> length is'" using IH nth(1) un by simp
    obtain j where j: "j \<le> 0" "cl_run decide is s = Some j" "cl_run decide is' s = cl_goto decide is' (exit_to S1 F1 j)"
      using run_redirect [OF b(2) ul at SF1' order_refl b(1)] by blast
    have "cl_run decide is' s = Some (combined_value c S F vs)"
      using j vs(2) IH SF c b(1) un by (auto simp: vs(1) combined_value_step [OF c] exit_to_def S1_def F1_def cl_goto_def)
    moreover have "closed s (length is) is'"
    proof -
      have "jump_ok (length is) i (in_j k (is' ! i))" if "s \<le> i" "i < length is" for i k
      proof (cases "i < u")
        case True
        then show ?thesis using closed_redirect [OF b(2) _ _ at SF1, of i k] IH nth(1) un that by simp
      next
        case False
        then show ?thesis using IH nth(1) that by (auto simp: closed_def)
      qed
      then show ?thesis using IH nth(1) by (simp add: closed_def)
    qed
    moreover have "same_test (is' ! i) (is ! i)" if "i < length is" for i
      using IH nth that by (auto simp: same_test_def redirect_def Let_def split: if_splits)
    ultimately show ?thesis using IH nth b(1) un by (auto simp: Cons)
  qed
qed simp

end

section \<open>The tree of blocks\<close>

lemma marks_nth:
  "i < length as \<Longrightarrow> (L # as @ bs) ! Suc i = as ! i"
  "(L # as @ bs) ! Suc (length as + k) = bs ! k"
  by (simp_all add: nth_append)

lemma upt_shift: "[a..<a + m] = map (\<lambda>k. a + k) [0..<m]"
  by (induction m) simp_all

lemma parent_subtree_before:
  assumes "\<forall>x\<in>set as. x < L" and "\<forall>x\<in>set bs. x = L \<or> x < 0" and "m \<le> length bs"
  shows "parent_subtree (L # as @ bs) L (length as + m) \<le> length as"
  using assms(3)
proof (induction m)
  case 0
  have "parent_subtree tree level n \<le> n" for tree level n by (induction n) (simp_all add: le_SucI)
  then show ?case by simp
next
  case (Suc m)
  then have "bs ! m \<in> set bs" by simp
  then have "bs ! m = L \<or> bs ! m < 0" using assms(2) by blast
  then show ?case using Suc by (auto simp: marks_nth)
qed

lemma child_subtrees_starts:
  assumes "\<forall>x\<in>set as. x < L" and "\<forall>x\<in>set bs. x = L \<or> x < 0"
  shows "child_subtrees (L # as @ bs) L (length as + length bs) = starts L (length as) bs"
proof -
  let ?p = "parent_subtree (L # as @ bs) L (length as + length bs)" and ?t = "L # as @ bs"
  have p: "?p \<le> length as" by (rule parent_subtree_before [OF assms order_refl])
  have "[?p + 1..<length as + length bs + 1] = [?p + 1..<length as + 1] @ [length as + 1..<length as + length bs + 1]"
    using p upt_add_eq_append [of "?p + 1" "length as + 1" "length bs"] by (simp add: ac_simps)
  moreover have "filter (\<lambda>i. ?t ! i = L) [?p + 1..<length as + 1] = []"
  proof -
    have "?t ! i \<noteq> L" if "?p + 1 \<le> i" "i < length as + 1" for i
    proof -
      obtain k where "i = Suc k" "k < length as" using \<open>?p + 1 \<le> i\<close> \<open>i < length as + 1\<close> by (cases i) auto
      then have "?t ! i = as ! k" "as ! k < L" using assms(1) by (simp_all add: nth_append)
      then show ?thesis by simp
    qed
    then show ?thesis unfolding filter_empty_conv set_upt by (metis atLeastLessThan_iff)
  qed
  moreover have "[length as + 1..<length as + length bs + 1] = map (\<lambda>k. Suc (length as + k)) [0..<length bs]"
    using upt_shift [of "length as + 1" "length bs"] by (simp add: ac_simps)
  ultimately show ?thesis
    by (simp add: child_subtrees_def starts_def filter_map comp_def marks_nth)
qed

lemma starts_append: "starts L off (xs @ ys) = starts L off xs @ starts L (off + length xs) ys"
proof -
  have "[0..<length xs + length ys] = [0..<length xs] @ map (\<lambda>k. length xs + k) [0..<length ys]"
    using upt_add_eq_append [of 0 "length xs" "length ys"] upt_shift [of "length xs" "length ys"] by simp
  moreover have "filter (\<lambda>k. (xs @ ys) ! k = L) [0..<length xs] = filter (\<lambda>k. xs ! k = L) [0..<length xs]"
    by (rule filter_cong) (simp_all add: nth_append)
  ultimately show ?thesis
    by (simp add: starts_def filter_map comp_def add.assoc)
qed

lemma starts_block: "starts L off (L # replicate m (- 1)) = [off]" if "L \<ge> 0"
proof -
  have "[0..<Suc m] = 0 # map Suc [0..<m]" by (simp add: map_Suc_upt upt_conv_Cons del: upt_Suc)
  then show ?thesis using that by (simp add: starts_def filter_map comp_def)
qed

lemma starts_replicate: "starts L off (replicate m L) = [off..<off + m]"
  using upt_shift [of off m] by (simp add: starts_def filter_True cong: filter_cong)

lemma starts_Nil [simp]: "starts L off [] = []"
  by (simp add: starts_def)

lemma starts_first: "bs \<noteq> [] \<Longrightarrow> bs ! 0 = L \<Longrightarrow> \<exists>ss. starts L off bs = off # ss"
  by (cases bs) (auto simp: starts_def upt_conv_Cons simp del: upt_Suc)

lemma finish_subtree_shape:
  assumes "\<forall>x\<in>set as. x < L" and "\<forall>x\<in>set bs. x = L \<or> x < 0" and "length (pg_insn p) = length as + length bs"
    and "bs \<noteq> []" and "bs ! 0 = L"
  shows "finish_subtree c S F (L # as @ bs, p) =
    ((L - 1) # as @ (L - 1) # replicate (length bs - 1) (- 1),
     p\<lparr> pg_insn := combine_subtrees c S F (starts L (length as) bs) (pg_insn p) \<rparr>)"
proof -
  obtain ss where ss: "starts L (length as) bs = length as # ss" using starts_first [OF assms(4,5)] by blast
  have "length as + length bs - (length as + 1) = length bs - 1" by simp
  then show ?thesis
    using child_subtrees_starts [OF assms(1,2)] by (simp add: finish_subtree_def Let_def assms(3) ss)
qed

section \<open>Programs under construction\<close>

lemma blocks_lastD: "blocks (ss @ [s]) is \<Longrightarrow> s < length is \<and> closed s (length is) is \<and> (\<forall>u\<in>set ss. u < s)"
proof (induction ss)
  case (Cons u us)
  then show ?case by (cases us) auto
qed simp

text \<open>A closed block behind the others becomes the last one.\<close>

lemma blocks_append:
  assumes "blocks ss is" and "length is < length is'" and "closed (length is) (length is') is'"
    and same: "\<And>i. i < length is \<Longrightarrow> is' ! i = is ! i"
  shows "blocks (ss @ [length is]) is' \<and> map (cl_run t is') ss = map (cl_run t is) ss"
  using assms(1)
proof (induction ss)
  case (Cons u us)
  show ?case
  proof (cases us)
    case Nil
    then have "u < length is" "closed u (length is) is" using Cons.prems by auto
    then show ?thesis
      using assms(2,3) same closed_cong [of u "length is" "is" is'] run_closed_cong [of u "length is" "is" is' u t] by (simp add: Nil)
  next
    case us: (Cons w ws)
    then have b: "u < w" "closed u w is" "blocks us is" using Cons.prems by auto
    then have "w < length is" using blocks_head us by blast
    then show ?thesis
      using b Cons.IH assms(2) same closed_cong [of u w "is" is'] run_closed_cong [of u w "is" is' u t] by (simp add: us)
  qed
qed (use assms in simp)

lemma blocks_butlast:
  assumes "blocks (ss @ [s]) is"
  shows "blocks ss (take s is) \<and> map (cl_run t (take s is)) ss = map (cl_run t is) ss"
  using assms
proof (induction ss)
  case (Cons u us)
  have s: "s < length is" using blocks_lastD [OF Cons.prems] by simp
  show ?case
  proof (cases us)
    case Nil
    then have b: "u < s" "closed u s is" using Cons.prems by auto
    then show ?thesis
      using s closed_cong [of u s "is" "take s is"] run_closed_cong [of u s "is" "take s is" u t] by (simp add: Nil min_absorb2)
  next
    case us: (Cons w ws)
    then have b: "u < w" "closed u w is" "blocks (us @ [s]) is" using Cons.prems by auto
    then have "w \<le> s" using blocks_lastD [OF b(3)] us by auto
    then show ?thesis
      using b Cons.IH s closed_cong [of u w "is" "take s is"] run_closed_cong [of u w "is" "take s is" u t] by (simp add: us)
  qed
qed simp

lemma blocks_replace_last:
  assumes "blocks (ss @ [s]) is" and "s < length is'" and "closed s (length is') is'" and "\<And>i. i < s \<Longrightarrow> is' ! i = is ! i"
  shows "blocks (ss @ [s]) is' \<and> map (cl_run t is') ss = map (cl_run t is) ss"
proof -
  have s: "s < length is" using blocks_lastD [OF assms(1)] by simp
  then have "length (take s is) = s" by simp
  then show ?thesis
    using blocks_butlast [OF assms(1), of t] blocks_append [of ss "take s is" is' t] assms(2-4) by simp
qed

lemma sub_start:
  assumes "sub_state t (level - 1) marks pre vs (tree, p)"
  shows "sub_state t level (tl tree) (pg_insn p) [] (start_subtree tree, p)"
  using assms by (auto simp: sub_state_def start_subtree_def)

lemma finish_subtree_program: "snd (finish_subtree c S F (tree, p)) = p\<lparr> pg_insn := pg_insn (snd (finish_subtree c S F (tree, p))) \<rparr>"
  by (simp add: finish_subtree_def Let_def)

context cl_decision
begin

lemma sub_finish:
  assumes low: "sub_state decide (L - 1) marks pre ws (tree0, p0)" and high: "sub_state decide L (tl tree0) (pg_insn p0) vs (tree, p)"
    and vs: "vs \<noteq> []" and less: "\<forall>x\<in>set (tl tree0). x < L" and L: "L \<ge> 1" and SF: "S \<le> 0" "F \<le> 0" and c: "c = C_and \<or> c = C_or"
  shows "sub_state decide (L - 1) marks pre (ws @ [combined_value c S F vs]) (finish_subtree c S F (tree, p))"
proof -
  obtain bs0 where t0: "tree0 = (L - 1) # marks @ bs0" and bs0: "\<forall>x\<in>set bs0. x = L - 1 \<or> x < 0" "bs0 \<noteq> [] \<longrightarrow> bs0 ! 0 = L - 1"
    and l0: "length marks = length pre" "length (pg_insn p0) = length marks + length bs0" "take (length marks) (pg_insn p0) = pre"
    and b0: "blocks (starts (L - 1) (length marks) bs0) (pg_insn p0)"
      "map (cl_run decide (pg_insn p0)) (starts (L - 1) (length marks) bs0) = map Some ws"
    using low by (auto simp: sub_state_def)
  obtain bs where t: "tree = L # (marks @ bs0) @ bs" and bs: "\<forall>x\<in>set bs. x = L \<or> x < 0" "bs \<noteq> [] \<longrightarrow> bs ! 0 = L"
    and l: "length (pg_insn p) = length marks + length bs0 + length bs" "take (length marks + length bs0) (pg_insn p) = pg_insn p0"
    and b: "blocks (starts L (length marks + length bs0) bs) (pg_insn p)"
      "map (cl_run decide (pg_insn p)) (starts L (length marks + length bs0) bs) = map Some vs"
    using high unfolding sub_state_def t0 by auto
  let ?n = "length marks + length bs0"
  have ne: "bs \<noteq> []" using b(2) vs by auto
  then obtain ss where ss: "starts L ?n bs = ?n # ss" using starts_first [of bs L] bs(2) by blast
  define is' where "is' = combine_subtrees c S F (starts L ?n bs) (pg_insn p)"
  have fin: "finish_subtree c S F (tree, p) =
    ((L - 1) # (marks @ bs0) @ (L - 1) # replicate (length bs - 1) (- 1), p\<lparr> pg_insn := is' \<rparr>)"
    using finish_subtree_shape [of "marks @ bs0" L bs p c S F] less bs l ne by (auto simp: t t0 is'_def)
  have r: "length is' = length (pg_insn p)" "\<forall>i<?n. is' ! i = pg_insn p ! i" "closed ?n (length (pg_insn p)) is'"
    "cl_run decide is' ?n = Some (combined_value c S F vs)"
    using combine_subtrees_result [OF b(1) _ SF c b(2) is'_def] by (auto simp: ss)
  have n: "length (pg_insn p0) = ?n" "?n < length is'" using l0 l r ne by auto
  have same: "is' ! i = pg_insn p0 ! i" if "i < ?n" for i using r(2) l(2) that by (metis nth_take)
  have cl: "closed ?n (length is') is'" using r(1,3) by simp
  have ap: "blocks (starts (L - 1) (length marks) bs0 @ [?n]) is' \<and>
    map (cl_run decide is') (starts (L - 1) (length marks) bs0) = map (cl_run decide (pg_insn p0)) (starts (L - 1) (length marks) bs0)"
    using blocks_append [OF b0(1), of is' decide, unfolded n(1), OF n(2) cl] same by blast
  have runs: "map (cl_run decide is') (starts (L - 1) (length marks) bs0) = map Some ws" using ap b0(2) by argo
  have tk: "take (length marks) is' = pre"
  proof (rule nth_equalityI)
    fix i assume "i < length (take (length marks) is')"
    then have "i < length marks" by simp
    moreover have "pg_insn p0 ! i = pre ! i" using calculation l0(3) by (metis nth_take)
    ultimately show "take (length marks) is' ! i = pre ! i" using same [of i] by simp
  qed (use n l0 in simp)
  have "starts (L - 1) (length marks) (bs0 @ (L - 1) # replicate (length bs - 1) (- 1)) = starts (L - 1) (length marks) bs0 @ [?n]"
    using L by (simp add: starts_append starts_block)
  then show ?thesis
    unfolding fin sub_state_def using ap runs r bs0 l0 l ne tk
    by (auto intro!: exI [of _ "bs0 @ (L - 1) # replicate (length bs - 1) (- 1)"] simp: nth_append)
qed

end

section \<open>Negation\<close>

lemma last_subtree_cong: "(\<And>i. 0 < i \<Longrightarrow> i \<le> n \<Longrightarrow> tree ! i = tree' ! i) \<Longrightarrow> last_subtree tree L n = last_subtree tree' L n"
  by (induction n) auto

lemma starts_single: "starts L off [x] = (if x = L then [off] else [])"
  by (simp add: starts_def)

lemma last_subtree_starts:
  "starts L (length as) bs = ss @ [s] \<Longrightarrow> last_subtree (L # as @ bs) L (length as + length bs) = Some s"
proof (induction bs arbitrary: ss s rule: rev_induct)
  case (snoc x bs)
  have at: "(L # as @ bs @ [x]) ! Suc (length as + length bs) = x" by (simp add: nth_append)
  show ?case
  proof (cases "x = L")
    case True
    then have "starts L (length as) (bs @ [x]) = starts L (length as) bs @ [length as + length bs]"
      by (simp add: starts_append starts_single)
    then show ?thesis using snoc.prems at True by simp
  next
    case False
    then have "starts L (length as) (bs @ [x]) = starts L (length as) bs" by (simp add: starts_append starts_single)
    moreover have "last_subtree (L # as @ bs @ [x]) L (length as + length bs) = last_subtree (L # as @ bs) L (length as + length bs)"
      by (rule last_subtree_cong) (auto simp: nth_append nth_Cons split: nat.splits)
    moreover have "last_subtree (L # as @ bs) L (length as + length bs) = Some s"
      by (rule snoc.IH [of ss]) (use snoc.prems calculation(1) in simp)
    ultimately show ?thesis using at False by simp
  qed
qed simp

lemma in_negate_redirect: "in_negate False x = redirect j_failure j_success x"
  by (simp add: in_negate_def)

context cl_decision
begin

lemma sub_negate:
  assumes "sub_state decide L marks pre (vs @ [v]) (tree, p)"
  shows "sub_state decide L marks pre (vs @ [exit_to j_failure j_success v]) (negate_subtree False (tree, p))"
proof -
  obtain bs where t: "tree = L # marks @ bs" and bs: "\<forall>x\<in>set bs. x = L \<or> x < 0" "bs \<noteq> [] \<longrightarrow> bs ! 0 = L"
    and l: "length marks = length pre" "length (pg_insn p) = length marks + length bs" "take (length marks) (pg_insn p) = pre"
    and b: "blocks (starts L (length marks) bs) (pg_insn p)"
      "map (cl_run decide (pg_insn p)) (starts L (length marks) bs) = map Some (vs @ [v])"
    using assms by (auto simp: sub_state_def)
  let ?is = "pg_insn p" and ?n = "length (pg_insn p)"
  obtain ss s where ss: "starts L (length marks) bs = ss @ [s]" using b(2) by (cases "starts L (length marks) bs" rule: rev_cases) auto
  then have runs: "map (cl_run decide ?is) ss = map Some vs" "cl_run decide ?is s = Some v" using b(2) by auto
  have "s \<in> set (starts L (length marks) bs)" by (simp add: ss)
  then have ms: "length marks \<le> s" by (auto simp: starts_def)
  have last: "s < ?n" "closed s ?n ?is" using blocks_lastD b(1) ss by auto
  define is' where "is' = take s ?is @ map (in_negate False) (drop s ?is)"
  have neg: "negate_subtree False (tree, p) = (tree, p\<lparr> pg_insn := is' \<rparr>)"
    using last_subtree_starts [OF ss] by (simp add: negate_subtree_def t l(2) is'_def)
  have len: "length is' = ?n" using last(1) by (simp add: is'_def)
  have at: "is' ! i = redirect j_failure j_success (?is ! i)" if "s \<le> i" "i < ?n" for i
    using that last(1) by (simp add: is'_def nth_append in_negate_redirect)
  have before: "is' ! i = ?is ! i" if "i < s" for i using that last(1) by (simp add: is'_def nth_append)
  have le: "j_failure \<le> 0" "j_success \<le> 0" by (simp_all add: less_imp_le)
  obtain j where "j \<le> 0" "cl_run decide ?is s = Some j" "cl_run decide is' s = cl_goto decide is' (exit_to j_failure j_success j)"
    using run_redirect [OF last(2), of is' j_failure j_success s] at len last(1) le by auto
  then have run: "cl_run decide is' s = Some (exit_to j_failure j_success v)"
    using runs(2) exit_to_le [OF le, of j] by (simp add: cl_goto_def)
  have cl: "closed s (length is') is'"
    using closed_redirect [OF last(2) order_refl, of is' j_failure j_success] at le len by (simp add: closed_def)
  have bl: "blocks (ss @ [s]) is' \<and> map (cl_run decide is') ss = map (cl_run decide ?is) ss"
    by (rule blocks_replace_last) (use b(1) ss last(1) len cl before in auto)
  then have runs': "map (cl_run decide is') ss = map Some vs" using runs(1) by argo
  have "take (length marks) is' = pre"
    using ms l(3) last(1) by (simp add: is'_def min_def)
  then show ?thesis
    unfolding neg sub_state_def using t bs l bl run runs' len ss by auto
qed

end

section \<open>Bytes\<close>

lemma uchar_eqI: "(\<And>k. k < 4 \<Longrightarrow> uchar a k = uchar b k) \<Longrightarrow> a = b"
proof -
  assume "\<And>k. k < 4 \<Longrightarrow> uchar a k = uchar b k"
  then have "a AND (- 1) = b AND (- 1)" by (intro and_uchar_cong)
  then show ?thesis by simp
qed

lemma bit_ff: "bit (255 :: int) n \<longleftrightarrow> n < 8"
proof -
  have "(255 :: int) = mask 8" by (simp add: mask_eq_exp_minus_1)
  then have "bit (255 :: int) n = bit (mask 8 :: int) n" by (rule arg_cong)
  also have "\<dots> \<longleftrightarrow> n < 8" by (simp only: bit_mask_iff) (auto simp: possible_bit_def)
  finally show ?thesis .
qed

lemma uchar_set_uchar: "j < 4 \<Longrightarrow> k < 4 \<Longrightarrow> uchar (set_uchar k b w) j = (if j = k then b else uchar w j)"
proof (rule bit_word_eqI)
  fix r assume jk: "j < 4" "k < 4" and "r < LENGTH(8)"
  then have r: "r < 8" by simp
  have "8 * j + r < 32" using jk r by simp
  moreover have "8 * k \<le> 8 * j + r \<and> 8 * j + r - 8 * k < 8 \<longleftrightarrow> j = k" using r by auto
  ultimately show "bit (uchar (set_uchar k b w) j) r = bit (if j = k then b else uchar w j) r"
    using r by (auto simp: bit_uchar set_uchar_def bit_or_iff bit_and_iff bit_not_iff bit_push_bit_iff bit_ff bit_ucast_iff
        dest: bit_imp_le_length)
qed

text \<open>The test of an instruction that sends short packets away, byte by byte.\<close>

lemma byte_test_bytes:
  assumes "in_value x AND in_mask x = in_value x" and "\<not> in_short_output x"
  shows "byte_test d align x \<longleftrightarrow>
    (\<forall>k<4. uchar (in_mask x) k \<noteq> 0 \<longrightarrow>
       unat (in_offset x) + k < length d + align \<and>
       cl_byte d align (unat (in_offset x) + k) AND uchar (in_mask x) k = uchar (in_value x) k)"
proof (cases "required_length x \<le> length d + align")
  case True
  let ?w = "cl_word d align (unat (in_offset x))"
  have v: "uchar (in_value x) k AND uchar (in_mask x) k = uchar (in_value x) k" for k using assms(1) by (metis uchar_and)
  have "?w AND in_mask x = in_value x \<longleftrightarrow> (\<forall>k<4. uchar ?w k AND uchar (in_mask x) k = uchar (in_value x) k)"
    by (metis uchar_and uchar_eqI)
  also have "\<dots> \<longleftrightarrow> (\<forall>k<4. uchar (in_mask x) k \<noteq> 0 \<longrightarrow>
      cl_byte d align (unat (in_offset x) + k) AND uchar (in_mask x) k = uchar (in_value x) k)"
    using v by (metis and_zero_eq uchar_cl_word)
  finally show ?thesis
    using True required_length_le_iff [of x "length d + align"] by (auto simp: byte_test_def)
next
  case False
  then have "in_mask x \<noteq> 0" by (auto simp: required_length_def)
  then show ?thesis
    using False required_length_le_iff [of x "length d + align"] assms(2) by (auto simp: byte_test_def)
qed

lemma set_byte_test:
  assumes x: "in_normal align x" "\<not> in_short_output x" and k: "k < 4" "uchar (in_mask x) k = 0" and v: "v AND m = v"
    and al: "align \<le> unat (in_offset x) + k"
    and x': "x' = x\<lparr> in_mask := set_uchar k m (in_mask x), in_value := set_uchar k v (in_value x) \<rparr>"
  shows "in_normal align x'"
    and "byte_test d align x' \<longleftrightarrow>
      byte_test d align x \<and>
      (m \<noteq> 0 \<longrightarrow> unat (in_offset x) + k < length d + align \<and> cl_byte d align (unat (in_offset x) + k) AND m = v)"
proof -
  have vx: "uchar (in_value x) j AND uchar (in_mask x) j = uchar (in_value x) j" for j using x(1) by (metis in_normal_def uchar_and)
  have u: "uchar (in_mask x') j = (if j = k then m else uchar (in_mask x) j)" "uchar (in_value x') j = (if j = k then v else uchar (in_value x) j)"
    if "j < 4" for j using that k(1) by (simp_all add: x' uchar_set_uchar)
  have val: "in_value x' AND in_mask x' = in_value x'" by (rule uchar_eqI) (simp add: uchar_and u vx v)
  show "in_normal align x'" unfolding in_normal_def using val x(1) al u by (auto simp: in_normal_def x' uchar_set_uchar k(1))
  have "\<not> in_short_output x'" and off: "in_offset x' = in_offset x" using x(2) by (simp_all add: x')
  then show "byte_test d align x' \<longleftrightarrow>
      byte_test d align x \<and>
      (m \<noteq> 0 \<longrightarrow> unat (in_offset x) + k < length d + align \<and> cl_byte d align (unat (in_offset x) + k) AND m = v)"
    using byte_test_bytes [OF val] byte_test_bytes [of x] x u k by (auto simp: in_normal_def)
qed

section \<open>Clauses\<close>

lemma bytes_at_Cons:
  "bytes_at d align off ((v, m) # bs) \<longleftrightarrow>
    (m \<noteq> 0 \<longrightarrow> off < length d + align \<and> cl_byte d align off AND m = v) \<and> bytes_at d align (off + 1) bs"
  unfolding bytes_at_def by (auto simp: less_Suc_eq_0_disj)

lemma bytes_at_match: "bytes_at d align (off + align) bs \<longleftrightarrow> bytes_match d off bs"
  unfolding bytes_at_def bytes_match_def by (auto simp: cl_byte_def)

lemma set_back_last:
  "W \<noteq> [] \<Longrightarrow> pg_insn p = is0 @ W \<Longrightarrow> set_back k v m (tree, p) =
    (tree, p\<lparr> pg_insn := is0 @ butlast W @
       [(last W)\<lparr> in_mask := set_uchar k m (in_mask (last W)), in_value := set_uchar k v (in_value (last W)) \<rparr>] \<rparr>)"
  by (simp add: set_back_def Let_def butlast_append)

lemma div4: "(off + 1) mod 4 \<noteq> 0 \<Longrightarrow> (off + 1) div 4 = off div 4 \<and> (off + 1) mod 4 = off mod 4 + 1" for off :: nat
  by presburger

lemma unat_offset: "off < 65536 \<Longrightarrow> unat (word_of_int (int off div 4 * 4) :: u16) = off div 4 * 4"
proof -
  assume "off < 65536"
  then have "off div 4 * 4 < 65536" by linarith
  then have "unat (of_nat (off div 4 * 4) :: u16) = off div 4 * 4" by (intro unat_word_of_nat) simp
  moreover have "word_of_int (int off div 4 * 4) = (of_nat (off div 4 * 4) :: u16)"
    by (metis of_int_of_nat_eq of_nat_mult of_nat_numeral zdiv_int)
  ultimately show ?thesis by argo
qed

lemma add_bytes_result:
  assumes "off + length bs \<le> 65536" and "align \<le> off" and "\<forall>(v, m)\<in>set bs. v AND m = v" and "T \<noteq> []"
    and "pg_insn p = is0 @ W" and "\<forall>w\<in>set W. leaf w \<and> in_normal align w"
    and "\<not> first \<Longrightarrow> off mod 4 \<noteq> 0 \<Longrightarrow> W \<noteq> [] \<and> unat (in_offset (last W)) = off div 4 * 4 \<and>
      (\<forall>k<4. off mod 4 \<le> k \<longrightarrow> uchar (in_mask (last W)) k = 0)"
  shows "\<exists>W' oe. add_bytes first (int off) bs (T @ replicate (length W) (T ! 0), p) =
      (T @ replicate (length W') (T ! 0), p\<lparr> pg_insn := is0 @ W', pg_output_everything := oe \<rparr>) \<and>
    (bs = [] \<longrightarrow> W' = W) \<and> (bs \<noteq> [] \<longrightarrow> W' \<noteq> []) \<and> (\<forall>w\<in>set W'. leaf w \<and> in_normal align w) \<and>
    (\<forall>d. (\<forall>w\<in>set W'. byte_test d align w) \<longleftrightarrow> (\<forall>w\<in>set W. byte_test d align w) \<and> bytes_at d align off bs)"
  using assms(1-3,5-7)
proof (induction bs arbitrary: first off W p)
  case Nil
  have "p = p\<lparr> pg_insn := is0 @ W, pg_output_everything := pg_output_everything p \<rparr>" using Nil.prems(4) by simp
  then show ?case using Nil.prems(5) by (intro exI [of _ W] exI [of _ "pg_output_everything p"]) (simp add: bytes_at_def)
next
  case (Cons b bs)
  obtain v m where b: "b = (v, m)" by (cases b)
  let ?tree = "T @ replicate (length W) (T ! 0)" and ?k = "off mod 4" and ?o = "off div 4 * 4"
  have off: "off < 65536" and vm: "v AND m = v" using Cons.prems(1,3) b by auto
  define new where "new \<longleftrightarrow> first \<or> off mod 4 = 0"
  define W1 where "W1 = (if new then W @ [Insn (int off div 4 * 4) 0 0] else W)"
  define p1 where "p1 = (if new then p\<lparr> pg_insn := is0 @ W1, pg_output_everything := - 1 \<rparr> else p)"
  define x where "x = last W1"
  define x' where "x' = x\<lparr> in_mask := set_uchar ?k m (in_mask x), in_value := set_uchar ?k v (in_value x) \<rparr>"
  define W2 where "W2 = butlast W1 @ [x']"
  have leaf0: "leaf (Insn (int off div 4 * 4) 0 0)" "in_normal align (Insn (int off div 4 * 4) 0 0)"
    "byte_test d align (Insn (int off div 4 * 4) 0 0)" for d
    by (simp_all add: leaf_def Insn_def in_normal_def byte_test_def)
  have W1: "W1 \<noteq> []" "\<forall>w\<in>set W1. leaf w \<and> in_normal align w" "unat (in_offset x) = ?o" "\<forall>k<4. ?k \<le> k \<longrightarrow> uchar (in_mask x) k = 0"
    using Cons.prems(5,6) leaf0(1,2) unat_offset [OF off] by (auto simp: W1_def x_def new_def Insn_def)
  have xin: "x \<in> set W1" using W1(1) by (simp add: x_def)
  have t1: "(\<forall>w\<in>set W1. byte_test d align w) \<longleftrightarrow> (\<forall>w\<in>set W. byte_test d align w)" for d
    using leaf0(3) by (auto simp: W1_def)
  have setW1: "set W1 = insert x (set (butlast W1))" using W1(1) by (metis append_butlast_last_id list.simps(15) set_append sup_bot.right_neutral Un_insert_right list.set(1) x_def)
  have xo: "unat (in_offset x) + ?k = off" using W1(3) by presburger
  have n: "in_normal align x" "\<not> in_short_output x" "uchar (in_mask x) ?k = 0" using W1 xin by (auto simp: leaf_def)
  note sb = set_byte_test [OF n(1,2) _ n(3) vm _ x'_def]
  have sbt: "in_normal align x'" "byte_test d align x' \<longleftrightarrow> byte_test d align x \<and>
      (m \<noteq> 0 \<longrightarrow> off < length d + align \<and> cl_byte d align off AND m = v)" for d
    using sb(1) sb(2) [of d] xo Cons.prems(2) by auto
  have lx: "leaf x'" using W1(2) xin by (simp add: leaf_def x'_def)
  have step: "add_bytes first (int off) (b # bs) (?tree, p) =
    add_bytes False (int (off + 1)) bs (T @ replicate (length W2) (T ! 0), p1\<lparr> pg_insn := is0 @ W2 \<rparr>)"
  proof -
    have m4: "int off mod 4 = 0 \<longleftrightarrow> off mod 4 = 0" by presburger
    have "(if first \<or> int off mod 4 = 0 then add_insn (int off div 4 * 4) 0 0 (?tree, p) else (?tree, p)) =
      (T @ replicate (length W1) (T ! 0), p1)"
      unfolding m4 using assms(4) Cons.prems(4) by (auto simp: W1_def p1_def new_def add_insn_def replicate_append_same nth_append)
    moreover have "pg_insn p1 = is0 @ W1" using Cons.prems(4) by (auto simp: p1_def W1_def)
    moreover have "length W2 = length W1" using W1(1) by (simp add: W2_def)
    moreover have "nat (int off mod 4) = ?k" by (simp add: nat_mod_distrib)
    ultimately show ?thesis
      using set_back_last [OF W1(1), of p1 is0 ?k v m] by (simp add: b W2_def x'_def x_def Let_def add.commute)
  qed
  have W2: "\<forall>w\<in>set W2. leaf w \<and> in_normal align w" using W1(2) sbt(1) lx by (auto simp: W2_def dest: in_set_butlastD)
  have pre: "W2 \<noteq> [] \<and> unat (in_offset (last W2)) = (off + 1) div 4 * 4 \<and>
      (\<forall>k<4. (off + 1) mod 4 \<le> k \<longrightarrow> uchar (in_mask (last W2)) k = 0)" if "(off + 1) mod 4 \<noteq> 0"
    using div4 [OF that] W1(3,4) by (auto simp: W2_def x'_def uchar_set_uchar)
  obtain W' oe where IH: "add_bytes False (int (off + 1)) bs (T @ replicate (length W2) (T ! 0), p1\<lparr> pg_insn := is0 @ W2 \<rparr>) =
      (T @ replicate (length W') (T ! 0), (p1\<lparr> pg_insn := is0 @ W2 \<rparr>)\<lparr> pg_insn := is0 @ W', pg_output_everything := oe \<rparr>)"
    "bs = [] \<longrightarrow> W' = W2" "bs \<noteq> [] \<longrightarrow> W' \<noteq> []" "\<forall>w\<in>set W'. leaf w \<and> in_normal align w"
    "\<And>d. (\<forall>w\<in>set W'. byte_test d align w) \<longleftrightarrow> (\<forall>w\<in>set W2. byte_test d align w) \<and> bytes_at d align (off + 1) bs"
    using Cons.IH [of "off + 1" "p1\<lparr> pg_insn := is0 @ W2 \<rparr>" W2 False] Cons.prems(1-3) W2 pre by auto
  have "(\<forall>w\<in>set W2. byte_test d align w) \<and> bytes_at d align (off + 1) bs \<longleftrightarrow>
    (\<forall>w\<in>set W. byte_test d align w) \<and> bytes_at d align off (b # bs)" for d
    using t1 [of d] sbt(2) [of d] unfolding b bytes_at_Cons setW1 by (auto simp: W2_def)
  moreover have "p1\<lparr> pg_insn := is0 @ W', pg_output_everything := oe \<rparr> = p\<lparr> pg_insn := is0 @ W', pg_output_everything := oe \<rparr>"
    by (simp add: p1_def)
  moreover have "W' \<noteq> []" using IH(2,3) by (cases "bs = []") (auto simp: W2_def)
  ultimately show ?case unfolding step using IH by auto
qed

text \<open>The instructions of a clause are blocks of their own.\<close>

lemma blocks_single:
  assumes "\<And>i. a \<le> i \<Longrightarrow> i < a + m \<Longrightarrow> leaf (is ! i)" and "a + m = length is"
  shows "blocks [a..<a + m] is"
  using assms
proof (induction m arbitrary: a)
  case (Suc m)
  have c: "closed a (Suc a) is" if "Suc a \<le> length is"
    using that Suc.prems(1) [of a] by (auto simp: closed_def leaf_def in_j_def jump_ok_def less_imp_le le_less_Suc_eq)
  have b: "blocks [Suc a..<Suc a + m] is" using Suc.prems by (intro Suc.IH) auto
  show ?case
  proof (cases m)
    case 0
    then have one: "[a..<a + Suc m] = [a]" by simp
    show ?thesis unfolding one using c Suc.prems(2) 0 by simp
  next
    case (Suc m')
    define r where "r = [Suc (Suc a)..<Suc a + m]"
    have one: "[Suc a..<Suc a + m] = Suc a # r" using Suc by (simp add: r_def upt_conv_Cons del: upt_Suc)
    moreover have "[a..<a + Suc m] = a # [Suc a..<Suc a + m]" by (simp add: upt_conv_Cons del: upt_Suc)
    ultimately have two: "[a..<a + Suc m] = a # Suc a # r" by simp
    show ?thesis unfolding two using c b Suc.prems(2) unfolding one by simp
  qed
qed simp

lemma run_leaf: "a < length is \<Longrightarrow> leaf (is ! a) \<Longrightarrow> cl_run t is a = Some (if t (is ! a) then j_success else j_failure)"
  by (simp add: cl_run.simps [of t "is" a] leaf_def in_j_def Let_def less_imp_le)

lemma sub_leaves:
  assumes "\<forall>w\<in>set W. leaf w" and "W \<noteq> []" and "length marks = length is0" and "pg_insn p = is0 @ W"
  shows "sub_state t L marks is0 (map (\<lambda>w. if t w then j_success else j_failure) W) (L # marks @ replicate (length W) L, p)"
proof -
  let ?n = "length is0"
  have leaf: "leaf (pg_insn p ! i)" "i < length (pg_insn p)" if "i \<in> set [?n..<?n + length W]" for i
    using that assms(1,4) by (auto simp: nth_append)
  have "blocks [?n..<?n + length W] (pg_insn p)" using leaf assms(4) by (intro blocks_single) auto
  moreover have "map (cl_run t (pg_insn p)) [?n..<?n + length W] = map Some (map (\<lambda>w. if t w then j_success else j_failure) W)"
  proof (rule nth_equalityI)
    fix i assume "i < length (map (cl_run t (pg_insn p)) [?n..<?n + length W])"
    then have i: "i < length W" by simp
    then have "cl_run t (pg_insn p) (?n + i) = Some (if t (W ! i) then j_success else j_failure)"
      using leaf [of "?n + i"] run_leaf [of "?n + i" "pg_insn p" t] assms(4) by simp
    then show "map (cl_run t (pg_insn p)) [?n..<?n + length W] ! i = map Some (map (\<lambda>w. if t w then j_success else j_failure) W) ! i"
      using i by simp
  qed simp
  ultimately show ?thesis
    using assms(2-4) by (auto simp: sub_state_def starts_replicate intro!: exI [of _ "replicate (length W) L"])
qed

lemma and_value_map:
  "combined_value C_and S F (map (\<lambda>w. if P w then j_success else j_failure) ws) = (if \<forall>w\<in>set ws. P w then S else F)"
  by (induction ws) (auto simp: combined_value_def exit_to_def)

text \<open>Tests do not change once they are in the program.\<close>

lemma redirect_subtree_tests: "x \<in> set (redirect_subtree a b S F is) \<Longrightarrow> \<exists>y\<in>set is. same_test x y"
  unfolding redirect_subtree_def by (auto dest!: in_set_takeD in_set_dropD intro: bexI [of _ x] same_test_redirect)

lemma same_test_trans: "same_test x y \<Longrightarrow> same_test y z \<Longrightarrow> same_test x z"
  by (simp add: same_test_def)

lemma combine_subtrees_tests: "x \<in> set (combine_subtrees c S F ss is) \<Longrightarrow> \<exists>y\<in>set is. same_test x y"
proof (induction c S F ss "is" arbitrary: x rule: combine_subtrees.induct)
  case (1 c S F "is")
  then show ?case by (auto intro: bexI [of _ x])
next
  case (6 S F s t u us "is")
  obtain y where y: "y \<in> set (redirect_subtree t u S F (redirect_subtree s t (int t) (int u) is))" "same_test x y"
    using 6 by auto
  obtain z where z: "z \<in> set (redirect_subtree s t (int t) (int u) is)" "same_test y z" using redirect_subtree_tests [OF y(1)] by blast
  show ?case using redirect_subtree_tests [OF z(1)] same_test_trans y(2) z(2) by blast
qed (auto dest!: redirect_subtree_tests intro: same_test_trans, (metis redirect_subtree_tests same_test_trans)+)

lemma tests_ok_same:
  assumes "tests_ok n p" and "\<forall>x\<in>set (pg_insn p'). \<exists>y\<in>set (pg_insn p). same_test x y" and "pg_align_offset p' = pg_align_offset p"
  shows "tests_ok n p'"
proof -
  have "in_normal (pg_align_offset p) x \<and> \<not> in_short_output x \<and> required_length x \<le> n" if x: "x \<in> set (pg_insn p')" for x
  proof -
    obtain y where "y \<in> set (pg_insn p)" "same_test x y" using assms(2) x by blast
    then show ?thesis using assms(1) by (auto simp: tests_ok_def in_normal_def same_test_def required_length_def)
  qed
  then show ?thesis using assms(3) by (simp add: tests_ok_def)
qed

lemma tests_ok_finish:
  "tests_ok n p \<Longrightarrow> tests_ok n (snd (finish_subtree c S F (tree, p)))"
  "pg_align_offset (snd (finish_subtree c S F (tree, p))) = pg_align_offset p"
  by (auto simp: finish_subtree_def Let_def dest: combine_subtrees_tests elim!: tests_ok_same)

lemma tests_ok_negate:
  "tests_ok n p \<Longrightarrow> tests_ok n (snd (negate_subtree False (tree, p)))"
  "pg_align_offset (snd (negate_subtree False (tree, p))) = pg_align_offset p"
proof -
  show "pg_align_offset (snd (negate_subtree False (tree, p))) = pg_align_offset p"
    by (simp add: negate_subtree_def split: option.split)
  then show "tests_ok n p \<Longrightarrow> tests_ok n (snd (negate_subtree False (tree, p)))"
    by (elim tests_ok_same)
      (auto simp: negate_subtree_def in_negate_redirect split: option.split dest!: in_set_takeD in_set_dropD
        intro: bexI same_test_refl same_test_redirect)
qed

lemma subtree_oe:
  "pg_output_everything (snd (finish_subtree c S F (tree, p))) = pg_output_everything p"
  "pg_output_everything (snd (negate_subtree False (tree, p))) = pg_output_everything p"
  by (simp_all add: finish_subtree_def negate_subtree_def Let_def split: option.split)

lemma add_bytes_oe: "pg_output_everything (snd st) = - 1 \<Longrightarrow> pg_output_everything (snd (add_bytes first off bs st)) = - 1"
  by (induction first off bs st rule: add_bytes.induct) (auto simp: set_back_def add_insn_def Let_def split: prod.splits)

lemma add_bytes_first_oe: "bs \<noteq> [] \<Longrightarrow> pg_output_everything (snd (add_bytes True off bs st)) = - 1"
proof (cases bs)
  case (Cons b bs')
  have "pg_output_everything (snd (set_back k v m (add_insn o' 0 0 st))) = - 1" for k v m o'
    by (simp add: set_back_def add_insn_def Let_def split: prod.splits)
  then show ?thesis using add_bytes_oe by (cases b) (simp add: Cons Let_def)
qed simp

text \<open>The tests of a clause do not reach behind its bytes: they accept a packet that ends with them.\<close>

lemma leaf_required_length:
  assumes "w \<in> set W" and "leaf w" and vm: "\<forall>(v, m)\<in>set bs. v AND m = v"
    and W: "\<forall>d. (\<forall>w\<in>set W. byte_test d align w) \<longleftrightarrow> bytes_at d align (off + align) bs"
  shows "required_length w \<le> off + align + length bs"
proof -
  define d where "d = replicate off 0 @ map fst bs"
  have "bytes_match d off bs" using vm by (auto simp: bytes_match_def d_def nth_append)
  then have "byte_test d align w" using W assms(1) bytes_at_match [of d align off bs] by auto
  then show ?thesis using assms(2) by (auto simp: byte_test_def leaf_def d_def required_length_def split: if_splits)
qed

text \<open>A clause becomes a subtree that succeeds for the packets that match it.\<close>

lemma add_clause_result:
  assumes low: "sub_state (byte_test d align) 2 marks pre ws (tree, p)" and marks: "\<forall>x\<in>set marks. x < 2"
    and al: "pg_align_offset p = align" and tp: "tests_ok n p" and ok: "clause_ok align n c"
  shows "\<exists>tree' p'. add_clause c (tree, p) = Some (tree', p') \<and>
    sub_state (byte_test d align) 2 marks pre (ws @ [if clause_matches d c then j_success else j_failure]) (tree', p') \<and>
    pg_align_offset p' = align \<and> tests_ok n p' \<and> pg_output_everything p' = - 1"
proof -
  let ?t = "byte_test d align" and ?off = "nat (c_offset c) + align" and ?bs = "c_bytes c"
  obtain bs0 where tree: "tree = 2 # marks @ bs0" and bs0: "\<forall>x\<in>set bs0. x = 2 \<or> x < 0"
    and len: "length (pg_insn p) = length marks + length bs0" using low by (auto simp: sub_state_def)
  define T where "T = 3 # marks @ bs0"
  have st: "start_subtree tree = T" by (simp add: start_subtree_def tree T_def)
  have off: "c_offset c + int (pg_align_offset p) = int ?off" using ok al by (simp add: clause_ok_def)
  have lim: "?off + length ?bs \<le> 65536" using ok by (auto simp: clause_ok_def)
  obtain W oe where ab: "add_bytes True (int ?off) ?bs (T @ replicate (length ([] :: insn list)) (T ! 0), p) =
      (T @ replicate (length W) (T ! 0), p\<lparr> pg_insn := pg_insn p @ W, pg_output_everything := oe \<rparr>)"
    and W: "?bs = [] \<longrightarrow> W = []" "?bs \<noteq> [] \<longrightarrow> W \<noteq> []" "\<forall>w\<in>set W. leaf w \<and> in_normal align w"
      "\<forall>d. (\<forall>w\<in>set W. byte_test d align w) \<longleftrightarrow> (\<forall>w\<in>set ([] :: insn list). byte_test d align w) \<and> bytes_at d align ?off ?bs"
    using add_bytes_result [OF lim, of align T p "pg_insn p" "[]" True] ok by (auto simp: clause_ok_def T_def)
  have Wne: "W \<noteq> []" using W(2) ok by (simp add: clause_ok_def)
  have oe1: "oe = - 1" using add_bytes_first_oe [of ?bs "int ?off" "(T, p)"] ab ok by (simp add: clause_ok_def)
  define p1 where "p1 = p\<lparr> pg_insn := pg_insn p @ W, pg_output_everything := oe \<rparr>"
  have high: "sub_state ?t 3 (tl tree) (pg_insn p) (map (\<lambda>w. if ?t w then j_success else j_failure) W)
    (3 # tl tree @ replicate (length W) 3, p1)"
    by (rule sub_leaves) (use W(3) Wne len in \<open>auto simp: p1_def tree\<close>)
  define fin where "fin = finish_subtree C_and j_success j_failure (3 # tl tree @ replicate (length W) 3, p1)"
  have vals: "combined_value C_and j_success j_failure (map (\<lambda>w. if ?t w then j_success else j_failure) W) =
    (if bytes_match d (nat (c_offset c)) ?bs then j_success else j_failure)" (is "_ = ?v")
    unfolding and_value_map using W(4) bytes_at_match [of d align "nat (c_offset c)" ?bs] by auto
  have low': "sub_state ?t (3 - 1) marks pre ws (tree, p)" using low by simp
  have less3: "\<forall>x\<in>set (tl tree). x < 3" using marks bs0 by (force simp: tree)
  have s1: "sub_state ?t 2 marks pre (ws @ [?v]) fin"
    using bt.sub_finish [OF low' high _ less3, where c = C_and and S = j_success and F = j_failure] Wne vals
    by (simp add: fin_def less_imp_le)
  obtain tree1 p2 where f: "fin = (tree1, p2)" by (cases fin)
  have p2': "p2 = snd fin" by (simp add: f)
  have "required_length w \<le> n" if "w \<in> set W" for w
    using leaf_required_length [where w = w and W = W and align = align and off = "nat (c_offset c)" and bs = ?bs] W(3,4) that ok by (auto simp: clause_ok_def)
  then have "tests_ok n p1" using tp W(3) al by (auto simp: tests_ok_def p1_def leaf_def)
  then have p2: "tests_ok n p2" "pg_align_offset p2 = align" "pg_output_everything p2 = - 1"
    using al oe1 unfolding p2' fin_def by (auto simp: tests_ok_finish subtree_oe p1_def)
  have ab': "add_bytes True (int ?off) ?bs (start_subtree tree, p) = (3 # tl tree @ replicate (length W) 3, p1)"
    using ab by (simp add: T_def tree p1_def start_subtree_def)
  have "\<not> int ?off + int (length ?bs) > 0x7FFFFFFF" using lim by linarith
  then have "add_clause c (tree, p) = Some (if c_negated c then negate_subtree False fin else fin)"
    unfolding add_clause_def prod.case Let_def off ab' fin_def by (simp only: if_False)
  moreover have "sub_state ?t 2 marks pre (ws @ [exit_to j_failure j_success ?v]) (negate_subtree False fin)"
    using bt.sub_negate s1 f by auto
  moreover obtain tree3 p3 where n: "negate_subtree False fin = (tree3, p3)" by (cases "negate_subtree False fin")
  moreover have "tests_ok n p3" "pg_align_offset p3 = align" "pg_output_everything p3 = - 1"
    using tests_ok_negate(1) [OF p2(1), of tree1] tests_ok_negate(2) [of tree1 p2] subtree_oe(2) [of tree1 p2] p2 n f by auto
  ultimately show ?thesis
    using s1 f p2 by (cases "c_negated c") (auto simp: clause_matches_def exit_to_def)
qed

lemma add_clauses_result:
  assumes "sub_state (byte_test d align) 2 marks pre ws (tree, p)" and "\<forall>x\<in>set marks. x < 2"
    and "pg_align_offset p = align" and "tests_ok n p" and "\<forall>c\<in>set cs. clause_ok align n c"
  shows "\<exists>tree' p'. add_clauses cs (tree, p) = Some (tree', p') \<and>
    sub_state (byte_test d align) 2 marks pre (ws @ map (\<lambda>c. if clause_matches d c then j_success else j_failure) cs) (tree', p') \<and>
    pg_align_offset p' = align \<and> tests_ok n p' \<and> (cs \<noteq> [] \<longrightarrow> pg_output_everything p' = - 1) \<and> (cs = [] \<longrightarrow> (tree', p') = (tree, p))"
  using assms
proof (induction cs arbitrary: ws tree p)
  case (Cons c cs)
  obtain tree1 p1 where c: "add_clause c (tree, p) = Some (tree1, p1)"
    "sub_state (byte_test d align) 2 marks pre (ws @ [if clause_matches d c then j_success else j_failure]) (tree1, p1)"
    "pg_align_offset p1 = align" "tests_ok n p1" "pg_output_everything p1 = - 1"
    using add_clause_result [OF Cons.prems(1-4)] Cons.prems(5) by (meson list.set_intros(1))
  have ok: "\<forall>c\<in>set cs. clause_ok align n c" using Cons.prems(5) by simp
  from Cons.IH [OF c(2) Cons.prems(2) c(3,4) ok] show ?case using c(1,5) by auto
qed simp

section \<open>Patterns\<close>

lemma slot_empty_iff: "\<forall>c\<in>set cs. clause_ok align n c \<Longrightarrow> slot_empty cs \<longleftrightarrow> cs = []"
  by (cases cs) (auto simp: slot_empty_def clause_ok_def)

lemma add_slot_result:
  assumes low: "sub_state (byte_test d align) 1 [] [] ws (tree, p)" and al: "pg_align_offset p = align" and tp: "tests_ok n p"
    and ok: "\<forall>c\<in>set cs. clause_ok align n c"
  shows "\<exists>tree' p'. add_slot slot cs (tree, p) = Some (tree', p') \<and>
    sub_state (byte_test d align) 1 [] [] (ws @ [if \<forall>c\<in>set cs. clause_matches d c then - int slot else j_failure]) (tree', p') \<and>
    pg_align_offset p' = align \<and> tests_ok n p' \<and> pg_output_everything p' = - 1"
proof -
  let ?t = "byte_test d align"
  let ?vs = "map (\<lambda>c. if clause_matches d c then j_success else j_failure) cs"
  obtain bs0 where tree: "tree = 1 # bs0" and bs0: "\<forall>x\<in>set bs0. x = 1 \<or> x < 0" and len: "length (pg_insn p) = length bs0"
    using low by (auto simp: sub_state_def)
  have start: "start_subtree tree = 2 # bs0" by (simp add: tree start_subtree_def)
  have less2: "\<forall>x\<in>set (tl tree). x < 2" using bs0 by (force simp: tree)
  have s0: "sub_state ?t 2 (tl tree) (pg_insn p) [] (start_subtree tree, p)" by (rule sub_start) (use low in simp)
  obtain tree1 p1 where cl: "add_clauses cs (start_subtree tree, p) = Some (tree1, p1)"
    "sub_state ?t 2 (tl tree) (pg_insn p) ?vs (tree1, p1)" "pg_align_offset p1 = align" "tests_ok n p1"
    "cs \<noteq> [] \<longrightarrow> pg_output_everything p1 = - 1" "cs = [] \<longrightarrow> (tree1, p1) = (start_subtree tree, p)"
    using add_clauses_result [OF s0 less2 al tp ok] by auto
  obtain tree2 p2 where st2: "(if slot_empty cs then add_insn 0 0 0 (tree1, p1) else (tree1, p1)) = (tree2, p2)" by fastforce
  define vs where "vs = (if cs = [] then [j_success] else ?vs)"
  have p2: "sub_state ?t 2 (tl tree) (pg_insn p) vs (tree2, p2)" "pg_align_offset p2 = align" "tests_ok n p2" "pg_output_everything p2 = - 1"
  proof -
    consider "cs = []" "tree2 = 2 # bs0 @ [2]" "p2 = p\<lparr> pg_insn := pg_insn p @ [Insn 0 0 0], pg_output_everything := - 1 \<rparr>"
      | "cs \<noteq> []" "tree2 = tree1" "p2 = p1"
      using st2 cl(6) slot_empty_iff [OF ok] start by (cases "cs = []") (auto simp: add_insn_def)
    then have "sub_state ?t 2 (tl tree) (pg_insn p) vs (tree2, p2) \<and> pg_align_offset p2 = align \<and> tests_ok n p2 \<and> pg_output_everything p2 = - 1"
    proof cases
      case 1
      have "sub_state ?t 2 (tl tree) (pg_insn p) (map (\<lambda>w. if ?t w then j_success else j_failure) [Insn 0 0 0])
        (2 # tl tree @ replicate (length [Insn 0 0 0]) 2, p2)"
        by (rule sub_leaves) (use len in \<open>simp_all add: tree leaf_def Insn_def 1(3)\<close>)
      then have "sub_state ?t 2 (tl tree) (pg_insn p) vs (tree2, p2)" by (simp add: tree 1(1,2) vs_def byte_test_def Insn_def)
      moreover have "tests_ok n p2" using tp by (auto simp: tests_ok_def 1(3) in_normal_def Insn_def required_length_def)
      ultimately show ?thesis using al by (simp add: 1(3))
    next
      case 2
      then show ?thesis using cl by (simp add: vs_def)
    qed
    then show "sub_state ?t 2 (tl tree) (pg_insn p) vs (tree2, p2)" "pg_align_offset p2 = align" "tests_ok n p2" "pg_output_everything p2 = - 1"
      by simp_all
  qed
  have val: "combined_value C_and (- int slot) j_failure vs = (if \<forall>c\<in>set cs. clause_matches d c then - int slot else j_failure)"
    by (simp add: vs_def and_value_map) (simp add: combined_value_def)
  obtain tree3 p3 where f: "finish_subtree C_and (- int slot) j_failure (tree2, p2) = (tree3, p3)" by fastforce
  have low': "sub_state ?t (2 - 1) [] [] ws (tree, p)" using low by simp
  have ne: "vs \<noteq> []" by (simp add: vs_def)
  have "sub_state ?t 1 [] [] (ws @ [if \<forall>c\<in>set cs. clause_matches d c then - int slot else j_failure]) (tree3, p3)"
    using bt.sub_finish [OF low' p2(1) ne less2, where c = C_and and S = "- int slot" and F = j_failure]
    by (simp add: val f less_imp_le split del: if_split)
  moreover have "add_slot slot cs (tree, p) = Some (tree3, p3)"
    using cl(1) st2 f by (simp add: add_slot_def)
  moreover have "pg_align_offset p3 = align" "tests_ok n p3" "pg_output_everything p3 = - 1"
    using tests_ok_finish(1) [OF p2(3), of C_and "- int slot" j_failure tree2] tests_ok_finish(2) [of C_and "- int slot" j_failure tree2 p2]
      subtree_oe(1) [of C_and "- int slot" j_failure tree2 p2] p2 f by auto
  ultimately show ?thesis by blast
qed

lemma slot_values_Nil [simp]: "slot_values d slot css = [] \<longleftrightarrow> css = []"
  by (cases css) simp_all

lemma or_slot_values:
  "int (slot + length css) \<le> 2147483645 \<Longrightarrow> combined_value C_or j_never j_never (slot_values d slot css) = first_match d slot css"
proof (induction css arbitrary: slot)
  case (Cons cs css)
  have "- int slot \<noteq> j_failure" "- int slot \<noteq> j_success" using Cons.prems by (auto simp: j_failure_def j_success_def)
  then show ?case using Cons.IH [of "slot + 1"] Cons.prems by (auto simp: combined_value_def exit_to_def)
qed (simp add: combined_value_def)

lemma add_slots_result:
  assumes "sub_state (byte_test d align) 1 [] [] ws (tree, p)" and "pg_align_offset p = align" and "tests_ok n p"
    and "\<forall>cs\<in>set css. \<forall>c\<in>set cs. clause_ok align n c" and "css = [] \<longrightarrow> pg_output_everything p = - 1"
  shows "\<exists>tree' p'. add_slots slot css (tree, p) = Some (tree', p') \<and>
    sub_state (byte_test d align) 1 [] [] (ws @ slot_values d slot css) (tree', p') \<and>
    pg_align_offset p' = align \<and> tests_ok n p' \<and> pg_output_everything p' = - 1"
  using assms
proof (induction css arbitrary: slot ws tree p)
  case (Cons cs css)
  define v where "v = (if \<forall>c\<in>set cs. clause_matches d c then - int slot else j_failure)"
  have ok: "\<forall>c\<in>set cs. clause_ok align n c" using Cons.prems(4) by simp
  obtain tree1 p1 where s: "add_slot slot cs (tree, p) = Some (tree1, p1)"
    "sub_state (byte_test d align) 1 [] [] (ws @ [v]) (tree1, p1)"
    "pg_align_offset p1 = align" "tests_ok n p1" "pg_output_everything p1 = - 1"
    using add_slot_result [OF Cons.prems(1-3) ok, of slot] unfolding v_def by blast
  have "\<forall>cs\<in>set css. \<forall>c\<in>set cs. clause_ok align n c" using Cons.prems(4) by simp
  from Cons.IH [OF s(2-4) this, of "slot + 1"] show ?case using s(1,5) by (simp add: v_def)
qed simp

lemma sub_state_whole:
  assumes "sub_state t 0 [] [] [v] (tree, p)"
  shows "pg_insn p \<noteq> []" "cl_forward (pg_insn p)" "cl_run t (pg_insn p) 0 = Some v"
proof -
  obtain bs where bs: "bs \<noteq> [] \<longrightarrow> bs ! 0 = 0" "length (pg_insn p) = length bs"
    "blocks (starts 0 0 bs) (pg_insn p)" "map (cl_run t (pg_insn p)) (starts 0 0 bs) = [Some v]"
    using assms unfolding sub_state_def by (simp only: prod.case) (elim exE conjE, rule that, simp_all)
  have ne: "bs \<noteq> []" using bs(4) by (auto simp: starts_def)
  then have "[0..<length bs] = 0 # [1..<length bs]" by (simp add: upt_conv_Cons)
  then obtain ss where "starts 0 0 bs = 0 # ss" using bs(1) ne by (simp add: starts_def)
  then have one: "starts 0 0 bs = [0]" using bs(4) by auto
  show "pg_insn p \<noteq> []" "cl_run t (pg_insn p) 0 = Some v" using ne bs(2,4) one by auto
  have c: "closed 0 (length (pg_insn p)) (pg_insn p)" using bs(3) one by simp
  show "cl_forward (pg_insn p)"
    unfolding cl_forward_def using closedD [OF c, of _ True] closedD [OF c, of _ False] by (simp add: in_j_def)
qed

lemma build_program_run:
  assumes "slots \<noteq> []" and "length slots \<le> 2147483645" and ok: "\<forall>cs\<in>set slots. \<forall>c\<in>set cs. clause_ok align n c"
  shows "\<exists>p. build_program slots (pg_new align) = Some p \<and>
    pg_insn p \<noteq> [] \<and> cl_forward (pg_insn p) \<and> tests_ok n p \<and> pg_align_offset p = align \<and> pg_output_everything p = - 1 \<and>
    cl_run (byte_test d align) (pg_insn p) 0 = Some (first_match d 0 slots)"
proof -
  let ?t = "byte_test d align"
  have low: "sub_state ?t (1 - 1) [] [] [] ([0], pg_new align)" by (simp add: sub_state_def starts_def pg_new_def)
  have high: "sub_state ?t 1 [] [] [] (start_subtree [0], pg_new align)"
    using sub_start [OF low] by (simp add: pg_new_def)
  have new: "pg_align_offset (pg_new align) = align" "tests_ok n (pg_new align)" by (simp_all add: pg_new_def tests_ok_def)
  obtain tree p where as: "add_slots 0 slots (start_subtree [0], pg_new align) = Some (tree, p)"
    "sub_state ?t 1 [] [] (slot_values d 0 slots) (tree, p)" "pg_align_offset p = align" "tests_ok n p" "pg_output_everything p = - 1"
    using add_slots_result [OF high new ok, of 0] assms(1) by auto
  obtain tree1 p1 where f: "finish_subtree C_or j_never j_never (tree, p) = (tree1, p1)" by fastforce
  have s: "sub_state ?t 0 [] [] [first_match d 0 slots] (tree1, p1)"
    using bt.sub_finish [OF low, of "slot_values d 0 slots" tree p j_never j_never C_or] as(2) assms(1,2) f
    by (simp add: or_slot_values pg_new_def less_imp_le)
  have b: "build_program slots (pg_new align) = Some p1"
    using as(1) f by (simp add: build_program_def init_subtree_def pg_new_def)
  have "tests_ok n p1 \<and> pg_align_offset p1 = align \<and> pg_output_everything p1 = - 1"
    using tests_ok_finish(1) [OF as(4), of C_or j_never j_never tree] tests_ok_finish(2) [of C_or j_never j_never tree p]
      subtree_oe(1) [of C_or j_never j_never tree p] as(3,5) f by simp
  then show ?thesis using b sub_state_whole [OF s] by blast
qed

section \<open>Parsed patterns\<close>

text \<open>A clause that is parsed without an error has bytes, and its values lie within its masks.\<close>

lemma read_bytes_values: "read_bytes s a b mk = Some bs \<Longrightarrow> list_all (\<lambda>(v, m). v AND m = v) bs"
proof (induction s a b mk arbitrary: bs rule: read_bytes.induct)
  case (1 s a b mk)
  have "word_of_int (v AND m) AND word_of_int m = (word_of_int (v AND m) :: byte)" for v m
    by (rule bit_word_eqI) (auto simp: bit_simps)
  then show ?case
    using 1(1) 1(2) [unfolded read_bytes.simps [of s a b mk]]
    by (auto split: if_splits option.splits Option.bind_splits)
qed

lemma read_bytes_Nil: "read_bytes s a b mk = Some [] \<Longrightarrow> b \<le> a"
  by (subst (asm) read_bytes.simps) (auto split: if_splits option.splits Option.bind_splits)

lemma read_offset_ge: "\<forall>c\<in>set s. isdigit c \<Longrightarrow> 0 \<le> off \<Longrightarrow> read_offset s off = Some n \<Longrightarrow> 0 \<le> n"
  by (induction s off rule: read_offset.induct) (auto simp: Let_def isdigit_def split: if_splits)

lemma check_lengths_ok: "check_lengths a b mk = (stop, 0) \<Longrightarrow> a < stop"
  by (auto simp: check_lengths_def Let_def split: if_splits prod.splits)

lemma scan_all: "x \<in> set (take (scan P s i - i) (drop i s)) \<Longrightarrow> P x"
  by (simp add: scan_def takeWhile_eq_take [symmetric]) (metis set_takeWhileD)

lemma parse_clause_ok:
  assumes "parse_clause s i = Some (Inr (c, 0, k))"
  shows "clause_parsed c"
proof -
  define i' where "i' = (if s ! i = CHR ''!'' then scan isspace s (i + 1) else i)"
  obtain off a b mk stop bs where off: "read_offset (take (scan isdigit s i' - i') (drop i' s)) 0 = Some off"
    and l: "check_lengths a b mk = (stop, 0)" and bs: "read_bytes s a stop (map_option fst mk) = Some bs"
    and c: "c = \<lparr> c_negated = (s ! i = CHR ''!''), c_offset = off, c_bytes = bs \<rparr>"
    using assms unfolding parse_clause_def Let_def i'_def [symmetric]
    by (auto split: if_splits Option.bind_splits prod.splits)
  have "0 \<le> off" by (rule read_offset_ge [OF _ _ off]) (auto dest: scan_all)
  moreover have "bs \<noteq> []" using read_bytes_Nil bs check_lengths_ok [OF l] by fastforce
  ultimately show ?thesis using read_bytes_values [OF bs] by (simp add: c clause_parsed_def)
qed

lemma parse_pattern_ok:
  "parse_pattern s i = Some (0, cs) \<Longrightarrow> list_all clause_parsed cs"
proof (induction s i arbitrary: cs rule: parse_pattern.induct)
  case (1 s i)
  show ?case
    using 1(1) 1(2) [unfolded parse_pattern.simps [of s i]] parse_clause_ok [of s "scan isspace s i"]
    by (auto split: if_splits option.splits sum.splits Option.bind_splits)
qed

lemma parse_slots_ok:
  "parse_slots conf = Some (0, slots) \<Longrightarrow> length slots = length conf \<and> list_all (list_all clause_parsed) slots"
proof (induction conf arbitrary: slots)
  case (Cons s ss)
  obtain cs css where "parse_slot s = Some (0, cs)" "parse_slots ss = Some (0, css)" "slots = cs # css"
    using Cons.prems by (auto split: Option.bind_splits)
  then show ?case using Cons.IH parse_pattern_ok [of s 0 cs] by (auto simp: parse_slot_def split: if_splits)
qed simp

lemma build_program_result:
  assumes "conf \<noteq> []" and "length conf \<le> 2147483645" and parse: "parse_slots conf = Some (0, slots)" and "n \<le> 65536"
    and range: "\<forall>cs\<in>set slots. \<forall>c\<in>set cs. c_offset c + int align + int (length (c_bytes c)) \<le> int n"
  shows "\<exists>p. build_program slots (pg_new align) = Some p \<and> pg_insn p \<noteq> [] \<and> cl_forward (pg_insn p) \<and> tests_ok n p \<and>
    pg_align_offset p = align \<and> pg_output_everything p = - 1 \<and>
    (\<forall>d. pg_run (byte_test d align) p = Some (first_match d 0 slots))"
proof -
  have ok: "\<forall>cs\<in>set slots. \<forall>c\<in>set cs. clause_ok align n c" and len: "slots \<noteq> []" "length slots \<le> 2147483645"
    using parse_slots_ok [OF parse] range assms(1,2,4) by (auto simp: clause_ok_def clause_parsed_def list_all_iff)
  have run: "\<exists>p. build_program slots (pg_new align) = Some p \<and> pg_insn p \<noteq> [] \<and> cl_forward (pg_insn p) \<and> tests_ok n p \<and>
    pg_align_offset p = align \<and> pg_output_everything p = - 1 \<and>
    pg_run (byte_test d align) p = Some (first_match d 0 slots)" for d
  proof -
    obtain p where p: "build_program slots (pg_new align) = Some p" "pg_insn p \<noteq> []" "cl_forward (pg_insn p)" "tests_ok n p"
      "pg_align_offset p = align" "pg_output_everything p = - 1" "cl_run (byte_test d align) (pg_insn p) 0 = Some (first_match d 0 slots)"
      using build_program_run [OF len ok, of d] by blast
    then have "pg_run (byte_test d align) p = Some (first_match d 0 slots)" by (simp add: pg_run_def)
    then show ?thesis using p by blast
  qed
  then show ?thesis by (metis option.inject)
qed

text \<open>C6: the program \<open>Classifier\<close> builds from patterns that parse without errors and stay within the first \<open>n \<le> 65536\<close> bytes
  exists, its jumps lead forward and its tests stay within the same bytes, and on every packet, however short, it returns the first pattern
  all of whose clauses match, or drops the packet when there is none.\<close>

theorem build_program_correct:
  assumes "conf \<noteq> []" and "length conf \<le> 2147483645" and "parse_slots conf = Some (0, slots)" and "n \<le> 65536"
    and "\<forall>cs\<in>set slots. \<forall>c\<in>set cs. c_offset c + int align + int (length (c_bytes c)) \<le> int n"
  shows "\<exists>p. build_program slots (pg_new align) = Some p \<and> cl_forward (pg_insn p) \<and> tests_ok n p \<and>
    (\<forall>d. pg_run (byte_test d align) p = Some (first_match d 0 slots))"
  using build_program_result [OF assms] by blast

text \<open>The patterns \<^verbatim>\<open>12/0806 20/0001\<close> and \<^verbatim>\<open>!0/??04%000f\<close>, on a packet whose data is unaligned by two bytes.\<close>

theorem build_program_correct_witness:
  "\<exists>slots p. parse_slots [''12/0806 20/0001'', ''!0/??04%000f''] = Some (0, slots) \<and>
    build_program slots (pg_new 2) = Some p \<and> cl_forward (pg_insn p) \<and> tests_ok 24 p \<and>
    (\<forall>d. pg_run (byte_test d 2) p = Some (first_match d 0 slots))"
proof -
  let ?slots = "[[\<lparr> c_negated = False, c_offset = 12, c_bytes = [(8, 255), (6, 255)] \<rparr>,
      \<lparr> c_negated = False, c_offset = 20, c_bytes = [(0, 255), (1, 255)] \<rparr>],
     [\<lparr> c_negated = True, c_offset = 0, c_bytes = [(0, 0), (4, 15)] \<rparr>]]"
  have "parse_slots [''12/0806 20/0001'', ''!0/??04%000f''] = Some (0, ?slots)" by code_simp
  then show ?thesis
    using build_program_correct [of "[''12/0806 20/0001'', ''!0/??04%000f'']" ?slots 24 2] by auto
qed

end
