(* ===== verification/Click_DomSafe.thy ===== *)
theory Click_DomSafe
  imports Click_Dominators Click_ClassUnused
begin

text \<open>
  The dominator optimiser only moves branches forward: when it returns, the tests are those of the program it started from and every jump
  leads to a later instruction or an output. The branches that lead to an instruction form a doubly linked list, kept in three arrays;
  \<open>linked\<close> is its invariant.
\<close>

section \<open>Auxiliary definitions\<close>

definition acc :: "int list \<Rightarrow> nat \<Rightarrow> int" where
  "acc xs i = (if i < length xs then xs ! i else - 1)"

text \<open>\<open>J\<close> gives the target of a branch, \<open>f\<close> the first branch of a list, \<open>x\<close> and \<open>p\<close> the next and the previous one.\<close>

definition linked :: "(nat \<Rightarrow> int) \<Rightarrow> (nat \<Rightarrow> int) \<Rightarrow> (nat \<Rightarrow> int) \<Rightarrow> (nat \<Rightarrow> int) \<Rightarrow> bool" where
  "linked J f x p \<longleftrightarrow>
     (\<forall>b. J b > 0 \<longrightarrow>
        (x b \<ge> 0 \<longrightarrow> J (nat (x b)) = J b \<and> p (nat (x b)) = int b) \<and>
        (p b \<ge> 0 \<longrightarrow> J (nat (p b)) = J b \<and> x (nat (p b)) = int b) \<and>
        (p b < 0 \<longrightarrow> f (nat (J b)) = int b)) \<and>
     (\<forall>a. f a \<ge> 0 \<longrightarrow> a > 0 \<and> J (nat (f a)) = int a \<and> p (nat (f a)) < 0)"

definition between :: "(nat \<Rightarrow> int) \<Rightarrow> (nat \<Rightarrow> int) \<Rightarrow> (nat \<Rightarrow> int) \<Rightarrow> int \<Rightarrow> int \<Rightarrow> int \<Rightarrow> bool" where
  "between J f x t pv cu \<longleftrightarrow> (if pv < 0 then f (nat t) = cu else J (nat pv) = t \<and> x (nat pv) = cu)"

definition branch_target :: "insn list \<Rightarrow> nat \<Rightarrow> int" where
  "branch_target is b = (if b < 2 * length is then in_j (br_yes b) (is ! stateno b) else 0)"

text \<open>The arrays with the targets \<open>J\<close>.\<close>

definition chains_of :: "(nat \<Rightarrow> int) \<Rightarrow> domopt \<Rightarrow> bool" where
  "chains_of J s \<longleftrightarrow>
     length (do_pred_first s) = length (do_insn s) \<and> length (do_pred_next s) = 2 * length (do_insn s) \<and>
     length (do_pred_prev s) = 2 * length (do_insn s) \<and>
     (\<forall>b. J b > 0 \<longrightarrow> b < 2 * length (do_insn s) \<and> J b < int (length (do_insn s))) \<and>
     linked J (acc (do_pred_first s)) (acc (do_pred_next s)) (acc (do_pred_prev s))"

abbreviation pred_chains :: "domopt \<Rightarrow> bool" where
  "pred_chains s \<equiv> chains_of (branch_target (do_insn s)) s"

text \<open>The lists while they are made: the branches below \<open>m\<close> are in them.\<close>

definition linked_upto :: "nat \<Rightarrow> domopt \<Rightarrow> bool" where
  "linked_upto m s \<longleftrightarrow>
     chains_of (\<lambda>b. if b < m then branch_target (do_insn s) b else 0) s \<and>
     (\<forall>b<2 * length (do_insn s). m \<le> b \<longrightarrow> do_pred_prev s ! b = - 1)"

text \<open>\<open>set_branch\<close> takes the branch out of the list of its old target and puts it into that of the new one.\<close>

definition unlink_branch :: "nat \<Rightarrow> int \<Rightarrow> domopt \<Rightarrow> domopt" where
  "unlink_branch br target s =
     (if target > 0 then
        let prev = do_pred_prev s ! br; nxt = do_pred_next s ! br;
            s = (if prev \<ge> 0 then s\<lparr> do_pred_next := (do_pred_next s)[nat prev := nxt] \<rparr>
                 else s\<lparr> do_pred_first := (do_pred_first s)[nat target := nxt] \<rparr>)
        in if nxt \<ge> 0 then s\<lparr> do_pred_prev := (do_pred_prev s)[nat nxt := prev] \<rparr> else s
      else s)"

definition insert_branch :: "nat \<Rightarrow> int \<Rightarrow> int \<Rightarrow> int \<Rightarrow> domopt \<Rightarrow> domopt" where
  "insert_branch br target prev cur s =
     (let s = s\<lparr> do_pred_prev := (do_pred_prev s)[br := prev], do_pred_next := (do_pred_next s)[br := cur] \<rparr>;
          s = (if prev < 0 then s\<lparr> do_pred_first := (do_pred_first s)[nat target := int br] \<rparr>
               else s\<lparr> do_pred_next := (do_pred_next s)[nat prev := int br] \<rparr>)
      in if cur \<ge> 0 then s\<lparr> do_pred_prev := (do_pred_prev s)[nat cur := int br] \<rparr> else s)"

text \<open>The two parts of \<open>calculate_dom\<close> that change the program.\<close>

definition dom_lists :: "nat \<Rightarrow> nat list \<Rightarrow> nat list \<Rightarrow> nat list \<Rightarrow> nat list \<Rightarrow> domopt \<Rightarrow> (domopt \<times> nat list) option" where
  "dom_lists a preds doms pdom pdom_end s =
     (if length pdom > MAX_DOMLIST then
        do {
          common \<leftarrow> intersect_lists (map int doms) pdom pdom_end;
          let doms = doms @ map nat common @ [brno (do_insn_id s ! a) False];
          Some (s\<lparr> do_dom := doms, do_dom_start := do_dom_start s @ [length doms] \<rparr>, pdom)
        }
      else if pdom \<noteq> [] then
        do {
          (mybr, num_mybr, doms, dom_start) \<leftarrow>
            extend_lists (zip pdom pdom_end) (brno (do_insn_id s ! a) False, 0, doms, do_dom_start s);
          let s = s\<lparr> do_dom := doms, do_dom_start := dom_start \<rparr>;
          if num_mybr > 0 then do { s \<leftarrow> set_branches preds (in_j (br_yes mybr) (do_insn s ! a)) s; Some (s, []) }
          else Some (s, pdom)
        }
      else Some (s\<lparr> do_dom := doms \<rparr>, pdom))"

definition dom_close :: "nat \<Rightarrow> nat list \<Rightarrow> nat \<Rightarrow> domopt \<Rightarrow> domopt option" where
  "dom_close a pdom oldsize s =
     do {
       s \<leftarrow> (if pdom = [] then
              let s = s\<lparr> do_dom := take (do_dom_start s ! (oldsize - 1)) (do_dom s),
                         do_dom_start := take oldsize (do_dom_start s) \<rparr>
              in if a > 0 then do { s \<leftarrow> set_branch a False j_never s; set_branch a True j_never s }
                 else let doms = do_dom s @ [brno a False]
                      in Some (s\<lparr> do_dom := doms, do_dom_start := do_dom_start s @ [length doms] \<rparr>)
            else Some s);
       Some (s\<lparr> do_domlist_start := do_domlist_start s @ [length (do_dom_start s) - 1] \<rparr>)
     }"

text \<open>The program after some moves, compared with the one the optimiser started from.\<close>

definition moved :: "insn list \<Rightarrow> insn list \<Rightarrow> bool" where
  "moved is0 is \<longleftrightarrow> length is = length is0 \<and> cl_forward is \<and> (\<forall>i<length is. same_test (is ! i) (is0 ! i))"

section \<open>Doubly linked lists\<close>

lemma linkedD:
  assumes "linked J f x p" and "J b > 0"
  shows "x b \<ge> 0 \<Longrightarrow> J (nat (x b)) = J b" "x b \<ge> 0 \<Longrightarrow> p (nat (x b)) = int b"
    "p b \<ge> 0 \<Longrightarrow> J (nat (p b)) = J b" "p b \<ge> 0 \<Longrightarrow> x (nat (p b)) = int b" "p b < 0 \<Longrightarrow> f (nat (J b)) = int b"
  using assms by (auto simp: linked_def)

lemma linked_first:
  assumes "linked J f x p" and "f a \<ge> 0"
  shows "a > 0" "J (nat (f a)) = int a" "p (nat (f a)) < 0"
  using assms by (auto simp: linked_def)

lemma linked_remove:
  assumes l: "linked J f x p" and b: "J b > 0" and t: "t \<le> 0"
    and f': "f' = (if p b < 0 then f(nat (J b) := x b) else f)"
    and x': "x' = (if p b \<ge> 0 then x(nat (p b) := x b) else x)"
    and p': "p' = (if x b \<ge> 0 then p(nat (x b) := p b) else p)"
  shows "linked (J(b := t)) f' x' p'"
proof -
  note D = linkedD [OF l b]
  have same: "x' b' = (if p b \<ge> 0 \<and> b' = nat (p b) then x b else x b')" "p' b' = (if x b \<ge> 0 \<and> b' = nat (x b) then p b else p b')" for b'
    by (auto simp: x' p')
  have "(x' c \<ge> 0 \<longrightarrow> (J(b := t)) (nat (x' c)) = J c \<and> p' (nat (x' c)) = int c) \<and>
        (p' c \<ge> 0 \<longrightarrow> (J(b := t)) (nat (p' c)) = J c \<and> x' (nat (p' c)) = int c) \<and>
        (p' c < 0 \<longrightarrow> f' (nat (J c)) = int c)" if c: "J c > 0" "c \<noteq> b" for c
  proof (intro conjI impI)
    note C = linkedD [OF l c(1)]
    have xc: "nat (x c) \<noteq> b" if "x c \<ge> 0" "\<not> (p b \<ge> 0 \<and> c = nat (p b))" using C(2) [OF that(1)] that(2) by auto
    have pc: "nat (p c) \<noteq> b" if "p c \<ge> 0" "\<not> (x b \<ge> 0 \<and> c = nat (x b))" using C(4) [OF that(1)] that(2) by auto
    have nx: "nat (x b) \<noteq> b" if "x b \<ge> 0" "p b \<ge> 0" "c = nat (p b)" using D(2) that c(2) by auto
    have np: "nat (p b) \<noteq> b" if "p b \<ge> 0" "x b \<ge> 0" "c = nat (x b)" using D(4) that c(2) by auto
    show "(J(b := t)) (nat (x' c)) = J c" if "x' c \<ge> 0"
      using that xc nx C(1) D(1,3) by (auto simp: same split: if_splits)
    show "p' (nat (x' c)) = int c" if "x' c \<ge> 0"
      using that C(2) D(2) c(2) by (auto simp: same split: if_splits)
    show "(J(b := t)) (nat (p' c)) = J c" if "p' c \<ge> 0"
      using that pc np C(3) D(1,3) by (auto simp: same split: if_splits)
    show "x' (nat (p' c)) = int c" if "p' c \<ge> 0"
      using that C(4) D(4) c(2) by (auto simp: same split: if_splits)
    show "f' (nat (J c)) = int c" if "p' c < 0"
      using that C(5) D(1,5) c by (auto simp: same f' split: if_splits)
  qed
  moreover have "a > 0 \<and> (J(b := t)) (nat (f' a)) = int a \<and> p' (nat (f' a)) < 0" if a: "f' a \<ge> 0" for a
  proof (cases "p b < 0 \<and> a = nat (J b)")
    case True
    then have "nat (x b) \<noteq> b" using a D(2) by (auto simp: f')
    then show ?thesis using True a D(1) b by (auto simp: f' same)
  next
    case False
    then have fa: "f' a = f a" by (auto simp: f')
    note F = linked_first [OF l a [unfolded fa]]
    have "nat (f a) \<noteq> b" using F False by auto
    moreover have "\<not> (x b \<ge> 0 \<and> nat (f a) = nat (x b))" using F D(2) by auto
    ultimately show ?thesis using F by (auto simp: fa same)
  qed
  ultimately show ?thesis using t by (auto simp: linked_def)
qed

lemma linked_nonpos:
  assumes l: "linked J f x p" and b: "J b \<le> 0" and t: "t \<le> 0"
  shows "linked (J(b := t)) f x p"
proof -
  have n: "c \<noteq> b" if "J c > 0" for c using that b by auto
  have "nat (x c) \<noteq> b" if "J c > 0" "x c \<ge> 0" for c using linkedD(1) [OF l that] that(1) by (intro n) simp
  moreover have "nat (p c) \<noteq> b" if "J c > 0" "p c \<ge> 0" for c using linkedD(3) [OF l that] that(1) by (intro n) simp
  moreover have "nat (f a) \<noteq> b" if "f a \<ge> 0" for a using linked_first(1,2) [OF l that] by (intro n) simp
  ultimately show ?thesis using l t unfolding linked_def by simp
qed

lemma linked_insert:
  assumes l: "linked J f x p" and b: "J b \<le> 0" and t: "t > 0" and adj: "between J f x t pv cu"
    and f': "f' = (if pv < 0 then f(nat t := int b) else f)"
    and x': "x' = (if pv < 0 then x(b := cu) else (x(b := cu))(nat pv := int b))"
    and p': "p' = (if cu \<ge> 0 then (p(b := pv))(nat cu := int b) else p(b := pv))"
  shows "linked (J(b := t)) f' x' p'"
proof -
  have pv: "J (nat pv) = t" "x (nat pv) = cu" "nat pv \<noteq> b" if "pv \<ge> 0" using adj that b t by (auto simp: between_def)
  have cu: "J (nat cu) = t \<and> nat cu \<noteq> b \<and> (if pv < 0 then p (nat cu) < 0 else p (nat cu) = pv)" if "cu \<ge> 0"
  proof (cases "pv < 0")
    case True
    then have "f (nat t) = cu" using adj by (simp add: between_def)
    then show ?thesis using linked_first [OF l, of "nat t"] that True b t by auto
  next
    case False
    then have x: "J (nat pv) = t" "x (nat pv) = cu" "J (nat pv) > 0" using pv t by simp_all
    have j: "J (nat cu) = t" using linkedD(1) [OF l x(3)] that unfolding x(1,2) by simp
    have "p (nat cu) = int (nat pv)" using linkedD(2) [OF l x(3)] that unfolding x(2) by simp
    moreover have "nat cu \<noteq> b" using j b t by (metis not_less)
    ultimately show ?thesis using False j by simp
  qed
  have old: "x' c = (if pv \<ge> 0 \<and> c = nat pv then int b else x c)" "p' c = (if cu \<ge> 0 \<and> c = nat cu then int b else p c)" if "c \<noteq> b" for c
    using that pv cu by (auto simp: x' p')
  have new: "x' b = cu" "p' b = pv" using pv cu by (auto simp: x' p')
  have "(x' c \<ge> 0 \<longrightarrow> (J(b := t)) (nat (x' c)) = J c \<and> p' (nat (x' c)) = int c) \<and>
        (p' c \<ge> 0 \<longrightarrow> (J(b := t)) (nat (p' c)) = J c \<and> x' (nat (p' c)) = int c) \<and>
        (p' c < 0 \<longrightarrow> f' (nat (J c)) = int c)" if c: "J c > 0" "c \<noteq> b" for c
  proof (intro conjI impI)
    note C = linkedD [OF l c(1)]
    have xc: "nat (x c) \<noteq> b" if "x c \<ge> 0" using C(1) [OF that] b c(1) by auto
    have pc: "nat (p c) \<noteq> b" if "p c \<ge> 0" using C(3) [OF that] b c(1) by auto
    show "(J(b := t)) (nat (x' c)) = J c" if "x' c \<ge> 0"
      using that xc C(1) pv by (auto simp: old [OF c(2)] split: if_splits)
    show "p' (nat (x' c)) = int c" if "x' c \<ge> 0"
      using that xc C(2) cu new by (auto simp: old [OF c(2)] old split: if_splits)
    show "(J(b := t)) (nat (p' c)) = J c" if "p' c \<ge> 0"
      using that pc C(3) cu by (auto simp: old [OF c(2)] split: if_splits)
    show "x' (nat (p' c)) = int c" if "p' c \<ge> 0"
    proof (cases "cu \<ge> 0 \<and> c = nat cu")
      case False
      then have p: "p' c = p c" "p c \<ge> 0" using that by (auto simp: old(2) [OF c(2)] split: if_splits)
      have "\<not> (pv \<ge> 0 \<and> nat (p c) = nat pv)" using C(4) [OF p(2)] pv(2) False by auto
      then show ?thesis using C(4) [OF p(2)] by (auto simp: p(1) old(1) [OF pc [OF p(2)]])
    next
      case True
      then have "p' c = int b" using old(2) [OF c(2)] by simp
      then show ?thesis using True new by simp
    qed
    show "f' (nat (J c)) = int c" if "p' c < 0"
    proof -
      have "\<not> (cu \<ge> 0 \<and> c = nat cu)" "p c < 0" using that by (auto simp: old [OF c(2)] split: if_splits)
      moreover have "nat (J c) \<noteq> nat t" if "pv < 0"
        using C(5) [OF \<open>p c < 0\<close>] that adj calculation(1) c(1) t by (auto simp: between_def)
      ultimately show ?thesis using C(5) by (auto simp: f')
    qed
  qed
  moreover have "(cu \<ge> 0 \<longrightarrow> (J(b := t)) (nat cu) = t \<and> p' (nat cu) = int b) \<and>
      (pv \<ge> 0 \<longrightarrow> (J(b := t)) (nat pv) = t \<and> x' (nat pv) = int b) \<and> (pv < 0 \<longrightarrow> f' (nat t) = int b)"
    using pv cu old [of "nat cu"] old [of "nat pv"] by (auto simp: f')
  moreover have "a > 0 \<and> (J(b := t)) (nat (f' a)) = int a \<and> p' (nat (f' a)) < 0" if a: "f' a \<ge> 0" for a
  proof (cases "pv < 0 \<and> a = nat t")
    case True
    then show ?thesis using t new by (auto simp: f')
  next
    case False
    then have fa: "f' a = f a" by (auto simp: f')
    note F = linked_first [OF l a [unfolded fa]]
    have nb: "nat (f a) \<noteq> b" using F b by auto
    have "\<not> (cu \<ge> 0 \<and> nat (f a) = nat cu)" using F cu False t by (auto split: if_splits)
    then show ?thesis using F nb by (simp add: fa old [OF nb])
  qed
  ultimately show ?thesis using new by (auto simp: linked_def)
qed

section \<open>Branches\<close>

lemma acc_update [simp]: "i < length xs \<Longrightarrow> acc (xs[i := v]) = (acc xs)(i := v)"
  by (auto simp: acc_def fun_eq_iff)

lemma acc_nth: "i < length xs \<Longrightarrow> xs ! i = acc xs i"
  by (simp add: acc_def)

lemma acc_bound: "acc xs i \<ge> 0 \<Longrightarrow> i < length xs"
  by (simp add: acc_def split: if_splits)

lemma stateno_brno [simp]: "stateno (brno i k) = i" "br_yes (brno i k) = k"
  by (simp_all add: stateno_def brno_def br_yes_def)

lemma brno_eq: "brno i k = b \<longleftrightarrow> stateno b = i \<and> br_yes b = k"
  by (auto simp: stateno_def brno_def br_yes_def)

lemma brno_bound [simp]: "brno i k < 2 * n \<longleftrightarrow> i < n"
  by (auto simp: brno_def)

lemma stateno_bound: "b < 2 * n \<Longrightarrow> stateno b < n"
  by (simp add: stateno_def)

lemma branch_target_brno: "i < length is \<Longrightarrow> branch_target is (brno i k) = in_j k (is ! i)"
  by (simp add: branch_target_def)

lemma branch_target_pos: "branch_target is b > 0 \<Longrightarrow> b < 2 * length is"
  by (simp add: branch_target_def split: if_splits)

lemma branch_target_update:
  assumes "i < length is"
  shows "branch_target (is[i := in_set_j k t (is ! i)]) = (branch_target is)(brno i k := t)"
proof
  fix b
  consider "b = brno i k" | "stateno b = i" "br_yes b = (\<not> k)" | "stateno b \<noteq> i"
    by (metis brno_eq)
  then show "branch_target (is[i := in_set_j k t (is ! i)]) b = ((branch_target is)(brno i k := t)) b"
    using assms stateno_bound [of b "length is"] by cases (auto simp: branch_target_def)
qed

lemma branch_target_range:
  assumes "cl_forward is" and "branch_target is b > 0"
  shows "int (stateno b) < branch_target is b" "branch_target is b < int (length is)"
  using forwardD [OF assms(1) stateno_bound [OF branch_target_pos [OF assms(2)]], of "br_yes b"] assms(2) branch_target_pos [OF assms(2)]
  by (auto simp: branch_target_def jump_ok_def)

lemma chain_position_between:
  assumes l: "linked J f (acc x) p" and t: "t > 0" and len: "\<forall>b. J b > 0 \<longrightarrow> b < length x"
    and start: "between J f (acc x) t pv cu" and pos: "chain_position x br pv cu = Some r"
  shows "between J f (acc x) t (fst r) (snd r)"
proof -
  let ?P = "\<lambda>y (br :: nat) pv cu r. y = x \<longrightarrow> between J f (acc x) t pv cu \<longrightarrow> between J f (acc x) t (fst r) (snd r)"
  have "?P x br pv cu r"
  proof (rule chain_position.raw_induct [where P = ?P, OF _ pos], intro impI, goal_cases)
    case (1 rec y b pv cu r)
    show ?case
    proof (cases "cu \<ge> 0 \<and> cu < int b")
      case True
      have "J (nat cu) = t"
      proof (cases "pv < 0")
        case True
        then show ?thesis using 1(4) linked_first(2) [OF l, of "nat t"] \<open>cu \<ge> 0 \<and> cu < int b\<close> t by (simp add: between_def)
      next
        case False
        then have "J (nat pv) > 0" "acc x (nat pv) = cu" "J (nat pv) = t" using 1(4) t by (auto simp: between_def)
        then show ?thesis using linkedD(1) [OF l, of "nat pv"] \<open>cu \<ge> 0 \<and> cu < int b\<close> by simp
      qed
      then have "between J f (acc x) t cu (x ! nat cu)" using True len t by (simp add: between_def acc_def)
      then show ?thesis using 1(1) [of x b cu "x ! nat cu" r] 1(2,3) True by simp
    next
      case False
      then have "r = (pv, cu)" using 1(2) by (auto split: if_splits)
      then show ?thesis using 1(4) by simp
    qed
  qed
  then show ?thesis using start by simp
qed

lemma chain_from_targets:
  assumes l: "linked J f (acc x) p" and t: "t > 0" and len: "\<forall>b. J b > 0 \<longrightarrow> b < length x"
    and start: "cu \<ge> 0 \<Longrightarrow> J (nat cu) = t" and chain: "chain_from x cu = Some bs"
  shows "\<forall>b\<in>set bs. J b = t"
proof -
  let ?P = "\<lambda>y cu bs. y = x \<longrightarrow> (cu \<ge> 0 \<longrightarrow> J (nat cu) = t) \<longrightarrow> (\<forall>b\<in>set bs. J b = t)"
  have "?P x cu bs"
  proof (rule chain_from.raw_induct [where P = ?P, OF _ chain], intro impI, goal_cases)
    case (1 rec y cu bs)
    show ?case
    proof (cases "cu \<ge> 0")
      case True
      then obtain bs' where bs: "rec x (x ! nat cu) = Some bs'" "bs = nat cu # bs'"
        using 1(2,3) by (auto split: Option.bind_splits)
      have j: "J (nat cu) = t" "J (nat cu) > 0" using 1(4) True t by auto
      have a: "acc x (nat cu) = x ! nat cu" using len j(2) by (simp add: acc_def)
      have "J (nat (x ! nat cu)) = t" if "x ! nat cu \<ge> 0"
        using linkedD(1) [OF l j(2)] that unfolding a j(1) by simp
      then have "\<forall>b\<in>set bs'. J b = t" using 1(1) [OF bs(1)] by blast
      then show ?thesis by (simp add: bs(2) j(1))
    next
      case False
      then show ?thesis using 1(2) by (auto split: if_splits)
    qed
  qed
  then show ?thesis using start by simp
qed

lemma set_branch_unfold:
  "set_branch a k t s =
     do {
       let s' = unlink_branch (brno a k) (in_j k (do_insn s ! a)) s;
       s'' \<leftarrow> (if t > 0 then
                do {
                  (prev, cur) \<leftarrow> chain_position (do_pred_next s') (brno a k) (- 1) (do_pred_first s' ! nat t);
                  Some (insert_branch (brno a k) t prev cur s')
                }
              else Some s');
       Some (s''\<lparr> do_insn := (do_insn s'')[a := in_set_j k t (do_insn s ! a)] \<rparr>)
     }"
  by (simp add: set_branch_def unlink_branch_def insert_branch_def Let_def)

lemma chains_of_nonpos: "chains_of J s \<Longrightarrow> J b \<le> 0 \<Longrightarrow> t \<le> 0 \<Longrightarrow> chains_of (J(b := t)) s"
  by (simp add: chains_of_def linked_nonpos)

lemma chains_of_unlink:
  assumes c: "chains_of J s"
  shows "chains_of (J(br := min 0 (J br))) (unlink_branch br (J br) s) \<and> do_insn (unlink_branch br (J br) s) = do_insn s"
proof (cases "J br > 0")
  case True
  let ?x = "acc (do_pred_next s)" and ?p = "acc (do_pred_prev s)" and ?f = "acc (do_pred_first s)"
  have l: "linked J ?f ?x ?p" and rng: "\<And>b. J b > 0 \<Longrightarrow> b < 2 * length (do_insn s) \<and> J b < int (length (do_insn s))"
    and len: "length (do_pred_first s) = length (do_insn s)" "length (do_pred_next s) = 2 * length (do_insn s)"
      "length (do_pred_prev s) = 2 * length (do_insn s)" using c by (auto simp: chains_of_def)
  have acc: "do_pred_prev s ! br = ?p br" "do_pred_next s ! br = ?x br" using rng [OF True] len by (auto simp: acc_def)
  have b: "nat (?p br) < 2 * length (do_insn s)" if "?p br \<ge> 0" using linkedD(3) [OF l True that] rng True by simp
  have b': "nat (?x br) < 2 * length (do_insn s)" if "?x br \<ge> 0" using linkedD(1) [OF l True that] rng True by simp
  have b'': "nat (J br) < length (do_insn s)" using rng [OF True] True by linarith
  have m: "min 0 (J br) = 0" using True by simp
  have "linked (J(br := 0)) (acc (do_pred_first (unlink_branch br (J br) s))) (acc (do_pred_next (unlink_branch br (J br) s)))
    (acc (do_pred_prev (unlink_branch br (J br) s)))"
    by (rule linked_remove [OF l True order_refl])
      (use True b b' b'' len in \<open>auto simp: unlink_branch_def Let_def acc\<close>)
  moreover have "do_insn (unlink_branch br (J br) s) = do_insn s"
    "length (do_pred_first (unlink_branch br (J br) s)) = length (do_insn s)"
    "length (do_pred_next (unlink_branch br (J br) s)) = 2 * length (do_insn s)"
    "length (do_pred_prev (unlink_branch br (J br) s)) = 2 * length (do_insn s)"
    using len by (simp_all add: unlink_branch_def Let_def)
  ultimately show ?thesis unfolding m chains_of_def using rng by auto
next
  case False
  then show ?thesis using c by (simp add: unlink_branch_def min_def not_less)
qed

lemma chains_of_insert:
  assumes c: "chains_of J s" and b: "J br \<le> 0" "br < 2 * length (do_insn s)" and t: "t > 0" "t < int (length (do_insn s))"
    and adj: "between J (acc (do_pred_first s)) (acc (do_pred_next s)) t pv cu"
  shows "chains_of (J(br := t)) (insert_branch br t pv cu s) \<and> do_insn (insert_branch br t pv cu s) = do_insn s"
proof -
  let ?x = "acc (do_pred_next s)" and ?p = "acc (do_pred_prev s)" and ?f = "acc (do_pred_first s)"
  have l: "linked J ?f ?x ?p" and rng: "\<And>b. J b > 0 \<Longrightarrow> b < 2 * length (do_insn s) \<and> J b < int (length (do_insn s))"
    and len: "length (do_pred_first s) = length (do_insn s)" "length (do_pred_next s) = 2 * length (do_insn s)"
      "length (do_pred_prev s) = 2 * length (do_insn s)" using c by (auto simp: chains_of_def)
  have pv: "nat pv < 2 * length (do_insn s)" if "pv \<ge> 0" using adj that rng t by (auto simp: between_def)
  have cu: "nat cu < 2 * length (do_insn s)" if "cu \<ge> 0"
  proof (cases "pv < 0")
    case True
    then show ?thesis using linked_first(2) [OF l, of "nat t"] adj that rng t by (simp add: between_def)
  next
    case False
    then have "J (nat pv) > 0" "?x (nat pv) = cu" using adj t by (auto simp: between_def)
    then show ?thesis using linkedD(1) [OF l, of "nat pv"] that rng by simp
  qed
  have "linked (J(br := t)) (acc (do_pred_first (insert_branch br t pv cu s))) (acc (do_pred_next (insert_branch br t pv cu s)))
    (acc (do_pred_prev (insert_branch br t pv cu s)))"
    by (rule linked_insert [OF l b(1) t(1) adj])
      (use pv cu len b t in \<open>auto simp: insert_branch_def Let_def\<close>)
  moreover have "do_insn (insert_branch br t pv cu s) = do_insn s"
    "length (do_pred_first (insert_branch br t pv cu s)) = length (do_insn s)"
    "length (do_pred_next (insert_branch br t pv cu s)) = 2 * length (do_insn s)"
    "length (do_pred_prev (insert_branch br t pv cu s)) = 2 * length (do_insn s)"
    using len by (simp_all add: insert_branch_def Let_def)
  ultimately show ?thesis unfolding chains_of_def using rng b t by auto
qed

lemma set_branch_moved:
  assumes m: "moved is0 (do_insn s)" and c: "pred_chains s" and a: "a < length is0" and t: "jump_ok (length is0) a t"
    and set: "set_branch a k t s = Some s'"
  shows "moved is0 (do_insn s') \<and> pred_chains s'"
proof -
  let ?is = "do_insn s" and ?br = "brno a k"
  define J where "J = branch_target ?is"
  define s1 where "s1 = unlink_branch ?br (J ?br) s"
  have len: "length ?is = length is0" using m by (simp add: moved_def)
  have j: "in_j k (?is ! a) = J ?br" using a len by (simp add: J_def branch_target_brno)
  have c1: "chains_of (J(?br := min 0 (J ?br))) s1" and i1: "do_insn s1 = ?is"
    using chains_of_unlink [OF c, of ?br] by (simp_all add: s1_def J_def)
  obtain s2 where s2: "chains_of (J(?br := t)) s2" "do_insn s2 = ?is" and s': "s' = s2\<lparr> do_insn := ?is[a := in_set_j k t (?is ! a)] \<rparr>"
  proof (cases "t > 0")
    case False
    then have "chains_of (J(?br := t)) s1" using chains_of_nonpos [OF c1, of ?br t] by simp
    then show ?thesis using that False set i1 by (simp add: set_branch_unfold j s1_def [symmetric])
  next
    case True
    obtain pv cu where pos: "chain_position (do_pred_next s1) ?br (- 1) (do_pred_first s1 ! nat t) = Some (pv, cu)"
      and s': "s' = (insert_branch ?br t pv cu s1)\<lparr> do_insn := (do_insn (insert_branch ?br t pv cu s1))[a := in_set_j k t (?is ! a)] \<rparr>"
      using set True by (auto simp: set_branch_unfold j s1_def [symmetric] split: Option.bind_splits)
    let ?J = "J(?br := min 0 (J ?br))"
    have tn: "t < int (length (do_insn s1))" using t True len by (auto simp: jump_ok_def i1)
    have l: "linked ?J (acc (do_pred_first s1)) (acc (do_pred_next s1)) (acc (do_pred_prev s1))"
      and r: "\<forall>b. ?J b > 0 \<longrightarrow> b < length (do_pred_next s1)" and lf: "length (do_pred_first s1) = length (do_insn s1)"
      using c1 by (auto simp: chains_of_def)
    have "nat t < length (do_pred_first s1)" using True tn lf by linarith
    then have st: "between ?J (acc (do_pred_first s1)) (acc (do_pred_next s1)) t (- 1) (do_pred_first s1 ! nat t)"
      by (simp add: between_def acc_def)
    have adj: "between ?J (acc (do_pred_first s1)) (acc (do_pred_next s1)) t pv cu"
      using chain_position_between [OF l True r st pos] by simp
    have "chains_of (?J(?br := t)) (insert_branch ?br t pv cu s1) \<and> do_insn (insert_branch ?br t pv cu s1) = do_insn s1"
      by (rule chains_of_insert [OF c1 _ _ True tn adj]) (use a len i1 in auto)
    then show ?thesis by (intro that [of "insert_branch ?br t pv cu s1"]) (use s' i1 in simp_all)
  qed
  have bt: "branch_target (?is[a := in_set_j k t (?is ! a)]) = J(?br := t)"
    unfolding J_def by (rule branch_target_update) (use a len in simp)
  have "pred_chains s'" using s2 by (simp add: s' bt chains_of_def)
  moreover have fw: "cl_forward ?is" using m by (simp add: moved_def)
  have "jump_ok (length ?is) a (in_j q (in_set_j k t (?is ! a)))" for q
    using forwardD [OF fw, of a q] a t by (cases q; cases k) (simp_all add: len in_j_def in_set_j_def)
  then have "cl_forward (do_insn s')" using forward_update [OF fw] by (simp add: s')
  moreover have "same_test (do_insn s' ! i) (is0 ! i)" if "i < length is0" for i
    using that m a len by (cases "i = a") (auto simp: s' moved_def)
  ultimately show ?thesis using len by (simp add: moved_def s')
qed

lemma set_branches_moved:
  "moved is0 (do_insn s) \<Longrightarrow> pred_chains s \<Longrightarrow> \<forall>b\<in>set bs. stateno b < a \<Longrightarrow> a < length is0 \<Longrightarrow> jump_ok (length is0) a t \<Longrightarrow>
    set_branches bs t s = Some s' \<Longrightarrow> moved is0 (do_insn s') \<and> pred_chains s'"
proof (induction bs arbitrary: s)
  case (Cons b bs)
  obtain s1 where s1: "set_branch (stateno b) (br_yes b) t s = Some s1" "set_branches bs t s1 = Some s'"
    using Cons.prems(6) by (auto split: Option.bind_splits)
  have "jump_ok (length is0) (stateno b) t" "stateno b < length is0" using Cons.prems(3-5) by (auto simp: jump_ok_def)
  then have "moved is0 (do_insn s1) \<and> pred_chains s1" using set_branch_moved [OF Cons.prems(1,2) _ _ s1(1)] by blast
  then show ?case using Cons.IH [of s1] Cons.prems s1 by auto
qed simp

section \<open>Making the lists\<close>

lemma link_branch_upto:
  assumes up: "linked_upto (brno i k) s" and fw: "cl_forward (do_insn s)" and i: "i < length (do_insn s)"
  shows "linked_upto (Suc (brno i k)) (link_branch i k (do_insn s ! i) s) \<and> do_insn (link_branch i k (do_insn s ! i) s) = do_insn s"
proof -
  let ?b = "brno i k" and ?t = "in_j k (do_insn s ! i)" and ?J = "\<lambda>b. if b < brno i k then branch_target (do_insn s) b else 0"
  have c: "chains_of ?J s" and pr: "\<And>b. b < 2 * length (do_insn s) \<Longrightarrow> ?b \<le> b \<Longrightarrow> do_pred_prev s ! b = - 1"
    using up by (auto simp: linked_upto_def)
  have J: "(\<lambda>b. if b < Suc ?b then branch_target (do_insn s) b else 0) = ?J(?b := ?t)"
    using i by (auto simp: fun_eq_iff less_Suc_eq branch_target_brno)
  show ?thesis
  proof (cases "?t > 0")
    case False
    then have "chains_of (?J(?b := ?t)) s" by (intro chains_of_nonpos [OF c]) simp_all
    then show ?thesis using False pr by (simp add: linked_upto_def link_branch_def J)
  next
    case True
    let ?c = "do_pred_first s ! nat ?t"
    have tn: "?t < int (length (do_insn s))" using forwardD [OF fw i, of k] True by (auto simp: jump_ok_def)
    have l: "linked ?J (acc (do_pred_first s)) (acc (do_pred_next s)) (acc (do_pred_prev s))"
      and len: "length (do_pred_first s) = length (do_insn s)" "length (do_pred_prev s) = 2 * length (do_insn s)"
      using c by (auto simp: chains_of_def)
    have first: "acc (do_pred_first s) (nat ?t) = ?c" using True tn len(1) by (simp add: acc_def nat_less_iff)
    have eq: "link_branch i k (do_insn s ! i) s = insert_branch ?b ?t (- 1) ?c s"
      using True pr [of ?b] i len(2) list_update_id [of "do_pred_prev s" ?b]
      by (simp add: link_branch_def insert_branch_def Let_def)
    have ci: "chains_of (?J(?b := ?t)) (insert_branch ?b ?t (- 1) ?c s) \<and> do_insn (insert_branch ?b ?t (- 1) ?c s) = do_insn s"
      by (rule chains_of_insert [OF c]) (use True tn i first in \<open>auto simp: between_def\<close>)
    moreover have "do_pred_prev (insert_branch ?b ?t (- 1) ?c s) ! b = - 1" if "b < 2 * length (do_insn s)" "Suc ?b \<le> b" for b
    proof -
      have "nat ?c < ?b" if "?c \<ge> 0" using linked_first(2) [OF l, of "nat ?t"] that True unfolding first by (simp split: if_splits)
      then show ?thesis using that pr by (auto simp: insert_branch_def Let_def)
    qed
    ultimately show ?thesis unfolding linked_upto_def eq conjunct2 [OF ci] J by simp
  qed
qed

lemma link_branches_upto:
  "linked_upto (2 * i) s \<Longrightarrow> cl_forward (do_insn s) \<Longrightarrow> i \<le> length (do_insn s) \<Longrightarrow> xs = drop i (do_insn s) \<Longrightarrow>
    linked_upto (2 * length (do_insn s)) (link_branches i xs s) \<and> do_insn (link_branches i xs s) = do_insn s"
proof (induction xs arbitrary: i s)
  case (Cons x xs)
  have i: "i < length (do_insn s)" and x: "x = do_insn s ! i" and xs: "xs = drop (Suc i) (do_insn s)"
    using Cons.prems(3,4) by (metis Cons.prems(4) drop_eq_Nil leI list.distinct(1), metis nth_via_drop, metis drop_Suc list.sel(3) tl_drop)
  define s1 where "s1 = link_branch i False x s"
  define s2 where "s2 = link_branch i True x s1"
  have br: "brno i False = 2 * i" "brno i True = Suc (2 * i)" by (simp_all add: brno_def)
  have s1: "linked_upto (Suc (2 * i)) s1 \<and> do_insn s1 = do_insn s"
    using link_branch_upto [of i False s] Cons.prems(1,2) i by (simp add: br s1_def x)
  then have "linked_upto (2 * Suc i) s2 \<and> do_insn s2 = do_insn s"
    using link_branch_upto [of i True s1] Cons.prems(2) i by (simp add: br s2_def x)
  then show ?case using Cons.IH [of "Suc i" s2] Cons.prems(2) i xs by (simp add: s1_def s2_def)
qed simp

lemma acc_replicate [simp]: "acc (replicate n (- 1)) i = - 1"
  by (simp add: acc_def)

lemma init_predecessors_chains:
  assumes "cl_forward (do_insn s)" and "do_pred_first s = [] \<or> pred_chains s"
  shows "pred_chains (init_predecessors s) \<and> do_insn (init_predecessors s) = do_insn s"
proof (cases "do_pred_first s = []")
  case True
  let ?n = "length (do_insn s)"
  define s0 where "s0 = s\<lparr> do_pred_first := replicate ?n (- 1), do_pred_next := replicate (2 * ?n) (- 1), do_pred_prev := replicate (2 * ?n) (- 1) \<rparr>"
  have up: "linked_upto (2 * 0) s0" by (simp add: linked_upto_def chains_of_def linked_def s0_def)
  have i0: "do_insn s0 = do_insn s" by (simp add: s0_def)
  have r: "linked_upto (2 * ?n) (link_branches 0 (do_insn s) s0) \<and> do_insn (link_branches 0 (do_insn s) s0) = do_insn s"
    by (rule link_branches_upto [OF up, unfolded i0]) (simp_all add: assms(1))
  have t: "(\<lambda>b. if b < 2 * ?n then branch_target (do_insn s) b else 0) = branch_target (do_insn s)"
    by (auto simp: branch_target_def)
  have eq: "init_predecessors s = link_branches 0 (do_insn s) s0" using True by (simp add: init_predecessors_def s0_def Let_def)
  show ?thesis using r unfolding eq linked_upto_def conjunct2 [OF r] t by simp
qed (use assms in \<open>auto simp: init_predecessors_def\<close>)

section \<open>The optimiser\<close>

text \<open>The predecessors of an instruction are in front of it.\<close>

lemma predecessors_before:
  assumes "pred_chains s" and "cl_forward (do_insn s)" and a: "a < length (do_insn s)"
    and ch: "chain_from (do_pred_next s) (do_pred_first s ! a) = Some bs"
  shows "\<forall>b\<in>set bs. stateno b < a"
proof (cases "do_pred_first s ! a \<ge> 0")
  case True
  have l: "linked (branch_target (do_insn s)) (acc (do_pred_first s)) (acc (do_pred_next s)) (acc (do_pred_prev s))"
    and len: "\<forall>b. branch_target (do_insn s) b > 0 \<longrightarrow> b < length (do_pred_next s)" and lf: "length (do_pred_first s) = length (do_insn s)"
    using assms(1) by (auto simp: chains_of_def)
  have f: "acc (do_pred_first s) a = do_pred_first s ! a" using a lf by (simp add: acc_def)
  note F = linked_first [OF l, of a, unfolded f, OF True]
  have "\<forall>b\<in>set bs. branch_target (do_insn s) b = int a"
    by (rule chain_from_targets [OF l _ len _ ch]) (use F in auto)
  then show ?thesis using branch_target_range(1) [OF assms(2)] F(1) by (metis of_nat_0_less_iff of_nat_less_iff)
next
  case False
  then have "bs = []" using ch by (simp add: chain_from.simps)
  then show ?thesis by simp
qed

lemma chains_dom [simp]: "chains_of J (s\<lparr> do_dom := a \<rparr>) = chains_of J s" "chains_of J (s\<lparr> do_dom_start := b \<rparr>) = chains_of J s"
    "chains_of J (s\<lparr> do_domlist_start := c \<rparr>) = chains_of J s"
  by (simp_all add: chains_of_def)

lemma calculate_dom_unfold:
  "calculate_dom a s =
     (if length (do_domlist_start s) \<noteq> a + 1 \<or> length (do_dom_start s) - 1 \<noteq> last (do_domlist_start s) \<or>
         length (do_dom s) \<noteq> last (do_dom_start s) then None
      else do {
        let s = init_predecessors s;
        preds \<leftarrow> chain_from (do_pred_next s) (do_pred_first s ! a);
        (doms, pdom, pdom_end) \<leftarrow> collect_preds s preds [0..<length preds] (do_dom s, [], []);
        (s', pdom) \<leftarrow> dom_lists a preds doms pdom pdom_end s;
        dom_close a pdom (length (do_dom_start s)) s'
      })"
  unfolding calculate_dom_def dom_lists_def dom_close_def Let_def by (simp cong: if_cong)

lemma dom_lists_moved:
  assumes m: "moved is0 (do_insn s)" and c: "pred_chains s" and a: "a < length is0" and before: "\<forall>b\<in>set preds. stateno b < a"
    and s2: "dom_lists a preds doms pdom pdom_end s = Some (s2, pd)"
  shows "moved is0 (do_insn s2) \<and> pred_chains s2"
proof -
  have fw: "cl_forward (do_insn s)" and len: "length (do_insn s) = length is0" using m by (auto simp: moved_def)
  have jump: "jump_ok (length is0) a (in_j k (do_insn s ! a))" for k using forwardD [OF fw, of a k] a len by simp
  consider d b where "s2 = s\<lparr> do_dom := d, do_dom_start := b \<rparr>" | d where "s2 = s\<lparr> do_dom := d \<rparr>"
    | d b k where "set_branches preds (in_j k (do_insn s ! a)) (s\<lparr> do_dom := d, do_dom_start := b \<rparr>) = Some s2"
    using s2 unfolding dom_lists_def by (auto simp: Let_def split: if_splits Option.bind_splits)
  then show ?thesis
  proof cases
    case (3 d b k)
    show ?thesis by (rule set_branches_moved [OF _ _ before a jump 3]) (use m c in simp_all)
  qed (use m c in simp_all)
qed

lemma dom_close_moved:
  assumes m: "moved is0 (do_insn s)" and c: "pred_chains s" and a: "a < length is0" and s': "dom_close a pdom n s = Some s'"
  shows "moved is0 (do_insn s') \<and> pred_chains s'"
proof -
  have never: "jump_ok (length is0) a j_never" by (simp add: jump_ok_def j_never_def)
  consider "do_insn s' = do_insn s" "pred_chains s'"
    | d b s3 s4 where "set_branch a False j_never (s\<lparr> do_dom := d, do_dom_start := b \<rparr>) = Some s3" "set_branch a True j_never s3 = Some s4"
      "do_insn s' = do_insn s4" "pred_chains s' = pred_chains s4"
    using s' c unfolding dom_close_def by (auto simp: Let_def split: if_splits Option.bind_splits)
  then show ?thesis
  proof cases
    case (2 d b s3 s4)
    have "moved is0 (do_insn s3) \<and> pred_chains s3" by (rule set_branch_moved [OF _ _ a never 2(1)]) (use m c in simp_all)
    then show ?thesis using set_branch_moved [OF _ _ a never 2(2)] 2(3,4) by simp
  qed (use m in simp)
qed

lemma calculate_dom_moved:
  assumes m: "moved is0 (do_insn s)" and c: "do_pred_first s = [] \<or> pred_chains s" and a: "a < length is0"
    and calc: "calculate_dom a s = Some s'"
  shows "moved is0 (do_insn s') \<and> pred_chains s'"
proof -
  define s0 where "s0 = init_predecessors s"
  have fw: "cl_forward (do_insn s)" and len: "length (do_insn s) = length is0" using m by (auto simp: moved_def)
  have s0: "pred_chains s0" "do_insn s0 = do_insn s" using init_predecessors_chains [OF fw c] unfolding s0_def by blast+
  obtain preds doms pdom pdom_end s1 pd where ch: "chain_from (do_pred_next s0) (do_pred_first s0 ! a) = Some preds"
    and l: "dom_lists a preds doms pdom pdom_end s0 = Some (s1, pd)" and cl: "dom_close a pd (length (do_dom_start s0)) s1 = Some s'"
    using calc unfolding calculate_dom_unfold s0_def [symmetric] by (auto split: if_splits Option.bind_splits)
  have "\<forall>b\<in>set preds. stateno b < a" using predecessors_before [OF s0(1) _ _ ch] fw a len by (simp add: s0(2))
  then have "moved is0 (do_insn s1) \<and> pred_chains s1" using dom_lists_moved [OF _ s0(1) a _ l] m s0(2) by simp
  then show ?thesis using dom_close_moved [OF _ _ a cl] by blast
qed

text \<open>The ways of a branch lead forward.\<close>

lemma shift_loop_forward:
  assumes fw: "cl_forward (do_insn s)" and st: "jump_ok (length (do_insn s)) a t" and way: "shift_loop s facts t = Some way"
  shows "way \<noteq> [] \<and> (\<forall>u\<in>set way. jump_ok (length (do_insn s)) a u)"
proof -
  let ?n = "length (do_insn s)"
  let ?P = "\<lambda>s' (facts' :: nat list) t way. s' = s \<longrightarrow> jump_ok ?n a t \<longrightarrow> way \<noteq> [] \<and> (\<forall>u\<in>set way. jump_ok ?n a u)"
  have "?P s facts t way"
  proof (rule shift_loop.raw_induct [where P = ?P, OF _ way], intro impI, goal_cases)
    case (1 rec s' facts' t way)
    show ?case
    proof (cases "t > 0 \<and> find (\<lambda>b. br_implies s b (nat t) \<or> br_implies_not s b (nat t)) facts' \<noteq> None")
      case True
      then obtain b way' where w: "rec s facts' (in_j (br_implies s b (nat t)) (do_insn s ! nat t)) = Some way'" "way = t # way'"
        using 1(2,3) by (auto split: Option.bind_splits)
      have "nat t < ?n" "int a < t" using True 1(4) by (auto simp: jump_ok_def)
      then have "jump_ok ?n a (in_j k (do_insn s ! nat t))" for k using forwardD [OF fw, of "nat t" k] by (auto simp: jump_ok_def)
      then show ?thesis using 1(1) [OF w(1)] 1(4) by (simp add: w(2))
    next
      case False
      then have "way = [t]" using 1(2,3) by (auto split: if_splits option.splits)
      then show ?thesis using 1(4) by simp
    qed
  qed
  then show ?thesis using st by simp
qed

lemma dom_shift_branch_forward:
  assumes "cl_forward (do_insn s)" and "jump_ok (length (do_insn s)) a t" and "dom_shift_branch br t d e s = Some (way, s')"
  shows "way \<noteq> [] \<and> (\<forall>u\<in>set way. jump_ok (length (do_insn s)) a u) \<and> (\<exists>doms. s' = s\<lparr> do_dom := doms \<rparr>)"
proof -
  obtain doms facts where s': "s' = s\<lparr> do_dom := doms \<rparr>" and way: "shift_loop (s\<lparr> do_dom := doms \<rparr>) facts t = Some way"
    using assms(3) by (auto simp: dom_shift_branch_def Let_def split: if_splits Option.bind_splits)
  then show ?thesis using shift_loop_forward [of "s\<lparr> do_dom := doms \<rparr>" a t facts way] assms(1,2) by auto
qed

lemma shift_all_forward:
  "cl_forward (do_insn s) \<Longrightarrow> jump_ok (length (do_insn s)) a t \<Longrightarrow> shift_all br t ds s = Some (ways, s') \<Longrightarrow>
    length ways = length ds \<and> (\<forall>w\<in>set ways. w \<noteq> [] \<and> (\<forall>u\<in>set w. jump_ok (length (do_insn s)) a u)) \<and> (\<exists>doms. s' = s\<lparr> do_dom := doms \<rparr>)"
proof (induction ds arbitrary: s ways)
  case Nil
  then show ?case by (auto intro: exI [of _ "do_dom s"])
next
  case (Cons d ds)
  obtain way s1 ways' where w: "dom_shift_branch br t (do_dom_start s ! d) (do_dom_start s ! (d + 1)) s = Some (way, s1)"
    "shift_all br t ds s1 = Some (ways', s')" "ways = way # ways'"
    using Cons.prems(3) by (auto split: Option.bind_splits)
  note d = dom_shift_branch_forward [OF Cons.prems(1,2) w(1)]
  then have "do_insn s1 = do_insn s" by auto
  then show ?case using Cons.IH [OF _ _ w(2)] Cons.prems(1,2) d by (auto simp: w(3))
qed

lemma advance_to_result:
  assumes "advance_to v stop x pos = Some q"
  shows "\<not> (q < stop \<and> v ! q < x)"
  by (rule advance_to.raw_induct [where P = "\<lambda>v stop x pos q. \<not> (q < stop \<and> v ! q < x)" and xa = "(((v, stop), x), pos)",
        unfolded prod.case, OF _ assms])
    (auto split: if_splits)

text \<open>What the intersection of lists puts out is in the vector.\<close>

lemma intersect_loop_subset:
  assumes stop: "\<forall>q\<in>set stop. q \<le> length v" "stop \<noteq> []" and start: "p < length stop" "k > 0 \<longrightarrow> x \<in> set v" "set out \<subseteq> set v"
    and r: "intersect_loop v stop pos x p k out = Some r"
  shows "set r \<subseteq> set v"
proof -
  let ?P = "\<lambda>v' stop' (pos :: nat list) x p k out r. v' = v \<and> stop' = stop \<longrightarrow> p < length stop \<and> (k > 0 \<longrightarrow> x \<in> set v) \<and>
    set out \<subseteq> set v \<longrightarrow> set r \<subseteq> set v"
  have "?P v stop pos x p k out r"
  proof (rule intersect_loop.raw_induct
      [where P = ?P and xa = "((((((v, stop), pos), x), p), k), out)", unfolded prod.case, OF _ r], intro impI, goal_cases)
    case (1 rec v' stop' pos x p k out r)
    show ?case
    proof (cases "k < length stop")
      case True
      then obtain q where q: "advance_to v (stop ! p) x (pos ! p) = Some q"
        and r: "(if q \<ge> stop ! p then Some out
          else rec v stop (pos[p := q]) (if v ! q > x then v ! q else x) (if p + 1 = length stop then 0 else p + 1)
                 (if v ! q > x then 1 else k + 1) out) = Some r"
        using 1(2,3) by (auto split: Option.bind_splits)
      show ?thesis
      proof (cases "q \<ge> stop ! p")
        case False
        have "stop ! p \<le> length v" using stop(1) 1(4) by simp
        then have "v ! q \<in> set v" using False by simp
        moreover have "\<not> v ! q < x" using advance_to_result [OF q] False by simp
        ultimately have "(if v ! q > x then v ! q else x) \<in> set v" by (metis linorder_less_linear)
        moreover have "(if p + 1 = length stop then 0 else p + 1) < length stop" using 1(4) by auto
        moreover have "rec v stop (pos[p := q]) (if v ! q > x then v ! q else x) (if p + 1 = length stop then 0 else p + 1)
                 (if v ! q > x then 1 else k + 1) out = Some r" using r False by simp
        ultimately show ?thesis using 1(1) 1(4) by blast
      qed (use r 1(4) in simp)
    next
      case False
      then have "rec v stop pos (x + 1) 0 0 (out @ [x]) = Some r" "k > 0" using 1(2,3) stop(2) by (auto simp: length_greater_0_conv [symmetric] simp del: length_greater_0_conv)
      then show ?thesis using 1(1) [of v stop pos "x + 1" 0 0 "out @ [x]" r] 1(4) stop(2) by simp
    qed
  qed
  then show ?thesis using start by simp
qed

lemma intersect_lists_subset:
  assumes "\<forall>q\<in>set stop. q \<le> length v" and "length start = length stop" and "intersect_lists v start stop = Some r"
  shows "set r \<subseteq> set v"
proof (cases "length stop > 1")
  case True
  then obtain a b as c d cs where "start = a # b # as" "stop = c # d # cs"
    using assms(2) by (cases start; cases "tl start"; cases stop; cases "tl stop") auto
  then have "intersect_loop v stop start (- 1) 0 0 [] = Some r" using assms(3) by (simp add: intersect_lists_def)
  then show ?thesis using intersect_loop_subset [OF assms(1), of 0 0 "- 1" "[]" start r] True by fastforce
next
  case False
  then consider "start = []" | a b where "start = [a]" "stop = [b]"
    using assms(2) by (cases start; cases "tl start"; cases stop; cases "tl stop") auto
  then show ?thesis using assms(3) by cases (auto simp: intersect_lists_def dest: in_set_takeD in_set_dropD)
qed

lemma way_ends: "q \<in> set (map2 (+) (starts_from k ways) (map length ways)) \<Longrightarrow> q \<le> k + length (concat ways)"
proof (induction ways arbitrary: k)
  case (Cons w ways)
  then show ?case using Cons.IH [of "k + length w"] by force
qed simp

lemma length_starts_from [simp]: "length (starts_from k ways) = length ways"
  by (induction ways arbitrary: k) simp_all

lemma last_common_in_ways:
  assumes "last_common_state_in_lists ways = Some c"
  shows "c \<le> 0 \<or> (\<exists>w\<in>set ways. c \<in> set w)"
proof (cases "last (hd ways) \<le> 0 \<and> list_all (\<lambda>w. last w = last (hd ways)) ways")
  case False
  then obtain common where co: "intersect_lists (concat ways) (starts_from 0 ways) (map2 (+) (starts_from 0 ways) (map length ways)) = Some common"
    and c: "common \<noteq> []" "c = last common"
    using assms unfolding last_common_state_in_lists_def Let_def by (auto split: if_splits Option.bind_splits)
  have "set common \<subseteq> set (concat ways)"
    by (rule intersect_lists_subset [OF _ _ co]) (use way_ends [of _ 0 ways] in auto)
  then show ?thesis using c last_in_set by fastforce
qed (use assms in \<open>auto simp: last_common_state_in_lists_def split: if_splits\<close>)

lemma shift_branch_moved:
  assumes m: "moved is0 (do_insn s)" and c: "pred_chains s" and a: "a < length is0" and sh: "shift_branch a k s = Some s'"
  shows "moved is0 (do_insn s') \<and> pred_chains s'"
proof -
  let ?t = "in_j k (do_insn s ! a)" and ?lo = "do_domlist_start s ! a" and ?hi = "do_domlist_start s ! (a + 1)"
  have fw: "cl_forward (do_insn s)" and len: "length (do_insn s) = length is0" using m by (auto simp: moved_def)
  have jump: "jump_ok (length (do_insn s)) a ?t" using forwardD [OF fw] a len by simp
  obtain u doms where u: "jump_ok (length is0) a u" and s': "(if u \<noteq> ?t then set_branch a k u (s\<lparr> do_dom := doms \<rparr>) else Some (s\<lparr> do_dom := doms \<rparr>)) = Some s'"
  proof (cases "?lo = ?hi \<or> ?t \<le> 0")
    case True
    then show ?thesis using sh that [of ?t "do_dom s"] jump len unfolding shift_branch_def by simp
  next
    case False
    then obtain ways s1 u where w: "shift_all (brno a k) ?t [?lo..<?hi] s = Some (ways, s1)"
      and u: "(if ?lo + 1 = ?hi then Some (last (hd ways)) else last_common_state_in_lists ways) = Some u"
      and s': "(if u \<noteq> ?t then set_branch a k u s1 else Some s1) = Some s'"
      using sh unfolding shift_branch_def Let_def by (auto split: if_splits Option.bind_splits)
    note W = shift_all_forward [OF fw jump w]
    have "jump_ok (length is0) a u"
    proof (cases "?lo + 1 = ?hi")
      case True
      then have "length ways = 1" using W by simp
      then obtain w where "ways = [w]" by (auto simp: length_Suc_conv)
      then show ?thesis using W u True len last_in_set [of w] by auto
    next
      case False
      then have "last_common_state_in_lists ways = Some u" using u by simp
      from last_common_in_ways [OF this] show ?thesis using W len by (auto simp: jump_ok_def)
    qed
    then show ?thesis using that W s' by auto
  qed
  show ?thesis
  proof (cases "u = ?t")
    case False
    then have "set_branch a k u (s\<lparr> do_dom := doms \<rparr>) = Some s'" using s' by simp
    then show ?thesis by (rule set_branch_moved [OF _ _ a u, rotated 2]) (use m c in simp_all)
  qed (use s' m c in auto)
qed

lemma dominator_run_moved:
  assumes "moved is0 (do_insn s)" and "do_pred_first s = [] \<or> pred_chains s" and "a < length is0" and "dominator_run a s = Some s'"
  shows "moved is0 (do_insn s') \<and> pred_chains s'"
proof -
  obtain s1 s2 where r: "calculate_dom a s = Some s1" "shift_branch a True s1 = Some s2" "shift_branch a False s2 = Some s'"
    using assms(4) by (auto simp: dominator_run_def split: Option.bind_splits)
  show ?thesis
    using calculate_dom_moved [OF assms(1-3) r(1)] shift_branch_moved [OF _ _ assms(3) r(2)] shift_branch_moved [OF _ _ assms(3) r(3)] by blast
qed

lemma dominator_runs_moved:
  "moved is0 (do_insn s) \<Longrightarrow> do_pred_first s = [] \<or> pred_chains s \<Longrightarrow> \<forall>a\<in>set as. a < length is0 \<Longrightarrow> dominator_runs as s = Some s' \<Longrightarrow>
    moved is0 (do_insn s')"
proof (induction as arbitrary: s)
  case (Cons a as)
  obtain s1 where s1: "dominator_run a s = Some s1" "dominator_runs as s1 = Some s'" using Cons.prems(4) by (auto split: Option.bind_splits)
  then show ?case using Cons.IH [of s1] Cons.prems dominator_run_moved [OF Cons.prems(1,2) _ s1(1)] by auto
qed simp

text \<open>The optimiser keeps the tests, and jumps lead forward in the program it returns.\<close>

lemma pg_dominators_moved:
  assumes fw: "cl_forward (pg_insn g)" and g': "pg_dominators g = Some g'"
  shows "moved (pg_insn g) (pg_insn g') \<and> pg_align_offset g' = pg_align_offset g \<and> pg_output_everything g' = pg_output_everything g"
proof -
  obtain s s' where s: "dominator_optimizer (pg_insn g) = Some s" "dominator_runs [0..<length (pg_insn g)] s = Some s'"
    and eq: "g' = g\<lparr> pg_insn := do_insn s' \<rparr>"
    using g' by (auto simp: pg_dominators_def split: Option.bind_splits)
  have "do_insn s = pg_insn g" "do_pred_first s = []" using s(1) by (auto simp: dominator_optimizer_def Let_def split: Option.bind_splits)
  then have "moved (pg_insn g) (do_insn s')"
    using dominator_runs_moved [of "pg_insn g" s "[0..<length (pg_insn g)]" s'] s(2) fw by (simp add: moved_def)
  then show ?thesis by (simp add: eq)
qed

end
