(* ===== verification/Click_ClassElement.thy ===== *)
theory Click_ClassElement
  imports Click_ClassBuild Click_DomSafe
begin

unbundle bit_operations_syntax

text \<open>
  The element \<open>Classifier\<close> as a whole. The passes of the optimiser keep what a program decides: sorting and removing states for every
  packet, combining tests for packets that have all bytes the program looks at. The dominator optimiser does not keep it in general;
  the lemmas at the end are configurations that show where it goes wrong. The classifiers of the router scripts are optimised correctly.
\<close>

section \<open>Auxiliary definitions\<close>

text \<open>A packet has the bytes \<open>bs\<close> at \<open>off\<close>.\<close>

definition has_bytes :: "bytes \<Rightarrow> nat \<Rightarrow> bytes \<Rightarrow> bool" where
  "has_bytes d off bs \<longleftrightarrow> off + length bs \<le> length d \<and> take (length bs) (drop off d) = bs"

text \<open>What an element emits for the result of a program.\<close>

definition to_output :: "nat \<Rightarrow> int \<Rightarrow> packet \<Rightarrow> emission list" where
  "to_output noutputs j p = checked_output_push noutputs (nat (- j)) p"

text \<open>The classifier the router scripts put in front of ARP and IP, and the program it runs.\<close>

definition eth_conf :: "string list" where
  "eth_conf = [''12/0806 20/0001'', ''12/0806 20/0002'', ''12/0800'']"

definition eth_test :: "u16 \<Rightarrow> u32 \<Rightarrow> int \<Rightarrow> int \<Rightarrow> insn" where
  "eth_test off v no yes =
     \<lparr> in_offset = off, in_short_output = False, in_mask = 0xFFFF, in_value = v, in_no = no, in_yes = yes \<rparr>"

definition eth_program :: program where
  "eth_program =
     \<lparr> pg_insn = [eth_test 12 0x0608 3 1, eth_test 20 0x0100 2 0, eth_test 20 0x0200 j_never (- 1), eth_test 12 0x0008 j_never (- 2)],
       pg_output_everything = - 1, pg_safe_length = 22, pg_align_offset = 0 \<rparr>"

text \<open>An ARP request of 42 bytes, and the same frame cut after its 16th byte.\<close>

definition sample_frame :: "bytes \<Rightarrow> packet" where
  "sample_frame d =
     \<lparr> hroom = [], pdata = d, troom = replicate 4 0, pshared = False, mac_off = Some 0, net_off = None, trans_off = None,
       dst_ip_anno = 0, paint_anno = 0, icmp_paramprob_anno = 0, fix_ip_src_anno = 0, packet_type_anno = HOST \<rparr>"

definition sample_request :: bytes where
  "sample_request = replicate 6 0xFF @ [2, 0, 0, 0, 0, 1, 8, 6, 0, 1, 8, 0, 6, 4, 0, 1] @ replicate 20 0"

text \<open>What the patterns say of a packet, and what the program made from them returns.\<close>

definition patterns_and_program :: "string list \<Rightarrow> bytes \<Rightarrow> int option \<times> int option" where
  "patterns_and_program conf d =
     (do { (e, slots) \<leftarrow> parse_slots conf; Some (first_match d 0 slots) },
      do { (e, p) \<leftarrow> parse_program (pg_new 0) conf; pg_run (byte_test d 0) p })"

section \<open>Ready programs\<close>

lemma fold_max_ge:
  "n \<le> fold (\<lambda>i n. if f i > n then f i else n) xs n"
  "x \<in> set xs \<Longrightarrow> f x \<le> fold (\<lambda>i n. if f i > n then f i else n) xs n"
  for f :: "'a \<Rightarrow> nat"
proof (induction xs arbitrary: n)
  case (Cons y ys)
  { case 1 show ?case using Cons(1) [of "if f y > n then f y else n"] by (auto split: if_splits) }
  { case 2 show ?case using Cons(1) [of "if f y > n then f y else n"] Cons(2) [of "if f y > n then f y else n"] 2
      by (auto split: if_splits) }
qed simp_all

lemma fold_max_le:
  "n \<le> m \<Longrightarrow> \<forall>x\<in>set xs. f x \<le> m \<Longrightarrow> fold (\<lambda>i n. if f i > n then f i else n) xs n \<le> m" for f :: "'a \<Rightarrow> nat"
  by (induction xs arbitrary: n) auto

lemma required_length_align: "in_normal align x \<Longrightarrow> in_mask x \<noteq> 0 \<Longrightarrow> align < required_length x"
proof (rule ccontr)
  assume n: "in_normal align x" "in_mask x \<noteq> 0" and "\<not> align < required_length x"
  then have "required_length x \<le> align" by simp
  then have "uchar (in_mask x) k = 0" if "k < 4" for k
    using n(1) that unfolding required_length_le_iff in_normal_def by force
  then show False using uchar_eq_0 n(2) by blast
qed

lemma required_length_max: "required_length x \<le> 65539"
proof -
  have "unat (in_offset x) < 65536" using unsigned_less [of "in_offset x"] by simp
  then show ?thesis unfolding required_length_le_iff by (intro allI impI) linarith
qed

lemma pg_finish_ok:
  assumes "pg_output_everything g \<ge> 0 \<and> pg_insn g = [] \<or>
    pg_output_everything g = - 1 \<and> pg_insn g \<noteq> [] \<and> cl_wellformed (pg_align_offset g) (pg_insn g)"
  shows "pg_ok (pg_finish g)" "pg_run t (pg_finish g) = pg_run t g" "pg_align_offset (pg_finish g) = pg_align_offset g"
proof -
  define safe where "safe = fold (\<lambda>i n. if required_length i > n then required_length i else n) (pg_insn g) 0"
  have fin: "pg_finish g = g\<lparr> pg_safe_length := of_nat safe - of_nat (pg_align_offset g) \<rparr>"
    using assms by (auto simp: pg_finish_def Let_def safe_def)
  show "pg_run t (pg_finish g) = pg_run t g" "pg_align_offset (pg_finish g) = pg_align_offset g" by (simp_all add: fin pg_run_def)
  show "pg_ok (pg_finish g)"
  proof (cases "pg_output_everything g \<ge> 0")
    case False
    then have ne: "pg_insn g \<noteq> []" and wf: "cl_wellformed (pg_align_offset g) (pg_insn g)" using assms by auto
    have req: "required_length x \<le> safe" if "x \<in> set (pg_insn g)" for x unfolding safe_def by (rule fold_max_ge(2) [OF that])
    have "hd (pg_insn g) \<in> set (pg_insn g)" using ne by simp
    then have al: "pg_align_offset g < safe"
      using required_length_align [of "pg_align_offset g" "hd (pg_insn g)"] wf req [of "hd (pg_insn g)"] by (auto simp: cl_wellformed_def)
    have "safe \<le> 65539" unfolding safe_def by (rule fold_max_le) (simp_all add: required_length_max)
    then have "unat (of_nat (safe - pg_align_offset g) :: u32) = safe - pg_align_offset g"
      by (simp add: unsigned_of_nat take_bit_nat_eq_self)
    then have "unat (of_nat safe - of_nat (pg_align_offset g) :: u32) + pg_align_offset g = safe"
      using al by (simp add: of_nat_diff less_imp_le)
    then show ?thesis using ne wf req by (auto simp: fin pg_ok_def)
  qed (simp add: fin pg_ok_def)
qed

text \<open>A ready program sends every packet to the output its run returns.\<close>

lemma pg_run_total: "pg_ok g \<Longrightarrow> \<exists>j \<le> 0. pg_run t g = Some j"
  using run_total [of "pg_insn g" 0 t] by (auto simp: pg_ok_def pg_run_def cl_wellformed_def)

lemma classifier_push_run:
  assumes "pg_ok g" and "pg_align_offset g \<le> headroom p" and "3 \<le> tailroom p"
    and "pg_run (byte_test (pdata p) (pg_align_offset g)) g = Some j"
  shows "classifier_push noutputs g p = Some (to_output noutputs j p)"
  using pg_match_run [OF assms(1-3)] pg_run_total [OF assms(1), of "byte_test (pdata p) (pg_align_offset g)"] assms(4)
  by (auto simp: classifier_push_def to_output_def)

section \<open>The optimiser\<close>

text \<open>What the passes know of a program: jumps lead forward, tests are those of the classifier, and it is not decided yet.\<close>

lemma bubble_keeps: "bubble_sort_and_exprs m lo g = Some g' \<Longrightarrow> \<exists>is. g' = g\<lparr> pg_insn := is \<rparr>"
  by (auto simp: bubble_sort_and_exprs_def split: Option.bind_splits)

lemma combine_keeps: "combine_compatible_states g = Some g' \<Longrightarrow> \<exists>is. g' = g\<lparr> pg_insn := is \<rparr>"
  by (auto simp: combine_compatible_states_def split: Option.bind_splits)

lemma tests_ok_combine_inv:
  "tests_ok n g \<Longrightarrow> cl_forward (pg_insn g) \<Longrightarrow> combine_inv (pg_align_offset g) n (pg_insn g)"
  by (simp add: tests_ok_def combine_inv_def)

lemma moved_tests: "moved is0 is \<Longrightarrow> x \<in> set is \<Longrightarrow> \<exists>y\<in>set is0. same_test x y"
  unfolding moved_def by (metis in_set_conv_nth)

lemma sorted_moved:
  assumes fw: "cl_forward (pg_insn g)" and ts: "tests_ok n g"
    and g1: "bubble_sort_and_exprs m lo g = Some g1" and g2: "pg_dominators g1 = Some g2"
  shows "combine_inv (pg_align_offset g) n (pg_insn g2)" "length (pg_insn g2) = length (pg_insn g)"
    "pg_align_offset g2 = pg_align_offset g" "pg_output_everything g2 = pg_output_everything g"
proof -
  have sp: "same_program (pg_insn g) (pg_insn g1)" using bubble_sort_result [OF fw, of m lo 0] g1 by auto
  obtain xs where xs: "g1 = g\<lparr> pg_insn := xs \<rparr>" using bubble_keeps [OF g1] by blast
  have fw1: "cl_forward (pg_insn g1)" by (rule same_program_forward [OF sp fw])
  have t1: "tests_ok n g1" by (rule tests_ok_same [OF ts]) (use sp in \<open>auto simp: same_program_def xs\<close>)
  note mv = pg_dominators_moved [OF fw1 g2]
  have t2: "tests_ok n g2"
    by (rule tests_ok_same [OF t1]) (use mv in \<open>auto dest: moved_tests\<close>)
  show "combine_inv (pg_align_offset g) n (pg_insn g2)"
    using tests_ok_combine_inv [OF t2] mv xs by (simp add: moved_def)
  show "length (pg_insn g2) = length (pg_insn g)" "pg_align_offset g2 = pg_align_offset g" "pg_output_everything g2 = pg_output_everything g"
    using mv sp xs by (simp_all add: moved_def same_program_def)
qed

lemma optimize_tail:
  assumes inv: "combine_inv (pg_align_offset g) n (pg_insn g)" and ne: "pg_insn g \<noteq> []" and oe: "pg_output_everything g = - 1"
  shows "\<exists>g3. combine_compatible_states g = Some g3 \<and> pg_ok (pg_finish (remove_unused_states g3)) \<and>
    pg_align_offset (pg_finish (remove_unused_states g3)) = pg_align_offset g \<and>
    (\<forall>d. n \<le> length d + pg_align_offset g \<longrightarrow>
      pg_run (byte_test d (pg_align_offset g)) (pg_finish (remove_unused_states g3)) = pg_run (byte_test d (pg_align_offset g)) g)"
proof -
  let ?a = "pg_align_offset g"
  obtain g3 where g3: "combine_compatible_states g = Some g3" "combine_inv ?a n (pg_insn g3)" "length (pg_insn g3) = length (pg_insn g)"
    "\<And>d. n \<le> length d + ?a \<Longrightarrow> pg_run (byte_test d ?a) g3 = pg_run (byte_test d ?a) g"
    using combine_compatible_result [OF inv] by blast
  obtain xs where xs: "g3 = g\<lparr> pg_insn := xs \<rparr>" using combine_keeps [OF g3(1)] by blast
  have fw: "cl_forward (pg_insn g3)" and ne3: "pg_insn g3 \<noteq> []" using g3(2,3) ne by (auto simp: combine_inv_def)
  define g4 where "g4 = remove_unused_states g3"
  note R = remove_unused_result [OF fw ne3 g4_def]
  have al: "pg_align_offset g4 = ?a" using R [of "[]" 0] xs by simp
  have run3: "pg_run t g3 = cl_run t (pg_insn g3) 0" for t using oe xs by (simp add: pg_run_def)
  have run: "pg_run (byte_test d ?a) g4 = pg_run (byte_test d ?a) g3" for d
    using R [of d ?a] by (simp add: run3)
  have "in_normal ?a x" if x: "x \<in> set (pg_insn g4)" "\<exists>y\<in>set (pg_insn g3). same_test x y" for x
    using g3(2) x(2) by (auto simp: combine_inv_def in_normal_def same_test_def)
  then have fin: "pg_output_everything g4 \<ge> 0 \<and> pg_insn g4 = [] \<or>
    pg_output_everything g4 = - 1 \<and> pg_insn g4 \<noteq> [] \<and> cl_wellformed (pg_align_offset g4) (pg_insn g4)"
    using R [of "[]" 0] al by (auto simp: cl_wellformed_def in_interesting_def)
  note F = pg_finish_ok [OF fin]
  show ?thesis using g3(1,4) F al run by (auto simp: g4_def)
qed

text \<open>C9: of the passes of \<open>Program::optimize\<close> only the dominator optimiser can change what a program decides. Sorting the tests keeps
  it for every packet, and when the dominator optimiser returns a program, the passes behind it always end with a program
  that is ready to run and that decides every packet with the tested \<open>n\<close> bytes like the one they were given.\<close>

theorem optimize_passes_same:
  assumes "cl_forward (pg_insn g)" and "pg_insn g \<noteq> []" and "pg_output_everything g = - 1" and "tests_ok n g"
    and "bubble_sort_and_exprs m lo g = Some g1" and "pg_dominators g1 = Some g2"
  shows "(\<forall>d. pg_run (byte_test d (pg_align_offset g)) g1 = pg_run (byte_test d (pg_align_offset g)) g) \<and>
    (\<exists>g'. pg_optimize m lo g = Some g' \<and> pg_ok g' \<and> pg_align_offset g' = pg_align_offset g \<and>
      (\<forall>d. n \<le> length d + pg_align_offset g \<longrightarrow>
        pg_run (byte_test d (pg_align_offset g)) g' = pg_run (byte_test d (pg_align_offset g)) g2))"
proof -
  note S = sorted_moved [OF assms(1,4-6)]
  have "combine_inv (pg_align_offset g2) n (pg_insn g2)" "pg_insn g2 \<noteq> []" "pg_output_everything g2 = - 1" using S assms(2,3) by auto
  from optimize_tail [OF this] show ?thesis
    using bubble_sort_result [OF assms(1), of m lo "pg_align_offset g"] assms(5,6) S(3) by (auto simp: pg_optimize_def)
qed

text \<open>C8: \<open>remove_unused_states\<close> decides every packet as before, however short, and leaves either one output for all packets, or a
  program in which every instruction compares something and has two different successors, both later instructions or outputs.\<close>

theorem remove_unused_same:
  assumes "cl_forward (pg_insn g)" and "pg_insn g \<noteq> []" and "pg_output_everything g < 0"
  shows "(\<forall>d align. pg_run (byte_test d align) (remove_unused_states g) = pg_run (byte_test d align) g) \<and>
    (pg_output_everything (remove_unused_states g) \<ge> 0 \<and> pg_insn (remove_unused_states g) = [] \<or>
     pg_output_everything (remove_unused_states g) = - 1 \<and> cl_forward (pg_insn (remove_unused_states g)) \<and>
     (\<forall>x\<in>set (pg_insn (remove_unused_states g)). in_mask x \<noteq> 0 \<and> in_yes x \<noteq> in_no x))"
  using remove_unused_result [OF assms(1,2) refl] assms(3) by (auto simp: pg_run_def [of _ g] in_interesting_def)

section \<open>The element\<close>

lemma classifier_configure_program:
  assumes "classifier_configure al noutputs conf = Some (Inr (g, unused))"
  obtains slots p where "parse_slots conf = Some (0, slots)" and "build_program slots (empty_program al) = Some p"
    and "pg_optimize [] 0x7FFFFFFF p = Some g" and "length conf = noutputs"
  using assms by (auto simp: classifier_configure_def parse_program_def split: if_splits Option.bind_splits)

lemma pg_optimize_steps:
  assumes "pg_optimize m lo g = Some g'"
  obtains g1 g2 where "bubble_sort_and_exprs m lo g = Some g1" and "pg_dominators g1 = Some g2"
  using assms by (auto simp: pg_optimize_def split: Option.bind_splits)

text \<open>C5: a classifier whose configuration was accepted, with patterns within the first 65536 bytes (offsets are stored in 16 bits), never
  aborts, loops or reads outside the buffer on a packet that has the head room its alignment asks for and three bytes of tail room: its
  program takes some decision \<open>j\<close> on the bytes of the packet alone, whatever lies in front of and behind them, and the packet is handed
  unchanged to that output, or dropped when there is none. The three bytes are needed: \<open>match_reads_behind\<close>.\<close>

theorem classifier_never_aborts:
  assumes "classifier_configure al noutputs conf = Some (Inr (g, unused))" and "0 < noutputs" and "noutputs \<le> 2147483645"
    and "parse_slots conf = Some (0, slots)"
    and "\<forall>cs\<in>set slots. \<forall>c\<in>set cs. c_offset c + int (pg_align_offset (empty_program al)) + int (length (c_bytes c)) \<le> 65536"
    and "pg_align_offset (empty_program al) \<le> headroom p" and "3 \<le> tailroom p"
  shows "\<exists>j. pg_run (byte_test (pdata p) (pg_align_offset (empty_program al))) g = Some j \<and>
    classifier_push noutputs g p = Some (if 0 \<le> - j \<and> - j < int noutputs then [(nat (- j), p)] else [])"
proof -
  define align where "align = pg_align_offset (empty_program al)"
  have new: "empty_program al = pg_new align" by (simp add: align_def empty_program_def pg_new_def)
  obtain b where b: "build_program slots (pg_new align) = Some b" and opt: "pg_optimize [] 0x7FFFFFFF b = Some g"
    and len: "conf \<noteq> []" "length conf \<le> 2147483645"
    using classifier_configure_program [OF assms(1)] assms(2-4) new by auto
  have fields: "pg_insn b \<noteq> []" "cl_forward (pg_insn b)" "tests_ok 65536 b" "pg_align_offset b = align" "pg_output_everything b = - 1"
    using build_program_result [OF len assms(4), of 65536 align] b assms(5) by (auto simp: align_def)
  obtain g1 g2 where g12: "bubble_sort_and_exprs [] 0x7FFFFFFF b = Some g1" "pg_dominators g1 = Some g2"
    by (rule pg_optimize_steps [OF opt])
  note S = sorted_moved [OF fields(2,3) g12]
  have "combine_inv (pg_align_offset g2) 65536 (pg_insn g2)" "pg_insn g2 \<noteq> []" "pg_output_everything g2 = - 1" using S fields by auto
  from optimize_tail [OF this] have ok: "pg_ok g" "pg_align_offset g = align"
    using opt g12 S(3) fields(4) by (auto simp: pg_optimize_def)
  obtain j where j: "pg_run (byte_test (pdata p) (pg_align_offset g)) g = Some j" using pg_run_total [OF ok(1)] by blast
  then have "pg_match g p = Some (- j)" using pg_match_run [OF ok(1) _ assms(7)] assms(6) ok(2) by (simp add: align_def)
  then show ?thesis
    using j ok(2) by (intro exI [of _ j]) (auto simp: classifier_push_def checked_output_push_def align_def)
qed

section \<open>The classifier of the scripts\<close>

lemma eth_conf_program: "classifier_configure None 3 eth_conf = Some (Inr (eth_program, []))"
  by code_simp

lemma eth_test_simps [simp]:
  "in_offset (eth_test off v no yes) = off" "in_mask (eth_test off v no yes) = 0xFFFF" "in_value (eth_test off v no yes) = v"
  "in_no (eth_test off v no yes) = no" "in_yes (eth_test off v no yes) = yes" "\<not> in_short_output (eth_test off v no yes)"
  by (simp_all add: eth_test_def)

lemma uchar_FFFF: "k < 4 \<Longrightarrow> uchar 0xFFFF k = (if k < 2 then 0xFF else 0)"
  using less_4_cases [of k] by (auto simp: uchar_def)

lemma and_FF: "a AND 0xFF = a" for a :: byte
proof -
  have "(0xFF :: byte) = - 1" by simp
  then show ?thesis by (simp only: and.right_neutral)
qed

lemma has_two_bytes: "has_bytes d k [a, b] \<longleftrightarrow> k + 1 < length d \<and> d ! k = a \<and> d ! (k + 1) = b"
  by (cases "k + 1 < length d") (auto simp: has_bytes_def Cons_nth_drop_Suc [symmetric])

lemma eth_test_bytes:
  assumes "v AND 0xFFFF = v" and "unat off = k"
  shows "byte_test d 0 (eth_test off v no yes) \<longleftrightarrow> has_bytes d k [uchar v 0, uchar v 1]"
proof -
  have "byte_test d 0 (eth_test off v no yes) \<longleftrightarrow> (\<forall>i<2. k + i < length d \<and> d ! (k + i) = uchar v i)"
    using assms byte_test_bytes [of "eth_test off v no yes" d 0] by (force simp: uchar_FFFF and_FF cl_byte_def)
  also have "\<dots> \<longleftrightarrow> k + 1 < length d \<and> d ! k = uchar v 0 \<and> d ! (k + 1) = uchar v 1"
    by (auto simp: less_2_cases_iff all_conj_distrib)
  finally show ?thesis by (simp add: has_two_bytes)
qed

lemma eth_test_ok:
  "v AND 0xFFFF = v \<Longrightarrow> in_normal 0 (eth_test off v no yes)" "required_length (eth_test off v no yes) = unat off + 2"
  by (simp_all add: in_normal_def required_length_def uchar_FFFF)

lemma eth_program_forward: "cl_forward (pg_insn eth_program)"
  by (auto simp: cl_forward_def eth_program_def less_Suc_eq jump_ok_def j_never_def)

lemma eth_program_ok: "pg_ok eth_program"
  using eth_program_forward by (auto simp: pg_ok_def cl_wellformed_def eth_program_def eth_test_ok)

lemma eth_program_tests: "tests_ok 22 eth_program"
  by (simp add: tests_ok_def eth_program_def eth_test_ok)

lemma eth_program_run:
  "pg_run (byte_test d 0) eth_program = Some
     (if has_bytes d 12 [8, 6]
      then if has_bytes d 20 [0, 1] then 0 else if has_bytes d 20 [0, 2] then - 1 else j_never
      else if has_bytes d 12 [8, 0] then - 2 else j_never)"
proof -
  have n: "(1544 :: byte) = 8" "(256 :: byte) = 0" "(512 :: byte) = 0" by simp_all
  have b: "byte_test d 0 (eth_test 12 0x0608 no yes) \<longleftrightarrow> has_bytes d 12 [8, 6]"
    "byte_test d 0 (eth_test 20 0x0100 no yes) \<longleftrightarrow> has_bytes d 20 [0, 1]"
    "byte_test d 0 (eth_test 20 0x0200 no yes) \<longleftrightarrow> has_bytes d 20 [0, 2]"
    "byte_test d 0 (eth_test 12 0x0008 no yes) \<longleftrightarrow> has_bytes d 12 [8, 0]" for no yes
    by (simp_all add: eth_test_bytes [OF _ refl] uchar_def n)
  show ?thesis
    by (simp add: pg_run_def eth_program_def cl_run.simps b in_j_def Let_def j_never_def)
qed

text \<open>C7: the scripts' classifier \<^verbatim>\<open>12/0806 20/0001, 12/0806 20/0002, 12/0800\<close> is accepted without unused outputs, and it sends exactly the ARP
  requests to output 0, the ARP replies to output 1 and the IP packets to output 2, and drops everything else, frames too short for
  their type included.\<close>

theorem eth_classifier_ports:
  assumes "3 \<le> tailroom p"
  shows "\<exists>g. classifier_configure None 3 eth_conf = Some (Inr (g, [])) \<and>
    classifier_push 3 g p = Some
      (if has_bytes (pdata p) 12 [8, 6] \<and> has_bytes (pdata p) 20 [0, 1] then [(0, p)]
       else if has_bytes (pdata p) 12 [8, 6] \<and> has_bytes (pdata p) 20 [0, 2] then [(1, p)]
       else if has_bytes (pdata p) 12 [8, 0] then [(2, p)] else [])"
proof -
  have "pg_align_offset eth_program = 0" by (simp add: eth_program_def)
  note push = classifier_push_run [OF eth_program_ok, unfolded this, OF _ assms eth_program_run, where noutputs = 3]
  show ?thesis
    using eth_conf_program push
    by (auto simp: to_output_def checked_output_push_def j_never_def has_two_bytes)
qed

section \<open>Examples\<close>

theorem eth_classifier_ports_witness:
  "3 \<le> tailroom (sample_frame sample_request) \<and>
   (\<exists>g. classifier_configure None 3 eth_conf = Some (Inr (g, [])) \<and>
     classifier_push 3 g (sample_frame sample_request) = Some [(0, sample_frame sample_request)]) \<and>
   (\<exists>g. classifier_configure None 3 eth_conf = Some (Inr (g, [])) \<and> classifier_push 3 g (sample_frame (take 16 sample_request)) = Some [])"
proof -
  have t: "3 \<le> tailroom (sample_frame d)" for d by (simp add: sample_frame_def)
  have d: "has_bytes sample_request 12 [8, 6]" "has_bytes sample_request 20 [0, 1]"
    "\<not> has_bytes (take 16 sample_request) 20 [0, 1]" "\<not> has_bytes (take 16 sample_request) 20 [0, 2]"
    "\<not> has_bytes (take 16 sample_request) 12 [8, 0]" by code_simp+
  have p: "pdata (sample_frame d) = d" for d by (simp add: sample_frame_def)
  show ?thesis using eth_classifier_ports [OF t, unfolded p, of sample_request]
      eth_classifier_ports [OF t, unfolded p, of "take 16 sample_request"] d t by simp
qed

theorem classifier_never_aborts_witness:
  "classifier_configure None 3 eth_conf = Some (Inr (eth_program, [])) \<and>
   (\<exists>j. pg_run (byte_test sample_request 0) eth_program = Some j \<and>
     classifier_push 3 eth_program (sample_frame sample_request) =
       Some (if 0 \<le> - j \<and> - j < 3 then [(nat (- j), sample_frame sample_request)] else []))"
proof -
  let ?slots = "[[\<lparr> c_negated = False, c_offset = 12, c_bytes = [(8, 255), (6, 255)] \<rparr>,
      \<lparr> c_negated = False, c_offset = 20, c_bytes = [(0, 255), (1, 255)] \<rparr>],
     [\<lparr> c_negated = False, c_offset = 12, c_bytes = [(8, 255), (6, 255)] \<rparr>,
      \<lparr> c_negated = False, c_offset = 20, c_bytes = [(0, 255), (2, 255)] \<rparr>],
     [\<lparr> c_negated = False, c_offset = 12, c_bytes = [(8, 255), (0, 255)] \<rparr>]]"
  have slots: "parse_slots eth_conf = Some (0, ?slots)" by code_simp
  have a: "pg_align_offset (empty_program None) = 0" by code_simp
  show ?thesis
    using classifier_never_aborts [OF eth_conf_program _ _ slots, unfolded a, of "sample_frame sample_request"] eth_conf_program
    by (simp add: sample_frame_def)
qed

text \<open>Sorting and the dominator optimiser leave the optimised program alone.\<close>

theorem optimize_passes_same_witness:
  "bubble_sort_and_exprs [] 0x7FFFFFFF eth_program = Some eth_program \<and> pg_dominators eth_program = Some eth_program \<and>
   (\<exists>g'. pg_optimize [] 0x7FFFFFFF eth_program = Some g' \<and> pg_ok g' \<and>
     (\<forall>d. 22 \<le> length d \<longrightarrow> pg_run (byte_test d 0) g' = pg_run (byte_test d 0) eth_program))"
proof -
  have g: "bubble_sort_and_exprs [] 0x7FFFFFFF eth_program = Some eth_program" "pg_dominators eth_program = Some eth_program"
    by code_simp+
  have f: "cl_forward (pg_insn eth_program)" "pg_insn eth_program \<noteq> []" "pg_output_everything eth_program = - 1"
    "pg_align_offset eth_program = 0"
    by (rule eth_program_forward) (simp_all add: eth_program_def)
  show ?thesis using optimize_passes_same [OF f(1-3) eth_program_tests g] g f(4) by auto
qed

theorem remove_unused_same_witness:
  "\<exists>g. pg_insn g = [eth_test 12 0x0608 1 1, eth_test 20 0x0100 j_never 0] \<and> pg_output_everything g < 0 \<and>
    pg_insn (remove_unused_states g) = [eth_test 20 0x0100 j_never 0] \<and>
    (\<forall>d align. pg_run (byte_test d align) (remove_unused_states g) = pg_run (byte_test d align) g)"
proof -
  let ?g = "\<lparr> pg_insn = [eth_test 12 0x0608 1 1, eth_test 20 0x0100 j_never 0], pg_output_everything = - 1, pg_safe_length = 0,
    pg_align_offset = 0 \<rparr>"
  have "pg_insn (remove_unused_states ?g) = [eth_test 20 0x0100 j_never 0]" by code_simp
  moreover have "cl_forward (pg_insn ?g)" by (auto simp: cl_forward_def less_Suc_eq jump_ok_def j_never_def)
  ultimately show ?thesis using remove_unused_same [of ?g] by (intro exI [of _ ?g]) simp
qed

section \<open>Where the optimiser goes wrong\<close>

text \<open>When both branches of a state lead to the next one, \<open>calculate_dom\<close> leaves the branch out only in the last of the lists of that state.
  No packet reaches outputs 1 and 2 of this classifier, though the third pattern is the first that matches the packet.\<close>

lemma both_branches_lose_output:
  "map_option (map_sum id snd) (classifier_configure None 3 [''0/00%01 5/01'', ''!0/02%02 0/03'', ''!4/02%02 0/02'']) = Some (Inr [1, 2])"
  "map_option (first_match [2, 2, 3, 2, 0, 0, 2, 1, 3, 3, 1, 3] 0 \<circ> snd) (parse_slots [''0/00%01 5/01'', ''!0/02%02 0/03'', ''!4/02%02 0/02'']) =
    Some (- 2)"
  by code_simp+

text \<open>Two tests are combined although they treat short packets differently: the empty packet matches no pattern and goes to output 0.\<close>

lemma combined_short_packet: "patterns_and_program [''!0/02%02 2/03%03''] [] = (Some j_never, Some 0)"
  by code_simp

text \<open>What is known of the length of packets at one instruction is used for all instructions with the same test: the empty packet, which
  matches no pattern, goes to output 2.\<close>

lemma known_length_of_other_state:
  "patterns_and_program [''4/aa 0/01%01'', ''0/01%01'', ''0/00%01''] [] = (Some j_never, Some (- 2))"
  by code_simp

text \<open>Offsets are cut to 16 bits: a pattern for byte 65536 looks at byte 0.\<close>

lemma offset_wraps: "map_option (map in_offset \<circ> pg_insn \<circ> snd) (parse_program (pg_new 0) [''65536/00'']) = Some [0]"
  by code_simp

text \<open>The decision about an ARP request of 22 bytes needs the two bytes behind it: without tail room they are outside the buffer.\<close>

lemma match_reads_behind:
  "pg_match eth_program ((sample_frame (take 22 sample_request))\<lparr> troom := [] \<rparr>) = None"
  "pg_match eth_program (sample_frame (take 22 sample_request)) = Some 0"
proof -
  let ?p = "sample_frame (take 22 sample_request)" and ?q = "(sample_frame (take 22 sample_request))\<lparr> troom := [] \<rparr>"
  have d: "take 22 sample_request = [0xFF, 0xFF, 0xFF, 0xFF, 0xFF, 0xFF, 2, 0, 0, 0, 0, 1, 8, 6, 0, 1, 8, 0, 6, 4, 0, 1]"
    by (simp add: sample_request_def numeral_eq_Suc)
  have "plen ?p = 22" "plen ?q = 22" "tailroom ?p = 4" by (simp_all add: sample_frame_def d)
  moreover have "cl_load ?p 0 12 = Some 0x01000608" "cl_load ?q 0 12 = Some 0x01000608" "cl_load ?p 0 20 = Some 0x0100" "cl_load ?q 0 20 = None"
    by (simp_all add: cl_load_def ld32_def sample_frame_def pbuffer_def d get32_def get16_def get8_def le32_def le16_def)
  ultimately show "pg_match eth_program ?q = None" "pg_match eth_program ?p = Some 0"
    by (simp_all add: pg_match_def eth_program_def match_loop.simps [of _ _ _ 0] match_loop.simps [of _ _ _ "Suc 0"] in_j_def)
qed

text \<open>Two configurations on which assertions of the optimiser fail.\<close>

lemma optimizer_aborts:
  "parse_program (pg_new 0) [''!7/0200 8/00 !8/00%00'', ''5/03%01''] = None"
  "parse_program (pg_new 0) [''0/01 !4/00%00'', ''8/02''] = None"
  by code_simp+

text \<open>The search for an offset gives up when the one in the middle is greater.\<close>

lemma map_offset_misses: "map_offset 4 [(0, 10), (4, 14), (8, 18), (12, 22)] = 4"
  by code_simp

text \<open>\<open>not_implies_not\<close> holds for tests of which a packet of the known length fails the first and passes the second.\<close>

lemma not_implies_not_short:
  "let x = \<lparr> in_offset = 0, in_short_output = False, in_mask = 0xFF, in_value = 1, in_no = 0, in_yes = 0 \<rparr>;
       y = \<lparr> in_offset = 0, in_short_output = True, in_mask = 0xFFFF, in_value = 1, in_no = 0, in_yes = 0 \<rparr>
   in in_not_implies_not x y 1 \<and> \<not> byte_test [0] 0 x \<and> byte_test [0] 0 y"
  by (simp add: in_not_implies_not_def implies_short_ok_def hard_implies_short_ok_def byte_test_def required_length_def uchar_def cl_word_def
      cl_byte_def le32_def le16_def)

end
