(* ===== verification/MIP_Exchange.thy ===== *)
theory MIP_Exchange
  imports MIP_MobileNode MIP_HomeAgent MIP_ForeignAgent Click_IPElements
begin

text \<open>
  The Mobile IP elements at work together. A registration passes from the mobile node through
  the foreign agent to the home agent and back, as the routers of \<^verbatim>\<open>mn.click\<close>, \<^verbatim>\<open>fa.click\<close> and
  \<^verbatim>\<open>ha.click\<close> connect \<^verbatim>\<open>RegReq\<close>, \<^verbatim>\<open>Relay\<close>, \<^verbatim>\<open>RegRep\<close> and \<^verbatim>\<open>RegNode\<close>; traffic for a registered
  node passes through \<^verbatim>\<open>Encapsulator\<close> at the home agent and \<^verbatim>\<open>CheckIPHeader\<close>, \<^verbatim>\<open>CheckEncap\<close> and
  \<^verbatim>\<open>StripIPHeader\<close> at the foreign agent.

  Between the elements a packet goes through the forwarding paths of the routers and over the
  links. What arrives is a function \<open>net\<close> of the link-level header in front of the packet and the
  bytes that were sent; it may rewrite the first twelve bytes of the IP header except for the
  header length and the protocol: type of service, identification, time-to-live and checksum
  change on the way.
\<close>

section \<open>Delivery\<close>

definition delivered :: "bytes \<Rightarrow> bytes \<Rightarrow> bool" where
  "delivered d d' \<longleftrightarrow> length d' = length d \<and> get8 d' 0 = get8 d 0 \<and> get8 d' IP_P = get8 d IP_P \<and> drop 12 d' = drop 12 d"

definition delivers :: "(bytes \<Rightarrow> bytes \<Rightarrow> packet) \<Rightarrow> bool" where
  "delivers net \<longleftrightarrow> (\<forall>link d. \<not> pshared (net link d) \<and> (\<exists>d'. pdata (net link d) = link @ d' \<and> delivered d d'))"

lemma deliversE:
  assumes "delivers net"
  obtains d' where "pdata (net link d) = link @ d'" "delivered d d'" "\<not> pshared (net link d)"
  using assms unfolding delivers_def by blast

lemma delivered_nth: "delivered d d' \<Longrightarrow> 12 \<le> length d \<Longrightarrow> 12 \<le> i \<Longrightarrow> d' ! i = d ! i"
  unfolding delivered_def by (metis le_add_diff_inverse nth_drop)

lemma delivered_get:
  assumes "delivered d d'" and "12 \<le> length d" and "12 \<le> i"
  shows "get8 d' i = get8 d i" "get16 d' i = get16 d i" "get32 d' i = get32 d i" "get64 d' i = get64 d i"
  using delivered_nth [OF assms(1,2)] assms(3) by (simp_all add: get8_def get16_def get32_def get64_def)

lemma delivered_headers:
  assumes "delivered d d'" and "12 \<le> length d" and "12 \<le> i"
  shows "get_udp d' i = get_udp d i" "get_regreq d' i = get_regreq d i" "get_regrep d' i = get_regrep d i"
  using delivered_get [OF assms(1,2)] assms(3) by (simp_all add: get_udp_def get_regreq_def get_regrep_def)

lemma delivered_cksum:
  assumes "delivered d d'" and "ip_hl_of (get8 d 0) = 5" and "20 + n \<le> length d" and "n \<le> 131072"
  shows "transport_cksum d' 0 20 n = transport_cksum d 0 20 n"
proof -
  have len: "12 \<le> length d" "length d' = length d" using assms by (simp_all add: delivered_def)
  have "slice 20 n d' = slice 20 n d"
  proof -
    have "drop 8 (drop 12 d') = drop 8 (drop 12 d)" using assms(1) by (simp add: delivered_def)
    then show ?thesis by (simp add: slice_def)
  qed
  moreover have "get8 d' 0 = get8 d 0" "get8 d' 9 = get8 d 9" using assms(1) by (simp_all add: delivered_def)
  moreover obtain c where "transport_cksum d 0 20 n = Some c"
    "unat c = 65535 - ones_fold (wsum (slice 20 n d) + pseudo_sum (get32 d (0 + 12)) (get32 d (0 + 16)) (unat (get8 d (0 + 9))) n)"
    by (rule transport_cksum_value [of d 0 20 n]) (use assms in simp_all)
  moreover obtain c' where "transport_cksum d' 0 20 n = Some c'"
    "unat c' = 65535 - ones_fold (wsum (slice 20 n d') + pseudo_sum (get32 d' (0 + 12)) (get32 d' (0 + 16)) (unat (get8 d' (0 + 9))) n)"
    by (rule transport_cksum_value [of d' 0 20 n]) (use assms len calculation in simp_all)
  ultimately have "unat c = unat c'" "transport_cksum d 0 20 n = Some c" "transport_cksum d' 0 20 n = Some c'"
    using delivered_get(3) [OF assms(1) len(1), of 12] delivered_get(3) [OF assms(1) len(1), of 16] by simp_all
  then show ?thesis by (simp add: word_unat_eq_iff)
qed

text \<open>The same behind a link-level header.\<close>

lemma framed_cksum:
  assumes "delivered d d'" and "ip_hl_of (get8 d 0) = 5" and "length d = 20 + n" and "n \<le> 131072" and "length link = 14"
    and "transport_cksum d 0 20 n = Some 0"
  shows "udp_cksum_ok (link @ d') 14 34 n = Some True"
proof -
  have "transport_cksum (link @ d') (14 + 0) (14 + 20) n = transport_cksum (drop 14 (link @ d')) 0 20 n"
    by (rule transport_cksum_drop [symmetric]) (use assms(5) in simp)
  then have "transport_cksum (link @ d') 14 34 n = Some 0"
    using delivered_cksum [OF assms(1,2)] assms(3-6) by simp
  then show ?thesis by (rule udp_cksum_okI)
qed

lemma framed_get:
  assumes "length link = 14"
  shows "get8 (link @ d) (14 + i) = get8 d i" "get16 (link @ d) (14 + i) = get16 d i"
    "get32 (link @ d) (14 + i) = get32 d i" "get64 (link @ d) (14 + i) = get64 d i"
  using get_append [of link d i] assms by simp_all

section \<open>A registration\<close>

definition port_packet :: "nat \<Rightarrow> emission list \<Rightarrow> packet option" where
  "port_packet k out = map_option snd (find (\<lambda>x. fst x = k) out)"

text \<open>The node sends a request to the foreign agent, which relays it to the home agent; the reply
  comes back the same way. \<open>link\<close> is the link-level header in front of what \<^verbatim>\<open>Relay\<close> receives.\<close>

definition registration_round ::
  "env \<Rightarrow> (bytes \<Rightarrow> bytes \<Rightarrow> packet) \<Rightarrow> bytes \<Rightarrow> u32 \<Rightarrow> u32 \<Rightarrow> nat \<Rightarrow> nat \<Rightarrow> ipaddr \<Rightarrow> u16 \<Rightarrow> ipaddr \<Rightarrow> regreq \<Rightarrow> relay \<Rightarrow>
   regnode \<times> mninfo \<times> fa \<times> ha \<Rightarrow> (regnode \<times> mninfo \<times> fa \<times> ha) option" where
  "registration_round e net link sub1 sub2 r rnd dest lifetime coaddress rr rl st =
     (case st of (rn, m, f, h) \<Rightarrow>
      do {
        (m, sent) \<leftarrow> regreq_make_packet e sub1 sub2 r dest lifetime coaddress rr m;
        p1 \<leftarrow> sent;
        (f, out) \<leftarrow> relay_push e rnd rl (net link (pdata p1)) f;
        p2 \<leftarrow> port_packet 1 out;
        (h, out) \<leftarrow> regrep_push e (net [] (drop 14 (pdata p2))) h;
        p3 \<leftarrow> port_packet 1 out;
        (f, out) \<leftarrow> relay_push e rnd rl (net link (pdata p3)) f;
        p4 \<leftarrow> port_packet 0 out;
        (rn, m) \<leftarrow> regnode_push (net [] (pdata p4)) (rn, m);
        Some (rn, m, f, h)
      })"

lemma port_packet_single [simp]: "port_packet k [(k, p)] = Some p" by (simp add: port_packet_def)

text \<open>The first hop: the foreign agent relays the request.\<close>

lemma request_hop:
  assumes e: "alloc_ok e" and msg: "regreq_message_ok m dest lifetime coa port ID d" and net: "delivers net"
    and link: "length link = 14" and rej: "relay_reject rl f 0 = None"
  obtains f1 p2 q where "relay_push e rnd rl (net link d) f = Some (f1, [(1, p2)])"
    and "fa_requests f1 = vec_push_back id True q (fa_requests f)" "fa_registrations f1 = fa_registrations f"
    and "ve_ip_src q = mn_home_address m" "ve_udp_src q = port"
    and "plen p2 = 66" "get_regreq (drop 14 (pdata p2)) 28 = get_regreq d 28" "get32 (drop 14 (pdata p2)) IP_SRC = fa_address f"
proof -
  obtain d' where d': "pdata (net link d) = link @ d'" "delivered d d'" "\<not> pshared (net link d)" by (rule deliversE [OF net])
  let ?D = "link @ d'"
  have d: "length d = 52" "ip_hl_of (get8 d 0) = 5" "get8 d IP_P = 17" "transport_cksum d 0 20 32 = Some 0"
    "get32 d IP_SRC = mn_home_address m" "get16 d 20 = htons port" "get8 d 29 = 0"
    using msg by (simp_all add: regreq_message_ok_def get_ip_0 get_udp_def get_regreq_def)
  have len: "length d' = 52" "length ?D = 66" using d'(2) d(1) link by (simp_all add: delivered_def)
  note g = delivered_get [OF d'(2)] and fr = framed_get [OF link, of d']
  have at: "get8 ?D 14 = get8 d 0" "get8 ?D 23 = 17" "get8 ?D 43 = 0" "get32 ?D 26 = mn_home_address m" "get16 ?D 34 = htons port"
    using d d'(2) g fr(1) [of 0] fr(1) [of 9] fr(1) [of 29] fr(3) [of 12] fr(2) [of 20] by (simp_all add: delivered_def)
  have ok: "udp_cksum_ok ?D 14 34 32 = Some True" by (rule framed_cksum [OF d'(2) d(2)]) (use d link in simp_all)
  obtain c where c: "relayReq e rnd rl (net link d) f =
      Some (f\<lparr> fa_requests := vec_push_back id True (visitor_of ?D) (fa_requests f) \<rparr>,
            [(1, (net link d)\<lparr> pdata := upd16 40 c (relayed_request f rnd ?D), dst_ip_anno := get32 ?D 50 \<rparr>)])"
    using relayReq_forward [OF e, of "net link d" rl f rnd] d' len(2) d(2) at ok rej by auto
  have push: "relay_push e rnd rl (net link d) f = relayReq e rnd rl (net link d) f"
    using d'(1) len(2) at(2) by (simp add: relay_push_def mem_simps)
  let ?X = "upd16 40 c (relayed_request f rnd ?D)"
  have "get_regreq (drop 14 ?X) 28 = get_regreq ?D 42"
    using len(2) by (simp add: get_headers_drop) (simp add: relayed_request_def get_regreq_def mem_simps)
  also have "\<dots> = get_regreq d' 28"
    using fr by (simp add: get_regreq_def numeral_eq_Suc)
  also have "\<dots> = get_regreq d 28" using delivered_headers(2) [OF d'(2), of 28] d(1) by simp
  finally have "get_regreq (drop 14 ?X) 28 = get_regreq d 28" .
  moreover have "get32 (drop 14 ?X) IP_SRC = fa_address f"
    using len(2) by (simp add: mem_simps relayed_request_def)
  ultimately show ?thesis
    using that [of _ _ "visitor_of ?D"] push c len(2) at(4,5) by (simp add: visitor_of_def)
qed

text \<open>The second hop: the home agent enters the binding and answers.\<close>

lemma home_hop:
  assumes e: "alloc_ok e" and net: "delivers net" and d: "length d = 52"
    and rq: "rq_type (get_regreq d 28) = 1" "rq_home_address (get_regreq d 28) \<noteq> rq_care_of_address (get_regreq d 28)"
    and acc: "accept_code (get_regreq d 28) (bindings h) = 0"
  obtains h1 p3 where "regrep_push e (net [] d) h = Some (h1, [(1, p3)])"
    and "bindings h1 = bindings h @ [binding_of (get_regreq d 28)]"
    and "length (pdata p3) = 48" "ip_hl_of (get8 (pdata p3) 0) = 5" "get8 (pdata p3) IP_P = 17"
      "transport_cksum (pdata p3) 0 20 28 = Some 0"
      "get_regrep (pdata p3) 28 = \<lparr> rp_type = 3, rp_code = 0, rp_lifetime = rq_lifetime (get_regreq d 28),
        rp_home_address = rq_home_address (get_regreq d 28), rp_home_agent = rq_home_agent (get_regreq d 28),
        rp_identification = rq_identification (get_regreq d 28) \<rparr>"
proof -
  obtain d' where d': "pdata (net [] d) = [] @ d'" "delivered d d'" by (rule deliversE [OF net])
  then have data: "pdata (net [] d) = d'" "length d' = 52" using d by (simp_all add: delivered_def)
  have req: "request_of d' = get_regreq d 28"
    using delivered_headers(2) [OF d'(2), of 28] d by (simp add: request_of_def)
  obtain v p where "regrep_push e (net [] d) h =
      Some (h\<lparr> ha_mobility_bindings := v \<rparr>, [(if rq_home_address (request_of (pdata (net [] d))) = rq_care_of_address (request_of (pdata (net [] d))) then 0 else 1, p)])"
    "vec_elems v = bindings_after (request_of (pdata (net [] d))) (bindings h)"
    "regrep_message_ok (pdata (net [] d)) (accept_code (request_of (pdata (net [] d))) (bindings h)) (pdata p)"
    by (rule regrep_push_result [OF e, of "net [] d" h]) (use data req rq in simp_all)
  then show ?thesis
    using that [of "h\<lparr> ha_mobility_bindings := v \<rparr>" p] data req rq acc
    by (simp add: bindings_after_def regrep_message_ok_def get_ip_0)
qed

text \<open>The third hop: the foreign agent relays the reply to the node and enters it as a visitor.\<close>

lemma reply_hop:
  assumes e: "alloc_ok e" and net: "delivers net" and link: "length link = 14" and vis: "visitors_distinct f"
    and d: "length d = 48" "ip_hl_of (get8 d 0) = 5" "get8 d IP_P = 17" "transport_cksum d 0 20 28 = Some 0"
    and rp: "rp_code (get_regrep d 28) = 0" "rp_lifetime (get_regrep d 28) \<noteq> 0"
    and q: "vec_elems (fa_requests f) = qs @ [q]" "ve_ip_src q = rp_home_address (get_regrep d 28)"
      "\<forall>x \<in> set qs. ve_ip_src x \<noteq> rp_home_address (get_regrep d 28)"
  obtains f1 p4 where "relay_push e rnd rl (net link d) f = Some (f1, [(0, p4)])"
    and "visitors_distinct f1" "vec_elems (fa_requests f1) = qs"
    and "map_of (registrations f1) = (map_of (registrations f))(rp_home_address (get_regrep d 28) \<mapsto>
      q\<lparr> ve_remaining_lifetime := rp_lifetime (get_regrep d 28) \<rparr>)"
    and "length (pdata p4) = 48" "ip_hl_of (get8 (pdata p4) 0) = 5" "transport_cksum (pdata p4) 0 20 28 = Some 0"
      "get32 (pdata p4) IP_SRC = rl_privateIP rl" "get16 (pdata p4) 22 = htons (ve_udp_src q)"
      "get_regrep (pdata p4) 28 = get_regrep d 28"
proof -
  obtain d' where d': "pdata (net link d) = link @ d'" "delivered d d'" "\<not> pshared (net link d)" by (rule deliversE [OF net])
  let ?D = "link @ d'"
  have len: "length d' = 48" "length ?D = 62" using d'(2) d(1) link by (simp_all add: delivered_def)
  note g = delivered_get [OF d'(2)] and fr = framed_get [OF link, of d']
  have rep: "get_regrep d' 28 = get_regrep d 28" using delivered_headers(3) [OF d'(2), of 28] d(1) by simp
  have at: "get8 ?D 14 = get8 d 0" "get8 ?D 23 = 17" "get8 ?D 43 = 0" "get16 ?D 44 = rp_lifetime (get_regrep d 28)"
    "get32 ?D 46 = rp_home_address (get_regrep d 28)"
    using d'(2) d(3) rp fr(1) [of 0] fr(1) [of 9] fr(1) [of 29] fr(2) [of 30] fr(3) [of 32] rep
    by (simp_all add: delivered_def get_regrep_def)
  have rep': "get_regrep ?D 42 = get_regrep d 28" using rep fr by (simp add: get_regrep_def numeral_eq_Suc)
  have ok: "udp_cksum_ok ?D 14 34 28 = Some True" by (rule framed_cksum [OF d'(2) d(2)]) (use d link in simp_all)
  have idx: "vec_index (\<lambda>x. ve_ip_src x = rp_home_address (get_regrep d 28)) (fa_requests f) = Some (length qs)"
    using q by (simp add: vec_index_Some vec_size_def nth_append)
  have size: "vec_size (fa_requests f) = length qs + 1" "vec_elems (fa_requests f) ! length qs = q"
    using q(1) by (simp_all add: vec_size_def)
  obtain g1 v c where r: "relayRep e rl (net link d) f = Some (g1\<lparr> fa_requests := v \<rparr>, [(0, pkt_pull 14 ((net link d)\<lparr>
        pdata := upd16 40 c (relayed_reply rl (ve_udp_src q) ?D), dst_ip_anno := get32 ?D 46 \<rparr>))])"
    "relay_register e (get32 ?D 46) (get16 ?D 44) q f = Some g1"
    "vec_elems v = take (length qs) (vec_elems (fa_requests f)) @ drop (length qs + 1) (vec_elems (fa_requests f))"
    "transport_cksum (upd16 40 c (relayed_reply rl (ve_udp_src q) ?D)) 14 34 28 = Some 0"
    by (rule relayRep_forward [OF e vis, of "net link d" "length qs" rl]) (use d' len d at ok idx size in simp_all)
  have push: "relay_push e rnd rl (net link d) f = relayRep e rl (net link d) f"
    using d'(1) len(2) at(2) by (simp add: relay_push_def mem_simps)
  have g1: "visitors_distinct g1" "map_of (registrations g1) = (map_of (registrations f))(get32 ?D 46 \<mapsto>
      q\<lparr> ve_remaining_lifetime := get16 ?D 44 \<rparr>)"
    using relay_register_result [OF e vis, of "get32 ?D 46" "get16 ?D 44" q] r(2) at(4) rp(2) by simp_all (metis option.inject)+
  let ?X = "upd16 40 c (relayed_reply rl (ve_udp_src q) ?D)"
  have X: "length ?X = 62" using len(2) by simp
  have "transport_cksum (drop 14 ?X) 0 20 28 = Some 0" using transport_cksum_drop [of 14 ?X 0 20 28] X r(4) by simp
  moreover have "get_regrep (drop 14 ?X) 28 = get_regrep d 28"
    using X rep' by (simp add: get_headers_drop) (simp add: relayed_reply_def get_regrep_def len mem_simps)
  moreover have "get32 (drop 14 ?X) IP_SRC = rl_privateIP rl" "get16 (drop 14 ?X) 22 = htons (ve_udp_src q)" "get8 (drop 14 ?X) 0 = get8 d 0"
    using len(2) at(1) by (simp_all add: relayed_reply_def mem_simps)
  ultimately show ?thesis
    using that [of "g1\<lparr> fa_requests := v \<rparr>" "pkt_pull 14 ((net link d)\<lparr> pdata := ?X, dst_ip_anno := get32 ?D 46 \<rparr>)"]
      push r(1,3) g1 q(1) at X d(2) by (simp add: pkt_pull_data visitors_distinct_def)
qed

text \<open>The last hop: the node accepts the reply to its last request.\<close>

lemma node_hop:
  assumes net: "delivers net"
    and d: "length d = 48" "ip_hl_of (get8 d 0) = 5" "transport_cksum d 0 20 28 = Some 0"
    and rp: "rp_code (get_regrep d 28) = 0" "lo32 (rp_identification (get_regrep d 28)) = req_id q"
    and src: "get32 d IP_SRC = req_dest q" "get16 d 22 = htons (req_port q)" "req_dest q \<noteq> mn_gateway m"
    and q: "vec_elems (mn_pending m) = qs @ [q]" "\<forall>x \<in> set qs. \<not> (req_dest x = req_dest q \<and> req_port x = req_port q)"
  obtains rn1 v where "regnode_push (net [] d) (rn, m) = Some (rn1, m\<lparr> mn_connected := True, mn_foreign_agent := req_dest q,
      mn_lifetime := rem_lt q - (req_lt q - ntohs (rp_lifetime (get_regrep d 28))), mn_pending := v \<rparr>)"
    and "rn_timer rn1 = Some 1000" "vec_elems v = qs"
proof -
  obtain d' where d': "pdata (net [] d) = [] @ d'" "delivered d d'" by (rule deliversE [OF net])
  then have data: "pdata (net [] d) = d'" "length d' = 48" "get8 d' 0 = get8 d 0" using d by (simp_all add: delivered_def)
  have len: "12 \<le> length d" using d(1) by simp
  have ok: "udp_cksum_ok d' 0 20 28 = Some True"
    by (rule udp_cksum_okI) (use delivered_cksum [OF d'(2) d(2), of 28] d in simp)
  have rep: "get_regrep d' 28 = get_regrep d 28" using delivered_headers(3) [OF d'(2) len, of 28] by simp
  have f: "get8 d' 29 = 0" "lo32 (get64 d' 40) = req_id q" "get16 d' 30 = rp_lifetime (get_regrep d 28)"
    using rp rep by (simp_all add: get_regrep_def)
  have g: "get32 d' IP_SRC = req_dest q" "get16 d' 22 = htons (req_port q)"
    using delivered_get [OF d'(2) len] src by simp_all
  then have "reply_for d' x \<longleftrightarrow> req_dest x = req_dest q \<and> req_port x = req_port q" for x
    by (auto simp: reply_for_def)
  then have idx: "vec_index (reply_for d') (mn_pending m) = Some (length qs)"
    using q by (simp add: vec_index_Some vec_size_def nth_append)
  have elem: "vec_elems (mn_pending m) ! length qs = q" using q(1) by simp
  obtain okb where k: "udp_cksum_ok (pdata (net [] d)) 0 20 (plen (net [] d) - 20) = Some okb"
    "case vec_index (reply_for (pdata (net [] d))) (mn_pending m) of
       None \<Rightarrow> regnode_push (net [] d) (rn, m) = Some (rn, m)
     | Some i \<Rightarrow>
         let q = vec_elems (mn_pending m) ! i; code = get8 (pdata (net [] d)) (28 + RP_CODE)
         in if okb \<and> lo32 (get64 (pdata (net [] d)) (28 + RP_ID)) \<noteq> req_id q
            then regnode_push (net [] d) (rn, m) = Some (rn, m)
            else (\<exists>v. vec_elems v = take i (vec_elems (mn_pending m)) @ drop (i + 1) (vec_elems (mn_pending m)) \<and>
              regnode_push (net [] d) (rn, m) =
                Some (if okb \<and> (code = 0 \<or> code = 1)
                      then (fst (registered (pdata (net [] d)) q (rn, m)),
                            (snd (registered (pdata (net [] d)) q (rn, m)))\<lparr> mn_pending := v \<rparr>)
                      else (rn, m\<lparr> mn_pending := v \<rparr>)))"
    using regnode_push_cases [where p = "net [] d" and m = m and s = rn] data d(2) by auto
  then obtain v where "vec_elems v = qs" "regnode_push (net [] d) (rn, m) =
      Some (fst (registered d' q (rn, m)), (snd (registered d' q (rn, m)))\<lparr> mn_pending := v \<rparr>)"
    using ok data idx elem f(1,2) q(1) by (auto simp: Let_def)
  then show ?thesis using that g(1) f(3) src(3) by (simp add: registered_def)
qed

text \<open>C1: A registration through a foreign agent succeeds end to end: the request of the node reaches the
  home agent through the foreign agent and the reply comes back, whatever the network does to
  the type of service, identification, time-to-live and header checksum on the way. Afterwards
  the node is connected to the foreign agent for the lifetime it asked for, with the renewal
  timer running and the request no longer pending; the foreign agent has the node as a visitor;
  and the home agent has a binding of the home address to the care-of address.\<close>

theorem registration_round_succeeds:
  assumes e: "alloc_ok e" and net: "delivers net" and link: "length link = 14"
    and dest: "dest = rl_privateIP rl" "dest \<noteq> mn_gateway m"
    and fa: "relay_reject rl f 0 = None" "visitors_distinct f"
      "\<forall>x \<in> set (vec_elems (fa_requests f)). ve_ip_src x \<noteq> mn_home_address m"
    and pending: "\<forall>x \<in> set (vec_elems (mn_pending m)). \<not> (req_dest x = dest \<and> req_port x = of_nat (r mod 65535))"
    and ha: "mn_home_agent m \<noteq> 0xFFFFFFFF" "coa \<noteq> mn_home_address m" "lifetime \<noteq> 0"
  shows "\<exists>rn' m' f' h'. registration_round e net link sub1 sub2 r rnd dest lifetime coa rr rl (rn, m, f, h) = Some (rn', m', f', h') \<and>
    mn_connected m' \<and> mn_foreign_agent m' = dest \<and> mn_lifetime m' = lifetime \<and> rn_timer rn' = Some 1000 \<and>
    vec_elems (mn_pending m') = vec_elems (mn_pending m) \<and>
    vec_elems (fa_requests f') = vec_elems (fa_requests f) \<and> map_of (registrations f') (mn_home_address m) \<noteq> None \<and>
    bindings h' = bindings h @ [\<lparr> mi_address = mn_home_address m, mi_careOfAddress = coa, mi_identification = le64 sub1 sub2,
      mi_remainingLifetime = ucast (htons lifetime) \<rparr>]"
proof -
  let ?q = "new_request dest coa sub1 lifetime r" and ?port = "of_nat (r mod 65535) :: u16"
  let ?m = "m\<lparr> mn_pending := vec_push_back id True ?q (mn_pending m) \<rparr>"
  obtain p1 where p1: "regreq_make_packet e sub1 sub2 r dest lifetime coa rr m = Some (?m, Some p1)"
    "regreq_message_ok m dest lifetime coa ?port (le64 sub1 sub2) (pdata p1)"
    by (rule regreq_make_packet_result [OF e])
  have rq: "get_regreq (pdata p1) 28 = \<lparr> rq_type = 1, rq_flags = 0, rq_lifetime = htons lifetime, rq_home_address = mn_home_address m,
      rq_home_agent = mn_home_agent m, rq_care_of_address = coa, rq_identification = le64 sub1 sub2 \<rparr>"
    using p1(2) by (simp add: regreq_message_ok_def)
  obtain f1 p2 v where p2: "relay_push e rnd rl (net link (pdata p1)) f = Some (f1, [(1, p2)])"
    "fa_requests f1 = vec_push_back id True v (fa_requests f)" "fa_registrations f1 = fa_registrations f"
    "ve_ip_src v = mn_home_address m" "ve_udp_src v = ?port" "plen p2 = 66"
    "get_regreq (drop 14 (pdata p2)) 28 = get_regreq (pdata p1) 28"
    by (rule request_hop [OF e p1(2) net link fa(1)])
  have rd: "length (drop 14 (pdata p2)) = 52" using p2(6) by simp
  obtain h1 p3 where p3: "regrep_push e (net [] (drop 14 (pdata p2))) h = Some (h1, [(1, p3)])"
    "bindings h1 = bindings h @ [binding_of (get_regreq (drop 14 (pdata p2)) 28)]"
    "length (pdata p3) = 48" "ip_hl_of (get8 (pdata p3) 0) = 5" "get8 (pdata p3) IP_P = 17"
    "transport_cksum (pdata p3) 0 20 28 = Some 0"
    "get_regrep (pdata p3) 28 = \<lparr> rp_type = 3, rp_code = 0, rp_lifetime = htons lifetime, rp_home_address = mn_home_address m,
      rp_home_agent = mn_home_agent m, rp_identification = le64 sub1 sub2 \<rparr>"
    by (rule home_hop [OF e net rd, of h]) (use p2(7) rq ha in \<open>simp_all add: accept_code_def\<close>)
  have f1: "visitors_distinct f1" "vec_elems (fa_requests f1) = vec_elems (fa_requests f) @ [v]"
    using fa(2) p2(2,3) by (simp_all add: visitors_distinct_def vec.elems_append)
  obtain f2 p4 where p4: "relay_push e rnd rl (net link (pdata p3)) f1 = Some (f2, [(0, p4)])"
    "vec_elems (fa_requests f2) = vec_elems (fa_requests f)"
    "map_of (registrations f2) = (map_of (registrations f1))(mn_home_address m \<mapsto> v\<lparr> ve_remaining_lifetime := htons lifetime \<rparr>)"
    "length (pdata p4) = 48" "ip_hl_of (get8 (pdata p4) 0) = 5" "transport_cksum (pdata p4) 0 20 28 = Some 0"
    "get32 (pdata p4) IP_SRC = rl_privateIP rl" "get16 (pdata p4) 22 = htons ?port" "get_regrep (pdata p4) 28 = get_regrep (pdata p3) 28"
    by (rule reply_hop [OF e net link f1(1) p3(3-6) _ _ f1(2), of rnd rl]) (use p3(7) p2(4,5) fa(3) ha(3) in simp_all)
  obtain rn1 w where p5: "regnode_push (net [] (pdata p4)) (rn, ?m) = Some (rn1, ?m\<lparr> mn_connected := True, mn_foreign_agent := req_dest ?q,
      mn_lifetime := rem_lt ?q - (req_lt ?q - ntohs (rp_lifetime (get_regrep (pdata p4) 28))), mn_pending := w \<rparr>)"
    "rn_timer rn1 = Some 1000" "vec_elems w = vec_elems (mn_pending m)"
    by (rule node_hop [OF net p4(4-6), of ?q ?m "vec_elems (mn_pending m)" rn])
      (use p4(7-9) p3(7) dest pending in \<open>simp_all add: new_request_def vec.elems_append\<close>)
  have "registration_round e net link sub1 sub2 r rnd dest lifetime coa rr rl (rn, m, f, h) =
      Some (rn1, ?m\<lparr> mn_connected := True, mn_foreign_agent := req_dest ?q,
        mn_lifetime := rem_lt ?q - (req_lt ?q - ntohs (rp_lifetime (get_regrep (pdata p4) 28))), mn_pending := w \<rparr>, f2, h1)"
    by (simp add: registration_round_def p1(1) p2(1) p3(1) p4(1) p5(1))
  then show ?thesis using p5(2,3) p4(2,3,9) p3(2,7) p2(7) rq by (simp add: new_request_def binding_of_def)
qed

section \<open>The tunnel\<close>

text \<open>What the foreign agent does with a packet for its own address that does not carry a
  registration: \<^verbatim>\<open>CheckIPHeader\<close> on input, and behind the routing table
  \<^verbatim>\<open>CheckEncap -> StripIPHeader -> CheckIPHeader\<close>.\<close>

definition tunnel_end :: "checkipheader \<Rightarrow> checkipheader \<Rightarrow> env \<Rightarrow> packet \<Rightarrow> emission list option" where
  "tunnel_end outer inner =
     stage_then (\<lambda>e p. map_option snd (checkipheader_action 1 p outer))
       (stage_then (\<lambda>e. checkencap_push)
         (stage_then (\<lambda>e. stripipheader_action) (\<lambda>e p. map_option snd (checkipheader_action 1 p inner))))"

lemma stripipheader_valid:
  assumes "ip_valid p"
  shows "stripipheader_action p = Some [(0, pkt_pull (ip_hlen (pdata p)) p)]"
  using assms by (simp add: stripipheader_action_def transport_header_offset_def ip_valid_def)

lemma tunnel_end_accepted:
  assumes cip: "cip_offset outer = 0" "cip_checksum outer" "cip_offset inner = 0" "cip_checksum inner"
    and r: "ip_header_ok (pdata r)" "src_acceptable outer (pdata r)" "get8 (pdata r) IP_P = 4"
      "unat (ntohs (get16 (pdata r) IP_LEN)) = plen r"
    and i: "ip_header_ok (drop (ip_hlen (pdata r)) (pdata r))" "src_acceptable inner (drop (ip_hlen (pdata r)) (pdata r))"
  shows "\<exists>q. tunnel_end outer inner e r = Some [(0, q)] \<and> ip_valid q \<and>
    pdata q = take (unat (ntohs (get16 (drop (ip_hlen (pdata r)) (pdata r)) IP_LEN))) (drop (ip_hlen (pdata r)) (pdata r))"
proof -
  let ?a = "cip_accept r" and ?b = "pkt_pull (ip_hlen (pdata r)) (cip_accept r)"
  have a: "ip_valid ?a" "pdata ?a = pdata r" using cip_accept_valid [OF r(1)] r(4) by simp_all
  have "cip_verdict outer (pdata r) = None" using r(1,2) by (simp add: cip_verdict_None)
  then have 1: "checkipheader_action 1 r outer = Some (outer, [(0, ?a)])"
    using checkipheader_action_verdict [OF cip(1,2), of 1 r] by simp
  have "20 \<le> plen ?a" using ip_valid_facts(1) [OF a(1)] by simp
  then have 2: "checkencap_push ?a = Some [(0, ?a)]" using a(2) r(3) by (simp add: checkencap_push_def mem_simps)
  have 3: "stripipheader_action ?a = Some [(0, ?b)]" using stripipheader_valid [OF a(1)] a(2) by simp
  have b: "pdata ?b = drop (ip_hlen (pdata r)) (pdata r)" using a(2) by (simp add: pkt_pull_data)
  have "cip_verdict inner (pdata ?b) = None" using i b by (simp add: cip_verdict_None)
  then have 4: "checkipheader_action 1 ?b inner = Some (inner, [(0, cip_accept ?b)])"
    using checkipheader_action_verdict [OF cip(3,4), of 1 ?b] by simp
  have "tunnel_end outer inner e r = Some [(0, cip_accept ?b)]"
    using 1 2 3 4 by (simp add: tunnel_end_def stage_then_def main_outputs_def)
  then show ?thesis using cip_accept_valid [of ?b] i(1) b by simp
qed

text \<open>C2: Tunnelling is a round trip: a valid IP packet for a registered node that the home agent
  encapsulates comes out of the foreign agent unchanged -- if its one's complement sum is a
  multiple of 65535. Any other packet is dropped by the foreign agent's \<^verbatim>\<open>CheckIPHeader\<close>, because
  the encapsulator computes the checksum of the outer header over the whole packet.\<close>

theorem tunnel_roundtrip:
  assumes e: "alloc_ok e" and p: "ip_header_ok (pdata p)" "unat (ntohs (get16 (pdata p) IP_LEN)) = plen p" "plen p + 20 < 65536"
    and cip: "cip_offset outer = 0" "cip_checksum outer" "cip_offset inner = 0" "cip_checksum inner"
    and src: "enc_srcIp s \<notin> set (cip_bad_src outer)" "get32 (pdata p) IP_SRC \<notin> set (cip_bad_src inner)"
  shows "\<exists>q. encap_push e p s h = Some [(0, q)] \<and> dst_ip_anno q = get_destination_ip h (get32 (pdata p) IP_DST) \<and>
    (\<forall>r. pdata r = pdata q \<longrightarrow>
      (if 65535 dvd wsum (pdata p) then \<exists>out. tunnel_end outer inner e r = Some [(0, out)] \<and> ip_valid out \<and> pdata out = pdata p
       else tunnel_end outer inner e r = Some []))"
proof -
  have len: "20 \<le> plen p" using p(1) by (simp add: ip_header_ok_def)
  obtain q where q: "encap_push e p s h = Some [(0, q)]"
    "pdata q = upd16 IP_SUM (click_in_cksum (encap_header s h (pdata p) @ pdata p)) (encap_header s h (pdata p)) @ pdata p"
    "dst_ip_anno q = get_destination_ip h (get32 (pdata p) IP_DST)"
    by (rule encap_push_result [OF e len])
  have d: "get8 (pdata q) 0 = 0x45" "get16 (pdata q) IP_LEN = htons (20 + ntohs (get16 (pdata p) IP_LEN))" "get8 (pdata q) IP_P = 4"
    "get32 (pdata q) IP_SRC = enc_srcIp s" "length (pdata q) = plen p + 20" "drop 20 (pdata q) = pdata p"
    by (simp_all add: q(2) mem_simps) (simp_all add: encap_header_def mem_simps)
  have "unat (20 + ntohs (get16 (pdata p) IP_LEN)) = 20 + unat (ntohs (get16 (pdata p) IP_LEN))"
    using p(2,3) by (subst unat_add_lem [THEN iffD1]) simp_all
  then have l: "unat (ntohs (get16 (pdata q) IP_LEN)) = plen q" using d(2,5) p(2) by simp
  have hl: "ip_hlen (pdata q) = 20" "ip_v_of (get8 (pdata q) 0) = 4" using d(1) by (simp_all add: ip_hlen_def ip_hl_of_def ip_v_of_def)
  have ck: "cksum_ok (pdata q) 0 20 \<longleftrightarrow> 65535 dvd wsum (pdata p)"
    using encap_header_cksum [of "pdata p" s h] p(3) q(2) by simp
  have hdr: "ip_header_ok (pdata q) \<longleftrightarrow> 65535 dvd wsum (pdata p)"
    using hl l d(5) ck by (simp add: ip_header_ok_def)
  have "if 65535 dvd wsum (pdata p) then \<exists>out. tunnel_end outer inner e r = Some [(0, out)] \<and> ip_valid out \<and> pdata out = pdata p
      else tunnel_end outer inner e r = Some []" if r: "pdata r = pdata q" for r
  proof (cases "65535 dvd wsum (pdata p)")
    case True
    then show ?thesis
      using tunnel_end_accepted [OF cip, of r e] r hdr d l hl p src by (simp add: src_acceptable_def)
  next
    case False
    then obtain x where "cip_verdict outer (pdata r) = Some x" using hdr r cip_verdict_None [of outer "pdata r"] by auto
    then have "checkipheader_action 1 r outer = Some (fst (cip_drop 1 x r outer), [])"
      using checkipheader_action_verdict [OF cip(1,2), of 1 r] by (simp add: cip_drop_def)
    then show ?thesis using False by (simp add: tunnel_end_def stage_then_def main_outputs_def)
  qed
  then show ?thesis using q(1,3) by blast
qed

section \<open>Witnesses\<close>

definition sample_net :: "bytes \<Rightarrow> bytes \<Rightarrow> packet" where
  "sample_net link d = \<lparr> hroom = [], pdata = link @ d, troom = [], pshared = False, mac_off = None, net_off = None, trans_off = None,
     dst_ip_anno = 0, paint_anno = 0, icmp_paramprob_anno = 0, fix_ip_src_anno = 0, packet_type_anno = HOST \<rparr>"

lemma sample_net_delivers: "delivers sample_net"
  by (simp add: delivers_def sample_net_def delivered_def)

theorem registration_round_succeeds_witness:
  "\<exists>rn' m' f' h'. registration_round env0 sample_net (zeros 14) 7 8 5 9 0xFE03A8C0 100 0x0300A8C0
      \<lparr> rr_lifetime = 100, rr_sequence = 0, rr_timer = None \<rparr> sample_relay
      (\<lparr> rn_registrationAlmostOver = 3, rn_timer = None \<rparr>, sample_mninfo, sample_fa [],
       \<lparr> ha_address = 0xFE02A8C0, ha_mobility_bindings = vec_empty \<rparr>) = Some (rn', m', f', h') \<and>
    mn_connected m' \<and> mn_lifetime m' = 100 \<and> map mi_careOfAddress (bindings h') = [0x0300A8C0]"
  using registration_round_succeeds [OF env0_ok sample_net_delivers, of "zeros 14" "0xFE03A8C0" sample_relay sample_mninfo "sample_fa []" 5
      "0x0300A8C0" 100 7 8 9 "\<lparr> rr_lifetime = 100, rr_sequence = 0, rr_timer = None \<rparr>"
      "\<lparr> rn_registrationAlmostOver = 3, rn_timer = None \<rparr>" "\<lparr> ha_address = 0xFE02A8C0, ha_mobility_bindings = vec_empty \<rparr>"]
  by (auto simp: sample_relay_def sample_fa_def relay_reject_def visitors_distinct_def vec_empty_def)

theorem tunnel_roundtrip_witness:
  "\<exists>q. encap_push env0 (sample_ip 0x45 64) \<lparr> enc_srcIp = 0x0200A8C0 \<rparr> sample_ha = Some [(0, q)] \<and>
    (if 65535 dvd wsum (sample_ip_data 0x45 64)
     then \<exists>out. tunnel_end
         \<lparr> cip_offset = 0, cip_checksum = True, cip_bad_src = [], cip_good_dst = [], cip_drops = 0, cip_reason_drops = None \<rparr>
         \<lparr> cip_offset = 0, cip_checksum = True, cip_bad_src = [], cip_good_dst = [], cip_drops = 0, cip_reason_drops = None \<rparr>
         env0 q = Some [(0, out)] \<and> pdata out = sample_ip_data 0x45 64
     else True)"
proof -
  let ?c = "\<lparr> cip_offset = 0, cip_checksum = True, cip_bad_src = [], cip_good_dst = [], cip_drops = 0, cip_reason_drops = None \<rparr>"
  have v: "ip_valid (sample_ip 0x45 64)" by (rule sample_ip_ok) simp
  then have p: "ip_header_ok (pdata (sample_ip 0x45 64))" "unat (ntohs (get16 (pdata (sample_ip 0x45 64)) IP_LEN)) = plen (sample_ip 0x45 64)"
    by (simp_all add: ip_valid_def)
  have "plen (sample_ip 0x45 64) + 20 < 65536" by simp
  from tunnel_roundtrip [OF env0_ok p this, of ?c ?c "\<lparr> enc_srcIp = 0x0200A8C0 \<rparr>" sample_ha] show ?thesis
    by (auto split: if_splits)
qed

end
