(* ===== verification/Spec2Isabelle.thy ===== *)
theory Spec2Isabelle
  imports MIP_Discovery MIP_AgentTable MIP_HomeAgent MIP_ForeignAgent
    Click_LinearIPLookup Click_ARPResponder Click_ICMPPing Click_ClassElement MIP_Exchange
begin

text \<open>
  A verification library for the Mobile IP implementation of this repository and for the parts of
  the Click modular router it runs on. All file names below are relative to \<^verbatim>\<open>src/click\<close>.

  \<^bold>\<open>The program.\<close> \<^verbatim>\<open>elements/local/custom\<close> implements Mobile IPv4 (RFC 5944) as Click elements.
  Agents send advertisements, a mobile node registers a care-of address with its home agent,
  directly or through a foreign agent, and the home agent tunnels the node's traffic to that
  address. The scripts \<^verbatim>\<open>scripts/library/{mn,fa,ha}.click\<close> connect these elements with stock Click
  elements: header checks, a routing table and, per interface, a forwarding path.

  \<^bold>\<open>Conventions.\<close> A handler of an element is a function from its arguments and the state of the element to
  the new state and the packets it pushes, as a list of pairs of an output port and a packet. Handlers
  return an option: \<open>None\<close> stands for an access outside of the packet, a null or dangling pointer, a
  failed assertion or a loop that does not end; a theorem that states a result therefore also states that none
  of this happens. Machine integers are words of their width. The host is little-endian, so a 16-bit
  field of a header is the word that the C++ code reads, and \<open>ntohs\<close> and \<open>htons\<close> swap bytes. What the
  surroundings supply is an argument: \<open>env\<close> says whether memory is available and which bytes fresh memory
  holds; random numbers, the clock and the number of connected outputs are parameters of the
  handlers that ask for them. Configuration arguments are taken as parsed.

  \<^bold>\<open>Theories.\<close>

  \<^item> \<open>Click_Prelude\<close>: bytes and words, reading and writing of multi-byte fields (\<open>get16\<close>,
    \<open>upd16\<close>, and \<open>ld16\<close>, \<open>st16\<close> with bounds checks), the collection \<open>mem_simps\<close>, lemmas on lists and bits.
  \<^item> \<open>Click_Checksum\<close>: \<^verbatim>\<open>lib/in_cksum.c\<close> and the incremental update of \<^verbatim>\<open>clicknet/ip.h\<close>. The
    loop over 32-bit accumulators equals the one's complement sum of the words up to 131072 bytes; the locale
    \<open>inet_checksum\<close> derives from that that a region verifies after its checksum was filled in.
  \<^item> \<open>Click_Packet\<close>: \<^verbatim>\<open>packet.hh\<close> and \<^verbatim>\<open>packet.cc\<close>: buffer with headroom and tailroom,
    sharing, \<^verbatim>\<open>push\<close>, \<^verbatim>\<open>pull\<close>, \<^verbatim>\<open>put\<close>, \<^verbatim>\<open>take\<close>, header pointers, annotations. The locale
    \<open>header_stack\<close> is the contract of pushing and pulling.
  \<^item> \<open>Click_HashMap\<close>, \<open>Click_Vector\<close>: the containers with their buckets, capacity and dead
    slots. The locales \<open>lookup_table\<close> and \<open>dynamic_array\<close> are what the elements rely on.
  \<^item> \<open>Click_IPAddress\<close>: prefixes and masks of \<^verbatim>\<open>ipaddress.hh\<close> and \<^verbatim>\<open>ipaddress.cc\<close>, which are
    inverse to each other.
  \<^item> \<open>MIP_Headers\<close>: layout of the IP, UDP, ICMP and Mobile IP headers, as records that are read
    from bytes.
  \<^item> \<open>MIP_Discovery\<close>: \<^verbatim>\<open>Advertisement\<close>, \<^verbatim>\<open>Solicitation\<close>, \<^verbatim>\<open>CheckSolicitation\<close>: well-formed
    messages, sequence numbers, and which timer events solicit over any history of the node.
  \<^item> \<open>MIP_MNInfo\<close>, \<open>MIP_MobileNode\<close>, \<open>MIP_AgentTable\<close>: \<^verbatim>\<open>MNInfo\<close>, \<^verbatim>\<open>ProcessAdvertisements\<close>,
    \<^verbatim>\<open>RegReq\<close>, \<^verbatim>\<open>RegNode\<close>: requests are well formed and recorded, replies are matched, registrations are renewed
    and run out; the table of agents and its timers stay consistent. The locale \<open>requester\<close> is what
    \<^verbatim>\<open>RegNode\<close> and \<^verbatim>\<open>ProcessAdvertisements\<close> rely on when they cause a request.
  \<^item> \<open>MIP_HomeAgent\<close>: \<^verbatim>\<open>HA\<close>, \<^verbatim>\<open>RegRep\<close>, \<^verbatim>\<open>Encapsulator\<close>: the binding list refines an abstract
    home agent, replies are well formed, packets are tunnelled.
  \<^item> \<open>MIP_ForeignAgent\<close>: \<^verbatim>\<open>FA\<close>, \<^verbatim>\<open>Relay\<close>, \<^verbatim>\<open>CheckEncap\<close>: relaying in both directions, rejection, ageing of
    pending requests and registrations.
  \<^item> \<open>Click_IPElements\<close>, \<open>Click_IPGWOptions\<close>, \<open>Click_IPFragmenter\<close>: the stock elements of
    \<^verbatim>\<open>elements/standard\<close>, \<^verbatim>\<open>elements/ip\<close> and \<^verbatim>\<open>elements/ethernet\<close> on the IP path. The locales
    \<open>ip_keeper\<close> and \<open>ip_stage\<close> say that an element passes on only packets with a valid header, and
    \<open>ip_keeper_pair\<close>, \<open>ip_stage_pair\<close> that this composes. The loop of \<^verbatim>\<open>IPGWOptions\<close> over the buffer is proved to compute the list
    function \<open>gw_options\<close> on the options.
  \<^item> \<open>Click_IPRouteTable\<close>, \<open>Click_LinearIPLookup\<close>: the commands and the transaction of
    \<^verbatim>\<open>IPRouteTable\<close> over any table that meets the locale \<open>route_table\<close>, and \<^verbatim>\<open>LinearIPLookup\<close>, which does:
    it refines a map from prefixes to next hops, and lookup is longest prefix match.
  \<^item> \<open>Click_HashContainer\<close>, \<open>Click_ARPTable\<close>: the intrusive hash table of
    \<^verbatim>\<open>hashcontainer.hh\<close> and \<^verbatim>\<open>elements/ethernet/arptable.cc\<close> on it: entries, the two age lists, the queues of waiting
    packets and their capacities. The table is a second instance of \<open>lookup_table\<close>; every operation keeps the invariant of
    the table, its counters and its lists.
  \<^item> \<open>Click_ARPMessage\<close>, \<open>Click_ARPQuerier\<close>, \<open>Click_ARPResponder\<close>: the ARP frames, and the two
    elements. A packet is framed for the address the table holds or is queued and a query goes out, and no second one within
    a tenth of a second while only packets for that address arrive; a reply releases the queue; the responder answers by longest
    prefix where its comparison of entries is an order; querier and responder together deliver.
  \<^item> \<open>Click_Qsort\<close>: \<^verbatim>\<open>click_qsort\<close> of \<^verbatim>\<open>lib/glue.cc\<close>, which the responder sorts its entries with: it
    ends, and it sorts. The locale \<open>sorter\<close> is what \<^verbatim>\<open>ARPResponder\<close> relies on.
  \<^item> \<open>Click_Classification\<close>, \<open>Click_Dominators\<close>: the decision programs of \<^verbatim>\<open>elements/standard/classification.hh\<close> and
    \<^verbatim>\<open>classification.cc\<close>: instructions, the construction of subtrees, the passes of the optimiser with its dominator optimiser, and the two loops
    that match a packet. \<open>Click_Classifier\<close>: \<^verbatim>\<open>classifier.cc\<close>, which parses patterns into programs, and the element.
  \<^item> \<open>Click_ClassRun\<close>, \<open>Click_ClassOpt\<close>, \<open>Click_ClassUnused\<close>, \<open>Click_ClassBuild\<close>, \<open>Click_DomSafe\<close>, \<open>Click_ClassElement\<close>: their theorems.
    \<open>pg_run\<close> is what a program decides, given how its tests come out (the locale \<open>cl_decision\<close>), and matching computes it on the bytes of the packet;
    sorting, combination and the removal of unused states keep it; the program built from patterns returns the first pattern that matches; the
    dominator optimiser keeps programs that end and stay within the packet, though not always their decisions; the classifier
    of the scripts sorts frames by type.
  \<^item> \<open>Click_Forwarding\<close>: the forwarding path of an interface in \<^verbatim>\<open>ha.click\<close> and \<^verbatim>\<open>fa.click\<close>.
  \<^item> \<open>Click_ICMPError\<close>, \<open>Click_ICMPPing\<close>: \<^verbatim>\<open>elements/icmp/icmperror.cc\<close> on the side outputs of that path and
    \<^verbatim>\<open>elements/icmp/icmppingresponder.cc\<close> of the mobile node. A message is sent exactly when RFC 1812 (stated on the bytes of the packet as \<open>rfc1812_silent\<close>) allows one, is valid, quotes the packet, goes back over
    the reversed source route and never causes another message; the checksums of an echo reply, which are only adjusted, verify.
  \<^item> \<open>MIP_Exchange\<close>: a registration from the node's request to the accepted reply, and a
    packet through the tunnel.

  \<^bold>\<open>Interfaces.\<close> The locales and what discharges them: \<open>inet_checksum\<close> (\<open>click_in_cksum\<close>), \<open>header_stack\<close> (\<open>pkt_push\<close> and
  \<open>pkt_pull\<close>), \<open>lookup_table\<close> (\<^verbatim>\<open>HashMap\<close> and \<^verbatim>\<open>HashContainer\<close>), \<open>dynamic_array\<close> (\<^verbatim>\<open>Vector\<close>), \<open>sorter\<close> (\<^verbatim>\<open>click_qsort\<close>),
  \<open>cl_decision\<close> (the tests on the bytes of a packet), \<open>route_table\<close> (\<^verbatim>\<open>LinearIPLookup\<close>), \<open>requester\<close> (\<^verbatim>\<open>RegReq\<close>), \<open>ip_keeper\<close> and \<open>ip_stage\<close> (the elements of the forwarding path, and
  through \<open>ip_keeper_pair\<close> and \<open>ip_stage_pair\<close> the path itself).

  \<^bold>\<open>Loops, fuel and bounds.\<close> Loops are recursive functions with a termination proof; there is no
  fuel. \<open>ctrl_loop\<close> is a \<^theory_text>\<open>partial_function\<close>, because the C++ loop does not end on a blank line; for requests
  without blank lines it is proved to return. So are the loops of \<open>click_qsort\<close>, whose end depends on the comparison, and the retry of
  \<open>aq_resolve\<close>; they are proved to return, the former for every comparison function. The loops of the classifiers (\<open>match_loop\<close>,
  \<open>length_checked_loop\<close>, and in the optimiser \<open>combine_loop\<close>, \<open>bubble_loop\<close>, \<open>chain_from\<close>, \<open>chain_position\<close>, \<open>advance_to\<close>, \<open>intersect_loop\<close>, \<open>shift_loop\<close>) are partial
  functions too, since they end only for programs whose jumps lead forward; \<open>None\<close> is then also a failed assertion of the optimiser or a
  read outside of the buffer. Matching is proved to return for packets with three bytes of tail room, which it may read, and for
  patterns within the first 65536 bytes, where their 16-bit offsets do not wrap around. \<open>frag_loop\<close> gives \<open>None\<close> when the C++ loop makes no
  progress, which is proved impossible for packets with a valid header and a sufficient MTU. The bound of 131072 bytes in
  the checksum theorems is where the 32-bit accumulator cannot have wrapped around; IP
  packets have at most 65535. The theorems on \<^verbatim>\<open>ICMPError\<close> assume an MTU of 68 to 65535 bytes: below, the largest headers do not fit
  and the code runs out of its buffers. Time in the ARP elements is a 32-bit count of jiffies that wraps around:
  \<open>aq_times\<close> and \<open>sane_args\<close> say that the configured timeouts are less than half of its range, \<open>arp_room\<close> and \<open>arp_bounded\<close> that the
  32-bit counters of entries and packets do not overflow, the latter because of configured limits.
  A handler of these elements reads the clock once (\<open>now\<close>), and runs without interruption: the locks around the table are not modelled.

  \<^bold>\<open>The network.\<close> In \<open>MIP_Exchange\<close> a parameter \<open>net\<close> stands for links and routers between the
  elements. The hypothesis \<open>delivers net\<close> says that a sent packet arrives with its length, its
  header length, protocol, addresses and payload; type of service, identification, time-to-live and
  checksum may change.

  \<^bold>\<open>Errors of the code.\<close> The definitions follow the code, also where it departs from RFC 5944 or from its
  own comments. Where this is visible from outside, a theorem states it: \<open>encap_push_checksum\<close>,
  \<open>reregistration_keeps_old_binding\<close>, \<open>relayRep_wrong_port\<close>, \<open>relay_deregister_removes_other\<close>,
  \<open>relay_timeout_late\<close>, \<open>relay_unreachable_skips\<close>, \<open>pa_expired_advertisement_kept\<close>, \<open>pa_refresh_stops_timers\<close>,
  \<open>checksol_discards_rfc1256\<close>, \<open>gw_timestamp_overrun\<close>, \<open>li_push_zero_after_removal\<close>,
  \<open>ctrl_handler_blank_line\<close>, \<open>mask_more_specific_little_endian\<close>, \<open>arp_append_use_after_free\<close>, \<open>aq_zero_slim_factor\<close>,
  \<open>ar_add_ignored\<close>, \<open>ar_longer_prefix_hidden\<close>, \<open>ar_same_address_hidden\<close>, \<open>relay_encapsulation_code\<close>, \<open>icmperror_answers_first_fragment\<close>, \<open>both_branches_lose_output\<close>,
  \<open>combined_short_packet\<close>, \<open>known_length_of_other_state\<close>, \<open>offset_wraps\<close>, \<open>optimizer_aborts\<close>, \<open>match_reads_behind\<close>.

  \<^bold>\<open>Not modelled.\<close> The router core (parsing of configurations, scheduling, timers and handlers): elements are
  connected here by composing their functions, and a timer is the delay until it fires. Of the classifiers, \<^verbatim>\<open>IPClassifier\<close> and \<^verbatim>\<open>IPFilter\<close>
  with their compressed programs, and the printing of programs, are left out.
  \<^verbatim>\<open>RadixIPLookup\<close> would be a second instance of \<open>route_table\<close>. Device drivers,
  kernel modules, tools, and elements that no script of the repository uses are left out, as is the
  second copy of the distribution under \<^verbatim>\<open>click-2.1\<close>.
\<close>

end
